(* ===== verification/Prelude.thy ===== *)
theory Prelude
  imports Main "HOL-Library.Char_ord" "HOL-Library.List_Lexorder"
begin

text \<open>
  Shared vocabulary of the development: byte strings and their character classes, decimal
  printing of integers, association lists that stand for Go maps with string keys, the
  result type of the fallible functions and the rule collections the components fill.

  A Go string is a sequence of bytes, and so is the HOL type \<open>string\<close> (a list of 8-bit
  \<open>char\<close>s); the lexicographic order of \<open>List_Lexorder\<close> over the byte order of \<open>Char_ord\<close>
  is Go's order on strings.
\<close>

section \<open>Rule collections\<close>

named_theorems go_defs \<open>unfolding rules of the one-line helpers\<close>
named_theorems keeps \<open>every operation keeps the invariant of its component\<close>
named_theorems frames \<open>which fields of the state an operation leaves alone\<close>

section \<open>Bytes\<close>

type_synonym byte = char

definition in_range :: "char \<Rightarrow> char \<Rightarrow> char \<Rightarrow> bool" where
  "in_range lo hi c \<longleftrightarrow> lo \<le> c \<and> c \<le> hi"

definition byte_val :: "char \<Rightarrow> int" where
  "byte_val c = of_char c"

lemma byte_val_bounds: "0 \<le> byte_val c \<and> byte_val c < 256"
proof -
  have "(of_char c :: nat) < 256" by (rule nat_of_char_less_256)
  moreover have "byte_val c = int (of_char c)"
    by (simp add: byte_val_def of_char_def of_nat_of_bool horner_sum_eq_sum_funpow)
  ultimately show ?thesis by simp
qed

text \<open>An ASCII letter in lower case, as \<open>strings.ToLower\<close> maps it.\<close>

definition lower_byte :: "char \<Rightarrow> char" where
  "lower_byte c = (if in_range CHR ''A'' CHR ''Z'' c then char_of (of_char c + 32 :: nat) else c)"

section \<open>Decimal printing of integers (the verb \<open>%d\<close>)\<close>

definition digit_char :: "int \<Rightarrow> char" where
  "digit_char d = char_of (48 + nat d)"

function int_digits :: "int \<Rightarrow> string" where
  "int_digits n = (if n < 10 then [digit_char n] else int_digits (n div 10) @ [digit_char (n mod 10)])"
  by pat_completeness auto
termination
  by (relation "measure nat") auto

declare int_digits.simps [simp del]

definition int_str :: "int \<Rightarrow> string" where
  "int_str n = (if n < 0 then ''-'' @ int_digits (- n) else int_digits n)"

lemma int_digits_nonempty [simp]: "int_digits n \<noteq> []"
  by (subst int_digits.simps) simp

section \<open>Go maps with string keys\<close>

text \<open>
  A map that is iterated over, counted or handed around as a value is an association list
  with strictly ascending keys: two such lists are equal exactly when the maps are.
\<close>

type_synonym 'a smap = "(string \<times> 'a) list"

fun smap_put :: "string \<Rightarrow> 'a \<Rightarrow> 'a smap \<Rightarrow> 'a smap" where
  "smap_put k v [] = [(k, v)]"
| "smap_put k v ((k', v') # m) =
     (if k = k' then (k, v) # m
      else if k < k' then (k, v) # (k', v') # m
      else (k', v') # smap_put k v m)"

fun smap_del :: "string \<Rightarrow> 'a smap \<Rightarrow> 'a smap" where
  "smap_del k [] = []"
| "smap_del k ((k', v') # m) = (if k = k' then m else (k', v') # smap_del k m)"

definition smap_ok :: "'a smap \<Rightarrow> bool" where
  "smap_ok m \<longleftrightarrow> sorted_wrt (<) (map fst m)"

lemma smap_ok_Nil [simp]: "smap_ok []"
  by (simp add: smap_ok_def)

lemma smap_ok_Cons: "smap_ok ((k, v) # m) \<longleftrightarrow> (\<forall>k' \<in> fst ` set m. k < k') \<and> smap_ok m"
  by (auto simp: smap_ok_def)

lemma set_smap_put: "set (smap_put k v m) \<subseteq> insert (k, v) (set m)"
  by (induction k v m rule: smap_put.induct) auto

lemma smap_ok_put [keeps]: "smap_ok m \<Longrightarrow> smap_ok (smap_put k v m)"
proof (induction m)
  case Nil
  then show ?case by (simp add: smap_ok_def)
next
  case (Cons e m)
  obtain k' v' where e: "e = (k', v')" by (cases e)
  from Cons.prems e have lt: "\<forall>x \<in> fst ` set m. k' < x" and ok: "smap_ok m"
    by (simp_all add: smap_ok_Cons)
  consider "k = k'" | "k < k'" | "k' < k" by fastforce
  then show ?case
  proof cases
    case 3
    then have "\<forall>x \<in> fst ` set (smap_put k v m). k' < x"
      using lt set_smap_put [of k v m] by fastforce
    with 3 e Cons.IH [OF ok] show ?thesis by (auto simp: smap_ok_Cons)
  qed (use e lt ok in \<open>auto simp: smap_ok_Cons\<close>)
qed

lemma map_of_smap_put:
  "map_of (smap_put k v m) = (map_of m)(k \<mapsto> v)"
  by (induction k v m rule: smap_put.induct) (auto simp: fun_eq_iff)

lemma map_of_smap_del:
  "smap_ok m \<Longrightarrow> map_of (smap_del k m) = (map_of m)(k := None)"
proof (induction m)
  case Nil
  then show ?case by simp
next
  case (Cons e m)
  obtain k' v' where e: "e = (k', v')" by (cases e)
  from Cons.prems e have "k' \<notin> fst ` set m" and ok: "smap_ok m"
    by (auto simp: smap_ok_Cons)
  then have "map_of m k' = None" by (simp add: map_of_eq_None_iff)
  with Cons.IH [OF ok] e show ?case by (auto simp: fun_eq_iff)
qed

lemma set_smap_del: "set (smap_del k m) \<subseteq> set m"
  by (induction k m rule: smap_del.induct) auto

lemma smap_ok_del [keeps]: "smap_ok m \<Longrightarrow> smap_ok (smap_del k m)"
proof (induction m)
  case (Cons e m)
  obtain k' v' where "e = (k', v')" by (cases e)
  with Cons show ?case using set_smap_del [of k m] by (fastforce simp: smap_ok_Cons)
qed simp

lemma length_smap_put: "length (smap_put k v m) \<le> Suc (length m)"
  by (induction k v m rule: smap_put.induct) auto

definition smap_of_list :: "(string \<times> 'a) list \<Rightarrow> 'a smap" where
  "smap_of_list kvs = foldl (\<lambda>m (k, v). smap_put k v m) [] kvs"

text \<open>Two canonical maps with the same lookups are the same list.\<close>

lemma smap_ext:
  assumes "smap_ok m" "smap_ok m'" "map_of m = map_of m'"
  shows "m = m'"
  using assms
proof (induction m arbitrary: m')
  case Nil
  then show ?case by (metis list.exhaust map_of_eq_empty_iff)
next
  case (Cons e m)
  obtain k v where e: "e = (k, v)" by (cases e)
  from Cons.prems(3) e obtain k' v' m'' where m': "m' = (k', v') # m''"
    by (cases m') (auto simp: fun_eq_iff dest: spec [of _ k])
  have lt: "\<forall>x \<in> fst ` set m. k < x" "\<forall>x \<in> fst ` set m''. k' < x"
    and ok: "smap_ok m" "smap_ok m''"
    using Cons.prems(1,2) e m' by (simp_all add: smap_ok_Cons)
  have "k \<in> fst ` set m'" "k' \<in> fst ` set (e # m)"
    using Cons.prems(3) e m' by (metis domIff dom_map_of_conv_image_fst map_of_Cons_code(2) option.distinct(1))+
  then have kk: "k = k'" using lt e m' by fastforce
  have none: "map_of m k = None" "map_of m'' k = None"
    using lt kk by (auto simp: map_of_eq_None_iff)
  have v: "v = v'" using fun_cong [OF Cons.prems(3), of k] e m' kk by simp
  have "map_of m = map_of m''"
  proof
    fix x
    show "map_of m x = map_of m'' x"
      using fun_cong [OF Cons.prems(3), of x] e m' kk none by (cases "x = k") auto
  qed
  with Cons.IH ok e m' kk v show ?case by blast
qed

lemma smap_ok_distinct: "smap_ok m \<Longrightarrow> distinct (map fst m)"
  unfolding smap_ok_def by (induction m) auto

section \<open>List facts the components share\<close>

lemma take_Suc_nth: "i < length xs \<Longrightarrow> take (Suc i) xs = take i xs @ [xs ! i]"
  by (rule take_Suc_conv_app_nth)

lemma drop_nth_Cons: "i < length xs \<Longrightarrow> drop i xs = xs ! i # drop (Suc i) xs"
  by (simp add: Cons_nth_drop_Suc)

text \<open>The Go slice expression \<open>s[a:b]\<close> for indices in range.\<close>

definition slice :: "'a list \<Rightarrow> nat \<Rightarrow> nat \<Rightarrow> 'a list" where
  "slice xs a b = take (b - a) (drop a xs)"

lemma slice_empty [simp]: "slice xs a a = []"
  by (simp add: slice_def)

lemma slice_Suc: "a \<le> b \<Longrightarrow> b < length xs \<Longrightarrow> slice xs a (Suc b) = slice xs a b @ [xs ! b]"
  by (simp add: slice_def Suc_diff_le take_Suc_conv_app_nth)

lemma length_slice: "b \<le> length xs \<Longrightarrow> length (slice xs a b) = b - a"
  by (simp add: slice_def)

lemma take_slice: "a \<le> b \<Longrightarrow> take a xs @ slice xs a b = take b xs"
  by (simp add: slice_def flip: take_add)

lemma slice_append: "a \<le> b \<Longrightarrow> b \<le> c \<Longrightarrow> slice xs a b @ slice xs b c = slice xs a c"
proof -
  assume "a \<le> b" "b \<le> c"
  then have "slice xs a c = take ((b - a) + (c - b)) (drop a xs)" by (simp add: slice_def)
  also have "\<dots> = take (b - a) (drop a xs) @ take (c - b) (drop (b - a) (drop a xs))"
    by (rule take_add)
  finally show ?thesis using \<open>a \<le> b\<close> by (simp add: slice_def)
qed

end
