(* ===== verification/RtsToken.thy ===== *)
theory RtsToken
  imports Prelude
begin

text \<open>
  Tokens of RestermScript (\<open>internal/rts/token.go\<close>, \<open>internal/rts/pos.go\<close>): source
  positions, the token kinds in the order of the Go enumeration, their spelling, the keyword
  table and the keyword classes.
\<close>

section \<open>Positions\<close>

record Pos =
  Path :: string
  Line :: int
  Col :: int

definition zero_pos :: Pos where
  "zero_pos = \<lparr>Path = [], Line = 0, Col = 0\<rparr>"

definition pos_string :: "Pos \<Rightarrow> string" where
  "pos_string p =
     (if Path p = [] then int_str (Line p) @ '':'' @ int_str (Col p)
      else Path p @ '':'' @ int_str (Line p) @ '':'' @ int_str (Col p))"

section \<open>Kinds\<close>

datatype (plugins del: quickcheck_random quickcheck_exhaustive quickcheck_bounded_forall
    quickcheck_full_exhaustive quickcheck_narrowing lifting transfer) Kind =
  EOF | ILLEGAL
  | IDENT | NUMBER | STRING
  | KW_EXPORT | KW_MODULE | KW_FN | KW_LET | KW_CONST | KW_IF | KW_ELIF | KW_ELSE
  | KW_SWITCH | KW_CASE | KW_DEFAULT | KW_RETURN | KW_FOR | KW_BREAK | KW_CONTINUE
  | KW_RANGE | KW_TRY | KW_TRUE | KW_FALSE | KW_NULL | KW_AND | KW_OR | KW_NOT
  | ASSIGN | EQ | NE | LT | LE | GT | GE | PLUS | MINUS | STAR | SLASH | PERCENT
  | BANG | ANDAND | OROR | COALESCE | QUESTION | COLON
  | LPAREN | RPAREN | LBRACK | RBRACK | LBRACE | RBRACE | COMMA | DOT | SEMI | AUTO_SEMI

definition all_kinds :: "Kind list" where
  "all_kinds =
    [EOF, ILLEGAL, IDENT, NUMBER, STRING,
     KW_EXPORT, KW_MODULE, KW_FN, KW_LET, KW_CONST, KW_IF, KW_ELIF, KW_ELSE,
     KW_SWITCH, KW_CASE, KW_DEFAULT, KW_RETURN, KW_FOR, KW_BREAK, KW_CONTINUE,
     KW_RANGE, KW_TRY, KW_TRUE, KW_FALSE, KW_NULL, KW_AND, KW_OR, KW_NOT,
     ASSIGN, EQ, NE, LT, LE, GT, GE, PLUS, MINUS, STAR, SLASH, PERCENT,
     BANG, ANDAND, OROR, COALESCE, QUESTION, COLON,
     LPAREN, RPAREN, LBRACK, RBRACK, LBRACE, RBRACE, COMMA, DOT, SEMI, AUTO_SEMI]"

text \<open>The value \<open>iota\<close> gives a kind: its place in the declaration.\<close>

fun kind_num :: "Kind \<Rightarrow> nat" where
  "kind_num EOF = 0"
| "kind_num ILLEGAL = 1"
| "kind_num IDENT = 2"
| "kind_num NUMBER = 3"
| "kind_num STRING = 4"
| "kind_num KW_EXPORT = 5"
| "kind_num KW_MODULE = 6"
| "kind_num KW_FN = 7"
| "kind_num KW_LET = 8"
| "kind_num KW_CONST = 9"
| "kind_num KW_IF = 10"
| "kind_num KW_ELIF = 11"
| "kind_num KW_ELSE = 12"
| "kind_num KW_SWITCH = 13"
| "kind_num KW_CASE = 14"
| "kind_num KW_DEFAULT = 15"
| "kind_num KW_RETURN = 16"
| "kind_num KW_FOR = 17"
| "kind_num KW_BREAK = 18"
| "kind_num KW_CONTINUE = 19"
| "kind_num KW_RANGE = 20"
| "kind_num KW_TRY = 21"
| "kind_num KW_TRUE = 22"
| "kind_num KW_FALSE = 23"
| "kind_num KW_NULL = 24"
| "kind_num KW_AND = 25"
| "kind_num KW_OR = 26"
| "kind_num KW_NOT = 27"
| "kind_num ASSIGN = 28"
| "kind_num EQ = 29"
| "kind_num NE = 30"
| "kind_num LT = 31"
| "kind_num LE = 32"
| "kind_num GT = 33"
| "kind_num GE = 34"
| "kind_num PLUS = 35"
| "kind_num MINUS = 36"
| "kind_num STAR = 37"
| "kind_num SLASH = 38"
| "kind_num PERCENT = 39"
| "kind_num BANG = 40"
| "kind_num ANDAND = 41"
| "kind_num OROR = 42"
| "kind_num COALESCE = 43"
| "kind_num QUESTION = 44"
| "kind_num COLON = 45"
| "kind_num LPAREN = 46"
| "kind_num RPAREN = 47"
| "kind_num LBRACK = 48"
| "kind_num RBRACK = 49"
| "kind_num LBRACE = 50"
| "kind_num RBRACE = 51"
| "kind_num COMMA = 52"
| "kind_num DOT = 53"
| "kind_num SEMI = 54"
| "kind_num AUTO_SEMI = 55"

lemma all_kinds_nth_kind_num: "all_kinds ! kind_num k = k"
  by (cases k) (simp_all add: all_kinds_def)

lemma kind_num_inj: "kind_num a = kind_num b \<longleftrightarrow> a = b"
  by (metis all_kinds_nth_kind_num)

text \<open>Go compares kinds by their numbers.\<close>

instantiation Kind :: linorder
begin

definition less_eq_Kind :: "Kind \<Rightarrow> Kind \<Rightarrow> bool" where
  "less_eq_Kind a b \<longleftrightarrow> kind_num a \<le> kind_num b"

definition less_Kind :: "Kind \<Rightarrow> Kind \<Rightarrow> bool" where
  "less_Kind a b \<longleftrightarrow> kind_num a < kind_num b"

instance
  by standard (auto simp: less_eq_Kind_def less_Kind_def kind_num_inj)

end

record Tok =
  tkK :: Kind
  tkLit :: string
  tkP :: Pos

fun kind_string :: "Kind \<Rightarrow> string" where
  "kind_string EOF = ''EOF''"
| "kind_string ILLEGAL = ''ILLEGAL''"
| "kind_string IDENT = ''IDENT''"
| "kind_string NUMBER = ''NUMBER''"
| "kind_string STRING = ''STRING''"
| "kind_string KW_EXPORT = ''export''"
| "kind_string KW_MODULE = ''module''"
| "kind_string KW_FN = ''fn''"
| "kind_string KW_LET = ''let''"
| "kind_string KW_CONST = ''const''"
| "kind_string KW_IF = ''if''"
| "kind_string KW_ELIF = ''elif''"
| "kind_string KW_ELSE = ''else''"
| "kind_string KW_SWITCH = ''switch''"
| "kind_string KW_CASE = ''case''"
| "kind_string KW_DEFAULT = ''default''"
| "kind_string KW_RETURN = ''return''"
| "kind_string KW_FOR = ''for''"
| "kind_string KW_BREAK = ''break''"
| "kind_string KW_CONTINUE = ''continue''"
| "kind_string KW_RANGE = ''range''"
| "kind_string KW_TRY = ''try''"
| "kind_string KW_TRUE = ''true''"
| "kind_string KW_FALSE = ''false''"
| "kind_string KW_NULL = ''null''"
| "kind_string KW_AND = ''and''"
| "kind_string KW_OR = ''or''"
| "kind_string KW_NOT = ''not''"
| "kind_string ASSIGN = ''=''"
| "kind_string EQ = ''==''"
| "kind_string NE = ''!=''"
| "kind_string LT = ''<''"
| "kind_string LE = ''<=''"
| "kind_string GT = ''>''"
| "kind_string GE = ''>=''"
| "kind_string PLUS = ''+''"
| "kind_string MINUS = ''-''"
| "kind_string STAR = ''*''"
| "kind_string SLASH = ''/''"
| "kind_string PERCENT = ''%''"
| "kind_string BANG = ''!''"
| "kind_string ANDAND = ''&&''"
| "kind_string OROR = ''||''"
| "kind_string COALESCE = ''??''"
| "kind_string QUESTION = ''?''"
| "kind_string COLON = '':''"
| "kind_string LPAREN = ''(''"
| "kind_string RPAREN = '')''"
| "kind_string LBRACK = ''[''"
| "kind_string RBRACK = '']''"
| "kind_string LBRACE = ''{''"
| "kind_string RBRACE = ''}''"
| "kind_string COMMA = '',''"
| "kind_string DOT = ''.''"
| "kind_string SEMI = '';''"
| "kind_string AUTO_SEMI = ''<auto-semi>''"

definition isKeyword :: "Kind \<Rightarrow> bool" where
  "isKeyword k \<longleftrightarrow> KW_EXPORT \<le> k \<and> k \<le> KW_NOT"

section \<open>Keywords\<close>

definition kw :: "(string \<times> Kind) list" where
  "kw = [(''export'', KW_EXPORT), (''module'', KW_MODULE), (''fn'', KW_FN), (''let'', KW_LET),
    (''const'', KW_CONST), (''if'', KW_IF), (''elif'', KW_ELIF), (''else'', KW_ELSE),
    (''switch'', KW_SWITCH), (''case'', KW_CASE), (''default'', KW_DEFAULT),
    (''return'', KW_RETURN), (''for'', KW_FOR), (''break'', KW_BREAK),
    (''continue'', KW_CONTINUE), (''range'', KW_RANGE), (''try'', KW_TRY), (''true'', KW_TRUE),
    (''false'', KW_FALSE), (''null'', KW_NULL), (''and'', KW_AND), (''or'', KW_OR),
    (''not'', KW_NOT)]"

definition kw_lookup :: "string \<Rightarrow> Kind option" where
  "kw_lookup name = map_of kw name"

definition IsKeyword :: "string \<Rightarrow> bool" where
  "IsKeyword name \<longleftrightarrow> kw_lookup name \<noteq> None"

datatype KeywordClass =
  KeywordNone | KeywordDefault | KeywordDecl | KeywordControl | KeywordLiteral | KeywordLogical

definition keywordClassForKind :: "Kind \<Rightarrow> KeywordClass" where
  "keywordClassForKind k =
     (if k \<in> {KW_EXPORT, KW_MODULE, KW_FN, KW_LET, KW_CONST} then KeywordDecl
      else if k \<in> {KW_IF, KW_ELIF, KW_ELSE, KW_SWITCH, KW_CASE, KW_DEFAULT, KW_RETURN, KW_FOR,
                   KW_BREAK, KW_CONTINUE, KW_RANGE, KW_TRY} then KeywordControl
      else if k \<in> {KW_TRUE, KW_FALSE, KW_NULL} then KeywordLiteral
      else if k \<in> {KW_AND, KW_OR, KW_NOT} then KeywordLogical
      else KeywordDefault)"

definition KeywordClassOf :: "string \<Rightarrow> KeywordClass" where
  "KeywordClassOf name =
     (case kw_lookup name of None \<Rightarrow> KeywordNone | Some k \<Rightarrow> keywordClassForKind k)"

lemma kw_kinds: "map snd kw =
    [KW_EXPORT, KW_MODULE, KW_FN, KW_LET, KW_CONST, KW_IF, KW_ELIF, KW_ELSE,
     KW_SWITCH, KW_CASE, KW_DEFAULT, KW_RETURN, KW_FOR, KW_BREAK, KW_CONTINUE,
     KW_RANGE, KW_TRY, KW_TRUE, KW_FALSE, KW_NULL, KW_AND, KW_OR, KW_NOT]"
  by (simp only: kw_def list.map snd_conv)

lemma isKeyword_iff: "isKeyword k \<longleftrightarrow> k \<in> set (map snd kw)"
    unfolding isKeyword_def less_eq_Kind_def kw_kinds
  by (cases k) simp_all

lemma kw_lookup_isKeyword: "kw_lookup s = Some k \<Longrightarrow> isKeyword k"
  unfolding kw_lookup_def isKeyword_iff by (drule map_of_SomeD) force

lemma kw_lookup_kind_string: "isKeyword k \<Longrightarrow> kw_lookup (kind_string k) = Some k"
  unfolding isKeyword_iff kw_kinds kw_lookup_def
  by (simp add: kw_def, elim disjE; simp)

lemma kw_lookup_spelling: "kw_lookup s = Some k \<Longrightarrow> kind_string k = s"
  unfolding kw_lookup_def by (drule map_of_SomeD) (auto simp: kw_def)

text \<open>
  The contiguous range of the enumeration that isKeyword tests is exactly the set of kinds
  the keyword table produces, and the table and the printed spelling are inverse to each other:
  a word is reserved exactly when it is the spelling of a keyword kind, and its class is never
  the one of an ordinary word.
\<close>

theorem keyword_table_exact:
  "(kw_lookup name = Some k \<longleftrightarrow> isKeyword k \<and> kind_string k = name)
   \<and> (IsKeyword name \<longleftrightarrow> KeywordClassOf name \<noteq> KeywordNone)
   \<and> KeywordClassOf name \<noteq> KeywordDefault"
proof -
  have a: "kw_lookup name = Some k \<longleftrightarrow> isKeyword k \<and> kind_string k = name"
    using kw_lookup_isKeyword kw_lookup_kind_string kw_lookup_spelling by blast
  have c: "keywordClassForKind k \<noteq> KeywordNone \<and> keywordClassForKind k \<noteq> KeywordDefault"
    if "isKeyword k" for k
    using that unfolding isKeyword_iff kw_kinds by (auto simp: keywordClassForKind_def)
  show ?thesis
    using a c kw_lookup_isKeyword
    by (auto simp: IsKeyword_def KeywordClassOf_def split: option.splits)
qed

end
