(* ===== verification/GoFloat.thy ===== *)
theory GoFloat
  imports Prelude
begin

text \<open>
  The type \<open>float64\<close> of Go, IEEE 754 binary64 with rounding to nearest, ties to even, and the
  functions of \<open>strconv\<close> and \<open>math\<close> the interpreter applies to it. A finite number is a sign,
  a mantissa and an exponent, \<open>(-1)^neg * m * 2^e\<close>, in one canonical form: \<open>m < 2^53\<close>,
  \<open>-1074 \<le> e \<le> 971\<close>, and \<open>m \<ge> 2^52\<close> unless \<open>e = -1074\<close>. Results are computed exactly over
  the integers and rounded once, which is what the standard prescribes.
\<close>

section \<open>Representation and rounding\<close>

datatype float64 = NaN | Inf bool | Fin bool int int

definition f_canonical :: "float64 \<Rightarrow> bool" where
  "f_canonical x = (case x of
     Fin s m e \<Rightarrow> 0 \<le> m \<and> m < 2 ^ 53 \<and> -1074 \<le> e \<and> e \<le> 971 \<and> (2 ^ 52 \<le> m \<or> e = -1074)
   | _ \<Rightarrow> True)"

fun bit_len :: "int \<Rightarrow> int" where
  "bit_len n = (if n \<le> 0 then 0 else 1 + bit_len (n div 2))"

declare bit_len.simps [simp del]

text \<open>\<open>p / q * 2^(-e)\<close> as a fraction of non-negative integers.\<close>

definition scale_down :: "int \<Rightarrow> int \<Rightarrow> int \<Rightarrow> int \<times> int" where
  "scale_down p q e = (if 0 \<le> e then (p, q * 2 ^ nat e) else (p * 2 ^ nat (- e), q))"

definition round_even :: "int \<Rightarrow> int \<Rightarrow> int" where
  "round_even n d =
     (let f = n div d; r = n mod d in
      if 2 * r < d then f else if 2 * r > d then f + 1 else if even f then f else f + 1)"

definition f_make :: "bool \<Rightarrow> int \<Rightarrow> int \<Rightarrow> float64" where
  "f_make s m e =
     (let (m1, e1) = (if m = 2 ^ 53 then (2 ^ 52, e + 1) else (m, e))
      in if 971 < e1 then Inf s else Fin s m1 e1)"

text \<open>The float64 nearest to \<open>p / q\<close> for \<open>p \<ge> 0\<close>, \<open>q > 0\<close>, with the given sign.\<close>

definition round_ratio :: "bool \<Rightarrow> int \<Rightarrow> int \<Rightarrow> float64" where
  "round_ratio s p q =
     (if p = 0 then Fin s 0 (-1074)
      else let k = bit_len p - bit_len q;
               big = (let (n, d) = scale_down p q k in d \<le> n);
               e = max (-1074) (if big then k - 52 else k - 53);
               (n, d) = scale_down p q e
           in f_make s (round_even n d) e)"

definition round_scaled :: "bool \<Rightarrow> int \<Rightarrow> int \<Rightarrow> float64" where
  "round_scaled s p e =
     (if 0 \<le> e then round_ratio s (p * 2 ^ nat e) 1 else round_ratio s p (2 ^ nat (- e)))"

definition f_of_int :: "int \<Rightarrow> float64" where
  "f_of_int n = round_ratio (n < 0) \<bar>n\<bar> 1"

definition f_zero :: float64 where
  "f_zero = Fin False 0 (-1074)"

section \<open>Comparison\<close>

text \<open>The signed mantissas of two finite numbers at their smaller exponent.\<close>

definition f_align :: "bool \<Rightarrow> int \<Rightarrow> int \<Rightarrow> bool \<Rightarrow> int \<Rightarrow> int \<Rightarrow> int \<times> int \<times> int" where
  "f_align s m e t n d =
     (let k = min e d; a = m * 2 ^ nat (e - k); b = n * 2 ^ nat (d - k)
      in (if s then - a else a, if t then - b else b, k))"

fun f_lt :: "float64 \<Rightarrow> float64 \<Rightarrow> bool" where
  "f_lt NaN _ = False"
| "f_lt _ NaN = False"
| "f_lt (Inf s) (Inf t) = (s \<and> \<not> t)"
| "f_lt (Inf s) (Fin _ _ _) = s"
| "f_lt (Fin _ _ _) (Inf t) = (\<not> t)"
| "f_lt (Fin s m e) (Fin t n d) = (let (a, b, _) = f_align s m e t n d in a < b)"

fun f_eq :: "float64 \<Rightarrow> float64 \<Rightarrow> bool" where
  "f_eq (Inf s) (Inf t) = (s = t)"
| "f_eq (Fin s m e) (Fin t n d) = (let (a, b, _) = f_align s m e t n d in a = b)"
| "f_eq _ _ = False"

definition f_le :: "float64 \<Rightarrow> float64 \<Rightarrow> bool" where
  "f_le x y \<longleftrightarrow> f_lt x y \<or> f_eq x y"

definition f_is_nan :: "float64 \<Rightarrow> bool" where
  "f_is_nan x \<longleftrightarrow> x = NaN"

definition f_is_inf :: "float64 \<Rightarrow> bool" where
  "f_is_inf x \<longleftrightarrow> (\<exists>s \<in> {True, False}. x = Inf s)"

section \<open>Arithmetic\<close>

fun f_neg :: "float64 \<Rightarrow> float64" where
  "f_neg NaN = NaN"
| "f_neg (Inf s) = Inf (\<not> s)"
| "f_neg (Fin s m e) = Fin (\<not> s) m e"

fun f_add :: "float64 \<Rightarrow> float64 \<Rightarrow> float64" where
  "f_add NaN _ = NaN"
| "f_add _ NaN = NaN"
| "f_add (Inf s) (Inf t) = (if s = t then Inf s else NaN)"
| "f_add (Inf s) (Fin _ _ _) = Inf s"
| "f_add (Fin _ _ _) (Inf t) = Inf t"
| "f_add (Fin s m e) (Fin t n d) =
     (let (a, b, k) = f_align s m e t n d; r = a + b
      in if r = 0 then Fin (s \<and> t \<and> m = 0 \<and> n = 0) 0 (-1074)
         else round_scaled (r < 0) \<bar>r\<bar> k)"

definition f_sub :: "float64 \<Rightarrow> float64 \<Rightarrow> float64" where
  "f_sub x y = f_add x (f_neg y)"

fun f_mul :: "float64 \<Rightarrow> float64 \<Rightarrow> float64" where
  "f_mul NaN _ = NaN"
| "f_mul _ NaN = NaN"
| "f_mul (Inf s) (Inf t) = Inf (s \<noteq> t)"
| "f_mul (Inf s) (Fin t n _) = (if n = 0 then NaN else Inf (s \<noteq> t))"
| "f_mul (Fin s m _) (Inf t) = (if m = 0 then NaN else Inf (s \<noteq> t))"
| "f_mul (Fin s m e) (Fin t n d) = round_scaled (s \<noteq> t) (m * n) (e + d)"

fun f_div :: "float64 \<Rightarrow> float64 \<Rightarrow> float64" where
  "f_div NaN _ = NaN"
| "f_div _ NaN = NaN"
| "f_div (Inf _) (Inf _) = NaN"
| "f_div (Inf s) (Fin t _ _) = Inf (s \<noteq> t)"
| "f_div (Fin s _ _) (Inf t) = Fin (s \<noteq> t) 0 (-1074)"
| "f_div (Fin s m e) (Fin t n d) =
     (if n = 0 then (if m = 0 then NaN else Inf (s \<noteq> t))
      else (let (p, q) = (if d \<le> e then (m * 2 ^ nat (e - d), n) else (m, n * 2 ^ nat (d - e)))
            in round_ratio (s \<noteq> t) p q))"

text \<open>\<open>math.Mod\<close>: the remainder has the sign of the first argument and is exact.\<close>

fun f_mod :: "float64 \<Rightarrow> float64 \<Rightarrow> float64" where
  "f_mod NaN _ = NaN"
| "f_mod _ NaN = NaN"
| "f_mod (Inf _) _ = NaN"
| "f_mod (Fin s m e) (Inf _) = Fin s m e"
| "f_mod (Fin s m e) (Fin t n d) =
     (if n = 0 then NaN
      else (let k = min e d
            in round_scaled s ((m * 2 ^ nat (e - k)) mod (n * 2 ^ nat (d - k))) k))"

text \<open>\<open>math.Trunc\<close> and the integer a truncated finite number stands for.\<close>

definition fin_trunc :: "int \<Rightarrow> int \<Rightarrow> int" where
  "fin_trunc m e = (if 0 \<le> e then m * 2 ^ nat e else m div 2 ^ nat (- e))"

fun f_trunc :: "float64 \<Rightarrow> float64" where
  "f_trunc (Fin s m e) = round_ratio s (fin_trunc m e) 1"
| "f_trunc x = x"

text \<open>
  The conversion \<open>int(x)\<close> of a 64-bit platform: truncation where the value is representable; out
  of range the result is the one of amd64, the smallest integer.
\<close>

fun f_to_int :: "float64 \<Rightarrow> int" where
  "f_to_int (Fin s m e) =
     (let t = (if s then - fin_trunc m e else fin_trunc m e)
      in if - (2 ^ 63) \<le> t \<and> t < 2 ^ 63 then t else - (2 ^ 63))"
| "f_to_int _ = - (2 ^ 63)"

section \<open>Parsing decimal literals\<close>

definition digit_val :: "char \<Rightarrow> int" where
  "digit_val c = byte_val c - 48"

definition digits_val :: "string \<Rightarrow> int" where
  "digits_val ds = foldl (\<lambda>n c. 10 * n + digit_val c) 0 ds"

text \<open>
  \<open>strconv.ParseFloat\<close> on \<open>digits\<close> or \<open>digits.digits\<close>, the only texts the lexer makes a NUMBER
  of: the nearest float64, an error where that is infinite.
\<close>

definition parse_decimal :: "string \<Rightarrow> float64 option" where
  "parse_decimal lit =
     (let ip = takeWhile (\<lambda>c. c \<noteq> CHR ''.'') lit; fp = drop (Suc (length ip)) lit;
          x = round_ratio False (digits_val (ip @ fp)) (10 ^ length fp)
      in if x = Inf False then None else Some x)"

section \<open>Formatting\<close>

function lead_zeros :: "int \<Rightarrow> int \<Rightarrow> int" where
  "lead_zeros p q = (if q \<le> p \<or> p \<le> 0 then 0 else 1 + lead_zeros (10 * p) q)"
  by pat_completeness auto
termination
  by (relation "measure (\<lambda>(p, q). nat (q - p))") auto

declare lead_zeros.simps [simp del]

text \<open>The decimal point \<open>dp\<close> of \<open>p / q > 0\<close>: \<open>10^(dp-1) \<le> p / q < 10^dp\<close>.\<close>

definition dec_point :: "int \<Rightarrow> int \<Rightarrow> int" where
  "dec_point p q =
     (if q \<le> p then int (length (int_digits (p div q))) else 1 - lead_zeros p q)"

definition ratio10 :: "int \<Rightarrow> int \<Rightarrow> int \<Rightarrow> int \<times> int" where
  "ratio10 p q k = (if 0 \<le> k then (p * 10 ^ nat k, q) else (p, q * 10 ^ nat (- k)))"

definition dec_value :: "bool \<Rightarrow> int \<Rightarrow> int \<Rightarrow> float64" where
  "dec_value s d k = (if 0 \<le> k then round_ratio s (d * 10 ^ nat k) 1
                      else round_ratio s d (10 ^ nat (- k)))"

text \<open>
  The shortest decimal that reads back as the number: with \<open>n\<close> significant digits only the two
  neighbours of the exact value come into question, and the nearer of those that read back wins.
\<close>

fun shortest :: "nat \<Rightarrow> nat \<Rightarrow> float64 \<Rightarrow> int \<Rightarrow> int \<Rightarrow> int \<Rightarrow> int \<times> int" where
  "shortest 0 n x p q dp = (0, 0)"
| "shortest (Suc f) n x p q dp =
     (let k = int n - dp; (a, b) = ratio10 p q k; lo = a div b; r = a mod b;
          ok = (\<lambda>d. dec_value False d (- k) = x)
      in if r = 0 then (lo, - k)
         else if ok lo \<and> ok (lo + 1) then
           (if 2 * r < b \<or> 2 * r = b \<and> even lo then (lo, - k) else (lo + 1, - k))
         else if ok lo then (lo, - k)
         else if ok (lo + 1) then (lo + 1, - k)
         else shortest f (Suc n) x p q dp)"

function strip_zeros :: "int \<Rightarrow> int \<Rightarrow> int \<times> int" where
  "strip_zeros d k = (if 0 < d \<and> d mod 10 = 0 then strip_zeros (d div 10) (k + 1) else (d, k))"
  by pat_completeness auto
termination
  by (relation "measure (\<lambda>(d, k). nat d)") auto

declare strip_zeros.simps [simp del]

text \<open>The digits and the decimal point of \<open>strconv\<close>'s shortest form; zero has no digits.\<close>

definition short_digits :: "int \<Rightarrow> int \<Rightarrow> string \<times> int" where
  "short_digits m e =
     (if m = 0 then ([], 0)
      else let (p, q) = (if 0 \<le> e then (m * 2 ^ nat e, 1) else (m, 2 ^ nat (- e)));
               (d, k) = shortest 18 1 (Fin False m e) p q (dec_point p q);
               (d', k') = strip_zeros d k;
               ds = int_digits d'
           in (ds, int (length ds) + k'))"

text \<open>\<open>%e\<close> and \<open>%f\<close> with the shortest precision.\<close>

definition fmt_e :: "string \<Rightarrow> int \<Rightarrow> string" where
  "fmt_e ds dp =
     (let ds1 = (if ds = [] then ''0'' else ds);
          ex = (if ds = [] then 0 else dp - 1);
          frac = tl ds1;
          es = int_digits \<bar>ex\<bar>
      in [hd ds1] @ (if frac = [] then [] else ''.'' @ frac) @ ''e'' @
         (if ex < 0 then ''-'' else ''+'') @ (if length es < 2 then ''0'' @ es else es))"

definition fmt_f :: "string \<Rightarrow> int \<Rightarrow> string" where
  "fmt_f ds dp =
     (if dp \<le> 0 then
        (if ds = [] then ''0''
         else ''0.'' @ replicate (nat (- dp)) (CHR ''0'') @ ds)
      else
        (let n = nat dp; ip = take n ds @ replicate (n - length ds) (CHR ''0''); fp = drop n ds
         in ip @ (if fp = [] then [] else ''.'' @ fp)))"

definition sign_str :: "bool \<Rightarrow> string" where
  "sign_str s = (if s then ''-'' else [])"

text \<open>\<open>strconv.FormatFloat(x, 'g', -1, 64)\<close>.\<close>

fun format_g :: "float64 \<Rightarrow> string" where
  "format_g NaN = ''NaN''"
| "format_g (Inf s) = (if s then ''-Inf'' else ''+Inf'')"
| "format_g (Fin s m e) =
     (let (ds, dp) = short_digits m e; ex = dp - 1
      in sign_str s @ (if ex < -4 \<or> 6 \<le> ex then fmt_e ds dp else fmt_f ds dp))"

text \<open>The number format of \<open>encoding/json\<close>; \<open>None\<close> is its error on NaN and infinities.\<close>

fun format_json :: "float64 \<Rightarrow> string option" where
  "format_json (Fin s m e) =
     (let (ds, dp) = short_digits m e;
          small = m \<noteq> 0 \<and> f_lt (Fin False m e) (round_ratio False 1 1000000);
          large = f_le (round_ratio False (10 ^ 21) 1) (Fin False m e);
          t = fmt_e ds dp; n = length t
      in Some (sign_str s @
         (if small \<or> large then
            (if 4 \<le> n \<and> t ! (n - 4) = CHR ''e'' \<and> t ! (n - 3) = CHR ''-'' \<and> t ! (n - 2) = CHR ''0''
             then take (n - 2) t @ drop (n - 1) t else t)
          else fmt_f ds dp)))"
| "format_json _ = None"

end
