(* ===== verification/RtsAst.thy ===== *)
theory RtsAst
  imports RtsToken GoFloat
begin

text \<open>
  The syntax tree of RestermScript (\<open>internal/rts/ast.go\<close>). Each Go node type is a constructor
  with the fields of the struct in order; an interface field or pointer that may be nil is an
  \<open>option\<close>. A clause of a switch with \<open>Exprs\<close> nil is the default clause: here the empty list,
  which the parser builds for no other clause.
\<close>

datatype LitVal = LitNull | LitBool bool | LitNum float64 | LitStr string

datatype BinOp =
  OpAdd | OpSub | OpMul | OpDiv | OpMod | OpEq | OpNe | OpLt | OpLe | OpGt | OpGe
  | OpAnd | OpOr | OpCoalesce

datatype UnOp = UnNot | UnNeg

datatype Expr =
  Ident Pos string
| Literal Pos LitVal
| Unary Pos UnOp Expr
| Binary Pos BinOp Expr Expr
| Ternary Pos Expr Expr Expr
| TryExpr Pos Expr
| Call Pos Expr "Expr list"
| Index Pos Expr Expr
| Member Pos Expr string
| ListLit Pos "Expr list"
| DictLit Pos "(Pos \<times> string \<times> Expr) list"

record ForRange =
  rKey :: string
  rVal :: string
  rExpr :: Expr
  rDeclare :: bool

datatype Stmt =
  LetStmt Pos bool bool string Expr
| AssignStmt Pos string Expr
| ReturnStmt Pos "Expr option"
| ExprStmt Pos Expr
| FnDef Pos bool string "string list" Block
| IfStmt Pos Expr Block "(Expr \<times> Block) list" "Block option"
| SwitchStmt Pos string Pos "Expr option" "(Pos \<times> Expr list \<times> Block) list"
| ForStmt Pos string Pos "Stmt option" "Expr option" "Stmt option" "ForRange option" Block
| BreakStmt Pos string
| ContinueStmt Pos string
and Block = Block Pos "Stmt list"

record Mod =
  mPath :: string
  mName :: string
  mNamePos :: Pos
  mStmts :: "Stmt list"

fun expr_pos :: "Expr \<Rightarrow> Pos" where
  "expr_pos (Ident p _) = p"
| "expr_pos (Literal p _) = p"
| "expr_pos (Unary p _ _) = p"
| "expr_pos (Binary p _ _ _) = p"
| "expr_pos (Ternary p _ _ _) = p"
| "expr_pos (TryExpr p _) = p"
| "expr_pos (Call p _ _) = p"
| "expr_pos (Index p _ _) = p"
| "expr_pos (Member p _ _) = p"
| "expr_pos (ListLit p _) = p"
| "expr_pos (DictLit p _) = p"

fun stmt_pos :: "Stmt \<Rightarrow> Pos" where
  "stmt_pos (LetStmt p _ _ _ _) = p"
| "stmt_pos (AssignStmt p _ _) = p"
| "stmt_pos (ReturnStmt p _) = p"
| "stmt_pos (ExprStmt p _) = p"
| "stmt_pos (FnDef p _ _ _ _) = p"
| "stmt_pos (IfStmt p _ _ _ _) = p"
| "stmt_pos (SwitchStmt p _ _ _ _) = p"
| "stmt_pos (ForStmt p _ _ _ _ _ _ _) = p"
| "stmt_pos (BreakStmt p _) = p"
| "stmt_pos (ContinueStmt p _) = p"

end
