(* ===== verification/GoText.thy ===== *)
theory GoText
  imports Prelude
begin

text \<open>
  The parts of Go's text handling the components use: hexadecimal digits, UTF-8 encoding and
  decoding as \<open>unicode/utf8\<close> does it, the quoting of the verb \<open>%q\<close> on ASCII strings and on a
  byte taken as a code point, \<open>strings.TrimSpace\<close> on ASCII, prefixes and substrings.
\<close>

section \<open>Hexadecimal digits\<close>

definition hex_digit :: "int \<Rightarrow> char" where
  "hex_digit d = (if d < 10 then char_of (48 + nat d) else char_of (87 + nat d))"

definition hex_byte :: "int \<Rightarrow> string" where
  "hex_byte n = [hex_digit (n div 16), hex_digit (n mod 16)]"

definition hex4 :: "int \<Rightarrow> string" where
  "hex4 n = hex_byte (n div 256) @ hex_byte (n mod 256)"

section \<open>UTF-8\<close>

abbreviation chr_of :: "int \<Rightarrow> char" where
  "chr_of n \<equiv> char_of (nat n)"

lemma byte_of_val [simp]: "chr_of (byte_val c) = c"
  using byte_val_bounds [of c] by (simp add: byte_val_def)

lemma byte_val_nat: "byte_val c = int (of_char c)"
  by (simp add: byte_val_def of_char_def of_nat_of_bool horner_sum_eq_sum_funpow)

lemma byte_val_chr: "0 \<le> k \<Longrightarrow> k < 256 \<Longrightarrow> byte_val (chr_of k) = k"
  unfolding byte_val_nat by (simp add: of_char_of)

lemma in_range_val: "in_range lo hi c \<longleftrightarrow> byte_val lo \<le> byte_val c \<and> byte_val c \<le> byte_val hi"
  unfolding in_range_def byte_val_nat less_eq_char_def by simp

definition rune_error :: int where
  "rune_error = 65533"

text \<open>\<open>string(r)\<close> and \<open>utf8.AppendRune\<close>: invalid code points become U+FFFD.\<close>

definition encode_rune :: "int \<Rightarrow> string" where
  "encode_rune r0 =
     (let r = (if r0 < 0 \<or> r0 > 1114111 \<or> (55296 \<le> r0 \<and> r0 \<le> 57343) then rune_error else r0)
      in if r < 128 then [chr_of r]
         else if r < 2048 then [chr_of (192 + r div 64), chr_of (128 + r mod 64)]
         else if r < 65536 then
           [chr_of (224 + r div 4096), chr_of (128 + (r div 64) mod 64), chr_of (128 + r mod 64)]
         else
           [chr_of (240 + r div 262144), chr_of (128 + (r div 4096) mod 64),
            chr_of (128 + (r div 64) mod 64), chr_of (128 + r mod 64)])"

definition cont_byte :: "int \<Rightarrow> bool" where
  "cont_byte b \<longleftrightarrow> 128 \<le> b \<and> b \<le> 191"

text \<open>
  \<open>utf8.DecodeRuneInString\<close> on a non-empty string: the code point and the number of bytes
  read. A byte that starts no valid sequence is U+FFFD of width one.
\<close>

fun decode_rune :: "string \<Rightarrow> int \<times> nat" where
  "decode_rune [] = (rune_error, 0)"
| "decode_rune (c # cs) =
     (let b0 = byte_val c; bs = map byte_val (take 3 cs); bad = (rune_error, 1) in
      if b0 < 128 then (b0, 1)
      else if b0 < 194 then bad
      else if b0 < 224 then
        (case bs of b1 # _ \<Rightarrow>
           if cont_byte b1 then ((b0 - 192) * 64 + (b1 - 128), 2) else bad
         | _ \<Rightarrow> bad)
      else if b0 < 240 then
        (case bs of b1 # b2 # _ \<Rightarrow>
           if (if b0 = 224 then 160 \<le> b1 \<and> b1 \<le> 191
               else if b0 = 237 then 128 \<le> b1 \<and> b1 \<le> 159 else cont_byte b1) \<and> cont_byte b2
           then ((b0 - 224) * 4096 + (b1 - 128) * 64 + (b2 - 128), 3) else bad
         | _ \<Rightarrow> bad)
      else if b0 < 245 then
        (case bs of b1 # b2 # b3 # _ \<Rightarrow>
           if (if b0 = 240 then 144 \<le> b1 \<and> b1 \<le> 191
               else if b0 = 244 then 128 \<le> b1 \<and> b1 \<le> 143 else cont_byte b1)
              \<and> cont_byte b2 \<and> cont_byte b3
           then ((b0 - 240) * 262144 + (b1 - 128) * 4096 + (b2 - 128) * 64 + (b3 - 128), 4)
           else bad
         | _ \<Rightarrow> bad)
      else bad)"

lemma take_eq_length: "take n xs = ys \<Longrightarrow> length ys \<le> length xs"
  by auto

lemma decode_rune_width: "s \<noteq> [] \<Longrightarrow> 1 \<le> snd (decode_rune s) \<and> snd (decode_rune s) \<le> length s"
  by (cases s) (auto simp: Let_def split: list.splits dest!: take_eq_length)

text \<open>\<open>for i, r := range s\<close>: the byte offsets and code points of a string.\<close>

function runes_from :: "nat \<Rightarrow> string \<Rightarrow> (nat \<times> int) list" where
  "runes_from i s =
     (if s = [] then []
      else (let (r, w) = decode_rune s in (i, r) # runes_from (i + w) (drop w s)))"
  by pat_completeness auto
termination
proof (relation "measure (\<lambda>(i, s). length s)", goal_cases)
  case (2 i s p r w)
  then have "w = snd (decode_rune s)" by (metis snd_conv)
  with 2 show ?case using decode_rune_width [of s] by simp
qed simp

declare runes_from.simps [simp del]

section \<open>Quoting\<close>

text \<open>One byte taken as a code point under \<open>%q\<close>: a character literal in Go syntax.\<close>

definition quote_byte :: "char \<Rightarrow> string" where
  "quote_byte c =
     (let n = byte_val c in
      [CHR 0x27] @
      (if n = 39 \<or> n = 92 then [CHR 0x5C, c]
       else if 32 \<le> n \<and> n < 127 then [c]
       else if n = 7 then [CHR 0x5C, CHR ''a'']
       else if n = 8 then [CHR 0x5C, CHR ''b'']
       else if n = 9 then [CHR 0x5C, CHR ''t'']
       else if n = 10 then [CHR 0x5C, CHR ''n'']
       else if n = 11 then [CHR 0x5C, CHR ''v'']
       else if n = 12 then [CHR 0x5C, CHR ''f'']
       else if n = 13 then [CHR 0x5C, CHR ''r'']
       else if n < 32 \<or> n = 127 then [CHR 0x5C, CHR ''x''] @ hex_byte n
       else if n \<le> 160 \<or> n = 173 then [CHR 0x5C, CHR ''u''] @ hex4 n
       else encode_rune n)
      @ [CHR 0x27])"

text \<open>\<open>%q\<close> on a string of ASCII bytes (identifiers, labels and keyword spellings).\<close>

definition quote_escape :: "char \<Rightarrow> string" where
  "quote_escape c =
     (let n = byte_val c in
      if n = 34 \<or> n = 92 then [CHR 0x5C, c]
      else if 32 \<le> n \<and> n < 127 then [c]
      else if n = 7 then [CHR 0x5C, CHR ''a'']
      else if n = 8 then [CHR 0x5C, CHR ''b'']
      else if n = 9 then [CHR 0x5C, CHR ''t'']
      else if n = 10 then [CHR 0x5C, CHR ''n'']
      else if n = 11 then [CHR 0x5C, CHR ''v'']
      else if n = 12 then [CHR 0x5C, CHR ''f'']
      else if n = 13 then [CHR 0x5C, CHR ''r'']
      else [CHR 0x5C, CHR ''x''] @ hex_byte n)"

definition quote_ascii :: "string \<Rightarrow> string" where
  "quote_ascii s = [CHR 0x22] @ concat (map quote_escape s) @ [CHR 0x22]"

section \<open>Functions of the package strings\<close>

definition is_ascii_space :: "char \<Rightarrow> bool" where
  "is_ascii_space c \<longleftrightarrow> c = CHR '' '' \<or> in_range CHR 0x09 CHR 0x0D c"

definition trim_space :: "string \<Rightarrow> string" where
  "trim_space s = rev (dropWhile is_ascii_space (rev (dropWhile is_ascii_space s)))"

definition has_prefix :: "string \<Rightarrow> string \<Rightarrow> bool" where
  "has_prefix s p \<longleftrightarrow> take (length p) s = p"

definition has_suffix :: "string \<Rightarrow> string \<Rightarrow> bool" where
  "has_suffix s p \<longleftrightarrow> length p \<le> length s \<and> drop (length s - length p) s = p"

fun str_contains :: "string \<Rightarrow> string \<Rightarrow> bool" where
  "str_contains [] p \<longleftrightarrow> p = []"
| "str_contains (c # s) p \<longleftrightarrow> has_prefix (c # s) p \<or> str_contains s p"

definition to_lower :: "string \<Rightarrow> string" where
  "to_lower s = map lower_byte s"

lemma str_contains_iff: "str_contains s p \<longleftrightarrow> (\<exists>a b. s = a @ p @ b)"
proof (induction s)
  case Nil
  then show ?case by auto
next
  case (Cons c s)
  have pre: "has_prefix (c # s) p \<longleftrightarrow> (\<exists>b. c # s = p @ b)"
    unfolding has_prefix_def by (metis append_eq_conv_conj append_take_drop_id)
  have "(\<exists>a b. c # s = a @ p @ b) \<longleftrightarrow> (\<exists>b. c # s = p @ b) \<or> (\<exists>a b. s = a @ p @ b)"
    by (metis append_Cons append_Nil list.inject neq_Nil_conv)
  with Cons.IH pre show ?case by simp
qed

end
