(* ===== verification/GoJson.thy ===== *)
theory GoJson
  imports GoText GoFloat
begin

text \<open>
  The part of Go's \<open>encoding/json\<close> that the runtime uses: \<open>json.Marshal\<close> of the values built by
  \<open>ToIface\<close>. Strings are escaped as the encoder does by default (HTML-sensitive characters and
  the line separators U+2028 and U+2029 as \<open>\u\<close> escapes, an invalid byte as U+FFFD), numbers are
  printed by \<open>format_json\<close>, which has no answer for NaN and the infinities.
\<close>

datatype jsonv =
  JNull | JBool bool | JNum float64 | JStr string | JArr "jsonv list" | JObj "(string \<times> jsonv) list"

definition json_u :: "int \<Rightarrow> string" where
  "json_u n = CHR 0x5C # CHR ''u'' # hex4 n"

definition json_rune :: "int \<Rightarrow> nat \<Rightarrow> string \<Rightarrow> string" where
  "json_rune r w raw =
     (if r < 0x80 then
        (if r = 0x22 \<or> r = 0x5C then [CHR 0x5C, chr_of r]
         else if r = 0x08 then [CHR 0x5C, CHR ''b'']
         else if r = 0x0C then [CHR 0x5C, CHR ''f'']
         else if r = 0x0A then [CHR 0x5C, CHR ''n'']
         else if r = 0x0D then [CHR 0x5C, CHR ''r'']
         else if r = 0x09 then [CHR 0x5C, CHR ''t'']
         else if r < 0x20 \<or> r = 0x3C \<or> r = 0x3E \<or> r = 0x26 then json_u r
         else [chr_of r])
      else if r = rune_error \<and> w = 1 then json_u r
      else if r = 0x2028 \<or> r = 0x2029 then json_u r
      else raw)"

lemma decode_rune_shorter: "(r, w) = decode_rune s \<Longrightarrow> s \<noteq> [] \<Longrightarrow> length (drop w s) < length s"
  using decode_rune_width [of s] by (cases "decode_rune s") auto

function json_chars :: "string \<Rightarrow> string" where
  "json_chars s =
     (if s = [] then []
      else let (r, w) = decode_rune s in json_rune r w (take w s) @ json_chars (drop w s))"
  by pat_completeness auto
termination
  by (relation "measure length") (simp, unfold in_measure, blast intro: decode_rune_shorter)

declare json_chars.simps [simp del]

definition json_string :: "string \<Rightarrow> string" where
  "json_string s = CHR 0x22 # json_chars s @ [CHR 0x22]"

definition join_with :: "string \<Rightarrow> string list \<Rightarrow> string" where
  "join_with sep xs = (case xs of [] \<Rightarrow> [] | x # xs \<Rightarrow> concat (x # map (\<lambda>y. sep @ y) xs))"

fun json_enc :: "jsonv \<Rightarrow> string option" where
  "json_enc JNull = Some ''null''"
| "json_enc (JBool b) = Some (if b then ''true'' else ''false'')"
| "json_enc (JNum x) = format_json x"
| "json_enc (JStr s) = Some (json_string s)"
| "json_enc (JArr xs) =
     map_option (\<lambda>ys. ''['' @ join_with '','' ys @ '']'') (those (map json_enc xs))"
| "json_enc (JObj kvs) =
     map_option (\<lambda>ys. ''{'' @ join_with '','' ys @ ''}'')
       (those (map (\<lambda>kv. map_option (\<lambda>j. json_string (fst kv) @ '':'' @ j) (json_enc (snd kv))) kvs))"

end
