(* ===== verification/RtsValue.thy ===== *)
theory RtsValue
  imports RtsAst GoJson
begin

text \<open>
  Values, environments and errors of the RestermScript runtime (\<open>internal/rts/value.go\<close>,
  \<open>ctx.go\<close>, \<open>pos.go\<close>, \<open>result.go\<close>, \<open>modobj.go\<close>, \<open>conv.go\<close>, \<open>limits.go\<close>,
  \<open>args.go\<close>). A dictionary is an association list with ascending keys. A Go pointer to an
  environment is an index into the store of environments of the run; a native function is the name
  it is registered under; an object is one of the runtime's own (the result of \<open>try\<close>, a module, a
  namespace of the standard library) or a host object known by its number. What the host puts
  behind a name or a number comes with the configuration of the run (\<open>Cfg\<close>).
\<close>

section \<open>Values\<close>

record Func =
  fnName :: string
  fnArgs :: "string list"
  fnBody :: Block
  fnEnv :: nat
  fnPos :: Pos

datatype Value =
  VNull
| VBool bool
| VNum float64
| VStr string
| VList "Value list"
| VDict "(string \<times> Value) list"
| VFunc "Func option"
| VNative "string option"
| VObj "Obj option"
and Obj =
  ResultObj bool Value string
| ModObj string "(string \<times> Value) list"
| ObjMap string "(string \<times> Value) list"
| HostObj nat

text \<open>The number of a kind, as \<open>%v\<close> prints it.\<close>

fun vkind :: "Value \<Rightarrow> int" where
  "vkind VNull = 0"
| "vkind (VBool _) = 1"
| "vkind (VNum _) = 2"
| "vkind (VStr _) = 3"
| "vkind (VList _) = 4"
| "vkind (VDict _) = 5"
| "vkind (VFunc _) = 6"
| "vkind (VNative _) = 7"
| "vkind (VObj _) = 8"

section \<open>Errors, frames and limits\<close>

datatype FrameKind = FrameFn | FrameNative | FrameExpr

record Frame =
  frKind :: FrameKind
  frPos :: Pos
  frName :: string

datatype AbortKind = AbortScript | AbortTimeout | AbortCanceled

text \<open>
  Go errors of the runtime: runtime and abort errors, an error with its call stack, the three
  control signals that travel as errors, the error of a host or a library. \<open>OutOfFuel\<close> is the
  model's own: no Go execution has it.
\<close>

datatype err =
  RuntimeErr Pos string
| AbortErr Pos string AbortKind
| StackErr err "Frame list"
| RetSig Value
| BreakSig Pos string
| ContinueSig Pos string
| PlainErr string
| OutOfFuel

fun err_text :: "err \<Rightarrow> string" where
  "err_text (RuntimeErr p m) = (if Line p = 0 then m else pos_string p @ '': '' @ m)"
| "err_text (AbortErr p m _) = (if Line p = 0 then m else pos_string p @ '': '' @ m)"
| "err_text (StackErr e _) = err_text e"
| "err_text (RetSig _) = ''return''"
| "err_text (BreakSig _ _) = ''break''"
| "err_text (ContinueSig _ _) = ''continue''"
| "err_text (PlainErr m) = m"
| "err_text OutOfFuel = []"

fun isAbort :: "err \<Rightarrow> bool" where
  "isAbort (AbortErr _ _ _) = True"
| "isAbort (StackErr (AbortErr _ _ _) _) = True"
| "isAbort _ = False"

record Limits =
  MaxSteps :: int
  MaxCall :: int
  MaxStr :: int
  MaxList :: int
  MaxDict :: int
  Timeout :: int

definition Errf :: "Frame list \<Rightarrow> Pos \<Rightarrow> string \<Rightarrow> err" where
  "Errf stk pos msg = StackErr (RuntimeErr pos msg) stk"

definition rtAbort :: "Frame list \<Rightarrow> Pos \<Rightarrow> AbortKind \<Rightarrow> string \<Rightarrow> err" where
  "rtAbort stk pos kind msg = StackErr (AbortErr pos msg kind) stk"

fun WrapErr :: "Frame list \<Rightarrow> err \<Rightarrow> err" where
  "WrapErr stk (StackErr e fs) = StackErr e fs"
| "WrapErr stk e = StackErr e stk"

text \<open>The stack printed with an error, innermost call last.\<close>

definition Pretty :: "err \<Rightarrow> Frame list \<Rightarrow> string" where
  "Pretty e fs = err_text e @ concat (map (\<lambda>f. CHR 0x0A # ''  at '' @ pos_string (frPos f) @ '' in ''
      @ (if frName f = [] then ''<fn>'' else frName f)) fs)"

section \<open>The host\<close>

text \<open>
  The methods of a host object; the optional ones (\<open>Truthy\<close>, \<open>Unbound\<close>, \<open>ToInterface\<close>) are
  \<open>None\<close> when the Go type does not implement the interface. The context they see is the limits
  and the call stack.
\<close>

record HostObj =
  hoTypeName :: string
  hoMember :: "Limits \<Rightarrow> Frame list \<Rightarrow> Pos \<Rightarrow> string \<Rightarrow> err + Value option"
  hoIndex :: "Limits \<Rightarrow> Frame list \<Rightarrow> Pos \<Rightarrow> Value \<Rightarrow> err + Value"
  hoTruthy :: "bool option"
  hoUnbound :: "string option"
  hoIface :: "jsonv option"

type_synonym Hosts = "nat \<Rightarrow> HostObj"

section \<open>Truth and equality\<close>

fun obj_truthy :: "Hosts \<Rightarrow> Obj \<Rightarrow> bool" where
  "obj_truthy h (ResultObj ok _ _) = ok"
| "obj_truthy h (ModObj _ _) = True"
| "obj_truthy h (ObjMap _ _) = True"
| "obj_truthy h (HostObj n) = (case hoTruthy (h n) of Some b \<Rightarrow> b | None \<Rightarrow> True)"

fun IsTruthy :: "Hosts \<Rightarrow> Value \<Rightarrow> bool" where
  "IsTruthy h VNull = False"
| "IsTruthy h (VBool b) = b"
| "IsTruthy h (VNum n) = (\<not> f_eq n f_zero)"
| "IsTruthy h (VStr s) = (s \<noteq> [])"
| "IsTruthy h (VList xs) = (length xs \<noteq> 0)"
| "IsTruthy h (VDict m) = (length m \<noteq> 0)"
| "IsTruthy h (VObj (Some ob)) = obj_truthy h ob"
| "IsTruthy h _ = True"

fun ValueEqual :: "Value \<Rightarrow> Value \<Rightarrow> bool" where
  "ValueEqual VNull VNull = True"
| "ValueEqual (VBool a) (VBool b) = (a = b)"
| "ValueEqual (VNum a) (VNum b) = f_eq a b"
| "ValueEqual (VStr a) (VStr b) = (a = b)"
| "ValueEqual _ _ = False"

section \<open>Limits on values\<close>

definition CheckStr :: "Limits \<Rightarrow> Frame list \<Rightarrow> Pos \<Rightarrow> string \<Rightarrow> err option" where
  "CheckStr lim stk pos s =
     (if MaxStr lim \<le> 0 then None
      else if int (length s) > MaxStr lim then Some (Errf stk pos ''string too long'') else None)"

definition CheckList :: "Limits \<Rightarrow> Frame list \<Rightarrow> Pos \<Rightarrow> nat \<Rightarrow> err option" where
  "CheckList lim stk pos n =
     (if MaxList lim \<le> 0 then None
      else if int n > MaxList lim then Some (Errf stk pos ''list too large'') else None)"

definition CheckDict :: "Limits \<Rightarrow> Frame list \<Rightarrow> Pos \<Rightarrow> nat \<Rightarrow> err option" where
  "CheckDict lim stk pos n =
     (if MaxDict lim \<le> 0 then None
      else if int n > MaxDict lim then Some (Errf stk pos ''dict too large'') else None)"

definition chkVal :: "Limits \<Rightarrow> Frame list \<Rightarrow> Pos \<Rightarrow> Value \<Rightarrow> err option" where
  "chkVal lim stk pos v =
     (case v of
        VStr s \<Rightarrow> CheckStr lim stk pos s
      | VList xs \<Rightarrow> CheckList lim stk pos (length xs)
      | VDict m \<Rightarrow> CheckDict lim stk pos (length m)
      | _ \<Rightarrow> None)"

section \<open>Conversions\<close>

definition kind_text :: "Value \<Rightarrow> string" where
  "kind_text v = ''<'' @ int_str (vkind v) @ ''>''"

fun ToIface :: "Hosts \<Rightarrow> Value \<Rightarrow> jsonv"
  and obj_iface :: "Hosts \<Rightarrow> Obj \<Rightarrow> jsonv option"
where
  "ToIface h VNull = JNull"
| "ToIface h (VBool b) = JBool b"
| "ToIface h (VNum n) = JNum n"
| "ToIface h (VStr s) = JStr s"
| "ToIface h (VList xs) = JArr (map (ToIface h) xs)"
| "ToIface h (VDict m) = JObj (map (\<lambda>kv. (fst kv, ToIface h (snd kv))) m)"
| "ToIface h (VObj (Some ob)) =
     (case obj_iface h ob of Some j \<Rightarrow> j | None \<Rightarrow> JStr ''<8>'')"
| "ToIface h v = JStr (kind_text v)"
| "obj_iface h (ResultObj ok v e) =
     Some (JObj [(''error'', if ok \<or> e = [] then JNull else JStr e), (''ok'', JBool ok),
                 (''value'', ToIface h v)])"
| "obj_iface h (HostObj n) = hoIface (h n)"
| "obj_iface h _ = None"

definition encode_limited :: "Limits \<Rightarrow> Frame list \<Rightarrow> Pos \<Rightarrow> jsonv \<Rightarrow> err + string" where
  "encode_limited lim stk pos j =
     (case json_enc j of
        None \<Rightarrow> Inl (Errf stk pos ''json encode failed'')
      | Some s \<Rightarrow> (if 0 < MaxStr lim \<and> int (length s) > MaxStr lim
                   then Inl (Errf stk pos ''string too long'') else Inr s))"

definition cannot_stringify :: "Frame list \<Rightarrow> Pos \<Rightarrow> Value \<Rightarrow> err" where
  "cannot_stringify stk pos v = Errf stk pos (''cannot stringify '' @ int_str (vkind v))"

definition ToStr :: "Hosts \<Rightarrow> Limits \<Rightarrow> Frame list \<Rightarrow> Pos \<Rightarrow> Value \<Rightarrow> err + string" where
  "ToStr h lim stk pos v =
     (case v of
        VStr s \<Rightarrow> Inr s
      | VNum n \<Rightarrow> Inr (format_g n)
      | VBool b \<Rightarrow> Inr (if b then ''true'' else ''false'')
      | VNull \<Rightarrow> Inr []
      | VList _ \<Rightarrow> encode_limited lim stk pos (ToIface h v)
      | VDict _ \<Rightarrow> encode_limited lim stk pos (ToIface h v)
      | VObj (Some ob) \<Rightarrow>
          (case obj_iface h ob of
             Some j \<Rightarrow> encode_limited lim stk pos j
           | None \<Rightarrow> Inl (cannot_stringify stk pos v))
      | _ \<Rightarrow> Inl (cannot_stringify stk pos v))"

text \<open>\<open>toNum\<close> and \<open>Key\<close> report without a call stack; their callers attach it.\<close>

fun toNum :: "Pos \<Rightarrow> Value \<Rightarrow> err + float64" where
  "toNum pos (VNum n) = Inr n"
| "toNum pos _ = Inl (RuntimeErr pos ''expected number'')"

fun Key :: "Pos \<Rightarrow> Value \<Rightarrow> err + string" where
  "Key pos (VStr s) = Inr s"
| "Key pos _ = Inl (RuntimeErr pos ''expected string key'')"

section \<open>Objects of the runtime\<close>

definition newResult :: "bool \<Rightarrow> Value \<Rightarrow> err option \<Rightarrow> Value" where
  "newResult ok v e =
     VObj (Some (if ok then ResultObj True v []
                 else ResultObj False VNull (case e of Some x \<Rightarrow> err_text x | None \<Rightarrow> [])))"

fun result_member :: "Limits \<Rightarrow> Frame list \<Rightarrow> Pos \<Rightarrow> string \<Rightarrow> bool \<Rightarrow> Value \<Rightarrow> string \<Rightarrow> err + Value option" where
  "result_member lim stk pos name ok v e =
     (if name = ''ok'' then Inr (Some (VBool ok))
      else if name = ''value'' then Inr (Some v)
      else if name = ''error'' then
        (if ok \<or> e = [] then Inr (Some VNull)
         else case CheckStr lim stk pos e of Some x \<Rightarrow> Inl x | None \<Rightarrow> Inr (Some (VStr e)))
      else Inr None)"

fun obj_member :: "Hosts \<Rightarrow> Limits \<Rightarrow> Frame list \<Rightarrow> Pos \<Rightarrow> Obj \<Rightarrow> string \<Rightarrow> err + Value option" where
  "obj_member h lim stk pos (ResultObj ok v e) name = result_member lim stk pos name ok v e"
| "obj_member h lim stk pos (ModObj _ m) name = Inr (map_of m name)"
| "obj_member h lim stk pos (ObjMap _ m) name = Inr (map_of m name)"
| "obj_member h lim stk pos (HostObj n) name = hoMember (h n) lim stk pos name"

definition or_null :: "Value option \<Rightarrow> Value" where
  "or_null r = (case r of Some v \<Rightarrow> v | None \<Rightarrow> VNull)"

fun obj_index :: "Hosts \<Rightarrow> Limits \<Rightarrow> Frame list \<Rightarrow> Pos \<Rightarrow> Obj \<Rightarrow> Value \<Rightarrow> err + Value" where
  "obj_index h lim stk pos (HostObj n) key = hoIndex (h n) lim stk pos key"
| "obj_index h lim stk pos ob key =
     (case Key pos key of
        Inl e \<Rightarrow> Inl e
      | Inr k \<Rightarrow> (case obj_member h lim stk pos ob k of Inl e \<Rightarrow> Inl e | Inr r \<Rightarrow> Inr (or_null r)))"

text \<open>Why a host name is unavailable in this phase: \<open>None\<close> when it is available.\<close>

definition unbound_reason :: "Hosts \<Rightarrow> Value \<Rightarrow> string option" where
  "unbound_reason h v =
     (case v of
        VObj (Some (HostObj n)) \<Rightarrow>
          (case hoUnbound (h n) of
             Some why \<Rightarrow> (if why = [] then None else Some why)
           | None \<Rightarrow> None)
      | _ \<Rightarrow> None)"

section \<open>Environments\<close>

record Binding =
  bV :: Value
  bConst :: bool

record Env =
  eUp :: "nat option"
  eVars :: "string \<rightharpoonup> Binding"

type_synonym Store = "Env list"

definition NewEnv :: "nat option \<Rightarrow> Store \<Rightarrow> nat \<times> Store" where
  "NewEnv up st = (length st, st @ [\<lparr>eUp = up, eVars = Map.empty\<rparr>])"

definition DefWith :: "nat \<Rightarrow> string \<Rightarrow> Value \<Rightarrow> bool \<Rightarrow> Store \<Rightarrow> Store" where
  "DefWith i name v c st =
     (let e = st ! i in st[i := e\<lparr>eVars := (eVars e)(name \<mapsto> \<lparr>bV = v, bConst = c\<rparr>)\<rparr>])"

definition HasLocal :: "nat \<Rightarrow> string \<Rightarrow> Store \<Rightarrow> bool" where
  "HasLocal i name st \<longleftrightarrow> eVars (st ! i) name \<noteq> None"

text \<open>
  The environment that binds a name, innermost first. A parent is always an older environment
  (\<open>store_ok\<close> of RtsVmProps), which is what ends the walk.
\<close>

function lookup_env :: "Store \<Rightarrow> nat \<Rightarrow> string \<Rightarrow> (nat \<times> Binding) option" where
  "lookup_env st i name =
     (if i < length st then
        (case eVars (st ! i) name of
           Some b \<Rightarrow> Some (i, b)
         | None \<Rightarrow>
             (case eUp (st ! i) of
                Some u \<Rightarrow> (if u < i then lookup_env st u name else None)
              | None \<Rightarrow> None))
      else None)"
  by pat_completeness auto
termination
  by (relation "measure (\<lambda>(st, i, name). i)") auto

declare lookup_env.simps [simp del]

definition env_get :: "Store \<Rightarrow> nat \<Rightarrow> string \<Rightarrow> Value option" where
  "env_get st i name = map_option (\<lambda>(j, b). bV b) (lookup_env st i name)"

text \<open>The results of \<open>Set\<close> are: found, found but constant.\<close>

definition env_set :: "nat \<Rightarrow> string \<Rightarrow> Value \<Rightarrow> Store \<Rightarrow> (bool \<times> bool) \<times> Store" where
  "env_set i name v st =
     (case lookup_env st i name of
        None \<Rightarrow> ((False, False), st)
      | Some (j, b) \<Rightarrow> (if bConst b then ((True, True), st) else ((True, False), DefWith j name v False st)))"

end
