(* ===== verification/RtsVm.thy ===== *)
theory RtsVm
  imports RtsValue
begin

text \<open>
  The RestermScript evaluator (\<open>internal/rts/vm.go\<close>, \<open>ctx.go\<close>, \<open>call.go\<close>, \<open>native.go\<close>). A
  computation maps the state of the run to an error or a value and the next state. The methods
  that call back into \<open>eval\<close>, \<open>execStmt\<close> or \<open>callVal\<close> take that call as an argument (\<open>ev\<close>, \<open>ex\<close>,
  \<open>cv\<close>); \<open>evalN\<close>, \<open>execN\<close> and \<open>callN\<close> tie the knot with a bound on the nesting, and a \<open>for\<close>
  loop counts down the bound of its statement. RtsVmProps shows how large a bound is enough.
\<close>

section \<open>State and configuration\<close>

record Vm =
  vm_steps :: int
  vm_depth :: int
  vm_stack :: "Frame list"
  vm_envs :: Store
  vm_exp :: "(string \<times> Value) list"

type_synonym 'a comp = "Vm \<Rightarrow> (err + 'a) \<times> Vm"

text \<open>
  What does not change during a run: the limits, the time passed when the \<open>n\<close>-th step is taken,
  the reason the caller's context is cancelled at that step (if it is), the host objects.
\<close>

record Rt =
  rt_lim :: Limits
  rt_elapsed :: "int \<Rightarrow> int"
  rt_done :: "int \<Rightarrow> string option"
  rt_hosts :: Hosts

type_synonym caller = "Pos \<Rightarrow> Value \<Rightarrow> Value list \<Rightarrow> Value comp"

text \<open>A native function may call back into the evaluator (\<open>CallValue\<close>).\<close>

type_synonym NativeFunc = "Rt \<Rightarrow> caller \<Rightarrow> Pos \<Rightarrow> Value list \<Rightarrow> Value comp"

record Cfg =
  cf_rt :: Rt
  cf_native :: "string \<Rightarrow> NativeFunc option"

section \<open>Computations\<close>

definition vret :: "'a \<Rightarrow> 'a comp" where
  "vret x = (\<lambda>s. (Inr x, s))"

definition vfail :: "err \<Rightarrow> 'a comp" where
  "vfail e = (\<lambda>s. (Inl e, s))"

definition vbind :: "'a comp \<Rightarrow> ('a \<Rightarrow> 'b comp) \<Rightarrow> 'b comp" where
  "vbind m f = (\<lambda>s. case m s of (Inl e, s1) \<Rightarrow> (Inl e, s1) | (Inr x, s1) \<Rightarrow> f x s1)"

text \<open>Looking at the outcome of a computation, error or not.\<close>

definition vcatch :: "'a comp \<Rightarrow> (err + 'a \<Rightarrow> 'b comp) \<Rightarrow> 'b comp" where
  "vcatch m h = (\<lambda>s. case m s of (r, s1) \<Rightarrow> h r s1)"

text \<open>A step that reads the call stack only.\<close>

definition vpure :: "(Frame list \<Rightarrow> err + 'a) \<Rightarrow> 'a comp" where
  "vpure f = (\<lambda>s. (f (vm_stack s), s))"

definition verr :: "Pos \<Rightarrow> string \<Rightarrow> 'a comp" where
  "verr pos msg = vpure (\<lambda>stk. Inl (Errf stk pos msg))"

definition vcheck :: "(Frame list \<Rightarrow> err option) \<Rightarrow> unit comp" where
  "vcheck f = vpure (\<lambda>stk. case f stk of Some e \<Rightarrow> Inl e | None \<Rightarrow> Inr ())"

text \<open>An error without a stack gets the current one.\<close>

definition vwrap :: "err + 'a \<Rightarrow> 'a comp" where
  "vwrap r = vpure (\<lambda>stk. case r of Inl e \<Rightarrow> Inl (WrapErr stk e) | Inr x \<Rightarrow> Inr x)"

definition v_new_env :: "nat option \<Rightarrow> nat comp" where
  "v_new_env up = (\<lambda>s. case NewEnv up (vm_envs s) of (i, st) \<Rightarrow> (Inr i, s\<lparr>vm_envs := st\<rparr>))"

definition v_def :: "nat \<Rightarrow> string \<Rightarrow> Value \<Rightarrow> bool \<Rightarrow> unit comp" where
  "v_def i name v c = (\<lambda>s. (Inr (), s\<lparr>vm_envs := DefWith i name v c (vm_envs s)\<rparr>))"

definition v_has_local :: "nat \<Rightarrow> string \<Rightarrow> bool comp" where
  "v_has_local i name = (\<lambda>s. (Inr (HasLocal i name (vm_envs s)), s))"

definition v_get :: "nat \<Rightarrow> string \<Rightarrow> Value option comp" where
  "v_get i name = (\<lambda>s. (Inr (env_get (vm_envs s) i name), s))"

definition v_set :: "nat \<Rightarrow> string \<Rightarrow> Value \<Rightarrow> (bool \<times> bool) comp" where
  "v_set i name v = (\<lambda>s. case env_set i name v (vm_envs s) of (r, st) \<Rightarrow> (Inr r, s\<lparr>vm_envs := st\<rparr>))"

definition v_export :: "bool \<Rightarrow> string \<Rightarrow> Value \<Rightarrow> unit comp" where
  "v_export c name v =
     (\<lambda>s. (Inr (), if c then s\<lparr>vm_exp := smap_put name v (vm_exp s)\<rparr> else s))"

section \<open>Steps, frames, calls\<close>

definition tick :: "Rt \<Rightarrow> Pos \<Rightarrow> unit comp" where
  "tick rt pos s =
     (let s1 = s\<lparr>vm_steps := vm_steps s + 1\<rparr>; n = vm_steps s1; stk = vm_stack s1; lim = rt_lim rt in
      if 0 < MaxSteps lim \<and> n > MaxSteps lim then
        (Inl (rtAbort stk pos AbortScript ''step limit exceeded''), s1)
      else if 0 < Timeout lim \<and> rt_elapsed rt n > Timeout lim then
        (Inl (rtAbort stk pos AbortTimeout ''timeout exceeded''), s1)
      else case rt_done rt n of
        Some why \<Rightarrow> (Inl (rtAbort stk pos AbortCanceled (''canceled: '' @ why)), s1)
      | None \<Rightarrow> (Inr (), s1))"

text \<open>\<open>push\<close> now and \<open>defer pop\<close>; a function call also counts the depth.\<close>

definition with_frame :: "int \<Rightarrow> Frame \<Rightarrow> 'a comp \<Rightarrow> 'a comp" where
  "with_frame d f m =
     (\<lambda>s. case m (s\<lparr>vm_stack := vm_stack s @ [f], vm_depth := vm_depth s + d\<rparr>) of
        (r, s1) \<Rightarrow> (r, s1\<lparr>vm_stack := butlast (vm_stack s1), vm_depth := vm_depth s1 - d\<rparr>))"

definition NativeNamed :: "string \<Rightarrow> NativeFunc \<Rightarrow> NativeFunc" where
  "NativeNamed name f rt cv pos args =
     with_frame 0 \<lparr>frKind = FrameNative, frPos = pos, frName = name\<rparr> (f rt cv pos args)"

text \<open>Host names that are unavailable abort, so that \<open>try\<close> cannot hide them.\<close>

definition checkBound :: "Rt \<Rightarrow> Pos \<Rightarrow> Value \<Rightarrow> unit comp" where
  "checkBound rt pos v =
     vcheck (\<lambda>stk. map_option (rtAbort stk pos AbortScript) (unbound_reason (rt_hosts rt) v))"

section \<open>Expressions\<close>

type_synonym evaluator = "nat \<Rightarrow> Expr \<Rightarrow> Value comp"

fun lit_value :: "LitVal \<Rightarrow> Value" where
  "lit_value LitNull = VNull"
| "lit_value (LitBool b) = VBool b"
| "lit_value (LitNum n) = VNum n"
| "lit_value (LitStr s) = VStr s"

text \<open>\<open>cmp\<close>: \<open>>\<close> and \<open>>=\<close> swap the operands.\<close>

fun cmp_num :: "BinOp \<Rightarrow> float64 \<Rightarrow> float64 \<Rightarrow> bool" where
  "cmp_num OpLt a b = f_lt a b"
| "cmp_num OpLe a b = f_le a b"
| "cmp_num OpGt a b = f_lt b a"
| "cmp_num _ a b = f_le b a"

fun cmp_str :: "BinOp \<Rightarrow> string \<Rightarrow> string \<Rightarrow> bool" where
  "cmp_str OpLt a b = (a < b)"
| "cmp_str OpLe a b = (a \<le> b)"
| "cmp_str OpGt a b = (b < a)"
| "cmp_str _ a b = (b \<le> a)"

definition v_cmp :: "Pos \<Rightarrow> BinOp \<Rightarrow> Value \<Rightarrow> Value \<Rightarrow> Value comp" where
  "v_cmp pos op a b =
     (case (a, b) of
        (VNum x, VNum y) \<Rightarrow> vret (VBool (cmp_num op x y))
      | (VStr x, VStr y) \<Rightarrow> vret (VBool (cmp_str op x y))
      | _ \<Rightarrow> verr pos ''cannot compare'')"

definition v_add :: "Rt \<Rightarrow> Pos \<Rightarrow> Value \<Rightarrow> Value \<Rightarrow> Value comp" where
  "v_add rt pos l r =
     (case (l, r) of
        (VNum x, VNum y) \<Rightarrow> vret (VNum (f_add x y))
      | _ \<Rightarrow>
          vbind (vpure (\<lambda>stk. ToStr (rt_hosts rt) (rt_lim rt) stk pos l)) (\<lambda>ls.
          vbind (vpure (\<lambda>stk. ToStr (rt_hosts rt) (rt_lim rt) stk pos r)) (\<lambda>rs.
          vbind (vcheck (\<lambda>stk. CheckStr (rt_lim rt) stk pos (ls @ rs))) (\<lambda>_.
            vret (VStr (ls @ rs))))))"

definition v_arith :: "Pos \<Rightarrow> BinOp \<Rightarrow> Value \<Rightarrow> Value \<Rightarrow> Value comp" where
  "v_arith pos op l r =
     vbind (vwrap (toNum pos l)) (\<lambda>ln.
     vbind (vwrap (toNum pos r)) (\<lambda>rn.
       case op of
         OpSub \<Rightarrow> vret (VNum (f_sub ln rn))
       | OpMul \<Rightarrow> vret (VNum (f_mul ln rn))
       | OpDiv \<Rightarrow> (if f_eq rn f_zero then verr pos ''division by zero'' else vret (VNum (f_div ln rn)))
       | _ \<Rightarrow> (if f_eq rn f_zero then verr pos ''division by zero'' else vret (VNum (f_mod ln rn)))))"

definition bin_strict :: "Rt \<Rightarrow> Pos \<Rightarrow> BinOp \<Rightarrow> Value \<Rightarrow> Value \<Rightarrow> Value comp" where
  "bin_strict rt pos op l r =
     (case op of
        OpAdd \<Rightarrow> v_add rt pos l r
      | OpSub \<Rightarrow> v_arith pos op l r
      | OpMul \<Rightarrow> v_arith pos op l r
      | OpDiv \<Rightarrow> v_arith pos op l r
      | OpMod \<Rightarrow> v_arith pos op l r
      | OpEq \<Rightarrow> vret (VBool (ValueEqual l r))
      | OpNe \<Rightarrow> vret (VBool (\<not> ValueEqual l r))
      | OpLt \<Rightarrow> v_cmp pos op l r
      | OpLe \<Rightarrow> v_cmp pos op l r
      | OpGt \<Rightarrow> v_cmp pos op l r
      | OpGe \<Rightarrow> v_cmp pos op l r
      | _ \<Rightarrow> verr pos ''bad op'')"

definition evalBin :: "Rt \<Rightarrow> evaluator \<Rightarrow> nat \<Rightarrow> Pos \<Rightarrow> BinOp \<Rightarrow> Expr \<Rightarrow> Expr \<Rightarrow> Value comp" where
  "evalBin rt ev env pos op le re =
     (let truthy = IsTruthy (rt_hosts rt) in
      if op = OpAnd then
        vbind (ev env le) (\<lambda>l. if \<not> truthy l then vret (VBool False)
          else vbind (ev env re) (\<lambda>r. vret (VBool (truthy r))))
      else if op = OpOr then
        vbind (ev env le) (\<lambda>l. if truthy l then vret (VBool True)
          else vbind (ev env re) (\<lambda>r. vret (VBool (truthy r))))
      else if op = OpCoalesce then
        vbind (ev env le) (\<lambda>l. if l \<noteq> VNull then vret l else ev env re)
      else
        vbind (ev env le) (\<lambda>l. vbind (ev env re) (\<lambda>r. bin_strict rt pos op l r)))"

text \<open>
  \<open>listIndex\<close>: the constant \<open>maxInt64Float\<close> is 2^63 after rounding, and so is minus the smallest.
\<close>

definition max_int64_float :: float64 where
  "max_int64_float = f_of_int (2 ^ 63)"

definition listIndex :: "Pos \<Rightarrow> Value \<Rightarrow> int comp" where
  "listIndex pos idx =
     (case idx of
        VNum n \<Rightarrow>
          (if f_is_nan n \<or> f_is_inf n \<or> \<not> f_eq (f_trunc n) n then verr pos ''list index must be integer''
           else if f_lt max_int64_float n \<or> f_lt n (f_neg max_int64_float)
           then verr pos ''list index out of range''
           else vret (f_to_int n))
      | _ \<Rightarrow> verr pos ''list index must be number'')"

definition evalIndex :: "Rt \<Rightarrow> Pos \<Rightarrow> Value \<Rightarrow> Value \<Rightarrow> Value comp" where
  "evalIndex rt pos x idx =
     (case x of
        VList xs \<Rightarrow>
          vbind (listIndex pos idx) (\<lambda>i.
            if i < 0 \<or> i \<ge> int (length xs) then vret VNull else vret (xs ! nat i))
      | VDict m \<Rightarrow> vbind (vwrap (Key pos idx)) (\<lambda>k. vret (or_null (map_of m k)))
      | VObj None \<Rightarrow> verr pos ''object has no index''
      | VObj (Some ob) \<Rightarrow>
          vbind (checkBound rt pos x) (\<lambda>_.
          vbind (vpure (\<lambda>stk. Inr (obj_index (rt_hosts rt) (rt_lim rt) stk pos ob idx))) vwrap)
      | _ \<Rightarrow> verr pos ''index on non-collection'')"

definition evalMember :: "Rt \<Rightarrow> Pos \<Rightarrow> Value \<Rightarrow> string \<Rightarrow> Value comp" where
  "evalMember rt pos x name =
     (case x of
        VDict m \<Rightarrow> vret (or_null (map_of m name))
      | VObj None \<Rightarrow> verr pos ''object has no members''
      | VObj (Some ob) \<Rightarrow>
          vbind (checkBound rt pos x) (\<lambda>_.
          vbind (vpure (\<lambda>stk. Inr (obj_member (rt_hosts rt) (rt_lim rt) stk pos ob name))) (\<lambda>r.
          vbind (vwrap r) (\<lambda>v. vret (or_null v))))
      | _ \<Rightarrow> verr pos ''member on non-object'')"

fun eval_list :: "evaluator \<Rightarrow> nat \<Rightarrow> Expr list \<Rightarrow> Value list comp" where
  "eval_list ev env [] = vret []"
| "eval_list ev env (x # xs) =
     vbind (ev env x) (\<lambda>v. vbind (eval_list ev env xs) (\<lambda>vs. vret (v # vs)))"

fun eval_dict ::
  "Rt \<Rightarrow> evaluator \<Rightarrow> nat \<Rightarrow> (Pos \<times> string \<times> Expr) list \<Rightarrow> (string \<times> Value) list
   \<Rightarrow> (string \<times> Value) list comp"
where
  "eval_dict rt ev env [] out = vret out"
| "eval_dict rt ev env ((kp, key, x) # es) out =
     vbind (vcheck (\<lambda>stk. CheckStr (rt_lim rt) stk kp key)) (\<lambda>_.
     vbind (ev env x) (\<lambda>v. eval_dict rt ev env es (smap_put key v out)))"

definition evalTry :: "evaluator \<Rightarrow> nat \<Rightarrow> Expr \<Rightarrow> Value comp" where
  "evalTry ev env x =
     vcatch (ev env x) (\<lambda>r. case r of
         Inr v \<Rightarrow> vret (newResult True v None)
       | Inl e \<Rightarrow> (if isAbort e \<or> e = OutOfFuel then vfail e else vret (newResult False VNull (Some e))))"

definition eval :: "Rt \<Rightarrow> evaluator \<Rightarrow> caller \<Rightarrow> evaluator" where
  "eval rt ev cv env x =
     vbind (tick rt (expr_pos x)) (\<lambda>_.
       case x of
         Ident pos name \<Rightarrow>
           vbind (v_get env name) (\<lambda>r. case r of
               None \<Rightarrow> verr pos (''undefined name '' @ quote_ascii name)
             | Some v \<Rightarrow> vbind (checkBound rt pos v) (\<lambda>_. vret v))
       | Literal pos lit \<Rightarrow>
           (case lit of
              LitStr s \<Rightarrow> vbind (vcheck (\<lambda>stk. CheckStr (rt_lim rt) stk pos s)) (\<lambda>_. vret (VStr s))
            | _ \<Rightarrow> vret (lit_value lit))
       | Unary pos op a \<Rightarrow>
           vbind (ev env a) (\<lambda>v. case op of
               UnNot \<Rightarrow> vret (VBool (\<not> IsTruthy (rt_hosts rt) v))
             | UnNeg \<Rightarrow> vbind (vwrap (toNum pos v)) (\<lambda>n. vret (VNum (f_neg n))))
       | Binary pos op a b \<Rightarrow> evalBin rt ev env pos op a b
       | Ternary pos c a b \<Rightarrow>
           vbind (ev env c) (\<lambda>v. if IsTruthy (rt_hosts rt) v then ev env a else ev env b)
       | TryExpr pos a \<Rightarrow> evalTry ev env a
       | Call pos f args \<Rightarrow>
           vbind (ev env f) (\<lambda>cal. vbind (eval_list ev env args) (\<lambda>vs. cv pos cal vs))
       | Index pos a i \<Rightarrow>
           vbind (ev env a) (\<lambda>v. vbind (ev env i) (\<lambda>idx. evalIndex rt pos v idx))
       | Member pos a name \<Rightarrow> vbind (ev env a) (\<lambda>v. evalMember rt pos v name)
       | ListLit pos xs \<Rightarrow>
           vbind (vcheck (\<lambda>stk. CheckList (rt_lim rt) stk pos (length xs))) (\<lambda>_.
           vbind (eval_list ev env xs) (\<lambda>vs. vret (VList vs)))
       | DictLit pos es \<Rightarrow>
           vbind (vcheck (\<lambda>stk. CheckDict (rt_lim rt) stk pos (length es))) (\<lambda>_.
           vbind (eval_dict rt ev env es []) (\<lambda>m. vret (VDict m))))"

section \<open>Statements\<close>

type_synonym executor = "nat \<Rightarrow> bool \<Rightarrow> Stmt \<Rightarrow> unit comp"

definition targets :: "string \<Rightarrow> string \<Rightarrow> bool" where
  "targets label target \<longleftrightarrow> label = [] \<or> label = target"

fun exec_stmts :: "executor \<Rightarrow> nat \<Rightarrow> bool \<Rightarrow> Stmt list \<Rightarrow> unit comp" where
  "exec_stmts ex env exp [] = vret ()"
| "exec_stmts ex env exp (st # sts) = vbind (ex env exp st) (\<lambda>_. exec_stmts ex env exp sts)"

definition execBlock :: "executor \<Rightarrow> nat \<Rightarrow> bool \<Rightarrow> Block \<Rightarrow> unit comp" where
  "execBlock ex up exp b =
     (case b of Block _ sts \<Rightarrow> vbind (v_new_env (Some up)) (\<lambda>env. exec_stmts ex env exp sts))"

definition assign :: "nat \<Rightarrow> Pos \<Rightarrow> string \<Rightarrow> Value \<Rightarrow> unit comp" where
  "assign env pos name v =
     vbind (v_set env name v) (\<lambda>(found, isConst).
       if \<not> found then verr pos (''assign to undefined name '' @ quote_ascii name)
       else if isConst then verr pos (''assign to const name '' @ quote_ascii name)
       else vret ())"

fun exec_elifs ::
  "Rt \<Rightarrow> evaluator \<Rightarrow> executor \<Rightarrow> nat \<Rightarrow> bool \<Rightarrow> (Expr \<times> Block) list \<Rightarrow> Block option \<Rightarrow> unit comp"
where
  "exec_elifs rt ev ex env exp [] els =
     (case els of Some b \<Rightarrow> execBlock ex env exp b | None \<Rightarrow> vret ())"
| "exec_elifs rt ev ex env exp ((c, b) # es) els =
     vbind (ev env c) (\<lambda>v. if IsTruthy (rt_hosts rt) v then execBlock ex env exp b
       else exec_elifs rt ev ex env exp es els)"

subsection \<open>Switch\<close>

fun matchCase :: "Rt \<Rightarrow> evaluator \<Rightarrow> nat \<Rightarrow> Value option \<Rightarrow> Expr list \<Rightarrow> bool comp" where
  "matchCase rt ev env tag [] = vret False"
| "matchCase rt ev env tag (x # xs) =
     vbind (ev env x) (\<lambda>v.
       if (case tag of Some t \<Rightarrow> ValueEqual t v | None \<Rightarrow> IsTruthy (rt_hosts rt) v) then vret True
       else matchCase rt ev env tag xs)"

definition execClause :: "executor \<Rightarrow> nat \<Rightarrow> bool \<Rightarrow> string \<Rightarrow> Block option \<Rightarrow> unit comp" where
  "execClause ex up exp label body =
     vcatch (case body of Some b \<Rightarrow> execBlock ex up exp b | None \<Rightarrow> vret ()) (\<lambda>r. case r of
         Inl (BreakSig p l) \<Rightarrow> (if targets l label then vret () else vfail (BreakSig p l))
       | Inl e \<Rightarrow> vfail e
       | Inr u \<Rightarrow> vret u)"

fun switch_loop ::
  "Rt \<Rightarrow> evaluator \<Rightarrow> executor \<Rightarrow> nat \<Rightarrow> bool \<Rightarrow> string \<Rightarrow> Value option
   \<Rightarrow> (Pos \<times> Expr list \<times> Block) list \<Rightarrow> Block option \<Rightarrow> unit comp"
where
  "switch_loop rt ev ex up exp label tag [] def = execClause ex up exp label def"
| "switch_loop rt ev ex up exp label tag ((_, xs, b) # cls) def =
     (if xs = [] then switch_loop rt ev ex up exp label tag cls (Some b)
      else vbind (matchCase rt ev up tag xs) (\<lambda>m.
        if m then execClause ex up exp label (Some b)
        else switch_loop rt ev ex up exp label tag cls def))"

definition execSwitch ::
  "Rt \<Rightarrow> evaluator \<Rightarrow> executor \<Rightarrow> nat \<Rightarrow> bool \<Rightarrow> string \<Rightarrow> Expr option
   \<Rightarrow> (Pos \<times> Expr list \<times> Block) list \<Rightarrow> unit comp"
where
  "execSwitch rt ev ex up exp label tag cls =
     (case tag of
        None \<Rightarrow> switch_loop rt ev ex up exp label None cls None
      | Some x \<Rightarrow> vbind (ev up x) (\<lambda>t. switch_loop rt ev ex up exp label (Some t) cls None))"

subsection \<open>For\<close>

datatype loopAction = loopNext | loopBreak | loopContinue

definition execLoopBlock :: "executor \<Rightarrow> nat \<Rightarrow> bool \<Rightarrow> string \<Rightarrow> Block \<Rightarrow> loopAction comp" where
  "execLoopBlock ex env exp label body =
     vcatch (execBlock ex env exp body) (\<lambda>r. case r of
         Inr _ \<Rightarrow> vret loopNext
       | Inl (BreakSig p l) \<Rightarrow> (if targets l label then vret loopBreak else vfail (BreakSig p l))
       | Inl (ContinueSig p l) \<Rightarrow> (if targets l label then vret loopContinue else vfail (ContinueSig p l))
       | Inl e \<Rightarrow> vfail e)"

definition exec_opt :: "executor \<Rightarrow> nat \<Rightarrow> bool \<Rightarrow> Stmt option \<Rightarrow> unit comp" where
  "exec_opt ex env exp st = (case st of Some x \<Rightarrow> ex env exp x | None \<Rightarrow> vret ())"

text \<open>The condition of a three-clause loop; none is true.\<close>

definition for_cond :: "Rt \<Rightarrow> evaluator \<Rightarrow> nat \<Rightarrow> Expr option \<Rightarrow> bool comp" where
  "for_cond rt ev env c =
     (case c of None \<Rightarrow> vret True | Some x \<Rightarrow> vbind (ev env x) (\<lambda>v. vret (IsTruthy (rt_hosts rt) v)))"

fun for_loop ::
  "nat \<Rightarrow> Rt \<Rightarrow> evaluator \<Rightarrow> executor \<Rightarrow> nat \<Rightarrow> bool \<Rightarrow> Pos \<Rightarrow> string
   \<Rightarrow> Expr option \<Rightarrow> Stmt option \<Rightarrow> Block \<Rightarrow> unit comp"
where
  "for_loop 0 rt ev ex env exp pos label c post body = vfail OutOfFuel"
| "for_loop (Suc n) rt ev ex env exp pos label c post body =
     vbind (tick rt pos) (\<lambda>_.
     vbind (for_cond rt ev env c) (\<lambda>go.
       if \<not> go then vret ()
       else vbind (execLoopBlock ex env exp label body) (\<lambda>action.
         if action = loopBreak then vret ()
         else vbind (exec_opt ex env exp post) (\<lambda>_.
           for_loop n rt ev ex env exp pos label c post body))))"

definition defRangeVar :: "nat \<Rightarrow> string \<Rightarrow> unit comp" where
  "defRangeVar env name = (if name = [] \<or> name = ''_'' then vret () else v_def env name VNull True)"

definition assignRangeVar :: "nat \<Rightarrow> string \<Rightarrow> Value \<Rightarrow> bool \<Rightarrow> Pos \<Rightarrow> unit comp" where
  "assignRangeVar env name v declare pos =
     (if name = [] \<or> name = ''_'' then vret ()
      else if declare then v_def env name v True
      else assign env pos name v)"

definition execRangeStep ::
  "executor \<Rightarrow> nat \<Rightarrow> bool \<Rightarrow> Pos \<Rightarrow> string \<Rightarrow> ForRange \<Rightarrow> Block \<Rightarrow> Value \<Rightarrow> Value \<Rightarrow> loopAction comp"
where
  "execRangeStep ex env exp pos label rng body k v =
     vbind (assignRangeVar env (rKey rng) k (rDeclare rng) pos) (\<lambda>_.
     vbind (assignRangeVar env (rVal rng) v (rDeclare rng) pos) (\<lambda>_.
       execLoopBlock ex env exp label body))"

text \<open>The keys and items a range runs over: indexes, sorted keys, or byte offsets and runes.\<close>

fun range_items :: "Value \<Rightarrow> (Value \<times> Value) list option" where
  "range_items (VList xs) = Some (map (\<lambda>(i, v). (VNum (f_of_int (int i)), v)) (zip [0..<length xs] xs))"
| "range_items (VDict m) = Some (map (\<lambda>(k, v). (VStr k, v)) m)"
| "range_items (VStr s) =
     Some (map (\<lambda>(i, r). (VNum (f_of_int (int i)), VStr (encode_rune r))) (runes_from 0 s))"
| "range_items _ = None"

fun range_loop ::
  "Rt \<Rightarrow> executor \<Rightarrow> nat \<Rightarrow> bool \<Rightarrow> Pos \<Rightarrow> string \<Rightarrow> ForRange \<Rightarrow> Block
   \<Rightarrow> (Value \<times> Value) list \<Rightarrow> unit comp"
where
  "range_loop rt ex env exp pos label rng body [] = vret ()"
| "range_loop rt ex env exp pos label rng body ((k, v) # items) =
     vbind (tick rt pos) (\<lambda>_.
     vbind (execRangeStep ex env exp pos label rng body k v) (\<lambda>action.
       if action = loopBreak then vret ()
       else range_loop rt ex env exp pos label rng body items))"

definition execRange ::
  "Rt \<Rightarrow> evaluator \<Rightarrow> executor \<Rightarrow> nat \<Rightarrow> bool \<Rightarrow> Pos \<Rightarrow> string \<Rightarrow> ForRange \<Rightarrow> Block \<Rightarrow> unit comp"
where
  "execRange rt ev ex up exp pos label rng body =
     vbind (v_new_env (Some up)) (\<lambda>env.
     vbind (ev env (rExpr rng)) (\<lambda>src.
     vbind (if rDeclare rng
            then vbind (defRangeVar env (rKey rng)) (\<lambda>_. defRangeVar env (rVal rng)) else vret ()) (\<lambda>_.
       case range_items src of
         Some items \<Rightarrow> range_loop rt ex env exp pos label rng body items
       | None \<Rightarrow> verr (expr_pos (rExpr rng)) ''range over non-iterable value'')))"

definition execFor ::
  "nat \<Rightarrow> Rt \<Rightarrow> evaluator \<Rightarrow> executor \<Rightarrow> nat \<Rightarrow> bool \<Rightarrow> Pos \<Rightarrow> string \<Rightarrow> Stmt option \<Rightarrow> Expr option
   \<Rightarrow> Stmt option \<Rightarrow> ForRange option \<Rightarrow> Block \<Rightarrow> unit comp"
where
  "execFor n rt ev ex up exp pos label init c post rng body =
     (case rng of
        Some r \<Rightarrow> execRange rt ev ex up exp pos label r body
      | None \<Rightarrow>
          vbind (v_new_env (Some up)) (\<lambda>env.
          vbind (exec_opt ex env exp init) (\<lambda>_.
            for_loop n rt ev ex env exp pos label c post body)))"

subsection \<open>The statement switch\<close>

definition def_local :: "Rt \<Rightarrow> nat \<Rightarrow> bool \<Rightarrow> string \<Rightarrow> Value \<Rightarrow> bool \<Rightarrow> bool \<Rightarrow> unit comp" where
  "def_local rt env exp name v c exported =
     vbind (v_def env name v c) (\<lambda>_. v_export (exported \<and> exp) name v)"

definition execStmt :: "nat \<Rightarrow> Rt \<Rightarrow> evaluator \<Rightarrow> executor \<Rightarrow> executor" where
  "execStmt n rt ev ex env exp st =
     vbind (tick rt (stmt_pos st)) (\<lambda>_.
       case st of
         LetStmt pos exported c name x \<Rightarrow>
           vbind (v_has_local env name) (\<lambda>loc.
             if loc then verr pos (''name already defined: '' @ quote_ascii name)
             else vbind (ev env x) (\<lambda>v.
                  vbind (vcheck (\<lambda>stk. chkVal (rt_lim rt) stk pos v)) (\<lambda>_.
                    def_local rt env exp name v c exported)))
       | AssignStmt pos name x \<Rightarrow>
           vbind (ev env x) (\<lambda>v.
           vbind (vcheck (\<lambda>stk. chkVal (rt_lim rt) stk pos v)) (\<lambda>_. assign env pos name v))
       | ReturnStmt pos x \<Rightarrow>
           (case x of None \<Rightarrow> vfail (RetSig VNull) | Some e \<Rightarrow> vbind (ev env e) (\<lambda>v. vfail (RetSig v)))
       | ExprStmt pos x \<Rightarrow> vbind (ev env x) (\<lambda>_. vret ())
       | FnDef pos exported name params body \<Rightarrow>
           vbind (v_has_local env name) (\<lambda>loc.
             if loc then verr pos (''name already defined: '' @ quote_ascii name)
             else def_local rt env exp name
               (VFunc (Some \<lparr>fnName = name, fnArgs = params, fnBody = body, fnEnv = env, fnPos = pos\<rparr>))
               True exported)
       | IfStmt pos c thn elifs els \<Rightarrow>
           vbind (ev env c) (\<lambda>v. if IsTruthy (rt_hosts rt) v then execBlock ex env exp thn
             else exec_elifs rt ev ex env exp elifs els)
       | SwitchStmt pos label lp tag cls \<Rightarrow> execSwitch rt ev ex env exp label tag cls
       | ForStmt pos label lp init c post rng body \<Rightarrow>
           execFor n rt ev ex env exp pos label init c post rng body
       | BreakStmt pos label \<Rightarrow> vfail (BreakSig pos label)
       | ContinueStmt pos label \<Rightarrow> vfail (ContinueSig pos label))"

section \<open>Calls\<close>

fun def_args :: "nat \<Rightarrow> string list \<Rightarrow> Value list \<Rightarrow> unit comp" where
  "def_args env (a # as) (v # vs) = vbind (v_def env a v False) (\<lambda>_. def_args env as vs)"
| "def_args env _ _ = vret ()"

text \<open>What a call makes of the outcome of the body; a signal that is no return is an error.\<close>

definition call_result :: "(err + unit) \<Rightarrow> Value comp" where
  "call_result r =
     (case r of
        Inr _ \<Rightarrow> vret VNull
      | Inl (RetSig v) \<Rightarrow> vret v
      | Inl (BreakSig p _) \<Rightarrow> verr p ''break outside loop or switch''
      | Inl (ContinueSig p _) \<Rightarrow> verr p ''continue outside loop''
      | Inl e \<Rightarrow> vfail e)"

definition call_func :: "Rt \<Rightarrow> executor \<Rightarrow> Pos \<Rightarrow> Func \<Rightarrow> Value list \<Rightarrow> Value comp" where
  "call_func rt ex pos fn args =
     (if length args \<noteq> length (fnArgs fn) then verr pos ''arg count mismatch''
      else (\<lambda>s.
        if 0 < MaxCall (rt_lim rt) \<and> vm_depth s \<ge> MaxCall (rt_lim rt)
        then verr pos ''call depth exceeded'' s
        else with_frame 1 \<lparr>frKind = FrameFn, frPos = fnPos fn, frName = fnName fn\<rparr>
          (vbind (v_new_env (Some (fnEnv fn))) (\<lambda>env.
           vbind (def_args env (fnArgs fn) args) (\<lambda>_.
             vcatch (execBlock ex env False (fnBody fn)) call_result))) s))"

definition callVal :: "Cfg \<Rightarrow> executor \<Rightarrow> caller \<Rightarrow> caller" where
  "callVal cf ex cv pos cal args =
     (case cal of
        VFunc None \<Rightarrow> verr pos ''call on nil fn''
      | VFunc (Some fn) \<Rightarrow> call_func (cf_rt cf) ex pos fn args
      | VNative None \<Rightarrow> verr pos ''call on nil native''
      | VNative (Some name) \<Rightarrow>
          (case cf_native cf name of
             None \<Rightarrow> verr pos ''call on nil native''
           | Some f \<Rightarrow>
               vbind (f (cf_rt cf) cv pos args) (\<lambda>v.
               vbind (vcheck (\<lambda>stk. chkVal (rt_lim (cf_rt cf)) stk pos v)) (\<lambda>_. vret v)))
      | _ \<Rightarrow> verr pos ''not callable'')"

section \<open>The evaluator\<close>

fun evalN :: "Cfg \<Rightarrow> nat \<Rightarrow> evaluator"
  and execN :: "Cfg \<Rightarrow> nat \<Rightarrow> executor"
  and callN :: "Cfg \<Rightarrow> nat \<Rightarrow> caller"
where
  "evalN cf 0 env x = vfail OutOfFuel"
| "evalN cf (Suc n) env x = eval (cf_rt cf) (evalN cf n) (callN cf n) env x"
| "execN cf 0 env exp st = vfail OutOfFuel"
| "execN cf (Suc n) env exp st = execStmt n (cf_rt cf) (evalN cf n) (execN cf n) env exp st"
| "callN cf 0 pos cal args = vfail OutOfFuel"
| "callN cf (Suc n) pos cal args = callVal cf (execN cf n) (callN cf n) pos cal args"

section \<open>Modules\<close>

text \<open>A signal that reaches the top of a module is an error.\<close>

fun exec_top :: "executor \<Rightarrow> nat \<Rightarrow> Stmt list \<Rightarrow> unit comp" where
  "exec_top ex env [] = vret ()"
| "exec_top ex env (st # sts) =
     vbind (vcatch (ex env True st) (\<lambda>r. case r of
         Inr _ \<Rightarrow> vret ()
       | Inl (RetSig v) \<Rightarrow> verr (stmt_pos st) ''return outside fn''
       | Inl (BreakSig p _) \<Rightarrow> verr p ''break outside loop or switch''
       | Inl (ContinueSig p _) \<Rightarrow> verr p ''continue outside loop''
       | Inl e \<Rightarrow> vfail e)) (\<lambda>_. exec_top ex env sts)"

fun def_all :: "nat \<Rightarrow> (string \<times> Value) list \<Rightarrow> unit comp" where
  "def_all env [] = vret ()"
| "def_all env ((k, v) # m) = vbind (v_def env k v True) (\<lambda>_. def_all env m)"

record Comp =
  cpMod :: Mod
  cpEnv :: nat
  cpExp :: "(string \<times> Value) list"

text \<open>A fresh context over the environments that exist already.\<close>

definition NewCtx :: "Store \<Rightarrow> Vm" where
  "NewCtx st = \<lparr>vm_steps = 0, vm_depth = 0, vm_stack = [], vm_envs = st, vm_exp = []\<rparr>"

definition Exec :: "Cfg \<Rightarrow> nat \<Rightarrow> Mod \<Rightarrow> (string \<times> Value) list \<Rightarrow> Comp comp" where
  "Exec cf n m pre =
     vbind (v_new_env None) (\<lambda>env.
     vbind (def_all env pre) (\<lambda>_.
     vbind (exec_top (execN cf n) env (mStmts m)) (\<lambda>_.
       (\<lambda>s. (Inr \<lparr>cpMod = m, cpEnv = env, cpExp = vm_exp s\<rparr>, s)))))"

text \<open>The part of \<open>Eng.Eval\<close> after the prelude is built: bind it, parse, evaluate in a frame.\<close>

definition eval_source ::
  "Cfg \<Rightarrow> nat \<Rightarrow> (string \<times> Value) list \<Rightarrow> string \<Rightarrow> Expr \<Rightarrow> Pos \<Rightarrow> Value comp"
where
  "eval_source cf n pre site x pos =
     vbind (v_new_env None) (\<lambda>env.
     vbind (def_all env pre) (\<lambda>_.
       if site = [] then evalN cf n env x
       else with_frame 0 \<lparr>frKind = FrameExpr, frPos = pos, frName = site\<rparr> (evalN cf n env x)))"

end
