(* ===== verification/RtsLexer.thy ===== *)
theory RtsLexer
  imports RtsToken GoText
begin

text \<open>
  The RestermScript lexer (\<open>internal/rts/lexer.go\<close>). The record holds the fields of the Go
  struct; \<open>peek\<close> answers a zero byte past the end of the source, so a zero byte inside the
  source ends it as well. One iteration of the loop in \<open>Next\<close> is \<open>lex_step\<close>; \<open>lex_next\<close> is
  the method, and it terminates because an iteration that does not return reads a byte or sets
  the end-of-file flag.
\<close>

section \<open>State and character classes\<close>

record Lexer =
  lx_src :: string
  lx_path :: string
  lx_i :: nat
  lx_start :: nat
  lx_line :: int
  lx_col :: int
  lx_par :: nat
  lx_brk :: nat
  lx_last :: Kind
  lx_pend :: "Tok option"
  lx_eof :: bool
  lx_eofSemi :: bool

definition NewLexerAt :: "string \<Rightarrow> string \<Rightarrow> Pos \<Rightarrow> Lexer" where
  "NewLexerAt path src pos =
     (let ln = (if Line pos \<le> 0 then 1 else Line pos);
          cl = (if Col pos \<le> 0 then 1 else Col pos)
      in \<lparr>lx_src = src, lx_path = path, lx_i = 0, lx_start = 0, lx_line = ln, lx_col = cl,
          lx_par = 0, lx_brk = 0, lx_last = EOF, lx_pend = None, lx_eof = False,
          lx_eofSemi = False\<rparr>)"

definition NewLexer :: "string \<Rightarrow> string \<Rightarrow> Lexer" where
  "NewLexer path src = NewLexerAt path src \<lparr>Path = [], Line = 1, Col = 1\<rparr>"

definition semiOk :: "Kind \<Rightarrow> bool" where
  "semiOk k \<longleftrightarrow> k \<in> {IDENT, NUMBER, STRING, KW_TRUE, KW_FALSE, KW_NULL, RPAREN, RBRACK, RBRACE,
                     KW_RETURN, KW_BREAK, KW_CONTINUE}"

definition isSpace :: "char \<Rightarrow> bool" where
  "isSpace ch \<longleftrightarrow> ch = CHR '' '' \<or> ch = CHR 0x09"

definition isDigit :: "char \<Rightarrow> bool" where
  "isDigit ch \<longleftrightarrow> in_range CHR ''0'' CHR ''9'' ch"

definition isIdentStart :: "char \<Rightarrow> bool" where
  "isIdentStart ch \<longleftrightarrow>
     in_range CHR ''a'' CHR ''z'' ch \<or> in_range CHR ''A'' CHR ''Z'' ch \<or> ch = CHR ''_''"

definition isIdent :: "char \<Rightarrow> bool" where
  "isIdent ch \<longleftrightarrow> isIdentStart ch \<or> isDigit ch"

abbreviation LF :: char where "LF \<equiv> CHR 0x0A"
abbreviation CR :: char where "CR \<equiv> CHR 0x0D"
abbreviation NUL :: char where "NUL \<equiv> CHR 0x00"

section \<open>Reading bytes\<close>

definition lx_peek :: "Lexer \<Rightarrow> char" where
  "lx_peek l = (if length (lx_src l) \<le> lx_i l then NUL else lx_src l ! lx_i l)"

definition lx_pos :: "Lexer \<Rightarrow> Pos" where
  "lx_pos l = \<lparr>Path = lx_path l, Line = lx_line l, Col = lx_col l\<rparr>"

definition lx_read :: "Lexer \<Rightarrow> char \<times> Lexer" where
  "lx_read l =
     (if length (lx_src l) \<le> lx_i l then (NUL, l)
      else let b = lx_src l ! lx_i l; i = Suc (lx_i l) in
        if b = CR then
          (let i' = (if i < length (lx_src l) \<and> lx_src l ! i = LF then Suc i else i)
           in (LF, l\<lparr>lx_i := i', lx_line := lx_line l + 1, lx_col := 1\<rparr>))
        else if b = LF then (LF, l\<lparr>lx_i := i, lx_line := lx_line l + 1, lx_col := 1\<rparr>)
        else (b, l\<lparr>lx_i := i, lx_col := lx_col l + 1\<rparr>))"

text \<open>A call \<open>l.read()\<close> whose result is dropped.\<close>

definition lx_skip :: "Lexer \<Rightarrow> Lexer" where
  "lx_skip l = snd (lx_read l)"

definition lx_left :: "Lexer \<Rightarrow> nat" where
  "lx_left l = length (lx_src l) - lx_i l"

lemma lx_skip_src [simp]: "lx_src (lx_skip l) = lx_src l"
  by (simp add: lx_skip_def lx_read_def Let_def)

lemma lx_skip_fields [simp]:
  "lx_path (lx_skip l) = lx_path l" "lx_start (lx_skip l) = lx_start l"
  "lx_par (lx_skip l) = lx_par l" "lx_brk (lx_skip l) = lx_brk l"
  "lx_last (lx_skip l) = lx_last l" "lx_pend (lx_skip l) = lx_pend l"
  "lx_eof (lx_skip l) = lx_eof l" "lx_eofSemi (lx_skip l) = lx_eofSemi l"
  by (simp_all add: lx_skip_def lx_read_def Let_def)

lemma lx_peek_in: "lx_peek l \<noteq> NUL \<Longrightarrow> lx_i l < length (lx_src l)"
  by (auto simp: lx_peek_def split: if_splits)

lemma lx_skip_less: "lx_i l < length (lx_src l) \<Longrightarrow> lx_left (lx_skip l) < lx_left l"
  by (auto simp: lx_skip_def lx_read_def lx_left_def Let_def)

lemma lx_skip_le: "lx_left (lx_skip l) \<le> lx_left l"
  by (cases "lx_i l < length (lx_src l)")
    (auto simp: lx_skip_less less_imp_le, simp add: lx_skip_def lx_read_def)

lemma lx_skip_bound: "lx_i l \<le> length (lx_src l) \<Longrightarrow> lx_i (lx_skip l) \<le> length (lx_src l)"
  by (auto simp: lx_skip_def lx_read_def Let_def)

lemma lx_skip_mono: "lx_i l \<le> lx_i (lx_skip l)"
  by (auto simp: lx_skip_def lx_read_def Let_def)

text \<open>The loop \<open>for isX(l.peek()) { l.read() }\<close>; a class never holds of the zero byte.\<close>

function read_while :: "(char \<Rightarrow> bool) \<Rightarrow> Lexer \<Rightarrow> Lexer" where
  "read_while f l =
     (if lx_i l < length (lx_src l) \<and> f (lx_peek l) then read_while f (lx_skip l) else l)"
  by pat_completeness auto
termination
  by (relation "measure (\<lambda>(f, l). lx_left l)") (auto simp: lx_skip_less)

declare read_while.simps [simp del]

definition skipComment :: "Lexer \<Rightarrow> Lexer" where
  "skipComment l = read_while (\<lambda>ch. \<not> (ch = NUL \<or> ch = LF \<or> ch = CR)) l"

definition scanIdent :: "Lexer \<Rightarrow> string \<times> Lexer" where
  "scanIdent l =
     (let l1 = read_while isIdent (lx_skip l)
      in (slice (lx_src l1) (lx_i l) (lx_i l1), l1))"

definition scanNumber :: "Lexer \<Rightarrow> string \<times> Lexer" where
  "scanNumber l =
     (let l1 = read_while isDigit (lx_skip l);
          l2 = (if lx_peek l1 = CHR ''.'' then
                  (let nxt = (if Suc (lx_i l1) < length (lx_src l1)
                              then lx_src l1 ! Suc (lx_i l1) else NUL)
                   in if isDigit nxt then read_while isDigit (lx_skip l1) else l1)
                else l1)
      in (slice (lx_src l2) (lx_i l) (lx_i l2), l2))"

definition escape_byte :: "char \<Rightarrow> char" where
  "escape_byte e =
     (if e = CHR ''n'' then LF
      else if e = CHR ''r'' then CR
      else if e = CHR ''t'' then CHR 0x09
      else e)"

text \<open>
  The body of \<open>scanString\<close> after the opening quote \<open>q\<close>: \<open>out\<close> collects the pieces before an
  escape, \<open>start\<close> is where the current piece began.
\<close>

function scanString_loop :: "char \<Rightarrow> nat \<Rightarrow> string \<Rightarrow> Lexer \<Rightarrow> (string \<times> bool) \<times> Lexer" where
  "scanString_loop q start out l =
     (let ch = lx_peek l in
      if ch = NUL \<or> ch = LF \<or> ch = CR then (([], False), l)
      else if ch = q then
        (let l1 = lx_skip l in
         ((if out = [] then slice (lx_src l1) start (lx_i l1 - 1)
           else out @ slice (lx_src l1) start (lx_i l1 - 1), True), l1))
      else if ch = CHR 0x5C then
        (let out1 = out @ slice (lx_src l) start (lx_i l);
             (esc, l2) = lx_read (lx_skip l)
         in scanString_loop q (lx_i l2) (out1 @ [escape_byte esc]) l2)
      else scanString_loop q start out (lx_skip l))"
  by pat_completeness auto
termination
proof (relation "measure (\<lambda>(q, start, out, l). lx_left l)", goal_cases)
  case (2 q start out l ch out1 p esc l2)
  then have "l2 = lx_skip (lx_skip l)" by (simp add: lx_skip_def split: prod.splits) (metis snd_conv)
  moreover have "lx_left (lx_skip l) < lx_left l"
    using 2 lx_peek_in by (intro lx_skip_less) auto
  ultimately show ?case using lx_skip_le [of "lx_skip l"] by simp
next
  case (3 q start out l ch)
  then show ?case using lx_peek_in by (auto intro: lx_skip_less)
qed simp

declare scanString_loop.simps [simp del]

definition scanString :: "Lexer \<Rightarrow> (string \<times> bool) \<times> Lexer" where
  "scanString l = (let (q, l1) = lx_read l in scanString_loop q (lx_i l1) [] l1)"

section \<open>The method Next\<close>

definition lx_emit :: "Kind \<Rightarrow> string \<Rightarrow> Pos \<Rightarrow> Lexer \<Rightarrow> Tok \<times> Lexer" where
  "lx_emit k lit p l = (\<lparr>tkK = k, tkLit = lit, tkP = p\<rparr>, l\<lparr>lx_last := k\<rparr>)"

definition lx_illegal :: "Pos \<Rightarrow> string \<Rightarrow> Lexer \<Rightarrow> Tok \<times> Lexer" where
  "lx_illegal p msg l = (\<lparr>tkK = ILLEGAL, tkLit = msg, tkP = p\<rparr>, l\<lparr>lx_last := ILLEGAL\<rparr>)"

text \<open>Two-byte operators: \<open>c2\<close> after the first byte makes kind \<open>k2\<close>, anything else kind \<open>k1\<close>.\<close>

definition lx_pair :: "char \<Rightarrow> Kind \<Rightarrow> string \<Rightarrow> Kind \<Rightarrow> string \<Rightarrow> Pos \<Rightarrow> Lexer \<Rightarrow> Tok \<times> Lexer" where
  "lx_pair c2 k2 s2 k1 s1 p l =
     (let l1 = lx_skip l in
      if lx_peek l1 = c2 then lx_emit k2 s2 p (lx_skip l1) else lx_emit k1 s1 p l1)"

definition lx_double :: "char \<Rightarrow> Kind \<Rightarrow> string \<Rightarrow> string \<Rightarrow> Pos \<Rightarrow> Lexer \<Rightarrow> Tok \<times> Lexer" where
  "lx_double c2 k2 s2 msg p l =
     (let l1 = lx_skip l in
      if lx_peek l1 = c2 then lx_emit k2 s2 p (lx_skip l1) else lx_illegal p msg l1)"

text \<open>The switch on the byte and what follows it; \<open>l\<close> already has \<open>start\<close> set.\<close>

definition lx_token :: "char \<Rightarrow> Pos \<Rightarrow> Lexer \<Rightarrow> Tok \<times> Lexer" where
  "lx_token ch p l =
     (if ch = CHR ''('' then
        (let l1 = lx_skip l in lx_emit LPAREN ''('' p (l1\<lparr>lx_par := Suc (lx_par l1)\<rparr>))
      else if ch = CHR '')'' then
        (let l1 = lx_skip l in
         lx_emit RPAREN '')'' p (if 0 < lx_par l1 then l1\<lparr>lx_par := lx_par l1 - 1\<rparr> else l1))
      else if ch = CHR ''['' then
        (let l1 = lx_skip l in lx_emit LBRACK ''['' p (l1\<lparr>lx_brk := Suc (lx_brk l1)\<rparr>))
      else if ch = CHR '']'' then
        (let l1 = lx_skip l in
         lx_emit RBRACK '']'' p (if 0 < lx_brk l1 then l1\<lparr>lx_brk := lx_brk l1 - 1\<rparr> else l1))
      else if ch = CHR ''{'' then lx_emit LBRACE ''{'' p (lx_skip l)
      else if ch = CHR ''}'' then lx_emit RBRACE ''}'' p (lx_skip l)
      else if ch = CHR '','' then lx_emit COMMA '','' p (lx_skip l)
      else if ch = CHR ''.'' then lx_emit DOT ''.'' p (lx_skip l)
      else if ch = CHR '';'' then lx_emit SEMI '';'' p (lx_skip l)
      else if ch = CHR '':'' then lx_emit COLON '':'' p (lx_skip l)
      else if ch = CHR ''?'' then lx_pair CHR ''?'' COALESCE ''??'' QUESTION ''?'' p l
      else if ch = CHR ''+'' then lx_emit PLUS ''+'' p (lx_skip l)
      else if ch = CHR ''-'' then lx_emit MINUS ''-'' p (lx_skip l)
      else if ch = CHR ''*'' then lx_emit STAR ''*'' p (lx_skip l)
      else if ch = CHR ''/'' then lx_emit SLASH ''/'' p (lx_skip l)
      else if ch = CHR ''%'' then lx_emit PERCENT ''%'' p (lx_skip l)
      else if ch = CHR ''='' then lx_pair CHR ''='' EQ ''=='' ASSIGN ''='' p l
      else if ch = CHR ''!'' then lx_pair CHR ''='' NE ''!='' BANG ''!'' p l
      else if ch = CHR ''&'' then
        lx_double CHR ''&'' ANDAND ''&&'' (''unexpected '' @ quote_byte CHR ''&'') p l
      else if ch = CHR ''|'' then
        lx_double CHR ''|'' OROR ''||'' (''unexpected '' @ quote_byte CHR ''|'') p l
      else if ch = CHR ''<'' then lx_pair CHR ''='' LE ''<='' LT ''<'' p l
      else if ch = CHR ''>'' then lx_pair CHR ''='' GE ''>='' GT ''>'' p l
      else if ch = CHR 0x22 \<or> ch = CHR 0x27 then
        (let ((str, ok), l1) = scanString l in
         if ok then lx_emit STRING str p l1 else lx_illegal p ''unterminated string'' l1)
      else if isIdentStart ch then
        (let (name, l1) = scanIdent l in
         case kw_lookup name of Some k \<Rightarrow> lx_emit k name p l1 | None \<Rightarrow> lx_emit IDENT name p l1)
      else if isDigit ch then (let (num, l1) = scanNumber l in lx_emit NUMBER num p l1)
      else lx_illegal p (''unexpected '' @ quote_byte ch) (lx_skip l))"

text \<open>One iteration of the loop: \<open>None\<close> is \<open>continue\<close>.\<close>

definition lx_step :: "Lexer \<Rightarrow> Tok option \<times> Lexer" where
  "lx_step l =
     (if lx_eof l then
        (if \<not> lx_eofSemi l \<and> semiOk (lx_last l)
         then (Some \<lparr>tkK = AUTO_SEMI, tkLit = [], tkP = lx_pos l\<rparr>, l\<lparr>lx_eofSemi := True\<rparr>)
         else (Some \<lparr>tkK = EOF, tkLit = [], tkP = lx_pos l\<rparr>, l))
      else (let ch = lx_peek l in
        if ch = NUL then (None, l\<lparr>lx_eof := True\<rparr>)
        else if isSpace ch then (None, lx_skip l)
        else if ch = LF \<or> ch = CR then
          (let p = lx_pos l; l1 = lx_skip l in
           if 0 < lx_par l1 \<or> 0 < lx_brk l1 then (None, l1)
           else if semiOk (lx_last l1)
           then (Some \<lparr>tkK = AUTO_SEMI, tkLit = [], tkP = p\<rparr>, l1\<lparr>lx_last := AUTO_SEMI\<rparr>)
           else (None, l1))
        else if ch = CHR ''#'' then (None, skipComment l)
        else (let (t, l1) = lx_token ch (lx_pos l) (l\<lparr>lx_start := lx_i l\<rparr>) in (Some t, l1))))"

definition lx_weight :: "Lexer \<Rightarrow> nat" where
  "lx_weight l = 2 * lx_left l + (if lx_eof l then 0 else 1)"

lemma read_while_src [simp]: "lx_src (read_while f l) = lx_src l"
  by (induction f l rule: read_while.induct) (subst read_while.simps, simp)

lemma read_while_fields [simp]:
  "lx_path (read_while f l) = lx_path l \<and> lx_start (read_while f l) = lx_start l
   \<and> lx_par (read_while f l) = lx_par l \<and> lx_brk (read_while f l) = lx_brk l
   \<and> lx_last (read_while f l) = lx_last l \<and> lx_pend (read_while f l) = lx_pend l
   \<and> lx_eof (read_while f l) = lx_eof l \<and> lx_eofSemi (read_while f l) = lx_eofSemi l"
  by (induction f l rule: read_while.induct) (subst (1 2 3 4 5 6 7 8) read_while.simps, simp)

lemma read_while_mono: "lx_i l \<le> lx_i (read_while f l)"
proof (induction f l rule: read_while.induct)
  case (1 f l)
  then show ?case using lx_skip_mono [of l] by (subst read_while.simps) auto
qed

lemma read_while_left: "lx_left (read_while f l) \<le> lx_left l"
  using read_while_mono [of l f] by (simp add: lx_left_def)

lemma skipComment_less:
  assumes "lx_peek l = CHR ''#''"
  shows "lx_left (skipComment l) < lx_left l"
proof -
  have i: "lx_i l < length (lx_src l)" using assms by (intro lx_peek_in) simp
  then have "skipComment l = read_while (\<lambda>ch. \<not> (ch = NUL \<or> ch = LF \<or> ch = CR)) (lx_skip l)"
    unfolding skipComment_def using assms by (subst read_while.simps) simp
  then have "lx_left (skipComment l) \<le> lx_left (lx_skip l)" by (simp add: read_while_left)
  with lx_skip_less [OF i] show ?thesis by simp
qed

lemma skipComment_eof [simp]: "lx_eof (skipComment l) = lx_eof l"
  by (simp add: skipComment_def)

lemma lx_step_continue: "lx_step l = (None, l') \<Longrightarrow> lx_weight l' < lx_weight l"
  using lx_peek_in [of l] lx_skip_less [of l] skipComment_less [of l]
  by (auto simp: lx_step_def lx_weight_def lx_left_def Let_def split: if_splits prod.splits)

function lx_loop :: "Lexer \<Rightarrow> Tok \<times> Lexer" where
  "lx_loop l = (case lx_step l of (Some t, l') \<Rightarrow> (t, l') | (None, l') \<Rightarrow> lx_loop l')"
  by pat_completeness auto
termination
  by (relation "measure lx_weight") (auto dest: lx_step_continue [OF sym] lx_step_continue)

declare lx_loop.simps [simp del]

definition lx_next :: "Lexer \<Rightarrow> Tok \<times> Lexer" where
  "lx_next l =
     (case lx_pend l of
        Some t \<Rightarrow> (t, l\<lparr>lx_pend := None, lx_last := tkK t\<rparr>)
      | None \<Rightarrow> lx_loop l)"

end
