(* ===== verification/RtsParser.thy ===== *)
theory RtsParser
  imports RtsLexer RtsAst
begin

text \<open>
  The RestermScript parser (\<open>internal/rts/parser.go\<close>), one definition per method. A method is
  a function from the parser state to an error or a result with the next state; the Go code
  raises a \<open>ParseError\<close> with \<open>panic\<close> and recovers it in the entry points, so the state after
  an error is never seen. Methods that call back into \<open>parseExpr\<close>, \<open>parseUnary\<close> or
  \<open>parseStmt\<close> take that call as an argument (\<open>pe\<close>, \<open>pu\<close>, \<open>ps\<close>); \<open>parseExprN\<close> and
  \<open>parseStmtN\<close> tie the knot with a bound on the nesting. Loops count down the same bound.
  Running out of it is the error \<open>NoFuel\<close>, which no Go execution has: RtsParserProps shows
  that the bound the entry points choose is never reached.
\<close>

section \<open>Parser state\<close>

datatype controlKind = controlSwitch | controlLoop

record controlTarget =
  ctKind :: controlKind
  ctLabel :: string
  ctPos :: Pos

record stmtLabel =
  lbName :: string
  lbPos :: Pos

definition no_label :: stmtLabel where
  "no_label = \<lparr>lbName = [], lbPos = zero_pos\<rparr>"

record Parser =
  p_lx :: Lexer
  p_cur :: Tok
  p_peek :: Tok
  p_ahead :: "Tok list"
  p_controls :: "controlTarget list"

datatype ParseError = ParseErr Pos string | NoFuel

type_synonym 'a pres = "ParseError + ('a \<times> Parser)"

definition pbind :: "'a pres \<Rightarrow> ('a \<Rightarrow> Parser \<Rightarrow> 'b pres) \<Rightarrow> 'b pres" where
  "pbind m f = (case m of Inl e \<Rightarrow> Inl e | Inr (x, p) \<Rightarrow> f x p)"

definition NewParserAt :: "string \<Rightarrow> string \<Rightarrow> Pos \<Rightarrow> Parser" where
  "NewParserAt path src pos =
     (let lx = NewLexerAt path src pos; (c, lx1) = lx_next lx; (k, lx2) = lx_next lx1
      in \<lparr>p_lx = lx2, p_cur = c, p_peek = k, p_ahead = [], p_controls = []\<rparr>)"

section \<open>Token access\<close>

abbreviation cur_kind :: "Parser \<Rightarrow> Kind" where
  "cur_kind p \<equiv> tkK (p_cur p)"

abbreviation cur_pos :: "Parser \<Rightarrow> Pos" where
  "cur_pos p \<equiv> tkP (p_cur p)"

abbreviation cur_lit :: "Parser \<Rightarrow> string" where
  "cur_lit p \<equiv> tkLit (p_cur p)"

definition isSemi :: "Kind \<Rightarrow> bool" where
  "isSemi k \<longleftrightarrow> k = SEMI \<or> k = AUTO_SEMI"

definition p_fail :: "Pos \<Rightarrow> string \<Rightarrow> 'a pres" where
  "p_fail pos msg = Inl (ParseErr pos msg)"

definition failCur :: "string \<Rightarrow> Parser \<Rightarrow> 'a pres" where
  "failCur fallback p =
     (let msg = (if cur_kind p = ILLEGAL then cur_lit p else fallback) in p_fail (cur_pos p) msg)"

definition p_next :: "Parser \<Rightarrow> Parser" where
  "p_next p =
     (case p_ahead p of
        t # ts \<Rightarrow> p\<lparr>p_cur := p_peek p, p_peek := t, p_ahead := ts\<rparr>
      | [] \<Rightarrow> (let (t, lx) = lx_next (p_lx p)
              in p\<lparr>p_cur := p_peek p, p_peek := t, p_lx := lx\<rparr>))"

text \<open>The loop of \<open>peekN\<close> that fills the lookahead to \<open>n\<close> tokens.\<close>

fun fill_ahead :: "nat \<Rightarrow> Parser \<Rightarrow> Parser" where
  "fill_ahead 0 p = p"
| "fill_ahead (Suc k) p =
     (let (t, lx) = lx_next (p_lx p)
      in fill_ahead k (p\<lparr>p_ahead := p_ahead p @ [t], p_lx := lx\<rparr>))"

definition peekN :: "nat \<Rightarrow> Parser \<Rightarrow> Tok \<times> Parser" where
  "peekN n p =
     (if n \<le> 0 then (p_cur p, p)
      else if n = 1 then (p_peek p, p)
      else (let p1 = fill_ahead (n - 1 - length (p_ahead p)) p in (p_ahead p1 ! (n - 2), p1)))"

definition expect :: "Kind \<Rightarrow> Parser \<Rightarrow> Tok pres" where
  "expect k p =
     (if cur_kind p \<noteq> k then
        failCur (''expected '' @ kind_string k @ '', got '' @ kind_string (cur_kind p)) p
      else Inr (p_cur p, p_next p))"

definition expectSemi :: "Parser \<Rightarrow> unit pres" where
  "expectSemi p =
     (if \<not> isSemi (cur_kind p) then
        failCur (''expected '' @ kind_string SEMI @ '', got '' @ kind_string (cur_kind p)) p
      else Inr ((), p_next p))"

text \<open>\<open>skipSemi\<close> and the loops \<open>for p.isSemi(p.cur.K) { p.next() }\<close>.\<close>

fun skipSemi :: "nat \<Rightarrow> Parser \<Rightarrow> unit pres" where
  "skipSemi 0 p = Inl NoFuel"
| "skipSemi (Suc n) p =
     (if isSemi (cur_kind p) then skipSemi n (p_next p) else Inr ((), p))"

section \<open>Expressions\<close>

subsection \<open>Operators\<close>

fun coalesceOp :: "Kind \<Rightarrow> BinOp option" where
  "coalesceOp COALESCE = Some OpCoalesce"
| "coalesceOp _ = None"

fun orOp :: "Kind \<Rightarrow> BinOp option" where
  "orOp KW_OR = Some OpOr"
| "orOp OROR = Some OpOr"
| "orOp _ = None"

fun andOp :: "Kind \<Rightarrow> BinOp option" where
  "andOp KW_AND = Some OpAnd"
| "andOp ANDAND = Some OpAnd"
| "andOp _ = None"

fun eqOp :: "Kind \<Rightarrow> BinOp option" where
  "eqOp EQ = Some OpEq"
| "eqOp NE = Some OpNe"
| "eqOp _ = None"

fun cmpOp :: "Kind \<Rightarrow> BinOp option" where
  "cmpOp LT = Some OpLt"
| "cmpOp LE = Some OpLe"
| "cmpOp GT = Some OpGt"
| "cmpOp GE = Some OpGe"
| "cmpOp _ = None"

fun addOp :: "Kind \<Rightarrow> BinOp option" where
  "addOp PLUS = Some OpAdd"
| "addOp MINUS = Some OpSub"
| "addOp _ = None"

fun mulOp :: "Kind \<Rightarrow> BinOp option" where
  "mulOp STAR = Some OpMul"
| "mulOp SLASH = Some OpDiv"
| "mulOp PERCENT = Some OpMod"
| "mulOp _ = None"

fun unaryOp :: "Kind \<Rightarrow> UnOp option" where
  "unaryOp KW_NOT = Some UnNot"
| "unaryOp BANG = Some UnNot"
| "unaryOp MINUS = Some UnNeg"
| "unaryOp _ = None"

type_synonym expr_parser = "Parser \<Rightarrow> Expr pres"

text \<open>The loop of \<open>parseBinary\<close>, with the expression parsed so far.\<close>

fun binary_loop :: "nat \<Rightarrow> expr_parser \<Rightarrow> (Kind \<Rightarrow> BinOp option) \<Rightarrow> Expr \<Rightarrow> expr_parser" where
  "binary_loop 0 nxt opOf left p = Inl NoFuel"
| "binary_loop (Suc n) nxt opOf left p =
     (case opOf (cur_kind p) of
        None \<Rightarrow> Inr (left, p)
      | Some op \<Rightarrow>
          (let pos = cur_pos p in
           pbind (nxt (p_next p)) (\<lambda>right. binary_loop n nxt opOf (Binary pos op left right))))"

definition parseBinary :: "nat \<Rightarrow> expr_parser \<Rightarrow> (Kind \<Rightarrow> BinOp option) \<Rightarrow> expr_parser" where
  "parseBinary n nxt opOf p = pbind (nxt p) (\<lambda>left. binary_loop n nxt opOf left)"

subsection \<open>Primary and postfix expressions\<close>

fun args_loop :: "nat \<Rightarrow> expr_parser \<Rightarrow> Expr list \<Rightarrow> Parser \<Rightarrow> Expr list pres" where
  "args_loop 0 pe out p = Inl NoFuel"
| "args_loop (Suc n) pe out p =
     pbind (pe p) (\<lambda>x p1. let out1 = out @ [x] in
       if cur_kind p1 = COMMA then
         (let p2 = p_next p1 in
          if cur_kind p2 = RPAREN then Inr (out1, p2) else args_loop n pe out1 p2)
       else Inr (out1, p1))"

definition parseArgs :: "nat \<Rightarrow> expr_parser \<Rightarrow> Parser \<Rightarrow> Expr list pres" where
  "parseArgs n pe p = (if cur_kind p = RPAREN then Inr ([], p) else args_loop n pe [] p)"

fun list_loop :: "nat \<Rightarrow> expr_parser \<Rightarrow> Expr list \<Rightarrow> Parser \<Rightarrow> Expr list pres" where
  "list_loop 0 pe out p = Inl NoFuel"
| "list_loop (Suc n) pe out p =
     pbind (pe p) (\<lambda>x p1. let out1 = out @ [x] in
     pbind (skipSemi (Suc n) p1) (\<lambda>_ p2.
       if cur_kind p2 = COMMA then
         pbind (skipSemi (Suc n) (p_next p2)) (\<lambda>_ p3.
           if cur_kind p3 = RBRACK then Inr (out1, p3) else list_loop n pe out1 p3)
       else Inr (out1, p2)))"

definition parseList :: "nat \<Rightarrow> expr_parser \<Rightarrow> expr_parser" where
  "parseList n pe p =
     pbind (expect LBRACK p) (\<lambda>t p0. let pos = tkP t in
     pbind (skipSemi n p0) (\<lambda>_ p1.
       if cur_kind p1 = RBRACK then Inr (ListLit pos [], p_next p1)
       else pbind (list_loop n pe [] p1) (\<lambda>elems p2.
            pbind (expect RBRACK p2) (\<lambda>_ p3. Inr (ListLit pos elems, p3)))))"

text \<open>The key of a dictionary entry; the position is the one before the key is read.\<close>

definition parse_dict_key :: "Parser \<Rightarrow> (Pos \<times> string) pres" where
  "parse_dict_key p =
     (let kp = cur_pos p in
      if cur_kind p = STRING \<or> cur_kind p = IDENT then Inr ((kp, cur_lit p), p_next p)
      else if isKeyword (cur_kind p) then
        p_fail kp (''dict key cannot be the reserved word '' @ kind_string (cur_kind p)
                   @ '', quote it as '' @ quote_ascii (kind_string (cur_kind p)))
      else p_fail kp ''dict key must be string or ident'')"

fun dict_loop ::
  "nat \<Rightarrow> expr_parser \<Rightarrow> (Pos \<times> string \<times> Expr) list \<Rightarrow> Parser \<Rightarrow> (Pos \<times> string \<times> Expr) list pres"
where
  "dict_loop 0 pe out p = Inl NoFuel"
| "dict_loop (Suc n) pe out p =
     pbind (parse_dict_key p) (\<lambda>(kp, key) p1.
     pbind (expect COLON p1) (\<lambda>_ p2.
     pbind (pe p2) (\<lambda>v p3. let out1 = out @ [(kp, key, v)] in
     pbind (skipSemi (Suc n) p3) (\<lambda>_ p4.
       if cur_kind p4 = COMMA then
         pbind (skipSemi (Suc n) (p_next p4)) (\<lambda>_ p5.
           if cur_kind p5 = RBRACE then Inr (out1, p5) else dict_loop n pe out1 p5)
       else Inr (out1, p4)))))"

definition parseDict :: "nat \<Rightarrow> expr_parser \<Rightarrow> expr_parser" where
  "parseDict n pe p =
     pbind (expect LBRACE p) (\<lambda>t p0. let pos = tkP t in
     pbind (skipSemi n p0) (\<lambda>_ p1.
       if cur_kind p1 = RBRACE then Inr (DictLit pos [], p_next p1)
       else pbind (dict_loop n pe [] p1) (\<lambda>entries p2.
            pbind (expect RBRACE p2) (\<lambda>_ p3. Inr (DictLit pos entries, p3)))))"

definition parsePrimary :: "nat \<Rightarrow> expr_parser \<Rightarrow> expr_parser" where
  "parsePrimary n pe p =
     (let pos = cur_pos p; lit = cur_lit p in
      case cur_kind p of
        IDENT \<Rightarrow> Inr (Ident pos lit, p_next p)
      | NUMBER \<Rightarrow>
          (case parse_decimal lit of
             None \<Rightarrow> p_fail pos ''invalid number''
           | Some x \<Rightarrow> Inr (Literal pos (LitNum x), p_next p))
      | STRING \<Rightarrow> Inr (Literal pos (LitStr lit), p_next p)
      | KW_TRUE \<Rightarrow> Inr (Literal pos (LitBool True), p_next p)
      | KW_FALSE \<Rightarrow> Inr (Literal pos (LitBool False), p_next p)
      | KW_NULL \<Rightarrow> Inr (Literal pos LitNull, p_next p)
      | LPAREN \<Rightarrow>
          pbind (pe (p_next p)) (\<lambda>ex p1. pbind (expect RPAREN p1) (\<lambda>_ p2. Inr (ex, p2)))
      | LBRACK \<Rightarrow> parseList n pe p
      | LBRACE \<Rightarrow> parseDict n pe p
      | _ \<Rightarrow> failCur (''unexpected '' @ kind_string (cur_kind p)) p)"

text \<open>The loop of \<open>parsePostfix\<close>: calls, indexes and members, leftmost first.\<close>

fun postfix_loop :: "nat \<Rightarrow> expr_parser \<Rightarrow> Expr \<Rightarrow> expr_parser" where
  "postfix_loop 0 pe left p = Inl NoFuel"
| "postfix_loop (Suc n) pe left p =
     (let pos = cur_pos p in
      if cur_kind p = LPAREN then
        pbind (parseArgs (Suc n) pe (p_next p)) (\<lambda>args p1.
        pbind (expect RPAREN p1) (\<lambda>_ p2. postfix_loop n pe (Call pos left args) p2))
      else if cur_kind p = LBRACK then
        pbind (pe (p_next p)) (\<lambda>idx p1.
        pbind (expect RBRACK p1) (\<lambda>_ p2. postfix_loop n pe (Index pos left idx) p2))
      else if cur_kind p = DOT then
        (let p1 = p_next p in
         if isKeyword (cur_kind p1) then
           p_fail (cur_pos p1)
             (''field name cannot be the reserved word '' @ kind_string (cur_kind p1)
              @ '', use ['' @ quote_ascii (kind_string (cur_kind p1)) @ ''] instead'')
         else pbind (expect IDENT p1) (\<lambda>t p2. postfix_loop n pe (Member pos left (tkLit t)) p2))
      else Inr (left, p))"

definition parsePostfix :: "nat \<Rightarrow> expr_parser \<Rightarrow> expr_parser" where
  "parsePostfix n pe p = pbind (parsePrimary n pe p) (\<lambda>left. postfix_loop n pe left)"

subsection \<open>The precedence ladder\<close>

fun parseUnary :: "nat \<Rightarrow> nat \<Rightarrow> expr_parser \<Rightarrow> expr_parser" where
  "parseUnary 0 n pe p = Inl NoFuel"
| "parseUnary (Suc d) n pe p =
     (let pos = cur_pos p in
      if cur_kind p = KW_TRY then
        pbind (parseUnary d n pe (p_next p)) (\<lambda>x p1. Inr (TryExpr pos x, p1))
      else case unaryOp (cur_kind p) of
        Some op \<Rightarrow> pbind (parseUnary d n pe (p_next p)) (\<lambda>x p1. Inr (Unary pos op x, p1))
      | None \<Rightarrow> parsePostfix n pe p)"

definition parseMul :: "nat \<Rightarrow> expr_parser \<Rightarrow> expr_parser" where
  "parseMul n pe = parseBinary n (parseUnary n n pe) mulOp"

definition parseAdd :: "nat \<Rightarrow> expr_parser \<Rightarrow> expr_parser" where
  "parseAdd n pe = parseBinary n (parseMul n pe) addOp"

definition parseCmp :: "nat \<Rightarrow> expr_parser \<Rightarrow> expr_parser" where
  "parseCmp n pe = parseBinary n (parseAdd n pe) cmpOp"

definition parseEq :: "nat \<Rightarrow> expr_parser \<Rightarrow> expr_parser" where
  "parseEq n pe = parseBinary n (parseCmp n pe) eqOp"

definition parseAnd :: "nat \<Rightarrow> expr_parser \<Rightarrow> expr_parser" where
  "parseAnd n pe = parseBinary n (parseEq n pe) andOp"

definition parseOr :: "nat \<Rightarrow> expr_parser \<Rightarrow> expr_parser" where
  "parseOr n pe = parseBinary n (parseAnd n pe) orOp"

definition parseCoalesce :: "nat \<Rightarrow> expr_parser \<Rightarrow> expr_parser" where
  "parseCoalesce n pe = parseBinary n (parseOr n pe) coalesceOp"

definition parseTernary :: "nat \<Rightarrow> expr_parser \<Rightarrow> expr_parser" where
  "parseTernary n pe p =
     pbind (parseCoalesce n pe p) (\<lambda>cond p1.
       if cur_kind p1 \<noteq> QUESTION then Inr (cond, p1)
       else (let pos = cur_pos p1 in
         pbind (pe (p_next p1)) (\<lambda>thn p2.
         pbind (expect COLON p2) (\<lambda>_ p3.
         pbind (pe p3) (\<lambda>els p4. Inr (Ternary pos cond thn els, p4))))))"

text \<open>\<open>parseExpr\<close>, its nested calls bounded by the first argument.\<close>

fun parseExprN :: "nat \<Rightarrow> expr_parser" where
  "parseExprN 0 p = Inl NoFuel"
| "parseExprN (Suc n) p = parseTernary (Suc n) (parseExprN n) p"

section \<open>Statements\<close>

subsection \<open>Simple statements\<close>

definition parseLet :: "expr_parser \<Rightarrow> bool \<Rightarrow> bool \<Rightarrow> Parser \<Rightarrow> Stmt pres" where
  "parseLet pe exp isConst p =
     pbind (expect (if isConst then KW_CONST else KW_LET) p) (\<lambda>t p1.
     pbind (expect IDENT p1) (\<lambda>nm p2.
     pbind (expect ASSIGN p2) (\<lambda>_ p3.
     pbind (pe p3) (\<lambda>v p4. Inr (LetStmt (tkP t) exp isConst (tkLit nm) v, p4)))))"

definition parseAssign :: "expr_parser \<Rightarrow> Parser \<Rightarrow> Stmt pres" where
  "parseAssign pe p =
     pbind (expect IDENT p) (\<lambda>tok p1.
     pbind (expect ASSIGN p1) (\<lambda>_ p2.
     pbind (pe p2) (\<lambda>v p3. Inr (AssignStmt (tkP tok) (tkLit tok) v, p3))))"

definition parseReturn :: "expr_parser \<Rightarrow> Parser \<Rightarrow> Stmt pres" where
  "parseReturn pe p =
     pbind (expect KW_RETURN p) (\<lambda>t p1.
       if cur_kind p1 = EOF \<or> cur_kind p1 = RBRACE \<or> isSemi (cur_kind p1)
       then Inr (ReturnStmt (tkP t) None, p1)
       else pbind (pe p1) (\<lambda>v p2. Inr (ReturnStmt (tkP t) (Some v), p2)))"

definition parseExprStmt :: "expr_parser \<Rightarrow> Parser \<Rightarrow> Stmt pres" where
  "parseExprStmt pe p =
     (let pos = cur_pos p in pbind (pe p) (\<lambda>ex p1. Inr (ExprStmt pos ex, p1)))"

subsection \<open>Labels and control targets\<close>

definition pushControl :: "controlKind \<Rightarrow> stmtLabel \<Rightarrow> Parser \<Rightarrow> Parser" where
  "pushControl kind lb p =
     p\<lparr>p_controls := p_controls p @ [\<lparr>ctKind = kind, ctLabel = lbName lb, ctPos = lbPos lb\<rparr>]\<rparr>"

definition popControl :: "Parser \<Rightarrow> Parser" where
  "popControl p = p\<lparr>p_controls := butlast (p_controls p)\<rparr>"

text \<open>The innermost target with the label: the Go loop runs from the end of the slice.\<close>

definition findControl :: "controlTarget list \<Rightarrow> string \<Rightarrow> controlTarget option" where
  "findControl cs label = find (\<lambda>c. ctLabel c = label) (rev cs)"

definition inLoop :: "controlTarget list \<Rightarrow> bool" where
  "inLoop cs \<longleftrightarrow> list_ex (\<lambda>c. ctKind c = controlLoop) cs"

definition labelRef :: "Parser \<Rightarrow> Tok option \<times> Parser" where
  "labelRef p = (if cur_kind p \<noteq> IDENT then (None, p) else (Some (p_cur p), p_next p))"

definition parseBreak :: "Parser \<Rightarrow> Stmt pres" where
  "parseBreak p =
     pbind (expect KW_BREAK p) (\<lambda>t p1.
       case labelRef p1 of
         (None, p2) \<Rightarrow>
           if p_controls p2 = [] then p_fail (tkP t) ''break outside loop or switch''
           else Inr (BreakStmt (tkP t) [], p2)
       | (Some tok, p2) \<Rightarrow>
           if findControl (p_controls p2) (tkLit tok) = None then
             p_fail (tkP tok) (''undefined label '' @ quote_ascii (tkLit tok))
           else Inr (BreakStmt (tkP t) (tkLit tok), p2))"

definition parseContinue :: "Parser \<Rightarrow> Stmt pres" where
  "parseContinue p =
     pbind (expect KW_CONTINUE p) (\<lambda>t p1.
       case labelRef p1 of
         (None, p2) \<Rightarrow>
           if \<not> inLoop (p_controls p2) then p_fail (tkP t) ''continue outside loop''
           else Inr (ContinueStmt (tkP t) [], p2)
       | (Some tok, p2) \<Rightarrow>
           (case findControl (p_controls p2) (tkLit tok) of
              None \<Rightarrow> p_fail (tkP tok) (''undefined label '' @ quote_ascii (tkLit tok))
            | Some c \<Rightarrow>
                if ctKind c \<noteq> controlLoop then
                  p_fail (tkP tok)
                    (''continue label '' @ quote_ascii (tkLit tok) @ '' is not a loop'')
                else Inr (ContinueStmt (tkP t) (tkLit tok), p2)))"

subsection \<open>Blocks, functions and conditionals\<close>

type_synonym stmt_parser = "Parser \<Rightarrow> Stmt pres"

fun block_loop :: "nat \<Rightarrow> stmt_parser \<Rightarrow> Stmt list \<Rightarrow> Parser \<Rightarrow> Stmt list pres" where
  "block_loop 0 ps out p = Inl NoFuel"
| "block_loop (Suc n) ps out p =
     (if cur_kind p = RBRACE then Inr (out, p)
      else if cur_kind p = EOF then p_fail (cur_pos p) ''unterminated block''
      else if isSemi (cur_kind p) then block_loop n ps out (p_next p)
      else pbind (ps p) (\<lambda>st p1.
           pbind (skipSemi (Suc n) p1) (\<lambda>_ p2. block_loop n ps (out @ [st]) p2)))"

definition parseBlock :: "nat \<Rightarrow> stmt_parser \<Rightarrow> Parser \<Rightarrow> Block pres" where
  "parseBlock n ps p =
     pbind (expect LBRACE p) (\<lambda>t p1.
     pbind (block_loop n ps [] p1) (\<lambda>out p2.
     pbind (expect RBRACE p2) (\<lambda>_ p3. Inr (Block (tkP t) out, p3))))"

fun params_loop :: "nat \<Rightarrow> string list \<Rightarrow> Parser \<Rightarrow> string list pres" where
  "params_loop 0 out p = Inl NoFuel"
| "params_loop (Suc n) out p =
     (if cur_kind p \<noteq> IDENT then p_fail (cur_pos p) ''expected parameter name''
      else let name = cur_lit p in
        if name \<in> set out then
          p_fail (cur_pos p) (''duplicate parameter '' @ quote_ascii name)
        else let out1 = out @ [name]; p1 = p_next p in
          if cur_kind p1 = COMMA then
            (let p2 = p_next p1 in
             if cur_kind p2 = RPAREN then Inr (out1, p2) else params_loop n out1 p2)
          else Inr (out1, p1))"

definition parseParams :: "nat \<Rightarrow> Parser \<Rightarrow> string list pres" where
  "parseParams n p = (if cur_kind p = RPAREN then Inr ([], p) else params_loop n [] p)"

text \<open>A function body starts with no enclosing control target.\<close>

definition parseFn :: "nat \<Rightarrow> stmt_parser \<Rightarrow> bool \<Rightarrow> Parser \<Rightarrow> Stmt pres" where
  "parseFn n ps exp p =
     pbind (expect KW_FN p) (\<lambda>t p1.
     pbind (expect IDENT p1) (\<lambda>nm p2.
     pbind (expect LPAREN p2) (\<lambda>_ p3.
     pbind (parseParams n p3) (\<lambda>params p4.
     pbind (expect RPAREN p4) (\<lambda>_ p5.
       let saved = p_controls p5 in
       pbind (parseBlock n ps (p5\<lparr>p_controls := []\<rparr>)) (\<lambda>body p6.
         Inr (FnDef (tkP t) exp (tkLit nm) params body, p6\<lparr>p_controls := saved\<rparr>)))))))"

fun elif_loop ::
  "nat \<Rightarrow> expr_parser \<Rightarrow> stmt_parser \<Rightarrow> (Expr \<times> Block) list \<Rightarrow> Parser \<Rightarrow> (Expr \<times> Block) list pres"
where
  "elif_loop 0 pe ps out p = Inl NoFuel"
| "elif_loop (Suc n) pe ps out p =
     (if cur_kind p = KW_ELIF then
        pbind (pe (p_next p)) (\<lambda>c p1.
        pbind (parseBlock (Suc n) ps p1) (\<lambda>b p2. elif_loop n pe ps (out @ [(c, b)]) p2))
      else Inr (out, p))"

definition parseIf :: "nat \<Rightarrow> expr_parser \<Rightarrow> stmt_parser \<Rightarrow> Parser \<Rightarrow> Stmt pres" where
  "parseIf n pe ps p =
     pbind (expect KW_IF p) (\<lambda>t p1.
     pbind (pe p1) (\<lambda>cond p2.
     pbind (parseBlock n ps p2) (\<lambda>thn p3.
     pbind (elif_loop n pe ps [] p3) (\<lambda>elifs p4.
       if cur_kind p4 = KW_ELSE then
         pbind (parseBlock n ps (p_next p4)) (\<lambda>els p5.
           Inr (IfStmt (tkP t) cond thn elifs (Some els), p5))
       else Inr (IfStmt (tkP t) cond thn elifs None, p4)))))"

subsection \<open>Switch\<close>

fun case_exprs_loop :: "nat \<Rightarrow> expr_parser \<Rightarrow> Expr list \<Rightarrow> Parser \<Rightarrow> Expr list pres" where
  "case_exprs_loop 0 pe out p = Inl NoFuel"
| "case_exprs_loop (Suc n) pe out p =
     (if cur_kind p = COLON then p_fail (cur_pos p) ''case requires an expression''
      else pbind (pe p) (\<lambda>x p1.
        if cur_kind p1 \<noteq> COMMA then Inr (out @ [x], p1)
        else case_exprs_loop n pe (out @ [x]) (p_next p1)))"

fun clause_body_loop :: "nat \<Rightarrow> stmt_parser \<Rightarrow> Pos \<Rightarrow> Stmt list \<Rightarrow> Parser \<Rightarrow> Block pres" where
  "clause_body_loop 0 ps pos out p = Inl NoFuel"
| "clause_body_loop (Suc n) ps pos out p =
     pbind (skipSemi (Suc n) p) (\<lambda>_ p1.
       if cur_kind p1 = RBRACE \<or> cur_kind p1 = KW_CASE \<or> cur_kind p1 = KW_DEFAULT
       then Inr (Block pos out, p1)
       else if cur_kind p1 = EOF then p_fail (cur_pos p1) ''unterminated switch''
       else pbind (ps p1) (\<lambda>st p2. clause_body_loop n ps pos (out @ [st]) p2))"

type_synonym CaseClause = "Pos \<times> Expr list \<times> Block"

definition parseCase :: "nat \<Rightarrow> expr_parser \<Rightarrow> stmt_parser \<Rightarrow> Parser \<Rightarrow> CaseClause pres" where
  "parseCase n pe ps p =
     pbind (expect KW_CASE p) (\<lambda>t p1.
     pbind (case_exprs_loop n pe [] p1) (\<lambda>exprs p2.
     pbind (expect COLON p2) (\<lambda>c p3.
     pbind (clause_body_loop n ps (tkP c) [] p3) (\<lambda>body p4.
       Inr ((tkP t, exprs, body), p4)))))"

definition parseDefault :: "nat \<Rightarrow> stmt_parser \<Rightarrow> Parser \<Rightarrow> CaseClause pres" where
  "parseDefault n ps p =
     pbind (expect KW_DEFAULT p) (\<lambda>t p1.
     pbind (expect COLON p1) (\<lambda>c p2.
     pbind (clause_body_loop n ps (tkP c) [] p2) (\<lambda>body p3.
       Inr ((tkP t, [], body), p3))))"

fun clauses_loop ::
  "nat \<Rightarrow> expr_parser \<Rightarrow> stmt_parser \<Rightarrow> bool \<Rightarrow> CaseClause list \<Rightarrow> Parser \<Rightarrow> CaseClause list pres"
where
  "clauses_loop 0 pe ps seenDefault out p = Inl NoFuel"
| "clauses_loop (Suc n) pe ps seenDefault out p =
     pbind (skipSemi (Suc n) p) (\<lambda>_ p1.
       if cur_kind p1 = RBRACE then Inr (out, p1)
       else if cur_kind p1 = EOF then p_fail (cur_pos p1) ''unterminated switch''
       else if cur_kind p1 = KW_CASE then
         pbind (parseCase (Suc n) pe ps p1) (\<lambda>c p2. clauses_loop n pe ps seenDefault (out @ [c]) p2)
       else if cur_kind p1 = KW_DEFAULT then
         (if seenDefault then p_fail (cur_pos p1) ''duplicate default in switch''
          else pbind (parseDefault (Suc n) ps p1) (\<lambda>c p2. clauses_loop n pe ps True (out @ [c]) p2))
       else failCur (''expected case or default, got '' @ kind_string (cur_kind p1)) p1)"

definition parseSwitch :: "nat \<Rightarrow> expr_parser \<Rightarrow> stmt_parser \<Rightarrow> stmtLabel \<Rightarrow> Parser \<Rightarrow> Stmt pres" where
  "parseSwitch n pe ps lb p =
     pbind (expect KW_SWITCH p) (\<lambda>t p1.
     pbind (if cur_kind p1 \<noteq> LBRACE
            then pbind (pe p1) (\<lambda>x p2. Inr (Some x, p2)) else Inr (None, p1)) (\<lambda>tag p2.
     pbind (expect LBRACE p2) (\<lambda>_ p3.
     pbind (clauses_loop n pe ps False [] (pushControl controlSwitch lb p3)) (\<lambda>clauses p4.
     pbind (expect RBRACE (popControl p4)) (\<lambda>_ p5.
       Inr (SwitchStmt (tkP t) (lbName lb) (lbPos lb) tag clauses, p5))))))"

subsection \<open>For\<close>

definition isForRangeStart :: "Parser \<Rightarrow> bool \<times> Parser" where
  "isForRangeStart p =
     (let k = cur_kind p in
      if k \<noteq> KW_LET \<and> k \<noteq> IDENT then (False, p)
      else
        (let (t1, pa) = (if k = KW_LET then peekN 1 p else (p_cur p, p));
             idx = (if k = KW_LET then 1 else 0)
         in if tkK t1 \<noteq> IDENT then (False, pa)
            else
              (let (nxt, pb) = peekN (idx + 1) pa in
               if tkK nxt = COMMA then
                 (let (t2, pc) = peekN (idx + 2) pb in
                  if tkK t2 \<noteq> IDENT then (False, pc)
                  else (let (t3, pd) = peekN (idx + 3) pc in (tkK t3 = KW_RANGE, pd)))
               else (tkK nxt = KW_RANGE, pb))))"

definition parseForBody ::
  "nat \<Rightarrow> stmt_parser \<Rightarrow> Pos \<Rightarrow> stmtLabel \<Rightarrow> Stmt option \<Rightarrow> Expr option \<Rightarrow> Stmt option
   \<Rightarrow> ForRange option \<Rightarrow> Parser \<Rightarrow> Stmt pres"
where
  "parseForBody n ps pos lb init cond post rng p =
     pbind (parseBlock n ps (pushControl controlLoop lb p)) (\<lambda>body p1.
       Inr (ForStmt pos (lbName lb) (lbPos lb) init cond post rng body, popControl p1))"

definition parseForRange ::
  "nat \<Rightarrow> expr_parser \<Rightarrow> stmt_parser \<Rightarrow> Pos \<Rightarrow> stmtLabel \<Rightarrow> Parser \<Rightarrow> Stmt pres"
where
  "parseForRange n pe ps pos lb p =
     (let decl = (cur_kind p = KW_LET); p1 = (if decl then p_next p else p) in
      pbind (expect IDENT p1) (\<lambda>keyTok p2.
      pbind (if cur_kind p2 = COMMA
             then pbind (expect IDENT (p_next p2)) (\<lambda>valTok p3. Inr (tkLit valTok, p3))
             else Inr ([], p2)) (\<lambda>vl p4.
        let key = tkLit keyTok in
        if vl \<noteq> [] \<and> key = vl \<and> key \<noteq> ''_'' then
          p_fail (tkP keyTok) ''range variables must be distinct''
        else
          pbind (expect KW_RANGE p4) (\<lambda>_ p5.
          pbind (pe p5) (\<lambda>src p6.
            parseForBody n ps pos lb None None None
              (Some \<lparr>rKey = key, rVal = vl, rExpr = src, rDeclare = decl\<rparr>) p6)))))"

definition parseForCond :: "expr_parser \<Rightarrow> Parser \<Rightarrow> Expr option pres" where
  "parseForCond pe p =
     (if isSemi (cur_kind p) then Inr (None, p)
      else pbind (pe p) (\<lambda>x p1. Inr (Some x, p1)))"

definition parseForClause :: "expr_parser \<Rightarrow> bool \<Rightarrow> string \<Rightarrow> Parser \<Rightarrow> Stmt pres" where
  "parseForClause pe allowLet label p =
     (let k = cur_kind p in
      if k = KW_LET then
        (if \<not> allowLet then p_fail (cur_pos p) (''for '' @ label @ '' clause cannot use let'')
         else parseLet pe False False p)
      else if k = KW_CONST then p_fail (cur_pos p) (''for '' @ label @ '' clause cannot use const'')
      else if k \<in> {KW_EXPORT, KW_FN, KW_IF, KW_SWITCH, KW_FOR, KW_RETURN, KW_BREAK, KW_CONTINUE,
                  KW_RANGE} then
        p_fail (cur_pos p) (''invalid for '' @ label @ '' clause'')
      else if k = IDENT \<and> tkK (p_peek p) = ASSIGN then parseAssign pe p
      else parseExprStmt pe p)"

definition parseForInit :: "expr_parser \<Rightarrow> Parser \<Rightarrow> Stmt pres" where
  "parseForInit pe p = parseForClause pe True ''init'' p"

definition parseForPost :: "expr_parser \<Rightarrow> Parser \<Rightarrow> Stmt option pres" where
  "parseForPost pe p =
     (if cur_kind p = LBRACE then Inr (None, p)
      else pbind (parseForClause pe False ''post'' p) (\<lambda>st p1. Inr (Some st, p1)))"

text \<open>The tail the two three-clause forms share: condition, semicolon, post statement, body.\<close>

definition parseForClauses ::
  "nat \<Rightarrow> expr_parser \<Rightarrow> stmt_parser \<Rightarrow> Pos \<Rightarrow> stmtLabel \<Rightarrow> Stmt option \<Rightarrow> Parser \<Rightarrow> Stmt pres"
where
  "parseForClauses n pe ps pos lb init p =
     pbind (parseForCond pe p) (\<lambda>cond p1.
     pbind (expectSemi p1) (\<lambda>_ p2.
     pbind (parseForPost pe p2) (\<lambda>post p3.
       parseForBody n ps pos lb init cond post None p3)))"

definition parseFor :: "nat \<Rightarrow> expr_parser \<Rightarrow> stmt_parser \<Rightarrow> stmtLabel \<Rightarrow> Parser \<Rightarrow> Stmt pres" where
  "parseFor n pe ps lb p =
     pbind (expect KW_FOR p) (\<lambda>t p1. let pos = tkP t in
       if cur_kind p1 = LBRACE then parseForBody n ps pos lb None None None None p1
       else (let (isRange, p2) = isForRangeStart p1 in
         if isRange then parseForRange n pe ps pos lb p2
         else if isSemi (cur_kind p2) then parseForClauses n pe ps pos lb None (p_next p2)
         else
           pbind (parseForInit pe p2) (\<lambda>init p3.
             if isSemi (cur_kind p3) then parseForClauses n pe ps pos lb (Some init) (p_next p3)
             else case init of
               ExprStmt _ ex \<Rightarrow> parseForBody n ps pos lb None (Some ex) None None p3
             | _ \<Rightarrow> p_fail (stmt_pos init) ''for condition must be expression'')))"

subsection \<open>Labelled and exported statements\<close>

definition parseLabeled :: "nat \<Rightarrow> expr_parser \<Rightarrow> stmt_parser \<Rightarrow> Parser \<Rightarrow> Stmt pres" where
  "parseLabeled n pe ps p =
     (let tok = p_cur p in
      if tkLit tok = ''_'' then p_fail (tkP tok) (''invalid label '' @ quote_ascii (tkLit tok))
      else case findControl (p_controls p) (tkLit tok) of
        Some c \<Rightarrow>
          p_fail (tkP tok)
            (''duplicate label '' @ quote_ascii (tkLit tok) @ '', active since ''
             @ int_str (Line (ctPos c)) @ '':'' @ int_str (Col (ctPos c)))
      | None \<Rightarrow>
          (let p2 = p_next (p_next p); lb = \<lparr>lbName = tkLit tok, lbPos = tkP tok\<rparr> in
           if cur_kind p2 = KW_FOR then parseFor n pe ps lb p2
           else if cur_kind p2 = KW_SWITCH then parseSwitch n pe ps lb p2
           else failCur (''label must be followed by for or switch, got ''
                         @ kind_string (cur_kind p2)) p2))"

definition parseExport :: "nat \<Rightarrow> expr_parser \<Rightarrow> stmt_parser \<Rightarrow> Parser \<Rightarrow> Stmt pres" where
  "parseExport n pe ps p =
     pbind (expect KW_EXPORT p) (\<lambda>_ p1.
       if cur_kind p1 = KW_LET then parseLet pe True False p1
       else if cur_kind p1 = KW_CONST then parseLet pe True True p1
       else if cur_kind p1 = KW_FN then parseFn n ps True p1
       else p_fail (cur_pos p1) ''export must be followed by let, const, or fn'')"

definition parseStmt :: "nat \<Rightarrow> expr_parser \<Rightarrow> stmt_parser \<Rightarrow> Parser \<Rightarrow> Stmt pres" where
  "parseStmt n pe ps p =
     (let k = cur_kind p in
      if k = KW_EXPORT then parseExport n pe ps p
      else if k = KW_LET then parseLet pe False False p
      else if k = KW_CONST then parseLet pe False True p
      else if k = KW_FN then parseFn n ps False p
      else if k = KW_IF then parseIf n pe ps p
      else if k = KW_SWITCH then parseSwitch n pe ps no_label p
      else if k = KW_CASE then p_fail (cur_pos p) ''case outside switch body''
      else if k = KW_DEFAULT then p_fail (cur_pos p) ''default outside switch body''
      else if k = KW_FOR then parseFor n pe ps no_label p
      else if k = KW_BREAK then parseBreak p
      else if k = KW_CONTINUE then parseContinue p
      else if k = KW_RETURN then parseReturn pe p
      else if k = IDENT \<and> tkK (p_peek p) = ASSIGN then parseAssign pe p
      else if k = IDENT \<and> tkK (p_peek p) = COLON then parseLabeled n pe ps p
      else parseExprStmt pe p)"

fun parseStmtN :: "nat \<Rightarrow> stmt_parser" where
  "parseStmtN 0 p = Inl NoFuel"
| "parseStmtN (Suc n) p = parseStmt (Suc n) (parseExprN (Suc n)) (parseStmtN n) p"

section \<open>Modules and entry points\<close>

definition parseModDecl :: "Parser \<Rightarrow> (string \<times> Pos) pres" where
  "parseModDecl p =
     pbind (expect KW_MODULE p) (\<lambda>t p1.
       if isKeyword (cur_kind p1) then
         p_fail (cur_pos p1)
           (''module name cannot be the reserved word '' @ kind_string (cur_kind p1))
       else if cur_kind p1 \<noteq> IDENT then p_fail (cur_pos p1) ''module requires a name''
       else Inr ((cur_lit p1, tkP t), p_next p1))"

fun mod_loop :: "nat \<Rightarrow> Mod \<Rightarrow> Parser \<Rightarrow> Mod pres" where
  "mod_loop 0 m p = Inl NoFuel"
| "mod_loop (Suc n) m p =
     (if cur_kind p = EOF then Inr (m, p)
      else if isSemi (cur_kind p) then mod_loop n m (p_next p)
      else if cur_kind p = KW_MODULE then
        (if mName m \<noteq> [] \<or> 0 < length (mStmts m) then
           p_fail (cur_pos p) ''module must appear before statements''
         else pbind (parseModDecl p) (\<lambda>(nm, pos) p1.
              pbind (skipSemi (Suc n) p1) (\<lambda>_ p2.
                mod_loop n (m\<lparr>mName := nm, mNamePos := pos\<rparr>) p2)))
      else pbind (parseStmtN (Suc n) p) (\<lambda>st p1.
           pbind (skipSemi (Suc n) p1) (\<lambda>_ p2.
             mod_loop n (m\<lparr>mStmts := mStmts m @ [st]\<rparr>) p2)))"

definition parseMod :: "nat \<Rightarrow> Parser \<Rightarrow> Mod pres" where
  "parseMod n p =
     mod_loop n \<lparr>mPath = lx_path (p_lx p), mName = [], mNamePos = zero_pos, mStmts = []\<rparr> p"

definition parseExprOnly :: "nat \<Rightarrow> expr_parser" where
  "parseExprOnly n p =
     pbind (parseExprN n p) (\<lambda>ex p1.
     pbind (skipSemi n p1) (\<lambda>_ p2.
       if cur_kind p2 \<noteq> EOF then failCur (''unexpected '' @ kind_string (cur_kind p2)) p2
       else Inr (ex, p2)))"

text \<open>
  Every token but the last semicolon takes at least one byte of the source, so a source of \<open>k\<close>
  bytes has at most \<open>k + 1\<close> tokens before the end of file.
\<close>

definition parse_fuel :: "string \<Rightarrow> nat" where
  "parse_fuel src = length src + 2"

definition ParseModuleAt :: "string \<Rightarrow> string \<Rightarrow> Pos \<Rightarrow> ParseError + Mod" where
  "ParseModuleAt path src pos =
     (case parseMod (parse_fuel src) (NewParserAt path src pos) of
        Inl e \<Rightarrow> Inl e | Inr (m, p) \<Rightarrow> Inr m)"

definition ParseModule :: "string \<Rightarrow> string \<Rightarrow> ParseError + Mod" where
  "ParseModule path src = ParseModuleAt path src \<lparr>Path = [], Line = 1, Col = 1\<rparr>"

definition ParseExpr :: "string \<Rightarrow> int \<Rightarrow> int \<Rightarrow> string \<Rightarrow> ParseError + Expr" where
  "ParseExpr path line col src =
     (case parseExprOnly (parse_fuel src)
             (NewParserAt path src \<lparr>Path = [], Line = line, Col = col\<rparr>) of
        Inl e \<Rightarrow> Inl e | Inr (x, p) \<Rightarrow> Inr x)"

end
