(* ===== verification/RtsLexerProps.thy ===== *)
theory RtsLexerProps
  imports RtsLexer
begin

text \<open>
  What the RestermScript lexer guarantees: every call of \<open>Next\<close> reads forward and makes
  progress until the end of file, positions and literals agree with the source text, automatic
  semicolons appear only where the rules allow one, and a quoted string reads back. The locale
  \<open>token_source\<close> is the interface the parser and the group scanner rely on.
\<close>

section \<open>Sequences of reads\<close>

inductive lx_reads :: "Lexer \<Rightarrow> Lexer \<Rightarrow> bool" where
  lx_reads_refl: "lx_reads l l"
| lx_reads_step: "lx_reads (lx_skip l) l' \<Longrightarrow> lx_reads l l'"

lemma lx_reads_skip: "lx_reads l (lx_skip l)"
  by (rule lx_reads_step) (rule lx_reads_refl)

lemma lx_reads_trans: "lx_reads l l' \<Longrightarrow> lx_reads l' l'' \<Longrightarrow> lx_reads l l''"
  by (induction rule: lx_reads.induct) (blast intro: lx_reads_step)+

lemma lx_reads_fields:
  "lx_reads l l' \<Longrightarrow>
     lx_src l' = lx_src l \<and> lx_path l' = lx_path l \<and> lx_start l' = lx_start l
     \<and> lx_par l' = lx_par l \<and> lx_brk l' = lx_brk l \<and> lx_last l' = lx_last l
     \<and> lx_pend l' = lx_pend l \<and> lx_eof l' = lx_eof l \<and> lx_eofSemi l' = lx_eofSemi l
     \<and> lx_i l \<le> lx_i l' \<and> lx_left l' \<le> lx_left l
     \<and> (lx_i l \<le> length (lx_src l) \<longrightarrow> lx_i l' \<le> length (lx_src l))"
proof (induction rule: lx_reads.induct)
  case (lx_reads_step l l')
  then show ?case
    using lx_skip_mono [of l] lx_skip_bound [of l] lx_skip_le [of l] by auto
qed simp

lemma lx_reads_while: "lx_reads l (read_while f l)"
proof (induction f l rule: read_while.induct)
  case (1 f l)
  then show ?case
    by (subst read_while.simps) (auto intro: lx_reads_refl lx_reads_step [of l])
qed

lemma lx_reads_comment: "lx_reads l (skipComment l)"
  unfolding skipComment_def by (rule lx_reads_while)

lemma lx_reads_ident: "scanIdent l = (s, l') \<Longrightarrow> lx_reads (lx_skip l) l'"
  by (auto simp: scanIdent_def Let_def intro: lx_reads_while)

lemma lx_reads_number: "scanNumber l = (s, l') \<Longrightarrow> lx_reads (lx_skip l) l'"
  by (auto simp: scanNumber_def Let_def split: if_splits
      intro: lx_reads_while
        lx_reads_trans [OF lx_reads_while lx_reads_trans [OF lx_reads_skip lx_reads_while]])

lemma lx_read_snd: "lx_read l = (b, l') \<Longrightarrow> l' = lx_skip l"
  by (simp add: lx_skip_def)

lemma lx_reads_string_loop: "scanString_loop q start out l = (r, l') \<Longrightarrow> lx_reads l l'"
proof (induction q start out l arbitrary: r l' rule: scanString_loop.induct)
  case (1 q start out l)
  obtain esc l2 where rd: "lx_read (lx_skip l) = (esc, l2)" by fastforce
  then have l2: "l2 = lx_skip (lx_skip l)" by (rule lx_read_snd)
  consider (stop) "lx_peek l = NUL \<or> lx_peek l = LF \<or> lx_peek l = CR"
    | (quote) "\<not> (lx_peek l = NUL \<or> lx_peek l = LF \<or> lx_peek l = CR)" "lx_peek l = q"
    | (esc) "\<not> (lx_peek l = NUL \<or> lx_peek l = LF \<or> lx_peek l = CR)" "lx_peek l \<noteq> q"
        "lx_peek l = CHR 0x5C"
    | (other) "\<not> (lx_peek l = NUL \<or> lx_peek l = LF \<or> lx_peek l = CR)" "lx_peek l \<noteq> q"
        "lx_peek l \<noteq> CHR 0x5C"
    by blast
  then show ?case
  proof cases
    case stop
    with "1.prems" show ?thesis
      by (subst (asm) scanString_loop.simps) (auto simp: Let_def intro: lx_reads_refl)
  next
    case quote
    with "1.prems" show ?thesis
      by (subst (asm) scanString_loop.simps) (auto simp: Let_def intro: lx_reads_skip)
  next
    case esc
    with "1.prems" rd
    have "scanString_loop q (lx_i l2) ((out @ slice (lx_src l) start (lx_i l)) @ [escape_byte esc]) l2 = (r, l')"
      by (subst (asm) scanString_loop.simps) (auto simp: Let_def)
    then have "lx_reads l2 l'" using "1.IH"(1) esc rd by auto
    then show ?thesis unfolding l2 by (rule lx_reads_step [OF lx_reads_step])
  next
    case other
    with "1.prems" have "scanString_loop q start out (lx_skip l) = (r, l')"
      by (subst (asm) scanString_loop.simps) (auto simp: Let_def)
    then have "lx_reads (lx_skip l) l'" using "1.IH"(2) other by auto
    then show ?thesis by (rule lx_reads_step)
  qed
qed

lemma lx_reads_string: "scanString l = (r, l') \<Longrightarrow> lx_reads (lx_skip l) l'"
  by (auto simp: scanString_def dest: lx_read_snd lx_reads_string_loop split: prod.splits)

section \<open>What one token does to the state\<close>

text \<open>
  \<open>lx_after l t l'\<close>: the token \<open>t\<close> was read from \<open>l\<close>: at least one byte is gone, only the
  cursor, the position, the bracket counters and \<open>last\<close> may have changed.
\<close>

definition lx_after :: "Lexer \<Rightarrow> Tok \<Rightarrow> Lexer \<Rightarrow> bool" where
  "lx_after l t l' \<longleftrightarrow>
     (\<exists>l1. lx_reads (lx_skip l) l1 \<and> lx_i l' = lx_i l1 \<and> lx_line l' = lx_line l1
        \<and> lx_col l' = lx_col l1 \<and> lx_src l' = lx_src l1 \<and> lx_path l' = lx_path l1
        \<and> lx_start l' = lx_start l1 \<and> lx_pend l' = lx_pend l1 \<and> lx_eof l' = lx_eof l1
        \<and> lx_eofSemi l' = lx_eofSemi l1)
     \<and> lx_last l' = tkK t \<and> tkK t \<noteq> EOF \<and> tkK t \<noteq> AUTO_SEMI"

lemma lx_after_emit:
  "lx_reads (lx_skip l) l1 \<Longrightarrow> k \<noteq> EOF \<Longrightarrow> k \<noteq> AUTO_SEMI \<Longrightarrow>
     lx_after l (fst (lx_emit k s p l1)) (snd (lx_emit k s p l1))"
  by (auto simp: lx_after_def lx_emit_def)

lemma lx_after_illegal:
  "lx_reads (lx_skip l) l1 \<Longrightarrow> lx_after l (fst (lx_illegal p s l1)) (snd (lx_illegal p s l1))"
  by (auto simp: lx_after_def lx_illegal_def)

lemma lx_after_pair:
  "k1 \<notin> {EOF, AUTO_SEMI} \<Longrightarrow> k2 \<notin> {EOF, AUTO_SEMI} \<Longrightarrow>
     lx_after l (fst (lx_pair c k2 s2 k1 s1 p l)) (snd (lx_pair c k2 s2 k1 s1 p l))"
  by (auto simp: lx_pair_def Let_def intro!: lx_after_emit lx_reads_refl lx_reads_skip)

lemma lx_after_double:
  "k2 \<notin> {EOF, AUTO_SEMI} \<Longrightarrow>
     lx_after l (fst (lx_double c k2 s2 m p l)) (snd (lx_double c k2 s2 m p l))"
  by (auto simp: lx_double_def Let_def
      intro!: lx_after_emit lx_after_illegal lx_reads_refl lx_reads_skip)

lemma lx_after_bracket:
  "k \<notin> {EOF, AUTO_SEMI} \<Longrightarrow>
     lx_after l (fst (lx_emit k s p ((lx_skip l)\<lparr>lx_par := n\<rparr>))) (snd (lx_emit k s p ((lx_skip l)\<lparr>lx_par := n\<rparr>)))
     \<and> lx_after l (fst (lx_emit k s p ((lx_skip l)\<lparr>lx_brk := n\<rparr>))) (snd (lx_emit k s p ((lx_skip l)\<lparr>lx_brk := n\<rparr>)))"
  unfolding lx_after_def lx_emit_def by (auto intro!: exI [of _ "lx_skip l"] lx_reads_refl)

lemma keyword_not_end: "kw_lookup s = Some k \<Longrightarrow> k \<noteq> EOF \<and> k \<noteq> AUTO_SEMI"
  using kw_lookup_isKeyword [of s k] by (auto simp: isKeyword_iff kw_kinds)

lemmas lx_after_intros =
  lx_after_emit lx_after_illegal lx_after_pair lx_after_double
  lx_after_bracket [THEN conjunct1] lx_after_bracket [THEN conjunct2] lx_reads_refl

lemma lx_token_after_single:
  "k \<notin> {EOF, AUTO_SEMI} \<Longrightarrow>
     lx_after l (fst (lx_emit k s p (lx_skip l))) (snd (lx_emit k s p (lx_skip l)))"
  by (rule lx_after_emit) (auto intro: lx_reads_refl)

lemma lx_after_string:
  "scanString l = ((str, ok), l1) \<Longrightarrow>
     lx_after l (fst (if ok then lx_emit STRING str p l1 else lx_illegal p m l1))
       (snd (if ok then lx_emit STRING str p l1 else lx_illegal p m l1))"
  using lx_reads_string [of l] by (auto intro: lx_after_emit lx_after_illegal)

lemma lx_after_ident:
  "scanIdent l = (name, l1) \<Longrightarrow>
     lx_after l
       (fst (case kw_lookup name of Some k \<Rightarrow> lx_emit k name p l1 | None \<Rightarrow> lx_emit IDENT name p l1))
       (snd (case kw_lookup name of Some k \<Rightarrow> lx_emit k name p l1 | None \<Rightarrow> lx_emit IDENT name p l1))"
  using lx_reads_ident [of l] keyword_not_end [of name]
  by (auto intro: lx_after_emit split: option.split)

lemma lx_after_number:
  "scanNumber l = (num, l1) \<Longrightarrow>
     lx_after l (fst (lx_emit NUMBER num p l1)) (snd (lx_emit NUMBER num p l1))"
  using lx_reads_number [of l] by (auto intro: lx_after_emit)

lemma lx_token_after: "lx_after l (fst (lx_token ch p l)) (snd (lx_token ch p l))"
proof -
  obtain str ok l1 where s: "scanString l = ((str, ok), l1)" by (metis surj_pair)
  obtain name l2 where i: "scanIdent l = (name, l2)" by fastforce
  obtain num l3 where n: "scanNumber l = (num, l3)" by fastforce
  show ?thesis
    unfolding lx_token_def Let_def s i n split_conv
    using lx_after_string [OF s] lx_after_ident [OF i] lx_after_number [OF n]
    by (simp add: lx_after_illegal lx_after_pair lx_after_double lx_after_bracket
        lx_token_after_single lx_reads_refl)
qed

section \<open>Progress: the token source\<close>

text \<open>How many more tokens a lexer can give before the end of file.\<close>

definition lx_rank :: "Lexer \<Rightarrow> nat" where
  "lx_rank l = lx_left l + (if lx_eofSemi l then 0 else 1) + (if lx_pend l = None then 0 else 1)"

lemma lx_after_left:
  assumes "lx_after l t l'" and "lx_i l < length (lx_src l)"
  shows "lx_left l' < lx_left l"
proof -
  from assms(1) obtain l1 where r: "lx_reads (lx_skip l) l1" and "lx_i l' = lx_i l1" "lx_src l' = lx_src l1"
    unfolding lx_after_def by blast
  then have "lx_left l' = lx_left l1" by (simp add: lx_left_def)
  then show ?thesis using lx_reads_fields [OF r] lx_skip_less [OF assms(2)] by simp
qed

lemma lx_after_fields:
  assumes "lx_after l t l'"
  shows "lx_eofSemi l' = lx_eofSemi l \<and> lx_pend l' = lx_pend l \<and> lx_eof l' = lx_eof l
    \<and> lx_src l' = lx_src l \<and> lx_path l' = lx_path l \<and> lx_start l' = lx_start l
    \<and> lx_last l' = tkK t \<and> lx_i l \<le> lx_i l'
    \<and> (lx_i l \<le> length (lx_src l) \<longrightarrow> lx_i l' \<le> length (lx_src l))"
proof -
  from assms obtain l1 where "lx_reads (lx_skip l) l1" "lx_i l' = lx_i l1" "lx_src l' = lx_src l1"
    "lx_path l' = lx_path l1" "lx_start l' = lx_start l1" "lx_pend l' = lx_pend l1"
    "lx_eof l' = lx_eof l1" "lx_eofSemi l' = lx_eofSemi l1" "lx_last l' = tkK t"
    unfolding lx_after_def by blast
  then show ?thesis using lx_reads_fields [of "lx_skip l" l1] lx_skip_mono [of l] lx_skip_bound [of l]
    by auto
qed

text \<open>The cases of one iteration, in the order of the code.\<close>

lemma lx_step_cases [consumes 1, case_names eof_semi eof end_flag skip newline comment token]:
  assumes "lx_step l = (r, l')"
  obtains
    (eof_semi) "lx_eof l" "\<not> lx_eofSemi l" "semiOk (lx_last l)"
      "r = Some \<lparr>tkK = AUTO_SEMI, tkLit = [], tkP = lx_pos l\<rparr>" "l' = l\<lparr>lx_eofSemi := True\<rparr>"
  | (eof) "lx_eof l" "lx_eofSemi l \<or> \<not> semiOk (lx_last l)"
      "r = Some \<lparr>tkK = EOF, tkLit = [], tkP = lx_pos l\<rparr>" "l' = l"
  | (end_flag) "\<not> lx_eof l" "lx_peek l = NUL" "r = None" "l' = l\<lparr>lx_eof := True\<rparr>"
  | (skip) "\<not> lx_eof l" "lx_peek l \<noteq> NUL" "r = None" "l' = lx_skip l"
      "isSpace (lx_peek l) \<or> lx_peek l = LF \<or> lx_peek l = CR"
  | (newline) "\<not> lx_eof l" "lx_peek l = LF \<or> lx_peek l = CR" "lx_par l = 0" "lx_brk l = 0"
      "semiOk (lx_last l)" "r = Some \<lparr>tkK = AUTO_SEMI, tkLit = [], tkP = lx_pos l\<rparr>"
      "l' = (lx_skip l)\<lparr>lx_last := AUTO_SEMI\<rparr>"
  | (comment) "\<not> lx_eof l" "lx_peek l = CHR ''#''" "r = None" "l' = skipComment l"
  | (token) t where "\<not> lx_eof l" "lx_peek l \<noteq> NUL"
      "lx_token (lx_peek l) (lx_pos l) (l\<lparr>lx_start := lx_i l\<rparr>) = (t, l')" "r = Some t"
      "lx_after (l\<lparr>lx_start := lx_i l\<rparr>) t l'" "lx_peek l \<noteq> CR" "lx_peek l \<noteq> LF"
proof -
  obtain t lt where tok: "lx_token (lx_peek l) (lx_pos l) (l\<lparr>lx_start := lx_i l\<rparr>) = (t, lt)"
    by fastforce
  have aft: "lx_after (l\<lparr>lx_start := lx_i l\<rparr>) t lt"
    using lx_token_after [of "l\<lparr>lx_start := lx_i l\<rparr>" "lx_peek l" "lx_pos l"] by (simp add: tok)
  show thesis
    using assms aft unfolding lx_step_def Let_def tok split_conv
    by (auto simp: tok split: if_splits
        intro: eof_semi eof end_flag skip newline comment token [of t])
qed

lemma lx_step_token:
  assumes "lx_step l = (Some t, l')" and "tkK t \<noteq> EOF"
  shows "lx_left l' + (if lx_eofSemi l' then 0 else 1) < lx_left l + (if lx_eofSemi l then 0 else 1)
    \<and> lx_pend l' = lx_pend l"
  using assms(1)
proof (cases rule: lx_step_cases)
  case newline
  then show ?thesis
    using lx_peek_in [of l] lx_skip_less [of l] by (auto simp: lx_left_def)
next
  case (token t')
  then have "lx_left l' < lx_left (l\<lparr>lx_start := lx_i l\<rparr>)"
    using lx_peek_in [of l] by (intro lx_after_left) auto
  then show ?thesis using lx_after_fields [OF token(5)] by (simp add: lx_left_def)
qed (use assms(2) in \<open>auto simp: lx_left_def\<close>)

lemma lx_step_silent:
  assumes "lx_step l = (None, l')"
  shows "lx_left l' \<le> lx_left l \<and> lx_eofSemi l' = lx_eofSemi l \<and> lx_pend l' = lx_pend l"
  using assms
proof (cases rule: lx_step_cases)
  case skip
  then show ?thesis using lx_skip_le [of l] by simp
next
  case comment
  then show ?thesis using lx_reads_fields [OF lx_reads_comment [of l]] by simp
qed (auto simp: lx_left_def)

lemma lx_loop_return: "lx_step l = (Some t, l') \<Longrightarrow> lx_loop l = (t, l')"
  by (subst lx_loop.simps) simp

lemma lx_loop_continue: "lx_step l = (None, l') \<Longrightarrow> lx_loop l = lx_loop l'"
  by (subst lx_loop.simps) simp

lemma lx_loop_rank:
  "lx_loop l = (t, l') \<Longrightarrow> tkK t \<noteq> EOF \<Longrightarrow>
     lx_left l' + (if lx_eofSemi l' then 0 else 1) < lx_left l + (if lx_eofSemi l then 0 else 1)
     \<and> lx_pend l' = lx_pend l"
proof (induction l arbitrary: t l' rule: lx_loop.induct)
  case (1 l)
  obtain r l1 where st: "lx_step l = (r, l1)" by fastforce
  show ?case
  proof (cases r)
    case None
    with "1.prems" st have "lx_loop l1 = (t, l')" by (simp add: lx_loop_continue)
    with "1.IH" [OF st [symmetric] None] "1.prems"(2) lx_step_silent [of l l1] st None
    show ?thesis by fastforce
  next
    case (Some t')
    with "1.prems" st have "t' = t" "l1 = l'" by (simp_all add: lx_loop_return)
    with lx_step_token [of l t l'] st Some "1.prems"(2) show ?thesis by simp
  qed
qed

lemma lx_next_rank: "lx_next l = (t, l') \<Longrightarrow> tkK t \<noteq> EOF \<Longrightarrow> lx_rank l' < lx_rank l"
proof (cases "lx_pend l")
  case None
  assume "lx_next l = (t, l')" "tkK t \<noteq> EOF"
  with None have "lx_loop l = (t, l')" by (simp add: lx_next_def)
  from lx_loop_rank [OF this \<open>tkK t \<noteq> EOF\<close>] None show ?thesis by (simp add: lx_rank_def)
next
  case (Some t0)
  assume "lx_next l = (t, l')" "tkK t \<noteq> EOF"
  with Some show ?thesis by (auto simp: lx_next_def lx_rank_def lx_left_def)
qed

text \<open>
  The interface a scanner offers to the code that pulls tokens from it: until it answers EOF,
  every call makes progress on a bounded rank.
\<close>

fun drain :: "nat \<Rightarrow> ('s \<Rightarrow> Tok \<times> 's) \<Rightarrow> 's \<Rightarrow> Tok list option" where
  "drain 0 nxt s = None"
| "drain (Suc n) nxt s =
     (let (t, s') = nxt s in
      if tkK t = EOF then Some [t] else map_option ((#) t) (drain n nxt s'))"

locale token_source =
  fixes nxt :: "'s \<Rightarrow> Tok \<times> 's"
    and rank :: "'s \<Rightarrow> nat"
  assumes progress: "nxt s = (t, s') \<Longrightarrow> tkK t \<noteq> EOF \<Longrightarrow> rank s' < rank s"
begin

lemma drain_enough:
  "rank s < n \<Longrightarrow> \<exists>ts t. drain n nxt s = Some (ts @ [t]) \<and> tkK t = EOF
      \<and> (\<forall>x \<in> set ts. tkK x \<noteq> EOF) \<and> length ts \<le> rank s"
proof (induction n arbitrary: s)
  case (Suc n)
  obtain t s' where st: "nxt s = (t, s')" by fastforce
  show ?case
  proof (cases "tkK t = EOF")
    case True
    then have "drain (Suc n) nxt s = Some ([] @ [t])" using st by simp
    with True show ?thesis by fastforce
  next
    case False
    from progress [OF st False] Suc.prems have lt: "rank s' < n" by simp
    from Suc.IH [OF lt] obtain ts u where ts: "drain n nxt s' = Some (ts @ [u])" "tkK u = EOF"
      "\<forall>x \<in> set ts. tkK x \<noteq> EOF" "length ts \<le> rank s'" by blast
    then have "drain (Suc n) nxt s = Some ((t # ts) @ [u])" using st False by simp
    moreover have "length (t # ts) \<le> rank s" using ts(4) progress [OF st False] by simp
    moreover have "\<forall>x \<in> set (t # ts). tkK x \<noteq> EOF" using ts(3) False by simp
    ultimately show ?thesis using ts(2) by blast
  qed
qed simp

end

interpretation lx: token_source lx_next lx_rank
  by unfold_locales (rule lx_next_rank)

text \<open>All tokens of a lexer, the end of file included.\<close>

function lex_all :: "Lexer \<Rightarrow> Tok list" where
  "lex_all l = (let (t, l') = lx_next l in if tkK t = EOF then [t] else t # lex_all l')"
  by pat_completeness auto
termination
  by (relation "measure lx_rank") (auto dest: lx_next_rank [OF sym])

declare lex_all.simps [simp del]

lemma lex_all_step:
  "lx_next l = (t, l') \<Longrightarrow> lex_all l = (if tkK t = EOF then [t] else t # lex_all l')"
  by (subst lex_all.simps) simp

lemma lex_all_drain: "drain n lx_next l = Some ts \<Longrightarrow> lex_all l = ts"
proof (induction n arbitrary: l ts)
  case (Suc n)
  obtain t l' where st: "lx_next l = (t, l')" by fastforce
  with Suc show ?case by (auto simp: lex_all_step [OF st] split: if_splits)
qed simp

text \<open>
  C1: tokenizing terminates on every source. The tokens of a source of \<open>k\<close> bytes are at most
  \<open>k + 1\<close> proper tokens followed by one EOF, so a caller that pulls tokens until EOF makes at
  most \<open>k + 2\<close> calls of \<open>Next\<close>.
\<close>

theorem lexer_total:
  "\<exists>ts t. drain (length src + 2) lx_next (NewLexerAt path src pos) = Some (ts @ [t])
     \<and> lex_all (NewLexerAt path src pos) = ts @ [t] \<and> tkK t = EOF
     \<and> list_all (\<lambda>x. tkK x \<noteq> EOF) ts \<and> length ts \<le> length src + 1"
proof -
  have r: "lx_rank (NewLexerAt path src pos) = length src + 1"
    by (simp add: lx_rank_def lx_left_def NewLexerAt_def Let_def)
  then show ?thesis
    using lx.drain_enough [of "NewLexerAt path src pos" "length src + 2"] lex_all_drain
    by (fastforce simp: list_all_iff)
qed

section \<open>Automatic semicolons\<close>

lemma lx_loop_semi:
  "lx_loop l = (t, l') \<Longrightarrow>
     (tkK t = AUTO_SEMI \<longrightarrow> semiOk (lx_last l)
        \<and> (lx_last l' = AUTO_SEMI \<and> lx_par l' = 0 \<and> lx_brk l' = 0 \<or> lx_eof l' \<and> lx_eofSemi l'))
     \<and> (tkK t \<noteq> AUTO_SEMI \<and> tkK t \<noteq> EOF \<longrightarrow> lx_last l' = tkK t)
     \<and> lx_pend l' = lx_pend l"
proof (induction l arbitrary: t l' rule: lx_loop.induct)
  case (1 l)
  obtain r l1 where st: "lx_step l = (r, l1)" by fastforce
  from st show ?case
  proof (cases rule: lx_step_cases)
    case (token t')
    with st "1.prems" have "t' = t" "l1 = l'" by (simp_all add: lx_loop_return)
    with token lx_after_fields [OF token(5)] show ?thesis by (auto simp: lx_after_def)
  next
    case comment
    with st "1.prems" have "lx_loop l1 = (t, l')" by (simp add: lx_loop_continue)
    with "1.IH" [OF st [symmetric] comment(3)] lx_reads_fields [OF lx_reads_comment [of l]] comment
    show ?thesis by simp
  next
    case skip
    with st "1.prems" have "lx_loop l1 = (t, l')" by (simp add: lx_loop_continue)
    with "1.IH" [OF st [symmetric] skip(3)] skip show ?thesis by simp
  next
    case end_flag
    with st "1.prems" have "lx_loop l1 = (t, l')" by (simp add: lx_loop_continue)
    with "1.IH" [OF st [symmetric] end_flag(3)] end_flag show ?thesis by simp
  qed (use st "1.prems" in \<open>auto simp: lx_loop_return\<close>)
qed

lemma lx_next_semi:
  "lx_pend l = None \<Longrightarrow> lx_next l = (t, l') \<Longrightarrow>
     (tkK t = AUTO_SEMI \<longrightarrow> semiOk (lx_last l)
        \<and> (lx_last l' = AUTO_SEMI \<and> lx_par l' = 0 \<and> lx_brk l' = 0 \<or> lx_eof l' \<and> lx_eofSemi l'))
     \<and> (tkK t \<noteq> AUTO_SEMI \<and> tkK t \<noteq> EOF \<longrightarrow> lx_last l' = tkK t) \<and> lx_pend l' = None"
  using lx_loop_semi [of l t l'] by (simp add: lx_next_def)

text \<open>
  After the semicolon at the end of the source \<open>last\<close> keeps its value, but no token follows.
\<close>

lemma lx_done_next:
  assumes "lx_pend l = None" "lx_eof l" "lx_eofSemi l"
  shows "lx_next l = (\<lparr>tkK = EOF, tkLit = [], tkP = lx_pos l\<rparr>, l)"
  using assms by (simp add: lx_next_def lx_loop.simps lx_step_def)

fun semis_follow :: "Kind \<Rightarrow> Tok list \<Rightarrow> bool" where
  "semis_follow k [] = True"
| "semis_follow k (t # ts) = ((tkK t = AUTO_SEMI \<longrightarrow> semiOk k) \<and> semis_follow (tkK t) ts)"

lemma lex_all_semis:
  "lx_pend l = None \<Longrightarrow> semis_follow (lx_last l) (lex_all l)"
proof (induction l rule: lex_all.induct)
  case (1 l)
  obtain t l' where st: "lx_next l = (t, l')" by fastforce
  note semi = lx_next_semi [OF "1.prems" st]
  show ?case
  proof (cases "tkK t = EOF")
    case False
    with "1.IH" [OF st [symmetric] refl] semi have ih: "semis_follow (lx_last l') (lex_all l')" by simp
    show ?thesis
    proof (cases "tkK t = AUTO_SEMI \<and> lx_eof l' \<and> lx_eofSemi l'")
      case True
      then have "lex_all l' = [\<lparr>tkK = EOF, tkLit = [], tkP = lx_pos l'\<rparr>]"
        using lex_all_step [OF lx_done_next [of l']] semi by simp
      then show ?thesis using lex_all_step [OF st] semi False by simp
    next
      case other: False
      then show ?thesis using lex_all_step [OF st] semi False ih by auto
    qed
  qed (simp add: lex_all_step [OF st])
qed

lemma semis_follow_nth:
  "semis_follow k ts \<Longrightarrow> i < length ts \<Longrightarrow> tkK (ts ! i) = AUTO_SEMI \<Longrightarrow>
     (if i = 0 then semiOk k else semiOk (tkK (ts ! (i - 1))))"
proof (induction k ts arbitrary: i rule: semis_follow.induct)
  case (2 k t ts)
  show ?case
  proof (cases i)
    case (Suc j)
    with "2.prems" have "semis_follow (tkK t) ts" "j < length ts" "tkK (ts ! j) = AUTO_SEMI"
      by simp_all
    from "2.IH" [OF this] Suc show ?thesis by (cases j) simp_all
  qed (use 2 in simp)
qed simp

text \<open>
  An automatic semicolon is inserted only directly after a token that may end a statement
  (an identifier, a literal, a closing bracket, return, break or continue), so never first and
  never twice in a row.
\<close>

theorem auto_semi_after_statement_end:
  assumes "ts = lex_all (NewLexerAt path src pos)" and "i < length ts"
    and "tkK (ts ! i) = AUTO_SEMI"
  shows "0 < i \<and> semiOk (tkK (ts ! (i - 1))) \<and> tkK (ts ! (i - 1)) \<noteq> AUTO_SEMI"
proof -
  have "lx_last (NewLexerAt path src pos) = EOF" "lx_pend (NewLexerAt path src pos) = None"
    by (simp_all add: NewLexerAt_def Let_def)
  then have "semis_follow EOF ts" using lex_all_semis [of "NewLexerAt path src pos"] assms(1) by simp
  from semis_follow_nth [OF this assms(2,3)] show ?thesis
    by (cases "i = 0") (auto simp: semiOk_def)
qed

theorem auto_semi_after_statement_end_witness:
  "\<exists>ts. ts = lex_all (NewLexerAt [] (''a'' @ [LF] @ ''b'') zero_pos) \<and> length ts = 5
     \<and> tkK (ts ! 1) = AUTO_SEMI \<and> semiOk (tkK (ts ! 0))"
proof -
  define ts where "ts = lex_all (NewLexerAt [] (''a'' @ [LF] @ ''b'') zero_pos)"
  have "length ts = 5 \<and> tkK (ts ! 1) = AUTO_SEMI" unfolding ts_def by code_simp
  with auto_semi_after_statement_end [OF ts_def, of 1] show ?thesis unfolding ts_def by auto
qed

section \<open>Positions\<close>

text \<open>Line and column after reading a text from a given line and column; CR, LF and CR LF end a line.\<close>

fun pos_after :: "int \<times> int \<Rightarrow> string \<Rightarrow> int \<times> int" where
  "pos_after lc [] = lc"
| "pos_after (ln, c) [x] = (if x = CR \<or> x = LF then (ln + 1, 1) else (ln, c + 1))"
| "pos_after (ln, c) (x # y # ys) =
     (if x = CR \<and> y = LF then pos_after (ln + 1, 1) ys
      else if x = CR \<or> x = LF then pos_after (ln + 1, 1) (y # ys)
      else pos_after (ln, c + 1) (y # ys))"

definition crlf_split :: "string \<Rightarrow> nat \<Rightarrow> bool" where
  "crlf_split s i \<longleftrightarrow> 0 < i \<and> i < length s \<and> s ! (i - 1) = CR \<and> s ! i = LF"

lemma pos_after_append:
  "\<not> (xs \<noteq> [] \<and> last xs = CR \<and> ys \<noteq> [] \<and> hd ys = LF) \<Longrightarrow>
     pos_after lc (xs @ ys) = pos_after (pos_after lc xs) ys"
proof (induction lc xs rule: pos_after.induct)
  case (2 ln c x)
  then show ?case by (cases ys) auto
next
  case (3 ln c x y ys')
  then show ?case by (cases "ys' = []") auto
qed simp

definition pos_inv :: "int \<times> int \<Rightarrow> Lexer \<Rightarrow> bool" where
  "pos_inv lc l \<longleftrightarrow> lx_i l \<le> length (lx_src l) \<and> \<not> crlf_split (lx_src l) (lx_i l)
     \<and> pos_after lc (take (lx_i l) (lx_src l)) = (lx_line l, lx_col l)"

lemma pos_after_take:
  assumes "i \<le> j" "j \<le> length s" "\<not> crlf_split s i"
  shows "pos_after lc (take j s) = pos_after (pos_after lc (take i s)) (slice s i j)"
proof -
  have nsp: "\<not> (take i s \<noteq> [] \<and> last (take i s) = CR \<and> slice s i j \<noteq> [] \<and> hd (slice s i j) = LF)"
  proof
    assume a: "take i s \<noteq> [] \<and> last (take i s) = CR \<and> slice s i j \<noteq> [] \<and> hd (slice s i j) = LF"
    then have lt: "i < length s" "0 < i" by (auto simp: slice_def)
    then have "last (take i s) = s ! (i - 1)"
      using a by (subst last_conv_nth) auto
    moreover have "hd (slice s i j) = s ! i"
      using a lt by (auto simp: slice_def drop_nth_Cons take_Cons' split: if_splits)
    ultimately show False using a lt assms(3) by (simp add: crlf_split_def)
  qed
  have "pos_after lc (take i s @ slice s i j) = pos_after (pos_after lc (take i s)) (slice s i j)"
    by (rule pos_after_append [OF nsp])
  then show ?thesis using take_slice [OF assms(1), of s] by simp
qed

lemma pos_inv_skip: "pos_inv lc l \<Longrightarrow> pos_inv lc (lx_skip l)"
proof (cases "lx_i l < length (lx_src l)")
  case False
  assume "pos_inv lc l"
  with False show ?thesis by (simp add: lx_skip_def lx_read_def)
next
  case True
  assume inv: "pos_inv lc l"
  let ?s = "lx_src l" and ?i = "lx_i l" and ?j = "lx_i (lx_skip l)"
  have j: "?i \<le> ?j" "?j \<le> length ?s" using lx_skip_mono lx_skip_bound [of l] True by auto
  have "slice ?s ?i ?j = (if ?s ! ?i = CR \<and> Suc ?i < length ?s \<and> ?s ! Suc ?i = LF
      then [CR, LF] else [?s ! ?i])"
    using True
    by (auto simp: slice_def lx_skip_def lx_read_def Let_def drop_nth_Cons take_Suc_conv_app_nth
        numeral_2_eq_2 Suc_diff_le)
  then have "pos_after (lx_line l, lx_col l) (slice ?s ?i ?j) = (lx_line (lx_skip l), lx_col (lx_skip l))"
    using True by (auto simp: lx_skip_def lx_read_def Let_def split: if_splits)
  moreover have "\<not> crlf_split ?s ?j"
    using inv True by (auto simp: pos_inv_def crlf_split_def lx_skip_def lx_read_def Let_def)
  ultimately show ?thesis
    using inv j pos_after_take [OF j, of lc] by (simp add: pos_inv_def)
qed

lemma pos_inv_reads: "lx_reads l l' \<Longrightarrow> pos_inv lc l \<Longrightarrow> pos_inv lc l'"
  by (induction rule: lx_reads.induct) (auto intro: pos_inv_skip)

lemma pos_inv_cong:
  "lx_i l' = lx_i l \<Longrightarrow> lx_src l' = lx_src l \<Longrightarrow> lx_line l' = lx_line l \<Longrightarrow> lx_col l' = lx_col l \<Longrightarrow>
     pos_inv lc l' = pos_inv lc l"
  by (simp add: pos_inv_def)

lemma pos_inv_after:
  assumes "lx_after l t l'" "pos_inv lc l"
  shows "pos_inv lc l'"
proof -
  from assms(1) obtain l1 where r: "lx_reads (lx_skip l) l1"
    and "lx_i l' = lx_i l1" "lx_src l' = lx_src l1" "lx_line l' = lx_line l1" "lx_col l' = lx_col l1"
    unfolding lx_after_def by blast
  then show ?thesis using pos_inv_reads [OF r pos_inv_skip [OF assms(2)]] pos_inv_cong by metis
qed


section \<open>Literals and positions of tokens\<close>

lemma lx_peek_src: "lx_peek l = c \<Longrightarrow> c \<noteq> NUL \<Longrightarrow> lx_i l < length (lx_src l) \<and> lx_src l ! lx_i l = c"
  by (auto simp: lx_peek_def split: if_splits)

lemma lx_skip_one: "lx_peek l = c \<Longrightarrow> c \<noteq> NUL \<Longrightarrow> c \<noteq> CR \<Longrightarrow> lx_i (lx_skip l) = Suc (lx_i l)"
  using lx_peek_src [of l c] by (auto simp: lx_skip_def lx_read_def Let_def)

lemma slice_one: "lx_peek l = c \<Longrightarrow> c \<noteq> NUL \<Longrightarrow> slice (lx_src l) (lx_i l) (Suc (lx_i l)) = [c]"
  using lx_peek_src [of l c] slice_Suc [of "lx_i l" "lx_i l" "lx_src l"] by simp

lemma slice_two:
  assumes "lx_peek l = c" "c \<noteq> NUL" "c \<noteq> CR" "lx_peek (lx_skip l) = d" "d \<noteq> NUL" "d \<noteq> CR"
  shows "slice (lx_src l) (lx_i l) (lx_i (lx_skip (lx_skip l))) = [c, d]"
proof -
  have i: "lx_i (lx_skip l) = Suc (lx_i l)" by (rule lx_skip_one [OF assms(1-3)])
  have "lx_i (lx_skip (lx_skip l)) = Suc (Suc (lx_i l))"
    using lx_skip_one [OF assms(4-6)] i by simp
  moreover have "Suc (lx_i l) < length (lx_src l) \<and> lx_src l ! Suc (lx_i l) = d"
    using lx_peek_src [OF assms(4,5)] i by simp
  ultimately show ?thesis
    using slice_one [OF assms(1,2)] slice_Suc [of "lx_i l" "Suc (lx_i l)" "lx_src l"] by simp
qed

text \<open>
  What the text between two quotes says, apart from the scanner: plain bytes stand for themselves, and a backslash with what
  follows it (a line end counts as one) for one byte. No line ends outside an escape.
\<close>

inductive quoted :: "char \<Rightarrow> string \<Rightarrow> string \<Rightarrow> bool" for q where
  quoted_nil: "quoted q [] []"
| quoted_plain: "c \<notin> {NUL, LF, CR, q, CHR 0x5C} \<Longrightarrow> quoted q s t \<Longrightarrow> quoted q (c # s) (c # t)"
| quoted_n: "quoted q s t \<Longrightarrow> quoted q (CHR 0x5C # CHR ''n'' # s) (LF # t)"
| quoted_r: "quoted q s t \<Longrightarrow> quoted q (CHR 0x5C # CHR ''r'' # s) (CR # t)"
| quoted_t: "quoted q s t \<Longrightarrow> quoted q (CHR 0x5C # CHR ''t'' # s) (CHR 0x09 # t)"
| quoted_other: "c \<notin> {CHR ''n'', CHR ''r'', CHR ''t'', CR} \<Longrightarrow> quoted q s t \<Longrightarrow> quoted q (CHR 0x5C # c # s) (c # t)"
| quoted_crlf: "quoted q s t \<Longrightarrow> quoted q (CHR 0x5C # CR # LF # s) (LF # t)"
| quoted_cr: "s = [] \<or> hd s \<noteq> LF \<Longrightarrow> quoted q s t \<Longrightarrow> quoted q (CHR 0x5C # CR # s) (LF # t)"

text \<open>The source ends at a zero byte; a line ends there or at CR or LF.\<close>

definition src_ends :: "string \<Rightarrow> nat \<Rightarrow> bool" where
  "src_ends src i \<longleftrightarrow> i = length src \<or> i < length src \<and> src ! i = NUL"

definition line_ends :: "string \<Rightarrow> nat \<Rightarrow> bool" where
  "line_ends src i \<longleftrightarrow> src_ends src i \<or> i < length src \<and> src ! i \<in> {LF, CR}"

text \<open>
  What the token \<open>t\<close> says of the bytes \<open>a\<close> to \<open>b\<close> of the source. A string says what is between its quotes; the error for a
  string without its end covers the rest of the line; a semicolon that was put in stands for a line end, or for none at the
  end of the source; any other token is the text itself.
\<close>

definition tok_says :: "string \<Rightarrow> Tok \<Rightarrow> nat \<Rightarrow> nat \<Rightarrow> bool" where
  "tok_says src t a b \<longleftrightarrow>
     (if tkK t = EOF then tkLit t = [] \<and> a = b \<and> src_ends src a
      else if tkK t = AUTO_SEMI then tkLit t = [] \<and> (a = b \<and> src_ends src a \<or> slice src a b \<in> {[LF], [CR], [CR, LF]})
      else if tkK t = STRING then
        \<exists>q body. q \<in> {CHR 0x22, CHR 0x27} \<and> slice src a b = q # body @ [q] \<and> quoted q body (tkLit t)
      else if tkK t = ILLEGAL then
        (\<exists>q body text. q \<in> {CHR 0x22, CHR 0x27} \<and> tkLit t = ''unterminated string'' \<and> slice src a b = q # body \<and> line_ends src b
           \<and> (quoted q body text \<or> (\<exists>body'. body = body' @ [CHR 0x5C] \<and> quoted q body' text \<and> b = length src)))
        \<or> (\<exists>c. c \<notin> {CHR 0x22, CHR 0x27} \<and> tkLit t = ''unexpected '' @ quote_byte c \<and> slice src a b = [c])
      else tkLit t \<noteq> [] \<and> tkLit t = slice src a b)"

definition tok_text :: "Lexer \<Rightarrow> Tok \<Rightarrow> Lexer \<Rightarrow> bool" where
  "tok_text l t l' \<longleftrightarrow> tok_says (lx_src l) t (lx_i l) (lx_i l')"

definition text_kind :: "Kind \<Rightarrow> bool" where
  "text_kind k \<longleftrightarrow> k \<notin> {EOF, AUTO_SEMI, STRING, ILLEGAL}"

lemma slice_cons: "i < j \<Longrightarrow> j \<le> length s \<Longrightarrow> slice s i j = s ! i # slice s (Suc i) j"
  using slice_append [of i "Suc i" j s] slice_Suc [of i i s] by simp

lemma peek_ends: "lx_i l \<le> length (lx_src l) \<Longrightarrow> lx_peek l = NUL \<longleftrightarrow> src_ends (lx_src l) (lx_i l)"
  by (auto simp: lx_peek_def src_ends_def)

lemma peek_line_ends: "lx_i l \<le> length (lx_src l) \<Longrightarrow> lx_peek l \<in> {NUL, LF, CR} \<longleftrightarrow> line_ends (lx_src l) (lx_i l)"
  by (auto simp: lx_peek_def src_ends_def line_ends_def)

lemma tok_text_emit:
  "text_kind k \<Longrightarrow> s = slice (lx_src l) (lx_i l) (lx_i l') \<Longrightarrow> s \<noteq> [] \<Longrightarrow> tok_text l (fst (lx_emit k s p l')) (snd (lx_emit k s p l'))"
  by (simp add: tok_text_def tok_says_def text_kind_def lx_emit_def)

lemma tok_text_one:
  assumes "text_kind k" "lx_peek l = c" "c \<noteq> NUL" "c \<noteq> CR" "lx_i l' = lx_i (lx_skip l)"
  shows "tok_text l (fst (lx_emit k [c] p l')) (snd (lx_emit k [c] p l'))"
  using slice_one [OF assms(2,3)] lx_skip_one [OF assms(2-4)] assms(1,5) by (intro tok_text_emit) simp_all

lemma tok_text_illegal:
  assumes "lx_peek l = c" "c \<noteq> NUL" "c \<noteq> CR" "c \<noteq> CHR 0x22" "c \<noteq> CHR 0x27"
  shows "tok_text l (fst (lx_illegal p (''unexpected '' @ quote_byte c) (lx_skip l)))
    (snd (lx_illegal p (''unexpected '' @ quote_byte c) (lx_skip l)))"
  using slice_one [OF assms(1,2)] lx_skip_one [OF assms(1-3)] assms(4,5)
  by (auto simp: tok_text_def tok_says_def lx_illegal_def)

lemma tok_text_two:
  assumes "text_kind k" "lx_peek l = c" "c \<noteq> NUL" "c \<noteq> CR" "lx_peek (lx_skip l) = d" "d \<noteq> NUL" "d \<noteq> CR"
  shows "tok_text l (fst (lx_emit k [c, d] p (lx_skip (lx_skip l)))) (snd (lx_emit k [c, d] p (lx_skip (lx_skip l))))"
  using slice_two [OF assms(2-7)] assms(1) by (intro tok_text_emit) simp_all

lemma tok_text_pair:
  assumes "text_kind k1" "text_kind k2" "lx_peek l = c" "c \<noteq> NUL" "c \<noteq> CR" "d \<noteq> NUL" "d \<noteq> CR"
  shows "tok_text l (fst (lx_pair d k2 [c, d] k1 [c] p l)) (snd (lx_pair d k2 [c, d] k1 [c] p l))"
  using tok_text_one [OF assms(1,3-5)] tok_text_two [OF assms(2-5) _ assms(6,7)]
  by (simp add: lx_pair_def Let_def)

lemma tok_text_double:
  assumes "text_kind k2" "lx_peek l = c" "c \<noteq> NUL" "c \<noteq> CR" "d \<noteq> NUL" "d \<noteq> CR" "c \<noteq> CHR 0x22" "c \<noteq> CHR 0x27"
  shows "tok_text l (fst (lx_double d k2 [c, d] (''unexpected '' @ quote_byte c) p l))
    (snd (lx_double d k2 [c, d] (''unexpected '' @ quote_byte c) p l))"
  using tok_text_two [OF assms(1-4) _ assms(5,6)] tok_text_illegal [OF assms(2-4,7,8)]
  by (simp add: lx_double_def Let_def)

lemma tok_text_if:
  "(c \<Longrightarrow> tok_text l (fst a) (snd a)) \<Longrightarrow> (\<not> c \<Longrightarrow> tok_text l (fst b) (snd b)) \<Longrightarrow>
     tok_text l (fst (if c then a else b)) (snd (if c then a else b))"
  by simp

lemma keyword_text_kind: "kw_lookup s = Some k \<Longrightarrow> text_kind k"
  using kw_lookup_isKeyword [of s k] by (auto simp: isKeyword_iff kw_kinds text_kind_def)

text \<open>What a backslash and the read after it make of the text.\<close>

lemma quoted_escape:
  assumes "lx_i l < length (lx_src l)" and "quoted q (slice (lx_src l) (lx_i (lx_skip l)) j) t"
    and "lx_i (lx_skip l) \<le> j" and "j \<le> length (lx_src l)"
  shows "quoted q (CHR 0x5C # slice (lx_src l) (lx_i l) j) (escape_byte (fst (lx_read l)) # t)"
proof -
  let ?s = "lx_src l" and ?i = "lx_i l"
  show ?thesis
  proof (cases "?s ! ?i = CR")
    case False
    then have r: "fst (lx_read l) = ?s ! ?i" "lx_i (lx_skip l) = Suc ?i"
      using assms(1) by (auto simp: lx_read_def lx_skip_def Let_def)
    then have "slice ?s ?i j = ?s ! ?i # slice ?s (Suc ?i) j" using assms(3,4) by (intro slice_cons) auto
    with r assms(2) False show ?thesis
      by (auto simp: escape_byte_def intro: quoted_n quoted_r quoted_t quoted_other)
  next
    case cr: True
    show ?thesis
    proof (cases "Suc ?i < length ?s \<and> ?s ! Suc ?i = LF")
      case True
      then have r: "fst (lx_read l) = LF" "lx_i (lx_skip l) = Suc (Suc ?i)"
        using assms(1) cr by (auto simp: lx_read_def lx_skip_def Let_def)
      then have "slice ?s ?i j = CR # LF # slice ?s (Suc (Suc ?i)) j"
        using assms(3,4) cr True slice_cons [of ?i j ?s] slice_cons [of "Suc ?i" j ?s] by simp
      with r assms(2) show ?thesis by (simp add: escape_byte_def quoted_crlf)
    next
      case False
      then have r: "fst (lx_read l) = LF" "lx_i (lx_skip l) = Suc ?i"
        using assms(1) cr by (auto simp: lx_read_def lx_skip_def Let_def)
      then have "slice ?s ?i j = CR # slice ?s (Suc ?i) j" using assms(3,4) cr slice_cons [of ?i j ?s] by simp
      moreover have "slice ?s (Suc ?i) j = [] \<or> hd (slice ?s (Suc ?i) j) \<noteq> LF"
        using False r assms(3,4) slice_cons [of "Suc ?i" j ?s] by (cases "j = Suc ?i") auto
      ultimately show ?thesis using r assms(2) by (simp add: escape_byte_def quoted_cr)
    qed
  qed
qed

text \<open>The scanner stands at byte \<open>i\<close> of a string and stops at \<open>i'\<close>: behind the closing quote, or where the line ends.\<close>

definition string_read :: "char \<Rightarrow> string \<Rightarrow> nat \<Rightarrow> nat \<Rightarrow> bool \<Rightarrow> string \<Rightarrow> bool" where
  "string_read q src i i' ok w \<longleftrightarrow> (\<exists>j \<ge> i. j \<le> length src \<and> quoted q (slice src i j) w \<and>
     (if ok then i' = Suc j \<and> j < length src \<and> src ! j = q
      else line_ends src i' \<and> (i' = j \<or> i' = Suc j \<and> i' = length src \<and> src ! j = CHR 0x5C)))"

lemma string_read_plain:
  assumes "string_read q src (Suc i) i' ok w" "i < length src" "src ! i \<notin> {NUL, LF, CR, q, CHR 0x5C}"
  shows "string_read q src i i' ok (src ! i # w)"
proof -
  obtain j where j: "Suc i \<le> j" "j \<le> length src" "quoted q (slice src (Suc i) j) w"
    "if ok then i' = Suc j \<and> j < length src \<and> src ! j = q
      else line_ends src i' \<and> (i' = j \<or> i' = Suc j \<and> i' = length src \<and> src ! j = CHR 0x5C)"
    using assms(1) unfolding string_read_def by blast
  have "quoted q (slice src i j) (src ! i # w)"
    using quoted_plain [OF assms(3) j(3)] slice_cons [of i j src] j(1,2) by simp
  then show ?thesis using j Suc_leD [OF j(1)] unfolding string_read_def by blast
qed

lemma string_read_escape:
  assumes "string_read q (lx_src l) (lx_i (lx_skip l)) i' ok w" "lx_i l = Suc i" "Suc i < length (lx_src l)" "lx_src l ! i = CHR 0x5C"
  shows "string_read q (lx_src l) i i' ok (escape_byte (fst (lx_read l)) # w)"
proof -
  let ?s = "lx_src l"
  obtain j where j: "lx_i (lx_skip l) \<le> j" "j \<le> length ?s" "quoted q (slice ?s (lx_i (lx_skip l)) j) w"
    "if ok then i' = Suc j \<and> j < length ?s \<and> ?s ! j = q
      else line_ends ?s i' \<and> (i' = j \<or> i' = Suc j \<and> i' = length ?s \<and> ?s ! j = CHR 0x5C)"
    using assms(1) unfolding string_read_def by blast
  have i: "Suc i \<le> j" using lx_skip_mono [of l] assms(2) j(1) by simp
  have "quoted q (CHR 0x5C # slice ?s (Suc i) j) (escape_byte (fst (lx_read l)) # w)"
    using quoted_escape [OF _ j(3,1,2)] assms(2,3) by simp
  then have "quoted q (slice ?s i j) (escape_byte (fst (lx_read l)) # w)"
    using slice_cons [of i j ?s] i j(2) assms(4) by simp
  then show ?thesis using j Suc_leD [OF i] unfolding string_read_def by blast
qed

lemma scanString_loop_reads:
  "scanString_loop q st out l = ((s, ok), l') \<Longrightarrow> q \<in> {CHR 0x22, CHR 0x27} \<Longrightarrow> st \<le> lx_i l \<Longrightarrow> lx_i l \<le> length (lx_src l) \<Longrightarrow>
     \<exists>w. string_read q (lx_src l) (lx_i l) (lx_i l') ok w \<and> (ok \<longrightarrow> s = out @ slice (lx_src l) st (lx_i l) @ w)"
proof (induction q st out l arbitrary: s ok l' rule: scanString_loop.induct)
  case (1 q st out l)
  let ?s = "lx_src l" and ?i = "lx_i l"
  obtain e l2 where rd: "lx_read (lx_skip l) = (e, l2)" by fastforce
  then have l2: "l2 = lx_skip (lx_skip l)" by (rule lx_read_snd)
  consider (stop) "lx_peek l \<in> {NUL, LF, CR}" | (quote) "lx_peek l \<notin> {NUL, LF, CR}" "lx_peek l = q"
    | (esc) "lx_peek l \<notin> {NUL, LF, CR}" "lx_peek l \<noteq> q" "lx_peek l = CHR 0x5C"
    | (plain) "lx_peek l \<notin> {NUL, LF, CR}" "lx_peek l \<noteq> q" "lx_peek l \<noteq> CHR 0x5C" by blast
  then show ?case
  proof cases
    case stop
    with "1.prems"(1) have "\<not> ok \<and> l' = l" by (subst (asm) scanString_loop.simps) (auto simp: Let_def)
    with stop peek_line_ends [OF "1.prems"(4)] quoted_nil [of q] "1.prems"(4) show ?thesis
      by (auto simp: string_read_def intro!: exI [of _ "[]"] exI [of _ ?i])
  next
    case quote
    then have at: "?i < length ?s" "?s ! ?i = q" "lx_i (lx_skip l) = Suc ?i"
      using lx_peek_src [OF refl, of l] lx_skip_one [OF refl, of l] by auto
    have "ok \<and> l' = lx_skip l \<and> s = out @ slice ?s st ?i"
      using "1.prems"(1) quote at by (subst (asm) scanString_loop.simps) (auto simp: Let_def split: if_splits)
    with at quoted_nil [of q] show ?thesis by (auto simp: string_read_def intro!: exI [of _ "[]"] exI [of _ ?i])
  next
    case plain
    let ?c = "lx_peek l"
    have at: "?i < length ?s" "?s ! ?i = ?c" "lx_i (lx_skip l) = Suc ?i"
      using plain(1) lx_peek_src [OF refl, of l] lx_skip_one [OF refl, of l] by auto
    have run: "scanString_loop q st out (lx_skip l) = ((s, ok), l')"
      using "1.prems"(1) plain by (subst (asm) scanString_loop.simps) (auto simp: Let_def)
    obtain w where w: "string_read q ?s (Suc ?i) (lx_i l') ok w" "ok \<longrightarrow> s = out @ slice ?s st (Suc ?i) @ w"
      using "1.IH"(2) [OF refl _ _ _ run] plain "1.prems"(2,3) at by auto
    have "string_read q ?s ?i (lx_i l') ok (?c # w)" using string_read_plain [OF w(1) at(1)] plain at(2) by simp
    with w(2) slice_Suc [of st ?i ?s] at(1,2) "1.prems"(3) show ?thesis by (intro exI [of _ "?c # w"]) simp
  next
    case esc
    have at: "?i < length ?s" "?s ! ?i = CHR 0x5C" "lx_i (lx_skip l) = Suc ?i"
      using lx_peek_src [OF esc(3)] lx_skip_one [OF esc(3)] by auto
    let ?out = "(out @ slice ?s st ?i) @ [escape_byte e]"
    have run: "scanString_loop q (lx_i l2) ?out l2 = ((s, ok), l')"
      using "1.prems"(1) esc rd by (subst (asm) scanString_loop.simps) (auto simp: Let_def)
    have src: "lx_src l2 = ?s" by (simp add: l2)
    show ?thesis
    proof (cases "Suc ?i < length ?s")
      case True
      have "lx_i l2 \<le> length ?s" using lx_skip_bound [of "lx_skip l"] at True by (simp add: l2)
      then obtain w where w: "string_read q ?s (lx_i l2) (lx_i l') ok w" "ok \<longrightarrow> s = ?out @ w"
        using "1.IH"(1) [OF refl _ _ _ refl rd [symmetric] refl run] esc "1.prems"(2) src by auto
      have "string_read q ?s ?i (lx_i l') ok (escape_byte e # w)"
        using string_read_escape [of q "lx_skip l" "lx_i l'" ok w ?i] w(1) at True rd by (simp add: l2)
      with w(2) show ?thesis by (intro exI [of _ "escape_byte e # w"]) simp
    next
      case False
      then have e: "lx_i (lx_skip l) = length ?s" using at by simp
      then have l2': "l2 = lx_skip l" using rd by (simp add: lx_read_def)
      then have "lx_peek l2 = NUL" using e by (simp add: lx_peek_def)
      then have "\<not> ok \<and> l' = l2" using run by (subst (asm) scanString_loop.simps) (auto simp: Let_def)
      then show ?thesis using e at quoted_nil [of q] l2'
        by (auto simp: string_read_def line_ends_def src_ends_def intro!: exI [of _ "[]"] exI [of _ ?i])
    qed
  qed
qed

lemma tok_text_string:
  assumes "lx_peek l = q" "q \<in> {CHR 0x22, CHR 0x27}" "scanString l = ((str, ok), l1)" "lx_i l \<le> length (lx_src l)"
  shows "tok_text l (fst (if ok then lx_emit STRING str p l1 else lx_illegal p ''unterminated string'' l1))
    (snd (if ok then lx_emit STRING str p l1 else lx_illegal p ''unterminated string'' l1))"
proof -
  let ?s = "lx_src l" and ?i = "lx_i l"
  have q: "q \<noteq> NUL" "q \<noteq> CR" "q \<noteq> LF" using assms(2) by auto
  have at: "?i < length ?s" "?s ! ?i = q" "lx_i (lx_skip l) = Suc ?i"
    using lx_peek_src [OF assms(1) q(1)] lx_skip_one [OF assms(1) q(1,2)] by auto
  then have "lx_read l = (q, lx_skip l)" using q by (auto simp: lx_read_def lx_skip_def Let_def)
  then have "scanString_loop q (Suc ?i) [] (lx_skip l) = ((str, ok), l1)" using assms(3) at by (simp add: scanString_def)
  from scanString_loop_reads [OF this assms(2)] at obtain w where
    w: "string_read q ?s (Suc ?i) (lx_i l1) ok w" "ok \<Longrightarrow> str = w" by auto
  from w(1) obtain j where j: "Suc ?i \<le> j" "j \<le> length ?s" "quoted q (slice ?s (Suc ?i) j) w"
    "if ok then lx_i l1 = Suc j \<and> j < length ?s \<and> ?s ! j = q
      else line_ends ?s (lx_i l1) \<and> (lx_i l1 = j \<or> lx_i l1 = Suc j \<and> lx_i l1 = length ?s \<and> ?s ! j = CHR 0x5C)"
    unfolding string_read_def by blast
  let ?b = "slice ?s (Suc ?i) j"
  have one: "slice ?s ?i j = q # ?b" using slice_cons [of ?i j ?s] j(1,2) at(2) by simp
  then have two: "j < length ?s \<Longrightarrow> slice ?s ?i (Suc j) = q # ?b @ [?s ! j]" using slice_Suc [of ?i j ?s] j(1) by simp
  show ?thesis
  proof (cases ok)
    case True
    then have "slice ?s ?i (lx_i l1) = q # ?b @ [q]" using j(4) two by simp
    then show ?thesis using True assms(2) j(3) w(2)
      by (auto simp: tok_text_def tok_says_def lx_emit_def intro!: exI [of _ q] exI [of _ ?b])
  next
    case False
    then have "slice ?s ?i (lx_i l1) = q # ?b \<or> slice ?s ?i (lx_i l1) = q # ?b @ [CHR 0x5C] \<and> lx_i l1 = length ?s"
      using j(4) one two by auto
    then have "\<exists>body. slice ?s ?i (lx_i l1) = q # body \<and>
        (quoted q body w \<or> (\<exists>body'. body = body' @ [CHR 0x5C] \<and> quoted q body' w \<and> lx_i l1 = length ?s))"
      using j(3) by auto
    then obtain body where body: "slice ?s ?i (lx_i l1) = q # body"
      "quoted q body w \<or> (\<exists>body'. body = body' @ [CHR 0x5C] \<and> quoted q body' w \<and> lx_i l1 = length ?s)" by blast
    have "line_ends ?s (lx_i l1)" using j(4) False by simp
    with body assms(2) have "tok_says ?s \<lparr>tkK = ILLEGAL, tkLit = ''unterminated string'', tkP = p\<rparr> ?i (lx_i l1)"
      unfolding tok_says_def by simp blast
    then show ?thesis using False by (simp add: tok_text_def lx_illegal_def)
  qed
qed

lemma tok_text_ident:
  assumes "name = slice (lx_src l) (lx_i l) (lx_i l2)" "name \<noteq> []"
  shows "tok_text l
      (fst (case kw_lookup name of Some k \<Rightarrow> lx_emit k name p l2 | None \<Rightarrow> lx_emit IDENT name p l2))
      (snd (case kw_lookup name of Some k \<Rightarrow> lx_emit k name p l2 | None \<Rightarrow> lx_emit IDENT name p l2))"
proof (cases "kw_lookup name")
  case None
  then show ?thesis using tok_text_emit [OF _ assms, of IDENT] by (simp add: text_kind_def)
next
  case (Some k)
  then show ?thesis using tok_text_emit [OF keyword_text_kind [OF Some] assms] by simp
qed

lemma slice_not_empty: "i < j \<Longrightarrow> j \<le> length s \<Longrightarrow> slice s i j \<noteq> []"
  by (simp add: slice_cons)

lemma lx_token_text:
  assumes ch: "lx_peek l = ch" "ch \<noteq> NUL" "ch \<noteq> CR"
  shows "tok_text l (fst (lx_token ch p l)) (snd (lx_token ch p l))"
proof -
  obtain str ok l1 where s: "scanString l = ((str, ok), l1)" by (metis surj_pair)
  obtain name l2 where i: "scanIdent l = (name, l2)" by fastforce
  obtain num l3 where n: "scanNumber l = (num, l3)" by fastforce
  have le: "Suc (lx_i l) \<le> length (lx_src l)" using lx_peek_src [OF ch(1,2)] by simp
  have fwd: "lx_i l < lx_i l'" "lx_i l' \<le> length (lx_src l)" if "lx_reads (lx_skip l) l'" for l'
    using lx_reads_fields [OF that] lx_skip_one [OF ch] le by auto
  have name1: "name = slice (lx_src l) (lx_i l) (lx_i l2)" using i by (auto simp: scanIdent_def Let_def)
  have num1: "num = slice (lx_src l) (lx_i l) (lx_i l3)" using n by (auto simp: scanNumber_def Let_def)
  note name = name1 slice_not_empty [OF fwd [OF lx_reads_ident [OF i]], folded name1]
  note num = num1 slice_not_empty [OF fwd [OF lx_reads_number [OF n]], folded num1]
  have str: "ch = CHR 0x22 \<or> ch = CHR 0x27 \<Longrightarrow> ok \<Longrightarrow> tok_text l (fst (lx_emit STRING str p l1)) (snd (lx_emit STRING str p l1))"
    "ch = CHR 0x22 \<or> ch = CHR 0x27 \<Longrightarrow> \<not> ok \<Longrightarrow>
      tok_text l (fst (lx_illegal p ''unterminated string'' l1)) (snd (lx_illegal p ''unterminated string'' l1))"
    using tok_text_string [OF ch(1) _ s] le by (auto split: if_split_asm)
  show ?thesis
    unfolding lx_token_def Let_def s i n split_conv
    by (intro tok_text_if tok_text_ident name tok_text_emit [OF _ num];
        (rule str; assumption | rule tok_text_one tok_text_pair tok_text_double tok_text_illegal | simp add: text_kind_def);
        simp add: ch text_kind_def)
qed

lemma lx_token_pos: "tkP (fst (lx_token ch p l)) = p"
  unfolding lx_token_def Let_def lx_emit_def lx_illegal_def lx_pair_def lx_double_def
  by (auto split: prod.split option.split)

text \<open>
  What may stand between two tokens: blanks, line ends, and comments from a hash to the end of the line. The result is whether
  the text ends inside a comment.
\<close>

fun blank :: "bool \<Rightarrow> string \<Rightarrow> bool option" where
  "blank c [] = Some c"
| "blank c (x # xs) =
     (if x = LF \<or> x = CR then blank False xs
      else if c then (if x = NUL then None else blank True xs)
      else if x = CHR ''#'' then blank True xs
      else if x = CHR '' '' \<or> x = CHR 0x09 then blank False xs
      else None)"

lemma blank_append: "blank c (xs @ ys) = (case blank c xs of None \<Rightarrow> None | Some d \<Rightarrow> blank d ys)"
  by (induction c xs rule: blank.induct) auto

definition blank_between :: "string \<Rightarrow> nat \<Rightarrow> nat \<Rightarrow> bool" where
  "blank_between src i a \<longleftrightarrow> i \<le> a \<and> a \<le> length src \<and>
     (\<exists>c. blank False (slice src i a) = Some c \<and> (c \<longrightarrow> line_ends src a))"

text \<open>Where the token \<open>t\<close> stands in the source: at the bytes \<open>a\<close> to \<open>b\<close>, with the position of byte \<open>a\<close>.\<close>

definition at_pos :: "string \<Rightarrow> int \<times> int \<Rightarrow> Pos" where
  "at_pos path lc = \<lparr>Path = path, Line = fst lc, Col = snd lc\<rparr>"

definition tok_at :: "string \<Rightarrow> string \<Rightarrow> int \<times> int \<Rightarrow> Tok \<Rightarrow> nat \<times> nat \<Rightarrow> bool" where
  "tok_at path src lc t ab \<longleftrightarrow> fst ab \<le> snd ab \<and> snd ab \<le> length src \<and>
     tkP t = at_pos path (pos_after lc (take (fst ab) src)) \<and> tok_says src t (fst ab) (snd ab)"

text \<open>The tokens stand in the source one after the other, from byte \<open>i\<close> on, with nothing lost between them.\<close>

fun located :: "string \<Rightarrow> string \<Rightarrow> int \<times> int \<Rightarrow> nat \<Rightarrow> Tok list \<Rightarrow> (nat \<times> nat) list \<Rightarrow> bool" where
  "located path src lc i [] spans = (spans = [])"
| "located path src lc i (t # ts) [] = False"
| "located path src lc i (t # ts) (ab # spans) =
     (blank_between src i (fst ab) \<and> tok_at path src lc t ab \<and> located path src lc (snd ab) ts spans)"

lemma lx_pos_inv: "pos_inv lc l \<Longrightarrow> lx_pos l = at_pos (lx_path l) (pos_after lc (take (lx_i l) (lx_src l)))"
  by (simp add: pos_inv_def at_pos_def lx_pos_def)

text \<open>Once the end has been seen, the cursor stays there.\<close>

definition eof_inv :: "Lexer \<Rightarrow> bool" where
  "eof_inv l \<longleftrightarrow> (lx_eof l \<longrightarrow> lx_peek l = NUL)"

text \<open>The scanner moves on between two tokens, with \<open>c\<close> telling whether it stands behind a comment.\<close>

lemma skip_slice:
  assumes "lx_peek l \<noteq> NUL"
  shows "slice (lx_src l) (lx_i l) (lx_i (lx_skip l)) =
    (if lx_peek l = CR \<and> lx_i (lx_skip l) = Suc (Suc (lx_i l)) then [CR, LF] else [lx_peek l])"
    and "lx_i (lx_skip l) \<le> length (lx_src l)"
proof -
  let ?s = "lx_src l" and ?i = "lx_i l"
  have at: "?i < length ?s" "?s ! ?i = lx_peek l" using lx_peek_src [OF refl assms] by auto
  then show "lx_i (lx_skip l) \<le> length ?s" using lx_skip_bound [of l] by simp
  show "slice ?s ?i (lx_i (lx_skip l)) =
    (if lx_peek l = CR \<and> lx_i (lx_skip l) = Suc (Suc ?i) then [CR, LF] else [lx_peek l])"
  proof (cases "lx_peek l = CR \<and> Suc ?i < length ?s \<and> ?s ! Suc ?i = LF")
    case True
    then have "lx_i (lx_skip l) = Suc (Suc ?i)" using at by (simp add: lx_skip_def lx_read_def Let_def)
    then show ?thesis using True at slice_cons [of ?i "Suc (Suc ?i)" ?s] slice_cons [of "Suc ?i" "Suc (Suc ?i)" ?s] by simp
  next
    case False
    then have "lx_i (lx_skip l) = Suc ?i" using at by (auto simp: lx_skip_def lx_read_def Let_def)
    then show ?thesis using at slice_cons [of ?i "Suc ?i" ?s] by simp
  qed
qed

lemma blank_skip:
  assumes "isSpace (lx_peek l) \<and> \<not> c \<or> lx_peek l = LF \<or> lx_peek l = CR"
  shows "blank c (slice (lx_src l) (lx_i l) (lx_i (lx_skip l))) = Some False"
proof -
  have "lx_peek l \<noteq> NUL" using assms by (auto simp: isSpace_def)
  from skip_slice(1) [OF this] assms show ?thesis by (auto simp: isSpace_def)
qed

lemma blank_while:
  "lx_i l \<le> length (lx_src l) \<Longrightarrow>
     blank True (slice (lx_src l) (lx_i l) (lx_i (skipComment l))) = Some True \<and> lx_peek (skipComment l) \<in> {NUL, LF, CR}"
proof (induction "lx_left l" arbitrary: l rule: less_induct)
  case less
  let ?f = "\<lambda>ch. \<not> (ch = NUL \<or> ch = LF \<or> ch = CR)"
  show ?case
  proof (cases "lx_i l < length (lx_src l) \<and> ?f (lx_peek l)")
    case False
    then have "skipComment l = l" unfolding skipComment_def by (subst read_while.simps) (simp only: if_False refl)
    then show ?thesis using False by (auto simp: lx_peek_def)
  next
    case True
    then have w: "skipComment l = skipComment (lx_skip l)"
      unfolding skipComment_def by (subst read_while.simps) simp
    have ih: "blank True (slice (lx_src l) (lx_i (lx_skip l)) (lx_i (skipComment (lx_skip l)))) = Some True"
      "lx_peek (skipComment (lx_skip l)) \<in> {NUL, LF, CR}"
      using less.hyps [of "lx_skip l"] lx_skip_less [of l] lx_skip_bound [of l] True by auto
    have "slice (lx_src l) (lx_i l) (lx_i (skipComment l)) = [lx_peek l] @ slice (lx_src l) (lx_i (lx_skip l)) (lx_i (skipComment l))"
      using skip_slice(1) [of l] True slice_append [of "lx_i l" "lx_i (lx_skip l)" "lx_i (skipComment l)" "lx_src l"]
        lx_skip_mono [of l] lx_reads_fields [OF lx_reads_comment [of "lx_skip l"]] w by auto
    then show ?thesis using ih True w by simp
  qed
qed

lemma blank_comment:
  assumes "lx_peek l = CHR ''#''"
  shows "blank False (slice (lx_src l) (lx_i l) (lx_i (skipComment l))) = Some True"
    and "lx_peek (skipComment l) \<in> {NUL, LF, CR}"
proof -
  have i: "lx_i l < length (lx_src l)" "lx_src l ! lx_i l = CHR ''#''" using lx_peek_src [OF assms] by auto
  have "lx_peek (skipComment l) \<in> {NUL, LF, CR}" "blank True (slice (lx_src l) (lx_i l) (lx_i (skipComment l))) = Some True"
    using blank_while [of l] i by auto
  moreover have "lx_i l < lx_i (skipComment l)" using skipComment_less [OF assms]
    unfolding lx_left_def skipComment_def by simp
  moreover have "lx_i (skipComment l) \<le> length (lx_src l)" using lx_reads_fields [OF lx_reads_comment [of l]] i by simp
  ultimately show "blank False (slice (lx_src l) (lx_i l) (lx_i (skipComment l))) = Some True"
    "lx_peek (skipComment l) \<in> {NUL, LF, CR}" using slice_cons [of "lx_i l" "lx_i (skipComment l)" "lx_src l"] i by auto
qed

text \<open>The way from byte \<open>i\<close> to the token, the scanner standing behind a comment or not.\<close>

definition way_to :: "bool \<Rightarrow> Lexer \<Rightarrow> nat \<Rightarrow> bool" where
  "way_to c l a \<longleftrightarrow> lx_i l \<le> a \<and> a \<le> length (lx_src l) \<and>
     (\<exists>d. blank c (slice (lx_src l) (lx_i l) a) = Some d \<and> (d \<longrightarrow> line_ends (lx_src l) a))"

lemma way_to_step:
  assumes "blank c (slice (lx_src l) (lx_i l) (lx_i l1)) = Some d" "lx_src l1 = lx_src l" "lx_i l \<le> lx_i l1" "way_to d l1 a"
  shows "way_to c l a"
proof -
  have le: "lx_i l1 \<le> a" using assms(4) by (simp add: way_to_def)
  have "blank c (slice (lx_src l) (lx_i l) a) = blank d (slice (lx_src l) (lx_i l1) a)"
    using blank_append [of c "slice (lx_src l) (lx_i l) (lx_i l1)"] assms(1)
    unfolding slice_append [OF assms(3) le, symmetric] by simp
  then show ?thesis using assms(2,3,4) by (auto simp: way_to_def)
qed

lemma way_to_here: "lx_i l \<le> length (lx_src l) \<Longrightarrow> (c \<longrightarrow> lx_peek l \<in> {NUL, LF, CR}) \<Longrightarrow> way_to c l (lx_i l)"
  using peek_line_ends [of l] by (simp add: way_to_def)

lemma lx_loop_located:
  "lx_loop l = (t, l') \<Longrightarrow> pos_inv lc l \<Longrightarrow> eof_inv l \<Longrightarrow> (c \<longrightarrow> lx_peek l \<in> {NUL, LF, CR}) \<Longrightarrow>
     pos_inv lc l' \<and> eof_inv l' \<and> lx_src l' = lx_src l \<and> lx_path l' = lx_path l \<and>
     (\<exists>a. way_to c l a \<and> tok_at (lx_path l) (lx_src l) lc t (a, lx_i l'))"
proof (induction l arbitrary: t l' c rule: lx_loop.induct)
  case (1 l)
  obtain r l1 where st: "lx_step l = (r, l1)" by fastforce
  note inv = "1.prems"(2) and eof = "1.prems"(3) and com = "1.prems"(4)
  have le: "lx_i l \<le> length (lx_src l)" using inv by (simp add: pos_inv_def)
  note here = way_to_here [OF le com]
  have pos: "lx_pos l = at_pos (lx_path l) (pos_after lc (take (lx_i l) (lx_src l)))" by (rule lx_pos_inv [OF inv])
  from st show ?case
  proof (cases rule: lx_step_cases)
    case (token t')
    let ?l = "l\<lparr>lx_start := lx_i l\<rparr>"
    from token st "1.prems" have eqs: "t' = t" "l1 = l'" by (simp_all add: lx_loop_return)
    have aft: "lx_after ?l t l'" using token(5) eqs by simp
    have tk: "lx_token (lx_peek l) (lx_pos l) ?l = (t, l')" using token(3) eqs by simp
    have "lx_peek ?l = lx_peek l" by (simp add: lx_peek_def)
    from lx_token_text [OF this token(2,6), of "lx_pos l"] tk have tx: "tok_text ?l t l'" by simp
    have fw: "lx_i l \<le> lx_i l'" "lx_i l' \<le> length (lx_src l)" "lx_src l' = lx_src l" "lx_path l' = lx_path l"
      using lx_after_fields [OF aft] le by auto
    have "tkP t = lx_pos l" using lx_token_pos [of "lx_peek l" "lx_pos l" ?l] tk by simp
    then have "tok_at (lx_path l) (lx_src l) lc t (lx_i l, lx_i l')" using tx fw pos by (simp add: tok_at_def tok_text_def)
    moreover have "pos_inv lc ?l" using inv by (simp add: pos_inv_def)
    then have "pos_inv lc l'" by (rule pos_inv_after [OF aft])
    moreover have "eof_inv l'" using lx_after_fields [OF aft] token(1) by (simp add: eof_inv_def)
    ultimately show ?thesis using fw here by blast
  next
    case comment
    with st "1.prems" have "lx_loop l1 = (t, l')" by (simp add: lx_loop_continue)
    note f = lx_reads_fields [OF lx_reads_comment [of l]] and b = blank_comment [OF comment(2)]
    have c: "\<not> c" using com comment(2) by auto
    have "eof_inv l1" using comment f by (simp add: eof_inv_def)
    with "1.IH" [OF st [symmetric] comment(3) \<open>lx_loop l1 = (t, l')\<close>, of True] comment f b
      pos_inv_reads [OF lx_reads_comment inv] way_to_step [of False l l1 True] c
    show ?thesis by auto
  next
    case skip
    with st "1.prems" have "lx_loop l1 = (t, l')" by (simp add: lx_loop_continue)
    have "isSpace (lx_peek l) \<and> \<not> c \<or> lx_peek l = LF \<or> lx_peek l = CR" using skip(5) com by (auto simp: isSpace_def)
    note b = blank_skip [OF this]
    have "eof_inv l1" using skip by (simp add: eof_inv_def)
    with "1.IH" [OF st [symmetric] skip(3) \<open>lx_loop l1 = (t, l')\<close>, of False] skip(4) pos_inv_skip [OF inv] b
      way_to_step [of c l l1 False] lx_skip_mono [of l]
    show ?thesis by auto
  next
    case end_flag
    with st "1.prems" have "lx_loop l1 = (t, l')" by (simp add: lx_loop_continue)
    have "lx_peek l1 = lx_peek l" using end_flag(4) by (simp add: lx_peek_def)
    with end_flag(2) have "eof_inv l1" "lx_peek l1 = lx_peek l" by (simp_all add: eof_inv_def)
    moreover have "pos_inv lc l1" using inv end_flag(4) by (simp add: pos_inv_def)
    moreover have "way_to c l1 a = way_to c l a" for a using end_flag(4) by (simp add: way_to_def)
    ultimately show ?thesis using "1.IH" [OF st [symmetric] end_flag(3) \<open>lx_loop l1 = (t, l')\<close>, of c] end_flag(4) com by simp
  next
    case newline
    with st "1.prems" have eqs: "t = \<lparr>tkK = AUTO_SEMI, tkLit = [], tkP = lx_pos l\<rparr>"
      "l' = (lx_skip l)\<lparr>lx_last := AUTO_SEMI\<rparr>" by (simp_all add: lx_loop_return)
    have "lx_peek l \<noteq> NUL" using newline(2) by auto
    note sl = skip_slice [OF this]
    have "tok_at (lx_path l) (lx_src l) lc t (lx_i l, lx_i l')"
      using sl newline(2) pos lx_skip_mono [of l] eqs by (auto simp: tok_at_def tok_says_def)
    moreover have "pos_inv lc l'" using pos_inv_skip [OF inv] eqs by (simp add: pos_inv_def)
    moreover have "eof_inv l'" using eqs newline(1) by (simp add: eof_inv_def)
    ultimately show ?thesis using here eqs by auto
  next
    case eof_semi
    with st "1.prems" have eqs: "t = \<lparr>tkK = AUTO_SEMI, tkLit = [], tkP = lx_pos l\<rparr>" "l' = l\<lparr>lx_eofSemi := True\<rparr>"
      by (simp_all add: lx_loop_return)
    have "src_ends (lx_src l) (lx_i l)" using eof eof_semi(1) peek_ends [OF le] by (simp add: eof_inv_def)
    then have "tok_at (lx_path l) (lx_src l) lc t (lx_i l, lx_i l')" using eqs pos le by (simp add: tok_at_def tok_says_def)
    moreover have "pos_inv lc l'" "eof_inv l'" using inv eof eqs by (auto simp: pos_inv_def eof_inv_def lx_peek_def)
    ultimately show ?thesis using here eqs by auto
  next
    case eof: eof
    from lx_loop_return [of l "\<lparr>tkK = EOF, tkLit = [], tkP = lx_pos l\<rparr>" l] st eof(3,4)
    have "lx_loop l = (\<lparr>tkK = EOF, tkLit = [], tkP = lx_pos l\<rparr>, l)" by simp
    with "1.prems"(1) have eqs: "t = \<lparr>tkK = EOF, tkLit = [], tkP = lx_pos l\<rparr>" "l' = l" by auto
    have "src_ends (lx_src l) (lx_i l)" using "1.prems"(3) eof(1) peek_ends [OF le] by (simp add: eof_inv_def)
    then have "tok_at (lx_path l) (lx_src l) lc t (lx_i l, lx_i l')" using eqs pos le by (simp add: tok_at_def tok_says_def)
    then show ?thesis using here eqs "1.prems"(2,3) by auto
  qed
qed

lemma lex_all_located:
  "lx_pend l = None \<Longrightarrow> pos_inv lc l \<Longrightarrow> eof_inv l \<Longrightarrow>
     \<exists>spans. located (lx_path l) (lx_src l) lc (lx_i l) (lex_all l) spans"
proof (induction l rule: lex_all.induct)
  case (1 l)
  obtain t l' where st: "lx_next l = (t, l')" by fastforce
  then have "lx_loop l = (t, l')" using "1.prems"(1) by (simp add: lx_next_def)
  from lx_loop_located [OF this "1.prems"(2,3), of False] obtain a where
    l': "pos_inv lc l'" "eof_inv l'" "lx_src l' = lx_src l" "lx_path l' = lx_path l" and
    a: "blank_between (lx_src l) (lx_i l) a" "tok_at (lx_path l) (lx_src l) lc t (a, lx_i l')"
    by (auto simp: way_to_def blank_between_def)
  show ?case
  proof (cases "tkK t = EOF")
    case True
    then show ?thesis using a lex_all_step [OF st] by (intro exI [of _ "[(a, lx_i l')]"]) simp
  next
    case False
    have "lx_pend l' = None" using lx_next_semi [OF "1.prems"(1) st] by simp
    from "1.IH" [OF st [symmetric] refl False this l'(1,2)] obtain spans where
      "located (lx_path l) (lx_src l) lc (lx_i l') (lex_all l') spans" using l' by auto
    then show ?thesis using False a lex_all_step [OF st] by (intro exI [of _ "(a, lx_i l') # spans"]) simp
  qed
qed

lemma NewLexerAt_inv:
  "lx_pend (NewLexerAt path src pos) = None" "eof_inv (NewLexerAt path src pos)"
  "1 \<le> Line pos \<Longrightarrow> 1 \<le> Col pos \<Longrightarrow> pos_inv (Line pos, Col pos) (NewLexerAt path src pos)"
  "pos_inv (lx_line (NewLexerAt path src pos), lx_col (NewLexerAt path src pos)) (NewLexerAt path src pos)"
  by (simp_all add: NewLexerAt_def Let_def pos_inv_def crlf_split_def eof_inv_def)

lemma located_ident:
  "located path src lc i ts spans \<Longrightarrow> t \<in> set ts \<Longrightarrow> tkK t = IDENT \<Longrightarrow> tkLit t \<noteq> []"
  by (induction path src lc i ts spans rule: located.induct) (auto simp: tok_at_def tok_says_def)

lemma lex_all_ident:
  assumes "t \<in> set (lex_all (NewLexerAt path src pos))" "tkK t = IDENT"
  shows "tkLit t \<noteq> []"
  using lex_all_located [OF NewLexerAt_inv(1,4,2)] assms located_ident by blast

lemma located_spans:
  "located path src lc i ts spans \<Longrightarrow>
     length spans = length ts \<and> (\<forall>k < length ts. tok_at path src lc (ts ! k) (spans ! k)
       \<and> blank_between src (if k = 0 then i else snd (spans ! (k - 1))) (fst (spans ! k)))"
proof (induction path src lc i ts spans rule: located.induct)
  case (3 path src lc i t ts ab spans)
  then have ih: "length spans = length ts"
    "\<And>k. k < length ts \<Longrightarrow> tok_at path src lc (ts ! k) (spans ! k)
       \<and> blank_between src (if k = 0 then snd ab else snd (spans ! (k - 1))) (fst (spans ! k))" by auto
  have "tok_at path src lc ((t # ts) ! k) ((ab # spans) ! k)
       \<and> blank_between src (if k = 0 then i else snd ((ab # spans) ! (k - 1))) (fst ((ab # spans) ! k))"
    if "k < length (t # ts)" for k
    using "3.prems" that ih(2) [of "k - 1"] by (cases k) (auto simp: nth_Cons' split: if_split_asm)
  with ih(1) show ?case by simp
qed simp_all

text \<open>
  C2: the tokens of a source stand in it one after the other, each at its own span of bytes, and cover it: between two spans,
  and before the first, there are only blanks, line ends and comments. The line and column of each token are those of the
  first byte of its span (CR, LF and CR LF each ending one line, columns counting bytes). What a token says is what its span
  says: the text itself, what is between the quotes of a string, the byte or the line of an error, a line end for an automatic
  semicolon, and the end of the source.
\<close>

theorem token_text_and_position:
  assumes "ts = lex_all (NewLexerAt path src pos)" and "1 \<le> Line pos" and "1 \<le> Col pos"
  shows "\<exists>spans. length spans = length ts \<and>
    (\<forall>k < length ts. tok_at path src (Line pos, Col pos) (ts ! k) (spans ! k)
       \<and> blank_between src (if k = 0 then 0 else snd (spans ! (k - 1))) (fst (spans ! k)))"
proof -
  let ?l = "NewLexerAt path src pos"
  have "lx_i ?l = 0" "lx_path ?l = path" "lx_src ?l = src" by (simp_all add: NewLexerAt_def Let_def)
  with lex_all_located [OF NewLexerAt_inv(1) NewLexerAt_inv(3) [OF assms(2,3)] NewLexerAt_inv(2), of path src] obtain spans
    where "located path src (Line pos, Col pos) 0 ts spans" unfolding assms(1) by auto
  from located_spans [OF this] show ?thesis by blast
qed

theorem token_text_and_position_witness:
  "let src = ''x'' @ [CR, LF] @ ''return 1'';
       ts = lex_all (NewLexerAt ''f'' src \<lparr>Path = [], Line = 3, Col = 5\<rparr>)
   in length ts = 6 \<and> tkLit (ts ! 2) = ''return'' \<and> tkP (ts ! 2) = \<lparr>Path = ''f'', Line = 4, Col = 1\<rparr>
      \<and> (\<exists>ab. tok_at ''f'' src (3, 5) (ts ! 2) ab)"
proof -
  let ?src = "''x'' @ [CR, LF] @ ''return 1''"
  define ts where "ts = lex_all (NewLexerAt ''f'' ?src \<lparr>Path = [], Line = 3, Col = 5\<rparr>)"
  have "length ts = 6 \<and> tkLit (ts ! 2) = ''return'' \<and> tkP (ts ! 2) = \<lparr>Path = ''f'', Line = 4, Col = 1\<rparr>"
    unfolding ts_def by code_simp
  moreover from token_text_and_position [OF ts_def] obtain spans where
    "length spans = length ts" "\<forall>k < length ts. tok_at ''f'' ?src (3, 5) (ts ! k) (spans ! k)"
    by auto
  ultimately show ?thesis
    unfolding Let_def ts_def [symmetric] by (intro conjI exI [of _ "spans ! 2"]) auto
qed

section \<open>Quoted strings read back\<close>

text \<open>The escaped form of a text between quotes \<open>q\<close>.\<close>

fun rts_escape :: "char \<Rightarrow> string \<Rightarrow> string" where
  "rts_escape q [] = []"
| "rts_escape q (c # cs) =
     (if c = LF then CHR 0x5C # CHR ''n'' # rts_escape q cs
      else if c = CR then CHR 0x5C # CHR ''r'' # rts_escape q cs
      else if c = NUL \<or> c = q \<or> c = CHR 0x5C then CHR 0x5C # c # rts_escape q cs
      else c # rts_escape q cs)"

lemma lx_at:
  assumes "lx_src l = pre @ c # post" "lx_i l = length pre" "c \<noteq> CR"
  shows "lx_peek l = c \<and> lx_read l = ((if c = LF then LF else c), lx_skip l)
    \<and> lx_i (lx_skip l) = length (pre @ [c]) \<and> lx_src (lx_skip l) = (pre @ [c]) @ post"
  using assms by (auto simp: lx_peek_def lx_skip_def lx_read_def Let_def)

lemma scanString_loop_plain:
  "lx_peek l = c \<Longrightarrow> c \<notin> {NUL, LF, CR, q, CHR 0x5C} \<Longrightarrow>
     scanString_loop q st out l = scanString_loop q st out (lx_skip l)"
  by (subst scanString_loop.simps) (auto simp: Let_def)

lemma scanString_loop_esc:
  "lx_peek l = CHR 0x5C \<Longrightarrow> q \<noteq> CHR 0x5C \<Longrightarrow> lx_read (lx_skip l) = (e, l2) \<Longrightarrow>
     scanString_loop q st out l =
       scanString_loop q (lx_i l2) ((out @ slice (lx_src l) st (lx_i l)) @ [escape_byte e]) l2"
  by (subst scanString_loop.simps) (auto simp: Let_def)

lemma scanString_loop_escape:
  "lx_src l = pre @ rts_escape q s @ q # post \<Longrightarrow> lx_i l = length pre \<Longrightarrow> st \<le> length pre \<Longrightarrow>
     q \<in> {CHR 0x22, CHR 0x27} \<Longrightarrow>
     \<exists>l'. scanString_loop q st out l = ((out @ slice (lx_src l) st (lx_i l) @ s, True), l')
        \<and> lx_i l' = length pre + length (rts_escape q s) + 1"
proof (induction s arbitrary: l pre st out)
  case Nil
  have at: "lx_peek l = q" "lx_i (lx_skip l) = Suc (length pre)"
    using lx_at [of l pre q post] Nil by auto
  then show ?case
    using Nil by (subst scanString_loop.simps) (auto simp: Let_def)
next
  case (Cons c s)
  define e where "e = (if c = LF then CHR ''n'' else if c = CR then CHR ''r'' else c)"
  show ?case
  proof (cases "c = LF \<or> c = CR \<or> c = NUL \<or> c = q \<or> c = CHR 0x5C")
    case True
    then have esc: "rts_escape q (c # s) = CHR 0x5C # e # rts_escape q s"
      and e: "e \<noteq> CR" "escape_byte (if e = LF then LF else e) = c" "e \<noteq> LF"
      using Cons.prems(4) by (auto simp: e_def escape_byte_def)
    have a1: "lx_peek l = CHR 0x5C" "lx_i (lx_skip l) = length (pre @ [CHR 0x5C])"
      "lx_src (lx_skip l) = (pre @ [CHR 0x5C]) @ e # rts_escape q s @ q # post"
      using lx_at [of l pre "CHR 0x5C"] Cons.prems esc by auto
    have a2: "lx_read (lx_skip l) = (e, lx_skip (lx_skip l))"
      "lx_i (lx_skip (lx_skip l)) = length (pre @ [CHR 0x5C, e])"
      "lx_src (lx_skip (lx_skip l)) = (pre @ [CHR 0x5C, e]) @ rts_escape q s @ q # post"
      using lx_at [OF a1(3,2) e(1)] e by auto
    have "scanString_loop q st out l = scanString_loop q (lx_i (lx_skip (lx_skip l)))
        ((out @ slice (lx_src l) st (lx_i l)) @ [c]) (lx_skip (lx_skip l))"
      using scanString_loop_esc [OF a1(1) _ a2(1)] Cons.prems(4) e by auto
    moreover from Cons.IH [OF a2(3,2), of "length (pre @ [CHR 0x5C, e])"
        "(out @ slice (lx_src l) st (lx_i l)) @ [c]"] Cons.prems(4) a2(2)
    obtain l' where "scanString_loop q (lx_i (lx_skip (lx_skip l)))
        ((out @ slice (lx_src l) st (lx_i l)) @ [c]) (lx_skip (lx_skip l))
          = (((out @ slice (lx_src l) st (lx_i l)) @ [c] @ s, True), l')"
      "lx_i l' = length (pre @ [CHR 0x5C, e]) + length (rts_escape q s) + 1" by auto
    ultimately show ?thesis using esc by auto
  next
    case False
    then have esc: "rts_escape q (c # s) = c # rts_escape q s" by auto
    have a: "lx_peek l = c" "lx_i (lx_skip l) = length (pre @ [c])"
      "lx_src (lx_skip l) = (pre @ [c]) @ rts_escape q s @ q # post"
      using lx_at [of l pre c] Cons.prems esc False by auto
    have "scanString_loop q st out l = scanString_loop q st out (lx_skip l)"
      using scanString_loop_plain [OF a(1)] False by auto
    moreover from Cons.IH [OF a(3,2), of st out] Cons.prems a(2) obtain l' where
      "scanString_loop q st out (lx_skip l)
         = ((out @ slice (lx_src l) st (lx_i (lx_skip l)) @ s, True), l')"
      "lx_i l' = length (pre @ [c]) + length (rts_escape q s) + 1" by auto
    moreover have "slice (lx_src l) st (Suc (length pre)) = slice (lx_src l) st (length pre) @ [c]"
      using Cons.prems esc by (subst slice_Suc) auto
    ultimately show ?thesis using esc a(2) Cons.prems(2) by auto
  qed
qed

text \<open>The string token on its own, at the start of the source.\<close>

lemma lx_token_quoted:
  assumes q: "q \<in> {CHR 0x22, CHR 0x27}"
    and l: "lx_src l = q # rts_escape q s @ [q]" "lx_i l = 0"
  shows "\<exists>l'. lx_token q p l = lx_emit STRING s p l' \<and> lx_left l' = 0 \<and> lx_reads (lx_skip l) l'"
proof -
  have at: "lx_read l = (q, lx_skip l)" "lx_i (lx_skip l) = length [q]"
    "lx_src (lx_skip l) = [q] @ rts_escape q s @ q # []"
    using lx_at [of l "[]" q "rts_escape q s @ [q]"] l q by (elim insertE emptyE; simp)+
  from scanString_loop_escape [OF at(3,2), of 1 "[]"] q obtain l' where
    l': "scanString_loop q 1 [] (lx_skip l) = ((s, True), l')"
    "lx_i l' = length (lx_src l)" using l at(2) by auto
  have sc: "scanString l = ((s, True), l')"
    unfolding scanString_def using at(1,2) l'(1) by simp
  note rd = lx_reads_string [OF sc]
  have "lx_left l' = 0" using lx_reads_fields [OF rd] l'(2) by (simp add: lx_left_def)
  moreover have "lx_token q p l = lx_emit STRING s p l'"
    using q sc by (elim insertE emptyE; simp only: lx_token_def char.inject simp_thms Let_def split_conv if_True if_False)
  ultimately show ?thesis using rd by blast
qed

lemma lx_next_quoted:
  assumes q: "q \<in> {CHR 0x22, CHR 0x27}"
    and l: "lx_src l = q # rts_escape q s @ [q]" "lx_i l = 0" "lx_pend l = None"
      "\<not> lx_eof l" "\<not> lx_eofSemi l"
  shows "\<exists>l'. lx_next l = (\<lparr>tkK = STRING, tkLit = s, tkP = lx_pos l\<rparr>, l')
    \<and> lx_left l' = 0 \<and> lx_last l' = STRING \<and> lx_pend l' = None \<and> \<not> lx_eof l' \<and> \<not> lx_eofSemi l'"
proof -
  let ?l = "l\<lparr>lx_start := lx_i l\<rparr>"
  have pk: "lx_peek l = q" using l by (simp add: lx_peek_def)
  have "lx_src ?l = q # rts_escape q s @ [q]" "lx_i ?l = 0" using l by simp_all
  from lx_token_quoted [OF q this] obtain l' where
    tk: "lx_token q (lx_pos l) ?l = lx_emit STRING s (lx_pos l) l'" and
    l': "lx_left l' = 0" "lx_reads (lx_skip ?l) l'" by blast
  have "lx_step l = (Some (fst (lx_emit STRING s (lx_pos l) l')), snd (lx_emit STRING s (lx_pos l) l'))"
    using q l(4) pk tk by (auto simp: lx_step_def Let_def isSpace_def lx_emit_def)
  then have "lx_next l = lx_emit STRING s (lx_pos l) l'"
    using lx_loop_return l(3) by (fastforce simp: lx_next_def)
  then show ?thesis using lx_reads_fields [OF l'(2)] l l'(1)
    by (simp add: lx_emit_def lx_left_def)
qed

lemma lx_next_end:
  assumes "lx_left l = 0" "lx_pend l = None" "lx_last l = STRING" "\<not> lx_eof l" "\<not> lx_eofSemi l"
  shows "lex_all l = [\<lparr>tkK = AUTO_SEMI, tkLit = [], tkP = lx_pos l\<rparr>, \<lparr>tkK = EOF, tkLit = [], tkP = lx_pos l\<rparr>]"
proof -
  have step: "lx_step l = (None, l\<lparr>lx_eof := True\<rparr>)"
    using assms by (simp add: lx_step_def Let_def lx_peek_def lx_left_def)
  let ?t = "\<lparr>tkK = AUTO_SEMI, tkLit = [], tkP = lx_pos l\<rparr>"
  let ?l2 = "l\<lparr>lx_eof := True, lx_eofSemi := True\<rparr>"
  have "lx_step (l\<lparr>lx_eof := True\<rparr>) = (Some ?t, ?l2)"
    using assms by (simp add: lx_step_def semiOk_def lx_pos_def)
  then have "lx_next l = (?t, ?l2)"
    using assms step by (simp add: lx_next_def lx_loop_continue lx_loop_return)
  moreover have "lex_all ?l2 = [\<lparr>tkK = EOF, tkLit = [], tkP = lx_pos l\<rparr>]"
    using lex_all_step [OF lx_done_next [of ?l2]] assms by (simp add: lx_pos_def)
  ultimately show ?thesis by (simp add: lex_all_step)
qed

text \<open>
  C3: every byte string, quotes, backslashes, line ends and zero bytes included, can be written
  as a quoted string: the lexer reads the escaped form back as one STRING token with exactly
  that text, for either quote character.
\<close>

theorem quoted_string_reads_back:
  assumes "q \<in> {CHR 0x22, CHR 0x27}"
  shows "map (\<lambda>t. (tkK t, tkLit t)) (lex_all (NewLexerAt path (q # rts_escape q s @ [q]) pos))
      = [(STRING, s), (AUTO_SEMI, []), (EOF, [])]"
proof -
  let ?l = "NewLexerAt path (q # rts_escape q s @ [q]) pos"
  have "lx_src ?l = q # rts_escape q s @ [q]" "lx_i ?l = 0" "lx_pend ?l = None"
    "\<not> lx_eof ?l" "\<not> lx_eofSemi ?l" by (simp_all add: NewLexerAt_def Let_def)
  from lx_next_quoted [OF assms this] obtain l' where
    "lx_next ?l = (\<lparr>tkK = STRING, tkLit = s, tkP = lx_pos ?l\<rparr>, l')"
    "lx_left l' = 0" "lx_last l' = STRING" "lx_pend l' = None" "\<not> lx_eof l'" "\<not> lx_eofSemi l'"
    by blast
  then show ?thesis by (simp add: lex_all_step lx_next_end)
qed

theorem quoted_string_reads_back_witness:
  "rts_escape CHR 0x27 (''a'' @ [CHR 0x27, LF]) = ''a'' @ [CHR 0x5C, CHR 0x27, CHR 0x5C] @ ''n''
   \<and> map (\<lambda>t. (tkK t, tkLit t)) (lex_all (NewLexerAt [] (CHR 0x27 # rts_escape CHR 0x27 (''a'' @ [CHR 0x27, LF]) @ [CHR 0x27]) zero_pos))
      = [(STRING, ''a'' @ [CHR 0x27, LF]), (AUTO_SEMI, []), (EOF, [])]"
  using quoted_string_reads_back [of "CHR 0x27" "[]" "''a'' @ [CHR 0x27, LF]" zero_pos] by simp

end
