(* ===== verification/RtsGroup.thy ===== *)
theory RtsGroup
  imports RtsLexerProps
begin

text \<open>
  The token scanners outside the parser: \<open>Mask\<close> and \<open>OpenGroup\<close> (\<open>internal/rts/group.go\<close>),
  which find separators and unclosed groups in the text of an expression, and \<open>modHead\<close>
  (\<open>internal/rts/resolve.go\<close>), which reads only the name of a module. Each pulls tokens from the
  lexer until EOF, so each terminates by the rank of the token source.
\<close>

section \<open>Mask\<close>

definition overlay :: "string \<Rightarrow> string \<Rightarrow> nat \<Rightarrow> nat \<Rightarrow> string" where
  "overlay out src a b = take a out @ slice src a b @ drop b out"

text \<open>The switch on one token: whether it is kept, and the depth after it.\<close>

definition mask_token :: "Kind \<Rightarrow> nat \<Rightarrow> bool \<times> nat" where
  "mask_token k depth =
     (if k \<in> {LPAREN, LBRACK, LBRACE} then (depth = 0, Suc depth)
      else if k \<in> {RPAREN, RBRACK, RBRACE} then (depth - 1 = 0, depth - 1)
      else if k \<in> {STRING, ILLEGAL, AUTO_SEMI} then (False, depth)
      else (depth = 0, depth))"

function mask_loop :: "string \<Rightarrow> string \<Rightarrow> nat \<Rightarrow> Lexer \<Rightarrow> string" where
  "mask_loop src out depth lx =
     (let (tok, lx1) = lx_next lx in
      if tkK tok = EOF then out
      else let (keep, depth1) = mask_token (tkK tok) depth in
        mask_loop src (if keep then overlay out src (lx_start lx1) (lx_i lx1) else out) depth1 lx1)"
  by pat_completeness auto
termination
  by (relation "measure (\<lambda>(src, out, depth, lx). lx_rank lx)") (auto dest: lx_next_rank [OF sym])

declare mask_loop.simps [simp del]

definition Mask :: "string \<Rightarrow> string" where
  "Mask src = mask_loop src (replicate (length src) CHR '' '') 0 (NewLexer [] src)"

section \<open>OpenGroup\<close>

definition closeGroup :: "string \<Rightarrow> char \<Rightarrow> string" where
  "closeGroup op closer = (if op \<noteq> [] \<and> last op = closer then butlast op else op)"

fun group_token :: "Kind \<Rightarrow> string \<Rightarrow> string" where
  "group_token LPAREN op = op @ '')''"
| "group_token LBRACK op = op @ '']''"
| "group_token LBRACE op = op @ ''}''"
| "group_token RPAREN op = closeGroup op CHR '')''"
| "group_token RBRACK op = closeGroup op CHR '']''"
| "group_token RBRACE op = closeGroup op CHR ''}''"
| "group_token _ op = op"

function open_loop :: "string \<Rightarrow> Lexer \<Rightarrow> char option" where
  "open_loop op lx =
     (let (tok, lx1) = lx_next lx in
      if tkK tok = EOF then (if op = [] then None else Some (last op))
      else open_loop (group_token (tkK tok) op) lx1)"
  by pat_completeness auto
termination
  by (relation "measure (\<lambda>(op, lx). lx_rank lx)") (auto dest: lx_next_rank [OF sym])

declare open_loop.simps [simp del]

text \<open>The rune 0, no open group, is \<open>None\<close>.\<close>

definition OpenGroup :: "string \<Rightarrow> char option" where
  "OpenGroup src = open_loop [] (NewLexer [] src)"

section \<open>The head of a module\<close>

datatype scan_error = ScanErr Pos string

function scanMod :: "Lexer \<Rightarrow> scan_error + (Pos \<times> bool)" where
  "scanMod lx =
     (let (tok, lx1) = lx_next lx in
      if tkK tok = EOF then Inr (zero_pos, False)
      else if tkK tok = SEMI \<or> tkK tok = AUTO_SEMI then scanMod lx1
      else if tkK tok = ILLEGAL then Inl (ScanErr (tkP tok) (tkLit tok))
      else if tkK tok = KW_MODULE then Inr (tkP tok, True)
      else scanMod lx1)"
  by pat_completeness auto
termination
  by (relation "measure lx_rank") (auto dest: lx_next_rank [OF sym])

declare scanMod.simps [simp del]

text \<open>The result is the name with its position; an error carries the position the Go code also
  returns beside it.\<close>

function modHead_loop :: "string \<Rightarrow> Lexer \<Rightarrow> scan_error + (string \<times> Pos)" where
  "modHead_loop path lx =
     (let (tok, lx1) = lx_next lx in
      if tkK tok = EOF then Inr ([], \<lparr>Path = path, Line = 0, Col = 0\<rparr>)
      else if tkK tok = SEMI \<or> tkK tok = AUTO_SEMI then modHead_loop path lx1
      else if tkK tok = ILLEGAL then Inl (ScanErr (tkP tok) (tkLit tok))
      else if tkK tok = KW_MODULE then
        (let (nt, lx2) = lx_next lx1 in
         if tkK nt = ILLEGAL then Inl (ScanErr (tkP nt) (tkLit nt))
         else if isKeyword (tkK nt) then
           Inl (ScanErr (tkP nt)
             (''module name cannot be the reserved word '' @ kind_string (tkK nt)))
         else if tkK nt \<noteq> IDENT then Inl (ScanErr (tkP nt) ''module requires a name'')
         else Inr (tkLit nt, tkP tok))
      else (case scanMod lx1 of
              Inl e \<Rightarrow> Inl e
            | Inr (mp, found) \<Rightarrow>
                (if found then Inl (ScanErr mp ''module must appear before statements'')
                 else Inr ([], \<lparr>Path = path, Line = 0, Col = 0\<rparr>))))"
  by pat_completeness auto
termination
  by (relation "measure (\<lambda>(path, lx). lx_rank lx)") (auto dest: lx_next_rank [OF sym])

declare modHead_loop.simps [simp del]

definition modHead :: "string \<Rightarrow> string \<Rightarrow> scan_error + (string \<times> Pos)" where
  "modHead path src = modHead_loop path (NewLexer path src)"

section \<open>What the scanners compute\<close>

text \<open>The tokens before EOF with the bytes they were read from.\<close>

function lex_spans :: "Lexer \<Rightarrow> (Kind \<times> nat \<times> nat) list" where
  "lex_spans lx =
     (let (tok, lx1) = lx_next lx in
      if tkK tok = EOF then [] else (tkK tok, lx_start lx1, lx_i lx1) # lex_spans lx1)"
  by pat_completeness auto
termination
  by (relation "measure lx_rank") (auto dest: lx_next_rank [OF sym])

declare lex_spans.simps [simp del]

text \<open>The nesting depth before the \<open>k\<close>-th token, and whether Mask keeps it.\<close>

definition mask_depth :: "nat \<Rightarrow> Kind list \<Rightarrow> nat" where
  "mask_depth d ks = foldl (\<lambda>d k. snd (mask_token k d)) d ks"

definition mask_kept :: "nat \<Rightarrow> (Kind \<times> nat \<times> nat) list \<Rightarrow> nat \<Rightarrow> bool" where
  "mask_kept d sp k \<longleftrightarrow> fst (mask_token (fst (sp ! k)) (mask_depth d (map fst (take k sp))))"

definition in_kept :: "nat \<Rightarrow> (Kind \<times> nat \<times> nat) list \<Rightarrow> nat \<Rightarrow> bool" where
  "in_kept d sp i \<longleftrightarrow>
     (\<exists>k < length sp. mask_kept d sp k \<and> fst (snd (sp ! k)) \<le> i \<and> i < snd (snd (sp ! k)))"

lemma in_kept_Cons:
  "in_kept d ((k, a, b) # sp) i \<longleftrightarrow>
     fst (mask_token k d) \<and> a \<le> i \<and> i < b \<or> in_kept (snd (mask_token k d)) sp i"
  unfolding in_kept_def mask_kept_def mask_depth_def
  by (simp add: Ex_less_Suc2)

lemma overlay_nth:
  assumes "length out = length src" "a \<le> b" "b \<le> length src"
  shows "length (overlay out src a b) = length src"
    and "i < length src \<Longrightarrow>
      overlay out src a b ! i = (if a \<le> i \<and> i < b then src ! i else out ! i)"
proof -
  have "length (slice src a b) = b - a" using assms by (simp add: length_slice)
  then show "length (overlay out src a b) = length src"
    "i < length src \<Longrightarrow> overlay out src a b ! i = (if a \<le> i \<and> i < b then src ! i else out ! i)"
    using assms by (auto simp: overlay_def nth_append slice_def)
qed

definition span_inv :: "string \<Rightarrow> Lexer \<Rightarrow> bool" where
  "span_inv src l \<longleftrightarrow> lx_src l = src \<and> lx_start l \<le> lx_i l \<and> lx_i l \<le> length src"

lemma span_inv_loop: "lx_loop l = (t, l') \<Longrightarrow> span_inv src l \<Longrightarrow> span_inv src l'"
proof (induction l arbitrary: t l' rule: lx_loop.induct)
  case (1 l)
  obtain r l1 where st: "lx_step l = (r, l1)" by fastforce
  have silent: "r = None \<Longrightarrow> span_inv src l1 \<Longrightarrow> span_inv src l'"
    using "1.IH" [OF st [symmetric]] "1.prems"(1) st by (simp add: lx_loop_continue)
  have final: "r = Some t' \<Longrightarrow> l' = l1" for t'
    using "1.prems"(1) st by (simp add: lx_loop_return)
  note sk = lx_skip_mono [of l] lx_skip_bound [of l]
  from st show ?case
  proof (cases rule: lx_step_cases)
    case skip
    then show ?thesis using silent "1.prems"(2) sk by (auto simp: span_inv_def)
  next
    case newline
    then show ?thesis using final "1.prems"(2) sk by (auto simp: span_inv_def)
  next
    case comment
    then show ?thesis using silent "1.prems"(2) lx_reads_fields [OF lx_reads_comment [of l]]
      by (auto simp: span_inv_def)
  next
    case (token t')
    then show ?thesis using final "1.prems"(2) lx_after_fields [OF token(5)]
      by (auto simp: span_inv_def)
  qed (use silent final "1.prems"(2) in \<open>auto simp: span_inv_def\<close>)
qed

lemma span_inv_next: "lx_next l = (t, l') \<Longrightarrow> span_inv src l \<Longrightarrow> span_inv src l'"
  using span_inv_loop [of l t l' src] by (auto simp: lx_next_def span_inv_def split: option.splits)

lemma mask_loop_spec:
  "span_inv src lx \<Longrightarrow> length out = length src \<Longrightarrow>
     length (mask_loop src out d lx) = length src \<and>
     (\<forall>i < length src. mask_loop src out d lx ! i
        = (if in_kept d (lex_spans lx) i then src ! i else out ! i))"
proof (induction src out d lx rule: mask_loop.induct)
  case (1 src out d lx)
  obtain tok lx1 where st: "lx_next lx = (tok, lx1)" by fastforce
  obtain keep d1 where mt: "mask_token (tkK tok) d = (keep, d1)" by fastforce
  show ?case
  proof (cases "tkK tok = EOF")
    case True
    then show ?thesis using "1.prems"(2) st
      by (simp add: mask_loop.simps [of src out d lx] lex_spans.simps [of lx] in_kept_def)
  next
    case False
    define out1 where "out1 = (if keep then overlay out src (lx_start lx1) (lx_i lx1) else out)"
    have inv: "span_inv src lx1" by (rule span_inv_next [OF st "1.prems"(1)])
    then have ab: "lx_start lx1 \<le> lx_i lx1" "lx_i lx1 \<le> length src" by (simp_all add: span_inv_def)
    have len: "length out1 = length src" and
      nth: "\<And>i. i < length src \<Longrightarrow>
        out1 ! i = (if keep \<and> lx_start lx1 \<le> i \<and> i < lx_i lx1 then src ! i else out ! i)"
      using overlay_nth [OF "1.prems"(2) ab] "1.prems"(2) by (auto simp: out1_def)
    have eq: "mask_loop src out d lx = mask_loop src out1 d1 lx1"
      "lex_spans lx = (tkK tok, lx_start lx1, lx_i lx1) # lex_spans lx1"
      using st mt False
      by (simp_all add: mask_loop.simps [of src out d lx] lex_spans.simps [of lx] out1_def)
    from "1.IH" [OF st [symmetric] refl False mt [symmetric] refl inv len [unfolded out1_def]]
    show ?thesis using nth mt
      unfolding eq out1_def [symmetric] by (auto simp: in_kept_Cons)
  qed
qed

lemma span_inv_new: "span_inv src (NewLexer path src)"
  by (simp add: span_inv_def NewLexer_def NewLexerAt_def Let_def)

text \<open>
  Mask keeps the byte offsets of its argument. The byte at every offset is the source byte
  when it belongs to a token outside all brackets (an outermost bracket counts as outside, and
  strings, errors and comments never do) and a space otherwise.
\<close>

theorem mask_keeps_top_level:
  assumes "i < length src"
  shows "length (Mask src) = length src
    \<and> Mask src ! i = (if in_kept 0 (lex_spans (NewLexer [] src)) i then src ! i else CHR '' '')"
  using mask_loop_spec [OF span_inv_new, of "replicate (length src) CHR '' ''" src 0 "[]"] assms
  by (simp add: Mask_def)

theorem mask_keeps_top_level_witness:
  "length (Mask ''a,f(b,c)'') = 8 \<and> Mask ''a,f(b,c)'' = ''a,f(   )''
   \<and> in_kept 0 (lex_spans (NewLexer [] ''a,f(b,c)'')) 1 \<and> \<not> in_kept 0 (lex_spans (NewLexer [] ''a,f(b,c)'')) 5"
proof -
  have m: "Mask ''a,f(b,c)'' = ''a,f(   )''" by code_simp
  have "Mask ''a,f(b,c)'' ! 1 = CHR '',''" "Mask ''a,f(b,c)'' ! 5 = CHR '' ''" unfolding m by simp_all
  with mask_keeps_top_level [of 1 "''a,f(b,c)''"] mask_keeps_top_level [of 5 "''a,f(b,c)''"] m
  show ?thesis by (simp split: if_splits)
qed

text \<open>Bracket structure of a token sequence.\<close>

definition opener :: "Kind \<Rightarrow> char option" where
  "opener k = (if k = LPAREN then Some CHR '')'' else if k = LBRACK then Some CHR '']''
               else if k = LBRACE then Some CHR ''}'' else None)"

inductive balanced :: "Kind list \<Rightarrow> bool" where
  bal_nil: "balanced []"
| bal_other: "k \<notin> {LPAREN, RPAREN, LBRACK, RBRACK, LBRACE, RBRACE} \<Longrightarrow> balanced ks \<Longrightarrow> balanced (k # ks)"
| bal_paren: "balanced xs \<Longrightarrow> balanced ys \<Longrightarrow> balanced (LPAREN # xs @ RPAREN # ys)"
| bal_brack: "balanced xs \<Longrightarrow> balanced ys \<Longrightarrow> balanced (LBRACK # xs @ RBRACK # ys)"
| bal_brace: "balanced xs \<Longrightarrow> balanced ys \<Longrightarrow> balanced (LBRACE # xs @ RBRACE # ys)"

lemma group_token_other:
  "k \<notin> {LPAREN, RPAREN, LBRACK, RBRACK, LBRACE, RBRACE} \<Longrightarrow> group_token k op = op"
  by (cases k) simp_all

lemma balanced_group: "balanced ks \<Longrightarrow> fold group_token ks op = op"
  by (induction ks arbitrary: op rule: balanced.induct) (auto simp: group_token_other closeGroup_def)

lemma open_loop_fold:
  "open_loop op lx = (let op' = fold group_token (map tkK (lex_all lx)) op
     in if op' = [] then None else Some (last op'))"
proof (induction op lx rule: open_loop.induct)
  case (1 op lx)
  obtain tok lx1 where st: "lx_next lx = (tok, lx1)" by fastforce
  then show ?case using "1.IH" [OF st [symmetric] refl]
    by (simp add: open_loop.simps [of op lx] lex_all_step [OF st] Let_def)
qed

text \<open>
  OpenGroup answers the closer of the innermost group still open at the end of the text:
  when the tokens after an opening bracket are balanced it is that bracket's closer, whatever
  comes before, and when all tokens are balanced there is none.
\<close>

theorem open_group_innermost:
  assumes "map tkK (lex_all (NewLexer [] src)) = pre @ mid @ [EOF]" and "balanced mid"
    and "pre = [] \<or> opener (last pre) \<noteq> None"
  shows "OpenGroup src = (if pre = [] then None else opener (last pre))"
proof (cases "pre = []")
  case True
  with assms(1,2) show ?thesis by (simp add: OpenGroup_def open_loop_fold balanced_group)
next
  case False
  then obtain ks k where pre: "pre = ks @ [k]" by (metis rev_exhaust)
  with assms(3) have "opener k \<noteq> None" by simp
  then have "group_token k op = op @ [the (opener k)]" for op
    by (auto simp: opener_def split: if_splits)
  with assms(1,2) pre \<open>opener k \<noteq> None\<close> show ?thesis
    by (simp add: OpenGroup_def open_loop_fold balanced_group)
qed

theorem open_group_innermost_witness:
  "OpenGroup ''f(a, [1])'' = None \<and> OpenGroup ''f(a, {b: (1), '' = Some CHR ''}''"
proof -
  have l1: "map tkK (lex_all (NewLexer [] ''f(a, [1])''))
      = [] @ [IDENT, LPAREN, IDENT, COMMA, LBRACK, NUMBER, RBRACK, RPAREN, AUTO_SEMI] @ [EOF]"
    by code_simp
  have l2: "map tkK (lex_all (NewLexer [] ''f(a, {b: (1), ''))
      = [IDENT, LPAREN, IDENT, COMMA, LBRACE] @ [IDENT, COLON, LPAREN, NUMBER, RPAREN, COMMA] @ [EOF]"
    by code_simp
  have num: "balanced [NUMBER]" and semi: "balanced [AUTO_SEMI]" and comma: "balanced [COMMA]"
    by (simp_all add: bal_other bal_nil)
  have "balanced [LBRACK, NUMBER, RBRACK]" using bal_brack [OF num bal_nil] by simp
  then have "balanced [IDENT, COMMA, LBRACK, NUMBER, RBRACK]" by (simp add: bal_other)
  from bal_paren [OF this semi]
  have b1: "balanced [IDENT, LPAREN, IDENT, COMMA, LBRACK, NUMBER, RBRACK, RPAREN, AUTO_SEMI]"
    by (simp add: bal_other)
  from bal_paren [OF num comma]
  have b2: "balanced [IDENT, COLON, LPAREN, NUMBER, RPAREN, COMMA]" by (simp add: bal_other)
  from open_group_innermost [OF l1 b1] open_group_innermost [OF l2 b2] show ?thesis
    by (simp add: opener_def)
qed

end
