(* ===== verification/RtsParserProps.thy ===== *)
theory RtsParserProps
  imports RtsParser RtsGroup
begin

text \<open>
  What the RestermScript parser guarantees. The tokens left to a parser are a list (\<open>toks\<close>), and
  the contract of every method is one judgement \<open>pspec\<close>: on success a prefix of that list is
  consumed (never a module keyword, an illegal token or the end of file) and the active control
  targets are the ones before; and with a bound above the number of tokens left the method never
  runs out of it. The locales \<open>expr_level\<close> and \<open>stmt_level\<close> state what a method needs of the
  expression and statement parser it calls back into.
\<close>

section \<open>The tokens left\<close>

definition toks :: "Parser \<Rightarrow> Tok list" where
  "toks p = takeWhile (\<lambda>t. tkK t \<noteq> EOF) (p_cur p # p_peek p # p_ahead p @ lex_all (p_lx p))"

lemma toks_unfold:
  "toks p = (if cur_kind p = EOF then []
             else p_cur p # takeWhile (\<lambda>t. tkK t \<noteq> EOF) (p_peek p # p_ahead p @ lex_all (p_lx p)))"
  by (simp add: toks_def)

lemma takeWhile_lex_all:
  "lx_next l = (t, l') \<Longrightarrow>
     takeWhile (\<lambda>t. tkK t \<noteq> EOF) (lex_all l) = takeWhile (\<lambda>t. tkK t \<noteq> EOF) (t # lex_all l')"
  by (simp add: lex_all_step)

lemma takeWhile_append_cong:
  "takeWhile P ys = takeWhile P zs \<Longrightarrow> takeWhile P (xs @ ys) = takeWhile P (xs @ zs)"
  by (induction xs) auto

lemma toks_next: "cur_kind p \<noteq> EOF \<Longrightarrow> toks p = p_cur p # toks (p_next p)"
proof -
  assume c: "cur_kind p \<noteq> EOF"
  obtain t l' where st: "lx_next (p_lx p) = (t, l')" by fastforce
  show ?thesis
  proof (cases "p_ahead p")
    case Nil
    with c st takeWhile_lex_all [OF st] show ?thesis
      by (simp add: toks_def p_next_def)
  next
    case Cons
    with c show ?thesis by (simp add: toks_def p_next_def)
  qed
qed

lemma p_next_controls [simp]: "p_controls (p_next p) = p_controls p"
  by (simp add: p_next_def split: list.split prod.split)

lemma toks_fill: "toks (fill_ahead k p) = toks p \<and> p_controls (fill_ahead k p) = p_controls p
    \<and> p_cur (fill_ahead k p) = p_cur p \<and> p_peek (fill_ahead k p) = p_peek p"
proof (induction k p rule: fill_ahead.induct)
  case (2 k p)
  obtain t l' where st: "lx_next (p_lx p) = (t, l')" by fastforce
  from takeWhile_append_cong [OF takeWhile_lex_all [OF st], of "p_cur p # p_peek p # p_ahead p"]
  have "toks (p\<lparr>p_ahead := p_ahead p @ [t], p_lx := l'\<rparr>) = toks p" by (simp add: toks_def)
  with "2.IH" [OF st [symmetric] refl] st show ?case by simp
qed simp

lemma toks_peekN: "peekN n p = (t, p') \<Longrightarrow>
    toks p' = toks p \<and> p_controls p' = p_controls p \<and> p_cur p' = p_cur p \<and> p_peek p' = p_peek p"
  using toks_fill [of "n - 1 - length (p_ahead p)" p]
  by (auto simp: peekN_def Let_def split: if_splits)

lemma toks_range_start: "isForRangeStart p = (b, p') \<Longrightarrow>
    toks p' = toks p \<and> p_controls p' = p_controls p \<and> p_cur p' = p_cur p \<and> p_peek p' = p_peek p"
  by (auto simp: isForRangeStart_def Let_def dest!: toks_peekN split: if_splits prod.splits)

lemma toks_controls [simp]: "toks (p\<lparr>p_controls := c\<rparr>) = toks p"
  by (simp add: toks_def)

section \<open>The contract of a parsing method\<close>

definition harmless :: "Tok \<Rightarrow> bool" where
  "harmless t \<longleftrightarrow> tkK t \<noteq> KW_MODULE \<and> tkK t \<noteq> ILLEGAL \<and> tkK t \<noteq> EOF"

definition reads :: "Parser \<Rightarrow> Parser \<Rightarrow> bool" where
  "reads p p' \<longleftrightarrow> (\<exists>ts. toks p = ts @ toks p' \<and> list_all harmless ts) \<and> p_controls p' = p_controls p"

definition left :: "Parser \<Rightarrow> nat" where
  "left p = length (toks p)"

lemma reads_refl [simp]: "reads p p"
  by (simp add: reads_def)

lemma reads_trans: "reads p p1 \<Longrightarrow> reads p1 p2 \<Longrightarrow> reads p p2"
  unfolding reads_def by (metis append_assoc list_all_append)

lemma reads_left: "reads p p' \<Longrightarrow> left p' \<le> left p"
  by (auto simp: reads_def left_def)

lemma reads_controls: "reads p p' \<Longrightarrow> p_controls p' = p_controls p"
  by (simp add: reads_def)

lemma reads_next: "harmless (p_cur p) \<Longrightarrow> reads p (p_next p)"
  using toks_next [of p] by (auto simp: reads_def harmless_def intro!: exI [of _ "[p_cur p]"])

lemma left_next: "cur_kind p \<noteq> EOF \<Longrightarrow> left p = Suc (left (p_next p))"
  using toks_next [of p] by (simp add: left_def)

text \<open>
  \<open>pspec b p m Q\<close>: \<open>m\<close> is the outcome of a method started in \<open>p\<close>; if \<open>b\<close> holds it is not for lack
  of fuel; on success it has read on from \<open>p\<close> and the result satisfies \<open>Q\<close>.
\<close>

definition pspec :: "bool \<Rightarrow> Parser \<Rightarrow> 'a pres \<Rightarrow> ('a \<Rightarrow> Parser \<Rightarrow> bool) \<Rightarrow> bool" where
  "pspec b p m Q \<longleftrightarrow>
     (case m of Inl e \<Rightarrow> b \<longrightarrow> e \<noteq> NoFuel | Inr (x, p') \<Rightarrow> reads p p' \<and> Q x p')"

lemma pspec_ok: "Q x p' \<Longrightarrow> reads p p' \<Longrightarrow> pspec b p (Inr (x, p')) Q"
  by (simp add: pspec_def)

lemma pspec_fail [simp]: "pspec b p (p_fail pos msg) Q" "pspec b p (failCur msg p') Q"
  by (simp_all add: pspec_def p_fail_def failCur_def Let_def)

lemma pspec_fuel: "\<not> b \<Longrightarrow> pspec b p (Inl NoFuel) Q"
  by (simp add: pspec_def)

lemma pspec_weaken:
  "pspec b' p m Q' \<Longrightarrow> (b \<Longrightarrow> b') \<Longrightarrow> (\<And>x p'. reads p p' \<Longrightarrow> left p' \<le> left p \<Longrightarrow> Q' x p' \<Longrightarrow> Q x p') \<Longrightarrow>
     pspec b p m Q"
  by (auto simp: pspec_def dest: reads_left split: sum.splits)

lemma pspec_step:
  "reads p p1 \<Longrightarrow> pspec b p1 m Q \<Longrightarrow> pspec b p m Q"
  by (auto simp: pspec_def intro: reads_trans split: sum.splits)

lemma pspec_bind:
  assumes m: "pspec b' p m Q" and b: "b \<Longrightarrow> b'"
    and f: "\<And>x p1. reads p p1 \<Longrightarrow> left p1 \<le> left p \<Longrightarrow> p_controls p1 = p_controls p \<Longrightarrow> Q x p1 \<Longrightarrow>
      pspec b p1 (f x p1) R"
  shows "pspec b p (pbind m f) R"
proof (cases m)
  case (Inl e)
  with m b show ?thesis by (simp add: pspec_def pbind_def)
next
  case (Inr r)
  then obtain x p1 where r: "m = Inr (x, p1)" by (cases r) simp
  with m have q: "reads p p1" "Q x p1" by (simp_all add: pspec_def)
  from f [OF q(1) reads_left [OF q(1)] reads_controls [OF q(1)] q(2)] q(1) r show ?thesis
    by (simp add: pbind_def pspec_step)
qed

lemma pspec_if:
  "(c \<Longrightarrow> pspec b p m Q) \<Longrightarrow> (\<not> c \<Longrightarrow> pspec b p m' Q) \<Longrightarrow> pspec b p (if c then m else m') Q"
  by simp

lemma pspec_result: "pspec b p m Q \<Longrightarrow> m = Inr (x, p') \<Longrightarrow> reads p p' \<and> Q x p'"
  by (simp add: pspec_def)

lemma pspec_no_fuel: "pspec b p m Q \<Longrightarrow> b \<Longrightarrow> m \<noteq> Inl NoFuel"
  by (auto simp: pspec_def)

lemma pspec_advance:
  "harmless (p_cur p) \<Longrightarrow> (reads p (p_next p) \<Longrightarrow> left p = Suc (left (p_next p)) \<Longrightarrow> pspec b (p_next p) m Q) \<Longrightarrow>
     pspec b p m Q"
  using reads_next [of p] left_next [of p] by (auto simp: harmless_def intro: pspec_step)

section \<open>Token access\<close>

lemma spec_expect:
  "k \<notin> {EOF, ILLEGAL, KW_MODULE} \<Longrightarrow>
     pspec True p (expect k p) (\<lambda>t p'. t = p_cur p \<and> tkK t = k \<and> left p = Suc (left p'))"
  using reads_next [of p] left_next [of p]
  by (auto simp: expect_def pspec_def harmless_def p_fail_def failCur_def Let_def)

lemma spec_expectSemi: "pspec True p (expectSemi p) (\<lambda>_ p'. left p = Suc (left p'))"
  using reads_next [of p] left_next [of p]
  by (auto simp: expectSemi_def isSemi_def pspec_def harmless_def p_fail_def failCur_def Let_def)

lemma spec_skipSemi:
  "pspec (left p < n) p (skipSemi n p) (\<lambda>_ p'. \<not> isSemi (cur_kind p'))"
proof (induction n arbitrary: p)
  case (Suc n)
  show ?case
  proof (cases "isSemi (cur_kind p)")
    case True
    then have h: "harmless (p_cur p)" by (auto simp: isSemi_def harmless_def)
    show ?thesis using True
      by (auto intro!: pspec_advance [OF h] pspec_weaken [OF Suc.IH])
  qed (simp add: pspec_def)
qed (auto simp: pspec_def)

lemma bind_expect:
  assumes "k \<notin> {EOF, ILLEGAL, KW_MODULE}"
    and "\<And>t p1. reads p p1 \<Longrightarrow> left p = Suc (left p1) \<Longrightarrow> p_controls p1 = p_controls p \<Longrightarrow>
      t = p_cur p \<Longrightarrow> tkK t = k \<Longrightarrow> pspec b p1 (f t p1) R"
  shows "pspec b p (pbind (expect k p) f) R"
  by (rule pspec_bind [OF spec_expect [OF assms(1)]]) (auto intro: assms(2))

lemma bind_expectSemi:
  assumes "\<And>x p1. reads p p1 \<Longrightarrow> left p = Suc (left p1) \<Longrightarrow> p_controls p1 = p_controls p \<Longrightarrow>
      pspec b p1 (f x p1) R"
  shows "pspec b p (pbind (expectSemi p) f) R"
  by (rule pspec_bind [OF spec_expectSemi]) (auto intro: assms)

lemma pspec_Inr: "Q x p \<Longrightarrow> pspec b p (Inr (x, p)) Q"
  by (simp add: pspec_def)

lemma pspec_Inr_next:
  "harmless (p_cur p) \<Longrightarrow> (left p = Suc (left (p_next p)) \<Longrightarrow> Q x (p_next p)) \<Longrightarrow>
     pspec b p (Inr (x, p_next p)) Q"
  using pspec_advance [of p b "Inr (x, p_next p)" Q] by (simp add: pspec_def)

lemma pspec_zero: "pspec (c < (0::nat)) p (Inl NoFuel) Q" "pspec (d \<and> c < (0::nat)) p (Inl NoFuel) Q"
  by (simp_all add: pspec_def)

text \<open>Calling a method whose contract is known, here and one token further on.\<close>

lemma pspec_call_next:
  assumes "\<And>p. pspec (B p) p (m p) (Q p)" and h: "harmless (p_cur p)"
    and "b \<Longrightarrow> left p = Suc (left (p_next p)) \<Longrightarrow> B (p_next p)"
    and "\<And>x p'. left p = Suc (left (p_next p)) \<Longrightarrow> left p' \<le> left (p_next p) \<Longrightarrow> Q (p_next p) x p' \<Longrightarrow> R x p'"
  shows "pspec b p (m (p_next p)) R"
  by (rule pspec_advance [OF h]) (rule pspec_weaken [OF assms(1)]; simp add: assms(3,4))

lemma pspec_bind_next:
  assumes "\<And>p. pspec (B p) p (m p) (Q p)" and h: "harmless (p_cur p)"
    and "b \<Longrightarrow> left p = Suc (left (p_next p)) \<Longrightarrow> B (p_next p)"
    and "\<And>x p1. left p = Suc (left (p_next p)) \<Longrightarrow> left p1 \<le> left (p_next p) \<Longrightarrow>
      p_controls p1 = p_controls p \<Longrightarrow> Q (p_next p) x p1 \<Longrightarrow> pspec b p1 (f x p1) R"
  shows "pspec b p (pbind (m (p_next p)) f) R"
  by (rule pspec_advance [OF h]) (rule pspec_bind [OF assms(1)]; simp add: assms(3,4))

lemmas bind_skip = pspec_bind [OF spec_skipSemi]
lemmas bind_skip_next = pspec_bind_next [OF spec_skipSemi]

lemmas pspec_intros = pspec_if bind_expect bind_expectSemi bind_skip bind_skip_next
  pspec_Inr pspec_Inr_next

section \<open>Expressions\<close>

text \<open>
  The interface of the expression parser towards the methods that call it back: it reads at least
  one token, and it returns when fewer than \<open>n\<close> tokens are left.
\<close>

locale expr_level =
  fixes pe :: expr_parser and n :: nat
  assumes pe: "pspec (left p < n) p (pe p) (\<lambda>_ p'. left p' < left p)"
begin

lemmas bind_pe = pspec_bind [OF pe]
lemmas bind_pe_next = pspec_bind_next [OF pe]

lemma spec_args_loop:
  "pspec (left p < n \<and> left p < m) p (args_loop m pe out p) (\<lambda>_ p'. left p' < left p)"
proof (induction m arbitrary: out p)
  case (Suc m)
  show ?case
    unfolding args_loop.simps Let_def
    by (intro bind_pe pspec_intros pspec_call_next [OF Suc.IH]) (auto simp: harmless_def)
qed (simp add: pspec_def)

lemma spec_parseArgs:
  "pspec (left p < n \<and> left p < m) p (parseArgs m pe p) (\<lambda>_ p'. True)"
  unfolding parseArgs_def
  by (intro pspec_intros pspec_weaken [OF spec_args_loop]) auto

lemma spec_list_loop:
  "pspec (left p < n \<and> left p < m) p (list_loop m pe out p) (\<lambda>_ p'. left p' < left p)"
proof (induction m arbitrary: out p)
  case (Suc m)
  show ?case
    unfolding list_loop.simps Let_def
    by (intro bind_pe pspec_intros pspec_weaken [OF Suc.IH]) (auto simp: harmless_def)
qed (simp add: pspec_def)

lemma spec_parseList:
  "pspec (left p \<le> n \<and> left p \<le> m) p (parseList m pe p) (\<lambda>_ p'. left p' < left p)"
  unfolding parseList_def Let_def
  by (intro pspec_intros pspec_bind [OF spec_list_loop]) (auto simp: harmless_def)

lemma spec_dict_key:
  "pspec True p (parse_dict_key p) (\<lambda>_ p'. left p' < left p)"
  unfolding parse_dict_key_def Let_def
  by (intro pspec_intros pspec_fail) (auto simp: harmless_def)

lemma spec_dict_loop:
  "pspec (left p < n \<and> left p < m) p (dict_loop m pe out p) (\<lambda>_ p'. left p' < left p)"
proof (induction m arbitrary: out p)
  case (Suc m)
  show ?case
    unfolding dict_loop.simps Let_def case_prod_beta
    by (intro pspec_bind [OF spec_dict_key] bind_pe pspec_intros pspec_weaken [OF Suc.IH])
      (auto simp: harmless_def)
qed (simp add: pspec_def)

lemma spec_parseDict:
  "pspec (left p \<le> n \<and> left p \<le> m) p (parseDict m pe p) (\<lambda>_ p'. left p' < left p)"
  unfolding parseDict_def Let_def
  by (intro pspec_intros pspec_bind [OF spec_dict_loop]) (auto simp: harmless_def)

lemma spec_parsePrimary:
  "pspec (left p \<le> n \<and> left p \<le> m) p (parsePrimary m pe p) (\<lambda>_ p'. left p' < left p)"
proof -
  have number: "pspec (left p \<le> n \<and> left p \<le> m) p
      (case parse_decimal (cur_lit p) of None \<Rightarrow> p_fail (cur_pos p) ''invalid number''
       | Some x \<Rightarrow> Inr (Literal (cur_pos p) (LitNum x), p_next p)) (\<lambda>_ p'. left p' < left p)"
    if "cur_kind p = NUMBER"
    using that by (auto intro!: pspec_Inr_next simp: harmless_def split: option.split)
  have paren: "pspec (left p \<le> n \<and> left p \<le> m) p
      (pbind (pe (p_next p)) (\<lambda>ex p1. pbind (expect RPAREN p1) (\<lambda>_ p2. Inr (ex, p2))))
      (\<lambda>_ p'. left p' < left p)" if "cur_kind p = LPAREN"
    using that by (intro bind_pe_next pspec_intros) (auto simp: harmless_def)
  show ?thesis
    unfolding parsePrimary_def Let_def
    using number paren spec_parseList [of p m] spec_parseDict [of p m]
    by (cases "cur_kind p") (simp_all add: pspec_Inr_next harmless_def)
qed

lemma spec_postfix_loop:
  "pspec (left p \<le> n \<and> left p < m) p (postfix_loop m pe l p) (\<lambda>_ p'. True)"
proof (induction m arbitrary: l p)
  case (Suc m)
  show ?case
    unfolding postfix_loop.simps Let_def
    by (intro pspec_if pspec_bind_next [OF spec_parseArgs] bind_pe_next pspec_intros
        pspec_weaken [OF Suc.IH] pspec_advance [where m = "if isKeyword (cur_kind (p_next p)) then _ else _"] pspec_fail)
      (auto simp: harmless_def)
qed (simp add: pspec_def)

lemma spec_parsePostfix:
  "pspec (left p \<le> n \<and> left p \<le> m) p (parsePostfix m pe p) (\<lambda>_ p'. left p' < left p)"
  unfolding parsePostfix_def
  by (intro pspec_bind [OF spec_parsePrimary] pspec_weaken [OF spec_postfix_loop]) auto

lemma spec_parseUnary:
  "pspec (left p \<le> n \<and> left p \<le> m \<and> left p < d) p (parseUnary d m pe p) (\<lambda>_ p'. left p' < left p)"
proof (induction d arbitrary: p)
  case (Suc d)
  have op: "unaryOp (cur_kind p) = Some op \<Longrightarrow> harmless (p_cur p)" for op
    by (cases "cur_kind p") (auto simp: harmless_def)
  show ?case
  proof (cases "unaryOp (cur_kind p)")
    case None
    then show ?thesis
      unfolding parseUnary.simps Let_def
      by (auto intro!: pspec_if pspec_bind_next [OF Suc.IH] pspec_Inr pspec_weaken [OF spec_parsePostfix]
          simp: harmless_def)
  next
    case (Some op')
    then show ?thesis
      unfolding parseUnary.simps Let_def
      by (auto intro!: pspec_if pspec_bind_next [OF Suc.IH] pspec_Inr op simp: harmless_def)
  qed
qed (simp add: pspec_def)

end

text \<open>
  One level of the precedence ladder: a binary method over the next tighter level. \<open>op_table\<close>
  says which kinds are operators of the level.
\<close>

definition op_table :: "(Kind \<Rightarrow> BinOp option) \<Rightarrow> bool" where
  "op_table opOf \<longleftrightarrow> (\<forall>k op. opOf k = Some op \<longrightarrow> k \<notin> {EOF, ILLEGAL, KW_MODULE})"

lemma spec_binary_loop:
  assumes nxt: "\<And>p. pspec (left p < m) p (nxt p) (\<lambda>_ p'. left p' < left p)"
    and ops: "op_table opOf"
  shows "pspec (left p < k \<and> left p < m) p (binary_loop k nxt opOf l p) (\<lambda>_ p'. True)"
proof (induction k arbitrary: l p)
  case (Suc k)
  have "opOf (cur_kind p) = Some op \<Longrightarrow> harmless (p_cur p)" for op
    using ops by (auto simp: harmless_def op_table_def)
  then show ?case
    by (auto intro!: pspec_bind_next [OF nxt] pspec_Inr pspec_weaken [OF Suc.IH] simp: Let_def split: option.split)
qed (simp add: pspec_def)

lemma spec_parseBinary:
  assumes nxt: "\<And>p. pspec (left p < m) p (nxt p) (\<lambda>_ p'. left p' < left p)"
    and ops: "op_table opOf"
  shows "pspec (left p < m) p (parseBinary m nxt opOf p) (\<lambda>_ p'. left p' < left p)"
  unfolding parseBinary_def
  by (intro pspec_bind [OF nxt] pspec_weaken [OF spec_binary_loop [OF nxt ops]]) auto

lemma op_tables:
  "op_table coalesceOp" "op_table orOp" "op_table andOp" "op_table eqOp" "op_table cmpOp"
  "op_table addOp" "op_table mulOp"
  unfolding op_table_def by auto

context expr_level
begin

lemma spec_ladder_unary:
  "pspec (left p < Suc n) p (parseUnary (Suc n) (Suc n) pe p) (\<lambda>_ p'. left p' < left p)"
  by (rule pspec_weaken [OF spec_parseUnary]) auto

lemmas spec_ladder_mul = spec_parseBinary [OF spec_ladder_unary op_tables(7), folded parseMul_def]
lemmas spec_ladder_add = spec_parseBinary [OF spec_ladder_mul op_tables(6), folded parseAdd_def]
lemmas spec_ladder_cmp = spec_parseBinary [OF spec_ladder_add op_tables(5), folded parseCmp_def]
lemmas spec_ladder_eq = spec_parseBinary [OF spec_ladder_cmp op_tables(4), folded parseEq_def]
lemmas spec_ladder_and = spec_parseBinary [OF spec_ladder_eq op_tables(3), folded parseAnd_def]
lemmas spec_ladder_or = spec_parseBinary [OF spec_ladder_and op_tables(2), folded parseOr_def]
lemmas spec_ladder = spec_parseBinary [OF spec_ladder_or op_tables(1), folded parseCoalesce_def]

lemma spec_parseTernary:
  "pspec (left p < Suc n) p (parseTernary (Suc n) pe p) (\<lambda>_ p'. left p' < left p)"
  unfolding parseTernary_def Let_def
  by (intro pspec_bind [OF spec_ladder] bind_pe_next bind_pe pspec_intros) (auto simp: harmless_def)

end

text \<open>The expression parser satisfies its own interface, at every nesting bound.\<close>

lemma spec_parseExprN: "pspec (left p < n) p (parseExprN n p) (\<lambda>_ p'. left p' < left p)"
proof (induction n arbitrary: p)
  case (Suc n)
  have "expr_level (parseExprN n) n" by (rule expr_level.intro) (rule Suc.IH)
  then show ?case using expr_level.spec_parseTernary [of "parseExprN n" n p] by simp
qed (simp add: pspec_def)

interpretation expr: expr_level "parseExprN n" n for n
  by unfold_locales (rule spec_parseExprN)

section \<open>Well-formed syntax trees\<close>

text \<open>
  What the parser promises the evaluator, given the control targets around a statement: labels are
  fresh, a break or continue names a target that encloses it, a function body starts with none,
  parameters and range variables are distinct, a switch has at most one default clause, the
  clauses of a for statement are the simple statements the evaluator expects.
\<close>

definition new_label :: "controlTarget list \<Rightarrow> string \<Rightarrow> bool" where
  "new_label cs l \<longleftrightarrow> l = [] \<or> l \<noteq> ''_'' \<and> l \<notin> ctLabel ` set cs"

definition add_target :: "controlKind \<Rightarrow> string \<Rightarrow> Pos \<Rightarrow> controlTarget list \<Rightarrow> controlTarget list" where
  "add_target k l p cs = cs @ [\<lparr>ctKind = k, ctLabel = l, ctPos = p\<rparr>]"

fun init_ok :: "Stmt \<Rightarrow> bool" where
  "init_ok (LetStmt _ e c _ _) = (\<not> e \<and> \<not> c)"
| "init_ok (AssignStmt _ _ _) = True"
| "init_ok (ExprStmt _ _) = True"
| "init_ok _ = False"

fun post_ok :: "Stmt \<Rightarrow> bool" where
  "post_ok (AssignStmt _ _ _) = True"
| "post_ok (ExprStmt _ _) = True"
| "post_ok _ = False"

definition range_ok :: "ForRange \<Rightarrow> bool" where
  "range_ok r \<longleftrightarrow> rVal r = [] \<or> rKey r \<noteq> rVal r \<or> rKey r = ''_''"

fun wf_stmt :: "controlTarget list \<Rightarrow> Stmt \<Rightarrow> bool"
  and wf_block :: "controlTarget list \<Rightarrow> Block \<Rightarrow> bool"
where
  "wf_stmt cs (FnDef _ _ _ ps b) = (distinct ps \<and> wf_block [] b)"
| "wf_stmt cs (IfStmt _ _ b eifs els) =
     (wf_block cs b \<and> (\<forall>eb \<in> set eifs. wf_block cs (snd eb)) \<and> (\<forall>b \<in> set_option els. wf_block cs b))"
| "wf_stmt cs (SwitchStmt _ l lp _ cls) =
     (new_label cs l \<and> length (filter (\<lambda>c. fst (snd c) = []) cls) \<le> 1
      \<and> (\<forall>c \<in> set cls. wf_block (add_target controlSwitch l lp cs) (snd (snd c))))"
| "wf_stmt cs (ForStmt _ l lp i _ p r b) =
     (new_label cs l \<and> pred_option init_ok i \<and> pred_option post_ok p \<and> pred_option range_ok r
      \<and> wf_block (add_target controlLoop l lp cs) b)"
| "wf_stmt cs (BreakStmt _ l) = (if l = [] then cs \<noteq> [] else l \<in> ctLabel ` set cs)"
| "wf_stmt cs (ContinueStmt _ l) =
     (if l = [] then inLoop cs else (\<exists>c \<in> set cs. ctLabel c = l \<and> ctKind c = controlLoop))"
| "wf_stmt cs _ = True"
| "wf_block cs (Block _ sts) = (\<forall>st \<in> set sts. wf_stmt cs st)"

section \<open>Statements\<close>

lemma left_controls [simp]: "left (p\<lparr>p_controls := c\<rparr>) = left p"
  by (simp add: left_def)

lemma left_scope [simp]: "left (pushControl k lb p) = left p" "left (popControl p) = left p"
  by (simp_all add: pushControl_def popControl_def)

lemma controls_scope [simp]:
  "p_controls (pushControl k lb p) = add_target k (lbName lb) (lbPos lb) (p_controls p)"
  "p_controls (popControl p) = butlast (p_controls p)"
  by (simp_all add: pushControl_def popControl_def add_target_def)

text \<open>A method run under one more control target, or under none.\<close>

lemma pspec_bind_push:
  assumes m: "pspec b' (pushControl k lb p) m Q" and b: "b \<Longrightarrow> b'"
    and f: "\<And>x p1. left (popControl p1) \<le> left p \<Longrightarrow> p_controls (popControl p1) = p_controls p \<Longrightarrow> Q x p1 \<Longrightarrow>
      pspec b (popControl p1) (f x p1) R"
  shows "pspec b p (pbind m f) R"
proof (cases m)
  case (Inl e)
  with m b show ?thesis by (simp add: pspec_def pbind_def)
next
  case (Inr r)
  then obtain x p1 where r: "m = Inr (x, p1)" by (cases r) simp
  with m have q: "reads (pushControl k lb p) p1" "Q x p1" by (simp_all add: pspec_def)
  then have rd: "reads p (popControl p1)"
    by (auto simp: reads_def pushControl_def popControl_def)
  from f [OF reads_left [OF rd] reads_controls [OF rd] q(2)] r show ?thesis
    by (simp add: pbind_def pspec_step [OF rd])
qed

lemma pspec_bind_fresh:
  assumes m: "pspec b' (p\<lparr>p_controls := []\<rparr>) m Q" and b: "b \<Longrightarrow> b'"
    and f: "\<And>x p1. left p1 \<le> left p \<Longrightarrow> Q x p1 \<Longrightarrow>
      pspec b (p1\<lparr>p_controls := p_controls p\<rparr>) (f x p1) R"
  shows "pspec b p (pbind m f) R"
proof (cases m)
  case (Inl e)
  with m b show ?thesis by (simp add: pspec_def pbind_def)
next
  case (Inr r)
  then obtain x p1 where r: "m = Inr (x, p1)" by (cases r) simp
  with m have q: "reads (p\<lparr>p_controls := []\<rparr>) p1" "Q x p1" by (simp_all add: pspec_def)
  then have rd: "reads p (p1\<lparr>p_controls := p_controls p\<rparr>)"
    by (auto simp: reads_def)
  with reads_left [OF rd] have "left p1 \<le> left p" by simp
  from f [OF this q(2)] r show ?thesis
    by (simp add: pbind_def pspec_step [OF rd])
qed

lemma findControl_some: "findControl cs l = Some c \<Longrightarrow> c \<in> set cs \<and> ctLabel c = l"
proof -
  assume "findControl cs l = Some c"
  then obtain i where "i < length (rev cs)" "c = rev cs ! i" "ctLabel (rev cs ! i) = l"
    by (auto simp: findControl_def find_Some_iff)
  then show ?thesis using nth_mem [of i "rev cs"] by simp
qed

lemma findControl_label: "findControl cs l = Some c \<Longrightarrow> l \<in> ctLabel ` set cs"
  using findControl_some by fastforce

lemma findControl_loop:
  "findControl cs l = Some c \<Longrightarrow> ctKind c = controlLoop \<Longrightarrow>
     \<exists>c \<in> set cs. ctLabel c = l \<and> ctKind c = controlLoop"
  using findControl_some by blast

lemma findControl_none: "findControl cs l = None \<Longrightarrow> l \<notin> ctLabel ` set cs"
  by (auto simp: findControl_def find_None_iff)

lemma spec_parseBreak:
  "pspec True p (parseBreak p) (\<lambda>st p'. left p' < left p \<and> wf_stmt (p_controls p) st)"
  unfolding parseBreak_def labelRef_def
  by (intro pspec_intros)
    (auto simp: harmless_def intro!: pspec_Inr pspec_Inr_next dest: findControl_label split: if_splits)

lemma spec_parseContinue:
  "pspec True p (parseContinue p) (\<lambda>st p'. left p' < left p \<and> wf_stmt (p_controls p) st)"
  unfolding parseContinue_def labelRef_def
  by (intro pspec_intros)
    (auto simp: harmless_def inLoop_def list_ex_iff intro!: pspec_Inr pspec_Inr_next
      dest: findControl_loop split: if_splits option.split)

context expr_level
begin

lemma spec_parseLet:
  "pspec (left p \<le> n) p (parseLet pe e c p)
     (\<lambda>st p'. left p' < left p \<and> wf_stmt (p_controls p) st \<and> (init_ok st \<longleftrightarrow> \<not> e \<and> \<not> c))"
  unfolding parseLet_def by (intro bind_pe pspec_intros) auto

lemma spec_parseAssign:
  "pspec (left p \<le> n) p (parseAssign pe p)
     (\<lambda>st p'. left p' < left p \<and> wf_stmt (p_controls p) st \<and> init_ok st \<and> post_ok st)"
  unfolding parseAssign_def by (intro bind_pe pspec_intros) auto

lemma spec_parseReturn:
  "pspec (left p \<le> n) p (parseReturn pe p) (\<lambda>st p'. left p' < left p \<and> wf_stmt (p_controls p) st)"
  unfolding parseReturn_def by (intro bind_pe pspec_intros) auto

lemma spec_parseExprStmt:
  "pspec (left p < n) p (parseExprStmt pe p)
     (\<lambda>st p'. left p' < left p \<and> wf_stmt (p_controls p) st \<and> init_ok st \<and> post_ok st)"
  unfolding parseExprStmt_def Let_def by (intro bind_pe pspec_intros) auto

end

definition clauses_ok :: "controlTarget list \<Rightarrow> nat \<Rightarrow> CaseClause list \<Rightarrow> bool" where
  "clauses_ok cs k out \<longleftrightarrow> length (filter (\<lambda>c. fst (snd c) = []) out) \<le> k
     \<and> (\<forall>c \<in> set out. wf_block cs (snd (snd c)))"

text \<open>The interface of the statement parser towards the methods that call it back.\<close>

locale stmt_level = expr_level pe "Suc n" for pe :: expr_parser and n :: nat +
  fixes ps :: stmt_parser
  assumes ps: "pspec (left p < n) p (ps p) (\<lambda>st p'. left p' < left p \<and> wf_stmt (p_controls p) st)"
begin

lemmas bind_ps = pspec_bind [OF ps]

lemma spec_block_loop:
  "\<forall>st \<in> set out. wf_stmt (p_controls p) st \<Longrightarrow>
     pspec (left p < n \<and> left p < m) p (block_loop m ps out p)
       (\<lambda>sts p'. \<forall>st \<in> set sts. wf_stmt (p_controls p) st)"
proof (induction m arbitrary: out p)
  case (Suc m)
  show ?case
  proof (cases "isSemi (cur_kind p)")
    case True
    then have h: "harmless (p_cur p)" by (auto simp: isSemi_def harmless_def)
    have "pspec (left p < n \<and> left p < Suc m) p (block_loop m ps out (p_next p))
        (\<lambda>sts p'. \<forall>st \<in> set sts. wf_stmt (p_controls p) st)"
      by (rule pspec_advance [OF h], rule pspec_weaken [OF Suc.IH]) (use Suc.prems in auto)
    with True Suc.prems show ?thesis
      by (auto simp: isSemi_def pspec_Inr)
  next
    case False
    then show ?thesis using Suc.prems
      unfolding block_loop.simps
      by (intro pspec_if bind_ps pspec_intros pspec_fail pspec_weaken [OF Suc.IH]) (auto simp: isSemi_def)
  qed
qed (simp add: pspec_def)

lemma spec_parseBlock:
  "pspec (left p \<le> n \<and> left p \<le> m) p (parseBlock m ps p)
     (\<lambda>b p'. left p' < left p \<and> wf_block (p_controls p) b)"
  unfolding parseBlock_def
  by (intro pspec_intros pspec_bind [OF spec_block_loop]) auto

lemma spec_params_loop:
  "distinct out \<Longrightarrow>
     pspec (left p < m) p (params_loop m out p) (\<lambda>ns p'. left p' < left p \<and> distinct ns)"
proof (induction m arbitrary: out p)
  case (Suc m)
  then show ?case
    unfolding params_loop.simps Let_def
    apply (intro pspec_if pspec_fail)
      apply (rule pspec_advance, simp add: harmless_def, rule pspec_Inr_next; simp add: harmless_def)
     apply (rule pspec_advance, simp add: harmless_def, rule pspec_call_next [OF Suc.IH]; simp add: harmless_def)
    apply (rule pspec_Inr_next; simp add: harmless_def)
    done
qed (simp add: pspec_def)

lemma spec_parseParams:
  "pspec (left p < m) p (parseParams m p) (\<lambda>ns p'. distinct ns)"
  unfolding parseParams_def
  by (intro pspec_intros pspec_weaken [OF spec_params_loop]) auto

lemma spec_parseFn:
  "pspec (left p \<le> n \<and> left p \<le> m) p (parseFn m ps e p)
     (\<lambda>st p'. left p' < left p \<and> wf_stmt (p_controls p) st)"
  unfolding parseFn_def Let_def
  by (intro pspec_intros pspec_bind [OF spec_parseParams] pspec_bind_fresh [OF spec_parseBlock]) auto

lemma spec_elif_loop:
  "\<forall>eb \<in> set out. wf_block (p_controls p) (snd eb) \<Longrightarrow>
     pspec (left p \<le> n \<and> left p < m) p (elif_loop m pe ps out p)
       (\<lambda>out p'. \<forall>eb \<in> set out. wf_block (p_controls p) (snd eb))"
proof (induction m arbitrary: out p)
  case (Suc m)
  then show ?case
    unfolding elif_loop.simps
    by (intro bind_pe_next pspec_intros pspec_bind [OF spec_parseBlock] pspec_weaken [OF Suc.IH])
      (auto simp: harmless_def)
qed (simp add: pspec_def)

lemma spec_parseIf:
  "pspec (left p \<le> n \<and> left p \<le> m) p (parseIf m pe ps p)
     (\<lambda>st p'. left p' < left p \<and> wf_stmt (p_controls p) st)"
  unfolding parseIf_def
  by (intro bind_pe pspec_intros pspec_bind [OF spec_parseBlock] pspec_bind_next [OF spec_parseBlock]
      pspec_bind [OF spec_elif_loop]) (auto simp: harmless_def)

subsection \<open>Switch\<close>

lemma spec_case_exprs_loop:
  "pspec (left p \<le> n \<and> left p < m) p (case_exprs_loop m pe out p)
     (\<lambda>es p'. left p' < left p \<and> es \<noteq> [])"
proof (induction m arbitrary: out p)
  case (Suc m)
  show ?case
    unfolding case_exprs_loop.simps
    by (intro pspec_if pspec_fail bind_pe pspec_intros pspec_call_next [OF Suc.IH]) (auto simp: harmless_def)
qed (simp add: pspec_def)

lemma spec_clause_body_loop:
  "\<forall>st \<in> set out. wf_stmt (p_controls p) st \<Longrightarrow>
     pspec (left p < n \<and> left p < m) p (clause_body_loop m ps pos out p) (\<lambda>b p'. wf_block (p_controls p) b)"
proof (induction m arbitrary: out p)
  case (Suc m)
  then show ?case
    unfolding clause_body_loop.simps
    by (intro pspec_intros pspec_fail bind_ps pspec_weaken [OF Suc.IH]) (auto simp: harmless_def)
qed (simp add: pspec_def)

lemma spec_parseCase:
  "pspec (left p \<le> n \<and> left p \<le> m) p (parseCase m pe ps p)
     (\<lambda>c p'. left p' < left p \<and> fst (snd c) \<noteq> [] \<and> wf_block (p_controls p) (snd (snd c)))"
  unfolding parseCase_def
  by (intro pspec_intros pspec_bind [OF spec_case_exprs_loop] pspec_bind [OF spec_clause_body_loop]) auto

lemma spec_parseDefault:
  "pspec (left p \<le> n \<and> left p \<le> m) p (parseDefault m ps p)
     (\<lambda>c p'. left p' < left p \<and> wf_block (p_controls p) (snd (snd c)))"
  unfolding parseDefault_def
  by (intro pspec_intros pspec_bind [OF spec_clause_body_loop]) auto

lemma spec_clauses_loop:
  "clauses_ok (p_controls p) (if seen then 1 else 0) out \<Longrightarrow>
     pspec (left p \<le> n \<and> left p < m) p (clauses_loop m pe ps seen out p)
       (\<lambda>out p'. clauses_ok (p_controls p) 1 out)"
proof (induction m arbitrary: seen out p)
  case (Suc m)
  then show ?case
    unfolding clauses_loop.simps
    by (intro pspec_intros pspec_fail pspec_bind [OF spec_parseCase] pspec_bind [OF spec_parseDefault]
        pspec_weaken [OF Suc.IH]) (auto simp: clauses_ok_def split: if_splits)
qed (simp add: pspec_def)

lemma spec_parseSwitch:
  "new_label (p_controls p) (lbName lb) \<Longrightarrow>
   pspec (left p \<le> n \<and> left p \<le> m) p (parseSwitch m pe ps lb p)
     (\<lambda>st p'. left p' < left p \<and> wf_stmt (p_controls p) st)"
proof -
  assume nl: "new_label (p_controls p) (lbName lb)"
  have tag: "pspec (left p1 < Suc n) p1
      (if cur_kind p1 \<noteq> LBRACE then pbind (pe p1) (\<lambda>x p2. Inr (Some x, p2)) else Inr (None, p1))
      (\<lambda>_ p'. True)" for p1
    by (intro bind_pe pspec_intros) auto
  show ?thesis
    unfolding parseSwitch_def
    by (intro pspec_intros pspec_bind [OF tag] pspec_bind_push [OF spec_clauses_loop])
      (use nl in \<open>auto simp: clauses_ok_def\<close>)
qed

subsection \<open>For\<close>

lemma spec_parseForBody:
  assumes "new_label (p_controls p) (lbName lb)" "pred_option init_ok i" "pred_option post_ok q"
    "pred_option range_ok r"
  shows "pspec (left p \<le> n \<and> left p \<le> m) p (parseForBody m ps pos lb i c q r p)
     (\<lambda>st p'. left p' < left p \<and> wf_stmt (p_controls p) st)"
proof -
  have "pspec (left p \<le> n \<and> left p \<le> m) p
      (pbind (parseBlock m ps (pushControl controlLoop lb p))
        (\<lambda>body p1. Inr (ForStmt pos (lbName lb) (lbPos lb) i c q r body, popControl p1)))
      (\<lambda>st p'. left p' < left p \<and> wf_stmt (p_controls p) st)"
    by (rule pspec_bind_push [OF spec_parseBlock]) (use assms in \<open>auto simp: pspec_def\<close>)
  then show ?thesis by (simp add: parseForBody_def)
qed

lemma spec_parseForCond:
  "pspec (left p \<le> n) p (parseForCond pe p) (\<lambda>_ _. True)"
  unfolding parseForCond_def by (intro bind_pe pspec_intros) auto

lemma spec_parseForClause:
  "pspec (left p \<le> n) p (parseForClause pe al lab p)
     (\<lambda>st p'. init_ok st \<and> (\<not> al \<longrightarrow> post_ok st))"
  unfolding parseForClause_def Let_def
  by (intro pspec_if pspec_fail pspec_weaken [OF spec_parseLet] pspec_weaken [OF spec_parseAssign]
      pspec_weaken [OF spec_parseExprStmt]) auto

lemma spec_parseForPost:
  "pspec (left p \<le> n) p (parseForPost pe p) (\<lambda>q p'. pred_option post_ok q)"
  unfolding parseForPost_def
  by (intro pspec_intros pspec_bind [OF spec_parseForClause]) auto

lemma spec_parseForClauses:
  assumes "new_label (p_controls p) (lbName lb)" "pred_option init_ok i"
  shows "pspec (left p \<le> n \<and> left p \<le> m) p (parseForClauses m pe ps pos lb i p)
     (\<lambda>st p'. left p' < left p \<and> wf_stmt (p_controls p) st)"
  unfolding parseForClauses_def
  by (intro pspec_intros pspec_bind [OF spec_parseForCond] pspec_bind [OF spec_parseForPost]
      pspec_weaken [OF spec_parseForBody]) (use assms in auto)

lemma spec_parseForRange:
  assumes "new_label (p_controls p) (lbName lb)"
  shows "pspec (left p \<le> n \<and> left p \<le> m) p (parseForRange m pe ps pos lb p)
     (\<lambda>st p'. left p' < left p \<and> wf_stmt (p_controls p) st)"
proof -
  have vl: "pspec True p2 (if cur_kind p2 = COMMA
      then pbind (expect IDENT (p_next p2)) (\<lambda>valTok p3. Inr (tkLit valTok, p3)) else Inr ([], p2))
      (\<lambda>_ _. True)" for p2
    by (intro pspec_if pspec_Inr, rule pspec_advance) (auto simp: harmless_def intro!: pspec_intros)
  let ?p1 = "if cur_kind p = KW_LET then p_next p else p"
  have rd: "reads p ?p1" by (auto simp: harmless_def intro: reads_next)
  have body: "pspec (left p \<le> n \<and> left p \<le> m) ?p1 (parseForRange m pe ps pos lb p)
     (\<lambda>st p'. left p' < left ?p1 \<and> wf_stmt (p_controls ?p1) st)"
    unfolding parseForRange_def Let_def
    by (intro pspec_intros pspec_fail bind_pe pspec_bind [OF vl] pspec_weaken [OF spec_parseForBody])
      (use assms reads_left [OF rd] in \<open>auto simp: range_ok_def split: if_splits\<close>)
  show ?thesis
    by (rule pspec_step [OF rd], rule pspec_weaken [OF body])
      (use reads_left [OF rd] reads_controls [OF rd] in auto)
qed

lemma spec_parseFor:
  assumes lb: "new_label (p_controls p) (lbName lb)"
  shows "pspec (left p \<le> n \<and> left p \<le> m) p (parseFor m pe ps lb p)
     (\<lambda>st p'. left p' < left p \<and> wf_stmt (p_controls p) st)"
proof -
  have simple: "pspec (left p1 < n \<and> left p1 < m) p1
      (pbind (parseForInit pe p1) (\<lambda>init p3.
         if isSemi (cur_kind p3) then parseForClauses m pe ps pos lb (Some init) (p_next p3)
         else case init of ExprStmt _ ex \<Rightarrow> parseForBody m ps pos lb None (Some ex) None None p3
           | _ \<Rightarrow> p_fail (stmt_pos init) ''for condition must be expression''))
      (\<lambda>st p'. wf_stmt (p_controls p1) st)" if "p_controls p1 = p_controls p" for p1 pos
    unfolding parseForInit_def
    by (rule pspec_bind [OF spec_parseForClause], simp, rule pspec_if,
        rule pspec_advance, force simp: isSemi_def harmless_def,
        rule pspec_weaken [OF spec_parseForClauses])
      (use lb that in \<open>auto intro!: pspec_weaken [OF spec_parseForBody] split: Stmt.split\<close>)
  have clauses: "pspec (left p1 < n \<and> left p1 < m) p1 (parseForClauses m pe ps pos lb None (p_next p1))
      (\<lambda>st p'. wf_stmt (p_controls p1) st)"
    if "p_controls p1 = p_controls p" "isSemi (cur_kind p1)" for p1 pos
    by (rule pspec_advance, use that(2) in \<open>force simp: isSemi_def harmless_def\<close>,
        rule pspec_weaken [OF spec_parseForClauses]) (use lb that in auto)
  have tail: "pspec (left p1 < n \<and> left p1 < m) p1
      (let (isRange, p2) = isForRangeStart p1 in
         if isRange then parseForRange m pe ps pos lb p2
         else if isSemi (cur_kind p2) then parseForClauses m pe ps pos lb None (p_next p2)
         else pbind (parseForInit pe p2) (\<lambda>init p3.
           if isSemi (cur_kind p3) then parseForClauses m pe ps pos lb (Some init) (p_next p3)
           else case init of ExprStmt _ ex \<Rightarrow> parseForBody m ps pos lb None (Some ex) None None p3
             | _ \<Rightarrow> p_fail (stmt_pos init) ''for condition must be expression''))
      (\<lambda>st p'. wf_stmt (p_controls p1) st)" if c: "p_controls p1 = p_controls p" for p1 pos
  proof -
    obtain r p2 where rs: "isForRangeStart p1 = (r, p2)" by fastforce
    from toks_range_start [OF rs] have eq: "reads p1 p2" "left p2 = left p1" "p_controls p2 = p_controls p"
      using c by (auto simp: reads_def left_def)
    show ?thesis unfolding rs Let_def split_conv
      by (rule pspec_step [OF eq(1)])
        (use eq(2,3) c lb simple [OF eq(3)] clauses [OF eq(3)] in
          \<open>auto intro!: pspec_weaken [OF spec_parseForRange]\<close>)
  qed
  show ?thesis
    unfolding parseFor_def Let_def [of "tkP _"]
    by (intro pspec_intros pspec_weaken [OF spec_parseForBody] pspec_weaken [OF tail])
      (use lb in auto)
qed

subsection \<open>Labelled and exported statements, dispatch\<close>

lemma spec_parseLabeled:
  assumes "cur_kind p = IDENT" "tkK (p_peek p) = COLON"
  shows "pspec (left p \<le> n \<and> left p \<le> m) p (parseLabeled m pe ps p)
     (\<lambda>st p'. left p' < left p \<and> wf_stmt (p_controls p) st)"
proof (cases "findControl (p_controls p) (cur_lit p)")
  case None
  have pk: "p_cur (p_next p) = p_peek p" by (simp add: p_next_def split: list.split prod.split)
  have h: "harmless (p_cur p)" "harmless (p_cur (p_next p))" using assms pk by (simp_all add: harmless_def)
  let ?p2 = "p_next (p_next p)"
  have rd: "reads p ?p2" using reads_next [OF h(1)] reads_next [OF h(2)] by (rule reads_trans)
  have lf: "left p = Suc (Suc (left ?p2))" using h left_next [of p] left_next [of "p_next p"]
    by (simp add: harmless_def)
  have lb: "cur_lit p \<noteq> ''_'' \<Longrightarrow> new_label (p_controls p) (cur_lit p)"
    using findControl_none [OF None] by (simp add: new_label_def)
  have "pspec (left p \<le> n \<and> left p \<le> m) ?p2 (parseLabeled m pe ps p)
     (\<lambda>st p'. left p' < left p \<and> wf_stmt (p_controls p) st)"
    unfolding parseLabeled_def Let_def None option.case
    by (intro pspec_if pspec_fail pspec_weaken [OF spec_parseFor] pspec_weaken [OF spec_parseSwitch])
      (use lb lf in auto)
  then show ?thesis by (rule pspec_step [OF rd])
qed (simp add: parseLabeled_def Let_def)

lemma spec_parseExport:
  "pspec (left p \<le> n \<and> left p \<le> m) p (parseExport m pe ps p)
     (\<lambda>st p'. left p' < left p \<and> wf_stmt (p_controls p) st)"
  unfolding parseExport_def
  by (intro pspec_intros pspec_fail pspec_weaken [OF spec_parseLet] pspec_weaken [OF spec_parseFn]) auto

lemma spec_parseStmt:
  "pspec (left p \<le> n \<and> left p \<le> m) p (parseStmt m pe ps p)
     (\<lambda>st p'. left p' < left p \<and> wf_stmt (p_controls p) st)"
  unfolding parseStmt_def Let_def
  by (intro pspec_if pspec_fail pspec_weaken [OF spec_parseExport] pspec_weaken [OF spec_parseLet]
      pspec_weaken [OF spec_parseFn] pspec_weaken [OF spec_parseIf] pspec_weaken [OF spec_parseSwitch]
      pspec_weaken [OF spec_parseFor] pspec_weaken [OF spec_parseBreak]
      pspec_weaken [OF spec_parseContinue] pspec_weaken [OF spec_parseReturn]
      pspec_weaken [OF spec_parseAssign] pspec_weaken [OF spec_parseLabeled]
      pspec_weaken [OF spec_parseExprStmt]; simp add: no_label_def new_label_def)

end

text \<open>The statement parser satisfies its own interface, at every nesting bound.\<close>

lemma spec_parseStmtN:
  "pspec (left p < n) p (parseStmtN n p) (\<lambda>st p'. left p' < left p \<and> wf_stmt (p_controls p) st)"
proof (induction n arbitrary: p)
  case (Suc n)
  have "stmt_level (parseExprN (Suc n)) n (parseStmtN n)"
    by unfold_locales (rule Suc.IH)
  from stmt_level.spec_parseStmt [OF this, of p "Suc n"] show ?case
    unfolding parseStmtN.simps by (rule pspec_weaken) auto
qed (simp add: pspec_def)

interpretation stmt: stmt_level "parseExprN (Suc n)" n "parseStmtN n" for n
  by unfold_locales (rule spec_parseStmtN)

section \<open>Modules\<close>

text \<open>Once a name or a statement has been seen, no module declaration is accepted any more.\<close>

lemma spec_mod_loop:
  "p_controls p = [] \<Longrightarrow> \<forall>st \<in> set (mStmts m). wf_stmt [] st \<Longrightarrow> mName m \<noteq> [] \<or> mStmts m \<noteq> [] \<Longrightarrow>
     pspec (left p < n) p (mod_loop n m p)
       (\<lambda>m' p'. cur_kind p' = EOF \<and> (\<forall>st \<in> set (mStmts m'). wf_stmt [] st)
          \<and> mName m' = mName m \<and> mNamePos m' = mNamePos m)"
proof (induction n arbitrary: m p)
  case (Suc n)
  show ?case
  proof (cases "isSemi (cur_kind p)")
    case True
    then have h: "harmless (p_cur p)" by (auto simp: isSemi_def harmless_def)
    have "pspec (left p < Suc n) p (mod_loop n m (p_next p))
       (\<lambda>m' p'. cur_kind p' = EOF \<and> (\<forall>st \<in> set (mStmts m'). wf_stmt [] st)
          \<and> mName m' = mName m \<and> mNamePos m' = mNamePos m)"
      by (rule pspec_advance [OF h], rule pspec_weaken [OF Suc.IH]) (use Suc.prems in auto)
    then show ?thesis using True h by (simp add: harmless_def)
  next
    case False
    then show ?thesis using Suc.prems
      unfolding mod_loop.simps
      by (intro pspec_if pspec_Inr pspec_fail pspec_bind [OF spec_parseStmtN] pspec_bind [OF spec_skipSemi]
          pspec_weaken [OF Suc.IH]) auto
  qed
qed (simp add: pspec_def)

declare skipSemi.simps [simp del] parseStmtN.simps [simp del] parseExprN.simps [simp del]

text \<open>How a module starts: separators, then at most one declaration, then harmless tokens only.\<close>

definition mod_head :: "Tok list \<Rightarrow> string \<Rightarrow> Pos \<Rightarrow> bool" where
  "mod_head ts nm pos \<longleftrightarrow>
     (\<exists>semis rest. ts = semis @ rest \<and> list_all (\<lambda>t. isSemi (tkK t)) semis \<and>
       (nm = [] \<and> list_all harmless rest \<and> (rest \<noteq> [] \<longrightarrow> \<not> isSemi (tkK (hd rest)))
        \<or> (\<exists>tm tn r. rest = tm # tn # r \<and> tkK tm = KW_MODULE \<and> tkK tn = IDENT
             \<and> nm = tkLit tn \<and> nm \<noteq> [] \<and> pos = tkP tm)))"

lemma mod_head_semi: "mod_head ts nm pos \<Longrightarrow> isSemi (tkK t) \<Longrightarrow> mod_head (t # ts) nm pos"
  unfolding mod_head_def by (elim exE conjE, rule exI [of _ "t # _"]) auto

lemma mod_head_decl:
  "tkK tm = KW_MODULE \<Longrightarrow> tkK tn = IDENT \<Longrightarrow> tkLit tn \<noteq> [] \<Longrightarrow> mod_head (tm # tn # r) (tkLit tn) (tkP tm)"
  unfolding mod_head_def by (rule exI [of _ "[]"], rule exI [of _ "tm # tn # r"]) auto

lemma mod_head_stmt:
  "list_all harmless ts \<Longrightarrow> ts \<noteq> [] \<longrightarrow> \<not> isSemi (tkK (hd ts)) \<Longrightarrow> mod_head ts [] pos"
  unfolding mod_head_def by (rule exI [of _ "[]"], rule exI [of _ ts]) auto

definition mod_outcome :: "bool \<Rightarrow> Parser \<Rightarrow> Mod pres \<Rightarrow> bool" where
  "mod_outcome b p r \<longleftrightarrow>
     (case r of Inl e \<Rightarrow> b \<longrightarrow> e \<noteq> NoFuel
      | Inr (m, p') \<Rightarrow> (\<forall>st \<in> set (mStmts m). wf_stmt [] st) \<and> mod_head (toks p) (mName m) (mNamePos m))"

lemma mod_outcome_fail [simp]: "mod_outcome b p (p_fail pos msg)"
  by (simp add: mod_outcome_def p_fail_def)

lemma mod_outcome_pspec:
  "pspec b p1 r (\<lambda>m p'. (\<forall>st \<in> set (mStmts m). wf_stmt [] st) \<and> mod_head (toks p) (mName m) (mNamePos m)) \<Longrightarrow>
     mod_outcome b p r"
  by (auto simp: mod_outcome_def pspec_def split: sum.splits)

text \<open>From the closed loop: a statement has been read, the rest is harmless.\<close>

lemma pspec_mod_outcome:
  assumes "pspec b p r (\<lambda>m p'. cur_kind p' = EOF \<and> (\<forall>st \<in> set (mStmts m). wf_stmt [] st) \<and> mName m = [])"
    and "\<not> isSemi (cur_kind p)"
  shows "mod_outcome b p r"
proof (cases r)
  case (Inr x)
  then obtain m p' where r: "r = Inr (m, p')" by (cases x) auto
  with assms(1) have q: "reads p p'" "cur_kind p' = EOF" "\<forall>st \<in> set (mStmts m). wf_stmt [] st" "mName m = []"
    by (simp_all add: pspec_def)
  have "toks p' = []" using q(2) by (simp add: toks_unfold)
  with q(1) have "list_all harmless (toks p)" by (auto simp: reads_def)
  moreover have "toks p \<noteq> [] \<longrightarrow> \<not> isSemi (tkK (hd (toks p)))" using assms(2) by (simp add: toks_unfold)
  ultimately show ?thesis using q r by (simp add: mod_outcome_def mod_head_stmt)
qed (use assms(1) in \<open>simp add: pspec_def mod_outcome_def\<close>)

lemma mod_loop_decl:
  assumes c: "p_controls p = []" and k: "cur_kind p = KW_MODULE"
    and m: "mName m = []" "mStmts m = []"
    and lit: "\<forall>t \<in> set (toks p). tkK t = IDENT \<longrightarrow> tkLit t \<noteq> []"
  shows "mod_outcome (left p < Suc n) p (mod_loop (Suc n) m p)"
proof -
  let ?p1 = "p_next p" and ?p2 = "p_next (p_next p)"
  have t1: "toks p = p_cur p # toks ?p1" using toks_next [of p] k by simp
  show ?thesis
  proof (cases "cur_kind ?p1 = IDENT")
    case False
    then show ?thesis using k m
      by (simp add: parseModDecl_def expect_def pbind_def p_fail_def mod_outcome_def isSemi_def)
  next
    case True
    then have t2: "toks ?p1 = p_cur ?p1 # toks ?p2" using toks_next [of ?p1] by simp
    then have lit1: "cur_lit ?p1 \<noteq> []" using lit t1 True by simp
    have hd: "mod_head (toks p) (cur_lit ?p1) (cur_pos p)"
      using mod_head_decl [of "p_cur p" "p_cur ?p1" "toks ?p2"] k True lit1 t1 t2 by simp
    let ?m = "m\<lparr>mName := cur_lit ?p1, mNamePos := cur_pos p\<rparr>"
    have "parseModDecl p = Inr ((cur_lit ?p1, cur_pos p), ?p2)"
      using k True by (simp add: parseModDecl_def expect_def pbind_def isKeyword_iff kw_kinds)
    then have eq: "mod_loop (Suc n) m p = pbind (skipSemi (Suc n) ?p2) (\<lambda>_ p2. mod_loop n ?m p2)"
      using k m by (simp add: pbind_def isSemi_def)
    show ?thesis
      unfolding eq
      by (rule mod_outcome_pspec [where ?p1.0 = ?p2],
          intro pspec_bind [OF spec_skipSemi] pspec_weaken [OF spec_mod_loop])
        (use c m lit1 t1 t2 hd in \<open>auto simp: left_def\<close>)
  qed
qed

lemma mod_loop_open:
  "p_controls p = [] \<Longrightarrow> mName m = [] \<Longrightarrow> mStmts m = [] \<Longrightarrow>
     \<forall>t \<in> set (toks p). tkK t = IDENT \<longrightarrow> tkLit t \<noteq> [] \<Longrightarrow>
     mod_outcome (left p < n) p (mod_loop n m p)"
proof (induction n arbitrary: p)
  case (Suc n)
  consider (eof) "cur_kind p = EOF" | (semi) "isSemi (cur_kind p)" | (decl) "cur_kind p = KW_MODULE"
    | (stmt) "cur_kind p \<noteq> EOF" "\<not> isSemi (cur_kind p)" "cur_kind p \<noteq> KW_MODULE" by blast
  then show ?case
  proof cases
    case eof
    then show ?thesis using Suc.prems by (simp add: mod_outcome_def toks_unfold mod_head_stmt)
  next
    case semi
    then have ne: "cur_kind p \<noteq> EOF" by (auto simp: isSemi_def)
    from toks_next [OF ne] Suc.IH [of "p_next p"] Suc.prems
    have "mod_outcome (left (p_next p) < n) (p_next p) (mod_loop n m (p_next p))" by simp
    with semi ne toks_next [OF ne] left_next [OF ne] show ?thesis
      by (auto simp: mod_outcome_def mod_head_semi split: sum.splits)
  next
    case decl
    with mod_loop_decl Suc.prems show ?thesis by blast
  next
    case stmt
    have "pspec (left p < Suc n) p (mod_loop (Suc n) m p)
        (\<lambda>m p'. cur_kind p' = EOF \<and> (\<forall>st \<in> set (mStmts m). wf_stmt [] st) \<and> mName m = [])"
    proof -
      have eq: "mod_loop (Suc n) m p = pbind (parseStmtN (Suc n) p) (\<lambda>st p1.
          pbind (skipSemi (Suc n) p1) (\<lambda>_ p2. mod_loop n (m\<lparr>mStmts := mStmts m @ [st]\<rparr>) p2))"
        using stmt by simp
      show ?thesis unfolding eq
        by (intro pspec_bind [OF spec_parseStmtN] pspec_bind [OF spec_skipSemi]
            pspec_weaken [OF spec_mod_loop]) (use Suc.prems in auto)
    qed
    then show ?thesis using stmt by (intro pspec_mod_outcome)
  qed
qed (simp add: mod_outcome_def)

section \<open>The entry points\<close>

lemma toks_new:
  "toks (NewParserAt path src pos) = takeWhile (\<lambda>t. tkK t \<noteq> EOF) (lex_all (NewLexerAt path src pos))
   \<and> p_controls (NewParserAt path src pos) = []"
proof -
  let ?P = "\<lambda>t. tkK t \<noteq> EOF"
  obtain c l1 where c: "lx_next (NewLexerAt path src pos) = (c, l1)" by fastforce
  obtain k l2 where k: "lx_next l1 = (k, l2)" by fastforce
  have "takeWhile ?P (lex_all (NewLexerAt path src pos)) = takeWhile ?P (c # lex_all l1)"
    by (rule takeWhile_lex_all [OF c])
  moreover have "takeWhile ?P (lex_all l1) = takeWhile ?P (k # lex_all l2)"
    by (rule takeWhile_lex_all [OF k])
  ultimately show ?thesis using c k by (simp add: toks_def NewParserAt_def)
qed

lemma length_lex_new: "length (lex_all (NewLexerAt path src pos)) \<le> length src + 2"
proof -
  have "lx_rank (NewLexerAt path src pos) = length src + 1"
    by (simp add: lx_rank_def lx_left_def NewLexerAt_def Let_def)
  with lx.drain_enough [of "NewLexerAt path src pos" "length src + 2"] obtain ts t
    where "drain (length src + 2) lx_next (NewLexerAt path src pos) = Some (ts @ [t])"
      "length ts \<le> length src + 1" by auto
  with lex_all_drain show ?thesis by fastforce
qed

lemma takeWhile_shorter: "x \<in> set xs \<Longrightarrow> \<not> P x \<Longrightarrow> length (takeWhile P xs) < length xs"
  by (induction xs) auto

lemma lex_all_has_eof: "\<exists>t \<in> set (lex_all l). tkK t = EOF"
proof (induction l rule: lex_all.induct)
  case (1 l)
  obtain t l' where st: "lx_next l = (t, l')" by fastforce
  then show ?case using "1.IH" [OF st [symmetric] refl] by (simp add: lex_all_step [OF st])
qed

lemma left_new: "left (NewParserAt path src pos) < parse_fuel src"
proof -
  let ?ts = "lex_all (NewLexerAt path src pos)"
  have "\<exists>t \<in> set ?ts. tkK t = EOF" by (rule lex_all_has_eof)
  then have "length (takeWhile (\<lambda>t. tkK t \<noteq> EOF) ?ts) < length ?ts"
    by (auto intro: takeWhile_shorter)
  then show ?thesis using toks_new length_lex_new [of path src pos]
    by (simp add: left_def parse_fuel_def)
qed

lemma ident_new:
  "\<forall>t \<in> set (toks (NewParserAt path src pos)). tkK t = IDENT \<longrightarrow> tkLit t \<noteq> []"
  using toks_new lex_all_ident set_takeWhileD by metis

lemma parseMod_outcome:
  "mod_outcome True (NewParserAt path src pos) (parseMod (parse_fuel src) (NewParserAt path src pos))"
proof -
  let ?p = "NewParserAt path src pos"
  have "mod_outcome (left ?p < parse_fuel src) ?p (parseMod (parse_fuel src) ?p)"
    unfolding parseMod_def by (rule mod_loop_open) (use toks_new ident_new in auto)
  then show ?thesis using left_new [of path src pos] by simp
qed

lemma spec_parseExprOnly:
  "pspec (left p < n) p (parseExprOnly n p) (\<lambda>_ p'. cur_kind p' = EOF)"
  unfolding parseExprOnly_def
  by (intro pspec_bind [OF spec_parseExprN] pspec_intros pspec_fail) auto

text \<open>
  C4: parsing terminates with a proper answer on every input: the bound of the model is never
  reached, so a module or an expression is either parsed or rejected with a positioned error.
\<close>

theorem parser_total:
  "ParseModuleAt path src pos \<noteq> Inl NoFuel \<and> ParseExpr path line col src \<noteq> Inl NoFuel"
proof
  show "ParseModuleAt path src pos \<noteq> Inl NoFuel"
    using parseMod_outcome [of path src pos]
    by (auto simp: ParseModuleAt_def mod_outcome_def split: sum.splits)
  have "parseExprOnly (parse_fuel src) (NewParserAt path src \<lparr>Path = [], Line = line, Col = col\<rparr>) \<noteq> Inl NoFuel"
    by (rule pspec_no_fuel [OF spec_parseExprOnly left_new])
  then show "ParseExpr path line col src \<noteq> Inl NoFuel"
    by (auto simp: ParseExpr_def split: sum.splits)
qed

text \<open>
  C5: a parsed module is well formed: every break and continue names a target that encloses it (a
  loop for continue) and never crosses a function boundary, labels are fresh among the enclosing
  ones, parameters and range variables are distinct, a switch has at most one default clause, and
  the clauses of a for statement are the simple statements its evaluation expects.
\<close>

theorem parsed_module_well_formed:
  assumes "ParseModuleAt path src pos = Inr m"
  shows "\<forall>st \<in> set (mStmts m). wf_stmt [] st"
  using parseMod_outcome [of path src pos] assms
  by (auto simp: ParseModuleAt_def mod_outcome_def split: sum.splits)

theorem parsed_module_well_formed_witness:
  "case ParseModuleAt ''m'' ''a: for { break a }'' zero_pos of
     Inl e \<Rightarrow> False | Inr m \<Rightarrow> length (mStmts m) = 1 \<and> (\<forall>st \<in> set (mStmts m). wf_stmt [] st)"
proof -
  have "case ParseModuleAt ''m'' ''a: for { break a }'' zero_pos of
      Inl e \<Rightarrow> False | Inr m \<Rightarrow> length (mStmts m) = 1" by code_simp
  then obtain m where "ParseModuleAt ''m'' ''a: for { break a }'' zero_pos = Inr m" "length (mStmts m) = 1"
    by (auto split: sum.splits)
  with parsed_module_well_formed [OF this(1)] show ?thesis by simp
qed

text \<open>The head scanners in terms of the token list.\<close>

lemma scanMod_harmless:
  "list_all harmless (takeWhile (\<lambda>t. tkK t \<noteq> EOF) (lex_all lx)) \<Longrightarrow> scanMod lx = Inr (zero_pos, False)"
proof (induction lx rule: scanMod.induct)
  case (1 lx)
  obtain t l' where st: "lx_next lx = (t, l')" by fastforce
  with "1.prems" "1.IH" [OF st [symmetric] refl] show ?case
    by (auto simp: scanMod.simps [of lx] lex_all_step [OF st] harmless_def split: if_splits)
qed

lemma modHead_loop_head:
  "mod_head (takeWhile (\<lambda>t. tkK t \<noteq> EOF) (lex_all lx)) nm pos \<Longrightarrow>
     modHead_loop path lx =
       Inr (if nm = [] then ([], \<lparr>Path = path, Line = 0, Col = 0\<rparr>) else (nm, pos))"
proof (induction path lx rule: modHead_loop.induct)
  case (1 path lx)
  let ?ts = "takeWhile (\<lambda>t. tkK t \<noteq> EOF) (lex_all lx)"
  obtain t l' where st: "lx_next lx = (t, l')" by fastforce
  obtain t2 l2 where st2: "lx_next l' = (t2, l2)" by fastforce
  from "1.prems" obtain semis rest where h: "?ts = semis @ rest" "list_all (\<lambda>t. isSemi (tkK t)) semis"
    and alt: "nm = [] \<and> list_all harmless rest \<and> (rest \<noteq> [] \<longrightarrow> \<not> isSemi (tkK (hd rest)))
        \<or> (\<exists>tm tn r. rest = tm # tn # r \<and> tkK tm = KW_MODULE \<and> tkK tn = IDENT
             \<and> nm = tkLit tn \<and> nm \<noteq> [] \<and> pos = tkP tm)"
    unfolding mod_head_def by blast
  show ?case
  proof (cases semis)
    case (Cons s ss)
    then have t: "tkK t \<noteq> EOF" "t = s" "takeWhile (\<lambda>t. tkK t \<noteq> EOF) (lex_all l') = ss @ rest"
      using h(1) by (auto simp: lex_all_step [OF st] split: if_splits)
    then have "mod_head (takeWhile (\<lambda>t. tkK t \<noteq> EOF) (lex_all l')) nm pos"
      unfolding mod_head_def using h(2) alt Cons by (intro exI [of _ ss] exI [of _ rest]) simp
    with "1.IH" [OF st [symmetric] refl] t h(2) Cons st show ?thesis
      by (auto simp: modHead_loop.simps [of path lx] isSemi_def)
  next
    case Nil
    from alt show ?thesis
    proof (elim disjE conjE exE)
      assume a: "nm = []" "list_all harmless rest" "rest \<noteq> [] \<longrightarrow> \<not> isSemi (tkK (hd rest))"
      show ?thesis
      proof (cases "tkK t = EOF")
        case True
        then show ?thesis using a st by (simp add: modHead_loop.simps [of path lx])
      next
        case False
        then have r: "rest = t # takeWhile (\<lambda>t. tkK t \<noteq> EOF) (lex_all l')"
          using h(1) Nil by (simp add: lex_all_step [OF st])
        then show ?thesis using a st False scanMod_harmless [of l']
          by (simp add: modHead_loop.simps [of path lx] isSemi_def harmless_def)
      qed
    next
      fix tm tn r
      assume a: "rest = tm # tn # r" "tkK tm = KW_MODULE" "tkK tn = IDENT" "nm = tkLit tn" "nm \<noteq> []"
        "pos = tkP tm"
      have "t = tm" "tkK t \<noteq> EOF" "takeWhile (\<lambda>t. tkK t \<noteq> EOF) (lex_all l') = tn # r"
        using h(1) Nil a(1,2) by (auto simp: lex_all_step [OF st] split: if_splits)
      moreover from this have "t2 = tn"
        by (auto simp: lex_all_step [OF st2] split: if_splits)
      ultimately show ?thesis using a st st2
        by (simp add: modHead_loop.simps [of path lx] isKeyword_iff kw_kinds)
    qed
  qed
qed

lemma modHead_parsed:
  assumes "ParseModule path src = Inr m"
  shows "modHead path src =
    Inr (if mName m = [] then ([], \<lparr>Path = path, Line = 0, Col = 0\<rparr>) else (mName m, mNamePos m))"
proof -
  let ?start = "\<lparr>Path = [], Line = 1, Col = 1\<rparr>"
  have "mod_head (toks (NewParserAt path src ?start)) (mName m) (mNamePos m)"
    using parseMod_outcome [of path src ?start] assms
    by (auto simp: ParseModule_def ParseModuleAt_def mod_outcome_def split: sum.splits)
  then show ?thesis
    unfolding modHead_def NewLexer_def using toks_new [of path src ?start] modHead_loop_head by simp
qed

text \<open>
  The quick scan for a module's name agrees with the parser: for every source that parses as a
  module, \<open>modHead\<close> succeeds and finds the name and position the parser records, and finds no
  name exactly when the module declares none.
\<close>

theorem module_head_agrees:
  assumes "ParseModule path src = Inr m"
  shows "modHead path src =
    Inr (if mName m = [] then ([], \<lparr>Path = path, Line = 0, Col = 0\<rparr>) else (mName m, mNamePos m))"
  by (rule modHead_parsed [OF assms])

theorem module_head_agrees_witness:
  "modHead ''f.rts'' (LF # ''module m'' @ [LF] @ ''export let x = 1'')
     = Inr (''m'', \<lparr>Path = ''f.rts'', Line = 2, Col = 1\<rparr>)"
proof -
  have "case ParseModule ''f.rts'' (LF # ''module m'' @ [LF] @ ''export let x = 1'') of
      Inl e \<Rightarrow> False
    | Inr m \<Rightarrow> mName m = ''m'' \<and> mNamePos m = \<lparr>Path = ''f.rts'', Line = 2, Col = 1\<rparr>"
    by code_simp
  then obtain m where "ParseModule ''f.rts'' (LF # ''module m'' @ [LF] @ ''export let x = 1'') = Inr m"
    "mName m = ''m''" "mNamePos m = \<lparr>Path = ''f.rts'', Line = 2, Col = 1\<rparr>"
    by (auto split: sum.splits)
  from module_head_agrees [OF this(1)] this(2,3) show ?thesis by simp
qed

end
