(* ===== verification/RtsVmProps.thy ===== *)
theory RtsVmProps
  imports RtsVm RtsParserProps
begin

text \<open>
  What the evaluator guarantees. The judgement \<open>vspec\<close> is the contract of a computation: the call
  stack and depth are restored on every path, steps only grow, the environments that existed keep
  their parents, their names and their constants, every value in reach is well formed, an error is
  of the announced kind, and with a bound above the steps left the bound is not reached. The
  locale \<open>vm_level\<close> states what a method needs of the calls it makes back into the evaluator.
\<close>

section \<open>Well-formed values and stores\<close>

text \<open>
  A function value refers to an existing environment, and its body is well formed as a function
  body; dictionaries are canonical. \<open>n\<close> is the number of environments.
\<close>

fun val_ok :: "nat \<Rightarrow> Value \<Rightarrow> bool"
  and obj_ok :: "nat \<Rightarrow> Obj \<Rightarrow> bool"
where
  "val_ok n (VList xs) = (\<forall>x \<in> set xs. val_ok n x)"
| "val_ok n (VDict m) = (smap_ok m \<and> (\<forall>kv \<in> set m. val_ok n (snd kv)))"
| "val_ok n (VFunc (Some f)) = (fnEnv f < n \<and> distinct (fnArgs f) \<and> wf_block [] (fnBody f))"
| "val_ok n (VObj (Some ob)) = obj_ok n ob"
| "val_ok n _ = True"
| "obj_ok n (ResultObj _ v _) = val_ok n v"
| "obj_ok n (ModObj _ m) = (\<forall>kv \<in> set m. val_ok n (snd kv))"
| "obj_ok n (ObjMap _ m) = (\<forall>kv \<in> set m. val_ok n (snd kv))"
| "obj_ok n (HostObj _) = True"

lemma val_ok_mono_both:
  "(val_ok n v \<longrightarrow> n \<le> k \<longrightarrow> val_ok k v)" "(obj_ok n ob \<longrightarrow> n \<le> k \<longrightarrow> obj_ok k ob)"
  by (induction n v and n ob rule: val_ok_obj_ok.induct) auto

lemma val_ok_mono: "val_ok n v \<Longrightarrow> n \<le> k \<Longrightarrow> val_ok k v"
  using val_ok_mono_both by blast

definition store_ok :: "Store \<Rightarrow> bool" where
  "store_ok st \<longleftrightarrow> (\<forall>i < length st.
     (\<forall>u. eUp (st ! i) = Some u \<longrightarrow> u < i)
     \<and> (\<forall>x b. eVars (st ! i) x = Some b \<longrightarrow> val_ok (length st) (bV b)))"

definition state_ok :: "Vm \<Rightarrow> bool" where
  "state_ok s \<longleftrightarrow> store_ok (vm_envs s) \<and> smap_ok (vm_exp s)
     \<and> (\<forall>kv \<in> set (vm_exp s). val_ok (length (vm_envs s)) (snd kv))"

abbreviation n_envs :: "Vm \<Rightarrow> nat" where
  "n_envs s \<equiv> length (vm_envs s)"

lemma lookup_env_some:
  "lookup_env st i x = Some (j, b) \<Longrightarrow> j \<le> i \<and> j < length st \<and> eVars (st ! j) x = Some b"
proof (induction st i x arbitrary: j b rule: lookup_env.induct)
  case (1 st i x)
  then show ?case
    by (subst (asm) lookup_env.simps) (fastforce split: if_splits option.splits)
qed

lemma env_get_ok:
  "store_ok st \<Longrightarrow> env_get st i x = Some v \<Longrightarrow> val_ok (length st) v"
  using lookup_env_some [of st i x] by (fastforce simp: env_get_def store_ok_def)

section \<open>How a computation may change the environments\<close>

definition bind_ext :: "bool \<Rightarrow> Binding option \<Rightarrow> Binding option \<Rightarrow> bool" where
  "bind_ext new b b' \<longleftrightarrow>
     (case b of
        None \<Rightarrow> new \<or> b' = None
      | Some c \<Rightarrow> (\<exists>c'. b' = Some c' \<and> bConst c' = bConst c \<and> (bConst c \<longrightarrow> c' = c)))"

text \<open>
  Of the first \<open>N\<close> environments only those in \<open>A\<close> may gain names; no name is lost, no constant
  changes, no variable becomes constant.
\<close>

definition env_ext :: "nat \<Rightarrow> nat set \<Rightarrow> Store \<Rightarrow> Store \<Rightarrow> bool" where
  "env_ext N A st st' \<longleftrightarrow> N \<le> length st \<and> length st \<le> length st' \<and>
     (\<forall>i < N. eUp (st' ! i) = eUp (st ! i)
        \<and> (\<forall>x. bind_ext (i \<in> A) (eVars (st ! i) x) (eVars (st' ! i) x)))"

lemma bind_ext_refl [simp]: "bind_ext new b b"
  by (simp add: bind_ext_def split: option.split)

lemma bind_ext_trans: "bind_ext new a b \<Longrightarrow> bind_ext new b c \<Longrightarrow> bind_ext new a c"
  by (auto simp: bind_ext_def split: option.splits)

lemma env_ext_refl: "N \<le> length st \<Longrightarrow> env_ext N A st st"
  by (simp add: env_ext_def)

lemma env_ext_vars:
  "env_ext N A a b \<Longrightarrow> i < N \<Longrightarrow> bind_ext (i \<in> A) (eVars (a ! i) x) (eVars (b ! i) x)"
  by (simp add: env_ext_def)

lemma env_ext_trans: "env_ext N A a b \<Longrightarrow> env_ext N A b c \<Longrightarrow> env_ext N A a c"
proof -
  assume ab: "env_ext N A a b" and bc: "env_ext N A b c"
  have "bind_ext (i \<in> A) (eVars (a ! i) x) (eVars (c ! i) x)" if "i < N" for i x
    using env_ext_vars [OF ab that] env_ext_vars [OF bc that] by (rule bind_ext_trans)
  with ab bc show ?thesis by (auto simp: env_ext_def)
qed

lemma bind_ext_mono: "bind_ext new a b \<Longrightarrow> (new \<Longrightarrow> new') \<Longrightarrow> bind_ext new' a b"
  by (auto simp: bind_ext_def split: option.splits)

lemma env_ext_weaken:
  assumes "env_ext N A st st'" "M \<le> N" "\<forall>i \<in> A. i < M \<longrightarrow> i \<in> B"
  shows "env_ext M B st st'"
proof -
  have "bind_ext (i \<in> B) (eVars (st ! i) x) (eVars (st' ! i) x)" if "i < M" for i x
    by (rule bind_ext_mono [OF env_ext_vars [OF assms(1)]]) (use that assms(2,3) in auto)
  with assms show ?thesis by (auto simp: env_ext_def)
qed

definition vframe :: "nat \<Rightarrow> nat set \<Rightarrow> Vm \<Rightarrow> Vm \<Rightarrow> bool" where
  "vframe N A s s' \<longleftrightarrow> vm_steps s \<le> vm_steps s' \<and> vm_depth s' = vm_depth s
     \<and> vm_stack s' = vm_stack s \<and> env_ext N A (vm_envs s) (vm_envs s')"

lemma vframe_trans: "vframe N A s s1 \<Longrightarrow> vframe N A s1 s2 \<Longrightarrow> vframe N A s s2"
  unfolding vframe_def by (auto intro: env_ext_trans)

lemma vframe_weaken: "vframe N A s s' \<Longrightarrow> M \<le> N \<Longrightarrow> \<forall>i \<in> A. i < M \<longrightarrow> i \<in> B \<Longrightarrow> vframe M B s s'"
  unfolding vframe_def by (auto intro: env_ext_weaken)

lemma vframe_envs: "vframe N A s s' \<Longrightarrow> N \<le> n_envs s \<and> n_envs s \<le> n_envs s' \<and> vm_steps s \<le> vm_steps s'"
  by (simp add: vframe_def env_ext_def)

section \<open>The contract of a computation\<close>

definition vspec ::
  "bool \<Rightarrow> nat \<Rightarrow> nat set \<Rightarrow> (err \<Rightarrow> Vm \<Rightarrow> bool) \<Rightarrow> Vm \<Rightarrow> 'a comp \<Rightarrow> ('a \<Rightarrow> Vm \<Rightarrow> bool) \<Rightarrow> bool"
where
  "vspec b N A E s m Q \<longleftrightarrow>
     (case m s of (r, s') \<Rightarrow> vframe N A s s' \<and> state_ok s' \<and>
       (case r of Inl e \<Rightarrow> (if e = OutOfFuel then \<not> b else E e s') | Inr x \<Rightarrow> Q x s'))"

lemma vspec_err:
  "vspec b N A E s m Q \<Longrightarrow> m s = (Inl e, s') \<Longrightarrow>
     vframe N A s s' \<and> state_ok s' \<and> (if e = OutOfFuel then \<not> b else E e s')"
  by (simp add: vspec_def)

lemma vspec_val: "vspec b N A E s m Q \<Longrightarrow> m s = (Inr x, s') \<Longrightarrow> vframe N A s s' \<and> state_ok s' \<and> Q x s'"
  by (simp add: vspec_def)

lemma vspec_frame: "vspec b N A E s m Q \<Longrightarrow> m s = (r, s') \<Longrightarrow> vframe N A s s' \<and> state_ok s'"
  by (simp add: vspec_def)

lemma vspec_weaken:
  assumes "vspec b' N' A' E' s m Q'" and "b \<Longrightarrow> b'" and "N \<le> N'" and "\<forall>i \<in> A'. i < N \<longrightarrow> i \<in> A"
    and "\<And>e s'. n_envs s \<le> n_envs s' \<Longrightarrow> E' e s' \<Longrightarrow> E e s'"
    and "\<And>x s'. n_envs s \<le> n_envs s' \<Longrightarrow> vm_steps s \<le> vm_steps s' \<Longrightarrow> Q' x s' \<Longrightarrow> Q x s'"
  shows "vspec b N A E s m Q"
proof (cases "m s")
  case (Pair r s1)
  then have fr: "vframe N' A' s s1" using assms(1) by (auto dest: vspec_frame)
  have "vframe N A s s1" by (rule vframe_weaken [OF fr assms(3,4)])
  with assms Pair vframe_envs [OF fr] show ?thesis
    by (auto simp: vspec_def split: sum.splits if_splits)
qed

text \<open>After a step that keeps the frame, the rest of the computation.\<close>

lemma vspec_after:
  assumes "m s = m1 s1" and "vframe N A s s1" and "vspec b N A E s1 m1 Q"
  shows "vspec b N A E s m Q"
proof (cases "m1 s1")
  case (Pair r s2)
  with assms show ?thesis by (auto simp: vspec_def intro: vframe_trans)
qed

lemma vspec_bind:
  assumes m: "vspec b' N' A' E' s m Q" and b: "b \<Longrightarrow> b'" and N: "N \<le> N'"
    and A: "\<forall>i \<in> A'. i < N \<longrightarrow> i \<in> A" and E: "\<And>e s'. n_envs s \<le> n_envs s' \<Longrightarrow> E' e s' \<Longrightarrow> E e s'"
    and f: "\<And>x s1. state_ok s1 \<Longrightarrow> n_envs s \<le> n_envs s1 \<Longrightarrow> vm_steps s \<le> vm_steps s1 \<Longrightarrow>
      vframe N' A' s s1 \<Longrightarrow> Q x s1 \<Longrightarrow> vspec b N A E s1 (f x) R"
  shows "vspec b N A E s (vbind m f) R"
proof (cases "m s")
  case (Pair r s1)
  have q: "vframe N' A' s s1" "state_ok s1" using vspec_frame [OF m Pair] by simp_all
  have fr: "vframe N A s s1" by (rule vframe_weaken [OF q(1) N A])
  show ?thesis
  proof (cases r)
    case (Inl e)
    with Pair have "vbind m f s = (Inl e, s1)" by (simp add: vbind_def)
    with vspec_err [OF m] Pair Inl b E fr q vframe_envs [OF fr] show ?thesis
      by (auto simp: vspec_def split: if_splits)
  next
    case (Inr x)
    with Pair have eq: "vbind m f s = f x s1" by (simp add: vbind_def)
    from vspec_val [OF m] Pair Inr have "Q x s1" by simp
    from f [OF q(2) _ _ q(1) this] vframe_envs [OF q(1)] show ?thesis
      by (intro vspec_after [of "vbind m f" s "f x" s1, OF eq fr]) simp
  qed
qed

lemma vspec_seq:
  assumes "vspec b N A E s m Q"
    and "\<And>x s1. state_ok s1 \<Longrightarrow> n_envs s \<le> n_envs s1 \<Longrightarrow> vm_steps s \<le> vm_steps s1 \<Longrightarrow> Q x s1 \<Longrightarrow>
      vspec b N A E s1 (f x) R"
  shows "vspec b N A E s (vbind m f) R"
  by (rule vspec_bind [OF assms(1)]) (auto intro: assms(2))

text \<open>Handling the outcome: the handler sees the error or the value.\<close>

lemma vspec_catch:
  assumes m: "vspec b' N' A' E' s m Q" and b: "b \<Longrightarrow> b'" and N: "N \<le> N'"
    and A: "\<forall>i \<in> A'. i < N \<longrightarrow> i \<in> A"
    and ok: "\<And>x s1. state_ok s1 \<Longrightarrow> n_envs s \<le> n_envs s1 \<Longrightarrow> vm_steps s \<le> vm_steps s1 \<Longrightarrow> N \<le> n_envs s1 \<Longrightarrow>
      Q x s1 \<Longrightarrow> vspec b N A E s1 (h (Inr x)) R"
    and bad: "\<And>e s1. state_ok s1 \<Longrightarrow> n_envs s \<le> n_envs s1 \<Longrightarrow> N \<le> n_envs s1 \<Longrightarrow> e \<noteq> OutOfFuel \<Longrightarrow> E' e s1 \<Longrightarrow>
      vspec b N A E s1 (h (Inl e)) R"
    and fuel: "h (Inl OutOfFuel) = vfail OutOfFuel"
  shows "vspec b N A E s (vcatch m h) R"
proof (cases "m s")
  case (Pair r s1)
  then have eq: "vcatch m h s = h r s1" by (simp add: vcatch_def)
  have q: "vframe N' A' s s1" "state_ok s1" using vspec_frame [OF m Pair] by simp_all
  have fr: "vframe N A s s1" by (rule vframe_weaken [OF q(1) N A])
  have len: "n_envs s \<le> n_envs s1" "vm_steps s \<le> vm_steps s1" "N \<le> n_envs s1"
    using vframe_envs [OF fr] by auto
  show ?thesis
  proof (cases r)
    case (Inr x)
    with vspec_val [OF m] Pair have "Q x s1" by simp
    from ok [OF q(2) len this] Inr show ?thesis
      by (intro vspec_after [of "vcatch m h" s "h r" s1, OF eq fr]) simp
  next
    case (Inl e)
    show ?thesis
    proof (cases "e = OutOfFuel")
      case True
      with vspec_err [OF m] Pair Inl have "\<not> b'" by simp
      with b fr q(2) True Inl eq show ?thesis by (auto simp: vspec_def fuel vfail_def)
    next
      case False
      with vspec_err [OF m] Pair Inl have "E' e s1" by simp
      from bad [OF q(2) len(1,3) False this] Inl show ?thesis
      by (intro vspec_after [of "vcatch m h" s "h r" s1, OF eq fr]) simp
    qed
  qed
qed

lemma vframe_refl: "N \<le> n_envs s \<Longrightarrow> vframe N A s s"
  by (simp add: vframe_def env_ext_refl)

lemma vspec_if:
  "(c \<Longrightarrow> vspec b N A E s m Q) \<Longrightarrow> (\<not> c \<Longrightarrow> vspec b N A E s m' Q) \<Longrightarrow> vspec b N A E s (if c then m else m') Q"
  by simp

lemma vspec_ret: "state_ok s \<Longrightarrow> N \<le> n_envs s \<Longrightarrow> Q x s \<Longrightarrow> vspec b N A E s (vret x) Q"
  by (simp add: vspec_def vret_def vframe_refl)

lemma vspec_fail:
  "state_ok s \<Longrightarrow> N \<le> n_envs s \<Longrightarrow> e \<noteq> OutOfFuel \<Longrightarrow> E e s \<Longrightarrow> vspec b N A E s (vfail e) Q"
  by (simp add: vspec_def vfail_def vframe_refl)

lemma vspec_fuel:
  "state_ok s \<Longrightarrow> N \<le> n_envs s \<Longrightarrow> \<not> b \<Longrightarrow> vspec b N A E s (vfail OutOfFuel) Q"
  by (simp add: vspec_def vfail_def vframe_refl)

text \<open>Errors an expression may end in: no control signal.\<close>

fun is_signal :: "err \<Rightarrow> bool" where
  "is_signal (RetSig _) = True"
| "is_signal (BreakSig _ _) = True"
| "is_signal (ContinueSig _ _) = True"
| "is_signal _ = False"

definition no_sig :: "err \<Rightarrow> Vm \<Rightarrow> bool" where
  "no_sig e s \<longleftrightarrow> \<not> is_signal e"

text \<open>Real errors: neither a control signal nor the bound of the model.\<close>

definition plain_err :: "err \<Rightarrow> bool" where
  "plain_err e \<longleftrightarrow> \<not> is_signal e \<and> e \<noteq> OutOfFuel"

lemma plain_err_simps [simp]:
  "plain_err (Errf stk pos msg)" "plain_err (rtAbort stk pos k msg)" "plain_err (StackErr e fs)"
  "plain_err (RuntimeErr pos msg)"
  by (simp_all add: plain_err_def Errf_def rtAbort_def)

lemma plain_err_wrap [simp]: "plain_err (WrapErr stk e)"
  by (cases e) (simp_all add: plain_err_def)

lemma vspec_pure:
  assumes "state_ok s" "N \<le> n_envs s" "\<And>e. f (vm_stack s) = Inl e \<Longrightarrow> plain_err e"
    and "\<And>x. f (vm_stack s) = Inr x \<Longrightarrow> Q x s" and "\<And>e. plain_err e \<Longrightarrow> E e s"
  shows "vspec b N A E s (vpure f) Q"
  using assms by (auto simp: vspec_def vpure_def vframe_refl plain_err_def split: sum.split)

section \<open>Primitive steps\<close>

text \<open>Below, \<open>E\<close> accepts every error that is no control signal, as all error predicates in use do.\<close>

definition E_plain :: "(err \<Rightarrow> Vm \<Rightarrow> bool) \<Rightarrow> bool" where
  "E_plain E \<longleftrightarrow> (\<forall>e s. \<not> is_signal e \<longrightarrow> E e s)"

lemma E_plain_no_sig [simp]: "E_plain no_sig"
  by (simp add: E_plain_def no_sig_def)

lemma E_plainD: "E_plain E \<Longrightarrow> plain_err e \<Longrightarrow> E e s" "E_plain E \<Longrightarrow> no_sig e s \<Longrightarrow> E e s'"
  by (simp_all add: E_plain_def plain_err_def no_sig_def)

lemma vspec_verr: "state_ok s \<Longrightarrow> N \<le> n_envs s \<Longrightarrow> E_plain E \<Longrightarrow> vspec b N A E s (verr pos msg) Q"
  unfolding verr_def by (rule vspec_pure) (auto intro: E_plainD)

lemma vspec_vcheck:
  assumes "state_ok s" "N \<le> n_envs s" "E_plain E" "\<And>stk e. f stk = Some e \<Longrightarrow> plain_err e"
  shows "vspec b N A E s (vcheck f) (\<lambda>_ s'. s' = s)"
proof -
  have "vspec b N A E s (vcheck f) (\<lambda>_ s'. s' = s)" if "f (vm_stack s) = None"
    using assms that by (simp add: vcheck_def vspec_def vpure_def vframe_refl)
  moreover have "vspec b N A E s (vcheck f) (\<lambda>_ s'. s' = s)" if "f (vm_stack s) = Some e" for e
    using assms that unfolding vcheck_def by (intro vspec_pure) (auto intro: E_plainD)
  ultimately show ?thesis by (cases "f (vm_stack s)") auto
qed

lemma vspec_vwrap:
  assumes "state_ok s" "N \<le> n_envs s" "E_plain E" "\<And>x. r = Inr x \<Longrightarrow> Q x"
  shows "vspec b N A E s (vwrap r) (\<lambda>x s'. s' = s \<and> Q x)"
proof (cases r)
  case (Inl e)
  have "WrapErr stk e \<noteq> OutOfFuel \<and> E (WrapErr stk e) s" for stk
    using E_plainD(1) [OF assms(3) plain_err_wrap [of stk e]] plain_err_wrap [of stk e]
    by (simp add: plain_err_def)
  with Inl assms show ?thesis by (simp add: vwrap_def vspec_def vpure_def vframe_refl)
qed (use assms in \<open>simp add: vwrap_def vspec_def vpure_def vframe_refl\<close>)

lemma check_plain [simp]:
  "CheckStr lim stk pos s = Some e \<Longrightarrow> plain_err e"
  "CheckList lim stk pos n = Some e \<Longrightarrow> plain_err e"
  "CheckDict lim stk pos n = Some e \<Longrightarrow> plain_err e"
  "chkVal lim stk pos v = Some e \<Longrightarrow> plain_err e"
  by (auto simp: CheckStr_def CheckList_def CheckDict_def chkVal_def split: if_splits Value.splits)

lemma vspec_tick:
  assumes "state_ok s" "N \<le> n_envs s" "E_plain E"
  shows "vspec b N A E s (tick rt pos)
    (\<lambda>_ s'. vm_steps s' = vm_steps s + 1 \<and> n_envs s' = n_envs s
       \<and> (0 < MaxSteps (rt_lim rt) \<longrightarrow> vm_steps s' \<le> MaxSteps (rt_lim rt)))"
proof -
  have st: "state_ok (s\<lparr>vm_steps := n\<rparr>)" for n using assms(1) by (simp add: state_ok_def)
  have fr: "vframe N A s (s\<lparr>vm_steps := vm_steps s + 1\<rparr>)"
    using assms(2) by (simp add: vframe_def env_ext_refl)
  have er: "rtAbort stk p k m \<noteq> OutOfFuel \<and> E (rtAbort stk p k m) s'" for stk p k m s'
    using E_plainD(1) [OF assms(3) plain_err_simps(2) [of stk p k m]] plain_err_simps(2) [of stk p k m]
    by (simp add: plain_err_def)
  show ?thesis
    using st fr er by (auto simp: vspec_def tick_def Let_def split: option.split)
qed

lemma store_ok_val: "store_ok st \<Longrightarrow> i < length st \<Longrightarrow> eVars (st ! i) x = Some b \<Longrightarrow> val_ok (length st) (bV b)"
  by (simp add: store_ok_def)

lemma store_ok_new:
  assumes "store_ok st" "\<And>u. up = Some u \<Longrightarrow> u < length st"
  shows "store_ok (st @ [\<lparr>eUp = up, eVars = Map.empty\<rparr>])"
proof -
  have "val_ok (Suc (length st)) (bV b)" if "i < length st" "eVars (st ! i) x = Some b" for i x b
    using val_ok_mono [OF store_ok_val [OF assms(1) that]] by simp
  with assms show ?thesis by (auto simp: store_ok_def nth_append less_Suc_eq)
qed

lemma vspec_new_env:
  assumes "state_ok s" "N \<le> n_envs s" "\<And>u. up = Some u \<Longrightarrow> u < n_envs s"
  shows "vspec b N A E s (v_new_env up)
    (\<lambda>i s'. i = n_envs s \<and> n_envs s' = Suc (n_envs s) \<and> eVars (vm_envs s' ! i) = Map.empty)"
proof -
  let ?s = "s\<lparr>vm_envs := vm_envs s @ [\<lparr>eUp = up, eVars = Map.empty\<rparr>]\<rparr>"
  have "state_ok ?s"
    using assms store_ok_new [of "vm_envs s" up]
    by (auto simp: state_ok_def intro: val_ok_mono [OF _ le_SucI])
  moreover have "vframe N A s ?s"
    using assms(2) by (auto simp: vframe_def env_ext_def nth_append)
  ultimately show ?thesis by (simp add: vspec_def v_new_env_def NewEnv_def)
qed

lemma vspec_def_var:
  assumes ok: "state_ok s" "N \<le> n_envs s" and i: "i < n_envs s" and v: "val_ok (n_envs s) v"
    and new: "i < N \<Longrightarrow> i \<in> A \<and> eVars (vm_envs s ! i) name = None"
  shows "vspec b N A E s (v_def i name v c) (\<lambda>_ s'. n_envs s' = n_envs s)"
proof -
  let ?s = "s\<lparr>vm_envs := DefWith i name v c (vm_envs s)\<rparr>"
  have "state_ok ?s"
    using ok i v by (auto simp: state_ok_def store_ok_def DefWith_def Let_def nth_list_update)
  moreover have "vframe N A s ?s"
    using ok i new by (auto simp: vframe_def env_ext_def DefWith_def Let_def nth_list_update bind_ext_def
        split: option.split)
  ultimately show ?thesis by (simp add: vspec_def v_def_def DefWith_def Let_def)
qed

lemma vspec_get:
  assumes "state_ok s" "N \<le> n_envs s"
  shows "vspec b N A E s (v_get i name) (\<lambda>r s'. s' = s \<and> (\<forall>v. r = Some v \<longrightarrow> val_ok (n_envs s) v))"
  using assms env_get_ok by (auto simp: vspec_def v_get_def vframe_refl state_ok_def)

lemma vspec_has_local:
  assumes "state_ok s" "N \<le> n_envs s"
  shows "vspec b N A E s (v_has_local i name) (\<lambda>r s'. s' = s \<and> (r \<longleftrightarrow> eVars (vm_envs s ! i) name \<noteq> None))"
  using assms by (simp add: vspec_def v_has_local_def vframe_refl HasLocal_def)

lemma vspec_export:
  assumes "state_ok s" "N \<le> n_envs s" "val_ok (n_envs s) v"
  shows "vspec b N A E s (v_export c name v) (\<lambda>_ s'. n_envs s' = n_envs s)"
proof -
  have "state_ok (s\<lparr>vm_exp := smap_put name v (vm_exp s)\<rparr>)"
    using assms smap_ok_put [of "vm_exp s" name v] set_smap_put [of name v "vm_exp s"]
    by (fastforce simp: state_ok_def)
  moreover have "vframe N A s (s\<lparr>vm_exp := e\<rparr>)" for e
    using assms(2) by (simp add: vframe_def env_ext_refl)
  ultimately show ?thesis using assms by (simp add: vspec_def v_export_def vframe_refl)
qed

lemma vspec_set:
  assumes ok: "state_ok s" "N \<le> n_envs s" and v: "val_ok (n_envs s) v"
  shows "vspec b N A E s (v_set i name v) (\<lambda>_ s'. n_envs s' = n_envs s)"
proof (cases "lookup_env (vm_envs s) i name")
  case None
  with ok show ?thesis by (simp add: vspec_def v_set_def env_set_def vframe_refl)
next
  case (Some jb)
  then obtain j b where jb: "lookup_env (vm_envs s) i name = Some (j, b)" by (cases jb) auto
  note at = lookup_env_some [OF jb]
  let ?s = "s\<lparr>vm_envs := DefWith j name v False (vm_envs s)\<rparr>"
  have "state_ok ?s"
    using ok at v by (auto simp: state_ok_def store_ok_def DefWith_def Let_def nth_list_update)
  moreover have "vframe N A s ?s" if "\<not> bConst b"
    using ok at that by (auto simp: vframe_def env_ext_def DefWith_def Let_def nth_list_update bind_ext_def
        split: option.split)
  ultimately show ?thesis using ok jb
    by (auto simp: vspec_def v_set_def env_set_def vframe_refl DefWith_def Let_def)
qed

lemma vspec_assign:
  assumes "state_ok s" "N \<le> n_envs s" "val_ok (n_envs s) v" "E_plain E"
  shows "vspec b N A E s (assign i pos name v) (\<lambda>_ _. True)"
  unfolding assign_def
  by (rule vspec_bind [OF vspec_set [OF assms(1-3)], where b = b and N = N and A = A and E' = E])
    (use assms in \<open>auto intro!: vspec_verr vspec_ret\<close>)

section \<open>Natives and hosts\<close>

text \<open>
  What a native function relies on when it calls back: a callback made after a successful step of
  the native's own satisfies the contract of a call.
\<close>

definition val_result :: "Value \<Rightarrow> Vm \<Rightarrow> bool" where
  "val_result v s \<longleftrightarrow> val_ok (n_envs s) v"

definition caller_ok :: "bool \<Rightarrow> int \<Rightarrow> int \<Rightarrow> caller \<Rightarrow> bool" where
  "caller_ok b M k cv \<longleftrightarrow>
     (\<forall>s pos cal args. state_ok s \<and> val_ok (n_envs s) cal \<and> (\<forall>v \<in> set args. val_ok (n_envs s) v) \<longrightarrow>
        vspec (b \<and> k < vm_steps s \<and> (0 < M \<longrightarrow> vm_steps s \<le> M)) (n_envs s) {} no_sig s
          (cv pos cal args) val_result)"

text \<open>What the evaluator relies on when it calls a native.\<close>

definition native_ok :: "Rt \<Rightarrow> NativeFunc \<Rightarrow> bool" where
  "native_ok rt f \<longleftrightarrow>
     (\<forall>b cv pos args s. state_ok s \<and> (\<forall>v \<in> set args. val_ok (n_envs s) v)
        \<and> caller_ok b (MaxSteps (rt_lim rt)) (vm_steps s) cv \<longrightarrow>
        vspec b (n_envs s) {} no_sig s (f rt cv pos args) val_result)"

text \<open>Host objects hand out values of their own, never a script function.\<close>

definition hosts_ok :: "Hosts \<Rightarrow> bool" where
  "hosts_ok h \<longleftrightarrow> (\<forall>n lim stk pos.
     (\<forall>name v. hoMember (h n) lim stk pos name = Inr (Some v) \<longrightarrow> val_ok 0 v)
     \<and> (\<forall>key v. hoIndex (h n) lim stk pos key = Inr v \<longrightarrow> val_ok 0 v))"

definition cfg_ok :: "Cfg \<Rightarrow> bool" where
  "cfg_ok cf \<longleftrightarrow> hosts_ok (rt_hosts (cf_rt cf))
     \<and> (\<forall>name f. cf_native cf name = Some f \<longrightarrow> native_ok (cf_rt cf) f)"

section \<open>How much fuel is enough\<close>

text \<open>
  Every evaluation of an expression and every execution of a statement takes a step, so the nesting
  is bounded by the steps left: with \<open>M\<close> the step limit and \<open>t\<close> the steps taken.
\<close>

definition fuel_ev :: "int \<Rightarrow> int \<Rightarrow> nat \<Rightarrow> bool" where
  "fuel_ev M t n \<longleftrightarrow> 0 < M \<and> 0 < n \<and> 2 * (M - t) < int n"

definition fuel_cv :: "int \<Rightarrow> int \<Rightarrow> nat \<Rightarrow> bool" where
  "fuel_cv M t n \<longleftrightarrow> 0 < M \<and> 1 < n \<and> 2 * (M - t) + 1 < int n"

abbreviation max_steps :: "Cfg \<Rightarrow> int" where
  "max_steps cf \<equiv> MaxSteps (rt_lim (cf_rt cf))"

lemma fuel_mono: "fuel_cv M t n \<Longrightarrow> t \<le> t' \<Longrightarrow> fuel_cv M t' n" "fuel_ev M t n \<Longrightarrow> t \<le> t' \<Longrightarrow> fuel_ev M t' n"
  "fuel_cv M t n \<Longrightarrow> t \<le> t' \<Longrightarrow> fuel_ev M t' n"
  by (auto simp: fuel_cv_def fuel_ev_def)

lemma fuel_tick: "fuel_ev M t (Suc n) \<Longrightarrow> 0 < M \<longrightarrow> t + 1 \<le> M \<Longrightarrow> fuel_cv M (t + 1) n"
  by (auto simp: fuel_cv_def fuel_ev_def)

lemma fuel_call: "fuel_cv M t (Suc n) \<Longrightarrow> t \<le> t' \<Longrightarrow> fuel_ev M t' n"
  "fuel_cv M t (Suc n) \<Longrightarrow> t < t' \<Longrightarrow> 0 < M \<longrightarrow> t' \<le> M \<Longrightarrow> fuel_cv M t' n"
  by (auto simp: fuel_cv_def fuel_ev_def)

section \<open>Signals a statement may end in\<close>

fun sig_ok :: "controlTarget list \<Rightarrow> err \<Rightarrow> Vm \<Rightarrow> bool" where
  "sig_ok cs (RetSig v) s = val_ok (n_envs s) v"
| "sig_ok cs (BreakSig p l) s = wf_stmt cs (BreakStmt p l)"
| "sig_ok cs (ContinueSig p l) s = wf_stmt cs (ContinueStmt p l)"
| "sig_ok cs _ s = True"

lemma E_plain_sig_ok [simp]: "E_plain (sig_ok cs)"
proof -
  have "\<not> is_signal e \<Longrightarrow> sig_ok cs e s" for e s by (cases e) auto
  then show ?thesis by (simp add: E_plain_def)
qed

lemma sig_ok_mono: "sig_ok cs e s \<Longrightarrow> n_envs s \<le> n_envs s' \<Longrightarrow> sig_ok cs e s'"
  by (cases e) (auto intro: val_ok_mono)

text \<open>Leaving a switch or a loop: a signal that is not aimed at it is aimed further out.\<close>

lemma sig_ok_switch:
  "sig_ok (add_target controlSwitch l lp cs) e s \<Longrightarrow> (\<And>p l'. e = BreakSig p l' \<Longrightarrow> \<not> targets l' l) \<Longrightarrow> sig_ok cs e s"
  by (cases e) (auto simp: add_target_def targets_def inLoop_def split: if_splits)

lemma sig_ok_loop:
  "sig_ok (add_target controlLoop l lp cs) e s \<Longrightarrow> (\<And>p l'. e = BreakSig p l' \<Longrightarrow> \<not> targets l' l) \<Longrightarrow>
     (\<And>p l'. e = ContinueSig p l' \<Longrightarrow> \<not> targets l' l) \<Longrightarrow> sig_ok cs e s"
  by (cases e) (auto simp: add_target_def targets_def inLoop_def split: if_splits)

lemma vframe_unbound:
  "vframe N A s s' \<Longrightarrow> i < N \<Longrightarrow> i \<notin> A \<Longrightarrow> eVars (vm_envs s ! i) x = None \<Longrightarrow>
     eVars (vm_envs s' ! i) x = None"
  using env_ext_vars [of N A "vm_envs s" "vm_envs s'" i x] by (simp add: vframe_def bind_ext_def)

section \<open>Rules for one step and the rest\<close>

lemma vspec_keep:
  assumes m: "vspec b N A E s m (\<lambda>x s'. s' = s \<and> P x)"
    and f: "\<And>x. P x \<Longrightarrow> vspec b N A E s (f x) R"
  shows "vspec b N A E s (vbind m f) R"
  by (rule vspec_bind [OF m]) (auto intro: f)

lemma bind_pure:
  assumes "state_ok s" "N \<le> n_envs s" "E_plain E" "\<And>e. g (vm_stack s) = Inl e \<Longrightarrow> plain_err e"
    and "\<And>x. g (vm_stack s) = Inr x \<Longrightarrow> vspec b N A E s (f x) R"
  shows "vspec b N A E s (vbind (vpure g) f) R"
proof (rule vspec_keep [where P = "\<lambda>x. g (vm_stack s) = Inr x"])
  show "vspec b N A E s (vpure g) (\<lambda>x s'. s' = s \<and> g (vm_stack s) = Inr x)"
    using assms E_plainD(1) [OF assms(3)] by (intro vspec_pure) auto
qed (rule assms(5))

lemma bind_check:
  assumes "state_ok s" "N \<le> n_envs s" "E_plain E" "\<And>stk e. g stk = Some e \<Longrightarrow> plain_err e"
    and "vspec b N A E s (f ()) R"
  shows "vspec b N A E s (vbind (vcheck g) f) R"
  by (rule vspec_bind [OF vspec_vcheck [OF assms(1-4)]]) (use assms(5) in auto)

lemma bind_wrap:
  assumes "state_ok s" "N \<le> n_envs s" "E_plain E" "\<And>x. r = Inr x \<Longrightarrow> vspec b N A E s (f x) R"
  shows "vspec b N A E s (vbind (vwrap r) f) R"
  by (rule vspec_keep [OF vspec_vwrap [OF assms(1-3), where Q = "\<lambda>x. r = Inr x"]]) (use assms(4) in auto)

lemma bind_checkBound:
  assumes "state_ok s" "N \<le> n_envs s" "E_plain E" "vspec b N A E s (f ()) R"
  shows "vspec b N A E s (vbind (checkBound rt pos v) f) R"
  unfolding checkBound_def by (rule bind_check [OF assms(1-3)]) (use assms(4) in auto)

lemma bind_tick:
  assumes "state_ok s" "N \<le> n_envs s" "E_plain E"
    and "\<And>s1. state_ok s1 \<Longrightarrow> n_envs s1 = n_envs s \<Longrightarrow> vm_steps s1 = vm_steps s + 1 \<Longrightarrow>
      (0 < MaxSteps (rt_lim rt) \<longrightarrow> vm_steps s1 \<le> MaxSteps (rt_lim rt)) \<Longrightarrow> vspec b N A E s1 (f ()) R"
  shows "vspec b N A E s (vbind (tick rt pos) f) R"
  by (rule vspec_bind [OF vspec_tick [OF assms(1-3)]]) (auto intro: assms(4))

lemma bind_new_env:
  assumes "state_ok s" "N \<le> n_envs s" "\<And>u. up = Some u \<Longrightarrow> u < n_envs s"
    and "\<And>s1. state_ok s1 \<Longrightarrow> n_envs s1 = Suc (n_envs s) \<Longrightarrow> vm_steps s \<le> vm_steps s1 \<Longrightarrow>
      vspec b N A E s1 (f (n_envs s)) R"
  shows "vspec b N A E s (vbind (v_new_env up) f) R"
  by (rule vspec_bind [OF vspec_new_env [OF assms(1-3), where E = E]]) (auto intro: assms(4))

lemma bind_def_var:
  assumes "state_ok s" "N \<le> n_envs s" "i < n_envs s" "val_ok (n_envs s) v"
    and "i < N \<Longrightarrow> i \<in> A \<and> eVars (vm_envs s ! i) name = None"
    and "\<And>s1. state_ok s1 \<Longrightarrow> n_envs s1 = n_envs s \<Longrightarrow> vm_steps s \<le> vm_steps s1 \<Longrightarrow>
      vspec b N A E s1 (f ()) R"
  shows "vspec b N A E s (vbind (v_def i name v c) f) R"
  by (rule vspec_bind [OF vspec_def_var [OF assms(1-5), where E = E]]) (auto intro: assms(6))

section \<open>Operators, members and indexes\<close>

lemma vspec_cmp:
  "state_ok s \<Longrightarrow> N \<le> n_envs s \<Longrightarrow> E_plain E \<Longrightarrow> vspec b N A E s (v_cmp pos op l r) val_result"
  unfolding v_cmp_def by (auto intro!: vspec_ret vspec_verr simp: val_result_def split: Value.split)

lemma ToStr_plain: "ToStr h lim stk pos v = Inl e \<Longrightarrow> plain_err e"
  by (auto simp: ToStr_def encode_limited_def cannot_stringify_def split: Value.splits option.splits if_splits)

lemma vspec_add:
  assumes ok: "state_ok s" "N \<le> n_envs s" "E_plain E"
  shows "vspec b N A E s (v_add rt pos l r) val_result"
proof -
  have "vspec b N A E s
     (vbind (vpure (\<lambda>stk. ToStr (rt_hosts rt) (rt_lim rt) stk pos l)) (\<lambda>ls.
      vbind (vpure (\<lambda>stk. ToStr (rt_hosts rt) (rt_lim rt) stk pos r)) (\<lambda>rs.
      vbind (vcheck (\<lambda>stk. CheckStr (rt_lim rt) stk pos (ls @ rs))) (\<lambda>_. vret (VStr (ls @ rs))))))
     val_result"
    by (intro bind_pure bind_check vspec_ret ok) (auto simp: val_result_def dest: ToStr_plain)
  then show ?thesis using ok unfolding v_add_def
    by (auto intro!: vspec_ret simp: val_result_def split: Value.split)
qed

lemma vspec_arith:
  assumes ok: "state_ok s" "N \<le> n_envs s" "E_plain E"
  shows "vspec b N A E s (v_arith pos op l r) val_result"
  unfolding v_arith_def
  by (intro bind_wrap ok) (use ok in \<open>auto intro!: vspec_ret vspec_verr simp: val_result_def split: BinOp.split\<close>)

lemma vspec_bin_strict:
  assumes "state_ok s" "N \<le> n_envs s" "E_plain E"
  shows "vspec b N A E s (bin_strict rt pos op l r) val_result"
  unfolding bin_strict_def
  by (cases op) (use assms in \<open>auto intro!: vspec_ret vspec_verr vspec_cmp vspec_arith vspec_add simp: val_result_def\<close>)

lemma bind_listIndex:
  assumes "state_ok s" "N \<le> n_envs s" "E_plain E" "\<And>i. vspec b N A E s (f i) R"
  shows "vspec b N A E s (vbind (listIndex pos idx) f) R"
proof (rule vspec_keep [where P = "\<lambda>_. True"])
  show "vspec b N A E s (listIndex pos idx) (\<lambda>x s'. s' = s \<and> True)"
    unfolding listIndex_def using assms by (auto intro!: vspec_ret vspec_verr split: Value.split)
qed (rule assms(4))

lemma or_null_ok: "(\<And>v. r = Some v \<Longrightarrow> val_ok n v) \<Longrightarrow> val_ok n (or_null r)"
  by (simp add: or_null_def split: option.split)

lemma map_of_ok: "\<forall>kv \<in> set m. val_ok n (snd kv) \<Longrightarrow> map_of m k = Some v \<Longrightarrow> val_ok n v"
  by (force dest: map_of_SomeD)

lemma dict_get_ok: "\<forall>kv \<in> set m. val_ok n (snd kv) \<Longrightarrow> val_ok n (or_null (map_of m k))"
  by (rule or_null_ok) (rule map_of_ok)

lemma val_ok_zero: "val_ok 0 v \<Longrightarrow> val_ok n v"
  by (erule val_ok_mono) (rule le0)

lemma obj_member_ok:
  assumes "hosts_ok h" "obj_ok n ob" "obj_member h lim stk pos ob name = Inr (Some v)"
  shows "val_ok n v"
proof (cases ob)
  case (HostObj i)
  with assms show ?thesis by (simp add: hosts_ok_def val_ok_zero)
next
  case (ResultObj r v' e)
  with assms show ?thesis by (auto split: if_splits option.splits)
qed (use assms map_of_ok in auto)

lemma obj_index_ok:
  assumes "hosts_ok h" "obj_ok n ob" "obj_index h lim stk pos ob key = Inr v"
  shows "val_ok n v"
proof -
  have other: "(case Key pos key of Inl e \<Rightarrow> Inl e
      | Inr k \<Rightarrow> (case obj_member h lim stk pos ob k of Inl e \<Rightarrow> Inl e | Inr r \<Rightarrow> Inr (or_null r))) = Inr v
      \<Longrightarrow> val_ok n v"
    using obj_member_ok [OF assms(1,2)] by (auto intro: or_null_ok split: sum.splits)
  show ?thesis
  proof (cases ob)
    case (HostObj i)
    with assms show ?thesis by (simp add: hosts_ok_def val_ok_zero)
  next
    case (ResultObj r v' e)
    show ?thesis using assms(3) other unfolding ResultObj by simp
  next
    case (ModObj nm m)
    show ?thesis using assms(3) other unfolding ModObj by simp
  next
    case (ObjMap nm m)
    show ?thesis using assms(3) other unfolding ObjMap by simp
  qed
qed

lemma vspec_vwrap_value:
  "state_ok s \<Longrightarrow> N \<le> n_envs s \<Longrightarrow> E_plain E \<Longrightarrow> (\<And>v. r = Inr v \<Longrightarrow> val_ok (n_envs s) v) \<Longrightarrow>
     vspec b N A E s (vwrap r) val_result"
  by (rule vspec_weaken [OF vspec_vwrap [where Q = "val_ok (n_envs s)"]]) (auto simp: val_result_def)

lemma vspec_evalIndex:
  assumes ok: "state_ok s" "N \<le> n_envs s" "E_plain E" and h: "hosts_ok (rt_hosts rt)"
    and x: "val_ok (n_envs s) x"
  shows "vspec b N A E s (evalIndex rt pos x idx) val_result"
proof -
  have list: "vspec b N A E s (vbind (listIndex pos idx) (\<lambda>i.
        if i < 0 \<or> i \<ge> int (length xs) then vret VNull else vret (xs ! nat i))) val_result" if "x = VList xs" for xs
    by (intro bind_listIndex vspec_if vspec_ret ok) (use x that in \<open>auto simp: val_result_def\<close>)
  have dict: "vspec b N A E s (vbind (vwrap (Key pos idx)) (\<lambda>k. vret (or_null (map_of m k)))) val_result"
    if "x = VDict m" for m
    by (intro bind_wrap vspec_ret ok) (use x that in \<open>simp add: val_result_def dict_get_ok\<close>)
  have obj: "vspec b N A E s (vbind (checkBound rt pos x) (\<lambda>_.
       vbind (vpure (\<lambda>stk. Inr (obj_index (rt_hosts rt) (rt_lim rt) stk pos ob idx))) vwrap)) val_result"
    if "x = VObj (Some ob)" for ob
    by (intro bind_checkBound bind_pure vspec_vwrap_value ok) (use x that h in \<open>auto intro: obj_index_ok\<close>)
  show ?thesis
    unfolding evalIndex_def using list dict obj
    by (cases x) (auto intro!: vspec_verr ok split: option.split)
qed

lemma vspec_evalMember:
  assumes ok: "state_ok s" "N \<le> n_envs s" "E_plain E" and h: "hosts_ok (rt_hosts rt)"
    and x: "val_ok (n_envs s) x"
  shows "vspec b N A E s (evalMember rt pos x name) val_result"
proof -
  have obj: "vspec b N A E s (vbind (checkBound rt pos x) (\<lambda>_.
       vbind (vpure (\<lambda>stk. Inr (obj_member (rt_hosts rt) (rt_lim rt) stk pos ob name))) (\<lambda>r.
       vbind (vwrap r) (\<lambda>v. vret (or_null v))))) val_result"
    if "x = VObj (Some ob)" for ob
    by (intro bind_checkBound bind_pure bind_wrap vspec_ret ok)
      (use x that h in \<open>auto intro!: or_null_ok obj_member_ok simp: val_result_def\<close>)
  have dict: "vspec b N A E s (vret (or_null (map_of m name))) val_result" if "x = VDict m" for m
    by (intro vspec_ret ok) (use x that in \<open>simp add: val_result_def dict_get_ok\<close>)
  show ?thesis
    unfolding evalMember_def using obj dict
    by (cases x) (auto intro!: vspec_verr ok split: option.split)
qed

lemma vspec_with_frame:
  assumes s: "state_ok s"
    and m: "\<And>s1. state_ok s1 \<Longrightarrow> n_envs s1 = n_envs s \<Longrightarrow> vm_steps s1 = vm_steps s \<Longrightarrow> vspec b N A E s1 m Q"
    and keep: "\<And>e s1 s2. vm_envs s2 = vm_envs s1 \<Longrightarrow> E e s1 \<Longrightarrow> E e s2"
      "\<And>x s1 s2. vm_envs s2 = vm_envs s1 \<Longrightarrow> Q x s1 \<Longrightarrow> Q x s2"
  shows "vspec b N A E s (with_frame d f m) Q"
proof -
  let ?s = "s\<lparr>vm_stack := vm_stack s @ [f], vm_depth := vm_depth s + d\<rparr>"
  have "vspec b N A E ?s m Q" by (rule m) (use s in \<open>simp_all add: state_ok_def\<close>)
  then show ?thesis
    by (cases "m ?s")
      (auto simp: vspec_def with_frame_def vframe_def state_ok_def env_ext_def
        intro: keep split: sum.splits if_splits)
qed

lemma no_sig_keep: "no_sig e s1 \<Longrightarrow> no_sig e s2"
  by (simp add: no_sig_def)

lemma val_result_keep: "vm_envs s2 = vm_envs s1 \<Longrightarrow> val_result v s1 \<Longrightarrow> val_result v s2"
  by (simp add: val_result_def)

lemma spec_def_args:
  "state_ok s \<Longrightarrow> N \<le> env \<Longrightarrow> env < n_envs s \<Longrightarrow> \<forall>v \<in> set vs. val_ok (n_envs s) v \<Longrightarrow>
    vspec b N A E s (def_args env as vs) (\<lambda>_ s'. n_envs s' = n_envs s)"
proof (induction env as vs arbitrary: s rule: def_args.induct)
  case (1 env a as v vs)
  show ?case
    unfolding def_args.simps
  proof (rule bind_def_var)
    fix s1
    assume s1: "state_ok s1" "n_envs s1 = n_envs s"
    have "vspec b N A E s1 (def_args env as vs) (\<lambda>_ s'. n_envs s' = n_envs s1)"
      by (rule "1.IH") (use 1 s1 in auto)
    then show "vspec b N A E s1 (def_args env as vs) (\<lambda>_ s'. n_envs s' = n_envs s)" using s1 by simp
  qed (use 1 in auto)
qed (auto intro: vspec_ret)

section \<open>One level of the evaluator\<close>

text \<open>
  The interface between the evaluator's methods and the calls they make back into it: what \<open>ev\<close>,
  \<open>ex\<close> and \<open>cv\<close> promise, given a well-formed state and enough fuel for their level \<open>n\<close>.
\<close>

locale vm_level =
  fixes cf :: Cfg and n :: nat and ev :: evaluator and ex :: executor and cv :: caller
  assumes ev: "cfg_ok cf \<Longrightarrow> state_ok s \<Longrightarrow> env < n_envs s \<Longrightarrow>
      vspec (fuel_ev (max_steps cf) (vm_steps s) n) (n_envs s) {} no_sig s (ev env x) val_result"
    and ex: "cfg_ok cf \<Longrightarrow> state_ok s \<Longrightarrow> env < n_envs s \<Longrightarrow> wf_stmt cs st \<Longrightarrow>
      vspec (fuel_ev (max_steps cf) (vm_steps s) n) (n_envs s) {env} (sig_ok cs) s (ex env exp st) (\<lambda>_ _. True)"
    and cv: "cfg_ok cf \<Longrightarrow> state_ok s \<Longrightarrow> val_ok (n_envs s) cal \<Longrightarrow> \<forall>v \<in> set args. val_ok (n_envs s) v \<Longrightarrow>
      vspec (fuel_cv (max_steps cf) (vm_steps s) n) (n_envs s) {} no_sig s (cv pos cal args) val_result"
begin

abbreviation enough :: "Vm \<Rightarrow> bool" where
  "enough s \<equiv> fuel_cv (max_steps cf) (vm_steps s) n"

abbreviation rt :: Rt where
  "rt \<equiv> cf_rt cf"

lemma bind_ev:
  assumes "cfg_ok cf" "state_ok s" "env < n_envs s" "N \<le> n_envs s" "E_plain E" "b \<Longrightarrow> enough s"
    and "\<And>v s1. state_ok s1 \<Longrightarrow> n_envs s \<le> n_envs s1 \<Longrightarrow> vm_steps s \<le> vm_steps s1 \<Longrightarrow>
      vframe (n_envs s) {} s s1 \<Longrightarrow> val_ok (n_envs s1) v \<Longrightarrow> vspec b N A E s1 (f v) R"
  shows "vspec b N A E s (vbind (ev env x) f) R"
  by (rule vspec_bind [OF ev [OF assms(1-3)] _ assms(4)])
    (use assms(5-) in \<open>auto simp: val_result_def intro: E_plainD fuel_mono(3)\<close>)

lemma spec_ev:
  assumes "cfg_ok cf" "state_ok s" "env < n_envs s" "N \<le> n_envs s" "E_plain E" "b \<Longrightarrow> enough s"
  shows "vspec b N A E s (ev env x) val_result"
  by (rule vspec_weaken [OF ev [OF assms(1-3)]])
    (use assms(4-) in \<open>auto intro: E_plainD fuel_mono(3)\<close>)

lemma spec_evalBin:
  assumes cf: "cfg_ok cf" and s: "state_ok s" "env < n_envs s" "N \<le> n_envs s" "E_plain E"
  shows "vspec (enough s) N A E s (evalBin rt ev env pos op l r) val_result"
  unfolding evalBin_def Let_def
  by (intro vspec_if bind_ev vspec_ret vspec_bin_strict spec_ev cf s)
    (use s in \<open>auto simp: val_result_def intro: fuel_mono\<close>)

lemma spec_eval_list:
  assumes cf: "cfg_ok cf"
  shows "state_ok s \<Longrightarrow> env < n_envs s \<Longrightarrow> N \<le> n_envs s \<Longrightarrow> E_plain E \<Longrightarrow> (b \<Longrightarrow> enough s) \<Longrightarrow>
    vspec b N A E s (eval_list ev env xs) (\<lambda>vs s'. \<forall>v \<in> set vs. val_ok (n_envs s') v)"
proof (induction xs arbitrary: s)
  case (Cons x xs)
  show ?case
    unfolding eval_list.simps
  proof (rule bind_ev [OF cf Cons.prems], assumption)
    fix v s1
    assume a: "state_ok s1" "n_envs s \<le> n_envs s1" "vm_steps s \<le> vm_steps s1" "val_ok (n_envs s1) v"
    have "vspec b N A E s1 (eval_list ev env xs) (\<lambda>vs s'. \<forall>v \<in> set vs. val_ok (n_envs s') v)"
      by (rule Cons.IH) (use Cons.prems a in \<open>auto intro: fuel_mono\<close>)
    then show "vspec b N A E s1 (vbind (eval_list ev env xs) (\<lambda>vs. vret (v # vs)))
        (\<lambda>vs s'. \<forall>v \<in> set vs. val_ok (n_envs s') v)"
      by (rule vspec_bind) (use Cons.prems a in \<open>auto intro!: vspec_ret intro: val_ok_mono\<close>)
  qed
qed (simp add: vspec_ret)

lemma spec_eval_dict:
  assumes cf: "cfg_ok cf"
  shows "state_ok s \<Longrightarrow> env < n_envs s \<Longrightarrow> N \<le> n_envs s \<Longrightarrow> E_plain E \<Longrightarrow> (b \<Longrightarrow> enough s) \<Longrightarrow>
    val_ok (n_envs s) (VDict out) \<Longrightarrow>
    vspec b N A E s (eval_dict rt ev env es out) (\<lambda>m s'. val_ok (n_envs s') (VDict m))"
proof (induction es arbitrary: s out)
  case (Cons e es)
  obtain kp key x where e: "e = (kp, key, x)" by (cases e)
  have put: "val_ok k (VDict (smap_put key v m))" if "val_ok k (VDict m)" "val_ok k v" for k v m
    using that smap_ok_put [of m key v] set_smap_put [of key v m] by fastforce
  show ?case
    unfolding e eval_dict.simps
    by (intro bind_check bind_ev [OF cf] Cons.IH put)
      (use Cons.prems in \<open>auto intro: fuel_mono val_ok_mono\<close>)
qed (simp add: vspec_ret)

lemma spec_evalTry:
  assumes cf: "cfg_ok cf" and s: "state_ok s" "env < n_envs s" "N \<le> n_envs s" "E_plain E"
  shows "vspec (enough s) N A E s (evalTry ev env x) val_result"
  unfolding evalTry_def
proof (rule vspec_catch [OF ev [OF cf s(1,2)] _ s(3)], goal_cases)
  case (1)
  then show ?case by (rule fuel_mono(3)) simp
next
  case (3 v s1)
  then show ?case by (auto intro!: vspec_ret simp: val_result_def newResult_def)
next
  case (4 e s1)
  then show ?case using s(4)
    by (auto intro!: vspec_ret vspec_fail intro: E_plainD simp: val_result_def newResult_def)
qed simp_all

lemma spec_cv:
  assumes "cfg_ok cf" "state_ok s" "val_ok (n_envs s) cal" "\<forall>v \<in> set args. val_ok (n_envs s) v"
    and "N \<le> n_envs s" "E_plain E" "b \<Longrightarrow> enough s"
  shows "vspec b N A E s (cv pos cal args) val_result"
  by (rule vspec_weaken [OF cv [OF assms(1-4)]]) (use assms(5-) in \<open>auto intro: E_plainD\<close>)

lemma bind_eval_list:
  assumes "cfg_ok cf" "state_ok s" "env < n_envs s" "N \<le> n_envs s" "E_plain E" "b \<Longrightarrow> enough s"
    and "\<And>vs s1. state_ok s1 \<Longrightarrow> n_envs s \<le> n_envs s1 \<Longrightarrow> vm_steps s \<le> vm_steps s1 \<Longrightarrow>
      \<forall>v \<in> set vs. val_ok (n_envs s1) v \<Longrightarrow> vspec b N A E s1 (f vs) R"
  shows "vspec b N A E s (vbind (eval_list ev env xs) f) R"
proof -
  have "vspec b N A E s (eval_list ev env xs) (\<lambda>vs s'. \<forall>v \<in> set vs. val_ok (n_envs s') v)"
    by (rule spec_eval_list) (use assms(1-6) in auto)
  then show ?thesis by (rule vspec_bind) (use assms(7) in auto)
qed

lemma spec_eval:
  assumes cf: "cfg_ok cf" and s: "state_ok s" "env < n_envs s"
  shows "vspec (fuel_ev (max_steps cf) (vm_steps s) (Suc n)) (n_envs s) {} no_sig s (eval rt ev cv env x) val_result"
  unfolding eval_def
proof (rule bind_tick [OF s(1) order_refl], simp)
  fix s1
  assume s1: "state_ok s1" "n_envs s1 = n_envs s" "vm_steps s1 = vm_steps s + 1"
    "0 < MaxSteps (rt_lim rt) \<longrightarrow> vm_steps s1 \<le> MaxSteps (rt_lim rt)"
  have h: "hosts_ok (rt_hosts rt)" using cf by (simp add: cfg_ok_def)
  have en: "fuel_ev (max_steps cf) (vm_steps s) (Suc n) \<Longrightarrow> enough s1"
    using fuel_tick s1 by auto
  have e1: "env < n_envs s1" "n_envs s1 \<le> n_envs s1" "E_plain no_sig" using s s1 by simp_all
  have call: "vspec (enough s1) (n_envs s1) {} no_sig s1
      (vbind (ev env f) (\<lambda>cal. vbind (eval_list ev env args) (\<lambda>vs. cv pos cal vs))) val_result" for f args pos
    by (intro bind_ev bind_eval_list spec_cv cf s1(1) e1) (use e1 in \<open>auto intro: fuel_mono val_ok_mono\<close>)
  have idx: "vspec (enough s1) (n_envs s1) {} no_sig s1
      (vbind (ev env a) (\<lambda>v. vbind (ev env i) (\<lambda>idx. evalIndex rt pos v idx))) val_result" for a i pos
    by (intro bind_ev vspec_evalIndex cf s1(1) e1 h) (use e1 in \<open>auto intro: fuel_mono val_ok_mono\<close>)
  have mem: "vspec (enough s1) (n_envs s1) {} no_sig s1
      (vbind (ev env a) (\<lambda>v. evalMember rt pos v name)) val_result" for a pos name
    by (intro bind_ev vspec_evalMember cf s1(1) e1 h) (use e1 in \<open>auto intro: fuel_mono\<close>)
  have tern: "vspec (enough s1) (n_envs s1) {} no_sig s1
      (vbind (ev env c) (\<lambda>v. if IsTruthy (rt_hosts rt) v then ev env a else ev env b)) val_result" for c a b
    by (intro bind_ev vspec_if spec_ev cf s1(1) e1) (use e1 in \<open>auto intro: fuel_mono\<close>)
  have un: "vspec (enough s1) (n_envs s1) {} no_sig s1
      (vbind (ev env a) (\<lambda>v. case op of
               UnNot \<Rightarrow> vret (VBool (\<not> IsTruthy (rt_hosts rt) v))
             | UnNeg \<Rightarrow> vbind (vwrap (toNum pos v)) (\<lambda>n. vret (VNum (f_neg n))))) val_result" for a op pos
    by (cases op; simp; intro bind_ev bind_wrap vspec_ret cf s1(1) e1)
      (use e1 in \<open>auto intro: fuel_mono simp: val_result_def\<close>)
  have id: "vspec (enough s1) (n_envs s1) {} no_sig s1
      (vbind (v_get env name) (\<lambda>r. case r of
               None \<Rightarrow> verr pos (''undefined name '' @ quote_ascii name)
             | Some v \<Rightarrow> vbind (checkBound rt pos v) (\<lambda>_. vret v))) val_result" for name pos
    by (rule vspec_keep [OF vspec_get [OF s1(1) e1(2)]])
      (use s1 e1 in \<open>auto intro!: vspec_verr bind_checkBound vspec_ret simp: val_result_def split: option.split\<close>)
  have lit: "vspec (enough s1) (n_envs s1) {} no_sig s1
      (vbind (vcheck (\<lambda>stk. CheckStr (rt_lim rt) stk pos str)) (\<lambda>_. vret (VStr str))) val_result" for pos str
    by (intro bind_check vspec_ret s1(1) e1) (auto simp: val_result_def)
  have lst: "vspec (enough s1) (n_envs s1) {} no_sig s1
      (vbind (vcheck (\<lambda>stk. CheckList (rt_lim rt) stk pos (length xs))) (\<lambda>_.
           vbind (eval_list ev env xs) (\<lambda>vs. vret (VList vs)))) val_result" for pos xs
    by (intro bind_check bind_eval_list vspec_ret cf s1(1) e1) (use e1 in \<open>auto simp: val_result_def\<close>)
  have dct: "vspec (enough s1) (n_envs s1) {} no_sig s1
      (vbind (vcheck (\<lambda>stk. CheckDict (rt_lim rt) stk pos (length es))) (\<lambda>_.
           vbind (eval_dict rt ev env es []) (\<lambda>m. vret (VDict m)))) val_result" for pos es
  proof (intro bind_check s1(1) e1)
    have "vspec (enough s1) (n_envs s1) {} no_sig s1 (eval_dict rt ev env es [])
        (\<lambda>m s'. val_ok (n_envs s') (VDict m))"
      by (rule spec_eval_dict [OF cf s1(1) e1]) auto
    then show "vspec (enough s1) (n_envs s1) {} no_sig s1
        (vbind (eval_dict rt ev env es []) (\<lambda>m. vret (VDict m))) val_result"
      by (rule vspec_bind) (auto intro!: vspec_ret simp: val_result_def)
  qed auto
  let ?go = "case x of
         Ident pos name \<Rightarrow>
           vbind (v_get env name) (\<lambda>r. case r of
               None \<Rightarrow> verr pos (''undefined name '' @ quote_ascii name)
             | Some v \<Rightarrow> vbind (checkBound rt pos v) (\<lambda>_. vret v))
       | Literal pos lit \<Rightarrow>
           (case lit of
              LitStr s \<Rightarrow> vbind (vcheck (\<lambda>stk. CheckStr (rt_lim rt) stk pos s)) (\<lambda>_. vret (VStr s))
            | _ \<Rightarrow> vret (lit_value lit))
       | Unary pos op a \<Rightarrow>
           vbind (ev env a) (\<lambda>v. case op of
               UnNot \<Rightarrow> vret (VBool (\<not> IsTruthy (rt_hosts rt) v))
             | UnNeg \<Rightarrow> vbind (vwrap (toNum pos v)) (\<lambda>n. vret (VNum (f_neg n))))
       | Binary pos op a b \<Rightarrow> evalBin rt ev env pos op a b
       | Ternary pos c a b \<Rightarrow>
           vbind (ev env c) (\<lambda>v. if IsTruthy (rt_hosts rt) v then ev env a else ev env b)
       | TryExpr pos a \<Rightarrow> evalTry ev env a
       | Call pos f args \<Rightarrow>
           vbind (ev env f) (\<lambda>cal. vbind (eval_list ev env args) (\<lambda>vs. cv pos cal vs))
       | Index pos a i \<Rightarrow>
           vbind (ev env a) (\<lambda>v. vbind (ev env i) (\<lambda>idx. evalIndex rt pos v idx))
       | Member pos a name \<Rightarrow> vbind (ev env a) (\<lambda>v. evalMember rt pos v name)
       | ListLit pos xs \<Rightarrow>
           vbind (vcheck (\<lambda>stk. CheckList (rt_lim rt) stk pos (length xs))) (\<lambda>_.
           vbind (eval_list ev env xs) (\<lambda>vs. vret (VList vs)))
       | DictLit pos es \<Rightarrow>
           vbind (vcheck (\<lambda>stk. CheckDict (rt_lim rt) stk pos (length es))) (\<lambda>_.
           vbind (eval_dict rt ev env es []) (\<lambda>m. vret (VDict m)))"
  have "vspec (enough s1) (n_envs s1) {} no_sig s1 ?go val_result"
  proof (cases x)
    case (Literal pos l)
    then show ?thesis using lit s1 by (cases l) (auto intro!: vspec_ret simp: val_result_def)
  qed (simp_all only: Expr.case id un tern call idx mem lst dct
      spec_evalBin [OF cf s1(1) e1] spec_evalTry [OF cf s1(1) e1])
  then show "vspec (fuel_ev (max_steps cf) (vm_steps s) (Suc n)) (n_envs s) {} no_sig s1 ?go val_result"
    by (rule vspec_weaken) (use en s1 in auto)
qed

subsection \<open>Blocks\<close>

lemma bind_ex:
  assumes "cfg_ok cf" "state_ok s" "env < n_envs s" "wf_stmt cs st" "N \<le> n_envs s" "env < N \<Longrightarrow> env \<in> A"
    and "b \<Longrightarrow> fuel_ev (max_steps cf) (vm_steps s) n"
    and "\<And>s1. state_ok s1 \<Longrightarrow> n_envs s \<le> n_envs s1 \<Longrightarrow> vm_steps s \<le> vm_steps s1 \<Longrightarrow>
      vspec b N A (sig_ok cs) s1 (f ()) R"
  shows "vspec b N A (sig_ok cs) s (vbind (ex env exp st) f) R"
  by (rule vspec_bind [OF ex [OF assms(1-4)] _ assms(5)])
    (use assms(6-) in auto)

lemma spec_exec_stmts:
  assumes cf: "cfg_ok cf"
  shows "state_ok s \<Longrightarrow> env < n_envs s \<Longrightarrow> N \<le> n_envs s \<Longrightarrow> (env < N \<Longrightarrow> env \<in> A) \<Longrightarrow>
    (b \<Longrightarrow> fuel_ev (max_steps cf) (vm_steps s) n) \<Longrightarrow> \<forall>st \<in> set sts. wf_stmt cs st \<Longrightarrow>
    vspec b N A (sig_ok cs) s (exec_stmts ex env exp sts) (\<lambda>_ _. True)"
proof (induction sts arbitrary: s)
  case (Cons st sts)
  show ?case
    unfolding exec_stmts.simps
    by (intro bind_ex [OF cf] Cons.IH) (use Cons.prems in \<open>auto intro: fuel_mono\<close>)
qed (simp add: vspec_ret)

lemma spec_execBlock_ev:
  assumes cf: "cfg_ok cf" and s: "state_ok s" "up < n_envs s" "N \<le> n_envs s" "b \<Longrightarrow> fuel_ev (max_steps cf) (vm_steps s) n"
    and wf: "wf_block cs blk"
  shows "vspec b N A (sig_ok cs) s (execBlock ex up exp blk) (\<lambda>_ _. True)"
proof (cases blk)
  case (Block p sts)
  show ?thesis
    unfolding execBlock_def Block Block.case
    by (intro bind_new_env spec_exec_stmts [OF cf]) (use s wf Block in \<open>auto intro: fuel_mono\<close>)
qed

lemma spec_execBlock:
  assumes "cfg_ok cf" "state_ok s" "up < n_envs s" "N \<le> n_envs s" "b \<Longrightarrow> enough s" "wf_block cs blk"
  shows "vspec b N A (sig_ok cs) s (execBlock ex up exp blk) (\<lambda>_ _. True)"
  by (rule spec_execBlock_ev) (use assms in \<open>auto intro: fuel_mono(3)\<close>)

lemma spec_exec_elifs:
  assumes cf: "cfg_ok cf"
  shows "state_ok s \<Longrightarrow> env < n_envs s \<Longrightarrow> N \<le> n_envs s \<Longrightarrow> (b \<Longrightarrow> enough s) \<Longrightarrow>
    \<forall>eb \<in> set es. wf_block cs (snd eb) \<Longrightarrow> \<forall>b \<in> set_option els. wf_block cs b \<Longrightarrow>
    vspec b N A (sig_ok cs) s (exec_elifs rt ev ex env exp es els) (\<lambda>_ _. True)"
proof (induction es arbitrary: s)
  case Nil
  then show ?case by (auto intro!: vspec_ret spec_execBlock cf split: option.split)
next
  case (Cons e es)
  obtain c blk where e: "e = (c, blk)" by (cases e)
  show ?case
    unfolding e exec_elifs.simps
    by (intro bind_ev [OF cf] vspec_if spec_execBlock [OF cf] Cons.IH)
      (use Cons.prems e in \<open>auto intro: fuel_mono\<close>)
qed

subsection \<open>Switch\<close>

lemma spec_matchCase:
  assumes cf: "cfg_ok cf"
  shows "state_ok s \<Longrightarrow> env < n_envs s \<Longrightarrow> N \<le> n_envs s \<Longrightarrow> E_plain E \<Longrightarrow> (b \<Longrightarrow> enough s) \<Longrightarrow>
    vspec b N A E s (matchCase rt ev env tag xs) (\<lambda>_ _. True)"
proof (induction xs arbitrary: s)
  case (Cons x xs)
  show ?case
    unfolding matchCase.simps
    by (intro bind_ev [OF cf] vspec_if vspec_ret Cons.IH) (use Cons.prems in \<open>auto intro: fuel_mono\<close>)
qed (simp add: vspec_ret)

lemma spec_execClause:
  assumes cf: "cfg_ok cf" and s: "state_ok s" "up < n_envs s" "N \<le> n_envs s" "b \<Longrightarrow> enough s"
    and wf: "\<forall>blk \<in> set_option body. wf_block (add_target controlSwitch label lp cs) blk"
  shows "vspec b N A (sig_ok cs) s (execClause ex up exp label body) (\<lambda>_ _. True)"
proof -
  have "vspec b N A (sig_ok (add_target controlSwitch label lp cs)) s
      (case body of Some blk \<Rightarrow> execBlock ex up exp blk | None \<Rightarrow> vret ()) (\<lambda>_ _. True)"
    using s wf by (auto intro!: vspec_ret spec_execBlock cf split: option.split)
  then show ?thesis
    unfolding execClause_def
  proof (rule vspec_catch, goal_cases)
    case (5 e s1)
    show ?case
    proof (cases "\<exists>p l. e = BreakSig p l \<and> targets l label")
      case True
      then show ?thesis using 5 by (auto intro!: vspec_ret)
    next
      case False
      with sig_ok_switch [OF 5(5)] have sg: "sig_ok cs e s1" by blast
      have "(case Inl e :: err + unit of
           Inl (BreakSig p l) \<Rightarrow> (if targets l label then vret () else vfail (BreakSig p l))
         | Inl e \<Rightarrow> vfail e | Inr u \<Rightarrow> vret u) = vfail e"
        using False by (auto split: err.split)
      then show ?thesis using 5 sg by (simp add: vspec_fail)
    qed
  qed (auto intro: vspec_ret)
qed

lemma spec_switch_loop:
  assumes cf: "cfg_ok cf"
  shows "state_ok s \<Longrightarrow> up < n_envs s \<Longrightarrow> N \<le> n_envs s \<Longrightarrow> (b \<Longrightarrow> enough s) \<Longrightarrow>
    \<forall>c \<in> set cls. wf_block (add_target controlSwitch label lp cs) (snd (snd c)) \<Longrightarrow>
    \<forall>blk \<in> set_option def. wf_block (add_target controlSwitch label lp cs) blk \<Longrightarrow>
    vspec b N A (sig_ok cs) s (switch_loop rt ev ex up exp label tag cls def) (\<lambda>_ _. True)"
proof (induction cls arbitrary: s def)
  case Nil
  then show ?case by (auto intro!: spec_execClause cf)
next
  case (Cons c cls)
  obtain p xs blk where c: "c = (p, xs, blk)" by (cases c)
  have m: "vspec b N A (sig_ok cs) s (matchCase rt ev up tag xs) (\<lambda>_ _. True)"
    by (rule spec_matchCase [OF cf]) (use Cons.prems in auto)
  show ?case
    unfolding c switch_loop.simps
  proof (rule vspec_if)
    show "vspec b N A (sig_ok cs) s (switch_loop rt ev ex up exp label tag cls (Some blk)) (\<lambda>_ _. True)"
      by (rule Cons.IH) (use Cons.prems c in auto)
    show "vspec b N A (sig_ok cs) s (vbind (matchCase rt ev up tag xs) (\<lambda>m.
        if m then execClause ex up exp label (Some blk)
        else switch_loop rt ev ex up exp label tag cls def)) (\<lambda>_ _. True)"
      by (rule vspec_bind [OF m], auto intro!: spec_execClause cf Cons.IH)
        (use Cons.prems c in \<open>auto intro: fuel_mono\<close>)
  qed
qed

lemma spec_execSwitch:
  assumes cf: "cfg_ok cf" and s: "state_ok s" "up < n_envs s" "N \<le> n_envs s" "b \<Longrightarrow> enough s"
    and wf: "\<forall>c \<in> set cls. wf_block (add_target controlSwitch label lp cs) (snd (snd c))"
  shows "vspec b N A (sig_ok cs) s (execSwitch rt ev ex up exp label tag cls) (\<lambda>_ _. True)"
  unfolding execSwitch_def
  by (cases tag; simp only: option.case; intro bind_ev [OF cf] spec_switch_loop [OF cf])
    (use s wf in \<open>auto intro: fuel_mono\<close>)

subsection \<open>For\<close>

lemma spec_execLoopBlock:
  assumes cf: "cfg_ok cf" and s: "state_ok s" "env < n_envs s" "N \<le> n_envs s" "b \<Longrightarrow> enough s"
    and wf: "wf_block (add_target controlLoop label lp cs) body"
  shows "vspec b N A (sig_ok cs) s (execLoopBlock ex env exp label body) (\<lambda>_ _. True)"
proof -
  have "vspec b N A (sig_ok (add_target controlLoop label lp cs)) s (execBlock ex env exp body) (\<lambda>_ _. True)"
    by (rule spec_execBlock [OF cf]) (use s wf in auto)
  then show ?thesis
    unfolding execLoopBlock_def
  proof (rule vspec_catch, goal_cases)
    case (5 e s1)
    let ?h = "case Inl e :: err + unit of Inr _ \<Rightarrow> vret loopNext
         | Inl (BreakSig p l) \<Rightarrow> (if targets l label then vret loopBreak else vfail (BreakSig p l))
         | Inl (ContinueSig p l) \<Rightarrow> (if targets l label then vret loopContinue else vfail (ContinueSig p l))
         | Inl e \<Rightarrow> vfail e"
    show ?case
    proof (cases "(\<exists>p l. e = BreakSig p l \<and> targets l label) \<or> (\<exists>p l. e = ContinueSig p l \<and> targets l label)")
      case True
      then show ?thesis using 5 by (auto intro!: vspec_ret)
    next
      case False
      with sig_ok_loop [OF 5(5)] have sg: "sig_ok cs e s1" by blast
      have "?h = vfail e" using False by (auto split: err.split)
      then show ?thesis using 5 sg by (simp add: vspec_fail)
    qed
  qed (auto intro: vspec_ret)
qed

lemma spec_exec_opt:
  assumes cf: "cfg_ok cf" and s: "state_ok s" "env < n_envs s" "N \<le> n_envs s" "env < N \<Longrightarrow> env \<in> A"
    "b \<Longrightarrow> enough s"
    and wf: "\<forall>st \<in> set_option sto. wf_stmt cs st"
  shows "vspec b N A (sig_ok cs) s (exec_opt ex env exp sto) (\<lambda>_ _. True)"
proof (cases sto)
  case (Some st)
  show ?thesis unfolding exec_opt_def Some option.case
    by (rule vspec_weaken [OF ex [OF cf s(1,2)]]) (use s wf Some in \<open>auto intro: fuel_mono(3)\<close>)
qed (use s in \<open>simp add: exec_opt_def vspec_ret\<close>)

lemma spec_for_cond:
  assumes cf: "cfg_ok cf" and s: "state_ok s" "env < n_envs s" "N \<le> n_envs s" "E_plain E" "b \<Longrightarrow> enough s"
  shows "vspec b N A E s (for_cond rt ev env c) (\<lambda>_ _. True)"
  unfolding for_cond_def
  by (cases c; simp only: option.case; intro bind_ev [OF cf] vspec_ret) (use s in auto)

lemma post_wf: "pred_option post_ok sto \<Longrightarrow> st \<in> set_option sto \<Longrightarrow> wf_stmt cs st"
  by (cases st) (auto simp: option.pred_set)

lemma init_wf: "pred_option init_ok sto \<Longrightarrow> st \<in> set_option sto \<Longrightarrow> wf_stmt cs st"
  by (cases st) (auto simp: option.pred_set)

lemma spec_for_loop:
  assumes cf: "cfg_ok cf" and wf: "wf_block (add_target controlLoop label lp cs) body" "pred_option post_ok post"
  shows "state_ok s \<Longrightarrow> env < n_envs s \<Longrightarrow> N \<le> n_envs s \<Longrightarrow> (env < N \<Longrightarrow> env \<in> A) \<Longrightarrow>
    (b \<Longrightarrow> enough s) \<Longrightarrow> (b \<Longrightarrow> fuel_ev (max_steps cf) (vm_steps s) k) \<Longrightarrow>
    vspec b N A (sig_ok cs) s (for_loop k rt ev ex env exp pos label c post body) (\<lambda>_ _. True)"
proof (induction k arbitrary: s)
  case 0
  then show ?case by (auto intro!: vspec_fuel simp: fuel_ev_def)
next
  case (Suc k)
  show ?case
    unfolding for_loop.simps
  proof (rule bind_tick [OF Suc.prems(1,3)], simp)
    fix s1
    assume s1: "state_ok s1" "n_envs s1 = n_envs s" "vm_steps s1 = vm_steps s + 1"
      "0 < MaxSteps (rt_lim rt) \<longrightarrow> vm_steps s1 \<le> MaxSteps (rt_lim rt)"
    have en: "enough s1" "fuel_ev (max_steps cf) (vm_steps s1) k" if b
      using that Suc.prems(5,6) s1(3,4) fuel_tick [of "max_steps cf" "vm_steps s" k]
      by (auto intro: fuel_mono)
    have bound: "env < n_envs s1" "N \<le> n_envs s1" using s1 Suc.prems by simp_all
    show "vspec b N A (sig_ok cs) s1
      (vbind (for_cond rt ev env c) (\<lambda>go.
       if \<not> go then vret ()
       else vbind (execLoopBlock ex env exp label body) (\<lambda>action.
         if action = loopBreak then vret ()
         else vbind (exec_opt ex env exp post) (\<lambda>_.
           for_loop k rt ev ex env exp pos label c post body)))) (\<lambda>_ _. True)"
    proof (rule vspec_seq)
      show "vspec b N A (sig_ok cs) s1 (for_cond rt ev env c) (\<lambda>_ _. True)"
        by (rule spec_for_cond [OF cf s1(1) bound]) (use en in auto)
    next
      fix go s2
      assume s2: "state_ok s2" "n_envs s1 \<le> n_envs s2" "vm_steps s1 \<le> vm_steps s2"
      have en2: "enough s2" "fuel_ev (max_steps cf) (vm_steps s2) k" if b
        using en [OF that] s2(3) by (auto intro: fuel_mono)
      have loop: "vspec b N A (sig_ok cs) s2 (execLoopBlock ex env exp label body) (\<lambda>_ _. True)"
        by (rule spec_execLoopBlock [OF cf s2(1) _ _ _ wf(1)]) (use bound s2 en2 in auto)
      have rest: "vspec b N A (sig_ok cs) s3
          (vbind (exec_opt ex env exp post) (\<lambda>_. for_loop k rt ev ex env exp pos label c post body)) (\<lambda>_ _. True)"
        if s3: "state_ok s3" "n_envs s2 \<le> n_envs s3" "vm_steps s2 \<le> vm_steps s3" for s3
      proof (rule vspec_seq)
        show "vspec b N A (sig_ok cs) s3 (exec_opt ex env exp post) (\<lambda>_ _. True)"
          by (rule spec_exec_opt [OF cf s3(1)])
            (use bound s2 s3 en2 Suc.prems wf(2) in \<open>auto intro: fuel_mono post_wf\<close>)
      next
        fix x s4
        assume "state_ok s4" "n_envs s3 \<le> n_envs s4" "vm_steps s3 \<le> vm_steps s4"
        then show "vspec b N A (sig_ok cs) s4 (for_loop k rt ev ex env exp pos label c post body) (\<lambda>_ _. True)"
          by (intro Suc.IH) (use bound s2 s3 en2 Suc.prems in \<open>auto intro: fuel_mono\<close>)
      qed
      show "vspec b N A (sig_ok cs) s2 (if \<not> go then vret ()
          else vbind (execLoopBlock ex env exp label body) (\<lambda>action.
            if action = loopBreak then vret ()
            else vbind (exec_opt ex env exp post) (\<lambda>_.
              for_loop k rt ev ex env exp pos label c post body))) (\<lambda>_ _. True)"
        by (intro vspec_if vspec_bind [OF loop] vspec_ret rest) (use bound s2 in auto)
    qed
  qed
qed

lemma spec_assignRangeVar:
  assumes s: "state_ok s" "env < n_envs s" "N \<le> env" "E_plain E" and v: "val_ok (n_envs s) v"
  shows "vspec b N A E s (assignRangeVar env name v d pos) (\<lambda>_ _. True)"
  unfolding assignRangeVar_def
  by (intro vspec_if vspec_ret vspec_weaken [OF vspec_def_var [where E = E]] vspec_assign)
    (use s v in auto)

lemma spec_execRangeStep:
  assumes cf: "cfg_ok cf" and s: "state_ok s" "env < n_envs s" "N \<le> env" "b \<Longrightarrow> enough s"
    and wf: "wf_block (add_target controlLoop label lp cs) body"
    and kv: "val_ok (n_envs s) k" "val_ok (n_envs s) v"
  shows "vspec b N A (sig_ok cs) s (execRangeStep ex env exp pos label rng body k v) (\<lambda>_ _. True)"
  unfolding execRangeStep_def
proof (rule vspec_seq)
  show "vspec b N A (sig_ok cs) s (assignRangeVar env (rKey rng) k (rDeclare rng) pos) (\<lambda>_ _. True)"
    by (rule spec_assignRangeVar) (use s kv in auto)
next
  fix x s1
  assume s1: "state_ok s1" "n_envs s \<le> n_envs s1" "vm_steps s \<le> vm_steps s1"
  show "vspec b N A (sig_ok cs) s1 (vbind (assignRangeVar env (rVal rng) v (rDeclare rng) pos)
     (\<lambda>_. execLoopBlock ex env exp label body)) (\<lambda>_ _. True)"
  proof (rule vspec_seq)
    show "vspec b N A (sig_ok cs) s1 (assignRangeVar env (rVal rng) v (rDeclare rng) pos) (\<lambda>_ _. True)"
      by (rule spec_assignRangeVar) (use s s1 kv in \<open>auto intro: val_ok_mono\<close>)
  next
    fix y s2
    assume "state_ok s2" "n_envs s1 \<le> n_envs s2" "vm_steps s1 \<le> vm_steps s2"
    then show "vspec b N A (sig_ok cs) s2 (execLoopBlock ex env exp label body) (\<lambda>_ _. True)"
      by (intro spec_execLoopBlock [OF cf _ _ _ _ wf]) (use s s1 in \<open>auto intro: fuel_mono\<close>)
  qed
qed

lemma spec_range_loop:
  assumes cf: "cfg_ok cf" and wf: "wf_block (add_target controlLoop label lp cs) body"
  shows "state_ok s \<Longrightarrow> env < n_envs s \<Longrightarrow> N \<le> env \<Longrightarrow> (b \<Longrightarrow> enough s) \<Longrightarrow>
    \<forall>(k, v) \<in> set items. val_ok (n_envs s) k \<and> val_ok (n_envs s) v \<Longrightarrow>
    vspec b N A (sig_ok cs) s (range_loop rt ex env exp pos label rng body items) (\<lambda>_ _. True)"
proof (induction items arbitrary: s)
  case (Cons kv items)
  obtain k v where kv: "kv = (k, v)" by (cases kv)
  show ?case
    unfolding kv range_loop.simps
  proof (rule bind_tick)
    fix s1
    assume s1: "state_ok s1" "n_envs s1 = n_envs s" "vm_steps s1 = vm_steps s + 1"
    show "vspec b N A (sig_ok cs) s1
      (vbind (execRangeStep ex env exp pos label rng body k v) (\<lambda>action.
         if action = loopBreak then vret ()
         else range_loop rt ex env exp pos label rng body items)) (\<lambda>_ _. True)"
    proof (rule vspec_seq)
      show "vspec b N A (sig_ok cs) s1 (execRangeStep ex env exp pos label rng body k v) (\<lambda>_ _. True)"
        by (rule spec_execRangeStep [OF cf s1(1) _ _ _ wf])
          (use Cons.prems s1 kv in \<open>auto intro: fuel_mono\<close>)
    next
      fix a s2
      assume s2: "state_ok s2" "n_envs s1 \<le> n_envs s2" "vm_steps s1 \<le> vm_steps s2"
      have "\<forall>(k, v) \<in> set items. val_ok (n_envs s2) k \<and> val_ok (n_envs s2) v"
        using Cons.prems(5) s1 s2 by (auto intro: val_ok_mono)
      then show "vspec b N A (sig_ok cs) s2 (if a = loopBreak then vret ()
          else range_loop rt ex env exp pos label rng body items) (\<lambda>_ _. True)"
        by (intro vspec_if vspec_ret Cons.IH) (use Cons.prems s1 s2 in \<open>auto intro: fuel_mono\<close>)
    qed
  qed (use Cons.prems in auto)
qed (simp add: vspec_ret)

lemma range_items_ok:
  "val_ok m v \<Longrightarrow> range_items v = Some items \<Longrightarrow> \<forall>(k, v) \<in> set items. val_ok m k \<and> val_ok m v"
  by (cases v) (fastforce dest: set_zip_rightD)+

lemma spec_execRange:
  assumes cf: "cfg_ok cf" and s: "state_ok s" "up < n_envs s" "N \<le> n_envs s" "b \<Longrightarrow> enough s"
    and wf: "wf_block (add_target controlLoop label lp cs) body"
  shows "vspec b N A (sig_ok cs) s (execRange rt ev ex up exp pos label rng body) (\<lambda>_ _. True)"
  unfolding execRange_def
proof (rule bind_new_env)
  fix s1
  assume s1: "state_ok s1" "n_envs s1 = Suc (n_envs s)" "vm_steps s \<le> vm_steps s1"
  let ?env = "n_envs s"
  show "vspec b N A (sig_ok cs) s1 (vbind (ev ?env (rExpr rng)) (\<lambda>src.
     vbind (if rDeclare rng
            then vbind (defRangeVar ?env (rKey rng)) (\<lambda>_. defRangeVar ?env (rVal rng)) else vret ()) (\<lambda>_.
       case range_items src of
         Some items \<Rightarrow> range_loop rt ex ?env exp pos label rng body items
       | None \<Rightarrow> verr (expr_pos (rExpr rng)) ''range over non-iterable value''))) (\<lambda>_ _. True)"
  proof (rule bind_ev [OF cf s1(1)])
    fix src s2
    assume s2: "state_ok s2" "n_envs s1 \<le> n_envs s2" "vm_steps s1 \<le> vm_steps s2" "val_ok (n_envs s2) src"
    have def: "vspec b N A (sig_ok cs) s3 (defRangeVar ?env name) (\<lambda>_ s'. n_envs s' = n_envs s3)"
      if "state_ok s3" "n_envs s2 \<le> n_envs s3" for s3 name
      unfolding defRangeVar_def
      by (intro vspec_if vspec_ret vspec_def_var) (use that s s1 s2 in auto)
    have defs: "vspec b N A (sig_ok cs) s2 (if rDeclare rng
            then vbind (defRangeVar ?env (rKey rng)) (\<lambda>_. defRangeVar ?env (rVal rng)) else vret ())
        (\<lambda>_ s'. n_envs s' = n_envs s2)"
      by (intro vspec_if vspec_ret vspec_seq [OF def [OF s2(1)]])
        (use s s1 s2 in \<open>auto intro: vspec_weaken [OF def]\<close>)
    show "vspec b N A (sig_ok cs) s2 (vbind (if rDeclare rng
            then vbind (defRangeVar ?env (rKey rng)) (\<lambda>_. defRangeVar ?env (rVal rng)) else vret ()) (\<lambda>_.
       case range_items src of
         Some items \<Rightarrow> range_loop rt ex ?env exp pos label rng body items
       | None \<Rightarrow> verr (expr_pos (rExpr rng)) ''range over non-iterable value'')) (\<lambda>_ _. True)"
    proof (rule vspec_seq [OF defs])
      fix u s3
      assume s3: "state_ok s3" "n_envs s2 \<le> n_envs s3" "vm_steps s2 \<le> vm_steps s3"
      have "range_items src = Some items \<Longrightarrow> \<forall>(k, v) \<in> set items. val_ok (n_envs s3) k \<and> val_ok (n_envs s3) v"
        for items by (rule range_items_ok) (rule val_ok_mono [OF s2(4) s3(2)])
      then show "vspec b N A (sig_ok cs) s3 (case range_items src of
         Some items \<Rightarrow> range_loop rt ex ?env exp pos label rng body items
       | None \<Rightarrow> verr (expr_pos (rExpr rng)) ''range over non-iterable value'') (\<lambda>_ _. True)"
        using s s1 s2 s3
        by (auto intro!: vspec_verr spec_range_loop [OF cf wf] intro: fuel_mono split: option.split)
    qed
  qed (use s s1 in \<open>auto intro: fuel_mono\<close>)
qed (use s in auto)


lemma spec_execFor:
  assumes cf: "cfg_ok cf" and s: "state_ok s" "up < n_envs s" "N \<le> n_envs s" "b \<Longrightarrow> enough s"
    and wf: "wf_block (add_target controlLoop label lp cs) body" "pred_option init_ok init" "pred_option post_ok post"
  shows "vspec b N A (sig_ok cs) s (execFor n rt ev ex up exp pos label init c post rng body) (\<lambda>_ _. True)"
proof (cases rng)
  case (Some r)
  show ?thesis
    unfolding execFor_def Some option.case by (rule spec_execRange) (use cf s wf in auto)
next
  case None
  show ?thesis
    unfolding execFor_def None option.case
  proof (rule bind_new_env)
    fix s1
    assume s1: "state_ok s1" "n_envs s1 = Suc (n_envs s)" "vm_steps s \<le> vm_steps s1"
    show "vspec b N A (sig_ok cs) s1 (vbind (exec_opt ex (n_envs s) exp init)
        (\<lambda>_. for_loop n rt ev ex (n_envs s) exp pos label c post body)) (\<lambda>_ _. True)"
    proof (rule vspec_seq)
      show "vspec b N A (sig_ok cs) s1 (exec_opt ex (n_envs s) exp init) (\<lambda>_ _. True)"
        by (rule spec_exec_opt [OF cf]) (use s s1 wf in \<open>auto intro: fuel_mono init_wf\<close>)
    next
      fix x s2
      assume "state_ok s2" "n_envs s1 \<le> n_envs s2" "vm_steps s1 \<le> vm_steps s2"
      then show "vspec b N A (sig_ok cs) s2 (for_loop n rt ev ex (n_envs s) exp pos label c post body) (\<lambda>_ _. True)"
        by (intro spec_for_loop [OF cf wf(1,3)]) (use s s1 in \<open>auto intro: fuel_mono\<close>)
    qed
  qed (use s in auto)
qed

subsection \<open>Statements\<close>

lemma bind_chk:
  assumes "state_ok s" "N \<le> n_envs s" "E_plain E" "vspec b N A E s (f ()) R"
  shows "vspec b N A E s (vbind (vcheck (\<lambda>stk. chkVal lim stk pos v)) f) R"
  by (rule bind_check [OF assms(1-3)]) (use assms(4) in auto)

lemma spec_def_local:
  assumes s: "state_ok s" "N \<le> n_envs s" "env < n_envs s" "val_ok (n_envs s) v"
    and new: "env < N \<Longrightarrow> env \<in> A \<and> eVars (vm_envs s ! env) name = None"
  shows "vspec b N A E s (def_local rt' env exp name v c exported) (\<lambda>_ _. True)"
  unfolding def_local_def
  by (intro bind_def_var vspec_weaken [OF vspec_export [where E = E]]) (use s new in auto)

lemma spec_let:
  assumes cf: "cfg_ok cf" and s: "state_ok s" "env < n_envs s"
  shows "vspec (enough s) (n_envs s) {env} (sig_ok cs) s
    (vbind (v_has_local env name) (\<lambda>loc.
       if loc then verr pos msg
       else vbind (ev env x) (\<lambda>v.
            vbind (vcheck (\<lambda>stk. chkVal (rt_lim rt) stk pos v)) (\<lambda>_.
              def_local rt env exp name v c exported)))) (\<lambda>_ _. True)"
proof (rule vspec_keep [OF vspec_has_local], goal_cases)
  case (3 loc)
  show ?case
  proof (intro vspec_if bind_ev [OF cf] bind_chk spec_def_local)
    fix v s1
    assume loc: "\<not> loc" and fr: "vframe (n_envs s) {} s s1"
    then have "eVars (vm_envs s ! env) name = None" using 3 by simp
    then show "env \<in> {env} \<and> eVars (vm_envs s1 ! env) name = None"
      using vframe_unbound [OF fr s(2)] by simp
  qed (use s in \<open>auto intro: vspec_verr\<close>)
qed (use s in auto)

lemma spec_fn_def:
  assumes s: "state_ok s" "env < n_envs s" and wf: "distinct params" "wf_block [] body"
  shows "vspec b (n_envs s) {env} (sig_ok cs) s
    (vbind (v_has_local env name) (\<lambda>loc.
       if loc then verr pos msg
       else def_local rt env exp name
               (VFunc (Some \<lparr>fnName = name, fnArgs = params, fnBody = body, fnEnv = env, fnPos = pos\<rparr>))
               True exported)) (\<lambda>_ _. True)"
  by (rule vspec_keep [OF vspec_has_local])
    (use s wf in \<open>auto intro!: vspec_verr spec_def_local\<close>)

lemma spec_return:
  assumes cf: "cfg_ok cf" and s: "state_ok s" "env < n_envs s"
  shows "vspec (enough s) (n_envs s) {env} (sig_ok cs) s
    (case x of None \<Rightarrow> vfail (RetSig VNull) | Some e \<Rightarrow> vbind (ev env e) (\<lambda>v. vfail (RetSig v))) (\<lambda>_ _. True)"
  by (cases x; simp only: option.case; intro bind_ev [OF cf] vspec_fail) (use s in auto)

lemma spec_execStmt:
  assumes cf: "cfg_ok cf" and s: "state_ok s" "env < n_envs s" and wf: "wf_stmt cs st"
  shows "vspec (fuel_ev (max_steps cf) (vm_steps s) (Suc n)) (n_envs s) {env} (sig_ok cs) s
    (execStmt n rt ev ex env exp st) (\<lambda>_ _. True)"
  unfolding execStmt_def
proof (rule bind_tick [OF s(1) order_refl], simp)
  fix s1
  assume s1: "state_ok s1" "n_envs s1 = n_envs s" "vm_steps s1 = vm_steps s + 1"
    "0 < MaxSteps (rt_lim rt) \<longrightarrow> vm_steps s1 \<le> MaxSteps (rt_lim rt)"
  have en: "fuel_ev (max_steps cf) (vm_steps s) (Suc n) \<Longrightarrow> enough s1"
    using fuel_tick s1 by auto
  have e1: "env < n_envs s1" "n_envs s1 \<le> n_envs s1" using s s1 by simp_all
  note inner = spec_let [OF cf s1(1) e1(1)] spec_return [OF cf s1(1) e1(1)]
  have asg: "vspec (enough s1) (n_envs s1) {env} (sig_ok cs) s1
      (vbind (ev env x) (\<lambda>v. vbind (vcheck (\<lambda>stk. chkVal (rt_lim rt) stk pos v)) (\<lambda>_. assign env pos name v)))
      (\<lambda>_ _. True)" for x pos name
    by (intro bind_ev [OF cf] bind_chk vspec_assign) (use s1 e1 in auto)
  have xst: "vspec (enough s1) (n_envs s1) {env} (sig_ok cs) s1 (vbind (ev env x) (\<lambda>_. vret ())) (\<lambda>_ _. True)" for x
    by (intro bind_ev [OF cf] vspec_ret) (use s1 e1 in auto)
  let ?go = "case st of
         LetStmt pos exported c name x \<Rightarrow>
           vbind (v_has_local env name) (\<lambda>loc.
             if loc then verr pos (''name already defined: '' @ quote_ascii name)
             else vbind (ev env x) (\<lambda>v.
                  vbind (vcheck (\<lambda>stk. chkVal (rt_lim rt) stk pos v)) (\<lambda>_.
                    def_local rt env exp name v c exported)))
       | AssignStmt pos name x \<Rightarrow>
           vbind (ev env x) (\<lambda>v.
           vbind (vcheck (\<lambda>stk. chkVal (rt_lim rt) stk pos v)) (\<lambda>_. assign env pos name v))
       | ReturnStmt pos x \<Rightarrow>
           (case x of None \<Rightarrow> vfail (RetSig VNull) | Some e \<Rightarrow> vbind (ev env e) (\<lambda>v. vfail (RetSig v)))
       | ExprStmt pos x \<Rightarrow> vbind (ev env x) (\<lambda>_. vret ())
       | FnDef pos exported name params body \<Rightarrow>
           vbind (v_has_local env name) (\<lambda>loc.
             if loc then verr pos (''name already defined: '' @ quote_ascii name)
             else def_local rt env exp name
               (VFunc (Some \<lparr>fnName = name, fnArgs = params, fnBody = body, fnEnv = env, fnPos = pos\<rparr>))
               True exported)
       | IfStmt pos c thn elifs els \<Rightarrow>
           vbind (ev env c) (\<lambda>v. if IsTruthy (rt_hosts rt) v then execBlock ex env exp thn
             else exec_elifs rt ev ex env exp elifs els)
       | SwitchStmt pos label lp tag cls \<Rightarrow> execSwitch rt ev ex env exp label tag cls
       | ForStmt pos label lp init c post rng body \<Rightarrow>
           execFor n rt ev ex env exp pos label init c post rng body
       | BreakStmt pos label \<Rightarrow> vfail (BreakSig pos label)
       | ContinueStmt pos label \<Rightarrow> vfail (ContinueSig pos label)"
  have "vspec (enough s1) (n_envs s1) {env} (sig_ok cs) s1 ?go (\<lambda>_ _. True)"
  proof (cases st)
    case (FnDef pos exported name params body)
    then show ?thesis using wf by (simp only: Stmt.case) (rule spec_fn_def [OF s1(1) e1(1)], auto)
  next
    case (IfStmt pos c thn elifs els)
    show ?thesis unfolding IfStmt Stmt.case
      by (intro bind_ev [OF cf] vspec_if spec_execBlock [OF cf] spec_exec_elifs [OF cf])
        (use s1 e1 wf IfStmt in \<open>auto intro: fuel_mono\<close>)
  next
    case (SwitchStmt pos label lp tag cls)
    then show ?thesis using wf by (simp only: Stmt.case) (rule spec_execSwitch [OF cf s1(1) e1], auto)
  next
    case (ForStmt pos label lp init c post rng body)
    then show ?thesis using wf by (simp only: Stmt.case) (rule spec_execFor [OF cf s1(1) e1], auto)
  next
    case (BreakStmt pos label)
    then show ?thesis using wf s1 by (auto intro: vspec_fail)
  next
    case (ContinueStmt pos label)
    then show ?thesis using wf s1 by (auto intro: vspec_fail)
  qed (simp_all only: Stmt.case inner asg xst)
  then show "vspec (fuel_ev (max_steps cf) (vm_steps s) (Suc n)) (n_envs s) {env} (sig_ok cs) s1 ?go (\<lambda>_ _. True)"
    by (rule vspec_weaken) (use en s1 in auto)
qed

subsection \<open>Calls\<close>

text \<open>No control signal leaves a call: a function body has no open loop or switch.\<close>

lemma call_result_fuel [simp]: "call_result (Inl OutOfFuel) = vfail OutOfFuel"
  by (simp add: call_result_def)

lemma spec_call_result:
  assumes "state_ok s" "N \<le> n_envs s" "\<And>e. r = Inl e \<Longrightarrow> e \<noteq> OutOfFuel \<and> sig_ok [] e s"
  shows "vspec b N A no_sig s (call_result r) val_result"
proof (cases r)
  case (Inl e)
  with assms show ?thesis
    by (cases e) (auto simp: call_result_def val_result_def no_sig_def inLoop_def intro!: vspec_ret vspec_fail vspec_verr)
qed (use assms in \<open>auto simp: call_result_def val_result_def intro: vspec_ret\<close>)

lemma spec_call_func:
  assumes cf: "cfg_ok cf" and s: "state_ok s" "\<forall>v \<in> set args. val_ok (n_envs s) v"
    and fn: "val_ok (n_envs s) (VFunc (Some fn))"
  shows "vspec (fuel_cv (max_steps cf) (vm_steps s) (Suc n)) (n_envs s) {} no_sig s
    (call_func rt ex pos fn args) val_result"
proof -
  let ?b = "fuel_cv (max_steps cf) (vm_steps s) (Suc n)"
  let ?body = "vbind (v_new_env (Some (fnEnv fn))) (\<lambda>env.
       vbind (def_args env (fnArgs fn) args) (\<lambda>_. vcatch (execBlock ex env False (fnBody fn)) call_result))"
  have blk: "vspec ?b (n_envs s) {} no_sig s3
      (vcatch (execBlock ex (n_envs s) False (fnBody fn)) call_result) val_result"
    if s3: "state_ok s3" "n_envs s < n_envs s3" "vm_steps s \<le> vm_steps s3" for s3
  proof (rule vspec_catch [where E' = "sig_ok []"])
    show "vspec ?b (n_envs s) {} (sig_ok []) s3 (execBlock ex (n_envs s) False (fnBody fn)) (\<lambda>_ _. True)"
      by (rule spec_execBlock_ev [OF cf s3(1,2)]) (use s3 fn in \<open>auto intro: fuel_call(1)\<close>)
  qed (auto intro!: spec_call_result)
  have body: "vspec ?b (n_envs s) {} no_sig s1 ?body val_result"
    if s1: "state_ok s1" "n_envs s1 = n_envs s" "vm_steps s1 = vm_steps s" for s1
  proof (rule bind_new_env [OF s1(1)])
    fix s2
    assume s2: "state_ok s2" "n_envs s2 = Suc (n_envs s1)" "vm_steps s1 \<le> vm_steps s2"
    have "\<forall>v \<in> set args. val_ok (n_envs s2) v"
      using s(2) s2 s1 by (auto intro: val_ok_mono)
    then have args: "vspec ?b (n_envs s) {} no_sig s2 (def_args (n_envs s1) (fnArgs fn) args)
        (\<lambda>_ s'. n_envs s' = n_envs s2)"
      by (intro spec_def_args) (use s1 s2 in auto)
    show "vspec ?b (n_envs s) {} no_sig s2 (vbind (def_args (n_envs s1) (fnArgs fn) args)
        (\<lambda>_. vcatch (execBlock ex (n_envs s1) False (fnBody fn)) call_result)) val_result"
      by (rule vspec_seq [OF args]) (use s1 s2 in \<open>auto intro!: blk\<close>)
  qed (use s1 fn in auto)
  have fr: "vspec ?b (n_envs s) {} no_sig s (with_frame 1 f ?body) val_result" for f
    by (rule vspec_with_frame [OF s(1) body]) (auto intro: no_sig_keep val_result_keep)
  have er: "vspec ?b (n_envs s) {} no_sig s (verr pos msg) val_result" for msg
    by (rule vspec_verr) (use s in auto)
  show ?thesis
    using fr er [of "''call depth exceeded''"] er [of "''arg count mismatch''"]
    by (simp add: call_func_def vspec_def)
qed

lemma spec_callVal:
  assumes cf: "cfg_ok cf" and s: "state_ok s" "val_ok (n_envs s) cal" "\<forall>v \<in> set args. val_ok (n_envs s) v"
  shows "vspec (fuel_cv (max_steps cf) (vm_steps s) (Suc n)) (n_envs s) {} no_sig s
    (callVal cf ex cv pos cal args) val_result"
proof -
  let ?b = "fuel_cv (max_steps cf) (vm_steps s) (Suc n)"
  have er: "vspec ?b (n_envs s) {} no_sig s (verr pos msg) val_result" for msg
    by (rule vspec_verr) (use s in auto)
  have cback: "caller_ok ?b (max_steps cf) (vm_steps s) cv"
    unfolding caller_ok_def
    by (intro allI impI, rule vspec_weaken [OF cv [OF cf]]) (auto intro: fuel_call(2))
  have ntv: "vspec ?b (n_envs s) {} no_sig s
      (vbind (f rt cv pos args) (\<lambda>v. vbind (vcheck (\<lambda>stk. chkVal (rt_lim rt) stk pos v)) (\<lambda>_. vret v))) val_result"
    if "cf_native cf name = Some f" for name f
  proof -
    have "native_ok rt f" using cf that by (auto simp: cfg_ok_def)
    then have "vspec ?b (n_envs s) {} no_sig s (f rt cv pos args) val_result"
      using s cback by (simp add: native_ok_def)
    then show ?thesis
      by (rule vspec_seq) (auto intro!: bind_chk vspec_ret simp: val_result_def)
  qed
  have "vspec ?b (n_envs s) {} no_sig s (call_func rt ex pos fn args) val_result"
    if "cal = VFunc (Some fn)" for fn
    by (rule spec_call_func) (use cf s that in simp_all)
  then show ?thesis
    using er ntv by (auto simp: callVal_def split: Value.split option.split)
qed

end

section \<open>All levels\<close>

lemma vm_level_contracts:
  shows "vm_level cf n (evalN cf n) (execN cf n) (callN cf n)"
proof (induction n)
  case 0
  show ?case by unfold_locales (auto intro!: vspec_fuel simp: fuel_ev_def fuel_cv_def)
next
  case (Suc n)
  note level = vm_level.spec_eval [OF Suc] vm_level.spec_execStmt [OF Suc] vm_level.spec_callVal [OF Suc]
  show ?case by unfold_locales (simp_all add: level)
qed

end
