(* ===== verification/RtsVmRuns.thy ===== *)
theory RtsVmRuns
  imports RtsVmProps
begin

text \<open>
  Two facts about every computation of the evaluator, proved in one pass: more fuel does not change
  an outcome that fuel did not cut short, and the step counter passes the step limit only in the
  abort that ends the run. The locale \<open>run_level\<close> is the interface of one method to the calls it
  makes back into the evaluator, at two bounds.
\<close>

section \<open>The judgement\<close>

definition over :: "int \<Rightarrow> err + 'a \<Rightarrow> Vm \<Rightarrow> bool" where
  "over M r s \<longleftrightarrow> vm_steps s = M + 1 \<and> (case r of Inl e \<Rightarrow> isAbort e | Inr _ \<Rightarrow> False)"

definition runs :: "int \<Rightarrow> 'a comp \<Rightarrow> 'a comp \<Rightarrow> bool" where
  "runs M m m' \<longleftrightarrow> (\<forall>s. case m s of (r, s') \<Rightarrow>
     (r \<noteq> Inl OutOfFuel \<longrightarrow> m' s = (r, s'))
     \<and> (0 < M \<longrightarrow> vm_steps s \<le> M \<longrightarrow> vm_steps s' \<le> M \<or> over M r s'))"

lemma runsD: "runs M m m' \<Longrightarrow> m s = (r, s') \<Longrightarrow>
    (r \<noteq> Inl OutOfFuel \<longrightarrow> m' s = (r, s'))
    \<and> (0 < M \<longrightarrow> vm_steps s \<le> M \<longrightarrow> vm_steps s' \<le> M \<or> over M r s')"
  unfolding runs_def by (metis (mono_tags, lifting) case_prod_conv)

lemma runsI: "(\<And>s r s'. m s = (r, s') \<Longrightarrow> (r \<noteq> Inl OutOfFuel \<longrightarrow> m' s = (r, s'))
    \<and> (0 < M \<longrightarrow> vm_steps s \<le> M \<longrightarrow> vm_steps s' \<le> M \<or> over M r s')) \<Longrightarrow> runs M m m'"
  by (auto simp: runs_def)

text \<open>A step that leaves the counter alone runs as itself.\<close>

lemma runs_still: "(\<And>s. vm_steps (snd (m s)) = vm_steps s) \<Longrightarrow> runs M m m"
  by (rule runsI) (metis snd_conv)

named_theorems runs_intros \<open>the judgement for each way to build a computation\<close>

lemma runs_prims [runs_intros]:
  "runs M (vret x) (vret x)" "runs M (vfail e) (vfail e)" "runs M (vpure f) (vpure f)"
  "runs M (verr p msg) (verr p msg)" "runs M (vcheck g) (vcheck g)" "runs M (vwrap r) (vwrap r)"
  "runs M (v_new_env up) (v_new_env up)" "runs M (v_def i nm v c) (v_def i nm v c)"
  "runs M (v_has_local i nm) (v_has_local i nm)" "runs M (v_get i nm) (v_get i nm)"
  "runs M (v_set i nm v) (v_set i nm v)" "runs M (v_export ex nm v) (v_export ex nm v)"
  by (auto intro!: runs_still simp: vret_def vfail_def vpure_def verr_def vcheck_def vwrap_def
      v_new_env_def v_def_def v_has_local_def v_get_def v_set_def v_export_def split: prod.split)

lemma runs_fuel [runs_intros]: "runs M (vfail OutOfFuel) m"
  by (simp add: runs_def vfail_def)

lemma runs_tick [runs_intros]: "M = MaxSteps (rt_lim rt) \<Longrightarrow> runs M (tick rt pos) (tick rt pos)"
  by (auto simp: runs_def tick_def Let_def over_def rtAbort_def split: option.split)

lemma runs_bind [runs_intros]:
  assumes m: "runs M m m'" and f: "\<And>x. runs M (f x) (f' x)"
  shows "runs M (vbind m f) (vbind m' f')"
proof (rule runsI)
  fix s r s2
  assume b: "vbind m f s = (r, s2)"
  obtain r1 s1 where m1: "m s = (r1, s1)" by (cases "m s")
  note d = runsD [OF m m1]
  show "(r \<noteq> Inl OutOfFuel \<longrightarrow> vbind m' f' s = (r, s2))
    \<and> (0 < M \<longrightarrow> vm_steps s \<le> M \<longrightarrow> vm_steps s2 \<le> M \<or> over M r s2)"
  proof (cases r1)
    case (Inl e)
    with b m1 d show ?thesis by (auto simp: vbind_def over_def)
  next
    case (Inr x)
    with b m1 have fx: "f x s1 = (r, s2)" by (simp add: vbind_def)
    note d2 = runsD [OF f fx]
    have "0 < M \<and> vm_steps s \<le> M \<Longrightarrow> vm_steps s1 \<le> M" using d Inr by (auto simp: over_def)
    moreover have "r \<noteq> Inl OutOfFuel \<Longrightarrow> vbind m' f' s = (r, s2)" using d d2 Inr by (simp add: vbind_def)
    ultimately show ?thesis using d2 by blast
  qed
qed

text \<open>A handler must let aborts and the end of the fuel through.\<close>

lemma runs_catch [runs_intros]:
  assumes m: "runs M m m'" and h: "\<And>r. runs M (h r) (h' r)"
    and abort: "\<And>e. isAbort e \<Longrightarrow> h (Inl e) = vfail e" and fuel: "h (Inl OutOfFuel) = vfail OutOfFuel"
  shows "runs M (vcatch m h) (vcatch m' h')"
proof (rule runsI)
  fix s r s2
  assume b: "vcatch m h s = (r, s2)"
  obtain r1 s1 where m1: "m s = (r1, s1)" by (cases "m s")
  note d = runsD [OF m m1]
  from b m1 have hr: "h r1 s1 = (r, s2)" by (simp add: vcatch_def)
  note d2 = runsD [OF h hr]
  show "(r \<noteq> Inl OutOfFuel \<longrightarrow> vcatch m' h' s = (r, s2))
    \<and> (0 < M \<longrightarrow> vm_steps s \<le> M \<longrightarrow> vm_steps s2 \<le> M \<or> over M r s2)"
  proof (cases "over M r1 s1")
    case True
    then obtain e where e: "r1 = Inl e" "isAbort e" by (auto simp: over_def split: sum.splits)
    with hr abort have "r = Inl e" "s2 = s1" by (simp_all add: vfail_def)
    moreover have "e \<noteq> OutOfFuel" using e(2) by auto
    ultimately show ?thesis using True d d2 e by (auto simp: vcatch_def over_def)
  next
    case False
    have "r1 = Inl OutOfFuel \<Longrightarrow> r = Inl OutOfFuel" using hr fuel by (simp add: vfail_def)
    with False d d2 show ?thesis by (auto simp: vcatch_def)
  qed
qed

lemma runs_if [runs_intros]:
  "(c \<Longrightarrow> runs M a a') \<Longrightarrow> (\<not> c \<Longrightarrow> runs M b b') \<Longrightarrow> runs M (if c then a else b) (if c then a' else b')"
  by simp

lemma runs_option [runs_intros]:
  "(x = None \<Longrightarrow> runs M a a') \<Longrightarrow> (\<And>v. x = Some v \<Longrightarrow> runs M (f v) (f' v)) \<Longrightarrow>
     runs M (case x of None \<Rightarrow> a | Some v \<Rightarrow> f v) (case x of None \<Rightarrow> a' | Some v \<Rightarrow> f' v)"
  by (simp split: option.split)

lemma runs_pair [runs_intros]:
  "(\<And>a b. runs M (f a b) (f' a b)) \<Longrightarrow> runs M (case p of (a, b) \<Rightarrow> f a b) (case p of (a, b) \<Rightarrow> f' a b)"
  by (simp split: prod.split)

lemma runs_with_frame [runs_intros]: "runs M m m' \<Longrightarrow> runs M (with_frame d f m) (with_frame d f m')"
proof (rule runsI)
  fix s r s2
  assume m: "runs M m m'" and b: "with_frame d f m s = (r, s2)"
  let ?s = "s\<lparr>vm_stack := vm_stack s @ [f], vm_depth := vm_depth s + d\<rparr>"
  obtain r1 s1 where m1: "m ?s = (r1, s1)" by (cases "m ?s")
  from runsD [OF m m1] b m1 show "(r \<noteq> Inl OutOfFuel \<longrightarrow> with_frame d f m' s = (r, s2))
    \<and> (0 < M \<longrightarrow> vm_steps s \<le> M \<longrightarrow> vm_steps s2 \<le> M \<or> over M r s2)"
    by (auto simp: with_frame_def over_def)
qed

section \<open>Operators\<close>

lemma runs_checkBound [runs_intros]: "runs M (checkBound rt pos v) (checkBound rt pos v)"
  unfolding checkBound_def by (intro runs_intros)

lemma runs_cmp [runs_intros]: "runs M (v_cmp pos op a b) (v_cmp pos op a b)"
  unfolding v_cmp_def by (auto intro!: runs_intros split: Value.split)

lemma runs_add [runs_intros]: "runs M (v_add rt pos a b) (v_add rt pos a b)"
  unfolding v_add_def by (auto intro!: runs_intros split: Value.split)

lemma runs_arith [runs_intros]: "runs M (v_arith pos op a b) (v_arith pos op a b)"
  unfolding v_arith_def by (auto intro!: runs_intros split: BinOp.split)

lemma runs_bin_strict [runs_intros]: "runs M (bin_strict rt pos op a b) (bin_strict rt pos op a b)"
  unfolding bin_strict_def by (cases op) (simp_all add: runs_prims runs_cmp runs_add runs_arith)

lemma runs_listIndex [runs_intros]: "runs M (listIndex pos idx) (listIndex pos idx)"
  unfolding listIndex_def by (auto intro!: runs_intros split: Value.split)

lemma runs_evalIndex [runs_intros]: "runs M (evalIndex rt pos x idx) (evalIndex rt pos x idx)"
  unfolding evalIndex_def by (auto intro!: runs_intros split: Value.split)

lemma runs_evalMember [runs_intros]: "runs M (evalMember rt pos x name) (evalMember rt pos x name)"
  unfolding evalMember_def by (auto intro!: runs_intros split: Value.split)

lemma runs_assign [runs_intros]: "runs M (assign env pos name v) (assign env pos name v)"
  unfolding assign_def by (intro runs_intros)

lemma runs_def_args [runs_intros]: "runs M (def_args env as vs) (def_args env as vs)"
  by (induction env as vs rule: def_args.induct) (auto intro!: runs_intros)

section \<open>One level\<close>

text \<open>The natives are total functions of their callbacks that obey the same rules.\<close>

definition native_runs :: "Rt \<Rightarrow> NativeFunc \<Rightarrow> bool" where
  "native_runs rt f \<longleftrightarrow>
     (\<forall>cv cv'. (\<forall>pos cal args. runs (MaxSteps (rt_lim rt)) (cv pos cal args) (cv' pos cal args)) \<longrightarrow>
        (\<forall>pos args. runs (MaxSteps (rt_lim rt)) (f rt cv pos args) (f rt cv' pos args)))"

definition natives_run :: "Cfg \<Rightarrow> bool" where
  "natives_run cf \<longleftrightarrow> (\<forall>name f. cf_native cf name = Some f \<longrightarrow> native_runs (cf_rt cf) f)"

locale run_level =
  fixes cf :: Cfg and ev ev' :: evaluator and ex ex' :: executor and cv cv' :: caller
  assumes ev: "natives_run cf \<Longrightarrow> runs (max_steps cf) (ev env x) (ev' env x)"
    and ex: "natives_run cf \<Longrightarrow> runs (max_steps cf) (ex env exp st) (ex' env exp st)"
    and cv: "natives_run cf \<Longrightarrow> runs (max_steps cf) (cv pos cal args) (cv' pos cal args)"
begin

abbreviation rt :: Rt where
  "rt \<equiv> cf_rt cf"

lemma runs_evalBin:
  "natives_run cf \<Longrightarrow> runs (max_steps cf) (evalBin rt ev env pos op l r) (evalBin rt ev' env pos op l r)"
  unfolding evalBin_def Let_def by (intro runs_intros ev)

lemma runs_eval_list:
  "natives_run cf \<Longrightarrow> runs (max_steps cf) (eval_list ev env xs) (eval_list ev' env xs)"
  by (induction xs) (auto intro!: runs_intros ev)

lemma runs_eval_dict:
  "natives_run cf \<Longrightarrow> runs (max_steps cf) (eval_dict rt ev env es out) (eval_dict rt ev' env es out)"
  by (induction es arbitrary: out) (auto intro!: runs_intros ev)

lemma runs_evalTry:
  "natives_run cf \<Longrightarrow> runs (max_steps cf) (evalTry ev env x) (evalTry ev' env x)"
  unfolding evalTry_def by (auto intro!: runs_intros ev split: sum.split)

lemma runs_eval:
  assumes nat: "natives_run cf"
  shows "runs (max_steps cf) (eval rt ev cv env x) (eval rt ev' cv' env x)"
  unfolding eval_def
proof (intro runs_intros refl, cases x, goal_cases)
  case (2 y pos l)
  show ?case unfolding 2 Expr.case by (cases l) (auto intro!: runs_intros)
next
  case (3 y pos op a)
  show ?case unfolding 3 Expr.case by (cases op) (auto intro!: runs_intros ev [OF nat])
qed (simp_all, (intro runs_intros ev [OF nat] cv [OF nat] runs_evalBin [OF nat] runs_eval_list [OF nat]
      runs_eval_dict [OF nat] runs_evalTry [OF nat])+)

lemma runs_exec_stmts:
  "natives_run cf \<Longrightarrow> runs (max_steps cf) (exec_stmts ex env exp sts) (exec_stmts ex' env exp sts)"
  by (induction sts) (auto intro!: runs_intros ex)

lemma runs_execBlock:
  "natives_run cf \<Longrightarrow> runs (max_steps cf) (execBlock ex up exp blk) (execBlock ex' up exp blk)"
  by (cases blk) (auto simp: execBlock_def intro!: runs_intros runs_exec_stmts)

lemma runs_exec_elifs:
  "natives_run cf \<Longrightarrow> runs (max_steps cf) (exec_elifs rt ev ex env exp es els) (exec_elifs rt ev' ex' env exp es els)"
  by (induction es) (auto intro!: runs_intros runs_execBlock ev)

lemma runs_matchCase:
  "natives_run cf \<Longrightarrow> runs (max_steps cf) (matchCase rt ev env tag xs) (matchCase rt ev' env tag xs)"
  by (induction xs) (auto intro!: runs_intros ev)

lemma runs_execClause:
  "natives_run cf \<Longrightarrow> runs (max_steps cf) (execClause ex up exp label body) (execClause ex' up exp label body)"
  unfolding execClause_def
  by (intro runs_intros runs_execBlock) (auto intro!: runs_intros split: sum.split err.split elim: isAbort.elims)

lemma runs_switch_loop:
  "natives_run cf \<Longrightarrow> runs (max_steps cf) (switch_loop rt ev ex up exp label tag cls def)
     (switch_loop rt ev' ex' up exp label tag cls def)"
  by (induction cls arbitrary: def) (auto intro!: runs_intros runs_execClause runs_matchCase)

lemma runs_execSwitch:
  "natives_run cf \<Longrightarrow> runs (max_steps cf) (execSwitch rt ev ex up exp label tag cls)
     (execSwitch rt ev' ex' up exp label tag cls)"
  unfolding execSwitch_def by (intro runs_intros runs_switch_loop ev)

lemma runs_execLoopBlock:
  "natives_run cf \<Longrightarrow> runs (max_steps cf) (execLoopBlock ex env exp label body) (execLoopBlock ex' env exp label body)"
  unfolding execLoopBlock_def
  by (intro runs_intros runs_execBlock) (auto intro!: runs_intros split: sum.split err.split elim: isAbort.elims)

lemma runs_exec_opt:
  "natives_run cf \<Longrightarrow> runs (max_steps cf) (exec_opt ex env exp sto) (exec_opt ex' env exp sto)"
  unfolding exec_opt_def by (intro runs_intros ex)

lemma runs_for_cond:
  "natives_run cf \<Longrightarrow> runs (max_steps cf) (for_cond rt ev env c) (for_cond rt ev' env c)"
  unfolding for_cond_def by (intro runs_intros ev)

lemma runs_for_loop:
  "natives_run cf \<Longrightarrow> k \<le> k' \<Longrightarrow> runs (max_steps cf) (for_loop k rt ev ex env exp pos label c post body)
     (for_loop k' rt ev' ex' env exp pos label c post body)"
proof (induction k arbitrary: k')
  case (Suc k)
  then obtain j where "k' = Suc j" "k \<le> j" by (cases k') auto
  with Suc show ?case
    by (auto intro!: runs_intros runs_for_cond runs_execLoopBlock runs_exec_opt)
qed (simp add: runs_fuel)

lemma runs_execRange:
  assumes nat: "natives_run cf"
  shows "runs (max_steps cf) (execRange rt ev ex up exp pos label rng body) (execRange rt ev' ex' up exp pos label rng body)"
proof -
  have step: "runs (max_steps cf) (execRangeStep ex env exp pos label rng body k v)
      (execRangeStep ex' env exp pos label rng body k v)" for env k v
    unfolding execRangeStep_def assignRangeVar_def by (intro runs_intros runs_execLoopBlock nat)
  have loop: "runs (max_steps cf) (range_loop rt ex env exp pos label rng body items)
      (range_loop rt ex' env exp pos label rng body items)" for env items
    by (induction items) (auto intro!: runs_intros step)
  show ?thesis unfolding execRange_def defRangeVar_def by (intro runs_intros loop ev nat)
qed

lemma runs_execFor:
  "natives_run cf \<Longrightarrow> k \<le> k' \<Longrightarrow> runs (max_steps cf) (execFor k rt ev ex up exp pos label init c post rng body)
     (execFor k' rt ev' ex' up exp pos label init c post rng body)"
  unfolding execFor_def by (intro runs_intros runs_execRange runs_exec_opt runs_for_loop)

lemma runs_execStmt:
  assumes nat: "natives_run cf" and k: "k \<le> k'"
  shows "runs (max_steps cf) (execStmt k rt ev ex env exp st) (execStmt k' rt ev' ex' env exp st)"
  unfolding execStmt_def def_local_def
  by (intro runs_intros refl, cases st; simp only: Stmt.case;
      intro runs_intros ev [OF nat] runs_execBlock [OF nat] runs_exec_elifs [OF nat]
        runs_execSwitch [OF nat] runs_execFor [OF nat k])

lemma runs_call_func:
  assumes nat: "natives_run cf"
  shows "runs (max_steps cf) (call_func rt ex pos fn args) (call_func rt ex' pos fn args)"
proof -
  let ?body = "\<lambda>ex. with_frame 1 \<lparr>frKind = FrameFn, frPos = fnPos fn, frName = fnName fn\<rparr>
          (vbind (v_new_env (Some (fnEnv fn))) (\<lambda>env.
           vbind (def_args env (fnArgs fn) args) (\<lambda>_.
             vcatch (execBlock ex env False (fnBody fn)) call_result)))"
  have "runs (max_steps cf) (?body ex) (?body ex')"
    by (intro runs_intros runs_execBlock nat)
      (auto simp: call_result_def intro!: runs_intros split: sum.split err.split elim: isAbort.elims)
  moreover have "runs (max_steps cf) (verr pos msg :: Value comp) (verr pos msg)" for msg
    by (rule runs_prims)
  ultimately show ?thesis
    unfolding call_func_def by (auto simp: runs_def)
qed

lemma runs_callVal:
  assumes nat: "natives_run cf"
  shows "runs (max_steps cf) (callVal cf ex cv pos cal args) (callVal cf ex' cv' pos cal args)"
proof -
  have "runs (max_steps cf) (f rt cv pos args) (f rt cv' pos args)" if "cf_native cf name = Some f" for name f
    using nat that cv [OF nat] by (auto simp: natives_run_def native_runs_def)
  then show ?thesis
    unfolding callVal_def
    by (cases cal) (auto intro!: runs_intros runs_call_func [OF nat] split: option.split)
qed

end

section \<open>All levels\<close>

lemma run_level_step:
  shows "run_level cf (evalN cf n) (evalN cf (Suc n)) (execN cf n) (execN cf (Suc n)) (callN cf n) (callN cf (Suc n))"
proof (induction n)
  case 0
  show ?case by unfold_locales (simp_all add: runs_fuel)
next
  case (Suc n)
  note level = run_level.runs_eval [OF Suc] run_level.runs_execStmt [OF Suc _ le_SucI [OF order_refl]]
    run_level.runs_callVal [OF Suc]
  show ?case
    by unfold_locales (simp_all only: evalN.simps execN.simps callN.simps level)
qed

interpretation step: run_level cf "evalN cf n" "evalN cf (Suc n)" "execN cf n" "execN cf (Suc n)"
    "callN cf n" "callN cf (Suc n)" for cf n
  by (rule run_level_step)

end
