(* ===== verification/RtsRun.thy ===== *)
theory RtsRun
  imports RtsVmRuns
begin

text \<open>
  The theorems about running RestermScript: termination within the step limit, the step budget,
  what a run leaves untouched, which errors it can end in. Everything rests on the contracts of
  RtsVmProps and RtsVmRuns at the levels of the evaluator.
\<close>

interpretation vm: vm_level cf n "evalN cf n" "execN cf n" "callN cf n" for cf n
  by (rule vm_level_contracts)

section \<open>Modules and sources\<close>

lemma spec_exec_top:
  assumes cf: "cfg_ok cf"
  shows "state_ok s \<Longrightarrow> env < n_envs s \<Longrightarrow> N \<le> n_envs s \<Longrightarrow> N \<le> env \<Longrightarrow>
    (b \<Longrightarrow> fuel_ev (max_steps cf) (vm_steps s) n) \<Longrightarrow> list_all (wf_stmt []) sts \<Longrightarrow>
    vspec b N A no_sig s (exec_top (execN cf n) env sts) (\<lambda>_ _. True)"
proof (induction sts arbitrary: s)
  case (Cons st sts)
  have one: "vspec b N A no_sig s (vcatch (execN cf n env True st) (\<lambda>r. case r of
         Inr _ \<Rightarrow> vret ()
       | Inl (RetSig v) \<Rightarrow> verr (stmt_pos st) ''return outside fn''
       | Inl (BreakSig p _) \<Rightarrow> verr p ''break outside loop or switch''
       | Inl (ContinueSig p _) \<Rightarrow> verr p ''continue outside loop''
       | Inl e \<Rightarrow> vfail e)) (\<lambda>_ _. True)"
  proof (rule vspec_catch [OF vm.ex [OF cf Cons.prems(1,2), of "[]"]], goal_cases)
    case (6 e s1)
    then show ?case
      by (cases e) (auto intro!: vspec_verr vspec_fail simp: no_sig_def inLoop_def)
  qed (use Cons.prems in \<open>auto intro!: vspec_ret\<close>)
  show ?case
    unfolding exec_top.simps
    by (rule vspec_seq [OF one], rule Cons.IH) (use Cons.prems in \<open>auto intro: fuel_mono\<close>)
qed (simp add: vspec_ret)

definition vals_ok :: "nat \<Rightarrow> (string \<times> Value) list \<Rightarrow> bool" where
  "vals_ok n m \<longleftrightarrow> list_all (\<lambda>kv. val_ok n (snd kv)) m"

lemma spec_def_all:
  "state_ok s \<Longrightarrow> N \<le> env \<Longrightarrow> env < n_envs s \<Longrightarrow> vals_ok (n_envs s) m \<Longrightarrow>
    vspec b N A E s (def_all env m) (\<lambda>_ s'. n_envs s' = n_envs s)"
proof (induction env m arbitrary: s rule: def_all.induct)
  case (2 env k v m)
  show ?case
    unfolding def_all.simps
  proof (rule bind_def_var)
    fix s1
    assume s1: "state_ok s1" "n_envs s1 = n_envs s"
    have "vspec b N A E s1 (def_all env m) (\<lambda>_ s'. n_envs s' = n_envs s1)"
      by (rule "2.IH") (use 2 s1 in \<open>auto simp: vals_ok_def\<close>)
    then show "vspec b N A E s1 (def_all env m) (\<lambda>_ s'. n_envs s' = n_envs s)" using s1 by simp
  qed (use 2 in \<open>auto simp: vals_ok_def\<close>)
qed (auto intro: vspec_ret)

definition comp_ok :: "Comp \<Rightarrow> Vm \<Rightarrow> bool" where
  "comp_ok c s \<longleftrightarrow> cpEnv c < n_envs s \<and> smap_ok (cpExp c) \<and> vals_ok (n_envs s) (cpExp c)"

lemma spec_Exec:
  assumes cf: "cfg_ok cf" and s: "state_ok s" "vals_ok (n_envs s) pre"
    and wf: "list_all (wf_stmt []) (mStmts m)"
  shows "vspec (fuel_ev (max_steps cf) (vm_steps s) n) (n_envs s) {} no_sig s (Exec cf n m pre) comp_ok"
  unfolding Exec_def
proof (rule bind_new_env [OF s(1) order_refl])
  fix s1
  assume s1: "state_ok s1" "n_envs s1 = Suc (n_envs s)" "vm_steps s \<le> vm_steps s1"
  let ?b = "fuel_ev (max_steps cf) (vm_steps s) n" and ?env = "n_envs s"
  have d: "vspec ?b (n_envs s) {} no_sig s1 (def_all ?env pre) (\<lambda>_ s'. n_envs s' = n_envs s1)"
    by (rule spec_def_all) (use s s1 in \<open>auto simp: vals_ok_def list_all_iff intro: val_ok_mono\<close>)
  have top: "vspec ?b (n_envs s) {} no_sig s2 (exec_top (execN cf n) ?env (mStmts m)) (\<lambda>_ _. True)"
    if "state_ok s2" "n_envs s1 \<le> n_envs s2" "vm_steps s1 \<le> vm_steps s2" for s2
    by (rule spec_exec_top [OF cf]) (use that s1 wf in \<open>auto intro: fuel_mono\<close>)
  have fin: "vspec ?b (n_envs s) {} no_sig s3
      (\<lambda>s. (Inr \<lparr>cpMod = m, cpEnv = ?env, cpExp = vm_exp s\<rparr>, s)) comp_ok"
    if "state_ok s3" "n_envs s1 \<le> n_envs s3" for s3
    using that s1 by (auto simp: vspec_def vframe_refl comp_ok_def vals_ok_def list_all_iff state_ok_def)
  show "vspec ?b (n_envs s) {} no_sig s1 (vbind (def_all ?env pre) (\<lambda>_.
     vbind (exec_top (execN cf n) ?env (mStmts m)) (\<lambda>_.
       (\<lambda>s. (Inr \<lparr>cpMod = m, cpEnv = ?env, cpExp = vm_exp s\<rparr>, s))))) comp_ok"
    by (rule vspec_seq [OF d], rule vspec_seq [OF top]) (auto intro!: fin)
qed simp

lemma spec_eval_source:
  assumes cf: "cfg_ok cf" and s: "state_ok s" "vals_ok (n_envs s) pre"
  shows "vspec (fuel_ev (max_steps cf) (vm_steps s) n) (n_envs s) {} no_sig s
    (eval_source cf n pre site x pos) val_result"
  unfolding eval_source_def
proof (rule bind_new_env [OF s(1) order_refl])
  fix s1
  assume s1: "state_ok s1" "n_envs s1 = Suc (n_envs s)" "vm_steps s \<le> vm_steps s1"
  let ?b = "fuel_ev (max_steps cf) (vm_steps s) n" and ?env = "n_envs s"
  have d: "vspec ?b (n_envs s) {} no_sig s1 (def_all ?env pre) (\<lambda>_ s'. n_envs s' = n_envs s1)"
    by (rule spec_def_all) (use s s1 in \<open>auto simp: vals_ok_def list_all_iff intro: val_ok_mono\<close>)
  have e: "vspec ?b (n_envs s) {} no_sig s2 (evalN cf n ?env x) val_result"
    if "state_ok s2" "n_envs s1 \<le> n_envs s2" "vm_steps s1 \<le> vm_steps s2" for s2
    by (rule vspec_weaken [OF vm.ev [OF cf]]) (use that s1 in \<open>auto intro: fuel_mono\<close>)
  have f: "vspec ?b (n_envs s) {} no_sig s2 (with_frame 0 fr (evalN cf n ?env x)) val_result"
    if "state_ok s2" "n_envs s1 \<le> n_envs s2" "vm_steps s1 \<le> vm_steps s2" for s2 fr
    by (rule vspec_with_frame [OF that(1)]) (use that s1 in \<open>auto intro!: e intro: no_sig_keep val_result_keep\<close>)
  show "vspec ?b (n_envs s) {} no_sig s1 (vbind (def_all ?env pre) (\<lambda>_.
       if site = [] then evalN cf n ?env x
       else with_frame 0 \<lparr>frKind = FrameExpr, frPos = pos, frName = site\<rparr> (evalN cf n ?env x))) val_result"
    by (rule vspec_seq [OF d], rule vspec_if) (auto intro!: e f)
qed simp

section \<open>Fuel\<close>

lemma runs_trans:
  assumes ab: "runs M a b" and bc: "runs M b c"
  shows "runs M a c"
proof (rule runsI)
  fix s r s'
  assume a: "a s = (r, s')"
  from runsD [OF ab a] bc show "(r \<noteq> Inl OutOfFuel \<longrightarrow> c s = (r, s'))
    \<and> (0 < M \<longrightarrow> vm_steps s \<le> M \<longrightarrow> vm_steps s' \<le> M \<or> over M r s')"
    by (auto dest: runsD)
qed

lemma runs_lift:
  assumes "\<And>k. runs M (F k) (F (Suc k))"
  shows "k \<le> n \<Longrightarrow> runs M (F k) (F n)"
proof (induction n)
  case 0
  then show ?case using assms [of 0] by (auto simp: runs_def)
next
  case (Suc n)
  show ?case
  proof (cases "k = Suc n")
    case True
    then show ?thesis using assms [of k] by (auto simp: runs_def)
  next
    case False
    with Suc show ?thesis by (auto intro: runs_trans assms)
  qed
qed

lemma runs_evalN: "natives_run cf \<Longrightarrow> k \<le> n \<Longrightarrow> runs (max_steps cf) (evalN cf k env x) (evalN cf n env x)"
  by (rule runs_lift) (rule step.ev)

lemma runs_execN: "natives_run cf \<Longrightarrow> k \<le> n \<Longrightarrow> runs (max_steps cf) (execN cf k env exp st) (execN cf n env exp st)"
  by (rule runs_lift) (rule step.ex)

lemma runs_callN: "natives_run cf \<Longrightarrow> k \<le> n \<Longrightarrow> runs (max_steps cf) (callN cf k pos cal args) (callN cf n pos cal args)"
  by (rule runs_lift) (rule step.cv)

lemma runs_def_all: "runs M (def_all env m) (def_all env m)"
  by (induction env m rule: def_all.induct) (auto intro!: runs_intros)

lemma runs_exec_top:
  assumes "natives_run cf" "k \<le> n"
  shows "runs (max_steps cf) (exec_top (execN cf k) env sts) (exec_top (execN cf n) env sts)"
  by (induction sts)
    (auto intro!: runs_intros runs_execN assms split: sum.split err.split elim: isAbort.elims)

lemma runs_Exec:
  assumes "natives_run cf" "k \<le> n"
  shows "runs (max_steps cf) (Exec cf k m pre) (Exec cf n m pre)"
proof -
  have "runs M (\<lambda>s. (Inr (f s), s)) (\<lambda>s. (Inr (f s), s))" for M and f :: "Vm \<Rightarrow> Comp"
    by (simp add: runs_def)
  then show ?thesis
    unfolding Exec_def by (intro runs_intros runs_def_all runs_exec_top assms)
qed

lemma runs_eval_source:
  "natives_run cf \<Longrightarrow> k \<le> n \<Longrightarrow> runs (max_steps cf) (eval_source cf k pre site x pos) (eval_source cf n pre site x pos)"
  unfolding eval_source_def by (intro runs_intros runs_def_all runs_evalN)

text \<open>What the two contracts say together of a computation with enough fuel.\<close>

lemma runs_same:
  assumes "runs M m m'" "fst (m s) \<noteq> Inl OutOfFuel"
  shows "m' s = m s"
  using runsD [OF assms(1), of s] assms(2) by (metis prod.collapse)

lemma runs_budget:
  assumes "runs M m m'" "0 < M" "vm_steps s \<le> M" "m s = (r, s')"
  shows "vm_steps s' \<le> M + 1 \<and> (vm_steps s' = M + 1 \<longrightarrow> (case r of Inl e \<Rightarrow> isAbort e | Inr _ \<Rightarrow> False))"
  using runsD [OF assms(1,4)] assms(2,3) by (auto simp: over_def)

lemma vspec_no_fuel: "vspec b N A E s m Q \<Longrightarrow> b \<Longrightarrow> fst (m s) \<noteq> Inl OutOfFuel"
  by (auto simp: vspec_def split: prod.splits sum.splits if_splits)

lemma vspec_cases:
  assumes "vspec b N A E s m Q" "b" "m s = (r, s')"
  shows "(case r of Inl e \<Rightarrow> e \<noteq> OutOfFuel \<and> E e s' | Inr x \<Rightarrow> Q x s') \<and> vframe N A s s' \<and> state_ok s'"
  using assms by (auto simp: vspec_def split: sum.splits if_splits)

section \<open>A small configuration for the concrete instances\<close>

definition inert_host :: HostObj where
  "inert_host = \<lparr>hoTypeName = ''none'', hoMember = (\<lambda>_ _ _ _. Inr None), hoIndex = (\<lambda>_ _ _ _. Inr VNull),
     hoTruthy = None, hoUnbound = None, hoIface = None\<rparr>"

definition small_cfg :: "int \<Rightarrow> Cfg" where
  "small_cfg steps =
     \<lparr>cf_rt = \<lparr>rt_lim = \<lparr>MaxSteps = steps, MaxCall = 4, MaxStr = 100, MaxList = 100, MaxDict = 100, Timeout = 0\<rparr>,
               rt_elapsed = (\<lambda>_. 0), rt_done = (\<lambda>_. None), rt_hosts = (\<lambda>_. inert_host)\<rparr>,
      cf_native = (\<lambda>_. None)\<rparr>"

lemma small_cfg_ok: "cfg_ok (small_cfg k)" "natives_run (small_cfg k)" "max_steps (small_cfg k) = k"
  by (simp_all add: cfg_ok_def small_cfg_def hosts_ok_def inert_host_def natives_run_def)

text \<open>A context with one empty environment.\<close>

definition ctx1 :: Vm where
  "ctx1 = (NewCtx [\<lparr>eUp = None, eVars = Map.empty\<rparr>])"

lemma ctx1_ok: "state_ok ctx1" "n_envs ctx1 = 1" "vm_steps ctx1 = 0" "vals_ok n []"
  by (simp_all add: ctx1_def NewCtx_def state_ok_def store_ok_def vals_ok_def)

lemma NewCtx_ok: "state_ok (NewCtx [])" "n_envs (NewCtx []) = 0" "vm_steps (NewCtx st) = 0"
  by (simp_all add: NewCtx_def state_ok_def store_ok_def)

text \<open>A context whose environment holds the constant \<open>k\<close> and the variable \<open>x\<close>.\<close>

definition ctx2 :: Vm where
  "ctx2 = NewCtx [\<lparr>eUp = None, eVars = [''k'' \<mapsto> \<lparr>bV = VBool True, bConst = True\<rparr>, ''x'' \<mapsto> \<lparr>bV = VNull, bConst = False\<rparr>]\<rparr>]"

lemma ctx2_ok: "state_ok ctx2" "n_envs ctx2 = 1" "vm_steps ctx2 = 0"
  by (simp_all add: ctx2_def NewCtx_def state_ok_def store_ok_def)

lemma ctx2_vars:
  "eVars (vm_envs ctx2 ! 0) ''k'' = Some \<lparr>bV = VBool True, bConst = True\<rparr>"
  "eVars (vm_envs ctx2 ! 0) ''x'' = Some \<lparr>bV = VNull, bConst = False\<rparr>"
  "eVars (vm_envs ctx2 ! 0) ''y'' = None"
  by (simp_all add: ctx2_def NewCtx_def)

section \<open>Termination\<close>

text \<open>
  C6: with a positive step limit every evaluation of a source expression ends: with twice the steps
  left as the bound on the nesting the bound is never what stops it, and any larger bound gives the
  same outcome in the same final state. Recursion and loops without end are cut by the step limit.
\<close>

theorem eval_source_terminates:
  assumes "cfg_ok cf" "natives_run cf" "state_ok s" "vals_ok (n_envs s) pre"
    and "0 < max_steps cf" "0 < n" "2 * (max_steps cf - vm_steps s) < int n" "n \<le> k"
  shows "fst (eval_source cf n pre site x pos s) \<noteq> Inl OutOfFuel
    \<and> eval_source cf k pre site x pos s = eval_source cf n pre site x pos s"
proof -
  have "fst (eval_source cf n pre site x pos s) \<noteq> Inl OutOfFuel"
    using spec_eval_source [OF assms(1,3,4)] by (rule vspec_no_fuel) (use assms in \<open>simp add: fuel_ev_def\<close>)
  with runs_same [OF runs_eval_source [OF assms(2,8)]] show ?thesis by blast
qed

lemma eval_source_terminates_witness:
  "fst (eval_source (small_cfg 5) 11 [] [] (Unary zero_pos UnNot (Literal zero_pos LitNull)) zero_pos ctx1) \<noteq> Inl OutOfFuel
   \<and> eval_source (small_cfg 5) 99 [] [] (Unary zero_pos UnNot (Literal zero_pos LitNull)) zero_pos ctx1
      = eval_source (small_cfg 5) 11 [] [] (Unary zero_pos UnNot (Literal zero_pos LitNull)) zero_pos ctx1"
  by (rule eval_source_terminates) (simp_all add: small_cfg_ok ctx1_ok)

text \<open>
  With a positive step limit every module that parses runs to an end, on every context: its
  top-level statements finish or stop with an error, whatever loops and recursion they contain, and
  any larger bound gives the same outcome. The compiled module it returns refers to its own
  environment and exports well-formed values under distinct names.
\<close>

theorem module_run_terminates:
  assumes "cfg_ok cf" "natives_run cf" "state_ok s" "vals_ok (n_envs s) pre"
    and "ParseModuleAt path src pos = Inr m"
    and "0 < max_steps cf" "0 < n" "2 * (max_steps cf - vm_steps s) < int n" "n \<le> k"
  shows "(case Exec cf n m pre s of
      (Inl e, s') \<Rightarrow> e \<noteq> OutOfFuel
    | (Inr c, s') \<Rightarrow> cpEnv c = n_envs s \<and> cpEnv c < n_envs s' \<and> distinct (map fst (cpExp c))
        \<and> list_all (\<lambda>kv. val_ok (n_envs s') (snd kv)) (cpExp c))
    \<and> Exec cf k m pre s = Exec cf n m pre s"
proof -
  have wf: "list_all (wf_stmt []) (mStmts m)"
    using parseMod_outcome [of path src pos] assms(5)
    by (auto simp: ParseModuleAt_def mod_outcome_def list_all_iff split: sum.splits)
  obtain r s' where eq: "Exec cf n m pre s = (r, s')" by fastforce
  have en: "fuel_ev (max_steps cf) (vm_steps s) n" using assms by (simp add: fuel_ev_def)
  note out = vspec_cases [OF spec_Exec [OF assms(1,3,4) wf] en eq]
  have env: "r = Inr c \<Longrightarrow> cpEnv c = n_envs s" for c
    using eq by (auto simp: Exec_def vbind_def v_new_env_def NewEnv_def split: prod.splits sum.splits)
  have "fst (Exec cf n m pre s) \<noteq> Inl OutOfFuel" using out eq by auto
  with runs_same [OF runs_Exec [OF assms(2,9)]] have "Exec cf k m pre s = Exec cf n m pre s" by blast
  with out env eq show ?thesis
    by (auto simp: comp_ok_def vals_ok_def smap_ok_def strict_sorted_iff split: sum.splits)
qed

theorem module_run_terminates_witness:
  "case ParseModuleAt [] ''for { }'' zero_pos of
     Inl e \<Rightarrow> False
   | Inr m \<Rightarrow> length (mStmts m) = 1
       \<and> (case Exec (small_cfg 9) 19 m [] (NewCtx []) of (Inl e, s') \<Rightarrow> e \<noteq> OutOfFuel | (Inr c, s') \<Rightarrow> cpEnv c = 0)
       \<and> Exec (small_cfg 9) 50 m [] (NewCtx []) = Exec (small_cfg 9) 19 m [] (NewCtx [])"
proof -
  have "case ParseModuleAt [] ''for { }'' zero_pos of Inl e \<Rightarrow> False | Inr m \<Rightarrow> length (mStmts m) = 1"
    by code_simp
  then obtain m where m: "ParseModuleAt [] ''for { }'' zero_pos = Inr m" "length (mStmts m) = 1"
    by (auto split: sum.splits)
  from module_run_terminates [OF small_cfg_ok(1,2) NewCtx_ok(1) ctx1_ok(4) m(1), of 9 19 50] m
  show ?thesis by (auto simp: small_cfg_ok NewCtx_ok split: sum.splits)
qed

section \<open>The step budget\<close>

text \<open>
  C7: the step limit is never passed silently: a module run that starts within the limit takes at
  most one step more than the limit, and takes that one only to end in an abort - so no \<open>try\<close>, loop,
  switch, call or native keeps a program going beyond its limit.
\<close>

theorem step_budget_exact:
  assumes "natives_run cf" "0 < max_steps cf" "vm_steps s \<le> max_steps cf"
    and "Exec cf n m pre s = (r, s')"
  shows "vm_steps s' \<le> max_steps cf + 1
    \<and> (vm_steps s' = max_steps cf + 1 \<longrightarrow> (case r of Inl e \<Rightarrow> isAbort e | Inr _ \<Rightarrow> False))"
  by (rule runs_budget [OF runs_Exec [OF assms(1) order_refl] assms(2-4)])

theorem step_budget_exact_witness:
  "case ParseModuleAt [] ''for { }'' zero_pos of
     Inl e \<Rightarrow> False
   | Inr m \<Rightarrow> (case Exec (small_cfg 6) 13 m [] (NewCtx []) of
       (r, s') \<Rightarrow> vm_steps s' = 7 \<and> (case r of Inl e \<Rightarrow> isAbort e | Inr _ \<Rightarrow> False))"
proof -
  have "case ParseModuleAt [] ''for { }'' zero_pos of Inl e \<Rightarrow> False
    | Inr m \<Rightarrow> vm_steps (snd (Exec (small_cfg 6) 13 m [] (NewCtx []))) = 7"
    by code_simp
  then obtain m r s' where m: "ParseModuleAt [] ''for { }'' zero_pos = Inr m"
    "Exec (small_cfg 6) 13 m [] (NewCtx []) = (r, s')" "vm_steps s' = 7"
    by (cases "ParseModuleAt [] ''for { }'' zero_pos") (auto intro: prod.collapse [symmetric])
  from step_budget_exact [OF small_cfg_ok(2) _ _ m(2)] m show ?thesis
    by (simp add: small_cfg_ok NewCtx_ok)
qed

section \<open>What a run leaves as it was\<close>

text \<open>
  C8: however an evaluation, a statement or a call ends - with a value, an error, an abort or a
  control signal - the call depth and the call stack are what they were, and steps only grow.
\<close>

theorem run_restores_stack:
  assumes "cfg_ok cf" "state_ok s" "env < n_envs s" "wf_stmt cs st" "val_ok (n_envs s) cal"
    and "list_all (val_ok (n_envs s)) args"
    and "s' = snd (evalN cf n env x s) \<or> s' = snd (execN cf n env exp st s) \<or> s' = snd (callN cf n pos cal args s)"
  shows "vm_depth s' = vm_depth s \<and> vm_stack s' = vm_stack s \<and> vm_steps s \<le> vm_steps s'"
proof -
  have fr: "vframe N A s (snd (m s))" if "vspec b N A E s m Q" for b N A E Q and m :: "'a comp"
    using vspec_frame [OF that, of "fst (m s)" "snd (m s)"] by simp
  have "\<exists>N A. vframe N A s s'"
    using assms(7) fr [OF vm.ev [OF assms(1-3)]] fr [OF vm.ex [OF assms(1-4)]]
      fr [OF vm.cv [OF assms(1,2,5)]] assms(6) unfolding list_all_iff by blast
  then show ?thesis by (auto simp: vframe_def)
qed

lemma run_restores_stack_witness:
  "vm_stack (snd (evalN (small_cfg 9) 19 0 (Member zero_pos (Ident zero_pos ''x'') ''y'') ctx1)) = []"
proof -
  let ?s = "snd (evalN (small_cfg 9) 19 0 (Member zero_pos (Ident zero_pos ''x'') ''y'') ctx1)"
  have "vm_depth ?s = vm_depth ctx1 \<and> vm_stack ?s = vm_stack ctx1 \<and> vm_steps ctx1 \<le> vm_steps ?s"
  proof (rule run_restores_stack [OF small_cfg_ok(1) [of 9] ctx1_ok(1)])
    show "?s = ?s \<or> ?s = snd (execN (small_cfg 9) 19 0 True (ReturnStmt zero_pos None) ctx1)
      \<or> ?s = snd (callN (small_cfg 9) 19 zero_pos VNull [] ctx1)"
      by (rule disjI1) (rule refl)
    show "wf_stmt [] (ReturnStmt zero_pos None)" by simp
  qed (simp_all only: ctx1_ok val_ok.simps list.pred_inject zero_less_one)
  then show ?thesis by (simp add: ctx1_def NewCtx_def)
qed

text \<open>
  C11: names and constants stay where they were defined. Whatever the outcome, evaluating an
  expression and calling a value (functions, closures and natives included) add no name to any
  environment that existed before and remove none; a statement adds names only to the environment
  it is executed in, so blocks, loops, clauses and calls leave nothing behind outside. No name is
  redefined, no environment gets another parent, every constant keeps its value and no variable
  becomes constant.
\<close>

theorem scopes_stay_local:
  assumes "cfg_ok cf" "state_ok s" "env < n_envs s" "wf_stmt cs st" "val_ok (n_envs s) cal"
    and "list_all (val_ok (n_envs s)) args"
    and "s' = snd (evalN cf n env x s) \<and> D = {} \<or> s' = snd (callN cf n pos cal args s) \<and> D = {}
      \<or> s' = snd (execN cf n env exp st s) \<and> D = {env}"
    and "i < n_envs s"
  shows "eUp (vm_envs s' ! i) = eUp (vm_envs s ! i)
    \<and> (i \<notin> D \<longrightarrow> eVars (vm_envs s ! i) y = None \<longrightarrow> eVars (vm_envs s' ! i) y = None)
    \<and> (\<forall>b. eVars (vm_envs s ! i) y = Some b \<longrightarrow>
        (\<exists>b'. eVars (vm_envs s' ! i) y = Some b' \<and> bConst b' = bConst b \<and> (bConst b \<longrightarrow> b' = b)))"
proof -
  have fr: "vframe N A s (snd (m s))" if "vspec b N A E s m Q" for b N A E Q and m :: "'a comp"
    using vspec_frame [OF that, of "fst (m s)" "snd (m s)"] by simp
  have "vframe (n_envs s) D s s'"
    using assms(7) fr [OF vm.ev [OF assms(1-3)]] fr [OF vm.ex [OF assms(1-4)]]
      fr [OF vm.cv [OF assms(1,2,5)]] assms(6) unfolding list_all_iff by blast
  then have "bind_ext (i \<in> D) (eVars (vm_envs s ! i) y) (eVars (vm_envs s' ! i) y)
      \<and> eUp (vm_envs s' ! i) = eUp (vm_envs s ! i)"
    using assms(8) unfolding vframe_def env_ext_def by blast
  then show ?thesis by (auto simp: bind_ext_def split: option.splits)
qed

theorem scopes_stay_local_witness:
  "let s' = snd (execN (small_cfg 9) 19 0 False (AssignStmt zero_pos ''k'' (Literal zero_pos (LitBool False))) ctx2)
   in eVars (vm_envs s' ! 0) ''k'' = Some \<lparr>bV = VBool True, bConst = True\<rparr>"
proof -
  let ?st = "AssignStmt zero_pos ''k'' (Literal zero_pos (LitBool False))"
  have "wf_stmt [] ?st" by simp
  from scopes_stay_local [OF small_cfg_ok(1) [of 9] ctx2_ok(1) _ this, where env = 0 and i = 0 and n = 19
      and exp = False and y = "''k''" and cal = VNull and args = "[]" and D = "{0}"
      and s' = "snd (execN (small_cfg 9) 19 0 False ?st ctx2)"]
  show ?thesis by (auto simp: ctx2_ok ctx2_vars Let_def simp del: execN.simps)
qed

section \<open>Errors\<close>

text \<open>
  C9: no control signal escapes an expression or a call: return, break and continue inside a
  function body end there, and what reaches the caller is a value, an error or an abort.
\<close>

theorem signals_stay_inside:
  assumes "cfg_ok cf" "state_ok s" "env < n_envs s" "val_ok (n_envs s) cal" "list_all (val_ok (n_envs s)) args"
    and "evalN cf n env x s = (Inl e, s') \<or> callN cf n pos cal args s = (Inl e, s')"
  shows "\<not> is_signal e"
proof -
  have "vspec b N A no_sig s m Q \<Longrightarrow> m s = (Inl e, s') \<Longrightarrow> e = OutOfFuel \<or> no_sig e s'"
    for b N A Q and m :: "Value comp"
    by (auto dest: vspec_err split: if_splits)
  then have "e = OutOfFuel \<or> no_sig e s'"
    using assms(6) vm.ev [OF assms(1-3)] vm.cv [OF assms(1,2,4)] assms(5) unfolding list_all_iff by blast
  then show ?thesis by (auto simp: no_sig_def)
qed

theorem signals_stay_inside_witness:
  "case evalN (small_cfg 9) 19 0 (Ident zero_pos ''y'') ctx2 of (Inl e, s') \<Rightarrow> \<not> is_signal e | (Inr v, s') \<Rightarrow> False"
proof -
  let ?r = "evalN (small_cfg 9) 19 0 (Ident zero_pos ''y'') ctx2"
  have "case fst ?r of Inl e \<Rightarrow> True | Inr v \<Rightarrow> False" by code_simp
  then obtain e s' where r: "?r = (Inl e, s')" by (cases ?r) (auto split: sum.splits)
  have "\<not> is_signal e"
    using signals_stay_inside [OF small_cfg_ok(1) [of 9] ctx2_ok(1) _ _ _ disjI1 [OF r], where cal = VNull and args = "[]"]
    by (simp add: ctx2_ok)
  with r show ?thesis by (simp del: evalN.simps)
qed

text \<open>
  C10: the runtime checks for a stray break or continue never fire for code that parsed: run at the
  top level of a module, a statement of a parsed module never ends in a break or continue signal.
\<close>

theorem parsed_controls_never_stray:
  assumes "cfg_ok cf" "state_ok s" "env < n_envs s" "ParseModuleAt path src pos = Inr m"
    and "st \<in> set (mStmts m)" "execN cf n env True st s = (r, s')"
  shows "r \<noteq> Inl (BreakSig p l) \<and> r \<noteq> Inl (ContinueSig p l)"
proof -
  have "wf_stmt [] st"
    using parseMod_outcome [of path src pos] assms(4,5)
    by (auto simp: ParseModuleAt_def mod_outcome_def split: sum.splits)
  note out = vspec_err [OF vm.ex [OF assms(1-3) this]]
  have "e = OutOfFuel \<or> sig_ok [] e s'" if "r = Inl e" for e
    using out [of n True e s'] assms(6) that by (auto split: if_splits)
  then show ?thesis by (cases r) (auto simp: inLoop_def split: if_splits)
qed

theorem parsed_controls_never_stray_witness:
  "case ParseModuleAt [] ''for { break }'' zero_pos of
     Inl e \<Rightarrow> False
   | Inr m \<Rightarrow> fst (execN (small_cfg 9) 19 0 True (hd (mStmts m)) ctx1) \<noteq> Inl (BreakSig zero_pos [])"
proof -
  have "case ParseModuleAt [] ''for { break }'' zero_pos of Inl e \<Rightarrow> False | Inr m \<Rightarrow> length (mStmts m) = 1"
    by code_simp
  then obtain m where m: "ParseModuleAt [] ''for { break }'' zero_pos = Inr m" "hd (mStmts m) \<in> set (mStmts m)"
    by (auto split: sum.splits simp: length_Suc_conv)
  from parsed_controls_never_stray [OF small_cfg_ok(1) [of 9] ctx1_ok(1) _ m prod.collapse [symmetric], of 0 19 zero_pos "[]"] m
  show ?thesis by (simp add: ctx1_ok del: execN.simps)
qed

end
