(* ===== verification/RtsArgs.thy ===== *)
theory RtsArgs
  imports RtsVmRuns
begin

text \<open>
  What the native functions of the standard library are built from: the argument checks of
  \<open>internal/rts/args.go\<close> and \<open>call.go\<close>, the scalar conversion of \<open>conv.go\<close>, the copy of \<open>dict.go\<close>.
  A check reads the call stack only. The last sections give each building block its two contracts,
  \<open>vspec\<close> (what a call may do) and \<open>runs\<close> (fuel and the step budget), from which those of the
  natives follow.
\<close>

section \<open>Argument checks\<close>

definition argCount :: "Frame list \<Rightarrow> Pos \<Rightarrow> Value list \<Rightarrow> nat \<Rightarrow> string \<Rightarrow> err option" where
  "argCount stk pos args want sig =
     (if length args \<noteq> want then Some (Errf stk pos (sig @ '' expects '' @ int_str (int want) @ '' args''))
      else None)"

definition argCountRange :: "Frame list \<Rightarrow> Pos \<Rightarrow> Value list \<Rightarrow> nat \<Rightarrow> nat \<Rightarrow> string \<Rightarrow> err option" where
  "argCountRange stk pos args lo hi sig =
     (if length args < lo \<or> length args > hi
      then Some (Errf stk pos (sig @ '' expects '' @ int_str (int lo) @ ''-'' @ int_str (int hi) @ '' args''))
      else None)"

definition strArg :: "Rt \<Rightarrow> Frame list \<Rightarrow> Pos \<Rightarrow> Value \<Rightarrow> err + string" where
  "strArg rt stk pos v =
     (case ToStr (rt_hosts rt) (rt_lim rt) stk pos v of
        Inl e \<Rightarrow> Inl e
      | Inr s \<Rightarrow> (case CheckStr (rt_lim rt) stk pos s of Some e \<Rightarrow> Inl e | None \<Rightarrow> Inr s))"

definition numArg :: "Frame list \<Rightarrow> Pos \<Rightarrow> Value \<Rightarrow> string \<Rightarrow> err + float64" where
  "numArg stk pos v sig =
     (case v of VNum n \<Rightarrow> Inr n | _ \<Rightarrow> Inl (Errf stk pos (sig @ '' expects number'')))"

definition listArg :: "Rt \<Rightarrow> Frame list \<Rightarrow> Pos \<Rightarrow> Value \<Rightarrow> string \<Rightarrow> err + Value list" where
  "listArg rt stk pos v sig =
     (case v of
        VNull \<Rightarrow> Inr []
      | VList xs \<Rightarrow> (case CheckList (rt_lim rt) stk pos (length xs) of Some e \<Rightarrow> Inl e | None \<Rightarrow> Inr xs)
      | _ \<Rightarrow> Inl (Errf stk pos (sig @ '' expects list'')))"

text \<open>A null argument is the nil map, which some callers tell apart from an empty one.\<close>

definition dictArg :: "Frame list \<Rightarrow> Pos \<Rightarrow> Value \<Rightarrow> string \<Rightarrow> err + (string \<times> Value) list option" where
  "dictArg stk pos v sig =
     (case v of
        VNull \<Rightarrow> Inr None
      | VDict m \<Rightarrow> Inr (Some m)
      | _ \<Rightarrow> Inl (Errf stk pos (sig @ '' expects dict'')))"

text \<open>\<open>CloneDict\<close>: a copy, empty for the nil map.\<close>

definition CloneDict :: "(string \<times> Value) list option \<Rightarrow> (string \<times> Value) list" where
  "CloneDict m = (case m of None \<Rightarrow> [] | Some kvs \<Rightarrow> kvs)"

definition KeyOf :: "Frame list \<Rightarrow> Pos \<Rightarrow> Value \<Rightarrow> err + string" where
  "KeyOf stk pos v = (case Key pos v of Inl e \<Rightarrow> Inl (WrapErr stk e) | Inr k \<Rightarrow> Inr k)"

definition CheckFunc :: "Frame list \<Rightarrow> Pos \<Rightarrow> Value \<Rightarrow> string \<Rightarrow> err option" where
  "CheckFunc stk pos v sig =
     (case v of VFunc _ \<Rightarrow> None | VNative _ \<Rightarrow> None | _ \<Rightarrow> Some (Errf stk pos (sig @ '' expects function'')))"

definition ScalarStr :: "Rt \<Rightarrow> Frame list \<Rightarrow> Pos \<Rightarrow> Value \<Rightarrow> string \<Rightarrow> err + string" where
  "ScalarStr rt stk pos v sig =
     (if (case v of VStr _ \<Rightarrow> True | VNum _ \<Rightarrow> True | VBool _ \<Rightarrow> True | _ \<Rightarrow> False)
      then ToStr (rt_hosts rt) (rt_lim rt) stk pos v
      else Inl (Errf stk pos (sig @ '' expects string/number/bool'')))"

subsection \<open>As computations\<close>

definition a_count :: "Pos \<Rightarrow> Value list \<Rightarrow> nat \<Rightarrow> string \<Rightarrow> unit comp" where
  "a_count pos args want sig = vcheck (\<lambda>stk. argCount stk pos args want sig)"

definition a_range :: "Pos \<Rightarrow> Value list \<Rightarrow> nat \<Rightarrow> nat \<Rightarrow> string \<Rightarrow> unit comp" where
  "a_range pos args lo hi sig = vcheck (\<lambda>stk. argCountRange stk pos args lo hi sig)"

definition a_str :: "Rt \<Rightarrow> Pos \<Rightarrow> Value \<Rightarrow> string comp" where
  "a_str rt pos v = vpure (\<lambda>stk. strArg rt stk pos v)"

definition a_num :: "Pos \<Rightarrow> Value \<Rightarrow> string \<Rightarrow> float64 comp" where
  "a_num pos v sig = vpure (\<lambda>stk. numArg stk pos v sig)"

definition a_list :: "Rt \<Rightarrow> Pos \<Rightarrow> Value \<Rightarrow> string \<Rightarrow> Value list comp" where
  "a_list rt pos v sig = vpure (\<lambda>stk. listArg rt stk pos v sig)"

definition a_dict :: "Pos \<Rightarrow> Value \<Rightarrow> string \<Rightarrow> (string \<times> Value) list option comp" where
  "a_dict pos v sig = vpure (\<lambda>stk. dictArg stk pos v sig)"

definition a_key :: "Pos \<Rightarrow> Value \<Rightarrow> string comp" where
  "a_key pos v = vpure (\<lambda>stk. KeyOf stk pos v)"

definition a_fn :: "Pos \<Rightarrow> Value \<Rightarrow> string \<Rightarrow> unit comp" where
  "a_fn pos v sig = vcheck (\<lambda>stk. CheckFunc stk pos v sig)"

definition a_scalar :: "Rt \<Rightarrow> Pos \<Rightarrow> Value \<Rightarrow> string \<Rightarrow> string comp" where
  "a_scalar rt pos v sig = vpure (\<lambda>stk. ScalarStr rt stk pos v sig)"

definition c_list :: "Rt \<Rightarrow> Pos \<Rightarrow> nat \<Rightarrow> unit comp" where
  "c_list rt pos n = vcheck (\<lambda>stk. CheckList (rt_lim rt) stk pos n)"

definition c_dict :: "Rt \<Rightarrow> Pos \<Rightarrow> nat \<Rightarrow> unit comp" where
  "c_dict rt pos n = vcheck (\<lambda>stk. CheckDict (rt_lim rt) stk pos n)"

definition c_str :: "Rt \<Rightarrow> Pos \<Rightarrow> string \<Rightarrow> unit comp" where
  "c_str rt pos s = vcheck (\<lambda>stk. CheckStr (rt_lim rt) stk pos s)"

section \<open>Contracts of the checks\<close>

lemma check_arg_plain [simp]:
  "argCount stk pos args n sig = Some e \<Longrightarrow> plain_err e"
  "argCountRange stk pos args lo hi sig = Some e \<Longrightarrow> plain_err e"
  "CheckFunc stk pos v sig = Some e \<Longrightarrow> plain_err e"
  "strArg rt stk pos v = Inl e \<Longrightarrow> plain_err e"
  "numArg stk pos v sig = Inl e \<Longrightarrow> plain_err e"
  "listArg rt stk pos v sig = Inl e \<Longrightarrow> plain_err e"
  "dictArg stk pos v sig = Inl e \<Longrightarrow> plain_err e"
  "KeyOf stk pos v = Inl e \<Longrightarrow> plain_err e"
  "ScalarStr rt stk pos v sig = Inl e \<Longrightarrow> plain_err e"
  by (auto simp: argCount_def argCountRange_def CheckFunc_def strArg_def numArg_def listArg_def dictArg_def
      KeyOf_def ScalarStr_def dest: ToStr_plain split: if_splits Value.splits sum.splits option.splits)

text \<open>The state of a native call: all of its checks run in it.\<close>

definition native_state :: "Vm \<Rightarrow> Value list \<Rightarrow> bool" where
  "native_state s args \<longleftrightarrow> state_ok s \<and> (\<forall>v \<in> set args. val_ok (n_envs s) v)"

named_theorems native_rules \<open>the contract of a native, one building block at a time\<close>

lemma arg_ok: "native_state s args \<Longrightarrow> i < length args \<Longrightarrow> val_ok (n_envs s) (args ! i)"
  by (simp add: native_state_def)

lemma bind_a_count [native_rules]:
  assumes "state_ok s" "N \<le> n_envs s" "E_plain E"
    and "length args = n \<Longrightarrow> vspec b N A E s (f ()) R"
  shows "vspec b N A E s (vbind (a_count pos args n sig) f) R"
proof (cases "length args = n")
  case True
  then show ?thesis unfolding a_count_def using assms by (intro bind_check) auto
next
  case False
  then show ?thesis unfolding a_count_def vcheck_def using assms
    by (intro bind_pure) (auto simp: argCount_def)
qed

lemma bind_a_range [native_rules]:
  assumes "state_ok s" "N \<le> n_envs s" "E_plain E"
    and "lo \<le> length args \<Longrightarrow> length args \<le> hi \<Longrightarrow> vspec b N A E s (f ()) R"
  shows "vspec b N A E s (vbind (a_range pos args lo hi sig) f) R"
proof (cases "lo \<le> length args \<and> length args \<le> hi")
  case True
  then show ?thesis unfolding a_range_def using assms by (intro bind_check) auto
next
  case False
  then show ?thesis unfolding a_range_def vcheck_def using assms
    by (intro bind_pure) (auto simp: argCountRange_def)
qed

lemma bind_a_pure [native_rules]:
  assumes "state_ok s" "N \<le> n_envs s" "E_plain E"
  shows "(\<And>x. vspec b N A E s (f x) R) \<Longrightarrow> vspec b N A E s (vbind (a_str rt pos v) f) R"
    and "(\<And>x. vspec b N A E s (f' x) R) \<Longrightarrow> vspec b N A E s (vbind (a_num pos v sig) f') R"
    and "(\<And>x. vspec b N A E s (f x) R) \<Longrightarrow> vspec b N A E s (vbind (a_key pos v) f) R"
    and "(\<And>x. vspec b N A E s (f x) R) \<Longrightarrow> vspec b N A E s (vbind (a_scalar rt pos v sig) f) R"
    and "vspec b N A E s (g ()) R \<Longrightarrow> vspec b N A E s (vbind (a_fn pos v sig) g) R"
    and "vspec b N A E s (g ()) R \<Longrightarrow> vspec b N A E s (vbind (c_list rt pos n) g) R"
    and "vspec b N A E s (g ()) R \<Longrightarrow> vspec b N A E s (vbind (c_dict rt pos n) g) R"
    and "vspec b N A E s (g ()) R \<Longrightarrow> vspec b N A E s (vbind (c_str rt pos t) g) R"
  unfolding a_str_def a_num_def a_key_def a_scalar_def a_fn_def c_list_def c_dict_def c_str_def
  by (intro bind_pure bind_check assms; simp)+

lemma bind_a_list [native_rules]:
  assumes "state_ok s" "N \<le> n_envs s" "E_plain E" "val_ok (n_envs s) v"
    and "\<And>xs. \<forall>x \<in> set xs. val_ok (n_envs s) x \<Longrightarrow> vspec b N A E s (f xs) R"
  shows "vspec b N A E s (vbind (a_list rt pos v sig) f) R"
  unfolding a_list_def
  by (intro bind_pure assms)
    (use assms in \<open>auto simp: listArg_def split: Value.splits option.splits\<close>)

lemma bind_a_dict [native_rules]:
  assumes "state_ok s" "N \<le> n_envs s" "E_plain E" "val_ok (n_envs s) v"
    and "\<And>m. val_ok (n_envs s) (VDict (CloneDict m)) \<Longrightarrow> vspec b N A E s (f m) R"
  shows "vspec b N A E s (vbind (a_dict pos v sig) f) R"
  unfolding a_dict_def
  by (intro bind_pure assms)
    (use assms in \<open>auto simp: dictArg_def CloneDict_def split: Value.splits\<close>)

text \<open>Steps and callbacks of a native loop: a callback follows a step of its own.\<close>

definition stepped :: "Rt \<Rightarrow> Vm \<Rightarrow> Vm \<Rightarrow> bool" where
  "stepped rt s s1 \<longleftrightarrow> state_ok s1 \<and> n_envs s \<le> n_envs s1 \<and> vm_steps s \<le> vm_steps s1"

lemma stepped_refl: "state_ok s \<Longrightarrow> stepped rt s s"
  by (simp add: stepped_def)

lemma stepped_val: "stepped rt s s1 \<Longrightarrow> val_ok (n_envs s) v \<Longrightarrow> val_ok (n_envs s1) v"
  by (auto simp: stepped_def intro: val_ok_mono)

lemma caller_okD:
  "caller_ok b M k cv \<Longrightarrow> state_ok s \<Longrightarrow> val_ok (n_envs s) cal \<Longrightarrow> \<forall>v \<in> set args. val_ok (n_envs s) v \<Longrightarrow>
     vspec (b \<and> k < vm_steps s \<and> (0 < M \<longrightarrow> vm_steps s \<le> M)) (n_envs s) {} no_sig s (cv pos cal args) val_result"
  unfolding caller_ok_def by blast

lemma native_okD:
  "native_ok rt f \<Longrightarrow> state_ok s \<Longrightarrow> \<forall>v \<in> set args. val_ok (n_envs s) v \<Longrightarrow>
     caller_ok b (MaxSteps (rt_lim rt)) (vm_steps s) cv \<Longrightarrow>
     vspec b (n_envs s) {} no_sig s (f rt cv pos args) val_result"
  unfolding native_ok_def by blast

lemma bind_call:
  assumes cv: "caller_ok b (MaxSteps (rt_lim rt)) (vm_steps s0) cv"
    and s: "stepped rt s0 s" and N: "N \<le> n_envs s0" and E: "E_plain E"
    and vals: "val_ok (n_envs s) cal" "\<forall>v \<in> set args. val_ok (n_envs s) v"
    and f: "\<And>v s2. stepped rt s0 s2 \<Longrightarrow> n_envs s \<le> n_envs s2 \<Longrightarrow> val_ok (n_envs s2) v \<Longrightarrow>
      vspec b N A E s2 (f v) R"
  shows "vspec b N A E s (vbind (tick rt pos) (\<lambda>_. vbind (cv pos' cal args) f)) R"
proof (rule bind_tick)
  fix s1
  assume s1: "state_ok s1" "n_envs s1 = n_envs s" "vm_steps s1 = vm_steps s + 1"
    "0 < MaxSteps (rt_lim rt) \<longrightarrow> vm_steps s1 \<le> MaxSteps (rt_lim rt)"
  have "vspec (b \<and> vm_steps s0 < vm_steps s1 \<and> (0 < MaxSteps (rt_lim rt) \<longrightarrow> vm_steps s1 \<le> MaxSteps (rt_lim rt)))
      (n_envs s1) {} no_sig s1 (cv pos' cal args) val_result"
    by (rule caller_okD [OF cv s1(1)]) (use s1 vals in simp_all)
  then show "vspec b N A E s1 (vbind (cv pos' cal args) f) R"
  proof (rule vspec_bind, goal_cases)
    case 1
    then show ?case using s s1 by (simp add: stepped_def)
  next
    case 2
    then show ?case using s s1 N by (simp add: stepped_def)
  next
    case (4 e s')
    then show ?case using E by (auto intro: E_plainD)
  next
    case (5 v s2)
    then show ?case using s s1 by (intro f) (auto simp: stepped_def val_result_def)
  qed simp
qed (use s N E in \<open>auto simp: stepped_def\<close>)

lemma bind_step:
  assumes "stepped rt s0 s" "N \<le> n_envs s0" "E_plain E"
    and "\<And>s1. stepped rt s0 s1 \<Longrightarrow> n_envs s1 = n_envs s \<Longrightarrow> vspec b N A E s1 (f ()) R"
  shows "vspec b N A E s (vbind (tick rt pos) f) R"
  by (rule bind_tick) (use assms in \<open>auto simp: stepped_def\<close>)

section \<open>Fuel and the step budget\<close>

lemma runs_args [runs_intros]:
  "runs M (a_count pos args n sig) (a_count pos args n sig)" "runs M (a_range pos args lo hi sig) (a_range pos args lo hi sig)"
  "runs M (a_str rt pos v) (a_str rt pos v)" "runs M (a_num pos v sig) (a_num pos v sig)"
  "runs M (a_list rt pos v sig) (a_list rt pos v sig)" "runs M (a_dict pos v sig) (a_dict pos v sig)"
  "runs M (a_key pos v) (a_key pos v)" "runs M (a_fn pos v sig) (a_fn pos v sig)"
  "runs M (a_scalar rt pos v sig) (a_scalar rt pos v sig)" "runs M (c_list rt pos n) (c_list rt pos n)"
  "runs M (c_dict rt pos n) (c_dict rt pos n)" "runs M (c_str rt pos s) (c_str rt pos s)"
  by (simp_all add: a_count_def a_range_def a_str_def a_num_def a_list_def a_dict_def a_key_def a_fn_def
      a_scalar_def c_list_def c_dict_def c_str_def runs_prims)

section \<open>Named natives\<close>

text \<open>Recording the name in the call stack keeps both contracts.\<close>

lemma native_ok_named: "native_ok rt f \<Longrightarrow> native_ok rt (NativeNamed name f)"
proof -
  assume f: "native_ok rt f"
  have "vspec b (n_envs s) {} no_sig s (NativeNamed name f rt cv pos args) val_result"
    if s: "state_ok s" "\<forall>v \<in> set args. val_ok (n_envs s) v" "caller_ok b (MaxSteps (rt_lim rt)) (vm_steps s) cv"
    for b cv pos args s
    unfolding NativeNamed_def
  proof (rule vspec_with_frame [OF s(1)])
    fix s1
    assume s1: "state_ok s1" "n_envs s1 = n_envs s" "vm_steps s1 = vm_steps s"
    then show "vspec b (n_envs s) {} no_sig s1 (f rt cv pos args) val_result"
      using native_okD [OF f s1(1), of args b cv pos] s by simp
  qed (auto intro: no_sig_keep val_result_keep)
  then show ?thesis by (simp add: native_ok_def)
qed

lemma native_runs_named: "native_runs rt f \<Longrightarrow> native_runs rt (NativeNamed name f)"
  by (auto simp: native_runs_def NativeNamed_def intro!: runs_intros)

section \<open>The interface of a native function\<close>

text \<open>
  What the evaluator relies on when it calls a native, with both contracts. Every native of the
  standard library is shown to provide it; a table of them is what a configuration needs.
\<close>

locale native_function =
  fixes f :: NativeFunc
  assumes native_ok: "native_ok rt f"
    and native_runs: "native_runs rt f"
begin

lemma named_ok: "native_ok rt (NativeNamed name f)"
  by (rule native_ok_named [OF native_ok])

lemma named_runs: "native_runs rt (NativeNamed name f)"
  by (rule native_runs_named [OF native_runs])

end

text \<open>The two obligations of a native, with the frame of the call in place.\<close>

lemma native_functionI:
  assumes "\<And>rt b cv pos args s. state_ok s \<Longrightarrow> \<forall>v \<in> set args. val_ok (n_envs s) v \<Longrightarrow>
      caller_ok b (MaxSteps (rt_lim rt)) (vm_steps s) cv \<Longrightarrow>
      vspec b (n_envs s) {} no_sig s (f rt cv pos args) val_result"
    and "\<And>rt cv cv' pos args. (\<And>pos cal args. runs (MaxSteps (rt_lim rt)) (cv pos cal args) (cv' pos cal args)) \<Longrightarrow>
      runs (MaxSteps (rt_lim rt)) (f rt cv pos args) (f rt cv' pos args)"
  shows "native_function f"
  by unfold_locales (use assms in \<open>auto simp: native_ok_def native_runs_def\<close>)

end
