(* ===== verification/RtsStdList.thy ===== *)
theory RtsStdList
  imports RtsArgs "HOL-Library.Multiset"
begin

text \<open>
  The namespace \<open>list\<close> of the standard library (\<open>internal/rts/stdlib/list.go\<close>). Loops that call
  back take a step per item, as the code does. \<open>sort.Slice\<close> is its insertion sort, the algorithm it
  uses up to twelve items; on longer lists the library promises the same order up to equal items.
\<close>

section \<open>Signatures\<close>

definition sigListAppend :: string where
  "sigListAppend = ''list.append(list, item)''"
definition sigListConcat :: string where
  "sigListConcat = ''list.concat(a, b)''"
definition sigListSort :: string where
  "sigListSort = ''list.sort(list)''"
definition sigListMap :: string where
  "sigListMap = ''list.map(list, fn)''"
definition sigListFilter :: string where
  "sigListFilter = ''list.filter(list, fn)''"
definition sigListAny :: string where
  "sigListAny = ''list.any(list, fn)''"
definition sigListAll :: string where
  "sigListAll = ''list.all(list, fn)''"
definition sigListSlice :: string where
  "sigListSlice = ''list.slice(list, start[, end])''"
definition sigListUnique :: string where
  "sigListUnique = ''list.unique(list)''"

section \<open>Append, concat\<close>

definition listAppend :: NativeFunc where
  "listAppend rt cv pos args =
     vbind (a_count pos args 2 sigListAppend) (\<lambda>_.
     vbind (a_list rt pos (args ! 0) sigListAppend) (\<lambda>items.
       let out = items @ [args ! 1] in
       vbind (c_list rt pos (length out)) (\<lambda>_. vret (VList out))))"

definition listConcat :: NativeFunc where
  "listConcat rt cv pos args =
     vbind (a_count pos args 2 sigListConcat) (\<lambda>_.
     vbind (a_list rt pos (args ! 0) sigListConcat) (\<lambda>a.
     vbind (a_list rt pos (args ! 1) sigListConcat) (\<lambda>b.
       let out = a @ b in
       vbind (c_list rt pos (length out)) (\<lambda>_. vret (VList out)))))"

section \<open>Sort\<close>

text \<open>The sorted prefix is kept reversed; an item moves left past the larger ones.\<close>

fun sort_insert :: "('a \<Rightarrow> 'a \<Rightarrow> bool) \<Rightarrow> 'a \<Rightarrow> 'a list \<Rightarrow> 'a list" where
  "sort_insert lt x [] = [x]"
| "sort_insert lt x (y # ys) = (if lt x y then y # sort_insert lt x ys else x # y # ys)"

definition go_sort :: "('a \<Rightarrow> 'a \<Rightarrow> bool) \<Rightarrow> 'a list \<Rightarrow> 'a list" where
  "go_sort lt xs = rev (foldl (\<lambda>acc x. sort_insert lt x acc) [] xs)"

definition num_less :: "Value \<Rightarrow> Value \<Rightarrow> bool" where
  "num_less a b = (case (a, b) of (VNum x, VNum y) \<Rightarrow> f_lt x y | _ \<Rightarrow> False)"

definition str_less :: "Value \<Rightarrow> Value \<Rightarrow> bool" where
  "str_less a b = (case (a, b) of (VStr x, VStr y) \<Rightarrow> x < y | _ \<Rightarrow> False)"

definition listSort :: NativeFunc where
  "listSort rt cv pos args =
     vbind (a_count pos args 1 sigListSort) (\<lambda>_.
     vbind (a_list rt pos (args ! 0) sigListSort) (\<lambda>items.
       if length items \<le> 1 then vret (VList items)
       else if list_ex (\<lambda>v. vkind v \<noteq> vkind (items ! 0)) items
       then verr pos (sigListSort @ '' expects numbers or strings'')
       else case items ! 0 of
         VNum _ \<Rightarrow> vret (VList (go_sort num_less items))
       | VStr _ \<Rightarrow> vret (VList (go_sort str_less items))
       | _ \<Rightarrow> verr pos (sigListSort @ '' expects numbers or strings'')))"

section \<open>Map, filter, any, all\<close>

fun map_items :: "Rt \<Rightarrow> caller \<Rightarrow> Pos \<Rightarrow> Value \<Rightarrow> Value list \<Rightarrow> Value list \<Rightarrow> Value comp" where
  "map_items rt cv pos fn out [] = vret (VList out)"
| "map_items rt cv pos fn out (it # items) =
     vbind (tick rt pos) (\<lambda>_.
     vbind (cv pos fn [it]) (\<lambda>v.
     vbind (c_list rt pos (length (out @ [v]))) (\<lambda>_.
       map_items rt cv pos fn (out @ [v]) items)))"

fun filter_items :: "Rt \<Rightarrow> caller \<Rightarrow> Pos \<Rightarrow> Value \<Rightarrow> Value list \<Rightarrow> Value list \<Rightarrow> Value comp" where
  "filter_items rt cv pos fn out [] = vret (VList out)"
| "filter_items rt cv pos fn out (it # items) =
     vbind (tick rt pos) (\<lambda>_.
     vbind (cv pos fn [it]) (\<lambda>v.
       if IsTruthy (rt_hosts rt) v then
         vbind (c_list rt pos (length (out @ [it]))) (\<lambda>_. filter_items rt cv pos fn (out @ [it]) items)
       else filter_items rt cv pos fn out items))"

text \<open>\<open>any\<close> stops at the first truthy result with true, \<open>all\<close> at the first other one with false.\<close>

fun search_items :: "Rt \<Rightarrow> caller \<Rightarrow> Pos \<Rightarrow> Value \<Rightarrow> bool \<Rightarrow> Value list \<Rightarrow> Value comp" where
  "search_items rt cv pos fn stop [] = vret (VBool (\<not> stop))"
| "search_items rt cv pos fn stop (it # items) =
     vbind (tick rt pos) (\<lambda>_.
     vbind (cv pos fn [it]) (\<lambda>v.
       if IsTruthy (rt_hosts rt) v = stop then vret (VBool stop)
       else search_items rt cv pos fn stop items))"

definition with_list_fn :: "string \<Rightarrow> (Rt \<Rightarrow> caller \<Rightarrow> Pos \<Rightarrow> Value \<Rightarrow> Value list \<Rightarrow> Value comp) \<Rightarrow> NativeFunc" where
  "with_list_fn sig body rt cv pos args =
     vbind (a_count pos args 2 sig) (\<lambda>_.
     vbind (a_list rt pos (args ! 0) sig) (\<lambda>items.
     vbind (a_fn pos (args ! 1) sig) (\<lambda>_. body rt cv pos (args ! 1) items)))"

definition listMap :: NativeFunc where
  "listMap = with_list_fn sigListMap (\<lambda>rt cv pos fn items. map_items rt cv pos fn [] items)"

definition listFilter :: NativeFunc where
  "listFilter = with_list_fn sigListFilter (\<lambda>rt cv pos fn items. filter_items rt cv pos fn [] items)"

definition listAny :: NativeFunc where
  "listAny = with_list_fn sigListAny (\<lambda>rt cv pos fn items. search_items rt cv pos fn True items)"

definition listAll :: NativeFunc where
  "listAll = with_list_fn sigListAll (\<lambda>rt cv pos fn items. search_items rt cv pos fn False items)"

section \<open>Slice\<close>

text \<open>
  The bounds: \<open>float64\<close> of the largest int is 2^63 after rounding, and so is minus the smallest
  after subtracting one more.
\<close>

definition maxNativeIntFloat :: float64 where
  "maxNativeIntFloat = f_of_int (2 ^ 63)"

definition minNativeIntFloat :: float64 where
  "minNativeIntFloat = f_sub (f_neg maxNativeIntFloat) (f_of_int 1)"

definition numF :: "Frame list \<Rightarrow> Pos \<Rightarrow> Value \<Rightarrow> string \<Rightarrow> err + float64" where
  "numF stk pos v sig =
     (case v of
        VNum n \<Rightarrow> (if f_is_nan n \<or> f_is_inf n then Inl (Errf stk pos (sig @ '' expects finite number'')) else Inr n)
      | _ \<Rightarrow> Inl (Errf stk pos (sig @ '' expects number'')))"

definition intNum :: "Frame list \<Rightarrow> Pos \<Rightarrow> Value \<Rightarrow> string \<Rightarrow> err + int" where
  "intNum stk pos v sig =
     (case numF stk pos v sig of
        Inl e \<Rightarrow> Inl e
      | Inr n \<Rightarrow>
          (if \<not> f_eq (f_trunc n) n then Inl (Errf stk pos (sig @ '' expects integer''))
           else if f_lt maxNativeIntFloat n \<or> f_lt n minNativeIntFloat
           then Inl (Errf stk pos (sig @ '' out of range''))
           else Inr (f_to_int n)))"

definition clampIdx :: "int \<Rightarrow> int \<Rightarrow> int" where
  "clampIdx n i0 =
     (let i = (if i0 < 0 then n + i0 else i0) in if i < 0 then 0 else if i > n then n else i)"

definition sliceIdx :: "int \<Rightarrow> int \<Rightarrow> int \<Rightarrow> int \<times> int" where
  "sliceIdx n st en = (let st' = clampIdx n st in (st', max (clampIdx n en) st'))"

definition a_int :: "Pos \<Rightarrow> Value \<Rightarrow> string \<Rightarrow> int comp" where
  "a_int pos v sig = vpure (\<lambda>stk. intNum stk pos v sig)"

definition list_slice :: "'a list \<Rightarrow> int \<Rightarrow> int \<Rightarrow> 'a list" where
  "list_slice xs st en =
     (case sliceIdx (int (length xs)) st en of (lo, hi) \<Rightarrow> if hi \<le> lo then [] else slice xs (nat lo) (nat hi))"

definition listSlice :: NativeFunc where
  "listSlice rt cv pos args =
     vbind (a_range pos args 2 3 sigListSlice) (\<lambda>_.
     vbind (a_list rt pos (args ! 0) sigListSlice) (\<lambda>items.
       if items = [] then vret (VList [])
       else
         vbind (a_int pos (args ! 1) sigListSlice) (\<lambda>st.
         vbind (if 2 < length args then a_int pos (args ! 2) sigListSlice else vret (int (length items))) (\<lambda>en.
           let out = list_slice items st en in
           if out = [] then vret (VList [])
           else vbind (c_list rt pos (length out)) (\<lambda>_. vret (VList out))))))"

section \<open>Unique\<close>

definition keyVal :: "Frame list \<Rightarrow> Pos \<Rightarrow> Value \<Rightarrow> string \<Rightarrow> err + string" where
  "keyVal stk pos v sig =
     (case v of
        VNull \<Rightarrow> Inr ''n:null''
      | VBool b \<Rightarrow> Inr (if b then ''b:true'' else ''b:false'')
      | VNum n \<Rightarrow>
          (if f_is_nan n \<or> f_is_inf n then Inl (Errf stk pos (sig @ '' expects finite numbers''))
           else Inr (''f:'' @ format_g n))
      | VStr s \<Rightarrow> Inr (''s:'' @ s)
      | _ \<Rightarrow> Inl (Errf stk pos (sig @ '' expects list of primitives'')))"

fun unique_items :: "Rt \<Rightarrow> Pos \<Rightarrow> string list \<Rightarrow> Value list \<Rightarrow> Value list \<Rightarrow> Value comp" where
  "unique_items rt pos seen out [] = vret (VList out)"
| "unique_items rt pos seen out (it # items) =
     vbind (tick rt pos) (\<lambda>_.
     vbind (vpure (\<lambda>stk. keyVal stk pos it sigListUnique)) (\<lambda>k.
       if k \<in> set seen then unique_items rt pos seen out items
       else vbind (c_list rt pos (length (out @ [it]))) (\<lambda>_.
         unique_items rt pos (k # seen) (out @ [it]) items)))"

definition listUnique :: NativeFunc where
  "listUnique rt cv pos args =
     vbind (a_count pos args 1 sigListUnique) (\<lambda>_.
     vbind (a_list rt pos (args ! 0) sigListUnique) (\<lambda>items. unique_items rt pos [] [] items))"

section \<open>The contract of a native\<close>

lemma keyVal_plain [simp]: "keyVal stk pos v sig = Inl e \<Longrightarrow> plain_err e"
  by (auto simp: keyVal_def split: Value.splits if_splits)

lemma intNum_plain [simp]: "intNum stk pos v sig = Inl e \<Longrightarrow> plain_err e"
  by (auto simp: intNum_def numF_def split: sum.splits if_splits Value.splits)

lemma bind_a_int:
  "state_ok s \<Longrightarrow> N \<le> n_envs s \<Longrightarrow> E_plain E \<Longrightarrow> (\<And>x. vspec b N A E s (f x) R) \<Longrightarrow>
     vspec b N A E s (vbind (a_int pos v sig) f) R"
  unfolding a_int_def by (intro bind_pure) auto

lemma val_list [simp]: "val_result (VList xs) s \<longleftrightarrow> (\<forall>x \<in> set xs. val_ok (n_envs s) x)"
  by (simp add: val_result_def)

lemma set_list_slice: "set (list_slice xs st en) \<subseteq> set xs"
  by (auto simp: list_slice_def slice_def split: prod.splits dest: in_set_takeD in_set_dropD)

lemma mset_sort_insert: "mset (sort_insert lt x ys) = add_mset x (mset ys)"
  by (induction ys) auto

lemma mset_go_sort: "mset (go_sort lt xs) = mset xs"
proof -
  have "mset (foldl (\<lambda>acc x. sort_insert lt x acc) acc xs) = mset acc + mset xs" for acc
    by (induction xs arbitrary: acc) (simp_all add: mset_sort_insert)
  then show ?thesis by (simp add: go_sort_def)
qed

lemma set_go_sort [simp]: "set (go_sort lt xs) = set xs"
  using mset_go_sort [of lt xs] by (metis set_mset_mset)

lemma vals_mono: "\<forall>x \<in> X. val_ok n x \<Longrightarrow> n \<le> k \<Longrightarrow> \<forall>x \<in> X. val_ok k x"
  by (auto intro: val_ok_mono)

text \<open>A loop over items: a step, a callback on the item, the rest in the state after it.\<close>

lemma spec_call_item:
  assumes "caller_ok b (MaxSteps (rt_lim rt)) (vm_steps s0) cv" "val_ok (n_envs s0) fn"
    and "stepped rt s0 s" "\<forall>v \<in> set (it # items @ out). val_ok (n_envs s) v"
    and "\<And>v s2. stepped rt s0 s2 \<Longrightarrow> state_ok s2 \<Longrightarrow> n_envs s0 \<le> n_envs s2 \<Longrightarrow> val_ok (n_envs s2) v \<Longrightarrow>
      \<forall>v \<in> set (it # items @ out). val_ok (n_envs s2) v \<Longrightarrow> vspec b (n_envs s0) {} no_sig s2 (f v) val_result"
  shows "vspec b (n_envs s0) {} no_sig s (vbind (tick rt pos) (\<lambda>_. vbind (cv pos fn [it]) f)) val_result"
proof (rule bind_call [OF assms(1,3)], goal_cases)
  case (5 v s2)
  then show ?case using vals_mono [OF assms(4) 5(2)] by (intro assms(5)) (auto simp: stepped_def)
qed (use assms(2-4) in \<open>auto intro: stepped_val\<close>)

lemma spec_map_items:
  assumes cv: "caller_ok b (MaxSteps (rt_lim rt)) (vm_steps s0) cv" and fn: "val_ok (n_envs s0) fn"
  shows "stepped rt s0 s \<Longrightarrow> \<forall>v \<in> set (items @ out). val_ok (n_envs s) v \<Longrightarrow>
    vspec b (n_envs s0) {} no_sig s (map_items rt cv pos fn out items) val_result"
proof (induction items arbitrary: s out)
  case (Cons it items)
  show ?case unfolding map_items.simps
    by (rule spec_call_item [OF cv fn Cons.prems(1), where items = items and out = out])
      (use Cons.prems in \<open>auto intro!: native_rules Cons.IH\<close>)
qed (auto intro!: vspec_ret simp: stepped_def)

lemma spec_filter_items:
  assumes cv: "caller_ok b (MaxSteps (rt_lim rt)) (vm_steps s0) cv" and fn: "val_ok (n_envs s0) fn"
  shows "stepped rt s0 s \<Longrightarrow> \<forall>v \<in> set (items @ out). val_ok (n_envs s) v \<Longrightarrow>
    vspec b (n_envs s0) {} no_sig s (filter_items rt cv pos fn out items) val_result"
proof (induction items arbitrary: s out)
  case (Cons it items)
  show ?case unfolding filter_items.simps
    by (rule spec_call_item [OF cv fn Cons.prems(1), where items = items and out = out])
      (use Cons.prems in \<open>auto intro!: native_rules Cons.IH\<close>)
qed (auto intro!: vspec_ret simp: stepped_def)

lemma spec_search_items:
  assumes cv: "caller_ok b (MaxSteps (rt_lim rt)) (vm_steps s0) cv" and fn: "val_ok (n_envs s0) fn"
  shows "stepped rt s0 s \<Longrightarrow> \<forall>v \<in> set items. val_ok (n_envs s) v \<Longrightarrow>
    vspec b (n_envs s0) {} no_sig s (search_items rt cv pos fn stop items) val_result"
proof (induction items arbitrary: s)
  case (Cons it items)
  show ?case unfolding search_items.simps
    by (rule spec_call_item [OF cv fn Cons.prems(1), where items = items and out = "[]"])
      (use Cons.prems in \<open>auto intro!: vspec_ret Cons.IH simp: val_result_def\<close>)
qed (auto intro!: vspec_ret simp: stepped_def val_result_def)

lemma spec_unique_items:
  "stepped rt s0 s \<Longrightarrow> \<forall>v \<in> set (items @ out). val_ok (n_envs s) v \<Longrightarrow>
    vspec b (n_envs s0) {} no_sig s (unique_items rt pos seen out items) val_result"
proof (induction items arbitrary: s seen out)
  case (Cons it items)
  show ?case
    unfolding unique_items.simps
  proof (rule bind_step [OF Cons.prems(1)], goal_cases)
    case (3 s1)
    then show ?case
      by (intro bind_pure vspec_if native_rules Cons.IH) (use Cons.prems in \<open>auto simp: stepped_def\<close>)
  qed simp_all
qed (auto intro!: vspec_ret simp: stepped_def)

text \<open>\<open>runs\<close> of the loops.\<close>

lemma runs_list_loops:
  assumes cv: "\<And>pos cal args. runs (MaxSteps (rt_lim rt)) (cv pos cal args) (cv' pos cal args)"
  shows "runs (MaxSteps (rt_lim rt)) (map_items rt cv pos fn out items) (map_items rt cv' pos fn out items)"
    and "runs (MaxSteps (rt_lim rt)) (filter_items rt cv pos fn out items) (filter_items rt cv' pos fn out items)"
    and "runs (MaxSteps (rt_lim rt)) (search_items rt cv pos fn stop items) (search_items rt cv' pos fn stop items)"
    and "runs (MaxSteps (rt_lim rt)) (unique_items rt pos seen out items) (unique_items rt pos seen out items)"
proof -
  show "runs (MaxSteps (rt_lim rt)) (map_items rt cv pos fn out items) (map_items rt cv' pos fn out items)"
    by (induction items arbitrary: out) (auto intro!: runs_intros cv)
  show "runs (MaxSteps (rt_lim rt)) (filter_items rt cv pos fn out items) (filter_items rt cv' pos fn out items)"
    by (induction items arbitrary: out) (auto intro!: runs_intros cv)
  show "runs (MaxSteps (rt_lim rt)) (search_items rt cv pos fn stop items) (search_items rt cv' pos fn stop items)"
    by (induction items) (auto intro!: runs_intros cv)
  show "runs (MaxSteps (rt_lim rt)) (unique_items rt pos seen out items) (unique_items rt pos seen out items)"
    by (induction items arbitrary: seen out) (auto intro!: runs_intros)
qed

section \<open>Every function of the namespace provides the interface\<close>

lemma list_fn_native:
  assumes sp: "\<And>rt b cv s fn items pos. caller_ok b (MaxSteps (rt_lim rt)) (vm_steps s) cv \<Longrightarrow> val_ok (n_envs s) fn \<Longrightarrow>
      stepped rt s s \<Longrightarrow> \<forall>v \<in> set items. val_ok (n_envs s) v \<Longrightarrow>
      vspec b (n_envs s) {} no_sig s (body rt cv pos fn items) val_result"
    and rn: "\<And>rt cv cv' fn items pos. (\<And>pos cal args. runs (MaxSteps (rt_lim rt)) (cv pos cal args) (cv' pos cal args)) \<Longrightarrow>
      runs (MaxSteps (rt_lim rt)) (body rt cv pos fn items) (body rt cv' pos fn items)"
  shows "native_function (with_list_fn sig body)"
proof (rule native_functionI)
  fix rt :: Rt and b cv pos args and s :: Vm
  assume s: "state_ok s" "\<forall>v \<in> set args. val_ok (n_envs s) v"
    "caller_ok b (MaxSteps (rt_lim rt)) (vm_steps s) cv"
  show "vspec b (n_envs s) {} no_sig s (with_list_fn sig body rt cv pos args) val_result"
    unfolding with_list_fn_def by (intro native_rules sp) (use s in \<open>auto intro: stepped_refl\<close>)
qed (auto simp: with_list_fn_def intro!: runs_intros rn)

interpretation list_map: native_function listMap
  unfolding listMap_def by (rule list_fn_native) (auto intro!: spec_map_items runs_list_loops)

interpretation list_filter: native_function listFilter
  unfolding listFilter_def by (rule list_fn_native) (auto intro!: spec_filter_items runs_list_loops)

interpretation list_any: native_function listAny
  unfolding listAny_def by (rule list_fn_native) (auto intro!: spec_search_items runs_list_loops)

interpretation list_all: native_function listAll
  unfolding listAll_def by (rule list_fn_native) (auto intro!: spec_search_items runs_list_loops)

interpretation list_append: native_function listAppend
  by (rule native_functionI)
    (auto simp: listAppend_def Let_def intro!: native_rules vspec_ret runs_intros)

interpretation list_concat: native_function listConcat
  by (rule native_functionI)
    (auto simp: listConcat_def Let_def intro!: native_rules vspec_ret runs_intros)

interpretation list_sort: native_function listSort
  by (rule native_functionI)
    (auto simp: listSort_def intro!: native_rules vspec_ret vspec_verr runs_intros split: Value.split)

interpretation list_slice: native_function listSlice
proof (rule native_functionI)
  fix rt :: Rt and b cv pos args and s :: Vm
  assume s: "state_ok s" "\<forall>v \<in> set args. val_ok (n_envs s) v"
  have en: "vspec b (n_envs s) {} no_sig s (if 2 < length args then a_int pos (args ! 2) sigListSlice
      else vret (int k)) (\<lambda>_ s'. s' = s \<and> True)" for k
    using s by (auto simp: a_int_def intro!: vspec_pure vspec_ret E_plainD(1) [OF E_plain_no_sig])
  have arg: "2 \<le> length args \<Longrightarrow> val_ok (n_envs s) (args ! 0)"
    using s(2) by (cases args) auto
  have sub: "\<forall>x \<in> set xs. val_ok (n_envs s) x \<Longrightarrow> \<forall>x \<in> set (list_slice xs st e). val_ok (n_envs s) x"
    for xs st e using set_list_slice [of xs st e] by blast
  show "vspec b (n_envs s) {} no_sig s (listSlice rt cv pos args) val_result"
    unfolding listSlice_def Let_def
    by (intro native_rules vspec_if bind_a_int vspec_keep [OF en] vspec_ret)
      (use s(1) arg in \<open>simp_all add: sub\<close>)
qed (auto simp: listSlice_def Let_def a_int_def intro!: runs_intros)

interpretation list_unique: native_function listUnique
proof (rule native_functionI)
  fix rt :: Rt and b cv pos args and s :: Vm
  assume s: "state_ok s" "\<forall>v \<in> set args. val_ok (n_envs s) v"
  show "vspec b (n_envs s) {} no_sig s (listUnique rt cv pos args) val_result"
    unfolding listUnique_def
    by (intro native_rules spec_unique_items) (use s in \<open>auto intro: stepped_refl\<close>)
next
  fix rt :: Rt and cv cv' :: caller and pos args
  assume "\<And>pos cal args. runs (MaxSteps (rt_lim rt)) (cv pos cal args) (cv' pos cal args)"
  then show "runs (MaxSteps (rt_lim rt)) (listUnique rt cv pos args) (listUnique rt cv' pos args)"
    unfolding listUnique_def by (intro runs_intros runs_list_loops)
qed

end
