(* ===== verification/GoFloatProps.thy ===== *)
theory GoFloatProps
  imports GoFloat Complex_Main
begin

text \<open>
  The order of float64: on the numbers that are not NaN, \<open><\<close> is a strict weak order that is total up
  to \<open>==\<close>, because a finite number compares as the real number it stands for.
\<close>

fun f_val :: "float64 \<Rightarrow> real" where
  "f_val (Fin s m e) = (if s then - 1 else 1) * of_int m * 2 powr of_int e"
| "f_val _ = 0"

lemma align_val:
  assumes "f_align s m e t n d = (a, b, k)"
  shows "f_val (Fin s m e) = of_int a * 2 powr of_int k" "f_val (Fin t n d) = of_int b * 2 powr of_int k"
proof -
  have pow: "(2::real) ^ nat (x - min x y) = 2 powr of_int (x - min x y)" for x y :: int
    by (simp add: powr_realpow [symmetric])
  have split: "(2::real) powr of_int (x - min x y) * 2 powr of_int (min x y) = 2 powr of_int x" for x y :: int
    by (simp add: powr_add [symmetric] del: powr_powr)
  have mul: "r * (2::real) ^ nat (x - min x y) * 2 powr of_int (min x y) = r * 2 powr of_int x" for x y :: int and r
    using split [of x y] unfolding pow by (simp add: mult.assoc)
  have k: "k = min e d" using assms by (auto simp: f_align_def Let_def)
  show "f_val (Fin s m e) = of_int a * 2 powr of_int k"
    using assms mul [of "of_int m" e d] unfolding k by (auto simp: f_align_def Let_def)
  show "f_val (Fin t n d) = of_int b * 2 powr of_int k"
    using assms mul [of "of_int n" d e] unfolding k by (auto simp: f_align_def Let_def min.commute)
qed

lemma f_lt_fin: "f_lt (Fin s m e) (Fin t n d) \<longleftrightarrow> f_val (Fin s m e) < f_val (Fin t n d)"
proof -
  obtain a b k where al: "f_align s m e t n d = (a, b, k)" by (metis prod_cases3)
  show ?thesis
    using align_val [OF al] by (simp only: f_lt.simps al Let_def prod.case) simp
qed

lemma f_eq_fin: "f_eq (Fin s m e) (Fin t n d) \<longleftrightarrow> f_val (Fin s m e) = f_val (Fin t n d)"
proof -
  obtain a b k where al: "f_align s m e t n d = (a, b, k)" by (metis prod_cases3)
  show ?thesis
    using align_val [OF al] by (simp only: f_eq.simps al Let_def prod.case) simp
qed

lemma f_lt_special:
  "\<not> f_lt NaN y" "\<not> f_lt x NaN" "f_lt (Inf s) (Inf t) \<longleftrightarrow> s \<and> \<not> t"
  "f_lt (Inf s) (Fin u m e) \<longleftrightarrow> s" "f_lt (Fin u m e) (Inf t) \<longleftrightarrow> \<not> t"
  by (cases x; simp)+

lemma f_eq_special:
  "\<not> f_eq NaN y" "\<not> f_eq x NaN" "f_eq (Inf s) (Inf t) \<longleftrightarrow> s = t"
  "\<not> f_eq (Inf s) (Fin u m e)" "\<not> f_eq (Fin u m e) (Inf t)"
  by (cases x; simp)+

declare f_lt.simps [simp del] f_eq.simps [simp del] f_val.simps [simp del]

lemmas f_order = f_lt_fin f_eq_fin f_lt_special f_eq_special

lemma f_lt_irrefl [simp]: "\<not> f_lt x x"
  by (cases x) (auto simp: f_order)

lemma f_lt_trans: "f_lt x y \<Longrightarrow> f_lt y z \<Longrightarrow> f_lt x z"
  by (cases x; cases y; cases z) (auto simp: f_order)

lemma f_lt_asym: "f_lt x y \<Longrightarrow> \<not> f_lt y x"
  using f_lt_trans f_lt_irrefl by blast

lemma f_not_lt_trans: "y \<noteq> NaN \<Longrightarrow> \<not> f_lt x y \<Longrightarrow> \<not> f_lt y z \<Longrightarrow> \<not> f_lt x z"
  by (cases x; cases y; cases z) (auto simp: f_order)

lemma f_eq_sym: "f_eq x y \<longleftrightarrow> f_eq y x"
  by (cases x; cases y) (auto simp: f_order)

lemma f_eq_trans: "f_eq x y \<Longrightarrow> f_eq y z \<Longrightarrow> f_eq x z"
  by (cases x; cases y; cases z) (auto simp: f_order)

lemma f_eq_refl: "f_eq x x \<longleftrightarrow> x \<noteq> NaN"
  by (cases x) (auto simp: f_order)

lemma f_total: "x \<noteq> NaN \<Longrightarrow> y \<noteq> NaN \<Longrightarrow> f_lt x y \<or> f_eq x y \<or> f_lt y x"
  by (cases x; cases y) (auto simp: f_order)

lemma f_eq_not_lt: "f_eq x y \<Longrightarrow> \<not> f_lt x y \<and> \<not> f_lt y x"
  by (cases x; cases y) (auto simp: f_order)

section \<open>Integers are exact\<close>

lemma bit_len_bounds:
  "0 < n \<Longrightarrow> 1 \<le> bit_len n \<and> 2 ^ nat (bit_len n - 1) \<le> n \<and> n < 2 ^ nat (bit_len n)"
proof (induction n rule: bit_len.induct)
  case (1 n)
  show ?case
  proof (cases "n = 1")
    case True
    then show ?thesis by (simp add: bit_len.simps)
  next
    case False
    with 1 have ih: "1 \<le> bit_len (n div 2)" "2 ^ nat (bit_len (n div 2) - 1) \<le> n div 2"
      "n div 2 < 2 ^ nat (bit_len (n div 2))" by simp_all
    have b: "bit_len n = 1 + bit_len (n div 2)" using "1.prems" by (subst bit_len.simps) simp
    have p: "(2::int) ^ nat (bit_len (n div 2)) = 2 * 2 ^ nat (bit_len (n div 2) - 1)"
      using ih(1) by (simp add: nat_diff_distrib' flip: power_Suc)
    have q: "(2::int) ^ nat (1 + bit_len (n div 2)) = 2 * 2 ^ nat (bit_len (n div 2))"
      using ih(1) by (simp add: nat_add_distrib)
    show ?thesis using ih p q b by (simp; linarith)
  qed
qed

lemma bit_len_le: "0 < n \<Longrightarrow> n < 2 ^ k \<Longrightarrow> bit_len n \<le> int k"
proof -
  assume n: "0 < n" "n < 2 ^ k"
  have "(2::int) ^ nat (bit_len n - 1) < 2 ^ k" using bit_len_bounds [OF n(1)] n(2) by linarith
  then have "nat (bit_len n - 1) < k" by (simp add: power_strict_increasing_iff)
  then show ?thesis using bit_len_bounds [OF n(1)] by linarith
qed

text \<open>A positive integer below 2^53 is its own rounding.\<close>

lemma round_ratio_int:
  assumes "0 < p" "p < 2 ^ 53"
  shows "round_ratio s p 1 = Fin s (p * 2 ^ nat (53 - bit_len p)) (bit_len p - 53)"
proof -
  have len: "1 \<le> bit_len p" "2 ^ nat (bit_len p - 1) \<le> p" "p < 2 ^ nat (bit_len p)" "bit_len p \<le> 53"
    using bit_len_bounds [OF assms(1)] bit_len_le [of p 53] assms by auto
  have one: "bit_len 1 = 1" by (simp add: bit_len.simps)
  have n: "p * 2 ^ nat (53 - bit_len p) < 2 ^ 53"
  proof -
    have "p * 2 ^ nat (53 - bit_len p) < 2 ^ nat (bit_len p) * 2 ^ nat (53 - bit_len p)"
      using len(3) by (intro mult_strict_right_mono) simp_all
    also have "(2::int) ^ nat (bit_len p) * 2 ^ nat (53 - bit_len p) = 2 ^ 53"
      using len(1,4) by (simp add: nat_diff_distrib flip: power_add)
    finally show ?thesis .
  qed
  have sc: "scale_down p 1 (bit_len p - 53) = (p * 2 ^ nat (53 - bit_len p), 1)"
    using len by (auto simp: scale_down_def)
  have big: "(let (n, d) = scale_down p 1 (bit_len p - 1) in d \<le> n)"
    using len by (simp add: scale_down_def)
  show ?thesis
    using assms len n big by (simp add: round_ratio_def one sc Let_def round_even_def f_make_def)
qed

lemma f_val_int:
  assumes "0 \<le> p" "p < 2 ^ 53"
  shows "f_val (round_ratio s p 1) = (if s then - 1 else 1) * of_int p"
proof (cases "p = 0")
  case False
  with assms have p: "0 < p" by simp
  have len: "bit_len p \<le> 53" using bit_len_le [of p 53] p assms(2) by simp
  have "(2::real) ^ nat (53 - bit_len p) * 2 powr of_int (bit_len p - 53) = 2 powr 0"
    using len by (simp add: powr_realpow [symmetric] powr_add [symmetric])
  then have "real_of_int p * 2 ^ nat (53 - bit_len p) * 2 powr of_int (bit_len p - 53) = of_int p"
    by (simp add: mult.assoc)
  then show ?thesis
    using round_ratio_int [OF p assms(2), of s] by (simp add: f_val.simps)
qed (simp add: round_ratio_def f_val.simps)

lemma f_of_int_val: "\<bar>k\<bar> < 2 ^ 53 \<Longrightarrow> f_val (f_of_int k) = of_int k"
  using f_val_int [of "\<bar>k\<bar>" "k < 0"] by (auto simp: f_of_int_def)

lemma round_ratio_fin: "0 \<le> p \<Longrightarrow> p < 2 ^ 53 \<Longrightarrow> \<exists>m e. round_ratio s p 1 = Fin s m e"
  using round_ratio_int [of p s] by (cases "p = 0") (auto simp: round_ratio_def)

end
