(* ===== verification/RtsStdListProps.thy ===== *)
theory RtsStdListProps
  imports RtsRun RtsStdList GoFloatProps "HOL-Library.Sublist"
begin

text \<open>
  What the functions of the namespace \<open>list\<close> compute: the higher-order ones are the list functions
  of their name, \<open>sort\<close> orders, \<open>slice\<close> cuts without loss, \<open>unique\<close> keeps one item per key.
\<close>

section \<open>Steps that pass\<close>

text \<open>The next \<open>k\<close> steps run into no limit.\<close>

definition ticks_pass :: "Rt \<Rightarrow> int \<Rightarrow> nat \<Rightarrow> bool" where
  "ticks_pass rt t k \<longleftrightarrow> (MaxSteps (rt_lim rt) \<le> 0 \<or> t + int k \<le> MaxSteps (rt_lim rt))
     \<and> list_all (\<lambda>j. (Timeout (rt_lim rt) \<le> 0 \<or> rt_elapsed rt (t + int (Suc j)) \<le> Timeout (rt_lim rt))
          \<and> rt_done rt (t + int (Suc j)) = None) [0..<k]"

lemma tick_passes:
  assumes "ticks_pass rt (vm_steps s) (Suc k)"
  shows "tick rt pos s = (Inr (), s\<lparr>vm_steps := vm_steps s + 1\<rparr>)" "ticks_pass rt (vm_steps s + 1) k"
proof -
  let ?ok = "\<lambda>j. (Timeout (rt_lim rt) \<le> 0 \<or> rt_elapsed rt (vm_steps s + int (Suc j)) \<le> Timeout (rt_lim rt))
          \<and> rt_done rt (vm_steps s + int (Suc j)) = None"
  have "\<forall>j \<in> set [0..<Suc k]. ?ok j"
    using assms unfolding ticks_pass_def list_all_iff by blast
  then have all: "?ok j" if "j < Suc k" for j
    using that by (metis atLeastLessThan_iff le0 set_upt)
  show "tick rt pos s = (Inr (), s\<lparr>vm_steps := vm_steps s + 1\<rparr>)"
    using all [of 0] assms by (auto simp: tick_def Let_def ticks_pass_def)
  have "(Timeout (rt_lim rt) \<le> 0 \<or> rt_elapsed rt (vm_steps s + 1 + int (Suc j)) \<le> Timeout (rt_lim rt))
          \<and> rt_done rt (vm_steps s + 1 + int (Suc j)) = None" if "j < k" for j
    using all [of "Suc j"] that by (simp add: add.assoc)
  then show "ticks_pass rt (vm_steps s + 1) k"
    using assms by (auto simp: ticks_pass_def list_all_iff)
qed

definition fits :: "Rt \<Rightarrow> nat \<Rightarrow> bool" where
  "fits rt n \<longleftrightarrow> MaxList (rt_lim rt) \<le> 0 \<or> int n \<le> MaxList (rt_lim rt)"

lemma fits_mono: "fits rt n \<Longrightarrow> m \<le> n \<Longrightarrow> fits rt m"
  by (auto simp: fits_def)

lemma c_list_fits: "fits rt n \<Longrightarrow> c_list rt pos n s = (Inr (), s)"
  by (auto simp: c_list_def vcheck_def vpure_def CheckList_def fits_def)

lemma a_list_fits: "fits rt (length xs) \<Longrightarrow> a_list rt pos (VList xs) sig s = (Inr xs, s)"
  by (auto simp: a_list_def vpure_def listArg_def CheckList_def fits_def)

lemma a_count_ok: "length args = n \<Longrightarrow> a_count pos args n sig s = (Inr (), s)"
  by (simp add: a_count_def vcheck_def vpure_def argCount_def)

definition is_fn :: "Value \<Rightarrow> bool" where
  "is_fn v \<longleftrightarrow> (case v of VFunc _ \<Rightarrow> True | VNative _ \<Rightarrow> True | _ \<Rightarrow> False)"

lemma a_fn_ok: "is_fn v \<Longrightarrow> a_fn pos v sig s = (Inr (), s)"
  by (auto simp: is_fn_def a_fn_def vcheck_def vpure_def CheckFunc_def split: Value.splits)

section \<open>The higher-order functions\<close>

text \<open>A callback that answers \<open>g\<close> on every item and changes nothing.\<close>

definition calls_as :: "caller \<Rightarrow> Pos \<Rightarrow> Value \<Rightarrow> Value list \<Rightarrow> (Value \<Rightarrow> Value) \<Rightarrow> bool" where
  "calls_as cv pos fn xs g \<longleftrightarrow> (\<forall>x \<in> set xs. \<forall>s. cv pos fn [x] s = (Inr (g x), s))"

lemma calls_as_Cons: "calls_as cv pos fn (x # xs) g \<Longrightarrow> cv pos fn [x] s = (Inr (g x), s)"
  "calls_as cv pos fn (x # xs) g \<Longrightarrow> calls_as cv pos fn xs g"
  by (simp_all add: calls_as_def)

lemma map_items_pure:
  "calls_as cv pos fn xs g \<Longrightarrow> ticks_pass rt (vm_steps s) (length xs) \<Longrightarrow> fits rt (length out + length xs) \<Longrightarrow>
     map_items rt cv pos fn out xs s = (Inr (VList (out @ map g xs)), s\<lparr>vm_steps := vm_steps s + int (length xs)\<rparr>)"
proof (induction xs arbitrary: s out)
  case (Cons x xs)
  note t = tick_passes [OF Cons.prems(2) [simplified]]
  from Cons.prems(3) have "fits rt (Suc (length out))" by (rule fits_mono) simp
  with Cons t show ?case
    by (simp add: vbind_def calls_as_Cons c_list_fits algebra_simps)
qed (simp add: vret_def)

lemma filter_items_pure:
  "calls_as cv pos fn xs g \<Longrightarrow> ticks_pass rt (vm_steps s) (length xs) \<Longrightarrow> fits rt (length out + length xs) \<Longrightarrow>
     filter_items rt cv pos fn out xs s
       = (Inr (VList (out @ filter (\<lambda>x. IsTruthy (rt_hosts rt) (g x)) xs)), s\<lparr>vm_steps := vm_steps s + int (length xs)\<rparr>)"
proof (induction xs arbitrary: s out)
  case (Cons x xs)
  note t = tick_passes [OF Cons.prems(2) [simplified]]
  from Cons.prems(3) have "fits rt (Suc (length out))" "fits rt (length out + length xs)"
    by (auto intro: fits_mono)
  with Cons t show ?case
    by (simp add: vbind_def calls_as_Cons c_list_fits algebra_simps)
qed (simp add: vret_def)

lemma search_items_pure:
  "calls_as cv pos fn xs g \<Longrightarrow> ticks_pass rt (vm_steps s) (length xs) \<Longrightarrow>
     fst (search_items rt cv pos fn stop xs s)
       = Inr (VBool (if list_ex (\<lambda>x. IsTruthy (rt_hosts rt) (g x) = stop) xs then stop else \<not> stop))"
proof (induction xs arbitrary: s)
  case (Cons x xs)
  note t = tick_passes [OF Cons.prems(2) [simplified]]
  with Cons show ?case by (simp add: vbind_def calls_as_Cons vret_def)
qed (simp add: vret_def)

lemma with_list_fn_runs:
  "fits rt (length xs) \<Longrightarrow> is_fn fn \<Longrightarrow> with_list_fn sig body rt cv pos [VList xs, fn] s = body rt cv pos fn xs s"
  by (simp add: with_list_fn_def vbind_def a_count_ok a_list_fits a_fn_ok)

text \<open>
  With a callback that answers \<open>g\<close>, the higher-order natives compute the list functions of their
  names - map, filter by truth, exists, for all - and map and filter take one step per item.
\<close>

theorem list_higher_order:
  assumes "is_fn fn" "calls_as cv pos fn xs g" "fits rt (length xs)" "ticks_pass rt (vm_steps s) (length xs)"
  shows "listMap rt cv pos [VList xs, fn] s
      = (Inr (VList (map g xs)), s\<lparr>vm_steps := vm_steps s + int (length xs)\<rparr>)
    \<and> listFilter rt cv pos [VList xs, fn] s
      = (Inr (VList (filter (\<lambda>x. IsTruthy (rt_hosts rt) (g x)) xs)), s\<lparr>vm_steps := vm_steps s + int (length xs)\<rparr>)
    \<and> fst (listAny rt cv pos [VList xs, fn] s) = Inr (VBool (list_ex (\<lambda>x. IsTruthy (rt_hosts rt) (g x)) xs))
    \<and> fst (listAll rt cv pos [VList xs, fn] s) = Inr (VBool (list_all (\<lambda>x. IsTruthy (rt_hosts rt) (g x)) xs))"
  using assms
  by (simp add: listMap_def listFilter_def listAny_def listAll_def with_list_fn_runs map_items_pure
      filter_items_pure search_items_pure list_all_iff list_ex_iff)

text \<open>A runtime without limits on steps and time, for the concrete instances.\<close>

abbreviation rt0 :: Rt where
  "rt0 \<equiv> cf_rt (small_cfg 0)"

lemma rt0_room: "ticks_pass rt0 t k" "n \<le> 100 \<Longrightarrow> fits rt0 n"
  by (simp_all add: ticks_pass_def fits_def small_cfg_def list_all_iff)

definition null_test :: caller where
  "null_test pos fn args s = (Inr (VBool (args = [VNull])), s)"

theorem list_higher_order_witness:
  "fst (listMap rt0 null_test zero_pos [VList [VNull, VStr ''a''], VNative None] ctx1) = Inr (VList [VBool True, VBool False])
   \<and> fst (listFilter rt0 null_test zero_pos [VList [VNull, VStr ''a''], VNative None] ctx1) = Inr (VList [VNull])
   \<and> fst (listAny rt0 null_test zero_pos [VList [VNull, VStr ''a''], VNative None] ctx1) = Inr (VBool True)
   \<and> fst (listAll rt0 null_test zero_pos [VList [VNull, VStr ''a''], VNative None] ctx1) = Inr (VBool False)"
proof -
  have "calls_as null_test zero_pos (VNative None) [VNull, VStr ''a''] (\<lambda>x. VBool (x = VNull))"
    by (simp add: calls_as_def null_test_def)
  from list_higher_order [OF _ this rt0_room(2) rt0_room(1)] show ?thesis
    by (simp add: is_fn_def)
qed

section \<open>Sorting\<close>

text \<open>\<open>lt\<close> orders the items of \<open>X\<close> weakly: not being smaller is transitive, and nothing is both.\<close>

definition weak_order :: "('a \<Rightarrow> 'a \<Rightarrow> bool) \<Rightarrow> 'a set \<Rightarrow> bool" where
  "weak_order lt X \<longleftrightarrow> (\<forall>x \<in> X. \<forall>y \<in> X. lt x y \<longrightarrow> \<not> lt y x)
     \<and> (\<forall>x \<in> X. \<forall>y \<in> X. \<forall>z \<in> X. \<not> lt x y \<longrightarrow> \<not> lt y z \<longrightarrow> \<not> lt x z)"

lemma weak_orderD:
  "weak_order lt X \<Longrightarrow> x \<in> X \<Longrightarrow> y \<in> X \<Longrightarrow> lt x y \<Longrightarrow> \<not> lt y x"
  "weak_order lt X \<Longrightarrow> x \<in> X \<Longrightarrow> y \<in> X \<Longrightarrow> z \<in> X \<Longrightarrow> \<not> lt x y \<Longrightarrow> \<not> lt y z \<Longrightarrow> \<not> lt x z"
  unfolding weak_order_def by blast+

lemma weak_order_sub: "weak_order lt X \<Longrightarrow> Y \<subseteq> X \<Longrightarrow> weak_order lt Y"
  unfolding weak_order_def by (meson subsetD)

lemma set_sort_insert: "set (sort_insert lt x ys) = insert x (set ys)"
  by (induction ys) auto

lemma sort_insert_sorted:
  assumes "weak_order lt (insert x (set ys))" "sorted_wrt (\<lambda>a b. \<not> lt a b) ys"
  shows "sorted_wrt (\<lambda>a b. \<not> lt a b) (sort_insert lt x ys)"
  using assms
proof (induction ys)
  case (Cons y ys)
  note wo = weak_orderD [OF Cons.prems(1)]
  have sub: "weak_order lt (insert x (set ys))" by (rule weak_order_sub [OF Cons.prems(1)]) auto
  show ?case
  proof (cases "lt x y")
    case True
    then have "\<not> lt y x" by (intro wo(1)) simp_all
    with True Cons.IH [OF sub] Cons.prems(2) show ?thesis by (simp add: set_sort_insert)
  next
    case False
    have "\<forall>z \<in> set ys. \<not> lt x z"
      using Cons.prems(2) by (intro ballI wo(2) [OF _ _ _ False]) simp_all
    with False Cons.prems(2) show ?thesis by simp
  qed
qed simp

lemma go_sort_sorted:
  assumes "weak_order lt (set xs)"
  shows "sorted_wrt (\<lambda>a b. \<not> lt b a) (go_sort lt xs)"
proof -
  have "sorted_wrt (\<lambda>a b. \<not> lt a b) (foldl (\<lambda>acc x. sort_insert lt x acc) acc xs)"
    if "weak_order lt (set acc \<union> set xs)" "sorted_wrt (\<lambda>a b. \<not> lt a b) acc" for acc
    using that
  proof (induction xs arbitrary: acc)
    case (Cons x xs)
    have "weak_order lt (insert x (set acc))" by (rule weak_order_sub [OF Cons.prems(1)]) auto
    note acc = sort_insert_sorted [OF this Cons.prems(2)]
    have "weak_order lt (set (sort_insert lt x acc) \<union> set xs)"
      by (rule weak_order_sub [OF Cons.prems(1)]) (auto simp: set_sort_insert)
    from Cons.IH [OF this acc] show ?case by simp
  qed simp
  with assms show ?thesis by (simp add: go_sort_def sorted_wrt_rev)
qed

fun num_val :: "Value \<Rightarrow> bool" where
  "num_val (VNum x) = (x \<noteq> NaN)"
| "num_val _ = False"

fun str_val :: "Value \<Rightarrow> bool" where
  "str_val (VStr _) = True"
| "str_val _ = False"

lemma kind_of_val: "num_val v \<Longrightarrow> vkind v = 2" "str_val v \<Longrightarrow> vkind v = 3"
  by (auto elim!: num_val.elims(2) str_val.elims(2))

lemma weak_order_num: "list_all num_val xs \<Longrightarrow> weak_order num_less (set xs)"
  unfolding weak_order_def num_less_def list_all_iff
  by (auto elim!: num_val.elims(2) dest: f_lt_asym f_not_lt_trans split: Value.splits)

lemma weak_order_str: "list_all str_val xs \<Longrightarrow> weak_order str_less (set xs)"
  unfolding weak_order_def str_less_def list_all_iff
  by (auto elim!: str_val.elims(2) split: Value.splits)

definition val_less :: "Value \<Rightarrow> Value \<Rightarrow> bool" where
  "val_less a b \<longleftrightarrow> num_less a b \<or> str_less a b"

lemma val_less_num: "list_all num_val ys \<Longrightarrow> sorted_wrt (\<lambda>a b. \<not> num_less b a) ys \<Longrightarrow> sorted_wrt (\<lambda>a b. \<not> val_less b a) ys"
  by (induction ys) (auto simp: val_less_def str_less_def list_all_iff elim!: num_val.elims(2) split: Value.splits)

lemma val_less_str: "list_all str_val ys \<Longrightarrow> sorted_wrt (\<lambda>a b. \<not> str_less b a) ys \<Longrightarrow> sorted_wrt (\<lambda>a b. \<not> val_less b a) ys"
  by (induction ys) (auto simp: val_less_def num_less_def list_all_iff elim!: str_val.elims(2) split: Value.splits)

lemma listSort_runs:
  assumes "fits rt (length xs)" "\<not> length xs \<le> 1" "\<not> list_ex (\<lambda>v. vkind v \<noteq> vkind (xs ! 0)) xs"
  shows "listSort rt cv pos [VList xs] s =
    (case xs ! 0 of VNum _ \<Rightarrow> vret (VList (go_sort num_less xs)) | VStr _ \<Rightarrow> vret (VList (go_sort str_less xs))
     | _ \<Rightarrow> verr pos (sigListSort @ '' expects numbers or strings'')) s"
  using assms by (simp add: listSort_def vbind_def a_count_ok a_list_fits)

text \<open>
  C15: \<open>list.sort\<close> on a list of numbers that are not NaN, or of strings, returns the same items in
  ascending order and leaves the state alone.
\<close>

theorem list_sort_sorts:
  assumes "list_all num_val xs \<or> list_all str_val xs" "fits rt (length xs)"
  shows "\<exists>ys. listSort rt cv pos [VList xs] s = (Inr (VList ys), s) \<and> mset ys = mset xs
    \<and> sorted_wrt (\<lambda>a b. \<not> val_less b a) ys"
proof (cases "length xs \<le> 1")
  case True
  then have "listSort rt cv pos [VList xs] s = (Inr (VList xs), s)"
    using assms by (simp add: listSort_def vbind_def a_count_ok a_list_fits vret_def)
  moreover have "sorted_wrt (\<lambda>a b. \<not> val_less b a) xs" using True by (cases xs) auto
  ultimately show ?thesis by blast
next
  case False
  then obtain x rest where xs: "xs = x # rest" by (cases xs) auto
  have perm: "list_all P (go_sort lt xs) = list_all P xs" for P and lt :: "Value \<Rightarrow> Value \<Rightarrow> bool"
    by (simp add: list_all_iff)
  show ?thesis
  proof (cases "list_all num_val xs")
    case num: True
    then have "listSort rt cv pos [VList xs] s = (Inr (VList (go_sort num_less xs)), s)"
      using listSort_runs [OF assms(2) False] xs
      by (auto simp: list_all_iff list_ex_iff kind_of_val vret_def elim!: num_val.elims(2) [of x])
    moreover have "sorted_wrt (\<lambda>a b. \<not> val_less b a) (go_sort num_less xs)"
      using val_less_num perm num go_sort_sorted [OF weak_order_num [OF num]] by blast
    ultimately show ?thesis using mset_go_sort by blast
  next
    case no: False
    with assms(1) have str: "list_all str_val xs" by simp
    then have "listSort rt cv pos [VList xs] s = (Inr (VList (go_sort str_less xs)), s)"
      using listSort_runs [OF assms(2) False] xs
      by (auto simp: list_all_iff list_ex_iff kind_of_val vret_def elim!: str_val.elims(2) [of x])
    moreover have "sorted_wrt (\<lambda>a b. \<not> val_less b a) (go_sort str_less xs)"
      using val_less_str perm str go_sort_sorted [OF weak_order_str [OF str]] by blast
    ultimately show ?thesis using mset_go_sort by blast
  qed
qed

theorem list_sort_sorts_witness:
  "case listSort rt0 null_test zero_pos [VList [VStr ''b'', VStr ''a'']] ctx1 of
     (Inr (VList ys), s') \<Rightarrow> mset ys = {#VStr ''a'', VStr ''b''#} \<and> sorted_wrt (\<lambda>a b. \<not> val_less b a) ys
   | _ \<Rightarrow> False"
  using list_sort_sorts [of "[VStr ''b'', VStr ''a'']" rt0 null_test zero_pos ctx1] rt0_room(2)
  by auto

section \<open>Slices\<close>

lemma a_int_ok: "\<forall>stk. intNum stk pos v sig = Inr k \<Longrightarrow> a_int pos v sig s = (Inr k, s)"
  by (simp add: a_int_def vpure_def)

lemma a_range_ok: "lo \<le> length args \<Longrightarrow> length args \<le> hi \<Longrightarrow> a_range pos args lo hi sig s = (Inr (), s)"
  by (simp add: a_range_def vcheck_def vpure_def argCountRange_def)

lemma clampIdx_range: "0 \<le> n \<Longrightarrow> 0 \<le> clampIdx n i \<and> clampIdx n i \<le> n"
  by (auto simp: clampIdx_def Let_def)

text \<open>The pure core: the two halves of a list at any index, negative or out of range.\<close>

lemma list_slice_halves: "list_slice xs 0 k @ list_slice xs k (int (length xs)) = xs"
proof -
  let ?n = "int (length xs)" and ?c = "clampIdx (int (length xs)) k"
  have c: "0 \<le> ?c" "?c \<le> ?n" using clampIdx_range [of ?n k] by simp_all
  have ends: "clampIdx ?n 0 = 0" "clampIdx ?n ?n = ?n" by (simp_all add: clampIdx_def Let_def)
  have "list_slice xs 0 k = take (nat ?c) xs"
    using c by (auto simp: list_slice_def sliceIdx_def Let_def ends slice_def max_def)
  moreover have "list_slice xs k ?n = drop (nat ?c) xs"
    using c by (auto simp: list_slice_def sliceIdx_def Let_def ends slice_def max_def)
  ultimately show ?thesis by simp
qed

lemma length_list_slice: "length (list_slice xs st en) \<le> length xs"
proof -
  have "snd (sliceIdx (int (length xs)) st en) \<le> int (length xs)"
    using clampIdx_range [of "int (length xs)"] by (simp add: sliceIdx_def Let_def)
  then show ?thesis by (auto simp: list_slice_def slice_def split: prod.splits)
qed

lemma listSlice_runs:
  assumes "fits rt (length xs)" "\<forall>stk. intNum stk pos u sigListSlice = Inr i" "\<forall>stk. intNum stk pos v sigListSlice = Inr k"
  shows "listSlice rt cv pos [VList xs, u, v] s = (Inr (VList (list_slice xs i k)), s)"
    and "listSlice rt cv pos [VList xs, v] s = (Inr (VList (list_slice xs k (int (length xs)))), s)"
proof -
  have fit: "fits rt (length (list_slice xs st en))" for st en
    by (rule fits_mono [OF assms(1) length_list_slice])
  have nil: "list_slice [] st en = ([] :: Value list)" for st en
    using length_list_slice [of "[] :: Value list"] by simp
  show "listSlice rt cv pos [VList xs, u, v] s = (Inr (VList (list_slice xs i k)), s)"
    "listSlice rt cv pos [VList xs, v] s = (Inr (VList (list_slice xs k (int (length xs)))), s)"
    by (simp_all add: listSlice_def vbind_def a_range_ok a_list_fits assms a_int_ok [OF assms(2)] a_int_ok [OF assms(3)]
        c_list_fits fit vret_def Let_def nil)
qed

lemma intNum_zero: "intNum stk pos (VNum f_zero) sig = Inr 0"
proof -
  have "\<not> f_is_nan f_zero \<and> \<not> f_is_inf f_zero \<and> f_eq (f_trunc f_zero) f_zero
    \<and> \<not> f_lt maxNativeIntFloat f_zero \<and> \<not> f_lt f_zero minNativeIntFloat \<and> f_to_int f_zero = 0"
    by code_simp
  then show ?thesis by (simp add: intNum_def numF_def)
qed

text \<open>
  Slicing loses nothing: for every integer argument - negative, past the end, or in range - the
  items before it and the items from it on, put together, are the list.
\<close>

theorem list_slice_partition:
  assumes "fits rt (length xs)" "\<forall>stk. intNum stk pos v sigListSlice = Inr k"
  shows "\<exists>a b. listSlice rt cv pos [VList xs, VNum f_zero, v] s = (Inr (VList a), s)
    \<and> listSlice rt cv pos [VList xs, v] s = (Inr (VList b), s) \<and> a @ b = xs"
  using listSlice_runs [OF assms(1) _ assms(2), of "VNum f_zero" 0 cv s] list_slice_halves [of xs k]
  by (simp add: intNum_zero)

theorem list_slice_partition_witness:
  "\<exists>a b. listSlice rt0 null_test zero_pos [VList [VNull, VBool True], VNum f_zero, VNum (f_of_int (- 1))] ctx1 = (Inr (VList a), ctx1)
    \<and> listSlice rt0 null_test zero_pos [VList [VNull, VBool True], VNum (f_of_int (- 1))] ctx1 = (Inr (VList b), ctx1)
    \<and> a @ b = [VNull, VBool True]"
proof (rule list_slice_partition [OF rt0_room(2)])
  have "let n = f_of_int (- 1) in \<not> f_is_nan n \<and> \<not> f_is_inf n \<and> f_eq (f_trunc n) n
    \<and> \<not> f_lt maxNativeIntFloat n \<and> \<not> f_lt n minNativeIntFloat \<and> f_to_int n = - 1"
    by code_simp
  then show "\<forall>stk. intNum stk zero_pos (VNum (f_of_int (- 1))) sigListSlice = Inr (- 1)"
    by (simp add: intNum_def numF_def Let_def)
qed simp

text \<open>
  At the upper bound of the check the conversion to an integer is out of range: an end index of 2^63
  passes as an integer and, on amd64, becomes the smallest one, so the slice is empty where any
  other end past the list gives the whole list.
\<close>

lemma slice_end_wraps_at_2_63:
  "fst (listSlice rt0 null_test zero_pos [VList [VNull], VNum f_zero, VNum (f_of_int (2 ^ 63))] ctx1) = Inr (VList [])"
  "fst (listSlice rt0 null_test zero_pos [VList [VNull], VNum f_zero, VNum (f_of_int (2 ^ 62))] ctx1) = Inr (VList [VNull])"
  by code_simp+

section \<open>Unique\<close>

lemma unique_items_keys:
  "\<forall>x \<in> set xs. \<forall>stk. keyVal stk pos x sigListUnique = Inr (K x) \<Longrightarrow>
   ticks_pass rt (vm_steps s) (length xs) \<Longrightarrow> fits rt (length out + length xs) \<Longrightarrow>
   \<exists>zs. unique_items rt pos seen out xs s = (Inr (VList (out @ zs)), s\<lparr>vm_steps := vm_steps s + int (length xs)\<rparr>)
     \<and> distinct (map K zs) \<and> K ` set zs = K ` set xs - set seen \<and> subseq zs xs"
proof (induction xs arbitrary: s seen out)
  case (Cons x xs)
  note t = tick_passes [OF Cons.prems(2) [simplified]]
  have fit: "fits rt (Suc (length out))" "fits rt (length out + length xs)"
    "fits rt (Suc (length out) + length xs)"
    using Cons.prems(3) by (auto intro: fits_mono)
  have k: "vpure (\<lambda>stk. keyVal stk pos x sigListUnique) s' = (Inr (K x), s')" for s'
    using Cons.prems(1) by (simp add: vpure_def)
  show ?case
  proof (cases "K x \<in> set seen")
    case True
    from Cons.IH [of "s\<lparr>vm_steps := vm_steps s + 1\<rparr>" out seen] Cons.prems(1) t(2) fit(2)
    obtain zs where zs: "unique_items rt pos seen out xs (s\<lparr>vm_steps := vm_steps s + 1\<rparr>)
        = (Inr (VList (out @ zs)), s\<lparr>vm_steps := vm_steps s + 1 + int (length xs)\<rparr>)"
      "distinct (map K zs)" "K ` set zs = K ` set xs - set seen" "subseq zs xs" by auto
    then show ?thesis
      using t(1) k True by (intro exI [of _ zs]) (auto simp: vbind_def algebra_simps)
  next
    case False
    from Cons.IH [of "s\<lparr>vm_steps := vm_steps s + 1\<rparr>" "out @ [x]" "K x # seen"] Cons.prems(1) t(2) fit(3)
    obtain zs where zs: "unique_items rt pos (K x # seen) (out @ [x]) xs (s\<lparr>vm_steps := vm_steps s + 1\<rparr>)
        = (Inr (VList (out @ x # zs)), s\<lparr>vm_steps := vm_steps s + 1 + int (length xs)\<rparr>)"
      "distinct (map K zs)" "K ` set zs = K ` set xs - set (K x # seen)" "subseq zs xs" by auto
    have "K ` set (x # zs) = K ` set (x # xs) - set seen" using zs(3) False by auto
    moreover have "K x \<notin> K ` set zs" using zs(3) by auto
    ultimately show ?thesis
      using t(1) k False zs fit(1)
      by (intro exI [of _ "x # zs"]) (auto simp: vbind_def c_list_fits algebra_simps)
  qed
qed (auto simp: vret_def)

text \<open>
  C22: \<open>list.unique\<close> keeps exactly one item per key, drops no key, and keeps the order of the list.
\<close>

theorem list_unique_keys:
  assumes "\<forall>x \<in> set xs. \<forall>stk. keyVal stk pos x sigListUnique = Inr (K x)"
    and "ticks_pass rt (vm_steps s) (length xs)" "fits rt (length xs)"
  shows "\<exists>ys. fst (listUnique rt cv pos [VList xs] s) = Inr (VList ys)
    \<and> distinct (map K ys) \<and> K ` set ys = K ` set xs \<and> subseq ys xs"
  using unique_items_keys [OF assms(1,2), of "[]" "[]"] assms(3)
  by (auto simp: listUnique_def vbind_def a_count_ok a_list_fits)

theorem list_unique_keys_witness:
  "case fst (listUnique rt0 null_test zero_pos [VList [VStr ''a'', VNull, VStr ''a'']] ctx1) of
     Inr (VList ys) \<Rightarrow> subseq ys [VStr ''a'', VNull, VStr ''a''] \<and> length ys = 2
   | _ \<Rightarrow> False"
proof -
  let ?K = "\<lambda>v. case v of VStr t \<Rightarrow> ''s:'' @ t | _ \<Rightarrow> ''n:null''"
  let ?xs = "[VStr ''a'', VNull, VStr ''a'']"
  obtain ys where ys: "fst (listUnique rt0 null_test zero_pos [VList ?xs] ctx1) = Inr (VList ys)"
    "distinct (map ?K ys)" "?K ` set ys = ?K ` set ?xs" "subseq ys ?xs"
    using list_unique_keys [of ?xs zero_pos ?K rt0 ctx1 null_test] rt0_room by (auto simp: keyVal_def)
  have "?K ` set ?xs = {''s:a'', ''n:null''}" by auto
  then have "card (?K ` set ys) = 2" unfolding ys(3) by simp
  with distinct_card [OF ys(2)] have "length ys = 2" by (simp only: set_map length_map)
  with ys show ?thesis by simp
qed

text \<open>Zero and minus zero are equal values of the language, and \<open>unique\<close> keeps both.\<close>

lemma unique_tells_zeros_apart:
  "ValueEqual (VNum f_zero) (VNum (f_neg f_zero))"
  "fst (listUnique rt0 null_test zero_pos [VList [VNum f_zero, VNum (f_neg f_zero)]] ctx1)
     = Inr (VList [VNum f_zero, VNum (f_neg f_zero)])"
  by code_simp+

end
