(* ===== verification/RtsStdDict.thy ===== *)
theory RtsStdDict
  imports RtsStdListProps
begin

text \<open>
  The namespace \<open>dict\<close> of the standard library (\<open>internal/rts/stdlib/dict.go\<close>). A dictionary is a
  canonical association list, so the sorted keys of the code are its keys as they stand. \<open>pick\<close> and
  \<open>omit\<close> walk a set of keys in Go's random map order; the walk takes one step per key and its
  outcome does not depend on the order, so the model takes the order of the list.
\<close>

section \<open>Signatures\<close>

definition sigDictKeys :: string where
  "sigDictKeys = ''dict.keys(dict)''"
definition sigDictValues :: string where
  "sigDictValues = ''dict.values(dict)''"
definition sigDictItems :: string where
  "sigDictItems = ''dict.items(dict)''"
definition sigDictSet :: string where
  "sigDictSet = ''dict.set(dict, key, value)''"
definition sigDictMerge :: string where
  "sigDictMerge = ''dict.merge(a, b)''"
definition sigDictRemove :: string where
  "sigDictRemove = ''dict.remove(dict, key)''"
definition sigDictGet :: string where
  "sigDictGet = ''dict.get(dict, key[, def])''"
definition sigDictHas :: string where
  "sigDictHas = ''dict.has(dict, key)''"
definition sigDictPick :: string where
  "sigDictPick = ''dict.pick(dict, keys)''"
definition sigDictOmit :: string where
  "sigDictOmit = ''dict.omit(dict, keys)''"

section \<open>Reading a dictionary\<close>

definition sortedDictKeys :: "Rt \<Rightarrow> Pos \<Rightarrow> (string \<times> Value) list option \<Rightarrow> string list comp" where
  "sortedDictKeys rt pos m =
     (if CloneDict m = [] then vret []
      else vbind (c_list rt pos (length (CloneDict m))) (\<lambda>_. vret (map fst (CloneDict m))))"

definition dictKeys :: NativeFunc where
  "dictKeys rt cv pos args =
     vbind (a_count pos args 1 sigDictKeys) (\<lambda>_.
     vbind (a_dict pos (args ! 0) sigDictKeys) (\<lambda>m.
     vbind (sortedDictKeys rt pos m) (\<lambda>keys. vret (VList (map VStr keys)))))"

definition dictValues :: NativeFunc where
  "dictValues rt cv pos args =
     vbind (a_count pos args 1 sigDictValues) (\<lambda>_.
     vbind (a_dict pos (args ! 0) sigDictValues) (\<lambda>m.
     vbind (sortedDictKeys rt pos m) (\<lambda>keys. vret (VList (map (\<lambda>k. or_null (map_of (CloneDict m) k)) keys)))))"

definition dictItems :: NativeFunc where
  "dictItems rt cv pos args =
     vbind (a_count pos args 1 sigDictItems) (\<lambda>_.
     vbind (a_dict pos (args ! 0) sigDictItems) (\<lambda>m.
     vbind (sortedDictKeys rt pos m) (\<lambda>keys.
       vret (VList (map (\<lambda>k. VDict [(''key'', VStr k), (''value'', or_null (map_of (CloneDict m) k))]) keys)))))"

definition dictGet :: NativeFunc where
  "dictGet rt cv pos args =
     vbind (a_range pos args 2 3 sigDictGet) (\<lambda>_.
     vbind (a_dict pos (args ! 0) sigDictGet) (\<lambda>m.
       case m of
         None \<Rightarrow> vret (if 2 < length args then args ! 2 else VNull)
       | Some kvs \<Rightarrow>
           vbind (a_key pos (args ! 1)) (\<lambda>key.
             case map_of kvs key of
               Some v \<Rightarrow> vret v
             | None \<Rightarrow> vret (if 2 < length args then args ! 2 else VNull))))"

definition dictHas :: NativeFunc where
  "dictHas rt cv pos args =
     vbind (a_count pos args 2 sigDictHas) (\<lambda>_.
     vbind (a_dict pos (args ! 0) sigDictHas) (\<lambda>m.
       case m of
         None \<Rightarrow> vret (VBool False)
       | Some kvs \<Rightarrow> vbind (a_key pos (args ! 1)) (\<lambda>key. vret (VBool (map_of kvs key \<noteq> None)))))"

section \<open>Building a dictionary\<close>

definition checked_dict :: "Rt \<Rightarrow> Pos \<Rightarrow> (string \<times> Value) list \<Rightarrow> Value comp" where
  "checked_dict rt pos out = vbind (c_dict rt pos (length out)) (\<lambda>_. vret (VDict out))"

text \<open>\<open>maps.Copy\<close>.\<close>

definition smap_copy :: "'a smap \<Rightarrow> 'a smap \<Rightarrow> 'a smap" where
  "smap_copy dst src = foldl (\<lambda>m (k, v). smap_put k v m) dst src"

definition dictSet :: NativeFunc where
  "dictSet rt cv pos args =
     vbind (a_count pos args 3 sigDictSet) (\<lambda>_.
     vbind (a_dict pos (args ! 0) sigDictSet) (\<lambda>m.
     vbind (a_key pos (args ! 1)) (\<lambda>key.
       checked_dict rt pos (smap_put key (args ! 2) (CloneDict m)))))"

definition dictMerge :: NativeFunc where
  "dictMerge rt cv pos args =
     vbind (a_count pos args 2 sigDictMerge) (\<lambda>_.
     vbind (a_dict pos (args ! 0) sigDictMerge) (\<lambda>a.
     vbind (a_dict pos (args ! 1) sigDictMerge) (\<lambda>b.
       checked_dict rt pos (smap_copy (CloneDict a) (CloneDict b)))))"

definition dictRemove :: NativeFunc where
  "dictRemove rt cv pos args =
     vbind (a_count pos args 2 sigDictRemove) (\<lambda>_.
     vbind (a_dict pos (args ! 0) sigDictRemove) (\<lambda>m.
     vbind (a_key pos (args ! 1)) (\<lambda>key.
       checked_dict rt pos (smap_del key (CloneDict m)))))"

section \<open>Pick and omit\<close>

fun key_items :: "Rt \<Rightarrow> Pos \<Rightarrow> Value list \<Rightarrow> string list comp" where
  "key_items rt pos [] = vret []"
| "key_items rt pos (it # items) =
     vbind (tick rt pos) (\<lambda>_. vbind (a_key pos it) (\<lambda>k. vbind (key_items rt pos items) (\<lambda>ks. vret (k # ks))))"

definition keyList :: "Rt \<Rightarrow> Pos \<Rightarrow> Value \<Rightarrow> string \<Rightarrow> string list comp" where
  "keyList rt pos v sig =
     (case v of
        VNull \<Rightarrow> vret []
      | VStr s \<Rightarrow> vret [s]
      | VList xs \<Rightarrow> vbind (c_list rt pos (length xs)) (\<lambda>_. key_items rt pos xs)
      | _ \<Rightarrow> verr pos (sig @ '' expects list or string''))"

fun pick_keys :: "Rt \<Rightarrow> Pos \<Rightarrow> Value smap \<Rightarrow> string list \<Rightarrow> Value smap \<Rightarrow> Value smap comp" where
  "pick_keys rt pos m [] out = vret out"
| "pick_keys rt pos m (k # ks) out =
     vbind (tick rt pos) (\<lambda>_.
       pick_keys rt pos m ks (case map_of m k of Some v \<Rightarrow> smap_put k v out | None \<Rightarrow> out))"

fun omit_keys :: "Rt \<Rightarrow> Pos \<Rightarrow> string list \<Rightarrow> Value smap \<Rightarrow> Value smap comp" where
  "omit_keys rt pos [] out = vret out"
| "omit_keys rt pos (k # ks) out = vbind (tick rt pos) (\<lambda>_. omit_keys rt pos ks (smap_del k out))"

definition dictPick :: NativeFunc where
  "dictPick rt cv pos args =
     vbind (a_count pos args 2 sigDictPick) (\<lambda>_.
     vbind (a_dict pos (args ! 0) sigDictPick) (\<lambda>m.
     vbind (keyList rt pos (args ! 1) sigDictPick) (\<lambda>keys.
       if keys = [] \<or> CloneDict m = [] then vret (VDict [])
       else vbind (pick_keys rt pos (CloneDict m) (remdups keys) []) (checked_dict rt pos))))"

definition dictOmit :: NativeFunc where
  "dictOmit rt cv pos args =
     vbind (a_count pos args 2 sigDictOmit) (\<lambda>_.
     vbind (a_dict pos (args ! 0) sigDictOmit) (\<lambda>m.
     vbind (keyList rt pos (args ! 1) sigDictOmit) (\<lambda>keys.
       if keys = [] \<or> CloneDict m = [] then vret (VDict (CloneDict m))
       else vbind (omit_keys rt pos (remdups keys) (CloneDict m)) (checked_dict rt pos))))"

section \<open>Canonical maps\<close>

lemma smap_ok_copy: "smap_ok dst \<Longrightarrow> smap_ok (smap_copy dst src)"
  unfolding smap_copy_def by (induction src arbitrary: dst) (auto intro: smap_ok_put)

lemma map_of_copy: "smap_ok src \<Longrightarrow> map_of (smap_copy dst src) = map_of dst ++ map_of src"
  unfolding smap_copy_def
proof (induction src arbitrary: dst)
  case (Cons e src)
  obtain k v where e: "e = (k, v)" by (cases e)
  with Cons.prems have ok: "smap_ok src" "k \<notin> fst ` set src" by (auto simp: smap_ok_Cons)
  then have "map_of src k = None" by (simp add: map_of_eq_None_iff)
  then show ?case
    using Cons.IH [OF ok(1)] e by (auto simp: map_of_smap_put map_add_def fun_eq_iff split: option.split)
qed simp

lemma set_smap_copy: "set (smap_copy dst src) \<subseteq> set dst \<union> set src"
  unfolding smap_copy_def
proof (induction src arbitrary: dst)
  case (Cons e src)
  obtain k v where e: "e = (k, v)" by (cases e)
  from Cons.IH [of "smap_put k v dst"] set_smap_put [of k v dst] e show ?case by auto
qed simp

lemma dict_ok_put: "val_ok n (VDict m) \<Longrightarrow> val_ok n v \<Longrightarrow> val_ok n (VDict (smap_put k v m))"
  using smap_ok_put [of m k v] set_smap_put [of k v m] by fastforce

lemma dict_ok_del: "val_ok n (VDict m) \<Longrightarrow> val_ok n (VDict (smap_del k m))"
  using smap_ok_del [of m k] set_smap_del [of k m] by auto

lemma dict_ok_copy: "val_ok n (VDict a) \<Longrightarrow> val_ok n (VDict b) \<Longrightarrow> val_ok n (VDict (smap_copy a b))"
  using smap_ok_copy [of a b] set_smap_copy [of a b] by auto

lemmas dict_ok = dict_ok_put dict_ok_del dict_ok_copy

section \<open>Every function of the namespace provides the interface\<close>

lemma vspec_checked_dict:
  "state_ok s \<Longrightarrow> N \<le> n_envs s \<Longrightarrow> E_plain E \<Longrightarrow> val_ok (n_envs s) (VDict out) \<Longrightarrow>
     vspec b N A E s (checked_dict rt pos out) val_result"
  unfolding checked_dict_def by (intro native_rules vspec_ret) (auto simp: val_result_def)

lemma bind_sortedDictKeys:
  "state_ok s \<Longrightarrow> N \<le> n_envs s \<Longrightarrow> E_plain E \<Longrightarrow> (\<And>ks. vspec b N A E s (f ks) R) \<Longrightarrow>
     vspec b N A E s (vbind (sortedDictKeys rt pos m) f) R"
proof (rule vspec_keep [where P = "\<lambda>_. True"])
  assume "state_ok s" "N \<le> n_envs s" "E_plain E"
  then show "vspec b N A E s (sortedDictKeys rt pos m) (\<lambda>x s'. s' = s \<and> True)"
    unfolding sortedDictKeys_def by (intro vspec_if native_rules vspec_ret) auto
qed

lemma spec_key_items:
  "state_ok s \<Longrightarrow> N \<le> n_envs s \<Longrightarrow> E_plain E \<Longrightarrow> vspec b N A E s (key_items rt pos xs) (\<lambda>_ s'. n_envs s' = n_envs s)"
proof (induction xs arbitrary: s)
  case (Cons x xs)
  show ?case
    unfolding key_items.simps
  proof (rule bind_tick [OF Cons.prems])
    fix s1
    assume s1: "state_ok s1" "n_envs s1 = n_envs s"
    have ks: "vspec b N A E s1 (key_items rt pos xs) (\<lambda>_ s'. n_envs s' = n_envs s1)"
      by (rule Cons.IH) (use s1 Cons.prems in auto)
    show "vspec b N A E s1 (vbind (a_key pos x) (\<lambda>k. vbind (key_items rt pos xs) (\<lambda>ks. vret (k # ks))))
        (\<lambda>_ s'. n_envs s' = n_envs s)"
      by (intro native_rules vspec_seq [OF ks] vspec_ret) (use s1 Cons.prems in auto)
  qed
qed (auto intro: vspec_ret)

lemma spec_keyList:
  "state_ok s \<Longrightarrow> N \<le> n_envs s \<Longrightarrow> E_plain E \<Longrightarrow> vspec b N A E s (keyList rt pos v sig) (\<lambda>_ s'. n_envs s' = n_envs s)"
  unfolding keyList_def
  by (auto intro!: vspec_ret vspec_verr spec_key_items native_rules split: Value.split)

lemma spec_pick_keys:
  "state_ok s \<Longrightarrow> N \<le> n_envs s \<Longrightarrow> E_plain E \<Longrightarrow> val_ok (n_envs s) (VDict m) \<Longrightarrow> val_ok (n_envs s) (VDict out) \<Longrightarrow>
     vspec b N A E s (pick_keys rt pos m ks out) (\<lambda>r s'. val_ok (n_envs s') (VDict r))"
proof (induction ks arbitrary: s out)
  case (Cons k ks)
  have out: "val_ok (n_envs s) (VDict (case map_of m k of Some v \<Rightarrow> smap_put k v out | None \<Rightarrow> out))"
  proof (cases "map_of m k")
    case (Some v)
    with Cons.prems(4) have "val_ok (n_envs s) v" using map_of_ok [of m] by auto
    with Some show ?thesis using dict_ok_put Cons.prems(5) by (simp del: val_ok.simps)
  qed (use Cons.prems in simp)
  show ?case
    unfolding pick_keys.simps
    by (rule bind_tick [OF Cons.prems(1-3)], rule Cons.IH) (use Cons.prems out in simp_all)
qed (auto intro: vspec_ret)

lemma spec_omit_keys:
  "state_ok s \<Longrightarrow> N \<le> n_envs s \<Longrightarrow> E_plain E \<Longrightarrow> val_ok (n_envs s) (VDict out) \<Longrightarrow>
     vspec b N A E s (omit_keys rt pos ks out) (\<lambda>r s'. val_ok (n_envs s') (VDict r))"
proof (induction ks arbitrary: s out)
  case (Cons k ks)
  show ?case
    unfolding omit_keys.simps
    by (rule bind_tick [OF Cons.prems(1-3)], rule Cons.IH) (use Cons.prems dict_ok_del [OF Cons.prems(4)] in simp_all)
qed (auto intro: vspec_ret)

lemma runs_dict_parts [runs_intros]:
  "M = MaxSteps (rt_lim rt) \<Longrightarrow> runs M (keyList rt pos v sig) (keyList rt pos v sig)"
  "M = MaxSteps (rt_lim rt) \<Longrightarrow> runs M (pick_keys rt pos m ks out) (pick_keys rt pos m ks out)"
  "M = MaxSteps (rt_lim rt) \<Longrightarrow> runs M (omit_keys rt pos ks out) (omit_keys rt pos ks out)"
  "runs M (sortedDictKeys rt pos d) (sortedDictKeys rt pos d)"
  "runs M (checked_dict rt pos out) (checked_dict rt pos out)"
proof -
  assume M: "M = MaxSteps (rt_lim rt)"
  have "runs M (key_items rt pos xs) (key_items rt pos xs)" for xs
    by (induction xs) (auto intro!: runs_intros M)
  then show "runs M (keyList rt pos v sig) (keyList rt pos v sig)"
    unfolding keyList_def by (auto intro!: runs_intros split: Value.split)
  show "runs M (pick_keys rt pos m ks out) (pick_keys rt pos m ks out)"
    by (induction ks arbitrary: out) (auto intro!: runs_intros M)
  show "runs M (omit_keys rt pos ks out) (omit_keys rt pos ks out)"
    by (induction ks arbitrary: out) (auto intro!: runs_intros M)
qed (auto simp: sortedDictKeys_def checked_dict_def intro!: runs_intros)

lemma dict_members: "val_ok n (VDict m) \<Longrightarrow> val_ok n (or_null (map_of m k))"
  by (simp add: dict_get_ok)

interpretation dict_keys: native_function dictKeys
  by (rule native_functionI)
    (auto simp: dictKeys_def intro!: native_rules bind_sortedDictKeys vspec_ret runs_intros)

interpretation dict_values: native_function dictValues
  by (rule native_functionI)
    (auto simp: dictValues_def intro!: native_rules bind_sortedDictKeys vspec_ret runs_intros dict_get_ok)

interpretation dict_items: native_function dictItems
  by (rule native_functionI)
    (auto simp: dictItems_def smap_ok_Cons intro!: native_rules bind_sortedDictKeys vspec_ret runs_intros dict_get_ok)

interpretation dict_set: native_function dictSet
  by (rule native_functionI)
    (auto simp: dictSet_def simp del: val_ok.simps intro!: native_rules vspec_checked_dict dict_ok_put runs_intros)

interpretation dict_merge: native_function dictMerge
  by (rule native_functionI)
    (auto simp: dictMerge_def simp del: val_ok.simps intro!: native_rules vspec_checked_dict dict_ok_copy runs_intros)

interpretation dict_remove: native_function dictRemove
  by (rule native_functionI)
    (auto simp: dictRemove_def simp del: val_ok.simps intro!: native_rules vspec_checked_dict dict_ok_del runs_intros)

lemma third_arg: "\<forall>v \<in> set args. val_ok n v \<Longrightarrow> val_ok n (if 2 < length args then args ! 2 else VNull)"
  by simp

lemma first_args: "2 \<le> length args \<Longrightarrow> \<forall>v \<in> set args. val_ok n v \<Longrightarrow> val_ok n (args ! 0)"
  by (cases args) auto

interpretation dict_get: native_function dictGet
proof (rule native_functionI)
  fix rt :: Rt and b cv pos args and s :: Vm
  assume s: "state_ok s" "\<forall>v \<in> set args. val_ok (n_envs s) v"
  show "vspec b (n_envs s) {} no_sig s (dictGet rt cv pos args) val_result"
    unfolding dictGet_def
  proof (intro native_rules)
    fix m assume "val_ok (n_envs s) (VDict (CloneDict m))"
    then have "map_of (CloneDict m) k = Some v \<Longrightarrow> val_ok (n_envs s) v" for k v
      using map_of_ok [of "CloneDict m"] by auto
    then show "vspec b (n_envs s) {} no_sig s (case m of
         None \<Rightarrow> vret (if 2 < length args then args ! 2 else VNull)
       | Some kvs \<Rightarrow>
           vbind (a_key pos (args ! 1)) (\<lambda>key.
             case map_of kvs key of
               Some v \<Rightarrow> vret v
             | None \<Rightarrow> vret (if 2 < length args then args ! 2 else VNull))) val_result"
      using s third_arg [OF s(2)]
      by (auto simp: CloneDict_def val_result_def simp del: val_ok.simps intro!: native_rules vspec_ret split: option.split)
  qed (use s first_args in auto)
qed (auto simp: dictGet_def intro!: runs_intros)

interpretation dict_has: native_function dictHas
  by (rule native_functionI)
    (auto simp: dictHas_def val_result_def intro!: native_rules vspec_ret runs_intros split: option.split)

lemma bind_keyList:
  assumes "state_ok s" "N \<le> n_envs s" "E_plain E"
    and "\<And>ks s1. state_ok s1 \<Longrightarrow> n_envs s1 = n_envs s \<Longrightarrow> vspec b N A E s1 (f ks) R"
  shows "vspec b N A E s (vbind (keyList rt pos v sig) f) R"
  by (rule vspec_seq [OF spec_keyList [OF assms(1-3)]]) (rule assms(4))

lemma bind_walk:
  assumes "vspec b N A E s m (\<lambda>r s'. val_ok (n_envs s') (VDict r))" "N \<le> n_envs s" "E_plain E"
  shows "vspec b N A E s (vbind m (checked_dict rt pos)) val_result"
  by (rule vspec_seq [OF assms(1)], rule vspec_checked_dict) (use assms(2,3) in auto)

lemma dict_ok_nil: "val_ok n (VDict [])"
  by simp

interpretation dict_pick: native_function dictPick
  by (rule native_functionI)
    (auto simp: dictPick_def simp del: val_ok.simps
      intro!: native_rules bind_keyList vspec_if bind_walk spec_pick_keys runs_intros vspec_ret dict_ok_nil simp: val_result_def)

interpretation dict_omit: native_function dictOmit
  by (rule native_functionI)
    (auto simp: dictOmit_def simp del: val_ok.simps
      intro!: native_rules bind_keyList vspec_if bind_walk spec_omit_keys runs_intros vspec_ret simp: val_result_def)

section \<open>What the functions compute\<close>

definition dict_fits :: "Rt \<Rightarrow> nat \<Rightarrow> bool" where
  "dict_fits rt n \<longleftrightarrow> MaxDict (rt_lim rt) \<le> 0 \<or> int n \<le> MaxDict (rt_lim rt)"

lemma dict_fits_mono: "dict_fits rt n \<Longrightarrow> m \<le> n \<Longrightarrow> dict_fits rt m"
  by (auto simp: dict_fits_def)

lemma checked_dict_runs: "dict_fits rt (length d) \<Longrightarrow> checked_dict rt pos d s = (Inr (VDict d), s)"
  by (auto simp: checked_dict_def vbind_def c_dict_def vcheck_def vpure_def CheckDict_def dict_fits_def vret_def)

lemma a_dict_runs: "a_dict pos (VDict m) sig s = (Inr (Some m), s)"
  by (simp add: a_dict_def vpure_def dictArg_def)

lemma a_key_runs: "a_key pos (VStr k) s = (Inr k, s)"
  by (simp add: a_key_def vpure_def KeyOf_def)

lemmas dict_runs = vbind_def a_count_ok a_range_ok a_dict_runs a_key_runs CloneDict_def vret_def

lemma length_smap_del: "length (smap_del k m) \<le> length m"
  by (induction k m rule: smap_del.induct) auto

text \<open>
  What a function that builds a dictionary answers: the canonical dictionary of the map, or an error if that map has
  more names than the limit allows; the state stays.
\<close>

definition gives_dict :: "Rt \<Rightarrow> Vm \<Rightarrow> (string \<rightharpoonup> Value) \<Rightarrow> (err + Value) \<times> Vm \<Rightarrow> bool" where
  "gives_dict rt s f res \<longleftrightarrow> (\<exists>d. smap_ok d \<and> map_of d = f \<and>
     (if dict_fits rt (card (dom f)) then res = (Inr (VDict d), s) else \<exists>e. res = (Inl e, s)))"

lemma card_smap: "smap_ok d \<Longrightarrow> card (dom (map_of d)) = length d"
  using distinct_card [OF smap_ok_distinct [of d]] by (simp add: dom_map_of_conv_image_fst)

lemma checked_dict_gives: "smap_ok d \<Longrightarrow> map_of d = f \<Longrightarrow> gives_dict rt s f (checked_dict rt pos d s)"
  using card_smap [of d]
  by (auto simp: gives_dict_def checked_dict_def vbind_def c_dict_def vcheck_def vpure_def CheckDict_def dict_fits_def vret_def
      intro!: exI [of _ d])

text \<open>
  C12: the dictionary functions implement finite maps: \<open>set\<close> updates, \<open>remove\<close> deletes and \<open>merge\<close> overrides the first
  dictionary by the second, each with the canonical dictionary of the resulting map, or an error exactly if that map
  is larger than the limit; \<open>get\<close> looks up, with its default or null for a name that is not there, and \<open>has\<close> tests.
\<close>

theorem dict_refines_map:
  assumes "smap_ok m" "smap_ok b"
  shows "gives_dict rt s ((map_of m)(k \<mapsto> v)) (dictSet rt cv pos [VDict m, VStr k, v] s)
    \<and> gives_dict rt s ((map_of m)(k := None)) (dictRemove rt cv pos [VDict m, VStr k] s)
    \<and> gives_dict rt s (map_of m ++ map_of b) (dictMerge rt cv pos [VDict m, VDict b] s)
    \<and> dictGet rt cv pos [VDict m, VStr k, v] s = (Inr (case map_of m k of Some x \<Rightarrow> x | None \<Rightarrow> v), s)
    \<and> dictGet rt cv pos [VDict m, VStr k] s = (Inr (case map_of m k of Some x \<Rightarrow> x | None \<Rightarrow> VNull), s)
    \<and> dictHas rt cv pos [VDict m, VStr k] s = (Inr (VBool (k \<in> dom (map_of m))), s)"
proof -
  have "dictSet rt cv pos [VDict m, VStr k, v] s = checked_dict rt pos (smap_put k v m) s"
    "dictRemove rt cv pos [VDict m, VStr k] s = checked_dict rt pos (smap_del k m) s"
    "dictMerge rt cv pos [VDict m, VDict b] s = checked_dict rt pos (smap_copy m b) s"
    by (simp_all add: dictSet_def dictRemove_def dictMerge_def dict_runs)
  moreover have "dictGet rt cv pos [VDict m, VStr k, v] s = (Inr (case map_of m k of Some x \<Rightarrow> x | None \<Rightarrow> v), s)"
    "dictGet rt cv pos [VDict m, VStr k] s = (Inr (case map_of m k of Some x \<Rightarrow> x | None \<Rightarrow> VNull), s)"
    "dictHas rt cv pos [VDict m, VStr k] s = (Inr (VBool (k \<in> dom (map_of m))), s)"
    by (simp_all add: dictGet_def dictHas_def dict_runs domIff split: option.split)
  ultimately show ?thesis
    using smap_ok_put [OF assms(1)] smap_ok_del [OF assms(1)] smap_ok_copy [OF assms(1)] map_of_smap_put [of k v m]
      map_of_smap_del [OF assms(1), of k] map_of_copy [OF assms(2), of m]
    by (simp add: checked_dict_gives)
qed

theorem dict_refines_map_witness:
  "gives_dict rt0 ctx1 [''a'' \<mapsto> VNull, ''b'' \<mapsto> VBool True] (dictSet rt0 null_test zero_pos [VDict [(''a'', VNull)], VStr ''b'', VBool True] ctx1)
   \<and> gives_dict rt0 ctx1 [''a'' \<mapsto> VStr []] (dictMerge rt0 null_test zero_pos [VDict [(''a'', VNull)], VDict [(''a'', VStr [])]] ctx1)"
proof -
  have "smap_ok [(''a'', VNull)]" "smap_ok [(''a'', VStr [])]" by (simp_all add: smap_ok_def)
  moreover have "map_of [(''a'', VNull)] ++ map_of [(''a'', VStr [])] = [''a'' \<mapsto> VStr []]"
    "(map_of [(''a'', VNull)])(''b'' \<mapsto> VBool True) = [''a'' \<mapsto> VNull, ''b'' \<mapsto> VBool True]"
    by (simp_all add: fun_eq_iff map_add_def)
  ultimately show ?thesis
    using dict_refines_map [of "[(''a'', VNull)]" "[(''a'', VStr [])]" rt0 ctx1 "''b''" "VBool True" null_test zero_pos] by metis
qed

lemma smap_keys: "smap_ok m \<Longrightarrow> map fst m = sorted_list_of_set (dom (map_of m))"
proof -
  assume "smap_ok m"
  then have "sorted (map fst m)" "distinct (map fst m)" by (simp_all add: smap_ok_def strict_sorted_iff)
  then have "sorted_list_of_set (set (map fst m)) = map fst m"
    by (rule sorted_list_of_set.idem_if_sorted_distinct)
  then show ?thesis by (simp only: dom_map_of_conv_image_fst set_map)
qed

text \<open>
  \<open>keys\<close>, \<open>values\<close> and \<open>items\<close> are the three views of one enumeration: the keys of the dictionary in
  ascending order, whatever order they were put in, with the values and the key-value pairs in the
  same order; \<open>merge\<close> is the union in which the second dictionary wins.
\<close>

theorem dict_views_agree:
  assumes "smap_ok a" "smap_ok b" "fits rt (length a)" "dict_fits rt (length (smap_copy a b))"
  shows "(let ks = sorted_list_of_set (dom (map_of a)) in
      dictKeys rt cv pos [VDict a] s = (Inr (VList (map VStr ks)), s)
    \<and> dictValues rt cv pos [VDict a] s = (Inr (VList (map (\<lambda>k. the (map_of a k)) ks)), s)
    \<and> dictItems rt cv pos [VDict a] s
        = (Inr (VList (map (\<lambda>k. VDict [(''key'', VStr k), (''value'', the (map_of a k))]) ks)), s))
    \<and> (\<exists>d. dictMerge rt cv pos [VDict a, VDict b] s = (Inr (VDict d), s) \<and> smap_ok d
        \<and> map_of d = map_of a ++ map_of b)"
proof -
  have keys: "sortedDictKeys rt pos (Some a) s = (Inr (map fst a), s)"
    using assms(3) by (simp add: sortedDictKeys_def dict_runs c_list_fits)
  have "map (\<lambda>k. or_null (map_of a k)) (map fst a) = map (\<lambda>k. the (map_of a k)) (map fst a)"
    "map (\<lambda>k. VDict [(''key'', VStr k), (''value'', or_null (map_of a k))]) (map fst a)
      = map (\<lambda>k. VDict [(''key'', VStr k), (''value'', the (map_of a k))]) (map fst a)"
    by (auto simp: or_null_def weak_map_of_SomeI split: option.split dest: weak_map_of_SomeI)
  then have "dictValues rt cv pos [VDict a] s = (Inr (VList (map (\<lambda>k. the (map_of a k)) (map fst a))), s)"
    "dictItems rt cv pos [VDict a] s
       = (Inr (VList (map (\<lambda>k. VDict [(''key'', VStr k), (''value'', the (map_of a k))]) (map fst a))), s)"
    using keys by (simp_all add: dictValues_def dictItems_def dict_runs)
  moreover have "dictKeys rt cv pos [VDict a] s = (Inr (VList (map VStr (map fst a))), s)"
    using keys by (simp add: dictKeys_def dict_runs)
  moreover have "dictMerge rt cv pos [VDict a, VDict b] s = (Inr (VDict (smap_copy a b)), s)"
    using assms(4) by (simp add: dictMerge_def dict_runs checked_dict_runs)
  ultimately show ?thesis
    using smap_ok_copy [OF assms(1)] map_of_copy [OF assms(2)] smap_keys [OF assms(1)] by (auto simp: Let_def)
qed

section \<open>Picking and omitting\<close>

lemma key_items_runs:
  "ticks_pass rt (vm_steps s) (length ks) \<Longrightarrow>
     key_items rt pos (map VStr ks) s = (Inr ks, s\<lparr>vm_steps := vm_steps s + int (length ks)\<rparr>)"
proof (induction ks arbitrary: s)
  case (Cons k ks)
  note t = tick_passes [OF Cons.prems [simplified]]
  with Cons.IH [of "s\<lparr>vm_steps := vm_steps s + 1\<rparr>"] show ?case
    by (simp add: dict_runs algebra_simps)
qed (simp add: vret_def)

lemma ticks_pass_split: "ticks_pass rt t (j + k) \<Longrightarrow> ticks_pass rt t j \<and> ticks_pass rt (t + int j) k"
proof (induction j arbitrary: t)
  case 0
  then show ?case by (auto simp: ticks_pass_def)
next
  case (Suc j)
  define s where "s = NewCtx [] \<lparr>vm_steps := t\<rparr>"
  have t: "vm_steps s = t" by (simp add: s_def)
  have "ticks_pass rt (t + 1) (j + k)" using tick_passes(2) [of rt s] Suc.prems t by simp
  from Suc.IH [OF this] show ?case
    using Suc.prems by (auto simp: ticks_pass_def list_all_iff add.assoc)
qed

text \<open>\<open>walk\<close> is what a walk over distinct keys makes of its accumulator when no step fails.\<close>

definition picked :: "Value smap \<Rightarrow> string list \<Rightarrow> Value smap \<Rightarrow> Value smap" where
  "picked m ks out = foldl (\<lambda>d k. case map_of m k of Some v \<Rightarrow> smap_put k v d | None \<Rightarrow> d) out ks"

definition omitted :: "string list \<Rightarrow> Value smap \<Rightarrow> Value smap" where
  "omitted ks out = foldl (\<lambda>d k. smap_del k d) out ks"

lemma pick_keys_runs:
  "ticks_pass rt (vm_steps s) (length ks) \<Longrightarrow>
     pick_keys rt pos m ks out s = (Inr (picked m ks out), s\<lparr>vm_steps := vm_steps s + int (length ks)\<rparr>)"
proof (induction ks arbitrary: s out)
  case (Cons k ks)
  note t = tick_passes [OF Cons.prems [simplified]]
  with Cons.IH [of "s\<lparr>vm_steps := vm_steps s + 1\<rparr>"] show ?case
    by (simp add: vbind_def picked_def algebra_simps)
qed (simp add: vret_def picked_def)

lemma omit_keys_runs:
  "ticks_pass rt (vm_steps s) (length ks) \<Longrightarrow>
     omit_keys rt pos ks out s = (Inr (omitted ks out), s\<lparr>vm_steps := vm_steps s + int (length ks)\<rparr>)"
proof (induction ks arbitrary: s out)
  case (Cons k ks)
  note t = tick_passes [OF Cons.prems [simplified]]
  with Cons.IH [of "s\<lparr>vm_steps := vm_steps s + 1\<rparr>"] show ?case
    by (simp add: vbind_def omitted_def algebra_simps)
qed (simp add: vret_def omitted_def)

lemma picked_map:
  "smap_ok out \<Longrightarrow> smap_ok (picked m ks out)
     \<and> map_of (picked m ks out) = (\<lambda>k. if k \<in> set ks \<and> map_of m k \<noteq> None then map_of m k else map_of out k)"
proof (induction ks arbitrary: out)
  case (Cons k ks)
  let ?d = "case map_of m k of Some v \<Rightarrow> smap_put k v out | None \<Rightarrow> out"
  have d: "smap_ok ?d" using Cons.prems by (auto intro: smap_ok_put split: option.split)
  have "map_of ?d = (\<lambda>x. if x = k \<and> map_of m k \<noteq> None then map_of m k else map_of out x)"
    by (auto simp: map_of_smap_put split: option.split)
  with Cons.IH [OF d] show ?case by (auto simp: picked_def fun_eq_iff)
qed (simp add: picked_def)

lemma omitted_map:
  "smap_ok out \<Longrightarrow> smap_ok (omitted ks out) \<and> map_of (omitted ks out) = (map_of out) |` (- set ks)"
proof (induction ks arbitrary: out)
  case (Cons k ks)
  from Cons.IH [OF smap_ok_del [OF Cons.prems, of k]] map_of_smap_del [OF Cons.prems, of k] show ?case
    by (auto simp: omitted_def restrict_map_def fun_eq_iff)
qed (simp add: omitted_def restrict_map_def)

lemma smap_length: "smap_ok m \<Longrightarrow> length m = card (dom (map_of m))"
proof -
  assume "smap_ok m"
  then have "distinct (map fst m)" by (simp add: smap_ok_def strict_sorted_iff)
  then show ?thesis by (metis distinct_card dom_map_of_conv_image_fst length_map list.set_map)
qed

lemma smap_length_le: "smap_ok d \<Longrightarrow> smap_ok m \<Longrightarrow> dom (map_of d) \<subseteq> dom (map_of m) \<Longrightarrow> length d \<le> length m"
  by (simp add: smap_length card_mono finite_dom_map_of)

lemma keyList_runs:
  assumes "fits rt (length ks)" "ticks_pass rt (vm_steps s) (length ks)"
  shows "keyList rt pos (VList (map VStr ks)) sig s = (Inr ks, s\<lparr>vm_steps := vm_steps s + int (length ks)\<rparr>)"
  using assms key_items_runs [OF assms(2)] by (simp add: keyList_def vbind_def c_list_fits)

text \<open>
  C22: \<open>pick\<close> and \<open>omit\<close> with the same keys split a dictionary: one keeps the entries under the keys, the
  other the rest, and merging the two gives the dictionary back - also with repeated keys, with keys
  the dictionary does not have, and with none.
\<close>

theorem dict_pick_omit_split:
  assumes "smap_ok m" "dict_fits rt (length m)" "fits rt (length ks)" "ticks_pass rt (vm_steps s) (2 * length ks)"
  shows "\<exists>p q. fst (dictPick rt cv pos [VDict m, VList (map VStr ks)] s) = Inr (VDict p)
    \<and> fst (dictOmit rt cv pos [VDict m, VList (map VStr ks)] s) = Inr (VDict q)
    \<and> map_of p = map_of m |` set ks \<and> map_of q = map_of m |` (- set ks) \<and> smap_copy p q = m"
proof -
  define p where "p = (if ks = [] \<or> m = [] then [] else picked m (remdups ks) [])"
  define q where "q = (if ks = [] \<or> m = [] then m else omitted (remdups ks) m)"
  have "2 * length ks = length ks + (length (remdups ks) + (length ks - length (remdups ks)))" by simp
  with assms(4) have t: "ticks_pass rt (vm_steps s) (length ks)"
    "ticks_pass rt (vm_steps s + int (length ks)) (length (remdups ks))"
    using ticks_pass_split by metis+
  have pm: "smap_ok p \<and> map_of p = map_of m |` set ks"
    using picked_map [of "[]" m "remdups ks"] by (auto simp: p_def restrict_map_def fun_eq_iff)
  have qm: "smap_ok q \<and> map_of q = map_of m |` (- set ks)"
    using omitted_map [OF assms(1), of "remdups ks"] assms(1) by (auto simp: q_def restrict_map_def fun_eq_iff)
  have "length p \<le> length m" "length q \<le> length m"
    using pm qm by (auto intro!: smap_length_le [OF _ assms(1)] simp: restrict_map_def split: if_splits)
  with assms(2) have fit: "dict_fits rt (length p)" "dict_fits rt (length q)" by (auto intro: dict_fits_mono)
  have "fst (dictPick rt cv pos [VDict m, VList (map VStr ks)] s) = Inr (VDict p)"
    using t(2) fit(1) keyList_runs [OF assms(3) t(1)]
    by (auto simp: dictPick_def dict_runs p_def pick_keys_runs checked_dict_runs)
  moreover have "fst (dictOmit rt cv pos [VDict m, VList (map VStr ks)] s) = Inr (VDict q)"
    using t(2) fit(2) keyList_runs [OF assms(3) t(1)]
    by (auto simp: dictOmit_def dict_runs q_def omit_keys_runs checked_dict_runs)
  moreover have "map_of p ++ map_of q = map_of m"
    using pm qm by (auto simp: map_add_def restrict_map_def fun_eq_iff split: option.split)
  then have "smap_copy p q = m"
    using smap_ext [OF smap_ok_copy assms(1)] pm qm map_of_copy [of q p] by simp
  ultimately show ?thesis using pm qm by blast
qed

theorem dict_pick_omit_split_witness:
  "\<exists>p q. fst (dictPick rt0 null_test zero_pos [VDict [(''a'', VNull), (''b'', VBool True)], VList [VStr ''b'', VStr ''b'', VStr ''z'']] ctx1) = Inr (VDict p)
    \<and> fst (dictOmit rt0 null_test zero_pos [VDict [(''a'', VNull), (''b'', VBool True)], VList [VStr ''b'', VStr ''b'', VStr ''z'']] ctx1) = Inr (VDict q)
    \<and> map_of p = map_of [(''a'', VNull), (''b'', VBool True)] |` set [''b'', ''b'', ''z'']
    \<and> map_of q = map_of [(''a'', VNull), (''b'', VBool True)] |` (- set [''b'', ''b'', ''z''])
    \<and> smap_copy p q = [(''a'', VNull), (''b'', VBool True)]"
  using dict_pick_omit_split [of "[(''a'', VNull), (''b'', VBool True)]" rt0 "[''b'', ''b'', ''z'']" ctx1 null_test zero_pos]
    rt0_room by (simp add: smap_ok_def dict_fits_def small_cfg_def)

theorem dict_views_agree_witness:
  "fst (dictKeys rt0 null_test zero_pos [VDict [(''a'', VNull), (''b'', VBool True)]] ctx1)
     = Inr (VList (map VStr (sorted_list_of_set {''a'', ''b''})))"
  using dict_views_agree [of "[(''a'', VNull), (''b'', VBool True)]" "[]" rt0 null_test zero_pos ctx1]
    rt0_room by (simp add: smap_ok_def dict_fits_def small_cfg_def Let_def smap_copy_def insert_commute)

end
