(* ===== verification/RtsStdMath.thy ===== *)
theory RtsStdMath
  imports RtsStdListProps
begin

text \<open>
  The namespace \<open>math\<close> of the standard library (\<open>internal/rts/stdlib/math.go\<close>), over the functions
  of Go's package \<open>math\<close> it calls.
\<close>

section \<open>Functions of the package math\<close>

fun m_abs :: "float64 \<Rightarrow> float64" where
  "m_abs NaN = NaN"
| "m_abs (Inf s) = Inf False"
| "m_abs (Fin s m e) = Fin False m e"

text \<open>An infinity decides first, then NaN; of two zeros \<open>Min\<close> prefers the negative one.\<close>

definition sign_bit :: "float64 \<Rightarrow> bool" where
  "sign_bit x = (case x of Fin s _ _ \<Rightarrow> s | Inf s \<Rightarrow> s | NaN \<Rightarrow> False)"

definition m_min :: "float64 \<Rightarrow> float64 \<Rightarrow> float64" where
  "m_min x y =
     (if x = Inf True \<or> y = Inf True then Inf True
      else if x = NaN \<or> y = NaN then NaN
      else if f_eq x f_zero \<and> f_eq x y then (if sign_bit x then x else y)
      else if f_lt x y then x else y)"

definition m_max :: "float64 \<Rightarrow> float64 \<Rightarrow> float64" where
  "m_max x y =
     (if x = Inf False \<or> y = Inf False then Inf False
      else if x = NaN \<or> y = NaN then NaN
      else if f_eq x f_zero \<and> f_eq x y then (if sign_bit x then y else x)
      else if f_lt y x then x else y)"

text \<open>The integer part and the remainder of a finite magnitude with a negative exponent.\<close>

definition frac_parts :: "int \<Rightarrow> int \<Rightarrow> int \<times> int \<times> int" where
  "frac_parts m e = (let d = 2 ^ nat (- e) in (m div d, m mod d, d))"

fun m_floor :: "float64 \<Rightarrow> float64" where
  "m_floor (Fin s m e) =
     (if 0 \<le> e then Fin s m e
      else (let (q, r, d) = frac_parts m e in round_ratio s (if s \<and> r \<noteq> 0 then q + 1 else q) 1))"
| "m_floor x = x"

definition m_ceil :: "float64 \<Rightarrow> float64" where
  "m_ceil x = f_neg (m_floor (f_neg x))"

text \<open>Half away from zero.\<close>

fun m_round :: "float64 \<Rightarrow> float64" where
  "m_round (Fin s m e) =
     (if 0 \<le> e then Fin s m e
      else (let (q, r, d) = frac_parts m e in round_ratio s (if d \<le> 2 * r then q + 1 else q) 1))"
| "m_round x = x"

section \<open>The natives\<close>

definition sigMathAbs :: string where
  "sigMathAbs = ''math.abs(x)''"
definition sigMathMin :: string where
  "sigMathMin = ''math.min(a, b)''"
definition sigMathMax :: string where
  "sigMathMax = ''math.max(a, b)''"
definition sigMathClamp :: string where
  "sigMathClamp = ''math.clamp(x, min, max)''"
definition sigMathFloor :: string where
  "sigMathFloor = ''math.floor(x)''"
definition sigMathCeil :: string where
  "sigMathCeil = ''math.ceil(x)''"
definition sigMathRound :: string where
  "sigMathRound = ''math.round(x)''"

text \<open>The shape shared by the functions of one and of two numbers.\<close>

definition num1 :: "string \<Rightarrow> (float64 \<Rightarrow> float64) \<Rightarrow> NativeFunc" where
  "num1 sig f rt cv pos args =
     vbind (a_count pos args 1 sig) (\<lambda>_. vbind (a_num pos (args ! 0) sig) (\<lambda>n. vret (VNum (f n))))"

definition num2 :: "string \<Rightarrow> (float64 \<Rightarrow> float64 \<Rightarrow> float64) \<Rightarrow> NativeFunc" where
  "num2 sig f rt cv pos args =
     vbind (a_count pos args 2 sig) (\<lambda>_.
     vbind (a_num pos (args ! 0) sig) (\<lambda>a.
     vbind (a_num pos (args ! 1) sig) (\<lambda>b. vret (VNum (f a b)))))"

definition mathAbs :: NativeFunc where
  "mathAbs = num1 sigMathAbs m_abs"

definition mathMin :: NativeFunc where
  "mathMin = num2 sigMathMin m_min"

definition mathMax :: NativeFunc where
  "mathMax = num2 sigMathMax m_max"

definition mathFloor :: NativeFunc where
  "mathFloor = num1 sigMathFloor m_floor"

definition mathCeil :: NativeFunc where
  "mathCeil = num1 sigMathCeil m_ceil"

definition mathRound :: NativeFunc where
  "mathRound = num1 sigMathRound m_round"

definition mathClamp :: NativeFunc where
  "mathClamp rt cv pos args =
     vbind (a_count pos args 3 sigMathClamp) (\<lambda>_.
     vbind (a_num pos (args ! 0) sigMathClamp) (\<lambda>x.
     vbind (a_num pos (args ! 1) sigMathClamp) (\<lambda>lo.
     vbind (a_num pos (args ! 2) sigMathClamp) (\<lambda>hi.
       if f_lt hi lo then verr pos (sigMathClamp @ '' expects min <= max'')
       else if f_lt x lo then vret (VNum lo)
       else if f_lt hi x then vret (VNum hi)
       else vret (VNum x)))))"

section \<open>Every function of the namespace provides the interface\<close>

lemma num1_native: "native_function (num1 sig f)"
  by (rule native_functionI)
    (auto simp: num1_def val_result_def intro!: native_rules vspec_ret runs_intros)

lemma num2_native: "native_function (num2 sig f)"
  by (rule native_functionI)
    (auto simp: num2_def val_result_def intro!: native_rules vspec_ret runs_intros)

interpretation math_abs: native_function mathAbs
  unfolding mathAbs_def by (rule num1_native)

interpretation math_min: native_function mathMin
  unfolding mathMin_def by (rule num2_native)

interpretation math_max: native_function mathMax
  unfolding mathMax_def by (rule num2_native)

interpretation math_floor: native_function mathFloor
  unfolding mathFloor_def by (rule num1_native)

interpretation math_ceil: native_function mathCeil
  unfolding mathCeil_def by (rule num1_native)

interpretation math_round: native_function mathRound
  unfolding mathRound_def by (rule num1_native)

interpretation math_clamp: native_function mathClamp
  by (rule native_functionI)
    (auto simp: mathClamp_def val_result_def intro!: native_rules vspec_ret vspec_verr vspec_if runs_intros)

section \<open>What they compute\<close>

lemma a_num_runs: "a_num pos (VNum n) sig s = (Inr n, s)"
  by (simp add: a_num_def vpure_def numArg_def)

lemmas num_runs = vbind_def a_count_ok a_num_runs vret_def

lemma f_top [simp]: "\<not> f_lt y (Inf True)" "\<not> f_lt (Inf False) y"
  by (cases y; simp add: f_order)+

lemma m_min_bounds:
  assumes "a \<noteq> NaN" "b \<noteq> NaN"
  shows "m_min a b \<in> {a, b} \<and> \<not> f_lt a (m_min a b) \<and> \<not> f_lt b (m_min a b)"
  using assms f_lt_asym [of a b] f_eq_not_lt [of a b] by (simp add: m_min_def; fastforce)

lemma m_max_bounds:
  assumes "a \<noteq> NaN" "b \<noteq> NaN"
  shows "m_max a b \<in> {a, b} \<and> \<not> f_lt (m_max a b) a \<and> \<not> f_lt (m_max a b) b"
  using assms f_lt_asym [of b a] f_eq_not_lt [of a b] by (simp add: m_max_def; fastforce)

text \<open>
  \<open>min\<close>, \<open>max\<close> and \<open>clamp\<close> of numbers that are not NaN return one of their arguments, within the
  bounds they promise; \<open>clamp\<close> with crossed bounds is an error.
\<close>

theorem math_bounds:
  assumes "x \<noteq> NaN" "a \<noteq> NaN" "b \<noteq> NaN"
  shows "(\<exists>r. mathMin rt cv pos [VNum a, VNum b] s = (Inr (VNum r), s) \<and> r \<in> {a, b} \<and> \<not> f_lt a r \<and> \<not> f_lt b r)
    \<and> (\<exists>r. mathMax rt cv pos [VNum a, VNum b] s = (Inr (VNum r), s) \<and> r \<in> {a, b} \<and> \<not> f_lt r a \<and> \<not> f_lt r b)
    \<and> (if f_lt b a then \<exists>e. mathClamp rt cv pos [VNum x, VNum a, VNum b] s = (Inl e, s)
       else \<exists>r. mathClamp rt cv pos [VNum x, VNum a, VNum b] s = (Inr (VNum r), s)
         \<and> r \<in> {x, a, b} \<and> \<not> f_lt r a \<and> \<not> f_lt b r)"
proof -
  note min = m_min_bounds [OF assms(2,3)] and max = m_max_bounds [OF assms(2,3)]
  show ?thesis
    using min max by (auto simp: mathMin_def mathMax_def mathClamp_def num2_def num_runs verr_def vpure_def)
qed

text \<open>Clamping 5 into the interval from 1 to 3.\<close>

lemma math_bounds_witness:
  "f_of_int 5 \<noteq> NaN \<and> (\<exists>r. mathClamp rt0 null_test zero_pos [VNum (f_of_int 5), VNum (f_of_int 1), VNum (f_of_int 3)] ctx1
      = (Inr (VNum r), ctx1) \<and> r \<in> {f_of_int 5, f_of_int 1, f_of_int 3} \<and> \<not> f_lt r (f_of_int 1) \<and> \<not> f_lt (f_of_int 3) r)"
proof -
  have a: "f_of_int 5 \<noteq> NaN" "f_of_int 1 \<noteq> NaN" "f_of_int 3 \<noteq> NaN" "\<not> f_lt (f_of_int 3) (f_of_int 1)" by code_simp+
  show ?thesis using a(1,4) math_bounds [OF a(1-3), of rt0 null_test zero_pos ctx1] by simp
qed

section \<open>Rounding\<close>

lemma frac_value:
  assumes "f_canonical (Fin s m e)" "e < 0" "frac_parts m e = (q, r, d)"
  shows "0 < d" "0 \<le> r" "r < d" "m = q * d + r" "0 \<le> q" "q + 1 < 2 ^ 53"
    "f_val (Fin s m e) = (if s then - 1 else 1) * (of_int m / of_int d)"
proof -
  have d: "d = 2 ^ nat (- e)" "q = m div d" "r = m mod d" using assms(3) by (auto simp: frac_parts_def Let_def)
  have m: "0 \<le> m" "m < 2 ^ 53" using assms(1) by (auto simp: f_canonical_def)
  show pos: "0 < d" by (simp add: d)
  show "0 \<le> r" "r < d" using pos d(3) by simp_all
  show "m = q * d + r" unfolding d(2,3) by simp
  show "0 \<le> q" using pos m(1) d(2) by (simp add: pos_imp_zdiv_nonneg_iff)
  have "nat (- e) = Suc (nat (- e - 1))" using assms(2) by simp
  then have "2 \<le> d" by (simp add: d)
  then have "m div d \<le> m div 2" using m by (intro zdiv_mono2) simp_all
  then show "q + 1 < 2 ^ 53" unfolding d(2) using m by simp
  have "(2::real) powr of_int e = inverse (2 powr of_int (- e))" by (simp add: powr_minus)
  also have "2 powr of_int (- e) = (of_int d :: real)"
    using assms(2) by (simp add: d powr_realpow [symmetric])
  finally show "f_val (Fin s m e) = (if s then - 1 else 1) * (of_int m / of_int d)"
    by (simp add: f_val.simps divide_inverse)
qed

lemma floor_parts:
  assumes "0 < d" "0 \<le> r" "r < (d::int)"
  shows "\<lfloor>real_of_int (q * d + r) / of_int d\<rfloor> = q"
    "\<lfloor>- (real_of_int (q * d + r) / of_int d)\<rfloor> = (if r = 0 then - q else - (q + 1))"
proof -
  have m: "(q * d + r) div d = q" "(q * d + r) mod d = r" using assms by simp_all
  show "\<lfloor>real_of_int (q * d + r) / of_int d\<rfloor> = q"
    unfolding floor_divide_of_int_eq m ..
  have "\<lfloor>- (real_of_int (q * d + r) / of_int d)\<rfloor> = \<lfloor>real_of_int (- (q * d + r)) / of_int d\<rfloor>"
    by (simp only: of_int_minus minus_divide_left)
  also have "\<dots> = (- (q * d + r)) div d" by (rule floor_divide_of_int_eq)
  also have "\<dots> = (if r = 0 then - q else - (q + 1))"
    by (subst zdiv_zminus1_eq_if) (use assms m in auto)
  finally show "\<lfloor>- (real_of_int (q * d + r) / of_int d)\<rfloor> = (if r = 0 then - q else - (q + 1))" .
qed

lemma f_val_whole: "0 \<le> e \<Longrightarrow> \<exists>k. f_val (Fin s m e) = real_of_int k"
proof -
  assume "0 \<le> e"
  then have "f_val (Fin s m e) = of_int ((if s then - 1 else 1) * m * 2 ^ nat e)"
    by (simp add: f_val.simps powr_realpow [symmetric])
  then show ?thesis by blast
qed

lemma m_floor_val:
  assumes "f_canonical (Fin s m e)"
  shows "f_val (m_floor (Fin s m e)) = of_int \<lfloor>f_val (Fin s m e)\<rfloor>"
proof (cases "0 \<le> e")
  case True
  then obtain k where "f_val (Fin s m e) = real_of_int k" using f_val_whole by blast
  with True show ?thesis by simp
next
  case False
  obtain q r d where p: "frac_parts m e = (q, r, d)" by (metis prod_cases3)
  from False have "e < 0" by simp
  note v = frac_value [OF assms this p]
  note fl = floor_parts [OF v(1-3), of q, folded v(4)]
  have q: "f_val (round_ratio s q 1) = (if s then - 1 else 1) * of_int q"
    "f_val (round_ratio s (q + 1) 1) = (if s then - 1 else 1) * of_int (q + 1)"
    using v(5,6) by (intro f_val_int; simp)+
  show ?thesis
    using False p q fl by (auto simp: v(7))
qed

lemma m_floor_fin:
  assumes "f_canonical (Fin s m e)"
  shows "\<exists>t n d. m_floor (Fin s m e) = Fin t n d"
proof (cases "0 \<le> e")
  case False
  obtain q r d where p: "frac_parts m e = (q, r, d)" by (metis prod_cases3)
  from False have "e < 0" by simp
  note v = frac_value [OF assms this p]
  show ?thesis
    using False p round_ratio_fin [of q s] round_ratio_fin [of "q + 1" s] v(5,6) by auto
qed simp

lemma f_val_neg: "f_val (f_neg (Fin s m e)) = - f_val (Fin s m e)"
  by (simp add: f_val.simps)

lemma m_ceil_val:
  assumes "f_canonical (Fin s m e)"
  shows "f_val (m_ceil (Fin s m e)) = of_int \<lceil>f_val (Fin s m e)\<rceil>"
proof -
  have c: "f_canonical (Fin (\<not> s) m e)" using assms by (simp add: f_canonical_def)
  obtain t n d where f: "m_floor (Fin (\<not> s) m e) = Fin t n d" using m_floor_fin [OF c] by blast
  have n: "f_val (Fin (\<not> s) m e) = - f_val (Fin s m e)" by (simp add: f_val.simps)
  have "f_val (m_ceil (Fin s m e)) = - f_val (m_floor (Fin (\<not> s) m e))"
    using f f_val_neg [of t n d] by (simp add: m_ceil_def)
  also have "\<dots> = of_int \<lceil>f_val (Fin s m e)\<rceil>"
    by (simp only: m_floor_val [OF c] n floor_minus of_int_minus minus_minus)
  finally show ?thesis .
qed

lemma half_parts:
  assumes "0 < d" "0 \<le> r" "r < (d::int)"
  shows "\<lfloor>real_of_int (q * d + r) / of_int d + 1 / 2\<rfloor> = (if d \<le> 2 * r then q + 1 else q)"
proof -
  have "real_of_int (q * d + r) / of_int d + 1 / 2 = of_int (2 * (q * d + r) + d) / of_int (2 * d)"
    using assms(1) by (simp add: field_simps)
  then have "\<lfloor>real_of_int (q * d + r) / of_int d + 1 / 2\<rfloor> = (2 * (q * d + r) + d) div (2 * d)"
    by (simp only: floor_divide_of_int_eq)
  also have "\<dots> = (q * (2 * d) + (2 * r + d)) div (2 * d)" by (simp add: algebra_simps)
  also have "\<dots> = q + (2 * r + d) div (2 * d)" using assms(1) by (subst div_mult_self3) simp_all
  also have "(2 * r + d) div (2 * d) = (if d \<le> 2 * r then 1 else 0)"
    using assms by (auto simp: div_pos_pos_trivial intro!: int_div_pos_eq [where r = "2 * r - d"])
  finally show ?thesis by simp
qed

lemma m_round_val:
  assumes "f_canonical (Fin s m e)"
  shows "f_val (m_round (Fin s m e)) = (if s then - 1 else 1) * of_int \<lfloor>\<bar>f_val (Fin s m e)\<bar> + 1 / 2\<rfloor>"
proof (cases "0 \<le> e")
  case True
  have "0 \<le> m" using assms by (simp add: f_canonical_def)
  then have "\<bar>f_val (Fin s m e)\<bar> = of_int (m * 2 ^ nat e)"
    using True by (simp add: f_val.simps abs_mult powr_realpow [symmetric])
  moreover have "f_val (Fin s m e) = (if s then - 1 else 1) * of_int (m * 2 ^ nat e)"
    using True by (simp add: f_val.simps powr_realpow [symmetric])
  moreover have "\<lfloor>of_int k + 1 / 2 :: real\<rfloor> = k" for k by linarith
  ultimately show ?thesis using True by simp
next
  case False
  obtain q r d where p: "frac_parts m e = (q, r, d)" by (metis prod_cases3)
  from False have "e < 0" by simp
  note v = frac_value [OF assms this p]
  note fl = half_parts [OF v(1-3), of q, folded v(4)]
  have q: "f_val (round_ratio s q 1) = (if s then - 1 else 1) * of_int q"
    "f_val (round_ratio s (q + 1) 1) = (if s then - 1 else 1) * of_int (q + 1)"
    using v(5,6) by (intro f_val_int; simp)+
  have "0 \<le> m" using assms by (simp add: f_canonical_def)
  then have a: "\<bar>f_val (Fin s m e)\<bar> = of_int m / of_int d"
    using v(1) by (simp add: v(7) abs_mult)
  show ?thesis unfolding a fl using False p q by (cases s) simp_all
qed

text \<open>
  C22: \<open>floor\<close>, \<open>ceil\<close> and \<open>round\<close> of a finite number return the whole number they are named after: the
  greatest below, the least above, and the nearest with halves away from zero; an integer beyond 2^53
  is its own result and no step of the computation rounds twice.
\<close>

theorem rounding_is_exact:
  assumes "f_canonical x" "x = Fin s m e"
  shows "(\<exists>r. mathFloor rt cv pos [VNum x] st = (Inr (VNum r), st) \<and> f_val r = of_int \<lfloor>f_val x\<rfloor>)
    \<and> (\<exists>r. mathCeil rt cv pos [VNum x] st = (Inr (VNum r), st) \<and> f_val r = of_int \<lceil>f_val x\<rceil>)
    \<and> (\<exists>r. mathRound rt cv pos [VNum x] st = (Inr (VNum r), st)
        \<and> f_val r = (if s then - 1 else 1) * of_int \<lfloor>\<bar>f_val x\<bar> + 1 / 2\<rfloor>)"
  using m_floor_val m_ceil_val m_round_val assms
  by (simp add: mathFloor_def mathCeil_def mathRound_def num1_def num_runs)

text \<open>Rounding -2.5, whose canonical mantissa and exponent are written out.\<close>

lemma rounding_is_exact_witness:
  "\<exists>r. mathRound rt0 null_test zero_pos [VNum (Fin True 5629499534213120 (- 51))] ctx1 = (Inr (VNum r), ctx1)
     \<and> f_val r = - 3"
proof -
  have c: "f_canonical (Fin True 5629499534213120 (- 51))" by code_simp
  have "f_val (Fin True 5629499534213120 (- 51)) = - (5 / 2)"
    by (simp add: f_val.simps powr_minus powr_numeral)
  then show ?thesis
    using rounding_is_exact [OF c refl, of rt0 null_test zero_pos ctx1] by simp
qed

end
