(* ===== verification/GoStrings.thy ===== *)
theory GoStrings
  imports GoText
begin

text \<open>
  Functions of Go's package \<open>strings\<close> on byte strings: \<open>Index\<close>, \<open>Split\<close>, \<open>Join\<close>, \<open>ReplaceAll\<close> and
  \<open>TrimSpace\<close> with the white space of Unicode, and the facts that connect them.
\<close>

section \<open>Searching\<close>

fun find_sub :: "string \<Rightarrow> string \<Rightarrow> nat option" where
  "find_sub s p =
     (if has_prefix s p then Some 0
      else case s of [] \<Rightarrow> None | _ # t \<Rightarrow> map_option Suc (find_sub t p))"

declare find_sub.simps [simp del]

lemma has_prefix_append: "has_prefix s p \<longleftrightarrow> (\<exists>t. s = p @ t)"
  unfolding has_prefix_def by (metis append_eq_conv_conj append_take_drop_id)

lemma has_suffix_append: "has_suffix s p \<longleftrightarrow> (\<exists>t. s = t @ p)"
proof
  assume "has_suffix s p"
  then show "\<exists>t. s = t @ p" unfolding has_suffix_def by (metis append_take_drop_id)
qed (auto simp: has_suffix_def)

lemma find_sub_None: "find_sub s p = None \<longleftrightarrow> \<not> str_contains s p"
proof (induction s)
  case Nil
  then show ?case by (subst find_sub.simps) (auto simp: has_prefix_def)
next
  case (Cons c s)
  then show ?case by (subst find_sub.simps) (simp add: has_prefix_append)
qed

text \<open>The offset found is the first one: what precedes it, with all but the last byte of the pattern,
  holds no occurrence.\<close>

lemma find_sub_Some:
  "find_sub s p = Some i \<Longrightarrow> s = take i s @ p @ drop (i + length p) s \<and> i + length p \<le> length s"
proof (induction s arbitrary: i)
  case Nil
  then show ?case by (subst (asm) find_sub.simps) (auto simp: has_prefix_def split: if_splits)
next
  case (Cons c s)
  show ?case
  proof (cases "has_prefix (c # s) p")
    case True
    with Cons.prems have "i = 0" by (subst (asm) find_sub.simps) simp
    moreover obtain t where "c # s = p @ t" using True by (auto simp: has_prefix_append)
    moreover from this have "length (c # s) = length p + length t" by simp
    ultimately show ?thesis by simp
  next
    case False
    with Cons.prems obtain j where j: "find_sub s p = Some j" "i = Suc j"
      by (subst (asm) find_sub.simps) auto
    with Cons.IH [OF j(1)] show ?thesis by simp
  qed
qed

lemma str_contains_append: "str_contains s p \<Longrightarrow> str_contains (a @ s @ b) p"
  by (auto simp: str_contains_iff) (metis append.assoc)

lemma str_contains_length: "str_contains s p \<Longrightarrow> length p \<le> length s"
  by (auto simp: str_contains_iff)

lemma find_sub_first:
  "find_sub s p = Some i \<Longrightarrow> p \<noteq> [] \<Longrightarrow> \<not> str_contains (take (i + length p - 1) s) p"
proof (induction s arbitrary: i)
  case Nil
  then show ?case by (auto simp: str_contains_iff)
next
  case (Cons c s)
  show ?case
  proof (cases "has_prefix (c # s) p")
    case True
    with Cons.prems have i: "i = 0" by (subst (asm) find_sub.simps) simp
    have "length (take (length p - 1) (c # s)) < length p" using Cons.prems(2) by (cases p) auto
    then show ?thesis unfolding i using str_contains_length [of "take (length p - 1) (c # s)" p] by auto
  next
    case False
    with Cons.prems obtain j where j: "find_sub s p = Some j" "i = Suc j"
      by (subst (asm) find_sub.simps) auto
    obtain k where k: "i + length p - 1 = Suc k" "j + length p - 1 = k"
      using j Cons.prems(2) by (cases p) auto
    have no: "\<not> has_prefix (c # take k s) p"
    proof
      assume "has_prefix (c # take k s) p"
      then obtain t where "c # take k s = p @ t" by (auto simp: has_prefix_append)
      then have "c # s = p @ t @ drop k s" by (metis append.assoc append_Cons append_take_drop_id)
      with False show False by (auto simp: has_prefix_append)
    qed
    show ?thesis using Cons.IH [OF j(1) Cons.prems(2)] no k by simp
  qed
qed

section \<open>Split and join\<close>

function split_seq :: "string \<Rightarrow> string \<Rightarrow> string list" where
  "split_seq sep s =
     (case find_sub s sep of
        None \<Rightarrow> [s]
      | Some i \<Rightarrow> (if sep = [] then [s] else take i s # split_seq sep (drop (i + length sep) s)))"
  by pat_completeness auto
termination
proof (relation "measure (\<lambda>(sep, s). length s)", goal_cases)
  case (2 sep s i)
  then show ?case using find_sub_Some [of s sep i] by (cases sep) auto
qed simp

declare split_seq.simps [simp del]

text \<open>\<open>explode\<close>: one piece per rune.\<close>

function explode :: "string \<Rightarrow> string list" where
  "explode s =
     (if s = [] then []
      else take (snd (decode_rune s)) s # explode (drop (snd (decode_rune s)) s))"
  by pat_completeness auto
termination
proof (relation "measure length", goal_cases)
  case (2 s)
  then show ?case using decode_rune_width [of s] by simp
qed simp

declare explode.simps [simp del]

definition str_split :: "string \<Rightarrow> string \<Rightarrow> string list" where
  "str_split s sep = (if sep = [] then explode s else split_seq sep s)"

fun str_join :: "string \<Rightarrow> string list \<Rightarrow> string" where
  "str_join sep [] = []"
| "str_join sep [x] = x"
| "str_join sep (x # y # zs) = x @ sep @ str_join sep (y # zs)"

lemma str_join_Cons: "ys \<noteq> [] \<Longrightarrow> str_join sep (x # ys) = x @ sep @ str_join sep ys"
  by (cases ys) simp_all

lemma split_seq_None: "\<not> str_contains s sep \<Longrightarrow> split_seq sep s = [s]"
  by (subst split_seq.simps) (simp add: find_sub_None [symmetric])

lemma split_seq_Some:
  "find_sub s sep = Some i \<Longrightarrow> sep \<noteq> [] \<Longrightarrow> split_seq sep s = take i s # split_seq sep (drop (i + length sep) s)"
  by (subst split_seq.simps) simp

lemma split_seq_ne [simp]: "split_seq sep s \<noteq> []"
  by (subst split_seq.simps) (simp split: option.split)

lemma join_explode: "str_join [] (explode s) = s"
proof (induction s rule: explode.induct)
  case (1 s)
  show ?case
  proof (cases "s = []")
    case False
    then show ?thesis
      using 1 by (subst explode.simps) (cases "explode (drop (snd (decode_rune s)) s)"; simp)
  qed (simp add: explode.simps)
qed

lemma join_split_seq: "str_join sep (split_seq sep s) = s"
proof (induction sep s rule: split_seq.induct)
  case (1 sep s)
  show ?case
  proof (cases "find_sub s sep")
    case (Some i)
    then show ?thesis
      using 1 [OF Some] find_sub_Some [OF Some]
      by (subst split_seq.simps) (auto simp: str_join_Cons)
  qed (simp add: split_seq.simps)
qed

lemma join_split: "str_join sep (str_split s sep) = s"
  by (simp add: str_split_def join_explode join_split_seq)

lemma split_seq_free: "sep \<noteq> [] \<Longrightarrow> p \<in> set (split_seq sep s) \<Longrightarrow> \<not> str_contains p sep"
proof (induction sep s arbitrary: p rule: split_seq.induct)
  case (1 sep s)
  show ?case
  proof (cases "find_sub s sep")
    case None
    then show ?thesis using 1(3) by (simp add: split_seq_None find_sub_None)
  next
    case (Some i)
    have "take (i + length sep - 1) s = take i s @ take (length sep - 1) (drop i s)"
      using 1(2) by (cases sep) (simp_all add: take_add)
    then have no: "\<not> str_contains (take i s) sep"
      using find_sub_first [OF Some 1(2)] str_contains_append [of "take i s" sep "[]"] by fastforce
    show ?thesis
      using 1(3) no 1(1) [OF Some 1(2) 1(2)] by (auto simp: split_seq_Some [OF Some 1(2)])
  qed
qed

lemma split_one_piece:
  assumes "sep \<noteq> []"
  shows "length (split_seq sep s) = 1 \<longleftrightarrow> \<not> str_contains s sep"
proof (cases "find_sub s sep")
  case None
  then show ?thesis by (simp add: find_sub_None split_seq_None)
next
  case (Some i)
  then show ?thesis
    using find_sub_None [of s sep] by (simp add: split_seq_Some [OF Some assms])
qed

lemma pieces_shorter: "p \<in> set (str_split s sep) \<Longrightarrow> length p \<le> length s"
proof -
  have "length p \<le> length (str_join sep ps)" if "p \<in> set ps" for ps
    using that
  proof (induction ps)
    case (Cons x ps)
    then show ?case by (cases ps) auto
  qed simp
  then show "p \<in> set (str_split s sep) \<Longrightarrow> length p \<le> length s" by (metis join_split)
qed

text \<open>A rune cut out of a string is decoded like the string's first rune.\<close>

lemma decode_rune_take: "s \<noteq> [] \<Longrightarrow> decode_rune (take (snd (decode_rune s)) s) = decode_rune s"
proof -
  assume "s \<noteq> []"
  then consider a where "s = [a]" | a b where "s = [a, b]" | a b c where "s = [a, b, c]"
    | a b c d t where "s = a # b # c # d # t"
    by (metis list.exhaust)
  then show ?thesis by cases (simp_all add: Let_def)
qed

section \<open>Replacing\<close>

function replace_seq :: "string \<Rightarrow> string \<Rightarrow> string \<Rightarrow> string" where
  "replace_seq old nw s =
     (case find_sub s old of
        None \<Rightarrow> s
      | Some i \<Rightarrow> (if old = [] then s else take i s @ nw @ replace_seq old nw (drop (i + length old) s)))"
  by pat_completeness auto
termination
proof (relation "measure (\<lambda>(old, nw, s). length s)", goal_cases)
  case (2 old nw s i)
  then show ?case using find_sub_Some [of s old i] by (cases old) auto
qed simp

declare replace_seq.simps [simp del]

text \<open>With an empty pattern the replacement goes before every rune and after the last one.\<close>

definition str_replace :: "string \<Rightarrow> string \<Rightarrow> string \<Rightarrow> string" where
  "str_replace s old nw =
     (if old = nw then s
      else if old = [] then nw @ concat (map (\<lambda>r. r @ nw) (explode s))
      else replace_seq old nw s)"

lemma replace_seq_join: "old \<noteq> [] \<Longrightarrow> replace_seq old nw s = str_join nw (split_seq old s)"
proof (induction old nw s rule: replace_seq.induct)
  case (1 old nw s)
  show ?case
  proof (cases "find_sub s old")
    case None
    then have "\<not> str_contains s old" by (simp add: find_sub_None)
    with None show ?thesis by (subst replace_seq.simps) (simp add: split_seq_None)
  next
    case (Some i)
    then show ?thesis
      using "1.IH" [OF Some] "1.prems" by (subst replace_seq.simps) (simp add: split_seq_Some str_join_Cons)
  qed
qed

lemma replace_join: "old \<noteq> [] \<Longrightarrow> str_replace s old nw = str_join nw (str_split s old)"
  by (simp add: str_replace_def replace_seq_join str_split_def join_split_seq)

section \<open>White space\<close>

definition white_runes :: "int list" where
  "white_runes = [9, 10, 11, 12, 13, 32, 133, 160, 5760, 8192, 8193, 8194, 8195, 8196, 8197, 8198, 8199, 8200,
     8201, 8202, 8232, 8233, 8239, 8287, 12288]"

definition space_codes :: "string list" where
  "space_codes = map encode_rune white_runes"

lemma space_codes_bytes [code]:
  "space_codes =
   [[CHR 0x09], [CHR 0x0A], [CHR 0x0B], [CHR 0x0C], [CHR 0x0D], [CHR 0x20], [CHR 0xC2, CHR 0x85],
    [CHR 0xC2, CHR 0xA0], [CHR 0xE1, CHR 0x9A, CHR 0x80], [CHR 0xE2, CHR 0x80, CHR 0x80],
    [CHR 0xE2, CHR 0x80, CHR 0x81], [CHR 0xE2, CHR 0x80, CHR 0x82], [CHR 0xE2, CHR 0x80, CHR 0x83],
    [CHR 0xE2, CHR 0x80, CHR 0x84], [CHR 0xE2, CHR 0x80, CHR 0x85], [CHR 0xE2, CHR 0x80, CHR 0x86],
    [CHR 0xE2, CHR 0x80, CHR 0x87], [CHR 0xE2, CHR 0x80, CHR 0x88], [CHR 0xE2, CHR 0x80, CHR 0x89],
    [CHR 0xE2, CHR 0x80, CHR 0x8A], [CHR 0xE2, CHR 0x80, CHR 0xA8], [CHR 0xE2, CHR 0x80, CHR 0xA9],
    [CHR 0xE2, CHR 0x80, CHR 0xAF], [CHR 0xE2, CHR 0x81, CHR 0x9F], [CHR 0xE3, CHR 0x80, CHR 0x80]]"
  by code_simp

function trim_front :: "string list \<Rightarrow> string \<Rightarrow> string" where
  "trim_front codes s =
     (case find (has_prefix s) codes of
        None \<Rightarrow> s
      | Some c \<Rightarrow> (if c = [] \<or> s = [] then s else trim_front codes (drop (length c) s)))"
  by pat_completeness auto
termination
  by (relation "measure (\<lambda>(codes, s). length s)") auto

declare trim_front.simps [simp del]

text \<open>\<open>TrimSpace\<close>: a rune is white space at either end exactly when its encoding stands there.\<close>

definition trim_white :: "string \<Rightarrow> string" where
  "trim_white s = rev (trim_front (map rev space_codes) (rev (trim_front space_codes s)))"

lemma trim_front_spec:
  assumes "[] \<notin> set codes"
  shows "\<exists>cs. set cs \<subseteq> set codes \<and> s = concat cs @ trim_front codes s
    \<and> (\<forall>c \<in> set codes. \<not> has_prefix (trim_front codes s) c)"
  using assms
proof (induction codes s rule: trim_front.induct)
  case (1 codes s)
  show ?case
  proof (cases "find (has_prefix s) codes")
    case None
    then have "trim_front codes s = s" by (simp add: trim_front.simps)
    moreover have "\<forall>c \<in> set codes. \<not> has_prefix s c" using None by (auto simp: find_None_iff)
    ultimately show ?thesis by (intro exI [of _ "[]"]) simp
  next
    case (Some c)
    then have c: "c \<in> set codes" "has_prefix s c" by (auto simp: find_Some_iff)
    then have ne: "c \<noteq> []" "s \<noteq> []" using 1(2) by (auto simp: has_prefix_def)
    then have e: "trim_front codes s = trim_front codes (drop (length c) s)"
      using Some by (subst trim_front.simps) simp
    obtain cs where cs: "set cs \<subseteq> set codes"
      "drop (length c) s = concat cs @ trim_front codes (drop (length c) s)"
      "\<forall>c' \<in> set codes. \<not> has_prefix (trim_front codes (drop (length c) s)) c'"
      using 1(1) [OF Some] ne 1(2) by blast
    have "s = c @ drop (length c) s" using c(2) by (auto simp: has_prefix_append)
    with cs c(1) e show ?thesis by (intro exI [of _ "c # cs"]) auto
  qed
qed

lemma space_codes_ne: "[] \<notin> set space_codes" "[] \<notin> set (map rev space_codes)"
proof -
  have "encode_rune r \<noteq> []" for r by (simp add: encode_rune_def Let_def)
  then show "[] \<notin> set space_codes" unfolding space_codes_def by (auto dest: sym)
  then show "[] \<notin> set (map rev space_codes)" by auto
qed

lemma has_prefix_rev: "has_prefix (rev s) (rev c) \<longleftrightarrow> has_suffix s c"
  unfolding has_prefix_append has_suffix_append by (metis rev_append rev_rev_ident)

lemma trim_white_spec:
  "\<exists>as bs. set as \<subseteq> set space_codes \<and> set bs \<subseteq> set space_codes \<and> s = concat as @ trim_white s @ concat bs
    \<and> (\<forall>c \<in> set space_codes. \<not> has_prefix (trim_white s) c \<and> \<not> has_suffix (trim_white s) c)"
proof -
  define m where "m = trim_front space_codes s"
  obtain as where as: "set as \<subseteq> set space_codes" "s = concat as @ m"
    "\<forall>c \<in> set space_codes. \<not> has_prefix m c"
    using trim_front_spec [OF space_codes_ne(1), of s] unfolding m_def by blast
  have t: "rev (trim_white s) = trim_front (map rev space_codes) (rev m)"
    unfolding trim_white_def m_def by (rule rev_rev_ident)
  obtain cs where cs: "set cs \<subseteq> set (map rev space_codes)" "rev m = concat cs @ rev (trim_white s)"
    "\<forall>c \<in> set (map rev space_codes). \<not> has_prefix (rev (trim_white s)) c"
    using trim_front_spec [OF space_codes_ne(2), of "rev m"] unfolding t by blast
  have m: "m = trim_white s @ concat (rev (map rev cs))"
    using arg_cong [OF cs(2), of rev] by (simp add: rev_concat rev_map)
  moreover have "set (rev (map rev cs)) \<subseteq> set space_codes"
    using image_mono [OF cs(1), of rev] by (simp add: image_image)
  moreover have "\<not> has_suffix (trim_white s) c" if "c \<in> set space_codes" for c
    using cs(3) that has_prefix_rev [of "trim_white s" c] by (simp del: has_prefix_rev)
  moreover have "\<not> has_prefix (trim_white s) c" if "c \<in> set space_codes" for c
  proof
    assume "has_prefix (trim_white s) c"
    then obtain t where "trim_white s = c @ t" by (auto simp: has_prefix_append)
    then have "has_prefix m c" using m by (simp add: has_prefix_append)
    with as(3) that show False by blast
  qed
  ultimately show ?thesis using as(1,2) by blast
qed

lemma trim_front_id: "\<forall>c \<in> set codes. \<not> has_prefix s c \<Longrightarrow> trim_front codes s = s"
  using find_None_iff [of "has_prefix s" codes] by (subst trim_front.simps) (simp split: option.split)

lemma trim_white_idem: "trim_white (trim_white s) = trim_white s"
proof -
  have p: "\<forall>c \<in> set space_codes. \<not> has_prefix (trim_white s) c"
    and q: "\<forall>c \<in> set space_codes. \<not> has_suffix (trim_white s) c"
    using trim_white_spec [of s] by blast+
  have "\<forall>c \<in> set (map rev space_codes). \<not> has_prefix (rev (trim_white s)) c"
    using q has_prefix_rev [of "trim_white s"] by (simp del: has_prefix_rev)
  then show ?thesis
    unfolding trim_white_def [of "trim_white s"] trim_front_id [OF p] using trim_front_id by simp
qed

section \<open>Case\<close>

text \<open>\<open>strings.EqualFold\<close> where the second text is ASCII: U+017F folds to \<open>s\<close> and U+212A to \<open>k\<close>.\<close>

definition fold_rune :: "int \<Rightarrow> int" where
  "fold_rune r = (if 65 \<le> r \<and> r \<le> 90 then r + 32 else if r = 0x17F then 115 else if r = 0x212A then 107 else r)"

definition equal_fold :: "string \<Rightarrow> string \<Rightarrow> bool" where
  "equal_fold s t \<longleftrightarrow> map (fold_rune \<circ> snd) (runes_from 0 s) = map (fold_rune \<circ> snd) (runes_from 0 t)"

end
