(* ===== verification/RtsStdText.thy ===== *)
theory RtsStdText
  imports RtsStdListProps GoStrings
begin

text \<open>
  The namespace \<open>text\<close> of the standard library (\<open>internal/rts/stdlib/text.go\<close>). \<open>lower\<close> and \<open>upper\<close>
  take the case mapping of package \<open>strings\<close> as a parameter: its Unicode tables are not modelled.
\<close>

section \<open>The natives\<close>

definition sigTextLower :: string where
  "sigTextLower = ''text.lower(s)''"
definition sigTextUpper :: string where
  "sigTextUpper = ''text.upper(s)''"
definition sigTextTrim :: string where
  "sigTextTrim = ''text.trim(s)''"
definition sigTextSplit :: string where
  "sigTextSplit = ''text.split(s, sep)''"
definition sigTextJoin :: string where
  "sigTextJoin = ''text.join(list, sep)''"
definition sigTextReplace :: string where
  "sigTextReplace = ''text.replace(s, old, new)''"
definition sigTextStartsWith :: string where
  "sigTextStartsWith = ''text.startsWith(s, prefix)''"
definition sigTextEndsWith :: string where
  "sigTextEndsWith = ''text.endsWith(s, suffix)''"

definition checked_str :: "Rt \<Rightarrow> Pos \<Rightarrow> string \<Rightarrow> Value comp" where
  "checked_str rt pos s = vbind (c_str rt pos s) (\<lambda>_. vret (VStr s))"

text \<open>The shape of \<open>lower\<close>, \<open>upper\<close> and \<open>trim\<close>.\<close>

definition text1 :: "string \<Rightarrow> (string \<Rightarrow> string) \<Rightarrow> NativeFunc" where
  "text1 sig f rt cv pos args =
     vbind (a_count pos args 1 sig) (\<lambda>_.
     vbind (a_str rt pos (args ! 0)) (\<lambda>s. checked_str rt pos (f s)))"

definition textLower :: "(string \<Rightarrow> string) \<Rightarrow> NativeFunc" where
  "textLower lower = text1 sigTextLower lower"

definition textUpper :: "(string \<Rightarrow> string) \<Rightarrow> NativeFunc" where
  "textUpper upper = text1 sigTextUpper upper"

definition textTrim :: NativeFunc where
  "textTrim = text1 sigTextTrim trim_white"

fun check_parts :: "Rt \<Rightarrow> Pos \<Rightarrow> Value list \<Rightarrow> string list \<Rightarrow> Value comp" where
  "check_parts rt pos out [] = vret (VList out)"
| "check_parts rt pos out (p # ps) = vbind (c_str rt pos p) (\<lambda>_. check_parts rt pos (out @ [VStr p]) ps)"

definition textSplit :: NativeFunc where
  "textSplit rt cv pos args =
     vbind (a_count pos args 2 sigTextSplit) (\<lambda>_.
     vbind (a_str rt pos (args ! 0)) (\<lambda>s.
     vbind (a_str rt pos (args ! 1)) (\<lambda>sep.
     vbind (c_list rt pos (length (str_split s sep))) (\<lambda>_. check_parts rt pos [] (str_split s sep)))))"

fun join_items :: "Rt \<Rightarrow> Pos \<Rightarrow> string list \<Rightarrow> Value list \<Rightarrow> string list comp" where
  "join_items rt pos out [] = vret out"
| "join_items rt pos out (it # items) =
     vbind (a_scalar rt pos it sigTextJoin) (\<lambda>s.
     vbind (c_str rt pos s) (\<lambda>_. join_items rt pos (out @ [s]) items))"

definition join_source :: "Pos \<Rightarrow> Value \<Rightarrow> Value list comp" where
  "join_source pos v =
     (case v of
        VNull \<Rightarrow> vret []
      | VList xs \<Rightarrow> vret xs
      | _ \<Rightarrow> verr pos (sigTextJoin @ '' expects list''))"

definition textJoin :: NativeFunc where
  "textJoin rt cv pos args =
     vbind (a_count pos args 2 sigTextJoin) (\<lambda>_.
     vbind (join_source pos (args ! 0)) (\<lambda>items.
     vbind (a_str rt pos (args ! 1)) (\<lambda>sep.
     vbind (c_list rt pos (length items)) (\<lambda>_.
     vbind (join_items rt pos [] items) (\<lambda>out. checked_str rt pos (str_join sep out))))))"

definition textReplace :: NativeFunc where
  "textReplace rt cv pos args =
     vbind (a_count pos args 3 sigTextReplace) (\<lambda>_.
     vbind (a_str rt pos (args ! 0)) (\<lambda>s.
     vbind (a_str rt pos (args ! 1)) (\<lambda>old.
     vbind (a_str rt pos (args ! 2)) (\<lambda>nw. checked_str rt pos (str_replace s old nw)))))"

text \<open>The shape of \<open>startsWith\<close> and \<open>endsWith\<close>.\<close>

definition text_test :: "string \<Rightarrow> (string \<Rightarrow> string \<Rightarrow> bool) \<Rightarrow> NativeFunc" where
  "text_test sig test rt cv pos args =
     vbind (a_count pos args 2 sig) (\<lambda>_.
     vbind (a_str rt pos (args ! 0)) (\<lambda>s.
     vbind (a_str rt pos (args ! 1)) (\<lambda>p. vret (VBool (test s p)))))"

definition textStartsWith :: NativeFunc where
  "textStartsWith = text_test sigTextStartsWith has_prefix"

definition textEndsWith :: NativeFunc where
  "textEndsWith = text_test sigTextEndsWith has_suffix"

section \<open>Every function of the namespace provides the interface\<close>

lemma vspec_checked_str:
  "state_ok s \<Longrightarrow> N \<le> n_envs s \<Longrightarrow> E_plain E \<Longrightarrow> vspec b N A E s (checked_str rt pos t) val_result"
  unfolding checked_str_def by (intro native_rules vspec_ret) (auto simp: val_result_def)

lemma runs_checked_str [runs_intros]: "runs M (checked_str rt pos t) (checked_str rt pos t)"
  by (auto simp: checked_str_def intro!: runs_intros)

lemma text1_native: "native_function (text1 sig f)"
  by (rule native_functionI) (auto simp: text1_def intro!: native_rules vspec_checked_str runs_intros)

lemma text_test_native: "native_function (text_test sig f)"
  by (rule native_functionI)
    (auto simp: text_test_def val_result_def intro!: native_rules vspec_ret runs_intros)

interpretation text_lower: native_function "textLower lower" for lower
  unfolding textLower_def by (rule text1_native)

interpretation text_upper: native_function "textUpper upper" for upper
  unfolding textUpper_def by (rule text1_native)

interpretation text_trim: native_function textTrim
  unfolding textTrim_def by (rule text1_native)

interpretation text_starts: native_function textStartsWith
  unfolding textStartsWith_def by (rule text_test_native)

interpretation text_ends: native_function textEndsWith
  unfolding textEndsWith_def by (rule text_test_native)

interpretation text_replace: native_function textReplace
  by (rule native_functionI) (auto simp: textReplace_def intro!: native_rules vspec_checked_str runs_intros)

lemma spec_check_parts:
  "state_ok s \<Longrightarrow> N \<le> n_envs s \<Longrightarrow> E_plain E \<Longrightarrow> \<forall>v \<in> set out. val_ok (n_envs s) v \<Longrightarrow>
     vspec b N A E s (check_parts rt pos out ps) val_result"
  by (induction ps arbitrary: out) (auto intro!: native_rules vspec_ret)

lemma runs_check_parts [runs_intros]: "runs M (check_parts rt pos out ps) (check_parts rt pos out ps)"
  by (induction ps arbitrary: out) (auto intro!: runs_intros)

interpretation text_split: native_function textSplit
  by (rule native_functionI) (auto simp: textSplit_def intro!: native_rules spec_check_parts runs_intros)

lemma spec_join_items:
  "state_ok s \<Longrightarrow> N \<le> n_envs s \<Longrightarrow> E_plain E \<Longrightarrow>
     vspec b N A E s (join_items rt pos out items) (\<lambda>_ s'. s' = s)"
  by (induction items arbitrary: out) (auto intro!: native_rules vspec_ret)

lemma runs_join [runs_intros]:
  "runs M (join_items rt pos out items) (join_items rt pos out items)"
  "runs M (join_source pos v) (join_source pos v)"
proof -
  show "runs M (join_items rt pos out items) (join_items rt pos out items)"
    by (induction items arbitrary: out) (auto intro!: runs_intros)
qed (auto simp: join_source_def intro!: runs_intros split: Value.split)

lemma spec_join_source:
  "state_ok s \<Longrightarrow> N \<le> n_envs s \<Longrightarrow> E_plain E \<Longrightarrow> vspec b N A E s (join_source pos v) (\<lambda>_ s'. s' = s)"
  by (auto simp: join_source_def intro!: vspec_ret vspec_verr split: Value.split)

interpretation text_join: native_function textJoin
proof (rule native_functionI)
  fix rt :: Rt and b cv pos args and s :: Vm
  assume s: "state_ok s"
  show "vspec b (n_envs s) {} no_sig s (textJoin rt cv pos args) val_result"
    unfolding textJoin_def
    by (intro native_rules vspec_seq [OF spec_join_source] vspec_seq [OF spec_join_items])
      (use s in \<open>auto intro!: native_rules vspec_seq [OF spec_join_items] vspec_checked_str\<close>)
qed (auto simp: textJoin_def intro!: runs_intros)

section \<open>What they compute\<close>

definition str_fits :: "Rt \<Rightarrow> nat \<Rightarrow> bool" where
  "str_fits rt n \<longleftrightarrow> MaxStr (rt_lim rt) \<le> 0 \<or> int n \<le> MaxStr (rt_lim rt)"

lemma str_fits_mono: "str_fits rt n \<Longrightarrow> m \<le> n \<Longrightarrow> str_fits rt m"
  by (auto simp: str_fits_def)

lemma c_str_fits: "str_fits rt (length t) \<Longrightarrow> c_str rt pos t s = (Inr (), s)"
  by (auto simp: c_str_def vcheck_def vpure_def CheckStr_def str_fits_def)

lemma a_str_fits: "str_fits rt (length t) \<Longrightarrow> a_str rt pos (VStr t) s = (Inr t, s)"
  by (auto simp: a_str_def vpure_def strArg_def ToStr_def CheckStr_def str_fits_def)

lemma a_scalar_str: "a_scalar rt pos (VStr t) sig s = (Inr t, s)"
  by (simp add: a_scalar_def vpure_def ScalarStr_def ToStr_def)

lemmas text_runs = vbind_def vret_def a_count_ok a_str_fits c_str_fits c_list_fits checked_str_def

lemma check_parts_runs:
  "\<forall>p \<in> set ps. str_fits rt (length p) \<Longrightarrow> check_parts rt pos out ps s = (Inr (VList (out @ map VStr ps)), s)"
  by (induction ps arbitrary: out) (auto simp: text_runs)

lemma join_items_runs:
  "\<forall>p \<in> set ps. str_fits rt (length p) \<Longrightarrow> join_items rt pos out (map VStr ps) s = (Inr (out @ ps), s)"
  by (induction ps arbitrary: out) (auto simp: text_runs a_scalar_str)

text \<open>Decoding a piece of \<open>explode\<close> consumes all of it.\<close>

definition one_rune :: "string \<Rightarrow> bool" where
  "one_rune p \<longleftrightarrow> p \<noteq> [] \<and> snd (decode_rune p) = length p"

lemma explode_runes: "p \<in> set (explode s) \<Longrightarrow> one_rune p"
proof (induction s rule: explode.induct)
  case (1 s)
  show ?case
  proof (cases "s = []")
    case True
    with "1.prems" show ?thesis by (simp add: explode.simps)
  next
    case False
    note w = decode_rune_width [OF False] decode_rune_take [OF False]
    from "1.prems" False consider "p = take (snd (decode_rune s)) s"
      | "p \<in> set (explode (drop (snd (decode_rune s)) s))"
      by (subst (asm) explode.simps) auto
    then show ?thesis
    proof cases
      case 1
      then show ?thesis using w by (auto simp: one_rune_def)
    qed (rule "1.IH" [OF False])
  qed
qed

text \<open>
  Splitting a text and joining the pieces with the same separator gives the text back, whatever the
  separator. No piece holds a separator that is not empty, there is one piece only when the text
  holds none, and the empty separator cuts between the runes.
\<close>

theorem text_split_join:
  assumes "str_fits rt (length t)" "str_fits rt (length sep)" "fits rt (length (str_split t sep))"
  shows "\<exists>ps. textSplit rt cv pos [VStr t, VStr sep] s = (Inr (VList (map VStr ps)), s)
    \<and> textJoin rt cv pos [VList (map VStr ps), VStr sep] s = (Inr (VStr t), s)
    \<and> (if sep = [] then list_all one_rune ps
       else list_all (\<lambda>p. \<not> str_contains p sep) ps \<and> (length ps = 1) = (\<not> str_contains t sep))"
proof -
  have ps: "\<forall>p \<in> set (str_split t sep). str_fits rt (length p)"
    using pieces_shorter str_fits_mono [OF assms(1)] by blast
  have split: "textSplit rt cv pos [VStr t, VStr sep] s = (Inr (VList (map VStr (str_split t sep))), s)"
    using assms check_parts_runs [OF ps, of pos "[]"] by (simp add: textSplit_def text_runs)
  have join: "textJoin rt cv pos [VList (map VStr (str_split t sep)), VStr sep] s = (Inr (VStr t), s)"
    using assms join_items_runs [OF ps, of pos "[]"]
    by (simp add: textJoin_def join_source_def text_runs join_split)
  have "if sep = [] then list_all one_rune (str_split t sep)
       else list_all (\<lambda>p. \<not> str_contains p sep) (str_split t sep)
         \<and> (length (str_split t sep) = 1) = (\<not> str_contains t sep)"
    using split_one_piece [of sep t] split_seq_free [of sep] explode_runes [of _ t]
    by (simp add: list_all_iff str_split_def)
  with split join show ?thesis by blast
qed

text \<open>Splitting \<open>a--b-\<close> at \<open>-\<close>: four pieces, two of them empty.\<close>

lemma text_split_join_witness:
  "\<exists>ps. textSplit rt0 null_test zero_pos [VStr ''a--b-'', VStr ''-''] ctx1 = (Inr (VList (map VStr ps)), ctx1)
    \<and> textJoin rt0 null_test zero_pos [VList (map VStr ps), VStr ''-''] ctx1 = (Inr (VStr ''a--b-''), ctx1)"
proof -
  have "str_fits rt0 (length ''a--b-'')" "str_fits rt0 (length ''-'')" "fits rt0 (length (str_split ''a--b-'' ''-''))"
    by code_simp+
  from text_split_join [OF this, of null_test zero_pos ctx1] show ?thesis by blast
qed

text \<open>
  replacing a text that is not empty is splitting at it and joining with the replacement.
\<close>

theorem text_replace_splits:
  assumes "old \<noteq> []" "list_all (\<lambda>x. str_fits rt (length x)) [t, old, nw, str_join nw (str_split t old)]"
    "fits rt (length (str_split t old))"
  shows "\<exists>ps. textSplit rt cv pos [VStr t, VStr old] s = (Inr (VList (map VStr ps)), s)
    \<and> textReplace rt cv pos [VStr t, VStr old, VStr nw] s = textJoin rt cv pos [VList (map VStr ps), VStr nw] s"
proof -
  have ps: "\<forall>p \<in> set (str_split t old). str_fits rt (length p)"
    using pieces_shorter str_fits_mono [of rt "length t"] assms(2) by auto
  have "textSplit rt cv pos [VStr t, VStr old] s = (Inr (VList (map VStr (str_split t old))), s)"
    using assms check_parts_runs [OF ps, of pos "[]"] by (simp add: textSplit_def text_runs)
  moreover have "textReplace rt cv pos [VStr t, VStr old, VStr nw] s
      = textJoin rt cv pos [VList (map VStr (str_split t old)), VStr nw] s"
    using assms join_items_runs [OF ps, of pos "[]"]
    by (simp add: textReplace_def textJoin_def join_source_def text_runs replace_join)
  ultimately show ?thesis by blast
qed

lemma text_replace_splits_witness:
  "\<exists>ps. textSplit rt0 null_test zero_pos [VStr ''aaa'', VStr ''aa''] ctx1 = (Inr (VList (map VStr ps)), ctx1)
    \<and> textReplace rt0 null_test zero_pos [VStr ''aaa'', VStr ''aa'', VStr ''b''] ctx1
      = textJoin rt0 null_test zero_pos [VList (map VStr ps), VStr ''b''] ctx1"
proof -
  have "''aa'' \<noteq> []" "list_all (\<lambda>x. str_fits rt0 (length x)) [''aaa'', ''aa'', ''b'', str_join ''b'' (str_split ''aaa'' ''aa'')]"
    "fits rt0 (length (str_split ''aaa'' ''aa''))"
    by code_simp+
  from text_replace_splits [OF this, of null_test zero_pos ctx1] show ?thesis .
qed

text \<open>
  \<open>trim\<close> takes white space, and nothing else, off both ends: what is left starts and ends with no
  encoded white space rune, and so trimming again changes nothing.
\<close>

theorem text_trim_white:
  assumes "str_fits rt (length t)"
  shows "\<exists>r as bs. textTrim rt cv pos [VStr t] s = (Inr (VStr r), s) \<and> t = concat as @ r @ concat bs
    \<and> set (as @ bs) \<subseteq> set space_codes
    \<and> list_all (\<lambda>c. \<not> has_prefix r c \<and> \<not> has_suffix r c) space_codes
    \<and> textTrim rt cv pos [VStr r] s = (Inr (VStr r), s)"
proof -
  obtain as bs where sp: "set as \<subseteq> set space_codes" "set bs \<subseteq> set space_codes"
    "t = concat as @ trim_white t @ concat bs"
    "\<forall>c \<in> set space_codes. \<not> has_prefix (trim_white t) c \<and> \<not> has_suffix (trim_white t) c"
    using trim_white_spec [of t] by blast
  have "length (trim_white t) \<le> length t" using arg_cong [OF sp(3), of length] by simp
  then have fit: "str_fits rt (length (trim_white t))" using str_fits_mono [OF assms] by blast
  then have "textTrim rt cv pos [VStr t] s = (Inr (VStr (trim_white t)), s)"
    using assms by (simp add: textTrim_def text1_def text_runs)
  moreover have "textTrim rt cv pos [VStr (trim_white t)] s = (Inr (VStr (trim_white t)), s)"
    using fit trim_white_idem [of t] by (simp add: textTrim_def text1_def text_runs)
  ultimately show ?thesis using sp by (intro exI [of _ "trim_white t"] exI [of _ as] exI [of _ bs]) (simp add: list_all_iff)
qed

lemma text_trim_white_witness:
  "\<exists>r. textTrim rt0 null_test zero_pos [VStr '' a b '' ] ctx1 = (Inr (VStr r), ctx1)
    \<and> textTrim rt0 null_test zero_pos [VStr r] ctx1 = (Inr (VStr r), ctx1)"
proof -
  have "str_fits rt0 (length '' a b '')" by code_simp
  from text_trim_white [OF this, of null_test zero_pos ctx1] show ?thesis by blast
qed

end
