(* ===== verification/GoParse.thy ===== *)
theory GoParse
  imports GoFloat GoText
begin

text \<open>
  \<open>strconv.ParseFloat(s, 64)\<close> and \<open>strconv.ParseInt(s, 10, 64)\<close> on arbitrary texts; \<open>None\<close> is a syntax or
  a range error.
\<close>

section \<open>ParseInt\<close>

text \<open>The sign a number starts with and what follows it.\<close>

fun take_sign :: "string \<Rightarrow> bool \<times> string" where
  "take_sign [] = (False, [])"
| "take_sign (c # cs) =
     (if c = CHR ''-'' then (True, cs) else if c = CHR ''+'' then (False, cs) else (False, c # cs))"

definition is_digit :: "char \<Rightarrow> bool" where
  "is_digit c \<longleftrightarrow> in_range CHR ''0'' CHR ''9'' c"

definition parse_int :: "string \<Rightarrow> int option" where
  "parse_int s =
     (let (neg, ds) = take_sign s; n = digits_val ds; k = (if neg then - n else n) in
      if ds = [] \<or> \<not> list_all is_digit ds then None
      else if - (2 ^ 63) \<le> k \<and> k < 2 ^ 63 then Some k else None)"

section \<open>ParseFloat\<close>

definition special_float :: "string \<Rightarrow> float64 option" where
  "special_float s =
     (let l = to_lower s in
      if l \<in> {''inf'', ''+inf'', ''infinity'', ''+infinity''} then Some (Inf False)
      else if l \<in> {''-inf'', ''-infinity''} then Some (Inf True)
      else if l = ''nan'' then Some NaN else None)"

definition digit_of :: "bool \<Rightarrow> char \<Rightarrow> int option" where
  "digit_of hex c =
     (if is_digit c then Some (digit_val c)
      else if hex \<and> in_range CHR ''a'' CHR ''f'' (lower_byte c) then Some (byte_val (lower_byte c) - 87)
      else None)"

text \<open>The mantissa: its digits, how many of them follow the point, and the rest of the text.\<close>

fun scan_mant :: "bool \<Rightarrow> bool \<Rightarrow> string \<Rightarrow> int list \<times> nat \<times> string" where
  "scan_mant hex dot [] = ([], 0, [])"
| "scan_mant hex dot (c # cs) =
     (if c = CHR ''_'' then scan_mant hex dot cs
      else if c = CHR ''.'' then (if dot then ([], 0, c # cs) else scan_mant hex True cs)
      else case digit_of hex c of
        None \<Rightarrow> ([], 0, c # cs)
      | Some d \<Rightarrow> (let (ds, n, r) = scan_mant hex dot cs in (d # ds, (if dot then Suc n else n), r)))"

text \<open>The digits of an exponent; the value stops growing once it has reached 10000.\<close>

fun scan_exp :: "int \<Rightarrow> string \<Rightarrow> int \<times> string" where
  "scan_exp e [] = (e, [])"
| "scan_exp e (c # cs) =
     (if c = CHR ''_'' then scan_exp e cs
      else if is_digit c then scan_exp (if e < 10000 then e * 10 + digit_val c else e) cs
      else (e, c # cs))"

text \<open>The exponent after the mantissa; a hexadecimal number must have one.\<close>

definition read_exp :: "bool \<Rightarrow> string \<Rightarrow> (int \<times> string) option" where
  "read_exp hex r =
     (case r of
        c # r1 \<Rightarrow>
          (if lower_byte c = (if hex then CHR ''p'' else CHR ''e'') then
             (let (neg, r2) = take_sign r1; (e, r3) = scan_exp 0 r2 in
              if r2 = [] \<or> \<not> is_digit (hd r2) then None else Some (if neg then - e else e, r3))
           else if hex then None else Some (0, r))
      | [] \<Rightarrow> (if hex then None else Some (0, [])))"

text \<open>Underscores stand between digits, or between the base prefix and a digit.\<close>

fun underscores_sep :: "bool \<Rightarrow> char \<Rightarrow> string \<Rightarrow> bool" where
  "underscores_sep hex saw [] \<longleftrightarrow> saw \<noteq> CHR ''_''"
| "underscores_sep hex saw (c # cs) \<longleftrightarrow>
     (if digit_of hex c \<noteq> None then underscores_sep hex CHR ''0'' cs
      else if c = CHR ''_'' then saw = CHR ''0'' \<and> underscores_sep hex CHR ''_'' cs
      else saw \<noteq> CHR ''_'' \<and> underscores_sep hex CHR ''!'' cs)"

definition underscore_ok :: "string \<Rightarrow> bool" where
  "underscore_ok s =
     (let (_, t) = take_sign s; p = (if 2 \<le> length t \<and> t ! 0 = CHR ''0'' then lower_byte (t ! 1) else CHR '' '') in
      if p \<in> {CHR ''b'', CHR ''o'', CHR ''x''} then underscores_sep (p = CHR ''x'') CHR ''0'' (drop 2 t)
      else underscores_sep False CHR ''^'' t)"

definition scaled_value :: "bool \<Rightarrow> int \<Rightarrow> int \<Rightarrow> int \<Rightarrow> int \<Rightarrow> float64" where
  "scaled_value neg m q b e =
     (if 0 \<le> e then round_ratio neg (m * b ^ nat e) q else round_ratio neg m (q * b ^ nat (- e)))"

definition parse_float :: "string \<Rightarrow> float64 option" where
  "parse_float s =
     (case special_float s of
        Some x \<Rightarrow> Some x
      | None \<Rightarrow>
          (let (neg, t) = take_sign s;
               hex = (3 \<le> length t \<and> t ! 0 = CHR ''0'' \<and> lower_byte (t ! 1) = CHR ''x'');
               base = (if hex then 16 else 10);
               (ds, n, r) = scan_mant hex False (if hex then drop 2 t else t)
           in if ds = [] then None
              else case read_exp hex r of
                Some (e, []) \<Rightarrow>
                  (if CHR ''_'' \<in> set s \<and> \<not> underscore_ok s then None
                   else let x = scaled_value neg (foldl (\<lambda>m d. base * m + d) 0 ds) (base ^ n)
                                  (if hex then 2 else 10) e
                        in (if x \<in> {Inf False, Inf True} then None else Some x))
              | _ \<Rightarrow> None))"

section \<open>The digits of an integer\<close>

lemma digit_char_val: "0 \<le> d \<Longrightarrow> d < 10 \<Longrightarrow> is_digit (digit_char d) \<and> digit_val (digit_char d) = d"
proof -
  have "list_all (\<lambda>d. is_digit (digit_char d) \<and> digit_val (digit_char d) = d) [0..9]" by code_simp
  then show "0 \<le> d \<Longrightarrow> d < 10 \<Longrightarrow> ?thesis" by (simp add: list_all_iff)
qed

lemma int_digits_read:
  "0 \<le> n \<Longrightarrow> list_all is_digit (int_digits n) \<and> digits_val (int_digits n) = n"
proof (induction n rule: int_digits.induct)
  case (1 n)
  show ?case
  proof (cases "n < 10")
    case True
    with 1 show ?thesis using digit_char_val [of n] by (subst (1 2) int_digits.simps) (simp add: digits_val_def)
  next
    case False
    with 1 have ih: "list_all is_digit (int_digits (n div 10))" "digits_val (int_digits (n div 10)) = n div 10"
      by (simp_all add: pos_imp_zdiv_nonneg_iff)
    show ?thesis
      using False ih digit_char_val [of "n mod 10"]
      by (subst (1 2) int_digits.simps) (simp add: digits_val_def)
  qed
qed

end
