(* ===== verification/RtsStdCore.thy ===== *)
theory RtsStdCore
  imports RtsStdText GoParse
begin

text \<open>
  The functions of the standard library that need no namespace (\<open>internal/rts/stdlib/core.go\<close> and
  \<open>types.go\<close>). \<open>match\<close> takes the compiler of package \<open>regexp\<close> as a parameter; \<open>uuid\<close> is not modelled.
\<close>

section \<open>fail, len, contains, match, str\<close>

definition sigFail :: string where
  "sigFail = ''fail()''"
definition sigLen :: string where
  "sigLen = ''len(x)''"
definition sigContains :: string where
  "sigContains = ''contains(a, b)''"
definition sigMatch :: string where
  "sigMatch = ''match(pattern, text)''"
definition sigStr :: string where
  "sigStr = ''str(x)''"
definition sigNum :: string where
  "sigNum = ''num(x[, def])''"
definition sigInt :: string where
  "sigInt = ''int(x[, def])''"
definition sigBool :: string where
  "sigBool = ''bool(x[, def])''"
definition sigTypeof :: string where
  "sigTypeof = ''typeof(x)''"

definition a_tostr :: "Rt \<Rightarrow> Pos \<Rightarrow> Value \<Rightarrow> string comp" where
  "a_tostr rt pos v = vpure (\<lambda>stk. ToStr (rt_hosts rt) (rt_lim rt) stk pos v)"

definition coreFail :: NativeFunc where
  "coreFail rt cv pos args =
     (if length args = 1 then vbind (a_tostr rt pos (args ! 0)) (\<lambda>s. verr pos s)
      else if 1 < length args then verr pos (''fail('' @ int_str (int (length args)) @ '' args)'')
      else verr pos sigFail)"

definition coreLen :: NativeFunc where
  "coreLen rt cv pos args =
     vbind (a_count pos args 1 sigLen) (\<lambda>_.
       case args ! 0 of
         VStr s \<Rightarrow> vret (VNum (f_of_int (int (length s))))
       | VList xs \<Rightarrow> vret (VNum (f_of_int (int (length xs))))
       | VDict m \<Rightarrow> vret (VNum (f_of_int (int (length m))))
       | _ \<Rightarrow> verr pos (sigLen @ '' unsupported''))"

definition coreContains :: NativeFunc where
  "coreContains rt cv pos args =
     vbind (a_count pos args 2 sigContains) (\<lambda>_.
     vbind (a_tostr rt pos (args ! 1)) (\<lambda>s.
       case args ! 0 of
         VStr h \<Rightarrow> vret (VBool (str_contains h s))
       | VList xs \<Rightarrow> vret (VBool (list_ex (\<lambda>it. ValueEqual it (args ! 1)) xs))
       | VDict m \<Rightarrow> vret (VBool (map_of m s \<noteq> None))
       | _ \<Rightarrow> verr pos ''contains unsupported''))"

definition coreMatch :: "(string \<Rightarrow> (string \<Rightarrow> bool) option) \<Rightarrow> NativeFunc" where
  "coreMatch compile rt cv pos args =
     vbind (a_count pos args 2 sigMatch) (\<lambda>_.
     vbind (a_tostr rt pos (args ! 0)) (\<lambda>pat.
     vbind (a_tostr rt pos (args ! 1)) (\<lambda>txt.
       if 0 < MaxStr (rt_lim rt) \<and> int (length pat) > MaxStr (rt_lim rt) then verr pos ''pattern too long''
       else case compile pat of
         None \<Rightarrow> verr pos ''invalid regex''
       | Some re \<Rightarrow> vret (VBool (re txt)))))"

definition coreStr :: NativeFunc where
  "coreStr rt cv pos args =
     vbind (a_count pos args 1 sigStr) (\<lambda>_.
     vbind (a_tostr rt pos (args ! 0)) (\<lambda>s. vret (VStr s)))"

section \<open>typeof\<close>

fun obj_type_name :: "Hosts \<Rightarrow> Obj \<Rightarrow> string" where
  "obj_type_name h (ResultObj _ _ _) = ''result''"
| "obj_type_name h (ModObj name _) = ''module:'' @ name"
| "obj_type_name h (ObjMap name _) = name"
| "obj_type_name h (HostObj n) = hoTypeName (h n)"

fun typeName :: "Hosts \<Rightarrow> Value \<Rightarrow> string" where
  "typeName h VNull = ''null''"
| "typeName h (VBool _) = ''bool''"
| "typeName h (VNum _) = ''number''"
| "typeName h (VStr _) = ''string''"
| "typeName h (VList _) = ''list''"
| "typeName h (VDict _) = ''dict''"
| "typeName h (VFunc _) = ''function''"
| "typeName h (VNative _) = ''native''"
| "typeName h (VObj None) = ''object''"
| "typeName h (VObj (Some ob)) =
     (let name = obj_type_name h ob in if trim_white name = [] then ''object'' else name)"

definition coreTypeof :: NativeFunc where
  "coreTypeof rt cv pos args =
     vbind (a_count pos args 1 sigTypeof) (\<lambda>_. vret (VStr (typeName (rt_hosts rt) (args ! 0))))"

section \<open>num, int, bool\<close>

text \<open>The conversions answer \<open>None\<close> where the code answers false.\<close>

definition f_finite :: "float64 \<Rightarrow> bool" where
  "f_finite x \<longleftrightarrow> x \<noteq> NaN \<and> x \<noteq> Inf False \<and> x \<noteq> Inf True"

definition f_bool :: "bool \<Rightarrow> float64" where
  "f_bool b = (if b then f_of_int 1 else f_zero)"

fun numTry :: "Value \<Rightarrow> float64 option" where
  "numTry (VNum n) = (if f_finite n then Some n else None)"
| "numTry (VBool b) = Some (f_bool b)"
| "numTry (VStr t) = (let s = trim_white t in if s = [] then None else parse_float s)"
| "numTry _ = None"

fun intTry :: "Value \<Rightarrow> float64 option" where
  "intTry (VNum n) = (if f_finite n \<and> f_eq (f_trunc n) n then Some n else None)"
| "intTry (VBool b) = Some (f_bool b)"
| "intTry (VStr t) = (let s = trim_white t in if s = [] then None else map_option f_of_int (parse_int s))"
| "intTry _ = None"

text \<open>
  \<open>strings.ToLower\<close> is taken on ASCII: the only other runes it maps to ASCII become \<open>i\<close> and \<open>k\<close>, which
  no text with a boolean value holds, and an \<open>inf\<close> is refused in either spelling.
\<close>

fun boolTry :: "Value \<Rightarrow> bool option" where
  "boolTry (VBool b) = Some b"
| "boolTry (VNum n) = (if f_finite n then Some (\<not> f_eq n f_zero) else None)"
| "boolTry (VStr t) =
     (let s = to_lower (trim_white t) in
      if s = [] then None
      else if s \<in> {''true'', ''t'', ''yes'', ''y'', ''on'', ''1''} then Some True
      else if s \<in> {''false'', ''f'', ''no'', ''n'', ''off'', ''0''} then Some False
      else case parse_float s of
        Some n \<Rightarrow> (if f_finite n then Some (\<not> f_eq n f_zero) else None)
      | None \<Rightarrow> None)"
| "boolTry _ = None"

definition conv :: "string \<Rightarrow> string \<Rightarrow> (Value \<Rightarrow> 'a option) \<Rightarrow> ('a \<Rightarrow> Value) \<Rightarrow> NativeFunc" where
  "conv sig em f mk rt cv pos args =
     vbind (a_range pos args 1 2 sig) (\<lambda>_.
       case f (args ! 0) of
         Some v \<Rightarrow> vret (mk v)
       | None \<Rightarrow>
           (case (if 1 < length args then f (args ! 1) else None) of
              Some v \<Rightarrow> vret (mk v)
            | None \<Rightarrow> verr pos (sig @ '' '' @ em)))"

definition coreNum :: NativeFunc where
  "coreNum = conv sigNum ''expects number/string/bool'' numTry VNum"

definition coreInt :: NativeFunc where
  "coreInt = conv sigInt ''expects int/string/bool'' intTry VNum"

definition coreBool :: NativeFunc where
  "coreBool = conv sigBool ''expects bool/number/string'' boolTry VBool"

section \<open>Every function provides the interface\<close>

lemma bind_a_tostr:
  assumes "state_ok s" "N \<le> n_envs s" "E_plain E" "\<And>x. vspec b N A E s (f x) R"
  shows "vspec b N A E s (vbind (a_tostr rt pos v) f) R"
  unfolding a_tostr_def by (rule bind_pure) (use assms in \<open>auto dest: ToStr_plain\<close>)

lemma runs_a_tostr [runs_intros]: "runs M (a_tostr rt pos v) (a_tostr rt pos v)"
  by (simp add: a_tostr_def runs_prims)

interpretation core_fail: native_function coreFail
  by (rule native_functionI)
    (auto simp: coreFail_def intro!: bind_a_tostr vspec_verr vspec_if runs_intros)

interpretation core_len: native_function coreLen
  by (rule native_functionI)
    (auto simp: coreLen_def val_result_def intro!: native_rules vspec_ret vspec_verr runs_intros split: Value.split)

interpretation core_contains: native_function coreContains
  by (rule native_functionI)
    (auto simp: coreContains_def val_result_def intro!: native_rules bind_a_tostr vspec_ret vspec_verr runs_intros
      split: Value.split)

interpretation core_match: native_function "coreMatch compile" for compile
  by (rule native_functionI)
    (auto simp: coreMatch_def val_result_def intro!: native_rules bind_a_tostr vspec_ret vspec_verr runs_intros
      split: option.split)

interpretation core_str: native_function coreStr
  by (rule native_functionI)
    (auto simp: coreStr_def val_result_def intro!: native_rules bind_a_tostr vspec_ret runs_intros)

interpretation core_typeof: native_function coreTypeof
  by (rule native_functionI)
    (auto simp: coreTypeof_def val_result_def intro!: native_rules vspec_ret runs_intros)

lemma conv_native: "(\<And>n v. val_ok n (mk v)) \<Longrightarrow> native_function (conv sig em f mk)"
  by (rule native_functionI)
    (auto simp: conv_def val_result_def intro!: native_rules vspec_ret vspec_verr runs_intros split: option.split)

interpretation core_num: native_function coreNum
  unfolding coreNum_def by (rule conv_native) simp

interpretation core_int: native_function coreInt
  unfolding coreInt_def by (rule conv_native) simp

interpretation core_bool: native_function coreBool
  unfolding coreBool_def by (rule conv_native) simp

section \<open>What they compute\<close>

lemma a_tostr_str: "a_tostr rt pos (VStr t) s = (Inr t, s)"
  by (simp add: a_tostr_def vpure_def ToStr_def)

text \<open>
  The searching functions of the library agree with the texts they search: \<open>contains\<close> finds
  exactly the contiguous parts of a text, the members of a list up to the equality of the language, and the keys
  of a dictionary; \<open>startsWith\<close> and \<open>endsWith\<close> find exactly the parts at either end.
\<close>

theorem searches_find:
  assumes "str_fits rt (length t)" "str_fits rt (length p)"
  shows "coreContains rt cv pos [VStr t, VStr p] s = (Inr (VBool (\<exists>a b. t = a @ p @ b)), s)
    \<and> textStartsWith rt cv pos [VStr t, VStr p] s = (Inr (VBool (\<exists>b. t = p @ b)), s)
    \<and> textEndsWith rt cv pos [VStr t, VStr p] s = (Inr (VBool (\<exists>a. t = a @ p)), s)
    \<and> coreContains rt cv pos [VList xs, VStr p] s = (Inr (VBool (VStr p \<in> set xs)), s)
    \<and> coreContains rt cv pos [VDict m, VStr p] s = (Inr (VBool (p \<in> fst ` set m)), s)"
proof -
  have "ValueEqual it (VStr p) \<longleftrightarrow> it = VStr p" for it by (cases it) simp_all
  then have "list_ex (\<lambda>it. ValueEqual it (VStr p)) xs \<longleftrightarrow> VStr p \<in> set xs" by (simp add: list_ex_iff)
  then show ?thesis
    using assms
    by (simp add: coreContains_def textStartsWith_def textEndsWith_def text_test_def text_runs a_tostr_str
        str_contains_iff has_prefix_append has_suffix_append map_of_eq_None_iff)
qed

lemma searches_find_witness:
  "coreContains rt0 null_test zero_pos [VStr ''banana'', VStr ''nan''] ctx1 = (Inr (VBool True), ctx1)"
proof -
  have "str_fits rt0 (length ''banana'')" "str_fits rt0 (length ''nan'')" by code_simp+
  note c = searches_find [OF this, of null_test zero_pos ctx1 "[]" "[]"]
  have "''banana'' = ''ba'' @ ''nan'' @ ''a''" by simp
  then have "\<exists>a b. ''banana'' = a @ ''nan'' @ (b :: string)" by blast
  then show ?thesis using c by simp
qed

section \<open>Integers as text\<close>

lemma take_sign_digit: "list_all is_digit ds \<Longrightarrow> take_sign ds = (False, ds)"
proof (cases ds)
  case (Cons c cs)
  have "\<not> is_digit CHR ''-''" "\<not> is_digit CHR ''+''" by code_simp+
  then show "list_all is_digit ds \<Longrightarrow> ?thesis" using Cons by auto
qed simp

lemma parse_int_str: "parse_int (int_str n) = (if - (2 ^ 63) \<le> n \<and> n < 2 ^ 63 then Some n else None)"
proof (cases "n < 0")
  case True
  then show ?thesis using int_digits_read [of "- n"] by (auto simp: parse_int_def int_str_def Let_def)
next
  case False
  then show ?thesis
    using int_digits_read [of n] take_sign_digit [of "int_digits n"] by (auto simp: parse_int_def int_str_def Let_def)
qed

text \<open>A text that starts and ends with a printable ASCII byte has nothing to trim.\<close>

definition ascii_graph :: "char \<Rightarrow> bool" where
  "ascii_graph c \<longleftrightarrow> in_range CHR ''!'' CHR ''~'' c"

lemma white_rune_code:
  assumes "r \<in> set white_runes"
  shows "encode_rune r \<noteq> [] \<and> \<not> ascii_graph (hd (encode_rune r)) \<and> \<not> ascii_graph (last (encode_rune r))"
proof -
  have "list_all (\<lambda>r. 0 \<le> r \<and> r \<le> 32 \<or> 128 \<le> r \<and> r < 55296) white_runes" by code_simp
  then have r: "0 \<le> r \<and> r \<le> 32 \<or> 128 \<le> r \<and> r < 55296" using assms unfolding list_all_iff by blast
  have no: "byte_val c \<le> 32 \<or> 128 \<le> byte_val c \<Longrightarrow> \<not> ascii_graph c" for c
    by (auto simp: ascii_graph_def in_range_val) (simp_all add: byte_val_def)
  from r consider "0 \<le> r" "r \<le> 32" | "128 \<le> r" "r < 2048" | "2048 \<le> r" "r < 55296" by linarith
  then show ?thesis
  proof cases
    case 2
    then have "r div 64 < 32" "0 \<le> r div 64" by linarith+
    with 2 show ?thesis
      by (auto simp: encode_rune_def Let_def byte_val_chr intro!: no)
  next
    case 3
    then have "r div 4096 < 14" "0 \<le> r div 4096" by linarith+
    with 3 show ?thesis
      by (auto simp: encode_rune_def Let_def byte_val_chr intro!: no)
  qed (auto simp: encode_rune_def Let_def byte_val_chr intro!: no)
qed

lemma trim_white_graph:
  assumes "s \<noteq> []" "ascii_graph (hd s)" "ascii_graph (last s)"
  shows "trim_white s = s"
proof -
  have codes: "c \<noteq> []" "\<not> ascii_graph (hd c)" "\<not> ascii_graph (last c)" if "c \<in> set space_codes" for c
    using that white_rune_code unfolding space_codes_def by auto
  have "\<not> has_prefix s c" if "c \<in> set space_codes" for c
  proof
    assume "has_prefix s c"
    then obtain t where "s = c @ t" unfolding has_prefix_append by blast
    then have "hd s = hd c" using codes(1) [OF that] by simp
    with codes(2) [OF that] assms(2) show False by simp
  qed
  then have front: "trim_front space_codes s = s" by (intro trim_front_id) blast
  have "\<not> has_prefix (rev s) (rev c)" if "c \<in> set space_codes" for c
  proof
    assume "has_prefix (rev s) (rev c)"
    then obtain t where "s = t @ c" unfolding has_prefix_rev has_suffix_append by blast
    then have "last s = last c" using codes(1) [OF that] by simp
    with codes(3) [OF that] assms(3) show False by simp
  qed
  then have "\<forall>c \<in> set (map rev space_codes). \<not> has_prefix (rev s) c" by simp
  from trim_front_id [OF this] show ?thesis unfolding trim_white_def front by simp
qed

lemma int_str_graph: "ascii_graph (hd (int_str n)) \<and> ascii_graph (last (int_str n)) \<and> int_str n \<noteq> []"
proof -
  have g: "is_digit c \<Longrightarrow> ascii_graph c" for c
    by (auto simp: is_digit_def ascii_graph_def in_range_def intro: order_trans [rotated] order_trans)
  have "ascii_graph CHR ''-''" by code_simp
  moreover have "0 \<le> k \<Longrightarrow> ascii_graph (hd (int_digits k)) \<and> ascii_graph (last (int_digits k))" for k
    using int_digits_read [of k] g by (metis int_digits_nonempty hd_in_set last_in_set list_all_iff)
  ultimately show ?thesis by (auto simp: int_str_def)
qed

text \<open>
  C18: \<open>int\<close> reads the decimal text of every 64-bit integer: the result is the nearest number, and the
  integer itself up to 2^53; the text of a larger integer is an error, or the default if there is one.
\<close>

theorem int_reads_integers:
  assumes "intTry def = Some d"
  shows "if - (2 ^ 63) \<le> n \<and> n < 2 ^ 63
    then coreInt rt cv pos [VStr (int_str n)] s = (Inr (VNum (f_of_int n)), s) \<and> (\<bar>n\<bar> < 2 ^ 53 \<longrightarrow> f_val (f_of_int n) = of_int n)
    else (\<exists>e. coreInt rt cv pos [VStr (int_str n)] s = (Inl e, s))
      \<and> coreInt rt cv pos [VStr (int_str n), def] s = (Inr (VNum d), s)"
proof -
  have t: "intTry (VStr (int_str n)) = (if - (2 ^ 63) \<le> n \<and> n < 2 ^ 63 then Some (f_of_int n) else None)"
    using trim_white_graph int_str_graph [of n] by (simp add: parse_int_str Let_def)
  have c: "a_range pos args (Suc 0) 2 sig s = (Inr (), s)" if "length args = 1 \<or> length args = 2" for args sig
    using that by (auto simp: a_range_def vcheck_def vpure_def argCountRange_def)
  show ?thesis
    using assms f_of_int_val [of n]
    by (simp add: coreInt_def conv_def vbind_def vret_def verr_def vpure_def c t del: intTry.simps)
qed

lemma int_reads_integers_witness:
  "coreInt rt0 null_test zero_pos [VStr (int_str (2 ^ 63)), VBool True] ctx1 = (Inr (VNum (f_of_int 1)), ctx1)
    \<and> coreInt rt0 null_test zero_pos [VStr (int_str (- (2 ^ 63)))] ctx1 = (Inr (VNum (f_of_int (- (2 ^ 63)))), ctx1)"
proof -
  have d: "intTry (VBool True) = Some (f_of_int 1)" by (simp add: f_bool_def)
  show ?thesis
    using int_reads_integers [OF d, of "2 ^ 63" rt0 null_test zero_pos ctx1]
      int_reads_integers [OF d, of "- (2 ^ 63)" rt0 null_test zero_pos ctx1] by simp
qed

end
