(* ===== verification/GoEncode.thy ===== *)
theory GoEncode
  imports GoText
begin

text \<open>
  The packages \<open>encoding/hex\<close> and \<open>encoding/base64\<close>, and \<open>QueryEscape\<close> and \<open>QueryUnescape\<close> of
  \<open>net/url\<close>, on byte strings; \<open>None\<close> is a decoding error.
\<close>

section \<open>Hexadecimal\<close>

definition hex_encode :: "string \<Rightarrow> string" where
  "hex_encode s = concat (map (\<lambda>c. hex_byte (byte_val c)) s)"

definition hex_value :: "char \<Rightarrow> int option" where
  "hex_value c =
     (if in_range CHR ''0'' CHR ''9'' c then Some (byte_val c - 48)
      else if in_range CHR ''a'' CHR ''f'' c then Some (byte_val c - 87)
      else if in_range CHR ''A'' CHR ''F'' c then Some (byte_val c - 55)
      else None)"

fun hex_decode :: "string \<Rightarrow> string option" where
  "hex_decode [] = Some []"
| "hex_decode [c] = None"
| "hex_decode (c # d # s) =
     (case (hex_value c, hex_value d, hex_decode s) of
        (Some h, Some l, Some t) \<Rightarrow> Some (chr_of (16 * h + l) # t)
      | _ \<Rightarrow> None)"

lemma hex_value_digit: "0 \<le> d \<Longrightarrow> d < 16 \<Longrightarrow> hex_value (hex_digit d) = Some d"
proof -
  have "list_all (\<lambda>d. hex_value (hex_digit d) = Some d) [0..15]" by code_simp
  then show "0 \<le> d \<Longrightarrow> d < 16 \<Longrightarrow> ?thesis" by (simp add: list_all_iff)
qed

lemma hex_round: "hex_decode (hex_encode s) = Some s"
proof (induction s)
  case (Cons c s)
  have "0 \<le> byte_val c div 16" "byte_val c div 16 < 16" using byte_val_bounds [of c] by linarith+
  moreover have "byte_val c = 16 * (byte_val c div 16) + byte_val c mod 16" by simp
  ultimately show ?case
    using Cons by (simp add: hex_encode_def hex_byte_def hex_value_digit)
qed (simp add: hex_encode_def)

section \<open>Base64\<close>

text \<open>The alphabets of the standard and of the URL encoding.\<close>

definition b64_chr :: "bool \<Rightarrow> int \<Rightarrow> char" where
  "b64_chr url n =
     (if n < 26 then chr_of (65 + n)
      else if n < 52 then chr_of (71 + n)
      else if n < 62 then chr_of (n - 4)
      else if n = 62 then (if url then CHR ''-'' else CHR ''+'')
      else (if url then CHR ''_'' else CHR ''/''))"

definition b64_val :: "bool \<Rightarrow> char \<Rightarrow> int option" where
  "b64_val url c =
     (if in_range CHR ''A'' CHR ''Z'' c then Some (byte_val c - 65)
      else if in_range CHR ''a'' CHR ''z'' c then Some (byte_val c - 71)
      else if in_range CHR ''0'' CHR ''9'' c then Some (byte_val c + 4)
      else if c = (if url then CHR ''-'' else CHR ''+'') then Some 62
      else if c = (if url then CHR ''_'' else CHR ''/'') then Some 63
      else None)"

fun b64_encode :: "bool \<Rightarrow> bool \<Rightarrow> string \<Rightarrow> string" where
  "b64_encode url pad [] = []"
| "b64_encode url pad [a] =
     (let x = byte_val a in
      [b64_chr url (x div 4), b64_chr url (x mod 4 * 16)] @ (if pad then ''=='' else []))"
| "b64_encode url pad [a, b] =
     (let x = byte_val a; y = byte_val b in
      [b64_chr url (x div 4), b64_chr url (x mod 4 * 16 + y div 16), b64_chr url (y mod 16 * 4)]
      @ (if pad then ''='' else []))"
| "b64_encode url pad (a # b # c # s) =
     (let x = byte_val a; y = byte_val b; z = byte_val c in
      [b64_chr url (x div 4), b64_chr url (x mod 4 * 16 + y div 16),
       b64_chr url (y mod 16 * 4 + z div 64), b64_chr url (z mod 64)] @ b64_encode url pad s)"

definition byte1 :: "int \<Rightarrow> int \<Rightarrow> char" where
  "byte1 p q = chr_of (p * 4 + q div 16)"

definition byte2 :: "int \<Rightarrow> int \<Rightarrow> char" where
  "byte2 q r = chr_of (q mod 16 * 16 + r div 4)"

definition byte3 :: "int \<Rightarrow> int \<Rightarrow> char" where
  "byte3 r s = chr_of (r mod 4 * 64 + s)"

text \<open>
  Decoding without line breaks. The bits left over in a short last group are ignored, as the
  encodings in use are not strict; with padding the last group is complete.
\<close>

fun b64_groups :: "bool \<Rightarrow> bool \<Rightarrow> string \<Rightarrow> string option" where
  "b64_groups url pad [] = Some []"
| "b64_groups url pad [a] = None"
| "b64_groups url pad [a, b] =
     (case (pad, b64_val url a, b64_val url b) of
        (False, Some p, Some q) \<Rightarrow> Some [byte1 p q]
      | _ \<Rightarrow> None)"
| "b64_groups url pad [a, b, c] =
     (case (pad, b64_val url a, b64_val url b, b64_val url c) of
        (False, Some p, Some q, Some r) \<Rightarrow> Some [byte1 p q, byte2 q r]
      | _ \<Rightarrow> None)"
| "b64_groups url pad (a # b # c # d # s) =
     (case (b64_val url a, b64_val url b) of
        (Some p, Some q) \<Rightarrow>
          (case (b64_val url c, b64_val url d) of
             (Some r, Some t) \<Rightarrow>
               map_option (\<lambda>u. byte1 p q # byte2 q r # byte3 r t # u) (b64_groups url pad s)
           | (Some r, None) \<Rightarrow> (if pad \<and> d = CHR ''='' \<and> s = [] then Some [byte1 p q, byte2 q r] else None)
           | (None, _) \<Rightarrow> (if pad \<and> c = CHR ''='' \<and> d = CHR ''='' \<and> s = [] then Some [byte1 p q] else None))
      | _ \<Rightarrow> None)"

text \<open>\<open>DecodeString\<close>: line breaks are skipped wherever they stand.\<close>

definition b64_decode :: "bool \<Rightarrow> bool \<Rightarrow> string \<Rightarrow> string option" where
  "b64_decode url pad s = b64_groups url pad (filter (\<lambda>c. c \<noteq> CHR 0x0A \<and> c \<noteq> CHR 0x0D) s)"

lemma b64_facts:
  assumes "0 \<le> n" "n < 64"
  shows "b64_val url (b64_chr url n) = Some n" "b64_chr url n \<noteq> CHR 0x0A" "b64_chr url n \<noteq> CHR 0x0D"
proof -
  consider "n < 26" | "26 \<le> n" "n < 52" | "52 \<le> n" "n < 62" | "n = 62" | "n = 63" using assms(2) by linarith
  then have "b64_val url (b64_chr url n) = Some n \<and> 13 < byte_val (b64_chr url n)"
  proof cases
    case 1
    then show ?thesis using assms by (simp add: b64_val_def b64_chr_def in_range_val byte_val_chr) (simp add: byte_val_def)
  next
    case 2
    then show ?thesis by (simp add: b64_val_def b64_chr_def in_range_val byte_val_chr) (simp add: byte_val_def)
  next
    case 3
    then show ?thesis by (simp add: b64_val_def b64_chr_def in_range_val byte_val_chr) (simp add: byte_val_def)
  qed (simp_all add: b64_val_def b64_chr_def in_range_val, simp_all add: byte_val_def)
  moreover have "byte_val CHR 0x0A \<le> 13" "byte_val CHR 0x0D \<le> 13" by (simp_all add: byte_val_def)
  ultimately show "b64_val url (b64_chr url n) = Some n" "b64_chr url n \<noteq> CHR 0x0A" "b64_chr url n \<noteq> CHR 0x0D"
    by auto
qed

lemma digit_pair:
  fixes a b n :: int
  assumes "0 \<le> b" "b < n"
  shows "(a * n + b) div n = a" "(a * n + b) mod n = b"
  using assms by simp_all

lemma byte_parts:
  "0 \<le> byte_val x div 16" "byte_val x div 16 < 16" "0 \<le> byte_val x div 64" "byte_val x div 64 < 4"
  "0 \<le> byte_val x div 4" "byte_val x div 4 < 64"
  using byte_val_bounds [of x] by linarith+

text \<open>The three bytes of a group from its four digits.\<close>

lemma group_bytes:
  "byte1 (byte_val a div 4) (byte_val a mod 4 * 16 + byte_val b div 16) = a"
  "byte1 (byte_val a div 4) (byte_val a mod 4 * 16) = a"
  "byte2 (byte_val a mod 4 * 16 + byte_val b div 16) (byte_val b mod 16 * 4 + byte_val c div 64) = b"
  "byte2 (byte_val a mod 4 * 16 + byte_val b div 16) (byte_val b mod 16 * 4) = b"
  "byte3 (byte_val b mod 16 * 4 + byte_val c div 64) (byte_val c mod 64) = c"
proof -
  note p = digit_pair [OF byte_parts(1,2)] digit_pair [OF byte_parts(3,4)]
  have z: "x * 16 div 16 = x" "y * 4 div 4 = y" for x y :: int by simp_all
  show "byte1 (byte_val a div 4) (byte_val a mod 4 * 16 + byte_val b div 16) = a"
    "byte1 (byte_val a div 4) (byte_val a mod 4 * 16) = a"
    "byte2 (byte_val a mod 4 * 16 + byte_val b div 16) (byte_val b mod 16 * 4 + byte_val c div 64) = b"
    "byte2 (byte_val a mod 4 * 16 + byte_val b div 16) (byte_val b mod 16 * 4) = b"
    "byte3 (byte_val b mod 16 * 4 + byte_val c div 64) (byte_val c mod 64) = c"
    unfolding byte1_def byte2_def byte3_def p z div_mult_mod_eq by (rule byte_of_val)+
qed

lemma pair_range:
  fixes u v :: int
  assumes "0 \<le> u" "u < m" "0 \<le> v" "v < k"
  shows "0 \<le> u * k + v" "u * k + v < m * k"
proof -
  show "0 \<le> u * k + v" using assms by simp
  have "u * k + v < u * k + k" using assms by simp
  also have "\<dots> = (u + 1) * k" by (simp add: algebra_simps)
  also have "\<dots> \<le> m * k" using assms by (intro mult_right_mono) simp_all
  finally show "u * k + v < m * k" .
qed

lemma group_digits:
  "0 \<le> byte_val a div 4" "byte_val a div 4 < 64"
  "0 \<le> byte_val a mod 4 * 16" "byte_val a mod 4 * 16 < 64"
  "0 \<le> byte_val a mod 4 * 16 + byte_val b div 16" "byte_val a mod 4 * 16 + byte_val b div 16 < 64"
  "0 \<le> byte_val b mod 16 * 4" "byte_val b mod 16 * 4 < 64"
  "0 \<le> byte_val b mod 16 * 4 + byte_val c div 64" "byte_val b mod 16 * 4 + byte_val c div 64 < 64"
  "0 \<le> byte_val c mod 64" "byte_val c mod 64 < 64"
proof -
  have m: "0 \<le> x mod 4" "x mod 4 < 4" "0 \<le> x mod 16" "x mod 16 < 16" for x :: int by simp_all
  show "0 \<le> byte_val a mod 4 * 16 + byte_val b div 16" "byte_val a mod 4 * 16 + byte_val b div 16 < 64"
    using pair_range [OF m(1,2) byte_parts(1,2)] by simp_all
  show "0 \<le> byte_val b mod 16 * 4 + byte_val c div 64" "byte_val b mod 16 * 4 + byte_val c div 64 < 64"
    using pair_range [OF m(3,4) byte_parts(3,4)] by simp_all
  show "0 \<le> byte_val a mod 4 * 16" "byte_val a mod 4 * 16 < 64"
    using pair_range [OF m(1,2), of 0 16 "byte_val a"] by simp_all
  show "0 \<le> byte_val b mod 16 * 4" "byte_val b mod 16 * 4 < 64"
    using pair_range [OF m(3,4), of 0 4 "byte_val b"] by simp_all
qed (simp_all add: byte_parts)

lemma equals_no_digit: "b64_val True CHR ''='' = None" "b64_val False CHR ''='' = None"
  by code_simp+

lemmas b64_group = b64_facts(1) [OF group_digits(1,2)] b64_facts(1) [OF group_digits(3,4)]
  b64_facts(1) [OF group_digits(5,6)] b64_facts(1) [OF group_digits(7,8)]
  b64_facts(1) [OF group_digits(9,10)] b64_facts(1) [OF group_digits(11,12)]

lemma b64_groups_round: "b64_groups url pad (b64_encode url pad s) = Some s"
proof (induction url pad s rule: b64_encode.induct)
  case (4 url pad a b c s)
  then show ?case by (simp add: Let_def b64_group group_bytes)
next
  case (2 url pad a)
  then show ?case
    using equals_no_digit by (cases url; cases pad) (simp_all add: Let_def b64_group group_bytes)
next
  case (3 url pad a b)
  then show ?case
    using equals_no_digit by (cases url; cases pad) (simp_all add: Let_def b64_group group_bytes)
qed simp

lemma b64_no_break: "filter (\<lambda>c. c \<noteq> CHR 0x0A \<and> c \<noteq> CHR 0x0D) (b64_encode url pad s) = b64_encode url pad s"
proof -
  note ds = b64_facts(2,3) [OF group_digits(1,2)] b64_facts(2,3) [OF group_digits(3,4)]
    b64_facts(2,3) [OF group_digits(5,6)] b64_facts(2,3) [OF group_digits(7,8)]
    b64_facts(2,3) [OF group_digits(9,10)] b64_facts(2,3) [OF group_digits(11,12)]
  show ?thesis
    by (induction url pad s rule: b64_encode.induct) (auto simp: Let_def ds)
qed

lemma b64_round: "b64_decode url pad (b64_encode url pad s) = Some s"
  by (simp add: b64_decode_def b64_no_break b64_groups_round)

text \<open>The decoder without padding rejects a padded text or reads the same bytes.\<close>

lemma padded_or_same: "b64_decode url False (b64_encode url True s) = None \<or> b64_decode url False (b64_encode url True s) = Some s"
proof -
  have "b64_groups url False (b64_encode url True s) = None \<or> b64_groups url False (b64_encode url True s) = Some s"
  proof (induction url True s rule: b64_encode.induct)
    case (4 url a b c s)
    then show ?case by (auto simp: Let_def b64_group group_bytes)
  next
    case (2 url a)
    then show ?case using equals_no_digit by (cases url) (simp_all add: Let_def b64_group)
  next
    case (3 url a b)
    then show ?case using equals_no_digit by (cases url) (simp_all add: Let_def b64_group)
  qed simp
  then show ?thesis by (simp add: b64_decode_def b64_no_break)
qed

section \<open>Query escaping\<close>

definition url_safe :: "char \<Rightarrow> bool" where
  "url_safe c \<longleftrightarrow> in_range CHR ''a'' CHR ''z'' c \<or> in_range CHR ''A'' CHR ''Z'' c \<or> in_range CHR ''0'' CHR ''9'' c
     \<or> c \<in> {CHR ''-'', CHR ''_'', CHR ''.'', CHR ''~''}"

definition upper_hex :: "int \<Rightarrow> char" where
  "upper_hex d = (if d < 10 then chr_of (48 + d) else chr_of (55 + d))"

definition query_escape :: "string \<Rightarrow> string" where
  "query_escape s = concat (map (\<lambda>c.
     if url_safe c then [c]
     else if c = CHR '' '' then ''+''
     else [CHR ''%'', upper_hex (byte_val c div 16), upper_hex (byte_val c mod 16)]) s)"

fun query_unescape :: "string \<Rightarrow> string option" where
  "query_unescape [] = Some []"
| "query_unescape (c # s) =
     (if c = CHR ''%'' then
        (case s of
           h # l # t \<Rightarrow>
             (case (hex_value h, hex_value l) of
                (Some x, Some y) \<Rightarrow> map_option (\<lambda>u. chr_of (16 * x + y) # u) (query_unescape t)
              | _ \<Rightarrow> None)
         | _ \<Rightarrow> None)
      else map_option (\<lambda>u. (if c = CHR ''+'' then CHR '' '' else c) # u) (query_unescape s))"

lemma upper_hex_value: "0 \<le> d \<Longrightarrow> d < 16 \<Longrightarrow> hex_value (upper_hex d) = Some d"
proof -
  have "list_all (\<lambda>d. hex_value (upper_hex d) = Some d) [0..15]" by code_simp
  then show "0 \<le> d \<Longrightarrow> d < 16 \<Longrightarrow> ?thesis" by (simp add: list_all_iff)
qed

lemma query_round: "query_unescape (query_escape s) = Some s"
proof (induction s)
  case (Cons c s)
  have "0 \<le> byte_val c div 16" "byte_val c div 16 < 16" using byte_val_bounds [of c] by linarith+
  moreover have "16 * (byte_val c div 16) + byte_val c mod 16 = byte_val c" by simp
  moreover have "\<not> url_safe CHR ''%''" "\<not> url_safe CHR ''+''" by code_simp+
  ultimately show ?case
    using Cons by (auto simp: query_escape_def upper_hex_value)
qed (simp add: query_escape_def)

end
