(* ===== verification/RtsStdEncode.thy ===== *)
theory RtsStdEncode
  imports RtsStdCore GoEncode
begin

text \<open>
  The namespaces \<open>base64\<close>, \<open>url\<close>, \<open>encoding.hex\<close> and \<open>encoding.base64url\<close> of the standard library
  (\<open>internal/rts/stdlib/base64.go\<close>, \<open>url.go\<close>, \<open>encoding.go\<close>).
\<close>

section \<open>The natives\<close>

definition sigBase64Encode :: string where
  "sigBase64Encode = ''base64.encode(x)''"
definition sigBase64Decode :: string where
  "sigBase64Decode = ''base64.decode(x)''"
definition sigURLEncode :: string where
  "sigURLEncode = ''url.encode(x)''"
definition sigURLDecode :: string where
  "sigURLDecode = ''url.decode(x)''"
definition sigEncodingHexEncode :: string where
  "sigEncodingHexEncode = ''encoding.hex.encode(text)''"
definition sigEncodingHexDecode :: string where
  "sigEncodingHexDecode = ''encoding.hex.decode(text)''"
definition sigEncodingBase64URLEncode :: string where
  "sigEncodingBase64URLEncode = ''encoding.base64url.encode(text)''"
definition sigEncodingBase64URLDecode :: string where
  "sigEncodingBase64URLDecode = ''encoding.base64url.decode(text)''"

text \<open>The shape of the functions that leave the limit to the evaluator.\<close>

definition base64Encode :: NativeFunc where
  "base64Encode rt cv pos args =
     vbind (a_count pos args 1 sigBase64Encode) (\<lambda>_.
     vbind (a_tostr rt pos (args ! 0)) (\<lambda>s. vret (VStr (b64_encode False True s))))"

definition base64Decode :: NativeFunc where
  "base64Decode rt cv pos args =
     vbind (a_count pos args 1 sigBase64Decode) (\<lambda>_.
     vbind (a_tostr rt pos (args ! 0)) (\<lambda>s.
       case b64_decode False True s of
         None \<Rightarrow> verr pos ''base64 decode failed''
       | Some b \<Rightarrow> vret (VStr b)))"

definition urlEncode :: NativeFunc where
  "urlEncode rt cv pos args =
     vbind (a_count pos args 1 sigURLEncode) (\<lambda>_.
     vbind (a_tostr rt pos (args ! 0)) (\<lambda>s. vret (VStr (query_escape s))))"

definition urlDecode :: NativeFunc where
  "urlDecode rt cv pos args =
     vbind (a_count pos args 1 sigURLDecode) (\<lambda>_.
     vbind (a_tostr rt pos (args ! 0)) (\<lambda>s.
       case query_unescape s of
         None \<Rightarrow> verr pos ''url decode failed''
       | Some b \<Rightarrow> vret (VStr b)))"

text \<open>The functions of \<open>encoding\<close> check the length of argument and result.\<close>

definition hexVal :: "Rt \<Rightarrow> Pos \<Rightarrow> string \<Rightarrow> Value comp" where
  "hexVal rt pos b = checked_str rt pos (hex_encode b)"

definition encodingHexEncode :: NativeFunc where
  "encodingHexEncode rt cv pos args =
     vbind (a_count pos args 1 sigEncodingHexEncode) (\<lambda>_.
     vbind (a_str rt pos (args ! 0)) (\<lambda>s. hexVal rt pos s))"

definition encodingHexDecode :: NativeFunc where
  "encodingHexDecode rt cv pos args =
     vbind (a_count pos args 1 sigEncodingHexDecode) (\<lambda>_.
     vbind (a_str rt pos (args ! 0)) (\<lambda>s.
       case hex_decode s of
         None \<Rightarrow> verr pos ''hex decode failed''
       | Some b \<Rightarrow> checked_str rt pos b))"

definition encodingBase64urlEncode :: NativeFunc where
  "encodingBase64urlEncode rt cv pos args =
     vbind (a_count pos args 1 sigEncodingBase64URLEncode) (\<lambda>_.
     vbind (a_str rt pos (args ! 0)) (\<lambda>s. checked_str rt pos (b64_encode True False s)))"

definition b64URLDec :: "string \<Rightarrow> string option" where
  "b64URLDec s = (case b64_decode True False s of Some b \<Rightarrow> Some b | None \<Rightarrow> b64_decode True True s)"

definition encodingBase64urlDecode :: NativeFunc where
  "encodingBase64urlDecode rt cv pos args =
     vbind (a_count pos args 1 sigEncodingBase64URLDecode) (\<lambda>_.
     vbind (a_str rt pos (args ! 0)) (\<lambda>s.
       case b64URLDec s of
         None \<Rightarrow> verr pos ''base64url decode failed''
       | Some b \<Rightarrow> checked_str rt pos b))"

section \<open>Every function provides the interface\<close>

lemmas encode_native = native_rules bind_a_tostr vspec_ret vspec_verr vspec_checked_str runs_intros

interpretation base64_encode: native_function base64Encode
  by (rule native_functionI) (auto simp: base64Encode_def val_result_def intro!: encode_native)

interpretation base64_decode: native_function base64Decode
  by (rule native_functionI) (auto simp: base64Decode_def val_result_def intro!: encode_native split: option.split)

interpretation url_encode: native_function urlEncode
  by (rule native_functionI) (auto simp: urlEncode_def val_result_def intro!: encode_native)

interpretation url_decode: native_function urlDecode
  by (rule native_functionI) (auto simp: urlDecode_def val_result_def intro!: encode_native split: option.split)

interpretation hex_enc: native_function encodingHexEncode
  by (rule native_functionI) (auto simp: encodingHexEncode_def hexVal_def intro!: encode_native)

interpretation hex_dec: native_function encodingHexDecode
  by (rule native_functionI) (auto simp: encodingHexDecode_def intro!: encode_native split: option.split)

interpretation base64url_enc: native_function encodingBase64urlEncode
  by (rule native_functionI) (auto simp: encodingBase64urlEncode_def intro!: encode_native)

interpretation base64url_dec: native_function encodingBase64urlDecode
  by (rule native_functionI) (auto simp: encodingBase64urlDecode_def intro!: encode_native split: option.split)

section \<open>Round trips\<close>

lemmas encode_runs = text_runs a_tostr_str hexVal_def

text \<open>
  C13: every byte string, valid text or not, that is within the limit on strings together with its hexadecimal and its
  Base64url forms is read back from its hexadecimal, Base64, Base64url and query form by the matching decoder; the
  Base64url decoder reads the padded form as well.
\<close>

theorem encodings_read_back:
  assumes "list_all (\<lambda>x. str_fits rt (length x)) [t, hex_encode t, b64_encode True False t, b64_encode True True t]"
  shows "(\<exists>e. base64Encode rt cv pos [VStr t] s = (Inr (VStr e), s) \<and> base64Decode rt cv pos [VStr e] s = (Inr (VStr t), s))
    \<and> (\<exists>e. urlEncode rt cv pos [VStr t] s = (Inr (VStr e), s) \<and> urlDecode rt cv pos [VStr e] s = (Inr (VStr t), s))
    \<and> (\<exists>e. encodingHexEncode rt cv pos [VStr t] s = (Inr (VStr e), s)
        \<and> encodingHexDecode rt cv pos [VStr e] s = (Inr (VStr t), s))
    \<and> (\<exists>e. encodingBase64urlEncode rt cv pos [VStr t] s = (Inr (VStr e), s)
        \<and> encodingBase64urlDecode rt cv pos [VStr e] s = (Inr (VStr t), s))
    \<and> encodingBase64urlDecode rt cv pos [VStr (b64_encode True True t)] s = (Inr (VStr t), s)"
proof -
  have "b64URLDec (b64_encode True False t) = Some t" by (simp add: b64URLDec_def b64_round)
  moreover have "b64URLDec (b64_encode True True t) = Some t"
    using padded_or_same [of True t] by (auto simp: b64URLDec_def b64_round)
  ultimately show ?thesis
    using assms
    by (simp add: base64Encode_def base64Decode_def urlEncode_def urlDecode_def encodingHexEncode_def encodingHexDecode_def
        encodingBase64urlEncode_def encodingBase64urlDecode_def encode_runs b64_round query_round hex_round)
qed

lemma encodings_read_back_witness:
  "\<exists>e. urlEncode rt0 null_test zero_pos [VStr ''a b&c%''] ctx1 = (Inr (VStr e), ctx1)
    \<and> urlDecode rt0 null_test zero_pos [VStr e] ctx1 = (Inr (VStr ''a b&c%''), ctx1)"
proof -
  have "list_all (\<lambda>x. str_fits rt0 (length x))
    [''a b&c%'', hex_encode ''a b&c%'', b64_encode True False ''a b&c%'', b64_encode True True ''a b&c%'']"
    by code_simp
  from encodings_read_back [OF this, of null_test zero_pos ctx1] show ?thesis by blast
qed

end
