(* ===== verification/RtsStdlib.thy ===== *)
theory RtsStdlib
  imports RtsStdDict RtsStdMath RtsStdEncode
begin

text \<open>
  The standard library as a whole (\<open>internal/rts/stdlib/stdlib.go\<close>): the prelude \<open>New\<close> builds, and the table
  of natives behind the names it binds. The natives that are not modelled are a parameter.
\<close>

section \<open>The prelude\<close>

definition coreSpec :: "string list" where
  "coreSpec = [''fail'', ''len'', ''contains'', ''match'', ''str'', ''num'', ''int'', ''bool'', ''typeof'', ''uuid'']"

record nsSpec =
  nsName :: string
  nsTop :: bool
  nsFns :: "string list"

definition rtsNamespaces :: "nsSpec list" where
  "rtsNamespaces =
     [\<lparr>nsName = ''crypto'', nsTop = True, nsFns = [''sha256'', ''hmacSha256'']\<rparr>,
      \<lparr>nsName = ''base64'', nsTop = True, nsFns = [''encode'', ''decode'']\<rparr>,
      \<lparr>nsName = ''url'', nsTop = True, nsFns = [''encode'', ''decode'']\<rparr>,
      \<lparr>nsName = ''time'', nsTop = True, nsFns = [''nowISO'', ''nowUnix'', ''nowUnixString'', ''nowUnixMs'',
         ''format'', ''parse'', ''formatUnix'', ''addUnix'', ''duration'']\<rparr>,
      \<lparr>nsName = ''json'', nsTop = True, nsFns = [''file'', ''parse'', ''stringify'', ''get'', ''has'']\<rparr>,
      \<lparr>nsName = ''headers'', nsTop = True, nsFns = [''get'', ''has'', ''set'', ''remove'', ''merge'', ''normalize'']\<rparr>,
      \<lparr>nsName = ''query'', nsTop = True, nsFns = [''parse'', ''fromURL'', ''encode'', ''merge'']\<rparr>,
      \<lparr>nsName = ''text'', nsTop = False, nsFns = [''lower'', ''upper'', ''trim'', ''split'', ''join'', ''replace'',
         ''startsWith'', ''endsWith'']\<rparr>,
      \<lparr>nsName = ''list'', nsTop = False, nsFns = [''append'', ''concat'', ''sort'', ''map'', ''filter'', ''any'',
         ''all'', ''slice'', ''unique'']\<rparr>,
      \<lparr>nsName = ''dict'', nsTop = False, nsFns = [''keys'', ''values'', ''items'', ''set'', ''merge'', ''remove'',
         ''get'', ''has'', ''pick'', ''omit'']\<rparr>,
      \<lparr>nsName = ''math'', nsTop = False, nsFns = [''abs'', ''min'', ''max'', ''clamp'', ''floor'', ''ceil'', ''round'']\<rparr>]"

definition mkFns :: "string \<Rightarrow> string list \<Rightarrow> Value smap" where
  "mkFns pre fns =
     foldl (\<lambda>m k. smap_put k (VNative (Some (if pre = [] then k else pre @ ''.'' @ k))) m) [] fns"

definition mkObj :: "string \<Rightarrow> string list \<Rightarrow> Value" where
  "mkObj name fns = VObj (Some (ObjMap name (mkFns name fns)))"

definition mkEncObj :: Value where
  "mkEncObj = VObj (Some (ObjMap ''encoding''
     [(''base64url'', mkObj ''encoding.base64url'' [''encode'', ''decode'']),
      (''hex'', mkObj ''encoding.hex'' [''encode'', ''decode''])]))"

definition addVals :: "Value smap \<Rightarrow> Value smap \<Rightarrow> Value smap" where
  "addVals dst src = smap_copy dst src"

definition ns_object :: "nsSpec \<Rightarrow> Value" where
  "ns_object s = mkObj (nsName s) (nsFns s)"

definition New :: "Value smap" where
  "New =
     (let core = mkFns [] coreSpec;
          out1 = foldl (\<lambda>m s. if nsTop s then smap_put (nsName s) (ns_object s) m else m) (addVals [] core) rtsNamespaces;
          root1 = foldl (\<lambda>m s. smap_put (nsName s) (ns_object s) m) (addVals [] core) rtsNamespaces;
          root = smap_put ''encoding'' mkEncObj root1
      in smap_put ''stdlib'' (VObj (Some (ObjMap ''stdlib'' root)))
           (smap_put ''rts'' (VObj (Some (ObjMap ''rts'' root)))
             (smap_put ''encoding'' mkEncObj out1)))"

section \<open>The natives behind the names\<close>

text \<open>What the library takes from elsewhere: case mapping, regular expressions, and the other natives.\<close>

record StdExt =
  xLower :: "string \<Rightarrow> string"
  xUpper :: "string \<Rightarrow> string"
  xRegexp :: "string \<Rightarrow> (string \<Rightarrow> bool) option"
  xOther :: "string \<Rightarrow> NativeFunc option"

definition std_table :: "StdExt \<Rightarrow> (string \<times> NativeFunc) list" where
  "std_table x =
     [(''fail'', coreFail), (''len'', coreLen), (''contains'', coreContains), (''match'', coreMatch (xRegexp x)),
      (''str'', coreStr), (''num'', coreNum), (''int'', coreInt), (''bool'', coreBool), (''typeof'', coreTypeof),
      (''base64.encode'', base64Encode), (''base64.decode'', base64Decode),
      (''url.encode'', urlEncode), (''url.decode'', urlDecode),
      (''encoding.hex.encode'', encodingHexEncode), (''encoding.hex.decode'', encodingHexDecode),
      (''encoding.base64url.encode'', encodingBase64urlEncode), (''encoding.base64url.decode'', encodingBase64urlDecode),
      (''text.lower'', textLower (xLower x)), (''text.upper'', textUpper (xUpper x)), (''text.trim'', textTrim),
      (''text.split'', textSplit), (''text.join'', textJoin), (''text.replace'', textReplace),
      (''text.startsWith'', textStartsWith), (''text.endsWith'', textEndsWith),
      (''list.append'', listAppend), (''list.concat'', listConcat), (''list.sort'', listSort), (''list.map'', listMap),
      (''list.filter'', listFilter), (''list.any'', listAny), (''list.all'', listAll), (''list.slice'', listSlice),
      (''list.unique'', listUnique),
      (''dict.keys'', dictKeys), (''dict.values'', dictValues), (''dict.items'', dictItems), (''dict.set'', dictSet),
      (''dict.merge'', dictMerge), (''dict.remove'', dictRemove), (''dict.get'', dictGet), (''dict.has'', dictHas),
      (''dict.pick'', dictPick), (''dict.omit'', dictOmit),
      (''math.abs'', mathAbs), (''math.min'', mathMin), (''math.max'', mathMax), (''math.clamp'', mathClamp),
      (''math.floor'', mathFloor), (''math.ceil'', mathCeil), (''math.round'', mathRound)]"

definition std_native :: "StdExt \<Rightarrow> string \<Rightarrow> NativeFunc option" where
  "std_native x name =
     map_option (NativeNamed name) (case map_of (std_table x) name of Some f \<Rightarrow> Some f | None \<Rightarrow> xOther x name)"

definition std_cfg :: "StdExt \<Rightarrow> Rt \<Rightarrow> Cfg" where
  "std_cfg x rt = \<lparr>cf_rt = rt, cf_native = std_native x\<rparr>"

lemmas std_natives =
  core_fail.native_function_axioms core_len.native_function_axioms core_contains.native_function_axioms
  core_match.native_function_axioms core_str.native_function_axioms core_num.native_function_axioms
  core_int.native_function_axioms core_bool.native_function_axioms core_typeof.native_function_axioms
  base64_encode.native_function_axioms base64_decode.native_function_axioms url_encode.native_function_axioms
  url_decode.native_function_axioms hex_enc.native_function_axioms hex_dec.native_function_axioms
  base64url_enc.native_function_axioms base64url_dec.native_function_axioms text_lower.native_function_axioms
  text_upper.native_function_axioms text_trim.native_function_axioms text_split.native_function_axioms
  text_join.native_function_axioms text_replace.native_function_axioms text_starts.native_function_axioms
  text_ends.native_function_axioms list_append.native_function_axioms list_concat.native_function_axioms
  list_sort.native_function_axioms list_map.native_function_axioms list_filter.native_function_axioms
  list_any.native_function_axioms list_all.native_function_axioms list_slice.native_function_axioms
  list_unique.native_function_axioms dict_keys.native_function_axioms dict_values.native_function_axioms
  dict_items.native_function_axioms dict_set.native_function_axioms dict_merge.native_function_axioms
  dict_remove.native_function_axioms dict_get.native_function_axioms dict_has.native_function_axioms
  dict_pick.native_function_axioms dict_omit.native_function_axioms math_abs.native_function_axioms
  math_min.native_function_axioms math_max.native_function_axioms math_clamp.native_function_axioms
  math_floor.native_function_axioms math_ceil.native_function_axioms math_round.native_function_axioms

text \<open>Every entry of the table provides the interface of a native.\<close>

lemma std_table_native: "(name, f) \<in> set (std_table x) \<Longrightarrow> native_function f"
  unfolding std_table_def set_simps insert_iff prod.inject empty_iff
  by (elim disjE conjE; simp add: std_natives)

lemma std_cfg_ok:
  assumes "hosts_ok (rt_hosts rt)" "\<And>name f. xOther x name = Some f \<Longrightarrow> native_function f"
  shows "cfg_ok (std_cfg x rt)" "natives_run (std_cfg x rt)"
proof -
  have nf: "native_function f" if "map_of (std_table x) name = Some f \<or> xOther x name = Some f" for name f
    using that std_table_native assms(2) by (blast dest: map_of_SomeD)
  have "native_ok rt f \<and> native_runs rt f" if "std_native x name = Some f" for name f
  proof -
    from that obtain g where "f = NativeNamed name g" "map_of (std_table x) name = Some g \<or> xOther x name = Some g"
      by (auto simp: std_native_def split: option.splits)
    with nf show ?thesis using native_function.named_ok native_function.named_runs by blast
  qed
  then show "cfg_ok (std_cfg x rt)" "natives_run (std_cfg x rt)"
    using assms(1) by (auto simp: cfg_ok_def natives_run_def std_cfg_def)
qed

text \<open>The prelude is a canonical map and refers to no environment.\<close>

definition map_fit :: "nat \<Rightarrow> Value smap \<Rightarrow> bool" where
  "map_fit n m \<longleftrightarrow> smap_ok m \<and> vals_ok n m"

lemma map_fit_put: "map_fit n m \<Longrightarrow> val_ok n v \<Longrightarrow> map_fit n (smap_put k v m)"
  using smap_ok_put [of m k v] set_smap_put [of k v m] by (fastforce simp: map_fit_def vals_ok_def list_all_iff)

lemma foldl_keeps: "P a \<Longrightarrow> (\<And>a x. P a \<Longrightarrow> x \<in> set xs \<Longrightarrow> P (f a x)) \<Longrightarrow> P (foldl f a xs)"
  by (induction xs arbitrary: a) simp_all

lemma map_fit_nil [simp]: "map_fit n []"
  by (simp add: map_fit_def vals_ok_def)

lemma mkFns_fit: "map_fit n (mkFns pre fns)"
  unfolding mkFns_def by (rule foldl_keeps) (auto intro: map_fit_put)

lemma obj_map_ok: "val_ok n (VObj (Some (ObjMap name m)))" if "map_fit n m"
  using that by (simp add: map_fit_def vals_ok_def list_all_iff)

lemma mkObj_ok: "val_ok n (mkObj name fns)"
  unfolding mkObj_def by (rule obj_map_ok [OF mkFns_fit])

lemma addVals_fit: "map_fit n m \<Longrightarrow> map_fit n (addVals [] m)"
  unfolding addVals_def smap_copy_def
  by (rule foldl_keeps) (auto simp: map_fit_def [of n m] vals_ok_def list_all_iff intro!: map_fit_put)

lemma mkEncObj_ok: "val_ok n mkEncObj"
  using mkObj_ok by (simp add: mkEncObj_def)

lemma New_fit: "map_fit n New"
proof -
  note start = addVals_fit [OF mkFns_fit, of n "[]" coreSpec]
  have ob: "val_ok n (ns_object s)" for s by (simp add: ns_object_def mkObj_ok)
  have out: "map_fit n (foldl (\<lambda>m s. if nsTop s then smap_put (nsName s) (ns_object s) m else m)
      (addVals [] (mkFns [] coreSpec)) rtsNamespaces)"
    by (rule foldl_keeps [where P = "map_fit n", OF start]) (auto intro!: map_fit_put ob)
  have root: "map_fit n (foldl (\<lambda>m s. smap_put (nsName s) (ns_object s) m) (addVals [] (mkFns [] coreSpec)) rtsNamespaces)"
    by (rule foldl_keeps [where P = "map_fit n", OF start]) (auto intro!: map_fit_put ob)
  show ?thesis
    unfolding New_def Let_def by (intro map_fit_put obj_map_ok out root mkEncObj_ok)
qed

section \<open>Properties of the whole library\<close>

text \<open>
  With the standard library as its prelude every module that parses runs to an end under a positive
  step limit, and its outcome does not depend on the nesting bound: none of the natives can loop on
  its own or hide the step limit, and no further assumption on them is left but the interface of
  those that are not modelled.
\<close>

theorem std_module_terminates:
  assumes "hosts_ok (rt_hosts rt)" "\<And>name f. xOther x name = Some f \<Longrightarrow> native_function f"
    and "ParseModuleAt path src pos = Inr m"
    and "0 < MaxSteps (rt_lim rt)" "2 * MaxSteps (rt_lim rt) < int n" "n \<le> k"
  shows "fst (Exec (std_cfg x rt) n m New (NewCtx [])) \<noteq> Inl OutOfFuel
    \<and> Exec (std_cfg x rt) k m New (NewCtx []) = Exec (std_cfg x rt) n m New (NewCtx [])"
proof -
  have cf: "cfg_ok (std_cfg x rt)" "natives_run (std_cfg x rt)"
    by (rule std_cfg_ok [OF assms(1)], rule assms(2), assumption)+
  have ms: "max_steps (std_cfg x rt) = MaxSteps (rt_lim rt)" by (simp add: std_cfg_def)
  have wf: "list_all (wf_stmt []) (mStmts m)"
    using parseMod_outcome [of path src pos] assms(3)
    by (auto simp: ParseModuleAt_def mod_outcome_def list_all_iff split: sum.splits)
  have pre: "vals_ok (n_envs (NewCtx [])) New" using New_fit by (simp add: map_fit_def)
  have "fst (Exec (std_cfg x rt) n m New (NewCtx [])) \<noteq> Inl OutOfFuel"
    using spec_Exec [OF cf(1) NewCtx_ok(1) pre wf]
    by (rule vspec_no_fuel) (use assms(4,5) in \<open>auto simp: ms fuel_ev_def NewCtx_ok intro: gr0I\<close>)
  with runs_same [OF runs_Exec [OF cf(2) assms(6)]] show ?thesis by blast
qed

definition no_ext :: StdExt where
  "no_ext = \<lparr>xLower = id, xUpper = id, xRegexp = (\<lambda>_. None), xOther = (\<lambda>_. None)\<rparr>"

lemma std_module_terminates_witness:
  "case ParseModuleAt [] ''let x = rts.list.map([1], len)'' zero_pos of
     Inl e \<Rightarrow> False
   | Inr m \<Rightarrow> length (mStmts m) = 1 \<and> fst (Exec (std_cfg no_ext (cf_rt (small_cfg 9))) 19 m New (NewCtx [])) \<noteq> Inl OutOfFuel"
proof -
  have "case ParseModuleAt [] ''let x = rts.list.map([1], len)'' zero_pos of
      Inl e \<Rightarrow> False | Inr m \<Rightarrow> length (mStmts m) = 1"
    by code_simp
  then obtain m where m: "ParseModuleAt [] ''let x = rts.list.map([1], len)'' zero_pos = Inr m" "length (mStmts m) = 1"
    by (auto split: sum.splits)
  have h: "hosts_ok (rt_hosts (cf_rt (small_cfg 9)))" using small_cfg_ok(1) by (simp add: cfg_ok_def)
  have x: "xOther no_ext name = Some f \<Longrightarrow> native_function f" for name f by (simp add: no_ext_def)
  have "0 < MaxSteps (rt_lim (cf_rt (small_cfg 9)))" "2 * MaxSteps (rt_lim (cf_rt (small_cfg 9))) < int 19"
    by (simp_all add: small_cfg_def)
  from std_module_terminates [OF h x m(1) this order_refl] m show ?thesis by simp
qed

text \<open>What a chain of members reaches from the prelude.\<close>

fun reach :: "Value smap \<Rightarrow> string list \<Rightarrow> Value option" where
  "reach m [] = None"
| "reach m [k] = map_of m k"
| "reach m (k # ks) = (case map_of m k of Some (VObj (Some (ObjMap _ m'))) \<Rightarrow> reach m' ks | _ \<Rightarrow> None)"

definition std_external :: "string list" where
  "std_external = [''uuid'', ''crypto.sha256'', ''crypto.hmacSha256'', ''time.nowISO'', ''time.nowUnix'',
     ''time.nowUnixString'', ''time.nowUnixMs'', ''time.format'', ''time.parse'', ''time.formatUnix'', ''time.addUnix'',
     ''time.duration'', ''json.file'', ''json.parse'', ''json.stringify'', ''json.get'', ''json.has'', ''headers.get'',
     ''headers.has'', ''headers.set'', ''headers.remove'', ''headers.merge'', ''headers.normalize'', ''query.parse'',
     ''query.fromURL'', ''query.encode'', ''query.merge'']"

definition std_names :: "string list" where
  "std_names = coreSpec
     @ concat (map (\<lambda>s. map (\<lambda>f. nsName s @ ''.'' @ f) (nsFns s)) rtsNamespaces)
     @ [''encoding.hex.encode'', ''encoding.hex.decode'', ''encoding.base64url.encode'', ''encoding.base64url.decode'']"

lemma map_of_mkFns:
  "map_of (mkFns pre fns) k =
     (if k \<in> set fns then Some (VNative (Some (if pre = [] then k else pre @ ''.'' @ k))) else None)"
proof -
  let ?put = "\<lambda>m k. smap_put k (VNative (Some (if pre = [] then k else pre @ ''.'' @ k))) m"
  have "map_of (foldl ?put m fns) k =
     (if k \<in> set fns then Some (VNative (Some (if pre = [] then k else pre @ ''.'' @ k))) else map_of m k)" for m
    by (induction fns arbitrary: m) (auto simp: map_of_smap_put)
  then show ?thesis by (simp add: mkFns_def)
qed

lemma map_of_addVals: "smap_ok m \<Longrightarrow> map_of (addVals [] m) = map_of m"
  by (simp add: addVals_def map_of_copy)

lemma map_of_specs:
  "distinct (map nsName specs) \<Longrightarrow>
   map_of (foldl (\<lambda>m s. if c s then smap_put (nsName s) (ob s) m else m) m0 specs) k =
     (case find (\<lambda>s. nsName s = k \<and> c s) specs of Some s \<Rightarrow> Some (ob s) | None \<Rightarrow> map_of m0 k)"
proof (induction specs arbitrary: m0)
  case (Cons s specs)
  have "find (\<lambda>s. nsName s = k \<and> c s) specs = None" if "nsName s = k"
    using Cons.prems that by (auto simp: find_None_iff) (metis image_eqI)
  with Cons show ?case by (auto simp: map_of_smap_put split: option.split)
qed simp

lemma spec_names: "distinct (map nsName rtsNamespaces)"
  "list_all (\<lambda>n. n \<notin> set coreSpec \<and> n \<notin> {''encoding'', ''rts'', ''stdlib''}) (map nsName rtsNamespaces)"
  "list_all (\<lambda>n. n \<notin> {''encoding'', ''rts'', ''stdlib''}) coreSpec"
  by code_simp+

lemma find_spec:
  assumes "distinct (map nsName specs)" "s \<in> set specs"
  shows "find (\<lambda>t. nsName t = nsName s \<and> c t) specs = (if c s then Some s else None)"
  using assms by (induction specs) (auto simp: find_None_iff, metis image_eqI)

lemma find_spec_other: "k \<notin> nsName ` set specs \<Longrightarrow> find (\<lambda>t. nsName t = k \<and> c t) specs = None"
  by (auto simp: find_None_iff)

definition rts_root :: "Value smap" where
  "rts_root = smap_put ''encoding'' mkEncObj
     (foldl (\<lambda>m s. smap_put (nsName s) (ns_object s) m) (addVals [] (mkFns [] coreSpec)) rtsNamespaces)"

lemma map_of_New:
  "map_of New ''rts'' = Some (VObj (Some (ObjMap ''rts'' rts_root)))"
  "k \<notin> {''encoding'', ''rts'', ''stdlib''} \<Longrightarrow> map_of New k =
     (case find (\<lambda>s. nsName s = k \<and> nsTop s) rtsNamespaces of
        Some s \<Rightarrow> Some (ns_object s)
      | None \<Rightarrow> if k \<in> set coreSpec then Some (VNative (Some k)) else None)"
  "k \<noteq> ''encoding'' \<Longrightarrow> map_of rts_root k =
     (case find (\<lambda>s. nsName s = k) rtsNamespaces of
        Some s \<Rightarrow> Some (ns_object s)
      | None \<Rightarrow> if k \<in> set coreSpec then Some (VNative (Some k)) else None)"
proof -
  have "smap_ok (mkFns [] coreSpec)" using mkFns_fit [of 0 "[]" coreSpec] by (simp add: map_fit_def)
  then have core: "map_of (addVals [] (mkFns [] coreSpec)) k = (if k \<in> set coreSpec then Some (VNative (Some k)) else None)" for k
    by (simp add: map_of_addVals map_of_mkFns)
  note specs = map_of_specs [OF spec_names(1), of nsTop ns_object] map_of_specs [OF spec_names(1), of "\<lambda>_. True" ns_object, simplified]
  show "map_of New ''rts'' = Some (VObj (Some (ObjMap ''rts'' rts_root)))"
    by (simp add: New_def Let_def rts_root_def map_of_smap_put)
  show "k \<notin> {''encoding'', ''rts'', ''stdlib''} \<Longrightarrow> map_of New k =
     (case find (\<lambda>s. nsName s = k \<and> nsTop s) rtsNamespaces of
        Some s \<Rightarrow> Some (ns_object s)
      | None \<Rightarrow> if k \<in> set coreSpec then Some (VNative (Some k)) else None)"
    by (simp add: New_def Let_def map_of_smap_put specs core split: option.split)
  show "k \<noteq> ''encoding'' \<Longrightarrow> map_of rts_root k =
     (case find (\<lambda>s. nsName s = k) rtsNamespaces of
        Some s \<Rightarrow> Some (ns_object s)
      | None \<Rightarrow> if k \<in> set coreSpec then Some (VNative (Some k)) else None)"
    by (simp add: rts_root_def map_of_smap_put specs core split: option.split)
qed

lemma New_keys: "fst ` set New \<subseteq> set coreSpec \<union> nsName ` set rtsNamespaces \<union> {''encoding'', ''rts'', ''stdlib''}"
proof
  fix k assume "k \<in> fst ` set New"
  then have "map_of New k \<noteq> None" by (auto simp: map_of_eq_None_iff)
  then show "k \<in> set coreSpec \<union> nsName ` set rtsNamespaces \<union> {''encoding'', ''rts'', ''stdlib''}"
    using map_of_New(2) [of k] find_Some_iff [of "\<lambda>s. nsName s = k \<and> nsTop s" rtsNamespaces]
    by (fastforce split: option.splits if_splits dest: nth_mem)
qed

lemma ns_fns: "list_all (\<lambda>s. distinct (nsFns s) \<and> nsName s \<noteq> []) rtsNamespaces"
  by code_simp

lemma reach_in_ns:
  assumes "s \<in> set rtsNamespaces" "f \<in> set (nsFns s)"
  shows "reach New [''rts'', nsName s, f] = Some (VNative (Some (nsName s @ ''.'' @ f)))"
    "reach New [nsName s, f] = (if nsTop s then Some (VNative (Some (nsName s @ ''.'' @ f))) else None)"
proof -
  have n: "nsName s \<notin> set coreSpec" "nsName s \<notin> {''encoding'', ''rts'', ''stdlib''}" "nsName s \<noteq> []"
    using spec_names(2) ns_fns assms(1) unfolding list_all_iff by auto
  then have m: "map_of (mkFns (nsName s) (nsFns s)) f = Some (VNative (Some (nsName s @ ''.'' @ f)))"
    using assms(2) by (simp add: map_of_mkFns)
  have "map_of rts_root (nsName s) = Some (ns_object s)"
    using n map_of_New(3) [of "nsName s"] find_spec [OF spec_names(1) assms(1), of "\<lambda>_. True"] by simp
  then show "reach New [''rts'', nsName s, f] = Some (VNative (Some (nsName s @ ''.'' @ f)))"
    using m by (simp add: map_of_New(1) ns_object_def mkObj_def)
  have "map_of New (nsName s) = (if nsTop s then Some (ns_object s) else None)"
    using n map_of_New(2) [of "nsName s"] find_spec [OF spec_names(1) assms(1), of nsTop] by simp
  then show "reach New [nsName s, f] = (if nsTop s then Some (VNative (Some (nsName s @ ''.'' @ f))) else None)"
    using m by (simp add: ns_object_def mkObj_def)
qed

lemma reach_core:
  assumes "f \<in> set coreSpec"
  shows "reach New [f] = Some (VNative (Some f))" "reach New [''rts'', f] = Some (VNative (Some f))"
proof -
  have n: "f \<notin> nsName ` set rtsNamespaces" "f \<notin> {''encoding'', ''rts'', ''stdlib''}"
    using spec_names(2,3) assms unfolding list_all_iff by auto
  show "reach New [f] = Some (VNative (Some f))"
    using n assms map_of_New(2) [of f] find_spec_other [OF n(1), of nsTop] by simp
  show "reach New [''rts'', f] = Some (VNative (Some f))"
    using n assms map_of_New(3) [of f] find_spec_other [OF n(1), of "\<lambda>_. True"] by (simp add: map_of_New(1))
qed

text \<open>
  The prelude binds every function of the library once, under the name its errors report: core
  functions at top level and under \<open>rts\<close>, every namespace under \<open>rts\<close>, and at top level exactly the
  namespaces marked so; no name it binds is a reserved word, and the table of natives is complete up to the natives
  that are not modelled.
\<close>

theorem std_names_resolve:
  "list_all (\<lambda>f. reach New [f] = Some (VNative (Some f)) \<and> reach New [''rts'', f] = Some (VNative (Some f))) coreSpec
   \<and> list_all (\<lambda>s. list_all (\<lambda>f. reach New [''rts'', nsName s, f] = Some (VNative (Some (nsName s @ ''.'' @ f)))
        \<and> reach New [nsName s, f] = (if nsTop s then Some (VNative (Some (nsName s @ ''.'' @ f))) else None)) (nsFns s)) rtsNamespaces
   \<and> list_all (\<lambda>kv. \<not> IsKeyword (fst kv)) New
   \<and> distinct std_names \<and> set std_names = fst ` set (std_table x) \<union> set std_external"
proof (intro conjI)
  show "list_all (\<lambda>f. reach New [f] = Some (VNative (Some f)) \<and> reach New [''rts'', f] = Some (VNative (Some f))) coreSpec"
    using reach_core unfolding list_all_iff by blast
  show "list_all (\<lambda>s. list_all (\<lambda>f. reach New [''rts'', nsName s, f] = Some (VNative (Some (nsName s @ ''.'' @ f)))
        \<and> reach New [nsName s, f] = (if nsTop s then Some (VNative (Some (nsName s @ ''.'' @ f))) else None)) (nsFns s)) rtsNamespaces"
    using reach_in_ns unfolding list_all_iff by blast
  have "list_all (\<lambda>n. \<not> IsKeyword n) (coreSpec @ map nsName rtsNamespaces @ [''encoding'', ''rts'', ''stdlib''])"
    by code_simp
  then show "list_all (\<lambda>kv. \<not> IsKeyword (fst kv)) New"
    using New_keys unfolding list_all_iff by fastforce
  show "distinct std_names" by code_simp
  show "set std_names = fst ` set (std_table x) \<union> set std_external"
    unfolding std_table_def by code_simp
qed

end
