(* ===== verification/RtsEngine.thy ===== *)
theory RtsEngine
  imports RtsRun RtsStdDict GoStrings
begin

text \<open>
  The engine (\<open>internal/rts/engine.go\<close>, \<open>resolve.go\<close>, \<open>shadow.go\<close>, \<open>module.go\<close>): it builds the bindings one
  evaluation sees, layer by layer, loads the modules a file uses through a cache, and runs an
  expression or a module on them. Its mutex makes one operation at a time the unit of the model.
\<close>

section \<open>Paths\<close>

text \<open>\<open>filepath.Clean\<close> and \<open>Join\<close> on a Unix system.\<close>

definition clean_step :: "bool \<Rightarrow> string list \<Rightarrow> string \<Rightarrow> string list" where
  "clean_step rooted st c =
     (if c = [] \<or> c = ''.'' then st
      else if c = ''..'' then
        (if st \<noteq> [] \<and> last st \<noteq> ''..'' then butlast st else if rooted then st else st @ [''..''])
      else st @ [c])"

definition is_abs :: "string \<Rightarrow> bool" where
  "is_abs p \<longleftrightarrow> has_prefix p ''/''"

definition clean_path :: "string \<Rightarrow> string" where
  "clean_path p =
     (let st = foldl (clean_step (is_abs p)) [] (str_split p ''/'');
          q = (if is_abs p then ''/'' else []) @ str_join ''/'' st
      in if q = [] then ''.'' else q)"

text \<open>\<open>absPath\<close>; the working directory is \<open>None\<close> where the system cannot tell it.\<close>

definition absPath :: "string option \<Rightarrow> string \<Rightarrow> string \<Rightarrow> string option" where
  "absPath cwd base path =
     (let p = clean_path (if \<not> is_abs path \<and> base \<noteq> [] then clean_path (base @ ''/'' @ path) else path) in
      if is_abs p then Some (clean_path p)
      else map_option (\<lambda>d. clean_path (d @ ''/'' @ p)) cwd)"

section \<open>Bindings and configuration\<close>

text \<open>
  Extensions and locals are maps of bindings that \<open>all\<close> walks in the order of their names: canonical
  maps here. The two types of the code are told apart by the fields they stand in.
\<close>

type_synonym binds = "Value smap"

record Use =
  usePath :: string
  useAlias :: string

record EvalConfig =
  Bindings :: "binds list"
  Locals :: binds
  Overrides :: binds
  Uses :: "Use list"
  BaseDir :: string
  Site :: string

text \<open>A module's fingerprint: modification time and size.\<close>

record modFP =
  fpMod :: int
  fpSize :: int

record modEnt =
  meComp :: Comp
  meFp :: modFP

text \<open>The file system during one operation; \<open>Inl\<close> is the text of an error.\<close>

record FS =
  fsReadFile :: "string \<Rightarrow> string + string"
  fsStat :: "string \<Rightarrow> string + modFP"

text \<open>
  What an engine does not change: the configuration of the machine, the run-time of a module's own
  context (its clock starts later), the prelude, the bindings modules see, working directory and
  nesting bound.
\<close>

record EngCfg =
  egCf :: Cfg
  egModRt :: Rt
  egStd :: binds
  egMod :: "binds list"
  egCwd :: "string option"
  egFuel :: nat

text \<open>The state of an engine: the cache of compiled modules and the environments that exist.\<close>

record Eng =
  egC :: "string \<rightharpoonup> modEnt"
  egStore :: Store

datatype eng_err =
  ErrRun err
| ErrHost string
| ErrParse ParseError
| ErrScan scan_error

type_synonym 'a eng = "Eng \<Rightarrow> (eng_err + 'a) \<times> Eng"

definition ebind :: "'a eng \<Rightarrow> ('a \<Rightarrow> 'b eng) \<Rightarrow> 'b eng" where
  "ebind m f = (\<lambda>s. case m s of (Inl e, s1) \<Rightarrow> (Inl e, s1) | (Inr x, s1) \<Rightarrow> f x s1)"

definition eret :: "'a \<Rightarrow> 'a eng" where
  "eret x = (\<lambda>s. (Inr x, s))"

definition efail :: "eng_err \<Rightarrow> 'a eng" where
  "efail e = (\<lambda>s. (Inl e, s))"

text \<open>An error of the engine itself: the context is fresh, its call stack empty.\<close>

definition eng_errf :: "Pos \<Rightarrow> string \<Rightarrow> eng_err" where
  "eng_errf pos msg = ErrRun (Errf [] pos msg)"

section \<open>Layers\<close>

definition mod_layer :: "binds \<Rightarrow> binds \<Rightarrow> binds" where
  "mod_layer out layer = foldl (\<lambda>m (k, v). if k \<noteq> [] then smap_put k v m else m) out layer"

definition modulePre :: "EngCfg \<Rightarrow> binds" where
  "modulePre g = foldl mod_layer (egStd g) (egMod g)"

fun addExtensions :: "Pos \<Rightarrow> binds \<Rightarrow> binds \<Rightarrow> eng_err + binds" where
  "addExtensions pos p [] = Inr p"
| "addExtensions pos p ((name, v) # ext) =
     (if name = [] then addExtensions pos p ext
      else if IsKeyword name then Inl (eng_errf pos (''name is a reserved word: '' @ name))
      else if map_of p name \<noteq> None then Inl (eng_errf pos (''name already defined: '' @ name))
      else addExtensions pos (smap_put name v p) ext)"

fun overlayLocals :: "Pos \<Rightarrow> binds \<Rightarrow> binds \<Rightarrow> eng_err + binds" where
  "overlayLocals pos p [] = Inr p"
| "overlayLocals pos p ((name, v) # loc) =
     (if name = [] then overlayLocals pos p loc
      else if IsKeyword name then Inl (eng_errf pos (''name is a reserved word: '' @ name))
      else overlayLocals pos (smap_put name v p) loc)"

fun add_layers :: "Pos \<Rightarrow> binds \<Rightarrow> binds list \<Rightarrow> eng_err + binds" where
  "add_layers pos p [] = Inr p"
| "add_layers pos p (ext # exts) =
     (case addExtensions pos p ext of Inl e \<Rightarrow> Inl e | Inr p1 \<Rightarrow> add_layers pos p1 exts)"

section \<open>The module cache\<close>

definition cache_get :: "string \<Rightarrow> modFP \<Rightarrow> Eng \<Rightarrow> Comp option" where
  "cache_get path fp s =
     (case egC s path of
        None \<Rightarrow> None
      | Some ent \<Rightarrow> (if meFp ent = fp then Some (meComp ent) else None))"

definition cache_set :: "string \<Rightarrow> modFP \<Rightarrow> Comp \<Rightarrow> Eng \<Rightarrow> Eng" where
  "cache_set path fp cp s = s\<lparr>egC := (egC s)(path \<mapsto> \<lparr>meComp = cp, meFp = fp\<rparr>)\<rparr>"

text \<open>A run in a fresh context over the environments of the engine, which keep what it added.\<close>

definition in_ctx :: "'a comp \<Rightarrow> 'a eng" where
  "in_ctx m s =
     (case m (NewCtx (egStore s)) of
        (Inl e, vm) \<Rightarrow> (Inl (ErrRun e), s\<lparr>egStore := vm_envs vm\<rparr>)
      | (Inr x, vm) \<Rightarrow> (Inr x, s\<lparr>egStore := vm_envs vm\<rparr>))"

definition mod_cf :: "EngCfg \<Rightarrow> Cfg" where
  "mod_cf g = (egCf g)\<lparr>cf_rt := egModRt g\<rparr>"

definition Load :: "EngCfg \<Rightarrow> FS \<Rightarrow> string \<Rightarrow> string \<Rightarrow> (Comp \<times> string) eng" where
  "Load g fs base path s =
     (if path = [] then (Inl (ErrHost ''empty module path''), s)
      else case absPath (egCwd g) base path of
        None \<Rightarrow> (Inl (ErrHost ''getwd''), s)
      | Some p \<Rightarrow>
          (case fsStat fs p of
             Inl e \<Rightarrow> (Inl (ErrHost e), s)
           | Inr fp \<Rightarrow>
               (case cache_get p fp s of
                  Some cp \<Rightarrow> (Inr (cp, p), s)
                | None \<Rightarrow>
                    (case fsReadFile fs p of
                       Inl e \<Rightarrow> (Inl (ErrHost e), s)
                     | Inr data \<Rightarrow>
                         (case ParseModule p data of
                            Inl e \<Rightarrow> (Inl (ErrParse e), s)
                          | Inr m \<Rightarrow>
                              ebind (in_ctx (Exec (mod_cf g) (egFuel g) m (modulePre g))) (\<lambda>cp s1.
                                (Inr (cp, p), cache_set p fp cp s1)) s)))))"

section \<open>Resolving uses\<close>

definition normUse :: "Use \<Rightarrow> Use option" where
  "normUse u =
     (let p = trim_white (usePath u) in
      if p = [] then None else Some \<lparr>usePath = p, useAlias = trim_white (useAlias u)\<rparr>)"

definition or_path :: "string \<Rightarrow> Pos \<Rightarrow> Pos" where
  "or_path p mp = (if Path mp = [] then mp\<lparr>Path := p\<rparr> else mp)"

text \<open>The method \<open>modHead\<close>: the name a module file declares, from the cache or the file.\<close>

definition eng_modHead :: "EngCfg \<Rightarrow> FS \<Rightarrow> string \<Rightarrow> string \<Rightarrow> Eng \<Rightarrow> eng_err + (string \<times> Pos)" where
  "eng_modHead g fs base path s =
     (case absPath (egCwd g) base path of
        None \<Rightarrow> Inl (ErrHost ''getwd'')
      | Some p \<Rightarrow>
          (case fsStat fs p of
             Inl e \<Rightarrow> Inl (ErrHost e)
           | Inr fp \<Rightarrow>
               (case cache_get p fp s of
                  Some cp \<Rightarrow> Inr (mName (cpMod cp), or_path p (mNamePos (cpMod cp)))
                | None \<Rightarrow>
                    (case fsReadFile fs p of
                       Inl e \<Rightarrow> Inl (ErrHost e)
                     | Inr data \<Rightarrow>
                         (case modHead p data of
                            Inl e \<Rightarrow> Inl (ErrScan e)
                          | Inr (nm, mp) \<Rightarrow> Inr (nm, or_path p mp))))))"

definition name_of_use :: "EngCfg \<Rightarrow> FS \<Rightarrow> string \<Rightarrow> Use \<Rightarrow> Eng \<Rightarrow> eng_err + string" where
  "name_of_use g fs base u s =
     (if useAlias u \<noteq> [] then Inr (useAlias u)
      else case eng_modHead g fs base (usePath u) s of
        Inl e \<Rightarrow> Inl e
      | Inr (nm, mp) \<Rightarrow>
          (if nm = []
           then Inl (eng_errf (if Line mp = 0 then \<lparr>Path = Path mp, Line = 1, Col = 1\<rparr> else mp)
             ''missing module name (add 'module <name>' at top of file)'')
           else Inr nm))"

fun resolve_loop :: "EngCfg \<Rightarrow> FS \<Rightarrow> string \<Rightarrow> Pos \<Rightarrow> string list \<Rightarrow> Use list \<Rightarrow> Eng \<Rightarrow> eng_err + Use list" where
  "resolve_loop g fs base pos seen [] s = Inr []"
| "resolve_loop g fs base pos seen (u # us) s =
     (case normUse u of
        None \<Rightarrow> resolve_loop g fs base pos seen us s
      | Some u1 \<Rightarrow>
          (case name_of_use g fs base u1 s of
             Inl e \<Rightarrow> Inl e
           | Inr al \<Rightarrow>
               (if IsKeyword al then Inl (eng_errf pos (''alias is a reserved word: '' @ al))
                else if al \<in> set seen then Inl (eng_errf pos (''alias already defined: '' @ al))
                else case resolve_loop g fs base pos (al # seen) us s of
                  Inl e \<Rightarrow> Inl e
                | Inr out \<Rightarrow> Inr (u1\<lparr>useAlias := al\<rparr> # out))))"

definition resolveUses :: "EngCfg \<Rightarrow> FS \<Rightarrow> EvalConfig \<Rightarrow> binds \<Rightarrow> Pos \<Rightarrow> Eng \<Rightarrow> eng_err + Use list" where
  "resolveUses g fs cfg pre pos s = resolve_loop g fs (BaseDir cfg) pos (map fst pre) (Uses cfg) s"

section \<open>Building the prelude\<close>

definition NewModObj :: "string \<Rightarrow> binds \<Rightarrow> Value" where
  "NewModObj name ex = VObj (Some (ModObj name ex))"

fun load_uses :: "EngCfg \<Rightarrow> FS \<Rightarrow> string \<Rightarrow> binds \<Rightarrow> Use list \<Rightarrow> binds eng" where
  "load_uses g fs base p [] = eret p"
| "load_uses g fs base p (u # us) =
     ebind (Load g fs base (usePath u)) (\<lambda>(cp, _).
       load_uses g fs base (smap_put (useAlias u) (NewModObj (useAlias u) (cpExp cp)) p) us)"

definition addUses :: "EngCfg \<Rightarrow> FS \<Rightarrow> EvalConfig \<Rightarrow> binds \<Rightarrow> Pos \<Rightarrow> binds eng" where
  "addUses g fs cfg p pos s =
     (case resolveUses g fs cfg p pos s of
        Inl e \<Rightarrow> (Inl e, s)
      | Inr us \<Rightarrow> load_uses g fs (BaseDir cfg) p us s)"

definition elift :: "eng_err + 'a \<Rightarrow> 'a eng" where
  "elift r = (\<lambda>s. (r, s))"

definition buildPre :: "EngCfg \<Rightarrow> FS \<Rightarrow> EvalConfig \<Rightarrow> Pos \<Rightarrow> binds eng" where
  "buildPre g fs cfg pos =
     ebind (elift (add_layers pos (modulePre g) (Bindings cfg))) (\<lambda>p1.
     ebind (addUses g fs cfg p1 pos) (\<lambda>p2.
     ebind (elift (overlayLocals pos p2 (Locals cfg))) (\<lambda>p3.
       elift (overlayLocals pos p3 (Overrides cfg)))))"

section \<open>Evaluating\<close>

definition Eval :: "EngCfg \<Rightarrow> FS \<Rightarrow> EvalConfig \<Rightarrow> string \<Rightarrow> Pos \<Rightarrow> Value eng" where
  "Eval g fs cfg src pos =
     ebind (buildPre g fs cfg pos) (\<lambda>pre.
       case ParseExpr (Path pos) (Line pos) (Col pos) src of
         Inl e \<Rightarrow> efail (ErrParse e)
       | Inr x \<Rightarrow> in_ctx (eval_source (egCf g) (egFuel g) pre (Site cfg) x pos))"

definition EvalStr :: "EngCfg \<Rightarrow> FS \<Rightarrow> EvalConfig \<Rightarrow> string \<Rightarrow> Pos \<Rightarrow> string eng" where
  "EvalStr g fs cfg src pos =
     ebind (Eval g fs cfg src pos) (\<lambda>v.
       case ToStr (rt_hosts (cf_rt (egCf g))) (rt_lim (cf_rt (egCf g))) [] pos v of
         Inl e \<Rightarrow> efail (ErrRun e)
       | Inr t \<Rightarrow> eret t)"

definition ExecModule :: "EngCfg \<Rightarrow> FS \<Rightarrow> EvalConfig \<Rightarrow> string \<Rightarrow> Pos \<Rightarrow> Comp eng" where
  "ExecModule g fs cfg src pos =
     ebind (buildPre g fs cfg pos) (\<lambda>pre.
       case ParseModuleAt (Path pos) src pos of
         Inl e \<Rightarrow> efail (ErrParse e)
       | Inr m \<Rightarrow>
           in_ctx (if Site cfg = [] then Exec (egCf g) (egFuel g) m pre
                   else with_frame 0 \<lparr>frKind = FrameExpr, frPos = pos, frName = Site cfg\<rparr>
                          (Exec (egCf g) (egFuel g) m pre)))"

section \<open>What the layers bind\<close>

text \<open>The bindings of a layer that have a name.\<close>

definition named :: "binds \<Rightarrow> string \<rightharpoonup> Value" where
  "named m = (map_of m)([] := None)"

lemma named_Cons: "named ((k, v) # m) = (if k = [] then named m else (named m)(k \<mapsto> v))"
  by (auto simp: named_def fun_eq_iff)

lemma mod_layer_map:
  assumes "smap_ok l"
  shows "map_of (mod_layer p l) = map_of p ++ named l"
  using assms
proof (induction l arbitrary: p)
  case (Cons e l)
  obtain k v where e: "e = (k, v)" by (cases e)
  with Cons.prems have "map_of l k = None" "smap_ok l" by (auto simp: smap_ok_Cons map_of_eq_None_iff)
  then have none: "named l k = None" "smap_ok l" by (auto simp: named_def)
  then show ?case
    using Cons.IH [of "if k \<noteq> [] then smap_put k v p else p"] e
    by (auto simp: mod_layer_def named_Cons map_of_smap_put map_add_def fun_eq_iff split: option.split)
qed (simp add: mod_layer_def named_def)

text \<open>Adding a layer of extensions succeeds exactly when no name is reserved or taken.\<close>

lemma addExtensions_ok:
  "smap_ok l \<Longrightarrow>
   (case addExtensions pos p l of
      Inr q \<Rightarrow> map_of q = map_of p ++ named l \<and> dom (named l) \<inter> dom (map_of p) = {}
        \<and> (\<forall>k \<in> dom (named l). \<not> IsKeyword k)
    | Inl e \<Rightarrow> \<exists>k \<in> dom (named l). IsKeyword k \<or> k \<in> dom (map_of p))"
proof (induction pos p l rule: addExtensions.induct)
  case (2 pos p k v l)
  then have ok: "smap_ok l" "map_of l k = None" by (auto simp: smap_ok_Cons map_of_eq_None_iff)
  then have none: "named l k = None" by (simp add: named_def)
  show ?case
  proof (cases "k = []")
    case True
    then have n: "named ((k, v) # l) = named l" "addExtensions pos p ((k, v) # l) = addExtensions pos p l"
      by (simp_all add: named_Cons)
    show ?thesis unfolding n by (rule 2(1) [OF True ok(1)])
  next
    case False
    show ?thesis
    proof (cases "IsKeyword k \<or> map_of p k \<noteq> None")
      case True
      with False show ?thesis by (auto simp: named_Cons)
    next
      case free: False
      with 2(2) [OF False] ok have ih: "case addExtensions pos (smap_put k v p) l of
          Inr q \<Rightarrow> map_of q = map_of (smap_put k v p) ++ named l \<and> dom (named l) \<inter> dom (map_of (smap_put k v p)) = {}
            \<and> (\<forall>k \<in> dom (named l). \<not> IsKeyword k)
        | Inl e \<Rightarrow> \<exists>k' \<in> dom (named l). IsKeyword k' \<or> k' \<in> dom (map_of (smap_put k v p))"
        by simp
      have add: "(map_of p)(k \<mapsto> v) ++ named l = map_of p ++ (named l)(k \<mapsto> v)"
        using none by (auto simp: map_add_def fun_eq_iff split: option.split)
      have eq: "addExtensions pos p ((k, v) # l) = addExtensions pos (smap_put k v p) l"
        using False free by simp
      show ?thesis
        using ih False free none add unfolding eq by (auto simp: named_Cons map_of_smap_put split: sum.split_asm)
    qed
  qed
qed (simp add: named_def)

lemma overlayLocals_ok:
  "smap_ok l \<Longrightarrow>
   (case overlayLocals pos p l of
      Inr q \<Rightarrow> map_of q = map_of p ++ named l \<and> (\<forall>k \<in> dom (named l). \<not> IsKeyword k)
    | Inl e \<Rightarrow> \<exists>k \<in> dom (named l). IsKeyword k)"
proof (induction pos p l rule: overlayLocals.induct)
  case (2 pos p k v l)
  then have ok: "smap_ok l" "map_of l k = None" by (auto simp: smap_ok_Cons map_of_eq_None_iff)
  then have none: "named l k = None" by (simp add: named_def)
  have add: "(map_of p)(k \<mapsto> v) ++ named l = map_of p ++ (named l)(k \<mapsto> v)"
    using none by (auto simp: map_add_def fun_eq_iff split: option.split)
  show ?case
  proof (cases "k = []")
    case True
    then have n: "named ((k, v) # l) = named l" "overlayLocals pos p ((k, v) # l) = overlayLocals pos p l"
      by (simp_all add: named_Cons)
    show ?thesis unfolding n by (rule 2(1) [OF True ok(1)])
  next
    case named: False
    show ?thesis
    proof (cases "IsKeyword k")
      case True
      with named show ?thesis by (simp add: named_Cons)
    next
      case False
      have eq: "overlayLocals pos p ((k, v) # l) = overlayLocals pos (smap_put k v p) l"
        using named False by simp
      show ?thesis
      proof (cases "overlayLocals pos (smap_put k v p) l")
        case (Inl e)
        then show ?thesis using 2(2) [OF named False ok(1)] named unfolding eq by (auto simp: named_Cons)
      next
        case (Inr q)
        then have "map_of q = map_of p ++ (named l)(k \<mapsto> v)" "\<forall>k \<in> dom (named l). \<not> IsKeyword k"
          using 2(2) [OF named False ok(1)] unfolding add [symmetric] map_of_smap_put by simp_all
        then show ?thesis using Inr named False unfolding eq by (simp add: named_Cons)
      qed
    qed
  qed
qed (simp add: named_def)

text \<open>The extensions of all layers; they do not overlap, so their order does not matter.\<close>

fun ext_map :: "binds list \<Rightarrow> string \<rightharpoonup> Value" where
  "ext_map [] = Map.empty"
| "ext_map (l # ls) = named l ++ ext_map ls"

definition apart :: "binds \<Rightarrow> binds \<Rightarrow> bool" where
  "apart a b \<longleftrightarrow> dom (named a) \<inter> dom (named b) = {}"

definition usable :: "(string \<rightharpoonup> Value) \<Rightarrow> bool" where
  "usable m \<longleftrightarrow> (\<forall>k \<in> dom m. \<not> IsKeyword k)"

lemma usable_add: "usable m \<Longrightarrow> usable n \<Longrightarrow> usable (m ++ n)"
  by (auto simp: usable_def)

lemma add_layers_ok:
  "list_all smap_ok exts \<Longrightarrow> add_layers pos p exts = Inr q \<Longrightarrow>
     map_of q = map_of p ++ ext_map exts \<and> dom (ext_map exts) \<inter> dom (map_of p) = {}
     \<and> usable (ext_map exts) \<and> sorted_wrt apart exts"
proof (induction pos p exts rule: add_layers.induct)
  case (2 pos p ext exts)
  then obtain p1 where p1: "addExtensions pos p ext = Inr p1" "add_layers pos p1 exts = Inr q"
    by (auto split: sum.splits)
  with addExtensions_ok [where l = ext and pos = pos and p = p] 2(2) have one: "map_of p1 = map_of p ++ named ext"
    "dom (named ext) \<inter> dom (map_of p) = {}" "\<forall>k \<in> dom (named ext). \<not> IsKeyword k" by auto
  from 2(1) [OF p1(1)] 2(2) p1(2) have rest: "map_of q = map_of p1 ++ ext_map exts"
    "dom (ext_map exts) \<inter> dom (map_of p1) = {}" "usable (ext_map exts)" "sorted_wrt apart exts"
    by auto
  have sub: "dom (named e) \<subseteq> dom (ext_map exts)" if "e \<in> set exts" for e
    using that by (induction exts) auto
  have "apart ext e" if "e \<in> set exts" for e
    using sub [OF that] rest(2) one(1) by (auto simp: apart_def)
  then show ?case
    using one rest usable_add [of "named ext" "ext_map exts"] by (auto simp: usable_def [of "named ext"])
qed (simp add: usable_def)

lemma normUse_path: "normUse u = Some u1 \<Longrightarrow> usePath u1 \<noteq> []"
  by (auto simp: normUse_def Let_def split: if_splits)

lemma resolve_loop_ok:
  "resolve_loop g fs base pos seen us s = Inr out \<Longrightarrow>
     distinct (map useAlias out) \<and> set (map useAlias out) \<inter> set seen = {}
     \<and> (\<forall>u \<in> set out. \<not> IsKeyword (useAlias u))"
proof (induction us arbitrary: seen out)
  case (Cons u us)
  show ?case
  proof (cases "normUse u")
    case None
    with Cons show ?thesis by simp
  next
    case (Some u1)
    with Cons.prems obtain al rest where r: "name_of_use g fs base u1 s = Inr al" "\<not> IsKeyword al" "al \<notin> set seen"
      "resolve_loop g fs base pos (al # seen) us s = Inr rest" "out = u1\<lparr>useAlias := al\<rparr> # rest"
      by (auto split: sum.splits if_splits)
    with Cons.IH [OF r(4)] show ?thesis by auto
  qed
qed simp

definition mod_binding :: "Use \<Rightarrow> Comp \<Rightarrow> string \<times> Value" where
  "mod_binding u cp = (useAlias u, NewModObj (useAlias u) (cpExp cp))"

lemma load_uses_map:
  "load_uses g fs base p us s = (Inr q, s') \<Longrightarrow> distinct (map useAlias us) \<Longrightarrow>
     \<exists>cps. length cps = length us \<and> map_of q = map_of p ++ map_of (map2 mod_binding us cps)"
proof (induction us arbitrary: p s)
  case Nil
  then show ?case by (simp add: eret_def)
next
  case (Cons u us)
  from Cons.prems(1) obtain cp q1 s1 where l: "Load g fs base (usePath u) s = (Inr (cp, q1), s1)"
    "load_uses g fs base (smap_put (useAlias u) (NewModObj (useAlias u) (cpExp cp)) p) us s1 = (Inr q, s')"
    by (auto simp: ebind_def split: prod.splits sum.splits)
  have d: "distinct (map useAlias us)" using Cons.prems(2) by simp
  from Cons.IH [OF l(2) d] obtain cps where cps: "length cps = length us"
    "map_of q = (map_of p)(useAlias u \<mapsto> NewModObj (useAlias u) (cpExp cp)) ++ map_of (map2 mod_binding us cps)"
    unfolding map_of_smap_put by blast
  have none: "map_of (map2 mod_binding us cps) (useAlias u) = None"
    using Cons.prems(2) by (auto simp: map_of_eq_None_iff mod_binding_def dest: set_zip_leftD)
  have mb: "mod_binding u cp = (useAlias u, NewModObj (useAlias u) (cpExp cp))" by (simp add: mod_binding_def)
  from none have "useAlias u \<notin> dom (map_of (map2 mod_binding us cps))" by (simp add: domIff)
  then have "map_of q = (map_of p ++ map_of (map2 mod_binding us cps))(useAlias u \<mapsto> NewModObj (useAlias u) (cpExp cp))"
    unfolding cps(2) by (rule map_add_upd_left)
  also have "\<dots> = map_of p ++ map_of (map2 mod_binding (u # us) (cp # cps))"
    unfolding map_add_upd [symmetric] by (simp only: list.map zip_Cons_Cons prod.case map_of.simps mb fst_conv snd_conv)
  finally have "map_of q = map_of p ++ map_of (map2 mod_binding (u # us) (cp # cps))" .
  moreover have "length (cp # cps) = length (u # us)" using cps(1) by simp
  ultimately show ?case by blast
qed

text \<open>What the aliases bind.\<close>

definition alias_map :: "(string \<rightharpoonup> Value) \<Rightarrow> bool" where
  "alias_map m \<longleftrightarrow> (\<forall>k v. m k = Some v \<longrightarrow> (\<exists>e. v = NewModObj k e))"

lemma addUses_map:
  assumes "addUses g fs cfg p pos s = (Inr q, s')"
  shows "\<exists>mods. map_of q = map_of p ++ mods \<and> dom mods \<inter> dom (map_of p) = {} \<and> usable mods \<and> alias_map mods"
proof -
  from assms obtain us where us: "resolve_loop g fs (BaseDir cfg) pos (map fst p) (Uses cfg) s = Inr us"
    "load_uses g fs (BaseDir cfg) p us s = (Inr q, s')"
    by (auto simp: addUses_def resolveUses_def split: sum.splits)
  from resolve_loop_ok [OF us(1)] have r: "distinct (map useAlias us)"
    "useAlias ` set us \<inter> fst ` set p = {}" "\<forall>u \<in> set us. \<not> IsKeyword (useAlias u)" by simp_all
  from load_uses_map [OF us(2) r(1)] obtain cps where cps: "length cps = length us"
    "map_of q = map_of p ++ map_of (map2 mod_binding us cps)" by blast
  have d: "dom (map_of (map2 mod_binding us cps)) \<subseteq> useAlias ` set us"
    by (auto simp: dom_map_of_conv_image_fst mod_binding_def dest: set_zip_leftD)
  have "alias_map (map_of (map2 mod_binding us cps))"
    by (auto simp: alias_map_def mod_binding_def dest!: map_of_SomeD)
  moreover have "usable (map_of (map2 mod_binding us cps))" using d r(3) by (auto simp: usable_def)
  moreover have "dom (map_of (map2 mod_binding us cps)) \<inter> dom (map_of p) = {}"
    using d r(2) unfolding dom_map_of_conv_image_fst [of p] by blast
  ultimately show ?thesis using cps(2) by blast
qed

text \<open>
  A prelude that can be built binds what the layers say, the later one winning: prelude and module
  bindings, extensions, modules under their aliases, locals, overrides. The additive layers never
  hide a name: extensions and aliases avoid the layers before them and each other; no layer
  binds a reserved word.
\<close>

theorem prelude_layers:
  assumes "list_all smap_ok (Bindings cfg)" "smap_ok (Locals cfg)" "smap_ok (Overrides cfg)"
    and "buildPre g fs cfg pos s = (Inr pre, s')"
  shows "\<exists>mods. map_of pre = map_of (modulePre g) ++ ext_map (Bindings cfg) ++ mods ++ named (Locals cfg) ++ named (Overrides cfg)
    \<and> alias_map mods
    \<and> dom (ext_map (Bindings cfg)) \<inter> dom (map_of (modulePre g)) = {}
    \<and> dom mods \<inter> (dom (map_of (modulePre g)) \<union> dom (ext_map (Bindings cfg))) = {}
    \<and> sorted_wrt apart (Bindings cfg)
    \<and> usable (ext_map (Bindings cfg)) \<and> usable mods \<and> usable (named (Locals cfg)) \<and> usable (named (Overrides cfg))"
proof -
  from assms(4) obtain p1 p2 p3 where b: "add_layers pos (modulePre g) (Bindings cfg) = Inr p1"
    "addUses g fs cfg p1 pos s = (Inr p2, s')" "overlayLocals pos p2 (Locals cfg) = Inr p3"
    "overlayLocals pos p3 (Overrides cfg) = Inr pre"
    by (auto simp: buildPre_def ebind_def elift_def split: prod.splits sum.splits)
  note e = add_layers_ok [OF assms(1) b(1)]
  from addUses_map [OF b(2)] obtain mods where m: "map_of p2 = map_of p1 ++ mods" "dom mods \<inter> dom (map_of p1) = {}"
    "usable mods" "alias_map mods" by blast
  have l: "map_of p3 = map_of p2 ++ named (Locals cfg)" "usable (named (Locals cfg))"
    using overlayLocals_ok [OF assms(2), where pos = pos and p = p2] b(3) by (simp_all add: usable_def)
  have o: "map_of pre = map_of p3 ++ named (Overrides cfg)" "usable (named (Overrides cfg))"
    using overlayLocals_ok [OF assms(3), where pos = pos and p = p3] b(4) by (simp_all add: usable_def)
  show ?thesis
    using e m l o by (intro exI [of _ mods]) auto
qed

section \<open>A small engine for the concrete instances\<close>

definition demo_fs :: FS where
  "demo_fs = \<lparr>fsReadFile = (\<lambda>p. if p = ''/lib/m.rts'' then Inr (''module m; export let a = 1'') else Inl ''not found''),
     fsStat = (\<lambda>p. if p = ''/lib/m.rts'' then Inr \<lparr>fpMod = 7, fpSize = 27\<rparr> else Inl ''not found'')\<rparr>"

definition demo_eng :: EngCfg where
  "demo_eng = \<lparr>egCf = small_cfg 9, egModRt = cf_rt (small_cfg 9), egStd = [(''len'', VNative (Some ''len''))],
     egMod = [[(''host'', VNull)]], egCwd = Some ''/'', egFuel = 19\<rparr>"

definition demo_cfg :: EvalConfig where
  "demo_cfg = \<lparr>Bindings = [[(''ext'', VBool True)]], Locals = [(''len'', VStr ''item'')], Overrides = [(''ext'', VNull)],
     Uses = [\<lparr>usePath = '' ./x/../m.rts '', useAlias = []\<rparr>], BaseDir = ''/lib'', Site = []\<rparr>"

definition new_eng :: Eng where
  "new_eng = \<lparr>egC = Map.empty, egStore = []\<rparr>"

lemma demo_builds:
  "case fst (buildPre demo_eng demo_fs demo_cfg zero_pos new_eng) of
     Inl e \<Rightarrow> False
   | Inr pre \<Rightarrow> map_of pre ''len'' = Some (VStr ''item'') \<and> map_of pre ''ext'' = Some VNull
       \<and> (case map_of pre ''m'' of Some (VObj (Some (ModObj n ex))) \<Rightarrow> n = ''m'' \<and> map fst ex = [''a''] | _ \<Rightarrow> False)"
  by code_simp

theorem prelude_layers_witness:
  "case buildPre demo_eng demo_fs demo_cfg zero_pos new_eng of
     (Inl e, s') \<Rightarrow> False
   | (Inr pre, s') \<Rightarrow> map_of pre ''len'' = Some (VStr ''item'') \<and> map_of pre ''ext'' = Some VNull"
proof -
  obtain pre s' where b: "buildPre demo_eng demo_fs demo_cfg zero_pos new_eng = (Inr pre, s')"
    using demo_builds by (cases "buildPre demo_eng demo_fs demo_cfg zero_pos new_eng") (auto split: sum.splits)
  have "list_all smap_ok (Bindings demo_cfg)" "smap_ok (Locals demo_cfg)" "smap_ok (Overrides demo_cfg)"
    by (simp_all add: demo_cfg_def smap_ok_def)
  from prelude_layers [OF this b] show ?thesis
    unfolding b by (auto simp: demo_cfg_def named_def)
qed

section \<open>The module cache\<close>

definition run_module :: "EngCfg \<Rightarrow> Mod \<Rightarrow> Comp eng" where
  "run_module g m = in_ctx (Exec (mod_cf g) (egFuel g) m (modulePre g))"

text \<open>A load that misses the cache reads, parses and runs the module.\<close>

definition load_fresh :: "EngCfg \<Rightarrow> FS \<Rightarrow> string \<Rightarrow> modFP \<Rightarrow> (Comp \<times> string) eng" where
  "load_fresh g fs p fp s =
     (case fsReadFile fs p of
        Inl e \<Rightarrow> (Inl (ErrHost e), s)
      | Inr data \<Rightarrow>
          (case ParseModule p data of
             Inl e \<Rightarrow> (Inl (ErrParse e), s)
           | Inr m \<Rightarrow> (case run_module g m s of
               (Inl e, s1) \<Rightarrow> (Inl e, s1)
             | (Inr cp, s1) \<Rightarrow> (Inr (cp, p), cache_set p fp cp s1))))"

lemma Load_steps:
  "path \<noteq> [] \<Longrightarrow> absPath (egCwd g) base path = Some p \<Longrightarrow> fsStat fs p = Inr fp \<Longrightarrow>
     Load g fs base path s =
       (case cache_get p fp s of Some cp \<Rightarrow> (Inr (cp, p), s) | None \<Rightarrow> load_fresh g fs p fp s)"
  by (simp add: Load_def load_fresh_def run_module_def ebind_def split: option.split sum.split)

lemma Load_found:
  assumes "Load g fs base path s = (r, s')"
  obtains (fail) e where "r = Inl (ErrHost e)" "s' = s"
  | (found) p fp where "path \<noteq> []" "absPath (egCwd g) base path = Some p" "fsStat fs p = Inr fp"
proof (cases "path = []")
  case True
  with assms have "r = Inl (ErrHost ''empty module path'')" "s' = s" by (simp_all add: Load_def)
  then show thesis by (rule fail)
next
  case ne: False
  show thesis
  proof (cases "absPath (egCwd g) base path")
    case None
    with ne assms have "r = Inl (ErrHost ''getwd'')" "s' = s" by (simp_all add: Load_def)
    then show thesis by (rule fail)
  next
    case (Some p)
    show thesis
    proof (cases "fsStat fs p")
      case (Inl e)
      with ne Some assms have "r = Inl (ErrHost e)" "s' = s" by (simp_all add: Load_def)
      then show thesis by (rule fail)
    next
      case (Inr fp)
      with ne Some show thesis by (intro found)
    qed
  qed
qed

lemma Load_ok:
  assumes "Load g fs base path s = (Inr (cp, p), s')"
  obtains (hit) fp where "path \<noteq> []" "absPath (egCwd g) base path = Some p" "fsStat fs p = Inr fp"
      "cache_get p fp s = Some cp" "s' = s"
  | (run) fp data m s1 where "path \<noteq> []" "absPath (egCwd g) base path = Some p" "fsStat fs p = Inr fp"
      "cache_get p fp s = None" "fsReadFile fs p = Inr data" "ParseModule p data = Inr m"
      "run_module g m s = (Inr cp, s1)" "s' = cache_set p fp cp s1"
  using assms
proof (cases rule: Load_found)
  case (found q fp)
  show thesis
  proof (cases "cache_get q fp s")
    case (Some c)
    with assms Load_steps [OF found] have "c = cp" "q = p" "s' = s" by simp_all
    with found Some show thesis by (intro hit [of fp]) simp_all
  next
    case None
    with assms Load_steps [OF found] have "load_fresh g fs q fp s = (Inr (cp, p), s')" by simp
    with found None show thesis
      by (auto simp: load_fresh_def split: sum.splits prod.splits intro!: run)
  qed
qed simp

lemma cache_get_set: "cache_get q fp' (cache_set p fp cp s) =
    (if q = p then (if fp' = fp then Some cp else None) else cache_get q fp' s)"
  by (simp add: cache_get_def cache_set_def)

lemma Load_hit:
  "path \<noteq> [] \<Longrightarrow> absPath (egCwd g) base path = Some p \<Longrightarrow> fsStat fs p = Inr fp \<Longrightarrow> cache_get p fp s = Some cp \<Longrightarrow>
     Load g fs base path s = (Inr (cp, p), s)"
  by (simp add: Load_steps)

text \<open>A fresh load looks at the environments only.\<close>

lemma load_fresh_depends:
  assumes "egStore t = egStore s"
  shows "fst (load_fresh g fs p fp t) = fst (load_fresh g fs p fp s)"
    "egStore (snd (load_fresh g fs p fp t)) = egStore (snd (load_fresh g fs p fp s))"
  using assms
  by (auto simp: load_fresh_def run_module_def in_ctx_def cache_set_def split: sum.split prod.split)

text \<open>The operations of an engine, one after the other, each on the file system and the configuration of its time.\<close>

datatype eng_op =
  OpEval FS EvalConfig string Pos
| OpStr FS EvalConfig string Pos
| OpModule FS EvalConfig string Pos
| OpLoad FS string string

fun op_fs :: "eng_op \<Rightarrow> FS" where
  "op_fs (OpEval fs cfg src pos) = fs" | "op_fs (OpStr fs cfg src pos) = fs" | "op_fs (OpModule fs cfg src pos) = fs"
| "op_fs (OpLoad fs base path) = fs"

fun run_eng_op :: "EngCfg \<Rightarrow> eng_op \<Rightarrow> Eng \<Rightarrow> Eng" where
  "run_eng_op g (OpEval fs cfg src pos) s = snd (Eval g fs cfg src pos s)"
| "run_eng_op g (OpStr fs cfg src pos) s = snd (EvalStr g fs cfg src pos s)"
| "run_eng_op g (OpModule fs cfg src pos) s = snd (ExecModule g fs cfg src pos s)"
| "run_eng_op g (OpLoad fs base path) s = snd (Load g fs base path s)"

definition eng_ops :: "EngCfg \<Rightarrow> eng_op list \<Rightarrow> Eng \<Rightarrow> Eng" where
  "eng_ops g ops s = fold (run_eng_op g) ops s"

text \<open>The file is not seen with another time or size.\<close>

definition unchanged :: "string \<Rightarrow> modFP \<Rightarrow> FS \<Rightarrow> bool" where
  "unchanged p fp fs \<longleftrightarrow> (\<forall>fp'. fsStat fs p = Inr fp' \<longrightarrow> fp' = fp)"

lemma in_ctx_cache: "egC (snd (in_ctx m s)) = egC s"
  by (simp add: in_ctx_def split: prod.split sum.split)

lemma ebind_snd: "snd (ebind m f s) = (case m s of (Inl e, s1) \<Rightarrow> s1 | (Inr x, s1) \<Rightarrow> snd (f x s1))"
  by (simp add: ebind_def split: prod.split sum.split)

lemma ctx_keeps: "cache_get p fp (snd (in_ctx m s)) = cache_get p fp s"
  by (simp add: cache_get_def in_ctx_cache)

lemma Load_keeps:
  assumes "cache_get p fp s = Some cp" "unchanged p fp fs"
  shows "cache_get p fp (snd (Load g fs base path s)) = Some cp"
proof -
  obtain r s' where l: "Load g fs base path s = (r, s')" by fastforce
  then show ?thesis
  proof (cases rule: Load_found)
    case (found q fq)
    show ?thesis
    proof (cases "cache_get q fq s")
      case (Some c)
      with assms(1) show ?thesis by (simp add: Load_steps [OF found])
    next
      case None
      then have "q \<noteq> p" using assms found(3) by (auto simp: unchanged_def)
      moreover have "cache_get p fp (snd (run_module g m s)) = Some cp" for m
        using assms(1) by (simp add: run_module_def ctx_keeps)
      ultimately show ?thesis
        using None assms(1)
        by (auto simp: Load_steps [OF found] load_fresh_def cache_get_set split: sum.split prod.split) (metis snd_conv)+
    qed
  qed (use l assms(1) in simp)
qed

lemma load_uses_keeps:
  "cache_get p fp s = Some cp \<Longrightarrow> unchanged p fp fs \<Longrightarrow> cache_get p fp (snd (load_uses g fs base b us s)) = Some cp"
proof (induction us arbitrary: b s)
  case (Cons u us)
  show ?case using Cons.IH [OF _ Cons.prems(2)] Load_keeps [OF Cons.prems, of g base "usePath u"] Cons.prems(1)
    by (auto simp: ebind_snd split: prod.split sum.split)
qed (simp add: eret_def)

lemma buildPre_keeps:
  assumes "cache_get p fp s = Some cp" "unchanged p fp fs"
  shows "cache_get p fp (snd (buildPre g fs cfg pos s)) = Some cp"
proof -
  have u: "cache_get p fp (snd (addUses g fs cfg b pos s)) = Some cp" for b
    using load_uses_keeps [OF assms] assms(1) by (simp add: addUses_def split: sum.split)
  show ?thesis
    using assms(1) u by (auto simp: buildPre_def ebind_snd elift_def split: sum.split prod.split) (metis snd_conv)+
qed

lemma after_build_keeps:
  assumes "cache_get p fp s = Some cp" "unchanged p fp fs"
    and "\<And>pre t. cache_get p fp t = Some cp \<Longrightarrow> cache_get p fp (snd (f pre t)) = Some cp"
  shows "cache_get p fp (snd (ebind (buildPre g fs cfg pos) f s)) = Some cp"
  using buildPre_keeps [OF assms(1,2), of g cfg pos] assms(3) by (auto simp: ebind_snd split: prod.split sum.split)

lemma eng_op_keeps:
  assumes "cache_get p fp s = Some cp" "unchanged p fp (op_fs op)"
  shows "cache_get p fp (run_eng_op g op s) = Some cp"
proof -
  have ev: "cache_get p fp (snd (Eval g (op_fs op) cfg src pos s)) = Some cp" for cfg src pos
    unfolding Eval_def by (rule after_build_keeps [OF assms]) (simp add: efail_def ctx_keeps split: sum.split)
  have md: "cache_get p fp (snd (ExecModule g (op_fs op) cfg src pos s)) = Some cp" for cfg src pos
    unfolding ExecModule_def by (rule after_build_keeps [OF assms]) (simp add: efail_def ctx_keeps split: sum.split)
  have "cache_get p fp (snd (EvalStr g (op_fs op) cfg src pos s)) = Some cp" for cfg src pos
    using ev [of cfg src pos] by (auto simp: EvalStr_def ebind_snd efail_def eret_def split: prod.split sum.split)
  with ev md Load_keeps [OF assms] show ?thesis by (cases op) auto
qed

lemma eng_ops_keep:
  "cache_get p fp s = Some cp \<Longrightarrow> \<forall>op \<in> set ops. unchanged p fp (op_fs op) \<Longrightarrow> cache_get p fp (eng_ops g ops s) = Some cp"
  using eng_op_keeps by (induction ops arbitrary: s) (auto simp: eng_ops_def)

text \<open>
  C14: a module is compiled once per fingerprint: once it was loaded, and whatever an engine evaluates, runs and loads in
  between without seeing the file with another time or size, loading it again under any spelling of its path returns
  the same module, runs nothing and changes nothing, even if the file can no longer be read; and when its
  fingerprint has changed by then, the entry is not used: the outcome is that of an engine without it.
\<close>

theorem module_loaded_once:
  assumes "Load g fs base path s = (Inr (cp, p), s1)" "fsStat fs p = Inr fp"
    and "\<forall>op \<in> set ops. unchanged p fp (op_fs op)"
    and "path' \<noteq> []" "absPath (egCwd g) base' path' = Some p" "fsStat fs' p = Inr fp'"
  shows "let t = eng_ops g ops s1; u = t\<lparr>egC := (egC t)(p := None)\<rparr> in
    if fp' = fp then Load g fs' base' path' t = (Inr (cp, p), t)
    else fst (Load g fs' base' path' t) = fst (Load g fs' base' path' u)
      \<and> egStore (snd (Load g fs' base' path' t)) = egStore (snd (Load g fs' base' path' u))"
proof -
  have "cache_get p fp s1 = Some cp" using assms(1,2) by (auto elim!: Load_ok simp: cache_get_set)
  then have c: "cache_get p fp (eng_ops g ops s1) = Some cp" by (rule eng_ops_keep [OF _ assms(3)])
  show ?thesis
  proof (cases "fp' = fp")
    case True
    with c assms(4-6) show ?thesis by (simp add: Load_hit Let_def)
  next
    case False
    define t u where "t = eng_ops g ops s1" and "u = t\<lparr>egC := (egC t)(p := None)\<rparr>"
    have "cache_get p fp' t = None" using c False by (auto simp: t_def cache_get_def split: option.splits if_splits)
    moreover have "cache_get p fp' u = None" by (simp add: u_def cache_get_def)
    moreover have "egStore u = egStore t" by (simp add: u_def)
    ultimately show ?thesis
      using False load_fresh_depends [of u t g fs' p fp']
      by (simp add: Let_def Load_steps [OF assms(4-6)] flip: t_def u_def)
  qed
qed

lemma module_loaded_once_witness:
  "case Load demo_eng demo_fs ''/lib'' ''m.rts'' new_eng of
     (Inl e, s1) \<Rightarrow> False
   | (Inr (cp, p), s1) \<Rightarrow> (let t = eng_ops demo_eng [OpEval demo_fs demo_cfg ''len'' zero_pos, OpLoad demo_fs [] ''/x.rts''] s1 in
       Load demo_eng (demo_fs\<lparr>fsReadFile := (\<lambda>_. Inl ''gone'')\<rparr>) ''/'' ''lib/m.rts'' t = (Inr (cp, p), t))"
proof -
  have "case Load demo_eng demo_fs ''/lib'' ''m.rts'' new_eng of (Inl e, s1) \<Rightarrow> False | (Inr (cp, p), s1) \<Rightarrow> p = ''/lib/m.rts''"
    by code_simp
  then obtain cp s1 where l: "Load demo_eng demo_fs ''/lib'' ''m.rts'' new_eng = (Inr (cp, ''/lib/m.rts''), s1)"
    by (auto split: sum.splits prod.splits)
  have st: "fsStat demo_fs ''/lib/m.rts'' = Inr \<lparr>fpMod = 7, fpSize = 27\<rparr>" by (simp add: demo_fs_def)
  have st': "fsStat (demo_fs\<lparr>fsReadFile := (\<lambda>_. Inl ''gone'')\<rparr>) ''/lib/m.rts'' = Inr \<lparr>fpMod = 7, fpSize = 27\<rparr>"
    by (simp add: demo_fs_def)
  have ops: "\<forall>op \<in> set [OpEval demo_fs demo_cfg ''len'' zero_pos, OpLoad demo_fs [] ''/x.rts''].
      unchanged ''/lib/m.rts'' \<lparr>fpMod = 7, fpSize = 27\<rparr> (op_fs op)"
    by (simp add: unchanged_def st)
  have "absPath (egCwd demo_eng) ''/'' ''lib/m.rts'' = Some ''/lib/m.rts''" by code_simp
  from module_loaded_once [OF l st ops _ this st'] show ?thesis by (simp add: l Let_def)
qed

text \<open>
  An alias that is left out is the module's own name: the quick scan that names a use, from the cache or
  from the file, gives the name of the module that loading the same path returns.
\<close>

theorem alias_is_module_name:
  assumes "eng_modHead g fs base path s = Inr (nm, mp)" "Load g fs base path s = (Inr (cp, p), s1)"
  shows "nm = mName (cpMod cp)"
  using assms(2)
proof (cases rule: Load_ok)
  case (hit fp)
  then show ?thesis using assms(1) by (simp add: eng_modHead_def)
next
  case (run fp data m s2)
  then have "cpMod cp = m"
    by (auto simp: run_module_def in_ctx_def Exec_def vbind_def split: prod.splits sum.splits)
  moreover have "nm = mName m"
    using assms(1) run modHead_parsed [OF run(6)] by (auto simp: eng_modHead_def split: if_splits)
  ultimately show ?thesis by simp
qed

theorem alias_is_module_name_witness:
  "case eng_modHead demo_eng demo_fs ''/lib'' ''m.rts'' new_eng of
     Inl e \<Rightarrow> False
   | Inr (nm, mp) \<Rightarrow> (case Load demo_eng demo_fs ''/lib'' ''m.rts'' new_eng of
       (Inl e, s1) \<Rightarrow> False | (Inr (cp, p), s1) \<Rightarrow> nm = ''m'' \<and> nm = mName (cpMod cp))"
proof -
  have h: "case eng_modHead demo_eng demo_fs ''/lib'' ''m.rts'' new_eng of Inl e \<Rightarrow> False | Inr (nm, mp) \<Rightarrow> nm = ''m''"
    by code_simp
  have "case Load demo_eng demo_fs ''/lib'' ''m.rts'' new_eng of (Inl e, s1) \<Rightarrow> False | (Inr (cp, p), s1) \<Rightarrow> True"
    by code_simp
  with h alias_is_module_name [of demo_eng demo_fs "''/lib''" "''m.rts''" new_eng] show ?thesis
    by (auto split: sum.splits prod.splits)
qed

section \<open>The state stays well formed\<close>

definition eng_ok :: "Eng \<Rightarrow> bool" where
  "eng_ok s \<longleftrightarrow> store_ok (egStore s)
     \<and> (\<forall>p ent. egC s p = Some ent \<longrightarrow> comp_ok (meComp ent) (NewCtx (egStore s)))"

abbreviation n_store :: "Eng \<Rightarrow> nat" where
  "n_store s \<equiv> length (egStore s)"

text \<open>An operation that keeps the state, ends (under \<open>b\<close>), and returns what \<open>Q\<close> says.\<close>

definition espec :: "bool \<Rightarrow> Eng \<Rightarrow> 'a eng \<Rightarrow> ('a \<Rightarrow> Eng \<Rightarrow> bool) \<Rightarrow> bool" where
  "espec b s m Q \<longleftrightarrow>
     (case m s of (r, s') \<Rightarrow> eng_ok s' \<and> n_store s \<le> n_store s' \<and>
       (case r of Inl e \<Rightarrow> b \<longrightarrow> e \<noteq> ErrRun OutOfFuel | Inr x \<Rightarrow> Q x s'))"

lemma espec_bind:
  assumes "espec b s m Q" "\<And>x s1. eng_ok s1 \<Longrightarrow> n_store s \<le> n_store s1 \<Longrightarrow> Q x s1 \<Longrightarrow> espec b s1 (f x) R"
  shows "espec b s (ebind m f) R"
proof (cases "m s")
  case (Pair r s1)
  with assms(1) have m: "eng_ok s1" "n_store s \<le> n_store s1"
    "case r of Inl e \<Rightarrow> b \<longrightarrow> e \<noteq> ErrRun OutOfFuel | Inr x \<Rightarrow> Q x s1" by (auto simp: espec_def)
  show ?thesis
  proof (cases r)
    case (Inl e)
    with m Pair show ?thesis by (simp add: espec_def ebind_def)
  next
    case (Inr x)
    with m have "espec b s1 (f x) R" by (intro assms(2)) simp_all
    with Inr Pair m show ?thesis by (auto simp: espec_def ebind_def)
  qed
qed

lemma espec_ret: "eng_ok s \<Longrightarrow> Q x s \<Longrightarrow> espec b s (eret x) Q"
  by (simp add: espec_def eret_def)

lemma espec_fail: "eng_ok s \<Longrightarrow> e \<noteq> ErrRun OutOfFuel \<Longrightarrow> espec b s (efail e) Q"
  by (simp add: espec_def efail_def)

lemma espec_lift:
  "eng_ok s \<Longrightarrow> (\<And>e. r = Inl e \<Longrightarrow> e \<noteq> ErrRun OutOfFuel) \<Longrightarrow> (\<And>x. r = Inr x \<Longrightarrow> Q x s) \<Longrightarrow> espec b s (elift r) Q"
  by (cases r) (simp_all add: espec_def elift_def)

lemma vals_ok_mono: "vals_ok n m \<Longrightarrow> n \<le> k \<Longrightarrow> vals_ok k m"
  by (auto simp: vals_ok_def list_all_iff intro: val_ok_mono)

lemma comp_ok_mono: "comp_ok c (NewCtx st) \<Longrightarrow> length st \<le> length st' \<Longrightarrow> comp_ok c (NewCtx st')"
  by (auto simp: comp_ok_def NewCtx_def intro: vals_ok_mono)

lemma NewCtx_state: "store_ok st \<Longrightarrow> state_ok (NewCtx st)" "n_envs (NewCtx st) = length st" "vm_steps (NewCtx st) = 0"
  by (simp_all add: NewCtx_def state_ok_def)

lemma espec_in_ctx:
  assumes "eng_ok s" "vspec b (n_store s) {} no_sig (NewCtx (egStore s)) m Q"
  shows "espec b s (in_ctx m) (\<lambda>x s'. \<exists>vm. vm_envs vm = egStore s' \<and> Q x vm)"
proof (cases "m (NewCtx (egStore s))")
  case (Pair r vm)
  with assms(2) have m: "state_ok vm" "vframe (n_store s) {} (NewCtx (egStore s)) vm"
    "case r of Inl e \<Rightarrow> (if e = OutOfFuel then \<not> b else no_sig e vm) | Inr x \<Rightarrow> Q x vm"
    by (simp_all add: vspec_def)
  have len: "n_store s \<le> length (vm_envs vm)"
    using m(2) by (simp add: vframe_def env_ext_def NewCtx_def)
  have "eng_ok (s\<lparr>egStore := vm_envs vm\<rparr>)"
    using assms(1) m(1) comp_ok_mono [OF _ len] by (auto simp: eng_ok_def state_ok_def)
  with Pair m(3) len show ?thesis
    by (auto simp: espec_def in_ctx_def split: sum.splits if_splits)
qed

lemma espec_weaken:
  "espec b s m Q \<Longrightarrow> (\<And>x s'. eng_ok s' \<Longrightarrow> n_store s \<le> n_store s' \<Longrightarrow> Q x s' \<Longrightarrow> R x s') \<Longrightarrow> espec b s m R"
  by (auto simp: espec_def split: prod.splits sum.splits)

text \<open>What is asked of the engine's configuration and of the bindings of a caller.\<close>

definition layers_ok :: "nat \<Rightarrow> EngCfg \<Rightarrow> bool" where
  "layers_ok n g \<longleftrightarrow> cfg_ok (egCf g) \<and> cfg_ok (mod_cf g) \<and> vals_ok n (egStd g) \<and> list_all (vals_ok n) (egMod g)"

definition call_ok :: "nat \<Rightarrow> EvalConfig \<Rightarrow> bool" where
  "call_ok n cfg \<longleftrightarrow> list_all (vals_ok n) (Bindings cfg) \<and> vals_ok n (Locals cfg) \<and> vals_ok n (Overrides cfg)"

definition eng_fuel :: "EngCfg \<Rightarrow> bool" where
  "eng_fuel g \<longleftrightarrow> fuel_ev (max_steps (egCf g)) 0 (egFuel g) \<and> fuel_ev (max_steps (mod_cf g)) 0 (egFuel g)"

lemma layers_ok_mono: "layers_ok n g \<Longrightarrow> n \<le> k \<Longrightarrow> layers_ok k g"
  by (auto simp: layers_ok_def list_all_iff intro: vals_ok_mono)

lemma call_ok_mono: "call_ok n cfg \<Longrightarrow> n \<le> k \<Longrightarrow> call_ok k cfg"
  by (auto simp: call_ok_def list_all_iff intro: vals_ok_mono)

lemma vals_ok_put: "vals_ok n m \<Longrightarrow> val_ok n v \<Longrightarrow> vals_ok n (smap_put k v m)"
  using set_smap_put [of k v m] by (fastforce simp: vals_ok_def list_all_iff)

lemma vals_ok_layer: "vals_ok n l \<Longrightarrow> vals_ok n p \<Longrightarrow> vals_ok n (mod_layer p l)"
proof (induction l arbitrary: p)
  case (Cons e l)
  then show ?case using vals_ok_put [of n p "snd e" "fst e"]
    by (cases e) (auto simp: mod_layer_def vals_ok_def [of n "(_, _) # _"] vals_ok_def [of n l])
qed (simp add: mod_layer_def)

lemma modulePre_ok: "layers_ok n g \<Longrightarrow> vals_ok n (modulePre g)"
proof -
  have "list_all (vals_ok n) ls \<Longrightarrow> vals_ok n p \<Longrightarrow> vals_ok n (foldl mod_layer p ls)" for ls p
    by (induction ls arbitrary: p) (auto intro: vals_ok_layer)
  then show "layers_ok n g \<Longrightarrow> ?thesis" by (auto simp: modulePre_def layers_ok_def)
qed

lemma addExtensions_vals:
  "addExtensions pos p l = Inr q \<Longrightarrow> vals_ok n l \<Longrightarrow> vals_ok n p \<Longrightarrow> vals_ok n q"
  by (induction pos p l rule: addExtensions.induct)
    (auto simp: vals_ok_def [of n "(_, _) # _"] vals_ok_def [of n "_ :: binds"] split: if_splits
      intro: vals_ok_put [unfolded vals_ok_def])

lemma overlayLocals_vals:
  "overlayLocals pos p l = Inr q \<Longrightarrow> vals_ok n l \<Longrightarrow> vals_ok n p \<Longrightarrow> vals_ok n q"
  by (induction pos p l rule: overlayLocals.induct)
    (auto simp: vals_ok_def [of n "(_, _) # _"] vals_ok_def [of n "_ :: binds"] split: if_splits
      intro: vals_ok_put [unfolded vals_ok_def])

lemma add_layers_vals:
  "add_layers pos p ls = Inr q \<Longrightarrow> list_all (vals_ok n) ls \<Longrightarrow> vals_ok n p \<Longrightarrow> vals_ok n q"
  by (induction pos p ls rule: add_layers.induct) (auto split: sum.splits intro: addExtensions_vals)

text \<open>An error of the engine itself is no exhausted bound.\<close>

lemma engine_errors:
  "eng_errf pos msg \<noteq> ErrRun OutOfFuel"
  "addExtensions pos p l = Inl e \<Longrightarrow> e \<noteq> ErrRun OutOfFuel"
  "overlayLocals pos p l = Inl e \<Longrightarrow> e \<noteq> ErrRun OutOfFuel"
proof -
  show er: "eng_errf pos msg \<noteq> ErrRun OutOfFuel" for pos msg by (simp add: eng_errf_def Errf_def)
  show "addExtensions pos p l = Inl e \<Longrightarrow> e \<noteq> ErrRun OutOfFuel"
    by (induction pos p l rule: addExtensions.induct) (auto simp: er split: if_splits)
  show "overlayLocals pos p l = Inl e \<Longrightarrow> e \<noteq> ErrRun OutOfFuel"
    by (induction pos p l rule: overlayLocals.induct) (auto simp: er split: if_splits)
qed

lemma add_layers_err: "add_layers pos p ls = Inl e \<Longrightarrow> e \<noteq> ErrRun OutOfFuel"
  by (induction pos p ls rule: add_layers.induct) (auto split: sum.splits dest: engine_errors(2))

lemma resolve_err: "resolve_loop g fs base pos seen us s = Inl e \<Longrightarrow> e \<noteq> ErrRun OutOfFuel"
proof (induction us arbitrary: seen)
  case (Cons u us)
  have "name_of_use g fs base v s = Inl e \<Longrightarrow> e \<noteq> ErrRun OutOfFuel" for v e
    by (auto simp: name_of_use_def eng_modHead_def engine_errors split: if_splits sum.splits option.splits)
  with Cons show ?case
    by (auto simp: engine_errors split: option.splits sum.splits if_splits)
qed simp

lemma wf_parsed: "ParseModuleAt path src pos = Inr m \<Longrightarrow> list_all (wf_stmt []) (mStmts m)"
  using parseMod_outcome [of path src pos]
  by (auto simp: ParseModuleAt_def mod_outcome_def list_all_iff split: sum.splits)

lemma espec_Load:
  assumes "eng_ok s" "layers_ok (n_store s) g"
  shows "espec (eng_fuel g) s (Load g fs base path) (\<lambda>(cp, _) s'. vals_ok (n_store s') (cpExp cp))"
proof (cases "Load g fs base path s")
  case (Pair r s')
  have "espec (eng_fuel g) s (run_module g m) (\<lambda>cp s'. comp_ok cp (NewCtx (egStore s')))"
    if "ParseModule p data = Inr m" for p data m
  proof -
    have wf: "list_all (wf_stmt []) (mStmts m)" using that wf_parsed by (simp add: ParseModule_def)
    note st = NewCtx_state [of "egStore s"]
    have "vspec (fuel_ev (max_steps (mod_cf g)) 0 (egFuel g)) (n_store s) {} no_sig (NewCtx (egStore s))
        (Exec (mod_cf g) (egFuel g) m (modulePre g)) comp_ok"
      using spec_Exec [of "mod_cf g" "NewCtx (egStore s)" "modulePre g" m "egFuel g"] assms wf st modulePre_ok
      by (simp add: layers_ok_def eng_ok_def)
    then have "espec (fuel_ev (max_steps (mod_cf g)) 0 (egFuel g)) s (run_module g m)
        (\<lambda>cp s'. \<exists>vm. vm_envs vm = egStore s' \<and> comp_ok cp vm)"
      unfolding run_module_def by (rule espec_in_ctx [OF assms(1)])
    then show ?thesis
      by (auto simp: espec_def eng_fuel_def comp_ok_def NewCtx_def split: prod.splits sum.splits)
  qed
  note run = this [unfolded espec_def]
  from Pair show ?thesis
  proof (cases rule: Load_found)
    case (fail e)
    with assms Pair show ?thesis by (simp add: espec_def)
  next
    case (found p fp)
    show ?thesis
    proof (cases "cache_get p fp s")
      case (Some cp)
      with assms(1) have "vals_ok (n_store s) (cpExp cp)"
        by (auto simp: cache_get_def eng_ok_def comp_ok_def NewCtx_def split: option.splits if_splits)
      with Some assms(1) show ?thesis by (simp add: espec_def Load_steps [OF found])
    next
      case None
      have fresh: "Load g fs base path s = load_fresh g fs p fp s" using None Load_steps [OF found] by simp
      show ?thesis
      proof (cases "fsReadFile fs p")
        case (Inl e)
        with assms(1) show ?thesis by (simp add: espec_def fresh load_fresh_def)
      next
        case data: (Inr data)
        show ?thesis
        proof (cases "ParseModule p data")
          case (Inl e)
          with data assms(1) show ?thesis by (simp add: espec_def fresh load_fresh_def)
        next
          case m: (Inr m)
          obtain r1 s1 where r1: "run_module g m s = (r1, s1)" by fastforce
          with run [OF m] have ok: "eng_ok s1" "n_store s \<le> n_store s1"
            "case r1 of Inl e \<Rightarrow> eng_fuel g \<longrightarrow> e \<noteq> ErrRun OutOfFuel | Inr cp \<Rightarrow> comp_ok cp (NewCtx (egStore s1))"
            by simp_all
          show ?thesis
          proof (cases r1)
            case (Inl e)
            with data m r1 ok show ?thesis by (simp add: espec_def fresh load_fresh_def)
          next
            case (Inr cp)
            with ok have "eng_ok (cache_set p fp cp s1)" "egStore (cache_set p fp cp s1) = egStore s1"
              "vals_ok (n_store s1) (cpExp cp)"
              by (auto simp: eng_ok_def cache_set_def comp_ok_def NewCtx_def)
            with data m r1 Inr ok(2) show ?thesis by (simp add: espec_def fresh load_fresh_def)
          qed
        qed
      qed
    qed
  qed
qed

lemma espec_load_uses:
  "eng_ok s \<Longrightarrow> layers_ok (n_store s) g \<Longrightarrow> vals_ok (n_store s) p \<Longrightarrow>
     espec (eng_fuel g) s (load_uses g fs base p us) (\<lambda>q s'. vals_ok (n_store s') q)"
proof (induction us arbitrary: p s)
  case (Cons u us)
  show ?case
    unfolding load_uses.simps
  proof (rule espec_bind [OF espec_Load [OF Cons.prems(1,2)]], goal_cases)
    case (1 x s1)
    obtain cp q where x: "x = (cp, q)" by fastforce
    have "vals_ok (n_store s1) (smap_put (useAlias u) (NewModObj (useAlias u) (cpExp cp)) p)"
      using 1(3) vals_ok_mono [OF Cons.prems(3) 1(2)]
      by (intro vals_ok_put) (auto simp: x NewModObj_def vals_ok_def list_all_iff)
    then show ?case
      using Cons.IH [OF 1(1)] layers_ok_mono [OF Cons.prems(2) 1(2)] by (simp add: x)
  qed
qed (simp add: espec_ret)

lemma espec_addUses:
  assumes "eng_ok s" "layers_ok (n_store s) g" "vals_ok (n_store s) p"
  shows "espec (eng_fuel g) s (addUses g fs cfg p pos) (\<lambda>q s'. vals_ok (n_store s') q)"
proof (cases "resolveUses g fs cfg p pos s")
  case (Inl e)
  then show ?thesis using assms(1) resolve_err by (auto simp: espec_def addUses_def resolveUses_def)
next
  case (Inr us)
  then show ?thesis using espec_load_uses [OF assms] by (simp add: espec_def addUses_def)
qed

lemma espec_buildPre:
  assumes "eng_ok s" "layers_ok (n_store s) g" "call_ok (n_store s) cfg"
  shows "espec (eng_fuel g) s (buildPre g fs cfg pos) (\<lambda>q s'. vals_ok (n_store s') q)"
  unfolding buildPre_def
proof (rule espec_bind [OF espec_lift [OF assms(1) add_layers_err, where Q = "\<lambda>q s'. s' = s \<and> vals_ok (n_store s) q"]])
  fix q assume "add_layers pos (modulePre g) (Bindings cfg) = Inr q"
  then show "s = s \<and> vals_ok (n_store s) q"
    using add_layers_vals modulePre_ok [OF assms(2)] assms(3) by (auto simp: call_ok_def)
next
  fix p1 s1
  assume "eng_ok s1" "n_store s \<le> n_store s1" "s1 = s \<and> vals_ok (n_store s) p1"
  then have p1: "vals_ok (n_store s) p1" "s1 = s" by simp_all
  show "espec (eng_fuel g) s1 (ebind (addUses g fs cfg p1 pos) (\<lambda>p2.
     ebind (elift (overlayLocals pos p2 (Locals cfg))) (\<lambda>p3. elift (overlayLocals pos p3 (Overrides cfg)))))
     (\<lambda>q s'. vals_ok (n_store s') q)"
    unfolding p1(2)
  proof (rule espec_bind [OF espec_addUses [OF assms(1,2) p1(1)]])
    fix p2 s2
    assume s2: "eng_ok s2" "n_store s \<le> n_store s2" "vals_ok (n_store s2) p2"
    have c: "vals_ok (n_store s2) (Locals cfg)" "vals_ok (n_store s2) (Overrides cfg)"
      using call_ok_mono [OF assms(3) s2(2)] by (auto simp: call_ok_def)
    show "espec (eng_fuel g) s2 (ebind (elift (overlayLocals pos p2 (Locals cfg)))
        (\<lambda>p3. elift (overlayLocals pos p3 (Overrides cfg)))) (\<lambda>q s'. vals_ok (n_store s') q)"
      by (rule espec_bind [OF espec_lift [OF s2(1) engine_errors(3), where Q = "\<lambda>q s'. vals_ok (n_store s') q"]])
        (use c s2 in \<open>auto intro!: espec_lift dest: engine_errors(3) intro: overlayLocals_vals vals_ok_mono\<close>)
  qed
qed

lemma espec_run:
  assumes "eng_ok s" "vspec (fuel_ev (max_steps (egCf g)) 0 (egFuel g)) (n_store s) {} no_sig (NewCtx (egStore s)) m Q"
    and "\<And>x vm s'. vm_envs vm = egStore s' \<Longrightarrow> Q x vm \<Longrightarrow> R x s'"
  shows "espec (eng_fuel g) s (in_ctx m) R"
  using espec_in_ctx [OF assms(1,2)] assms(3)
  by (fastforce simp: espec_def eng_fuel_def split: prod.splits sum.splits)

lemma espec_Eval:
  assumes "eng_ok s" "layers_ok (n_store s) g" "call_ok (n_store s) cfg"
  shows "espec (eng_fuel g) s (Eval g fs cfg src pos) (\<lambda>v s'. val_ok (n_store s') v)"
  unfolding Eval_def
proof (rule espec_bind [OF espec_buildPre [OF assms]])
  fix pre s1
  assume s1: "eng_ok s1" "n_store s \<le> n_store s1" "vals_ok (n_store s1) pre"
  show "espec (eng_fuel g) s1 (case ParseExpr (Path pos) (Line pos) (Col pos) src of
         Inl e \<Rightarrow> efail (ErrParse e)
       | Inr x \<Rightarrow> in_ctx (eval_source (egCf g) (egFuel g) pre (Site cfg) x pos)) (\<lambda>v s'. val_ok (n_store s') v)"
  proof (cases "ParseExpr (Path pos) (Line pos) (Col pos) src")
    case (Inl e)
    with s1 show ?thesis by (simp add: espec_fail)
  next
    case (Inr x)
    note st = NewCtx_state [of "egStore s1"]
    have "vspec (fuel_ev (max_steps (egCf g)) 0 (egFuel g)) (n_store s1) {} no_sig (NewCtx (egStore s1))
        (eval_source (egCf g) (egFuel g) pre (Site cfg) x pos) val_result"
      using spec_eval_source [of "egCf g" "NewCtx (egStore s1)" pre "egFuel g" "Site cfg" x pos] s1 st assms(2)
      by (simp add: layers_ok_def eng_ok_def)
    then show ?thesis
      using Inr by (auto intro!: espec_run [OF s1(1)] simp: val_result_def)
  qed
qed

lemma espec_ExecModule:
  assumes "eng_ok s" "layers_ok (n_store s) g" "call_ok (n_store s) cfg"
  shows "espec (eng_fuel g) s (ExecModule g fs cfg src pos) (\<lambda>cp s'. comp_ok cp (NewCtx (egStore s')))"
  unfolding ExecModule_def
proof (rule espec_bind [OF espec_buildPre [OF assms]])
  fix pre s1
  assume s1: "eng_ok s1" "n_store s \<le> n_store s1" "vals_ok (n_store s1) pre"
  let ?b = "fuel_ev (max_steps (egCf g)) 0 (egFuel g)"
  show "espec (eng_fuel g) s1 (case ParseModuleAt (Path pos) src pos of
         Inl e \<Rightarrow> efail (ErrParse e)
       | Inr m \<Rightarrow>
           in_ctx (if Site cfg = [] then Exec (egCf g) (egFuel g) m pre
                   else with_frame 0 \<lparr>frKind = FrameExpr, frPos = pos, frName = Site cfg\<rparr>
                          (Exec (egCf g) (egFuel g) m pre))) (\<lambda>cp s'. comp_ok cp (NewCtx (egStore s')))"
  proof (cases "ParseModuleAt (Path pos) src pos")
    case (Inl e)
    with s1 show ?thesis by (simp add: espec_fail)
  next
    case (Inr m)
    note st = NewCtx_state [of "egStore s1"]
    have ex: "vspec ?b (n_store s1) {} no_sig vm (Exec (egCf g) (egFuel g) m pre) comp_ok"
      if "state_ok vm" "n_envs vm = n_store s1" "vm_steps vm = 0" for vm
      using spec_Exec [of "egCf g" vm pre m "egFuel g"] s1 that assms(2) wf_parsed [OF Inr]
      by (simp add: layers_ok_def)
    have "vspec ?b (n_store s1) {} no_sig (NewCtx (egStore s1))
        (with_frame 0 \<lparr>frKind = FrameExpr, frPos = pos, frName = Site cfg\<rparr> (Exec (egCf g) (egFuel g) m pre)) comp_ok"
      by (rule vspec_with_frame)
        (use s1 st in \<open>auto simp: eng_ok_def comp_ok_def intro!: ex intro: no_sig_keep\<close>)
    then show ?thesis
      using Inr s1 st ex [of "NewCtx (egStore s1)"]
      by (auto intro!: espec_run [OF s1(1)] simp: comp_ok_def NewCtx_def eng_ok_def)
  qed
qed

text \<open>
  The engine keeps its state: whatever an evaluation or a module run does, and however it ends,
  environments refer to existing environments only, every cached module is well formed in the new
  state, and no environment is lost; a value that is returned belongs to the new state.
\<close>

theorem engine_keeps_state:
  assumes "eng_ok s" "layers_ok (n_store s) g" "call_ok (n_store s) cfg"
  shows "(case Eval g fs cfg src pos s of (r, s') \<Rightarrow> eng_ok s' \<and> n_store s \<le> n_store s'
        \<and> (case r of Inl _ \<Rightarrow> True | Inr v \<Rightarrow> val_ok (n_store s') v))
    \<and> (case ExecModule g fs cfg src pos s of (r, s') \<Rightarrow> eng_ok s' \<and> n_store s \<le> n_store s'
        \<and> (case r of Inl _ \<Rightarrow> True | Inr cp \<Rightarrow> comp_ok cp (NewCtx (egStore s'))))"
  using espec_Eval [OF assms, of fs src pos] espec_ExecModule [OF assms, of fs src pos]
  by (auto simp: espec_def split: prod.splits sum.splits)

text \<open>
  With positive step limits every evaluation and every module run of the engine ends, the modules it has
  to load on the way included: none of them is stopped by the bound of the model.
\<close>

theorem engine_terminates:
  assumes "eng_ok s" "layers_ok (n_store s) g" "call_ok (n_store s) cfg"
    and "0 < max_steps (egCf g)" "0 < max_steps (mod_cf g)"
    and "2 * max_steps (egCf g) < int (egFuel g)" "2 * max_steps (mod_cf g) < int (egFuel g)"
  shows "fst (Eval g fs cfg src pos s) \<noteq> Inl (ErrRun OutOfFuel)
    \<and> fst (ExecModule g fs cfg src pos s) \<noteq> Inl (ErrRun OutOfFuel)"
proof -
  have "eng_fuel g" using assms(4-7) by (simp add: eng_fuel_def fuel_ev_def)
  then show ?thesis
    using espec_Eval [OF assms(1-3), of fs src pos] espec_ExecModule [OF assms(1-3), of fs src pos]
    by (auto simp: espec_def split: prod.splits sum.splits)
qed

lemma demo_ok: "eng_ok new_eng" "layers_ok n demo_eng" "call_ok n demo_cfg"
  using small_cfg_ok(1) [of 9]
  by (auto simp: eng_ok_def new_eng_def store_ok_def layers_ok_def demo_eng_def mod_cf_def vals_ok_def call_ok_def demo_cfg_def)

theorem engine_keeps_state_witness:
  "case Eval demo_eng demo_fs demo_cfg ''m.a'' zero_pos new_eng of (r, s') \<Rightarrow> eng_ok s'"
  using engine_keeps_state [OF demo_ok(1) demo_ok(2) demo_ok(3), of demo_fs "''m.a''" zero_pos]
  by (auto split: prod.splits)

theorem engine_terminates_witness:
  "fst (ExecModule demo_eng demo_fs demo_cfg ''for { }'' zero_pos new_eng) \<noteq> Inl (ErrRun OutOfFuel)"
  using engine_terminates [OF demo_ok(1) demo_ok(2) demo_ok(3), of demo_fs "''for { }''" zero_pos]
  by (simp add: demo_eng_def mod_cf_def small_cfg_def)

end
