(* ===== verification/TunnelPool.thy ===== *)
theory TunnelPool
  imports Main "HOL-Library.Multiset"
begin

text \<open>
  The session pool of the tunnels (\<open>internal/tunnel/pool.go\<close>), shared by the SSH and Kubernetes managers:
  live sessions are cached by key, concurrent opens of one key are deduplicated, and a key stays reserved
  while a session of it is being closed.

  Any number of goroutines call the pool. A \<open>PC\<close> is the point one of them has reached, with the values it
  holds there; a step runs one critical section of the mutex, or one action outside of it (a session is
  closed, a dial returns, a channel is received from). Sessions belong to the callers: opening, dialling,
  \<open>Alive\<close> and \<open>Close\<close> may answer anything at any time. A session is named by the order in which
  sessions were handed to the pool, a channel and an entry by the order of their allocation.
\<close>

section \<open>State\<close>

record poolEntry =
  pe_id :: nat
  pe_ses :: nat
  pe_used :: int

record 'k staleEntry =
  st_key :: 'k
  st_ses :: nat
  st_token :: "nat option"

text \<open>
  The fields of \<open>Pool\<close>, and what the program keeps outside of it: the allocation counters, the channels
  and the sessions closed so far, and whether a channel was closed twice (a panic in Go).
\<close>

record 'k Pool =
  pl_entries :: "'k \<rightharpoonup> poolEntry"
  pl_inflight :: "'k \<rightharpoonup> nat"
  pl_closed :: bool
  pl_ttl :: int
  h_nextchan :: nat
  h_nextent :: nat
  h_nextses :: nat
  h_done :: "nat set"
  h_sesclosed :: "nat set"
  h_panic :: bool

definition NewPool :: "int \<Rightarrow> 'k Pool" where
  "NewPool ttl = \<lparr>pl_entries = Map.empty, pl_inflight = Map.empty, pl_closed = False, pl_ttl = ttl,
     h_nextchan = 0, h_nextent = 0, h_nextses = 0, h_done = {}, h_sesclosed = {}, h_panic = False\<rparr>"

definition Closed :: "'k Pool \<Rightarrow> bool" where
  "Closed p = pl_closed p"

definition Len :: "'k Pool \<Rightarrow> nat" where
  "Len p = card (dom (pl_entries p))"

definition Peek :: "'k \<Rightarrow> 'k Pool \<Rightarrow> nat option" where
  "Peek k p = map_option pe_ses (pl_entries p k)"

text \<open>\<open>time.Time.Sub\<close> saturates at the ends of \<open>time.Duration\<close>.\<close>

definition time_sub :: "int \<Rightarrow> int \<Rightarrow> int" where
  "time_sub a b = max (- (2 ^ 63)) (min (2 ^ 63 - 1) (a - b))"

definition chan_close :: "nat \<Rightarrow> 'k Pool \<Rightarrow> 'k Pool" where
  "chan_close c p = (if c \<in> h_done p then p\<lparr>h_panic := True\<rparr> else p\<lparr>h_done := insert c (h_done p)\<rparr>)"

definition ses_close :: "nat \<Rightarrow> 'k Pool \<Rightarrow> 'k Pool" where
  "ses_close s p = p\<lparr>h_sesclosed := insert s (h_sesclosed p)\<rparr>"

text \<open>A channel is made and stored under the key.\<close>

definition reserve :: "'k \<Rightarrow> 'k Pool \<Rightarrow> nat \<times> 'k Pool" where
  "reserve k p = (h_nextchan p,
     p\<lparr>pl_inflight := (pl_inflight p)(k \<mapsto> h_nextchan p), h_nextchan := Suc (h_nextchan p)\<rparr>)"

section \<open>Operations under the mutex\<close>

definition release :: "'k \<Rightarrow> nat \<Rightarrow> 'k Pool \<Rightarrow> 'k Pool" where
  "release k token p = (case pl_inflight p k of
       Some cur \<Rightarrow> if cur = token then chan_close token (p\<lparr>pl_inflight := (pl_inflight p)(k := None)\<rparr>) else p
     | None \<Rightarrow> p)"

definition removeLocked :: "'k \<Rightarrow> poolEntry \<Rightarrow> 'k Pool \<Rightarrow> 'k staleEntry \<times> 'k Pool" where
  "removeLocked k e p =
     (let p1 = p\<lparr>pl_entries := (pl_entries p)(k := None)\<rparr> in
      case pl_inflight p1 k of
        None \<Rightarrow> let (ch, p2) = reserve k p1 in (\<lparr>st_key = k, st_ses = pe_ses e, st_token = Some ch\<rparr>, p2)
      | Some _ \<Rightarrow> (\<lparr>st_key = k, st_ses = pe_ses e, st_token = None\<rparr>, p1))"

text \<open>The entries are visited in some order \<open>ks\<close> of the keys; \<open>al\<close> is what \<open>Alive\<close> answers.\<close>

fun purgeLocked :: "int \<Rightarrow> (nat \<Rightarrow> bool) \<Rightarrow> 'k list \<Rightarrow> 'k Pool \<Rightarrow> 'k staleEntry list \<times> 'k Pool" where
  "purgeLocked now al [] p = ([], p)"
| "purgeLocked now al (k # ks) p = (case pl_entries p k of
       None \<Rightarrow> purgeLocked now al ks p
     | Some e \<Rightarrow>
         if time_sub now (pe_used e) \<le> pl_ttl p \<and> al (pe_ses e) then purgeLocked now al ks p
         else let (st, p1) = removeLocked k e p; (sts, p2) = purgeLocked now al ks p1 in (st # sts, p2))"

text \<open>An order in which a map is ranged over.\<close>

definition orders :: "'k list \<Rightarrow> ('k \<rightharpoonup> 'v) \<Rightarrow> bool" where
  "orders ks m \<longleftrightarrow> distinct ks \<and> set ks = dom m"

section \<open>Program points\<close>

datatype poolErr = ErrPoolClosed | ErrCtx | ErrOpen | ErrDial | ErrClose

datatype poolRes = Conn nat | Fail "poolErr list" | Void

text \<open>
  \<open>Stale\<close> and \<open>StaleRel\<close> are the two halves of one round of \<open>closeStale\<close>; \<open>CloseSes\<close>, \<open>Releasing\<close> and they
  carry the point that follows. \<open>FailStale\<close> and \<open>FailSes\<close> are the closes whose error joins the one returned.
\<close>

datatype 'k PC =
    Idle
  | AtTry 'k
  | Stale "'k staleEntry" "'k staleEntry list" "'k PC"
  | StaleRel "'k staleEntry" "'k staleEntry list" "'k PC"
  | Probe 'k poolEntry
  | AtEvict 'k poolEntry
  | CloseSes nat "'k PC"
  | Waiting 'k nat
  | AtClaim 'k
  | Opening 'k nat
  | Opened 'k nat nat
  | Releasing 'k nat "'k PC"
  | Redial 'k poolEntry
  | DialNew 'k poolEntry
  | AtDrop 'k poolEntry
  | FailStale "'k staleEntry"
  | FailSes nat "poolErr list"
  | Closing "nat list" "nat list" "poolErr list"
  | Done poolRes

fun is_idle :: "'k PC \<Rightarrow> bool" where
  "is_idle Idle = True"
| "is_idle (Done r) = True"
| "is_idle _ = False"

fun closeStale :: "'k staleEntry list \<Rightarrow> 'k PC \<Rightarrow> 'k PC" where
  "closeStale [] nx = nx"
| "closeStale (st # sts) nx = Stale st sts nx"

text \<open>A close that fails adds its error (\<open>errors.Join\<close>).\<close>

definition joinClose :: "bool \<Rightarrow> poolErr list \<Rightarrow> poolErr list" where
  "joinClose ok es = (if ok then es else es @ [ErrClose])"

section \<open>Critical sections\<close>

text \<open>\<open>tryCached\<close> up to its unlock; \<open>now\<close> and \<open>now2\<close> are its two readings of the clock.\<close>

definition tryCached :: "int \<Rightarrow> int \<Rightarrow> (nat \<Rightarrow> bool) \<Rightarrow> 'k list \<Rightarrow> 'k \<Rightarrow> 'k Pool \<Rightarrow> 'k PC \<times> 'k Pool" where
  "tryCached now now2 al ks k p =
     (if pl_closed p then (Done (Fail [ErrPoolClosed]), p)
      else let (stale, p1) = purgeLocked now al ks p in
        case pl_entries p1 k of
          Some e \<Rightarrow> (closeStale stale (Probe k e),
                     p1\<lparr>pl_entries := (pl_entries p1)(k \<mapsto> e\<lparr>pe_used := now2\<rparr>)\<rparr>)
        | None \<Rightarrow> (closeStale stale (case pl_inflight p1 k of None \<Rightarrow> AtClaim k | Some ch \<Rightarrow> Waiting k ch), p1))"

definition claim :: "int \<Rightarrow> (nat \<Rightarrow> bool) \<Rightarrow> 'k list \<Rightarrow> 'k \<Rightarrow> 'k Pool \<Rightarrow> 'k PC \<times> 'k Pool" where
  "claim now al ks k p =
     (if pl_closed p then (Done (Fail [ErrPoolClosed]), p)
      else let (stale, p1) = purgeLocked now al ks p in
        if pl_entries p1 k \<noteq> None \<or> pl_inflight p1 k \<noteq> None then (closeStale stale (AtTry k), p1)
        else let (ch, p2) = reserve k p1 in (closeStale stale (Opening k ch), p2))"

text \<open>The middle of \<open>openNew\<close>, where the opened session \<open>s\<close> is stored.\<close>

definition storeNew :: "int \<Rightarrow> (nat \<Rightarrow> bool) \<Rightarrow> 'k \<Rightarrow> nat \<Rightarrow> nat \<Rightarrow> 'k Pool \<Rightarrow> 'k PC \<times> 'k Pool" where
  "storeNew now al k token s p =
     (let e = \<lparr>pe_id = h_nextent p, pe_ses = s, pe_used = now\<rparr>;
          stored = (Releasing k token (DialNew k e),
                    p\<lparr>pl_entries := (pl_entries p)(k \<mapsto> e), h_nextent := Suc (h_nextent p)\<rparr>) in
      if pl_closed p then (Releasing k token (FailSes s [ErrPoolClosed]), p)
      else case pl_entries p k of
             Some cur \<Rightarrow> if al (pe_ses cur) then (CloseSes s (Releasing k token (Redial k cur)), p) else stored
           | None \<Rightarrow> stored)"

text \<open>
  The entry of the key, when it is the entry \<open>e\<close>: entries are compared as pointers are, and what the pointer
  points to is in the table.
\<close>

definition current :: "'k \<Rightarrow> poolEntry \<Rightarrow> 'k Pool \<Rightarrow> poolEntry option" where
  "current k e p = (case pl_entries p k of
       Some cur \<Rightarrow> if pe_id cur = pe_id e then Some cur else None
     | None \<Rightarrow> None)"

definition evict :: "'k \<Rightarrow> poolEntry \<Rightarrow> 'k Pool \<Rightarrow> 'k PC \<times> 'k Pool" where
  "evict k e p = (case current k e p of
       Some cur \<Rightarrow> let (st, p1) = removeLocked k cur p in (closeStale [st] (AtTry k), p1)
     | None \<Rightarrow> (CloseSes (pe_ses e) (AtTry k), p))"

text \<open>The end of \<open>openNew\<close>, after the dial of its own session failed.\<close>

definition dropNew :: "'k \<Rightarrow> poolEntry \<Rightarrow> 'k Pool \<Rightarrow> 'k PC \<times> 'k Pool" where
  "dropNew k e p = (case current k e p of
       Some cur \<Rightarrow> let (st, p1) = removeLocked k cur p in (FailStale st, p1)
     | None \<Rightarrow> (FailSes (pe_ses e) [ErrDial], p))"

definition Put :: "int \<Rightarrow> 'k \<Rightarrow> nat \<Rightarrow> 'k Pool \<Rightarrow> 'k PC \<times> 'k Pool" where
  "Put now k s p =
     (if pl_closed p then (CloseSes s (Done Void), p)
      else (case pl_entries p k of None \<Rightarrow> Done Void | Some cur \<Rightarrow> CloseSes (pe_ses cur) (Done Void),
            p\<lparr>pl_entries := (pl_entries p)(k \<mapsto> \<lparr>pe_id = h_nextent p, pe_ses = s, pe_used = now\<rparr>),
              h_nextent := Suc (h_nextent p)\<rparr>))"

text \<open>\<open>is\<close> and \<open>es\<close> are the orders in which \<open>Close\<close> ranges over the two maps it took away.\<close>

definition Close :: "'k list \<Rightarrow> 'k list \<Rightarrow> 'k Pool \<Rightarrow> 'k PC \<times> 'k Pool" where
  "Close is es p =
     (if pl_closed p then (Done Void, p)
      else (Closing (map (the \<circ> pl_inflight p) is) (map (pe_ses \<circ> the \<circ> pl_entries p) es) [],
            p\<lparr>pl_closed := True, pl_entries := Map.empty, pl_inflight := Map.empty\<rparr>))"

section \<open>Steps\<close>

text \<open>
  \<open>thread_step b q p q' p'\<close>: a goroutine at \<open>q\<close> moves to \<open>q'\<close> and takes the pool from \<open>p\<close> to \<open>p'\<close>. Clients may
  call \<open>Put\<close> only where \<open>b\<close> holds; the managers never do.
\<close>

inductive thread_step :: "bool \<Rightarrow> 'k PC \<Rightarrow> 'k Pool \<Rightarrow> 'k PC \<Rightarrow> 'k Pool \<Rightarrow> bool" for b where
  dial: "is_idle q \<Longrightarrow> thread_step b q p (AtTry k) p"
| try_cached: "orders ks (pl_entries p) \<Longrightarrow> tryCached now now2 al ks k p = (q', p') \<Longrightarrow>
    thread_step b (AtTry k) p q' p'"
| stale_close: "thread_step b (Stale st sts nx) p (StaleRel st sts nx) (ses_close (st_ses st) p)"
| stale_release: "p' = (case st_token st of None \<Rightarrow> p | Some token \<Rightarrow> release (st_key st) token p) \<Longrightarrow>
    thread_step b (StaleRel st sts nx) p (closeStale sts nx) p'"
| probe_ok: "thread_step b (Probe k e) p (Done (Conn (pe_ses e))) p"
| probe_fails: "thread_step b (Probe k e) p (AtEvict k e) p"
| evicts: "evict k e p = (q', p') \<Longrightarrow> thread_step b (AtEvict k e) p q' p'"
| close_ses: "thread_step b (CloseSes s nx) p nx (ses_close s p)"
| wait_done: "ch \<in> h_done p \<Longrightarrow> thread_step b (Waiting k ch) p (AtTry k) p"
| wait_ctx: "thread_step b (Waiting k ch) p (Done (Fail [ErrCtx])) p"
| claims: "orders ks (pl_entries p) \<Longrightarrow> claim now al ks k p = (q', p') \<Longrightarrow> thread_step b (AtClaim k) p q' p'"
| open_ok: "thread_step b (Opening k ch) p (Opened k ch (h_nextses p)) (p\<lparr>h_nextses := Suc (h_nextses p)\<rparr>)"
| open_fails: "thread_step b (Opening k ch) p (Releasing k ch (Done (Fail [ErrOpen]))) p"
| stores: "storeNew now al k ch s p = (q', p') \<Longrightarrow> thread_step b (Opened k ch s) p q' p'"
| releases: "thread_step b (Releasing k ch nx) p nx (release k ch p)"
| redial_ok: "thread_step b (Redial k e) p (Done (Conn (pe_ses e))) p"
| redial_fails: "thread_step b (Redial k e) p (AtEvict k e) p"
| dial_new_ok: "thread_step b (DialNew k e) p (Done (Conn (pe_ses e))) p"
| dial_new_fails: "thread_step b (DialNew k e) p (AtDrop k e) p"
| drops: "dropNew k e p = (q', p') \<Longrightarrow> thread_step b (AtDrop k e) p q' p'"
| fail_stale: "thread_step b (FailStale st) p (StaleRel st [] (Done (Fail (joinClose ok [ErrDial]))))
    (ses_close (st_ses st) p)"
| fail_ses: "thread_step b (FailSes s es) p (Done (Fail (joinClose ok es))) (ses_close s p)"
| put: "b \<Longrightarrow> is_idle q \<Longrightarrow> Put now k (h_nextses p) (p\<lparr>h_nextses := Suc (h_nextses p)\<rparr>) = (q', p') \<Longrightarrow>
    thread_step b q p q' p'"
| close: "is_idle q \<Longrightarrow> orders is (pl_inflight p) \<Longrightarrow> orders es (pl_entries p) \<Longrightarrow> Close is es p = (q', p') \<Longrightarrow>
    thread_step b q p q' p'"
| closing_chan: "thread_step b (Closing (ch # chs) ss es) p (Closing chs ss es) (chan_close ch p)"
| closing_ses: "thread_step b (Closing [] (s # ss) es) p (Closing [] ss (joinClose ok es)) (ses_close s p)"
| closing_end: "thread_step b (Closing [] [] es) p (Done (if es = [] then Void else Fail es)) p"

text \<open>The program: the pool and one program point for each goroutine.\<close>

record 'k Sys =
  sy_pool :: "'k Pool"
  sy_pc :: "nat \<Rightarrow> 'k PC"

definition sys_init :: "int \<Rightarrow> 'k Sys" where
  "sys_init ttl = \<lparr>sy_pool = NewPool ttl, sy_pc = (\<lambda>_. Idle)\<rparr>"

inductive sys_step :: "bool \<Rightarrow> nat \<Rightarrow> 'k Sys \<Rightarrow> 'k Sys \<Rightarrow> bool" for b t where
  move: "thread_step b (sy_pc s t) (sy_pool s) q p \<Longrightarrow>
    sys_step b t s \<lparr>sy_pool = p, sy_pc = (sy_pc s)(t := q)\<rparr>"

text \<open>A run and the goroutines that moved in it, in order.\<close>

inductive sys_run :: "bool \<Rightarrow> 'k Sys \<Rightarrow> nat list \<Rightarrow> 'k Sys \<Rightarrow> bool" for b where
  run_nil: "sys_run b s [] s"
| run_cons: "sys_step b t s s1 \<Longrightarrow> sys_run b s1 ts s2 \<Longrightarrow> sys_run b s (t # ts) s2"

definition reachable :: "bool \<Rightarrow> 'k Sys \<Rightarrow> bool" where
  "reachable b s \<longleftrightarrow> (\<exists>ttl ts. sys_run b (sys_init ttl) ts s)"

end
