(* ===== verification/TunnelSlots.thy ===== *)
theory TunnelSlots
  imports TunnelPool
begin

text \<open>
  What the \<open>inflight\<close> table of the session pool promises, as a machine of its own: a slot per key that one
  goroutine at a time holds by a channel, the channels a goroutine still has to close after the table was
  shut, and the channels closed so far. The pool refines this machine (the locale \<open>simulates\<close>), so that the
  pool inherits its invariant: holders are unique, every channel ever made is closed or owed by someone,
  and none is closed twice.
\<close>

section \<open>Simulations\<close>

locale simulates =
  fixes cstep :: "'s \<Rightarrow> 's \<Rightarrow> bool" and astep :: "'a \<Rightarrow> 'a \<Rightarrow> bool" and abs :: "'s \<Rightarrow> 'a"
    and ok :: "'s \<Rightarrow> bool"
  assumes keeps_ok: "ok s \<Longrightarrow> cstep s s' \<Longrightarrow> ok s'"
    and sim: "ok s \<Longrightarrow> cstep s s' \<Longrightarrow> astep\<^sup>*\<^sup>* (abs s) (abs s')"
begin

lemma ok_steps: "cstep\<^sup>*\<^sup>* s s' \<Longrightarrow> ok s \<Longrightarrow> ok s'"
  by (induction rule: rtranclp_induct) (auto intro: keeps_ok)

lemma sim_steps: "cstep\<^sup>*\<^sup>* s s' \<Longrightarrow> ok s \<Longrightarrow> astep\<^sup>*\<^sup>* (abs s) (abs s')"
  by (induction rule: rtranclp_induct) (auto intro: rtranclp_trans dest: sim ok_steps)

lemma transfer:
  assumes inv: "\<And>a a'. I a \<Longrightarrow> astep a a' \<Longrightarrow> I a'" and start: "I (abs s)" "ok s" and run: "cstep\<^sup>*\<^sup>* s s'"
  shows "I (abs s')"
proof -
  have "I a'" if "astep\<^sup>*\<^sup>* a a'" "I a" for a a'
    using that by (induction rule: rtranclp_induct) (auto intro: inv)
  with start sim_steps[OF run] show ?thesis by blast
qed

end

section \<open>The slot machine\<close>

record 'k Slots =
  sl_in :: "'k \<rightharpoonup> nat"
  sl_closed :: bool
  sl_next :: nat
  sl_done :: "nat set"
  sl_panic :: bool
  sl_held :: "nat \<Rightarrow> ('k \<times> nat) multiset"
  sl_wake :: "nat \<Rightarrow> nat list"

definition wake_chan :: "nat \<Rightarrow> 'k Slots \<Rightarrow> 'k Slots" where
  "wake_chan c a = (if c \<in> sl_done a then a\<lparr>sl_panic := True\<rparr> else a\<lparr>sl_done := insert c (sl_done a)\<rparr>)"

definition unslot :: "'k \<Rightarrow> nat \<Rightarrow> 'k Slots \<Rightarrow> 'k Slots" where
  "unslot k c a = (if sl_in a k = Some c then wake_chan c (a\<lparr>sl_in := (sl_in a)(k := None)\<rparr>) else a)"

inductive slot_step :: "'k Slots \<Rightarrow> 'k Slots \<Rightarrow> bool" where
  acquire: "\<not> sl_closed a \<Longrightarrow> sl_in a k = None \<Longrightarrow>
    slot_step a (a\<lparr>sl_in := (sl_in a)(k \<mapsto> sl_next a), sl_next := Suc (sl_next a),
      sl_held := (sl_held a)(t := add_mset (k, sl_next a) (sl_held a t))\<rparr>)"
| give_back: "sl_held a t = add_mset (k, c) m \<Longrightarrow>
    slot_step a (unslot k c (a\<lparr>sl_held := (sl_held a)(t := m)\<rparr>))"
| shut: "\<not> sl_closed a \<Longrightarrow> orders ks (sl_in a) \<Longrightarrow> sl_wake a t = [] \<Longrightarrow>
    slot_step a (a\<lparr>sl_closed := True, sl_in := Map.empty, sl_wake := (sl_wake a)(t := map (the \<circ> sl_in a) ks)\<rparr>)"
| wake: "sl_wake a t = c # cs \<Longrightarrow> slot_step a (wake_chan c (a\<lparr>sl_wake := (sl_wake a)(t := cs)\<rparr>))"

section \<open>Its invariant\<close>

text \<open>Who has to close the channel \<open>c\<close>: its holder while the table names it, or who shut the table.\<close>

definition owed :: "'k Slots \<Rightarrow> nat \<Rightarrow> nat \<Rightarrow> bool" where
  "owed a t c \<longleftrightarrow> (\<exists>k. (k, c) \<in># sl_held a t \<and> sl_in a k = Some c) \<or> c \<in> set (sl_wake a t)"

definition holders_unique :: "'k Slots \<Rightarrow> bool" where
  "holders_unique a \<longleftrightarrow> (\<forall>t k c t' k' c'. (k, c) \<in># sl_held a t \<longrightarrow> (k', c') \<in># sl_held a t' \<longrightarrow>
     (k = k' \<or> c = c') \<longrightarrow> t = t' \<and> k = k' \<and> c = c') \<and> (\<forall>t x. count (sl_held a t) x \<le> 1)"

definition holders_in_table :: "'k Slots \<Rightarrow> bool" where
  "holders_in_table a \<longleftrightarrow> (\<forall>t k c. (k, c) \<in># sl_held a t \<longrightarrow> c < sl_next a \<and> (\<not> sl_closed a \<longrightarrow> sl_in a k = Some c)) \<and>
     (\<forall>k c. sl_in a k = Some c \<longrightarrow> \<not> sl_closed a \<and> (\<exists>t. (k, c) \<in># sl_held a t))"

definition wakers_fresh :: "'k Slots \<Rightarrow> bool" where
  "wakers_fresh a \<longleftrightarrow> (\<forall>t. distinct (sl_wake a t)) \<and>
     (\<forall>t t' c. c \<in> set (sl_wake a t) \<longrightarrow> c \<in> set (sl_wake a t') \<longrightarrow> t = t') \<and>
     (\<forall>t c. c \<in> set (sl_wake a t) \<longrightarrow> sl_closed a \<and> c < sl_next a \<and> c \<notin> sl_done a)"

definition done_fresh :: "'k Slots \<Rightarrow> bool" where
  "done_fresh a \<longleftrightarrow> (\<forall>c \<in> sl_done a. c < sl_next a) \<and> (\<forall>k c. sl_in a k = Some c \<longrightarrow> c \<notin> sl_done a) \<and> \<not> sl_panic a"

definition none_forgotten :: "'k Slots \<Rightarrow> bool" where
  "none_forgotten a \<longleftrightarrow> (\<forall>c < sl_next a. c \<in> sl_done a \<or> (\<exists>t. owed a t c))"

definition slot_inv :: "'k Slots \<Rightarrow> bool" where
  "slot_inv a \<longleftrightarrow> holders_unique a \<and> holders_in_table a \<and> wakers_fresh a \<and> done_fresh a \<and> none_forgotten a"

lemmas slot_inv_parts = slot_inv_def holders_unique_def holders_in_table_def wakers_fresh_def done_fresh_def

lemma slot_inv_D:
  assumes "slot_inv a"
  shows slot_unique: "(k, c) \<in># sl_held a t \<Longrightarrow> (k', c') \<in># sl_held a t' \<Longrightarrow> k = k' \<or> c = c' \<Longrightarrow>
      t = t' \<and> k = k' \<and> c = c'"
    and slot_once: "sl_held a t = add_mset (k, c) m \<Longrightarrow> (k, c) \<notin># m"
    and slot_in_table: "(k, c) \<in># sl_held a t \<Longrightarrow> \<not> sl_closed a \<Longrightarrow> sl_in a k = Some c"
    and slot_old: "(k, c) \<in># sl_held a t \<Longrightarrow> c < sl_next a"
    and slot_open: "sl_in a k = Some c \<Longrightarrow> \<not> sl_closed a"
    and slot_holder: "sl_in a k = Some c \<Longrightarrow> \<exists>t. (k, c) \<in># sl_held a t"
    and slot_not_done: "sl_in a k = Some c \<Longrightarrow> c \<notin> sl_done a"
    and slot_done_old: "c \<in> sl_done a \<Longrightarrow> c < sl_next a"
    and slot_no_panic: "\<not> sl_panic a"
    and slot_owed: "c < sl_next a \<Longrightarrow> c \<in> sl_done a \<or> (\<exists>t. owed a t c)"
    and wake_distinct: "distinct (sl_wake a t)"
    and wake_one: "c \<in> set (sl_wake a t) \<Longrightarrow> c \<in> set (sl_wake a t') \<Longrightarrow> t = t'"
    and wake_shut: "c \<in> set (sl_wake a t) \<Longrightarrow> sl_closed a"
    and wake_old: "c \<in> set (sl_wake a t) \<Longrightarrow> c < sl_next a"
    and wake_not_done: "c \<in> set (sl_wake a t) \<Longrightarrow> c \<notin> sl_done a"
    and slot_count: "count (sl_held a t) x \<le> 1"
proof -
  show "count (sl_held a t) x \<le> 1" for t x
    using assms unfolding slot_inv_def holders_unique_def by blast
  show "(k, c) \<notin># m" if "sl_held a t = add_mset (k, c) m"
  proof -
    have "count (sl_held a t) (k, c) \<le> 1" using assms by (auto simp: slot_inv_parts)
    with that show ?thesis by (simp add: not_in_iff)
  qed
  show "(k, c) \<in># sl_held a t \<Longrightarrow> (k', c') \<in># sl_held a t' \<Longrightarrow> k = k' \<or> c = c' \<Longrightarrow>
      t = t' \<and> k = k' \<and> c = c'"
    using assms unfolding slot_inv_def holders_unique_def by blast
  show "c < sl_next a \<Longrightarrow> c \<in> sl_done a \<or> (\<exists>t. owed a t c)"
    using assms by (simp add: slot_inv_def none_forgotten_def)
qed (use assms in \<open>auto simp: slot_inv_parts\<close>)

section \<open>Every step keeps it\<close>

lemma slot_inv_cong:
  "sl_held a' = sl_held a \<Longrightarrow> holders_unique a' = holders_unique a"
  "sl_held a' = sl_held a \<Longrightarrow> sl_next a' = sl_next a \<Longrightarrow> sl_closed a' = sl_closed a \<Longrightarrow> sl_in a' = sl_in a \<Longrightarrow>
     holders_in_table a' = holders_in_table a"
  by (simp_all only: holders_unique_def holders_in_table_def)

lemma holders_in_tableI:
  assumes "\<And>t k c. (k, c) \<in># sl_held a t \<Longrightarrow> c < sl_next a"
    and "\<And>t k c. (k, c) \<in># sl_held a t \<Longrightarrow> \<not> sl_closed a \<Longrightarrow> sl_in a k = Some c"
    and "\<And>k c. sl_in a k = Some c \<Longrightarrow> \<not> sl_closed a"
    and "\<And>k c. sl_in a k = Some c \<Longrightarrow> \<exists>t. (k, c) \<in># sl_held a t"
  shows "holders_in_table a"
  using assms unfolding holders_in_table_def by blast

lemma none_forgotten_step:
  assumes "slot_inv a" "sl_done a \<subseteq> sl_done a'"
    and "\<And>c. c < sl_next a' \<Longrightarrow> c < sl_next a \<or> (\<exists>t. owed a' t c)"
    and "\<And>c t. owed a t c \<Longrightarrow> c \<in> sl_done a' \<or> (\<exists>t'. owed a' t' c)"
  shows "none_forgotten a'"
proof -
  have "none_forgotten a" using assms(1) by (simp add: slot_inv_def)
  then show ?thesis using assms(2,3,4) unfolding none_forgotten_def by blast
qed

lemma wakers_freshI:
  assumes "\<And>t. distinct (sl_wake a t)"
    and "\<And>t t' c. c \<in> set (sl_wake a t) \<Longrightarrow> c \<in> set (sl_wake a t') \<Longrightarrow> t = t'"
    and "\<And>t c. c \<in> set (sl_wake a t) \<Longrightarrow> sl_closed a \<and> c < sl_next a \<and> c \<notin> sl_done a"
  shows "wakers_fresh a"
  using assms unfolding wakers_fresh_def by blast

lemma acquire_inv:
  assumes inv: "slot_inv a" and "\<not> sl_closed a" "sl_in a k = None"
  shows "slot_inv (a\<lparr>sl_in := (sl_in a)(k \<mapsto> sl_next a), sl_next := Suc (sl_next a),
    sl_held := (sl_held a)(t := add_mset (k, sl_next a) (sl_held a t))\<rparr>)" (is "slot_inv ?a")
proof -
  note D = slot_inv_D[OF inv]
  have free: "(k, c) \<notin># sl_held a u" for c u using assms D(3) by fastforce
  have new: "(k', sl_next a) \<notin># sl_held a u" for k' u using D(4) by fastforce
  have "count (sl_held ?a u) x \<le> 1" for u x
    using D(16)[of u x] new[of k] by (cases "u = t") (auto simp: not_in_iff)
  moreover have "t1 = t2 \<and> k1 = k2 \<and> c1 = c2"
    if "(k1, c1) \<in># sl_held ?a t1" "(k2, c2) \<in># sl_held ?a t2" "k1 = k2 \<or> c1 = c2" for t1 k1 c1 t2 k2 c2
    using that free new D(1)[of k1 c1 t1 k2 c2 t2] by (auto split: if_splits)
  ultimately have "holders_unique ?a" unfolding holders_unique_def by blast
  moreover have "holders_in_table ?a"
  proof (rule holders_in_tableI)
    fix u k' c' assume h: "(k', c') \<in># sl_held ?a u"
    show "c' < sl_next ?a" using h D(4)[of k' c' u] by (auto split: if_splits)
    show "sl_in ?a k' = Some c'" if "\<not> sl_closed ?a"
      using h that D(3)[of k' c' u] free[of c' u] by (auto split: if_splits)
  next
    fix k' c' assume h: "sl_in ?a k' = Some c'"
    show "\<not> sl_closed ?a" using assms(2) by simp
    show "\<exists>u. (k', c') \<in># sl_held ?a u"
    proof (cases "k' = k")
      case True
      with h have "(k', c') \<in># sl_held ?a t" by simp
      then show ?thesis by blast
    next
      case False
      with h obtain u where "(k', c') \<in># sl_held a u" using D(6)[of k' c'] by auto
      then have "(k', c') \<in># sl_held ?a u" by (cases "u = t") auto
      then show ?thesis by blast
    qed
  qed
  moreover have "wakers_fresh ?a"
    using assms(2) D(13) by (intro wakers_freshI) (auto simp: D(11))
  moreover have "done_fresh ?a"
    using D(7,8,9) by (fastforce simp: done_fresh_def)
  moreover have "none_forgotten ?a"
  proof (rule none_forgotten_step[OF inv])
    show "c < sl_next a \<or> (\<exists>u. owed ?a u c)" if "c < sl_next ?a" for c
    proof (cases "c < sl_next a")
      case False
      with that have "owed ?a t c" by (auto simp: owed_def)
      then show ?thesis by blast
    qed simp
    show "c \<in> sl_done ?a \<or> (\<exists>u'. owed ?a u' c)" if "owed a u c" for c u
    proof -
      from that have "owed ?a u c" using assms(3) by (auto simp: owed_def)
      then show ?thesis by blast
    qed
  qed simp
  ultimately show ?thesis by (simp add: slot_inv_def)
qed

lemma drop_held_inv:
  assumes inv: "slot_inv a" and held: "sl_held a t = add_mset (k, c) m" and "sl_in a k \<noteq> Some c"
  shows "slot_inv (a\<lparr>sl_held := (sl_held a)(t := m)\<rparr>)" (is "slot_inv ?a")
proof -
  note D = slot_inv_D[OF inv]
  have sub: "x \<in># sl_held ?a u \<Longrightarrow> x \<in># sl_held a u" for x u using held by (auto split: if_splits)
  have "sl_closed a" using assms D(3)[of k c t] by auto
  then have no_in: "sl_in a k' = None" for k' using D(5)[of k'] by (cases "sl_in a k'") auto
  have "count (sl_held ?a u) x \<le> 1" for u x
  proof -
    have "count (sl_held ?a u) x \<le> count (sl_held a u) x" using held by auto
    also have "\<dots> \<le> 1" by (rule D(16))
    finally show ?thesis .
  qed
  moreover have "t1 = t2 \<and> k1 = k2 \<and> c1 = c2"
    if "(k1, c1) \<in># sl_held ?a t1" "(k2, c2) \<in># sl_held ?a t2" "k1 = k2 \<or> c1 = c2" for t1 k1 c1 t2 k2 c2
    using D(1)[OF sub[OF that(1)] sub[OF that(2)] that(3)] .
  ultimately have "holders_unique ?a" unfolding holders_unique_def by blast
  moreover have "holders_in_table ?a"
  proof (rule holders_in_tableI)
    show "c' < sl_next ?a" if "(k', c') \<in># sl_held ?a u" for u k' c' using D(4)[OF sub[OF that]] by simp
  qed (use \<open>sl_closed a\<close> no_in in auto)
  moreover have "wakers_fresh ?a" "done_fresh ?a" using inv by (auto simp: slot_inv_parts)
  moreover have "none_forgotten ?a" using D(10) no_in by (auto simp: none_forgotten_def owed_def)
  ultimately show ?thesis by (simp add: slot_inv_def)
qed

lemma give_back_inv:
  assumes inv: "slot_inv a" and held: "sl_held a t = add_mset (k, c) m" and "in": "sl_in a k = Some c"
  shows "slot_inv (a\<lparr>sl_held := (sl_held a)(t := m), sl_in := (sl_in a)(k := None), sl_done := insert c (sl_done a)\<rparr>)"
    (is "slot_inv ?a")
proof -
  note D = slot_inv_D[OF inv]
  have sub: "x \<in># sl_held ?a u \<Longrightarrow> x \<in># sl_held a u" for x u using held by (auto split: if_splits)
  have mine: "(k, c) \<in># sl_held a t" using held by simp
  have gone: "(k', c') \<in># sl_held ?a u \<Longrightarrow> k' \<noteq> k \<and> c' \<noteq> c" for k' c' u
  proof -
    assume h: "(k', c') \<in># sl_held ?a u"
    show ?thesis
    proof (rule ccontr)
      assume "\<not> ?thesis"
      then have "t = u \<and> k = k' \<and> c = c'" using D(1)[OF mine sub[OF h]] by blast
      with h D(2)[OF held] show False by simp
    qed
  qed
  have stay: "(k', c') \<in># sl_held a u \<Longrightarrow> k' \<noteq> k \<Longrightarrow> (k', c') \<in># sl_held ?a u" for k' c' u
    using held by (auto split: if_splits)
  have "count (sl_held ?a u) x \<le> 1" for u x
  proof -
    have "count (sl_held ?a u) x \<le> count (sl_held a u) x" using held by auto
    also have "\<dots> \<le> 1" by (rule D(16))
    finally show ?thesis .
  qed
  moreover have "t1 = t2 \<and> k1 = k2 \<and> c1 = c2"
    if "(k1, c1) \<in># sl_held ?a t1" "(k2, c2) \<in># sl_held ?a t2" "k1 = k2 \<or> c1 = c2" for t1 k1 c1 t2 k2 c2
    using D(1)[OF sub[OF that(1)] sub[OF that(2)] that(3)] .
  ultimately have "holders_unique ?a" unfolding holders_unique_def by blast
  moreover have "holders_in_table ?a"
  proof (rule holders_in_tableI)
    fix u k' c' assume h: "(k', c') \<in># sl_held ?a u"
    show "c' < sl_next ?a" using D(4)[OF sub[OF h]] by simp
    show "sl_in ?a k' = Some c'" if "\<not> sl_closed ?a" using that D(3)[OF sub[OF h]] gone[OF h] by simp
  next
    fix k' c' assume "sl_in ?a k' = Some c'"
    then have "k' \<noteq> k" "sl_in a k' = Some c'" by (auto split: if_splits)
    then show "\<not> sl_closed ?a" "\<exists>t. (k', c') \<in># sl_held ?a t"
      using D(5)[of k' c'] D(6)[of k' c'] stay[of k' c'] by (simp, blast)
  qed
  moreover have "wakers_fresh ?a"
    using inv D(5)[OF "in"] by (auto simp: slot_inv_parts)
  moreover have "done_fresh ?a"
  proof -
    have "c < sl_next a" using D(4)[OF mine] .
    moreover have "c' \<noteq> c" if "k' \<noteq> k" "sl_in a k' = Some c'" for k' c'
      using D(6)[OF that(2)] D(1)[OF mine] that(1) by blast
    ultimately show ?thesis using D(7,8,9) by (auto simp: done_fresh_def)
  qed
  moreover have "none_forgotten ?a"
  proof (rule none_forgotten_step[OF inv])
    show "c' \<in> sl_done ?a \<or> (\<exists>u'. owed ?a u' c')" if o: "owed a u c'" for c' u
    proof (cases "c' \<in> set (sl_wake a u) \<or> c' = c")
      case False
      with o obtain k' where k': "(k', c') \<in># sl_held a u" "sl_in a k' = Some c'" by (auto simp: owed_def)
      moreover have "k' \<noteq> k" using k'(2) "in" False by auto
      ultimately have "(k', c') \<in># sl_held ?a u \<and> sl_in ?a k' = Some c'" using stay[of k' c' u] by simp
      then have "owed ?a u c'" unfolding owed_def by blast
      then show ?thesis by blast
    next
      case True
      then show ?thesis unfolding owed_def by auto
    qed
  qed auto
  ultimately show ?thesis by (simp add: slot_inv_def)
qed

lemma shut_inv:
  assumes inv: "slot_inv a" and "\<not> sl_closed a" and ks: "orders ks (sl_in a)" and "sl_wake a t = []"
  shows "slot_inv (a\<lparr>sl_closed := True, sl_in := Map.empty, sl_wake := (sl_wake a)(t := map (the \<circ> sl_in a) ks)\<rparr>)"
    (is "slot_inv ?a")
proof -
  note D = slot_inv_D[OF inv]
  have quiet: "sl_wake a u = []" for u using D(13)[of "hd (sl_wake a u)" u] assms(2) by (cases "sl_wake a u") auto
  have inj: "k = k'" if "sl_in a k = Some c" "sl_in a k' = Some c" for k k' c
    using D(6)[OF that(1)] D(6)[OF that(2)] D(1) by blast
  have ran: "c \<in> set (map (the \<circ> sl_in a) ks) \<longleftrightarrow> (\<exists>k. sl_in a k = Some c)" for c
    using ks by (force simp: orders_def dom_def image_iff)
  have "distinct (map (the \<circ> sl_in a) ks)"
    using ks inj by (fastforce simp: orders_def distinct_map inj_on_def dom_def)
  moreover have "c < sl_next a \<and> c \<notin> sl_done a" if "sl_in a k = Some c" for k c
    using D(4) D(6)[OF that] D(7)[OF that] by blast
  ultimately have "wakers_fresh ?a"
    using quiet ran by (intro wakers_freshI) (auto simp del: set_map split: if_splits)
  moreover have "holders_unique ?a" "done_fresh ?a" using inv by (auto simp: slot_inv_parts)
  moreover have "holders_in_table ?a" using D(4) by (auto simp: holders_in_table_def)
  moreover have "none_forgotten ?a"
  proof -
    have "owed ?a t c" if "owed a u c" for u c
    proof -
      from that quiet obtain k where "sl_in a k = Some c" by (auto simp: owed_def)
      then show ?thesis using ran[of c] by (auto simp: owed_def simp del: set_map)
    qed
    then show ?thesis by (intro none_forgotten_step[OF inv]) (simp_all, blast)
  qed
  ultimately show ?thesis by (simp add: slot_inv_def)
qed

lemma wake_inv:
  assumes inv: "slot_inv a" and w: "sl_wake a t = c # cs"
  shows "slot_inv (a\<lparr>sl_wake := (sl_wake a)(t := cs), sl_done := insert c (sl_done a)\<rparr>)" (is "slot_inv ?a")
proof -
  note D = slot_inv_D[OF inv]
  have mine: "c \<in> set (sl_wake a t)" using w by simp
  then have shut: "sl_closed a" using D(13) by blast
  then have no_in: "sl_in a k = None" for k using D(5)[of k] by (cases "sl_in a k") auto
  have sub: "x \<in> set (sl_wake ?a u) \<Longrightarrow> x \<in> set (sl_wake a u) \<and> x \<noteq> c" for x u
  proof -
    assume x: "x \<in> set (sl_wake ?a u)"
    then have old: "x \<in> set (sl_wake a u)" using w by (cases "u = t") auto
    moreover have "x \<noteq> c"
    proof
      assume "x = c"
      then have "u = t" using D(12)[OF mine, of u] old by simp
      then show False using x D(11)[of t] w \<open>x = c\<close> by simp
    qed
    ultimately show ?thesis by simp
  qed
  have "distinct (sl_wake ?a u)" for u using D(11)[of u] w by (cases "u = t") auto
  then have "wakers_fresh ?a"
  proof (rule wakers_freshI)
    show "u = u'" if "x \<in> set (sl_wake ?a u)" "x \<in> set (sl_wake ?a u')" for u u' x
      using D(12) sub[OF that(1)] sub[OF that(2)] by blast
    show "sl_closed ?a \<and> x < sl_next ?a \<and> x \<notin> sl_done ?a" if "x \<in> set (sl_wake ?a u)" for u x
      using shut sub[OF that] D(14)[of x u] D(15)[of x u] by simp
  qed
  moreover have "holders_unique ?a" "holders_in_table ?a"
    using inv slot_inv_cong[of ?a a] by (simp_all add: slot_inv_def)
  moreover have "done_fresh ?a" using D(8,9) D(14)[OF mine] no_in by (simp add: done_fresh_def)
  moreover have "none_forgotten ?a"
  proof (rule none_forgotten_step[OF inv])
    show "c' \<in> sl_done ?a \<or> (\<exists>u'. owed ?a u' c')" if "owed a u c'" for c' u
    proof (cases "c' = c")
      case False
      with that have "owed ?a u c'" using w no_in by (cases "u = t") (auto simp: owed_def)
      then show ?thesis by blast
    qed simp
  qed auto
  ultimately show ?thesis by (simp add: slot_inv_def)
qed

theorem slot_step_inv:
  assumes "slot_inv a" "slot_step a a'" shows "slot_inv a'"
  using assms(2)
proof cases
  case (acquire k t)
  with assms(1) show ?thesis by (simp add: acquire_inv)
next
  case (give_back t k c m)
  show ?thesis
  proof (cases "sl_in a k = Some c")
    case True
    with slot_not_done[OF assms(1)] have "c \<notin> sl_done a" by blast
    then have "a' = a\<lparr>sl_held := (sl_held a)(t := m), sl_in := (sl_in a)(k := None), sl_done := insert c (sl_done a)\<rparr>"
      using True give_back by (simp add: unslot_def wake_chan_def)
    with give_back_inv[OF assms(1) give_back(2) True] show ?thesis by simp
  next
    case False
    with give_back drop_held_inv[OF assms(1) give_back(2) False] show ?thesis by (simp add: unslot_def)
  qed
next
  case (shut ks t)
  with assms(1) show ?thesis by (simp add: shut_inv)
next
  case (wake t c cs)
  then have "c \<notin> sl_done a" using wake_not_done[OF assms(1), of c t] by simp
  with wake wake_inv[OF assms(1) wake(2)] show ?thesis by (simp add: wake_chan_def)
qed

end
