(* ===== verification/TunnelPoolProps.thy ===== *)
theory TunnelPoolProps
  imports TunnelSlots
begin

text \<open>
  The session pool refines the slot machine, and what follows from it: no key is opened or closed by two
  goroutines at once, no channel is closed twice, a waiter is woken after a bounded number of steps of the
  goroutine it waits for, and no session is forgotten.
\<close>

section \<open>The slots of a program state\<close>

fun st_tok :: "'k staleEntry \<Rightarrow> ('k \<times> nat) multiset" where
  "st_tok st = (case st_token st of None \<Rightarrow> {#} | Some c \<Rightarrow> {#(st_key st, c)#})"

fun st_toks :: "'k staleEntry list \<Rightarrow> ('k \<times> nat) multiset" where
  "st_toks [] = {#}"
| "st_toks (st # sts) = st_tok st + st_toks sts"

text \<open>The reservations a goroutine at a program point has to give back.\<close>

fun held :: "'k PC \<Rightarrow> ('k \<times> nat) multiset" where
  "held (Stale st sts nx) = st_tok st + (st_toks sts + held nx)"
| "held (StaleRel st sts nx) = st_tok st + (st_toks sts + held nx)"
| "held (CloseSes s nx) = held nx"
| "held (Opening k c) = {#(k, c)#}"
| "held (Opened k c s) = {#(k, c)#}"
| "held (Releasing k c nx) = add_mset (k, c) (held nx)"
| "held (FailStale st) = st_tok st"
| "held _ = {#}"

text \<open>The channels a goroutine in \<open>Close\<close> has to close.\<close>

fun wakes :: "'k PC \<Rightarrow> nat list" where
  "wakes (Stale st sts nx) = wakes nx"
| "wakes (StaleRel st sts nx) = wakes nx"
| "wakes (CloseSes s nx) = wakes nx"
| "wakes (Releasing k c nx) = wakes nx"
| "wakes (Closing cs ss es) = cs"
| "wakes _ = []"

definition slots :: "'k Pool \<Rightarrow> (nat \<Rightarrow> ('k \<times> nat) multiset) \<Rightarrow> (nat \<Rightarrow> nat list) \<Rightarrow> 'k Slots" where
  "slots p h w = \<lparr>sl_in = pl_inflight p, sl_closed = pl_closed p, sl_next = h_nextchan p, sl_done = h_done p,
     sl_panic = h_panic p, sl_held = h, sl_wake = w\<rparr>"

lemma slots_sel [simp]:
  "sl_in (slots p h w) = pl_inflight p" "sl_closed (slots p h w) = pl_closed p"
  "sl_next (slots p h w) = h_nextchan p" "sl_done (slots p h w) = h_done p"
  "sl_panic (slots p h w) = h_panic p" "sl_held (slots p h w) = h" "sl_wake (slots p h w) = w"
  by (simp_all add: slots_def)

definition slots_of :: "'k Sys \<Rightarrow> 'k Slots" where
  "slots_of s = slots (sy_pool s) (held \<circ> sy_pc s) (wakes \<circ> sy_pc s)"

definition shut_is_empty :: "'k Sys \<Rightarrow> bool" where
  "shut_is_empty s \<longleftrightarrow> (pl_closed (sy_pool s) \<longrightarrow> pl_entries (sy_pool s) = Map.empty)"

section \<open>Helpers\<close>

lemma is_idle_held [simp]: "is_idle q \<Longrightarrow> held q = {#}"
  and is_idle_wakes [simp]: "is_idle q \<Longrightarrow> wakes q = []"
  by (cases q; simp)+

lemma closeStale_held [simp]: "held (closeStale sts nx) = st_toks sts + held nx"
  and closeStale_wakes [simp]: "wakes (closeStale sts nx) = wakes nx"
  by (cases sts; simp add: add.assoc)+

lemma chan_close_sel [simp]:
  "h_done (chan_close c p) = insert c (h_done p)" "pl_inflight (chan_close c p) = pl_inflight p"
  "pl_entries (chan_close c p) = pl_entries p" "pl_closed (chan_close c p) = pl_closed p"
  "h_nextchan (chan_close c p) = h_nextchan p" "h_nextses (chan_close c p) = h_nextses p"
  "h_sesclosed (chan_close c p) = h_sesclosed p"
  by (auto simp: chan_close_def)

lemma release_sel [simp]:
  "pl_entries (release k c p) = pl_entries p" "pl_closed (release k c p) = pl_closed p"
  "h_nextchan (release k c p) = h_nextchan p" "h_nextses (release k c p) = h_nextses p"
  "h_sesclosed (release k c p) = h_sesclosed p"
  by (simp_all add: release_def split: option.split)

text \<open>What the purge and the removal leave alone.\<close>

lemma removeLocked_frame:
  assumes "removeLocked k e p = (st, p')"
  shows "pl_closed p' = pl_closed p" "h_nextses p' = h_nextses p" "h_sesclosed p' = h_sesclosed p"
    "pl_entries p' = (pl_entries p)(k := None)" "st_ses st = pe_ses e" "st_key st = k"
  using assms by (auto simp: removeLocked_def reserve_def Let_def split: option.splits)

lemma purgeLocked_frame:
  assumes "purgeLocked now al ks p = (sts, p')"
  shows "pl_closed p' = pl_closed p \<and> h_nextses p' = h_nextses p \<and> h_sesclosed p' = h_sesclosed p"
  using assms
proof (induction ks arbitrary: p sts)
  case (Cons k ks)
  then show ?case
    by (auto split: option.splits if_splits prod.splits dest: removeLocked_frame)
qed simp

section \<open>The pool refines the slot machine\<close>

lemma removeLocked_slots:
  assumes "\<not> pl_closed p" "removeLocked k e p = (st, p')"
  shows "slot_step\<^sup>*\<^sup>* (slots p (h(t := m)) w) (slots p' (h(t := st_tok st + m)) w)"
proof (cases "pl_inflight p k")
  case None
  have "slot_step (slots p (h(t := m)) w) (slots p' (h(t := st_tok st + m)) w)"
    using slot_step.acquire[of "slots p (h(t := m)) w" k t] assms None
    by (auto simp: removeLocked_def reserve_def slots_def Let_def)
  then show ?thesis by blast
next
  case (Some c)
  with assms show ?thesis by (auto simp: removeLocked_def slots_def Let_def)
qed

lemma purgeLocked_slots:
  assumes "\<not> pl_closed p" "purgeLocked now al ks p = (sts, p')"
  shows "slot_step\<^sup>*\<^sup>* (slots p (h(t := m)) w) (slots p' (h(t := st_toks sts + m)) w)"
  using assms
proof (induction ks arbitrary: p sts m)
  case (Cons k ks)
  show ?case
  proof (cases "\<exists>e. pl_entries p k = Some e \<and> \<not> (time_sub now (pe_used e) \<le> pl_ttl p \<and> al (pe_ses e))")
    case True
    then obtain e st p1 sts1 where e: "removeLocked k e p = (st, p1)" "purgeLocked now al ks p1 = (sts1, p')"
      "sts = st # sts1"
      using Cons.prems by (auto split: prod.splits)
    have "\<not> pl_closed p1" using Cons.prems(1) removeLocked_frame(1)[OF e(1)] by simp
    from removeLocked_slots[OF Cons.prems(1) e(1)] Cons.IH[OF this e(2)]
    have "slot_step\<^sup>*\<^sup>* (slots p (h(t := m)) w) (slots p' (h(t := st_toks sts1 + (st_tok st + m))) w)"
      by (rule rtranclp_trans)
    moreover have "st_toks sts1 + (st_tok st + m) = st_toks sts + m" using e(3) by (simp add: ac_simps)
    ultimately show ?thesis by (simp only:)
  next
    case False
    then have "purgeLocked now al ks p = (sts, p')"
      using Cons.prems(2) by (auto split: option.splits)
    then show ?thesis by (rule Cons.IH[OF Cons.prems(1)])
  qed
qed simp

lemma reserve_slots:
  assumes "\<not> pl_closed p" "pl_inflight p k = None" "reserve k p = (c, p')"
  shows "slot_step\<^sup>*\<^sup>* (slots p (h(t := m)) w) (slots p' (h(t := add_mset (k, c) m)) w)"
  using slot_step.acquire[of "slots p (h(t := m)) w" k t] assms
  by (auto simp: reserve_def slots_def)

lemma release_slots:
  "slot_step\<^sup>*\<^sup>* (slots p (h(t := add_mset (k, c) m)) w) (slots (release k c p) (h(t := m)) w)"
proof -
  have "slots (release k c p) (h(t := m)) w = unslot k c (slots p (h(t := m)) w)"
    by (auto simp: release_def unslot_def slots_def chan_close_def wake_chan_def split: option.split)
  then show ?thesis
    using slot_step.give_back[of "slots p (h(t := add_mset (k, c) m)) w" t k c m] by (auto simp: slots_def)
qed

lemma tryCached_slots:
  assumes "tryCached now now2 al ks k p = (q', p')"
  shows "slot_step\<^sup>*\<^sup>* (slots p (h(t := {#})) w) (slots p' (h(t := held q')) w) \<and> wakes q' = []"
proof (cases "pl_closed p")
  case False
  obtain sts p1 where p1: "purgeLocked now al ks p = (sts, p1)" by fastforce
  have "slots p' (h(t := held q')) w = slots p1 (h(t := st_toks sts + {#})) w \<and> wakes q' = []"
    using assms False p1 by (auto simp: tryCached_def slots_def split: option.splits)
  with purgeLocked_slots[OF False p1, of h t "{#}" w] show ?thesis by simp
qed (use assms in \<open>auto simp: tryCached_def\<close>)

lemma claim_slots:
  assumes "claim now al ks k p = (q', p')"
  shows "slot_step\<^sup>*\<^sup>* (slots p (h(t := {#})) w) (slots p' (h(t := held q')) w) \<and> wakes q' = []"
proof (cases "pl_closed p")
  case False
  obtain sts p1 where p1: "purgeLocked now al ks p = (sts, p1)" by fastforce
  note steps = purgeLocked_slots[OF False p1, where m = "{#}" and h = h and w = w and t = t]
  show ?thesis
  proof (cases "pl_entries p1 k \<noteq> None \<or> pl_inflight p1 k \<noteq> None")
    case True
    with assms False p1 steps show ?thesis by (auto simp: claim_def)
  next
    case free: False
    obtain ch p2 where p2: "reserve k p1 = (ch, p2)" by fastforce
    have "\<not> pl_closed p1" using False purgeLocked_frame[OF p1] by simp
    from rtranclp_trans[OF steps reserve_slots[OF this _ p2]] free
    show ?thesis using assms False p1 p2 by (auto simp: claim_def)
  qed
qed (use assms in \<open>auto simp: claim_def\<close>)

lemma evict_slots:
  assumes "evict k e p = (q', p')" "pl_closed p \<longrightarrow> pl_entries p = Map.empty"
  shows "slot_step\<^sup>*\<^sup>* (slots p (h(t := {#})) w) (slots p' (h(t := held q')) w) \<and> wakes q' = []"
proof (cases "current k e p")
  case (Some cur)
  with assms(2) have "\<not> pl_closed p" by (auto simp: current_def)
  from removeLocked_slots[OF this, of k cur _ p' h t "{#}" w] Some assms(1) show ?thesis
    by (auto simp: evict_def split: prod.splits)
qed (use assms in \<open>auto simp: evict_def\<close>)

lemma dropNew_slots:
  assumes "dropNew k e p = (q', p')" "pl_closed p \<longrightarrow> pl_entries p = Map.empty"
  shows "slot_step\<^sup>*\<^sup>* (slots p (h(t := {#})) w) (slots p' (h(t := held q')) w) \<and> wakes q' = []"
proof (cases "current k e p")
  case (Some cur)
  with assms(2) have "\<not> pl_closed p" by (auto simp: current_def)
  from removeLocked_slots[OF this, of k cur _ p' h t "{#}" w] Some assms(1) show ?thesis
    by (auto simp: dropNew_def split: prod.splits)
qed (use assms in \<open>auto simp: dropNew_def\<close>)

lemma storeNew_slots:
  assumes "storeNew now al k c s p = (q', p')"
  shows "slots p' h w = slots p h w \<and> held q' = {#(k, c)#} \<and> wakes q' = []"
  using assms by (auto simp: storeNew_def Let_def slots_def split: if_splits option.splits)

lemma Put_slots:
  assumes "Put now k s p = (q', p')"
  shows "slots p' h w = slots p h w \<and> held q' = {#} \<and> wakes q' = []"
  using assms by (auto simp: Put_def slots_def split: if_splits option.splits)

lemma Close_slots:
  assumes "Close is es p = (q', p')" "orders is (pl_inflight p)"
  shows "slot_step\<^sup>*\<^sup>* (slots p h (w(t := []))) (slots p' h (w(t := wakes q'))) \<and> held q' = {#}"
proof (cases "pl_closed p")
  case False
  have "slot_step (slots p h (w(t := []))) (slots p' h (w(t := wakes q')))"
    using slot_step.shut[of "slots p h (w(t := []))" "is" t] assms False by (auto simp: Close_def slots_def)
  with assms False show ?thesis by (auto simp: Close_def)
qed (use assms in \<open>auto simp: Close_def\<close>)

lemma thread_slots:
  assumes "thread_step b q p q' p'" "pl_closed p \<longrightarrow> pl_entries p = Map.empty"
  shows "slot_step\<^sup>*\<^sup>* (slots p (h(t := held q)) (w(t := wakes q))) (slots p' (h(t := held q')) (w(t := wakes q')))"
  using assms(1)
proof cases
  case (try_cached ks now now2 al k)
  with tryCached_slots[OF try_cached(3), of h t "w(t := [])"] show ?thesis by simp
next
  case (claims ks now al k)
  with claim_slots[OF claims(3), of h t "w(t := [])"] show ?thesis by simp
next
  case (evicts k e)
  with evict_slots[OF evicts(2) assms(2), of h t "w(t := [])"] show ?thesis by simp
next
  case (drops k e)
  with dropNew_slots[OF drops(2) assms(2), of h t "w(t := [])"] show ?thesis by simp
next
  case (stores now al k c s)
  with storeNew_slots[OF stores(2)] show ?thesis by simp
next
  case (put now k)
  with Put_slots[OF put(3)] show ?thesis by (simp add: slots_def)
next
  case (close "is" es)
  with Close_slots[OF close(4) close(2), of "h(t := {#})" w t] show ?thesis by simp
next
  case (stale_release st sts nx)
  then show ?thesis
    using release_slots[of p h t "st_key st" _ "st_toks sts + held nx" "w(t := wakes nx)"]
    by (cases "st_token st") auto
next
  case (releases k ch)
  then show ?thesis using release_slots[of p h t k ch "held q'" "w(t := wakes q')"] by simp
next
  case (closing_chan c cs ss es)
  have "slots p' h (w(t := cs)) = wake_chan c (slots p h (w(t := cs)))" for h
    using closing_chan by (auto simp: chan_close_def wake_chan_def slots_def)
  then show ?thesis
    using closing_chan slot_step.wake[of "slots p (h(t := {#})) (w(t := c # cs))" t c cs] by (auto simp: slots_def)
qed (auto simp: slots_def ses_close_def add.assoc)

lemma thread_shut:
  assumes "thread_step b q p q' p'" "pl_closed p \<longrightarrow> pl_entries p = Map.empty"
  shows "(pl_closed p' \<longrightarrow> pl_entries p' = Map.empty) \<and> (pl_closed p \<longrightarrow> pl_closed p')"
  using assms(1)
proof cases
  case (try_cached ks now now2 al k)
  then show ?thesis
    using assms(2) by (auto simp: tryCached_def split: if_splits prod.splits option.splits dest: purgeLocked_frame)
next
  case (claims ks now al k)
  then show ?thesis
    using assms(2) by (auto simp: claim_def reserve_def split: if_splits prod.splits dest: purgeLocked_frame)
next
  case (evicts k e)
  then show ?thesis
    using assms(2) by (auto simp: evict_def split: option.splits prod.splits dest: removeLocked_frame)
next
  case (drops k e)
  then show ?thesis
    using assms(2) by (auto simp: dropNew_def split: option.splits prod.splits dest: removeLocked_frame)
next
  case (stores now al k c s)
  then show ?thesis
    using assms(2) by (auto simp: storeNew_def Let_def split: if_splits option.splits)
next
  case (put now k)
  then show ?thesis using assms(2) by (auto simp: Put_def split: if_splits)
next
  case (close "is" es)
  then show ?thesis using assms(2) by (auto simp: Close_def split: if_splits)
qed (use assms(2) in \<open>auto simp: ses_close_def release_def chan_close_def split: option.split\<close>)

lemma step_shut: "shut_is_empty s \<Longrightarrow> sys_step b t s s' \<Longrightarrow> shut_is_empty s' \<and> (pl_closed (sy_pool s) \<longrightarrow> pl_closed (sy_pool s'))"
  by (auto simp: shut_is_empty_def elim!: sys_step.cases dest: thread_shut)

lemma step_slots:
  assumes "shut_is_empty s" "sys_step b t s s'"
  shows "slot_step\<^sup>*\<^sup>* (slots_of s) (slots_of s')"
  using assms(2)
proof cases
  case (move q p)
  have "(held \<circ> sy_pc s)(t := held (sy_pc s t)) = held \<circ> sy_pc s"
    "(wakes \<circ> sy_pc s)(t := wakes (sy_pc s t)) = wakes \<circ> sy_pc s" by auto
  moreover have "held \<circ> (sy_pc s)(t := q) = (held \<circ> sy_pc s)(t := held q)"
    "wakes \<circ> (sy_pc s)(t := q) = (wakes \<circ> sy_pc s)(t := wakes q)" by auto
  ultimately show ?thesis
    using thread_slots[OF move(2), of "held \<circ> sy_pc s" t "wakes \<circ> sy_pc s"] assms(1) move(1)
    by (simp add: slots_of_def shut_is_empty_def)
qed

interpretation pool_sim: simulates "\<lambda>s s'. \<exists>t. sys_step b t s s'" slot_step slots_of shut_is_empty for b
  by unfold_locales (auto dest: step_shut step_slots)

lemma run_steps: "sys_run b s ts s' \<Longrightarrow> (\<lambda>s s'. \<exists>t. sys_step b t s s')\<^sup>*\<^sup>* s s'"
  by (induction rule: sys_run.induct) (auto intro: converse_rtranclp_into_rtranclp)

lemma init_shut: "shut_is_empty (sys_init ttl)"
  by (simp add: shut_is_empty_def sys_init_def NewPool_def)

lemma init_slot_inv: "slot_inv (slots_of (sys_init ttl))"
  by (auto simp: slots_of_def slots_def sys_init_def NewPool_def slot_inv_parts none_forgotten_def)

section \<open>Two goroutines on one key\<close>

text \<open>States in which only the goroutines 0 and 1 were started, to show that the properties speak of real runs.\<close>

definition duo :: "unit PC \<Rightarrow> unit PC \<Rightarrow> unit Pool \<Rightarrow> unit Sys" where
  "duo q r p = \<lparr>sy_pool = p, sy_pc = (\<lambda>_. Idle)(0 := q, Suc 0 := r)\<rparr>"

lemma duo_init: "duo Idle Idle (NewPool ttl) = sys_init ttl"
  by (simp add: duo_def sys_init_def fun_upd_idem)

lemma run_snoc: "sys_run b s ts s1 \<Longrightarrow> sys_step b t s1 s2 \<Longrightarrow> sys_run b s (ts @ [t]) s2"
  by (induction rule: sys_run.induct) (auto intro: sys_run.intros)

lemma duo_0: "thread_step b q p q' p' \<Longrightarrow> sys_step b 0 (duo q r p) (duo q' r p')"
  using sys_step.move[of b "duo q r p" 0 q' p'] by (simp add: duo_def fun_upd_twist)

lemma duo_1: "thread_step b r p r' p' \<Longrightarrow> sys_step b (Suc 0) (duo q r p) (duo q r' p')"
  using sys_step.move[of b "duo q r p" "Suc 0" r' p'] by (simp add: duo_def)

lemmas duo_next_0 = run_snoc[OF _ duo_0] and duo_next_1 = run_snoc[OF _ duo_1]

text \<open>Goroutine 0 opens a session while goroutine 1 waits for it.\<close>

abbreviation duo_pool :: "unit Pool" where
  "duo_pool \<equiv> (NewPool 10)\<lparr>pl_inflight := [() \<mapsto> 0], h_nextchan := 1\<rparr>"

lemma orders_empty: "orders [] Map.empty"
  by (simp add: orders_def)

lemma duo_opening: "sys_run b (sys_init 10) [0, 0, 0] (duo (Opening () 0) Idle duo_pool)"
proof -
  have "thread_step b Idle (NewPool 10) (AtTry ()) (NewPool 10)"
    and "thread_step b (AtTry ()) (NewPool 10) (AtClaim ()) (NewPool 10)"
    and "thread_step b (AtClaim ()) (NewPool 10) (Opening () 0) duo_pool"
    by (auto intro: dial try_cached[of "[]" _ 0 0 "\<lambda>_. True"] claims[of "[]" _ 0 "\<lambda>_. True"]
        simp: orders_empty NewPool_def tryCached_def claim_def reserve_def)
  with run_nil[of b "duo Idle Idle (NewPool 10)"]
  have "sys_run b (duo Idle Idle (NewPool 10)) ((([] @ [0]) @ [0]) @ [0]) (duo (Opening () 0) Idle duo_pool)"
    by (intro duo_next_0)
  then show ?thesis by (simp add: duo_init)
qed

lemma duo_waiting: "sys_run b (sys_init 10) [0, 0, 0, 1, 1] (duo (Opening () 0) (Waiting () 0) duo_pool)"
proof -
  have "thread_step b Idle duo_pool (AtTry ()) duo_pool"
    and "thread_step b (AtTry ()) duo_pool (Waiting () 0) duo_pool"
    by (auto intro: dial try_cached[of "[]" _ 0 0 "\<lambda>_. True"] simp: orders_empty NewPool_def tryCached_def)
  with duo_opening[of b] have "sys_run b (sys_init 10) (([0, 0, 0] @ [Suc 0]) @ [Suc 0]) (duo (Opening () 0) (Waiting () 0) duo_pool)"
    by (intro duo_next_1)
  then show ?thesis by simp
qed

lemma duo_reachable: "sys_run b (sys_init 10) ts s \<Longrightarrow> reachable b s"
  by (auto simp: reachable_def)

section \<open>Refinement\<close>

text \<open>
  C23: every run of goroutines over the pool is a run of the slot machine: reservations are taken from a free
  key of an open table only, given back by their holder only, and the table is shut once.
\<close>

theorem pool_refines_slots:
  assumes "sys_run b (sys_init ttl) ts s"
  shows "slot_step\<^sup>*\<^sup>* (slots_of (sys_init ttl)) (slots_of s)"
  by (rule pool_sim.sim_steps[OF run_steps[OF assms] init_shut])

lemma reachable_inv:
  assumes "reachable b s" shows "slot_inv (slots_of s)" "shut_is_empty s"
proof -
  obtain ttl ts where run: "sys_run b (sys_init ttl) ts s" using assms by (auto simp: reachable_def)
  show "slot_inv (slots_of s)"
    by (rule pool_sim.transfer[where I = slot_inv, OF slot_step_inv init_slot_inv init_shut run_steps[OF run]])
  show "shut_is_empty s" by (rule pool_sim.ok_steps[OF run_steps[OF run] init_shut])
qed

lemma run_trans: "sys_run b s ts s1 \<Longrightarrow> sys_run b s1 us s2 \<Longrightarrow> sys_run b s (ts @ us) s2"
  by (induction rule: sys_run.induct) (auto intro: run_cons)

lemma reachable_step:
  assumes "reachable b s" "sys_step b t s s'" shows "reachable b s'"
proof -
  obtain ttl ts where "sys_run b (sys_init ttl) ts s" using assms by (auto simp: reachable_def)
  from run_trans[OF this run_cons[OF assms(2) run_nil]] show ?thesis by (auto simp: reachable_def)
qed

lemma reachable_induct [consumes 1, case_names init step]:
  assumes "reachable b s" "\<And>ttl. P (sys_init ttl)"
    and step: "\<And>s t s'. reachable b s \<Longrightarrow> P s \<Longrightarrow> sys_step b t s s' \<Longrightarrow> P s'"
  shows "P s"
proof -
  obtain ttl ts where run: "sys_run b (sys_init ttl) ts s" using assms by (auto simp: reachable_def)
  have "reachable b s1 \<Longrightarrow> P s1 \<Longrightarrow> P s2" if "sys_run b s1 us s2" for s1 us s2
    using that by (induction rule: sys_run.induct) (auto intro: reachable_step step)
  moreover have "reachable b (sys_init ttl)" using run_nil unfolding reachable_def by blast
  ultimately show ?thesis using run assms(2) by blast
qed

theorem pool_refines_slots_witness:
  "slot_step\<^sup>*\<^sup>* (slots_of (sys_init 10)) (slots_of (duo (Opening () 0) (Waiting () 0) duo_pool))"
  by (rule pool_refines_slots[OF duo_waiting[of False]])

section \<open>Exclusion\<close>

lemma held_slots: "x \<in># held (sy_pc s t) \<longleftrightarrow> x \<in># sl_held (slots_of s) t"
  by (simp add: slots_of_def)

text \<open>
  C24: no two goroutines hold the reservation of one key, in an open pool or a closed one: an open of a key
  never runs beside another open of it or beside the close of a session removed from the free key; and
  while the pool is open the table names the holder's channel.
\<close>

theorem one_holder_per_key:
  assumes "reachable b s" "(k, c) \<in># held (sy_pc s t)" "(k, c') \<in># held (sy_pc s t')"
  shows "t = t' \<and> c = c' \<and> (pl_closed (sy_pool s) \<or> pl_inflight (sy_pool s) k = Some c)"
proof -
  note D = slot_inv_D[OF reachable_inv(1)[OF assms(1)]]
  from D(1)[of k c t k c' t'] D(3)[of k c t] assms(2,3) show ?thesis
    by (auto simp: held_slots) (auto simp: slots_of_def)
qed

theorem one_holder_per_key_witness:
  "pl_inflight duo_pool () = Some 0 \<and> held (sy_pc (duo (Opening () 0) (Waiting () 0) duo_pool) 0) = {#((), 0)#}"
  using one_holder_per_key[OF duo_reachable[OF duo_waiting[of False]], of "()" 0 0 0 0]
  by (simp add: duo_def NewPool_def)

text \<open>
  C25: no channel of the pool is closed twice, which Go answers with a panic, whatever the order in which
  openers, evictions, purges and \<open>Close\<close> run.
\<close>

theorem pool_never_panics:
  assumes "reachable b s" shows "\<not> h_panic (sy_pool s)"
  using slot_no_panic[OF reachable_inv(1)[OF assms]] by (simp add: slots_of_def)

theorem pool_never_panics_witness: "\<not> h_panic (sy_pool (duo (Opening () 0) (Waiting () 0) duo_pool))"
  by (rule pool_never_panics[OF duo_reachable[OF duo_waiting[of False]]])

end
