(* ===== verification/TunnelPoolRuns.thy ===== *)
theory TunnelPoolRuns
  imports TunnelPoolProps
begin

text \<open>
  Runs of the session pool: what a goroutine that holds a reservation still has to do, who wakes a waiter,
  and where every session ends.
\<close>

section \<open>A holder gives back after a bounded number of its own steps\<close>

text \<open>A bound on the steps until the goroutine holds nothing and has closed what it has to close.\<close>

fun todo :: "'k PC \<Rightarrow> nat" where
  "todo (Stale st sts nx) = Suc (Suc (2 * length sts + todo nx))"
| "todo (StaleRel st sts nx) = Suc (2 * length sts + todo nx)"
| "todo (CloseSes s nx) = Suc (todo nx)"
| "todo (Opening k c) = 4"
| "todo (Opened k c s) = 3"
| "todo (Releasing k c nx) = Suc (todo nx)"
| "todo (FailStale st) = 2"
| "todo (Closing cs ss es) = length cs"
| "todo _ = 0"

lemma closeStale_todo [simp]: "todo (closeStale sts nx) = 2 * length sts + todo nx"
  by (cases sts) simp_all

inductive_cases pc_moves:
  "thread_step b (Stale st sts nx) p q' p'" "thread_step b (StaleRel st sts nx) p q' p'"
  "thread_step b (CloseSes s nx) p q' p'" "thread_step b (Opening k c) p q' p'"
  "thread_step b (Opened k c s) p q' p'" "thread_step b (Releasing k c nx) p q' p'"
  "thread_step b (FailStale st) p q' p'" "thread_step b (Closing cs ss es) p q' p'"

lemma release_done: "pl_inflight p k = Some c \<Longrightarrow> c \<in> h_done (release k c p)"
  by (simp add: release_def)

lemma release_other:
  "pl_inflight p k = Some c \<Longrightarrow> c \<notin> h_done (release k' c' p) \<Longrightarrow> pl_inflight (release k' c' p) k = Some c"
  by (auto simp: release_def split: option.splits if_splits)

lemma holder_step:
  assumes "thread_step b q p q' p'" "(k, c) \<in># held q" "pl_inflight p k = Some c"
  shows "c \<in> h_done p' \<or> (k, c) \<in># held q' \<and> pl_inflight p' k = Some c \<and> todo q' < todo q"
proof (cases q)
  case (Stale st sts nx)
  with assms show ?thesis by (auto elim!: pc_moves simp: ses_close_def)
next
  case (StaleRel st sts nx)
  with assms show ?thesis
    by (auto elim!: pc_moves split: option.splits dest: release_done release_other intro: release_done release_other)
next
  case (CloseSes s nx)
  with assms show ?thesis by (auto elim!: pc_moves simp: ses_close_def)
next
  case (Opening k1 c1)
  with assms show ?thesis by (auto elim!: pc_moves)
next
  case (Opened k1 c1 s)
  with assms show ?thesis
    by (auto elim!: pc_moves simp: storeNew_def Let_def split: if_splits option.splits)
next
  case (Releasing k1 c1 nx)
  with assms show ?thesis by (auto elim!: pc_moves intro: release_done release_other)
next
  case (FailStale st)
  with assms show ?thesis by (auto elim!: pc_moves simp: ses_close_def)
qed (use assms in auto)

lemma waker_step:
  assumes "thread_step b q p q' p'" "c \<in> set (wakes q)"
  shows "c \<in> h_done p' \<or> c \<in> set (wakes q') \<and> todo q' < todo q"
proof (cases q)
  case (Stale st sts nx)
  with assms show ?thesis by (auto elim!: pc_moves)
next
  case (StaleRel st sts nx)
  with assms show ?thesis by (auto elim!: pc_moves)
next
  case (CloseSes s nx)
  with assms show ?thesis by (auto elim!: pc_moves)
next
  case (Releasing k1 c1 nx)
  with assms show ?thesis by (auto elim!: pc_moves)
next
  case (Closing cs ss es)
  with assms show ?thesis by (auto elim!: pc_moves)
qed (use assms in auto)

lemma busy_todo: "held q \<noteq> {#} \<or> wakes q \<noteq> [] \<Longrightarrow> 0 < todo q"
  by (induction q) auto

lemma busy_moves: "held q \<noteq> {#} \<or> wakes q \<noteq> [] \<Longrightarrow> \<exists>q' p'. thread_step b q p q' p'"
proof (cases q)
  case (Closing cs ss es)
  assume "held q \<noteq> {#} \<or> wakes q \<noteq> []"
  with Closing show ?thesis by (cases cs) (auto intro: thread_step.intros)
next
  case (Opened k c s)
  then show ?thesis by (auto intro!: exI stores[OF surjective_pairing])
qed (auto intro: thread_step.intros)

section \<open>What the other goroutines leave alone\<close>

lemma removeLocked_keeps:
  assumes "removeLocked k' e p = (st, p')"
  shows "h_done p' = h_done p" "h_nextchan p \<le> h_nextchan p'"
    "pl_inflight p k = Some c \<Longrightarrow> pl_inflight p' k = Some c"
  using assms by (auto simp: removeLocked_def reserve_def Let_def split: option.splits)

lemma purgeLocked_keeps:
  "purgeLocked now al ks p = (sts, p') \<Longrightarrow> h_done p' = h_done p \<and> h_nextchan p \<le> h_nextchan p' \<and>
     (pl_inflight p k = Some c \<longrightarrow> pl_inflight p' k = Some c)"
proof (induction ks arbitrary: p sts)
  case (Cons k' ks)
  show ?case
  proof (cases "\<exists>e. pl_entries p k' = Some e \<and> \<not> (time_sub now (pe_used e) \<le> pl_ttl p \<and> al (pe_ses e))")
    case True
    then obtain e st p1 sts1 where e: "removeLocked k' e p = (st, p1)" "purgeLocked now al ks p1 = (sts1, p')"
      using Cons.prems by (auto split: prod.splits)
    from Cons.IH[OF e(2)] removeLocked_keeps[OF e(1)] show ?thesis by auto
  next
    case False
    then have "purgeLocked now al ks p = (sts, p')" using Cons.prems by (auto split: option.splits)
    then show ?thesis by (rule Cons.IH)
  qed
qed simp

lemma thread_keeps:
  assumes "thread_step b q p q' p'"
  shows "h_done p \<subseteq> h_done p' \<and> h_nextchan p \<le> h_nextchan p' \<and>
    (pl_inflight p k = Some c \<longrightarrow> pl_inflight p' k = Some c \<or> c \<in> h_done p' \<or> \<not> pl_closed p \<and> pl_closed p')"
  using assms
proof cases
  case (try_cached ks now now2 al k1)
  then show ?thesis
    by (auto simp: tryCached_def split: if_splits prod.splits option.splits
        dest!: purgeLocked_keeps[where k = k and c = c])
next
  case (claims ks now al k1)
  then show ?thesis
    by (auto simp: claim_def reserve_def split: if_splits prod.splits dest!: purgeLocked_keeps[where k = k and c = c])
next
  case (evicts k1 e)
  then show ?thesis
    by (auto simp: evict_def split: option.splits prod.splits dest: removeLocked_keeps)
next
  case (drops k1 e)
  then show ?thesis
    by (auto simp: dropNew_def split: option.splits prod.splits dest: removeLocked_keeps)
next
  case (stores now al k1 c1 s)
  then show ?thesis by (auto simp: storeNew_def Let_def split: if_splits option.splits)
next
  case (put now k1)
  then show ?thesis by (auto simp: Put_def split: if_splits)
next
  case (close "is" es)
  then show ?thesis by (auto simp: Close_def split: if_splits)
next
  case (stale_release st sts nx)
  then show ?thesis by (auto simp: release_def split: option.splits)
next
  case (releases k1 c1)
  then show ?thesis by (auto simp: release_def split: option.split)
qed (auto simp: ses_close_def)

section \<open>Waiters are woken\<close>

text \<open>The goroutine \<open>t\<close> is the one that has to close the channel \<open>c\<close>.\<close>

abbreviation owes :: "'k Sys \<Rightarrow> nat \<Rightarrow> nat \<Rightarrow> bool" where
  "owes s t c \<equiv> owed (slots_of s) t c"

lemma owes_iff: "owes s t c \<longleftrightarrow>
    (\<exists>k. (k, c) \<in># held (sy_pc s t) \<and> pl_inflight (sy_pool s) k = Some c) \<or> c \<in> set (wakes (sy_pc s t))"
  by (simp add: owed_def slots_of_def)

lemma owes_busy: "owes s t c \<Longrightarrow> held (sy_pc s t) \<noteq> {#} \<or> wakes (sy_pc s t) \<noteq> []"
  by (auto simp: owes_iff)

definition shut_between :: "'k Sys \<Rightarrow> 'k Sys \<Rightarrow> bool" where
  "shut_between s s' \<longleftrightarrow> \<not> pl_closed (sy_pool s) \<and> pl_closed (sy_pool s')"

lemma owes_own_step:
  assumes "sys_step b t s s'" "owes s t c"
  shows "c \<in> h_done (sy_pool s') \<or> owes s' t c \<and> todo (sy_pc s' t) < todo (sy_pc s t)"
  using assms(1)
proof cases
  case (move q p)
  show ?thesis
  proof (cases "c \<in> set (wakes (sy_pc s t))")
    case True
    from waker_step[OF move(2) this] move(1) show ?thesis by (auto simp: owes_iff)
  next
    case False
    with assms(2) obtain k where k: "(k, c) \<in># held (sy_pc s t)" "pl_inflight (sy_pool s) k = Some c"
      by (auto simp: owes_iff)
    from holder_step[OF move(2) k] move(1) show ?thesis by (auto simp: owes_iff)
  qed
qed

lemma owes_other_step:
  assumes "sys_step b t' s s'" "owes s t c" "t' \<noteq> t"
  shows "c \<in> h_done (sy_pool s') \<or> shut_between s s' \<or> owes s' t c \<and> sy_pc s' t = sy_pc s t"
  using assms(1)
proof cases
  case (move q p)
  then have same: "sy_pc s' t = sy_pc s t" using assms(3) by simp
  show ?thesis
  proof (cases "c \<in> set (wakes (sy_pc s t))")
    case True
    with same show ?thesis by (simp add: owes_iff)
  next
    case False
    with assms(2) obtain k where k: "(k, c) \<in># held (sy_pc s t)" "pl_inflight (sy_pool s) k = Some c"
      by (auto simp: owes_iff)
    from thread_keeps[OF move(2), of k c] k(2) move(1)
    have "pl_inflight (sy_pool s') k = Some c \<or> c \<in> h_done (sy_pool s') \<or> shut_between s s'"
      by (auto simp: shut_between_def)
    with k(1) same show ?thesis by (auto simp: owes_iff)
  qed
qed

lemma step_mono:
  assumes "sys_step b t s s'"
  shows done_mono: "h_done (sy_pool s) \<subseteq> h_done (sy_pool s')"
    and next_mono: "h_nextchan (sy_pool s) \<le> h_nextchan (sy_pool s')"
proof -
  from assms have "h_done (sy_pool s) \<subseteq> h_done (sy_pool s') \<and> h_nextchan (sy_pool s) \<le> h_nextchan (sy_pool s')"
  proof cases
    case (move q p)
    from thread_keeps[OF move(2)] move(1) show ?thesis by simp
  qed
  then show "h_done (sy_pool s) \<subseteq> h_done (sy_pool s')" "h_nextchan (sy_pool s) \<le> h_nextchan (sy_pool s')" by blast+
qed

lemma shut_mono: "shut_is_empty s \<Longrightarrow> sys_step b t s s' \<Longrightarrow> pl_closed (sy_pool s) \<Longrightarrow> pl_closed (sy_pool s')"
  using step_shut by blast

lemma run_done: "sys_run b s ts s' \<Longrightarrow> h_done (sy_pool s) \<subseteq> h_done (sy_pool s')"
  by (induction rule: sys_run.induct) (auto dest!: done_mono)

lemma run_shut: "sys_run b s ts s' \<Longrightarrow> shut_is_empty s \<Longrightarrow> pl_closed (sy_pool s) \<Longrightarrow> pl_closed (sy_pool s')"
  by (induction rule: sys_run.induct) (auto dest: step_shut)

lemma owes_paid:
  assumes "sys_run b s ts s'" "shut_is_empty s" "owes s t c" "todo (sy_pc s t) \<le> count_list ts t"
  shows "c \<in> h_done (sy_pool s') \<or> shut_between s s'"
  using assms
proof (induction rule: sys_run.induct)
  case (run_nil s)
  with busy_todo[OF owes_busy[OF run_nil(2)]] show ?case by simp
next
  case (run_cons u s s1 us s2)
  have ok: "shut_is_empty s1" using step_shut[OF run_cons.prems(1) run_cons.hyps(1)] by simp
  have later: "shut_between s s2" if "shut_between s1 s2"
    using that shut_mono[OF run_cons.prems(1) run_cons.hyps(1)] by (auto simp: shut_between_def)
  have fwd: "shut_between s s2" if "shut_between s s1"
    using that run_shut[OF run_cons.hyps(2) ok] by (auto simp: shut_between_def)
  note run_done[OF run_cons.hyps(2)]
  moreover consider "c \<in> h_done (sy_pool s1)" | "shut_between s s1"
    | "owes s1 t c" "todo (sy_pc s1 t) \<le> count_list us t"
    using owes_own_step[OF _ run_cons.prems(2)] owes_other_step[OF run_cons.hyps(1) run_cons.prems(2)]
      run_cons.hyps(1) run_cons.prems(3) by (cases "u = t") fastforce+
  ultimately show ?case
    using run_cons.IH[OF ok] later fwd by cases auto
qed

lemma owes_can_pay:
  assumes "owes s t c"
  shows "\<exists>m s'. m \<le> todo (sy_pc s t) \<and> sys_run b s (replicate m t) s' \<and> c \<in> h_done (sy_pool s')"
  using assms
proof (induction "todo (sy_pc s t)" arbitrary: s rule: less_induct)
  case less
  obtain q p where "thread_step b (sy_pc s t) (sy_pool s) q p" using busy_moves[OF owes_busy[OF less(2)]] by blast
  from sys_step.move[OF this] obtain s1 where s1: "sys_step b t s s1" by blast
  show ?case
  proof (cases "c \<in> h_done (sy_pool s1)")
    case True
    have "0 < todo (sy_pc s t)" by (rule busy_todo[OF owes_busy[OF less(2)]])
    with True s1 show ?thesis by (intro exI[of _ 1] exI[of _ s1]) (auto intro: sys_run.intros)
  next
    case False
    with owes_own_step[OF s1 less(2)] have n: "owes s1 t c" "todo (sy_pc s1 t) < todo (sy_pc s t)" by auto
    from less(1)[OF n(2,1)] obtain m s' where
      "m \<le> todo (sy_pc s1 t)" "sys_run b s1 (replicate m t) s'" "c \<in> h_done (sy_pool s')" by blast
    with n(2) s1 show ?thesis by (intro exI[of _ "Suc m"] exI[of _ s']) (auto intro: sys_run.intros)
  qed
qed

text \<open>The channel a goroutine waits for, now or when its closes are done.\<close>

fun waits :: "'k PC \<Rightarrow> nat set" where
  "waits (Stale st sts nx) = waits nx"
| "waits (StaleRel st sts nx) = waits nx"
| "waits (CloseSes s nx) = waits nx"
| "waits (Releasing k c nx) = waits nx"
| "waits (Waiting k c) = {c}"
| "waits _ = {}"

lemma closeStale_waits [simp]: "waits (closeStale sts nx) = waits nx"
  by (cases sts) simp_all

lemma is_idle_waits [simp]: "is_idle q \<Longrightarrow> waits q = {}"
  by (cases q) simp_all

lemma thread_waits:
  assumes "thread_step b q p q' p'" "c \<in> waits q'"
  shows "c \<in> waits q \<or> (\<exists>k. pl_inflight p' k = Some c)"
  using assms(1)
proof cases
  case (try_cached ks now now2 al k)
  with assms(2) show ?thesis by (auto simp: tryCached_def split: if_splits prod.splits option.splits)
next
  case (claims ks now al k)
  with assms(2) show ?thesis by (auto simp: claim_def reserve_def split: if_splits prod.splits)
next
  case (evicts k e)
  with assms(2) show ?thesis by (auto simp: evict_def split: option.splits prod.splits)
next
  case (drops k e)
  with assms(2) show ?thesis by (auto simp: dropNew_def split: option.splits prod.splits)
next
  case (stores now al k c1 s)
  with assms(2) show ?thesis by (auto simp: storeNew_def Let_def split: if_splits option.splits)
next
  case (put now k)
  with assms(2) show ?thesis by (auto simp: Put_def split: if_splits option.splits)
next
  case (close "is" es)
  with assms(2) show ?thesis by (auto simp: Close_def split: if_splits)
qed (use assms(2) in auto)

lemma waits_old: "reachable b s \<Longrightarrow> c \<in> waits (sy_pc s t) \<Longrightarrow> c < h_nextchan (sy_pool s)"
proof (induction arbitrary: t rule: reachable_induct)
  case (init ttl)
  then show ?case by (simp add: sys_init_def)
next
  case (step s u s')
  note D = slot_inv_D[OF reachable_inv(1)[OF reachable_step[OF step.hyps]]]
  from step.hyps(2) show ?case
  proof cases
    case (move q p)
    consider "c \<in> waits (sy_pc s t)" | k where "pl_inflight p k = Some c"
      using step.prems thread_waits[OF move(2), of c] move(1) by (cases "u = t") auto
    then show ?thesis
    proof cases
      case 1
      then show ?thesis using step.IH[of t] next_mono[OF step.hyps(2)] by simp
    next
      case (2 k)
      then have "sl_in (slots_of s') k = Some c" using move(1) by (simp add: slots_of_def)
      then obtain v where "(k, c) \<in># sl_held (slots_of s') v" using D(6) by blast
      from D(4)[OF this] show ?thesis by (simp add: slots_of_def)
    qed
  qed
qed

text \<open>
  C26: a goroutine that waits for a key in flight is never forgotten: its channel is closed already, or
  another goroutine \<open>t'\<close> owes the close. That one can always move on by itself until it has closed it, and it
  has closed it in every run in which it takes \<open>todo\<close> steps, whatever the others do meanwhile, unless the
  pool is shut in that run (\<open>Close\<close> then owes the channel instead).
\<close>

theorem waiter_is_woken:
  assumes "reachable b s" "sy_pc s t = Waiting k c"
  shows "c \<in> h_done (sy_pool s) \<or>
    (\<exists>t'. t' \<noteq> t \<and> (\<exists>m s'. m \<le> todo (sy_pc s t') \<and> sys_run b s (replicate m t') s' \<and> c \<in> h_done (sy_pool s')) \<and>
      (\<forall>ts s'. sys_run b s ts s' \<longrightarrow> todo (sy_pc s t') \<le> count_list ts t' \<longrightarrow>
         c \<in> h_done (sy_pool s') \<or> \<not> pl_closed (sy_pool s) \<and> pl_closed (sy_pool s')))"
proof (cases "c \<in> h_done (sy_pool s)")
  case False
  note D = slot_inv_D[OF reachable_inv(1)[OF assms(1)]]
  have "c < h_nextchan (sy_pool s)" using waits_old[OF assms(1), of c t] assms(2) by simp
  with D(10)[of c] False obtain t' where o: "owes s t' c" by (auto simp: slots_of_def)
  have "t' \<noteq> t" using owes_busy[OF o] assms(2) by auto
  moreover note owes_can_pay[OF o] owes_paid[OF _ reachable_inv(2)[OF assms(1)] o]
  ultimately show ?thesis unfolding shut_between_def by blast
qed simp

theorem waiter_is_woken_witness:
  "\<exists>m s'. m \<le> 4 \<and> sys_run False (duo (Opening () 0) (Waiting () 0) duo_pool) (replicate m 0) s' \<and>
     0 \<in> h_done (sy_pool s')"
proof -
  let ?s = "duo (Opening () 0) (Waiting () 0) duo_pool"
  have "sy_pc ?s (Suc 0) = Waiting () 0" "0 \<notin> h_done (sy_pool ?s)" by (simp_all add: duo_def NewPool_def)
  with waiter_is_woken[OF duo_reachable[OF duo_waiting[of False]], of "Suc 0" "()" 0]
  obtain t' m s' where w: "t' \<noteq> Suc 0" "m \<le> todo (sy_pc ?s t')" "sys_run False ?s (replicate m t') s'"
    "0 \<in> h_done (sy_pool s')" by blast
  have "t' = 0"
  proof (rule ccontr)
    assume "t' \<noteq> 0"
    with w(1,2) have "m = 0" by (simp add: duo_def)
    with w(3) have "s' = ?s" by (auto elim: sys_run.cases)
    with w(4) show False by (simp add: duo_def NewPool_def)
  qed
  with w show ?thesis by (intro exI[of _ m] exI[of _ s']) (simp add: duo_def)
qed

section \<open>Where sessions end\<close>

text \<open>The sessions a goroutine is about to close or to store.\<close>

fun pend :: "'k PC \<Rightarrow> nat set" where
  "pend (Stale st sts nx) = insert (st_ses st) (st_ses ` set sts \<union> pend nx)"
| "pend (StaleRel st sts nx) = st_ses ` set sts \<union> pend nx"
| "pend (CloseSes s nx) = insert s (pend nx)"
| "pend (Opened k c s) = {s}"
| "pend (Releasing k c nx) = pend nx"
| "pend (FailStale st) = {st_ses st}"
| "pend (FailSes s es) = {s}"
| "pend (Closing cs ss es) = set ss"
| "pend _ = {}"

text \<open>The key a goroutine is opening a session for.\<close>

fun opens :: "'k PC \<Rightarrow> 'k option" where
  "opens (Stale st sts nx) = opens nx"
| "opens (StaleRel st sts nx) = opens nx"
| "opens (CloseSes s nx) = opens nx"
| "opens (Releasing k c nx) = opens nx"
| "opens (Opening k c) = Some k"
| "opens (Opened k c s) = Some k"
| "opens _ = None"

definition kept :: "'k Pool \<Rightarrow> nat set" where
  "kept p = h_sesclosed p \<union> pe_ses ` ran (pl_entries p)"

lemma closeStale_pend [simp]: "pend (closeStale sts nx) = st_ses ` set sts \<union> pend nx"
  by (cases sts) auto

lemma closeStale_opens [simp]: "opens (closeStale sts nx) = opens nx"
  by (cases sts) auto

lemma is_idle_opens [simp]: "is_idle q \<Longrightarrow> opens q = None"
  and is_idle_pend [simp]: "is_idle q \<Longrightarrow> pend q = {}"
  by (cases q; simp)+

lemma opens_held: "opens q = Some k \<Longrightarrow> \<exists>c. (k, c) \<in># held q"
  by (induction q) auto

lemma kept_iff: "x \<in> kept p \<longleftrightarrow> x \<in> h_sesclosed p \<or> (\<exists>k e. pl_entries p k = Some e \<and> pe_ses e = x)"
  by (auto simp: kept_def ran_def)

lemma kept_remove:
  assumes "removeLocked k e p = (st, p')" "pl_entries p k = Some e"
  shows "kept p \<subseteq> insert (st_ses st) (kept p')"
proof
  fix x assume "x \<in> kept p"
  then consider "x \<in> h_sesclosed p" | k' e' where "pl_entries p k' = Some e'" "pe_ses e' = x" by (auto simp: kept_iff)
  then show "x \<in> insert (st_ses st) (kept p')"
  proof cases
    case (2 k' e')
    show ?thesis
    proof (cases "k' = k")
      case False
      with 2 have "pl_entries p' k' = Some e'" using removeLocked_frame(4)[OF assms(1)] by simp
      with 2 show ?thesis by (auto simp: kept_iff)
    qed (use 2 assms(2) removeLocked_frame(5)[OF assms(1)] in simp)
  qed (use removeLocked_frame(3)[OF assms(1)] in \<open>simp add: kept_iff\<close>)
qed

lemma kept_purge: "purgeLocked now al ks p = (sts, p') \<Longrightarrow> kept p \<subseteq> st_ses ` set sts \<union> kept p' \<and>
    (pl_entries p k' = None \<longrightarrow> pl_entries p' k' = None)"
proof (induction ks arbitrary: p sts)
  case (Cons k ks)
  show ?case
  proof (cases "\<exists>e. pl_entries p k = Some e \<and> \<not> (time_sub now (pe_used e) \<le> pl_ttl p \<and> al (pe_ses e))")
    case True
    then obtain e st p1 sts1 where e: "pl_entries p k = Some e" "removeLocked k e p = (st, p1)"
      "purgeLocked now al ks p1 = (sts1, p')" "sts = st # sts1"
      using Cons.prems by (auto split: prod.splits)
    from Cons.IH[OF e(3)] kept_remove[OF e(2,1)] removeLocked_frame(4)[OF e(2)] e(4) show ?thesis by auto
  next
    case False
    then have "purgeLocked now al ks p = (sts, p')" using Cons.prems by (auto split: option.splits)
    then show ?thesis by (rule Cons.IH)
  qed
qed simp

lemma kept_upd:
  assumes "pl_entries p k = None \<or> (\<exists>e'. pl_entries p k = Some e' \<and> pe_ses e' = pe_ses e)"
    and p': "pl_entries p' = (pl_entries p)(k \<mapsto> e)" "h_sesclosed p' = h_sesclosed p"
  shows "insert (pe_ses e) (kept p) \<subseteq> kept p'"
proof
  fix x assume "x \<in> insert (pe_ses e) (kept p)"
  then consider "x = pe_ses e" | "x \<in> h_sesclosed p" | k' e' where "pl_entries p k' = Some e'" "pe_ses e' = x"
    using assms(1) by (auto simp: kept_iff)
  then show "x \<in> kept p'"
  proof cases
    case 1
    have "pl_entries p' k = Some e" using p' by simp
    with 1 show ?thesis unfolding kept_iff by blast
  next
    case (3 k' e')
    show ?thesis
    proof (cases "k' = k")
      case True
      with 3 p'(1) assms(1) have "pl_entries p' k' = Some e \<and> pe_ses e = x" by auto
      then show ?thesis unfolding kept_iff by blast
    next
      case False
      with 3 have "pl_entries p' k' = Some e'" using p' by simp
      with 3 show ?thesis unfolding kept_iff by blast
    qed
  qed (simp add: kept_iff p')
qed

lemma kept_close:
  assumes "orders es (pl_entries p)" shows "pe_ses ` ran (pl_entries p) = (pe_ses \<circ> the \<circ> pl_entries p) ` set es"
  using assms by (force simp: orders_def ran_def dom_def image_iff)

lemma kept_same: "pl_entries p' = pl_entries p \<Longrightarrow> h_sesclosed p' = h_sesclosed p \<Longrightarrow> kept p' = kept p"
  by (simp add: kept_def)

lemma current_entry: "current k e p = Some cur \<Longrightarrow> pl_entries p k = Some cur"
  by (auto simp: current_def split: option.splits if_splits)

lemma tryCached_kept:
  assumes "tryCached now now2 al ks k p = (q', p')"
  shows "kept p \<subseteq> kept p' \<union> pend q' \<and> h_nextses p' = h_nextses p \<and> opens q' = None \<and>
    (pl_entries p k' = None \<longrightarrow> pl_entries p' k' = None)"
proof (cases "pl_closed p")
  case False
  obtain sts p1 where p1: "purgeLocked now al ks p = (sts, p1)" by fastforce
  note facts = kept_purge[OF p1, of k'] kept_purge[OF p1, of k] purgeLocked_frame[OF p1]
  show ?thesis
  proof (cases "pl_entries p1 k")
    case None
    with assms False p1 facts show ?thesis by (auto simp: tryCached_def split: option.splits)
  next
    case (Some e)
    then have p': "p' = p1\<lparr>pl_entries := (pl_entries p1)(k \<mapsto> e\<lparr>pe_used := now2\<rparr>)\<rparr>" "q' = closeStale sts (Probe k e)"
      using assms False p1 by (simp_all add: tryCached_def)
    have "kept p1 \<subseteq> kept p'" using kept_upd[of p1 k "e\<lparr>pe_used := now2\<rparr>" p'] Some p' by simp
    with p' facts Some show ?thesis by auto
  qed
qed (use assms in \<open>auto simp: tryCached_def\<close>)

lemma claim_kept:
  assumes "claim now al ks k p = (q', p')"
  shows "kept p \<subseteq> kept p' \<union> pend q' \<and> h_nextses p' = h_nextses p \<and>
    (opens q' = None \<or> opens q' = Some k \<and> pl_entries p' k = None) \<and>
    (pl_entries p k' = None \<longrightarrow> pl_entries p' k' = None)"
proof (cases "pl_closed p")
  case False
  obtain sts p1 where p1: "purgeLocked now al ks p = (sts, p1)" by fastforce
  have "kept (snd (reserve k p1)) = kept p1" by (simp add: reserve_def kept_def)
  with assms False p1 kept_purge[OF p1, of k'] purgeLocked_frame[OF p1] show ?thesis
    by (auto simp: claim_def split: if_splits) (auto simp: reserve_def)
qed (use assms in \<open>auto simp: claim_def\<close>)

lemma removed_kept:
  assumes "current k e p = Some cur" "removeLocked k cur p = (st, p')"
  shows "kept p \<subseteq> insert (st_ses st) (kept p')" "h_nextses p' = h_nextses p"
    "pl_entries p k' = None \<Longrightarrow> pl_entries p' k' = None"
  using kept_remove[OF assms(2) current_entry[OF assms(1)]] removeLocked_frame[OF assms(2)] by auto

lemma thread_kept:
  assumes "thread_step False q p q' p'" "\<And>k. opens q = Some k \<Longrightarrow> pl_entries p k = None"
  shows "kept p \<union> pend q \<union> {x. h_nextses p \<le> x \<and> x < h_nextses p'} \<subseteq> kept p' \<union> pend q'"
  using assms(1)
proof cases
  case (try_cached ks now now2 al k)
  with tryCached_kept[OF try_cached(3)] show ?thesis by auto
next
  case (claims ks now al k)
  with claim_kept[OF claims(3)] show ?thesis by auto
next
  case (evicts k e)
  show ?thesis
  proof (cases "current k e p")
    case (Some cur)
    then obtain st where st: "removeLocked k cur p = (st, p')" "q' = Stale st [] (AtTry k)"
      using evicts by (auto simp: evict_def split: prod.splits)
    with removed_kept[OF Some st(1)] evicts(1) show ?thesis by auto
  qed (use evicts in \<open>auto simp: evict_def\<close>)
next
  case (drops k e)
  show ?thesis
  proof (cases "current k e p")
    case (Some cur)
    then obtain st where st: "removeLocked k cur p = (st, p')" "q' = FailStale st"
      using drops by (auto simp: dropNew_def split: prod.splits)
    with removed_kept[OF Some st(1)] drops(1) show ?thesis by auto
  qed (use drops in \<open>auto simp: dropNew_def\<close>)
next
  case (stores now al k c s)
  let ?e = "\<lparr>pe_id = h_nextent p, pe_ses = s, pe_used = now\<rparr>"
  have "pl_entries p k = None" using assms(2) stores(1) by simp
  with stores kept_upd[of p k ?e p'] show ?thesis
    by (auto simp: storeNew_def Let_def split: if_splits)
next
  case (close "is" es)
  then show ?thesis
    using kept_close[OF close(3)] by (auto simp: Close_def kept_def split: if_splits)
next
  case (stale_release st sts nx)
  then show ?thesis by (auto simp: kept_def split: option.splits)
qed (auto simp: kept_def ses_close_def)

lemma thread_opens:
  assumes "thread_step False q p q' p'"
  shows "(pl_entries p' k \<noteq> None \<longrightarrow> pl_entries p k \<noteq> None \<or> opens q = Some k \<and> opens q' = None) \<and>
    (opens q' = Some k \<longrightarrow> opens q = Some k \<or> pl_entries p' k = None)"
  using assms
proof cases
  case (try_cached ks now now2 al k1)
  with tryCached_kept[OF try_cached(3), of k] show ?thesis by auto
next
  case (claims ks now al k1)
  with claim_kept[OF claims(3), of k] show ?thesis by auto
next
  case (evicts k1 e)
  then show ?thesis
    by (auto simp: evict_def split: option.splits prod.splits if_splits dest!: removeLocked_frame(4))
next
  case (drops k1 e)
  then show ?thesis
    by (auto simp: dropNew_def split: option.splits prod.splits if_splits dest!: removeLocked_frame(4))
next
  case (stores now al k1 c s)
  then show ?thesis by (auto simp: storeNew_def Let_def split: if_splits option.splits)
next
  case (close "is" es)
  then show ?thesis by (auto simp: Close_def split: if_splits)
qed (auto simp: ses_close_def split: option.splits)

text \<open>Without \<open>Put\<close>, no session of a key is cached while one is being opened for it.\<close>

lemma opener_alone: "reachable False s \<Longrightarrow> opens (sy_pc s t) = Some k \<Longrightarrow> pl_entries (sy_pool s) k = None"
proof (induction arbitrary: t k rule: reachable_induct)
  case (init ttl)
  then show ?case by (simp add: sys_init_def)
next
  case (step s u s')
  note alone = slot_inv_D(1)[OF reachable_inv(1)[OF step.hyps(1)]]
  from step.hyps(2) show ?case
  proof cases
    case (move q p)
    note eff = thread_opens[OF move(2), of k]
    show ?thesis
    proof (cases "u = t")
      case True
      with step.prems move(1) have "opens q = Some k" by simp
      with eff step.IH[of u k] move(1) show ?thesis by auto
    next
      case False
      with step.prems move(1) have op: "opens (sy_pc s t) = Some k" by simp
      moreover have "opens (sy_pc s u) \<noteq> Some k"
      proof
        assume "opens (sy_pc s u) = Some k"
        from opens_held[OF this] opens_held[OF op] obtain c c' where
          "(k, c) \<in># sl_held (slots_of s) u" "(k, c') \<in># sl_held (slots_of s) t" by (auto simp: slots_of_def)
        with alone False show False by blast
      qed
      ultimately show ?thesis using eff step.IH[of t k] move(1) by auto
    qed
  qed
qed

lemma sessions_known:
  "reachable False s \<Longrightarrow> x < h_nextses (sy_pool s) \<Longrightarrow> x \<in> kept (sy_pool s) \<or> (\<exists>t. x \<in> pend (sy_pc s t))"
proof (induction rule: reachable_induct)
  case (init ttl)
  then show ?case by (simp add: sys_init_def NewPool_def)
next
  case (step s u s')
  from step.hyps(2) show ?case
  proof cases
    case (move q p)
    have eff: "kept (sy_pool s) \<union> pend (sy_pc s u) \<union> {x. h_nextses (sy_pool s) \<le> x \<and> x < h_nextses p} \<subseteq> kept p \<union> pend q"
      by (rule thread_kept[OF move(2)]) (rule opener_alone[OF step.hyps(1)])
    show ?thesis
    proof (cases "x < h_nextses (sy_pool s)")
      case True
      with step.IH consider "x \<in> kept (sy_pool s)" | t where "x \<in> pend (sy_pc s t)" by blast
      then have "x \<in> kept p \<or> x \<in> pend q \<or> (\<exists>t. t \<noteq> u \<and> x \<in> pend (sy_pc s t))"
        using eff by cases (auto 4 4)
      then show ?thesis using move(1) by auto
    next
      case False
      with step.prems move(1) have "x \<in> {x. h_nextses (sy_pool s) \<le> x \<and> x < h_nextses p}" by simp
      with eff have "x \<in> kept p \<union> pend q" by blast
      then show ?thesis using move(1) by (auto intro: exI[of _ u])
    qed
  qed
qed

text \<open>
  C27: the pool loses no session: once it is closed and every call on it has returned, every session that was
  ever opened through it has been closed, those of failed dials, of evictions, of openers that came too late
  and of entries that expired included.
\<close>

theorem closed_pool_closes_sessions:
  assumes "reachable False s" "pl_closed (sy_pool s)" "\<And>t. is_idle (sy_pc s t)"
  shows "{..<h_nextses (sy_pool s)} \<subseteq> h_sesclosed (sy_pool s)"
proof
  fix x assume "x \<in> {..<h_nextses (sy_pool s)}"
  with sessions_known[OF assms(1), of x] have "x \<in> kept (sy_pool s)" using assms(3) by auto
  moreover have "pl_entries (sy_pool s) = Map.empty"
    using reachable_inv(2)[OF assms(1)] assms(2) by (simp add: shut_is_empty_def)
  ultimately show "x \<in> h_sesclosed (sy_pool s)" by (simp add: kept_def)
qed

text \<open>Goroutine 0 opens session 0 and dials it; then goroutine 1 closes the pool.\<close>

lemma duo_closed:
  "\<exists>s :: unit Sys. sys_run False (sys_init 10) [0, 0, 0, 0, 0, 0, 0, 1, 1, 1] s \<and> pl_closed (sy_pool s) \<and>
     (\<forall>t. is_idle (sy_pc s t)) \<and> h_nextses (sy_pool s) = 1"
proof -
  let ?p1 = "duo_pool\<lparr>h_nextses := 1\<rparr>"
  let ?e = "\<lparr>pe_id = 0, pe_ses = 0, pe_used = 0\<rparr>"
  let ?p2 = "?p1\<lparr>pl_entries := [() \<mapsto> ?e], h_nextent := 1\<rparr>"
  let ?p3 = "release () 0 ?p2"
  let ?p4 = "?p3\<lparr>pl_closed := True, pl_entries := Map.empty, pl_inflight := Map.empty\<rparr>"
  have "thread_step False (Opening () 0) duo_pool (Opened () 0 0) ?p1"
    using open_ok[of False "()" 0 duo_pool] by (simp add: NewPool_def)
  moreover have "thread_step False (Opened () 0 0) ?p1 (Releasing () 0 (DialNew () ?e)) ?p2"
    by (rule stores[of 0 "\<lambda>_. True"]) (simp add: storeNew_def NewPool_def Let_def)
  moreover have "thread_step False (Releasing () 0 (DialNew () ?e)) ?p2 (DialNew () ?e) ?p3" by (rule releases)
  moreover note duo_opening[of False]
  moreover have "thread_step False (DialNew () ?e) ?p3 (Done (Conn 0)) ?p3"
    using dial_new_ok[of False "()" ?e ?p3] by simp
  ultimately have "sys_run False (sys_init 10) (((([0, 0, 0] @ [0]) @ [0]) @ [0]) @ [0]) (duo (Done (Conn 0)) Idle ?p3)"
    by (intro duo_next_0)
  moreover have "thread_step False Idle ?p3 (Closing [] [0] []) ?p4"
    by (rule close[of _ "[]" _ "[()]"]) (auto simp: orders_def release_def chan_close_def NewPool_def Close_def)
  moreover have "thread_step False (Closing [] [0] []) ?p4 (Closing [] [] []) (ses_close 0 ?p4)"
    using closing_ses[of False 0 "[]" "[]" ?p4 True] by (simp add: joinClose_def)
  moreover have "thread_step False (Closing [] [] []) (ses_close 0 ?p4) (Done Void) (ses_close 0 ?p4)"
    using closing_end[of False "[]" "ses_close 0 ?p4"] by simp
  ultimately have "sys_run False (sys_init 10)
      ((((((([0, 0, 0] @ [0]) @ [0]) @ [0]) @ [0]) @ [Suc 0]) @ [Suc 0]) @ [Suc 0])
      (duo (Done (Conn 0)) (Done Void) (ses_close 0 ?p4))" by (intro duo_next_1)
  then show ?thesis
    by (intro exI[of _ "duo (Done (Conn 0)) (Done Void) (ses_close 0 ?p4)"])
      (simp add: duo_def ses_close_def NewPool_def)
qed

theorem closed_pool_closes_sessions_witness: "\<exists>s :: unit Sys. reachable False s \<and> 0 \<in> h_sesclosed (sy_pool s)"
proof -
  obtain s :: "unit Sys" where s: "sys_run False (sys_init 10) [0, 0, 0, 0, 0, 0, 0, 1, 1, 1] s" "pl_closed (sy_pool s)"
    "\<And>t. is_idle (sy_pc s t)" "h_nextses (sy_pool s) = 1" using duo_closed by blast
  from closed_pool_closes_sessions[OF duo_reachable[OF s(1)] s(2,3)] s(4) duo_reachable[OF s(1)] show ?thesis by auto
qed

text \<open>
  With \<open>Put\<close> a session may be lost: one that is put while another is being opened for the key, and is dead when
  the opened one is stored, is overwritten without a close.
\<close>

lemma put_session_lost:
  "\<exists>s :: unit Sys. reachable True s \<and> 0 < h_nextses (sy_pool s) \<and> 0 \<notin> kept (sy_pool s) \<and> (\<forall>t. is_idle (sy_pc s t))"
proof -
  let ?put = "\<lparr>pe_id = 0, pe_ses = 0, pe_used = 0\<rparr>" and ?e = "\<lparr>pe_id = 1, pe_ses = 1, pe_used = 0\<rparr>"
  let ?p1 = "duo_pool\<lparr>h_nextses := 1, pl_entries := [() \<mapsto> ?put], h_nextent := 1\<rparr>"
  let ?p2 = "?p1\<lparr>h_nextses := 2\<rparr>"
  let ?p3 = "?p2\<lparr>pl_entries := [() \<mapsto> ?e], h_nextent := 2\<rparr>"
  let ?p4 = "release () 0 ?p3"
  have "thread_step True Idle duo_pool (Done Void) ?p1"
    by (rule put[where now = 0 and k = "()"]) (simp_all add: Put_def NewPool_def)
  from duo_next_1[OF duo_opening this]
  have "sys_run True (sys_init 10) ([0, 0, 0] @ [Suc 0]) (duo (Opening () 0) (Done Void) ?p1)" .
  moreover have "thread_step True (Opening () 0) ?p1 (Opened () 0 1) ?p2"
    using open_ok[of True "()" 0 ?p1] by (simp add: numeral_2_eq_2)
  moreover have "thread_step True (Opened () 0 1) ?p2 (Releasing () 0 (DialNew () ?e)) ?p3"
    by (rule stores[of 0 "\<lambda>_. False"]) (simp add: storeNew_def NewPool_def numeral_2_eq_2 Let_def)
  moreover have "thread_step True (Releasing () 0 (DialNew () ?e)) ?p3 (DialNew () ?e) ?p4" by (rule releases)
  moreover have "thread_step True (DialNew () ?e) ?p4 (Done (Conn 1)) ?p4"
    using dial_new_ok[of True "()" ?e ?p4] by simp
  ultimately have "sys_run True (sys_init 10) ((((([0, 0, 0] @ [Suc 0]) @ [0]) @ [0]) @ [0]) @ [0])
      (duo (Done (Conn 1)) (Done Void) ?p4)" by (intro duo_next_0)
  then show ?thesis
    by (intro exI[of _ "duo (Done (Conn 1)) (Done Void) ?p4"])
      (simp add: duo_reachable, simp add: duo_def kept_def NewPool_def)
qed

end
