(* ===== verification/MockNumber.thy ===== *)
theory MockNumber
  imports GoStrings Complex_Main
begin

text \<open>
  Decimal numbers of the mock server (\<open>internal/mock/number.go\<close>): query, header and JSON matchers compare
  the texts of numbers exactly, however long they are, with a capped exponent. The last section shows
  that the comparison is that of the rational numbers the texts stand for.
\<close>

section \<open>The code\<close>

record number =
  n_neg :: bool
  n_digits :: string
  n_exp :: int

definition zero_number :: number where
  "zero_number = \<lparr>n_neg = False, n_digits = [], n_exp = 0\<rparr>"

definition expLimit :: int where
  "expLimit = 10 ^ 18"

definition exp_finite :: "int \<Rightarrow> bool" where
  "exp_finite e \<longleftrightarrow> - expLimit < e \<and> e < expLimit"

definition exp_shift :: "int \<Rightarrow> int \<Rightarrow> int" where
  "exp_shift e digits = min (max (e + digits) (- expLimit)) expLimit"

definition dec_digit :: "char \<Rightarrow> bool" where
  "dec_digit c = in_range CHR ''0'' CHR ''9'' c"

definition cutDigits :: "string \<Rightarrow> string \<times> string" where
  "cutDigits s = (takeWhile dec_digit s, dropWhile dec_digit s)"

definition trim_zeros :: "string \<Rightarrow> string" where
  "trim_zeros s = dropWhile (\<lambda>c. c = CHR ''0'') s"

definition trim_zeros_right :: "string \<Rightarrow> string" where
  "trim_zeros_right s = rev (trim_zeros (rev s))"

definition scanMax :: int where
  "scanMax = 4 * expLimit"

text \<open>The loop over the exponent's digits; no step leaves the range of \<open>int64\<close> (lemma \<open>exp_scan_bounds\<close>).\<close>

fun exp_scan :: "int \<Rightarrow> string \<Rightarrow> int" where
  "exp_scan e [] = e"
| "exp_scan e (c # cs) =
     (if e > scanMax div 10 then scanMax else exp_scan (e * 10 + (byte_val c - byte_val CHR ''0'')) cs)"

fun parseExponent :: "string \<Rightarrow> int option" where
  "parseExponent [] = Some 0"
| "parseExponent (m # s) =
     (if m \<noteq> CHR ''e'' \<and> m \<noteq> CHR ''E'' then None
      else let neg = has_prefix s ''-'';
               s1 = (if neg \<or> has_prefix s ''+'' then drop 1 s else s);
               (digits, rest) = cutDigits s1 in
        if digits = [] \<or> rest \<noteq> [] then None
        else let e = min (exp_scan 0 (trim_zeros digits)) scanMax in Some (if neg then - e else e))"

definition parseNumber :: "string \<Rightarrow> number option" where
  "parseNumber s =
     (let signed = s \<noteq> [] \<and> (hd s = CHR ''-'' \<or> hd s = CHR ''+'');
          neg = (signed \<and> hd s = CHR ''-'');
          (whole, s1) = cutDigits (if signed then tl s else s) in
      if whole = [] then None
      else
        let point = has_prefix s1 ''.'';
            (frac, s2) = (if point then cutDigits (tl s1) else ([], s1)) in
        if point \<and> frac = [] then None
        else case parseExponent s2 of
          None \<Rightarrow> None
        | Some e \<Rightarrow>
            let digits = whole @ frac;
                lead = length digits - length (trim_zeros digits);
                digits1 = trim_zeros_right (drop lead digits) in
            if digits1 = [] then Some zero_number
            else Some \<lparr>n_neg = neg, n_digits = digits1, n_exp = exp_shift e (int (length whole) - int lead)\<rparr>)"

text \<open>\<open>cmp.Compare\<close> and \<open>strings.Compare\<close>.\<close>

definition compare3 :: "'a :: linorder \<Rightarrow> 'a \<Rightarrow> int" where
  "compare3 a b = (if a < b then -1 else if a = b then 0 else 1)"

definition number_cmp :: "number \<Rightarrow> number \<Rightarrow> int" where
  "number_cmp n k =
     (if n_neg n \<noteq> n_neg k then (if n_neg n then -1 else 1)
      else if n_digits n = [] \<and> n_digits k = [] then 0
      else if n_digits n = [] then -1
      else if n_digits k = [] then 1
      else let c0 = compare3 (n_exp n) (n_exp k);
               c = (if c0 = 0 \<and> exp_finite (n_exp n) then compare3 (n_digits n) (n_digits k) else c0) in
        if n_neg n then - c else c)"

datatype numberRelation = relGT | relGTE | relLT | relLTE

fun rel_holds :: "numberRelation \<Rightarrow> int \<Rightarrow> bool" where
  "rel_holds relGT c = (c > 0)"
| "rel_holds relGTE c = (c \<ge> 0)"
| "rel_holds relLT c = (c < 0)"
| "rel_holds relLTE c = (c \<le> 0)"

definition equalJSONNumbers :: "string \<Rightarrow> string \<Rightarrow> bool" where
  "equalJSONNumbers want got =
     (if want = got then True
      else case parseNumber want of
        None \<Rightarrow> False
      | Some x \<Rightarrow> (case parseNumber got of None \<Rightarrow> False | Some y \<Rightarrow> number_cmp x y = 0))"

section \<open>The numbers that texts stand for\<close>

definition digit_val :: "char \<Rightarrow> int" where
  "digit_val c = byte_val c - byte_val CHR ''0''"

text \<open>\<open>whole_val ds\<close> is the natural number with the digits \<open>ds\<close>, \<open>frac_val ds\<close> the number 0.\<open>ds\<close>.\<close>

fun whole_val :: "string \<Rightarrow> int" where
  "whole_val [] = 0"
| "whole_val (c # cs) = digit_val c * 10 ^ length cs + whole_val cs"

fun frac_val :: "string \<Rightarrow> real" where
  "frac_val [] = 0"
| "frac_val (c # cs) = (of_int (digit_val c) + frac_val cs) / 10"

text \<open>A decimal text in parts: a sign, digits, digits after the point, and a mark, sign and digits of an exponent.\<close>

record decimal =
  d_sign :: string
  d_whole :: string
  d_frac :: string
  d_exp :: "(char \<times> string \<times> string) option"

definition dec_wf :: "decimal \<Rightarrow> bool" where
  "dec_wf d \<longleftrightarrow> d_sign d \<in> {[], ''-'', ''+''} \<and> d_whole d \<noteq> [] \<and> list_all dec_digit (d_whole d) \<and>
     list_all dec_digit (d_frac d) \<and>
     (case d_exp d of None \<Rightarrow> True
      | Some (m, sg, ds) \<Rightarrow> m \<in> {CHR ''e'', CHR ''E''} \<and> sg \<in> {[], ''-'', ''+''} \<and> ds \<noteq> [] \<and> list_all dec_digit ds)"

definition exp_text :: "decimal \<Rightarrow> string" where
  "exp_text d = (case d_exp d of None \<Rightarrow> [] | Some (m, sg, ds) \<Rightarrow> m # sg @ ds)"

definition dec_text :: "decimal \<Rightarrow> string" where
  "dec_text d = d_sign d @ d_whole d @ (if d_frac d = [] then [] else ''.'' @ d_frac d) @ exp_text d"

definition exp_val :: "decimal \<Rightarrow> int" where
  "exp_val d = (case d_exp d of None \<Rightarrow> 0 | Some (m, sg, ds) \<Rightarrow> (if sg = ''-'' then - whole_val ds else whole_val ds))"

definition dec_val :: "decimal \<Rightarrow> real" where
  "dec_val d = (if d_sign d = ''-'' then -1 else 1) *
     of_int (whole_val (d_whole d @ d_frac d)) * 10 powi (exp_val d - int (length (d_frac d)))"

text \<open>
  The place of the first digit that counts, from the point on; the code tells places apart within 10^18, and does not tell
  apart two places that lie beyond it on the same side.
\<close>

definition dec_place :: "decimal \<Rightarrow> int" where
  "dec_place d = exp_val d + int (length (d_whole d)) -
     int (length (d_whole d @ d_frac d) - length (trim_zeros (d_whole d @ d_frac d)))"

definition same_cap :: "int \<Rightarrow> int \<Rightarrow> bool" where
  "same_cap p q \<longleftrightarrow> expLimit \<le> p \<and> expLimit \<le> q \<or> p \<le> - expLimit \<and> q \<le> - expLimit"

text \<open>Texts of less than 10^18 bytes; the server reads far shorter ones.\<close>

definition dec_short :: "decimal \<Rightarrow> bool" where
  "dec_short d \<longleftrightarrow> length (dec_text d) < 10 ^ 18"

section \<open>Values of parsed numbers\<close>

definition num_val :: "number \<Rightarrow> real" where
  "num_val n = (if n_neg n then -1 else 1) * frac_val (n_digits n) * 10 powi n_exp n"

definition num_wf :: "number \<Rightarrow> bool" where
  "num_wf n \<longleftrightarrow> list_all dec_digit (n_digits n) \<and>
     (n_digits n = [] \<longrightarrow> n = zero_number) \<and>
     (n_digits n \<noteq> [] \<longrightarrow> hd (n_digits n) \<noteq> CHR ''0'' \<and> last (n_digits n) \<noteq> CHR ''0'')"

lemma dec_digit_val: "dec_digit c \<Longrightarrow> 0 \<le> digit_val c \<and> digit_val c \<le> 9"
  by (simp add: dec_digit_def digit_val_def in_range_val byte_val_def)

lemma digit_val_zero: "digit_val c = 0 \<longleftrightarrow> c = CHR ''0''"
proof
  assume "digit_val c = 0"
  then have "byte_val c = byte_val CHR ''0''" by (simp add: digit_val_def)
  then show "c = CHR ''0''" by (metis byte_of_val)
qed (simp add: digit_val_def)

lemma digit_val_less: "digit_val c < digit_val d \<longleftrightarrow> c < d"
  by (simp add: digit_val_def byte_val_nat less_char_def)

lemma frac_val_bounds: "list_all dec_digit ds \<Longrightarrow> 0 \<le> frac_val ds \<and> frac_val ds < 1"
proof (induction ds)
  case (Cons c ds)
  then have "0 \<le> digit_val c" "digit_val c \<le> 9" "0 \<le> frac_val ds" "frac_val ds < 1"
    using dec_digit_val[of c] by auto
  then show ?case by (auto simp: divide_simps intro: order.strict_trans1)
qed simp

lemma frac_val_pos: "list_all dec_digit ds \<Longrightarrow> ds \<noteq> [] \<Longrightarrow> last ds \<noteq> CHR ''0'' \<Longrightarrow> 0 < frac_val ds"
proof (induction ds)
  case (Cons c ds)
  show ?case
  proof (cases "ds = []")
    case True
    with Cons.prems have "digit_val c > 0" using dec_digit_val[of c] digit_val_zero[of c] by auto
    with True show ?thesis by simp
  next
    case False
    with Cons have "0 < frac_val ds" "0 \<le> digit_val c" using dec_digit_val[of c] by auto
    then show ?thesis by (simp add: add_nonneg_pos)
  qed
qed simp

lemma frac_val_tenth:
  assumes "list_all dec_digit ds" "ds \<noteq> []" "hd ds \<noteq> CHR ''0''"
  shows "1 / 10 \<le> frac_val ds"
proof (cases ds)
  case (Cons c cs)
  with assms have "1 \<le> digit_val c" "0 \<le> frac_val cs"
    using dec_digit_val[of c] digit_val_zero[of c] frac_val_bounds[of cs] by auto
  with Cons show ?thesis by (simp add: divide_simps)
qed (use assms in simp)

lemma frac_val_less:
  assumes "list_all dec_digit a" "list_all dec_digit b" "b \<noteq> [] \<longrightarrow> last b \<noteq> CHR ''0''" "a < b"
  shows "frac_val a < frac_val b"
  using assms
proof (induction a arbitrary: b)
  case Nil
  then have "b \<noteq> []" by auto
  with Nil frac_val_pos[of b] show ?case by simp
next
  case (Cons c a)
  then obtain d b' where b: "b = d # b'" by (cases b) auto
  have tail: "b' \<noteq> [] \<longrightarrow> last b' \<noteq> CHR ''0''" using Cons.prems(3) b by auto
  consider "c < d" | "c = d" "a < b'" using Cons.prems(4) b by auto
  then show ?case
  proof cases
    case 1
    then have "digit_val c + 1 \<le> digit_val d" using digit_val_less[of c d] by simp
    then have "of_int (digit_val c) + 1 \<le> (of_int (digit_val d) :: real)" by (metis of_int_1 of_int_add of_int_le_iff)
    with frac_val_bounds[of a] frac_val_bounds[of b'] Cons.prems b show ?thesis by simp
  next
    case 2
    with Cons.IH[of b'] Cons.prems tail b show ?thesis by simp
  qed
qed

lemma compare3_frac:
  assumes "list_all dec_digit a" "list_all dec_digit b" "a \<noteq> [] \<longrightarrow> last a \<noteq> CHR ''0''" "b \<noteq> [] \<longrightarrow> last b \<noteq> CHR ''0''"
  shows "compare3 a b = compare3 (frac_val a) (frac_val b)"
  using frac_val_less[OF assms(1,2,4)] frac_val_less[OF assms(2,1,3)] by (cases a b rule: linorder_cases) (auto simp: compare3_def)

text \<open>The magnitude of a number that is not zero lies between two powers of ten.\<close>

definition num_mag :: "number \<Rightarrow> real" where
  "num_mag n = frac_val (n_digits n) * 10 powi n_exp n"

lemma ten_powi_less: "a < b \<Longrightarrow> (10 :: real) powi a \<le> 10 powi b / 10"
proof -
  assume "a < b"
  then have "(10 :: real) powi a \<le> 10 powi (b - 1)" by (intro power_int_increasing) auto
  then show ?thesis by (simp add: power_int_diff)
qed

lemma num_mag_bounds:
  assumes "num_wf n" "n_digits n \<noteq> []"
  shows "10 powi n_exp n / 10 \<le> num_mag n \<and> num_mag n < 10 powi n_exp n"
proof -
  have "1 / 10 \<le> frac_val (n_digits n)" "frac_val (n_digits n) < 1"
    using assms frac_val_tenth frac_val_bounds by (auto simp: num_wf_def)
  moreover have "(0 :: real) < 10 powi n_exp n" by simp
  ultimately show ?thesis
    by (auto simp: num_mag_def mult_right_mono[of "1 / 10"])
qed

lemma num_mag_less:
  assumes "num_wf x" "num_wf y" "n_digits x \<noteq> []" "n_digits y \<noteq> []" "n_exp x < n_exp y"
  shows "num_mag x < num_mag y"
proof -
  have "num_mag x < 10 powi n_exp x" using num_mag_bounds[OF assms(1,3)] by simp
  also have "\<dots> \<le> 10 powi n_exp y / 10" by (rule ten_powi_less[OF assms(5)])
  also have "\<dots> \<le> num_mag y" using num_mag_bounds[OF assms(2,4)] by simp
  finally show ?thesis .
qed

lemma compare3_mult: "0 < (c :: real) \<Longrightarrow> compare3 (a * c) (b * c) = compare3 a b"
  by (auto simp: compare3_def)

lemma compare3_minus: "compare3 (- a) (- b) = - compare3 a (b :: real)"
  by (auto simp: compare3_def)

text \<open>The capped place keeps the order of the places, up to what lies beyond the limit on one side.\<close>

definition cap :: "int \<Rightarrow> int" where
  "cap e = min (max e (- expLimit)) expLimit"

lemma cap_less: "p < q \<Longrightarrow> cap p < cap q \<or> cap p = cap q \<and> same_cap p q \<and> \<not> exp_finite (cap p)"
  by (auto simp: cap_def same_cap_def exp_finite_def expLimit_def)

lemma cap_finite: "exp_finite (cap p) \<or> same_cap p p"
  by (auto simp: cap_def same_cap_def exp_finite_def expLimit_def)

lemma same_cap_sym: "same_cap p q \<Longrightarrow> same_cap q p"
  by (auto simp: same_cap_def)

lemma num_mag_cmp:
  assumes "num_wf x" "num_wf y" "n_digits x \<noteq> []" "n_digits y \<noteq> []"
  defines "c0 \<equiv> compare3 (cap (n_exp x)) (cap (n_exp y))"
  defines "c \<equiv> if c0 = 0 \<and> exp_finite (cap (n_exp x)) then compare3 (n_digits x) (n_digits y) else c0"
  shows "c = compare3 (num_mag x) (num_mag y) \<or> c = 0 \<and> same_cap (n_exp x) (n_exp y)"
proof (cases "n_exp x" "n_exp y" rule: linorder_cases)
  case less
  then have "num_mag x < num_mag y" by (rule num_mag_less[OF assms(1-4)])
  with cap_less[OF less] show ?thesis by (auto simp: c_def c0_def compare3_def)
next
  case greater
  then have "num_mag y < num_mag x" by (rule num_mag_less[OF assms(2,1,4,3)])
  with cap_less[OF greater] show ?thesis by (auto simp: c_def c0_def compare3_def dest: same_cap_sym)
next
  case equal
  have "compare3 (n_digits x) (n_digits y) = compare3 (frac_val (n_digits x)) (frac_val (n_digits y))"
    using assms by (intro compare3_frac) (auto simp: num_wf_def)
  then have "compare3 (n_digits x) (n_digits y) = compare3 (num_mag x) (num_mag y)"
    using equal by (simp add: num_mag_def compare3_mult)
  with equal cap_finite[of "n_exp x"] show ?thesis by (auto simp: c_def c0_def compare3_def)
qed

lemma num_val_mag: "num_val n = (if n_neg n then - num_mag n else num_mag n)"
  by (simp add: num_val_def num_mag_def)

lemma num_mag_pos: "num_wf n \<Longrightarrow> n_digits n \<noteq> [] \<Longrightarrow> 0 < num_mag n"
  using num_mag_bounds[of n] by (metis divide_pos_pos less_le_trans zero_less_numeral zero_less_power_int)

lemma num_zero: "num_wf n \<Longrightarrow> n_digits n = [] \<Longrightarrow> n_neg n = False \<and> num_val n = 0"
  by (simp add: num_wf_def zero_number_def num_val_def)

text \<open>A parsed number whose place would be \<open>p\<close> without the limit, and its value with that place.\<close>

definition capped_at :: "int \<Rightarrow> number \<Rightarrow> bool" where
  "capped_at p n \<longleftrightarrow> num_wf n \<and> (n_digits n \<noteq> [] \<longrightarrow> n_exp n = cap p)"

definition val_at :: "int \<Rightarrow> number \<Rightarrow> real" where
  "val_at p n = (if n_digits n = [] then 0 else num_val (n\<lparr>n_exp := p\<rparr>))"

lemma number_cmp_val:
  assumes "capped_at p x" "capped_at q y"
  shows "number_cmp x y = compare3 (val_at p x) (val_at q y) \<or> number_cmp x y = 0 \<and> same_cap p q"
proof -
  let ?x = "x\<lparr>n_exp := p\<rparr>" and ?y = "y\<lparr>n_exp := q\<rparr>"
  have wx: "n_digits x \<noteq> [] \<Longrightarrow> num_wf ?x \<and> 0 < num_mag ?x" and wy: "n_digits y \<noteq> [] \<Longrightarrow> num_wf ?y \<and> 0 < num_mag ?y"
    using assms num_mag_pos[of ?x] num_mag_pos[of ?y] by (auto simp: capped_at_def num_wf_def)
  have zx: "n_digits x = [] \<Longrightarrow> \<not> n_neg x" and zy: "n_digits y = [] \<Longrightarrow> \<not> n_neg y"
    using assms num_zero by (auto simp: capped_at_def)
  show ?thesis
  proof (cases "n_digits x = [] \<or> n_digits y = []")
    case True
    then show ?thesis using wx wy zx zy
      by (cases "n_digits x = []"; cases "n_digits y = []") (auto simp: number_cmp_def compare3_def val_at_def num_val_mag)
  next
    case False
    then have d: "n_digits x \<noteq> []" "n_digits y \<noteq> []" by auto
    then have e: "n_exp x = cap p" "n_exp y = cap q" using assms by (auto simp: capped_at_def)
    from num_mag_cmp[of ?x ?y] d wx wy e show ?thesis
      by (auto simp: number_cmp_def val_at_def num_val_mag compare3_minus Let_def) (auto simp: compare3_def)
  qed
qed

section \<open>What the parser reads\<close>

lemma frac_whole: "frac_val ds * 10 ^ length ds = of_int (whole_val ds)"
proof (induction ds)
  case (Cons c ds)
  then have "frac_val ds * 10 ^ length ds = of_int (whole_val ds)" by simp
  then show ?case by (simp add: field_simps)
qed simp

lemma whole_val_append: "whole_val (a @ b) = whole_val a * 10 ^ length b + whole_val b"
  by (induction a) (simp_all add: power_add algebra_simps)

lemma whole_val_trim: "whole_val (trim_zeros ds) = whole_val ds"
  by (induction ds) (auto simp: trim_zeros_def digit_val_def)

lemma trim_zeros_split: "\<exists>k. ds = replicate k CHR ''0'' @ trim_zeros ds"
proof (induction ds)
  case (Cons c ds)
  then obtain k where k: "ds = replicate k CHR ''0'' @ trim_zeros ds" by blast
  show ?case
  proof (cases "c = CHR ''0''")
    case True
    with k show ?thesis by (intro exI[of _ "Suc k"]) (simp add: trim_zeros_def)
  next
    case False
    then show ?thesis by (intro exI[of _ 0]) (simp add: trim_zeros_def)
  qed
qed (simp add: trim_zeros_def)

lemma drop_lead: "drop (length ds - length (trim_zeros ds)) ds = trim_zeros ds"
  using trim_zeros_split[of ds] by (metis append_eq_conv_conj diff_add_inverse2 length_append length_replicate)

lemma trim_zeros_digits: "list_all dec_digit ds \<Longrightarrow> list_all dec_digit (trim_zeros ds)"
  by (auto simp: trim_zeros_def list_all_iff dest: set_dropWhileD)

lemma trim_zeros_hd: "trim_zeros ds \<noteq> [] \<Longrightarrow> hd (trim_zeros ds) \<noteq> CHR ''0''"
  using hd_dropWhile[of "\<lambda>c. c = CHR ''0''" ds] by (auto simp: trim_zeros_def)

lemma trim_right_split: "\<exists>k. ds = trim_zeros_right ds @ replicate k CHR ''0''"
  using trim_zeros_split[of "rev ds"] by (auto simp: trim_zeros_right_def) (metis rev_append rev_replicate rev_rev_ident)

lemma frac_val_zeros: "frac_val (ds @ replicate k CHR ''0'') = frac_val ds"
proof (induction ds)
  case Nil
  have "frac_val (replicate k CHR ''0'') = 0" by (induction k) (simp_all add: digit_val_def)
  then show ?case by simp
qed simp

lemma frac_val_trim: "frac_val (trim_zeros_right ds) = frac_val ds"
  using trim_right_split[of ds] frac_val_zeros[of "trim_zeros_right ds"] by metis

lemma trim_right_hd: "trim_zeros_right ds \<noteq> [] \<Longrightarrow> hd (trim_zeros_right ds) = hd ds"
  using trim_right_split[of ds] by (metis hd_append2)

lemma trim_right_last: "trim_zeros_right ds \<noteq> [] \<Longrightarrow> last (trim_zeros_right ds) \<noteq> CHR ''0''"
  using trim_zeros_hd[of "rev ds"] by (simp add: trim_zeros_right_def last_rev)

lemma trim_right_digits: "list_all dec_digit ds \<Longrightarrow> list_all dec_digit (trim_zeros_right ds)"
  using trim_zeros_digits[of "rev ds"] by (simp add: trim_zeros_right_def)

lemma exp_scan_bounds: "0 \<le> e \<Longrightarrow> e \<le> scanMax + 9 \<Longrightarrow> list_all dec_digit ds \<Longrightarrow>
    0 \<le> exp_scan e ds \<and> exp_scan e ds \<le> scanMax + 9"
proof (induction ds arbitrary: e)
  case (Cons c ds)
  then have "0 \<le> digit_val c" "digit_val c \<le> 9" using dec_digit_val[of c] by auto
  with Cons show ?case by (auto simp: digit_val_def scanMax_def expLimit_def)
qed simp

lemma whole_val_nonneg: "list_all dec_digit ds \<Longrightarrow> 0 \<le> whole_val ds"
  by (induction ds) (auto dest: dec_digit_val)

lemma exp_scan_val: "0 \<le> e \<Longrightarrow> list_all dec_digit ds \<Longrightarrow>
    min (exp_scan e ds) scanMax = min (e * 10 ^ length ds + whole_val ds) scanMax"
proof (induction ds arbitrary: e)
  case (Cons c ds)
  have c: "0 \<le> digit_val c" "0 \<le> whole_val ds" using Cons.prems dec_digit_val[of c] whole_val_nonneg[of ds] by auto
  show ?case
  proof (cases "e > scanMax div 10")
    case True
    then have "scanMax < e * 10" by (simp add: scanMax_def expLimit_def)
    also have "e * 10 \<le> e * 10 ^ length (c # ds)"
      using Cons.prems(1) by (intro mult_left_mono) (simp_all add: self_le_power)
    also have "\<dots> \<le> e * 10 ^ length (c # ds) + whole_val (c # ds)" using c by simp
    finally show ?thesis using True by (simp only: exp_scan.simps if_True min.absorb2 less_imp_le min.idem)
  next
    case False
    then show ?thesis using Cons.IH[of "e * 10 + digit_val c"] Cons.prems c by (simp add: digit_val_def algebra_simps)
  qed
qed simp

lemma not_digit: "\<not> dec_digit CHR ''.''" "\<not> dec_digit CHR ''e''" "\<not> dec_digit CHR ''E''" "\<not> dec_digit CHR ''-''" "\<not> dec_digit CHR ''+''"
  by (simp_all add: dec_digit_def in_range_val byte_val_def)

lemma cutDigits_append:
  assumes "list_all dec_digit ds" "rest = [] \<or> \<not> dec_digit (hd rest)"
  shows "cutDigits (ds @ rest) = (ds, rest)"
  using assms by (cases rest) (auto simp: cutDigits_def list_all_iff takeWhile_append dropWhile_append)

lemma dec_exp_read:
  assumes "dec_wf d"
  shows "parseExponent (exp_text d) = Some (min (max (exp_val d) (- scanMax)) scanMax)"
proof (cases "d_exp d")
  case None
  then show ?thesis by (simp add: exp_text_def exp_val_def scanMax_def expLimit_def)
next
  case (Some x)
  obtain m sg ds where x: "x = (m, sg, ds)" by (cases x)
  with Some assms have w: "m = CHR ''e'' \<or> m = CHR ''E''" "sg \<in> {[], ''-'', ''+''}" "ds \<noteq> []" "list_all dec_digit ds"
    by (auto simp: dec_wf_def)
  obtain c cs where ds: "ds = c # cs" using w(3) by (cases ds) auto
  then have "dec_digit c" using w(4) by simp
  then have "c \<noteq> CHR ''-''" "c \<noteq> CHR ''+''" using not_digit by auto
  then have np: "\<not> has_prefix ds ''-''" "\<not> has_prefix ds ''+''" "has_prefix (CHR ''-'' # ds) ''-''" "has_prefix (CHR ''+'' # ds) ''+''"
    "\<not> has_prefix (CHR ''+'' # ds) ''-''" by (simp_all add: ds has_prefix_def)
  have "0 \<le> whole_val ds" "0 < scanMax" using whole_val_nonneg[OF w(4)] by (simp_all add: scanMax_def expLimit_def)
  then have capped: "min (max (whole_val ds) (- scanMax)) scanMax = min (whole_val ds) scanMax"
    "min (max (- whole_val ds) (- scanMax)) scanMax = - min (whole_val ds) scanMax" by auto
  have "min (exp_scan 0 (trim_zeros ds)) scanMax = min (whole_val ds) scanMax"
    using exp_scan_val[of 0 "trim_zeros ds"] trim_zeros_digits[OF w(4)] by (simp add: whole_val_trim)
  moreover have "cutDigits ds = (ds, [])" using cutDigits_append[OF w(4), of "[]"] by simp
  ultimately show ?thesis
    using w(1-3) np unfolding exp_text_def exp_val_def Some x by (auto simp: capped Let_def)
qed

lemma dec_exp_head: "dec_wf d \<Longrightarrow> exp_text d = [] \<or> hd (exp_text d) \<in> {CHR ''e'', CHR ''E''}"
  by (auto simp: exp_text_def dec_wf_def split: option.split)

text \<open>A text has one reading: its parts are determined.\<close>

lemma sign_digits_inj:
  assumes "sg \<in> {[], ''-'', ''+''}" "sg' \<in> {[], ''-'', ''+''}" "sg @ s = sg' @ s'"
    and "s \<noteq> [] \<and> dec_digit (hd s)" "s' \<noteq> [] \<and> dec_digit (hd s')"
  shows "sg = sg' \<and> s = s'"
proof -
  obtain c cs c' cs' where "s = c # cs" "s' = c' # cs'" "dec_digit c" "dec_digit c'" using assms(4,5) by (cases s; cases s') auto
  moreover from this have "c \<noteq> CHR ''-''" "c \<noteq> CHR ''+''" "c' \<noteq> CHR ''-''" "c' \<noteq> CHR ''+''" using not_digit by metis+
  ultimately show ?thesis using assms(1-3) by auto
qed

lemma exp_text_inj:
  assumes "dec_wf d" "dec_wf e" "exp_text d = exp_text e"
  shows "d_exp d = d_exp e"
proof (cases "d_exp d")
  case None
  then show ?thesis using assms(3) by (cases "d_exp e") (auto simp: exp_text_def split: prod.split_asm)
next
  case (Some x)
  obtain m sg ds where x: "x = (m, sg, ds)" by (cases x)
  then obtain m' sg' ds' where y: "d_exp e = Some (m', sg', ds')" using assms(3) Some by (cases "d_exp e") (auto simp: exp_text_def)
  have "m = m'" "sg @ ds = sg' @ ds'" using assms(3) Some x y by (simp_all add: exp_text_def)
  moreover have "sg = sg' \<and> ds = ds'"
  proof (rule sign_digits_inj[OF _ _ \<open>sg @ ds = sg' @ ds'\<close>])
    show "sg \<in> {[], ''-'', ''+''}" "sg' \<in> {[], ''-'', ''+''}" using assms(1,2) Some x y by (simp_all add: dec_wf_def)
    show "ds \<noteq> [] \<and> dec_digit (hd ds)" using assms(1) Some x by (cases ds) (simp_all add: dec_wf_def)
    show "ds' \<noteq> [] \<and> dec_digit (hd ds')" using assms(2) y by (cases ds') (simp_all add: dec_wf_def)
  qed
  ultimately show ?thesis using Some x y by simp
qed

lemma dec_text_inj:
  assumes d: "dec_wf d" and e: "dec_wf e" and t: "dec_text d = dec_text e"
  shows "d = e"
proof -
  let ?r = "\<lambda>d. (if d_frac d = [] then [] else ''.'' @ d_frac d) @ exp_text d"
  have head: "exp_text x = [] \<or> \<not> dec_digit (hd (exp_text x))" if "dec_wf x" for x using dec_exp_head[OF that] not_digit by auto
  have cut: "cutDigits (d_whole x @ ?r x) = (d_whole x, ?r x)" if "dec_wf x" for x
    by (rule cutDigits_append) (use that head[OF that] in \<open>auto simp: dec_wf_def not_digit\<close>)
  have cutf: "cutDigits (d_frac x @ exp_text x) = (d_frac x, exp_text x)" if "dec_wf x" for x
    by (rule cutDigits_append[OF _ head[OF that]]) (use that in \<open>simp add: dec_wf_def\<close>)
  have w: "d_whole x @ ?r x \<noteq> [] \<and> dec_digit (hd (d_whole x @ ?r x))" if "dec_wf x" for x
    using that by (cases "d_whole x") (auto simp: dec_wf_def)
  have s: "d_sign d = d_sign e \<and> d_whole d @ ?r d = d_whole e @ ?r e"
  proof (rule sign_digits_inj)
    show "d_sign d @ d_whole d @ ?r d = d_sign e @ d_whole e @ ?r e" using t by (simp add: dec_text_def)
    show "d_sign d \<in> {[], ''-'', ''+''}" "d_sign e \<in> {[], ''-'', ''+''}" using d e by (simp_all add: dec_wf_def)
  qed (rule w[OF d], rule w[OF e])
  then have wr: "d_whole d = d_whole e" "?r d = ?r e" using cut[OF d] cut[OF e] by (metis prod.inject)+
  have dot: "d_frac x \<noteq> [] \<longleftrightarrow> has_prefix (?r x) ''.''" if "dec_wf x" for x
    using dec_exp_head[OF that] by (cases "exp_text x") (auto simp: has_prefix_def)
  have "d_frac d = [] \<longleftrightarrow> d_frac e = []" using dot[OF d] dot[OF e] wr(2) by metis
  then have "d_frac d @ exp_text d = d_frac e @ exp_text e" using wr(2) by (auto split: if_split_asm)
  then have "d_frac d = d_frac e" "exp_text d = exp_text e" using cutf[OF d] cutf[OF e] by (metis prod.inject)+
  with s wr(1) exp_text_inj[OF d e] show ?thesis by simp
qed

lemma powi_join: "(10 :: real) ^ n * 10 powi a = 10 powi (int n + a)"
  by (simp add: power_int_add power_int_of_nat)

lemma cap_shift: "\<bar>k\<bar> < expLimit \<Longrightarrow> exp_shift (min (max e (- scanMax)) scanMax) k = cap (e + k)"
  unfolding exp_shift_def cap_def scanMax_def expLimit_def by (simp add: min_def max_def) arith

lemma parse_dec_text:
  assumes wf: "dec_wf d" and short: "dec_short d"
  shows "\<exists>n. parseNumber (dec_text d) = Some n \<and> capped_at (dec_place d) n \<and> val_at (dec_place d) n = dec_val d"
proof -
  let ?w = "d_whole d" and ?f = "d_frac d"
  let ?ds = "?w @ ?f" and ?e = "exp_val d"
  let ?lead = "length ?ds - length (trim_zeros ?ds)"
  let ?t = "trim_zeros_right (trim_zeros ?ds)"
  let ?x = "dec_place d" and ?m = "min (max ?e (- scanMax)) scanMax"
  let ?neg = "d_sign d = ''-''"
  define s1 where "s1 = (if ?f = [] then [] else ''.'' @ ?f) @ exp_text d"
  have dig: "list_all dec_digit ?w" "list_all dec_digit ?f" "?w \<noteq> []" using wf by (auto simp: dec_wf_def)
  have "length ?ds \<le> length (dec_text d)" by (simp add: dec_text_def)
  then have len: "int (length ?ds) < expLimit" using short by (simp add: dec_short_def expLimit_def)
  have head: "exp_text d = [] \<or> \<not> dec_digit (hd (exp_text d))" using dec_exp_head[OF wf] not_digit by auto
  have cutw: "cutDigits (?w @ s1) = (?w, s1)"
    using cutDigits_append[OF dig(1), of s1] head by (auto simp: s1_def not_digit)
  have point: "has_prefix s1 ''.'' \<longleftrightarrow> ?f \<noteq> []"
    using dec_exp_head[OF wf] by (cases "exp_text d") (auto simp: s1_def has_prefix_def)
  have cutf: "?f \<noteq> [] \<Longrightarrow> cutDigits (tl s1) = (?f, exp_text d)"
    using cutDigits_append[OF dig(2) head] by (simp add: s1_def)
  have sign: "d_sign d \<in> {[], ''-'', ''+''}" using wf by (simp add: dec_wf_def)
  obtain c cs where w: "?w = c # cs" using dig(3) by (cases ?w) auto
  then have "dec_digit c" using dig(1) by simp
  then have c: "c \<noteq> CHR ''-''" "c \<noteq> CHR ''+''" using not_digit by auto
  have whole: "dec_text d = d_sign d @ ?w @ s1" by (simp add: dec_text_def s1_def)
  have shift: "exp_shift ?m (int (length ?w) - int ?lead) = cap ?x"
  proof -
    have "\<bar>int (length ?w) - int ?lead\<bar> < expLimit" using len by auto
    from cap_shift[OF this, of ?e] show ?thesis unfolding dec_place_def add_diff_eq .
  qed
  let ?n = "if ?t = [] then zero_number else \<lparr>n_neg = ?neg, n_digits = ?t, n_exp = cap ?x\<rparr>"
  obtain m x where mx: "parseExponent (exp_text d) = Some m" "exp_shift m (int (length ?w) - int ?lead) = x" "x = cap ?x"
    using dec_exp_read[OF wf] shift by blast
  have "parseNumber (dec_text d) = Some (if ?t = [] then zero_number else \<lparr>n_neg = ?neg, n_digits = ?t, n_exp = x\<rparr>)"
    using sign c w cutw cutf point mx(1,2) drop_lead[of ?ds] dig(3)
    unfolding parseNumber_def whole by (auto simp: Let_def s1_def[symmetric]) (auto simp: s1_def Let_def)
  then have "parseNumber (dec_text d) = Some ?n" unfolding mx(3) .
  moreover have "?t \<noteq> [] \<Longrightarrow> trim_zeros ?ds \<noteq> []"
    by (metis trim_zeros_right_def trim_zeros_def dropWhile.simps(1) rev.simps(1))
  then have "num_wf ?n"
    using trim_right_digits[OF trim_zeros_digits[of ?ds]] dig trim_right_hd[of "trim_zeros ?ds"]
      trim_zeros_hd[of ?ds] trim_right_last[of "trim_zeros ?ds"]
    by (auto simp: num_wf_def zero_number_def)
  moreover have "val_at ?x ?n = dec_val d"
  proof -
    have "of_int (whole_val ?ds) = frac_val ?t * 10 ^ length (trim_zeros ?ds)"
      using frac_whole[of "trim_zeros ?ds"] by (simp add: whole_val_trim frac_val_trim)
    moreover have "(10 :: real) powi (?e - int (length ?f)) * 10 ^ length (trim_zeros ?ds) =
        10 powi (?e + int (length (trim_zeros ?ds)) - int (length ?f))"
      using powi_join[of "length (trim_zeros ?ds)" "?e - int (length ?f)"] by (simp add: algebra_simps)
    moreover have le: "length (trim_zeros ?ds) \<le> length ?ds" unfolding trim_zeros_def by (rule length_dropWhile_le)
    moreover from le have "length (trim_zeros ?ds) = length ?ds - ?lead" by simp
    ultimately have "dec_val d = (if ?neg then -1 else 1) * frac_val ?t * 10 powi ?x"
      by (simp add: dec_val_def dec_place_def algebra_simps)
    then show ?thesis by (simp add: val_at_def num_val_def zero_number_def)
  qed
  ultimately show ?thesis by (intro exI[of _ ?n]) (simp add: capped_at_def zero_number_def)
qed

lemma mock_number_cmp:
  assumes "dec_wf a" "dec_short a" "dec_wf b" "dec_short b"
  obtains x y where "parseNumber (dec_text a) = Some x" "parseNumber (dec_text b) = Some y"
    "number_cmp x y = compare3 (dec_val a) (dec_val b) \<or> number_cmp x y = 0 \<and> same_cap (dec_place a) (dec_place b)"
proof -
  obtain x where x: "parseNumber (dec_text a) = Some x" "capped_at (dec_place a) x" "val_at (dec_place a) x = dec_val a"
    using parse_dec_text[OF assms(1,2)] by blast
  obtain y where y: "parseNumber (dec_text b) = Some y" "capped_at (dec_place b) y" "val_at (dec_place b) y = dec_val b"
    using parse_dec_text[OF assms(3,4)] by blast
  show ?thesis by (rule that[OF x(1) y(1)]) (use number_cmp_val[OF x(2) y(2)] x(3) y(3) in simp)
qed

lemma mock_number_relations:
  assumes "dec_wf a" "dec_short a" "dec_wf b" "dec_short b" "\<not> same_cap (dec_place a) (dec_place b)"
  shows "\<exists>x y. parseNumber (dec_text a) = Some x \<and> parseNumber (dec_text b) = Some y \<and>
    (rel_holds relGT (number_cmp x y) \<longleftrightarrow> dec_val a > dec_val b) \<and> (rel_holds relGTE (number_cmp x y) \<longleftrightarrow> dec_val a \<ge> dec_val b) \<and>
    (rel_holds relLT (number_cmp x y) \<longleftrightarrow> dec_val a < dec_val b) \<and> (rel_holds relLTE (number_cmp x y) \<longleftrightarrow> dec_val a \<le> dec_val b)"
  by (rule mock_number_cmp[OF assms(1-4)]) (use assms(5) in \<open>auto simp: compare3_def\<close>)

text \<open>
  C28: the matchers compare decimal texts (of less than 10^18 bytes) as the numbers they stand for, without rounding and
  however many digits they have: parsing succeeds, the four relations hold exactly when they hold of the numbers, and JSON
  numbers are equal exactly when the numbers are, unless the first digits that count of both texts lie 10^18 or more places
  from the point on the same side. Even those are never ordered the wrong way, and equal ones are equal; different ones may
  be called equal (lemma \<open>beyond_the_limit\<close>).
\<close>

theorem mock_numbers_compare_exactly:
  assumes "dec_wf a" "dec_short a" "dec_wf b" "dec_short b"
  shows "\<exists>x y. parseNumber (dec_text a) = Some x \<and> parseNumber (dec_text b) = Some y \<and>
    (rel_holds relGT (number_cmp x y) \<longrightarrow> dec_val a > dec_val b) \<and>
    (rel_holds relLT (number_cmp x y) \<longrightarrow> dec_val a < dec_val b) \<and>
    (dec_val a = dec_val b \<longrightarrow> equalJSONNumbers (dec_text a) (dec_text b)) \<and>
    (\<not> same_cap (dec_place a) (dec_place b) \<longrightarrow>
      (rel_holds relGT (number_cmp x y) \<longleftrightarrow> dec_val a > dec_val b) \<and>
      (rel_holds relGTE (number_cmp x y) \<longleftrightarrow> dec_val a \<ge> dec_val b) \<and>
      (rel_holds relLT (number_cmp x y) \<longleftrightarrow> dec_val a < dec_val b) \<and>
      (rel_holds relLTE (number_cmp x y) \<longleftrightarrow> dec_val a \<le> dec_val b) \<and>
      (equalJSONNumbers (dec_text a) (dec_text b) \<longleftrightarrow> dec_val a = dec_val b))"
proof -
  obtain x y where xy: "parseNumber (dec_text a) = Some x" "parseNumber (dec_text b) = Some y"
    "number_cmp x y = compare3 (dec_val a) (dec_val b) \<or> number_cmp x y = 0 \<and> same_cap (dec_place a) (dec_place b)"
    by (rule mock_number_cmp[OF assms])
  have "dec_text a = dec_text b \<Longrightarrow> x = y" using xy(1,2) by simp
  moreover have "number_cmp x x = 0" by (simp add: number_cmp_def compare3_def Let_def)
  ultimately show ?thesis using xy
    by (intro exI[of _ x] exI[of _ y]) (auto simp: compare3_def equalJSONNumbers_def split: if_split_asm)
qed

theorem mock_numbers_compare_exactly_witness:
  "equalJSONNumbers ''-150.00'' ''-1.5e+2'' \<longleftrightarrow> (- 15000 * 10 powi (-2) :: real) = - 15 * 10 powi 1"
proof -
  let ?a = "\<lparr>d_sign = ''-'', d_whole = ''150'', d_frac = ''00'', d_exp = None\<rparr>"
  let ?b = "\<lparr>d_sign = ''-'', d_whole = ''1'', d_frac = ''5'', d_exp = Some (CHR ''e'', ''+'', ''2'')\<rparr>"
  have d: "dec_digit CHR ''0''" "dec_digit CHR ''1''" "dec_digit CHR ''2''" "dec_digit CHR ''5''"
    by (simp_all add: dec_digit_def in_range_val byte_val_def)
  have v: "digit_val CHR ''0'' = 0" "digit_val CHR ''1'' = 1" "digit_val CHR ''2'' = 2" "digit_val CHR ''5'' = 5"
    by (simp_all add: digit_val_def byte_val_def)
  have "dec_wf ?a" "dec_wf ?b" by (simp_all add: dec_wf_def d)
  moreover have "dec_short ?a" "dec_short ?b" by (simp_all add: dec_short_def dec_text_def exp_text_def)
  moreover have "\<not> same_cap (dec_place ?a) (dec_place ?b)"
    by (simp add: dec_place_def same_cap_def exp_val_def expLimit_def trim_zeros_def v)
  ultimately show ?thesis
    using mock_numbers_compare_exactly[of ?a ?b] by (auto simp: dec_text_def exp_text_def dec_val_def exp_val_def v)
qed

text \<open>Different numbers beyond the limit that the code calls equal.\<close>

lemma beyond_the_limit:
  "equalJSONNumbers ''1e99999999999999999999'' ''1e99999999999999999998''"
  by code_simp

end
