(* ===== verification/MockJson.thy ===== *)
theory MockJson
  imports MockNumber Prelude
begin

text \<open>
  JSON in the mock server: the decoder of \<open>encoding/json\<close> with \<open>UseNumber\<close> as \<open>decodeJSON\<close> of
  \<open>internal/mock/match.go\<close> uses it, the comparison of a request body with a literal pattern
  (\<open>internal/mock/json.go\<close>) and the rule objects of \<open>@match json-rules\<close> (\<open>internal/mock/json_rules.go\<close>).

  A number stays the text it was written as, an object is an association list. The decoder first reads an
  object with its members in the order of the text; \<open>json_norm\<close> then makes maps of them, in which the last of
  several equal names wins.
\<close>

section \<open>Values and the decoder\<close>

datatype mjson =
  MNull | MBool bool | MNum string | MStr string | MList "mjson list" | MObj "(string \<times> mjson) list"

definition json_space :: "char \<Rightarrow> bool" where
  "json_space c \<longleftrightarrow> c \<in> {CHR '' '', CHR 0x09, CHR 0x0A, CHR 0x0D}"

definition skip_space :: "string \<Rightarrow> string" where
  "skip_space s = dropWhile json_space s"

definition hex_of :: "char \<Rightarrow> int option" where
  "hex_of c = (if in_range CHR ''0'' CHR ''9'' c then Some (byte_val c - 48)
     else if in_range CHR ''a'' CHR ''f'' c then Some (byte_val c - 87)
     else if in_range CHR ''A'' CHR ''F'' c then Some (byte_val c - 55) else None)"

text \<open>The four hexadecimal digits after \<open>\u\<close>.\<close>

fun hex4_of :: "string \<Rightarrow> int option" where
  "hex4_of (a # b # c # d # s) = (case (hex_of a, hex_of b, hex_of c, hex_of d) of
       (Some w, Some x, Some y, Some z) \<Rightarrow> Some (((w * 16 + x) * 16 + y) * 16 + z)
     | _ \<Rightarrow> None)"
| "hex4_of _ = None"

definition is_surrogate :: "int \<Rightarrow> bool" where
  "is_surrogate r \<longleftrightarrow> 0xD800 \<le> r \<and> r < 0xE000"

text \<open>\<open>utf16.DecodeRune\<close>, where it does not answer U+FFFD.\<close>

definition join_surrogates :: "int \<Rightarrow> int \<Rightarrow> int option" where
  "join_surrogates a b =
     (if 0xD800 \<le> a \<and> a < 0xDC00 \<and> 0xDC00 \<le> b \<and> b < 0xE000
      then Some ((a - 0xD800) * 0x400 + (b - 0xDC00) + 0x10000) else None)"

definition simple_escape :: "char \<Rightarrow> char option" where
  "simple_escape c = map_of [(CHR 0x22, CHR 0x22), (CHR 0x5C, CHR 0x5C), (CHR ''/'', CHR ''/''),
     (CHR ''b'', CHR 0x08), (CHR ''f'', CHR 0x0C), (CHR ''n'', CHR 0x0A), (CHR ''r'', CHR 0x0D), (CHR ''t'', CHR 0x09)] c"

text \<open>One character of a string literal: the bytes it stands for and how many bytes of the text it takes.\<close>

definition json_char :: "string \<Rightarrow> (string \<times> nat) option" where
  "json_char s = (case s of
       [] \<Rightarrow> None
     | c # cs \<Rightarrow>
         if byte_val c < 0x20 then None
         else if c = CHR 0x5C then
           (case cs of
              [] \<Rightarrow> None
            | e # es \<Rightarrow>
                if e = CHR ''u'' then
                  (case hex4_of es of
                     None \<Rightarrow> None
                   | Some r \<Rightarrow>
                       if is_surrogate r then
                         (case (if take 2 (drop 4 es) = [CHR 0x5C, CHR ''u''] then hex4_of (drop 6 es) else None) of
                            None \<Rightarrow> Some (encode_rune rune_error, 6)
                          | Some r1 \<Rightarrow> (case join_surrogates r r1 of
                              None \<Rightarrow> Some (encode_rune rune_error, 6)
                            | Some x \<Rightarrow> Some (encode_rune x, 12)))
                       else Some (encode_rune r, 6))
                else (case simple_escape e of None \<Rightarrow> None | Some x \<Rightarrow> Some ([x], 2)))
         else if byte_val c < 0x80 then Some ([c], 1)
         else let (r, w) = decode_rune s in
           Some (if r = rune_error \<and> w = 1 then encode_rune rune_error else take w s, w))"

lemma json_char_width:
  assumes "json_char s = Some (b, w)" shows "0 < w \<and> s \<noteq> []"
proof (cases s)
  case (Cons c cs)
  then show ?thesis
    using assms decode_rune_width[of s]
    by (auto simp: json_char_def split: if_splits option.splits list.splits prod.splits)
qed (use assms in \<open>simp add: json_char_def\<close>)

text \<open>The literal after its opening quote: its bytes and the rest of the text.\<close>

function json_str :: "string \<Rightarrow> (string \<times> string) option" where
  "json_str s =
     (if s \<noteq> [] \<and> hd s = CHR 0x22 then Some ([], tl s)
      else case json_char s of
        None \<Rightarrow> None
      | Some (b, w) \<Rightarrow> (case json_str (drop w s) of None \<Rightarrow> None | Some (t, rest) \<Rightarrow> Some (b @ t, rest)))"
  by pat_completeness auto
termination
  by (relation "measure length") (auto dest: json_char_width)

declare json_str.simps [simp del]

text \<open>A number: its text and the rest. \<open>json_exp\<close> reads an optional exponent.\<close>

definition json_exp :: "string \<Rightarrow> (string \<times> string) option" where
  "json_exp s =
     (if s = [] \<or> (hd s \<noteq> CHR ''e'' \<and> hd s \<noteq> CHR ''E'') then Some ([], s)
      else let sg = (if has_prefix (tl s) ''-'' \<or> has_prefix (tl s) ''+'' then [hd (tl s)] else []);
               (ds, rest) = cutDigits (drop (length sg) (tl s)) in
        if ds = [] then None else Some (hd s # sg @ ds, rest))"

definition json_frac :: "string \<Rightarrow> (string \<times> string) option" where
  "json_frac s =
     (if has_prefix s ''.'' then
        let (ds, rest) = cutDigits (tl s) in if ds = [] then None else Some (CHR ''.'' # ds, rest)
      else Some ([], s))"

definition json_whole :: "string \<Rightarrow> (string \<times> string) option" where
  "json_whole s = (case s of
       [] \<Rightarrow> None
     | c # cs \<Rightarrow> if c = CHR ''0'' then Some ([c], cs) else let (ds, rest) = cutDigits s in
         if ds = [] then None else Some (ds, rest))"

definition json_num :: "string \<Rightarrow> (string \<times> string) option" where
  "json_num s =
     (let sg = (if has_prefix s ''-'' then ''-'' else []) in
      case json_whole (drop (length sg) s) of
        None \<Rightarrow> None
      | Some (w, s1) \<Rightarrow> (case json_frac s1 of
          None \<Rightarrow> None
        | Some (f, s2) \<Rightarrow> (case json_exp s2 of None \<Rightarrow> None | Some (e, s3) \<Rightarrow> Some (sg @ w @ f @ e, s3))))"

definition max_depth :: nat where
  "max_depth = 10000"

text \<open>
  Values, the members of an object and the elements of a list, at nesting depth \<open>d\<close>. Every call reads at least
  one byte before the next, so that a fuel above the length of the text is enough (\<open>json_fuel_enough\<close>).
\<close>

fun json_val :: "nat \<Rightarrow> nat \<Rightarrow> string \<Rightarrow> (mjson \<times> string) option"
and json_members :: "nat \<Rightarrow> nat \<Rightarrow> string \<Rightarrow> ((string \<times> mjson) list \<times> string) option"
and json_elems :: "nat \<Rightarrow> nat \<Rightarrow> string \<Rightarrow> (mjson list \<times> string) option" where
  "json_val 0 d s = None"
| "json_val (Suc n) d s0 =
     (let s = skip_space s0 in
      if has_prefix s ''{'' then
        (let s1 = skip_space (tl s) in
         if d \<ge> max_depth then None
         else if has_prefix s1 ''}'' then Some (MObj [], tl s1)
         else case json_members n (Suc d) s1 of None \<Rightarrow> None | Some (kvs, rest) \<Rightarrow> Some (MObj kvs, rest))
      else if has_prefix s ''['' then
        (let s1 = skip_space (tl s) in
         if d \<ge> max_depth then None
         else if has_prefix s1 '']'' then Some (MList [], tl s1)
         else case json_elems n (Suc d) s1 of None \<Rightarrow> None | Some (vs, rest) \<Rightarrow> Some (MList vs, rest))
      else if has_prefix s [CHR 0x22] then
        (case json_str (tl s) of None \<Rightarrow> None | Some (t, rest) \<Rightarrow> Some (MStr t, rest))
      else if has_prefix s ''true'' then Some (MBool True, drop 4 s)
      else if has_prefix s ''false'' then Some (MBool False, drop 5 s)
      else if has_prefix s ''null'' then Some (MNull, drop 4 s)
      else (case json_num s of None \<Rightarrow> None | Some (t, rest) \<Rightarrow> Some (MNum t, rest)))"
| "json_members 0 d s = None"
| "json_members (Suc n) d s =
     (if \<not> has_prefix s [CHR 0x22] then None
      else case json_str (tl s) of
        None \<Rightarrow> None
      | Some (k, s1) \<Rightarrow>
          (if \<not> has_prefix (skip_space s1) '':'' then None
           else case json_val n d (tl (skip_space s1)) of
             None \<Rightarrow> None
           | Some (v, s2) \<Rightarrow>
               (let s3 = skip_space s2 in
                if has_prefix s3 ''}'' then Some ([(k, v)], tl s3)
                else if has_prefix s3 '','' then
                  (case json_members n d (skip_space (tl s3)) of
                     None \<Rightarrow> None
                   | Some (kvs, rest) \<Rightarrow> Some ((k, v) # kvs, rest))
                else None)))"
| "json_elems 0 d s = None"
| "json_elems (Suc n) d s =
     (case json_val n d s of
        None \<Rightarrow> None
      | Some (v, s2) \<Rightarrow>
          (let s3 = skip_space s2 in
           if has_prefix s3 '']'' then Some ([v], tl s3)
           else if has_prefix s3 '','' then
             (case json_elems n d (skip_space (tl s3)) of
                None \<Rightarrow> None
              | Some (vs, rest) \<Rightarrow> Some (v # vs, rest))
           else None))"

lemma skip_space_le: "length (skip_space s) \<le> length s"
  unfolding skip_space_def by (rule length_dropWhile_le)

lemma json_str_less: "json_str s = Some (t, rest) \<Longrightarrow> length rest < length s"
proof (induction s arbitrary: t rule: json_str.induct)
  case (1 s)
  show ?case
  proof (cases "s \<noteq> [] \<and> hd s = CHR 0x22")
    case True
    with "1.prems" show ?thesis by (cases s) (auto simp: json_str.simps)
  next
    case False
    with "1.prems" obtain b w t' where c: "json_char s = Some (b, w)" "json_str (drop w s) = Some (t', rest)"
      by (subst (asm) json_str.simps) (auto split: option.splits)
    from "1.IH"[OF False c(1) refl c(2)] show ?thesis by simp
  qed
qed

lemma cutDigits_le: "cutDigits s = (a, b) \<Longrightarrow> length b \<le> length s"
  by (auto simp: cutDigits_def length_dropWhile_le)

lemma cutDigits_less: "cutDigits s = (a, b) \<Longrightarrow> a \<noteq> [] \<Longrightarrow> length b < length s"
  by (cases s) (auto simp: cutDigits_def le_imp_less_Suc length_dropWhile_le split: if_splits)

lemma json_whole_less: "json_whole s = Some (w, rest) \<Longrightarrow> length rest < length s"
  using cutDigits_less[of s w rest] by (cases s) (auto simp: json_whole_def split: if_splits prod.splits)

lemma json_num_less:
  assumes "json_num s = Some (t, rest)" shows "length rest < length s"
proof -
  define sg :: string where "sg = (if has_prefix s ''-'' then ''-'' else [])"
  obtain w s1 f s2 e where n: "json_whole (drop (length sg) s) = Some (w, s1)" "json_frac s1 = Some (f, s2)"
    "json_exp s2 = Some (e, rest)"
    using assms by (auto simp: json_num_def sg_def Let_def split: option.splits prod.splits)
  have "length s1 < length s" using json_whole_less[OF n(1)] by simp
  moreover have "length s2 \<le> length s1"
    using n(2) cutDigits_le[of "tl s1"] by (auto simp: json_frac_def split: if_splits prod.splits)
  moreover have "length rest \<le> length s2"
    using n(3) cutDigits_le[of "drop 1 (tl s2)"] cutDigits_le[of "tl s2"] by (fastforce simp: json_exp_def Let_def split: if_splits prod.splits)
  ultimately show ?thesis by simp
qed

lemma has_prefix_length: "has_prefix s p \<Longrightarrow> length p \<le> length s"
  by (auto simp: has_prefix_append)

lemma json_val_less:
  assumes "\<And>d s kvs rest. json_members n d s = Some (kvs, rest) \<Longrightarrow> length rest < length s"
    and "\<And>d s vs rest. json_elems n d s = Some (vs, rest) \<Longrightarrow> length rest < length s"
    and "json_val (Suc n) d s0 = Some (v, rest)"
  shows "length rest < length s0"
proof -
  define s where "s = skip_space s0"
  have le: "length s \<le> length s0" "length (skip_space (tl s)) \<le> length s - 1"
    using skip_space_le[of s0] skip_space_le[of "tl s"] by (simp_all add: s_def)
  have "length r < length s0" if "json_members n (Suc d) (skip_space (tl s)) = Some (kvs, r)" for kvs r
    using assms(1)[OF that] le by linarith
  moreover have "length r < length s0" if "json_elems n (Suc d) (skip_space (tl s)) = Some (vs, r)" for vs r
    using assms(2)[OF that] le by linarith
  moreover have "length (tl (skip_space (tl s))) < length s0" if "has_prefix s ''{'' \<or> has_prefix s ''[''"
  proof -
    from that have "0 < length s" by (auto dest: has_prefix_length)
    then show ?thesis unfolding length_tl using le by linarith
  qed
  moreover have "length r < length s0" if "json_str (tl s) = Some (t, r)" for t r
    using json_str_less[OF that] le by simp
  moreover have lit: "length (drop (length p) s) < length s0" if "has_prefix s p" "p \<noteq> []" for p
    using has_prefix_length[OF that(1)] that(2) le by (cases p) auto
  have "has_prefix s ''true'' \<Longrightarrow> length (drop 4 s) < length s0"
    "has_prefix s ''false'' \<Longrightarrow> length (drop 5 s) < length s0"
    "has_prefix s ''null'' \<Longrightarrow> length (drop 4 s) < length s0"
    using lit[of "''true''"] lit[of "''false''"] lit[of "''null''"] by (simp_all add: eval_nat_numeral)
  moreover have "length r < length s0" if "json_num s = Some (t, r)" for t r
    using json_num_less[OF that] le by simp
  moreover note assms(3)[unfolded json_val.simps(2) Let_def, folded s_def]
  ultimately show ?thesis
    by (simp split: if_split_asm option.split_asm prod.split_asm) auto
qed

lemma json_members_less:
  assumes "\<And>d s v rest. json_val n d s = Some (v, rest) \<Longrightarrow> length rest < length s"
    and "\<And>d s kvs rest. json_members n d s = Some (kvs, rest) \<Longrightarrow> length rest < length s"
    and "json_members (Suc n) d s = Some (kvs, rest)"
  shows "length rest < length s"
proof -
  obtain k s1 v s2 where m: "json_str (tl s) = Some (k, s1)" "json_val n d (tl (skip_space s1)) = Some (v, s2)"
    "rest = tl (skip_space s2) \<or> (\<exists>kvs. json_members n d (skip_space (tl (skip_space s2))) = Some (kvs, rest))"
    using assms(3) by (auto simp: Let_def split: if_splits option.splits prod.splits)
  have "length s1 < length (tl s)" "length s2 < length (tl (skip_space s1))"
    using json_str_less[OF m(1)] assms(1)[OF m(2)] .
  moreover have "length rest \<le> length s2"
    using m(3) assms(2) skip_space_le[of s2] skip_space_le[of "tl (skip_space s2)"] by fastforce
  ultimately show ?thesis using skip_space_le[of s1] by simp
qed

lemma json_elems_less:
  assumes "\<And>d s v rest. json_val n d s = Some (v, rest) \<Longrightarrow> length rest < length s"
    and "\<And>d s vs rest. json_elems n d s = Some (vs, rest) \<Longrightarrow> length rest < length s"
    and "json_elems (Suc n) d s = Some (vs, rest)"
  shows "length rest < length s"
proof -
  obtain v s2 where m: "json_val n d s = Some (v, s2)"
    "rest = tl (skip_space s2) \<or> (\<exists>vs. json_elems n d (skip_space (tl (skip_space s2))) = Some (vs, rest))"
    using assms(3) by (auto simp: Let_def split: if_splits option.splits prod.splits)
  have "length rest \<le> length s2"
    using m(2) assms(2) skip_space_le[of s2] skip_space_le[of "tl (skip_space s2)"] by fastforce
  with assms(1)[OF m(1)] show ?thesis by simp
qed

lemma json_rest_less:
  "json_val n d s = Some (v, rest) \<Longrightarrow> length rest < length s"
  "json_members n d s = Some (kvs, rest) \<Longrightarrow> length rest < length s"
  "json_elems n d s = Some (vs, rest) \<Longrightarrow> length rest < length s"
proof (induction n arbitrary: d s v kvs vs rest)
  case (Suc n)
  { case 1 show ?case using json_val_less[OF Suc.IH(2,3) 1] .
  next case 2 show ?case using json_members_less[OF Suc.IH(1,2) 2] .
  next case 3 show ?case using json_elems_less[OF Suc.IH(1,3) 3] . }
qed simp_all

lemma json_fuel_enough:
  "2 * length s < n \<Longrightarrow> 2 * length s < m \<Longrightarrow> json_val n d s = json_val m d s"
  "2 * length s < n \<Longrightarrow> 2 * length s < m \<Longrightarrow> json_members n d s = json_members m d s"
  "2 * length s + 1 < n \<Longrightarrow> 2 * length s + 1 < m \<Longrightarrow> json_elems n d s = json_elems m d s"
proof (induction n arbitrary: m d s)
  case (Suc n)
  { case 1
    then obtain k where m: "m = Suc k" by (cases m) auto
    let ?s = "skip_space s"
    let ?x = "skip_space (tl ?s)"
    have len: "length ?x + 1 \<le> length s" if "has_prefix ?s ''{'' \<or> has_prefix ?s ''[''"
    proof -
      from that have "0 < length ?s" by (auto dest: has_prefix_length)
      then show ?thesis using skip_space_le[of s] skip_space_le[of "tl ?s"] unfolding length_tl by linarith
    qed
    have "json_members n (Suc d) ?x = json_members k (Suc d) ?x" if "has_prefix ?s ''{''"
      using Suc.IH(2)[of ?x k "Suc d"] len that 1 m by simp
    moreover have "json_elems n (Suc d) ?x = json_elems k (Suc d) ?x" if "has_prefix ?s ''[''"
      using Suc.IH(3)[of ?x k "Suc d"] len that 1 m by simp
    ultimately show ?case unfolding m by (simp add: Let_def cong: if_cong)
  next
    case 2
    then obtain k where m: "m = Suc k" by (cases m) auto
    show ?case
    proof (cases "has_prefix s [CHR 0x22] \<and> (\<exists>t s1. json_str (tl s) = Some (t, s1) \<and> has_prefix (skip_space s1) '':'')")
      case True
      then obtain t s1 where s1: "json_str (tl s) = Some (t, s1)" "has_prefix (skip_space s1) '':''" by blast
      let ?y = "tl (skip_space s1)"
      have y: "length ?y + 2 \<le> length s"
        using json_str_less[OF s1(1)] skip_space_le[of s1] has_prefix_length[OF s1(2)] True has_prefix_length[of s "[CHR 0x22]"] by simp
      then have v: "json_val n d ?y = json_val k d ?y" using Suc.IH(1)[of ?y k d] 2 m by simp
      have "json_members n d (skip_space (tl (skip_space s2))) = json_members k d (skip_space (tl (skip_space s2)))"
        if "json_val k d ?y = Some (v, s2)" for v s2
        using Suc.IH(2)[of "skip_space (tl (skip_space s2))" k d] json_rest_less(1)[OF that] y 2 m
          skip_space_le[of s2] skip_space_le[of "tl (skip_space s2)"] by simp
      with v s1 m show ?thesis by (simp add: Let_def cong: if_cong split: option.split prod.split)
    next
      case False
      then show ?thesis unfolding m by (auto split: option.split)
    qed
  next
    case 3
    then obtain k where m: "m = Suc k" by (cases m) auto
    have v: "json_val n d s = json_val k d s" using Suc.IH(1)[of s k d] 3 m by simp
    have "json_elems n d (skip_space (tl (skip_space s2))) = json_elems k d (skip_space (tl (skip_space s2)))"
      if "json_val k d s = Some (v, s2)" "has_prefix (skip_space s2) '',''" for v s2
      using Suc.IH(3)[of "skip_space (tl (skip_space s2))" k d] json_rest_less(1)[OF that(1)] 3 m
        has_prefix_length[OF that(2)] skip_space_le[of s2] skip_space_le[of "tl (skip_space s2)"] by simp
    with v m show ?case by (simp add: Let_def cong: if_cong split: option.split prod.split) }
qed simp_all

text \<open>Objects as maps.\<close>

fun json_norm :: "mjson \<Rightarrow> mjson" where
  "json_norm (MObj kvs) = MObj (foldl (\<lambda>m (k, v). smap_put k v m) [] (map (\<lambda>(k, v). (k, json_norm v)) kvs))"
| "json_norm (MList vs) = MList (map json_norm vs)"
| "json_norm v = v"

text \<open>A name that an object of the text has twice (\<open>restfile.CheckMockJSONKeys\<close>).\<close>

fun json_repeats :: "mjson \<Rightarrow> bool" where
  "json_repeats (MObj kvs) = (\<not> distinct (map fst kvs) \<or> list_ex (\<lambda>(k, v). json_repeats v) kvs)"
| "json_repeats (MList vs) = list_ex json_repeats vs"
| "json_repeats v = False"

definition json_read :: "string \<Rightarrow> mjson option" where
  "json_read s = (case json_val (Suc (2 * length s)) 0 s of
       None \<Rightarrow> None
     | Some (v, rest) \<Rightarrow> if skip_space rest = [] then Some v else None)"

definition decodeJSON :: "string \<Rightarrow> mjson option" where
  "decodeJSON s = map_option json_norm (json_read s)"

section \<open>Comparing with a literal pattern\<close>

datatype jsonCompare = jsonSubset | jsonExact

fun json_matches :: "jsonCompare \<Rightarrow> mjson \<Rightarrow> mjson \<Rightarrow> bool"
and fields_match :: "jsonCompare \<Rightarrow> (string \<times> mjson) list \<Rightarrow> (string \<times> mjson) list \<Rightarrow> bool"
and items_match :: "jsonCompare \<Rightarrow> mjson list \<Rightarrow> mjson list \<Rightarrow> bool" where
  "json_matches c (MObj want) got = (case got of
       MObj obj \<Rightarrow> \<not> (c = jsonExact \<and> length want \<noteq> length obj) \<and> fields_match c want obj
     | _ \<Rightarrow> False)"
| "json_matches c (MList want) got = (case got of
       MList list \<Rightarrow> length want = length list \<and> items_match c want list
     | _ \<Rightarrow> False)"
| "json_matches c (MNum want) got = (case got of MNum n \<Rightarrow> equalJSONNumbers want n | _ \<Rightarrow> False)"
| "json_matches c MNull got = (got = MNull)"
| "json_matches c (MBool b) got = (got = MBool b)"
| "json_matches c (MStr t) got = (got = MStr t)"
| "fields_match c [] obj = True"
| "fields_match c ((name, v) # want) obj = (case map_of obj name of
       None \<Rightarrow> False
     | Some g \<Rightarrow> json_matches c v g \<and> fields_match c want obj)"
| "items_match c [] list = True"
| "items_match c (v # want) list = (case list of
       [] \<Rightarrow> True
     | g # gs \<Rightarrow> json_matches c v g \<and> items_match c want gs)"

section \<open>Laws of the comparison\<close>

definition num_key :: "number \<Rightarrow> bool \<times> (int \<times> string) option" where
  "num_key n = (n_neg n, if n_digits n = [] then None
     else Some (n_exp n, if exp_finite (n_exp n) then n_digits n else []))"

lemma number_cmp_key: "number_cmp x y = 0 \<longleftrightarrow> num_key x = num_key y"
  by (auto simp: number_cmp_def num_key_def Let_def compare3_def split: if_splits)

definition text_key :: "string \<Rightarrow> string + bool \<times> (int \<times> string) option" where
  "text_key s = (case parseNumber s of None \<Rightarrow> Inl s | Some n \<Rightarrow> Inr (num_key n))"

lemma equalJSONNumbers_key: "equalJSONNumbers a b \<longleftrightarrow> text_key a = text_key b"
  by (auto simp: equalJSONNumbers_def text_key_def number_cmp_key split: option.split)

text \<open>What the decoder makes: no object has a name twice.\<close>

fun json_ok :: "mjson \<Rightarrow> bool" where
  "json_ok (MObj kvs) = (distinct (map fst kvs) \<and> (\<forall>kv \<in> set kvs. json_ok (snd kv)))"
| "json_ok (MList vs) = (\<forall>v \<in> set vs. json_ok v)"
| "json_ok v = True"

lemma foldl_put_ok:
  "smap_ok acc \<Longrightarrow> \<forall>kv \<in> set acc. P (snd kv) \<Longrightarrow> \<forall>kv \<in> set xs. P (snd kv) \<Longrightarrow>
    smap_ok (foldl (\<lambda>m (k, v). smap_put k v m) acc xs) \<and>
    (\<forall>kv \<in> set (foldl (\<lambda>m (k, v). smap_put k v m) acc xs). P (snd kv))"
proof (induction xs arbitrary: acc)
  case (Cons kv xs)
  obtain k v where e: "kv = (k, v)" by (cases kv)
  have "\<forall>kv \<in> set (smap_put k v acc). P (snd kv)" using Cons.prems e set_smap_put[of k v acc] by auto
  with Cons.IH[of "smap_put k v acc"] Cons.prems e smap_ok_put[of acc k v] show ?case by simp
qed simp

lemma json_norm_ok: "json_ok (json_norm v)"
proof (induction v)
  case (MObj kvs)
  have "\<forall>kv \<in> set (map (\<lambda>(k, v). (k, json_norm v)) kvs). json_ok (snd kv)"
    using MObj by (auto simp: snds.simps)
  from foldl_put_ok[of "[]" json_ok, OF _ _ this] show ?case
    by (simp add: smap_ok_distinct)
qed auto

lemma fields_match_iff:
  "fields_match c want obj \<longleftrightarrow> (\<forall>kv \<in> set want. \<exists>g. map_of obj (fst kv) = Some g \<and> json_matches c (snd kv) g)"
proof (induction want)
  case (Cons kv want)
  then show ?case by (cases kv; cases "map_of obj (fst kv)") auto
qed simp

lemma items_match_iff: "length want = length list \<Longrightarrow> items_match c want list \<longleftrightarrow> list_all2 (json_matches c) want list"
proof (induction want arbitrary: list)
  case (Cons v want)
  then show ?case by (cases list) auto
qed simp

lemma json_matches_obj: "json_matches c (MObj want) got \<longleftrightarrow> (\<exists>obj. got = MObj obj \<and> (c = jsonExact \<longrightarrow> length want = length obj) \<and>
    (\<forall>kv \<in> set want. \<exists>g. map_of obj (fst kv) = Some g \<and> json_matches c (snd kv) g))"
  by (cases got) (auto simp: fields_match_iff)

lemma json_matches_list: "json_matches c (MList want) got \<longleftrightarrow> (\<exists>list. got = MList list \<and> list_all2 (json_matches c) want list)"
  by (cases got) (auto simp: items_match_iff list_all2_lengthD)

lemmas json_matches_nested = json_matches_obj json_matches_list

declare json_matches.simps(1,2) [simp del]

lemma json_matches_refl: "json_ok v \<Longrightarrow> json_matches c v v"
proof (induction v)
  case (MObj kvs)
  have "map_of kvs (fst kv) = Some (snd kv)" if "kv \<in> set kvs" for kv
    using MObj.prems that by (cases kv) simp
  moreover have "json_matches c (snd kv) (snd kv)" if "kv \<in> set kvs" for kv
    using MObj that by (cases kv) (auto simp: snds.simps)
  ultimately show ?case by (auto simp: json_matches_obj)
next
  case (MList vs)
  then show ?case by (auto simp: json_matches_list list_all2_same)
next
  case (MNum t)
  show ?case by (simp add: equalJSONNumbers_key)
qed auto

lemma json_matches_trans: "json_matches c x y \<Longrightarrow> json_matches c y z \<Longrightarrow> json_matches c x z"
proof (induction x arbitrary: y z)
  case (MObj kvs)
  obtain oy oz where o: "y = MObj oy" "z = MObj oz" using MObj.prems by (auto simp: json_matches_obj)
  have "\<exists>g. map_of oz (fst kv) = Some g \<and> json_matches c (snd kv) g" if kv: "kv \<in> set kvs" for kv
  proof -
    obtain g where g: "map_of oy (fst kv) = Some g" "json_matches c (snd kv) g"
      using MObj.prems(1) o kv by (auto simp: json_matches_obj)
    obtain h where h: "map_of oz (fst kv) = Some h" "json_matches c g h"
      using MObj.prems(2) o map_of_SomeD[OF g(1)] by (fastforce simp: json_matches_obj)
    have "json_matches c (snd kv) h"
      using MObj.IH[OF kv _ g(2) h(2)] by (cases kv) (auto simp: snds.simps)
    with h show ?thesis by blast
  qed
  with MObj.prems o show ?case by (auto simp: json_matches_obj)
next
  case (MList vs)
  obtain ly lz where l: "y = MList ly" "z = MList lz" "list_all2 (json_matches c) vs ly" "list_all2 (json_matches c) ly lz"
    using MList.prems by (auto simp: json_matches_list)
  have "list_all2 (json_matches c) vs lz"
    using l(3,4) MList.IH by (fastforce simp: list_all2_conv_all_nth)
  with l show ?case by (simp add: json_matches_list)
next
  case (MNum t)
  then show ?case by (cases y; cases z) (auto simp: equalJSONNumbers_key)
qed auto

text \<open>Two patterns that match each other are equal up to how their numbers are written, and equality is symmetric.\<close>

lemma same_names:
  assumes "distinct (map fst a)" "distinct (map fst b)"
    and "\<forall>kv \<in> set a. \<exists>g. map_of b (fst kv) = Some g \<and> P (snd kv) g" and "length a = length b"
  shows "fst ` set a = fst ` set b"
proof -
  have "fst ` set a \<subseteq> fst ` set b" using assms(3) by (force dest: map_of_SomeD)
  moreover have "card (fst ` set a) = card (fst ` set b)"
    using assms by (metis distinct_card length_map set_map)
  ultimately show ?thesis by (metis List.finite_set card_subset_eq finite_imageI)
qed

lemma json_exact_sym: "json_ok x \<Longrightarrow> json_ok y \<Longrightarrow> json_matches jsonExact x y \<Longrightarrow> json_matches jsonExact y x"
proof (induction x arbitrary: y)
  case (MObj kvs)
  obtain oy where o: "y = MObj oy" "length kvs = length oy"
    and m: "\<forall>kv \<in> set kvs. \<exists>g. map_of oy (fst kv) = Some g \<and> json_matches jsonExact (snd kv) g"
    using MObj.prems by (auto simp: json_matches_obj)
  have d: "distinct (map fst kvs)" "distinct (map fst oy)" using MObj.prems o by auto
  have names: "fst ` set kvs = fst ` set oy" using same_names[OF d m o(2)] .
  have "\<exists>g. map_of kvs (fst kv) = Some g \<and> json_matches jsonExact (snd kv) g" if kv: "kv \<in> set oy" for kv
  proof -
    obtain k v where e: "kv = (k, v)" by (cases kv)
    have "k \<in> fst ` set kvs" unfolding names using kv e by force
    then obtain u where u: "(k, u) \<in> set kvs" by auto
    have ku: "map_of kvs k = Some u" "map_of oy k = Some v" using d u kv e by simp_all
    have "json_matches jsonExact u v" using bspec[OF m u] ku by simp
    moreover have "json_ok u" "json_ok v" using MObj.prems(1,2) o u kv e by (fastforce+)
    ultimately have "json_matches jsonExact v u" using MObj.IH[OF u, of u v] by (simp add: snds.simps)
    with ku e show ?thesis by simp
  qed
  with o show ?case by (auto simp: json_matches_obj)
next
  case (MList vs)
  then obtain ly where l: "y = MList ly" "list_all2 (json_matches jsonExact) vs ly" by (auto simp: json_matches_list)
  have "list_all2 (json_matches jsonExact) ly vs"
    using l MList by (fastforce simp: list_all2_conv_all_nth)
  with l show ?case by (simp add: json_matches_list)
next
  case (MNum t)
  then show ?case by (cases y) (auto simp: equalJSONNumbers_key)
qed auto

lemma json_exact_subset: "json_matches jsonExact x y \<Longrightarrow> json_matches jsonSubset x y"
proof (induction x arbitrary: y)
  case (MObj kvs)
  then show ?case by (fastforce simp: json_matches_obj snds.simps)
next
  case (MList vs)
  then show ?case by (fastforce simp: json_matches_list list_all2_conv_all_nth)
next
  case (MNum t)
  then show ?case by (cases y) auto
qed auto

lemma json_both_ways:
  "json_ok x \<Longrightarrow> json_ok y \<Longrightarrow> json_matches jsonSubset x y \<Longrightarrow> json_matches jsonSubset y x \<Longrightarrow> json_matches jsonExact x y"
proof (induction x arbitrary: y)
  case (MObj kvs)
  obtain oy where o: "y = MObj oy"
    and m: "\<forall>kv \<in> set kvs. \<exists>g. map_of oy (fst kv) = Some g \<and> json_matches jsonSubset (snd kv) g"
    and m': "\<forall>kv \<in> set oy. \<exists>g. map_of kvs (fst kv) = Some g \<and> json_matches jsonSubset (snd kv) g"
    using MObj.prems by (auto simp: json_matches_obj)
  have d: "distinct (map fst kvs)" "distinct (map fst oy)" using MObj.prems o by auto
  have "fst ` set kvs = fst ` set oy" using m m' by (force dest: map_of_SomeD)
  then have len: "length kvs = length oy" using d by (metis distinct_card length_map set_map)
  have "\<exists>g. map_of oy (fst kv) = Some g \<and> json_matches jsonExact (snd kv) g" if kv: "kv \<in> set kvs" for kv
  proof -
    obtain k v where e: "kv = (k, v)" by (cases kv)
    obtain g where g: "map_of oy k = Some g" "json_matches jsonSubset v g" using bspec[OF m kv] e by auto
    have kg: "(k, g) \<in> set oy" using map_of_SomeD[OF g(1)] .
    have "map_of kvs k = Some v" using d kv e by simp
    then have "json_matches jsonSubset g v" using bspec[OF m' kg] by simp
    moreover have "json_ok v" "json_ok g" using MObj.prems(1,2) o kg kv e by (fastforce+)
    ultimately have "json_matches jsonExact v g" using MObj.IH[OF kv, of v g] g(2) e by (simp add: snds.simps)
    with g e show ?thesis by simp
  qed
  with o len show ?case by (auto simp: json_matches_obj)
next
  case (MList vs)
  then obtain ly where l: "y = MList ly" "list_all2 (json_matches jsonSubset) vs ly" "list_all2 (json_matches jsonSubset) ly vs"
    by (auto simp: json_matches_list)
  have "list_all2 (json_matches jsonExact) vs ly"
    using l MList.IH MList.prems(1,2) by (fastforce simp: list_all2_conv_all_nth)
  with l show ?case by (simp add: json_matches_list)
next
  case (MNum t)
  then show ?case by (cases y) auto
qed auto

lemma decodeJSON_ok: "decodeJSON s = Some v \<Longrightarrow> json_ok v"
  by (auto simp: decodeJSON_def json_norm_ok)

text \<open>
  C29: the comparison of JSON bodies is sound on everything the decoder makes: \<open>exact\<close> is an equivalence,
  \<open>subset\<close> is reflexive and transitive, an exact match is a subset match, and two values match exactly if
  and only if each matches the other as a subset.
\<close>

theorem json_comparison_laws:
  assumes "decodeJSON s = Some x" "decodeJSON t = Some y" "decodeJSON u = Some z"
  shows "json_matches c x x \<and> (json_matches c x y \<longrightarrow> json_matches c y z \<longrightarrow> json_matches c x z) \<and>
    (json_matches jsonExact x y \<longleftrightarrow> json_matches jsonExact y x) \<and>
    (json_matches jsonExact x y \<longleftrightarrow> json_matches jsonSubset x y \<and> json_matches jsonSubset y x)"
proof -
  note ok = assms[THEN decodeJSON_ok]
  show ?thesis
    using json_matches_refl[OF ok(1)] json_matches_trans json_exact_sym[OF ok(1,2)] json_exact_sym[OF ok(2,1)]
      json_exact_subset json_both_ways[OF ok(1,2)] by blast
qed

lemma json_demo:
  "decodeJSON ''{\"a\": 1.0, \"b\": [true]}'' = Some (MObj [(''a'', MNum ''1.0''), (''b'', MList [MBool True])])"
  "decodeJSON ''{\"b\":[true],\"a\":1}'' = Some (MObj [(''a'', MNum ''1''), (''b'', MList [MBool True])])"
  "decodeJSON ''{\"a\":1e0}'' = Some (MObj [(''a'', MNum ''1e0'')])"
  by code_simp+

theorem json_comparison_laws_witness:
  "json_matches jsonExact (MObj [(''a'', MNum ''1.0''), (''b'', MList [MBool True])])
     (MObj [(''a'', MNum ''1''), (''b'', MList [MBool True])]) \<longleftrightarrow>
   json_matches jsonExact (MObj [(''a'', MNum ''1''), (''b'', MList [MBool True])])
     (MObj [(''a'', MNum ''1.0''), (''b'', MList [MBool True])])"
  using json_comparison_laws[OF json_demo, of jsonExact] by blast

section \<open>Rule objects\<close>

text \<open>The operators of \<open>jsonRuleOps\<close>: a test of the body, or what is wrong with the operand.\<close>

type_synonym jsonPredicate = "mjson \<Rightarrow> bool"

definition numberRule :: "numberRelation \<Rightarrow> mjson \<Rightarrow> string + jsonPredicate" where
  "numberRule rel operand = (case operand of
       MNum text \<Rightarrow>
         (let want = (case parseNumber text of Some w \<Rightarrow> w | None \<Rightarrow> zero_number) in
          Inr (\<lambda>got. case got of
              MNum n \<Rightarrow> (case parseNumber n of None \<Rightarrow> False | Some v \<Rightarrow> rel_holds rel (number_cmp v want))
            | _ \<Rightarrow> False))
     | _ \<Rightarrow> Inl ''operand must be a JSON number'')"

definition oneOfRule :: "mjson \<Rightarrow> string + jsonPredicate" where
  "oneOfRule operand = (case operand of
       MList allowed \<Rightarrow>
         if allowed = [] then Inl ''operand cannot be an empty array''
         else Inr (\<lambda>got. list_ex (\<lambda>want. json_matches jsonExact want got) allowed)
     | _ \<Rightarrow> Inl ''operand must be an array'')"

definition jsonRuleOps :: "string \<Rightarrow> (mjson \<Rightarrow> string + jsonPredicate) option" where
  "jsonRuleOps = map_of [(''gt'', numberRule relGT), (''gte'', numberRule relGTE), (''lt'', numberRule relLT),
     (''lte'', numberRule relLTE), (''oneOf'', oneOfRule)]"

definition childPath :: "string \<Rightarrow> string \<Rightarrow> string" where
  "childPath path name = (if path = [] then name else path @ ''.'' @ name)"

definition ruleErr :: "string \<Rightarrow> string \<Rightarrow> string" where
  "ruleErr path msg =
     (if path = [] then ''invalid json-rules matcher: '' @ msg
      else ''invalid json-rules matcher at '' @ path @ '': '' @ msg)"

definition is_obj :: "mjson \<Rightarrow> bool" where
  "is_obj v = (case v of MObj _ \<Rightarrow> True | _ \<Rightarrow> False)"

text \<open>
  \<open>operatorLeaf\<close>: \<open>Inr (Some ops)\<close> when every entry of the object is an operator with its operand, \<open>Inr None\<close> when
  the names may be fields of the body instead.
\<close>

fun operatorLeaf :: "(string \<times> mjson) list \<Rightarrow> string \<Rightarrow> string + jsonPredicate list option" where
  "operatorLeaf [] path = Inr (Some [])"
| "operatorLeaf ((name, v) # obj) path = (case jsonRuleOps name of
       None \<Rightarrow> Inr None
     | Some compile \<Rightarrow> (case compile v of
         Inl e \<Rightarrow> if is_obj v then Inr None else Inl (ruleErr (childPath path name) e)
       | Inr match \<Rightarrow> (case operatorLeaf obj path of
           Inl e \<Rightarrow> Inl e
         | Inr None \<Rightarrow> Inr None
         | Inr (Some ops) \<Rightarrow> Inr (Some (match # ops)))))"

definition allOf :: "jsonPredicate list \<Rightarrow> jsonPredicate" where
  "allOf tests got = list_all (\<lambda>test. test got) tests"

definition fields_hold :: "(string \<times> jsonPredicate) list \<Rightarrow> jsonPredicate" where
  "fields_hold fs got = (case got of
       MObj body \<Rightarrow> list_all (\<lambda>(name, match). case map_of body name of None \<Rightarrow> False | Some v \<Rightarrow> match v) fs
     | _ \<Rightarrow> False)"

text \<open>The members of a decoded object are sorted by name, which is the order the source visits them in.\<close>

fun compileRuleNode :: "mjson \<Rightarrow> string \<Rightarrow> string + jsonPredicate"
and compile_fields :: "(string \<times> mjson) list \<Rightarrow> string \<Rightarrow> string + (string \<times> jsonPredicate) list" where
  "compileRuleNode (MObj obj) path =
     (if obj = [] then Inl (ruleErr path ''rule object cannot be empty'')
      else case operatorLeaf obj path of
        Inl e \<Rightarrow> Inl e
      | Inr (Some ops) \<Rightarrow> Inr (allOf ops)
      | Inr None \<Rightarrow> (case compile_fields obj path of Inl e \<Rightarrow> Inl e | Inr fs \<Rightarrow> Inr (fields_hold fs)))"
| "compileRuleNode _ path = Inl (ruleErr path ''expected a rule object or a known operator'')"
| "compile_fields [] path = Inr []"
| "compile_fields ((name, v) # obj) path = (case compileRuleNode v (childPath path name) of
       Inl e \<Rightarrow> Inl e
     | Inr match \<Rightarrow> (case compile_fields obj path of Inl e \<Rightarrow> Inl e | Inr fs \<Rightarrow> Inr ((name, match) # fs)))"

definition compileRuleObject :: "(string \<times> mjson) list \<Rightarrow> string \<Rightarrow> string + jsonPredicate" where
  "compileRuleObject obj path = compileRuleNode (MObj obj) path"

definition compileJSONRules :: "string \<Rightarrow> string + jsonPredicate" where
  "compileJSONRules raw = (case decodeJSON raw of
       None \<Rightarrow> Inl ''invalid json-rules matcher''
     | Some (MObj obj) \<Rightarrow> compileRuleObject obj []
     | Some _ \<Rightarrow> Inl (ruleErr [] ''must be a JSON object''))"

text \<open>
  The whole body condition of a mock: a literal subset, rules, both or neither. A text that is not JSON, or
  repeats a name, is refused; which of the two it is called is not modelled.
\<close>

definition checked_json :: "string \<Rightarrow> bool" where
  "checked_json raw = (case json_read raw of None \<Rightarrow> False | Some v \<Rightarrow> \<not> json_repeats v)"

definition compileJSONBody :: "string \<Rightarrow> string \<Rightarrow> string + jsonPredicate option" where
  "compileJSONBody sub rules =
     (if sub \<noteq> [] \<and> \<not> checked_json sub then Inl ''invalid json matcher''
      else
        let literal = (if sub = [] then None
              else map_option (\<lambda>pattern got. json_matches jsonSubset pattern got) (decodeJSON sub)) in
        if rules = [] then Inr literal
        else if \<not> checked_json rules then Inl ''invalid json-rules matcher''
        else case compileJSONRules rules of
          Inl e \<Rightarrow> Inl e
        | Inr match \<Rightarrow> Inr (Some (case literal of None \<Rightarrow> match | Some lit \<Rightarrow> (\<lambda>got. lit got \<and> match got))))"

section \<open>What rule objects mean\<close>

text \<open>
  A reading of rule objects without the compiler and its operators: an object all of whose entries are operators with valid
  operands tests the body itself, any other object tests the fields it names. The operators compare the real numbers that
  the texts denote.
\<close>

definition op_valid :: "string \<Rightarrow> mjson \<Rightarrow> bool" where
  "op_valid name operand \<longleftrightarrow> (case operand of
       MNum s \<Rightarrow> name \<in> {''gt'', ''gte'', ''lt'', ''lte''}
     | MList vs \<Rightarrow> name = ''oneOf'' \<and> vs \<noteq> []
     | _ \<Rightarrow> False)"

definition denotes :: "string \<Rightarrow> real \<Rightarrow> bool" where
  "denotes s x \<longleftrightarrow> (\<exists>d. dec_wf d \<and> s = dec_text d \<and> x = dec_val d)"

definition op_says :: "string \<Rightarrow> mjson \<Rightarrow> mjson \<Rightarrow> bool" where
  "op_says name operand got \<longleftrightarrow> (case operand of
       MNum s \<Rightarrow> (\<exists>t x y. got = MNum t \<and> denotes t x \<and> denotes s y \<and>
         (name = ''gt'' \<and> x > y \<or> name = ''gte'' \<and> x \<ge> y \<or> name = ''lt'' \<and> x < y \<or> name = ''lte'' \<and> x \<le> y))
     | MList vs \<Rightarrow> name = ''oneOf'' \<and> (\<exists>want \<in> set vs. json_matches jsonExact want got)
     | _ \<Rightarrow> False)"

definition op_object :: "(string \<times> mjson) list \<Rightarrow> bool" where
  "op_object obj \<longleftrightarrow> (\<forall>kv \<in> set obj. op_valid (fst kv) (snd kv))"

fun rule_valid :: "mjson \<Rightarrow> bool" where
  "rule_valid (MObj obj) = (obj \<noteq> [] \<and> (op_object obj \<or> (\<forall>kv \<in> set obj. rule_valid (snd kv))))"
| "rule_valid _ = False"

fun rule_holds :: "mjson \<Rightarrow> mjson \<Rightarrow> bool" where
  "rule_holds (MObj obj) got =
     (if op_object obj then \<forall>kv \<in> set obj. op_says (fst kv) (snd kv) got
      else \<exists>body. got = MObj body \<and> (\<forall>kv \<in> set obj. \<exists>v. map_of body (fst kv) = Some v \<and> rule_holds (snd kv) v))"
| "rule_holds _ got = False"

text \<open>What the compiled operators test, as the compiler finds it.\<close>

definition op_entry :: "string \<times> mjson \<Rightarrow> jsonPredicate option" where
  "op_entry kv = (case jsonRuleOps (fst kv) of
       None \<Rightarrow> None
     | Some compile \<Rightarrow> (case compile (snd kv) of Inl e \<Rightarrow> None | Inr match \<Rightarrow> Some match))"

fun rule_tests :: "mjson \<Rightarrow> mjson \<Rightarrow> bool" where
  "rule_tests (MObj obj) got =
     (if op_object obj then \<forall>kv \<in> set obj. the (op_entry kv) got
      else \<exists>body. got = MObj body \<and> (\<forall>kv \<in> set obj. \<exists>v. map_of body (fst kv) = Some v \<and> rule_tests (snd kv) v))"
| "rule_tests _ got = False"

lemma op_entry_valid: "op_entry kv \<noteq> None \<longleftrightarrow> op_valid (fst kv) (snd kv)"
  by (cases "snd kv") (simp_all add: op_entry_def op_valid_def jsonRuleOps_def numberRule_def oneOfRule_def)

lemma op_object_entries: "op_object obj \<longleftrightarrow> (\<forall>kv \<in> set obj. op_entry kv \<noteq> None)"
  by (simp only: op_object_def op_entry_valid)

lemma operatorLeaf_ops: "op_object obj \<Longrightarrow> operatorLeaf obj path = Inr (Some (map (the \<circ> op_entry) obj))"
  by (induction obj path rule: operatorLeaf.induct)
    (auto simp: op_object_entries op_entry_def split: option.splits sum.splits)

lemma op_entry_simps:
  "op_entry (name, v) = (case jsonRuleOps name of None \<Rightarrow> None
     | Some compile \<Rightarrow> (case compile v of Inl e \<Rightarrow> None | Inr match \<Rightarrow> Some match))"
  unfolding op_entry_def fst_conv snd_conv ..

lemma operatorLeaf_other:
  "\<not> op_object obj \<Longrightarrow> operatorLeaf obj path = Inr None \<or>
    (\<exists>e. operatorLeaf obj path = Inl e) \<and> (\<exists>kv \<in> set obj. \<not> is_obj (snd kv))"
proof (induction obj)
  case Nil
  then show ?case by (simp add: op_object_entries)
next
  case (Cons kv obj)
  obtain name v where e: "kv = (name, v)" by (cases kv)
  show ?case
  proof (cases "op_entry kv")
    case None
    then show ?thesis using e by (auto simp: op_entry_simps split: option.splits sum.splits)
  next
    case (Some m)
    then have "\<not> op_object obj" using Cons.prems by (simp add: op_object_entries)
    from Cons.IH[OF this] Some e show ?thesis
      by (auto simp: op_entry_simps split: option.splits option.split_asm sum.splits sum.split_asm)
  qed
qed

lemma rule_valid_obj: "rule_valid v \<Longrightarrow> is_obj v"
  by (cases v) (auto simp: is_obj_def)

lemma fields_compile:
  assumes "\<And>kv path. kv \<in> set obj \<Longrightarrow>
    (case compileRuleNode (snd kv) path of Inl e \<Rightarrow> \<not> rule_valid (snd kv) | Inr p \<Rightarrow> rule_valid (snd kv) \<and> p = rule_tests (snd kv))"
  shows "case compile_fields obj path of
      Inl e \<Rightarrow> \<exists>kv \<in> set obj. \<not> rule_valid (snd kv)
    | Inr fs \<Rightarrow> (\<forall>kv \<in> set obj. rule_valid (snd kv)) \<and> fs = map (\<lambda>kv. (fst kv, rule_tests (snd kv))) obj"
  using assms
proof (induction obj)
  case (Cons kv obj)
  obtain k v where e: "kv = (k, v)" by (cases kv)
  from Cons.IH Cons.prems Cons.prems[of kv "childPath path k"] e show ?case
    by (auto split: sum.splits)
qed simp

lemma compileRuleNode_meaning:
  "case compileRuleNode node path of Inl e \<Rightarrow> \<not> rule_valid node | Inr p \<Rightarrow> rule_valid node \<and> p = rule_tests node"
proof (induction node arbitrary: path)
  case (MObj obj)
  have IH: "kv \<in> set obj \<Longrightarrow> (case compileRuleNode (snd kv) path of
      Inl e \<Rightarrow> \<not> rule_valid (snd kv) | Inr p \<Rightarrow> rule_valid (snd kv) \<and> p = rule_tests (snd kv))" for kv path
    using MObj[of kv "snd kv"] by (cases kv) (auto simp: snds.simps)
  show ?case
  proof (cases "op_object obj")
    case True
    have "allOf (map (the \<circ> op_entry) obj) = (\<lambda>got. \<forall>kv \<in> set obj. the (op_entry kv) got)"
      by (rule ext) (simp add: allOf_def list_all_iff)
    with True operatorLeaf_ops[OF True, of path] show ?thesis by auto
  next
    case False
    have hold: "fields_hold (map (\<lambda>kv. (fst kv, rule_tests (snd kv))) obj) = rule_tests (MObj obj)"
    proof
      fix got
      show "fields_hold (map (\<lambda>kv. (fst kv, rule_tests (snd kv))) obj) got = rule_tests (MObj obj) got"
        using False by (cases got) (auto simp: fields_hold_def list_all_iff split: option.splits)
    qed
    show ?thesis
    proof (cases "operatorLeaf obj path = Inr None")
      case True
      with fields_compile[of obj path, OF IH] False hold show ?thesis by (auto split: sum.splits)
    next
      case other: False
      with operatorLeaf_other[OF False, of path] obtain e kv where
        "operatorLeaf obj path = Inl e" "kv \<in> set obj" "\<not> is_obj (snd kv)" by blast
      with False show ?thesis by (auto dest: rule_valid_obj)
    qed
  qed
qed auto

text \<open>The numbers in a value, each as its text.\<close>

fun all_nums :: "(string \<Rightarrow> bool) \<Rightarrow> mjson \<Rightarrow> bool" where
  "all_nums P (MNum t) = P t"
| "all_nums P (MObj obj) = (\<forall>kv \<in> set obj. all_nums P (snd kv))"
| "all_nums P (MList vs) = (\<forall>v \<in> set vs. all_nums P v)"
| "all_nums P v = True"

definition short_text :: "string \<Rightarrow> bool" where
  "short_text t \<longleftrightarrow> (\<exists>d. dec_wf d \<and> dec_short d \<and> t = dec_text d)"

definition near_text :: "string \<Rightarrow> bool" where
  "near_text t \<longleftrightarrow> (\<exists>d. dec_wf d \<and> dec_short d \<and> exp_finite (dec_place d) \<and> t = dec_text d)"

lemma near_apart: "exp_finite q \<Longrightarrow> \<not> same_cap p q"
  by (auto simp: exp_finite_def same_cap_def)

lemma denotes_dec: "dec_wf d \<Longrightarrow> denotes (dec_text d) x \<longleftrightarrow> x = dec_val d"
  by (auto simp: denotes_def dest: dec_text_inj)

lemma op_entry_says:
  assumes "op_valid name operand" "all_nums near_text operand" "all_nums short_text got"
  shows "the (op_entry (name, operand)) got \<longleftrightarrow> op_says name operand got"
proof (cases operand)
  case (MNum s)
  obtain b where b: "dec_wf b" "dec_short b" "exp_finite (dec_place b)" "s = dec_text b"
    using assms(2) MNum by (auto simp: near_text_def)
  have n: "name \<in> {''gt'', ''gte'', ''lt'', ''lte''}" using assms(1) MNum by (simp add: op_valid_def)
  show ?thesis
  proof (cases "\<exists>t. got = MNum t")
    case True
    then obtain a where a: "dec_wf a" "dec_short a" "got = MNum (dec_text a)" using assms(3) by (auto simp: short_text_def)
    from mock_number_relations[OF a(1,2) b(1,2) near_apart[OF b(3)]] obtain x y where
      x: "parseNumber (dec_text a) = Some x" "parseNumber (dec_text b) = Some y" and
      r: "rel_holds relGT (number_cmp x y) \<longleftrightarrow> dec_val a > dec_val b" "rel_holds relGTE (number_cmp x y) \<longleftrightarrow> dec_val a \<ge> dec_val b"
         "rel_holds relLT (number_cmp x y) \<longleftrightarrow> dec_val a < dec_val b" "rel_holds relLTE (number_cmp x y) \<longleftrightarrow> dec_val a \<le> dec_val b"
      by blast
    have "the (op_entry (name, operand)) got \<longleftrightarrow>
        (name = ''gt'' \<and> rel_holds relGT (number_cmp x y) \<or> name = ''gte'' \<and> rel_holds relGTE (number_cmp x y) \<or>
         name = ''lt'' \<and> rel_holds relLT (number_cmp x y) \<or> name = ''lte'' \<and> rel_holds relLTE (number_cmp x y))"
      using n unfolding MNum b(4) a(3) by (elim insertE emptyE) (simp_all add: op_entry_def jsonRuleOps_def numberRule_def x)
    then show ?thesis unfolding r MNum b(4) a(3) by (simp add: op_says_def denotes_dec[OF a(1)] denotes_dec[OF b(1)])
  next
    case False
    then show ?thesis using n unfolding MNum
      by (cases got) (auto simp: op_entry_def jsonRuleOps_def numberRule_def op_says_def)
  qed
next
  case (MList vs)
  with assms(1) show ?thesis by (auto simp: op_valid_def op_entry_def jsonRuleOps_def oneOfRule_def op_says_def list_ex_iff)
qed (use assms(1) in \<open>simp_all add: op_valid_def\<close>)

lemma rule_tests_holds:
  "all_nums near_text node \<Longrightarrow> all_nums short_text got \<Longrightarrow> rule_tests node got \<longleftrightarrow> rule_holds node got"
proof (induction node arbitrary: got)
  case (MObj obj)
  have near: "all_nums near_text (snd kv)" if "kv \<in> set obj" for kv using MObj.prems(1) that by simp
  show ?case
  proof (cases "op_object obj")
    case True
    have "the (op_entry kv) got \<longleftrightarrow> op_says (fst kv) (snd kv) got" if "kv \<in> set obj" for kv
      using op_entry_says[OF _ near[OF that] MObj.prems(2), of "fst kv"] True that by (simp add: op_object_def)
    with True show ?thesis by simp
  next
    case False
    have "rule_tests (snd kv) v \<longleftrightarrow> rule_holds (snd kv) v"
      if "kv \<in> set obj" "got = MObj body" "map_of body (fst kv) = Some v" for kv body v
    proof (rule MObj.IH[OF that(1) _ near[OF that(1)]])
      show "snd kv \<in> Basic_BNFs.snds kv" by (cases kv) (simp add: snds.simps)
      show "all_nums short_text v" using MObj.prems(2) map_of_SomeD[OF that(3)] unfolding that(2) by auto
    qed
    then have eq: "(\<exists>v. map_of body (fst kv) = Some v \<and> rule_tests (snd kv) v) \<longleftrightarrow>
        (\<exists>v. map_of body (fst kv) = Some v \<and> rule_holds (snd kv) v)" if "kv \<in> set obj" "got = MObj body" for kv body
      using that by metis
    show ?thesis unfolding rule_tests.simps rule_holds.simps if_not_P[OF False] by (intro ex_cong1 conj_cong refl ball_cong eq)
  qed
qed simp_all

text \<open>
  C30: a rule object is accepted exactly when it is an object of operators with valid operands or of accepted rule objects,
  and what is compiled tests what the reading \<open>rule_holds\<close> says, with the operators read as comparisons of real numbers: in
  particular neither depends on the order in which the names are visited, and an object under the name of an operator is a
  field. The numbers are decimals of less than 10^18 bytes, as in every decoded text below that length (lemma
  \<open>decodeJSON_numbers\<close>); those of the rules have their first digit that counts within
  10^18 places of the point (see lemma \<open>mock_number_relations\<close>).
\<close>

theorem json_rules_mean:
  "case compileRuleNode node path of
     Inl e \<Rightarrow> \<not> rule_valid node
   | Inr p \<Rightarrow> rule_valid node \<and>
       (all_nums near_text node \<longrightarrow> all_nums short_text got \<longrightarrow> (p got \<longleftrightarrow> rule_holds node got))"
  using compileRuleNode_meaning[of node path] rule_tests_holds[of node got] by (auto split: sum.splits)

text \<open>The numbers of a decoded document are decimal texts.\<close>

lemma cutDigits_D: "cutDigits s = (ds, rest) \<Longrightarrow> list_all dec_digit ds \<and> s = ds @ rest"
  by (auto simp: cutDigits_def list_all_iff dest: set_takeWhileD)

lemma json_num_decimal:
  assumes "json_num s = Some (t, rest)"
  shows "\<exists>d. dec_wf d \<and> t = dec_text d \<and> length t \<le> length s"
proof -
  define sg :: string where "sg = (if has_prefix s ''-'' then ''-'' else [])"
  obtain w s1 f s2 e where n: "json_whole (drop (length sg) s) = Some (w, s1)" "json_frac s1 = Some (f, s2)"
    "json_exp s2 = Some (e, rest)" and t: "t = sg @ w @ f @ e"
    using assms by (auto simp: json_num_def sg_def Let_def split: option.splits prod.splits)
  have sg: "s = sg @ drop (length sg) s" by (auto simp: sg_def has_prefix_append)
  have w: "w \<noteq> [] \<and> list_all dec_digit w \<and> drop (length sg) s = w @ s1"
    using n(1) by (auto simp: json_whole_def dec_digit_def in_range_val byte_val_def split: list.split_asm if_split_asm prod.split_asm
        dest: cutDigits_D)
  obtain fs where f: "f = (if fs = [] then [] else CHR ''.'' # fs)" "list_all dec_digit fs" "s1 = f @ s2"
  proof (cases "has_prefix s1 ''.''")
    case True
    then obtain ds where "cutDigits (tl s1) = (ds, s2)" "ds \<noteq> []" "f = CHR ''.'' # ds"
      using n(2) by (auto simp: json_frac_def split: prod.split_asm if_split_asm)
    with True cutDigits_D[of "tl s1" ds s2] show ?thesis by (intro that[of ds]) (auto simp: has_prefix_append)
  qed (use n(2) that[of "[]"] in \<open>auto simp: json_frac_def\<close>)
  obtain x where e: "e = (case x of None \<Rightarrow> [] | Some (m, sg, ds) \<Rightarrow> m # sg @ ds)" "s2 = e @ rest"
    "case x of None \<Rightarrow> True | Some (m, sg, ds) \<Rightarrow> m \<in> {CHR ''e'', CHR ''E''} \<and> sg \<in> {[], ''-'', ''+''} \<and> ds \<noteq> [] \<and> list_all dec_digit ds"
  proof (cases "s2 = [] \<or> hd s2 \<noteq> CHR ''e'' \<and> hd s2 \<noteq> CHR ''E''")
    case True
    then show ?thesis using n(3) that[of None] by (auto simp: json_exp_def)
  next
    case False
    define es where "es = (if has_prefix (tl s2) ''-'' \<or> has_prefix (tl s2) ''+'' then [hd (tl s2)] else [])"
    obtain ds where ds: "cutDigits (drop (length es) (tl s2)) = (ds, rest)" "ds \<noteq> []" "e = hd s2 # es @ ds"
      using n(3) False by (auto simp: json_exp_def es_def[symmetric] Let_def split: prod.split_asm if_split_asm)
    have es: "es \<in> {[], ''-'', ''+''}" "tl s2 = es @ drop (length es) (tl s2)" by (auto simp: es_def has_prefix_append)
    have dd: "list_all dec_digit ds" "drop (length es) (tl s2) = ds @ rest" using cutDigits_D[OF ds(1)] by blast+
    have "s2 = hd s2 # tl s2" using False by (cases s2) auto
    then have s2: "s2 = hd s2 # es @ ds @ rest" using es(2) dd(2) by metis
    have m: "hd s2 \<in> {CHR ''e'', CHR ''E''}" using False by auto
    show ?thesis
    proof (rule that[of "Some (hd s2, es, ds)"])
      show "s2 = e @ rest" unfolding ds(3) using s2 by simp
    qed (use ds(2,3) es(1) dd(1) m in simp_all)
  qed
  let ?d = "\<lparr>d_sign = sg, d_whole = w, d_frac = fs, d_exp = x\<rparr>"
  have "dec_wf ?d" using w f(2) e(3) by (simp add: dec_wf_def sg_def)
  moreover have "t = dec_text ?d" using t f(1) e(1) by (auto simp: dec_text_def exp_text_def split: option.split)
  moreover have "length s = length sg + length (drop (length sg) s)" by (metis sg length_append)
  then have "length t \<le> length s" using w f(3) e(2) t by simp
  ultimately show ?thesis by blast
qed

lemma json_numbers:
  "json_val n d s = Some (v, rest) \<Longrightarrow> length s < 10 ^ 18 \<Longrightarrow> all_nums short_text v"
  "json_members n d s = Some (kvs, rest) \<Longrightarrow> length s < 10 ^ 18 \<Longrightarrow> \<forall>kv \<in> set kvs. all_nums short_text (snd kv)"
  "json_elems n d s = Some (vs, rest) \<Longrightarrow> length s < 10 ^ 18 \<Longrightarrow> \<forall>v \<in> set vs. all_nums short_text v"
proof (induction n arbitrary: d s v kvs vs rest)
  case (Suc n)
  { case 1
    let ?s = "skip_space s"
    have le: "length ?s \<le> length s" "length (skip_space (tl ?s)) \<le> length s"
      using skip_space_le[of s] skip_space_le[of "tl ?s"] by simp_all
    have "all_nums short_text (MNum t)" if num: "json_num ?s = Some (t, r)" for t r
    proof -
      obtain x where x: "dec_wf x" "t = dec_text x" "length t \<le> length ?s" using json_num_decimal[OF num] by blast
      then have "dec_short x" using 1(2) le(1) by (simp add: dec_short_def)
      with x show ?thesis by (auto simp: short_text_def)
    qed
    moreover have "all_nums short_text (MObj kvs)" if "json_members n (Suc d) (skip_space (tl ?s)) = Some (kvs, r)" for kvs r
      using Suc.IH(2)[OF that] le(2) 1(2) by simp
    moreover have "all_nums short_text (MList vs)" if "json_elems n (Suc d) (skip_space (tl ?s)) = Some (vs, r)" for vs r
      using Suc.IH(3)[OF that] le(2) 1(2) by simp
    moreover note 1(1)[unfolded json_val.simps(2) Let_def]
    ultimately show ?case by (auto simp del: all_nums.simps(1-3) split: if_split_asm option.split_asm prod.split_asm) (auto)
  next
    case 2
    obtain k s1 v s2 where m: "json_str (tl s) = Some (k, s1)" "json_val n d (tl (skip_space s1)) = Some (v, s2)"
      "kvs = [(k, v)] \<or> (\<exists>kvs' r. json_members n d (skip_space (tl (skip_space s2))) = Some (kvs', r) \<and> kvs = (k, v) # kvs')"
      using 2(1) by (auto simp: Let_def split: if_splits option.splits prod.splits)
    have l1: "length (tl (skip_space s1)) \<le> length s" using json_str_less[OF m(1)] skip_space_le[of s1] by simp
    then have l2: "length (skip_space (tl (skip_space s2))) \<le> length s"
      using json_rest_less(1)[OF m(2)] skip_space_le[of s2] skip_space_le[of "tl (skip_space s2)"] by simp
    from Suc.IH(1)[OF m(2)] l1 2(2) have "all_nums short_text v" by simp
    moreover have "\<forall>kv \<in> set kvs'. all_nums short_text (snd kv)"
      if "json_members n d (skip_space (tl (skip_space s2))) = Some (kvs', r)" for kvs' r
      using Suc.IH(2)[OF that] l2 2(2) by simp
    ultimately show ?case using m(3) by fastforce
  next
    case 3
    obtain v s2 where m: "json_val n d s = Some (v, s2)"
      "vs = [v] \<or> (\<exists>vs' r. json_elems n d (skip_space (tl (skip_space s2))) = Some (vs', r) \<and> vs = v # vs')"
      using 3(1) by (auto simp: Let_def split: if_splits option.splits prod.splits)
    have l2: "length (skip_space (tl (skip_space s2))) \<le> length s"
      using json_rest_less(1)[OF m(1)] skip_space_le[of s2] skip_space_le[of "tl (skip_space s2)"] by simp
    from Suc.IH(1)[OF m(1)] 3(2) have "all_nums short_text v" by simp
    moreover have "\<forall>v \<in> set vs'. all_nums short_text v"
      if "json_elems n d (skip_space (tl (skip_space s2))) = Some (vs', r)" for vs' r
      using Suc.IH(3)[OF that] l2 3(2) by simp
    ultimately show ?case using m(2) by auto }
qed simp_all

lemma json_norm_numbers: "all_nums P v \<Longrightarrow> all_nums P (json_norm v)"
proof (induction v)
  case (MObj kvs)
  have "\<forall>kv \<in> set (map (\<lambda>(k, v). (k, json_norm v)) kvs). all_nums P (snd kv)"
    using MObj by (force simp: snds.simps)
  from foldl_put_ok[of "[]" "all_nums P", OF _ _ this] show ?case by simp
qed auto

lemma decodeJSON_numbers: "decodeJSON s = Some v \<Longrightarrow> length s < 10 ^ 18 \<Longrightarrow> all_nums short_text v"
  by (auto simp: decodeJSON_def json_read_def json_norm_numbers json_numbers(1) simp del: json_val.simps
      split: option.split_asm prod.split_asm if_split_asm)

lemma near_demo: "near_text ''1.5''"
proof -
  let ?d = "\<lparr>d_sign = [], d_whole = ''1'', d_frac = ''5'', d_exp = None\<rparr>"
  have "dec_wf ?d" "dec_short ?d" "exp_finite (dec_place ?d)" "''1.5'' = dec_text ?d"
    by (simp_all add: dec_wf_def dec_digit_def in_range_val byte_val_def dec_short_def dec_text_def exp_text_def exp_finite_def
        dec_place_def exp_val_def expLimit_def trim_zeros_def)
  then show ?thesis unfolding near_text_def by blast
qed

theorem json_rules_mean_witness:
  "case compileRuleNode (MObj [(''lt'', MObj [(''gte'', MNum ''1.5'')])]) [] of
     Inl e \<Rightarrow> False
   | Inr p \<Rightarrow> p (MObj [(''lt'', MNum ''1.5'')]) \<longleftrightarrow> rule_holds (MObj [(''lt'', MObj [(''gte'', MNum ''1.5'')])]) (MObj [(''lt'', MNum ''1.5'')])"
proof -
  have v: "rule_valid (MObj [(''lt'', MObj [(''gte'', MNum ''1.5'')])])" by (simp add: op_object_def op_valid_def)
  have "short_text ''1.5''" using near_demo by (auto simp: near_text_def short_text_def)
  then show ?thesis
    using json_rules_mean[where path = "[]" and node = "MObj [(''lt'', MObj [(''gte'', MNum ''1.5'')])]"
        and got = "MObj [(''lt'', MNum ''1.5'')]"] v near_demo
    by (auto split: sum.splits simp del: compileRuleNode.simps rule_holds.simps)
qed

end
