(* ===== verification/MockRules.thy ===== *)
theory MockRules
  imports MockJson
begin

text \<open>
  The conditions of \<open>@match\<close> on query parameters and headers: the operators and the checks of their operands
  (\<open>internal/restfile/mock_matcher.go\<close>, \<open>mock_query.go\<close>, \<open>mock_header.go\<close>), the predicates they compile to
  (\<open>internal/mock/value.go\<close>) and the rule sets (\<open>internal/mock/rules.go\<close>, \<open>query.go\<close>, \<open>header.go\<close>).

  Regular expressions are a parameter \<open>rx\<close>: the test that a pattern compiles to, if it compiles. The two checks of
  the package \<open>httpguts\<close> are the parameters \<open>okName\<close> and \<open>okValue\<close>. The values a request carries for a key are
  \<open>None\<close> when the request does not have the key.
\<close>

section \<open>Operators and operands\<close>

datatype MockMatchOp =
  MockOpUnknown | MockOpExact | MockOpPrefix | MockOpPresent | MockOpAbsent | MockOpContains | MockOpRegex
| MockOpOneOf | MockOpGT | MockOpGTE | MockOpLT | MockOpLTE

datatype operand = operandFlag | operandString | operandList | operandNumber | operandShorthand

record matcherSpec =
  spec_name :: string
  spec_operand :: operand
  spec_regex :: bool

record MockRule =
  mr_op :: MockMatchOp
  mr_values :: "string list"

text \<open>The table \<open>matcherSpecs\<close>; \<open>spec_regex\<close> says that \<open>verify\<close> is \<open>verifyRegex\<close>, the only function it ever is.\<close>

fun specOf :: "MockMatchOp \<Rightarrow> matcherSpec option" where
  "specOf MockOpUnknown = None"
| "specOf MockOpExact = Some \<lparr>spec_name = ''exact'', spec_operand = operandShorthand, spec_regex = False\<rparr>"
| "specOf MockOpPrefix = Some \<lparr>spec_name = ''prefix'', spec_operand = operandString, spec_regex = False\<rparr>"
| "specOf MockOpPresent = Some \<lparr>spec_name = ''present'', spec_operand = operandFlag, spec_regex = False\<rparr>"
| "specOf MockOpAbsent = Some \<lparr>spec_name = ''absent'', spec_operand = operandFlag, spec_regex = False\<rparr>"
| "specOf MockOpContains = Some \<lparr>spec_name = ''contains'', spec_operand = operandString, spec_regex = False\<rparr>"
| "specOf MockOpRegex = Some \<lparr>spec_name = ''regex'', spec_operand = operandString, spec_regex = True\<rparr>"
| "specOf MockOpOneOf = Some \<lparr>spec_name = ''oneOf'', spec_operand = operandList, spec_regex = False\<rparr>"
| "specOf MockOpGT = Some \<lparr>spec_name = ''gt'', spec_operand = operandNumber, spec_regex = False\<rparr>"
| "specOf MockOpGTE = Some \<lparr>spec_name = ''gte'', spec_operand = operandNumber, spec_regex = False\<rparr>"
| "specOf MockOpLT = Some \<lparr>spec_name = ''lt'', spec_operand = operandNumber, spec_regex = False\<rparr>"
| "specOf MockOpLTE = Some \<lparr>spec_name = ''lte'', spec_operand = operandNumber, spec_regex = False\<rparr>"

definition op_string :: "MockMatchOp \<Rightarrow> string" where
  "op_string op = (case specOf op of Some spec \<Rightarrow> spec_name spec | None \<Rightarrow> ''unknown'')"

definition mockHeaderOps :: "MockMatchOp list" where
  "mockHeaderOps = [MockOpExact, MockOpPrefix, MockOpPresent, MockOpAbsent, MockOpContains, MockOpRegex, MockOpOneOf]"

definition mockQueryOps :: "MockMatchOp list" where
  "mockQueryOps = [MockOpExact, MockOpPrefix, MockOpPresent, MockOpAbsent, MockOpContains, MockOpRegex, MockOpOneOf,
     MockOpGT, MockOpGTE, MockOpLT, MockOpLTE]"

definition ops_spec :: "MockMatchOp list \<Rightarrow> MockMatchOp \<Rightarrow> matcherSpec option" where
  "ops_spec ops op = (if op \<notin> set ops then None else specOf op)"

text \<open>
  What is wrong with a rule: a message, a header value that \<open>httpguts\<close> refuses, a pattern that does not compile,
  and, for \<open>values[0]\<close> of an empty list, the panic of the index.
\<close>

datatype checkErr =
  CheckMsg string | BadHeaderValue string string | BadRegex string | IndexPanic

text \<open>\<open>json.Unmarshal\<close> into a \<open>json.Number\<close> gives the text back exactly for the text of a number.\<close>

definition isJSONNumber :: "string \<Rightarrow> bool" where
  "isJSONNumber s = (case json_read s of Some (MNum n) \<Rightarrow> n = s | _ \<Rightarrow> False)"

definition spec_verify :: "(string \<Rightarrow> (string \<Rightarrow> bool) option) \<Rightarrow> matcherSpec \<Rightarrow> string list \<Rightarrow> checkErr option" where
  "spec_verify rx spec vs =
     (if \<not> spec_regex spec then None
      else case vs of [] \<Rightarrow> Some IndexPanic | v # _ \<Rightarrow> if rx v = None then Some (BadRegex (spec_name spec)) else None)"

definition spec_check :: "(string \<Rightarrow> (string \<Rightarrow> bool) option) \<Rightarrow> matcherSpec \<Rightarrow> string list \<Rightarrow> checkErr option" where
  "spec_check rx spec vs =
     (let shape = (case spec_operand spec of
            operandFlag \<Rightarrow> if vs \<noteq> [] then Some (CheckMsg (spec_name spec @ '' matcher cannot have values'')) else None
          | operandString \<Rightarrow> if length vs \<noteq> 1 \<or> vs ! 0 = []
              then Some (CheckMsg (spec_name spec @ '' matcher requires one non-empty value'')) else None
          | operandNumber \<Rightarrow> if length vs \<noteq> 1 \<or> \<not> isJSONNumber (vs ! 0)
              then Some (CheckMsg (spec_name spec @ '' matcher requires one JSON number'')) else None
          | _ \<Rightarrow> if vs = [] then Some (CheckMsg (spec_name spec @ '' matcher requires at least one value'')) else None) in
      case shape of Some e \<Rightarrow> Some e | None \<Rightarrow> spec_verify rx spec vs)"

definition rule_check ::
  "(string \<Rightarrow> (string \<Rightarrow> bool) option) \<Rightarrow> MockMatchOp list \<Rightarrow> MockRule \<Rightarrow> checkErr option" where
  "rule_check rx ops r = (case ops_spec ops (mr_op r) of
       None \<Rightarrow> Some (CheckMsg ''matcher operation is invalid'')
     | Some spec \<Rightarrow> spec_check rx spec (mr_values r))"

definition query_check :: "(string \<Rightarrow> (string \<Rightarrow> bool) option) \<Rightarrow> MockRule \<Rightarrow> checkErr option" where
  "query_check rx r = rule_check rx mockQueryOps r"

definition header_check ::
  "(string \<Rightarrow> (string \<Rightarrow> bool) option) \<Rightarrow> (string \<Rightarrow> bool) \<Rightarrow> MockRule \<Rightarrow> checkErr option" where
  "header_check rx okValue r = (case ops_spec mockHeaderOps (mr_op r) of
       None \<Rightarrow> Some (CheckMsg ''matcher operation is invalid'')
     | Some spec \<Rightarrow> (case find (\<lambda>v. \<not> okValue v) (mr_values r) of
         Some v \<Rightarrow> Some (BadHeaderValue (spec_name spec) v)
       | None \<Rightarrow> spec_check rx spec (mr_values r)))"

section \<open>Predicates on the values of a request\<close>

type_synonym valuePredicate = "string list option \<Rightarrow> bool"

definition exactValues :: "string list \<Rightarrow> valuePredicate" where
  "exactValues want got = (case got of None \<Rightarrow> False | Some vs \<Rightarrow> vs = want)"

definition anyValue :: "(string \<Rightarrow> bool) \<Rightarrow> valuePredicate" where
  "anyValue test got = (case got of None \<Rightarrow> False | Some vs \<Rightarrow> list_ex test vs)"

definition anyPrefix :: "string \<Rightarrow> valuePredicate" where
  "anyPrefix p = anyValue (\<lambda>v. has_prefix v p)"

definition anyContains :: "string \<Rightarrow> valuePredicate" where
  "anyContains sub = anyValue (\<lambda>v. str_contains v sub)"

definition anyRegex :: "(string \<Rightarrow> (string \<Rightarrow> bool) option) \<Rightarrow> string \<Rightarrow> checkErr + valuePredicate" where
  "anyRegex rx pattern = (case rx pattern of None \<Rightarrow> Inl (BadRegex ''regex'') | Some re \<Rightarrow> Inr (anyValue re))"

definition anyOneOf :: "string list \<Rightarrow> valuePredicate" where
  "anyOneOf vs = anyValue (\<lambda>v. v \<in> set vs)"

definition valuePresent :: valuePredicate where
  "valuePresent got = (case got of None \<Rightarrow> False | Some vs \<Rightarrow> length vs > 0)"

definition valueAbsent :: valuePredicate where
  "valueAbsent got = (case got of None \<Rightarrow> True | Some vs \<Rightarrow> length vs = 0)"

definition anyNumber :: "numberRelation \<Rightarrow> string \<Rightarrow> valuePredicate" where
  "anyNumber rel operand =
     (let want = (case parseNumber operand of Some w \<Rightarrow> w | None \<Rightarrow> zero_number) in
      anyValue (\<lambda>v. case parseNumber v of None \<Rightarrow> False | Some got \<Rightarrow> rel_holds rel (number_cmp got want)))"

definition with_first :: "string list \<Rightarrow> (string \<Rightarrow> checkErr + valuePredicate) \<Rightarrow> checkErr + valuePredicate" where
  "with_first vs f = (case vs of [] \<Rightarrow> Inl IndexPanic | v # _ \<Rightarrow> f v)"

fun compileRule ::
  "(string \<Rightarrow> (string \<Rightarrow> bool) option) \<Rightarrow> MockMatchOp \<Rightarrow> string list \<Rightarrow> checkErr + valuePredicate" where
  "compileRule rx MockOpExact vs = Inr (exactValues vs)"
| "compileRule rx MockOpPrefix vs = with_first vs (\<lambda>v. Inr (anyPrefix v))"
| "compileRule rx MockOpContains vs = with_first vs (\<lambda>v. Inr (anyContains v))"
| "compileRule rx MockOpRegex vs = with_first vs (anyRegex rx)"
| "compileRule rx MockOpOneOf vs = Inr (anyOneOf vs)"
| "compileRule rx MockOpPresent vs = Inr valuePresent"
| "compileRule rx MockOpAbsent vs = Inr valueAbsent"
| "compileRule rx MockOpGT vs = with_first vs (\<lambda>v. Inr (anyNumber relGT v))"
| "compileRule rx MockOpGTE vs = with_first vs (\<lambda>v. Inr (anyNumber relGTE v))"
| "compileRule rx MockOpLT vs = with_first vs (\<lambda>v. Inr (anyNumber relLT v))"
| "compileRule rx MockOpLTE vs = with_first vs (\<lambda>v. Inr (anyNumber relLTE v))"
| "compileRule rx MockOpUnknown vs = Inl (CheckMsg (op_string MockOpUnknown @ '' matcher is not supported''))"

definition compileQueryRule ::
  "(string \<Rightarrow> (string \<Rightarrow> bool) option) \<Rightarrow> MockRule \<Rightarrow> checkErr + MockRule \<times> valuePredicate" where
  "compileQueryRule rx r = (case query_check rx r of
       Some e \<Rightarrow> Inl e
     | None \<Rightarrow> (case compileRule rx (mr_op r) (mr_values r) of Inl e \<Rightarrow> Inl e | Inr match \<Rightarrow> Inr (r, match)))"

definition compileHeaderRule ::
  "(string \<Rightarrow> (string \<Rightarrow> bool) option) \<Rightarrow> (string \<Rightarrow> bool) \<Rightarrow> MockRule \<Rightarrow> checkErr + MockRule \<times> valuePredicate" where
  "compileHeaderRule rx okValue r = (case header_check rx okValue r of
       Some e \<Rightarrow> Inl e
     | None \<Rightarrow> (case compileRule rx (mr_op r) (mr_values r) of Inl e \<Rightarrow> Inl e | Inr match \<Rightarrow> Inr (r, match)))"

section \<open>Names\<close>

text \<open>\<open>http.CanonicalHeaderKey\<close>.\<close>

definition token_byte :: "char \<Rightarrow> bool" where
  "token_byte c \<longleftrightarrow> in_range CHR ''0'' CHR ''9'' c \<or> in_range CHR ''a'' CHR ''z'' c \<or> in_range CHR ''A'' CHR ''Z'' c \<or>
     c \<in> set ''!#$%&*+-.^_|~'' \<or> c \<in> {CHR 0x27, CHR 0x60}"

definition upper_byte :: "char \<Rightarrow> char" where
  "upper_byte c = (if in_range CHR ''a'' CHR ''z'' c then char_of (byte_val c - 32) else c)"

fun canon_bytes :: "bool \<Rightarrow> string \<Rightarrow> string" where
  "canon_bytes upper [] = []"
| "canon_bytes upper (c # cs) = (if upper then upper_byte c else lower_byte c) # canon_bytes (c = CHR ''-'') cs"

definition CanonicalHeaderKey :: "string \<Rightarrow> string" where
  "CanonicalHeaderKey s = (if list_all token_byte s then canon_bytes True s else s)"

definition selectorNameHeader :: string where
  "selectorNameHeader = ''X-Resterm-Mock''"

definition selectorStatusHeader :: string where
  "selectorStatusHeader = ''X-Resterm-Mock-Status''"

definition isSelectorHeader :: "string \<Rightarrow> bool" where
  "isSelectorHeader name \<longleftrightarrow> equal_fold name selectorNameHeader \<or> equal_fold name selectorStatusHeader"

datatype matchErr =
  QueryNameEmpty | HeaderNameInvalid string | SelectorInMatch string
| RuleErr string string checkErr | RepeatedCasing string string

definition canonQueryName :: "string \<Rightarrow> matchErr + string" where
  "canonQueryName name = (if trim_white name = [] then Inl QueryNameEmpty else Inr name)"

definition canonHeaderName :: "(string \<Rightarrow> bool) \<Rightarrow> string \<Rightarrow> matchErr + string" where
  "canonHeaderName okName key =
     (let name = trim_white key in
      if \<not> okName name then Inl (HeaderNameInvalid name) else Inr (CanonicalHeaderKey name))"

definition canonMatchHeaderName :: "(string \<Rightarrow> bool) \<Rightarrow> string \<Rightarrow> matchErr + string" where
  "canonMatchHeaderName okName key = (case canonHeaderName okName key of
       Inl e \<Rightarrow> Inl e
     | Inr name \<Rightarrow> if isSelectorHeader name then Inl (SelectorInMatch name) else Inr name)"

section \<open>Rule sets\<close>

record rule =
  ru_name :: string
  ru_rule :: MockRule
  ru_match :: valuePredicate

text \<open>The map of rules has its keys in sorted order, which is the order the source visits them in.\<close>

fun compile_loop ::
  "string \<Rightarrow> (string \<Rightarrow> matchErr + string) \<Rightarrow> (MockRule \<Rightarrow> checkErr + MockRule \<times> valuePredicate) \<Rightarrow>
     rule list \<Rightarrow> MockRule smap \<Rightarrow> matchErr + rule list" where
  "compile_loop kind canon compile out [] = Inr out"
| "compile_loop kind canon compile out ((key, r) # src) = (case canon key of
       Inl e \<Rightarrow> Inl e
     | Inr name \<Rightarrow> (case compile r of
         Inl e \<Rightarrow> Inl (RuleErr kind name e)
       | Inr (kept, match) \<Rightarrow>
           if list_ex (\<lambda>x. ru_name x = name) out then Inl (RepeatedCasing kind name)
           else compile_loop kind canon compile (out @ [\<lparr>ru_name = name, ru_rule = kept, ru_match = match\<rparr>]) src))"

definition compileRules ::
  "string \<Rightarrow> MockRule smap \<Rightarrow> (string \<Rightarrow> matchErr + string) \<Rightarrow>
     (MockRule \<Rightarrow> checkErr + MockRule \<times> valuePredicate) \<Rightarrow> matchErr + rule list" where
  "compileRules kind src canon compile = compile_loop kind canon compile [] src"

definition rules_match :: "rule list \<Rightarrow> (string \<Rightarrow> string list option) \<Rightarrow> bool" where
  "rules_match rs look = list_all (\<lambda>r. ru_match r (look (ru_name r))) rs"

definition declared :: "rule list \<Rightarrow> MockRule smap" where
  "declared rs = foldl (\<lambda>m r. smap_put (ru_name r) (ru_rule r) m) [] rs"

definition compileQueryRules ::
  "(string \<Rightarrow> (string \<Rightarrow> bool) option) \<Rightarrow> MockRule smap \<Rightarrow> matchErr + rule list" where
  "compileQueryRules rx src = compileRules ''query'' src canonQueryName (compileQueryRule rx)"

definition compileHeaderRules ::
  "(string \<Rightarrow> (string \<Rightarrow> bool) option) \<Rightarrow> (string \<Rightarrow> bool) \<Rightarrow> (string \<Rightarrow> bool) \<Rightarrow> MockRule smap \<Rightarrow> matchErr + rule list" where
  "compileHeaderRules rx okName okValue src =
     compileRules ''header'' src (canonHeaderName okName) (compileHeaderRule rx okValue)"

definition compileMatchHeaders ::
  "(string \<Rightarrow> (string \<Rightarrow> bool) option) \<Rightarrow> (string \<Rightarrow> bool) \<Rightarrow> (string \<Rightarrow> bool) \<Rightarrow> MockRule smap \<Rightarrow> matchErr + rule list" where
  "compileMatchHeaders rx okName okValue src =
     compileRules ''header'' src (canonMatchHeaderName okName) (compileHeaderRule rx okValue)"

text \<open>The headers of a request without \<open>Host\<close>, which \<open>net/http\<close> keeps apart.\<close>

definition header_values :: "(string \<Rightarrow> string list option) \<Rightarrow> string \<Rightarrow> string list option" where
  "header_values h name = h (CanonicalHeaderKey name)"

definition header_get :: "(string \<Rightarrow> string list option) \<Rightarrow> string \<Rightarrow> string" where
  "header_get h name = (case header_values h name of Some (v # _) \<Rightarrow> v | _ \<Rightarrow> [])"

definition headerOrHost :: "(string \<Rightarrow> string list option) \<Rightarrow> string \<Rightarrow> string \<Rightarrow> string list option" where
  "headerOrHost h host name =
     (if equal_fold name ''Host'' then (if host = [] then None else Some [host]) else header_values h name)"

definition headerLookup :: "(string \<Rightarrow> string list option) \<Rightarrow> string \<Rightarrow> string \<Rightarrow> string list option" where
  "headerLookup h host = (\<lambda>name. headerOrHost h host name)"

definition queryLookup :: "(string \<Rightarrow> string list option) \<Rightarrow> string \<Rightarrow> string list option" where
  "queryLookup q = (\<lambda>name. q name)"

section \<open>Operands that are numbers always parse\<close>

lemma cutDigits_split: "cutDigits s = (a, b) \<Longrightarrow> s = a @ b \<and> list_all dec_digit a"
  by (auto simp: cutDigits_def list_all_iff dest: set_takeWhileD)

lemma json_exp_text:
  assumes "json_exp s = Some (e, rest)"
  shows "s = e @ rest \<and> (e = [] \<or> (\<exists>m sg ds. e = m # sg @ ds \<and> m \<in> {CHR ''e'', CHR ''E''} \<and>
    sg \<in> {[], ''-'', ''+''} \<and> ds \<noteq> [] \<and> list_all dec_digit ds))"
proof (cases s)
  case (Cons m t)
  define sg where "sg = (if has_prefix t ''-'' \<or> has_prefix t ''+'' then [hd t] else [])"
  show ?thesis
  proof (cases "m = CHR ''e'' \<or> m = CHR ''E''")
    case True
    obtain ds where c: "cutDigits (drop (length sg) t) = (ds, rest)" "ds \<noteq> []" "e = m # sg @ ds"
      using assms Cons True by (auto simp: json_exp_def Let_def sg_def split: if_split_asm prod.splits)
    have "t = sg @ drop (length sg) t \<and> sg \<in> {[], ''-'', ''+''}"
      by (cases t) (auto simp: sg_def has_prefix_append)
    with cutDigits_split[OF c(1)] c True Cons show ?thesis by auto
  qed (use assms Cons in \<open>auto simp: json_exp_def\<close>)
qed (use assms in \<open>simp add: json_exp_def\<close>)

lemma json_frac_text:
  "json_frac s = Some (f, rest) \<Longrightarrow> s = f @ rest \<and>
    (f = [] \<or> (\<exists>ds. f = CHR ''.'' # ds \<and> ds \<noteq> [] \<and> list_all dec_digit ds))"
  using cutDigits_split[of "tl s"]
  by (cases s) (auto simp: json_frac_def has_prefix_def Let_def split: if_split_asm prod.splits)

lemma json_whole_text:
  "json_whole s = Some (w, rest) \<Longrightarrow> s = w @ rest \<and> w \<noteq> [] \<and> list_all dec_digit w"
  using cutDigits_split[of s]
  by (cases s) (auto simp: json_whole_def dec_digit_def in_range_val byte_val_def split: if_split_asm prod.splits)

lemma json_num_text:
  assumes "json_num s = Some (t, rest)"
  shows "s = t @ rest \<and> (\<exists>d. dec_wf d \<and> dec_text d = t)"
proof -
  define sg :: string where "sg = (if has_prefix s ''-'' then ''-'' else [])"
  obtain w s1 f s2 e where n: "json_whole (drop (length sg) s) = Some (w, s1)" "json_frac s1 = Some (f, s2)"
    "json_exp s2 = Some (e, rest)" "t = sg @ w @ f @ e"
    using assms by (auto simp: json_num_def sg_def Let_def split: option.splits prod.splits)
  have sg: "s = sg @ drop (length sg) s" "sg \<in> {[], ''-'', ''+''}" by (auto simp: sg_def has_prefix_append)
  note parts = json_whole_text[OF n(1)] json_frac_text[OF n(2)] json_exp_text[OF n(3)]
  obtain x where x: "e = (case x of None \<Rightarrow> [] | Some (m, g, ds) \<Rightarrow> m # g @ ds)"
    "case x of None \<Rightarrow> True | Some (m, g, ds) \<Rightarrow> m \<in> {CHR ''e'', CHR ''E''} \<and> g \<in> {[], ''-'', ''+''} \<and> ds \<noteq> [] \<and> list_all dec_digit ds"
  proof (cases "e = []")
    case True
    then show ?thesis using that[of None] by simp
  next
    case False
    then obtain m g ds where "e = m # g @ ds" "m \<in> {CHR ''e'', CHR ''E''}" "g \<in> {[], ''-'', ''+''}" "ds \<noteq> []"
      "list_all dec_digit ds" using parts(3) by blast
    then show ?thesis using that[of "Some (m, g, ds)"] by simp
  qed
  let ?d = "\<lparr>d_sign = sg, d_whole = w, d_frac = tl f, d_exp = x\<rparr>"
  have "dec_wf ?d" using parts sg(2) x(2) by (auto simp: dec_wf_def)
  moreover have "dec_text ?d = t" using parts(2) n(4) x(1) by (auto simp: dec_text_def exp_text_def)
  moreover have "s = t @ rest" using sg(1) parts n(4) by simp
  ultimately show ?thesis by blast
qed

lemma dec_exp_parses: "dec_wf d \<Longrightarrow> parseExponent (exp_text d) \<noteq> None"
proof (cases "d_exp d")
  case (Some x)
  obtain m sg ds where x: "x = (m, sg, ds)" by (cases x)
  assume "dec_wf d"
  with Some x have w: "m = CHR ''e'' \<or> m = CHR ''E''" "sg \<in> {[], ''-'', ''+''}" "ds \<noteq> []" "list_all dec_digit ds"
    by (auto simp: dec_wf_def)
  obtain c cs where ds: "ds = c # cs" using w(3) by (cases ds) auto
  then have "dec_digit c" using w(4) by simp
  then have c: "c \<noteq> CHR ''-''" "c \<noteq> CHR ''+''" using not_digit by auto
  have "cutDigits ds = (ds, [])" using cutDigits_append[OF w(4), of "[]"] by simp
  then show ?thesis using w c ds Some x by (auto simp: exp_text_def has_prefix_def)
qed (simp add: exp_text_def)

lemma dec_text_parses:
  assumes "dec_wf d" shows "parseNumber (dec_text d) \<noteq> None"
proof -
  let ?w = "d_whole d" and ?f = "d_frac d"
  define s1 where "s1 = (if ?f = [] then [] else ''.'' @ ?f) @ exp_text d"
  have dig: "list_all dec_digit ?w" "list_all dec_digit ?f" "?w \<noteq> []" using assms by (auto simp: dec_wf_def)
  have head: "exp_text d = [] \<or> \<not> dec_digit (hd (exp_text d))" using dec_exp_head[OF assms] not_digit by auto
  have cutw: "cutDigits (?w @ s1) = (?w, s1)"
    using cutDigits_append[OF dig(1), of s1] head by (auto simp: s1_def not_digit)
  have point: "has_prefix s1 ''.'' \<longleftrightarrow> ?f \<noteq> []"
    using dec_exp_head[OF assms] by (cases "exp_text d") (auto simp: s1_def has_prefix_def)
  have cutf: "?f \<noteq> [] \<Longrightarrow> cutDigits (tl s1) = (?f, exp_text d)"
    using cutDigits_append[OF dig(2) head] by (simp add: s1_def)
  have sign: "d_sign d \<in> {[], ''-'', ''+''}" using assms by (simp add: dec_wf_def)
  obtain c cs where w: "?w = c # cs" using dig(3) by (cases ?w) auto
  then have "dec_digit c" using dig(1) by simp
  then have c: "c \<noteq> CHR ''-''" "c \<noteq> CHR ''+''" using not_digit by auto
  have whole: "dec_text d = d_sign d @ ?w @ s1" by (simp add: dec_text_def s1_def)
  obtain x where "parseExponent (exp_text d) = Some x" using dec_exp_parses[OF assms] by auto
  then show ?thesis
    using sign c w cutw cutf point dig(3)
    unfolding parseNumber_def whole by (auto simp: Let_def s1_def)
qed

lemma json_num_parses: "json_num s = Some (t, rest) \<Longrightarrow> parseNumber t \<noteq> None"
  using json_num_text dec_text_parses by blast

lemma isJSONNumber_parses: "isJSONNumber s \<Longrightarrow> parseNumber s \<noteq> None"
  using json_num_parses[of "skip_space s"]
  by (auto simp: isJSONNumber_def json_read_def Let_def split: option.splits mjson.splits if_split_asm prod.splits)

section \<open>What the operators mean\<close>

definition sent_values :: "string list option \<Rightarrow> string list" where
  "sent_values got = (case got of None \<Rightarrow> [] | Some vs \<Rightarrow> vs)"

definition number_holds :: "numberRelation \<Rightarrow> string list \<Rightarrow> string list option \<Rightarrow> bool" where
  "number_holds rel vs got \<longleftrightarrow> (\<exists>v n w. v \<in> set (sent_values got) \<and> parseNumber v = Some n \<and>
     parseNumber (hd vs) = Some w \<and> rel_holds rel (number_cmp n w))"

fun op_holds :: "(string \<Rightarrow> (string \<Rightarrow> bool) option) \<Rightarrow> MockMatchOp \<Rightarrow> string list \<Rightarrow> string list option \<Rightarrow> bool" where
  "op_holds rx MockOpExact vs got = (got = Some vs)"
| "op_holds rx MockOpPrefix vs got = (\<exists>t. hd vs @ t \<in> set (sent_values got))"
| "op_holds rx MockOpContains vs got = (\<exists>a b. a @ hd vs @ b \<in> set (sent_values got))"
| "op_holds rx MockOpRegex vs got = (\<exists>v re. v \<in> set (sent_values got) \<and> rx (hd vs) = Some re \<and> re v)"
| "op_holds rx MockOpOneOf vs got = (set (sent_values got) \<inter> set vs \<noteq> {})"
| "op_holds rx MockOpPresent vs got = (sent_values got \<noteq> [])"
| "op_holds rx MockOpAbsent vs got = (sent_values got = [])"
| "op_holds rx MockOpGT vs got = number_holds relGT vs got"
| "op_holds rx MockOpGTE vs got = number_holds relGTE vs got"
| "op_holds rx MockOpLT vs got = number_holds relLT vs got"
| "op_holds rx MockOpLTE vs got = number_holds relLTE vs got"
| "op_holds rx MockOpUnknown vs got = False"

definition rule_ok :: "(string \<Rightarrow> (string \<Rightarrow> bool) option) \<Rightarrow> MockMatchOp list \<Rightarrow> MockRule \<Rightarrow> bool" where
  "rule_ok rx ops r \<longleftrightarrow> mr_op r \<in> set ops \<and> (case mr_op r of
       MockOpUnknown \<Rightarrow> False
     | MockOpExact \<Rightarrow> mr_values r \<noteq> []
     | MockOpOneOf \<Rightarrow> mr_values r \<noteq> []
     | MockOpPresent \<Rightarrow> mr_values r = []
     | MockOpAbsent \<Rightarrow> mr_values r = []
     | MockOpPrefix \<Rightarrow> (\<exists>p. p \<noteq> [] \<and> mr_values r = [p])
     | MockOpContains \<Rightarrow> (\<exists>p. p \<noteq> [] \<and> mr_values r = [p])
     | MockOpRegex \<Rightarrow> (\<exists>p. p \<noteq> [] \<and> mr_values r = [p] \<and> rx p \<noteq> None)
     | _ \<Rightarrow> (\<exists>p. mr_values r = [p] \<and> isJSONNumber p))"

lemma one_value: "(length vs = Suc 0 \<and> P (vs ! 0)) \<longleftrightarrow> (\<exists>p. vs = [p] \<and> P p)"
  by (cases vs; cases "tl vs") auto

lemma rule_check_ok: "rule_check rx ops r = None \<longleftrightarrow> rule_ok rx ops r"
  using one_value[of "mr_values r" "\<lambda>p. p \<noteq> []"] one_value[of "mr_values r" isJSONNumber]
  by (cases "mr_op r"; cases "mr_values r")
    (auto simp: rule_check_def rule_ok_def ops_spec_def spec_check_def spec_verify_def Let_def)

lemma check_no_panic: "rule_check rx ops r \<noteq> Some IndexPanic"
  by (cases "mr_op r"; cases "mr_values r")
    (auto simp: rule_check_def ops_spec_def spec_check_def spec_verify_def Let_def)

lemma header_check_rule:
  "header_check rx okValue r = None \<longleftrightarrow> rule_ok rx mockHeaderOps r \<and> list_all okValue (mr_values r)"
  "header_check rx okValue r \<noteq> Some IndexPanic"
  using rule_check_ok[of rx mockHeaderOps r] check_no_panic[of rx mockHeaderOps r]
    find_None_iff[of "\<lambda>v. \<not> okValue v" "mr_values r"]
  by (auto simp: header_check_def rule_check_def list_all_iff split: option.splits)

lemma anyValue_sent: "anyValue test got \<longleftrightarrow> (\<exists>v \<in> set (sent_values got). test v)"
  by (auto simp: anyValue_def sent_values_def list_ex_iff split: option.splits)

lemma anyNumber_holds: "isJSONNumber p \<Longrightarrow> anyNumber rel p got \<longleftrightarrow> number_holds rel [p] got"
  using isJSONNumber_parses[of p] by (auto simp: anyNumber_def number_holds_def anyValue_sent Let_def split: option.splits)

lemma anyNumber_fun: "isJSONNumber p \<Longrightarrow> anyNumber rel p = number_holds rel [p]"
  using anyNumber_holds by blast

lemma predicate_funs:
  "exactValues vs = op_holds rx MockOpExact vs"
  "anyPrefix p = op_holds rx MockOpPrefix [p]"
  "anyContains p = op_holds rx MockOpContains [p]"
  "anyOneOf vs = op_holds rx MockOpOneOf vs"
  "valuePresent = op_holds rx MockOpPresent vs"
  "valueAbsent = op_holds rx MockOpAbsent vs"
  "rx p = Some re \<Longrightarrow> anyValue re = op_holds rx MockOpRegex [p]"
  by (rule ext, force simp: anyValue_sent anyPrefix_def anyContains_def anyOneOf_def exactValues_def
      valuePresent_def valueAbsent_def has_prefix_append str_contains_iff sent_values_def split: option.splits)+

lemma compileRule_ok:
  assumes "rule_ok rx ops r"
  shows "compileRule rx (mr_op r) (mr_values r) = Inr (op_holds rx (mr_op r) (mr_values r))"
proof (cases "mr_op r = MockOpRegex")
  case True
  with assms obtain p re where "mr_values r = [p]" "rx p = Some re" by (auto simp: rule_ok_def)
  with True predicate_funs(7)[of rx p re] show ?thesis by (simp add: with_first_def anyRegex_def)
next
  case False
  with assms show ?thesis
    by (cases "mr_op r")
      (auto simp: rule_ok_def with_first_def predicate_funs(1-6)[symmetric] anyNumber_fun fun_eq_iff
        simp del: op_holds.simps(1-7))
qed

lemma compileQueryRule_Inl: "compileQueryRule rx r = Inl e \<Longrightarrow> \<not> rule_ok rx mockQueryOps r \<and> e \<noteq> IndexPanic"
  using compileRule_ok[of rx mockQueryOps r] rule_check_ok[of rx mockQueryOps r] check_no_panic[of rx mockQueryOps r]
  by (auto simp: compileQueryRule_def query_check_def split: option.splits)

lemma compileQueryRule_Inr: "compileQueryRule rx r = Inr (kept, match) \<Longrightarrow>
    rule_ok rx mockQueryOps r \<and> kept = r \<and> match = op_holds rx (mr_op r) (mr_values r)"
  using compileRule_ok[of rx mockQueryOps r] rule_check_ok[of rx mockQueryOps r]
  by (auto simp: compileQueryRule_def query_check_def split: option.splits)

lemma compileHeaderRule_Inr: "compileHeaderRule rx okValue r = Inr (kept, match) \<Longrightarrow>
    rule_ok rx mockHeaderOps r \<and> list_all okValue (mr_values r) \<and> kept = r \<and>
    match = op_holds rx (mr_op r) (mr_values r)"
  using compileRule_ok[of rx mockHeaderOps r] header_check_rule[of rx okValue r]
  by (auto simp: compileHeaderRule_def split: option.splits)

section \<open>What rule sets mean\<close>

lemma compile_loop_Inr:
  "compile_loop kind canon compile out src = Inr rs \<Longrightarrow> distinct (map ru_name out) \<Longrightarrow>
    \<exists>new. rs = out @ new \<and> distinct (map ru_name rs) \<and>
      list_all2 (\<lambda>kr x. canon (fst kr) = Inr (ru_name x) \<and> compile (snd kr) = Inr (ru_rule x, ru_match x)) src new"
proof (induction src arbitrary: out)
  case (Cons kr src)
  obtain key r where e: "kr = (key, r)" by (cases kr)
  from Cons.prems(1) e obtain name kept match where c: "canon key = Inr name" "compile r = Inr (kept, match)"
    "\<not> list_ex (\<lambda>x. ru_name x = name) out"
    "compile_loop kind canon compile (out @ [\<lparr>ru_name = name, ru_rule = kept, ru_match = match\<rparr>]) src = Inr rs"
    by (auto split: sum.splits if_splits)
  let ?x = "\<lparr>ru_name = name, ru_rule = kept, ru_match = match\<rparr>"
  have "distinct (map ru_name (out @ [?x]))" using Cons.prems(2) c(3) by (auto simp: list_ex_iff)
  from Cons.IH[OF c(4) this] obtain new where
    "rs = (out @ [?x]) @ new" "distinct (map ru_name rs)"
    "list_all2 (\<lambda>kr x. canon (fst kr) = Inr (ru_name x) \<and> compile (snd kr) = Inr (ru_rule x, ru_match x)) src new"
    by blast
  then show ?case using c e by (intro exI[of _ "?x # new"]) simp
qed simp

lemma compile_loop_Inl:
  "compile_loop kind canon compile out src = Inl e \<Longrightarrow>
    (\<exists>kr \<in> set src. canon (fst kr) = Inl e \<or> (\<exists>n ce. compile (snd kr) = Inl ce \<and> e = RuleErr kind n ce)) \<or>
    (\<exists>n. e = RepeatedCasing kind n) \<and> \<not> distinct (map (Inr \<circ> ru_name) out @ map (canon \<circ> fst) src)"
proof (induction src arbitrary: out)
  case (Cons kr src)
  obtain key r where e: "kr = (key, r)" by (cases kr)
  show ?case
  proof (cases "\<exists>name kept match. canon key = Inr name \<and> compile r = Inr (kept, match) \<and> name \<notin> ru_name ` set out")
    case True
    then obtain name kept match where c: "canon key = Inr name" "compile r = Inr (kept, match)"
      "name \<notin> ru_name ` set out" by blast
    let ?x = "\<lparr>ru_name = name, ru_rule = kept, ru_match = match\<rparr>"
    have "compile_loop kind canon compile (out @ [?x]) src = Inl e" using Cons.prems c e by (force simp: list_ex_iff image_iff split: if_split_asm)
    from Cons.IH[OF this] show ?thesis using c(1) e by auto
  next
    case False
    with Cons.prems e show ?thesis by (auto simp: list_ex_iff image_iff split: sum.splits if_splits)
  qed
qed simp

lemma smap_put_last: "\<forall>x \<in> fst ` set m. x < k \<Longrightarrow> smap_put k v m = m @ [(k, v)]"
proof (induction m)
  case (Cons e m)
  obtain k' v' where e: "e = (k', v')" by (cases e)
  with Cons.prems have "k' < k" by simp
  then have "k \<noteq> k'" "\<not> k < k'" by auto
  with Cons e show ?case by simp
qed simp

lemma foldl_put_sorted: "smap_ok (acc @ xs) \<Longrightarrow> foldl (\<lambda>m (k, v). smap_put k v m) acc xs = acc @ xs"
proof (induction xs arbitrary: acc)
  case (Cons kv xs)
  obtain k v where e: "kv = (k, v)" by (cases kv)
  have "\<forall>x \<in> fst ` set acc. x < k" using Cons.prems e by (auto simp: smap_ok_def sorted_wrt_append)
  with Cons.IH[of "acc @ [kv]"] Cons.prems e smap_put_last[of acc k v] show ?case by simp
qed simp

lemma declared_sorted: "smap_ok src \<Longrightarrow> map (\<lambda>x. (ru_name x, ru_rule x)) rs = src \<Longrightarrow> declared rs = src"
  using foldl_put_sorted[of "[]" src]
  by (auto simp: declared_def foldl_map)

definition is_panic :: "matchErr \<Rightarrow> bool" where
  "is_panic e = (case e of RuleErr _ _ ce \<Rightarrow> ce = IndexPanic | _ \<Rightarrow> False)"

lemma canonQueryName_Inl: "canonQueryName key = Inl e \<Longrightarrow> trim_white key = [] \<and> e = QueryNameEmpty"
  by (auto simp: canonQueryName_def split: if_split_asm)

lemma canonQueryName_names: "smap_ok src \<Longrightarrow> distinct (map (canonQueryName \<circ> fst) src) \<or>
    (\<exists>kr \<in> set src. trim_white (fst kr) = [])"
  by (auto simp: smap_ok_def strict_sorted_iff canonQueryName_def distinct_map inj_on_def)

text \<open>
  C31: the query conditions of a mock compile exactly when every name is more than white space and every operand fits
  its operator, never by an index out of range; the compiled set then says yes to a request exactly when every
  condition holds of the values sent under its name (a condition with several values sent asks for one that fits,
  \<open>exact\<close> for all of them in order), and the rules read back are the rules declared.
\<close>

theorem mock_query_rules_mean:
  assumes "smap_ok src"
  shows "case compileQueryRules rx src of
     Inl e \<Rightarrow> list_ex (\<lambda>(key, r). trim_white key = [] \<or> \<not> rule_ok rx mockQueryOps r) src \<and> \<not> is_panic e
   | Inr rs \<Rightarrow> list_all (\<lambda>(key, r). trim_white key \<noteq> [] \<and> rule_ok rx mockQueryOps r) src \<and> declared rs = src \<and>
       (rules_match rs (queryLookup q) \<longleftrightarrow> list_all (\<lambda>(key, r). op_holds rx (mr_op r) (mr_values r) (q key)) src)"
proof (cases "compileQueryRules rx src")
  case (Inl e)
  note l = compile_loop_Inl[OF Inl[unfolded compileQueryRules_def compileRules_def]]
  have "(\<exists>kr \<in> set src. canonQueryName (fst kr) = Inl e \<or>
      (\<exists>n ce. compileQueryRule rx (snd kr) = Inl ce \<and> e = RuleErr ''query'' n ce)) \<or>
    (\<exists>n. e = RepeatedCasing ''query'' n) \<and> (\<exists>kr \<in> set src. trim_white (fst kr) = [])"
    using l canonQueryName_names[OF assms] by auto
  then have "(\<exists>kr \<in> set src. trim_white (fst kr) = [] \<or> \<not> rule_ok rx mockQueryOps (snd kr)) \<and> \<not> is_panic e"
    by (auto simp: is_panic_def dest: compileQueryRule_Inl canonQueryName_Inl)
  with Inl show ?thesis by (auto simp: list_ex_iff)
next
  case (Inr rs)
  from compile_loop_Inr[OF Inr[unfolded compileQueryRules_def compileRules_def]] have
    l: "list_all2 (\<lambda>kr x. canonQueryName (fst kr) = Inr (ru_name x) \<and>
      compileQueryRule rx (snd kr) = Inr (ru_rule x, ru_match x)) src rs" by simp
  have "list_all2 (\<lambda>kr x. trim_white (fst kr) \<noteq> [] \<and> rule_ok rx mockQueryOps (snd kr) \<and> ru_name x = fst kr \<and>
      ru_rule x = snd kr \<and> ru_match x = op_holds rx (mr_op (snd kr)) (mr_values (snd kr))) src rs"
    using l by (rule list_all2_mono)
      (auto simp: canonQueryName_def split: if_split_asm dest: compileQueryRule_Inr)
  then have f: "list_all (\<lambda>kr. trim_white (fst kr) \<noteq> [] \<and> rule_ok rx mockQueryOps (snd kr)) src \<and>
      map (\<lambda>x. (ru_name x, ru_rule x)) rs = src \<and>
      (rules_match rs (queryLookup q) \<longleftrightarrow> list_all (\<lambda>kr. op_holds rx (mr_op (snd kr)) (mr_values (snd kr)) (q (fst kr))) src)"
    by (induction rule: list_all2_induct) (auto simp: rules_match_def queryLookup_def)
  with declared_sorted[OF assms, of rs] Inr show ?thesis by (simp add: case_prod_unfold)
qed

theorem mock_query_rules_mean_witness:
  "let src = [(''n'', \<lparr>mr_op = MockOpGTE, mr_values = [''1e1'']\<rparr>), (''tag'', \<lparr>mr_op = MockOpPrefix, mr_values = [''v'']\<rparr>)] in
   case compileQueryRules (\<lambda>_. None) src of
     Inl e \<Rightarrow> False
   | Inr rs \<Rightarrow> declared rs = src \<and>
       rules_match rs (queryLookup [''n'' \<mapsto> [''9'', ''10.0''], ''tag'' \<mapsto> [''v2'']])"
proof -
  let ?src = "[(''n'', \<lparr>mr_op = MockOpGTE, mr_values = [''1e1'']\<rparr>), (''tag'', \<lparr>mr_op = MockOpPrefix, mr_values = [''v'']\<rparr>)]"
  let ?q = "[''n'' \<mapsto> [''9'', ''10.0''], ''tag'' \<mapsto> [''v2'']]"
  have ok: "smap_ok ?src" by code_simp
  have "isJSONNumber ''1e1''" "trim_white ''n'' \<noteq> []" "trim_white ''tag'' \<noteq> []" by code_simp+
  then have "\<not> list_ex (\<lambda>(key, r). trim_white key = [] \<or> \<not> rule_ok (\<lambda>_. None) mockQueryOps r) ?src"
    by (simp add: rule_ok_def mockQueryOps_def)
  moreover have "list_ex (\<lambda>v. case parseNumber v of None \<Rightarrow> False
      | Some n \<Rightarrow> (case parseNumber ''1e1'' of None \<Rightarrow> False | Some w \<Rightarrow> rel_holds relGTE (number_cmp n w))) [''9'', ''10.0'']"
    by code_simp
  then have "number_holds relGTE [''1e1''] (Some [''9'', ''10.0''])"
    by (auto simp: number_holds_def sent_values_def split: option.splits)
  then have "list_all (\<lambda>(key, r). op_holds (\<lambda>_. None) (mr_op r) (mr_values r) (?q key)) ?src"
    by (auto simp: sent_values_def)
  ultimately show ?thesis
    using mock_query_rules_mean[OF ok, of "\<lambda>_. None" ?q] by (auto simp: Let_def split: sum.splits)
qed

section \<open>Header names without case\<close>

lemma ascii_runes: "list_all (\<lambda>c. byte_val c < 128) s \<Longrightarrow> map snd (runes_from i s) = map byte_val s"
proof (induction s arbitrary: i)
  case (Cons c s)
  then have "decode_rune (c # s) = (byte_val c, 1)" by simp
  with Cons show ?case by (simp add: runes_from.simps[of i "c # s"])
qed (simp add: runes_from.simps)

lemma byte_val_inj: "byte_val c = byte_val d \<longleftrightarrow> c = d"
  by (simp add: byte_val_def)

lemma byte_val_char_of: "0 \<le> n \<Longrightarrow> n < 256 \<Longrightarrow> byte_val (char_of (n :: int)) = n"
  by (simp add: byte_val_def)

lemma byte_val_lower: "byte_val (lower_byte c) = (if 65 \<le> byte_val c \<and> byte_val c \<le> 90 then byte_val c + 32 else byte_val c)"
proof -
  have nat: "byte_val d = int (of_char d)" for d
    by (simp add: byte_val_def of_char_def of_nat_of_bool horner_sum_eq_sum_funpow)
  have "byte_val (char_of (of_char c + 32 :: nat)) = (byte_val c + 32) mod 256"
    by (simp add: nat zmod_int)
  then show ?thesis using byte_val_bounds[of c] by (auto simp: lower_byte_def in_range_val byte_val_def[of "CHR ''A''"] byte_val_def[of "CHR ''Z''"])
qed

lemma byte_val_upper: "byte_val (upper_byte c) = (if 97 \<le> byte_val c \<and> byte_val c \<le> 122 then byte_val c - 32 else byte_val c)"
  using byte_val_bounds[of c] by (auto simp: upper_byte_def in_range_val byte_val_def[of "CHR ''a''"] byte_val_def[of "CHR ''z''"] byte_val_char_of)

lemma byte_cases:
  "lower_byte (upper_byte c) = lower_byte c" "lower_byte (lower_byte c) = lower_byte c"
  "upper_byte c = upper_byte d \<longleftrightarrow> lower_byte c = lower_byte d"
  "lower_byte c = CHR ''-'' \<longleftrightarrow> c = CHR ''-''"
  unfolding byte_val_inj[symmetric] byte_val_lower byte_val_upper by (auto simp: byte_val_def[of "CHR ''-''"])

lemma token_ascii: "token_byte c \<Longrightarrow> byte_val c < 128"
  by (auto simp: token_byte_def in_range_val byte_val_def)

lemma token_letter: "65 \<le> byte_val c \<and> byte_val c \<le> 90 \<or> 97 \<le> byte_val c \<and> byte_val c \<le> 122 \<Longrightarrow> token_byte c"
  by (auto simp: token_byte_def in_range_val byte_val_def[of "CHR ''A''"] byte_val_def[of "CHR ''Z''"]
    byte_val_def[of "CHR ''a''"] byte_val_def[of "CHR ''z''"])

lemma token_case: "token_byte (lower_byte c) = token_byte c" "token_byte (upper_byte c) = token_byte c"
proof -
  have "lower_byte c = c \<or> token_byte c \<and> token_byte (lower_byte c)"
    using token_letter[of c] token_letter[of "lower_byte c"] byte_val_lower[of c] byte_val_inj[of "lower_byte c" c]
    by (auto split: if_splits)
  then show "token_byte (lower_byte c) = token_byte c" by metis
  have "upper_byte c = c \<or> token_byte c \<and> token_byte (upper_byte c)"
    using token_letter[of c] token_letter[of "upper_byte c"] byte_val_upper[of c] byte_val_inj[of "upper_byte c" c]
    by (auto split: if_splits)
  then show "token_byte (upper_byte c) = token_byte c" by metis
qed

lemma canon_bytes_eq: "canon_bytes u s = canon_bytes u t \<longleftrightarrow> to_lower s = to_lower t"
proof (induction s arbitrary: u t)
  case Nil
  then show ?case by (cases t) (auto simp: to_lower_def)
next
  case (Cons c s)
  show ?case
  proof (cases t)
    case (Cons d t')
    have "lower_byte c = lower_byte d \<Longrightarrow> c = CHR ''-'' \<longleftrightarrow> d = CHR ''-''" by (metis byte_cases(4))
    then show ?thesis using Cons Cons.IH[of "c = CHR ''-''" t'] by (auto simp: to_lower_def byte_cases)
  qed (simp add: to_lower_def)
qed

lemma canon_bytes_lower: "to_lower (canon_bytes u s) = to_lower s"
  by (induction s arbitrary: u) (simp_all add: to_lower_def byte_cases)

lemma canon_bytes_token: "list_all token_byte (canon_bytes u s) = list_all token_byte s"
  by (induction s arbitrary: u) (simp_all add: token_case)

lemma CanonicalHeaderKey_eq:
  "list_all token_byte s \<Longrightarrow> list_all token_byte t \<Longrightarrow>
    CanonicalHeaderKey s = CanonicalHeaderKey t \<longleftrightarrow> to_lower s = to_lower t"
  by (simp add: CanonicalHeaderKey_def canon_bytes_eq)

lemma CanonicalHeaderKey_lower: "to_lower (CanonicalHeaderKey s) = to_lower s"
  by (simp add: CanonicalHeaderKey_def canon_bytes_lower)

lemma CanonicalHeaderKey_token: "list_all token_byte (CanonicalHeaderKey s) = list_all token_byte s"
  by (simp add: CanonicalHeaderKey_def canon_bytes_token)

lemma fold_rune_lower: "byte_val c < 128 \<Longrightarrow> fold_rune (byte_val c) = byte_val (lower_byte c)"
  unfolding byte_val_lower fold_rune_def by auto

lemma equal_fold_ascii:
  assumes "list_all (\<lambda>c. byte_val c < 128) s" "list_all (\<lambda>c. byte_val c < 128) t"
  shows "equal_fold s t \<longleftrightarrow> to_lower s = to_lower t"
proof -
  have m: "map (fold_rune \<circ> snd) (runes_from 0 x) = map byte_val (to_lower x)"
    if "list_all (\<lambda>c. byte_val c < 128) x" for x
  proof -
    have "map (fold_rune \<circ> snd) (runes_from 0 x) = map fold_rune (map byte_val x)"
      using ascii_runes[OF that, of 0] by (metis map_map)
    then show ?thesis using that by (simp add: to_lower_def fold_rune_lower list_all_iff)
  qed
  have "inj byte_val" by (auto simp: inj_def byte_val_inj)
  then show ?thesis unfolding equal_fold_def m[OF assms(1)] m[OF assms(2)] by (simp add: inj_map_eq_map)
qed

lemma token_fold: "list_all token_byte s \<Longrightarrow> list_all (\<lambda>c. byte_val c < 128) t \<Longrightarrow> equal_fold s t \<longleftrightarrow> to_lower s = to_lower t"
  by (rule equal_fold_ascii) (auto simp: list_all_iff token_ascii)

text \<open>
  The header lines of a request as \<open>net/http\<close> files them, and the values sent under a name without regard to
  case. \<open>Host\<close> is never among the filed lines.
\<close>

definition filed_headers :: "(string \<times> string) list \<Rightarrow> string \<Rightarrow> string list option" where
  "filed_headers lines name =
     (let vs = map snd (filter (\<lambda>nv. CanonicalHeaderKey (fst nv) = name) lines) in if vs = [] then None else Some vs)"

definition header_sent :: "string \<Rightarrow> (string \<times> string) list \<Rightarrow> string \<Rightarrow> string list option" where
  "header_sent host lines name =
     (if to_lower name = ''host'' then (if host = [] then None else Some [host])
      else let vs = map snd (filter (\<lambda>nv. to_lower (fst nv) = to_lower name) lines) in if vs = [] then None else Some vs)"

lemma fixed_names:
  "to_lower ''Host'' = ''host''" "to_lower selectorNameHeader = ''x-resterm-mock''"
  "to_lower selectorStatusHeader = ''x-resterm-mock-status''"
  "list_all (\<lambda>c. byte_val c < 128) ''Host''" "list_all (\<lambda>c. byte_val c < 128) selectorNameHeader"
  "list_all (\<lambda>c. byte_val c < 128) selectorStatusHeader"
  by code_simp+

lemma headerLookup_sent:
  assumes "list_all (\<lambda>nv. list_all token_byte (fst nv)) lines" "list_all token_byte name"
  shows "headerLookup (filed_headers lines) host (CanonicalHeaderKey name) = header_sent host lines name"
proof -
  have "equal_fold (CanonicalHeaderKey name) ''Host'' \<longleftrightarrow> to_lower name = ''host''"
    using token_fold[OF _ fixed_names(4), of "CanonicalHeaderKey name"] assms(2) fixed_names(1)
    by (simp add: CanonicalHeaderKey_token CanonicalHeaderKey_lower)
  moreover have "filter (\<lambda>nv. CanonicalHeaderKey (fst nv) = CanonicalHeaderKey (CanonicalHeaderKey name)) lines =
      filter (\<lambda>nv. to_lower (fst nv) = to_lower name) lines"
  proof (rule filter_cong[OF refl])
    fix nv assume "nv \<in> set lines"
    then have "list_all token_byte (fst nv)" using assms(1) by (simp add: list_all_iff)
    then show "(CanonicalHeaderKey (fst nv) = CanonicalHeaderKey (CanonicalHeaderKey name)) = (to_lower (fst nv) = to_lower name)"
      using CanonicalHeaderKey_eq[of "fst nv" "CanonicalHeaderKey name"] assms(2)
      by (simp add: CanonicalHeaderKey_token CanonicalHeaderKey_lower)
  qed
  ultimately show ?thesis
    by (simp add: headerLookup_def headerOrHost_def header_sent_def header_values_def filed_headers_def)
qed

lemma isSelectorHeader_token:
  "list_all token_byte name \<Longrightarrow> isSelectorHeader name \<longleftrightarrow> to_lower name \<in> {''x-resterm-mock'', ''x-resterm-mock-status''}"
  using token_fold[OF _ fixed_names(5)] token_fold[OF _ fixed_names(6)] fixed_names(2,3)
  by (auto simp: isSelectorHeader_def)

lemma canonMatchHeaderName_Inr:
  assumes "canonMatchHeaderName okName key = Inr name" "\<And>s. okName s \<Longrightarrow> list_all token_byte s"
  shows "list_all token_byte (trim_white key) \<and> name = CanonicalHeaderKey (trim_white key) \<and>
    to_lower (trim_white key) \<notin> {''x-resterm-mock'', ''x-resterm-mock-status''}"
  using assms(1) assms(2)[of "trim_white key"] isSelectorHeader_token[of "CanonicalHeaderKey (trim_white key)"]
  by (auto simp: canonMatchHeaderName_def canonHeaderName_def Let_def CanonicalHeaderKey_token CanonicalHeaderKey_lower
      split: if_split_asm)

text \<open>
  Header conditions do not depend on case: in a block that compiles no two names differ only in case, none is a
  header that selects a scenario, every operand fits its operator, and the block says yes exactly when every
  condition holds of the values of all the header lines sent under its name in any case, \<open>Host\<close> being the host of
  the request. \<open>httpguts\<close> is taken to accept only texts of token characters.
\<close>

theorem mock_header_rules_mean:
  assumes "\<And>s. okName s \<Longrightarrow> list_all token_byte s"
    and "list_all (\<lambda>nv. list_all token_byte (fst nv)) lines"
    and "compileMatchHeaders rx okName okValue src = Inr rs"
  shows "distinct (map (to_lower \<circ> trim_white \<circ> fst) src) \<and>
    list_all (\<lambda>(key, r). to_lower (trim_white key) \<notin> {''x-resterm-mock'', ''x-resterm-mock-status''} \<and>
      rule_ok rx mockHeaderOps r \<and> list_all okValue (mr_values r)) src \<and>
    (rules_match rs (headerLookup (filed_headers lines) host) \<longleftrightarrow>
      list_all (\<lambda>(key, r). op_holds rx (mr_op r) (mr_values r) (header_sent host lines (trim_white key))) src)"
proof -
  from compile_loop_Inr[OF assms(3)[unfolded compileMatchHeaders_def compileRules_def]] have
    d: "distinct (map ru_name rs)" and
    l: "list_all2 (\<lambda>kr x. canonMatchHeaderName okName (fst kr) = Inr (ru_name x) \<and>
      compileHeaderRule rx okValue (snd kr) = Inr (ru_rule x, ru_match x)) src rs" by simp_all
  have "list_all2 (\<lambda>kr x. list_all token_byte (trim_white (fst kr)) \<and>
      ru_name x = CanonicalHeaderKey (trim_white (fst kr)) \<and>
      to_lower (trim_white (fst kr)) \<notin> {''x-resterm-mock'', ''x-resterm-mock-status''} \<and>
      rule_ok rx mockHeaderOps (snd kr) \<and> list_all okValue (mr_values (snd kr)) \<and>
      ru_match x = op_holds rx (mr_op (snd kr)) (mr_values (snd kr))) src rs"
    by (rule list_all2_mono[OF l])
      (auto dest!: compileHeaderRule_Inr dest: canonMatchHeaderName_Inr[OF _ assms(1)])
  then have f: "list_all (\<lambda>kr. list_all token_byte (trim_white (fst kr)) \<and>
      to_lower (trim_white (fst kr)) \<notin> {''x-resterm-mock'', ''x-resterm-mock-status''} \<and>
      rule_ok rx mockHeaderOps (snd kr) \<and> list_all okValue (mr_values (snd kr))) src \<and>
    map ru_name rs = map (\<lambda>kr. CanonicalHeaderKey (trim_white (fst kr))) src \<and>
    (rules_match rs (headerLookup (filed_headers lines) host) \<longleftrightarrow> list_all (\<lambda>kr. op_holds rx (mr_op (snd kr))
      (mr_values (snd kr)) (header_sent host lines (trim_white (fst kr)))) src)"
    by (induction rule: list_all2_induct)
      (auto simp: rules_match_def headerLookup_sent[OF assms(2)])
  moreover have "distinct (map (to_lower \<circ> trim_white \<circ> fst) src)"
    using d f by (fastforce simp: distinct_map inj_on_def list_all_iff CanonicalHeaderKey_eq)
  ultimately show ?thesis by (simp add: case_prod_unfold list_all_iff)
qed

theorem mock_header_rules_mean_witness:
  "rules_match [\<lparr>ru_name = ''X-Tenant'', ru_rule = \<lparr>mr_op = MockOpOneOf, mr_values = [''a'', ''b'']\<rparr>,
      ru_match = op_holds (\<lambda>_. None) MockOpOneOf [''a'', ''b'']\<rparr>]
    (headerLookup (filed_headers [(''x-tenant'', ''c''), (''X-TENANT'', ''b'')]) ''host'')"
proof -
  let ?r = "\<lparr>mr_op = MockOpOneOf, mr_values = [''a'', ''b'']\<rparr>"
  have name: "canonMatchHeaderName (list_all token_byte) '' x-tenant '' = Inr ''X-Tenant''" by code_simp
  have "rule_ok (\<lambda>_. None) mockHeaderOps ?r" by (simp add: rule_ok_def mockHeaderOps_def)
  then have "header_check (\<lambda>_. None) (\<lambda>_. True) ?r = None" by (simp add: header_check_rule)
  then have "compileHeaderRule (\<lambda>_. None) (\<lambda>_. True) ?r = Inr (?r, op_holds (\<lambda>_. None) MockOpOneOf [''a'', ''b''])"
    by (simp add: compileHeaderRule_def predicate_funs(4)[of _ "\<lambda>_. None"] del: op_holds.simps)
  then have c: "compileMatchHeaders (\<lambda>_. None) (list_all token_byte) (\<lambda>_. True) [('' x-tenant '', ?r)] =
      Inr [\<lparr>ru_name = ''X-Tenant'', ru_rule = ?r, ru_match = op_holds (\<lambda>_. None) MockOpOneOf [''a'', ''b'']\<rparr>]"
    by (simp add: compileMatchHeaders_def compileRules_def name)
  have lines: "list_all (\<lambda>nv. list_all token_byte (fst nv)) [(''x-tenant'', ''c''), (''X-TENANT'', ''b'')]" by code_simp
  have "header_sent ''host'' [(''x-tenant'', ''c''), (''X-TENANT'', ''b'')] (trim_white '' x-tenant '') = Some [''c'', ''b'']"
    by code_simp
  then show ?thesis
    using mock_header_rules_mean[OF _ lines c, of "''host''"] by (simp add: sent_values_def)
qed

end
