(* ===== verification/GoMime.thy ===== *)
theory GoMime
  imports MockRules
begin

text \<open>
  \<open>mime.ParseMediaType\<close>, as far as the sources use its result: the media type, or \<open>None\<close> for an error. The type is
  put into lower case before it is checked. Of the letters outside ASCII only U+0130 and U+212A have an ASCII
  letter as their lower case; a type with any other one is refused whatever it is mapped to.
\<close>

definition lower_rune :: "int \<Rightarrow> int" where
  "lower_rune r = (if 65 \<le> r \<and> r \<le> 90 then r + 32 else if r = 0x130 then 105 else if r = 0x212A then 107 else r)"

definition lower_type :: "string \<Rightarrow> string" where
  "lower_type s = concat (map (encode_rune \<circ> lower_rune \<circ> snd) (runes_from 0 s))"

definition consumeToken :: "string \<Rightarrow> string \<times> string" where
  "consumeToken s = (takeWhile token_byte s, dropWhile token_byte s)"

definition checkMediaType :: "string \<Rightarrow> bool" where
  "checkMediaType s =
     (let (typ, rest) = consumeToken s in
      typ \<noteq> [] \<and> (rest = [] \<or> (hd rest = CHR ''/'' \<and>
        (let (sub, rest1) = consumeToken (tl rest) in sub \<noteq> [] \<and> rest1 = []))))"

definition trim_left :: "string \<Rightarrow> string" where
  "trim_left s = trim_front space_codes s"

text \<open>A quoted value after its opening quote, with what follows it.\<close>

fun quoted_value :: "string \<Rightarrow> (string \<times> string) option" where
  "quoted_value [] = None"
| "quoted_value (c # s) =
     (if c = CHR 0x22 then Some ([], s)
      else if c = CHR 0x5C \<and> s \<noteq> [] \<and> hd s \<in> set ''()<>@,;:/[]?='' \<union> {CHR 0x22, CHR 0x5C} then
        map_option (\<lambda>(v, r). (hd s # v, r)) (case s of [] \<Rightarrow> None | d # t \<Rightarrow> quoted_value t)
      else if c = CHR 0x0D \<or> c = CHR 0x0A then None
      else map_option (\<lambda>(v, r). (c # v, r)) (quoted_value s))"

definition consumeValue :: "string \<Rightarrow> string \<times> string" where
  "consumeValue v =
     (if v = [] then ([], [])
      else if hd v \<noteq> CHR 0x22 then consumeToken v
      else case quoted_value (tl v) of None \<Rightarrow> ([], v) | Some (x, rest) \<Rightarrow> (x, rest))"

text \<open>One parameter, its name in lower case, and the rest; \<open>None\<close> for an empty name in the source.\<close>

definition consumeMediaParam :: "string \<Rightarrow> (string \<times> string \<times> string) option" where
  "consumeMediaParam v =
     (let rest = trim_left v in
      if \<not> has_prefix rest '';'' then None
      else let (param, rest1) = consumeToken (trim_left (tl rest)) in
        if param = [] then None
        else let rest2 = trim_left rest1 in
          if \<not> has_prefix rest2 ''='' then None
          else let rest3 = trim_left (tl rest2); (value, rest4) = consumeValue rest3 in
            if value = [] \<and> rest4 = rest3 then None else Some (to_lower param, value, rest4))"

lemma trim_left_le: "length (trim_left s) \<le> length s"
proof -
  obtain cs where "s = concat cs @ trim_left s"
    using trim_front_spec[of space_codes s] space_codes_ne(1) by (auto simp: trim_left_def)
  then show ?thesis by (metis length_append le_add2)
qed

lemma consumeToken_le: "length (snd (consumeToken s)) \<le> length s"
  by (simp add: consumeToken_def length_dropWhile_le)

lemma quoted_value_le: "quoted_value s = Some (v, rest) \<Longrightarrow> length rest \<le> length s"
proof (induction s arbitrary: v rest rule: quoted_value.induct)
  case (2 c s)
  show ?case
  proof (cases "c = CHR 0x5C \<and> s \<noteq> [] \<and> hd s \<in> set ''()<>@,;:/[]?='' \<union> {CHR 0x22, CHR 0x5C}")
    case True
    then obtain d t where s: "s = d # t" by (cases s) auto
    show ?thesis
      using 2 s True by (cases "quoted_value t") (fastforce split: if_splits)+
  next
    case False
    then show ?thesis
      using 2 by (cases "quoted_value s") (fastforce split: if_splits)+
  qed
qed simp

lemma consumeMediaParam_less:
  assumes "consumeMediaParam v = Some (k, x, rest)"
  shows "length rest < length v"
proof -
  let ?r = "trim_left v"
  let ?r1 = "snd (consumeToken (trim_left (tl ?r)))"
  let ?r2 = "trim_left ?r1"
  let ?r3 = "trim_left (tl ?r2)"
  from assms have h: "has_prefix ?r '';''" "rest = snd (consumeValue ?r3)"
    by (auto simp: consumeMediaParam_def Let_def split: if_split_asm prod.splits)
  have "length rest \<le> length ?r3"
    using h(2) quoted_value_le consumeToken_le[of ?r3]
    by (cases ?r3) (fastforce simp: consumeValue_def split: if_split_asm option.splits)+
  moreover have "length ?r3 \<le> length ?r2" using trim_left_le[of "tl ?r2"] by simp
  moreover have "length ?r2 \<le> length ?r1" by (rule trim_left_le)
  moreover have "length ?r1 \<le> length (tl ?r)"
    using consumeToken_le[of "trim_left (tl ?r)"] trim_left_le[of "tl ?r"] by linarith
  moreover have "length (tl ?r) < length ?r" using h(1) by (cases ?r) (simp_all add: has_prefix_def)
  moreover have "length ?r \<le> length v" by (rule trim_left_le)
  ultimately show ?thesis by linarith
qed

lemma trimmed_param_less: "consumeMediaParam (trim_left v) = Some (k, x, rest) \<Longrightarrow> length rest < length v"
  using consumeMediaParam_less[of "trim_left v" k x rest] trim_left_le[of v] by linarith

function media_params :: "(string \<times> string) list \<Rightarrow> string \<Rightarrow> bool" where
  "media_params seen v =
     (let v1 = trim_left v in
      if v1 = [] then True
      else case consumeMediaParam v1 of
        None \<Rightarrow> trim_white v1 = '';''
      | Some (k, x, rest) \<Rightarrow>
          (case map_of seen k of
             Some y \<Rightarrow> if y \<noteq> x then False else media_params ((k, x) # seen) rest
           | None \<Rightarrow> media_params ((k, x) # seen) rest))"
  by pat_completeness auto
termination
  by (relation "measure (\<lambda>(seen, v). length v)") (auto dest: trimmed_param_less)

declare media_params.simps [simp del]

definition ParseMediaType :: "string \<Rightarrow> string option" where
  "ParseMediaType v =
     (let base = takeWhile (\<lambda>c. c \<noteq> CHR '';'') v; mt = trim_white (lower_type base) in
      if \<not> checkMediaType mt then None
      else if media_params [] (drop (length base) v) then Some mt else None)"

end
