(* ===== verification/Machines.thy ===== *)
theory Machines
  imports Main
begin

text \<open>
  Components whose operations are functions of a state: running a list of operations, invariants over runs, and
  the refinement of one component by another with the same answers.
\<close>

fun run_ops :: "('op \<Rightarrow> 's \<Rightarrow> 'o \<times> 's) \<Rightarrow> 'op list \<Rightarrow> 's \<Rightarrow> 'o list \<times> 's" where
  "run_ops step [] s = ([], s)"
| "run_ops step (p # ps) s = (case step p s of (x, s1) \<Rightarrow> (case run_ops step ps s1 of (xs, s2) \<Rightarrow> (x # xs, s2)))"

lemma run_ops_append:
  "run_ops step (ps @ qs) s =
    (case run_ops step ps s of (xs, s1) \<Rightarrow> (case run_ops step qs s1 of (ys, s2) \<Rightarrow> (xs @ ys, s2)))"
  by (induction ps arbitrary: s) (auto simp: case_prod_unfold)

lemma run_ops_length: "length (fst (run_ops step ps s)) = length ps"
  by (induction ps arbitrary: s) (auto simp: case_prod_unfold)

text \<open>Interleavings: a step that is \<open>None\<close> is one its goroutine cannot take now.\<close>

fun run_steps :: "('op \<Rightarrow> 's \<Rightarrow> 's option) \<Rightarrow> 'op list \<Rightarrow> 's \<Rightarrow> 's option" where
  "run_steps step [] s = Some s"
| "run_steps step (p # ps) s = (case step p s of None \<Rightarrow> None | Some s1 \<Rightarrow> run_steps step ps s1)"

locale keeps_invariant =
  fixes step :: "'op \<Rightarrow> 's \<Rightarrow> 's option" and ok :: "'s \<Rightarrow> bool"
  assumes keeps: "ok s \<Longrightarrow> step p s = Some s' \<Longrightarrow> ok s'"
begin

lemma run_keeps: "ok s \<Longrightarrow> run_steps step ps s = Some s' \<Longrightarrow> ok s'"
  by (induction ps arbitrary: s) (auto dest: keeps split: option.split_asm)

end

locale refines_machine =
  fixes step :: "'op \<Rightarrow> 's \<Rightarrow> 'o \<times> 's" and spec :: "'op \<Rightarrow> 'a \<Rightarrow> 'o \<times> 'a" and rel :: "'s \<Rightarrow> 'a \<Rightarrow> bool"
  assumes sim: "rel s a \<Longrightarrow> fst (step p s) = fst (spec p a) \<and> rel (snd (step p s)) (snd (spec p a))"
begin

lemma run_sim:
  "rel s a \<Longrightarrow> fst (run_ops step ps s) = fst (run_ops spec ps a) \<and>
    rel (snd (run_ops step ps s)) (snd (run_ops spec ps a))"
proof (induction ps arbitrary: s a)
  case (Cons p ps)
  from sim[OF Cons.prems, of p] Cons.IH[of "snd (step p s)" "snd (spec p a)"] show ?case
    by (auto simp: case_prod_unfold)
qed simp

lemma same_answers: "rel s a \<Longrightarrow> fst (run_ops step ps s) = fst (run_ops spec ps a)"
  using run_sim by blast

end

end
