(* ===== verification/MockSelect.thy ===== *)
theory MockSelect
  imports GoMime Machines GoParse "HOL-Library.AList"
begin

text \<open>
  How a mock route answers a request: the conditions of a variant over the per-request \<open>probe\<close>
  (\<open>internal/mock/match.go\<close>), the choice of the variant and of its response (\<open>internal/mock/select.go\<close>) and the
  cursors of response sequences (\<open>internal/mock/sequence.go\<close>).

  A request is what the server has read of it: the query, the values of the path wildcards and the cookies are
  those \<open>net/http\<close> parsed. Its body is a stream: the bytes that can still be read and the error after them, if any.
  The functions thread the probe and the variants, whose cursors change, as the code mutates them.
\<close>

section \<open>Requests and problems\<close>

datatype MockSequenceKeySource = SourceUnknown | SourcePath | SourceQuery | SourceHeader | SourceCookie

record MockSequenceKey =
  sk_source :: MockSequenceKeySource
  sk_name :: string

text \<open>What is told to the client: a status and a text, one constructor per text of the source.\<close>

datatype detail =
  BodyUnreadable string | BodyTooLarge | BodyNotJSON
| StatusNotFound int | NoScenario | ScenarioLacksStatus string int | ScenarioNotFound string
| SequenceFull string | StatusInvalid | SequenceKeyMissing MockSequenceKey | SequenceKeyTooLong MockSequenceKey

record problem =
  pb_status :: int
  pb_detail :: detail

record request =
  rq_headers :: "string \<Rightarrow> string list option"
  rq_host :: string
  rq_query :: "string \<Rightarrow> string list option"
  rq_path :: "string \<Rightarrow> string"
  rq_cookies :: "(string \<times> string) list"
  rq_body :: string
  rq_fail :: "string option"

text \<open>\<open>io.ReadAll(io.LimitReader(body, n))\<close>: what is read, or the error, and the bytes left.\<close>

definition read_limited :: "nat \<Rightarrow> string \<Rightarrow> string option \<Rightarrow> (string + string) \<times> string" where
  "read_limited n body fail =
     (if length body < n then ((case fail of None \<Rightarrow> Inr body | Some e \<Rightarrow> Inl e), [])
      else (Inr (take n body), drop n body))"

definition isJSONMediaType :: "string \<Rightarrow> bool" where
  "isJSONMediaType s = (case ParseMediaType (trim_white s) of
       None \<Rightarrow> False
     | Some mt \<Rightarrow> mt = ''application/json'' \<or> has_suffix mt ''+json'')"

definition maxMockRequestBody :: nat where
  "maxMockRequestBody = 4 * 2 ^ 20"

section \<open>The probe\<close>

record probe =
  p_r :: request
  p_loaded :: bool
  p_body :: "mjson option"
  p_ok :: bool
  p_err :: "problem option"

definition new_probe :: "request \<Rightarrow> probe" where
  "new_probe r = \<lparr>p_r = r, p_loaded = False, p_body = None, p_ok = False, p_err = None\<rparr>"

text \<open>\<open>probe.json\<close>: a problem, no JSON body, or the body.\<close>

type_synonym json_answer = "problem + mjson option"

definition cached_answer :: "probe \<Rightarrow> json_answer" where
  "cached_answer p = (case p_err p of Some e \<Rightarrow> Inl e | None \<Rightarrow> Inr (if p_ok p then p_body p else None))"

definition probe_json :: "probe \<Rightarrow> json_answer \<times> probe" where
  "probe_json p =
     (if p_loaded p then (cached_answer p, p)
      else
        let p1 = p\<lparr>p_loaded := True\<rparr>; r = p_r p in
        if \<not> isJSONMediaType (header_get (rq_headers r) ''Content-Type'') then (Inr None, p1)
        else
          let (data, rest) = read_limited (maxMockRequestBody + 1) (rq_body r) (rq_fail r);
              p2 = p1\<lparr>p_r := r\<lparr>rq_body := rest\<rparr>\<rparr>;
              failed = (\<lambda>status d. let e = \<lparr>pb_status = status, pb_detail = d\<rparr> in (Inl e, p2\<lparr>p_err := Some e\<rparr>)) in
          case data of
            Inl e \<Rightarrow> failed 400 (BodyUnreadable e)
          | Inr s \<Rightarrow>
              if length s > maxMockRequestBody then failed 413 BodyTooLarge
              else case decodeJSON s of
                None \<Rightarrow> failed 400 BodyNotJSON
              | Some v \<Rightarrow> (Inr (Some v), p2\<lparr>p_body := Some v, p_ok := True\<rparr>))"

section \<open>Conditions\<close>

record MockMatch =
  mm_query :: "MockRule smap"
  mm_headers :: "MockRule smap"
  mm_json :: string
  mm_rules :: string

datatype matcher = QueryMatcher "rule list" | HeaderMatcher "rule list" | JsonMatcher jsonPredicate

text \<open>\<open>newMatchers\<close>: what is wrong with the block, or its conditions in the order they run in.\<close>

definition newMatchers ::
  "(string \<Rightarrow> (string \<Rightarrow> bool) option) \<Rightarrow> (string \<Rightarrow> bool) \<Rightarrow> (string \<Rightarrow> bool) \<Rightarrow> MockMatch \<Rightarrow>
     (matchErr + string) + matcher list" where
  "newMatchers rx okName okValue m = (case compileQueryRules rx (mm_query m) of
       Inl e \<Rightarrow> Inl (Inl e)
     | Inr query \<Rightarrow> (case compileMatchHeaders rx okName okValue (mm_headers m) of
         Inl e \<Rightarrow> Inl (Inl e)
       | Inr headers \<Rightarrow> (case compileJSONBody (mm_json m) (mm_rules m) of
           Inl e \<Rightarrow> Inl (Inr e)
         | Inr body \<Rightarrow> Inr (
             (if query \<noteq> [] then [QueryMatcher query] else []) @
             (if headers \<noteq> [] then [HeaderMatcher headers] else []) @
             (case body of None \<Rightarrow> [] | Some want \<Rightarrow> [JsonMatcher want])))))"

fun run_matcher :: "matcher \<Rightarrow> probe \<Rightarrow> (problem + bool) \<times> probe" where
  "run_matcher (QueryMatcher rules) p = (Inr (rules_match rules (queryLookup (rq_query (p_r p)))), p)"
| "run_matcher (HeaderMatcher rules) p =
     (Inr (rules_match rules (headerLookup (rq_headers (p_r p)) (rq_host (p_r p)))), p)"
| "run_matcher (JsonMatcher want) p = (case probe_json p of
       (Inl e, p1) \<Rightarrow> (Inl e, p1)
     | (Inr None, p1) \<Rightarrow> (Inr False, p1)
     | (Inr (Some body), p1) \<Rightarrow> (Inr (want body), p1))"

fun matchers_hold :: "matcher list \<Rightarrow> probe \<Rightarrow> (problem + bool) \<times> probe" where
  "matchers_hold [] p = (Inr True, p)"
| "matchers_hold (m # ms) p = (case run_matcher m p of
       (Inl e, p1) \<Rightarrow> (Inl e, p1)
     | (Inr ok, p1) \<Rightarrow> if \<not> ok then (Inr False, p1) else matchers_hold ms p1)"

section \<open>Sequence cursors\<close>

record sequenceCursor =
  sc_steps :: "(string \<times> nat) list"
  sc_limit :: int

definition new_cursor :: sequenceCursor where
  "new_cursor = \<lparr>sc_steps = [], sc_limit = 0\<rparr>"

text \<open>The step to answer with, or \<open>None\<close> when the key is one too many; \<open>hi\<close> is the index of the last response, and a variant has one.\<close>

definition advance :: "string \<Rightarrow> nat \<Rightarrow> sequenceCursor \<Rightarrow> nat option \<times> sequenceCursor" where
  "advance key hi c =
     (let nxt = map_of (sc_steps c) key in
      if nxt = None \<and> key \<noteq> [] \<and> int (length (sc_steps c)) \<ge> sc_limit c then (None, c)
      else let n = (case nxt of None \<Rightarrow> 0 | Some n \<Rightarrow> n) in
        (Some (min n hi), c\<lparr>sc_steps := AList.update key (min (n + 1) hi) (sc_steps c)\<rparr>))"

definition reset :: "sequenceCursor \<Rightarrow> sequenceCursor" where
  "reset c = c\<lparr>sc_steps := []\<rparr>"

definition setLimit :: "int \<Rightarrow> sequenceCursor \<Rightarrow> sequenceCursor" where
  "setLimit limit c = c\<lparr>sc_limit := limit\<rparr>"

section \<open>Variants and routes\<close>

record response =
  rs_status :: int
  rs_headers :: "string list smap"
  rs_body :: string

record variant =
  v_name :: string
  v_sequence :: string
  v_def :: bool
  v_matchers :: "matcher list"
  v_responses :: "response list"
  v_params :: "string \<Rightarrow> string option"
  v_key :: MockSequenceKey
  v_cursor :: sequenceCursor

definition key_IsZero :: "MockSequenceKey \<Rightarrow> bool" where
  "key_IsZero k \<longleftrightarrow> sk_source k = SourceUnknown \<and> sk_name k = []"

definition maxSequenceKeyBytes :: nat where
  "maxSequenceKeyBytes = 4 * 2 ^ 10"

definition first_value :: "string list option \<Rightarrow> string" where
  "first_value got = (case got of Some (v # _) \<Rightarrow> v | _ \<Rightarrow> [])"

text \<open>\<open>CookiesNamed\<close> knows no cookie without a name.\<close>

definition sequenceKey :: "variant \<Rightarrow> request \<Rightarrow> problem + string" where
  "sequenceKey v r =
     (let key = v_key v in
      if key_IsZero key then Inr []
      else
        let value = (case sk_source key of
              SourcePath \<Rightarrow> rq_path r (case v_params v (sk_name key) of None \<Rightarrow> [] | Some w \<Rightarrow> w)
            | SourceQuery \<Rightarrow> first_value (rq_query r (sk_name key))
            | SourceHeader \<Rightarrow> first_value (headerOrHost (rq_headers r) (rq_host r) (sk_name key))
            | SourceCookie \<Rightarrow> (if sk_name key = [] then []
                else first_value (Some (map snd (filter (\<lambda>c. fst c = sk_name key) (rq_cookies r)))))
            | SourceUnknown \<Rightarrow> []) in
        if value = [] then Inl \<lparr>pb_status = 400, pb_detail = SequenceKeyMissing key\<rparr>
        else if length value > maxSequenceKeyBytes then Inl \<lparr>pb_status = 400, pb_detail = SequenceKeyTooLong key\<rparr>
        else Inr value)"

fun stepFor_at :: "nat \<Rightarrow> response list \<Rightarrow> int \<Rightarrow> nat option" where
  "stepFor_at i [] status = None"
| "stepFor_at i (resp # rs) status = (if rs_status resp = status then Some i else stepFor_at (Suc i) rs status)"

definition stepFor :: "variant \<Rightarrow> int \<Rightarrow> nat option" where
  "stepFor v status = stepFor_at 0 (v_responses v) status"

definition ValidMockStatus :: "int \<Rightarrow> bool" where
  "ValidMockStatus status \<longleftrightarrow> status \<ge> 200 \<and> status \<le> 599"

definition parseStatus :: "string \<Rightarrow> problem + int" where
  "parseStatus raw0 =
     (let raw = trim_white raw0 in
      if raw = [] then Inr 0
      else case parse_int raw of
        None \<Rightarrow> Inl \<lparr>pb_status = 400, pb_detail = StatusInvalid\<rparr>
      | Some status \<Rightarrow> if \<not> ValidMockStatus status then Inl \<lparr>pb_status = 400, pb_detail = StatusInvalid\<rparr>
          else Inr status)"

text \<open>A variant is named by its place in the route, as the code names it by its address.\<close>

fun named_at :: "nat \<Rightarrow> variant list \<Rightarrow> string \<Rightarrow> int \<Rightarrow> problem + nat" where
  "named_at i [] name status = Inl \<lparr>pb_status = 404, pb_detail = ScenarioNotFound name\<rparr>"
| "named_at i (v # vs) name status =
     (if v_name v \<noteq> name then named_at (Suc i) vs name status
      else if status \<noteq> 0 \<and> stepFor v status = None
        then Inl \<lparr>pb_status = 404, pb_detail = ScenarioLacksStatus name status\<rparr>
      else Inr i)"

definition named :: "variant list \<Rightarrow> string \<Rightarrow> int \<Rightarrow> problem + nat" where
  "named vs name status = named_at 0 vs name status"

fun match_loop :: "(nat \<times> variant) list \<Rightarrow> probe \<Rightarrow> (problem + nat option) \<times> probe" where
  "match_loop [] p = (Inr None, p)"
| "match_loop ((i, v) # vs) p =
     (if length (v_matchers v) = 0 then match_loop vs p
      else case matchers_hold (v_matchers v) p of
        (Inl e, p1) \<Rightarrow> (Inl e, p1)
      | (Inr matched, p1) \<Rightarrow> if matched then (Inr (Some i), p1) else match_loop vs p1)"

definition variantFor :: "variant list \<Rightarrow> string \<Rightarrow> int \<Rightarrow> probe \<Rightarrow> (problem + nat) \<times> probe" where
  "variantFor variants name status p =
     (if name \<noteq> [] then (named variants name status, p)
      else
        let all_vs = zip [0..<length variants] variants;
            vs = (if status \<noteq> 0 then filter (\<lambda>iv. stepFor (snd iv) status \<noteq> None) all_vs else all_vs) in
        if status \<noteq> 0 \<and> vs = [] then (Inl \<lparr>pb_status = 404, pb_detail = StatusNotFound status\<rparr>, p)
        else case match_loop vs p of
          (Inl e, p1) \<Rightarrow> (Inl e, p1)
        | (Inr (Some i), p1) \<Rightarrow> (Inr i, p1)
        | (Inr None, p1) \<Rightarrow>
            (case find (\<lambda>iv. v_def (snd iv)) vs of
               Some (i, _) \<Rightarrow> (Inr i, p1)
             | None \<Rightarrow>
                 (case find (\<lambda>iv. length (v_matchers (snd iv)) = 0) vs of
                    Some (i, _) \<Rightarrow> (Inr i, p1)
                  | None \<Rightarrow> (Inl \<lparr>pb_status = 404, pb_detail = NoScenario\<rparr>, p1))))"

text \<open>The step and the variant with its cursor moved on.\<close>

definition selectResponse :: "variant \<Rightarrow> int \<Rightarrow> request \<Rightarrow> (problem + nat) \<times> variant" where
  "selectResponse v status r =
     (if status \<noteq> 0 then (Inr (case stepFor v status of None \<Rightarrow> 0 | Some i \<Rightarrow> i), v)
      else case sequenceKey v r of
        Inl e \<Rightarrow> (Inl e, v)
      | Inr key \<Rightarrow> (case advance key (length (v_responses v) - 1) (v_cursor v) of
          (None, c) \<Rightarrow> (Inl \<lparr>pb_status = 429, pb_detail = SequenceFull (v_sequence v)\<rparr>, v\<lparr>v_cursor := c\<rparr>)
        | (Some step, c) \<Rightarrow> (Inr step, v\<lparr>v_cursor := c\<rparr>)))"

definition pick :: "variant list \<Rightarrow> probe \<Rightarrow> (problem + nat \<times> nat) \<times> variant list \<times> probe" where
  "pick variants p =
     (let name = trim_white (header_get (rq_headers (p_r p)) selectorNameHeader) in
      case parseStatus (header_get (rq_headers (p_r p)) selectorStatusHeader) of
        Inl e \<Rightarrow> (Inl e, variants, p)
      | Inr status \<Rightarrow> (case variantFor variants name status p of
          (Inl e, p1) \<Rightarrow> (Inl e, variants, p1)
        | (Inr i, p1) \<Rightarrow> (case selectResponse (variants ! i) status (p_r p1) of
            (Inl e, v) \<Rightarrow> (Inl e, variants[i := v], p1)
          | (Inr step, v) \<Rightarrow> (Inr (i, step), variants[i := v], p1))))"

section \<open>The sequences of a handler\<close>

text \<open>
  The routes of a handler; \<open>Handler.sequences\<close> lists the cursors of the variants that have a sequence by its name.
\<close>

definition in_sequence :: "string \<Rightarrow> variant \<Rightarrow> bool" where
  "in_sequence name v \<longleftrightarrow> v_sequence v \<noteq> [] \<and> (name = [] \<or> v_sequence v = name)"

definition ResetSequences :: "string \<Rightarrow> variant list list \<Rightarrow> nat \<times> variant list list" where
  "ResetSequences name routes =
     (length (filter (in_sequence name) (concat routes)),
      map (map (\<lambda>v. if in_sequence name v then v\<lparr>v_cursor := reset (v_cursor v)\<rparr> else v)) routes)"

definition DefaultSequenceKeyLimit :: int where
  "DefaultSequenceKeyLimit = 10000"

definition setSequenceKeyLimit :: "int \<Rightarrow> variant list list \<Rightarrow> variant list list" where
  "setSequenceKeyLimit limit routes =
     (let n = (if limit \<le> 0 then DefaultSequenceKeyLimit else limit) in
      map (map (\<lambda>v. if in_sequence [] v then v\<lparr>v_cursor := setLimit n (v_cursor v)\<rparr> else v)) routes)"

end
