(* ===== verification/MockSelectProps.thy ===== *)
theory MockSelectProps
  imports MockSelect
begin

text \<open>
  What the choice of a mock answer amounts to: reading the body once and keeping the answer makes every condition
  a function of the request, the variant is the first whose conditions hold, and a sequence cursor counts the
  requests it has served for a key.
\<close>

section \<open>Conditions as functions of the request\<close>

definition body_answer :: "request \<Rightarrow> json_answer" where
  "body_answer r =
     (if \<not> isJSONMediaType (header_get (rq_headers r) ''Content-Type'') then Inr None
      else case fst (read_limited (maxMockRequestBody + 1) (rq_body r) (rq_fail r)) of
        Inl e \<Rightarrow> Inl \<lparr>pb_status = 400, pb_detail = BodyUnreadable e\<rparr>
      | Inr s \<Rightarrow> if length s > maxMockRequestBody then Inl \<lparr>pb_status = 413, pb_detail = BodyTooLarge\<rparr>
          else (case decodeJSON s of
            None \<Rightarrow> Inl \<lparr>pb_status = 400, pb_detail = BodyNotJSON\<rparr>
          | Some v \<Rightarrow> Inr (Some v)))"

fun matcher_says :: "matcher \<Rightarrow> request \<Rightarrow> problem + bool" where
  "matcher_says (QueryMatcher rules) r = Inr (rules_match rules (queryLookup (rq_query r)))"
| "matcher_says (HeaderMatcher rules) r = Inr (rules_match rules (headerLookup (rq_headers r) (rq_host r)))"
| "matcher_says (JsonMatcher want) r = (case body_answer r of
       Inl e \<Rightarrow> Inl e
     | Inr body \<Rightarrow> Inr (case body of None \<Rightarrow> False | Some v \<Rightarrow> want v))"

text \<open>All conditions in order, up to the first that fails or cannot be tested.\<close>

fun conditions_say :: "matcher list \<Rightarrow> request \<Rightarrow> problem + bool" where
  "conditions_say [] r = Inr True"
| "conditions_say (m # ms) r = (if matcher_says m r = Inr True then conditions_say ms r else matcher_says m r)"

definition probe_of :: "request \<Rightarrow> probe \<Rightarrow> bool" where
  "probe_of r p \<longleftrightarrow> (if p_loaded p then cached_answer p = body_answer r \<and> (\<exists>b. p_r p = r\<lparr>rq_body := b\<rparr>)
     else p_r p = r \<and> p_body p = None \<and> \<not> p_ok p \<and> p_err p = None)"

lemma probe_of_new: "probe_of r (new_probe r)"
  by (simp add: probe_of_def new_probe_def)

lemma probe_of_reads:
  assumes "probe_of r p"
  shows "rq_query (p_r p) = rq_query r" "rq_headers (p_r p) = rq_headers r" "rq_host (p_r p) = rq_host r"
    "rq_path (p_r p) = rq_path r" "rq_cookies (p_r p) = rq_cookies r"
  using assms by (auto simp: probe_of_def split: if_splits)

lemma request_body_same: "r\<lparr>rq_body := rq_body r\<rparr> = (r :: request)"
  by simp

lemma probe_json_says: "probe_of r p \<Longrightarrow> fst (probe_json p) = body_answer r \<and> probe_of r (snd (probe_json p))"
proof (cases "p_loaded p")
  case False
  assume "probe_of r p"
  with False have p: "p_r p = r" "p_body p = None" "\<not> p_ok p" "p_err p = None" by (simp_all add: probe_of_def)
  show ?thesis
  proof (cases "isJSONMediaType (header_get (rq_headers r) ''Content-Type'')")
    case True
    then show ?thesis using False p
      by (auto simp: probe_json_def body_answer_def probe_of_def cached_answer_def Let_def
          split: prod.splits sum.splits option.splits)
  next
    case nojson: False
    then show ?thesis using False p
      by (auto simp: probe_json_def body_answer_def probe_of_def cached_answer_def Let_def
          intro: exI[of _ "rq_body r"])
  qed
qed (simp add: probe_json_def probe_of_def)

lemma run_matcher_says: "probe_of r p \<Longrightarrow> fst (run_matcher m p) = matcher_says m r \<and> probe_of r (snd (run_matcher m p))"
  using probe_json_says[of r p] probe_of_reads[of r p]
  by (cases m) (auto split: prod.splits sum.splits option.splits)

lemma matchers_hold_says:
  "probe_of r p \<Longrightarrow> fst (matchers_hold ms p) = conditions_say ms r \<and> probe_of r (snd (matchers_hold ms p))"
proof (induction ms arbitrary: p)
  case (Cons m ms)
  show ?case
    using run_matcher_says[OF Cons.prems, of m] Cons.IH[of "snd (run_matcher m p)"]
    by (auto split: prod.splits sum.splits)
qed simp

section \<open>The variant\<close>

definition has_status :: "int \<Rightarrow> variant \<Rightarrow> bool" where
  "has_status status v \<longleftrightarrow> status \<in> rs_status ` set (v_responses v)"

definition first_status :: "int \<Rightarrow> variant \<Rightarrow> nat" where
  "first_status status v = length (takeWhile (\<lambda>resp. rs_status resp \<noteq> status) (v_responses v))"

text \<open>
  The choice among the candidates, which are all variants or those with a response of the status asked for: the first
  with conditions that all hold, where a condition that cannot be tested ends the search; then the default; then the
  first without conditions.
\<close>

definition choice_of :: "variant list \<Rightarrow> string \<Rightarrow> int \<Rightarrow> request \<Rightarrow> problem + nat" where
  "choice_of vs name status r =
     (if name \<noteq> [] then
        (case find (\<lambda>(i, v). v_name v = name) (zip [0..<length vs] vs) of
           None \<Rightarrow> Inl \<lparr>pb_status = 404, pb_detail = ScenarioNotFound name\<rparr>
         | Some (i, v) \<Rightarrow> if status \<noteq> 0 \<and> \<not> has_status status v
             then Inl \<lparr>pb_status = 404, pb_detail = ScenarioLacksStatus name status\<rparr> else Inr i)
      else
        let cs = filter (\<lambda>(i, v). status = 0 \<or> has_status status v) (zip [0..<length vs] vs) in
        if cs = [] \<and> status \<noteq> 0 then Inl \<lparr>pb_status = 404, pb_detail = StatusNotFound status\<rparr>
        else case find (\<lambda>(i, v). v_matchers v \<noteq> [] \<and> conditions_say (v_matchers v) r \<noteq> Inr False) cs of
          Some (i, v) \<Rightarrow> map_sum id (\<lambda>_. i) (conditions_say (v_matchers v) r)
        | None \<Rightarrow> (case find (\<lambda>(i, v). v_def v) cs of
            Some (i, v) \<Rightarrow> Inr i
          | None \<Rightarrow> (case find (\<lambda>(i, v). v_matchers v = []) cs of
              Some (i, v) \<Rightarrow> Inr i
            | None \<Rightarrow> Inl \<lparr>pb_status = 404, pb_detail = NoScenario\<rparr>)))"

lemma stepFor_at_first: "stepFor_at i rs status =
    (if status \<in> rs_status ` set rs then Some (i + length (takeWhile (\<lambda>resp. rs_status resp \<noteq> status) rs)) else None)"
  by (induction i rs status rule: stepFor_at.induct) auto

lemma stepFor_first: "stepFor v status = (if has_status status v then Some (first_status status v) else None)"
  by (simp add: stepFor_def stepFor_at_first has_status_def first_status_def)

lemma named_at_find: "named_at k us name status =
    (case find (\<lambda>(i, v). v_name v = name) (zip [k..<k + length us] us) of
       None \<Rightarrow> Inl \<lparr>pb_status = 404, pb_detail = ScenarioNotFound name\<rparr>
     | Some (i, v) \<Rightarrow> if status \<noteq> 0 \<and> \<not> has_status status v
         then Inl \<lparr>pb_status = 404, pb_detail = ScenarioLacksStatus name status\<rparr> else Inr i)"
proof (induction k us name status rule: named_at.induct)
  case (2 k v vs name status)
  have "[k..<k + length (v # vs)] = k # [Suc k..<Suc k + length vs]" by (simp add: upt_rec)
  then show ?case using 2 by (simp add: stepFor_first)
qed simp

lemma match_loop_find:
  "probe_of r p \<Longrightarrow> fst (match_loop ivs p) =
     (case find (\<lambda>(i, v). v_matchers v \<noteq> [] \<and> conditions_say (v_matchers v) r \<noteq> Inr False) ivs of
        Some (i, v) \<Rightarrow> map_sum id (\<lambda>_. Some i) (conditions_say (v_matchers v) r)
      | None \<Rightarrow> Inr None) \<and> probe_of r (snd (match_loop ivs p))"
proof (induction ivs arbitrary: p)
  case (Cons iv ivs)
  obtain i v where e: "iv = (i, v)" by (cases iv)
  obtain a p1 where mh: "matchers_hold (v_matchers v) p = (a, p1)" by fastforce
  with matchers_hold_says[OF Cons.prems, of "v_matchers v"] have a: "conditions_say (v_matchers v) r = a" "probe_of r p1"
    by simp_all
  consider e where "a = Inl e" | "a = Inr False" | "a = Inr True" by (cases a) auto
  then show ?case using Cons.IH[OF Cons.prems] Cons.IH[OF a(2)] by cases (simp_all add: e mh a)
qed simp

lemma variantFor_choice:
  assumes "probe_of r p"
  shows "fst (variantFor vs name status p) = choice_of vs name status r \<and> probe_of r (snd (variantFor vs name status p))"
proof (cases "name = []")
  case True
  define cs where "cs = filter (\<lambda>(i, v). status = 0 \<or> has_status status v) (zip [0..<length vs] vs)"
  have cs: "(if status \<noteq> 0 then filter (\<lambda>iv. stepFor (snd iv) status \<noteq> None) (zip [0..<length vs] vs)
      else zip [0..<length vs] vs) = cs"
    by (auto simp: cs_def stepFor_first intro: filter_cong)
  note m = match_loop_find[OF assms, of cs]
  have f: "find (\<lambda>iv. v_def (snd iv)) cs = find (\<lambda>(i, v). v_def v) cs"
    "find (\<lambda>iv. length (v_matchers (snd iv)) = 0) cs = find (\<lambda>(i, v). v_matchers v = []) cs"
    by (auto intro: find_cong)
  show ?thesis
  proof (cases "status \<noteq> 0 \<and> cs = []")
    case True
    with assms \<open>name = []\<close> show ?thesis unfolding variantFor_def choice_of_def Let_def cs cs_def[symmetric] f by simp
  next
    case some: False
    obtain a p1 where ml: "match_loop cs p = (a, p1)" by fastforce
    let ?first = "find (\<lambda>(i, v). v_matchers v \<noteq> [] \<and> conditions_say (v_matchers v) r \<noteq> Inr False) cs"
    consider "?first = None" | i v where "?first = Some (i, v)" by (cases ?first) auto
    then show ?thesis
    proof cases
      case 1
      with some m ml True assms show ?thesis unfolding variantFor_def choice_of_def Let_def cs cs_def[symmetric] f
        by (simp add: option.case_eq_if case_prod_unfold)
    next
      case 2
      with some m ml True show ?thesis unfolding variantFor_def choice_of_def Let_def cs cs_def[symmetric] f
        by (cases "conditions_say (v_matchers v) r") auto
    qed
  qed
next
  case False
  then show ?thesis using assms by (simp add: variantFor_def choice_of_def named_def named_at_find)
qed

section \<open>The answer\<close>

lemma sequenceKey_same: "probe_of r p \<Longrightarrow> sequenceKey v (p_r p) = sequenceKey v r"
  unfolding sequenceKey_def by (simp only: probe_of_reads)

text \<open>The answer as a function of the request: which response, and the variants afterwards.\<close>

definition answer_of :: "variant list \<Rightarrow> request \<Rightarrow> (problem + nat \<times> nat) \<times> variant list" where
  "answer_of vs r = (case parseStatus (header_get (rq_headers r) selectorStatusHeader) of
       Inl e \<Rightarrow> (Inl e, vs)
     | Inr status \<Rightarrow> (case choice_of vs (trim_white (header_get (rq_headers r) selectorNameHeader)) status r of
         Inl e \<Rightarrow> (Inl e, vs)
       | Inr i \<Rightarrow>
           if status \<noteq> 0 then (Inr (i, first_status status (vs ! i)), vs)
           else (case sequenceKey (vs ! i) r of
             Inl e \<Rightarrow> (Inl e, vs)
           | Inr key \<Rightarrow>
               let (step, c) = advance key (length (v_responses (vs ! i)) - 1) (v_cursor (vs ! i)) in
               ((case step of
                   None \<Rightarrow> Inl \<lparr>pb_status = 429, pb_detail = SequenceFull (v_sequence (vs ! i))\<rparr>
                 | Some n \<Rightarrow> Inr (i, n)), vs[i := (vs ! i)\<lparr>v_cursor := c\<rparr>]))))"

lemma list_find_Some: "find P xs = Some x \<Longrightarrow> x \<in> set xs \<and> P x"
  by (metis find_Some_iff nth_mem)

lemma candidate_nth:
  "find P (filter Q (zip [0..<length vs] vs)) = Some (i, v) \<Longrightarrow> i < length vs \<and> v = vs ! i \<and> Q (i, v)"
  by (auto simp: set_zip dest!: list_find_Some)

lemma candidate_nth_all: "find P (zip [0..<length vs] vs) = Some (i, v) \<Longrightarrow> i < length vs \<and> v = vs ! i"
  by (auto simp: set_zip dest!: list_find_Some)

lemma choice_has_status:
  assumes "choice_of vs name status r = Inr i" "status \<noteq> 0"
  shows "i < length vs \<and> has_status status (vs ! i)"
proof (cases "name = []")
  case True
  define cs where "cs = filter (\<lambda>(i, v). status = 0 \<or> has_status status v) (zip [0..<length vs] vs)"
  have c: "find P cs = Some (j, v) \<Longrightarrow> j < length vs \<and> has_status status (vs ! j)" for P j v
    using candidate_nth[of P _ vs j v] assms(2) unfolding cs_def by fastforce
  have "\<exists>P v. find P cs = Some (i, v)"
    using assms(1) True unfolding choice_of_def Let_def cs_def[symmetric]
    by (fastforce split: if_split_asm option.split_asm prod.split_asm sum.split_asm simp: map_sum_def)
  with c show ?thesis by blast
next
  case False
  with assms show ?thesis
    by (auto simp: choice_of_def dest!: candidate_nth_all split: option.split_asm if_split_asm)
qed

lemma pick_answer:
  assumes "probe_of r p"
  shows "fst (pick vs p) = fst (answer_of vs r) \<and> fst (snd (pick vs p)) = snd (answer_of vs r)"
proof (cases "parseStatus (header_get (rq_headers r) selectorStatusHeader)")
  case (Inl e)
  then show ?thesis by (simp add: pick_def answer_of_def probe_of_reads[OF assms])
next
  case (Inr status)
  let ?name = "trim_white (header_get (rq_headers r) selectorNameHeader)"
  obtain a p1 where v: "variantFor vs ?name status p = (a, p1)" by fastforce
  with variantFor_choice[OF assms, of vs ?name status] have a: "choice_of vs ?name status r = a" "probe_of r p1" by simp_all
  show ?thesis
  proof (cases a)
    case (Inl e)
    with Inr v a show ?thesis by (simp add: pick_def answer_of_def probe_of_reads[OF assms])
  next
    case i: (Inr i)
    show ?thesis
    proof (cases "status = 0")
      case True
      with Inr v a i show ?thesis
        by (simp add: pick_def answer_of_def probe_of_reads[OF assms] selectResponse_def sequenceKey_same
            list_update_id split: sum.split option.split prod.split)
    next
      case False
      with choice_has_status a i have "has_status status (vs ! i)" by blast
      with False Inr v a i show ?thesis
        by (simp add: pick_def answer_of_def probe_of_reads[OF assms] selectResponse_def stepFor_first)
    qed
  qed
qed

text \<open>
  C32: the answer of a mock route is the function \<open>answer_of\<close> of the request: although the body can be read only once
  and the variants share it, every condition sees the same body or the same problem with it; the variant is the one
  named, else the first whose conditions hold, else the default, else the first without conditions; the response is
  the first with the status asked for, and then no cursor moves, or the one the cursor of the chosen variant stands
  at, and only that cursor moves.
\<close>

theorem mock_answer_is_function_of_request:
  "fst (pick vs (new_probe r)) = fst (answer_of vs r) \<and> fst (snd (pick vs (new_probe r))) = snd (answer_of vs r)"
  by (rule pick_answer) (rule probe_of_new)

section \<open>Sequences\<close>

text \<open>The calls of a cursor, and a cursor that remembers every request served since the last reset.\<close>

datatype cursor_op = OpAdvance string | OpReset | OpSetLimit int

fun cursor_step :: "nat \<Rightarrow> cursor_op \<Rightarrow> sequenceCursor \<Rightarrow> nat option \<times> sequenceCursor" where
  "cursor_step hi (OpAdvance key) c = advance key hi c"
| "cursor_step hi OpReset c = (None, reset c)"
| "cursor_step hi (OpSetLimit limit) c = (None, setLimit limit c)"

fun history_step :: "nat \<Rightarrow> cursor_op \<Rightarrow> string list \<times> int \<Rightarrow> nat option \<times> string list \<times> int" where
  "history_step hi (OpAdvance key) (served, limit) =
     (if key \<notin> set served \<and> key \<noteq> [] \<and> int (card (set served)) \<ge> limit then (None, served, limit)
      else (Some (min (count_list served key) hi), key # served, limit))"
| "history_step hi OpReset (served, limit) = (None, [], limit)"
| "history_step hi (OpSetLimit n) (served, limit) = (None, served, n)"

fun cursor_rel :: "nat \<Rightarrow> sequenceCursor \<Rightarrow> string list \<times> int \<Rightarrow> bool" where
  "cursor_rel hi c (served, limit) \<longleftrightarrow> sc_limit c = limit \<and> distinct (map fst (sc_steps c)) \<and>
     (\<forall>key. map_of (sc_steps c) key = (if key \<in> set served then Some (min (count_list served key) hi) else None))"

lemma cursor_rel_keys: "cursor_rel hi c (served, limit) \<Longrightarrow> fst ` set (sc_steps c) = set served"
proof -
  assume r: "cursor_rel hi c (served, limit)"
  have "key \<in> fst ` set (sc_steps c) \<longleftrightarrow> key \<in> set served" for key
    using r map_of_eq_None_iff[of "sc_steps c" key] by (auto split: if_splits)
  then show ?thesis by blast
qed

lemma cursor_rel_size: "cursor_rel hi c (served, limit) \<Longrightarrow> length (sc_steps c) = card (set served)"
  using cursor_rel_keys[of hi c served limit] distinct_card[of "map fst (sc_steps c)"] by simp

lemma count_list_pos: "x \<in> set xs \<Longrightarrow> 0 < count_list xs x"
  using count_list_0_iff by fastforce

interpretation cursor_sim: refines_machine "cursor_step hi" "history_step hi" "cursor_rel hi" for hi
proof
  fix c a p assume r: "cursor_rel hi c a"
  obtain served limit where a: "a = (served, limit)" by (cases a)
  show "fst (cursor_step hi p c) = fst (history_step hi p a) \<and> cursor_rel hi (snd (cursor_step hi p c)) (snd (history_step hi p a))"
  proof (cases p)
    case (OpAdvance key)
    have size: "length (sc_steps c) = card (set served)" using r a cursor_rel_size by blast
    have steps: "map_of (sc_steps c) k = (if k \<in> set served then Some (min (count_list served k) hi) else None)" for k
      using r a by simp
    have "distinct (map fst (AList.update key n (sc_steps c)))" for n
      using r a by (simp add: distinct_update)
    moreover have "min (min (count_list served key) hi + 1) hi = min (Suc (count_list served key)) hi" by simp
    ultimately show ?thesis
      using OpAdvance r a size steps[of key] count_list_pos[of key served]
      by (auto simp: advance_def Let_def update_conv' count_list_0_iff[THEN iffD2])
  qed (use r a in \<open>simp_all add: reset_def setLimit_def\<close>)
qed

text \<open>
  C33: over any calls of a cursor, the answer to a request is decided by the history: a key that has been served n
  times since the last reset gets response n, or the last one from then on; a new key is turned away exactly when it
  is not empty and as many keys as the limit have been served, and a key once served is never turned away.
\<close>

theorem sequence_cursor_counts:
  "fst (run_ops (cursor_step hi) ops new_cursor) = fst (run_ops (history_step hi) ops ([], 0))"
  by (rule cursor_sim.same_answers) (simp add: new_cursor_def)

end
