(* ===== verification/MockJournal.thy ===== *)
theory MockJournal
  imports MockSelect "HOL-Library.While_Combinator"
begin

text \<open>
  The request journal of the mock server (\<open>internal/mock/journal.go\<close>), the patterns requests are counted by
  (\<open>internal/mock/pattern.go\<close>) and the verification of expectations (\<open>internal/mock/verify.go\<close>).

  The matching of paths is the router of \<open>net/http\<close>: \<open>newPath\<close> stands for \<open>newPathMatcher\<close>, which compiles a path to a
  test of the path and the raw path of a request. The context of a count is a function that tells the error it has
  when it is asked for the n-th time.
\<close>

section \<open>Records of requests\<close>

record requestRecord =
  jr_method :: string
  jr_path :: string
  jr_rawPath :: string
  jr_host :: string
  jr_query :: "string list smap"
  jr_headers :: "string list smap"
  jr_body :: string
  jr_truncated :: bool
  jr_size :: int

fun values_size :: "string list smap \<Rightarrow> int" where
  "values_size [] = 0"
| "values_size ((name, values) # m) = int (length name) + sum_list (map (int \<circ> length) values) + values_size m"

definition retainedSize :: "requestRecord \<Rightarrow> int" where
  "retainedSize r =
     int (length (jr_method r)) + int (length (jr_path r)) + int (length (jr_rawPath r)) + int (length (jr_host r)) +
     values_size (jr_query r) + values_size (jr_headers r) + int (length (jr_body r))"

section \<open>The journal\<close>

record requestJournal =
  j_entries :: "requestRecord list"
  j_entryLimit :: int
  j_byteLimit :: int
  j_bodyLimit :: int
  j_retained :: int
  j_incomplete :: bool

record Options =
  o_entries :: int
  o_bytes :: int
  o_bodyLimit :: int

definition DefaultJournalEntries :: int where
  "DefaultJournalEntries = 2000"

definition DefaultJournalBytes :: int where
  "DefaultJournalBytes = 16 * 2 ^ 20"

definition DefaultJournalBodyLimit :: int where
  "DefaultJournalBodyLimit = 64 * 2 ^ 10"

definition newRequestJournal :: "Options \<Rightarrow> string + requestJournal" where
  "newRequestJournal opts =
     (let entryLimit = (if o_entries opts \<le> 0 then DefaultJournalEntries else o_entries opts);
          byteLimit = (if o_bytes opts \<le> 0 then DefaultJournalBytes else o_bytes opts);
          bodyLimit = (if o_bodyLimit opts \<le> 0 then DefaultJournalBodyLimit else o_bodyLimit opts) in
      if bodyLimit \<ge> 2 ^ 63 - 1 then Inl ''mock journal body limit is too large''
      else if bodyLimit > byteLimit then Inl ''mock journal body limit exceeds total byte limit''
      else Inr \<lparr>j_entries = [], j_entryLimit = entryLimit, j_byteLimit = byteLimit, j_bodyLimit = bodyLimit,
        j_retained = 0, j_incomplete = False\<rparr>)"

definition dropOldest :: "requestJournal \<Rightarrow> requestJournal" where
  "dropOldest j = (case j_entries j of
       [] \<Rightarrow> j
     | e # es \<Rightarrow> j\<lparr>j_entries := es, j_retained := j_retained j - jr_size e\<rparr>)"

text \<open>The loop that makes room; \<open>None\<close> when it never ends.\<close>

definition make_room :: "requestRecord \<Rightarrow> requestJournal \<Rightarrow> requestJournal option" where
  "make_room entry =
     while_option (\<lambda>j. int (length (j_entries j)) \<ge> j_entryLimit j \<or> jr_size entry > j_byteLimit j - j_retained j)
       (\<lambda>j. (dropOldest j)\<lparr>j_incomplete := True\<rparr>)"

definition journal_add :: "requestRecord \<Rightarrow> requestJournal \<Rightarrow> requestJournal option" where
  "journal_add entry j =
     (if jr_size entry > j_byteLimit j then Some (j\<lparr>j_incomplete := True\<rparr>)
      else case make_room entry j of
        None \<Rightarrow> None
      | Some j1 \<Rightarrow> Some (j1\<lparr>j_entries := j_entries j1 @ [entry], j_retained := j_retained j1 + jr_size entry\<rparr>))"

definition journal_clear :: "requestJournal \<Rightarrow> requestJournal" where
  "journal_clear j = j\<lparr>j_entries := [], j_retained := 0, j_incomplete := False\<rparr>"

record JournalStats =
  js_entries :: int
  js_entryLimit :: int
  js_retained :: int
  js_byteLimit :: int
  js_complete :: bool

definition stats :: "requestJournal \<Rightarrow> JournalStats" where
  "stats j = \<lparr>js_entries = int (length (j_entries j)), js_entryLimit = j_entryLimit j, js_retained = j_retained j,
     js_byteLimit = j_byteLimit j, js_complete = \<not> j_incomplete j\<rparr>"

text \<open>
  \<open>capture\<close>: the record of a request, the error of reading its body, and the request with the body that is handed on.
  The maps of the request are given as they are listed in the record.
\<close>

definition read_some :: "nat \<Rightarrow> string \<Rightarrow> string option \<Rightarrow> string \<times> string option \<times> string" where
  "read_some n body fail = (if length body < n then (body, fail, []) else (take n body, None, drop n body))"

definition capture ::
  "requestJournal \<Rightarrow> string \<Rightarrow> string \<Rightarrow> string \<Rightarrow> string list smap \<Rightarrow> string list smap \<Rightarrow> request \<Rightarrow>
     requestRecord \<times> string option \<times> request" where
  "capture j method path rawPath query headers r =
     (let limit = nat (j_bodyLimit j);
          (b, err, rest) = read_some (limit + 1) (rq_body r) (rq_fail r);
          truncated = (err \<noteq> None \<or> length b > limit);
          r1 = (if err \<noteq> None then r\<lparr>rq_body := b, rq_fail := err\<rparr>
                else if length b > limit then r\<lparr>rq_body := b @ rest\<rparr>
                else r\<lparr>rq_body := b, rq_fail := None\<rparr>);
          entry = \<lparr>jr_method = method, jr_path = path, jr_rawPath = rawPath, jr_host = rq_host r, jr_query = query,
            jr_headers = headers, jr_body = (if length b > limit then take limit b else b), jr_truncated = truncated,
            jr_size = 0\<rparr> in
      (entry\<lparr>jr_size := retainedSize entry\<rparr>, err, r1))"

section \<open>Patterns\<close>

record RequestPattern =
  rp_method :: string
  rp_path :: string
  rp_query :: "MockRule smap"
  rp_headers :: "MockRule smap"
  rp_json :: string
  rp_rules :: string

record compiledPattern =
  cp_pattern :: RequestPattern
  cp_path :: "(string \<Rightarrow> string \<Rightarrow> bool) option"
  cp_query :: "rule list"
  cp_headers :: "rule list"
  cp_json :: "jsonPredicate option"

datatype countErr =
  BadMethod string | BadPath string | BadRules matchErr | BadBody string | Incomplete string | Canceled string

text \<open>\<open>strings.ToUpper\<close> as far as a name of ASCII letters can come out: U+0131 and U+017F have ASCII capitals.\<close>

definition upper_rune :: "int \<Rightarrow> int" where
  "upper_rune r = (if 97 \<le> r \<and> r \<le> 122 then r - 32 else if r = 0x131 then 73 else if r = 0x17F then 83 else r)"

definition upper_name :: "string \<Rightarrow> string" where
  "upper_name s = concat (map (encode_rune \<circ> upper_rune \<circ> snd) (runes_from 0 s))"

definition compileRequestPattern ::
  "(string \<Rightarrow> (string \<Rightarrow> bool) option) \<Rightarrow> (string \<Rightarrow> bool) \<Rightarrow> (string \<Rightarrow> bool) \<Rightarrow>
     (string \<Rightarrow> string + (string \<Rightarrow> string \<Rightarrow> bool)) \<Rightarrow> RequestPattern \<Rightarrow> countErr + compiledPattern" where
  "compileRequestPattern rx okName okValue newPath p =
     (let method = upper_name (trim_white (rp_method p)); path = trim_white (rp_path p) in
      if method \<noteq> [] \<and> \<not> okName method then Inl (BadMethod (rp_method p))
      else case (if path = [] then Inr None else map_sum id Some (newPath path)) of
        Inl e \<Rightarrow> Inl (BadPath e)
      | Inr pm \<Rightarrow> (case compileQueryRules rx (rp_query p) of
          Inl e \<Rightarrow> Inl (BadRules e)
        | Inr query \<Rightarrow> (case compileHeaderRules rx okName okValue (rp_headers p) of
            Inl e \<Rightarrow> Inl (BadRules e)
          | Inr headers \<Rightarrow> (case compileJSONBody (rp_json p) (rp_rules p) of
              Inl e \<Rightarrow> Inl (BadBody e)
            | Inr body \<Rightarrow> Inr \<lparr>
                cp_pattern = \<lparr>rp_method = method, rp_path = path, rp_query = declared query,
                  rp_headers = declared headers, rp_json = rp_json p, rp_rules = rp_rules p\<rparr>,
                cp_path = pm, cp_query = query, cp_headers = headers, cp_json = body\<rparr>))))"

definition pattern_matches :: "compiledPattern \<Rightarrow> requestRecord \<Rightarrow> countErr + bool" where
  "pattern_matches p entry =
     (let headers = map_of (jr_headers entry) in
      if rp_method (cp_pattern p) \<noteq> [] \<and> jr_method entry \<noteq> rp_method (cp_pattern p) then Inr False
      else if (case cp_path p of None \<Rightarrow> False | Some m \<Rightarrow> \<not> m (jr_path entry) (jr_rawPath entry)) then Inr False
      else if \<not> rules_match (cp_query p) (queryLookup (map_of (jr_query entry))) then Inr False
      else if \<not> rules_match (cp_headers p) (headerLookup headers (jr_host entry)) then Inr False
      else case cp_json p of
        None \<Rightarrow> Inr True
      | Some want \<Rightarrow>
          if \<not> isJSONMediaType (header_get headers ''Content-Type'') then Inr False
          else if jr_truncated entry then Inl (Incomplete ''request body was truncated'')
          else case decodeJSON (jr_body entry) of
            None \<Rightarrow> Inr False
          | Some body \<Rightarrow> Inr (want body))"

section \<open>Counting and verifying\<close>

fun count_loop ::
  "(nat \<Rightarrow> string option) \<Rightarrow> (requestRecord \<Rightarrow> countErr + bool) \<Rightarrow> nat \<Rightarrow> requestRecord list \<Rightarrow> nat \<Rightarrow> countErr + nat" where
  "count_loop done matches i [] n = Inr n"
| "count_loop done matches i (entry # es) n = (case done i of
       Some e \<Rightarrow> Inl (Canceled e)
     | None \<Rightarrow> (case matches entry of
         Inl e \<Rightarrow> Inl e
       | Inr matched \<Rightarrow> count_loop done matches (Suc i) es (if matched then Suc n else n)))"

definition journal_count ::
  "(RequestPattern \<Rightarrow> countErr + compiledPattern) \<Rightarrow> (nat \<Rightarrow> string option) \<Rightarrow> requestJournal \<Rightarrow> RequestPattern \<Rightarrow>
     countErr + nat" where
  "journal_count compile done j pattern = (case compile pattern of
       Inl e \<Rightarrow> Inl e
     | Inr p \<Rightarrow>
         if j_incomplete j
         then Inl (Incomplete ''older requests were evicted or dropped; clear the journal to reset verification'')
         else count_loop done (pattern_matches p) 0 (j_entries j) 0)"

record Expectation =
  ex_pattern :: RequestPattern
  ex_calls :: nat
  ex_title :: string

record VerificationResult =
  vr_expectation :: Expectation
  vr_actual :: nat
  vr_err :: "countErr option"
  vr_passed :: bool

text \<open>\<open>Verify\<close> over the answers of an inspector; an error comes with the count 0.\<close>

definition Verify :: "(RequestPattern \<Rightarrow> countErr + nat) \<Rightarrow> Expectation list \<Rightarrow> VerificationResult list" where
  "Verify inspector expectations = map (\<lambda>ex.
     (let (actual, err) = (case inspector (ex_pattern ex) of Inl e \<Rightarrow> (0, Some e) | Inr n \<Rightarrow> (n, None)) in
      \<lparr>vr_expectation = ex, vr_actual = actual, vr_err = err, vr_passed = (err = None \<and> actual = ex_calls ex)\<rparr>))
     expectations"

section \<open>The journal keeps the latest requests\<close>

definition sizes :: "requestRecord list \<Rightarrow> int" where
  "sizes es = sum_list (map jr_size es)"

lemma sizes_simps [simp]: "sizes [] = 0" "sizes (e # es) = jr_size e + sizes es" "sizes (es @ fs) = sizes es + sizes fs"
  by (simp_all add: sizes_def)

definition journal_ok :: "requestJournal \<Rightarrow> bool" where
  "journal_ok j \<longleftrightarrow> 0 < j_entryLimit j \<and> 0 < j_byteLimit j \<and> int (length (j_entries j)) \<le> j_entryLimit j \<and>
     j_retained j = sizes (j_entries j) \<and> j_retained j \<le> j_byteLimit j \<and> (\<forall>e \<in> set (j_entries j). 0 \<le> jr_size e)"

lemma values_size_nonneg: "0 \<le> values_size m"
  by (induction m rule: values_size.induct) (auto intro!: add_nonneg_nonneg sum_list_nonneg)

lemma retainedSize_nonneg: "0 \<le> retainedSize r"
  by (simp add: retainedSize_def values_size_nonneg)

lemma capture_transparent: "snd (snd (capture j method path rawPath query headers r)) = r"
  by (auto simp: capture_def read_some_def Let_def)

lemma capture_size: "0 \<le> jr_size (fst (capture j method path rawPath query headers r))"
  by (auto simp: capture_def Let_def retainedSize_nonneg split: prod.split)

definition fits :: "int \<Rightarrow> int \<Rightarrow> requestRecord list \<Rightarrow> bool" where
  "fits n b es \<longleftrightarrow> int (length es) \<le> n \<and> sizes es \<le> b"

text \<open>The longest end of a list of requests that fits the limits.\<close>

fun window :: "int \<Rightarrow> int \<Rightarrow> requestRecord list \<Rightarrow> requestRecord list" where
  "window n b [] = []"
| "window n b (e # es) = (if fits n b (e # es) then e # es else window n b es)"

lemma window_append:
  "0 \<le> jr_size e \<Longrightarrow> window n b (es @ [e]) = window n b (window n b es @ [e])"
  by (induction es) (auto simp: fits_def)

lemma window_fits: "0 \<le> n \<Longrightarrow> 0 \<le> b \<Longrightarrow> fits n b (window n b es)"
  by (induction es) (auto simp: fits_def)

lemma window_length: "length (window n b es) \<le> length es"
  by (induction es) auto

lemma window_filter_length: "length (window n b (filter P es)) \<le> length es"
  by (meson order_trans window_length length_filter_le)

lemma window_same: "length (window n b es) = length es \<Longrightarrow> window n b es = es"
  using window_length[of n b "tl es"] by (cases es) (auto split: if_splits)

lemma window_suffix: "\<exists>lost. es = lost @ window n b es"
proof (induction es)
  case (Cons e es)
  then obtain lost where "es = lost @ window n b es" by blast
  then show ?case by (cases "fits n b (e # es)") (auto intro: exI[of _ "[]"] exI[of _ "e # lost"])
qed simp

lemma make_room_window:
  assumes "journal_ok j" "0 \<le> jr_size entry" "jr_size entry \<le> j_byteLimit j"
  shows "\<exists>j1. make_room entry j = Some j1 \<and> journal_ok j1 \<and>
    j_entries j1 @ [entry] = window (j_entryLimit j) (j_byteLimit j) (j_entries j @ [entry]) \<and>
    j1 = j\<lparr>j_entries := j_entries j1, j_retained := j_retained j1,
      j_incomplete := (j_incomplete j \<or> length (j_entries j1) < length (j_entries j))\<rparr>"
  using assms
proof (induction "j_entries j" arbitrary: j)
  case Nil
  then have "\<not> (int (length (j_entries j)) \<ge> j_entryLimit j \<or> jr_size entry > j_byteLimit j - j_retained j)"
    by (simp add: journal_ok_def)
  then have "make_room entry j = Some j" by (simp add: make_room_def while_option_unfold)
  with Nil show ?case by (intro exI[of _ j]) (simp add: journal_ok_def fits_def)
next
  case (Cons e es)
  note es = Cons.hyps(2)[symmetric]
  show ?case
  proof (cases "fits (j_entryLimit j) (j_byteLimit j) (j_entries j @ [entry])")
    case True
    then have "\<not> (int (length (j_entries j)) \<ge> j_entryLimit j \<or> jr_size entry > j_byteLimit j - j_retained j)"
      using Cons.prems by (auto simp: journal_ok_def fits_def)
    then have "make_room entry j = Some j" by (simp add: make_room_def while_option_unfold)
    with Cons.prems True es show ?thesis by (intro exI[of _ j]) simp
  next
    case False
    let ?j = "(dropOldest j)\<lparr>j_incomplete := True\<rparr>"
    have d: "j_entries ?j = es" "j_entryLimit ?j = j_entryLimit j" "j_byteLimit ?j = j_byteLimit j"
      "j_retained ?j = j_retained j - jr_size e" "j_incomplete ?j"
      by (simp_all add: dropOldest_def es)
    have "int (length (j_entries j)) \<ge> j_entryLimit j \<or> jr_size entry > j_byteLimit j - j_retained j"
      using False Cons.prems by (auto simp: journal_ok_def fits_def)
    then have m: "make_room entry j = make_room entry ?j" by (simp add: make_room_def while_option_unfold)
    have "journal_ok ?j" using Cons.prems(1) es unfolding journal_ok_def d by simp
    from Cons.hyps(1)[OF _ this] d Cons.prems obtain j1 where
      j1: "make_room entry ?j = Some j1" "journal_ok j1"
      "j_entries j1 @ [entry] = window (j_entryLimit j) (j_byteLimit j) (es @ [entry])"
      "j1 = ?j\<lparr>j_entries := j_entries j1, j_retained := j_retained j1,
        j_incomplete := (j_incomplete ?j \<or> length (j_entries j1) < length (j_entries ?j))\<rparr>" by auto
    have "window (j_entryLimit j) (j_byteLimit j) (j_entries j @ [entry]) = window (j_entryLimit j) (j_byteLimit j) (es @ [entry])"
      using False es by simp
    moreover have "length (j_entries j1) < length (j_entries j)"
      using window_length[of "j_entryLimit j" "j_byteLimit j" "es @ [entry]"] j1(3)
      by (metis Suc_le_lessD append_butlast_last_id es j1(3) length_Cons length_append_singleton less_Suc_eq_le)
    moreover have "j1 = j\<lparr>j_entries := j_entries j1, j_retained := j_retained j1, j_incomplete := True\<rparr>"
      by (subst j1(4)) (simp add: dropOldest_def es)
    ultimately show ?thesis using m j1 by (intro exI[of _ j1]) simp
  qed
qed

section \<open>Runs of the journal\<close>

datatype journal_op = OpAdd requestRecord | OpClear

text \<open>The calls of a journal in the order its lock gives them; \<open>None\<close> when one never returns.\<close>

fun journal_run :: "journal_op list \<Rightarrow> requestJournal \<Rightarrow> requestJournal option" where
  "journal_run [] j = Some j"
| "journal_run (OpAdd e # ops) j = (case journal_add e j of None \<Rightarrow> None | Some j1 \<Rightarrow> journal_run ops j1)"
| "journal_run (OpClear # ops) j = journal_run ops (journal_clear j)"

text \<open>The requests since the last clear.\<close>

fun requests_since :: "requestRecord list \<Rightarrow> journal_op list \<Rightarrow> requestRecord list" where
  "requests_since past [] = past"
| "requests_since past (OpAdd e # ops) = requests_since (past @ [e]) ops"
| "requests_since past (OpClear # ops) = requests_since [] ops"

definition op_sized :: "journal_op \<Rightarrow> bool" where
  "op_sized p = (case p of OpAdd e \<Rightarrow> 0 \<le> jr_size e | OpClear \<Rightarrow> True)"

definition journal_rel :: "int \<Rightarrow> int \<Rightarrow> requestJournal \<Rightarrow> requestRecord list \<Rightarrow> bool" where
  "journal_rel n b j past \<longleftrightarrow> journal_ok j \<and> j_entryLimit j = n \<and> j_byteLimit j = b \<and>
     j_entries j = window n b (filter (\<lambda>e. jr_size e \<le> b) past) \<and>
     (j_incomplete j \<longleftrightarrow> length (j_entries j) < length past)"

lemma journal_add_rel:
  assumes r: "journal_rel n b j past" and e: "0 \<le> jr_size e"
  shows "\<exists>j1. journal_add e j = Some j1 \<and> journal_rel n b j1 (past @ [e])"
proof (cases "jr_size e > b")
  case True
  have "length (j_entries j) < Suc (length past)"
    using r window_filter_length[of n b "\<lambda>e. jr_size e \<le> b" past] by (simp add: journal_rel_def)
  then show ?thesis using r True by (auto simp: journal_add_def journal_rel_def journal_ok_def)
next
  case False
  have ok: "journal_ok j" and n: "j_entryLimit j = n" and b: "j_byteLimit j = b"
    and w: "j_entries j = window n b (filter (\<lambda>e. jr_size e \<le> b) past)"
    and inc: "j_incomplete j \<longleftrightarrow> length (j_entries j) < length past"
    using r by (simp_all add: journal_rel_def)
  from make_room_window[OF ok e] False b obtain j1 where j1: "make_room e j = Some j1" "journal_ok j1"
    "j_entries j1 @ [e] = window n b (j_entries j @ [e])"
    "j1 = j\<lparr>j_entries := j_entries j1, j_retained := j_retained j1,
      j_incomplete := (j_incomplete j \<or> length (j_entries j1) < length (j_entries j))\<rparr>" using n by auto
  let ?j = "j1\<lparr>j_entries := j_entries j1 @ [e], j_retained := j_retained j1 + jr_size e\<rparr>"
  have pos: "0 < n" "0 < b" using ok n b by (simp_all add: journal_ok_def)
  have lim: "j_entryLimit j1 = n" "j_byteLimit j1 = b" by (subst j1(4), simp add: n b)+
  have "fits n b (j_entries j1 @ [e])" using j1(3) window_fits[of n b "j_entries j @ [e]"] pos by simp
  then have "journal_ok ?j" using j1(2) lim pos e by (auto simp: journal_ok_def fits_def)
  moreover have "j_entries ?j = window n b (filter (\<lambda>e. jr_size e \<le> b) (past @ [e]))"
    using window_append[OF e, of n b "filter (\<lambda>e. jr_size e \<le> b) past"] j1(3) w False by simp
  moreover have "length (j_entries j1) \<le> length (j_entries j)"
    using j1(3) window_length[of n b "j_entries j @ [e]"] by (metis length_append_singleton Suc_le_mono)
  then have "j_incomplete j1 \<longleftrightarrow> length (j_entries j1 @ [e]) < length (past @ [e])"
    using inc window_filter_length[of n b "\<lambda>e. jr_size e \<le> b" past] w
    by (subst j1(4)) auto
  ultimately have "journal_rel n b ?j (past @ [e])" using lim by (simp add: journal_rel_def)
  moreover have "journal_add e j = Some ?j" using False b j1(1) by (simp add: journal_add_def)
  ultimately show ?thesis by blast
qed

lemma journal_run_rel:
  "journal_rel n b j past \<Longrightarrow> list_all op_sized ops \<Longrightarrow>
    \<exists>j1. journal_run ops j = Some j1 \<and> journal_rel n b j1 (requests_since past ops)"
proof (induction ops arbitrary: j past)
  case (Cons p ops)
  show ?case
  proof (cases p)
    case (OpAdd e)
    then have "0 \<le> jr_size e" using Cons.prems(2) by (simp add: op_sized_def)
    from journal_add_rel[OF Cons.prems(1) this] OpAdd Cons.IH Cons.prems(2) show ?thesis by fastforce
  next
    case OpClear
    have "journal_rel n b (journal_clear j) []"
      using Cons.prems(1) by (simp add: journal_rel_def journal_clear_def journal_ok_def)
    with OpClear Cons.IH Cons.prems(2) show ?thesis by fastforce
  qed
qed simp

lemma new_journal_rel: "newRequestJournal opts = Inr j \<Longrightarrow> journal_rel (j_entryLimit j) (j_byteLimit j) j []"
  by (auto simp: newRequestJournal_def Let_def journal_rel_def journal_ok_def DefaultJournalEntries_def
      DefaultJournalBytes_def split: if_split_asm)

lemma count_loop_count:
  "count_loop done matches i es n = Inr m \<Longrightarrow> m = n + length (filter (\<lambda>e. matches e = Inr True) es)"
  by (induction "done" "matches" i es n rule: count_loop.induct) (auto split: option.split_asm sum.split_asm if_splits)

text \<open>
  C40: the journal never lies. Over any requests and clears every call returns, the entries are the longest end of
  the requests since the last clear that fits the two limits (a request larger than the byte limit is left out), the
  bytes kept are those of the entries and within the limit, the journal says it is complete exactly when no request
  since the last clear is missing, and a count that succeeds is the number of all those requests that match.
\<close>

theorem journal_counts_every_request:
  assumes "newRequestJournal opts = Inr j0" "list_all op_sized ops"
  shows "\<exists>j. journal_run ops j0 = Some j \<and>
    j_entries j = window (j_entryLimit j0) (j_byteLimit j0)
      (filter (\<lambda>e. jr_size e \<le> j_byteLimit j0) (requests_since [] ops)) \<and>
    js_entries (stats j) \<le> j_entryLimit j0 \<and> js_retained (stats j) = sizes (j_entries j) \<and>
    js_retained (stats j) \<le> j_byteLimit j0 \<and>
    (js_complete (stats j) \<longleftrightarrow> j_entries j = requests_since [] ops) \<and>
    (journal_count compile done j pattern = Inr n \<longrightarrow>
      (\<exists>p. compile pattern = Inr p \<and> n = length (filter (\<lambda>e. pattern_matches p e = Inr True) (requests_since [] ops))))"
proof -
  let ?n = "j_entryLimit j0" and ?b = "j_byteLimit j0" and ?log = "requests_since [] ops"
  obtain j where j: "journal_run ops j0 = Some j" "journal_rel ?n ?b j ?log"
    using journal_run_rel[OF new_journal_rel[OF assms(1)] assms(2)] by blast
  have same: "\<not> length (j_entries j) < length ?log \<Longrightarrow> j_entries j = ?log"
  proof -
    let ?kept = "filter (\<lambda>e. jr_size e \<le> ?b) ?log"
    assume "\<not> length (j_entries j) < length ?log"
    with j(2) have "\<not> length (window ?n ?b ?kept) < length ?log" by (simp add: journal_rel_def)
    then have "length (window ?n ?b ?kept) = length ?kept" "length ?kept = length ?log"
      using window_length[of ?n ?b ?kept] length_filter_le[of "\<lambda>e. jr_size e \<le> ?b" ?log] by linarith+
    moreover from this(2) have "?kept = ?log" by (metis filter_True length_filter_less nat_neq_iff)
    ultimately show ?thesis using window_same[of ?n ?b ?kept] j(2) by (simp add: journal_rel_def)
  qed
  then have comp: "\<not> j_incomplete j \<longleftrightarrow> j_entries j = ?log" using j(2) by (auto simp: journal_rel_def)
  have "journal_count compile done j pattern = Inr n \<Longrightarrow> \<exists>p. compile pattern = Inr p \<and>
      n = length (filter (\<lambda>e. pattern_matches p e = Inr True) ?log)"
    using comp count_loop_count[of "done" _ 0 "j_entries j" 0 n]
    by (auto simp: journal_count_def split: sum.split_asm if_split_asm)
  with j comp show ?thesis by (intro exI[of _ j]) (auto simp: journal_rel_def journal_ok_def stats_def)
qed

definition demo_request :: "string \<Rightarrow> requestRecord" where
  "demo_request path = \<lparr>jr_method = ''GET'', jr_path = path, jr_rawPath = [], jr_host = ''h'', jr_query = [],
     jr_headers = [], jr_body = [], jr_truncated = False, jr_size = 10\<rparr>"

theorem journal_counts_every_request_witness:
  "\<exists>j j0. newRequestJournal \<lparr>o_entries = 2, o_bytes = 100, o_bodyLimit = 50\<rparr> = Inr j0 \<and>
    journal_run [OpAdd (demo_request ''/a''), OpClear, OpAdd (demo_request ''/b''), OpAdd (demo_request ''/c''),
      OpAdd (demo_request ''/d'')] j0 = Some j \<and>
    j_entries j = [demo_request ''/c'', demo_request ''/d''] \<and> \<not> js_complete (stats j)"
proof -
  let ?j0 = "\<lparr>j_entries = [], j_entryLimit = 2, j_byteLimit = 100, j_bodyLimit = 50, j_retained = 0, j_incomplete = False\<rparr>"
  let ?ops = "[OpAdd (demo_request ''/a''), OpClear, OpAdd (demo_request ''/b''), OpAdd (demo_request ''/c''),
      OpAdd (demo_request ''/d'')]"
  have n: "newRequestJournal \<lparr>o_entries = 2, o_bytes = 100, o_bodyLimit = 50\<rparr> = Inr ?j0" by (simp add: newRequestJournal_def)
  have size: "jr_size (demo_request p) = 10" for p by (simp add: demo_request_def)
  then have l: "list_all op_sized ?ops" by (simp add: op_sized_def)
  have ne: "demo_request ''/b'' \<noteq> demo_request ''/c''" by (simp add: demo_request_def)
  obtain j where j: "journal_run ?ops ?j0 = Some j"
    "j_entries j = window 2 100 (filter (\<lambda>e. jr_size e \<le> 100) (requests_since [] ?ops))"
    "js_complete (stats j) \<longleftrightarrow> j_entries j = requests_since [] ?ops"
    using journal_counts_every_request[OF n l, unfolded requestJournal.simps, of "\<lambda>_. Inl (BadMethod [])" "\<lambda>_. None"]
    by blast
  have "j_entries j = [demo_request ''/c'', demo_request ''/d'']" unfolding j(2) by (simp add: fits_def size)
  with n j(1,3) show ?thesis by auto
qed

end
