(* ===== verification/StreamRing.thy ===== *)
theory StreamRing
  imports Machines
begin

text \<open>
  The transcript of a stream session (\<open>internal/stream/ringbuffer.go\<close>): a ring of slots that keeps the latest events,
  and the proof that it is the end of the list of all events.
\<close>

record 'e ringBuffer =
  rb_items :: "'e option list"
  rb_size :: nat
  rb_count :: nat
  rb_head :: nat

definition newRingBuffer :: "int \<Rightarrow> 'e ringBuffer" where
  "newRingBuffer slots =
     (let n = nat (if slots \<le> 0 then 1 else slots) in
      \<lparr>rb_items = replicate n None, rb_size = n, rb_count = 0, rb_head = 0\<rparr>)"

definition rb_append :: "'e \<Rightarrow> 'e ringBuffer \<Rightarrow> 'e ringBuffer" where
  "rb_append evt r =
     (if rb_size r = 0 then r
      else if rb_count r < rb_size r then
        r\<lparr>rb_items := (rb_items r)[(rb_head r + rb_count r) mod rb_size r := Some evt], rb_count := rb_count r + 1\<rparr>
      else r\<lparr>rb_items := (rb_items r)[rb_head r := Some evt], rb_head := (rb_head r + 1) mod rb_size r\<rparr>)"

definition rb_snapshot :: "'e ringBuffer \<Rightarrow> 'e option list" where
  "rb_snapshot r = map (\<lambda>i. rb_items r ! ((rb_head r + i) mod rb_size r)) [0..<rb_count r]"

section \<open>The latest events\<close>

definition last_n :: "nat \<Rightarrow> 'e list \<Rightarrow> 'e list" where
  "last_n n xs = drop (length xs - n) xs"

lemma last_n_append1: "0 < n \<Longrightarrow> last_n n (xs @ [x]) = (if length xs < n then xs @ [x] else tl (last_n n xs) @ [x])"
  by (auto simp: last_n_def drop_Suc tl_drop Suc_diff_le)

lemma length_last_n: "length (last_n n xs) = min n (length xs)"
  by (simp add: last_n_def min_def)

definition ring_rel :: "nat \<Rightarrow> 'e ringBuffer \<Rightarrow> 'e list \<Rightarrow> bool" where
  "ring_rel n r xs \<longleftrightarrow> 0 < n \<and> rb_size r = n \<and> length (rb_items r) = n \<and> rb_count r = min n (length xs) \<and>
     rb_head r < n \<and> (\<forall>i < rb_count r. rb_items r ! ((rb_head r + i) mod n) = Some (last_n n xs ! i))"

lemma ring_rel_new: "ring_rel (nat (if slots \<le> 0 then 1 else slots)) (newRingBuffer slots) []"
  by (simp add: ring_rel_def newRingBuffer_def Let_def)

lemma mod_shift_inj_le:
  assumes "i \<le> j" "j < n" "((h::nat) + i) mod n = (h + j) mod n" shows "i = j"
proof -
  have "n dvd (h + j) - (h + i)" using assms(1,3) mod_eq_dvd_iff_nat[of "h + i" "h + j" n] by simp
  then show ?thesis using assms(1,2) by (metis diff_add_inverse dvd_imp_le le_add_diff_inverse linorder_not_le
    add_diff_cancel_left zero_less_diff less_imp_diff_less nat_less_le)
qed

lemma mod_shift_inj:
  assumes "i < n" "j < n" "((h::nat) + i) mod n = (h + j) mod n" shows "i = j"
  using mod_shift_inj_le[of i j n h] mod_shift_inj_le[of j i n h] assms by (cases "i \<le> j") auto

lemma ring_rel_append:
  assumes r: "ring_rel n r xs"
  shows "ring_rel n (rb_append x r) (xs @ [x])"
proof (cases "length xs < n")
  case True
  have c: "rb_count r = length xs" "rb_size r = n" "length (rb_items r) = n" "0 < n" "rb_head r < n"
    using r True by (simp_all add: ring_rel_def)
  let ?k = "(rb_head r + length xs) mod n"
  have "(rb_items r)[?k := Some x] ! ((rb_head r + i) mod n) = Some ((xs @ [x]) ! i)" if i: "i < Suc (length xs)" for i
  proof (cases "i = length xs")
    case False
    then have "i < length xs" using i by simp
    moreover have "(rb_head r + i) mod n \<noteq> ?k" using mod_shift_inj[of i n "length xs" "rb_head r"] \<open>i < length xs\<close> True by auto
    moreover have "last_n n xs = xs" using True by (simp add: last_n_def)
    ultimately show ?thesis using r c by (simp add: ring_rel_def nth_append)
  qed (use c in simp)
  moreover have "last_n n (xs @ [x]) = xs @ [x]" using True by (simp add: last_n_def)
  ultimately show ?thesis using c True by (simp add: ring_rel_def rb_append_def)
next
  case False
  have c: "rb_count r = n" "rb_size r = n" "length (rb_items r) = n" "0 < n" "rb_head r < n"
    using r False by (simp_all add: ring_rel_def)
  have len: "length (last_n n xs) = n" using False by (simp add: length_last_n)
  have "(rb_items r)[rb_head r := Some x] ! (((rb_head r + 1) mod n + i) mod n) = Some (last_n n (xs @ [x]) ! i)"
    if i: "i < n" for i
  proof -
    have m: "((rb_head r + 1) mod n + i) mod n = (rb_head r + Suc i) mod n" by (metis add.assoc mod_add_left_eq plus_1_eq_Suc)
    show ?thesis
    proof (cases "Suc i < n")
      case True
      have "(rb_head r + Suc i) mod n \<noteq> rb_head r" using mod_shift_inj[of "Suc i" n 0 "rb_head r"] True c by auto
      moreover have "rb_items r ! ((rb_head r + Suc i) mod n) = Some (last_n n xs ! Suc i)"
        using r c(1) True unfolding ring_rel_def by (metis)
      moreover have "i < n - Suc 0" using True by linarith
      ultimately show ?thesis
        unfolding m using c True False len by (simp add: last_n_append1 nth_append nth_tl)
    next
      case newest: False
      then have "Suc i = n" using i by simp
      then have "(rb_head r + Suc i) mod n = rb_head r" using c by simp
      moreover have "\<not> i < n - Suc 0" using newest i by linarith
      ultimately show ?thesis unfolding m using c len False \<open>Suc i = n\<close> by (simp add: last_n_append1 nth_append)
    qed
  qed
  with c False show ?thesis by (simp add: ring_rel_def rb_append_def)
qed

lemma ring_snapshot: "ring_rel n r xs \<Longrightarrow> rb_snapshot r = map Some (last_n n xs)"
  by (rule nth_equalityI) (auto simp: rb_snapshot_def ring_rel_def length_last_n)

datatype 'e ring_op = RingAppend 'e | RingSnapshot

fun ring_step :: "'e ring_op \<Rightarrow> 'e ringBuffer \<Rightarrow> 'e option list \<times> 'e ringBuffer" where
  "ring_step (RingAppend x) r = ([], rb_append x r)"
| "ring_step RingSnapshot r = (rb_snapshot r, r)"

fun tail_step :: "nat \<Rightarrow> 'e ring_op \<Rightarrow> 'e list \<Rightarrow> 'e option list \<times> 'e list" where
  "tail_step n (RingAppend x) xs = ([], xs @ [x])"
| "tail_step n RingSnapshot xs = (map Some (last_n n xs), xs)"

interpretation ring_sim: refines_machine ring_step "tail_step n" "ring_rel n" for n
  by unfold_locales (rename_tac p, case_tac p, simp_all add: ring_rel_append ring_snapshot)

text \<open>
  Whatever is appended and read, every snapshot of the ring is the list of the latest events, oldest first and as
  many as the ring has slots, and never an empty slot.
\<close>

theorem ring_keeps_latest:
  "fst (run_ops ring_step ops (newRingBuffer slots)) =
   fst (run_ops (tail_step (nat (if slots \<le> 0 then 1 else slots))) ops [])"
  by (rule ring_sim.same_answers) (rule ring_rel_new)

end
