(* ===== verification/StreamSession.thy ===== *)
theory StreamSession
  imports StreamRing
begin

text \<open>
  Stream sessions (\<open>internal/stream/session.go\<close>): publishers append events to a transcript and hand them to
  listeners over buffered channels; listeners come and go, and a session is closed once.

  The unit of the model is what one goroutine does under a lock or on a channel: \<open>sys_act\<close> performs one such step
  for any goroutine and is \<open>None\<close> where the goroutine is not at that step or has to wait, so that a list of steps is an
  interleaving. The order in which a map of listeners is visited is part of the step. An event is a value: the code
  does not change an event it has published. Time stamps are left out, except that a session knows whether it ended.
\<close>

section \<open>Channels and listeners\<close>

datatype DropPolicy = DropNewest | DropOldest | DropListener

datatype State = StateConnecting | StateOpen | StateClosing | StateClosed | StateFailed

record 'd event =
  ev_seq :: nat
  ev_data :: 'd
  ev_bytes :: nat

record 'e chan =
  ch_buf :: "'e list"
  ch_cap :: nat
  ch_closed :: bool

datatype 'e send = Sent "'e chan" | Full | SendPanic

definition chan_send :: "'e \<Rightarrow> 'e chan \<Rightarrow> 'e send" where
  "chan_send e c = (if ch_closed c then SendPanic
     else if length (ch_buf c) < ch_cap c then Sent (c\<lparr>ch_buf := ch_buf c @ [e]\<rparr>) else Full)"

definition chan_close :: "'e chan \<Rightarrow> 'e chan option" where
  "chan_close c = (if ch_closed c then None else Some (c\<lparr>ch_closed := True\<rparr>))"

text \<open>A listener; \<open>li_held\<close> says that its mutex is held between steps.\<close>

record 'e listener =
  li_ch :: "'e chan"
  li_drops :: nat
  li_policy :: DropPolicy
  li_closed :: bool
  li_held :: bool

definition new_listener :: "nat \<Rightarrow> DropPolicy \<Rightarrow> 'e listener" where
  "new_listener cap policy = \<lparr>li_ch = \<lparr>ch_buf = [], ch_cap = cap, ch_closed = False\<rparr>, li_drops = 0,
     li_policy = policy, li_closed = False, li_held = False\<rparr>"

text \<open>\<open>listener.close\<close>; \<open>None\<close> is the panic of closing a channel twice.\<close>

definition li_close :: "'e listener \<Rightarrow> 'e listener option" where
  "li_close l = (if li_closed l then Some l
     else case chan_close (li_ch l) of None \<Rightarrow> None | Some c \<Rightarrow> Some (l\<lparr>li_closed := True, li_ch := c\<rparr>))"

text \<open>
  \<open>listener.emit\<close>. Other goroutines receive while it runs, so that making room under \<open>DropOldest\<close> takes two further
  steps, with the mutex held.
\<close>

datatype 'e emission = Emitted bool "'e listener" | MakeRoom | EmitPanic

definition emit_try :: "'e \<Rightarrow> 'e listener \<Rightarrow> 'e emission" where
  "emit_try evt l =
     (if li_closed l then Emitted False l
      else case chan_send evt (li_ch l) of
        SendPanic \<Rightarrow> EmitPanic
      | Sent c \<Rightarrow> Emitted True (l\<lparr>li_ch := c\<rparr>)
      | Full \<Rightarrow> (case li_policy l of
          DropNewest \<Rightarrow> Emitted False (l\<lparr>li_drops := li_drops l + 1\<rparr>)
        | DropListener \<Rightarrow> (case chan_close (li_ch l) of
            None \<Rightarrow> EmitPanic
          | Some c \<Rightarrow> Emitted False (l\<lparr>li_drops := li_drops l + 1, li_closed := True, li_ch := c\<rparr>))
        | DropOldest \<Rightarrow> MakeRoom))"

definition emit_discard :: "'e listener \<Rightarrow> 'e listener" where
  "emit_discard l = l\<lparr>li_ch := (li_ch l)\<lparr>ch_buf := tl (ch_buf (li_ch l))\<rparr>\<rparr>"

definition emit_retry :: "'e \<Rightarrow> 'e listener \<Rightarrow> 'e emission" where
  "emit_retry evt l = (case chan_send evt (li_ch l) of
       SendPanic \<Rightarrow> EmitPanic
     | Sent c \<Rightarrow> Emitted True (l\<lparr>li_ch := c\<rparr>)
     | Full \<Rightarrow> Emitted False (l\<lparr>li_drops := li_drops l + 1\<rparr>))"

section \<open>Sessions\<close>

record Config =
  cf_buffer :: int
  cf_listener :: int
  cf_policy :: "DropPolicy option"

text \<open>A policy outside the three constants is \<open>None\<close>.\<close>

definition defaultConfig :: "Config \<Rightarrow> Config" where
  "defaultConfig cfg = cfg\<lparr>cf_buffer := (if cf_buffer cfg \<le> 0 then 1024 else cf_buffer cfg),
     cf_listener := (if cf_listener cfg \<le> 0 then 64 else cf_listener cfg),
     cf_policy := (case cf_policy cfg of Some p \<Rightarrow> Some p | None \<Rightarrow> Some DropOldest)\<rparr>"

record 'd Session =
  se_cap :: nat
  se_policy :: DropPolicy
  se_state :: State
  se_err :: "string option"
  se_events :: "'d event ringBuffer"
  se_listeners :: "nat list"
  se_nextLID :: nat
  se_done :: bool
  se_once :: bool
  se_canceled :: bool
  se_ended :: bool
  se_total :: nat
  se_bytes :: nat
  se_dropped :: nat

definition NewSession :: "Config \<Rightarrow> 'd Session" where
  "NewSession cfg0 =
     (let cfg = defaultConfig cfg0 in
      \<lparr>se_cap = nat (cf_listener cfg), se_policy = (case cf_policy cfg of Some p \<Rightarrow> p | None \<Rightarrow> DropOldest),
       se_state = StateConnecting, se_err = None, se_events = newRingBuffer (cf_buffer cfg), se_listeners = [],
       se_nextLID = 0, se_done = False, se_once = False, se_canceled = False, se_ended = False, se_total = 0,
       se_bytes = 0, se_dropped = 0\<rparr>)"

record 'd Snapshot =
  sn_events :: "'d event option list"
  sn_state :: State
  sn_err :: "string option"

text \<open>\<open>Subscribe\<close>: the snapshot, and the new listener unless the session has ended.\<close>

definition Subscribe :: "'d Session \<Rightarrow> 'd Snapshot \<times> (nat \<times> 'd event listener) option \<times> 'd Session" where
  "Subscribe s =
     (let snapshot = \<lparr>sn_events = rb_snapshot (se_events s), sn_state = se_state s, sn_err = se_err s\<rparr> in
      if se_ended s then (snapshot, None, s)
      else (snapshot, Some (se_nextLID s, new_listener (se_cap s) (se_policy s)),
        s\<lparr>se_nextLID := se_nextLID s + 1, se_listeners := se_listeners s @ [se_nextLID s]\<rparr>))"

text \<open>The part of \<open>Publish\<close>, \<open>removeListener\<close> and \<open>Close\<close> that holds the mutex of the session.\<close>

definition publish_append :: "'d event \<Rightarrow> 'd Session \<Rightarrow> 'd Session" where
  "publish_append evt s = s\<lparr>se_events := rb_append evt (se_events s), se_total := se_total s + 1,
     se_bytes := se_bytes s + ev_bytes evt\<rparr>"

definition remove_entry :: "nat \<Rightarrow> 'd Session \<Rightarrow> bool \<times> 'd Session" where
  "remove_entry i s = (i \<in> set (se_listeners s), s\<lparr>se_listeners := remove1 i (se_listeners s)\<rparr>)"

definition close_state :: "string option \<Rightarrow> 'd Session \<Rightarrow> 'd Session" where
  "close_state err s0 =
     (let s = (if se_ended s0 then s0
        else (case err of
            Some e \<Rightarrow> s0\<lparr>se_state := StateFailed, se_err := Some e\<rparr>
          | None \<Rightarrow> s0\<lparr>se_state := StateClosed, se_err := None\<rparr>)\<lparr>se_ended := True\<rparr>) in
      s\<lparr>se_listeners := []\<rparr>)"

definition setState :: "State \<Rightarrow> string option \<Rightarrow> 'd Session \<Rightarrow> 'd Session" where
  "setState state err s =
     (let s1 = s\<lparr>se_state := state\<rparr> in
      if err \<noteq> None then s1\<lparr>se_err := err\<rparr> else if state = StateClosed then s1\<lparr>se_err := None\<rparr> else s1)"

definition MarkOpen :: "'d Session \<Rightarrow> 'd Session" where
  "MarkOpen s = setState StateOpen None s"

definition MarkClosing :: "'d Session \<Rightarrow> 'd Session" where
  "MarkClosing s = setState StateClosing None s"

section \<open>Goroutines\<close>

text \<open>Where a goroutine is inside \<open>Publish\<close>, the cancel function of a listener, or \<open>Close\<close>.\<close>

datatype 'd pc =
  Idle
| Numbered "'d event"
| Emitting "'d event" "nat list" nat
| Discard "'d event" nat "nat list" nat
| Retry "'d event" nat "nat list" nat
| CountDrops nat
| Removing nat
| CloseLock "string option"
| ClosingAll "nat list"
| Finishing

text \<open>
  The session, the listeners ever made, the counter of sequence numbers, the goroutines, and whether one panicked. The
  last four record what happened: all events appended, how many when a listener was made, the events offered to a
  listener so far, and the events received from it.
\<close>

record 'd sys =
  sy_ses :: "'d Session"
  sy_heap :: "nat \<Rightarrow> 'd event listener"
  sy_seq :: nat
  sy_pc :: "nat \<Rightarrow> 'd pc"
  sy_panic :: bool
  sy_log :: "'d event list"
  sy_from :: "nat \<Rightarrow> nat"
  sy_sent :: "nat \<Rightarrow> 'd event list"
  sy_got :: "nat \<Rightarrow> 'd event list"

datatype 'd action =
  ActNumber nat 'd nat
| ActAppend nat "nat list"
| ActEmit nat
| ActCount nat
| ActSubscribe nat
| ActCancel nat nat
| ActRemoved nat
| ActClose nat "string option"
| ActCloseLock nat "nat list"
| ActClosing nat
| ActFinish nat
| ActMark nat bool
| ActReceive nat

definition goto :: "nat \<Rightarrow> 'd pc \<Rightarrow> 'd sys \<Rightarrow> 'd sys" where
  "goto t p s = s\<lparr>sy_pc := (sy_pc s)(t := p)\<rparr>"

definition set_listener :: "nat \<Rightarrow> 'd event listener \<Rightarrow> 'd sys \<Rightarrow> 'd sys" where
  "set_listener i l s = s\<lparr>sy_heap := (sy_heap s)(i := l)\<rparr>"

definition offered :: "nat \<Rightarrow> 'd event \<Rightarrow> 'd sys \<Rightarrow> 'd sys" where
  "offered i e s = s\<lparr>sy_sent := (sy_sent s)(i := sy_sent s i @ [e])\<rparr>"

definition panic :: "'d sys \<Rightarrow> 'd sys" where
  "panic s = s\<lparr>sy_panic := True\<rparr>"

definition act_emit :: "nat \<Rightarrow> 'd sys \<Rightarrow> 'd sys option" where
  "act_emit t s = (case sy_pc s t of
       Emitting e [] d \<Rightarrow> Some (goto t (if d > 0 then CountDrops d else Idle) s)
     | Emitting e (i # ls) d \<Rightarrow>
         if li_held (sy_heap s i) then None
         else Some (case emit_try e (sy_heap s i) of
           EmitPanic \<Rightarrow> panic s
         | Emitted ok l \<Rightarrow> goto t (Emitting e ls (if ok then d else d + 1)) (offered i e (set_listener i l s))
         | MakeRoom \<Rightarrow> goto t (Discard e i ls d) (set_listener i ((sy_heap s i)\<lparr>li_held := True\<rparr>) s))
     | Discard e i ls d \<Rightarrow> Some (goto t (Retry e i ls d) (set_listener i (emit_discard (sy_heap s i)) s))
     | Retry e i ls d \<Rightarrow>
         Some (case emit_retry e (sy_heap s i) of
           Emitted ok l \<Rightarrow> goto t (Emitting e ls (if ok then d else d + 1))
             (offered i e (set_listener i (l\<lparr>li_held := False\<rparr>) s))
         | _ \<Rightarrow> panic s)
     | _ \<Rightarrow> None)"

text \<open>Closing the listener a goroutine stands at.\<close>

definition act_close_listener :: "nat \<Rightarrow> nat \<Rightarrow> 'd pc \<Rightarrow> 'd sys \<Rightarrow> 'd sys option" where
  "act_close_listener t i nxt s =
     (if li_held (sy_heap s i) then None
      else Some (case li_close (sy_heap s i) of None \<Rightarrow> panic s | Some l \<Rightarrow> goto t nxt (set_listener i l s)))"

definition act_subscribe :: "nat \<Rightarrow> 'd sys \<Rightarrow> 'd sys" where
  "act_subscribe t s = (case Subscribe (sy_ses s) of
       (_, None, ses) \<Rightarrow> s\<lparr>sy_ses := ses\<rparr>
     | (_, Some (i, l), ses) \<Rightarrow> (set_listener i l s)\<lparr>sy_ses := ses,
         sy_from := (sy_from s)(i := length (sy_log s)), sy_sent := (sy_sent s)(i := []), sy_got := (sy_got s)(i := [])\<rparr>)"

fun sys_act :: "'d action \<Rightarrow> 'd sys \<Rightarrow> 'd sys option" where
  "sys_act (ActNumber t d n) s = (if sy_pc s t \<noteq> Idle then None
     else Some (goto t (Numbered \<lparr>ev_seq = sy_seq s + 1, ev_data = d, ev_bytes = n\<rparr>) (s\<lparr>sy_seq := sy_seq s + 1\<rparr>)))"
| "sys_act (ActAppend t ls) s = (case sy_pc s t of
       Numbered e \<Rightarrow> if \<not> (distinct ls \<and> set ls = set (se_listeners (sy_ses s))) then None
         else Some (goto t (Emitting e ls 0) (s\<lparr>sy_ses := publish_append e (sy_ses s), sy_log := sy_log s @ [e]\<rparr>))
     | _ \<Rightarrow> None)"
| "sys_act (ActEmit t) s = act_emit t s"
| "sys_act (ActCount t) s = (case sy_pc s t of
       CountDrops d \<Rightarrow> Some (goto t Idle (s\<lparr>sy_ses := (sy_ses s)\<lparr>se_dropped := se_dropped (sy_ses s) + d\<rparr>\<rparr>))
     | _ \<Rightarrow> None)"
| "sys_act (ActSubscribe t) s = (if sy_pc s t \<noteq> Idle then None else Some (act_subscribe t s))"
| "sys_act (ActCancel t i) s = (if sy_pc s t \<noteq> Idle \<or> i \<ge> se_nextLID (sy_ses s) then None
     else case remove_entry i (sy_ses s) of (ok, ses) \<Rightarrow> Some (goto t (if ok then Removing i else Idle) (s\<lparr>sy_ses := ses\<rparr>)))"
| "sys_act (ActRemoved t) s = (case sy_pc s t of Removing i \<Rightarrow> act_close_listener t i Idle s | _ \<Rightarrow> None)"
| "sys_act (ActClose t err) s = (if sy_pc s t \<noteq> Idle then None
     else Some (goto t (CloseLock err) (s\<lparr>sy_ses := (sy_ses s)\<lparr>se_canceled := True\<rparr>\<rparr>)))"
| "sys_act (ActCloseLock t ls) s = (case sy_pc s t of
       CloseLock err \<Rightarrow> if \<not> (distinct ls \<and> set ls = set (se_listeners (sy_ses s))) then None
         else Some (goto t (ClosingAll ls) (s\<lparr>sy_ses := close_state err (sy_ses s)\<rparr>))
     | _ \<Rightarrow> None)"
| "sys_act (ActClosing t) s = (case sy_pc s t of
       ClosingAll (i # ls) \<Rightarrow> act_close_listener t i (ClosingAll ls) s
     | ClosingAll [] \<Rightarrow> Some (goto t Finishing s)
     | _ \<Rightarrow> None)"
| "sys_act (ActFinish t) s = (case sy_pc s t of
       Finishing \<Rightarrow>
         if se_once (sy_ses s) then Some (goto t Idle s)
         else if se_done (sy_ses s) then Some (panic s)
         else Some (goto t Idle (s\<lparr>sy_ses := (sy_ses s)\<lparr>se_once := True, se_done := True\<rparr>\<rparr>))
     | _ \<Rightarrow> None)"
| "sys_act (ActMark t opened) s = (if sy_pc s t \<noteq> Idle then None
     else Some (s\<lparr>sy_ses := (if opened then MarkOpen else MarkClosing) (sy_ses s)\<rparr>))"
| "sys_act (ActReceive i) s = (case ch_buf (li_ch (sy_heap s i)) of
       [] \<Rightarrow> None
     | e # es \<Rightarrow> Some ((set_listener i ((sy_heap s i)\<lparr>li_ch := (li_ch (sy_heap s i))\<lparr>ch_buf := es\<rparr>\<rparr>) s)
         \<lparr>sy_got := (sy_got s)(i := sy_got s i @ [e])\<rparr>))"

definition start :: "Config \<Rightarrow> 'd sys" where
  "start cfg = \<lparr>sy_ses = NewSession cfg, sy_heap = (\<lambda>_. (new_listener 0 DropNewest)\<lparr>li_closed := True,
       li_ch := \<lparr>ch_buf = [], ch_cap = 0, ch_closed = True\<rparr>\<rparr>), sy_seq = 0, sy_pc = (\<lambda>_. Idle), sy_panic = False,
     sy_log = [], sy_from = (\<lambda>_. 0), sy_sent = (\<lambda>_. []), sy_got = (\<lambda>_. [])\<rparr>"

end
