(* ===== verification/StreamManager.thy ===== *)
theory StreamManager
  imports StreamSession Prelude
begin

text \<open>
  The table of running stream sessions (\<open>internal/stream/manager.go\<close>): sessions are registered under their ID, hooks can
  be added to a registered session, and one goroutine per registration waits for the end of the session, takes it out
  of the table and runs its hooks.

  As in \<open>StreamSession\<close> a step is what one goroutine does under a lock or through a pointer, and \<open>mgr_act\<close> is \<open>None\<close>
  where the goroutine is not at that step, has to wait, or the process has panicked. The sessions themselves take their
  own steps in between, and share the counter of sequence numbers. \<open>Get\<close>, \<open>Cancel\<close> and \<open>Snapshot\<close> look the entry up
  under the lock and use it after the lock is released. An assignment of a summary is one step; a time is a number,
  and of the end of a session only whether it is set.
\<close>

section \<open>Data\<close>

datatype StreamKind = KindSSE | KindWebSocket | KindGRPC

text \<open>What a session is made with and keeps.\<close>

record Ident =
  id_id :: string
  id_kind :: StreamKind
  id_started :: nat

record SessionSummary =
  su_ID :: string
  su_Kind :: StreamKind
  su_State :: State
  su_Err :: "string option"
  su_StartedAt :: nat
  su_EndedAt :: bool

definition no_summary :: SessionSummary where
  "no_summary = \<lparr>su_ID = [], su_Kind = KindSSE, su_State = StateConnecting, su_Err = None, su_StartedAt = 0, su_EndedAt = False\<rparr>"

text \<open>An entry of the table; the session is a pointer, \<open>None\<close> for \<open>nil\<close>.\<close>

record 'h managedSession =
  ms_session :: "nat option"
  ms_hooks :: "'h list"
  ms_summary :: SessionSummary

section \<open>Goroutines\<close>

text \<open>Where a goroutine is inside \<open>currentSummary\<close>.\<close>

datatype summing =
  SumCheck
| SumState
| SumStats State "string option"
| SumID SessionSummary
| SumKind SessionSummary

text \<open>Where a caller is: in \<open>Register\<close>, past the look-up of \<open>Cancel\<close>, \<open>Snapshot\<close> or \<open>Get\<close>, or in the loop of \<open>List\<close>.\<close>

datatype call =
  NoCall
| RegState nat
| RegStats nat State "string option"
| RegInsert nat SessionSummary
| CancelAt nat
| SnapshotAt nat
| GetAt nat summing
| ListAt "nat list" summing "SessionSummary list"

datatype 'd answer =
  AnsSummary SessionSummary
| AnsGet SessionSummary bool
| AnsBool bool
| AnsList "SessionSummary list"
| AnsEvents "'d event option list" bool

text \<open>Where the goroutine \<open>watch\<close> of an entry is.\<close>

datatype ('d, 'h) watch =
  WOff
| WStart
| WWait nat
| WState nat
| WStats nat State "string option"
| WEvents nat SessionSummary
| WDelete nat SessionSummary "'d event option list"
| WHooks "'h list" SessionSummary "'d event option list"
| WDone

text \<open>
  The sessions, the counter of sequence numbers, the table, the entries ever made, who holds the lock for reading, the
  goroutines and their last answers. The last three record what happened: the session an entry was made for, the hooks
  accepted for it, and the hooks run with what they were given.
\<close>

record ('d, 'h) Manager =
  mn_ident :: "nat \<Rightarrow> Ident"
  mn_ses :: "nat \<Rightarrow> 'd sys"
  mn_seq :: nat
  mn_sessions :: "nat smap"
  mn_heap :: "nat \<Rightarrow> 'h managedSession"
  mn_made :: nat
  mn_readers :: "nat list"
  mn_call :: "nat \<Rightarrow> call"
  mn_ans :: "nat \<Rightarrow> 'd answer option"
  mn_watch :: "nat \<Rightarrow> ('d, 'h) watch"
  mn_panic :: bool
  mn_for :: "nat \<Rightarrow> nat"
  mn_hooked :: "nat \<Rightarrow> 'h list"
  mn_ran :: "nat \<Rightarrow> ('h \<times> SessionSummary \<times> 'd event option list) list"

definition NewManager :: "(nat \<Rightarrow> Config) \<Rightarrow> (nat \<Rightarrow> Ident) \<Rightarrow> ('d, 'h) Manager" where
  "NewManager cfg ident = \<lparr>mn_ident = ident, mn_ses = (\<lambda>p. start (cfg p)), mn_seq = 0, mn_sessions = [],
     mn_heap = (\<lambda>_. \<lparr>ms_session = None, ms_hooks = [], ms_summary = no_summary\<rparr>), mn_made = 0, mn_readers = [],
     mn_call = (\<lambda>_. NoCall), mn_ans = (\<lambda>_. None), mn_watch = (\<lambda>_. WOff), mn_panic = False, mn_for = (\<lambda>_. 0),
     mn_hooked = (\<lambda>_. []), mn_ran = (\<lambda>_. [])\<rparr>"

definition ses_of :: "('d, 'h) Manager \<Rightarrow> nat \<Rightarrow> 'd Session" where
  "ses_of w p = sy_ses (mn_ses w p)"

definition call_at :: "nat \<Rightarrow> call \<Rightarrow> ('d, 'h) Manager \<Rightarrow> ('d, 'h) Manager" where
  "call_at t c w = w\<lparr>mn_call := (mn_call w)(t := c)\<rparr>"

definition call_answer :: "nat \<Rightarrow> 'd answer \<Rightarrow> ('d, 'h) Manager \<Rightarrow> ('d, 'h) Manager" where
  "call_answer t r w = w\<lparr>mn_call := (mn_call w)(t := NoCall), mn_ans := (mn_ans w)(t := Some r)\<rparr>"

definition mgr_crash :: "('d, 'h) Manager \<Rightarrow> ('d, 'h) Manager" where
  "mgr_crash w = w\<lparr>mn_panic := True\<rparr>"

definition watching :: "nat \<Rightarrow> ('d, 'h) watch \<Rightarrow> ('d, 'h) Manager \<Rightarrow> ('d, 'h) Manager" where
  "watching m x w = w\<lparr>mn_watch := (mn_watch w)(m := x)\<rparr>"

section \<open>Operations\<close>

text \<open>A summary of session \<open>p\<close> out of what was read of it.\<close>

definition summary_of :: "Ident \<Rightarrow> State \<Rightarrow> string option \<Rightarrow> bool \<Rightarrow> SessionSummary" where
  "summary_of i st err ended = \<lparr>su_ID = id_id i, su_Kind = id_kind i, su_State = st, su_Err = err,
     su_StartedAt = id_started i, su_EndedAt = ended\<rparr>"

text \<open>
  \<open>currentSummary\<close> of the entry \<open>m\<close>: it is done, goes on, or uses the \<open>nil\<close> pointer. The pointer is read anew by every
  call through it.
\<close>

datatype summed = SumNil | SumNext summing | SumDone SessionSummary

fun sum_act :: "('d, 'h) Manager \<Rightarrow> nat \<Rightarrow> summing \<Rightarrow> summed" where
  "sum_act w m SumCheck = (case ms_session (mn_heap w m) of
       None \<Rightarrow> SumDone (ms_summary (mn_heap w m)) | Some p \<Rightarrow> SumNext SumState)"
| "sum_act w m SumState = (case ms_session (mn_heap w m) of
       None \<Rightarrow> SumNil | Some p \<Rightarrow> SumNext (SumStats (se_state (ses_of w p)) (se_err (ses_of w p))))"
| "sum_act w m (SumStats st err) = (case ms_session (mn_heap w m) of
       None \<Rightarrow> SumNil
     | Some p \<Rightarrow> SumNext (SumID ((ms_summary (mn_heap w m))\<lparr>su_State := st, su_Err := err,
         su_StartedAt := id_started (mn_ident w p), su_EndedAt := se_ended (ses_of w p)\<rparr>)))"
| "sum_act w m (SumID su) = (case ms_session (mn_heap w m) of
       None \<Rightarrow> SumNil | Some p \<Rightarrow> SumNext (SumKind (su\<lparr>su_ID := id_id (mn_ident w p)\<rparr>)))"
| "sum_act w m (SumKind su) = (case ms_session (mn_heap w m) of
       None \<Rightarrow> SumNil | Some p \<Rightarrow> SumDone (su\<lparr>su_Kind := id_kind (mn_ident w p)\<rparr>))"

text \<open>The part of \<open>Register\<close> that holds the lock; the new entry gets its goroutine.\<close>

definition insert_entry :: "nat \<Rightarrow> SessionSummary \<Rightarrow> ('d, 'h) Manager \<Rightarrow> ('d, 'h) Manager" where
  "insert_entry p su w = (let m = mn_made w in
     w\<lparr>mn_sessions := smap_put (id_id (mn_ident w p)) m (mn_sessions w),
       mn_heap := (mn_heap w)(m := \<lparr>ms_session = Some p, ms_hooks = [], ms_summary = su\<rparr>), mn_made := m + 1,
       mn_watch := (mn_watch w)(m := WStart), mn_for := (mn_for w)(m := p)\<rparr>)"

text \<open>\<open>AddCompletionHook\<close>, all of it under the lock.\<close>

definition add_hook :: "nat \<Rightarrow> string \<Rightarrow> 'h \<Rightarrow> ('d, 'h) Manager \<Rightarrow> ('d, 'h) Manager" where
  "add_hook t i h w = (case map_of (mn_sessions w) i of
       None \<Rightarrow> call_answer t (AnsBool False) w
     | Some m \<Rightarrow> call_answer t (AnsBool True)
         (w\<lparr>mn_heap := (mn_heap w)(m := (mn_heap w m)\<lparr>ms_hooks := ms_hooks (mn_heap w m) @ [h]\<rparr>),
            mn_hooked := (mn_hooked w)(m := mn_hooked w m @ [h])\<rparr>))"

text \<open>The next step of a caller inside an operation.\<close>

definition call_act :: "nat \<Rightarrow> ('d, 'h) Manager \<Rightarrow> ('d, 'h) Manager option" where
  "call_act t w = (case mn_call w t of
       NoCall \<Rightarrow> None
     | RegState p \<Rightarrow> Some (call_at t (RegStats p (se_state (ses_of w p)) (se_err (ses_of w p))) w)
     | RegStats p st err \<Rightarrow> Some (call_at t (RegInsert p (summary_of (mn_ident w p) st err False)) w)
     | RegInsert p su \<Rightarrow> if mn_readers w \<noteq> [] then None else Some (call_answer t (AnsSummary su) (insert_entry p su w))
     | CancelAt m \<Rightarrow> Some (case ms_session (mn_heap w m) of
         None \<Rightarrow> mgr_crash w
       | Some p \<Rightarrow> call_answer t (AnsBool True) (w\<lparr>mn_ses := (mn_ses w)(p :=
           (mn_ses w p)\<lparr>sy_ses := (ses_of w p)\<lparr>se_canceled := True\<rparr>\<rparr>)\<rparr>))
     | SnapshotAt m \<Rightarrow> Some (case ms_session (mn_heap w m) of
         None \<Rightarrow> mgr_crash w
       | Some p \<Rightarrow> call_answer t (AnsEvents (rb_snapshot (se_events (ses_of w p))) True) w)
     | GetAt m x \<Rightarrow> Some (case sum_act w m x of
         SumNil \<Rightarrow> mgr_crash w | SumNext y \<Rightarrow> call_at t (GetAt m y) w | SumDone su \<Rightarrow> call_answer t (AnsGet su True) w)
     | ListAt [] x acc \<Rightarrow> Some (call_answer t (AnsList acc) (w\<lparr>mn_readers := remove1 t (mn_readers w)\<rparr>))
     | ListAt (m # ms) x acc \<Rightarrow> Some (case sum_act w m x of
         SumNil \<Rightarrow> mgr_crash w
       | SumNext y \<Rightarrow> call_at t (ListAt (m # ms) y acc) w
       | SumDone su \<Rightarrow> call_at t (ListAt ms SumCheck (acc @ [su])) w))"

text \<open>The part of \<open>watch\<close> that holds the lock.\<close>

definition retire :: "nat \<Rightarrow> nat \<Rightarrow> SessionSummary \<Rightarrow> 'd event option list \<Rightarrow> ('d, 'h) Manager \<Rightarrow> ('d, 'h) Manager" where
  "retire m p su evs w =
     watching m (WHooks (ms_hooks (mn_heap w m)) su evs)
       (w\<lparr>mn_sessions := smap_del (id_id (mn_ident w p)) (mn_sessions w),
          mn_heap := (mn_heap w)(m := \<lparr>ms_session = None, ms_hooks = [], ms_summary = su\<rparr>)\<rparr>)"

definition watch_act :: "nat \<Rightarrow> ('d, 'h) Manager \<Rightarrow> ('d, 'h) Manager option" where
  "watch_act m w = (case mn_watch w m of
       WOff \<Rightarrow> None
     | WStart \<Rightarrow> Some (watching m (case ms_session (mn_heap w m) of None \<Rightarrow> WDone | Some p \<Rightarrow> WWait p) w)
     | WWait p \<Rightarrow> if se_done (ses_of w p) then Some (watching m (WState p) w) else None
     | WState p \<Rightarrow> Some (watching m (WStats p (se_state (ses_of w p)) (se_err (ses_of w p))) w)
     | WStats p st err \<Rightarrow> Some (watching m (WEvents p (summary_of (mn_ident w p) st err (se_ended (ses_of w p)))) w)
     | WEvents p su \<Rightarrow> Some (watching m (WDelete p su (rb_snapshot (se_events (ses_of w p)))) w)
     | WDelete p su evs \<Rightarrow> if mn_readers w \<noteq> [] then None else Some (retire m p su evs w)
     | WHooks [] su evs \<Rightarrow> Some (watching m WDone w)
     | WHooks (h # hs) su evs \<Rightarrow> Some (watching m (WHooks hs su evs)
         (w\<lparr>mn_ran := (mn_ran w)(m := mn_ran w m @ [(h, su, evs)])\<rparr>))
     | WDone \<Rightarrow> None)"

text \<open>A session, an argument that may be \<open>nil\<close>, is \<open>None\<close> there.\<close>

datatype ('d, 'h) mgr_action =
  SessionStep nat "'d action"
| Register nat "nat option"
| CancelID nat string
| SnapshotID nat string
| GetID nat string
| ListAll nat "nat list"
| AddHook nat string "'h option"
| CallStep nat
| WatchStep nat

definition session_act :: "nat \<Rightarrow> 'd action \<Rightarrow> ('d, 'h) Manager \<Rightarrow> ('d, 'h) Manager option" where
  "session_act p a w = (case sys_act a ((mn_ses w p)\<lparr>sy_seq := mn_seq w\<rparr>) of
       None \<Rightarrow> None | Some s \<Rightarrow> Some (w\<lparr>mn_ses := (mn_ses w)(p := s), mn_seq := sy_seq s\<rparr>))"

text \<open>The start of a call; \<open>List\<close> visits the table in the order \<open>ms\<close> and holds the lock for reading until it returns.\<close>

fun call_start :: "('d, 'h) mgr_action \<Rightarrow> ('d, 'h) Manager \<Rightarrow> ('d, 'h) Manager option" where
  "call_start (Register t None) w = Some (call_answer t (AnsSummary no_summary) w)"
| "call_start (Register t (Some p)) w = Some (call_at t (RegState p) w)"
| "call_start (CancelID t i) w = Some (case map_of (mn_sessions w) i of
     None \<Rightarrow> call_answer t (AnsBool False) w | Some m \<Rightarrow> call_at t (CancelAt m) w)"
| "call_start (SnapshotID t i) w = Some (case map_of (mn_sessions w) i of
     None \<Rightarrow> call_answer t (AnsEvents [] False) w | Some m \<Rightarrow> call_at t (SnapshotAt m) w)"
| "call_start (GetID t i) w = Some (case map_of (mn_sessions w) i of
     None \<Rightarrow> call_answer t (AnsGet no_summary False) w | Some m \<Rightarrow> call_at t (GetAt m SumCheck) w)"
| "call_start (ListAll t ms) w =
     (if \<not> (distinct ms \<and> set ms = snd ` set (mn_sessions w)) then None
      else Some (call_at t (ListAt ms SumCheck []) (w\<lparr>mn_readers := t # mn_readers w\<rparr>)))"
| "call_start (AddHook t i None) w = Some (call_answer t (AnsBool False) w)"
| "call_start (AddHook t i (Some h)) w = (if mn_readers w \<noteq> [] then None else Some (add_hook t i h w))"
| "call_start _ w = None"

fun mgr_caller :: "('d, 'h) mgr_action \<Rightarrow> nat" where
  "mgr_caller (Register t _) = t" | "mgr_caller (CancelID t _) = t" | "mgr_caller (SnapshotID t _) = t" | "mgr_caller (GetID t _) = t"
| "mgr_caller (ListAll t _) = t" | "mgr_caller (AddHook t _ _) = t" | "mgr_caller (CallStep t) = t"
| "mgr_caller (SessionStep p _) = p" | "mgr_caller (WatchStep m) = m"

definition mgr_act :: "('d, 'h) mgr_action \<Rightarrow> ('d, 'h) Manager \<Rightarrow> ('d, 'h) Manager option" where
  "mgr_act a w = (if mn_panic w then None else case a of
       SessionStep p b \<Rightarrow> session_act p b w
     | CallStep t \<Rightarrow> call_act t w
     | WatchStep m \<Rightarrow> watch_act m w
     | _ \<Rightarrow> if mn_call w (mgr_caller a) \<noteq> NoCall then None else call_start a w)"

end
