(* ===== verification/StreamSessionProps.thy ===== *)
theory StreamSessionProps
  imports StreamSession "HOL-Library.Sublist"
begin

text \<open>
  Invariants of stream sessions under every interleaving: channels are closed once and never written to afterwards,
  and the transcript and the events a listener is offered split the events of the session without loss or repetition.
\<close>

lemmas sys_simps = goto_def set_listener_def offered_def panic_def

section \<open>Locks and channels\<close>

text \<open>The listener whose mutex a goroutine holds.\<close>

fun holds :: "'d pc \<Rightarrow> nat option" where
  "holds (Discard e i ls d) = Some i"
| "holds (Retry e i ls d) = Some i"
| "holds _ = None"

definition li_ok :: "'e listener \<Rightarrow> bool" where
  "li_ok l \<longleftrightarrow> li_closed l = ch_closed (li_ch l) \<and> length (ch_buf (li_ch l)) \<le> ch_cap (li_ch l)"

definition locks_ok :: "'d sys \<Rightarrow> bool" where
  "locks_ok s \<longleftrightarrow> \<not> sy_panic s \<and> (\<forall>i. li_ok (sy_heap s i)) \<and> se_once (sy_ses s) = se_done (sy_ses s) \<and>
     (\<forall>t i. holds (sy_pc s t) = Some i \<longrightarrow> li_held (sy_heap s i) \<and> \<not> li_closed (sy_heap s i)) \<and>
     (\<forall>t u i. holds (sy_pc s t) = Some i \<longrightarrow> holds (sy_pc s u) = Some i \<longrightarrow> t = u)"

lemma li_ok_try: "li_ok l \<Longrightarrow> emit_try e l = Emitted ok l' \<Longrightarrow> li_ok l' \<and> li_held l' = li_held l"
  by (auto simp: li_ok_def emit_try_def chan_send_def chan_close_def split: if_split_asm DropPolicy.split_asm option.split_asm)

lemma try_no_panic: "li_ok l \<Longrightarrow> emit_try e l \<noteq> EmitPanic"
  by (auto simp: li_ok_def emit_try_def chan_send_def chan_close_def split: DropPolicy.split)

lemma try_room: "emit_try e l = MakeRoom \<Longrightarrow> \<not> li_closed l"
  by (auto simp: emit_try_def split: if_split_asm)

lemma li_ok_discard: "li_ok l \<Longrightarrow> li_ok (emit_discard l)"
  by (auto simp: li_ok_def emit_discard_def)

lemma retry_ok: "li_ok l \<Longrightarrow> \<not> li_closed l \<Longrightarrow> \<exists>ok l'. emit_retry e l = Emitted ok l' \<and> li_ok l' \<and> \<not> li_closed l'"
  by (auto simp: li_ok_def emit_retry_def chan_send_def)

lemma li_close_ok: "li_ok l \<Longrightarrow> \<exists>l'. li_close l = Some l' \<and> li_ok l' \<and> li_closed l' \<and> li_held l' = li_held l"
  by (auto simp: li_ok_def li_close_def chan_close_def)

lemma li_ok_new: "li_ok (new_listener cap p)"
  by (simp add: li_ok_def new_listener_def)

lemma holds_if [simp]: "holds (if b then CountDrops d else Idle) = None" "holds (if b then Removing i else Idle) = None"
  by simp_all

lemma locks_goto: "locks_ok s \<Longrightarrow> holds p = None \<Longrightarrow> locks_ok (goto t p s)"
  unfolding locks_ok_def sys_simps by (simp split: if_splits)

lemma locks_listener:
  "locks_ok s \<Longrightarrow> li_ok l \<Longrightarrow> \<forall>t. holds (sy_pc s t) = Some i \<longrightarrow> li_held l \<and> \<not> li_closed l \<Longrightarrow> locks_ok (set_listener i l s)"
  unfolding locks_ok_def sys_simps by simp

lemma locks_offered: "locks_ok s \<Longrightarrow> locks_ok (offered i e s)"
  by (simp add: locks_ok_def sys_simps)

lemma locks_ses: "locks_ok s \<Longrightarrow> se_once ses = se_done ses \<Longrightarrow> locks_ok (s\<lparr>sy_ses := ses\<rparr>)"
  by (simp add: locks_ok_def)

lemma locks_history:
  "locks_ok s \<Longrightarrow> locks_ok (s\<lparr>sy_log := x\<rparr>)" "locks_ok s \<Longrightarrow> locks_ok (s\<lparr>sy_seq := n\<rparr>)"
  "locks_ok s \<Longrightarrow> locks_ok (s\<lparr>sy_from := y\<rparr>)" "locks_ok s \<Longrightarrow> locks_ok (s\<lparr>sy_sent := z\<rparr>)"
  "locks_ok s \<Longrightarrow> locks_ok (s\<lparr>sy_got := z\<rparr>)"
  by (simp_all add: locks_ok_def)

lemmas locks_intros = locks_goto locks_listener locks_offered locks_ses locks_history

text \<open>A goroutine takes a mutex that is free, keeps it over a change of the listener, or gives it back.\<close>

lemma locks_take:
  assumes "locks_ok s" "\<not> li_held (sy_heap s i)" "\<not> li_closed (sy_heap s i)"
  shows "locks_ok (goto t (Discard e i ls d) (set_listener i ((sy_heap s i)\<lparr>li_held := True\<rparr>) s))"
  using assms unfolding locks_ok_def sys_simps by (auto simp: li_ok_def)

lemma locks_keep:
  assumes "locks_ok s" "holds (sy_pc s t) = Some i" "holds p = Some i" "li_ok l" "li_held l" "\<not> li_closed l"
  shows "locks_ok (goto t p (set_listener i l s))"
  using assms unfolding locks_ok_def sys_simps by simp metis

lemma locks_drop:
  assumes "locks_ok s" "holds (sy_pc s t) = Some i" "holds p = None" "li_ok l"
  shows "locks_ok (goto t p (set_listener i l s))"
  using assms unfolding locks_ok_def sys_simps by simp metis

lemma not_held: "locks_ok s \<Longrightarrow> \<not> li_held (sy_heap s i) \<Longrightarrow> holds (sy_pc s t) \<noteq> Some i"
  unfolding locks_ok_def by blast

lemma holding: "locks_ok s \<Longrightarrow> holds (sy_pc s t) = Some i \<Longrightarrow>
    li_held (sy_heap s i) \<and> \<not> li_closed (sy_heap s i) \<and> li_ok (sy_heap s i)"
  unfolding locks_ok_def by blast

lemma offered_comm: "offered i e (set_listener j l s) = set_listener j l (offered i e s)"
  by (simp add: sys_simps)

lemma emit_keeps_locks:
  assumes a: "locks_ok s" "act_emit t s = Some s'"
  shows "locks_ok s'"
proof (cases "sy_pc s t")
  case (Emitting e ls d)
  show ?thesis
  proof (cases ls)
    case Nil
    with a Emitting show ?thesis by (auto simp: act_emit_def intro: locks_goto)
  next
    case (Cons i rest)
    have ok: "li_ok (sy_heap s i)" using a by (simp add: locks_ok_def)
    have free: "\<not> li_held (sy_heap s i)" using a Emitting Cons by (simp add: act_emit_def split: if_split_asm)
    then have "\<forall>t. holds (sy_pc s t) \<noteq> Some i" using not_held[OF a(1)] by blast
    then have none: "\<forall>t. holds (sy_pc s t) = Some i \<longrightarrow> li_held l \<and> \<not> li_closed l" for l :: "'a event listener" by simp
    show ?thesis
    proof (cases "emit_try e (sy_heap s i)")
      case (Emitted b l)
      with a Emitting Cons free li_ok_try[OF ok, of e b l] show ?thesis
        by (auto simp: act_emit_def intro!: locks_goto locks_offered locks_listener none)
    next
      case MakeRoom
      with a Emitting Cons free locks_take[OF a(1) free try_room[OF MakeRoom], of t e rest d] show ?thesis
        by (simp add: act_emit_def)
    qed (use try_no_panic[OF ok] in blast)
  qed
next
  case (Discard e i ls d)
  then have "li_held (sy_heap s i)" "\<not> li_closed (sy_heap s i)" "li_ok (sy_heap s i)" using holding[OF a(1), of t i] by simp_all
  with Discard a show ?thesis
    by (auto simp: act_emit_def emit_discard_def li_ok_def intro!: locks_keep)
next
  case (Retry e i ls d)
  then have ok: "li_ok (sy_heap s i)" "\<not> li_closed (sy_heap s i)" using holding[OF a(1), of t i] by simp_all
  from retry_ok[OF ok, of e] obtain b l where "emit_retry e (sy_heap s i) = Emitted b l" "li_ok l" by blast
  with a Retry show ?thesis
    by (auto simp: act_emit_def offered_comm li_ok_def intro!: locks_drop locks_offered) (simp_all add: sys_simps)
qed (use a in \<open>auto simp: act_emit_def\<close>)

lemma close_keeps_locks:
  assumes "locks_ok s" "holds nxt = None" "act_close_listener t i nxt s = Some s'"
  shows "locks_ok s'"
proof -
  have "li_ok (sy_heap s i)" using assms(1) by (simp add: locks_ok_def)
  from li_close_ok[OF this] not_held[OF assms(1), of i] assms show ?thesis
    by (auto simp: act_close_listener_def intro!: locks_goto locks_listener split: if_split_asm)
qed

lemma ses_locks:
  "se_once (publish_append e ses) = se_once ses" "se_done (publish_append e ses) = se_done ses"
  "se_once (close_state err ses) = se_once ses" "se_done (close_state err ses) = se_done ses"
  "se_once (MarkOpen ses) = se_once ses" "se_done (MarkOpen ses) = se_done ses"
  "se_once (MarkClosing ses) = se_once ses" "se_done (MarkClosing ses) = se_done ses"
  by (simp_all add: publish_append_def close_state_def MarkOpen_def MarkClosing_def setState_def Let_def split: option.split)

lemma subscribe_keeps_locks:
  assumes "locks_ok s" "sy_pc s t = Idle" "\<forall>t. holds (sy_pc s t) \<noteq> Some (se_nextLID (sy_ses s))"
  shows "locks_ok (act_subscribe t s)"
  using assms by (auto simp: act_subscribe_def Subscribe_def Let_def li_ok_new locks_ok_def sys_simps)

section \<open>Which listeners a goroutine has before it\<close>

fun pends :: "'d pc \<Rightarrow> nat list" where
  "pends (Emitting e ls d) = ls"
| "pends (Discard e i ls d) = i # ls"
| "pends (Retry e i ls d) = i # ls"
| "pends _ = []"

fun carries :: "'d pc \<Rightarrow> 'd event option" where
  "carries (Numbered e) = Some e"
| "carries (Emitting e ls d) = Some e"
| "carries (Discard e i ls d) = Some e"
| "carries (Retry e i ls d) = Some e"
| "carries _ = None"

fun closes :: "'d pc \<Rightarrow> nat list" where
  "closes (Removing i) = [i]"
| "closes (ClosingAll ls) = ls"
| "closes _ = []"

fun in_close :: "'d pc \<Rightarrow> bool" where
  "in_close (ClosingAll ls) = True"
| "in_close Finishing = True"
| "in_close _ = False"

lemma holds_pends: "holds p = Some i \<Longrightarrow> i \<in> set (pends p)"
  by (cases p) auto

text \<open>
  One step of goroutine \<open>t\<close>, as far as the invariants look at it: where it goes, and for every other part of the state
  whether it changes. All steps are one of these.
\<close>

definition ids_ok :: "'d sys \<Rightarrow> bool" where
  "ids_ok s \<longleftrightarrow> distinct (se_listeners (sy_ses s)) \<and> (\<forall>i \<in> set (se_listeners (sy_ses s)). i < se_nextLID (sy_ses s)) \<and>
     (\<forall>t. distinct (pends (sy_pc s t)) \<and> (\<forall>i \<in> set (pends (sy_pc s t)). i < se_nextLID (sy_ses s)) \<and>
       (\<forall>i \<in> set (closes (sy_pc s t)). i < se_nextLID (sy_ses s)))"

lemma ids_ok_pc:
  "ids_ok s \<Longrightarrow> distinct (pends (sy_pc s t)) \<and> (\<forall>i \<in> set (pends (sy_pc s t)). i < se_nextLID (sy_ses s)) \<and>
    (\<forall>i \<in> set (closes (sy_pc s t)). i < se_nextLID (sy_ses s))"
  unfolding ids_ok_def by blast

lemma ids_goto:
  "ids_ok s \<Longrightarrow> distinct (pends p) \<Longrightarrow> \<forall>i \<in> set (pends p) \<union> set (closes p). i < se_nextLID (sy_ses s) \<Longrightarrow> ids_ok (goto t p s)"
  by (auto simp: ids_ok_def sys_simps)

lemma ids_ses: "ids_ok s \<Longrightarrow> se_listeners ses = se_listeners (sy_ses s) \<Longrightarrow> se_nextLID ses = se_nextLID (sy_ses s) \<Longrightarrow>
    ids_ok (s\<lparr>sy_ses := ses\<rparr>)"
  by (simp add: ids_ok_def)

lemma ids_same:
  "ids_ok s \<Longrightarrow> ids_ok (set_listener i l s)" "ids_ok s \<Longrightarrow> ids_ok (offered i e s)" "ids_ok s \<Longrightarrow> ids_ok (panic s)"
  "ids_ok s \<Longrightarrow> ids_ok (s\<lparr>sy_log := x\<rparr>)" "ids_ok s \<Longrightarrow> ids_ok (s\<lparr>sy_seq := n\<rparr>)" "ids_ok s \<Longrightarrow> ids_ok (s\<lparr>sy_got := g\<rparr>)"
  by (simp_all add: ids_ok_def sys_simps)

lemma sel_same:
  "sy_ses (set_listener i l s) = sy_ses s" "sy_ses (offered i e s) = sy_ses s" "sy_ses (goto t p s) = sy_ses s"
  "sy_pc (set_listener i l s) = sy_pc s" "sy_pc (offered i e s) = sy_pc s"
  "sy_heap (goto t p s) = sy_heap s" "sy_heap (offered i e s) = sy_heap s"
  by (simp_all add: sys_simps)

lemma emit_keeps_ids: "ids_ok s \<Longrightarrow> act_emit t s = Some s' \<Longrightarrow> ids_ok s'"
  using ids_ok_pc[of s t]
  by (auto simp: act_emit_def sel_same intro!: ids_goto ids_same
      split: pc.split_asm list.split_asm if_split_asm emission.split)

lemma close_keeps_ids:
  "ids_ok s \<Longrightarrow> pends nxt = [] \<Longrightarrow> \<forall>i \<in> set (closes nxt). i < se_nextLID (sy_ses s) \<Longrightarrow>
    act_close_listener t i nxt s = Some s' \<Longrightarrow> ids_ok s'"
  by (auto simp: act_close_listener_def sel_same intro!: ids_goto ids_same split: if_split_asm option.split)

lemma step_keeps_ids: "ids_ok s \<Longrightarrow> sys_act a s = Some s' \<Longrightarrow> ids_ok s'"
proof (cases a)
  case (ActEmit t)
  then show "ids_ok s \<Longrightarrow> sys_act a s = Some s' \<Longrightarrow> ids_ok s'" using emit_keeps_ids by auto
next
  case (ActRemoved t)
  then show "ids_ok s \<Longrightarrow> sys_act a s = Some s' \<Longrightarrow> ids_ok s'"
    by (auto split: pc.split_asm elim!: close_keeps_ids[rotated 3])
next
  case (ActClosing t)
  then show "ids_ok s \<Longrightarrow> sys_act a s = Some s' \<Longrightarrow> ids_ok s'"
    using ids_ok_pc[of s t]
    by (auto split: pc.split_asm list.split_asm elim!: close_keeps_ids[rotated 3] intro!: ids_goto)
next
  case (ActSubscribe t)
  then show "ids_ok s \<Longrightarrow> sys_act a s = Some s' \<Longrightarrow> ids_ok s'"
    by (auto simp: act_subscribe_def Subscribe_def Let_def ids_ok_def sys_simps subset_iff less_Suc_eq split: if_split_asm)
next
  case (ActCancel t i)
  then show "ids_ok s \<Longrightarrow> sys_act a s = Some s' \<Longrightarrow> ids_ok s'"
    by (auto simp: remove_entry_def ids_ok_def sys_simps subset_iff split: if_split_asm dest: in_set_remove1)
next
  case (ActAppend t ls)
  then show "ids_ok s \<Longrightarrow> sys_act a s = Some s' \<Longrightarrow> ids_ok s'"
    by (auto simp: ids_ok_def sys_simps publish_append_def split: if_split_asm pc.split_asm)
next
  case (ActCloseLock t ls)
  then show "ids_ok s \<Longrightarrow> sys_act a s = Some s' \<Longrightarrow> ids_ok s'"
    by (auto simp: ids_ok_def sys_simps close_state_def Let_def split: if_split_asm pc.split_asm option.split_asm)
qed (auto simp: ids_ok_def sys_simps MarkOpen_def MarkClosing_def setState_def Let_def
    split: if_split_asm pc.split_asm list.split_asm)

lemma step_keeps_locks:
  assumes "locks_ok s" "ids_ok s" "sys_act a s = Some s'"
  shows "locks_ok s'"
proof (cases a)
  case (ActEmit t)
  then show ?thesis using assms emit_keeps_locks by auto
next
  case (ActRemoved t)
  then show ?thesis using assms by (auto split: pc.split_asm elim!: close_keeps_locks[rotated 2])
next
  case (ActClosing t)
  then show ?thesis using assms by (auto split: pc.split_asm list.split_asm elim!: close_keeps_locks[rotated 2] intro: locks_goto)
next
  case (ActSubscribe t)
  have "\<forall>t. holds (sy_pc s t) \<noteq> Some (se_nextLID (sy_ses s))"
    using ids_ok_pc[OF assms(2)] holds_pends by fastforce
  with ActSubscribe assms show ?thesis by (auto intro: subscribe_keeps_locks split: if_split_asm)
next
  case (ActReceive i)
  then obtain e es where b: "ch_buf (li_ch (sy_heap s i)) = e # es"
    "s' = (set_listener i ((sy_heap s i)\<lparr>li_ch := (li_ch (sy_heap s i))\<lparr>ch_buf := es\<rparr>\<rparr>) s)\<lparr>sy_got := (sy_got s)(i := sy_got s i @ [e])\<rparr>"
    using assms(3) by (auto split: list.split_asm)
  have "li_ok (sy_heap s i)" using assms(1) by (simp add: locks_ok_def)
  then have "li_ok ((sy_heap s i)\<lparr>li_ch := (li_ch (sy_heap s i))\<lparr>ch_buf := es\<rparr>\<rparr>)" using b(1) by (simp add: li_ok_def)
  with holding[OF assms(1)] show ?thesis unfolding b(2) by (intro locks_history(5) locks_listener assms(1)) auto
next
  case (ActFinish t)
  have "se_once (sy_ses s) = se_done (sy_ses s)" using assms(1) by (simp add: locks_ok_def)
  with ActFinish assms(1,3) show ?thesis
    by (auto split: pc.split_asm if_split_asm intro!: locks_goto locks_ses)
qed (use assms in \<open>auto simp: ses_locks remove_entry_def split: if_split_asm pc.split_asm
    intro!: locks_goto locks_ses locks_history\<close>, (simp_all add: locks_ok_def ses_locks)?)

section \<open>Events\<close>

fun is_numbered :: "'d pc \<Rightarrow> bool" where
  "is_numbered (Numbered e) = True"
| "is_numbered _ = False"

text \<open>An event a goroutine carries has a number of its own, and is in the transcript once it is past its number.\<close>

definition event_at :: "'d sys \<Rightarrow> nat \<Rightarrow> 'd event \<Rightarrow> bool" where
  "event_at s t e \<longleftrightarrow> ev_seq e \<le> sy_seq s \<and>
     (is_numbered (sy_pc s t) \<longrightarrow> ev_seq e \<notin> ev_seq ` set (sy_log s)) \<and>
     (\<not> is_numbered (sy_pc s t) \<longrightarrow> e \<in> set (sy_log s))"

definition events_ok :: "'d sys \<Rightarrow> bool" where
  "events_ok s \<longleftrightarrow> distinct (map ev_seq (sy_log s)) \<and> (\<forall>e \<in> set (sy_log s). ev_seq e \<le> sy_seq s) \<and>
     (\<forall>t e. carries (sy_pc s t) = Some e \<longrightarrow> event_at s t e) \<and>
     (\<forall>t u e e'. carries (sy_pc s t) = Some e \<longrightarrow> carries (sy_pc s u) = Some e' \<longrightarrow> ev_seq e = ev_seq e' \<longrightarrow> t = u)"

lemma events_log: "events_ok s \<Longrightarrow> distinct (map ev_seq (sy_log s))" "events_ok s \<Longrightarrow> e \<in> set (sy_log s) \<Longrightarrow> ev_seq e \<le> sy_seq s"
  unfolding events_ok_def by blast+

lemma events_carry:
  "events_ok s \<Longrightarrow> carries (sy_pc s t) = Some e \<Longrightarrow> event_at s t e"
  "events_ok s \<Longrightarrow> carries (sy_pc s t) = Some e \<Longrightarrow> carries (sy_pc s u) = Some e' \<Longrightarrow> ev_seq e = ev_seq e' \<Longrightarrow> t = u"
  unfolding events_ok_def by blast+

lemma events_okI:
  assumes "distinct (map ev_seq (sy_log s))" "\<And>e. e \<in> set (sy_log s) \<Longrightarrow> ev_seq e \<le> sy_seq s"
    "\<And>t e. carries (sy_pc s t) = Some e \<Longrightarrow> event_at s t e"
    "\<And>t u e e'. carries (sy_pc s t) = Some e \<Longrightarrow> carries (sy_pc s u) = Some e' \<Longrightarrow> ev_seq e = ev_seq e' \<Longrightarrow> t = u"
  shows "events_ok s"
  unfolding events_ok_def using assms by blast

lemma events_goto:
  assumes "events_ok s" "carries p = None \<or> carries p = carries (sy_pc s t) \<and> \<not> is_numbered (sy_pc s t)" "\<not> is_numbered p"
  shows "events_ok (goto t p s)"
proof -
  have c: "carries (sy_pc (goto t p s) u) = Some e \<Longrightarrow> carries (sy_pc s u) = Some e \<and> event_at (goto t p s) u e" for u e
    using assms(2,3) events_carry(1)[OF assms(1), of u e] by (auto simp: sys_simps event_at_def split: if_splits)
  show ?thesis
  proof (rule events_okI)
    fix u v e e' assume "carries (sy_pc (goto t p s) u) = Some e" "carries (sy_pc (goto t p s) v) = Some e'" "ev_seq e = ev_seq e'"
    then show "u = v" using c events_carry(2)[OF assms(1)] by blast
  qed (use c events_log[OF assms(1)] in \<open>auto simp: goto_def\<close>)
qed

lemma events_same:
  "events_ok s \<Longrightarrow> events_ok (set_listener i l s)" "events_ok s \<Longrightarrow> events_ok (offered i e s)"
  "events_ok s \<Longrightarrow> events_ok (panic s)" "events_ok s \<Longrightarrow> events_ok (s\<lparr>sy_ses := ses\<rparr>)"
  "events_ok s \<Longrightarrow> events_ok (s\<lparr>sy_got := g\<rparr>)" "events_ok s \<Longrightarrow> events_ok (s\<lparr>sy_sent := g\<rparr>)"
  "events_ok s \<Longrightarrow> events_ok (s\<lparr>sy_from := f\<rparr>)"
  unfolding events_ok_def sys_simps event_at_def by simp_all

lemma emit_keeps_events: "events_ok s \<Longrightarrow> act_emit t s = Some s' \<Longrightarrow> events_ok s'"
  by (auto simp: act_emit_def sel_same intro!: events_goto events_same
      split: pc.split_asm list.split_asm if_split_asm emission.split)

lemma close_keeps_events: "events_ok s \<Longrightarrow> carries nxt = None \<and> \<not> is_numbered nxt \<Longrightarrow> act_close_listener t i nxt s = Some s' \<Longrightarrow> events_ok s'"
  by (auto simp: act_close_listener_def intro!: events_goto events_same split: if_split_asm option.split)

lemma number_keeps_events:
  assumes "events_ok s"
  shows "events_ok (goto t (Numbered \<lparr>ev_seq = sy_seq s + 1, ev_data = d, ev_bytes = n\<rparr>) (s\<lparr>sy_seq := sy_seq s + 1\<rparr>))"
    (is "events_ok ?s")
proof -
  let ?e = "\<lparr>ev_seq = sy_seq s + 1, ev_data = d, ev_bytes = n\<rparr>"
  have c: "carries (sy_pc ?s u) = Some e \<longleftrightarrow> (if u = t then e = ?e else carries (sy_pc s u) = Some e)" for u e
    by (auto simp: sys_simps)
  have old: "carries (sy_pc s u) = Some e \<Longrightarrow> ev_seq e \<le> sy_seq s" for u e
    using events_carry(1)[OF assms, of u e] by (simp add: event_at_def)
  have "event_at ?s u e" if "carries (sy_pc ?s u) = Some e" for u e
  proof (cases "u = t")
    case True
    then show ?thesis using that events_log(2)[OF assms] unfolding c by (fastforce simp: event_at_def sys_simps)
  next
    case False
    then show ?thesis using that events_carry(1)[OF assms, of u e] unfolding c by (simp add: event_at_def sys_simps)
  qed
  moreover have "u = v" if "carries (sy_pc ?s u) = Some e" "carries (sy_pc ?s v) = Some e'" "ev_seq e = ev_seq e'" for u v e e'
    using that events_carry(2)[OF assms, of u e v e'] old[of u e] old[of v e'] unfolding c by (auto split: if_splits)
  moreover have "e \<in> set (sy_log ?s) \<Longrightarrow> ev_seq e \<le> sy_seq ?s" for e
    using events_log(2)[OF assms] by (fastforce simp: sys_simps)
  moreover have "distinct (map ev_seq (sy_log ?s))" using events_log(1)[OF assms] by (simp add: goto_def)
  ultimately show ?thesis by (intro events_okI) blast+
qed

lemma append_keeps_events:
  assumes "events_ok s" "sy_pc s t = Numbered e"
  shows "events_ok (goto t (Emitting e ls 0) (s\<lparr>sy_ses := ses, sy_log := sy_log s @ [e]\<rparr>))" (is "events_ok ?s")
proof -
  have e: "ev_seq e \<le> sy_seq s" "ev_seq e \<notin> ev_seq ` set (sy_log s)"
    using events_carry(1)[OF assms(1), of t e] assms(2) by (auto simp: event_at_def)
  have c: "carries (sy_pc ?s u) = Some e' \<longleftrightarrow> carries (sy_pc s u) = Some e'" for u e' using assms(2) by (auto simp: sys_simps)
  have new: "ev_seq e' \<noteq> ev_seq e" if "carries (sy_pc s u) = Some e'" "u \<noteq> t" for u e'
    using events_carry(2)[OF assms(1), of u e' t e] assms(2) that by auto
  have "event_at ?s u e'" if "carries (sy_pc ?s u) = Some e'" for u e'
  proof (cases "u = t")
    case True
    with that assms(2) e show ?thesis by (simp add: event_at_def sys_simps)
  next
    case False
    with that new[of u e'] events_carry(1)[OF assms(1), of u e'] show ?thesis unfolding c by (auto simp: event_at_def sys_simps)
  qed
  moreover have "distinct (map ev_seq (sy_log ?s))" using events_log(1)[OF assms(1)] e(2) by (simp add: sys_simps)
  moreover have "ev_seq x \<le> sy_seq ?s" if "x \<in> set (sy_log ?s)" for x
    using that events_log(2)[OF assms(1)] e(1) by (auto simp: goto_def)
  moreover have "u = v" if "carries (sy_pc ?s u) = Some x" "carries (sy_pc ?s v) = Some y" "ev_seq x = ev_seq y" for u v x y
    using that events_carry(2)[OF assms(1)] unfolding c by blast
  ultimately show ?thesis by (intro events_okI) blast+
qed

lemma step_keeps_events: "events_ok s \<Longrightarrow> sys_act a s = Some s' \<Longrightarrow> events_ok s'"
proof (cases a)
  case (ActEmit t)
  then show "events_ok s \<Longrightarrow> sys_act a s = Some s' \<Longrightarrow> events_ok s'" using emit_keeps_events by auto
next
  case (ActNumber t d n)
  then show "events_ok s \<Longrightarrow> sys_act a s = Some s' \<Longrightarrow> events_ok s'"
    using number_keeps_events[of s t d n] by (auto split: if_split_asm)
next
  case (ActAppend t ls)
  then show "events_ok s \<Longrightarrow> sys_act a s = Some s' \<Longrightarrow> events_ok s'"
    using append_keeps_events[of s t] by (auto split: if_split_asm pc.split_asm)
next
  case (ActSubscribe t)
  then show "events_ok s \<Longrightarrow> sys_act a s = Some s' \<Longrightarrow> events_ok s'"
    by (auto simp: act_subscribe_def split: if_split_asm prod.split option.split intro!: events_same)
qed (auto simp: remove_entry_def split: if_split_asm pc.split_asm list.split_asm elim!: close_keeps_events[rotated 2]
    intro!: events_goto events_same)

section \<open>What listeners are offered\<close>

text \<open>The goroutines that still have to offer their event to a listener.\<close>

definition pending :: "'d sys \<Rightarrow> nat \<Rightarrow> (nat \<times> 'd event) set" where
  "pending s i = {(t, e). carries (sy_pc s t) = Some e \<and> i \<in> set (pends (sy_pc s t))}"

definition since :: "'d sys \<Rightarrow> nat \<Rightarrow> 'd event list" where
  "since s i = drop (sy_from s i) (sy_log s)"

text \<open>
  A listener is offered events appended after it was made, each once; what it received and still has in its buffer is
  in the order of the offers; and while it is registered every event since is offered or about to be.
\<close>

definition offer_ok :: "'d sys \<Rightarrow> nat \<Rightarrow> bool" where
  "offer_ok s i \<longleftrightarrow> sy_from s i \<le> length (sy_log s) \<and> distinct (sy_sent s i) \<and> set (sy_sent s i) \<subseteq> set (since s i) \<and>
     subseq (sy_got s i @ ch_buf (li_ch (sy_heap s i))) (sy_sent s i) \<and>
     snd ` pending s i \<subseteq> set (since s i) - set (sy_sent s i) \<and>
     (i \<in> set (se_listeners (sy_ses s)) \<longrightarrow> set (since s i) \<subseteq> set (sy_sent s i) \<union> snd ` pending s i)"

definition offers_ok :: "'d sys \<Rightarrow> bool" where
  "offers_ok s \<longleftrightarrow> (\<forall>i < se_nextLID (sy_ses s). offer_ok s i)"

lemma offer_ok_cong:
  assumes "offer_ok s i" "pending s' i = pending s i" "sy_from s' i = sy_from s i" "sy_log s' = sy_log s"
    "sy_sent s' i = sy_sent s i" "subseq (sy_got s' i @ ch_buf (li_ch (sy_heap s' i))) (sy_got s i @ ch_buf (li_ch (sy_heap s i)))"
    "i \<in> set (se_listeners (sy_ses s')) \<Longrightarrow> i \<in> set (se_listeners (sy_ses s))"
  shows "offer_ok s' i"
  using assms subseq_order.order_trans[OF assms(6)] by (auto simp: offer_ok_def since_def)

lemma pending_goto: "pending (goto t p s) i =
    {(u, e) \<in> pending s i. u \<noteq> t} \<union> (if i \<in> set (pends p) then {(t, e) | e. carries p = Some e} else {})"
  by (auto simp: pending_def sys_simps split: if_splits)

lemma pending_same:
  "pending (set_listener j l s) i = pending s i" "pending (offered j e s) i = pending s i"
  by (simp_all add: pending_def sys_simps)

lemma pending_goto_same:
  assumes "pends p = pends (sy_pc s t)" "pends p = [] \<or> carries p = carries (sy_pc s t)"
  shows "pending (goto t p s) i = pending s i"
  using assms by (auto simp: pending_def sys_simps split: if_splits)

lemma offer_done:
  assumes ok: "offer_ok s i" and ev: "events_ok s" and t: "carries (sy_pc s t) = Some e" "pends (sy_pc s t) = i # ls"
    "i \<notin> set ls" and p: "carries p = Some e" "pends p = ls"
    and l: "subseq (ch_buf (li_ch l)) (ch_buf (li_ch (sy_heap s i)) @ [e])"
  shows "offer_ok (goto t p (offered i e (set_listener i l s))) i"
proof -
  let ?s = "goto t p (offered i e (set_listener i l s))"
  have te: "(t, e) \<in> pending s i" using t by (simp add: pending_def)
  have e: "e \<in> set (since s i)" "e \<notin> set (sy_sent s i)" using ok te by (force simp: offer_ok_def)+
  have pend: "pending ?s i = pending s i - {(t, e)}"
    using t p by (auto simp: pending_goto pending_same) (auto simp: pending_def)
  have "e' = e \<Longrightarrow> u = t" if "(u, e') \<in> pending s i" for u e'
    using events_carry(2)[OF ev, of u e' t e] that t by (auto simp: pending_def)
  then have "snd ` pending ?s i = snd ` pending s i - {e}" unfolding pend by force
  moreover have "subseq (sy_got s i @ ch_buf (li_ch l)) (sy_sent s i @ [e])"
  proof -
    have "subseq (sy_got s i @ ch_buf (li_ch l)) ((sy_got s i @ ch_buf (li_ch (sy_heap s i))) @ [e])"
      using list_emb_append_mono[OF subseq_order.order_refl l, of "sy_got s i"] by simp
    moreover have "subseq ((sy_got s i @ ch_buf (li_ch (sy_heap s i))) @ [e]) (sy_sent s i @ [e])"
      using ok unfolding subseq_append by (simp add: offer_ok_def)
    ultimately show ?thesis by (rule subseq_order.order_trans)
  qed
  ultimately show ?thesis
    using ok e by (auto simp: offer_ok_def since_def sys_simps)
qed

lemma offer_done_other:
  assumes "offer_ok s j" "j \<noteq> i" "carries (sy_pc s t) = Some e" "pends (sy_pc s t) = i # ls" "carries p = Some e" "pends p = ls"
  shows "offer_ok (goto t p (offered i e (set_listener i l s))) j"
proof (rule offer_ok_cong[OF assms(1)])
  show "pending (goto t p (offered i e (set_listener i l s))) j = pending s j"
    using assms by (auto simp: pending_goto pending_same) (auto simp: pending_def)
qed (use assms(2) in \<open>simp_all add: sys_simps\<close>)

lemma try_buffer: "emit_try e l = Emitted ok l' \<Longrightarrow> subseq (ch_buf (li_ch l')) (ch_buf (li_ch l) @ [e])"
  by (auto simp: emit_try_def chan_send_def chan_close_def subseq_rev_drop_many
      split: if_split_asm DropPolicy.split_asm option.split_asm)

lemma retry_buffer: "emit_retry e l = Emitted ok l' \<Longrightarrow> subseq (ch_buf (li_ch l')) (ch_buf (li_ch l) @ [e])"
  by (auto simp: emit_retry_def chan_send_def subseq_rev_drop_many split: if_split_asm)

lemma offers_goto:
  assumes "offers_ok s" "pends p = pends (sy_pc s t)" "pends p = [] \<or> carries p = carries (sy_pc s t)"
  shows "offers_ok (goto t p s)"
  unfolding offers_ok_def
proof (intro allI impI)
  fix i assume "i < se_nextLID (sy_ses (goto t p s))"
  then have "offer_ok s i" using assms(1) by (simp add: offers_ok_def sel_same)
  then show "offer_ok (goto t p s) i"
  proof (rule offer_ok_cong)
    show "pending (goto t p s) i = pending s i" using assms(2,3) by (intro pending_goto_same) auto
  qed (simp_all add: sys_simps)
qed

lemma offers_listener:
  assumes "offers_ok s" "subseq (ch_buf (li_ch l)) (ch_buf (li_ch (sy_heap s j)))"
  shows "offers_ok (set_listener j l s)"
  unfolding offers_ok_def
proof (intro allI impI)
  fix i assume "i < se_nextLID (sy_ses (set_listener j l s))"
  then have "offer_ok s i" using assms(1) by (simp add: offers_ok_def sel_same)
  then show "offer_ok (set_listener j l s) i"
  proof (rule offer_ok_cong)
    show "pending (set_listener j l s) i = pending s i" by (rule pending_same)
    show "subseq (sy_got (set_listener j l s) i @ ch_buf (li_ch (sy_heap (set_listener j l s) i)))
        (sy_got s i @ ch_buf (li_ch (sy_heap s i)))"
      using list_emb_append_mono[OF subseq_order.order_refl assms(2), of "sy_got s i"] by (auto simp: sys_simps)
  qed (simp_all add: sys_simps)
qed

lemma offers_ses:
  assumes "offers_ok s" "se_nextLID ses = se_nextLID (sy_ses s)" "set (se_listeners ses) \<subseteq> set (se_listeners (sy_ses s))"
  shows "offers_ok (s\<lparr>sy_ses := ses\<rparr>)"
  unfolding offers_ok_def
proof (intro allI impI)
  fix i assume "i < se_nextLID (sy_ses (s\<lparr>sy_ses := ses\<rparr>))"
  then have "offer_ok s i" using assms(1,2) by (simp add: offers_ok_def)
  then show "offer_ok (s\<lparr>sy_ses := ses\<rparr>) i"
    by (rule offer_ok_cong) (use assms(3) in \<open>auto simp: pending_def\<close>)
qed

lemma offers_same:
  "offers_ok s \<Longrightarrow> offers_ok (panic s)" "offers_ok s \<Longrightarrow> offers_ok (s\<lparr>sy_seq := n\<rparr>)"
  by (simp_all add: offers_ok_def offer_ok_def pending_def since_def panic_def)

lemma emit_keeps_offers:
  assumes ok: "offers_ok s" "events_ok s" "ids_ok s" and a: "act_emit t s = Some s'"
  shows "offers_ok s'"
proof (cases "sy_pc s t")
  case (Emitting e ls d)
  show ?thesis
  proof (cases ls)
    case Nil
    with a Emitting ok(1) show ?thesis by (auto simp: act_emit_def intro!: offers_goto)
  next
    case (Cons i rest)
    have t: "carries (sy_pc s t) = Some e" "pends (sy_pc s t) = i # rest" "i \<notin> set rest"
      using Emitting Cons ids_ok_pc[OF ok(3), of t] by simp_all
    show ?thesis
    proof (cases "emit_try e (sy_heap s i)")
      case (Emitted b l)
      let ?p = "Emitting e rest (if b then d else d + 1)"
      have s': "s' = goto t ?p (offered i e (set_listener i l s))"
        using a Emitting Cons Emitted by (simp add: act_emit_def split: if_split_asm)
      show ?thesis
        unfolding offers_ok_def
      proof (intro allI impI)
        fix j assume "j < se_nextLID (sy_ses s')"
        then have j: "offer_ok s j" using ok(1) by (simp add: s' sel_same offers_ok_def)
        show "offer_ok s' j"
        proof (cases "j = i")
          case True
          with j show ?thesis unfolding s' by (auto intro!: offer_done[OF _ ok(2) t] try_buffer[OF Emitted])
        next
          case False
          with j show ?thesis unfolding s' by (auto intro!: offer_done_other[OF _ _ t(1,2)])
        qed
      qed
    next
      case MakeRoom
      with a Emitting Cons ok(1) t show ?thesis
        by (auto simp: act_emit_def sel_same intro!: offers_goto offers_listener split: if_split_asm)
    next
      case EmitPanic
      with a Emitting Cons ok(1) show ?thesis
        by (auto simp: act_emit_def intro!: offers_same split: if_split_asm)
    qed
  qed
next
  case (Discard e i ls d)
  have "subseq (tl xs) xs" for xs :: "'a event list" by (cases xs) auto
  with a Discard ok(1) show ?thesis
    by (auto simp: act_emit_def sel_same emit_discard_def intro!: offers_goto offers_listener)
next
  case (Retry e i ls d)
  show ?thesis
  proof (cases "emit_retry e (sy_heap s i)")
    case (Emitted b l)
    let ?p = "Emitting e ls (if b then d else d + 1)"
    let ?l = "l\<lparr>li_held := False\<rparr>"
    have t: "carries (sy_pc s t) = Some e" "pends (sy_pc s t) = i # ls" "i \<notin> set ls"
      using Retry ids_ok_pc[OF ok(3), of t] by simp_all
    have s': "s' = goto t ?p (offered i e (set_listener i ?l s))" using a Retry Emitted by (simp add: act_emit_def)
    have buf: "subseq (ch_buf (li_ch ?l)) (ch_buf (li_ch (sy_heap s i)) @ [e])" using retry_buffer[OF Emitted] by simp
    show ?thesis
      unfolding offers_ok_def
    proof (intro allI impI)
      fix j assume "j < se_nextLID (sy_ses s')"
      then have j: "offer_ok s j" using ok(1) by (simp add: s' sel_same offers_ok_def)
      show "offer_ok s' j"
      proof (cases "j = i")
        case True
        with j show ?thesis unfolding s' by (auto intro!: offer_done[OF _ ok(2) t] buf)
      next
        case False
        with j show ?thesis unfolding s' by (auto intro!: offer_done_other[OF _ _ t(1,2)])
      qed
    qed
  qed (use a Retry ok(1) in \<open>auto simp: act_emit_def intro!: offers_same\<close>)
qed (use a in \<open>auto simp: act_emit_def\<close>)

lemma append_keeps_offers:
  assumes ok: "offers_ok s" "events_ok s" and t: "sy_pc s t = Numbered e" and ls: "set ls = set (se_listeners (sy_ses s))"
    and ses: "se_nextLID ses = se_nextLID (sy_ses s)" "se_listeners ses = se_listeners (sy_ses s)"
  shows "offers_ok (goto t (Emitting e ls 0) (s\<lparr>sy_ses := ses, sy_log := sy_log s @ [e]\<rparr>))" (is "offers_ok ?s")
  unfolding offers_ok_def
proof (intro allI impI)
  fix i assume "i < se_nextLID (sy_ses ?s)"
  then have i: "offer_ok s i" using ok(1) ses by (simp add: offers_ok_def sel_same)
  have new: "e \<notin> set (sy_log s)" using events_carry(1)[OF ok(2), of t e] t by (auto simp: event_at_def)
  have from_le: "sy_from s i \<le> length (sy_log s)" using i by (simp add: offer_ok_def)
  have since: "since ?s i = since s i @ [e]" using from_le by (simp add: since_def goto_def)
  have sub: "set (since s i) \<subseteq> set (sy_log s)" by (auto simp: since_def dest: in_set_dropD)
  have "sy_pc s t = Numbered e \<Longrightarrow> (u, x) \<in> pending s i \<Longrightarrow> u \<noteq> t" for u x by (auto simp: pending_def)
  then have p: "pending ?s i = pending s i \<union> (if i \<in> set (se_listeners (sy_ses s)) then {(t, e)} else {})"
    using t ls by (auto simp: pending_def goto_def split: if_splits)
  have "e \<notin> set (sy_sent s i)" using i new sub by (auto simp: offer_ok_def)
  moreover have "snd ` pending s i \<subseteq> set (since s i) - set (sy_sent s i)" using i by (simp add: offer_ok_def)
  ultimately show "offer_ok ?s i"
    using i ses from_le by (auto simp: offer_ok_def since p) (auto simp: goto_def)
qed

lemma subscribe_keeps_offers:
  assumes ok: "offers_ok s" "ids_ok s" and t: "sy_pc s t = Idle"
  shows "offers_ok (act_subscribe t s)"
proof (cases "se_ended (sy_ses s)")
  case True
  then show ?thesis using ok(1) by (simp add: act_subscribe_def Subscribe_def Let_def)
next
  case False
  let ?n = "se_nextLID (sy_ses s)"
  let ?s = "act_subscribe t s"
  have s: "sy_pc ?s = sy_pc s" "sy_log ?s = sy_log s" "se_nextLID (sy_ses ?s) = Suc ?n"
    "se_listeners (sy_ses ?s) = se_listeners (sy_ses s) @ [?n]"
    "sy_from ?s = (sy_from s)(?n := length (sy_log s))" "sy_sent ?s = (sy_sent s)(?n := [])" "sy_got ?s = (sy_got s)(?n := [])"
    "sy_heap ?s = (sy_heap s)(?n := new_listener (se_cap (sy_ses s)) (se_policy (sy_ses s)))"
    using False by (simp_all add: act_subscribe_def Subscribe_def Let_def sys_simps)
  have pend: "pending ?s i = pending s i" for i by (simp add: pending_def s)
  have "?n \<notin> set (pends (sy_pc s u))" for u using ids_ok_pc[OF ok(2), of u] by blast
  then have none: "pending s ?n = {}" by (auto simp: pending_def)
  show ?thesis
    unfolding offers_ok_def
  proof (intro allI impI)
    fix i assume i: "i < se_nextLID (sy_ses ?s)"
    show "offer_ok ?s i"
    proof (cases "i = ?n")
      case True
      then show ?thesis by (simp add: offer_ok_def since_def pend none s new_listener_def)
    next
      case False
      then have "offer_ok s i" using i ok(1) by (simp add: s offers_ok_def)
      with False show ?thesis by (auto simp: offer_ok_def since_def pend s)
    qed
  qed
qed

lemma receive_keeps_offers:
  assumes "offers_ok s" "ch_buf (li_ch (sy_heap s i)) = e # es"
  shows "offers_ok ((set_listener i ((sy_heap s i)\<lparr>li_ch := (li_ch (sy_heap s i))\<lparr>ch_buf := es\<rparr>\<rparr>) s)
    \<lparr>sy_got := (sy_got s)(i := sy_got s i @ [e])\<rparr>)" (is "offers_ok ?s")
  unfolding offers_ok_def
proof (intro allI impI)
  fix j assume "j < se_nextLID (sy_ses ?s)"
  then have "offer_ok s j" using assms(1) by (simp add: offers_ok_def sel_same)
  then show "offer_ok ?s j"
  proof (rule offer_ok_cong)
    show "pending ?s j = pending s j" by (simp add: pending_def sys_simps)
  qed (use assms(2) in \<open>auto simp: sys_simps\<close>)
qed

lemma close_keeps_offers:
  assumes "offers_ok s" "pends nxt = pends (sy_pc s t)" "pends nxt = []" "act_close_listener t i nxt s = Some s'"
  shows "offers_ok s'"
proof -
  have b: "li_close l = Some l' \<Longrightarrow> ch_buf (li_ch l') = ch_buf (li_ch l)" for l l' :: "'a event listener"
    by (auto simp: li_close_def chan_close_def split: if_split_asm option.split_asm)
  show ?thesis using assms
    by (auto simp: act_close_listener_def sel_same b intro!: offers_goto offers_listener offers_same
      split: if_split_asm option.split_asm)
qed

lemma step_keeps_offers:
  assumes ok: "offers_ok s" "events_ok s" "ids_ok s" and a: "sys_act a s = Some s'"
  shows "offers_ok s'"
proof (cases a)
  case (ActEmit t)
  then show ?thesis using emit_keeps_offers[OF ok] a by auto
next
  case (ActAppend t ls)
  then show ?thesis using a ok by (auto intro!: append_keeps_offers simp: publish_append_def split: if_split_asm pc.split_asm)
next
  case (ActSubscribe t)
  then show ?thesis using a ok by (auto intro!: subscribe_keeps_offers split: if_split_asm)
next
  case (ActReceive i)
  then show ?thesis using a ok by (auto intro!: receive_keeps_offers split: list.split_asm)
next
  case (ActCancel t i)
  let ?ses = "(sy_ses s)\<lparr>se_listeners := remove1 i (se_listeners (sy_ses s))\<rparr>"
  have t: "sy_pc s t = Idle" using a ActCancel by (auto split: if_split_asm)
  have s': "s' = goto t (if i \<in> set (se_listeners (sy_ses s)) then Removing i else Idle) (s\<lparr>sy_ses := ?ses\<rparr>)"
    using a ActCancel by (auto simp: remove_entry_def split: if_split_asm)
  have "offers_ok (s\<lparr>sy_ses := ?ses\<rparr>)" by (rule offers_ses[OF ok(1)]) (simp_all add: set_remove1_subset)
  then show ?thesis unfolding s' by (rule offers_goto) (simp_all add: t)
next
  case (ActCloseLock t ls)
  then obtain err where t: "sy_pc s t = CloseLock err"
    and s': "s' = goto t (ClosingAll ls) (s\<lparr>sy_ses := close_state err (sy_ses s)\<rparr>)"
    using a by (auto split: pc.split_asm if_split_asm)
  have "offers_ok (s\<lparr>sy_ses := close_state err (sy_ses s)\<rparr>)"
    by (rule offers_ses[OF ok(1)]) (simp_all add: close_state_def Let_def split: option.split)
  then show ?thesis unfolding s' by (rule offers_goto) (simp_all add: t)
next
  case (ActRemoved t)
  then obtain i where "sy_pc s t = Removing i" "act_close_listener t i Idle s = Some s'" using a by (auto split: pc.split_asm)
  then show ?thesis using close_keeps_offers[OF ok(1), of Idle t i s'] by simp
next
  case (ActClosing t)
  then show ?thesis
  proof (cases "\<exists>i ls. sy_pc s t = ClosingAll (i # ls)")
    case True
    then obtain i ls where "sy_pc s t = ClosingAll (i # ls)" by blast
    with a ActClosing show ?thesis using close_keeps_offers[OF ok(1), of "ClosingAll ls" t i s'] by simp
  next
    case False
    then show ?thesis using a ActClosing ok by (auto intro!: offers_goto split: pc.split_asm list.split_asm)
  qed
next
  case (ActMark t opened)
  have "se_nextLID (setState st None ses) = se_nextLID ses" "se_listeners (setState st None ses) = se_listeners ses"
    for st and ses :: "'a Session" by (simp_all add: setState_def Let_def)
  then show ?thesis using a ok ActMark by (auto simp: MarkOpen_def MarkClosing_def intro!: offers_ses split: if_split_asm)
next
  case (ActNumber t d n)
  then show ?thesis using a ok by (auto intro!: offers_goto offers_same split: if_split_asm)
next
  case (ActCount t)
  then show ?thesis using a ok by (auto intro!: offers_goto offers_ses split: pc.split_asm)
next
  case (ActClose t err)
  then show ?thesis using a ok by (auto intro!: offers_goto offers_ses split: if_split_asm)
next
  case (ActFinish t)
  then show ?thesis using a ok by (auto intro!: offers_goto offers_ses offers_same split: if_split_asm pc.split_asm)
qed

end
