(* ===== verification/StreamRuns.thy ===== *)
theory StreamRuns
  imports StreamSessionProps
begin

text \<open>
  Runs of a stream session: a closed session leaves no listener open, the transcript keeps the latest events, and what
  every subscriber gets, over every interleaving of the goroutines.
\<close>

section \<open>Closing\<close>

text \<open>
  A listener that is no longer registered is closed or about to be, and a session that has ended has no listener
  registered and is done, or some goroutine is still inside \<open>Close\<close>.
\<close>

definition close_ok :: "'d sys \<Rightarrow> bool" where
  "close_ok s \<longleftrightarrow> (se_ended (sy_ses s) \<longrightarrow> se_listeners (sy_ses s) = []) \<and>
     (\<forall>i < se_nextLID (sy_ses s). i \<in> set (se_listeners (sy_ses s)) \<or> li_closed (sy_heap s i) \<or>
       (\<exists>t. i \<in> set (closes (sy_pc s t)))) \<and>
     (se_done (sy_ses s) \<longrightarrow> se_ended (sy_ses s)) \<and>
     (se_ended (sy_ses s) \<longrightarrow> se_done (sy_ses s) \<or> (\<exists>t. in_close (sy_pc s t))) \<and>
     (\<forall>t. in_close (sy_pc s t) \<longrightarrow> se_ended (sy_ses s))"

lemma close_unregistered: "close_ok s \<Longrightarrow> i < se_nextLID (sy_ses s) \<Longrightarrow>
    i \<in> set (se_listeners (sy_ses s)) \<or> li_closed (sy_heap s i) \<or> (\<exists>t. i \<in> set (closes (sy_pc s t)))"
  by (simp add: close_ok_def)

lemma closes_goto: "(\<exists>u. i \<in> set (closes (sy_pc s u))) \<Longrightarrow> i \<notin> set (closes (sy_pc s t)) \<or> i \<in> set (closes p) \<Longrightarrow>
    \<exists>u. i \<in> set (closes (sy_pc (goto t p s) u))"
  by (auto simp: sys_simps)

lemma in_close_goto: "(\<exists>u. in_close (sy_pc s u)) \<Longrightarrow> \<not> in_close (sy_pc s t) \<or> in_close p \<Longrightarrow> \<exists>u. in_close (sy_pc (goto t p s) u)"
  by (auto simp: sys_simps)

text \<open>A step that neither closes a listener nor ends the session.\<close>

lemma close_ok_keep:
  assumes "close_ok s"
    and "se_ended (sy_ses s') = se_ended (sy_ses s)" "se_done (sy_ses s') = se_done (sy_ses s)"
    and "se_nextLID (sy_ses s') = se_nextLID (sy_ses s)" "se_listeners (sy_ses s') = se_listeners (sy_ses s)"
    and "\<And>i. li_closed (sy_heap s i) \<Longrightarrow> li_closed (sy_heap s' i)"
    and "\<And>u. closes (sy_pc s' u) = closes (sy_pc s u)" "\<And>u. in_close (sy_pc s' u) = in_close (sy_pc s u)"
  shows "close_ok s'"
  using assms(1,6) unfolding close_ok_def assms(2-5,7,8) by blast

lemma close_goto: "close_ok s \<Longrightarrow> closes p = closes (sy_pc s t) \<Longrightarrow> in_close p = in_close (sy_pc s t) \<Longrightarrow> close_ok (goto t p s)"
  by (erule close_ok_keep) (simp_all add: sys_simps)

lemma close_ses:
  "close_ok s \<Longrightarrow> se_ended ses = se_ended (sy_ses s) \<Longrightarrow> se_done ses = se_done (sy_ses s) \<Longrightarrow>
    se_nextLID ses = se_nextLID (sy_ses s) \<Longrightarrow> se_listeners ses = se_listeners (sy_ses s) \<Longrightarrow> close_ok (s\<lparr>sy_ses := ses\<rparr>)"
  by (erule close_ok_keep) simp_all

lemma close_same:
  "close_ok s \<Longrightarrow> close_ok (s\<lparr>sy_seq := n\<rparr>)" "close_ok s \<Longrightarrow> close_ok (s\<lparr>sy_log := x\<rparr>)"
  "close_ok s \<Longrightarrow> close_ok (s\<lparr>sy_got := g\<rparr>)" "close_ok s \<Longrightarrow> close_ok (panic s)"
  by (erule close_ok_keep; simp add: sys_simps)+

lemma close_listener: "close_ok s \<Longrightarrow> li_closed (sy_heap s i) \<longrightarrow> li_closed l \<Longrightarrow> close_ok (set_listener i l s)"
  by (erule close_ok_keep) (auto simp: sys_simps)

lemma emission_closed:
  "emit_try e l = Emitted ok l' \<Longrightarrow> li_closed l \<Longrightarrow> li_closed l'"
  "emit_retry e l = Emitted ok l' \<Longrightarrow> li_closed l \<Longrightarrow> li_closed l'"
  "li_closed l \<Longrightarrow> li_closed (emit_discard l)"
  by (auto simp: emit_try_def emit_retry_def emit_discard_def split: if_split_asm send.split_asm)

lemma emit_keeps_close:
  assumes "close_ok s" "act_emit t s = Some s'"
  shows "close_ok s'"
proof (rule close_ok_keep[OF assms(1)])
  show "closes (sy_pc s' u) = closes (sy_pc s u)" "in_close (sy_pc s' u) = in_close (sy_pc s u)" for u
    using assms(2) by (auto simp: act_emit_def sys_simps split: pc.split_asm list.split_asm if_split_asm emission.split_asm)
  have "sy_ses s' = sy_ses s"
    using assms(2) by (auto simp: act_emit_def sys_simps split: pc.split_asm list.split_asm if_split_asm emission.split_asm)
  then show "se_ended (sy_ses s') = se_ended (sy_ses s)" "se_done (sy_ses s') = se_done (sy_ses s)"
    "se_nextLID (sy_ses s') = se_nextLID (sy_ses s)" "se_listeners (sy_ses s') = se_listeners (sy_ses s)" by simp_all
  show "li_closed (sy_heap s i) \<Longrightarrow> li_closed (sy_heap s' i)" for i
    using assms(2) emission_closed
    by (auto simp: act_emit_def sys_simps split: pc.split_asm list.split_asm if_split_asm emission.split_asm)
qed

lemma close_listener_ok:
  assumes c: "close_ok s" and t: "closes (sy_pc s t) = i # closes nxt" "in_close nxt = in_close (sy_pc s t)"
    and l: "\<And>l. li_ok (sy_heap s l)" and a: "act_close_listener t i nxt s = Some s'"
  shows "close_ok s'"
proof -
  obtain l where l': "li_close (sy_heap s i) = Some l" "li_closed l" using li_close_ok[OF l] by blast
  then have s': "s' = goto t nxt (set_listener i l s)" using a by (auto simp: act_close_listener_def split: if_split_asm)
  have ses: "sy_ses s' = sy_ses s" by (simp add: s' sel_same)
  have pc: "in_close (sy_pc s' u) = in_close (sy_pc s u)" for u using t(2) by (simp add: s' sys_simps)
  have "j \<in> set (se_listeners (sy_ses s)) \<or> li_closed (sy_heap s' j) \<or> (\<exists>u. j \<in> set (closes (sy_pc s' u)))"
    if "j < se_nextLID (sy_ses s)" for j
  proof (cases "j = i")
    case True
    then show ?thesis using l' by (simp add: s' sys_simps)
  next
    case False
    have "j \<in> set (closes (sy_pc s u)) \<Longrightarrow> j \<in> set (closes (sy_pc s' u))" for u using t(1) False by (auto simp: s' sys_simps)
    moreover have "sy_heap s' j = sy_heap s j" using False by (simp add: s' sys_simps)
    moreover have "j \<in> set (se_listeners (sy_ses s)) \<or> li_closed (sy_heap s j) \<or> (\<exists>u. j \<in> set (closes (sy_pc s u)))"
      using close_unregistered[OF c that] .
    ultimately show ?thesis by metis
  qed
  then show ?thesis using c unfolding close_ok_def ses pc by blast
qed

lemma step_keeps_close:
  assumes c: "close_ok s" and l: "locks_ok s" and a: "sys_act a s = Some s'"
  shows "close_ok s'"
proof (cases a)
  case (ActEmit t)
  then show ?thesis using emit_keeps_close c a by auto
next
  case (ActRemoved t)
  then show ?thesis using a c l close_listener_ok[OF c, of t _ Idle s']
    by (auto simp: locks_ok_def split: pc.split_asm)
next
  case (ActClosing t)
  show ?thesis
  proof (cases "\<exists>i ls. sy_pc s t = ClosingAll (i # ls)")
    case True
    then obtain i ls where t: "sy_pc s t = ClosingAll (i # ls)" by blast
    then have "act_close_listener t i (ClosingAll ls) s = Some s'" using a ActClosing by simp
    from close_listener_ok[OF c _ _ _ this] t l show ?thesis by (simp add: locks_ok_def)
  next
    case False
    then have "sy_pc s t = ClosingAll []" "s' = goto t Finishing s"
      using a ActClosing by (auto split: pc.split_asm list.split_asm)
    then show ?thesis using c by (simp add: close_goto)
  qed
next
  case (ActSubscribe t)
  show ?thesis
  proof (cases "se_ended (sy_ses s)")
    case True
    then show ?thesis using a c ActSubscribe by (auto simp: act_subscribe_def Subscribe_def Let_def split: if_split_asm)
  next
    case False
    then have s': "sy_pc s' = sy_pc s" "se_ended (sy_ses s') = se_ended (sy_ses s)" "se_done (sy_ses s') = se_done (sy_ses s)"
      "se_nextLID (sy_ses s') = Suc (se_nextLID (sy_ses s))"
      "se_listeners (sy_ses s') = se_listeners (sy_ses s) @ [se_nextLID (sy_ses s)]"
      "\<And>i. i \<noteq> se_nextLID (sy_ses s) \<Longrightarrow> sy_heap s' i = sy_heap s i"
      using a ActSubscribe by (auto simp: act_subscribe_def Subscribe_def Let_def sys_simps split: if_split_asm)
    have "i \<in> set (se_listeners (sy_ses s')) \<or> li_closed (sy_heap s' i) \<or> (\<exists>t. i \<in> set (closes (sy_pc s' t)))"
      if "i < Suc (se_nextLID (sy_ses s))" for i
      using c that s'(6)[of i] unfolding close_ok_def s'(1,5) by (cases "i = se_nextLID (sy_ses s)") auto
    then show ?thesis using c False unfolding close_ok_def s'(1-4) by blast
  qed
next
  case (ActCancel t i)
  show ?thesis
  proof -
    have t: "sy_pc s t = Idle" using a ActCancel by (auto split: if_split_asm)
    have s': "s' = goto t (if i \<in> set (se_listeners (sy_ses s)) then Removing i else Idle)
        (s\<lparr>sy_ses := (sy_ses s)\<lparr>se_listeners := remove1 i (se_listeners (sy_ses s))\<rparr>\<rparr>)"
      using a ActCancel by (auto simp: remove_entry_def split: if_split_asm)
    have pc: "in_close (sy_pc s' u) = in_close (sy_pc s u)" for u using t by (simp add: s' sys_simps)
    have ses: "se_ended (sy_ses s') = se_ended (sy_ses s)" "se_done (sy_ses s') = se_done (sy_ses s)"
      "se_nextLID (sy_ses s') = se_nextLID (sy_ses s)" "sy_heap s' = sy_heap s"
      "se_listeners (sy_ses s') = remove1 i (se_listeners (sy_ses s))"
      by (simp_all add: s' sys_simps)
    have "j \<in> set (remove1 i (se_listeners (sy_ses s))) \<or> li_closed (sy_heap s j) \<or> (\<exists>u. j \<in> set (closes (sy_pc s' u)))"
      if "j < se_nextLID (sy_ses s)" for j
    proof (cases "j = i \<and> i \<in> set (se_listeners (sy_ses s))")
      case True
      then have "j \<in> set (closes (sy_pc s' t))" by (simp add: s' sys_simps)
      then show ?thesis by blast
    next
      case False
      moreover have "j \<in> set (closes (sy_pc s u)) \<Longrightarrow> j \<in> set (closes (sy_pc s' u))" for u using t by (auto simp: s' sys_simps)
      ultimately show ?thesis using close_unregistered[OF c that] by (metis in_set_remove1)
    qed
    then show ?thesis using c unfolding close_ok_def ses pc by auto
  qed
next
  case (ActCloseLock t ls)
  then obtain err where t: "sy_pc s t = CloseLock err" "set ls = set (se_listeners (sy_ses s))"
    and s': "s' = goto t (ClosingAll ls) (s\<lparr>sy_ses := close_state err (sy_ses s)\<rparr>)"
    using a by (auto split: pc.split_asm if_split_asm)
  have ses: "se_ended (close_state err (sy_ses s))" "se_listeners (close_state err (sy_ses s)) = []"
    "se_nextLID (close_state err (sy_ses s)) = se_nextLID (sy_ses s)"
    by (auto simp: close_state_def Let_def split: option.split)
  have "li_closed (sy_heap s j) \<or> (\<exists>u. j \<in> set (closes (sy_pc s' u)))" if "j < se_nextLID (sy_ses s)" for j
  proof (cases "j \<in> set ls")
    case True
    then have "j \<in> set (closes (sy_pc s' t))" by (simp add: s' sys_simps)
    then show ?thesis by blast
  next
    case False
    then have "li_closed (sy_heap s j) \<or> (\<exists>u. j \<in> set (closes (sy_pc s u)))" using close_unregistered[OF c that] t(2) by simp
    moreover have "j \<in> set (closes (sy_pc s' u))" if "j \<in> set (closes (sy_pc s u))" for u
      using that t(1) by (cases "u = t") (simp_all add: s' sys_simps)
    ultimately show ?thesis by blast
  qed
  moreover have "sy_ses s' = close_state err (sy_ses s)" "sy_heap s' = sy_heap s" "in_close (sy_pc s' t)"
    by (simp_all add: s' sys_simps)
  ultimately show ?thesis unfolding close_ok_def using ses by auto
next
  case (ActFinish t)
  then have t: "sy_pc s t = Finishing" using a by (auto split: pc.split_asm)
  have e: "se_ended (sy_ses s)" using c t unfolding close_ok_def by (metis in_close.simps(2))
  have "closes (sy_pc s' u) = closes (sy_pc s u)" "se_listeners (sy_ses s') = se_listeners (sy_ses s)"
    "se_nextLID (sy_ses s') = se_nextLID (sy_ses s)" "sy_heap s' = sy_heap s" "se_ended (sy_ses s')" "se_done (sy_ses s')" for u
    using a ActFinish t e l by (auto simp: locks_ok_def sys_simps split: if_split_asm)
  then show ?thesis using c e unfolding close_ok_def by auto
next
  case (ActMark t opened)
  have "se_nextLID (setState st None ses) = se_nextLID ses" "se_listeners (setState st None ses) = se_listeners ses"
    "se_ended (setState st None ses) = se_ended ses" "se_done (setState st None ses) = se_done ses"
    for st and ses :: "'a Session" by (simp_all add: setState_def Let_def)
  then show ?thesis using a ActMark c by (auto simp: MarkOpen_def MarkClosing_def intro!: close_ses split: if_split_asm)
next
  case (ActNumber t d n)
  then show ?thesis using a c by (auto intro!: close_goto close_same split: if_split_asm)
next
  case (ActAppend t ls)
  then obtain e where "sy_pc s t = Numbered e"
    "s' = goto t (Emitting e ls 0) (s\<lparr>sy_ses := publish_append e (sy_ses s), sy_log := sy_log s @ [e]\<rparr>)"
    using a by (auto split: if_split_asm pc.split_asm)
  moreover have "close_ok (s\<lparr>sy_ses := publish_append e (sy_ses s)\<rparr>)" by (rule close_ses[OF c]) (simp_all add: publish_append_def)
  then have "close_ok (s\<lparr>sy_ses := publish_append e (sy_ses s), sy_log := sy_log s @ [e]\<rparr>)" by (rule close_same(2))
  ultimately show ?thesis by (simp add: close_goto)
next
  case (ActCount t)
  then show ?thesis using a c by (auto intro!: close_goto close_ses split: pc.split_asm)
next
  case (ActClose t err)
  then show ?thesis using a c by (auto intro!: close_goto close_ses split: if_split_asm)
next
  case (ActReceive i)
  then show ?thesis using a c by (auto intro!: close_same close_listener split: list.split_asm)
qed

section \<open>Every mutex that is held has a holder\<close>

definition held_ok :: "'d sys \<Rightarrow> bool" where
  "held_ok s \<longleftrightarrow> (\<forall>i. li_held (sy_heap s i) \<longrightarrow> (\<exists>t. holds (sy_pc s t) = Some i))"

lemma held_keep:
  assumes "held_ok s" "\<And>i. li_held (sy_heap s' i) \<Longrightarrow> li_held (sy_heap s i)" "\<And>t. holds (sy_pc s t) \<noteq> None \<Longrightarrow> sy_pc s' t = sy_pc s t"
  shows "held_ok s'"
  using assms unfolding held_ok_def by (metis option.distinct(1))

lemma held_goto: "held_ok s \<Longrightarrow> holds (sy_pc s t) = None \<Longrightarrow> held_ok (goto t p s)"
  by (erule held_keep) (auto simp: sys_simps)

lemma held_listener: "held_ok s \<Longrightarrow> li_held l \<longrightarrow> li_held (sy_heap s i) \<Longrightarrow> held_ok (set_listener i l s)"
  by (erule held_keep) (auto simp: sys_simps split: if_split_asm)

lemma held_same:
  "held_ok s \<Longrightarrow> held_ok (s\<lparr>sy_ses := ses\<rparr>)" "held_ok s \<Longrightarrow> held_ok (s\<lparr>sy_seq := n\<rparr>)"
  "held_ok s \<Longrightarrow> held_ok (s\<lparr>sy_log := x\<rparr>)" "held_ok s \<Longrightarrow> held_ok (s\<lparr>sy_got := g\<rparr>)"
  "held_ok s \<Longrightarrow> held_ok (s\<lparr>sy_sent := g\<rparr>)" "held_ok s \<Longrightarrow> held_ok (s\<lparr>sy_from := f\<rparr>)"
  "held_ok s \<Longrightarrow> held_ok (panic s)" "held_ok s \<Longrightarrow> held_ok (offered i e s)"
  by (simp_all add: held_ok_def sys_simps)

lemma held_move:
  assumes h: "held_ok s" and p: "holds p = Some i" and t: "holds (sy_pc s t) = None \<or> holds (sy_pc s t) = Some i"
  shows "held_ok (goto t p (set_listener i l s))" (is "held_ok ?s")
  unfolding held_ok_def
proof (intro allI impI)
  fix j assume j: "li_held (sy_heap ?s j)"
  show "\<exists>u. holds (sy_pc ?s u) = Some j"
  proof (cases "j = i")
    case True
    then have "holds (sy_pc ?s t) = Some j" using p by (simp add: sys_simps)
    then show ?thesis by blast
  next
    case False
    then obtain u where u: "holds (sy_pc s u) = Some j" using h j by (auto simp: held_ok_def sys_simps)
    then have "u \<noteq> t" using t False by auto
    then have "holds (sy_pc ?s u) = Some j" using u by (simp add: sys_simps)
    then show ?thesis by blast
  qed
qed

lemma held_release: "held_ok s \<Longrightarrow> holds (sy_pc s t) = Some i \<Longrightarrow> \<not> li_held l \<Longrightarrow> held_ok (goto t p (set_listener i l s))"
  unfolding held_ok_def sys_simps by (auto split: if_split_asm) (metis option.inject)

lemma emit_keeps_held:
  assumes a: "held_ok s" "act_emit t s = Some s'"
  shows "held_ok s'"
proof (cases "sy_pc s t")
  case (Emitting e ls d)
  have "emit_try e l = Emitted ok l' \<Longrightarrow> li_held l' = li_held l" for l l' :: "'a event listener" and ok
    by (auto simp: emit_try_def split: if_split_asm send.split_asm DropPolicy.split_asm option.split_asm)
  note held = this
  show ?thesis
  proof (cases ls)
    case Nil
    with a Emitting show ?thesis by (auto simp: act_emit_def intro!: held_goto)
  next
    case (Cons i rest)
    show ?thesis
    proof (cases "emit_try e (sy_heap s i)")
      case MakeRoom
      with a Emitting Cons show ?thesis by (auto simp: act_emit_def intro!: held_move split: if_split_asm)
    next
      case (Emitted ok l)
      with a Emitting Cons held[OF Emitted] show ?thesis
        by (auto simp: act_emit_def sel_same intro!: held_goto held_same held_listener split: if_split_asm)
    next
      case EmitPanic
      with a Emitting Cons show ?thesis by (auto simp: act_emit_def intro!: held_same split: if_split_asm)
    qed
  qed
next
  case (Discard e i ls d)
  with a show ?thesis by (auto simp: act_emit_def intro!: held_move)
next
  case (Retry e i ls d)
  with a show ?thesis
    by (auto simp: act_emit_def offered_comm sel_same intro!: held_release held_same split: emission.split_asm)
qed (use a in \<open>auto simp: act_emit_def\<close>)

lemma close_keeps_held:
  assumes "held_ok s" "holds (sy_pc s t) = None" "act_close_listener t i nxt s = Some s'"
  shows "held_ok s'"
  using assms
  by (auto simp: act_close_listener_def li_close_def sel_same intro!: held_goto held_listener held_same
      split: if_split_asm option.split_asm)

lemma step_keeps_held:
  assumes h: "held_ok s" and a: "sys_act a s = Some s'"
  shows "held_ok s'"
proof (cases a)
  case (ActEmit t)
  then show ?thesis using a emit_keeps_held[OF h] by simp
next
  case (ActRemoved t)
  then show ?thesis using a by (auto elim!: close_keeps_held[OF h, rotated] split: pc.split_asm)
next
  case (ActClosing t)
  then show ?thesis using a h by (auto elim!: close_keeps_held[OF h, rotated] intro: held_goto split: pc.split_asm list.split_asm)
next
  case (ActSubscribe t)
  then show ?thesis using a h
    by (auto simp: act_subscribe_def Subscribe_def Let_def new_listener_def sel_same intro!: held_same held_listener split: if_split_asm)
next
  case (ActReceive i)
  then show ?thesis using a h by (auto intro!: held_same held_listener split: list.split_asm)
qed (use a h in \<open>auto simp: remove_entry_def sel_same intro!: held_goto held_same split: if_split_asm pc.split_asm\<close>)

section \<open>The transcript\<close>

definition transcript_ok :: "nat \<Rightarrow> 'd sys \<Rightarrow> bool" where
  "transcript_ok n s \<longleftrightarrow> ring_rel n (se_events (sy_ses s)) (sy_log s) \<and> se_total (sy_ses s) = length (sy_log s) \<and>
     se_bytes (sy_ses s) = sum_list (map ev_bytes (sy_log s))"

lemma transcript_keep:
  "transcript_ok n s \<Longrightarrow> se_events (sy_ses s') = se_events (sy_ses s) \<Longrightarrow> se_total (sy_ses s') = se_total (sy_ses s) \<Longrightarrow>
    se_bytes (sy_ses s') = se_bytes (sy_ses s) \<Longrightarrow> sy_log s' = sy_log s \<Longrightarrow> transcript_ok n s'"
  by (simp add: transcript_ok_def)

lemma transcript_goto:
  "transcript_ok n s \<Longrightarrow> transcript_ok n (goto t p s)" "transcript_ok n s \<Longrightarrow> transcript_ok n (set_listener i l s)"
  "transcript_ok n s \<Longrightarrow> transcript_ok n (offered i e s)" "transcript_ok n s \<Longrightarrow> transcript_ok n (panic s)"
  "transcript_ok n s \<Longrightarrow> transcript_ok n (s\<lparr>sy_seq := k\<rparr>)" "transcript_ok n s \<Longrightarrow> transcript_ok n (s\<lparr>sy_got := g\<rparr>)"
  "transcript_ok n s \<Longrightarrow> transcript_ok n (s\<lparr>sy_sent := g\<rparr>)" "transcript_ok n s \<Longrightarrow> transcript_ok n (s\<lparr>sy_from := f\<rparr>)"
  by (erule transcript_keep; simp add: sys_simps)+

lemma transcript_ses:
  "transcript_ok n s \<Longrightarrow> se_events ses = se_events (sy_ses s) \<Longrightarrow> se_total ses = se_total (sy_ses s) \<Longrightarrow>
    se_bytes ses = se_bytes (sy_ses s) \<Longrightarrow> transcript_ok n (s\<lparr>sy_ses := ses\<rparr>)"
  by (erule transcript_keep) simp_all

lemma transcript_append: "transcript_ok n s \<Longrightarrow>
    transcript_ok n (s\<lparr>sy_ses := publish_append e (sy_ses s), sy_log := sy_log s @ [e]\<rparr>)"
  by (simp add: transcript_ok_def publish_append_def ring_rel_append)

lemma ses_transcript:
  "se_events (close_state err ses) = se_events ses" "se_total (close_state err ses) = se_total ses"
  "se_bytes (close_state err ses) = se_bytes ses"
  "se_events (setState st er ses) = se_events ses" "se_total (setState st er ses) = se_total ses"
  "se_bytes (setState st er ses) = se_bytes ses"
  by (simp_all add: close_state_def setState_def Let_def split: option.split)

lemma emit_keeps_transcript: "transcript_ok n s \<Longrightarrow> act_emit t s = Some s' \<Longrightarrow> transcript_ok n s'"
  by (auto simp: act_emit_def intro!: transcript_goto split: pc.split_asm list.split_asm if_split_asm emission.split)

lemma close_keeps_transcript: "transcript_ok n s \<Longrightarrow> act_close_listener t i nxt s = Some s' \<Longrightarrow> transcript_ok n s'"
  by (auto simp: act_close_listener_def intro!: transcript_goto split: if_split_asm option.split_asm)

lemma step_keeps_transcript:
  assumes r: "transcript_ok n s" and a: "sys_act a s = Some s'"
  shows "transcript_ok n s'"
proof (cases a)
  case (ActSubscribe t)
  then show ?thesis using a r
    by (auto simp: act_subscribe_def Subscribe_def Let_def intro!: transcript_goto transcript_ses split: if_split_asm)
      (auto simp: transcript_ok_def sys_simps)
next
  case (ActEmit t)
  then show ?thesis using a emit_keeps_transcript[OF r] by simp
next
  case (ActAppend t ls)
  then show ?thesis using a r by (auto intro!: transcript_goto transcript_append split: pc.split_asm if_split_asm)
next
  case (ActCloseLock t ls)
  then show ?thesis using a r
    by (auto simp: ses_transcript intro!: transcript_goto(1) transcript_ses split: pc.split_asm if_split_asm)
qed (use a r in \<open>auto simp: remove_entry_def ses_transcript MarkOpen_def MarkClosing_def
    intro!: transcript_goto transcript_ses elim!: close_keeps_transcript[OF r] split: if_split_asm pc.split_asm list.split_asm\<close>)

section \<open>All invariants together\<close>

definition slots :: "Config \<Rightarrow> nat" where
  "slots cfg = nat (cf_buffer (defaultConfig cfg))"

definition sys_ok :: "nat \<Rightarrow> 'd sys \<Rightarrow> bool" where
  "sys_ok n s \<longleftrightarrow> locks_ok s \<and> ids_ok s \<and> events_ok s \<and> offers_ok s \<and> close_ok s \<and> held_ok s \<and> transcript_ok n s"

lemma sys_ok_parts:
  "sys_ok n s \<Longrightarrow> locks_ok s" "sys_ok n s \<Longrightarrow> ids_ok s" "sys_ok n s \<Longrightarrow> events_ok s" "sys_ok n s \<Longrightarrow> offers_ok s"
  "sys_ok n s \<Longrightarrow> close_ok s" "sys_ok n s \<Longrightarrow> held_ok s" "sys_ok n s \<Longrightarrow> transcript_ok n s"
  by (simp_all add: sys_ok_def)

interpretation ses_runs: keeps_invariant sys_act "sys_ok n" for n
proof
  fix s s' :: "'a sys" and p
  assume s: "sys_ok n s" "sys_act p s = Some s'"
  note ok = sys_ok_parts[OF s(1)] and a = s(2)
  show "sys_ok n s'"
    unfolding sys_ok_def
    using step_keeps_locks[OF ok(1,2) a] step_keeps_ids[OF ok(2) a] step_keeps_events[OF ok(3) a]
      step_keeps_offers[OF ok(4,3,2) a] step_keeps_close[OF ok(5,1) a] step_keeps_held[OF ok(6) a]
      step_keeps_transcript[OF ok(7) a] by blast
qed

lemma sys_ok_start: "sys_ok (slots cfg) (start cfg)"
proof -
  have "ring_rel (slots cfg) (newRingBuffer (cf_buffer (defaultConfig cfg))) []"
    using ring_rel_new[of "cf_buffer (defaultConfig cfg)"] by (simp add: slots_def defaultConfig_def split: if_splits)
  then show ?thesis
    by (simp add: sys_ok_def locks_ok_def ids_ok_def events_ok_def offers_ok_def close_ok_def held_ok_def transcript_ok_def
        start_def NewSession_def Let_def li_ok_def new_listener_def)
qed

lemmas run_ok = ses_runs.run_keeps[OF sys_ok_start]

section \<open>What sessions promise\<close>

text \<open>A run for the witnesses: a subscriber that is too slow, two goroutines that publish at once, and a close.\<close>

definition slow_run :: "nat action list" where
  "slow_run = [ActSubscribe 0, ActNumber 1 7 3, ActNumber 2 8 2, ActAppend 2 [0], ActAppend 1 [0], ActEmit 2, ActEmit 1,
     ActReceive 0, ActEmit 1, ActEmit 2, ActEmit 1]"

definition close_run :: "nat action list" where
  "close_run = slow_run @ [ActEmit 1, ActClose 3 (Some ''lost''), ActCloseLock 3 [0], ActClosing 3, ActClosing 3, ActFinish 3]"

definition tiny :: Config where
  "tiny = \<lparr>cf_buffer = 1, cf_listener = 1, cf_policy = None\<rparr>"

definition "slow_end = the (run_steps sys_act slow_run (start tiny))"
definition "close_end = the (run_steps sys_act close_run (start tiny))"

lemma slow_end: "run_steps sys_act slow_run (start tiny) = Some slow_end"
proof -
  have "run_steps sys_act slow_run (start tiny) \<noteq> None" by code_simp
  then show ?thesis by (simp add: slow_end_def)
qed

lemmas run_defs = slow_run_def close_run_def start_def NewSession_def defaultConfig_def tiny_def Let_def sys_simps
  newRingBuffer_def act_subscribe_def Subscribe_def new_listener_def act_emit_def emit_try_def emit_discard_def emit_retry_def
  chan_send_def chan_close_def publish_append_def rb_append_def rb_snapshot_def close_state_def act_close_listener_def li_close_def

lemma slow_pc: "sy_pc slow_end t = (if t = 1 then Emitting \<lparr>ev_seq = 1, ev_data = 7, ev_bytes = 3\<rparr> [] 0 else Idle)"
  by (simp add: slow_end_def run_defs)

lemma close_end: "run_steps sys_act close_run (start tiny) = Some close_end"
proof -
  have "run_steps sys_act close_run (start tiny) \<noteq> None" by code_simp
  then show ?thesis by (simp add: close_end_def)
qed

lemma close_pc: "sy_pc close_end t = Idle"
  by (simp add: close_end_def run_defs)

text \<open>
  C34: in every interleaving of publishers, receivers, subscriptions, cancellations and closes no goroutine panics, the
  numbers of the events are distinct, and every subscriber is offered only events appended after its snapshot, each at
  most once; what it has received and still has in its buffer, which never exceeds its capacity, is in the order of the
  offers; and while it is registered and no publisher is about to reach it, it was offered every event appended since.
\<close>

theorem subscriber_gets_events:
  assumes "run_steps sys_act as (start cfg) = Some s" and "i < se_nextLID (sy_ses s)"
  shows "\<not> sy_panic s \<and> distinct (map ev_seq (sy_log s)) \<and> distinct (sy_sent s i) \<and>
    set (sy_sent s i) \<subseteq> set (drop (sy_from s i) (sy_log s)) \<and>
    subseq (sy_got s i @ ch_buf (li_ch (sy_heap s i))) (sy_sent s i) \<and>
    length (ch_buf (li_ch (sy_heap s i))) \<le> ch_cap (li_ch (sy_heap s i)) \<and>
    (i \<in> set (se_listeners (sy_ses s)) \<and> (\<forall>t. i \<notin> set (pends (sy_pc s t))) \<longrightarrow>
       set (sy_sent s i) = set (drop (sy_from s i) (sy_log s)))"
proof -
  note ok = run_ok[OF assms(1)]
  from sys_ok_parts(4)[OF ok] assms(2) have o: "offer_ok s i" by (simp add: offers_ok_def)
  have "\<forall>t. i \<notin> set (pends (sy_pc s t)) \<Longrightarrow> pending s i = {}" by (simp add: pending_def)
  with o sys_ok_parts(1,3)[OF ok] show ?thesis
    by (auto simp: offer_ok_def since_def locks_ok_def li_ok_def events_ok_def)
qed

lemma subscriber_gets_events_witness:
  "set (sy_sent slow_end 0) = set (drop (sy_from slow_end 0) (sy_log slow_end)) \<and> length (sy_log slow_end) = 2 \<and>
   length (sy_got slow_end 0) = 1"
proof -
  have "0 < se_nextLID (sy_ses slow_end)" "0 \<in> set (se_listeners (sy_ses slow_end))" "length (sy_log slow_end) = 2"
    "length (sy_got slow_end 0) = 1"
    by (simp_all add: slow_end_def run_defs)
  moreover have "\<forall>t. 0 \<notin> set (pends (sy_pc slow_end t))" by (simp add: slow_pc)
  ultimately show ?thesis using subscriber_gets_events[OF slow_end, of 0] by blast
qed

text \<open>
  Whatever happened before, the snapshot a new subscriber gets is the latest events of the session, oldest first and
  as many as the configuration asks for, and the totals of the session count every event appended.
\<close>

theorem snapshot_is_tail:
  assumes "run_steps sys_act as (start cfg) = Some s"
  shows "sn_events (fst (Subscribe (sy_ses s))) = map Some (last_n (slots cfg) (sy_log s)) \<and>
    se_total (sy_ses s) = length (sy_log s) \<and> se_bytes (sy_ses s) = sum_list (map ev_bytes (sy_log s))"
proof -
  have t: "transcript_ok (slots cfg) s" by (rule sys_ok_parts(7)[OF run_ok[OF assms]])
  then have "rb_snapshot (se_events (sy_ses s)) = map Some (last_n (slots cfg) (sy_log s))"
    by (auto simp: transcript_ok_def intro: ring_snapshot)
  with t show ?thesis by (simp add: transcript_ok_def Subscribe_def Let_def)
qed

lemma snapshot_is_tail_witness:
  "sn_events (fst (Subscribe (sy_ses slow_end))) = [Some \<lparr>ev_seq = 1, ev_data = 7, ev_bytes = 3\<rparr>] \<and>
   se_total (sy_ses slow_end) = 2"
proof -
  have "slots tiny = 1" "sy_log slow_end = [\<lparr>ev_seq = 2, ev_data = 8, ev_bytes = 2\<rparr>, \<lparr>ev_seq = 1, ev_data = 7, ev_bytes = 3\<rparr>]"
    by (simp_all add: slots_def slow_end_def run_defs)
  with snapshot_is_tail[OF slow_end] show ?thesis by (simp add: last_n_def)
qed

text \<open>
  C35: once a session has ended and every goroutine is back, \<open>Done\<close> is closed, no listener is registered, the channel of
  every listener ever made is closed, and a new subscriber gets the transcript but no listener.
\<close>

theorem close_leaves_nothing_open:
  assumes "run_steps sys_act as (start cfg) = Some s" and "se_ended (sy_ses s)" and "\<forall>t. sy_pc s t = Idle"
  shows "se_done (sy_ses s) \<and> se_listeners (sy_ses s) = [] \<and>
    (\<forall>i \<in> {..<se_nextLID (sy_ses s)}. ch_closed (li_ch (sy_heap s i))) \<and> fst (snd (Subscribe (sy_ses s))) = None"
proof -
  note ok = run_ok[OF assms(1)]
  have "\<not> in_close (sy_pc s t)" "closes (sy_pc s t) = []" for t using assms(3) by simp_all
  with sys_ok_parts(1,5)[OF ok] assms(2) show ?thesis
    by (auto simp: close_ok_def locks_ok_def li_ok_def Subscribe_def Let_def)
qed

lemma close_leaves_nothing_open_witness:
  "ch_closed (li_ch (sy_heap close_end 0)) \<and> se_done (sy_ses close_end) \<and> se_state (sy_ses close_end) = StateFailed"
proof -
  have "se_ended (sy_ses close_end)" "0 < se_nextLID (sy_ses close_end)" "se_state (sy_ses close_end) = StateFailed"
    by (simp_all add: close_end_def run_defs)
  with close_leaves_nothing_open[OF close_end] close_pc show ?thesis by auto
qed

section \<open>Progress\<close>

fun actor :: "'d action \<Rightarrow> nat option" where
  "actor (ActNumber t d n) = Some t" | "actor (ActAppend t ls) = Some t" | "actor (ActEmit t) = Some t"
| "actor (ActCount t) = Some t" | "actor (ActSubscribe t) = Some t" | "actor (ActCancel t i) = Some t"
| "actor (ActRemoved t) = Some t" | "actor (ActClose t err) = Some t" | "actor (ActCloseLock t ls) = Some t"
| "actor (ActClosing t) = Some t" | "actor (ActFinish t) = Some t" | "actor (ActMark t b) = Some t"
| "actor (ActReceive i) = None"

text \<open>The step a goroutine takes next, and whether it waits for the mutex of a listener.\<close>

fun next_act :: "'d sys \<Rightarrow> nat \<Rightarrow> 'd pc \<Rightarrow> 'd action" where
  "next_act s t (Numbered e) = ActAppend t (se_listeners (sy_ses s))"
| "next_act s t (CountDrops d) = ActCount t"
| "next_act s t (Removing i) = ActRemoved t"
| "next_act s t (CloseLock err) = ActCloseLock t (se_listeners (sy_ses s))"
| "next_act s t (ClosingAll ls) = ActClosing t"
| "next_act s t Finishing = ActFinish t"
| "next_act s t p = ActEmit t"

fun waits :: "'d pc \<Rightarrow> nat option" where
  "waits (Emitting e (i # ls) d) = Some i"
| "waits (Removing i) = Some i"
| "waits (ClosingAll (i # ls)) = Some i"
| "waits _ = None"

lemma actor_next: "p \<noteq> Idle \<Longrightarrow> actor (next_act s t p) = Some t"
  by (cases p) simp_all

lemma next_enabled:
  assumes "ids_ok s" "sy_pc s t \<noteq> Idle" "\<forall>i. waits (sy_pc s t) = Some i \<longrightarrow> \<not> li_held (sy_heap s i)"
  shows "sys_act (next_act s t (sy_pc s t)) s \<noteq> None"
proof (cases "sy_pc s t")
  case (Emitting e ls d)
  with assms(3) show ?thesis by (cases ls) (auto simp: act_emit_def)
next
  case (ClosingAll ls)
  with assms(3) show ?thesis by (cases ls) (auto simp: act_close_listener_def)
qed (use assms in \<open>auto simp: ids_ok_def act_emit_def act_close_listener_def\<close>)

text \<open>
  C36: the locks cannot deadlock: in every reachable state in which some goroutine is inside an operation, one of the
  goroutines inside an operation can take its next step.
\<close>

theorem session_never_stuck:
  assumes "run_steps sys_act as (start cfg) = Some s" and "sy_pc s t \<noteq> Idle"
  shows "\<exists>u a. sy_pc s u \<noteq> Idle \<and> actor a = Some u \<and> sys_act a s \<noteq> None"
proof (cases "\<exists>i. waits (sy_pc s t) = Some i \<and> li_held (sy_heap s i)")
  case True
  then obtain i u where u: "holds (sy_pc s u) = Some i" using sys_ok_parts(6)[OF run_ok[OF assms(1)]] by (auto simp: held_ok_def)
  have "p \<noteq> Idle \<and> waits p = None" if "holds p = Some i" for p :: "'a pc" using that by (cases p) auto
  from this[OF u] next_enabled[OF sys_ok_parts(2)[OF run_ok[OF assms(1)]], of u] actor_next[of "sy_pc s u" s u]
  show ?thesis by auto
next
  case False
  with next_enabled[OF sys_ok_parts(2)[OF run_ok[OF assms(1)]] assms(2)] actor_next[OF assms(2), of s t] assms(2)
  show ?thesis by blast
qed

lemma session_never_stuck_witness: "\<exists>u a. sy_pc slow_end u \<noteq> Idle \<and> actor a = Some u \<and> sys_act a slow_end \<noteq> None"
  by (rule session_never_stuck[OF slow_end, of 1]) (simp add: slow_pc)

text \<open>
  A goroutine that marks a session after it was closed overwrites the state the close left, although the session stays
  ended.
\<close>

lemma mark_after_close:
  "case run_steps sys_act (close_run @ [ActMark 0 False]) (start tiny) of
     None \<Rightarrow> False | Some s \<Rightarrow> se_ended (sy_ses s) \<and> se_state (sy_ses s) = StateClosing"
  by (simp add: run_defs MarkClosing_def setState_def)

end
