(* ===== verification/StreamManagerProps.thy ===== *)
theory StreamManagerProps
  imports StreamManager StreamRuns
begin

text \<open>
  The table of running sessions over every interleaving: the hooks accepted for a session all run once, in order, when
  it has ended; \<open>List\<close> never uses an entry that was taken out; and the only panics are of calls that use an entry after
  it was.
\<close>

section \<open>What the manager relies on\<close>

text \<open>A source of events: being done is final and comes after the end, and its log only grows.\<close>

locale stream_source = keeps_invariant step ok for step :: "'op \<Rightarrow> 's \<Rightarrow> 's option" and ok :: "'s \<Rightarrow> bool" +
  fixes fin :: "'s \<Rightarrow> bool" and ended :: "'s \<Rightarrow> bool" and log :: "'s \<Rightarrow> 'e list"
  assumes fin_stays: "fin s \<Longrightarrow> step p s = Some s' \<Longrightarrow> fin s'"
    and fin_ended: "ok s \<Longrightarrow> fin s \<Longrightarrow> ended s"
    and log_grows: "step p s = Some s' \<Longrightarrow> \<exists>l. log s' = log s @ l"
begin

lemma moves_on: "ok s \<Longrightarrow> step p s = Some s' \<Longrightarrow> ok s' \<and> (fin s \<longrightarrow> fin s' \<and> ended s') \<and> (\<exists>l. log s' = log s @ l)"
  using keeps fin_stays fin_ended log_grows by blast

end

definition ses_ok :: "nat \<Rightarrow> 'd sys \<Rightarrow> bool" where
  "ses_ok n s \<longleftrightarrow> locks_ok s \<and> ids_ok s \<and> close_ok s \<and> transcript_ok n s"

lemma ses_ok_seq: "ses_ok n s \<Longrightarrow> ses_ok n (s\<lparr>sy_seq := k\<rparr>)"
  by (simp add: ses_ok_def locks_ok_def ids_ok_def close_ok_def transcript_ok_def)

lemma ses_ok_start: "ses_ok (slots cfg) (start cfg)"
  by (simp add: ses_ok_def sys_ok_parts(1,2,5,7)[OF sys_ok_start])

lemma ses_ok_cancel: "ses_ok n s \<Longrightarrow> ses_ok n (s\<lparr>sy_ses := (sy_ses s)\<lparr>se_canceled := True\<rparr>\<rparr>)"
  by (simp add: ses_ok_def locks_ok_def ids_ok_def close_ok_def transcript_ok_def)

lemma emit_same: "act_emit t s = Some s' \<Longrightarrow> sy_ses s' = sy_ses s \<and> sy_log s' = sy_log s"
  by (auto simp: act_emit_def sys_simps split: pc.split_asm list.split_asm if_split_asm emission.split_asm)

lemma close_listener_same: "act_close_listener t i nxt s = Some s' \<Longrightarrow> sy_ses s' = sy_ses s \<and> sy_log s' = sy_log s"
  by (auto simp: act_close_listener_def sys_simps split: if_split_asm option.split_asm)

lemma done_final: "se_done (sy_ses s) \<Longrightarrow> sys_act a s = Some s' \<Longrightarrow> se_done (sy_ses s')"
  by (cases a)
    (auto dest!: emit_same close_listener_same
      simp: sys_simps publish_append_def act_subscribe_def Subscribe_def remove_entry_def close_state_def setState_def
        MarkOpen_def MarkClosing_def Let_def split: if_split_asm pc.split_asm list.split_asm option.split_asm option.split)

lemma log_only_grows: "sys_act a s = Some s' \<Longrightarrow> \<exists>l. sy_log s' = sy_log s @ l"
  by (cases a)
    (auto dest!: emit_same close_listener_same simp: sys_simps act_subscribe_def remove_entry_def
      split: if_split_asm pc.split_asm list.split_asm option.split_asm prod.split_asm)

interpretation ses_source: stream_source sys_act "ses_ok n" "\<lambda>s. se_done (sy_ses s)" "\<lambda>s. se_ended (sy_ses s)" sy_log for n
proof
  fix s s' :: "'a sys" and p
  show "ses_ok n s \<Longrightarrow> sys_act p s = Some s' \<Longrightarrow> ses_ok n s'"
    using step_keeps_locks step_keeps_ids step_keeps_close step_keeps_transcript unfolding ses_ok_def by metis
qed (auto simp: ses_ok_def close_ok_def intro: done_final log_only_grows)

section \<open>The invariant\<close>

fun listed :: "('d, 'h) watch \<Rightarrow> bool" where
  "listed WOff = False" | "listed (WHooks _ _ _) = False" | "listed WDone = False" | "listed _ = True"

definition fits :: "('d, 'h) Manager \<Rightarrow> nat \<Rightarrow> SessionSummary \<Rightarrow> bool" where
  "fits w p su \<longleftrightarrow> su = summary_of (mn_ident w p) (su_State su) (su_Err su) True"

definition recent :: "(nat \<Rightarrow> Config) \<Rightarrow> ('d, 'h) Manager \<Rightarrow> nat \<Rightarrow> 'd event option list \<Rightarrow> bool" where
  "recent cfg w p evs \<longleftrightarrow> (\<exists>k \<le> length (sy_log (mn_ses w p)).
     evs = map Some (last_n (slots (cfg p)) (take k (sy_log (mn_ses w p)))))"

definition waiting :: "('d, 'h) Manager \<Rightarrow> nat \<Rightarrow> bool" where
  "waiting w m \<longleftrightarrow> ms_session (mn_heap w m) = Some (mn_for w m) \<and> ms_hooks (mn_heap w m) = mn_hooked w m \<and> mn_ran w m = []"

definition retired :: "(nat \<Rightarrow> Config) \<Rightarrow> ('d, 'h) Manager \<Rightarrow> nat \<Rightarrow> 'h list \<Rightarrow> SessionSummary \<Rightarrow> 'd event option list \<Rightarrow> bool" where
  "retired cfg w m hs su evs \<longleftrightarrow> ms_session (mn_heap w m) = None \<and> ms_hooks (mn_heap w m) = [] \<and>
     fits w (mn_for w m) su \<and> recent cfg w (mn_for w m) evs \<and>
     mn_ran w m @ map (\<lambda>h. (h, su, evs)) hs = map (\<lambda>h. (h, su, evs)) (mn_hooked w m)"

definition entry_ok :: "(nat \<Rightarrow> Config) \<Rightarrow> ('d, 'h) Manager \<Rightarrow> nat \<Rightarrow> bool" where
  "entry_ok cfg w m \<longleftrightarrow> (case mn_watch w m of
       WOff \<Rightarrow> False
     | WStart \<Rightarrow> waiting w m
     | WWait p \<Rightarrow> waiting w m \<and> p = mn_for w m
     | WState p \<Rightarrow> waiting w m \<and> p = mn_for w m \<and> se_done (ses_of w p)
     | WStats p st err \<Rightarrow> waiting w m \<and> p = mn_for w m \<and> se_done (ses_of w p)
     | WEvents p su \<Rightarrow> waiting w m \<and> p = mn_for w m \<and> fits w p su
     | WDelete p su evs \<Rightarrow> waiting w m \<and> p = mn_for w m \<and> fits w p su \<and> recent cfg w p evs
     | WHooks hs su evs \<Rightarrow> retired cfg w m hs su evs
     | WDone \<Rightarrow> \<exists>su evs. retired cfg w m [] su evs)"

definition table_ok :: "('d, 'h) Manager \<Rightarrow> bool" where
  "table_ok w \<longleftrightarrow> smap_ok (mn_sessions w) \<and>
     (\<forall>(i, m) \<in> set (mn_sessions w). m < mn_made w \<and> listed (mn_watch w m) \<and> i = id_id (mn_ident w (mn_for w m)))"

definition fresh_ok :: "('d, 'h) Manager \<Rightarrow> bool" where
  "fresh_ok w \<longleftrightarrow> (\<forall>m \<ge> mn_made w. mn_watch w m = WOff \<and> mn_hooked w m = [] \<and> mn_ran w m = [])"

text \<open>An entry a caller has looked up.\<close>

fun fetched :: "call \<Rightarrow> nat option" where
  "fetched (CancelAt m) = Some m" | "fetched (SnapshotAt m) = Some m" | "fetched (GetAt m x) = Some m" | "fetched _ = None"

fun listing :: "call \<Rightarrow> nat list option" where
  "listing (ListAt ms x acc) = Some ms" | "listing _ = None"

definition calls_ok :: "('d, 'h) Manager \<Rightarrow> bool" where
  "calls_ok w \<longleftrightarrow> distinct (mn_readers w) \<and> (\<forall>t. t \<in> set (mn_readers w) \<longleftrightarrow> listing (mn_call w t) \<noteq> None) \<and>
     (\<forall>t ms. listing (mn_call w t) = Some ms \<longrightarrow> set ms \<subseteq> snd ` set (mn_sessions w)) \<and>
     (\<forall>t m. fetched (mn_call w t) = Some m \<longrightarrow> m < mn_made w)"

definition mgr_ok :: "(nat \<Rightarrow> Config) \<Rightarrow> ('d, 'h) Manager \<Rightarrow> bool" where
  "mgr_ok cfg w \<longleftrightarrow> (\<forall>p. ses_ok (slots (cfg p)) (mn_ses w p)) \<and> table_ok w \<and> fresh_ok w \<and> calls_ok w \<and>
     (\<forall>m < mn_made w. entry_ok cfg w m)"

lemmas step_defs = call_at_def call_answer_def mgr_crash_def watching_def

text \<open>Steps of callers that touch only the callers.\<close>

lemma callers_only:
  "entry_ok cfg (w\<lparr>mn_call := c\<rparr>) m = entry_ok cfg w m" "entry_ok cfg (w\<lparr>mn_ans := a\<rparr>) m = entry_ok cfg w m"
  "entry_ok cfg (w\<lparr>mn_readers := r\<rparr>) m = entry_ok cfg w m" "entry_ok cfg (w\<lparr>mn_panic := b\<rparr>) m = entry_ok cfg w m"
  "table_ok (w\<lparr>mn_call := c\<rparr>) = table_ok w" "table_ok (w\<lparr>mn_ans := a\<rparr>) = table_ok w"
  "table_ok (w\<lparr>mn_readers := r\<rparr>) = table_ok w" "table_ok (w\<lparr>mn_panic := b\<rparr>) = table_ok w"
  "fresh_ok (w\<lparr>mn_call := c\<rparr>) = fresh_ok w" "fresh_ok (w\<lparr>mn_ans := a\<rparr>) = fresh_ok w"
  "fresh_ok (w\<lparr>mn_readers := r\<rparr>) = fresh_ok w" "fresh_ok (w\<lparr>mn_panic := b\<rparr>) = fresh_ok w"
  by (simp_all add: entry_ok_def waiting_def retired_def fits_def recent_def ses_of_def table_ok_def fresh_ok_def
      cong: watch.case_cong)

lemma mgr_ok_call:
  assumes "mgr_ok cfg w" and "calls_ok (w\<lparr>mn_readers := r, mn_call := c, mn_ans := a\<rparr>)"
  shows "mgr_ok cfg (w\<lparr>mn_readers := r, mn_call := c, mn_ans := a\<rparr>)"
  using assms by (simp add: mgr_ok_def callers_only)

lemma mgr_ok_crash: "mgr_ok cfg w \<Longrightarrow> mgr_ok cfg (mgr_crash w)"
  by (simp add: mgr_ok_def callers_only mgr_crash_def calls_ok_def)

lemma calls_ok_at:
  assumes "calls_ok w" "listing c = None \<longleftrightarrow> listing (mn_call w t) = None"
    and "\<And>ms. listing c = Some ms \<Longrightarrow> set ms \<subseteq> snd ` set (mn_sessions w)" "\<And>m. fetched c = Some m \<Longrightarrow> m < mn_made w"
  shows "calls_ok (w\<lparr>mn_call := (mn_call w)(t := c)\<rparr>)"
  using assms unfolding calls_ok_def by (auto split: if_splits)

lemma mgr_ok_at:
  assumes "mgr_ok cfg w" "listing c = None \<longleftrightarrow> listing (mn_call w t) = None"
    and "\<And>ms. listing c = Some ms \<Longrightarrow> set ms \<subseteq> snd ` set (mn_sessions w)" "\<And>m. fetched c = Some m \<Longrightarrow> m < mn_made w"
  shows "mgr_ok cfg (call_at t c w)"
  using assms(1) calls_ok_at[OF _ assms(2-4)] by (simp add: mgr_ok_def callers_only call_at_def)

lemma mgr_ok_answer: "mgr_ok cfg w \<Longrightarrow> listing (mn_call w t) = None \<Longrightarrow> mgr_ok cfg (call_answer t r w)"
  using mgr_ok_at[of cfg w NoCall t]
  by (simp add: mgr_ok_def callers_only call_at_def call_answer_def) (simp add: calls_ok_def)

section \<open>Every step keeps the invariant\<close>

lemma session_moves:
  assumes w: "mgr_ok cfg w" and s: "ses_ok (slots (cfg p)) s" "se_done (ses_of w p) \<Longrightarrow> se_done (sy_ses s)"
    "sy_log s = sy_log (mn_ses w p) @ l"
  shows "mgr_ok cfg (w\<lparr>mn_ses := (mn_ses w)(p := s), mn_seq := n\<rparr>)" (is "mgr_ok cfg ?w")
proof -
  have r: "recent cfg w q evs \<Longrightarrow> recent cfg ?w q evs" for q evs
  proof (cases "q = p")
    case True
    assume "recent cfg w q evs"
    then obtain k where "k \<le> length (sy_log (mn_ses w p))"
      "evs = map Some (last_n (slots (cfg p)) (take k (sy_log (mn_ses w p))))" using True by (auto simp: recent_def)
    then show ?thesis using s(3) True by (auto simp: recent_def intro!: exI[of _ k])
  qed (simp add: recent_def)
  have d: "se_done (ses_of w q) \<Longrightarrow> se_done (ses_of ?w q)" for q using s(2) by (auto simp: ses_of_def)
  have "entry_ok cfg ?w m" if "entry_ok cfg w m" for m
    using that r d by (auto simp: entry_ok_def waiting_def retired_def fits_def split: watch.splits)
  then show ?thesis using w s(1) by (simp add: mgr_ok_def table_ok_def fresh_ok_def calls_ok_def)
qed

lemma session_act_ok: "mgr_ok cfg w \<Longrightarrow> session_act p a w = Some w' \<Longrightarrow> mgr_ok cfg w'"
proof -
  assume w: "mgr_ok cfg w" and a: "session_act p a w = Some w'"
  then obtain s where s: "sys_act a ((mn_ses w p)\<lparr>sy_seq := mn_seq w\<rparr>) = Some s"
    and w': "w' = w\<lparr>mn_ses := (mn_ses w)(p := s), mn_seq := sy_seq s\<rparr>"
    by (auto simp: session_act_def split: option.split_asm)
  have "ses_ok (slots (cfg p)) ((mn_ses w p)\<lparr>sy_seq := mn_seq w\<rparr>)" using w by (simp add: mgr_ok_def ses_ok_seq)
  from ses_source.moves_on[OF this s] obtain l where "ses_ok (slots (cfg p)) s"
    "se_done (ses_of w p) \<Longrightarrow> se_done (sy_ses s)" "sy_log s = sy_log (mn_ses w p) @ l" by (auto simp: ses_of_def)
  from session_moves[OF w this] show ?thesis by (simp add: w')
qed

text \<open>An entry is judged by its own fields, its session and its goroutine.\<close>

lemma entry_ok_same:
  assumes "entry_ok cfg w m" "mn_ses w' = mn_ses w" "mn_ident w' = mn_ident w" "mn_heap w' m = mn_heap w m"
    "mn_watch w' m = mn_watch w m" "mn_for w' m = mn_for w m" "mn_hooked w' m = mn_hooked w m" "mn_ran w' m = mn_ran w m"
  shows "entry_ok cfg w' m"
  using assms by (simp add: entry_ok_def waiting_def retired_def fits_def recent_def ses_of_def cong: watch.case_cong)

lemma mgr_ok_parts:
  "mgr_ok cfg w \<Longrightarrow> table_ok w" "mgr_ok cfg w \<Longrightarrow> fresh_ok w" "mgr_ok cfg w \<Longrightarrow> calls_ok w"
  "mgr_ok cfg w \<Longrightarrow> m < mn_made w \<Longrightarrow> entry_ok cfg w m" "mgr_ok cfg w \<Longrightarrow> ses_ok (slots (cfg p)) (mn_ses w p)"
  by (simp_all add: mgr_ok_def)

lemma table_entry:
  assumes "table_ok w" "(i, m) \<in> set (mn_sessions w)"
  shows "m < mn_made w" "listed (mn_watch w m)" "i = id_id (mn_ident w (mn_for w m))"
  using assms by (auto simp: table_ok_def)

lemma table_lookup: "table_ok w \<Longrightarrow> map_of (mn_sessions w) i = Some m \<Longrightarrow> m < mn_made w \<and> listed (mn_watch w m)"
  using table_entry[of w i m] map_of_SomeD[of "mn_sessions w" i m] by blast

lemma listed_waits: "entry_ok cfg w m \<Longrightarrow> listed (mn_watch w m) \<Longrightarrow> waiting w m"
  by (auto simp: entry_ok_def split: watch.split_asm)

lemma insert_ok:
  assumes w: "mgr_ok cfg w" and r: "mn_readers w = []"
  shows "mgr_ok cfg (insert_entry p su w)" (is "mgr_ok cfg ?w")
proof -
  note p = mgr_ok_parts[OF w]
  have new: "entry_ok cfg ?w (mn_made w)"
    using p(2) by (simp add: entry_ok_def insert_entry_def Let_def waiting_def fresh_ok_def)
  have old: "entry_ok cfg ?w m" if "m < mn_made w" for m
    using that by (intro entry_ok_same[OF p(4)]) (auto simp: insert_entry_def Let_def)
  have "table_ok ?w"
    using p(1) set_smap_put[of "id_id (mn_ident w p)" "mn_made w" "mn_sessions w"]
    by (auto simp: table_ok_def insert_entry_def Let_def smap_ok_put) (fastforce split: if_splits)+
  moreover have "listing (mn_call w t) = None" for t using p(3) r by (auto simp: calls_ok_def)
  then have "calls_ok ?w" using p(3) by (auto simp: calls_ok_def insert_entry_def Let_def less_SucI)
  moreover have "fresh_ok ?w" using p(2) by (simp add: fresh_ok_def insert_entry_def Let_def)
  moreover have "\<forall>m < mn_made ?w. entry_ok cfg ?w m" using new old by (auto simp: insert_entry_def Let_def less_Suc_eq)
  ultimately show ?thesis using p(5) by (simp add: mgr_ok_def) (simp add: insert_entry_def Let_def)
qed

lemma hook_ok:
  assumes w: "mgr_ok cfg w" and t: "mn_call w t = NoCall"
  shows "mgr_ok cfg (add_hook t i h w)"
proof (cases "map_of (mn_sessions w) i")
  case None
  then show ?thesis using w t by (simp add: add_hook_def mgr_ok_answer)
next
  case (Some m)
  note p = mgr_ok_parts[OF w]
  from table_lookup[OF p(1) Some] have m: "m < mn_made w" "listed (mn_watch w m)" by auto
  let ?w = "w\<lparr>mn_heap := (mn_heap w)(m := (mn_heap w m)\<lparr>ms_hooks := ms_hooks (mn_heap w m) @ [h]\<rparr>),
            mn_hooked := (mn_hooked w)(m := mn_hooked w m @ [h])\<rparr>"
  have "waiting ?w m" using listed_waits[OF p(4)[OF m(1)] m(2)] by (simp add: waiting_def)
  then have "entry_ok cfg ?w m"
    using p(4)[OF m(1)] m(2) by (auto simp: entry_ok_def fits_def recent_def ses_of_def split: watch.splits)
  moreover have "entry_ok cfg ?w n" if "n < mn_made w" "n \<noteq> m" for n
    using that by (intro entry_ok_same[OF p(4)]) auto
  ultimately have "mgr_ok cfg ?w"
    using w m by (auto simp: mgr_ok_def table_ok_def fresh_ok_def calls_ok_def)
  then show ?thesis using Some t by (simp add: add_hook_def mgr_ok_answer)
qed

lemma retire_ok:
  assumes w: "mgr_ok cfg w" and m: "m < mn_made w" "mn_watch w m = WDelete p su evs" and r: "mn_readers w = []"
  shows "mgr_ok cfg (retire m p su evs w)" (is "mgr_ok cfg ?w")
proof -
  note ok = mgr_ok_parts[OF w]
  have e: "waiting w m" "p = mn_for w m" "fits w p su" "recent cfg w p evs"
    using ok(4)[OF m(1)] m(2) by (auto simp: entry_ok_def)
  then have "retired cfg ?w m (ms_hooks (mn_heap w m)) su evs"
    by (simp add: retired_def retire_def waiting_def watching_def fits_def recent_def)
  then have me: "entry_ok cfg ?w m" by (simp add: entry_ok_def retire_def watching_def)
  have "entry_ok cfg ?w n" if "n < mn_made w" "n \<noteq> m" for n
    using that by (intro entry_ok_same[OF ok(4)]) (auto simp: retire_def watching_def)
  then have all: "\<forall>n < mn_made ?w. entry_ok cfg ?w n" using me by (auto simp: retire_def watching_def)
  let ?i = "id_id (mn_ident w p)"
  have "smap_ok (mn_sessions w)" using ok(1) by (simp add: table_ok_def)
  then have gone: "(?i, n) \<notin> set (smap_del ?i (mn_sessions w))" for n
    using map_of_smap_del[of "mn_sessions w" ?i] smap_ok_del[of "mn_sessions w" ?i]
    by (metis fun_upd_same map_of_eq_None_iff imageI fst_conv)
  have "n < mn_made w \<and> listed (mn_watch ?w n) \<and> i = id_id (mn_ident w (mn_for w n))"
    if "(i, n) \<in> set (smap_del ?i (mn_sessions w))" for i n
  proof -
    have "(i, n) \<in> set (mn_sessions w)" using that set_smap_del[of ?i "mn_sessions w"] by blast
    note t = table_entry[OF ok(1) this]
    have "n \<noteq> m" using t(3) e(2) that gone by auto
    then show ?thesis using t by (simp add: retire_def watching_def)
  qed
  then have "\<forall>(i, n) \<in> set (smap_del ?i (mn_sessions w)).
      n < mn_made w \<and> listed (mn_watch ?w n) \<and> i = id_id (mn_ident w (mn_for w n))" by blast
  then have "table_ok ?w" using ok(1) by (simp add: table_ok_def retire_def watching_def smap_ok_del)
  moreover have "listing (mn_call w t) = None" for t using ok(3) r by (auto simp: calls_ok_def)
  then have "calls_ok ?w" using ok(3) by (auto simp: calls_ok_def retire_def watching_def)
  moreover have "fresh_ok ?w" using ok(2) m(1) by (auto simp: fresh_ok_def retire_def watching_def)
  ultimately show ?thesis using all ok(5) by (simp add: mgr_ok_def) (simp add: retire_def watching_def)
qed

text \<open>A step of the goroutine of an entry that leaves the table alone.\<close>

lemma watching_ok:
  assumes w: "mgr_ok cfg w" and m: "m < mn_made w" "listed (mn_watch w m) \<longrightarrow> listed x"
    and e: "entry_ok cfg (watching m x (w\<lparr>mn_ran := (mn_ran w)(m := r)\<rparr>)) m"
  shows "mgr_ok cfg (watching m x (w\<lparr>mn_ran := (mn_ran w)(m := r)\<rparr>))" (is "mgr_ok cfg ?w")
proof -
  note ok = mgr_ok_parts[OF w]
  have "entry_ok cfg ?w n" if "n < mn_made w" for n
    using that e by (cases "n = m") (auto intro: entry_ok_same[OF ok(4)] simp: watching_def)
  then show ?thesis using w m by (auto simp: mgr_ok_def table_ok_def fresh_ok_def calls_ok_def watching_def)
qed

lemma stage_ok:
  assumes "mgr_ok cfg w" "m < mn_made w" "listed (mn_watch w m) \<longrightarrow> listed x" "entry_ok cfg (watching m x w) m"
  shows "mgr_ok cfg (watching m x w)"
proof -
  have "w\<lparr>mn_ran := (mn_ran w)(m := mn_ran w m)\<rparr> = w" by simp
  then show ?thesis using watching_ok[OF assms(1-3), of "mn_ran w m"] assms(4) by simp
qed

lemma all_events: "ses_ok (slots (cfg p)) (mn_ses w p) \<Longrightarrow> recent cfg w p (rb_snapshot (se_events (ses_of w p)))"
  by (auto simp: recent_def ses_ok_def transcript_ok_def ses_of_def intro!: exI[of _ "length (sy_log (mn_ses w p))"] ring_snapshot)

lemma retired_watching: "retired cfg w m hs su evs \<Longrightarrow> retired cfg (w\<lparr>mn_watch := x\<rparr>) m hs su evs"
  by (simp add: retired_def fits_def recent_def)

lemma watch_ok:
  assumes w: "mgr_ok cfg w" and a: "watch_act m w = Some w'"
  shows "mgr_ok cfg w'"
proof -
  note ok = mgr_ok_parts[OF w]
  have m: "m < mn_made w" using a ok(2) by (cases "m < mn_made w") (auto simp: watch_act_def fresh_ok_def)
  note e = ok(4)[OF m]
  note go = stage_ok[OF w m] and run = watching_ok[OF w m]
  show ?thesis
  proof (cases "mn_watch w m")
    case (WStats p st err)
    then have "se_ended (ses_of w p)" using e ok(5)[of p] by (auto simp: entry_ok_def ses_of_def ses_ok_def close_ok_def)
    then show ?thesis using a e WStats
      by (auto simp: watch_act_def entry_ok_def watching_def waiting_def fits_def summary_of_def intro!: go[unfolded watching_def])
  next
    case (WEvents p su)
    then show ?thesis using a e all_events[of cfg p w, OF ok(5)]
      by (auto simp: watch_act_def entry_ok_def watching_def waiting_def fits_def recent_def ses_of_def
          intro!: go[unfolded watching_def])
  next
    case (WDelete p su evs)
    then show ?thesis using a retire_ok[OF w m WDelete] by (auto simp: watch_act_def split: if_split_asm)
  next
    case (WHooks hs su evs)
    then have hs: "retired cfg w m hs su evs" using e by (simp add: entry_ok_def)
    show ?thesis
    proof (cases hs)
      case Nil
      have "entry_ok cfg (watching m WDone w) m" using retired_watching[OF hs] Nil by (auto simp: entry_ok_def watching_def)
      then show ?thesis using a WHooks Nil go[of WDone] by (simp add: watch_act_def)
    next
      case (Cons h rest)
      let ?r = "mn_ran w m @ [(h, su, evs)]"
      have "entry_ok cfg (watching m (WHooks rest su evs) (w\<lparr>mn_ran := (mn_ran w)(m := ?r)\<rparr>)) m"
        using hs Cons by (simp add: entry_ok_def watching_def retired_def fits_def recent_def)
      then show ?thesis using a WHooks Cons run[of "WHooks rest su evs" ?r] by (simp add: watch_act_def)
    qed
  qed (use a e in \<open>auto simp: watch_act_def entry_ok_def watching_def waiting_def fits_def recent_def ses_of_def
      intro!: go[unfolded watching_def] split: if_split_asm option.splits\<close>)
qed


section \<open>Callers\<close>

lemma listed_session: "mgr_ok cfg w \<Longrightarrow> m \<in> snd ` set (mn_sessions w) \<Longrightarrow> \<exists>p. ms_session (mn_heap w m) = Some p"
proof -
  assume w: "mgr_ok cfg w" and "m \<in> snd ` set (mn_sessions w)"
  then obtain i where "(i, m) \<in> set (mn_sessions w)" by auto
  from table_entry[OF mgr_ok_parts(1)[OF w] this] listed_waits[OF mgr_ok_parts(4)[OF w]] show ?thesis
    by (auto simp: waiting_def)
qed

lemma sum_no_nil: "ms_session (mn_heap w m) = Some p \<Longrightarrow> sum_act w m x \<noteq> SumNil"
  by (cases x) simp_all

text \<open>\<open>List\<close> goes on whatever the others do, and never finds a pointer that is \<open>nil\<close>.\<close>

lemma list_acts:
  assumes w: "mgr_ok cfg w" and t: "mn_call w t = ListAt (m # ms) x acc"
  obtains y where "sum_act w m x = SumNext y" "call_act t w = Some (call_at t (ListAt (m # ms) y acc) w)"
  | su where "sum_act w m x = SumDone su" "call_act t w = Some (call_at t (ListAt ms SumCheck (acc @ [su])) w)"
proof -
  have "listing (mn_call w t) = Some (m # ms)" using t by simp
  then have "set (m # ms) \<subseteq> snd ` set (mn_sessions w)" using mgr_ok_parts(3)[OF w] unfolding calls_ok_def by blast
  then obtain p where "ms_session (mn_heap w m) = Some p" using listed_session[OF w] by fastforce
  from sum_no_nil[OF this, of x] that t show ?thesis by (cases "sum_act w m x") (auto simp: call_act_def)
qed

lemma call_ok:
  assumes w: "mgr_ok cfg w" and a: "call_act t w = Some w'"
  shows "mgr_ok cfg w'"
proof (cases "mn_call w t")
  case (RegInsert p su)
  then have "mn_readers w = []" "w' = call_answer t (AnsSummary su) (insert_entry p su w)"
    using a by (auto simp: call_act_def split: if_split_asm)
  then show ?thesis using insert_ok[OF w] RegInsert by (simp add: mgr_ok_answer insert_entry_def Let_def)
next
  case (CancelAt m)
  show ?thesis
  proof (cases "ms_session (mn_heap w m)")
    case None
    then show ?thesis using a w CancelAt by (auto simp: call_act_def mgr_ok_crash)
  next
    case (Some p)
    let ?s = "(mn_ses w p)\<lparr>sy_ses := (sy_ses (mn_ses w p))\<lparr>se_canceled := True\<rparr>\<rparr>"
    have "mgr_ok cfg (w\<lparr>mn_ses := (mn_ses w)(p := ?s), mn_seq := mn_seq w\<rparr>)"
      by (rule session_moves[OF w, where l = "[]"]) (simp_all add: mgr_ok_parts(5)[OF w] ses_ok_cancel ses_of_def)
    then show ?thesis using a CancelAt Some by (auto simp: call_act_def ses_of_def intro: mgr_ok_answer)
  qed
next
  case (GetAt m x)
  then have "fetched (mn_call w t) = Some m" by simp
  then have "m < mn_made w" using mgr_ok_parts(3)[OF w] unfolding calls_ok_def by blast
  then show ?thesis using a w GetAt
    by (auto simp: call_act_def intro!: mgr_ok_crash mgr_ok_answer mgr_ok_at split: summed.split_asm)
next
  case (ListAt ms x acc)
  have l: "listing (mn_call w t) = Some ms" using ListAt by simp
  then have sub: "set ms \<subseteq> snd ` set (mn_sessions w)" using mgr_ok_parts(3)[OF w] unfolding calls_ok_def by blast
  show ?thesis
  proof (cases ms)
    case Nil
    have "calls_ok (w\<lparr>mn_readers := remove1 t (mn_readers w), mn_call := (mn_call w)(t := NoCall),
        mn_ans := (mn_ans w)(t := Some (AnsList acc))\<rparr>)"
      using mgr_ok_parts(3)[OF w] by (auto simp: calls_ok_def)
    from mgr_ok_call[OF w this] show ?thesis using a ListAt Nil by (auto simp: call_act_def call_answer_def)
  next
    case (Cons m rest)
    with ListAt have t: "mn_call w t = ListAt (m # rest) x acc" by simp
    show ?thesis
    proof (rule list_acts[OF w t])
      fix y assume "call_act t w = Some (call_at t (ListAt (m # rest) y acc) w)"
      moreover have "mgr_ok cfg (call_at t (ListAt (m # rest) y acc) w)" by (rule mgr_ok_at[OF w]) (use sub Cons t in simp_all)
      ultimately show ?thesis using a by simp
    next
      fix su assume "call_act t w = Some (call_at t (ListAt rest SumCheck (acc @ [su])) w)"
      moreover have "mgr_ok cfg (call_at t (ListAt rest SumCheck (acc @ [su])) w)"
        by (rule mgr_ok_at[OF w]) (use sub Cons t in simp_all)
      ultimately show ?thesis using a by simp
    qed
  qed
qed (use a w in \<open>auto simp: call_act_def intro!: mgr_ok_at mgr_ok_answer mgr_ok_crash split: option.split_asm\<close>)

lemma start_ok:
  assumes w: "mgr_ok cfg w" and a: "call_start a w = Some w'" and t: "mn_call w (mgr_caller a) = NoCall"
  shows "mgr_ok cfg w'"
proof (cases a)
  case (ListAll u ms)
  have c: "distinct ms" "set ms = snd ` set (mn_sessions w)"
    "w' = w\<lparr>mn_readers := u # mn_readers w, mn_call := (mn_call w)(u := ListAt ms SumCheck []), mn_ans := mn_ans w\<rparr>"
    using a ListAll by (auto simp: call_at_def split: if_split_asm)
  have "u \<notin> set (mn_readers w)" using mgr_ok_parts(3)[OF w] t ListAll by (auto simp: calls_ok_def)
  then show ?thesis unfolding c(3) using mgr_ok_parts(3)[OF w] c(2)
    by (intro mgr_ok_call[OF w]) (auto simp: calls_ok_def)
next
  case (AddHook u i h)
  then show ?thesis using a w t by (cases h) (auto intro: mgr_ok_answer hook_ok split: if_split_asm)
next
  case (Register u p)
  then show ?thesis using a w t by (cases p) (auto intro!: mgr_ok_answer mgr_ok_at)
qed (use a w t in \<open>auto intro!: mgr_ok_answer mgr_ok_at dest: table_lookup[OF mgr_ok_parts(1)[OF w]] split: option.split_asm\<close>)

interpretation mgr_runs: keeps_invariant mgr_act "mgr_ok cfg" for cfg
proof
  fix w w' :: "('a, 'b) Manager" and a
  assume "mgr_ok cfg w" "mgr_act a w = Some w'"
  then show "mgr_ok cfg w'"
    by (cases a) (auto simp: mgr_act_def simp del: call_start.simps intro: session_act_ok call_ok watch_ok start_ok
        split: if_split_asm)
qed

lemma mgr_ok_start: "mgr_ok cfg (NewManager cfg ident)"
  by (simp add: mgr_ok_def NewManager_def ses_ok_start table_ok_def fresh_ok_def calls_ok_def)

lemmas mgr_run_ok = mgr_runs.run_keeps[OF mgr_ok_start]


section \<open>Progress\<close>

lemma run_steps_append:
  "run_steps step (as @ bs) s = (case run_steps step as s of None \<Rightarrow> None | Some s' \<Rightarrow> run_steps step bs s')"
  by (induction as arbitrary: s) (auto split: option.split)

fun sum_left :: "summing \<Rightarrow> nat" where
  "sum_left SumCheck = 5" | "sum_left SumState = 4" | "sum_left (SumStats st err) = 3" | "sum_left (SumID su) = 2"
| "sum_left (SumKind su) = 1"

lemma sum_goes_on: "sum_act w m x = SumNext y \<Longrightarrow> sum_left y < sum_left x"
  by (cases x) (auto split: option.split_asm)

text \<open>A call of \<open>List\<close> returns by its own steps and lets go of the lock.\<close>

lemma reader_returns:
  assumes "mgr_ok cfg w" "\<not> mn_panic w" "mn_call w t = ListAt ms x acc"
  shows "\<exists>n r. run_steps mgr_act (replicate n (CallStep t)) w = Some (w\<lparr>mn_readers := remove1 t (mn_readers w),
    mn_call := (mn_call w)(t := NoCall), mn_ans := (mn_ans w)(t := Some r)\<rparr>)"
  using assms
proof (induction "6 * length ms + sum_left x" arbitrary: w ms x acc rule: less_induct)
  case less
  note w = less.prems
  have go: ?case if s: "mgr_act (CallStep t) w = Some (call_at t (ListAt ns y bcc) w)"
    and l: "6 * length ns + sum_left y < 6 * length ms + sum_left x" for ns y bcc
  proof -
    have "mgr_ok cfg (call_at t (ListAt ns y bcc) w)" using mgr_runs.keeps[OF w(1) s] .
    from less.hyps[OF l this, of bcc] w(2) obtain n r where
      "run_steps mgr_act (replicate n (CallStep t)) (call_at t (ListAt ns y bcc) w) = Some (w\<lparr>mn_readers := remove1 t (mn_readers w),
        mn_call := (mn_call w)(t := NoCall), mn_ans := (mn_ans w)(t := Some r)\<rparr>)"
      by (auto simp: call_at_def)
    then have "run_steps mgr_act (replicate (Suc n) (CallStep t)) w = Some (w\<lparr>mn_readers := remove1 t (mn_readers w),
        mn_call := (mn_call w)(t := NoCall), mn_ans := (mn_ans w)(t := Some r)\<rparr>)" using s by simp
    then show ?thesis by blast
  qed
  show ?case
  proof (cases ms)
    case Nil
    then have "run_steps mgr_act (replicate 1 (CallStep t)) w = Some (w\<lparr>mn_readers := remove1 t (mn_readers w),
        mn_call := (mn_call w)(t := NoCall), mn_ans := (mn_ans w)(t := Some (AnsList acc))\<rparr>)"
      using w by (simp add: mgr_act_def call_act_def call_answer_def)
    then show ?thesis by blast
  next
    case (Cons m rest)
    with w(3) have t: "mn_call w t = ListAt (m # rest) x acc" by simp
    have pos: "0 < sum_left x" by (cases x) simp_all
    show ?thesis
      by (rule list_acts[OF w(1) t])
        (use w(2) Cons pos in \<open>auto simp: mgr_act_def dest!: sum_goes_on intro!: go\<close>)
  qed
qed

lemma readers_return:
  assumes "mgr_ok cfg w" "\<not> mn_panic w"
  shows "\<exists>ts c a. set ts \<subseteq> set (mn_readers w) \<and>
    run_steps mgr_act (map CallStep ts) w = Some (w\<lparr>mn_readers := [], mn_call := c, mn_ans := a\<rparr>)"
  using assms
proof (induction "mn_readers w" arbitrary: w)
  case Nil
  then have "run_steps mgr_act (map CallStep []) w = Some (w\<lparr>mn_readers := [], mn_call := mn_call w, mn_ans := mn_ans w\<rparr>)" by simp
  then show ?case by (metis empty_set empty_subsetI)
next
  case (Cons t rs)
  have "t \<in> set (mn_readers w)" using Cons.hyps(2)[symmetric] by simp
  then have "listing (mn_call w t) \<noteq> None" using mgr_ok_parts(3)[OF Cons.prems(1)] unfolding calls_ok_def by blast
  then obtain ms x acc where "mn_call w t = ListAt ms x acc" by (cases "mn_call w t") auto
  from reader_returns[OF Cons.prems this] obtain n r where n: "run_steps mgr_act (replicate n (CallStep t)) w =
      Some (w\<lparr>mn_readers := rs, mn_call := (mn_call w)(t := NoCall), mn_ans := (mn_ans w)(t := Some r)\<rparr>)"
    (is "_ = Some ?w") using Cons.hyps(2)[symmetric] by auto
  have "mgr_ok cfg ?w" by (rule mgr_runs.run_keeps[OF Cons.prems(1) n])
  from Cons.hyps(1)[OF _ this] Cons.prems(2) obtain ts c a where "set ts \<subseteq> set rs"
    "run_steps mgr_act (map CallStep ts) ?w = Some (w\<lparr>mn_readers := [], mn_call := c, mn_ans := a\<rparr>)" by auto
  then have "set (replicate n t @ ts) \<subseteq> set (mn_readers w)"
    "run_steps mgr_act (map CallStep (replicate n t @ ts)) w = Some (w\<lparr>mn_readers := [], mn_call := c, mn_ans := a\<rparr>)"
    using n Cons.hyps(2)[symmetric] by (auto simp: run_steps_append)
  then show ?case by blast
qed


text \<open>The goroutine of an entry: the steps it has left, and what it has read if the session did not move since.\<close>

fun watch_left :: "nat \<Rightarrow> ('d, 'h) watch \<Rightarrow> nat" where
  "watch_left k WStart = 8 + k" | "watch_left k (WWait p) = 7 + k" | "watch_left k (WState p) = 6 + k"
| "watch_left k (WStats p st err) = 5 + k" | "watch_left k (WEvents p su) = 4 + k" | "watch_left k (WDelete p su evs) = 3 + k"
| "watch_left k (WHooks hs su evs) = 1 + length hs" | "watch_left k _ = 0"

lemma watch_left_bound: "entry_ok cfg w m \<Longrightarrow> watch_left (length (mn_hooked w m)) (mn_watch w m) \<le> 8 + length (mn_hooked w m)"
proof (cases "mn_watch w m")
  case (WHooks hs su evs)
  moreover assume "entry_ok cfg w m"
  ultimately have "length (mn_ran w m @ map (\<lambda>h. (h, su, evs)) hs) = length (map (\<lambda>h. (h, su, evs)) (mn_hooked w m))"
    by (simp add: entry_ok_def retired_def)
  then show ?thesis using WHooks by simp
qed simp_all

definition read_now :: "SessionSummary \<Rightarrow> 'd event option list \<Rightarrow> ('d, 'h) Manager \<Rightarrow> nat \<Rightarrow> bool" where
  "read_now su evs w m \<longleftrightarrow> (\<forall>x \<in> set (mn_ran w m). snd x = (su, evs)) \<and> (case mn_watch w m of
       WStats p st err \<Rightarrow> st = su_State su \<and> err = su_Err su
     | WEvents p su1 \<Rightarrow> su1 = su
     | WDelete p su1 evs1 \<Rightarrow> su1 = su \<and> evs1 = evs
     | WHooks hs su1 evs1 \<Rightarrow> su1 = su \<and> evs1 = evs
     | _ \<Rightarrow> True)"

text \<open>What a reader finds in a session now.\<close>

definition last_summary :: "('d, 'h) Manager \<Rightarrow> nat \<Rightarrow> SessionSummary" where
  "last_summary w p = summary_of (mn_ident w p) (se_state (ses_of w p)) (se_err (ses_of w p)) True"

definition last_events :: "('d, 'h) Manager \<Rightarrow> nat \<Rightarrow> 'd event option list" where
  "last_events w p = rb_snapshot (se_events (ses_of w p))"

definition same_entry :: "nat \<Rightarrow> ('d, 'h) Manager \<Rightarrow> ('d, 'h) Manager \<Rightarrow> bool" where
  "same_entry m w w' \<longleftrightarrow> mn_ses w' = mn_ses w \<and> mn_ident w' = mn_ident w \<and> mn_made w' = mn_made w \<and> mn_for w' = mn_for w \<and>
     mn_hooked w' = mn_hooked w \<and> mn_panic w' = mn_panic w \<and> mn_readers w' = mn_readers w"

lemma watcher_goes_on:
  assumes w: "mgr_ok cfg w" "\<not> mn_panic w" "mn_readers w = []" and m: "m < mn_made w" "se_done (ses_of w (mn_for w m))"
    and x: "mn_watch w m \<noteq> WDone"
  shows "\<exists>w'. mgr_act (WatchStep m) w = Some w' \<and> same_entry m w w' \<and>
    watch_left (length (mn_hooked w m)) (mn_watch w' m) < watch_left (length (mn_hooked w m)) (mn_watch w m) \<and>
    (read_now (last_summary w (mn_for w m)) (last_events w (mn_for w m)) w m \<longrightarrow>
       read_now (last_summary w (mn_for w m)) (last_events w (mn_for w m)) w' m)"
proof -
  note e = mgr_ok_parts(4)[OF w(1) m(1)]
  show ?thesis
  proof (cases "mn_watch w m")
    case (WStats p st err)
    then have "se_ended (ses_of w p)" "p = mn_for w m"
      using e mgr_ok_parts(5)[OF w(1), of p] by (auto simp: entry_ok_def ses_of_def ses_ok_def close_ok_def)
    then show ?thesis using WStats w e m(2)
      by (simp add: mgr_act_def watch_act_def same_entry_def watching_def read_now_def last_summary_def summary_of_def)
  next
    case (WDelete p su evs)
    then show ?thesis using w e m(2)
      by (simp add: mgr_act_def watch_act_def same_entry_def watching_def read_now_def retire_def entry_ok_def waiting_def)
  next
    case (WHooks hs su evs)
    then show ?thesis using w e
      by (cases hs) (auto simp: mgr_act_def watch_act_def same_entry_def watching_def read_now_def)
  qed (use w e m(2) x in \<open>auto simp: mgr_act_def watch_act_def same_entry_def watching_def read_now_def entry_ok_def
      waiting_def last_summary_def last_events_def summary_of_def\<close>)
qed

lemma same_entry_trans: "same_entry m w w' \<Longrightarrow> same_entry m w' w'' \<Longrightarrow> same_entry m w w''"
  by (simp add: same_entry_def)

lemma watcher_finishes:
  assumes "mgr_ok cfg w" "\<not> mn_panic w" "mn_readers w = []" "m < mn_made w" "se_done (ses_of w (mn_for w m))"
    and "b \<longrightarrow> read_now (last_summary w (mn_for w m)) (last_events w (mn_for w m)) w m"
  shows "\<exists>n w'. n \<le> watch_left (length (mn_hooked w m)) (mn_watch w m) \<and>
    run_steps mgr_act (replicate n (WatchStep m)) w = Some w' \<and> mn_watch w' m = WDone \<and> same_entry m w w' \<and>
    (b \<longrightarrow> read_now (last_summary w (mn_for w m)) (last_events w (mn_for w m)) w' m)"
  using assms
proof (induction "watch_left (length (mn_hooked w m)) (mn_watch w m)" arbitrary: w rule: less_induct)
  case less
  show ?case
  proof (cases "mn_watch w m = WDone")
    case True
    have "run_steps mgr_act (replicate 0 (WatchStep m)) w = Some w" by simp
    then show ?thesis using True less.prems(6) by (force simp: same_entry_def)
  next
    case False
    from watcher_goes_on[OF less.prems(1-5) False] obtain w1 where s: "mgr_act (WatchStep m) w = Some w1" "same_entry m w w1"
      and l: "watch_left (length (mn_hooked w m)) (mn_watch w1 m) < watch_left (length (mn_hooked w m)) (mn_watch w m)"
      and r: "b \<longrightarrow> read_now (last_summary w (mn_for w m)) (last_events w (mn_for w m)) w1 m"
      using less.prems(6) by auto
    have eq: "mn_ses w1 = mn_ses w" "mn_ident w1 = mn_ident w" "mn_for w1 = mn_for w" "mn_hooked w1 = mn_hooked w"
      "mn_made w1 = mn_made w" "mn_panic w1 = mn_panic w" "mn_readers w1 = mn_readers w"
      using s(2) by (simp_all add: same_entry_def)
    then have lw: "last_summary w1 = last_summary w" "last_events w1 = last_events w" "ses_of w1 = ses_of w"
      by (simp_all add: last_summary_def last_events_def ses_of_def fun_eq_iff)
    have "mgr_ok cfg w1" by (rule mgr_runs.keeps[OF less.prems(1) s(1)])
    from less.hyps[of w1, unfolded eq lw, OF l this less.prems(2-5) r] obtain n w' where
      n: "n \<le> watch_left (length (mn_hooked w m)) (mn_watch w1 m)" "run_steps mgr_act (replicate n (WatchStep m)) w1 = Some w'"
      "mn_watch w' m = WDone" "same_entry m w1 w'"
      "b \<longrightarrow> read_now (last_summary w (mn_for w m)) (last_events w (mn_for w m)) w' m" by blast
    then have "run_steps mgr_act (replicate (Suc n) (WatchStep m)) w = Some w'" using s(1) by simp
    moreover have "Suc n \<le> watch_left (length (mn_hooked w m)) (mn_watch w m)" using n(1) l by simp
    ultimately show ?thesis using n(3,5) same_entry_trans[OF s(2) n(4)] by blast
  qed
qed


section \<open>What the manager promises\<close>

interpretation ident_runs: keeps_invariant mgr_act "\<lambda>w. mn_ident w = ident" for ident
proof
  fix w w' :: "('a, 'b) Manager" and a
  assume w: "mn_ident w = ident" and a: "mgr_act a w = Some w'"
  have c: "call_start b w = Some w' \<Longrightarrow> mn_ident w' = ident" for b
    using w by (induction b w rule: call_start.induct)
      (auto simp: step_defs add_hook_def split: option.split_asm if_split_asm)
  have t: "call_act t w = Some w' \<Longrightarrow> mn_ident w' = ident" for t
    using w by (auto simp: call_act_def step_defs insert_entry_def Let_def
        split: call.split_asm option.split_asm list.split_asm summed.split_asm if_split_asm)
  show "mn_ident w' = ident"
    using a w c t by (cases a) (auto simp: mgr_act_def session_act_def watch_act_def watching_def retire_def
        simp del: call_start.simps split: option.split_asm watch.split_asm list.split_asm if_split_asm)
qed

lemma manager_ident: "run_steps mgr_act as (NewManager cfg ident) = Some w \<Longrightarrow> mn_ident w = ident"
  by (erule ident_runs.run_keeps[rotated]) (simp add: NewManager_def)

lemma ran_prefix: "mgr_ok cfg w \<Longrightarrow> m < mn_made w \<Longrightarrow> prefix (map fst (mn_ran w m)) (mn_hooked w m)"
proof -
  assume "mgr_ok cfg w" "m < mn_made w"
  note e = mgr_ok_parts(4)[OF this]
  have "mn_ran w m = [] \<or> (\<exists>hs su evs. retired cfg w m hs su evs)"
    using e by (auto simp: entry_ok_def waiting_def split: watch.split_asm)
  moreover have "prefix (map fst (mn_ran w m)) (mn_hooked w m)" if "retired cfg w m hs su evs" for hs su evs
  proof -
    have "map fst (mn_ran w m @ map (\<lambda>h. (h, su, evs)) hs) = map fst (map (\<lambda>h. (h, su, evs)) (mn_hooked w m))"
      using that by (simp only: retired_def)
    then have "map fst (mn_ran w m) @ hs = mn_hooked w m" by (simp add: comp_def)
    then show ?thesis by (metis prefixI)
  qed
  ultimately show ?thesis by auto
qed

text \<open>A run for the witnesses: a session with two hooks, an event and the end, its watcher not yet woken.\<close>

definition ws1 :: "nat \<Rightarrow> Ident" where
  "ws1 p = \<lparr>id_id = ''ws-1'', id_kind = KindWebSocket, id_started = 7\<rparr>"

definition hook_run :: "(nat, nat) mgr_action list" where
  "hook_run = [Register 0 (Some 0), CallStep 0, CallStep 0, CallStep 0, AddHook 0 ''ws-1'' (Some 5), AddHook 0 ''ws-1'' (Some 6),
     WatchStep 0, SessionStep 0 (ActNumber 1 7 3), SessionStep 0 (ActAppend 1 []), SessionStep 0 (ActEmit 1),
     SessionStep 0 (ActClose 1 None), SessionStep 0 (ActCloseLock 1 []), SessionStep 0 (ActClosing 1),
     SessionStep 0 (ActFinish 1)]"

definition hook_end :: "(nat, nat) Manager" where
  "hook_end = the (run_steps mgr_act hook_run (NewManager (\<lambda>_. tiny) ws1))"

lemma hook_end: "run_steps mgr_act hook_run (NewManager (\<lambda>_. tiny) ws1) = Some hook_end"
proof -
  have "run_steps mgr_act hook_run (NewManager (\<lambda>_. tiny) ws1) \<noteq> None" by code_simp
  then show ?thesis by (simp add: hook_end_def)
qed

lemmas mgr_defs = hook_run_def NewManager_def mgr_act_def session_act_def call_act_def watch_act_def step_defs ws1_def
  insert_entry_def add_hook_def ses_of_def summary_of_def retire_def

text \<open>
  C37: in every interleaving, the hooks run for a session are the first of those accepted for it, in order; and once the
  session is done, the calls of \<open>List\<close> that hold the lock return and the goroutine of the session finishes within a bounded
  number of its own steps, having run every accepted hook once, in order, all with one summary that has the session's
  ID and a time of the end; if it had not woken up before, with the final state and the latest events.
\<close>

theorem hooks_run_once:
  assumes "run_steps mgr_act as (NewManager cfg ident) = Some w" and "\<not> mn_panic w" and "m < mn_made w"
  shows "prefix (map fst (mn_ran w m)) (mn_hooked w m) \<and>
    (se_done (ses_of w (mn_for w m)) \<longrightarrow> (\<exists>ts n w' su evs. set ts \<subseteq> set (mn_readers w) \<and>
       n \<le> 8 + length (mn_hooked w m) \<and>
       run_steps mgr_act (map CallStep ts @ replicate n (WatchStep m)) w = Some w' \<and> mn_watch w' m = WDone \<and>
       mn_ran w' m = map (\<lambda>h. (h, su, evs)) (mn_hooked w m) \<and>
       su_ID su = id_id (ident (mn_for w m)) \<and> su_EndedAt su \<and>
       (mn_watch w m \<in> {WStart, WWait (mn_for w m)} \<longrightarrow>
          su_State su = se_state (ses_of w (mn_for w m)) \<and> su_Err su = se_err (ses_of w (mn_for w m)) \<and>
          evs = map Some (last_n (slots (cfg (mn_for w m))) (sy_log (mn_ses w (mn_for w m)))))))"
proof (intro conjI impI)
  note w = mgr_run_ok[OF assms(1)]
  show "prefix (map fst (mn_ran w m)) (mn_hooked w m)" by (rule ran_prefix[OF w assms(3)])
  assume d: "se_done (ses_of w (mn_for w m))"
  let ?p = "mn_for w m" and ?b = "mn_watch w m \<in> {WStart, WWait (mn_for w m)}"
  obtain ts c a where ts: "set ts \<subseteq> set (mn_readers w)"
    "run_steps mgr_act (map CallStep ts) w = Some (w\<lparr>mn_readers := [], mn_call := c, mn_ans := a\<rparr>)" (is "_ = Some ?w")
    using readers_return[OF w assms(2)] by blast
  have ok: "mgr_ok cfg ?w" by (rule mgr_runs.run_keeps[OF w ts(2)])
  have now: "last_summary ?w = last_summary w" "last_events ?w = last_events w" "ses_of ?w = ses_of w"
    by (simp_all add: last_summary_def last_events_def ses_of_def fun_eq_iff)
  have "?b \<longrightarrow> read_now (last_summary w ?p) (last_events w ?p) ?w m"
    using mgr_ok_parts(4)[OF w assms(3)] by (auto simp: read_now_def entry_ok_def waiting_def)
  then obtain n w' where n: "n \<le> watch_left (length (mn_hooked w m)) (mn_watch w m)"
    "run_steps mgr_act (replicate n (WatchStep m)) ?w = Some w'" "mn_watch w' m = WDone" "same_entry m ?w w'"
    "?b \<longrightarrow> read_now (last_summary w ?p) (last_events w ?p) w' m"
    using watcher_finishes[OF ok, of m ?b] assms(2,3) d by (auto simp: now)
  have ok': "mgr_ok cfg w'" by (rule mgr_runs.run_keeps[OF ok n(2)])
  have eq: "mn_for w' = mn_for w" "mn_hooked w' = mn_hooked w" "mn_ident w' = ident" "mn_made w' = mn_made w"
    using n(4) manager_ident[OF assms(1)] by (simp_all add: same_entry_def)
  then obtain su evs where r: "retired cfg w' m [] su evs"
    using mgr_ok_parts(4)[OF ok', of m] n(3) assms(3) by (auto simp: entry_ok_def)
  have ran: "mn_ran w' m = map (\<lambda>h. (h, su, evs)) (mn_hooked w m)" using r eq by (simp add: retired_def)
  have su: "su_ID su = id_id (ident ?p)" "su_EndedAt su"
    using r eq by (auto simp: retired_def fits_def summary_of_def) (metis SessionSummary.select_convs)+
  have run: "run_steps mgr_act (map CallStep ts @ replicate n (WatchStep m)) w = Some w'"
    using ts(2) n(2) by (simp add: run_steps_append)
  have bound: "n \<le> 8 + length (mn_hooked w m)" using n(1) watch_left_bound[OF mgr_ok_parts(4)[OF w assms(3)]] by simp
  have events: "last_events w ?p = map Some (last_n (slots (cfg ?p)) (sy_log (mn_ses w ?p)))"
    using mgr_ok_parts(5)[OF w, of ?p] by (auto simp: last_events_def ses_of_def ses_ok_def transcript_ok_def intro: ring_snapshot)
  let ?su = "if ?b then last_summary w ?p else su" and ?evs = "if ?b then last_events w ?p else evs"
  have "mn_ran w' m = map (\<lambda>h. (h, ?su, ?evs)) (mn_hooked w m)"
    using n(5) ran by (auto simp: read_now_def)
  moreover have "su_ID ?su = id_id (ident ?p)" "su_EndedAt ?su"
    using su manager_ident[OF assms(1)] by (auto simp: last_summary_def summary_of_def)
  moreover have "?b \<longrightarrow> su_State ?su = se_state (ses_of w ?p) \<and> su_Err ?su = se_err (ses_of w ?p) \<and>
      ?evs = map Some (last_n (slots (cfg ?p)) (sy_log (mn_ses w ?p)))"
    using events by (simp add: last_summary_def summary_of_def)
  ultimately show "\<exists>ts n w' su evs. set ts \<subseteq> set (mn_readers w) \<and> n \<le> 8 + length (mn_hooked w m) \<and>
       run_steps mgr_act (map CallStep ts @ replicate n (WatchStep m)) w = Some w' \<and> mn_watch w' m = WDone \<and>
       mn_ran w' m = map (\<lambda>h. (h, su, evs)) (mn_hooked w m) \<and> su_ID su = id_id (ident ?p) \<and> su_EndedAt su \<and>
       (?b \<longrightarrow> su_State su = se_state (ses_of w ?p) \<and> su_Err su = se_err (ses_of w ?p) \<and>
          evs = map Some (last_n (slots (cfg ?p)) (sy_log (mn_ses w ?p))))"
    using ts(1) bound run n(3) by blast
qed

lemma hooks_run_once_witness:
  "\<exists>ts n w' su. run_steps mgr_act (map CallStep ts @ replicate n (WatchStep 0)) hook_end = Some w' \<and>
     mn_ran w' 0 = [(5, su, [Some \<lparr>ev_seq = 1, ev_data = 7, ev_bytes = 3\<rparr>]), (6, su, [Some \<lparr>ev_seq = 1, ev_data = 7, ev_bytes = 3\<rparr>])] \<and>
     su_ID su = ''ws-1'' \<and> su_State su = StateClosed"
proof -
  have h: "\<not> mn_panic hook_end" "0 < mn_made hook_end" "mn_for hook_end 0 = 0" "mn_watch hook_end 0 = WWait 0"
    "mn_hooked hook_end 0 = [5, 6]" "se_done (ses_of hook_end 0)" "se_state (ses_of hook_end 0) = StateClosed"
    "sy_log (mn_ses hook_end 0) = [\<lparr>ev_seq = 1, ev_data = 7, ev_bytes = 3\<rparr>]" "slots tiny = 1"
    by (simp_all add: hook_end_def mgr_defs run_defs slots_def)
  from hooks_run_once[OF hook_end h(1,2)] h obtain ts n w' su evs where
    "run_steps mgr_act (map CallStep ts @ replicate n (WatchStep 0)) hook_end = Some w'"
    "mn_ran w' 0 = map (\<lambda>h. (h, su, evs)) [5, 6]" "su_ID su = id_id (ws1 0)" "su_State su = StateClosed"
    "evs = map Some (last_n 1 [\<lparr>ev_seq = 1, ev_data = 7, ev_bytes = 3\<rparr>])" by auto
  then have "run_steps mgr_act (map CallStep ts @ replicate n (WatchStep 0)) hook_end = Some w' \<and>
     mn_ran w' 0 = [(5, su, [Some \<lparr>ev_seq = 1, ev_data = 7, ev_bytes = 3\<rparr>]), (6, su, [Some \<lparr>ev_seq = 1, ev_data = 7, ev_bytes = 3\<rparr>])] \<and>
     su_ID su = ''ws-1'' \<and> su_State su = StateClosed" by (simp add: ws1_def last_n_def)
  then show ?thesis by blast
qed


text \<open>
  No session ever panics, and the manager only in a call of \<open>Cancel\<close>, \<open>Snapshot\<close> or \<open>Get\<close> that looked an entry up
  before it was taken out of the table and uses it after: never in \<open>List\<close>, \<open>Register\<close>, \<open>AddCompletionHook\<close> or \<open>watch\<close>.
\<close>

theorem only_stale_entries_panic:
  assumes "run_steps mgr_act as (NewManager cfg ident) = Some w" and "mgr_act a w = Some w'"
  shows "(\<forall>p. \<not> sy_panic (mn_ses w' p)) \<and> (mn_panic w' \<longrightarrow> (\<exists>t m. a = CallStep t \<and> fetched (mn_call w t) = Some m \<and>
    ms_session (mn_heap w m) = None \<and> m \<notin> snd ` set (mn_sessions w)))"
proof (intro conjI allI impI)
  note w = mgr_run_ok[OF assms(1)]
  show "\<not> sy_panic (mn_ses w' p)" for p
    using mgr_ok_parts(5)[OF mgr_runs.keeps[OF w assms(2)], of p] by (simp add: ses_ok_def locks_ok_def)
  assume p: "mn_panic w'"
  have c: "call_start b w = Some w' \<Longrightarrow> mn_panic w" for b
    using p by (induction b w rule: call_start.induct)
      (auto simp: step_defs add_hook_def split: option.split_asm if_split_asm)
  have "\<not> mn_panic w" using assms(2) by (auto simp: mgr_act_def)
  with c p assms(2) obtain t where t: "a = CallStep t" "call_act t w = Some w'"
    by (cases a) (auto simp: mgr_act_def session_act_def watch_act_def watching_def retire_def
        simp del: call_start.simps split: option.split_asm watch.split_asm list.split_asm if_split_asm)
  have "\<exists>m. fetched (mn_call w t) = Some m \<and> ms_session (mn_heap w m) = None"
  proof (cases "\<exists>m ms x acc. mn_call w t = ListAt (m # ms) x acc")
    case True
    then obtain m ms x acc where l: "mn_call w t = ListAt (m # ms) x acc" by blast
    show ?thesis by (rule list_acts[OF w l]) (use t p \<open>\<not> mn_panic w\<close> in \<open>auto simp: call_at_def\<close>)
  next
    case False
    have "ms_session (mn_heap w m) = None" if "sum_act w m x = SumNil" for m x
      using that sum_no_nil[of w m _ x] by (cases "ms_session (mn_heap w m)") auto
    then show ?thesis using False t p \<open>\<not> mn_panic w\<close>
      by (auto simp: call_act_def step_defs insert_entry_def Let_def
          split: call.split_asm option.split_asm list.split_asm summed.split_asm if_split_asm)
  qed
  then show "\<exists>t m. a = CallStep t \<and> fetched (mn_call w t) = Some m \<and> ms_session (mn_heap w m) = None \<and>
      m \<notin> snd ` set (mn_sessions w)"
    using t listed_session[OF w] by fastforce
qed

text \<open>Such a call: the session is cancelled while it ends, and the pointer is used after it was cleared.\<close>

lemma cancel_while_ending_panics:
  "case run_steps mgr_act (hook_run @ CancelID 2 ''ws-1'' # replicate 5 (WatchStep 0) @ [CallStep 2])
      (NewManager (\<lambda>_. tiny) ws1) of None \<Rightarrow> False | Some w \<Rightarrow> mn_panic w"
  by (simp add: mgr_defs run_defs numeral_nat)

end
