(* ===== verification/GoRunes.thy ===== *)
theory GoRunes
  imports GoStrings
begin

text \<open>
  Strings taken rune by rune: the text of a list of code points, which decodes to them again, searching with
  \<open>strings.IndexFunc\<close> and trimming with \<open>unicode.IsSpace\<close>.
\<close>

section \<open>The text of a list of code points\<close>

definition scalar :: "int \<Rightarrow> bool" where
  "scalar r \<longleftrightarrow> 0 \<le> r \<and> r \<le> 1114111 \<and> \<not> (55296 \<le> r \<and> r \<le> 57343)"

definition text_of :: "int list \<Rightarrow> string" where
  "text_of rs = concat (map encode_rune rs)"

lemma text_of_simps [simp]: "text_of [] = []" "text_of (r # rs) = encode_rune r @ text_of rs"
  "text_of (rs @ qs) = text_of rs @ text_of qs"
  by (simp_all add: text_of_def)

lemma encode_rune_ne [simp]: "encode_rune r \<noteq> []"
  by (simp add: encode_rune_def Let_def)

lemma text_of_Nil [simp]: "text_of rs = [] \<longleftrightarrow> rs = []"
  by (cases rs) simp_all

lemma encode_ascii: "0 \<le> r \<Longrightarrow> r < 128 \<Longrightarrow> encode_rune r = [chr_of r]"
  by (simp add: encode_rune_def)

lemma decode_two:
  "194 \<le> a \<Longrightarrow> a < 224 \<Longrightarrow> 128 \<le> b \<Longrightarrow> b < 192 \<Longrightarrow>
    decode_rune (chr_of a # chr_of b # t) = ((a - 192) * 64 + (b - 128), 2)"
  by (simp add: byte_val_chr Let_def cont_byte_def)

lemma decode_three:
  assumes "224 \<le> a" "a < 240" "128 \<le> b" "b < 192" "128 \<le> c" "c < 192" "a = 224 \<Longrightarrow> 160 \<le> b" "a = 237 \<Longrightarrow> b \<le> 159"
  shows "decode_rune (chr_of a # chr_of b # chr_of c # t) = ((a - 224) * 4096 + (b - 128) * 64 + (c - 128), 3)"
proof -
  have v: "byte_val (chr_of a) = a" "byte_val (chr_of b) = b" "byte_val (chr_of c) = c" using assms by (simp_all add: byte_val_chr)
  have "\<not> a < 128" "\<not> a < 194" "\<not> a < 224" "a < 240" "cont_byte c" using assms by (simp_all add: cont_byte_def)
  moreover have "if a = 224 then 160 \<le> b \<and> b \<le> 191 else if a = 237 then 128 \<le> b \<and> b \<le> 159 else cont_byte b"
    using assms by (simp add: cont_byte_def)
  ultimately show ?thesis by (simp add: v Let_def)
qed

lemma decode_four:
  assumes "240 \<le> a" "a < 245" "128 \<le> b" "b < 192" "128 \<le> c" "c < 192" "128 \<le> d" "d < 192"
    "a = 240 \<Longrightarrow> 144 \<le> b" "a = 244 \<Longrightarrow> b \<le> 143"
  shows "decode_rune (chr_of a # chr_of b # chr_of c # chr_of d # t) =
    ((a - 240) * 262144 + (b - 128) * 4096 + (c - 128) * 64 + (d - 128), 4)"
proof -
  have v: "byte_val (chr_of a) = a" "byte_val (chr_of b) = b" "byte_val (chr_of c) = c" "byte_val (chr_of d) = d"
    using assms by (simp_all add: byte_val_chr)
  have "\<not> a < 128" "\<not> a < 194" "\<not> a < 224" "\<not> a < 240" "a < 245" "cont_byte c" "cont_byte d"
    using assms by (simp_all add: cont_byte_def)
  moreover have "if a = 240 then 144 \<le> b \<and> b \<le> 191 else if a = 244 then 128 \<le> b \<and> b \<le> 143 else cont_byte b"
    using assms by (simp add: cont_byte_def)
  ultimately show ?thesis by (simp add: v Let_def)
qed

lemma encode_chars: "encode_rune 61 = ''=''" "encode_rune 32 = '' ''" "encode_rune 34 = [CHR 0x22]"
  by code_simp+

lemma last_encode: "scalar r \<Longrightarrow> 128 \<le> r \<Longrightarrow> 128 \<le> byte_val (last (encode_rune r))"
proof -
  assume r: "scalar r" "128 \<le> r"
  have "last (encode_rune r) = chr_of (128 + r mod 64)" using r by (auto simp: encode_rune_def scalar_def Let_def)
  moreover have "0 \<le> 128 + r mod 64" "128 + r mod 64 < 256" by (smt (verit) pos_mod_bound pos_mod_sign)+
  ultimately show ?thesis by (simp add: byte_val_chr)
qed

lemma join_three: "x = a * 64 + b \<Longrightarrow> x * 64 + c = r \<Longrightarrow> (224 + a - 224) * 4096 + (128 + b - 128) * 64 + (128 + c - 128) = (r :: int)"
  by auto

lemma join_four:
  "y = a * 64 + b \<Longrightarrow> x = y * 64 + c \<Longrightarrow> x * 64 + d = r \<Longrightarrow>
    (240 + a - 240) * 262144 + (128 + b - 128) * 4096 + (128 + c - 128) * 64 + (128 + d - 128) = (r :: int)"
  by auto

lemma decode_encode:
  assumes "scalar r"
  shows "decode_rune (encode_rune r @ t) = (r, length (encode_rune r))"
proof -
  have m: "0 \<le> x mod 64" "x mod 64 < 64" for x :: int by simp_all
  have split: "x div 64 = x div 4096 * 64 + x div 64 mod 64" for x :: int
    using div_mult_mod_eq[of "x div 64" 64] zdiv_zmult2_eq[of 64 x 64] by simp
  have split2: "x div 4096 = x div 262144 * 64 + x div 4096 mod 64" for x :: int
    using div_mult_mod_eq[of "x div 4096" 64] zdiv_zmult2_eq[of 64 x 4096] by simp
  consider "r < 128" | "128 \<le> r" "r < 2048" | "2048 \<le> r" "r < 65536" | "65536 \<le> r" by linarith
  then show ?thesis
  proof cases
    case 1
    with assms show ?thesis by (simp add: encode_rune_def scalar_def byte_val_chr Let_def)
  next
    case 2
    have e: "encode_rune r = [chr_of (192 + r div 64), chr_of (128 + r mod 64)]" using 2 assms by (simp add: encode_rune_def scalar_def)
    have "194 \<le> 192 + r div 64" "192 + r div 64 < 224" using 2 by linarith+
    moreover have "r div 64 * 64 + r mod 64 = r" by (rule div_mult_mod_eq)
    ultimately show ?thesis using m[of r] decode_two[of "192 + r div 64" "128 + r mod 64" t] by (simp add: e del: decode_rune.simps)
  next
    case 3
    let ?a = "224 + r div 4096" and ?b = "128 + (r div 64) mod 64" and ?c = "128 + r mod 64"
    have e: "encode_rune r = [chr_of ?a, chr_of ?b, chr_of ?c]"
      using 3 assms unfolding encode_rune_def scalar_def Let_def by (simp only: if_False if_True not_less[symmetric] de_Morgan_disj) auto
    have d: "decode_rune (chr_of ?a # chr_of ?b # chr_of ?c # t) = ((?a - 224) * 4096 + (?b - 128) * 64 + (?c - 128), 3)"
    proof (rule decode_three)
      show "224 \<le> ?a" "?a < 240" using 3 by linarith+
      show "160 \<le> ?b" if "?a = 224"
      proof -
        have "r div 64 mod 64 = r div 64" using split[of r] that by simp
        then show ?thesis using 3 by linarith
      qed
      show "?b \<le> 159" if "?a = 237"
      proof -
        have "r div 64 mod 64 = r div 64 - 832" using split[of r] that by simp
        moreover have "r < 55296" using split[of r] that assms m[of r] m[of "r div 64"] div_mult_mod_eq[of r 64]
          unfolding scalar_def by linarith
        ultimately show ?thesis by linarith
      qed
    qed (use m[of r] m[of "r div 64"] in linarith)+
    have q: "(?a - 224) * 4096 + (?b - 128) * 64 + (?c - 128) = r"
      by (rule join_three[OF split div_mult_mod_eq])
    show ?thesis unfolding e append_Cons append_Nil d q by simp
  next
    case 4
    let ?a = "240 + r div 262144" and ?b = "128 + (r div 4096) mod 64" and ?c = "128 + (r div 64) mod 64" and ?d = "128 + r mod 64"
    have e: "encode_rune r = [chr_of ?a, chr_of ?b, chr_of ?c, chr_of ?d]"
      using 4 assms by (simp add: encode_rune_def scalar_def Let_def)
    have d: "decode_rune (chr_of ?a # chr_of ?b # chr_of ?c # chr_of ?d # t) =
        ((?a - 240) * 262144 + (?b - 128) * 4096 + (?c - 128) * 64 + (?d - 128), 4)"
    proof (rule decode_four)
      show "240 \<le> ?a" "?a < 245" using 4 assms unfolding scalar_def by linarith+
      show "144 \<le> ?b" if "?a = 240"
      proof -
        have "r div 4096 mod 64 = r div 4096" using split2[of r] that by simp
        then show ?thesis using 4 by linarith
      qed
      show "?b \<le> 143" if "?a = 244"
      proof -
        have "r div 4096 mod 64 = r div 4096 - 256" using split2[of r] that by simp
        then show ?thesis using assms unfolding scalar_def by linarith
      qed
    qed (use m[of r] m[of "r div 64"] m[of "r div 4096"] in linarith)+
    have q: "(?a - 240) * 262144 + (?b - 128) * 4096 + (?c - 128) * 64 + (?d - 128) = r"
      by (rule join_four[OF split2 split div_mult_mod_eq])
    show ?thesis unfolding e append_Cons append_Nil d q by simp
  qed
qed

fun offsets :: "nat \<Rightarrow> int list \<Rightarrow> (nat \<times> int) list" where
  "offsets i [] = []"
| "offsets i (r # rs) = (i, r) # offsets (i + length (encode_rune r)) rs"

lemma runes_from_Nil [simp]: "runes_from i [] = []"
  by (subst runes_from.simps) simp

lemma runes_from_encode: "scalar r \<Longrightarrow> runes_from i (encode_rune r @ t) = (i, r) # runes_from (i + length (encode_rune r)) t"
  by (subst runes_from.simps) (simp add: decode_encode)

lemma runes_from_text:
  "list_all scalar rs \<Longrightarrow> runes_from i (text_of rs @ t) = offsets i rs @ runes_from (i + length (text_of rs)) t"
  by (induction rs arbitrary: i) (simp_all add: runes_from_encode add.assoc)

lemma runes_text: "list_all scalar rs \<Longrightarrow> runes_from i (text_of rs) = offsets i rs"
  using runes_from_text[of rs i "[]"] by simp

lemma snd_offsets [simp]: "map snd (offsets i rs) = rs"
  by (induction rs arbitrary: i) simp_all

section \<open>White space and searching\<close>

definition is_space :: "int \<Rightarrow> bool" where
  "is_space r \<longleftrightarrow> r \<in> set white_runes"

text \<open>\<open>strings.IndexFunc\<close>, \<open>strings.TrimLeftFunc\<close> and \<open>strings.TrimRightFunc\<close>; the last two with a set of code points.\<close>

definition index_func :: "(int \<Rightarrow> bool) \<Rightarrow> string \<Rightarrow> nat option" where
  "index_func p s = map_option fst (find (p \<circ> snd) (runes_from 0 s))"

definition trim_left_in :: "int list \<Rightarrow> string \<Rightarrow> string" where
  "trim_left_in rs s = trim_front (map encode_rune rs) s"

definition trim_right_in :: "int list \<Rightarrow> string \<Rightarrow> string" where
  "trim_right_in rs s = rev (trim_front (map (rev \<circ> encode_rune) rs) (rev s))"

lemma trim_white_ends: "trim_white s = trim_right_in white_runes (trim_left_in white_runes s)"
  by (simp add: trim_white_def trim_right_in_def trim_left_in_def space_codes_def)

lemma scalar_white: "r \<in> set white_runes \<Longrightarrow> scalar r"
  by (auto simp: white_runes_def scalar_def)

lemma encode_inj: "scalar r \<Longrightarrow> scalar q \<Longrightarrow> encode_rune r @ s = encode_rune q @ t \<longleftrightarrow> r = q \<and> s = t"
  by (metis decode_encode fst_conv same_append_eq)

lemma has_prefix_encode: "scalar r \<Longrightarrow> scalar q \<Longrightarrow> has_prefix (encode_rune r @ s) (encode_rune q) \<longleftrightarrow> r = q"
  by (auto simp: has_prefix_append encode_inj)

lemma trim_front_step:
  assumes "list_all scalar qs" "scalar r"
  shows "trim_front (map encode_rune qs) (encode_rune r @ t) =
    (if r \<in> set qs then trim_front (map encode_rune qs) t else encode_rune r @ t)"
proof (cases "r \<in> set qs")
  case True
  have "find (has_prefix (encode_rune r @ t)) (map encode_rune qs) = Some (encode_rune r)"
    using True assms by (induction qs) (auto simp: has_prefix_encode)
  then show ?thesis using True by (subst trim_front.simps) simp
next
  case False
  have "\<not> has_prefix (encode_rune r @ t) c" if "c \<in> set (map encode_rune qs)" for c
    using that False assms by (auto simp: has_prefix_encode list_all_iff)
  then show ?thesis using False by (simp add: trim_front_id)
qed

lemma trim_front_empty [simp]: "trim_front codes [] = []"
  by (subst trim_front.simps) (simp split: option.split)

lemma trim_left_text:
  assumes "list_all scalar qs" "list_all scalar rs"
  shows "trim_left_in qs (text_of rs) = text_of (dropWhile (\<lambda>r. r \<in> set qs) rs)"
  using assms(2) by (induction rs) (simp_all add: trim_left_in_def trim_front_step[OF assms(1)])

lemma trim_left_keep: "list_all scalar qs \<Longrightarrow> scalar r \<Longrightarrow> r \<notin> set qs \<Longrightarrow> trim_left_in qs (encode_rune r @ t) = encode_rune r @ t"
  by (simp add: trim_left_in_def trim_front_step)

lemma scalars_white: "list_all scalar white_runes"
  by (simp add: list_all_iff scalar_white)

lemma index_text_None: "list_all scalar rs \<Longrightarrow> \<not> list_ex p rs \<Longrightarrow> index_func p (text_of rs) = None"
proof -
  assume a: "list_all scalar rs" "\<not> list_ex p rs"
  have "find (p \<circ> snd) (offsets i rs) = None" for i
    using a(2) by (induction rs arbitrary: i) (auto)
  with a(1) show ?thesis by (simp add: index_func_def runes_text)
qed

lemma index_text_Some:
  assumes "list_all scalar rs" "\<not> list_ex p rs" "scalar q" "p q"
  shows "index_func p (text_of rs @ encode_rune q @ t) = Some (length (text_of rs))"
proof -
  have "find (p \<circ> snd) (offsets i rs @ (j, q) # x) = Some (j, q)" for i j x
    using assms(2,4) by (induction rs arbitrary: i) auto
  with assms show ?thesis by (simp add: index_func_def runes_from_text runes_from_encode)
qed

end
