(* ===== verification/DirWord.thy ===== *)
theory DirWord
  imports GoRunes
begin

text \<open>
  Words of directive lines (\<open>internal/directive/word.go\<close>) and the character classes they share with the option
  grammar (\<open>value.go\<close>, \<open>optionEq\<close> of \<open>option.go\<close>): a word that is written is read back, whatever it holds.
\<close>

section \<open>Character classes\<close>

definition isAlpha :: "int \<Rightarrow> bool" where
  "isAlpha r \<longleftrightarrow> 65 \<le> r \<and> r \<le> 90 \<or> 97 \<le> r \<and> r \<le> 122"

definition dir_isDigit :: "int \<Rightarrow> bool" where
  "dir_isDigit r \<longleftrightarrow> 48 \<le> r \<and> r \<le> 57"

definition dir_isIdentStart :: "int \<Rightarrow> bool" where
  "dir_isIdentStart r \<longleftrightarrow> r = 95 \<or> isAlpha r"

definition IsIdentRune :: "int \<Rightarrow> bool" where
  "IsIdentRune r \<longleftrightarrow> dir_isIdentStart r \<or> dir_isDigit r"

definition IsKeyRune :: "int \<Rightarrow> bool" where
  "IsKeyRune r \<longleftrightarrow> IsIdentRune r \<or> r = 45 \<or> r = 46"

definition IsIdent :: "string \<Rightarrow> bool" where
  "IsIdent v \<longleftrightarrow> v \<noteq> [] \<and>
     list_all (\<lambda>(i, r). if i = 0 then dir_isIdentStart r else IsIdentRune r) (runes_from 0 v)"

lemmas rune_classes = isAlpha_def dir_isDigit_def dir_isIdentStart_def IsIdentRune_def IsKeyRune_def

lemma key_rune_ascii: "IsKeyRune r \<Longrightarrow> 0 < r \<and> r < 128 \<and> r \<notin> set white_runes \<and> r \<noteq> 34 \<and> r \<noteq> 39 \<and> r \<noteq> 92 \<and> r \<noteq> 61"
  by (auto simp: rune_classes white_runes_def)

section \<open>Options are recognised in the source\<close>

fun eq_scan :: "string \<Rightarrow> (nat \<times> int) list \<Rightarrow> nat option" where
  "eq_scan raw [] = None"
| "eq_scan raw ((i, r) # rs) =
     (if r = 61 then (if 0 < i \<and> \<not> has_prefix (drop (i + 1) raw) ''='' then Some i else None)
      else if \<not> IsKeyRune r then None else eq_scan raw rs)"

text \<open>\<open>None\<close> stands for -1.\<close>

definition optionEq :: "string \<Rightarrow> nat option" where
  "optionEq raw = eq_scan raw (runes_from 0 raw)"

definition isOption :: "string \<Rightarrow> bool" where
  "isOption raw \<longleftrightarrow> optionEq raw \<noteq> None"

section \<open>Words\<close>

definition needsQuote :: "int \<Rightarrow> bool" where
  "needsQuote r \<longleftrightarrow> is_space r \<or> r \<in> {34, 39, 92, 61}"

definition esc_rune :: "int \<Rightarrow> int list" where
  "esc_rune r = (if r = 34 \<or> r = 92 then [92, r] else [r])"

definition Quote :: "string \<Rightarrow> string" where
  "Quote v = (if v = [] \<or> index_func needsQuote v = None then v
     else text_of (34 # concat (map (esc_rune \<circ> snd) (runes_from 0 v)) @ [34]))"

fun cut_loop :: "int \<Rightarrow> string \<Rightarrow> bool \<Rightarrow> string \<Rightarrow> (nat \<times> int) list \<Rightarrow> (string \<times> string) option" where
  "cut_loop quote input esc b [] = None"
| "cut_loop quote input esc b ((i, r) # rs) =
     (if esc then cut_loop quote input False (b @ (if r \<noteq> quote \<and> r \<noteq> 92 then encode_rune 92 else []) @ encode_rune r) rs
      else if r = 92 then cut_loop quote input True b rs
      else if r = quote then Some (b, drop (1 + i + length (encode_rune r)) input)
      else cut_loop quote input False (b @ encode_rune r) rs)"

definition cutQuoted :: "string \<Rightarrow> int \<Rightarrow> (string \<times> string) option" where
  "cutQuoted input quote = cut_loop quote input False [] (runes_from 0 (tl input))"

definition cut_bare :: "string \<Rightarrow> string \<times> string" where
  "cut_bare rest = (case index_func is_space rest of Some i \<Rightarrow> (take i rest, drop i rest) | None \<Rightarrow> (rest, []))"

definition CutName :: "string \<Rightarrow> string \<times> string" where
  "CutName input =
     (let rest = trim_left_in white_runes input in
      if rest = [] \<or> isOption rest then ([], input)
      else if byte_val (hd rest) \<in> {34, 39} then
        (case cutQuoted rest (byte_val (hd rest)) of Some p \<Rightarrow> p | None \<Rightarrow> cut_bare rest)
      else cut_bare rest)"

section \<open>Reading a word back\<close>

lemma hd_encode: "scalar r \<Longrightarrow> 0 \<le> a \<Longrightarrow> a < 128 \<Longrightarrow> byte_val (hd (encode_rune r @ t)) = a \<longleftrightarrow> r = a"
proof -
  assume r: "scalar r" and a: "0 \<le> a" "a < 128"
  obtain c cs where e: "encode_rune r @ t = c # cs" by (cases "encode_rune r") auto
  have "byte_val c = a \<Longrightarrow> r = a" using decode_encode[OF r, of t] a by (simp add: e)
  moreover have "r = a \<Longrightarrow> byte_val c = a" using e a by (auto simp: encode_ascii byte_val_chr)
  ultimately show ?thesis by (auto simp: e)
qed

lemma eq_scan_text: "61 \<notin> set rs \<Longrightarrow> X = [] \<or> \<not> IsKeyRune (snd (hd X)) \<and> snd (hd X) \<noteq> 61 \<Longrightarrow> eq_scan raw (offsets i rs @ X) = None"
  by (induction rs arbitrary: i) (cases X; auto)+

lemma space_no_key: "is_space w \<Longrightarrow> \<not> IsKeyRune w \<and> w \<noteq> 61"
  using key_rune_ascii[of w] by (auto simp: is_space_def white_runes_def)

text \<open>What may follow a word: nothing, or white space.\<close>

definition ends_word :: "string \<Rightarrow> bool" where
  "ends_word t \<longleftrightarrow> t = [] \<or> (\<exists>w u. t = encode_rune w @ u \<and> is_space w)"

lemma ends_word_runes: "ends_word t \<Longrightarrow> runes_from i t = [] \<or> is_space (snd (hd (runes_from i t)))"
  by (auto simp: ends_word_def is_space_def scalar_white runes_from_encode)

lemma not_option:
  assumes "list_all scalar rs" "61 \<notin> set rs" "ends_word t"
  shows "\<not> isOption (text_of rs @ t)"
proof -
  let ?X = "runes_from (length (text_of rs)) t"
  have "?X = [] \<or> \<not> IsKeyRune (snd (hd ?X)) \<and> snd (hd ?X) \<noteq> 61"
    using ends_word_runes[OF assms(3), of "length (text_of rs)"] space_no_key by blast
  then have "eq_scan (text_of rs @ t) (offsets 0 rs @ ?X) = None" by (rule eq_scan_text[OF assms(2)])
  then show ?thesis unfolding isOption_def optionEq_def runes_from_text[OF assms(1)] by simp
qed

lemma quoted_not_option: "\<not> isOption (encode_rune 34 @ t)"
proof -
  have "scalar 34" by (simp add: scalar_def)
  from runes_from_encode[OF this, of 0 t] show ?thesis
    by (simp add: isOption_def optionEq_def) (simp add: rune_classes)
qed

lemma cut_bare_text:
  assumes "list_all scalar rs" "\<not> list_ex is_space rs" "ends_word t"
  shows "cut_bare (text_of rs @ t) = (text_of rs, t)"
proof (cases "t = []")
  case True
  then show ?thesis using index_text_None[OF assms(1,2)] by (simp add: cut_bare_def)
next
  case False
  then obtain w u where t: "t = encode_rune w @ u" "is_space w" using assms(3) by (auto simp: ends_word_def)
  have "scalar w" using t(2) by (simp add: is_space_def scalar_white)
  from index_text_Some[OF assms(1,2) this t(2), of u] show ?thesis by (simp add: cut_bare_def t(1))
qed

lemma cut_loop_text:
  assumes "list_all scalar rs"
  shows "cut_loop 34 input False b (offsets i (concat (map esc_rune rs)) @ X) = cut_loop 34 input False (b @ text_of rs) X"
  using assms
proof (induction rs arbitrary: b i)
  case (Cons r rs)
  then show ?case by (cases "r = 34 \<or> r = 92") (auto simp: esc_rune_def)
qed simp

lemma scalar_esc: "list_all scalar rs \<Longrightarrow> list_all scalar (concat (map esc_rune rs))"
  by (induction rs) (auto simp: esc_rune_def scalar_def)

lemma cutQuoted_text:
  assumes "list_all scalar rs"
  shows "cutQuoted (text_of (34 # concat (map esc_rune rs) @ [34]) @ t) 34 = Some (text_of rs, t)"
proof -
  let ?e = "concat (map esc_rune rs)"
  have q: "encode_rune 34 = [chr_of 34]" "scalar 34" by (simp_all add: encode_ascii scalar_def)
  have "runes_from 0 (text_of ?e @ encode_rune 34 @ t) =
      offsets 0 ?e @ (length (text_of ?e), 34) # runes_from (length (text_of ?e) + length (encode_rune 34)) t"
    using runes_from_text[OF scalar_esc[OF assms], of 0 "encode_rune 34 @ t"]
    by (simp add: runes_from_encode[OF q(2)])
  then show ?thesis using q(1) by (simp add: cutQuoted_def cut_loop_text[OF assms])
qed

lemma Quote_text:
  assumes "list_all scalar rs"
  shows "Quote (text_of rs) =
    (if \<not> list_ex needsQuote rs then text_of rs else text_of (34 # concat (map esc_rune rs) @ [34]))"
proof -
  have "list_ex needsQuote rs \<Longrightarrow> index_func needsQuote (text_of rs) \<noteq> None"
  proof -
    assume "list_ex needsQuote rs"
    then obtain qs r ps where rs: "rs = qs @ r # ps" "needsQuote r" "\<not> list_ex needsQuote qs"
      using split_list_first_prop[of rs needsQuote] unfolding list_ex_iff by blast
    with assms index_text_Some[of qs needsQuote r "text_of ps"] show ?thesis by simp
  qed
  moreover have "map (esc_rune \<circ> snd) (runes_from 0 (text_of rs)) = map esc_rune rs"
    unfolding runes_text[OF assms] by (simp add: map_map[symmetric] del: map_map)
  ultimately show ?thesis using index_text_None[OF assms, of needsQuote] by (auto simp: Quote_def)
qed

text \<open>
  C38: a word that is written with \<open>Quote\<close> is read back by \<open>CutName\<close>, with whatever follows it, for every non-empty
  text in UTF-8: spaces, quotes, backslashes and equals signs included.
\<close>

theorem word_reads_back:
  assumes "list_all scalar rs" "rs \<noteq> []" "ends_word t"
  shows "CutName (Quote (text_of rs) @ t) = (text_of rs, t)"
proof (cases "list_ex needsQuote rs")
  case True
  define Q where "Q = text_of (34 # concat (map esc_rune rs) @ [34]) @ t"
  have q: "scalar 34" "34 \<notin> set white_runes" by (simp_all add: scalar_def white_runes_def)
  then have "trim_left_in white_runes Q = Q" by (simp add: Q_def trim_left_keep[OF scalars_white])
  moreover have "byte_val (hd Q) = 34" "Q \<noteq> []" using hd_encode[of 34 34] q(1) by (simp_all add: Q_def)
  moreover have "\<not> isOption Q" using quoted_not_option by (simp add: Q_def)
  moreover have "cutQuoted Q 34 = Some (text_of rs, t)" unfolding Q_def by (rule cutQuoted_text[OF assms(1)])
  ultimately have "CutName Q = (text_of rs, t)" by (simp add: CutName_def)
  moreover have "Quote (text_of rs) @ t = Q" using True by (simp add: Quote_text[OF assms(1)] Q_def)
  ultimately show ?thesis by simp
next
  case False
  obtain r qs where rs: "rs = r # qs" using assms(2) by (cases rs) auto
  have none: "\<not> list_ex is_space rs" "61 \<notin> set rs" "r \<noteq> 34" "r \<noteq> 39" "r \<notin> set white_runes"
    using False by (auto simp: list_ex_iff needsQuote_def is_space_def rs)
  have r: "scalar r" using assms(1) rs by simp
  have trim: "trim_left_in white_runes (text_of rs @ t) = text_of rs @ t"
    using trim_left_keep[OF scalars_white r none(5)] by (simp add: rs)
  have "byte_val (hd (text_of rs @ t)) \<notin> {34, 39}" using hd_encode[OF r] none(3,4) by (simp add: rs)
  with False not_option[OF assms(1) none(2) assms(3)] cut_bare_text[OF assms(1) none(1) assms(3)] show ?thesis
    by (simp add: Quote_text[OF assms(1)] CutName_def trim assms(2))
qed

lemma word_reads_back_witness:
  "CutName (Quote (text_of [97, 32, 34, 61]) @ '' x'') = (text_of [97, 32, 34, 61], '' x'')"
proof -
  have "ends_word '' x''"
    unfolding ends_word_def by (intro disjI2 exI[of _ 32] exI[of _ "''x''"]) (simp add: encode_chars is_space_def white_runes_def)
  then show ?thesis using word_reads_back[of "[97, 32, 34, 61]" "'' x''"] by (simp add: scalar_def)
qed

end
