(* ===== verification/DirLexer.thy ===== *)
theory DirLexer
  imports DirWord
begin

text \<open>
  The scanner of directive arguments (\<open>internal/directive/lexer.go\<close>): fields separated by white space, which quotes,
  brackets after an equals sign and the arguments of a call hold together. The position of the scanner is the list of
  the offsets and code points still to read.
\<close>

section \<open>The scanner\<close>

datatype nameState = inKey | inName | inText

record token =
  tok_val :: string
  tok_start :: nat
  tok_end :: nat

record dlex =
  dl_tok :: string
  dl_last :: int
  dl_quote :: int
  dl_escaped :: bool
  dl_begun :: bool
  dl_start :: nat
  dl_closers :: "int list"
  dl_inString :: bool
  dl_strEsc :: bool
  dl_state :: nameState

definition dl_reset :: dlex where
  "dl_reset = \<lparr>dl_tok = [], dl_last = 0, dl_quote = 0, dl_escaped = False, dl_begun = False, dl_start = 0,
     dl_closers = [], dl_inString = False, dl_strEsc = False, dl_state = inKey\<rparr>"

definition dl_write :: "int \<Rightarrow> dlex \<Rightarrow> dlex" where
  "dl_write r l = l\<lparr>dl_tok := dl_tok l @ encode_rune r, dl_last := r\<rparr>"

definition isOpener :: "int \<Rightarrow> bool" where
  "isOpener r \<longleftrightarrow> r = 91 \<or> r = 123 \<or> r = 40"

definition dl_push :: "int \<Rightarrow> dlex \<Rightarrow> dlex" where
  "dl_push r l =
     (if r = 91 then l\<lparr>dl_closers := dl_closers l @ [93]\<rparr>
      else if r = 123 then l\<lparr>dl_closers := dl_closers l @ [125]\<rparr>
      else if r = 40 then l\<lparr>dl_closers := dl_closers l @ [41]\<rparr>
      else l)"

definition dl_pop :: "int \<Rightarrow> dlex \<Rightarrow> dlex" where
  "dl_pop r l = (if dl_closers l \<noteq> [] \<and> last (dl_closers l) = r then l\<lparr>dl_closers := butlast (dl_closers l)\<rparr> else l)"

definition dl_opens :: "int \<Rightarrow> dlex \<Rightarrow> bool" where
  "dl_opens r l \<longleftrightarrow> (r = 91 \<or> r = 123) \<and> dl_last l = 61 \<or> r = 40 \<and> dl_state l = inName \<and> dl_last l \<noteq> 61"

definition dl_name :: "int \<Rightarrow> dlex \<Rightarrow> dlex" where
  "dl_name r l =
     (if dl_state l = inKey then (if r = 61 \<and> dl_tok l \<noteq> [] then l\<lparr>dl_state := inName\<rparr> else l)
      else if dl_state l = inName \<and> \<not> IsKeyRune r then l\<lparr>dl_state := inText\<rparr> else l)"

definition startsValue :: "dlex \<Rightarrow> bool" where
  "startsValue l \<longleftrightarrow> dl_tok l = [] \<or> dl_last l = 61"

definition dl_group :: "int \<Rightarrow> dlex \<Rightarrow> dlex" where
  "dl_group r l0 =
     (let l = dl_write r l0 in
      if dl_inString l then
        (if dl_strEsc l then l\<lparr>dl_strEsc := False\<rparr>
         else if r = 92 then l\<lparr>dl_strEsc := True\<rparr>
         else if r = 34 then l\<lparr>dl_inString := False\<rparr> else l)
      else if r = 34 then l\<lparr>dl_inString := True\<rparr>
      else if isOpener r then dl_push r l
      else dl_pop r l)"

definition dl_begin :: "nat \<Rightarrow> int \<Rightarrow> dlex \<Rightarrow> dlex" where
  "dl_begin i r l = (if \<not> dl_begun l \<and> \<not> is_space r then l\<lparr>dl_begun := True, dl_start := i\<rparr> else l)"

text \<open>What one rune does to the token that is being read; \<open>None\<close> when the token ends before it.\<close>

definition dl_rune :: "bool \<Rightarrow> int \<Rightarrow> dlex \<Rightarrow> dlex option" where
  "dl_rune escapes r l =
     (if dl_closers l \<noteq> [] then Some (dl_group r l)
      else if dl_escaped l then
        Some (dl_write r (let l1 = l\<lparr>dl_escaped := False\<rparr> in
          if dl_quote l \<noteq> 0 \<and> r \<noteq> dl_quote l \<and> r \<noteq> 92 then dl_write 92 l1 else l1))
      else if escapes \<and> r = 92 then Some (l\<lparr>dl_escaped := True\<rparr>)
      else if dl_quote l \<noteq> 0 then Some (if r = dl_quote l then l\<lparr>dl_quote := 0\<rparr> else dl_write r l)
      else if dl_opens r l then Some (dl_push r (dl_write r l))
      else if (r = 34 \<or> r = 39) \<and> startsValue l then Some (l\<lparr>dl_quote := r\<rparr>)
      else if is_space r then (if dl_tok l \<noteq> [] then None else Some l)
      else Some (dl_write r (dl_name r l)))"

text \<open>\<open>next\<close>, with the state the scanner is left in; \<open>n\<close> is the length of the source.\<close>

fun dl_loop :: "bool \<Rightarrow> nat \<Rightarrow> (nat \<times> int) list \<Rightarrow> dlex \<Rightarrow> token option \<times> (nat \<times> int) list \<times> dlex" where
  "dl_loop escapes n [] l =
     (let l1 = (if dl_escaped l then dl_write 92 l else l) in
      (if dl_tok l1 = [] then None else Some \<lparr>tok_val = dl_tok l1, tok_start = dl_start l1, tok_end = n\<rparr>, [], l1))"
| "dl_loop escapes n ((i, r) # rs) l0 =
     (let l = dl_begin i r l0 in
      case dl_rune escapes r l of
        Some l1 \<Rightarrow> dl_loop escapes n rs l1
      | None \<Rightarrow> (Some \<lparr>tok_val = dl_tok l, tok_start = dl_start l, tok_end = i\<rparr>, rs, l))"

definition dl_next :: "bool \<Rightarrow> nat \<Rightarrow> (nat \<times> int) list \<Rightarrow> token option \<times> (nat \<times> int) list \<times> dlex" where
  "dl_next escapes n rs = dl_loop escapes n rs dl_reset"

lemma dl_loop_shorter: "dl_loop escapes n rs l = (t, rest, l1) \<Longrightarrow> length rest \<le> length rs \<and> (rs \<noteq> [] \<longrightarrow> length rest < length rs)"
proof (induction rs arbitrary: l)
  case (Cons x rs)
  then show ?case by (cases x) (fastforce simp: Let_def split: option.split_asm)
qed (simp add: Let_def)

lemma dl_next_shorter: "dl_next escapes n rs = (Some t, rest, l) \<Longrightarrow> length rest < length rs"
proof -
  assume a: "dl_next escapes n rs = (Some t, rest, l)"
  then have "rs \<noteq> []" by (auto simp: dl_next_def dl_reset_def Let_def)
  with a show ?thesis using dl_loop_shorter[of escapes n rs dl_reset "Some t" rest l] by (simp add: dl_next_def)
qed

function dl_tokens :: "bool \<Rightarrow> nat \<Rightarrow> (nat \<times> int) list \<Rightarrow> (token \<times> dlex) list" where
  "dl_tokens escapes n rs =
     (case dl_next escapes n rs of (None, _, _) \<Rightarrow> [] | (Some t, rest, l) \<Rightarrow> (t, l) # dl_tokens escapes n rest)"
  by pat_completeness auto
termination
  by (relation "measure (\<lambda>(e, n, rs). length rs)") (auto dest: dl_next_shorter[OF sym])

declare dl_tokens.simps [simp del]

definition scan_fields :: "bool \<Rightarrow> string \<Rightarrow> (token \<times> dlex) list" where
  "scan_fields escapes input = dl_tokens escapes (length input) (runes_from 0 input)"

definition Fields :: "string \<Rightarrow> string list" where
  "Fields input = map (tok_val \<circ> fst) (scan_fields False input)"

definition fieldsEscaped :: "string \<Rightarrow> string list" where
  "fieldsEscaped input = map (tok_val \<circ> fst) (scan_fields True input)"

text \<open>\<open>OptionsOpen\<close>: the delimiter missing in the last field, or zero.\<close>

definition OptionsOpen :: "string \<Rightarrow> int" where
  "OptionsOpen input =
     (case rev (scan_fields True input) of
        [] \<Rightarrow> 0
      | (t, l) # _ \<Rightarrow> (if dl_closers l \<noteq> [] then last (dl_closers l) else if dl_quote l \<noteq> 0 then dl_quote l else 0))"

record FieldSpan =
  fs_Start :: nat
  fs_End :: nat
  fs_Eq :: "nat option"

definition FieldSpans :: "string \<Rightarrow> FieldSpan list" where
  "FieldSpans input = map (\<lambda>(t, l). \<lparr>fs_Start = tok_start t, fs_End = tok_end t,
     fs_Eq = map_option (\<lambda>e. e + tok_start t) (optionEq (slice input (tok_start t) (tok_end t)))\<rparr>) (scan_fields True input)"

section \<open>Reading fields back\<close>

lemma bare_runeD: "\<not> needsQuote r \<Longrightarrow> \<not> is_space r \<and> r \<noteq> 34 \<and> r \<noteq> 39 \<and> r \<noteq> 92 \<and> r \<noteq> 61"
  by (auto simp: needsQuote_def)

text \<open>A scanner outside quotes and groups, and one inside double quotes.\<close>

definition plain :: "dlex \<Rightarrow> bool" where
  "plain l \<longleftrightarrow> dl_closers l = [] \<and> \<not> dl_escaped l \<and> dl_quote l = 0"

definition quoted :: "dlex \<Rightarrow> bool" where
  "quoted l \<longleftrightarrow> dl_closers l = [] \<and> \<not> dl_escaped l \<and> dl_quote l = 34"

lemma plain_reset [simp]: "plain dl_reset" "dl_tok dl_reset = []" "dl_state dl_reset = inKey" "dl_last dl_reset = 0"
  by (simp_all add: plain_def dl_reset_def)

lemma dl_begin_simps [simp]:
  "plain (dl_begin i r l) = plain l" "quoted (dl_begin i r l) = quoted l" "dl_tok (dl_begin i r l) = dl_tok l"
  "dl_state (dl_begin i r l) = dl_state l" "dl_last (dl_begin i r l) = dl_last l"
  by (simp_all add: dl_begin_def plain_def quoted_def)

lemma dl_write_simps [simp]:
  "plain (dl_write r l) = plain l" "quoted (dl_write r l) = quoted l" "dl_tok (dl_write r l) = dl_tok l @ encode_rune r"
  "dl_state (dl_write r l) = dl_state l" "dl_last (dl_write r l) = r"
  by (simp_all add: dl_write_def plain_def quoted_def)

lemma dl_name_simps [simp]:
  "plain (dl_name r l) = plain l" "dl_tok (dl_name r l) = dl_tok l" "dl_last (dl_name r l) = dl_last l"
  by (simp_all add: dl_name_def plain_def)

text \<open>Whether bare runes open no group, from a state of the scanner and the rune before them.\<close>

fun quiet :: "nameState \<Rightarrow> int \<Rightarrow> int list \<Rightarrow> bool" where
  "quiet st p [] = True"
| "quiet st p (r # rs) =
     (\<not> ((r = 91 \<or> r = 123) \<and> p = 61 \<or> r = 40 \<and> st = inName \<and> p \<noteq> 61) \<and>
      quiet (if st = inName \<and> \<not> IsKeyRune r then inText else st) r rs)"

lemma bare_run:
  assumes "plain l" "\<not> list_ex needsQuote rs" "quiet (dl_state l) (dl_last l) rs"
  shows "\<exists>l'. dl_loop True n (offsets i rs @ X) l = dl_loop True n X l' \<and> plain l' \<and> dl_tok l' = dl_tok l @ text_of rs \<and>
    (dl_state l = inKey \<longrightarrow> dl_state l' = inKey)"
  using assms
proof (induction rs arbitrary: l i)
  case Nil
  then show ?case by auto
next
  case (Cons r rs)
  let ?l = "dl_begin i r l"
  let ?l1 = "dl_write r (dl_name r ?l)"
  have r: "\<not> is_space r" "r \<noteq> 34" "r \<noteq> 39" "r \<noteq> 92" "r \<noteq> 61" using bare_runeD[of r] Cons.prems(2) by simp_all
  have "\<not> dl_opens r ?l" using Cons.prems(3) by (auto simp: dl_opens_def)
  moreover have "plain ?l" using Cons.prems(1) by simp
  ultimately have step: "dl_rune True r ?l = Some ?l1" using r by (simp add: dl_rune_def plain_def)
  have "dl_state ?l1 = (if dl_state l = inName \<and> \<not> IsKeyRune r then inText else dl_state l)"
    using r by (simp add: dl_name_def)
  with Cons.prems have "quiet (dl_state ?l1) (dl_last ?l1) rs" "\<not> list_ex needsQuote rs" "plain ?l1" by simp_all
  from Cons.IH[OF this(3,2,1), of "i + length (encode_rune r)"] r show ?case by (auto simp: step dl_name_def)
qed

lemma quoted_run:
  assumes "quoted l"
  shows "\<exists>l'. dl_loop True n (offsets i (concat (map esc_rune rs)) @ X) l = dl_loop True n X l' \<and> quoted l' \<and>
    dl_tok l' = dl_tok l @ text_of rs"
  using assms
proof (induction rs arbitrary: l i)
  case Nil
  then show ?case by auto
next
  case (Cons r rs)
  show ?case
  proof (cases "r = 34 \<or> r = 92")
    case True
    let ?j = "i + length (encode_rune 92)"
    let ?l = "dl_begin ?j r ((dl_begin i 92 l)\<lparr>dl_escaped := True\<rparr>)"
    let ?l1 = "dl_write r (?l\<lparr>dl_escaped := False\<rparr>)"
    have "dl_rune True 92 (dl_begin i 92 l) = Some ((dl_begin i 92 l)\<lparr>dl_escaped := True\<rparr>)"
      using Cons.prems by (simp add: dl_rune_def quoted_def dl_begin_def)
    moreover have "dl_rune True r ?l = Some ?l1"
      using Cons.prems True by (auto simp: dl_rune_def quoted_def dl_begin_def)
    moreover have "quoted ?l1" "dl_tok ?l1 = dl_tok l @ encode_rune r"
      using Cons.prems by (simp_all add: quoted_def dl_begin_def dl_write_def)
    ultimately show ?thesis using Cons.IH[of ?l1 "?j + length (encode_rune r)"] True by (simp add: esc_rune_def)
  next
    case False
    let ?l1 = "dl_write r (dl_begin i r l)"
    have "dl_rune True r (dl_begin i r l) = Some ?l1"
      using Cons.prems False by (simp add: dl_rune_def quoted_def dl_begin_def)
    then show ?thesis using Cons.IH[of ?l1 "i + length (encode_rune r)"] Cons.prems False by (simp add: esc_rune_def)
  qed
qed

text \<open>A token that ends: at the end of the source, or before a space.\<close>

lemma token_end:
  assumes "plain l" "dl_tok l \<noteq> []" "X = [] \<and> X' = [] \<or> (\<exists>j w. X = (j, w) # X' \<and> is_space w)"
  shows "\<exists>t l'. dl_loop True n X l = (Some t, X', l') \<and> tok_val t = dl_tok l"
proof (cases "X = []")
  case True
  with assms show ?thesis by (auto simp: plain_def)
next
  case False
  then obtain j w where X: "X = (j, w) # X'" "is_space w" using assms(3) by auto
  then have "w \<notin> {34, 39, 92, 91, 123, 40}" by (auto simp: is_space_def white_runes_def)
  then have "dl_rune True w (dl_begin j w l) = None"
    using assms(1,2) X(2) by (auto simp: dl_rune_def dl_opens_def plain_def dl_begin_def)
  then show ?thesis by (simp add: X Let_def)
qed

text \<open>A written value after a scanner that is at the start of a word or just past an equals sign.\<close>

definition quote_runes :: "int list \<Rightarrow> int list" where
  "quote_runes rs = (if list_ex needsQuote rs then 34 # concat (map esc_rune rs) @ [34] else rs)"

lemma Quote_runes: "list_all scalar rs \<Longrightarrow> Quote (text_of rs) = text_of (quote_runes rs)"
  by (simp add: Quote_text quote_runes_def)

lemma scalar_quote_runes: "list_all scalar rs \<Longrightarrow> list_all scalar (quote_runes rs)"
  using scalar_esc[of rs] by (simp add: quote_runes_def) (simp add: scalar_def)

lemma offsets_append [simp]: "offsets i (rs @ qs) = offsets i rs @ offsets (i + length (text_of rs)) qs"
  by (induction rs arbitrary: i) (simp_all add: add.assoc)

lemma value_run:
  assumes "plain l" "startsValue l" "list_ex needsQuote rs \<or> quiet (dl_state l) (dl_last l) rs"
  shows "\<exists>l'. dl_loop True n (offsets i (quote_runes rs) @ X) l = dl_loop True n X l' \<and> plain l' \<and>
    dl_tok l' = dl_tok l @ text_of rs"
proof (cases "list_ex needsQuote rs")
  case False
  with assms bare_run[of l rs n i X] show ?thesis by (auto simp: quote_runes_def)
next
  case True
  let ?e = "concat (map esc_rune rs)"
  let ?j = "i + length (encode_rune 34)"
  let ?l1 = "(dl_begin i 34 l)\<lparr>dl_quote := 34\<rparr>"
  have 1: "dl_rune True 34 (dl_begin i 34 l) = Some ?l1"
    using assms(1,2) by (simp add: dl_rune_def plain_def dl_opens_def startsValue_def dl_begin_def)
  have "quoted ?l1" "dl_tok ?l1 = dl_tok l" using assms(1) by (simp_all add: quoted_def plain_def dl_begin_def)
  from quoted_run[OF this(1), of n ?j rs "(?j + length (text_of ?e), 34) # X"] this(2)
  obtain l2 where l2: "dl_loop True n (offsets ?j ?e @ (?j + length (text_of ?e), 34) # X) ?l1 =
      dl_loop True n ((?j + length (text_of ?e), 34) # X) l2" "quoted l2" "dl_tok l2 = dl_tok l @ text_of rs"
    by auto
  let ?l3 = "dl_begin (?j + length (text_of ?e)) 34 l2"
  have 2: "dl_rune True 34 ?l3 = Some (?l3\<lparr>dl_quote := 0\<rparr>)" using l2(2) by (simp add: dl_rune_def quoted_def dl_begin_def)
  have "plain (?l3\<lparr>dl_quote := 0\<rparr>)" "dl_tok (?l3\<lparr>dl_quote := 0\<rparr>) = dl_tok l @ text_of rs"
    using l2(2,3) by (simp_all add: plain_def quoted_def dl_begin_def)
  moreover have "dl_loop True n (offsets i (quote_runes rs) @ X) l = dl_loop True n X (?l3\<lparr>dl_quote := 0\<rparr>)"
    using True l2(1) by (simp add: quote_runes_def 1 2)
  ultimately show ?thesis by blast
qed

lemma quiet_text: "st \<noteq> inName \<Longrightarrow> p \<noteq> 61 \<Longrightarrow> 61 \<notin> set rs \<Longrightarrow> quiet st p rs"
  by (induction rs arbitrary: st p) auto

text \<open>The words of a line, written one after the other with a space before each.\<close>

definition word_line :: "int list list \<Rightarrow> int list" where
  "word_line ws = concat (map (\<lambda>w. 32 # w) ws)"

text \<open>A word as it is written, and the text the scanner makes of it, wherever it stands on a line.\<close>

definition reads_as :: "int list \<Rightarrow> string \<Rightarrow> bool" where
  "reads_as w v \<longleftrightarrow> list_all scalar w \<and> v \<noteq> [] \<and> (\<forall>n i X X'. X = [] \<and> X' = [] \<or> (\<exists>j q. X = (j, q) # X' \<and> is_space q) \<longrightarrow>
     (\<exists>t l. dl_next True n (offsets i w @ X) = (Some t, X', l) \<and> tok_val t = v))"

lemma skip_blank: "dl_next e n ((i, 32) # X) = dl_next e n X"
  by (simp add: dl_next_def dl_begin_def dl_reset_def dl_rune_def dl_opens_def is_space_def white_runes_def)

lemma tokens_space: "dl_tokens e n ((i, 32) # X) = dl_tokens e n X"
  by (subst (1 2) dl_tokens.simps) (simp add: skip_blank)

lemma words_read:
  assumes "list_all2 reads_as ws vs"
  shows "map (tok_val \<circ> fst) (dl_tokens True n (offsets i (word_line ws))) = vs"
  using assms
proof (induction ws vs arbitrary: i rule: list_all2_induct)
  case Nil
  have "dl_next True n [] = (None, [], dl_reset)" by (simp add: dl_next_def dl_reset_def)
  then show ?case by (subst dl_tokens.simps) (simp add: word_line_def)
next
  case (Cons w ws v vs)
  let ?j = "i + length (encode_rune 32)"
  let ?X = "offsets (?j + length (text_of w)) (word_line ws)"
  let ?X' = "(case ws of [] \<Rightarrow> [] | _ \<Rightarrow> tl ?X)"
  have "?X = [] \<and> ?X' = [] \<or> (\<exists>k q. ?X = (k, q) # ?X' \<and> is_space q)"
    by (cases ws) (auto simp: word_line_def is_space_def white_runes_def)
  with Cons(1) obtain t l where t: "dl_next True n (offsets ?j w @ ?X) = (Some t, ?X', l)" "tok_val t = v"
    unfolding reads_as_def by blast
  have rest: "dl_tokens True n ?X' = dl_tokens True n ?X"
    by (cases ws) (simp_all add: word_line_def tokens_space)
  have "offsets i (word_line (w # ws)) = (i, 32) # offsets ?j w @ ?X" by (simp add: word_line_def)
  moreover have "dl_tokens True n ((i, 32) # offsets ?j w @ ?X) = (t, l) # dl_tokens True n ?X"
    unfolding tokens_space by (subst dl_tokens.simps) (simp add: t(1) rest)
  ultimately show ?case using t(2) Cons.IH by simp
qed

lemma word_reads_as:
  assumes "list_all scalar rs" "rs \<noteq> []"
  shows "reads_as (quote_runes rs) (text_of rs)"
  unfolding reads_as_def
proof (intro conjI allI impI)
  show "list_all scalar (quote_runes rs)" "text_of rs \<noteq> []" using assms by (simp_all add: scalar_quote_runes)
next
  fix n i and X X' :: "(nat \<times> int) list"
  assume X: "X = [] \<and> X' = [] \<or> (\<exists>j q. X = (j, q) # X' \<and> is_space q)"
  have "list_ex needsQuote rs \<or> quiet inKey 0 rs"
    using quiet_text[of inKey 0 rs] by (auto simp: list_ex_iff needsQuote_def)
  then obtain l where "dl_loop True n (offsets i (quote_runes rs) @ X) dl_reset = dl_loop True n X l" "plain l"
    "dl_tok l = text_of rs"
    using value_run[of dl_reset rs n i X] by (auto simp: startsValue_def)
  with token_end[OF _ _ X, of l n] assms(2) show "\<exists>t l. dl_next True n (offsets i (quote_runes rs) @ X) = (Some t, X', l) \<and> tok_val t = text_of rs"
    by (auto simp: dl_next_def)
qed

section \<open>Where the fields are\<close>

text \<open>A scanner before the offsets \<open>rs\<close> of a source of length \<open>n\<close>.\<close>

definition ascending :: "nat \<Rightarrow> (nat \<times> int) list \<Rightarrow> bool" where
  "ascending n rs \<longleftrightarrow> sorted_wrt (<) (map fst rs) \<and> (\<forall>i \<in> fst ` set rs. i < n)"

definition span_ok :: "nat \<Rightarrow> (nat \<times> int) list \<Rightarrow> dlex \<Rightarrow> bool" where
  "span_ok n rs l \<longleftrightarrow> (if dl_begun l then dl_start l < n \<and> (\<forall>i \<in> fst ` set rs. dl_start l < i) else plain l \<and> dl_tok l = [])"

lemma dl_keep_begun: "dl_rune e r l = Some l' \<Longrightarrow> dl_begun l' = dl_begun l \<and> dl_start l' = dl_start l"
  by (auto simp: dl_rune_def dl_group_def dl_write_def dl_push_def dl_pop_def dl_name_def Let_def split: if_split_asm)

lemma span_step:
  assumes "span_ok n ((i, r) # rs) l" "ascending n ((i, r) # rs)" "dl_rune e r (dl_begin i r l) = Some l'"
  shows "span_ok n rs l'"
proof (cases "dl_begun l \<or> \<not> is_space r")
  case True
  then have "dl_begun (dl_begin i r l)" by (auto simp: dl_begin_def)
  moreover have "dl_start (dl_begin i r l) < n \<and> (\<forall>j \<in> fst ` set rs. dl_start (dl_begin i r l) < j)"
    using assms(1,2) True by (cases "dl_begun l") (auto simp: dl_begin_def span_ok_def ascending_def)
  ultimately show ?thesis using dl_keep_begun[OF assms(3)] by (simp add: span_ok_def)
next
  case False
  then have l: "dl_begin i r l = l" "plain l" "dl_tok l = []" "is_space r" using assms(1) by (auto simp: dl_begin_def span_ok_def)
  then have "r \<notin> {34, 39, 92, 91, 123, 40}" by (auto simp: is_space_def white_runes_def)
  then have "l' = l" using assms(3) l by (auto simp: dl_rune_def dl_opens_def plain_def)
  with l False show ?thesis by (simp add: span_ok_def)
qed

lemma loop_span:
  assumes "span_ok n rs l" "ascending n rs" "dl_loop e n rs l = (Some t, rest, l')"
  shows "tok_start t < tok_end t \<and> tok_end t \<le> n \<and> (\<forall>i \<in> fst ` set rest. tok_end t < i) \<and> ascending n rest \<and>
    (\<not> dl_begun l \<longrightarrow> tok_start t \<in> fst ` set rs) \<and> fst ` set rest \<subseteq> fst ` set rs"
  using assms
proof (induction rs arbitrary: l)
  case Nil
  then show ?case by (auto simp: Let_def span_ok_def plain_def dl_write_def split: if_split_asm)
next
  case (Cons x rs)
  obtain i r where x: "x = (i, r)" by (cases x)
  have asc: "ascending n rs" using Cons.prems(2) by (auto simp: ascending_def)
  show ?case
  proof (cases "dl_rune e r (dl_begin i r l)")
    case (Some l1)
    have "dl_begun (dl_begin i r l) \<longrightarrow> dl_start (dl_begin i r l) \<in> insert i (if dl_begun l then {dl_start l} else {})"
      by (auto simp: dl_begin_def)
    have ok: "span_ok n rs l1" using span_step[OF _ _ Some] Cons.prems(1,2) x by simp
    have loop: "dl_loop e n rs l1 = (Some t, rest, l')" using Cons.prems(3) Some x by (simp add: Let_def)
    from Cons.IH[OF ok asc loop]
    have IH: "tok_start t < tok_end t \<and> tok_end t \<le> n \<and> (\<forall>i \<in> fst ` set rest. tok_end t < i) \<and> ascending n rest \<and>
      (\<not> dl_begun l1 \<longrightarrow> tok_start t \<in> fst ` set rs) \<and> fst ` set rest \<subseteq> fst ` set rs" .
    have start: "dl_loop e n rs l2 = (Some t, rest, l') \<Longrightarrow> dl_begun l2 \<Longrightarrow> tok_start t = dl_start l2" for l2
    proof (induction rs arbitrary: l2)
      case Nil
      then show ?case by (auto simp: Let_def dl_write_def split: if_split_asm)
    next
      case (Cons y ys)
      obtain j q where y: "y = (j, q)" by (cases y)
      have b: "dl_begin j q l2 = l2" using Cons.prems(2) by (simp add: dl_begin_def)
      show ?case
      proof (cases "dl_rune e q l2")
        case None
        with Cons.prems y b show ?thesis by (auto simp: Let_def)
      next
        case (Some l3)
        with Cons.prems y b have "dl_loop e n ys l3 = (Some t, rest, l')" by (simp add: Let_def)
        with Cons.IH[of l3] dl_keep_begun[OF Some] Cons.prems(2) show ?thesis by simp
      qed
    qed
    have "\<not> dl_begun l \<longrightarrow> tok_start t \<in> insert i (fst ` set rs)"
    proof (cases "dl_begun l1")
      case True
      with start[OF loop] dl_keep_begun[OF Some] show ?thesis by (auto simp: dl_begin_def split: if_split_asm)
    next
      case False
      with IH show ?thesis by blast
    qed
    with IH x show ?thesis by auto
  next
    case None
    then have t: "t = \<lparr>tok_val = dl_tok (dl_begin i r l), tok_start = dl_start (dl_begin i r l), tok_end = i\<rparr>" "rest = rs"
      using Cons.prems(3) x by (auto simp: Let_def)
    have sp: "is_space r" "dl_tok l \<noteq> []" using None by (auto simp: dl_rune_def split: if_split_asm)
    then have "dl_begun l" using Cons.prems(1) by (auto simp: span_ok_def split: if_split_asm)
    with Cons.prems(1,2) x t asc show ?thesis by (auto simp: span_ok_def ascending_def dl_begin_def)
  qed
qed

lemma tokens_in_order:
  assumes "ascending n rs"
  shows "sorted_wrt (\<lambda>a b. tok_end (fst a) < tok_start (fst b)) (dl_tokens e n rs) \<and>
    (\<forall>p \<in> set (dl_tokens e n rs). tok_start (fst p) \<in> fst ` set rs \<and> tok_start (fst p) < tok_end (fst p) \<and> tok_end (fst p) \<le> n)"
  using assms
proof (induction e n rs rule: dl_tokens.induct)
  case (1 e n rs)
  show ?case
  proof (cases "fst (dl_next e n rs)")
    case None
    then show ?thesis by (subst (1 2) dl_tokens.simps) (simp add: case_prod_unfold)
  next
    case (Some t)
    then obtain rest l where p: "dl_next e n rs = (Some t, rest, l)" by (metis prod.collapse)
    have reset: "span_ok n rs dl_reset" "\<not> dl_begun dl_reset" by (simp_all add: span_ok_def dl_reset_def plain_def)
    have s: "tok_start t < tok_end t" "tok_end t \<le> n" "\<forall>i \<in> fst ` set rest. tok_end t < i" "ascending n rest"
      "tok_start t \<in> fst ` set rs" "fst ` set rest \<subseteq> fst ` set rs"
      using loop_span[OF reset(1) 1(2), of e t rest l] p reset(2) by (auto simp: dl_next_def)
    have IH: "sorted_wrt (\<lambda>a b. tok_end (fst a) < tok_start (fst b)) (dl_tokens e n rest) \<and>
      (\<forall>p \<in> set (dl_tokens e n rest). tok_start (fst p) \<in> fst ` set rest \<and> tok_start (fst p) < tok_end (fst p) \<and> tok_end (fst p) \<le> n)"
      using 1(1)[OF p[symmetric] refl refl s(4)] by simp
    have e: "dl_tokens e n rs = (t, l) # dl_tokens e n rest" by (subst dl_tokens.simps) (simp add: p)
    have "\<forall>p \<in> set (dl_tokens e n rest). tok_end t < tok_start (fst p)" using IH s(3) by blast
    with IH s show ?thesis unfolding e by auto
  qed
qed

lemma decode_small: "decode_rune (c # cs) = (r, w) \<Longrightarrow> r < 128 \<Longrightarrow> byte_val c = r"
  by (auto simp: Let_def rune_error_def cont_byte_def split: if_split_asm list.split_asm)

lemma runes_bounds: "(k, r) \<in> set (runes_from i s) \<Longrightarrow> i \<le> k \<and> k < i + length s \<and> (r < 128 \<longrightarrow> byte_val (s ! (k - i)) = r)"
proof (induction i s rule: runes_from.induct)
  case (1 i s)
  show ?case
  proof (cases s)
    case (Cons c cs)
    obtain q w where d: "decode_rune s = (q, w)" by force
    have w: "1 \<le> w" "w \<le> length s" using decode_rune_width[of s] d Cons by simp_all
    have e: "runes_from i s = (i, q) # runes_from (i + w) (drop w s)" using Cons d by (subst runes_from.simps) simp
    show ?thesis
    proof (cases "(k, r) = (i, q)")
      case True
      then show ?thesis using decode_small[of c cs q w] d Cons by auto
    next
      case False
      then have "(k, r) \<in> set (runes_from (i + w) (drop w s))" using 1(2) unfolding e by auto
      with 1(1)[OF _ d[symmetric] refl] Cons w have "i + w \<le> k \<and> k < i + w + length (drop w s) \<and>
        (r < 128 \<longrightarrow> byte_val (drop w s ! (k - (i + w))) = r)" by blast
      then show ?thesis using w by auto
    qed
  qed (use 1(2) in simp)
qed

lemma ascending_runes: "ascending (i + length s) (runes_from i s)"
proof (induction i s rule: runes_from.induct)
  case (1 i s)
  show ?case
  proof (cases s)
    case (Cons c cs)
    obtain q w where d: "decode_rune s = (q, w)" by force
    have w: "1 \<le> w" "w \<le> length s" using decode_rune_width[of s] d Cons by simp_all
    have e: "runes_from i s = (i, q) # runes_from (i + w) (drop w s)" using Cons d by (subst runes_from.simps) simp
    have "ascending (i + w + length (drop w s)) (runes_from (i + w) (drop w s))" using 1[OF _ d[symmetric] refl] Cons by blast
    moreover have "\<forall>(k, r) \<in> set (runes_from (i + w) (drop w s)). i < k" using runes_bounds[of _ _ "i + w" "drop w s"] w by fastforce
    ultimately show ?thesis unfolding e using w by (auto simp: ascending_def)
  qed (simp add: ascending_def)
qed

lemma eq_scan_found: "eq_scan raw rs = Some k \<Longrightarrow> 0 < k \<and> (k, 61) \<in> set rs"
  by (induction raw rs rule: eq_scan.induct) (auto split: if_split_asm)

lemma optionEq_found: "optionEq raw = Some k \<Longrightarrow> 0 < k \<and> k < length raw \<and> raw ! k = CHR ''=''"
proof -
  assume "optionEq raw = Some k"
  then have k: "0 < k" "(k, 61) \<in> set (runes_from 0 raw)" using eq_scan_found by (auto simp: optionEq_def)
  have "byte_val CHR ''='' = 61" by (simp add: byte_val_def)
  then show ?thesis using runes_bounds[OF k(2)] k(1) byte_of_val[of "raw ! k"] byte_of_val[of "CHR ''=''"] by simp
qed

text \<open>
  The spans of the fields of any text lie inside it, in order and apart from each other, and the equals sign of an
  option is one that stands inside its field, behind a name.
\<close>

theorem field_spans_in_order:
  "sorted_wrt (\<lambda>a b. fs_End a < fs_Start b) (FieldSpans input) \<and>
   list_all (\<lambda>s. fs_Start s < fs_End s \<and> fs_End s \<le> length input \<and>
     (case fs_Eq s of None \<Rightarrow> True | Some e \<Rightarrow> fs_Start s < e \<and> e < fs_End s \<and> input ! e = CHR ''='')) (FieldSpans input)"
proof -
  have asc: "ascending (length input) (runes_from 0 input)" using ascending_runes[of 0 input] by simp
  note ord = tokens_in_order[OF asc, of True]
  have "fs_Start s < fs_End s \<and> fs_End s \<le> length input \<and>
      (case fs_Eq s of None \<Rightarrow> True | Some e \<Rightarrow> fs_Start s < e \<and> e < fs_End s \<and> input ! e = CHR ''='')"
    if "s \<in> set (FieldSpans input)" for s
  proof -
    from that obtain t l where p: "(t, l) \<in> set (scan_fields True input)" and s: "s = \<lparr>fs_Start = tok_start t, fs_End = tok_end t,
        fs_Eq = map_option (\<lambda>e. e + tok_start t) (optionEq (slice input (tok_start t) (tok_end t)))\<rparr>"
      by (auto simp: FieldSpans_def)
    have b: "tok_start t < tok_end t" "tok_end t \<le> length input" using ord p by (force simp: scan_fields_def)+
    then show ?thesis using optionEq_found[of "slice input (tok_start t) (tok_end t)"]
      unfolding s by (auto simp: length_slice slice_def add.commute split: option.split)
  qed
  moreover have "sorted_wrt (\<lambda>a b. fs_End a < fs_Start b) (FieldSpans input)"
    using ord by (simp add: FieldSpans_def scan_fields_def sorted_wrt_map case_prod_unfold)
  ultimately show ?thesis by (simp add: list_all_iff)
qed

end
