(* ===== verification/DirOption.thy ===== *)
theory DirOption
  imports DirLexer GoParse
begin

text \<open>
  Directive options (\<open>internal/directive/option.go\<close>) and their values (\<open>value.go\<close>): parsing, aliases, conflicts, and
  what is left for the error messages. \<open>strings.ToLower\<close>, whose tables are Unicode's, is the parameter \<open>lower\<close>.
\<close>

section \<open>Values\<close>

definition ParseBool :: "(string \<Rightarrow> string) \<Rightarrow> string \<Rightarrow> bool option" where
  "ParseBool lower raw =
     (let v = lower (trim_white raw) in
      if v \<in> {''true'', ''t'', ''1'', ''yes'', ''on''} then Some True
      else if v \<in> {''false'', ''f'', ''0'', ''no'', ''off''} then Some False else None)"

definition ParseSwitch :: "(string \<Rightarrow> string) \<Rightarrow> string \<Rightarrow> bool option" where
  "ParseSwitch lower args = (if trim_white args = [] then Some True else ParseBool lower args)"

definition IsOff :: "(string \<Rightarrow> string) \<Rightarrow> string \<Rightarrow> bool" where
  "IsOff lower raw = (case ParseBool lower raw of
       Some v \<Rightarrow> \<not> v
     | None \<Rightarrow> lower (trim_white raw) \<in> {''disable'', ''disabled''})"

datatype int_error = EmptyValue | NotANumber string | Negative int

definition ParseNonNegativeInt :: "string \<Rightarrow> int_error + int" where
  "ParseNonNegativeInt raw =
     (let tr = trim_white raw in
      if tr = [] then Inl EmptyValue
      else case parse_int tr of
        None \<Rightarrow> Inl (NotANumber tr)
      | Some n \<Rightarrow> if n < 0 then Inl (Negative n) else Inr n)"

definition SplitCSV :: "string \<Rightarrow> string list" where
  "SplitCSV value0 =
     (let value = trim_white value0 in
      if value = [] then [] else filter (\<lambda>p. p \<noteq> []) (map trim_white (str_split value '','')))"

definition TrimQuotes :: "string \<Rightarrow> string" where
  "TrimQuotes value =
     (if length value < 2 then value
      else let f = hd value; l = last value in
        if f = CHR 0x22 \<and> l = CHR 0x22 \<or> f = CHR 0x27 \<and> l = CHR 0x27 then butlast (tl value) else value)"

definition dir_Value :: "string \<Rightarrow> string" where
  "dir_Value args = TrimQuotes (trim_white args)"

definition HasValue :: "string \<Rightarrow> bool" where
  "HasValue args \<longleftrightarrow> trim_white (dir_Value args) \<noteq> []"

section \<open>Options\<close>

record DirOptions =
  op_vals :: "string smap"
  op_clash :: "string list smap"

datatype opt_error =
  RepeatedOptionsError string "string list"
| UnknownOptionsError string "string list"
| AliasConflictError string "string list"

definition newOptions :: DirOptions where
  "newOptions = \<lparr>op_vals = [], op_clash = []\<rparr>"

definition op_len :: "DirOptions \<Rightarrow> nat" where
  "op_len o1 = length (op_vals o1)"

definition op_lookup :: "DirOptions \<Rightarrow> string \<Rightarrow> string option" where
  "op_lookup o1 key = map_of (op_vals o1) key"

definition op_has :: "DirOptions \<Rightarrow> string \<Rightarrow> bool" where
  "op_has o1 key \<longleftrightarrow> map_of (op_vals o1) key \<noteq> None"

definition op_keys :: "DirOptions \<Rightarrow> string list" where
  "op_keys o1 = map fst (op_vals o1)"

text \<open>A missing key reads as the empty string.\<close>

definition op_get :: "DirOptions \<Rightarrow> string \<Rightarrow> string" where
  "op_get o1 key = (case map_of (op_vals o1) key of Some v \<Rightarrow> v | None \<Rightarrow> [])"

definition op_put :: "(string \<Rightarrow> string) \<Rightarrow> string \<Rightarrow> string \<Rightarrow> DirOptions \<Rightarrow> string \<times> DirOptions" where
  "op_put lower key0 val o1 =
     (let key = lower (trim_white key0) in
      if key = [] then ([], o1)
      else (if op_has o1 key then key else [], o1\<lparr>op_vals := smap_put key (trim_white val) (op_vals o1)\<rparr>))"

definition repeats_add :: "string \<Rightarrow> string list \<Rightarrow> string list" where
  "repeats_add key r = (if key \<noteq> [] \<and> key \<notin> set r then r @ [key] else r)"

definition RepeatedOption :: "string \<Rightarrow> string list \<Rightarrow> opt_error option" where
  "RepeatedOption name keys = (if keys = [] then None else Some (RepeatedOptionsError name keys))"

definition repeats_err :: "string \<Rightarrow> string list \<Rightarrow> opt_error option" where
  "repeats_err name r = RepeatedOption name (sort r)"

definition str_cut :: "string \<Rightarrow> string \<Rightarrow> (string \<times> string) option" where
  "str_cut s sep = (case find_sub s sep of None \<Rightarrow> None | Some i \<Rightarrow> Some (take i s, drop (i + length sep) s))"

fun collect_loop :: "(string \<Rightarrow> string) \<Rightarrow> bool \<Rightarrow> string list \<Rightarrow> DirOptions \<Rightarrow> string list \<Rightarrow> DirOptions \<times> string list" where
  "collect_loop lower bareIsTrue [] o1 rep = (o1, rep)"
| "collect_loop lower bareIsTrue (tok # toks) o1 rep =
     (case (case str_cut tok ''='' of
         Some kv \<Rightarrow> Some kv
       | None \<Rightarrow> if bareIsTrue then Some (tok, ''true'') else None) of
        None \<Rightarrow> collect_loop lower bareIsTrue toks o1 rep
      | Some (key, val) \<Rightarrow> (case op_put lower key val o1 of
          (rk, o2) \<Rightarrow> collect_loop lower bareIsTrue toks o2 (repeats_add rk rep)))"

definition collectOptions :: "(string \<Rightarrow> string) \<Rightarrow> string \<Rightarrow> string list \<Rightarrow> bool \<Rightarrow> DirOptions \<times> opt_error option" where
  "collectOptions lower name toks bareIsTrue =
     (case collect_loop lower bareIsTrue toks newOptions [] of (o1, rep) \<Rightarrow> (o1, repeats_err name rep))"

definition ParseOptions :: "(string \<Rightarrow> string) \<Rightarrow> string \<Rightarrow> string \<Rightarrow> DirOptions \<times> opt_error option" where
  "ParseOptions lower name input = collectOptions lower name (fieldsEscaped input) True"

definition OptionFields :: "(string \<Rightarrow> string) \<Rightarrow> string \<Rightarrow> string list \<Rightarrow> DirOptions \<times> opt_error option" where
  "OptionFields lower name fs = collectOptions lower name fs False"

fun put_names :: "(string \<Rightarrow> string) \<Rightarrow> string list \<Rightarrow> DirOptions \<Rightarrow> string list \<Rightarrow> string list" where
  "put_names lower [] o1 rep = rep"
| "put_names lower (n # ns) o1 rep = (case op_put lower n [] o1 of (rk, o2) \<Rightarrow> put_names lower ns o2 (repeats_add rk rep))"

definition RepeatedNames :: "(string \<Rightarrow> string) \<Rightarrow> string \<Rightarrow> string list \<Rightarrow> opt_error option" where
  "RepeatedNames lower name names = repeats_err name (put_names lower names newOptions [])"

section \<open>Aliases\<close>

definition noteClash :: "string list \<Rightarrow> DirOptions \<Rightarrow> DirOptions" where
  "noteClash keys o1 = (if length keys < 2 then o1
     else o1\<lparr>op_clash := smap_put (str_join '' '' (sort keys)) (sort keys) (op_clash o1)\<rparr>)"

definition given :: "string list \<Rightarrow> DirOptions \<Rightarrow> string list \<times> DirOptions" where
  "given keys o1 =
     (let written = filter (op_has o1) keys in
      (written, noteClash (filter (\<lambda>k. op_get o1 k \<noteq> []) written) o1))"

definition present :: "string list \<Rightarrow> DirOptions \<Rightarrow> string list \<times> DirOptions" where
  "present keys o1 = (let written = filter (op_has o1) keys in (written, noteClash written o1))"

definition First :: "string list \<Rightarrow> DirOptions \<Rightarrow> string option \<times> DirOptions" where
  "First keys o1 = (case given keys o1 of (_, o2) \<Rightarrow>
     (map_option (op_get o2) (find (\<lambda>k. op_get o2 k \<noteq> []) keys), o2))"

definition Aliases :: "string list \<Rightarrow> DirOptions \<Rightarrow> DirOptions" where
  "Aliases keys o1 = snd (given keys o1)"

definition op_delete :: "string \<Rightarrow> DirOptions \<Rightarrow> DirOptions" where
  "op_delete key o1 = o1\<lparr>op_vals := smap_del key (op_vals o1)\<rparr>"

definition Pop :: "string \<Rightarrow> DirOptions \<Rightarrow> string \<times> DirOptions" where
  "Pop key o1 = (op_get o1 key, op_delete key o1)"

fun pop_loop :: "string list \<Rightarrow> string \<times> string \<Rightarrow> DirOptions \<Rightarrow> (string \<times> string) \<times> DirOptions" where
  "pop_loop [] found o1 = (found, o1)"
| "pop_loop (key # keys) found o1 =
     (let val = op_get o1 key in
      pop_loop keys (if fst found = [] \<and> val \<noteq> [] then (key, val) else found) (op_delete key o1))"

definition PopKey :: "string list \<Rightarrow> DirOptions \<Rightarrow> (string \<times> string \<times> bool) \<times> DirOptions" where
  "PopKey keys o1 = (case given keys o1 of (written, o2) \<Rightarrow>
     (case pop_loop written ([], []) o2 of ((k, v), o3) \<Rightarrow> ((k, v, k \<noteq> []), o3)))"

definition PopAny :: "string list \<Rightarrow> DirOptions \<Rightarrow> (string \<times> bool) \<times> DirOptions" where
  "PopAny keys o1 = (case PopKey keys o1 of ((_, v, ok), o2) \<Rightarrow> ((v, ok), o2))"

fun bool_loop :: "string list \<Rightarrow> string option \<Rightarrow> DirOptions \<Rightarrow> string option \<times> DirOptions" where
  "bool_loop [] raw o1 = (raw, o1)"
| "bool_loop (key # keys) raw o1 =
     bool_loop keys (if raw = None then Some (op_get o1 key) else raw) (op_delete key o1)"

definition PopBool :: "(string \<Rightarrow> string) \<Rightarrow> string list \<Rightarrow> DirOptions \<Rightarrow> (bool \<times> bool \<times> string) \<times> DirOptions" where
  "PopBool lower keys o1 = (case present keys o1 of (written, o2) \<Rightarrow>
     (case bool_loop written None o2 of
        (None, o3) \<Rightarrow> ((False, False, []), o3)
      | (Some raw, o3) \<Rightarrow>
          (if raw = [] then ((True, True, []), o3)
           else case ParseBool lower raw of
             Some b \<Rightarrow> ((b, True, []), o3)
           | None \<Rightarrow> ((True, True, raw), o3))))"

section \<open>What is left\<close>

definition UnknownOption :: "string \<Rightarrow> string list \<Rightarrow> opt_error option" where
  "UnknownOption name keys = (if keys = [] then None else Some (UnknownOptionsError name keys))"

definition Unknown :: "string \<Rightarrow> DirOptions \<Rightarrow> opt_error option" where
  "Unknown name o1 = (if op_vals o1 = [] then None else UnknownOption name (op_keys o1))"

text \<open>\<open>errors.Join\<close> of no errors is no error: the empty list.\<close>

definition Conflicts :: "string \<Rightarrow> DirOptions \<Rightarrow> opt_error list" where
  "Conflicts name o1 = map (\<lambda>(k, g). AliasConflictError name g) (op_clash o1)"

definition Leftover :: "string \<Rightarrow> DirOptions \<Rightarrow> opt_error list" where
  "Leftover name o1 = Conflicts name o1 @ (case Unknown name o1 of None \<Rightarrow> [] | Some e \<Rightarrow> [e])"

definition ApplyOptions ::
    "(string \<Rightarrow> string) \<Rightarrow> string \<Rightarrow> string \<Rightarrow> string list list \<Rightarrow> (string \<Rightarrow> string \<Rightarrow> 'e option) \<Rightarrow> (opt_error + 'e) list" where
  "ApplyOptions lower name raw aliases app =
     (case ParseOptions lower name raw of (o1, err) \<Rightarrow>
        let o2 = fold Aliases aliases o1 in
        (case err of None \<Rightarrow> [] | Some e \<Rightarrow> [Inl e]) @
        List.map_filter (\<lambda>key. map_option Inr (app key (op_get o2 key))) (op_keys o2) @
        map Inl (Conflicts name o2))"

text \<open>\<open>ParseNameValue\<close>: a name, and a value after white space, a colon or an equals sign.\<close>

definition ParseNameValue :: "string \<Rightarrow> string \<times> string" where
  "ParseNameValue input =
     (let tr = trim_white input in
      case index_func (\<lambda>r. \<not> IsKeyRune r) tr of
        None \<Rightarrow> (tr, [])
      | Some e \<Rightarrow>
          if e = 0 then ([], [])
          else let sep = drop e tr; val = trim_left_in [32, 9] sep in
            if has_prefix val '':'' \<or> has_prefix val ''='' then (take e tr, trim_white (drop 1 val))
            else if length val = length sep then ([], [])
            else (take e tr, trim_white val))"

section \<open>Reading options back\<close>

text \<open>A value that is written without quotes and opens a group when it is read.\<close>

definition holds_group :: "int list \<Rightarrow> bool" where
  "holds_group v \<longleftrightarrow> v \<noteq> [] \<and> (hd v = 91 \<or> hd v = 123) \<or>
     IsKeyRune (hd v) \<and> v \<noteq> [] \<and> (case dropWhile IsKeyRune v of [] \<Rightarrow> False | r # _ \<Rightarrow> r = 40)"

lemma quiet_text2: "st = inText \<Longrightarrow> p \<noteq> 61 \<Longrightarrow> 61 \<notin> set v \<Longrightarrow> quiet st p v"
  by (rule quiet_text) auto

lemma quiet_name:
  "p \<noteq> 61 \<Longrightarrow> 61 \<notin> set v \<Longrightarrow> (case dropWhile IsKeyRune v of [] \<Rightarrow> True | r # _ \<Rightarrow> r \<noteq> 40) \<Longrightarrow> quiet inName p v"
proof (induction v arbitrary: p)
  case (Cons r v)
  show ?case
  proof (cases "IsKeyRune r")
    case True
    with Cons key_rune_ascii[of r] have "quiet inName r v" by auto
    moreover have "r \<noteq> 40" using True by (auto simp: rune_classes)
    ultimately show ?thesis using Cons.prems True by simp
  qed (use Cons.prems quiet_text2 in auto)
qed simp

lemma quiet_value:
  assumes "61 \<notin> set v" "\<not> holds_group v"
  shows "quiet inName 61 v"
proof (cases v)
  case (Cons r rs)
  show ?thesis
  proof (cases "IsKeyRune r")
    case True
    with assms Cons quiet_name[of r rs] show ?thesis by (auto simp: holds_group_def split: list.splits)
  next
    case False
    with assms Cons quiet_text2[of inText r rs] show ?thesis by (auto simp: holds_group_def)
  qed
qed simp

definition option_runes :: "int list \<times> int list \<Rightarrow> int list" where
  "option_runes kv = fst kv @ 61 # quote_runes (snd kv)"

lemma option_reads_as:
  assumes k: "k \<noteq> []" "list_all IsKeyRune k" and v: "list_all scalar v" "list_ex needsQuote v \<or> \<not> holds_group v"
  shows "reads_as (option_runes (k, v)) (text_of k @ ''='' @ text_of v)"
  unfolding reads_as_def
proof (intro conjI allI impI)
  have sk: "list_all scalar k" using k(2) key_rune_ascii by (force simp: list_all_iff scalar_def)
  then show "list_all scalar (option_runes (k, v))"
    using scalar_quote_runes[OF v(1)] by (simp add: option_runes_def) (simp add: scalar_def)
  show "text_of k @ ''='' @ text_of v \<noteq> []" by simp
next
  fix n i and X X' :: "(nat \<times> int) list"
  assume X: "X = [] \<and> X' = [] \<or> (\<exists>j q. X = (j, q) # X' \<and> is_space q)"
  have nk: "\<not> list_ex needsQuote k" "61 \<notin> set k"
    using k(2) key_rune_ascii by (auto simp: list_ex_iff list_all_iff needsQuote_def is_space_def)
  let ?j = "i + length (text_of k)"
  let ?Y = "offsets (?j + length (encode_rune 61)) (quote_runes v) @ X"
  obtain l1 where l1: "dl_loop True n (offsets i k @ (?j, 61) # ?Y) dl_reset = dl_loop True n ((?j, 61) # ?Y) l1"
    "plain l1" "dl_tok l1 = text_of k" "dl_state l1 = inKey"
    using bare_run[of dl_reset k n i "(?j, 61) # ?Y"] nk quiet_text[of inKey 0 k] by auto
  let ?l = "dl_begin ?j 61 l1"
  let ?l2 = "dl_write 61 (dl_name 61 ?l)"
  have "61 \<notin> set white_runes" by (simp add: white_runes_def)
  then have step: "dl_rune True 61 ?l = Some ?l2"
    using l1(2,4) by (simp add: dl_rune_def plain_def dl_opens_def is_space_def dl_begin_def)
  have l2: "plain ?l2" "dl_state ?l2 = inName" "dl_last ?l2 = 61" "dl_tok ?l2 = text_of k @ encode_rune 61"
    using l1 k(1) by (simp_all add: dl_name_def plain_def dl_begin_def dl_write_def)
  have "list_ex needsQuote v \<or> quiet inName 61 v"
    using quiet_value[of v] v(2) by (auto simp: list_ex_iff needsQuote_def)
  then obtain l3 where l3: "dl_loop True n ?Y ?l2 = dl_loop True n X l3" "plain l3"
    "dl_tok l3 = text_of k @ encode_rune 61 @ text_of v"
    using value_run[of ?l2 v n "?j + length (encode_rune 61)" X] l2 by (auto simp: startsValue_def)
  note e = encode_chars
  have "dl_next True n (offsets i (option_runes (k, v)) @ X) = dl_loop True n X l3"
    using l1(1) l3(1) step by (simp add: dl_next_def option_runes_def)
  with token_end[OF l3(2) _ X, of n] l3(3)
  show "\<exists>t l. dl_next True n (offsets i (option_runes (k, v)) @ X) = (Some t, X', l) \<and> tok_val t = text_of k @ ''='' @ text_of v"
    by (simp add: e)
qed

text \<open>The options of a line as \<open>directiveWriter.option\<close> writes them.\<close>

definition write_option :: "string \<times> string \<Rightarrow> string" where
  "write_option kv = '' '' @ fst kv @ ''='' @ Quote (snd kv)"

lemma find_sub_char: "c \<notin> set a \<Longrightarrow> find_sub (a @ c # b) [c] = Some (length a)"
  by (induction a) (subst find_sub.simps, auto simp: has_prefix_def)+

lemma str_cut_char: "c \<notin> set a \<Longrightarrow> str_cut (a @ c # b) [c] = Some (a, b)"
  by (simp add: str_cut_def find_sub_char)

lemma key_text:
  assumes "list_all IsKeyRune k"
  shows "CHR ''='' \<notin> set (text_of k)" "trim_white (text_of k) = text_of k"
proof -
  have a: "0 < r \<and> r < 128 \<and> r \<noteq> 61" if "IsKeyRune r" for r using key_rune_ascii[OF that] by simp
  have "CHR ''='' \<noteq> chr_of r" if "IsKeyRune r" for r
  proof
    assume "CHR ''='' = chr_of r"
    then have "byte_val CHR ''='' = r" using a[OF that] byte_val_chr[of r] by simp
    then show False using a[OF that] by (simp add: byte_val_def)
  qed
  then have "CHR ''='' \<notin> set (encode_rune r)" if "IsKeyRune r" for r using a[OF that] that by (simp add: encode_ascii)
  then show "CHR ''='' \<notin> set (text_of k)" using assms by (induction k) auto
  have s: "list_all scalar k" "list_all (\<lambda>r. r \<notin> set white_runes) k" using assms key_rune_ascii by (force simp: list_all_iff scalar_def)+
  have l: "trim_left_in white_runes (text_of k) = text_of k"
    using s by (cases k) (simp_all add: trim_left_in_def[symmetric] trim_left_keep[OF scalars_white], simp add: trim_left_in_def)
  have "trim_right_in white_runes (text_of k) = text_of k"
  proof (cases k rule: rev_cases)
    case (snoc k' r)
    have "encode_rune r = [chr_of r]" "r \<notin> set white_runes" using a[of r] assms s snoc by (simp_all add: encode_ascii)
    have "\<not> has_prefix (chr_of r # x) (rev (encode_rune w))" if "w \<in> set white_runes" for w x
    proof
      assume p: "has_prefix (chr_of r # x) (rev (encode_rune w))"
      have r: "0 < r" "r < 128" using a[of r] assms snoc by simp_all
      from p obtain t where t: "chr_of r # x = rev (encode_rune w) @ t" unfolding has_prefix_append by blast
      have "hd (rev (encode_rune w) @ t) = hd (rev (encode_rune w))" by (rule hd_append2) simp
      then have "hd (rev (encode_rune w)) = chr_of r" unfolding t[symmetric] by simp
      then have b: "byte_val (last (encode_rune w)) = r" using byte_val_chr[of r] r by (simp add: hd_rev)
      have w: "scalar w" using that by (rule scalar_white)
      have "w < 128" using last_encode[OF w] b r by linarith
      then have "w = r" using b w byte_val_chr[of w] by (simp add: encode_ascii scalar_def)
      then show False using that \<open>r \<notin> set white_runes\<close> by simp
    qed
    then have "trim_front (map (rev \<circ> encode_rune) white_runes) (chr_of r # x) = chr_of r # x" for x
      by (intro trim_front_id) auto
    then show ?thesis using \<open>encode_rune r = [chr_of r]\<close> by (simp add: trim_right_in_def snoc)
  qed (simp add: trim_right_in_def)
  then show "trim_white (text_of k) = text_of k" by (simp add: trim_white_ends l)
qed

text \<open>
  An option that is read back: its name is made of key runes (and does not vanish in lower case), its value is any
  UTF-8 text, and a value that needs no quotes opens no bracket.
\<close>

definition option_ok :: "(string \<Rightarrow> string) \<Rightarrow> int list \<times> int list \<Rightarrow> bool" where
  "option_ok lower kv \<longleftrightarrow> fst kv \<noteq> [] \<and> list_all IsKeyRune (fst kv) \<and> lower (text_of (fst kv)) \<noteq> [] \<and>
     list_all scalar (snd kv) \<and> (list_ex needsQuote (snd kv) \<or> \<not> holds_group (snd kv))"

text \<open>What is kept of an option: its name in lower case, its value without the white space around it.\<close>

definition kept :: "(string \<Rightarrow> string) \<Rightarrow> int list \<times> int list \<Rightarrow> string \<times> string" where
  "kept lower kv = (lower (text_of (fst kv)), trim_white (text_of (snd kv)))"

abbreviation kv_text :: "int list \<times> int list \<Rightarrow> string \<times> string" where
  "kv_text kv \<equiv> (text_of (fst kv), text_of (snd kv))"

lemma fields_of_options:
  assumes "list_all (option_ok lower) kvs"
  shows "fieldsEscaped (concat (map (write_option \<circ> kv_text) kvs)) =
    map (\<lambda>kv. text_of (fst kv) @ ''='' @ text_of (snd kv)) kvs"
proof -
  note e = encode_chars
  have w: "concat (map (write_option \<circ> kv_text) kvs) = text_of (word_line (map option_runes kvs))"
    using assms by (induction kvs) (auto simp: write_option_def word_line_def option_runes_def e Quote_runes option_ok_def)
  have r: "list_all2 reads_as (map option_runes kvs) (map (\<lambda>kv. text_of (fst kv) @ ''='' @ text_of (snd kv)) kvs)"
    using assms by (induction kvs) (auto simp: option_ok_def intro: option_reads_as[simplified append_Cons append_Nil])
  have sp: "scalar 32" by (simp add: scalar_def)
  have s: "list_all2 reads_as ws vs \<Longrightarrow> list_all scalar (word_line ws)" for ws vs
    by (induction rule: list_all2_induct) (simp_all add: word_line_def reads_as_def sp)
  from words_read[OF r] show ?thesis
    unfolding w fieldsEscaped_def scan_fields_def runes_text[OF s[OF r]] .
qed

lemma repeats_count:
  assumes "k \<noteq> []" "distinct rep" "set rep = {x. 1 < count_list pre x}"
  defines "rep' \<equiv> repeats_add (if k \<in> set pre then k else []) rep"
  shows "distinct rep'" "set rep' = {x. 1 < count_list (pre @ [k]) x}"
proof -
  show "distinct rep'" using assms(2) by (simp add: rep'_def repeats_add_def)
  have "x \<in> set rep' \<longleftrightarrow> 1 < count_list (pre @ [k]) x" for x
  proof -
    have "1 \<le> count_list pre k \<longleftrightarrow> k \<in> set pre" using count_list_0_iff[of pre k] by linarith
    moreover have "x \<in> set rep' \<longleftrightarrow> x \<in> set rep \<or> k \<in> set pre \<and> x = k"
      using assms(1) by (auto simp: rep'_def repeats_add_def)
    moreover have "x \<in> set rep \<longleftrightarrow> 1 < count_list pre x" by (simp add: assms(3))
    moreover have "count_list (pre @ [k]) x = count_list pre x + (if x = k then 1 else 0)" by simp
    ultimately show ?thesis by (cases "x = k"; cases "count_list pre k") simp_all
  qed
  then show "set rep' = {x. 1 < count_list (pre @ [k]) x}" by blast
qed

lemma collect_options:
  assumes "list_all (option_ok lower) kvs"
    and "\<And>k. map_of (op_vals o1) k = None \<longleftrightarrow> k \<notin> set pre" and "distinct rep" "set rep = {k. 1 < count_list pre k}"
  shows "\<exists>rep'. collect_loop lower True (map (\<lambda>kv. text_of (fst kv) @ ''='' @ text_of (snd kv)) kvs) o1 rep =
      (o1\<lparr>op_vals := fold (case_prod smap_put) (map (kept lower) kvs) (op_vals o1)\<rparr>, rep')
    \<and> distinct rep' \<and> set rep' = {k. 1 < count_list (pre @ map (fst \<circ> kept lower) kvs) k}"
  using assms
proof (induction kvs arbitrary: o1 rep pre)
  case (Cons kv kvs)
  have ok: "list_all IsKeyRune (fst kv)" "lower (text_of (fst kv)) \<noteq> []" using Cons.prems(1) by (simp_all add: option_ok_def)
  let ?t = "text_of (fst kv)" and ?v = "text_of (snd kv)" and ?k = "fst (kept lower kv)"
  let ?o = "o1\<lparr>op_vals := smap_put ?k (snd (kept lower kv)) (op_vals o1)\<rparr>"
  let ?r = "if ?k \<in> set pre then ?k else []"
  have cut: "str_cut (?t @ CHR ''='' # ?v) ''='' = Some (?t, ?v)" using key_text[OF ok(1)] by (simp add: str_cut_char)
  have put: "op_put lower ?t ?v o1 = (?r, ?o)"
    using ok key_text[OF ok(1)] Cons.prems(2)[of ?k] by (simp add: op_put_def op_has_def Let_def kept_def)
  have "?k \<noteq> []" using ok(2) by (simp add: kept_def)
  note rep = repeats_count[OF this Cons.prems(3,4)]
  have keys: "map_of (op_vals ?o) k = None \<longleftrightarrow> k \<notin> set (pre @ [?k])" for k
    using Cons.prems(2)[of k] by (simp add: map_of_smap_put)
  have "list_all (option_ok lower) kvs" using Cons.prems(1) by simp
  note ih = Cons.IH[OF this keys rep]
  have step: "collect_loop lower True ((?t @ ''='' @ ?v) # toks) o1 rep = collect_loop lower True toks ?o (repeats_add ?r rep)" for toks
    unfolding collect_loop.simps append_Cons append_Nil cut option.case prod.case put ..
  have vals: "fold (case_prod smap_put) (map (kept lower) (kv # kvs)) (op_vals o1) =
      fold (case_prod smap_put) (map (kept lower) kvs) (op_vals ?o)" by (simp add: case_prod_beta)
  have pre: "pre @ map (fst \<circ> kept lower) (kv # kvs) = (pre @ [?k]) @ map (fst \<circ> kept lower) kvs" by simp
  have upd: "?o\<lparr>op_vals := x\<rparr> = o1\<lparr>op_vals := x\<rparr>" for x by simp
  show ?case using ih unfolding upd pre vals list.map(2)[of "\<lambda>kv. text_of (fst kv) @ ''='' @ text_of (snd kv)"] step .
qed simp

lemma distinct_counts: "distinct xs \<longleftrightarrow> (\<forall>k. \<not> 1 < count_list xs k)"
proof (induction xs)
  case (Cons x xs)
  have "x \<in> set xs \<longleftrightarrow> 0 < count_list xs x" using count_list_0_iff[of xs x] by linarith
  moreover have "count_list xs k \<le> count_list (x # xs) k" for k by simp
  ultimately show ?case using Cons by (auto simp: not_less intro: le_trans)
qed simp

text \<open>
  C39: options written one after the other are read back with their names in lower case and their values without the
  white space around them, whatever quotes, spaces, backslashes and equals signs the values hold; of a name given twice
  the last value counts and the name is reported. The names are made of key runes (letters, digits and the marks of
  \<open>IsKeyRune\<close>); a value that is written bare, having none of the characters above, must open no bracket that
  the scanner follows (lemma \<open>bare_bracket_swallows\<close> shows what happens otherwise).
\<close>

theorem options_read_back:
  fixes kvs :: "(int list \<times> int list) list"
  assumes "list_all (option_ok lower) kvs"
  defines "keys \<equiv> map (fst \<circ> kept lower) kvs"
  shows "ParseOptions lower name (concat (map (write_option \<circ> kv_text) kvs)) =
    (\<lparr>op_vals = fold (case_prod smap_put) (map (kept lower) kvs) [], op_clash = []\<rparr>,
     if distinct keys then None else Some (RepeatedOptionsError name (sorted_list_of_set {k. 1 < count_list keys k})))"
proof -
  obtain rep where r: "collect_loop lower True (map (\<lambda>kv. text_of (fst kv) @ ''='' @ text_of (snd kv)) kvs) newOptions [] =
      (\<lparr>op_vals = fold (case_prod smap_put) (map (kept lower) kvs) [], op_clash = []\<rparr>, rep)"
    "distinct rep" "set rep = {k. 1 < count_list keys k}"
    using collect_options[OF assms(1), of newOptions "[]" "[]"] unfolding keys_def by (auto simp: newOptions_def)
  have d: "distinct keys \<longleftrightarrow> rep = []" using r(3) by (auto simp: distinct_counts)
  have "sorted_list_of_set {k. 1 < count_list keys k} = sort rep"
    using r(2) unfolding r(3)[symmetric] by (simp add: sorted_list_of_set_sort_remdups distinct_remdups_id)
  moreover have "sort rep = [] \<longleftrightarrow> rep = []" by (metis set_sort set_empty)
  ultimately show ?thesis
    unfolding ParseOptions_def collectOptions_def fields_of_options[OF assms(1)] r(1) prod.case d
    by (simp add: repeats_err_def RepeatedOption_def)
qed

lemma options_read_back_witness:
  "ParseOptions to_lower ''step'' (concat (map (write_option \<circ> kv_text) [([75], [97, 32, 98]), ([106], [61]), ([107], [32, 97])])) =
    (\<lparr>op_vals = [(''j'', ''=''), (''k'', ''a'')], op_clash = []\<rparr>, Some (RepeatedOptionsError ''step'' [''k'']))"
proof -
  let ?kvs = "[([75], [97, 32, 98]), ([106], [61 :: int]), ([107], [32, 97])] :: (int list \<times> int list) list"
  have t: "text_of [97, 32, 98] = ''a b''" "text_of [61] = ''=''" "text_of [75] = ''K''" "text_of [106] = ''j''"
    "text_of [32, 97] = '' a''" "text_of [107] = ''k''"
    by code_simp+
  have w: "trim_white ''a b'' = ''a b''" "trim_white ''='' = ''=''" "trim_white '' a'' = ''a''" by code_simp+
  have l: "to_lower ''K'' = ''k''" "to_lower ''k'' = ''k''" "to_lower ''j'' = ''j''" by code_simp+
  have ok: "list_all (option_ok to_lower) ?kvs"
    unfolding option_ok_def list.pred_inject fst_conv snd_conv t l
    by (simp add: scalar_def rune_classes needsQuote_def is_space_def white_runes_def in_range_def)
  have k: "map (kept to_lower) ?kvs = [(''k'', ''a b''), (''j'', ''=''), (''k'', ''a'')]"
    unfolding kept_def list.map fst_conv snd_conv t w l ..
  have m: "map (fst \<circ> kept to_lower) ?kvs = map fst [(''k'', ''a b''), (''j'', ''=''), (''k'', ''a'')]"
    unfolding k[symmetric] by simp
  have c: "{k. 1 < count_list (map fst [(''k'', ''a b''), (''j'', ''=''), (''k'', ''a'')]) k} = {''k''}" by auto
  show ?thesis unfolding options_read_back[OF ok] m k c by simp
qed

text \<open>
  A bare value with an opening bracket swallows what follows it when it is read: here the value \<open>f(\<close> and the option
  after it become one value.
\<close>

lemma bare_bracket_swallows:
  "ParseOptions to_lower ''if'' (write_option (''run'', ''f('') @ write_option (''fail'', ''no'')) =
    (\<lparr>op_vals = [(''run'', ''f( fail=no'')], op_clash = []\<rparr>, None)"
  by code_simp

end
