(* ===== verification/DirCall.thy ===== *)
theory DirCall
  imports DirOption
begin

text \<open>
  Directive calls (\<open>internal/directive/call.go\<close>), scopes (\<open>scope.go\<close>), profile headers (\<open>option.go\<close>), and the table of
  directives (\<open>name.go\<close>, \<open>spec.go\<close>) without the texts for help.
\<close>

section \<open>The table of directives\<close>

datatype ArgKind = ArgNone | ArgToken | ArgText | ArgSetting | ArgOptions

datatype Repeat = Once | Many

datatype Continuation = ContinueNone | ContinueOptions | ContinueExpr | ContinueCapture

record Spec =
  sp_Name :: string
  sp_Aliases :: "string list"
  sp_Args :: ArgKind
  sp_Repeat :: Repeat
  sp_Continues :: Continuation
  sp_ValueRequired :: bool
  sp_Resets :: "string list"

definition spec :: "string \<Rightarrow> ArgKind \<Rightarrow> Repeat \<Rightarrow> Spec" where
  "spec name args rep = \<lparr>sp_Name = name, sp_Aliases = [], sp_Args = args, sp_Repeat = rep, sp_Continues = ContinueNone,
     sp_ValueRequired = False, sp_Resets = []\<rparr>"

definition specs :: "Spec list" where
  "specs = [
    spec ''mock'' ArgOptions Many,
    (spec ''match'' ArgOptions Many)\<lparr>sp_Continues := ContinueOptions\<rparr>,
    spec ''expect'' ArgOptions Once,
    (spec ''name'' ArgToken Once)\<lparr>sp_ValueRequired := True\<rparr>,
    (spec ''description'' ArgText Many)\<lparr>sp_Aliases := [''desc'']\<rparr>,
    (spec ''tag'' ArgText Many)\<lparr>sp_Aliases := [''tags'']\<rparr>,
    (spec ''no-log'' ArgNone Once)\<lparr>sp_Aliases := [''nolog'']\<rparr>,
    (spec ''log-sensitive-headers'' ArgToken Once)\<lparr>sp_Aliases := [''log-secret-headers'']\<rparr>,
    spec ''auth'' ArgToken Once,
    spec ''setting'' ArgSetting Many,
    spec ''settings'' ArgOptions Many,
    spec ''timeout'' ArgToken Once,
    spec ''body'' ArgText Many,
    spec ''var'' ArgText Many,
    spec ''request'' ArgText Many,
    spec ''request-secret'' ArgText Many,
    spec ''file'' ArgText Many,
    spec ''file-secret'' ArgText Many,
    spec ''global'' ArgText Many,
    spec ''global-secret'' ArgText Many,
    spec ''const'' ArgText Many,
    spec ''use'' ArgText Many,
    spec ''script'' ArgToken Many,
    spec ''rts'' ArgToken Many,
    (spec ''patch'' ArgText Many)\<lparr>sp_Continues := ContinueExpr\<rparr>,
    (spec ''apply'' ArgText Many)\<lparr>sp_Continues := ContinueExpr\<rparr>,
    (spec ''when'' ArgText Once)\<lparr>sp_Aliases := [''skip-if''], sp_Continues := ContinueExpr\<rparr>,
    (spec ''capture'' ArgText Many)\<lparr>sp_Continues := ContinueCapture\<rparr>,
    (spec ''assert'' ArgText Many)\<lparr>sp_Continues := ContinueExpr\<rparr>,
    spec ''trace'' ArgOptions Once,
    spec ''profile'' ArgOptions Once,
    spec ''compare'' ArgOptions Once,
    spec ''ssh'' ArgOptions Many,
    spec ''k8s'' ArgOptions Many,
    spec ''workflow'' ArgText Many,
    spec ''step'' ArgText Many,
    (spec ''if'' ArgText Many)\<lparr>sp_Continues := ContinueExpr\<rparr>,
    (spec ''elif'' ArgText Many)\<lparr>sp_Continues := ContinueExpr\<rparr>,
    spec ''else'' ArgOptions Many,
    (spec ''switch'' ArgText Many)\<lparr>sp_Continues := ContinueExpr\<rparr>,
    (spec ''case'' ArgText Many)\<lparr>sp_Continues := ContinueExpr\<rparr>,
    spec ''default'' ArgOptions Many,
    (spec ''for-each'' ArgText Once)\<lparr>sp_Continues := ContinueExpr\<rparr>,
    (spec ''graphql'' ArgToken Many)\<lparr>sp_Resets := [''graphql-operation'', ''variables'', ''query'']\<rparr>,
    (spec ''graphql-operation'' ArgToken Once)\<lparr>sp_Aliases := [''operation''], sp_ValueRequired := True\<rparr>,
    (spec ''variables'' ArgText Once)\<lparr>sp_Aliases := [''graphql-variables'']\<rparr>,
    (spec ''query'' ArgText Once)\<lparr>sp_Aliases := [''graphql-query'']\<rparr>,
    spec ''grpc'' ArgText Once,
    (spec ''grpc-descriptor'' ArgText Once)\<lparr>sp_ValueRequired := True\<rparr>,
    spec ''grpc-reflection'' ArgToken Once,
    spec ''grpc-plaintext'' ArgToken Once,
    (spec ''grpc-authority'' ArgText Once)\<lparr>sp_ValueRequired := True\<rparr>,
    (spec ''grpc-metadata'' ArgText Many)\<lparr>sp_ValueRequired := True\<rparr>,
    spec ''sse'' ArgOptions Many,
    spec ''websocket'' ArgOptions Many,
    spec ''ws'' ArgText Many]"

text \<open>The index is filled in the order of the table; a later entry of a name would replace an earlier one.\<close>

definition spec_index :: "string \<Rightarrow> Spec option" where
  "spec_index n = find (\<lambda>s. n = sp_Name s \<or> n \<in> set (sp_Aliases s)) (rev specs)"

definition Canonical :: "string \<Rightarrow> string" where
  "Canonical n = (case spec_index n of Some s \<Rightarrow> sp_Name s | None \<Rightarrow> n)"

definition Known :: "string \<Rightarrow> bool" where
  "Known n \<longleftrightarrow> spec_index n \<noteq> None"

definition DeclaredOnce :: "string \<Rightarrow> bool" where
  "DeclaredOnce n \<longleftrightarrow> (case spec_index n of Some s \<Rightarrow> sp_Repeat s = Once | None \<Rightarrow> False)"

definition ValueRequired :: "string \<Rightarrow> bool" where
  "ValueRequired n \<longleftrightarrow> (case spec_index n of Some s \<Rightarrow> sp_ValueRequired s | None \<Rightarrow> False)"

definition Resets :: "string \<Rightarrow> string list" where
  "Resets n = (case spec_index n of Some s \<Rightarrow> sp_Resets s | None \<Rightarrow> [])"

definition dir_continuation :: "string \<Rightarrow> Continuation" where
  "dir_continuation n = (case spec_index n of Some s \<Rightarrow> sp_Continues s | None \<Rightarrow> ContinueNone)"

section \<open>Calls\<close>

record Call =
  cl_Name :: string
  cl_Spelling :: string
  cl_Args :: string
  cl_ArgOffset :: nat

definition IsArgSep :: "int \<Rightarrow> bool" where
  "IsArgSep r \<longleftrightarrow> r = 58 \<or> is_space r"

definition dir_Parse :: "(string \<Rightarrow> string) \<Rightarrow> string \<Rightarrow> Call option" where
  "dir_Parse lower txt =
     (if \<not> has_prefix txt ''@'' then None
      else let body = drop 1 txt; rest = trim_left_in white_runes body; lead = length body - length rest;
             e = (case index_func IsArgSep rest of Some i \<Rightarrow> i | None \<Rightarrow> length rest);
             spelling = lower (take e rest) in
        if spelling = [] then None
        else let tail = drop e rest; args = trim_left_in (58 # white_runes) tail; gap = length tail - length args in
          Some \<lparr>cl_Name = Canonical spelling, cl_Spelling = spelling, cl_Args = trim_right_in white_runes args,
            cl_ArgOffset = 1 + lead + e + gap\<rparr>)"

definition CutToken :: "string \<Rightarrow> string \<times> string" where
  "CutToken txt = (let tr = trim_white txt in
     case index_func is_space tr of None \<Rightarrow> (tr, []) | Some i \<Rightarrow> (take i tr, trim_white (drop i tr)))"

definition CutKey :: "(string \<Rightarrow> string) \<Rightarrow> string \<Rightarrow> string \<times> string" where
  "CutKey lower txt = (case CutToken txt of (tok, rest) \<Rightarrow> (lower (trim_right_in [58] tok), rest))"

section \<open>Scopes and profile headers\<close>

datatype Scope = ScopeRequest | ScopeFile | ScopeGlobal

fun scope_string :: "Scope \<Rightarrow> string" where
  "scope_string ScopeFile = ''file''"
| "scope_string ScopeGlobal = ''global''"
| "scope_string ScopeRequest = ''request''"

definition ParseScope :: "(string \<Rightarrow> string) \<Rightarrow> string \<Rightarrow> Scope \<times> bool" where
  "ParseScope lower tok =
     (let t = lower (trim_white tok) in
      if t = ''request'' then (ScopeRequest, True)
      else if t = ''file'' then (ScopeFile, True)
      else if t = ''global'' then (ScopeGlobal, True)
      else (ScopeRequest, False))"

definition ParseSecretScope :: "(string \<Rightarrow> string) \<Rightarrow> string \<Rightarrow> Scope \<times> bool \<times> bool" where
  "ParseSecretScope lower token =
     (let tok = lower (trim_white token); secret = has_suffix tok ''-secret'';
          tok1 = (if secret then take (length tok - 7) tok else tok) in
      case ParseScope lower tok1 of (scope, ok) \<Rightarrow> (scope, secret, ok))"

record ProfileHeader =
  ph_Scope :: Scope
  ph_Name :: string
  ph_Options :: DirOptions

text \<open>\<open>None\<close> when there is nothing to parse.\<close>

definition ParseProfileHeader :: "(string \<Rightarrow> string) \<Rightarrow> string \<Rightarrow> string \<Rightarrow> (ProfileHeader \<times> opt_error option) option" where
  "ParseProfileHeader lower name rest =
     (case fieldsEscaped rest of
        [] \<Rightarrow> None
      | f # fs \<Rightarrow>
         (let (scope, fs1) = (case ParseScope lower f of (sc, True) \<Rightarrow> (sc, fs) | (_, False) \<Rightarrow> (ScopeRequest, f # fs));
              (nm, fs2) = (case fs1 of g # gs \<Rightarrow> (if str_contains g ''='' then ([], fs1) else (trim_white g, gs)) | [] \<Rightarrow> ([], [])) in
          case collectOptions lower name fs2 True of (o1, err) \<Rightarrow>
            Some (\<lparr>ph_Scope = scope, ph_Name = nm, ph_Options = o1\<rparr>, err)))"

section \<open>What the table and a call mean\<close>

lemma specs_distinct: "distinct (concat (map (\<lambda>s. sp_Name s # sp_Aliases s) specs))"
  by code_simp

lemma specs_resets: "list_all (\<lambda>s. list_all (\<lambda>r. r \<in> set (map sp_Name specs)) (sp_Resets s)) specs"
  by code_simp

lemma find_SomeD: "find p xs = Some x \<Longrightarrow> x \<in> set xs \<and> p x"
  by (induction xs) (auto split: if_split_asm)

lemma distinct_concat_unique:
  "distinct (concat (map f xs)) \<Longrightarrow> q \<in> set xs \<Longrightarrow> s \<in> set xs \<Longrightarrow> n \<in> set (f q) \<Longrightarrow> n \<in> set (f s) \<Longrightarrow> q = s"
  by (induction xs) auto

lemma index_name:
  assumes "s \<in> set specs" "n = sp_Name s \<or> n \<in> set (sp_Aliases s)"
  shows "spec_index n = Some s"
proof -
  have "q = s" if "q \<in> set specs" "n = sp_Name q \<or> n \<in> set (sp_Aliases q)" for q
    using distinct_concat_unique[OF specs_distinct that(1) assms(1), of n] that(2) assms(2) by auto
  moreover obtain q where q: "spec_index n = Some q" using assms by (cases "spec_index n") (auto simp: spec_index_def find_None_iff)
  moreover have "q \<in> set specs \<and> (n = sp_Name q \<or> n \<in> set (sp_Aliases q))"
    using find_SomeD[OF q[unfolded spec_index_def]] by simp
  ultimately show ?thesis by blast
qed

text \<open>
  Every name and alias of the table stands for exactly its own directive: the canonical name of a spelling is a
  fixed point, the flags of a spelling are those of its canonical name, and whatever a directive resets is a directive.
\<close>

theorem directive_names_unambiguous:
  "list_all (\<lambda>s. list_all (\<lambda>n. Canonical n = sp_Name s \<and> (DeclaredOnce n \<longleftrightarrow> sp_Repeat s = Once) \<and>
       (ValueRequired n \<longleftrightarrow> sp_ValueRequired s) \<and> dir_continuation n = sp_Continues s) (sp_Name s # sp_Aliases s)
     \<and> list_all Known (sp_Resets s)) specs \<and> Canonical (Canonical n) = Canonical n"
proof -
  have "Canonical (Canonical n) = Canonical n"
  proof (cases "spec_index n")
    case (Some s)
    then have "s \<in> set specs" by (auto simp: spec_index_def dest: find_SomeD)
    with index_name[of s "sp_Name s"] Some show ?thesis by (simp add: Canonical_def)
  qed (simp add: Canonical_def)
  moreover have "list_all Known (sp_Resets s)" if "s \<in> set specs" for s
    using that specs_resets index_name by (fastforce simp: list_all_iff Known_def)
  ultimately show ?thesis
    using index_name by (auto simp: list_all_iff Canonical_def DeclaredOnce_def ValueRequired_def dir_continuation_def)
qed

lemma index_func_le: "index_func p s = Some i \<Longrightarrow> i < length s"
  using runes_bounds[of _ _ 0 s] by (auto simp: index_func_def dest!: find_SomeD)

lemma trim_front_drop: "trim_front codes s = drop (length s - length (trim_front codes s)) s \<and> length (trim_front codes s) \<le> length s"
proof (induction codes s rule: trim_front.induct)
  case (1 codes s)
  show ?case
  proof (cases "find (has_prefix s) codes")
    case None
    then show ?thesis by (simp add: trim_front.simps)
  next
    case (Some c)
    show ?thesis
    proof (cases "c = [] \<or> s = []")
      case True
      with Some show ?thesis by (subst (1 2 3) trim_front.simps) simp
    next
      case False
      have e: "trim_front codes s = trim_front codes (drop (length c) s)" using Some False by (subst trim_front.simps) simp
      have IH: "trim_front codes (drop (length c) s) = drop (length (drop (length c) s) - length (trim_front codes (drop (length c) s))) (drop (length c) s)"
        "length (trim_front codes (drop (length c) s)) \<le> length (drop (length c) s)"
        using 1[OF Some False] by simp_all
      have le: "length c \<le> length s" using Some by (auto simp: find_Some_iff has_prefix_append)
      define m where "m = length (trim_front codes (drop (length c) s))"
      have "drop (length (drop (length c) s) - m) (drop (length c) s) = drop (length s - m) s"
        using IH(2) le unfolding m_def[symmetric] by simp
      then show ?thesis unfolding e using IH le unfolding m_def[symmetric] by simp
    qed
  qed
qed

lemma trim_left_drop: "trim_left_in rs s = drop (length s - length (trim_left_in rs s)) s" "length (trim_left_in rs s) \<le> length s"
  using trim_front_drop[of "map encode_rune rs" s] by (simp_all add: trim_left_in_def)

text \<open>
  The argument a call reports is the text at the offset it reports, without the white space at its end, and it
  starts with neither white space nor a colon.
\<close>

theorem call_argument_located:
  assumes "dir_Parse lower txt = Some c"
  shows "cl_ArgOffset c \<le> length txt \<and> cl_Args c = trim_right_in white_runes (drop (cl_ArgOffset c) txt) \<and>
    \<not> (\<exists>r \<in> set (58 # white_runes). has_prefix (drop (cl_ArgOffset c) txt) (encode_rune r)) \<and>
    cl_Name c = Canonical (cl_Spelling c) \<and> cl_Spelling c \<noteq> []"
proof -
  define body where "body = drop 1 txt"
  define rest where "rest = trim_left_in white_runes body"
  define e where "e = (case index_func IsArgSep rest of Some i \<Rightarrow> i | None \<Rightarrow> length rest)"
  define args where "args = trim_left_in (58 # white_runes) (drop e rest)"
  have c: "has_prefix txt ''@''" "lower (take e rest) \<noteq> []" "c = \<lparr>cl_Name = Canonical (lower (take e rest)), cl_Spelling = lower (take e rest),
      cl_Args = trim_right_in white_runes args, cl_ArgOffset = 1 + (length body - length rest) + e + (length (drop e rest) - length args)\<rparr>"
    using assms unfolding dir_Parse_def Let_def body_def[symmetric] rest_def[symmetric] e_def[symmetric] args_def[symmetric]
    by (auto split: if_split_asm)
  have len: "1 \<le> length txt" using c(1) by (cases "txt") (auto simp: has_prefix_def)
  have r: "rest = drop (length body - length rest) body" "length rest \<le> length body" unfolding rest_def by (rule trim_left_drop)+
  have a: "args = drop (length (drop e rest) - length args) (drop e rest)" "length args \<le> length (drop e rest)"
    unfolding args_def by (rule trim_left_drop)+
  have e: "e \<le> length rest" using index_func_le[of IsArgSep rest] by (fastforce simp: e_def split: option.split)
  have "drop (cl_ArgOffset c) txt = drop (length (drop e rest) - length args) (drop e (drop (length body - length rest) body))"
    by (simp add: c(3) body_def add.commute add.left_commute)
  then have d: "drop (cl_ArgOffset c) txt = args" using r(1) a(1) by simp
  have "\<not> has_prefix args (encode_rune q)" if "q \<in> set (58 # white_runes)" for q
  proof -
    have "[] \<notin> set (map encode_rune (58 # white_runes))" using encode_rune_ne by (metis imageE list.set_map)
    from trim_front_spec[OF this, of "drop e rest"] that show ?thesis unfolding args_def trim_left_in_def by (metis image_eqI list.set_map)
  qed
  moreover have "cl_ArgOffset c \<le> length txt" using r(2) a(2) e len by (simp add: c(3) body_def)
  ultimately show ?thesis using c(2,3) d by auto
qed

lemma call_argument_located_witness:
  "cl_Args (the (dir_Parse to_lower ''@Desc: a b '')) = trim_right_in white_runes (drop 7 ''@Desc: a b '') \<and>
   cl_Name (the (dir_Parse to_lower ''@Desc: a b '')) = ''description''"
proof -
  have p: "dir_Parse to_lower ''@Desc: a b '' = Some \<lparr>cl_Name = ''description'', cl_Spelling = ''desc'', cl_Args = ''a b'', cl_ArgOffset = 7\<rparr>"
    by code_simp
  show ?thesis using call_argument_located[OF p] by (simp add: p)
qed

end
