(* ===== verification/VarsTemplate.thy ===== *)
theory VarsTemplate
  imports GoRunes
begin

text \<open>
  Templates (\<open>internal/vars/template.go\<close>): a text cut into literal parts and placeholders \<open>{{name}}\<close>. A match of the
  expression \<open>\{\{([^}]+)\}\}\<close> at a place is unique, since its middle part runs up to the first closing brace.
\<close>

record tplSeg =
  sg_text :: string
  sg_name :: string
  sg_ph :: bool

definition match_ph :: "string \<Rightarrow> (string \<times> string) option" where
  "match_ph s =
     (if \<not> has_prefix s ''{{'' then None
      else let inner = takeWhile (\<lambda>c. c \<noteq> CHR ''}'') (drop 2 s); rest = dropWhile (\<lambda>c. c \<noteq> CHR ''}'') (drop 2 s) in
        if inner \<noteq> [] \<and> has_prefix rest ''}}'' then Some (inner, drop 2 rest) else None)"

text \<open>The leftmost match: what is before it, the text between the braces, and what follows it.\<close>

fun find_ph :: "string \<Rightarrow> (string \<times> string \<times> string) option" where
  "find_ph s =
     (case match_ph s of
        Some (inner, rest) \<Rightarrow> Some ([], inner, rest)
      | None \<Rightarrow> (case s of [] \<Rightarrow> None | c # cs \<Rightarrow> map_option (\<lambda>(b, i, a). (c # b, i, a)) (find_ph cs)))"

declare find_ph.simps [simp del]

lemma match_ph_Some: "match_ph s = Some (i, a) \<Longrightarrow> s = ''{{'' @ i @ ''}}'' @ a \<and> i \<noteq> [] \<and> CHR ''}'' \<notin> set i"
proof -
  assume a: "match_ph s = Some (i, a)"
  then have p: "has_prefix s ''{{''" and i: "i = takeWhile (\<lambda>c. c \<noteq> CHR ''}'') (drop 2 s)" "i \<noteq> []"
    and r: "has_prefix (dropWhile (\<lambda>c. c \<noteq> CHR ''}'') (drop 2 s)) ''}}''" "a = drop 2 (dropWhile (\<lambda>c. c \<noteq> CHR ''}'') (drop 2 s))"
    by (auto simp: match_ph_def Let_def split: if_split_asm)
  have "s = ''{{'' @ drop 2 s" using p by (auto simp: has_prefix_append)
  moreover have "drop 2 s = i @ dropWhile (\<lambda>c. c \<noteq> CHR ''}'') (drop 2 s)" unfolding i(1) by simp
  moreover have "dropWhile (\<lambda>c. c \<noteq> CHR ''}'') (drop 2 s) = ''}}'' @ a" using r by (auto simp: has_prefix_append)
  moreover have "CHR ''}'' \<notin> set i" unfolding i(1) by (auto dest: set_takeWhileD)
  ultimately show ?thesis using i(2) by metis
qed

lemma find_ph_Some: "find_ph s = Some (b, i, a) \<Longrightarrow> s = b @ ''{{'' @ i @ ''}}'' @ a \<and> i \<noteq> [] \<and> CHR ''}'' \<notin> set i"
proof (induction s arbitrary: b)
  case Nil
  then show ?case by (subst (asm) find_ph.simps) (auto dest: match_ph_Some split: option.split_asm)
next
  case (Cons c s)
  show ?case
  proof (cases "match_ph (c # s)")
    case None
    with Cons.prems obtain b' where "b = c # b'" "find_ph s = Some (b', i, a)" by (subst (asm) find_ph.simps) auto
    with Cons.IH show ?thesis by simp
  next
    case (Some p)
    with Cons.prems have "b = []" "p = (i, a)" by (subst (asm) find_ph.simps, cases p, simp)+
    with match_ph_Some[of "c # s" i a] Some show ?thesis by simp
  qed
qed

definition lit_seg :: "string \<Rightarrow> tplSeg" where
  "lit_seg t = \<lparr>sg_text = t, sg_name = [], sg_ph = False\<rparr>"

definition ph_seg :: "string \<Rightarrow> tplSeg" where
  "ph_seg inner = \<lparr>sg_text = ''{{'' @ inner @ ''}}'', sg_name = trim_white inner, sg_ph = True\<rparr>"

function CompileTemplate :: "string \<Rightarrow> tplSeg list" where
  "CompileTemplate s =
     (case find_ph s of
        None \<Rightarrow> (if s = [] then [] else [lit_seg s])
      | Some (b, inner, a) \<Rightarrow> (if b \<noteq> [] then [lit_seg b] else []) @ ph_seg inner # CompileTemplate a)"
  by pat_completeness auto
termination
  by (relation "measure length") (auto dest: find_ph_Some)

declare CompileTemplate.simps [simp del]

definition HasPlaceholder :: "string \<Rightarrow> bool" where
  "HasPlaceholder s = str_contains s ''{{''"

text \<open>\<open>Template.replace\<close> with a function of the raw match and the name.\<close>

definition tpl_replace :: "tplSeg list \<Rightarrow> (string \<Rightarrow> string \<Rightarrow> string) \<Rightarrow> string" where
  "tpl_replace segs fn = concat (map (\<lambda>s. if sg_ph s then fn (sg_text s) (sg_name s) else sg_text s) segs)"

definition ReplaceTemplateVars :: "string \<Rightarrow> (string \<Rightarrow> string \<Rightarrow> string) option \<Rightarrow> string" where
  "ReplaceTemplateVars input fn = (case fn of None \<Rightarrow> input | Some f \<Rightarrow> tpl_replace (CompileTemplate input) f)"

section \<open>What a template is\<close>

lemma segs_None: "find_ph s = None \<Longrightarrow> CompileTemplate s = (if s = [] then [] else [lit_seg s])"
  by (subst CompileTemplate.simps) simp

lemma segs_Some: "find_ph s = Some (b, i, a) \<Longrightarrow> CompileTemplate s = (if b \<noteq> [] then [lit_seg b] else []) @ ph_seg i # CompileTemplate a"
  by (subst CompileTemplate.simps) simp

lemma segs_text: "concat (map sg_text (CompileTemplate s)) = s"
proof (induction s rule: CompileTemplate.induct)
  case (1 s)
  show ?case
  proof (cases "find_ph s")
    case None
    then show ?thesis by (simp add: segs_None lit_seg_def)
  next
    case (Some p)
    obtain b i a where p: "p = (b, i, a)" by (cases p)
    with Some have f: "find_ph s = Some (b, i, a)" by simp
    have s: "s = b @ ''{{'' @ i @ ''}}'' @ a" using find_ph_Some[OF f] by blast
    have "concat (map sg_text (CompileTemplate s)) = b @ ''{{'' @ i @ ''}}'' @ concat (map sg_text (CompileTemplate a))"
      unfolding segs_Some[OF f] by (simp add: lit_seg_def ph_seg_def)
    then show ?thesis using s by (simp add: 1[OF f refl refl])
  qed
qed

text \<open>What is before the leftmost match holds no match.\<close>

lemma match_ph_append: "match_ph s = Some (i, a) \<Longrightarrow> match_ph (s @ t) = Some (i, a @ t)"
proof -
  assume m: "match_ph s = Some (i, a)"
  from match_ph_Some[OF m] have s: "s @ t = ''{{'' @ i @ ''}}'' @ a @ t" and i: "i \<noteq> []" "CHR ''}'' \<notin> set i" by auto
  have "takeWhile (\<lambda>c. c \<noteq> CHR ''}'') (i @ ''}}'' @ a @ t) = i" "dropWhile (\<lambda>c. c \<noteq> CHR ''}'') (i @ ''}}'' @ a @ t) = ''}}'' @ a @ t"
    using i(2) by (induction i) auto
  with i(1) show ?thesis unfolding s by (simp add: match_ph_def has_prefix_def Let_def)
qed

lemma find_ph_before: "find_ph s = Some (b, i, a) \<Longrightarrow> find_ph b = None"
proof (induction s arbitrary: b)
  case Nil
  then show ?case by (subst (asm) find_ph.simps) (auto dest: match_ph_Some split: option.split_asm)
next
  case (Cons c s)
  have nil: "find_ph [] = None" by (subst find_ph.simps) (simp add: match_ph_def has_prefix_def)
  show ?case
  proof (cases "match_ph (c # s)")
    case None
    with Cons.prems obtain b' where b: "b = c # b'" "find_ph s = Some (b', i, a)" by (subst (asm) find_ph.simps) auto
    have "match_ph (c # b') = None"
    proof (rule ccontr)
      assume "match_ph (c # b') \<noteq> None"
      then obtain q where "match_ph (c # b') = Some q" by auto
      then have "match_ph ((c # b') @ ''{{'' @ i @ ''}}'' @ a) \<noteq> None" using match_ph_append by (cases q) fastforce
      then show False using None find_ph_Some[OF b(2)] by simp
    qed
    with Cons.IH[OF b(2)] show ?thesis unfolding b(1) by (subst find_ph.simps) simp
  next
    case (Some p)
    with Cons.prems have "b = []" by (subst (asm) find_ph.simps, cases p, simp)
    with nil show ?thesis by simp
  qed
qed

lemma segs_good:
  "list_all (\<lambda>g. if sg_ph g then (\<exists>i. g = ph_seg i \<and> i \<noteq> [] \<and> CHR ''}'' \<notin> set i) else sg_text g \<noteq> [] \<and> find_ph (sg_text g) = None)
     (CompileTemplate s)"
proof (induction s rule: CompileTemplate.induct)
  case (1 s)
  show ?case
  proof (cases "find_ph s")
    case None
    then show ?thesis by (simp add: segs_None lit_seg_def)
  next
    case (Some p)
    obtain b i a where p: "p = (b, i, a)" by (cases p)
    with Some have f: "find_ph s = Some (b, i, a)" by simp
    have i: "i \<noteq> []" "CHR ''}'' \<notin> set i" using find_ph_Some[OF f] by blast+
    have h: "sg_ph (ph_seg i)" "\<exists>j. ph_seg i = ph_seg j \<and> j \<noteq> [] \<and> CHR ''}'' \<notin> set j" using i by (auto simp: ph_seg_def)
    have l: "\<not> sg_ph (lit_seg b)" "sg_text (lit_seg b) = b" by (simp_all add: lit_seg_def)
    show ?thesis unfolding segs_Some[OF f] list_all_append list.pred_inject
      using h l find_ph_before[OF f] 1[OF f refl refl] by simp
  qed
qed

text \<open>
  The parts of a template put together are its text, so that replacing every placeholder by itself changes nothing;
  no literal part is empty or holds a placeholder, and the text of a placeholder has its name between double braces.
\<close>

theorem template_parts:
  "concat (map sg_text (CompileTemplate s)) = s \<and> ReplaceTemplateVars s (Some (\<lambda>m n. m)) = s \<and>
   list_all (\<lambda>g. if sg_ph g then (\<exists>i. sg_text g = ''{{'' @ i @ ''}}'' \<and> sg_name g = trim_white i \<and> CHR ''}'' \<notin> set i)
     else sg_text g \<noteq> [] \<and> \<not> list_ex sg_ph (CompileTemplate (sg_text g))) (CompileTemplate s)"
proof -
  have "ReplaceTemplateVars s (Some (\<lambda>m n. m)) = concat (map sg_text (CompileTemplate s))"
    by (simp add: ReplaceTemplateVars_def tpl_replace_def if_distrib cong: if_cong)
  moreover have "find_ph t = None \<Longrightarrow> \<not> list_ex sg_ph (CompileTemplate t)" for t by (simp add: segs_None lit_seg_def)
  ultimately show ?thesis using segs_text[of s] segs_good[of s] by (auto simp: list_all_iff ph_seg_def split: if_split_asm)
qed

end
