(* ===== verification/VarsNames.thy ===== *)
theory VarsNames
  imports GoStrings
begin

text \<open>
  Names of variables (\<open>internal/vars/names.go\<close>): a name is known by its key, trimmed and in lower case, and a \<open>NameMap\<close> keeps
  one value per key under the spelling that was written last. \<open>strings.ToLower\<close>, whose tables are Unicode's, is the
  parameter \<open>lower\<close>. A Go map that is read in the order of its iteration is the list of its entries in that order.
\<close>

definition NameKey :: "(string \<Rightarrow> string) \<Rightarrow> string \<Rightarrow> string" where
  "NameKey lower name = lower (trim_white name)"

lemma NameKey_trim [simp]: "NameKey lower (trim_white n) = NameKey lower n"
  by (simp add: NameKey_def trim_white_idem)

record 'v namedValue =
  nv_name :: string
  nv_value :: 'v

type_synonym 'v NameMap = "'v namedValue smap"

datatype name_error = NameBlank string | NameCollision string string

definition nm_Set :: "(string \<Rightarrow> string) \<Rightarrow> string \<Rightarrow> 'v \<Rightarrow> 'v NameMap \<Rightarrow> bool \<times> 'v NameMap" where
  "nm_Set lower name v m =
     (let key = NameKey lower name in
      if key = [] then (False, m) else (True, smap_put key \<lparr>nv_name = trim_white name, nv_value = v\<rparr> m))"

definition nm_Get :: "(string \<Rightarrow> string) \<Rightarrow> string \<Rightarrow> 'v NameMap \<Rightarrow> 'v option" where
  "nm_Get lower name m = map_option nv_value (map_of m (NameKey lower name))"

definition nm_Has :: "(string \<Rightarrow> string) \<Rightarrow> string \<Rightarrow> 'v NameMap \<Rightarrow> bool" where
  "nm_Has lower name m \<longleftrightarrow> map_of m (NameKey lower name) \<noteq> None"

definition nm_Delete :: "(string \<Rightarrow> string) \<Rightarrow> string \<Rightarrow> 'v NameMap \<Rightarrow> 'v NameMap" where
  "nm_Delete lower name m = smap_del (NameKey lower name) m"

definition nm_Len :: "'v NameMap \<Rightarrow> nat" where
  "nm_Len m = length m"

text \<open>The entries in the order of their keys, under their spelling.\<close>

definition nm_Sorted :: "'v NameMap \<Rightarrow> (string \<times> 'v) list" where
  "nm_Sorted m = map (\<lambda>(k, e). (nv_name e, nv_value e)) m"

definition set_names :: "(string \<Rightarrow> string) \<Rightarrow> (string \<times> 'v) list \<Rightarrow> 'v NameMap \<Rightarrow> 'v NameMap" where
  "set_names lower kvs m = fold (\<lambda>(n, v) m. snd (nm_Set lower n v m)) kvs m"

text \<open>\<open>All\<close> visits the entries in any order: \<open>visit\<close> is the order of one iteration.\<close>

definition nm_Merge :: "(string \<Rightarrow> string) \<Rightarrow> (string \<times> 'v) list \<Rightarrow> 'v NameMap \<Rightarrow> 'v NameMap" where
  "nm_Merge lower visit m = set_names lower visit m"

definition nm_SetMap :: "(string \<Rightarrow> string) \<Rightarrow> 'v smap \<Rightarrow> 'v NameMap \<Rightarrow> 'v NameMap" where
  "nm_SetMap lower src m = set_names lower src m"

definition nm_DeleteFunc :: "(string \<Rightarrow> 'v \<Rightarrow> bool) \<Rightarrow> 'v NameMap \<Rightarrow> 'v NameMap" where
  "nm_DeleteFunc del m = filter (\<lambda>(k, e). \<not> del (nv_name e) (nv_value e)) m"

definition nm_Map :: "'v NameMap \<Rightarrow> 'v smap" where
  "nm_Map m = smap_of_list (nm_Sorted m)"

definition CollectNames :: "(string \<Rightarrow> string) \<Rightarrow> 'v smap \<Rightarrow> 'v NameMap" where
  "CollectNames lower src = nm_SetMap lower src []"

fun NewNameMap_loop :: "(string \<Rightarrow> string) \<Rightarrow> (string \<times> 'v) list \<Rightarrow> string smap \<Rightarrow> 'v NameMap \<Rightarrow> name_error + 'v NameMap" where
  "NewNameMap_loop lower [] seen out = Inr out"
| "NewNameMap_loop lower ((name, v) # src) seen out =
     (let key = NameKey lower name in
      if key = [] then Inl (NameBlank name)
      else case map_of seen key of
        Some first \<Rightarrow> Inl (NameCollision first name)
      | None \<Rightarrow> NewNameMap_loop lower src (smap_put key name seen) (snd (nm_Set lower name v out)))"

definition NewNameMap :: "(string \<Rightarrow> string) \<Rightarrow> 'v smap \<Rightarrow> name_error + 'v NameMap" where
  "NewNameMap lower src = NewNameMap_loop lower src [] []"

definition Upsert :: "(string \<Rightarrow> string) \<Rightarrow> string \<Rightarrow> string \<Rightarrow> string smap \<Rightarrow> string smap" where
  "Upsert lower name0 v m =
     (let key = NameKey lower name0; name = trim_white name0 in
      smap_put name v (filter (\<lambda>(cur, w). \<not> (cur \<noteq> name \<and> NameKey lower cur = key)) m))"

definition MergeInto :: "(string \<Rightarrow> string) \<Rightarrow> (string \<times> string) list \<Rightarrow> string smap \<Rightarrow> string smap" where
  "MergeInto lower visit dst = fold (\<lambda>(n, v) m. Upsert lower n v m) visit dst"

section \<open>The table of names\<close>

definition nm_ok :: "(string \<Rightarrow> string) \<Rightarrow> 'v NameMap \<Rightarrow> bool" where
  "nm_ok lower m \<longleftrightarrow> smap_ok m \<and>
     (\<forall>(k, e)\<in>set m. k \<noteq> [] \<and> k = NameKey lower (nv_name e) \<and> nv_name e = trim_white (nv_name e))"

lemma nm_ok_Nil [simp]: "nm_ok lower []"
  by (simp add: nm_ok_def)

lemma nm_ok_Set [keeps]: "nm_ok lower m \<Longrightarrow> nm_ok lower (snd (nm_Set lower n v m))"
proof -
  assume ok: "nm_ok lower m"
  show ?thesis
  proof (cases "NameKey lower n = []")
    case True
    with ok show ?thesis by (simp add: nm_Set_def)
  next
    case False
    let ?e = "\<lparr>nv_name = trim_white n, nv_value = v\<rparr>"
    have "smap_ok (smap_put (NameKey lower n) ?e m)" using ok by (simp add: nm_ok_def smap_ok_put)
    moreover have "set (smap_put (NameKey lower n) ?e m) \<subseteq> insert (NameKey lower n, ?e) (set m)" by (rule set_smap_put)
    ultimately show ?thesis using ok False by (fastforce simp: nm_ok_def nm_Set_def trim_white_idem)
  qed
qed

lemma nm_ok_Delete [keeps]: "nm_ok lower m \<Longrightarrow> nm_ok lower (nm_Delete lower n m)"
  using set_smap_del[of "NameKey lower n" m] smap_ok_del[of m "NameKey lower n"] by (auto simp: nm_ok_def nm_Delete_def)

lemma smap_ok_filter: "smap_ok m \<Longrightarrow> smap_ok (filter p m)"
  unfolding smap_ok_def by (induction m) auto

lemma nm_ok_DeleteFunc [keeps]: "nm_ok lower m \<Longrightarrow> nm_ok lower (nm_DeleteFunc del m)"
  by (auto simp: nm_ok_def nm_DeleteFunc_def smap_ok_filter)

text \<open>What a table of names promises, and what a series of writes leaves.\<close>

locale name_table =
  fixes key :: "string \<Rightarrow> string" and get :: "string \<Rightarrow> 'm \<Rightarrow> 'v option" and put :: "string \<Rightarrow> 'v \<Rightarrow> 'm \<Rightarrow> 'm" and ok :: "'m \<Rightarrow> bool"
  assumes ok_put: "ok m \<Longrightarrow> ok (put n v m)"
    and get_put: "ok m \<Longrightarrow> key n \<noteq> [] \<Longrightarrow> get n' (put n v m) = (if key n' = key n then Some v else get n' m)"
    and put_blank: "key n = [] \<Longrightarrow> put n v m = m"
begin

lemma ok_puts: "ok m \<Longrightarrow> ok (fold (\<lambda>(n, v) m. put n v m) kvs m)"
  by (induction kvs arbitrary: m) (auto intro: ok_put)

lemma get_puts:
  "ok m \<Longrightarrow> key n \<noteq> [] \<Longrightarrow> get n (fold (\<lambda>(n, v) m. put n v m) kvs m) =
     (case find (\<lambda>(n', v). key n' = key n) (rev kvs) of Some (n', v) \<Rightarrow> Some v | None \<Rightarrow> get n m)"
proof (induction kvs rule: rev_induct)
  case Nil
  then show ?case by simp
next
  case (snoc e kvs)
  obtain n' v where e: "e = (n', v)" by (cases e)
  from snoc ok_puts show ?case by (cases "key n' = []") (auto simp: e get_put put_blank)
qed

text \<open>Writes of names with different keys may come in any order.\<close>

lemma find_distinct:
  assumes "distinct (map key (map fst kvs))" "(n', v) \<in> set kvs" "key n' = key n"
  shows "find (\<lambda>(n', v). key n' = key n) kvs = Some (n', v)"
  using assms by (induction kvs) (auto simp: image_iff)

lemma get_puts_mset:
  assumes "ok m" "key n \<noteq> []" "distinct (map key (map fst kvs))" "set kvs' = set kvs" "distinct (map key (map fst kvs'))"
  shows "get n (fold (\<lambda>(n, v) m. put n v m) kvs m) = get n (fold (\<lambda>(n, v) m. put n v m) kvs' m)"
proof (cases "\<exists>n' v. (n', v) \<in> set kvs \<and> key n' = key n")
  case True
  then obtain n' v where e: "(n', v) \<in> set kvs" "key n' = key n" by blast
  have "find (\<lambda>(n', v). key n' = key n) (rev kvs) = Some (n', v)" "find (\<lambda>(n', v). key n' = key n) (rev kvs') = Some (n', v)"
    using find_distinct[of "rev kvs"] find_distinct[of "rev kvs'"] assms e by (simp_all add: rev_map[symmetric])
  then show ?thesis by (simp add: get_puts assms)
next
  case False
  then have "find (\<lambda>(n', v). key n' = key n) (rev kvs) = None" "find (\<lambda>(n', v). key n' = key n) (rev kvs') = None"
    using assms(4) by (auto simp: find_None_iff)
  then show ?thesis by (simp add: get_puts assms)
qed

end

interpretation names: name_table "NameKey lower" "nm_Get lower" "\<lambda>n v m. snd (nm_Set lower n v m)" "nm_ok lower" for lower
  by unfold_locales (simp_all add: keeps, simp_all add: nm_Get_def nm_Set_def Let_def map_of_smap_put)

lemma set_names_ok [keeps]: "nm_ok lower m \<Longrightarrow> nm_ok lower (set_names lower kvs m)"
  unfolding set_names_def by (rule names.ok_puts)

lemma CollectNames_ok [keeps]: "nm_ok lower (CollectNames lower src)"
  by (simp add: CollectNames_def nm_SetMap_def set_names_ok)

lemma nm_Get_blank: "nm_ok lower m \<Longrightarrow> NameKey lower n = [] \<Longrightarrow> nm_Get lower n m = None"
  by (auto simp: nm_Get_def nm_ok_def map_of_eq_None_iff)

lemma get_set_names:
  assumes "nm_ok lower m"
  shows "nm_Get lower n (set_names lower kvs m) = (if NameKey lower n = [] then None else
    case find (\<lambda>(n', v). NameKey lower n' = NameKey lower n) (rev kvs) of Some (n', v) \<Rightarrow> Some v | None \<Rightarrow> nm_Get lower n m)"
  using names.get_puts[OF assms, of n kvs] nm_Get_blank[OF set_names_ok[OF assms], of n kvs] by (auto simp: set_names_def)

text \<open>Written out as a plain map and read in again a table is the same.\<close>

lemma map_of_smap_of_list: "map_of (smap_of_list kvs) = map_of (rev kvs)"
proof -
  have "map_of (foldl (\<lambda>m (k, v). smap_put k v m) m kvs) = map_of (rev kvs @ m)" for m :: "'a smap"
  proof (induction kvs arbitrary: m)
    case (Cons e kvs)
    obtain k v where e: "e = (k, v)" by (cases e)
    show ?case using Cons[of "smap_put k v m"] by (auto simp: e map_of_smap_put map_add_def fun_eq_iff split: option.split)
  qed simp
  from this[of "[]"] show ?thesis by (simp add: smap_of_list_def)
qed

lemma smap_ok_of_list [simp]: "smap_ok (smap_of_list kvs)"
proof -
  have "smap_ok m \<Longrightarrow> smap_ok (foldl (\<lambda>m (k, v). smap_put k v m) m kvs)" for m :: "'a smap"
    by (induction kvs arbitrary: m) (auto intro: smap_ok_put)
  then show ?thesis by (simp add: smap_of_list_def)
qed

lemma distinct_mapI: "distinct (map f xs) \<Longrightarrow> distinct xs"
  by (simp add: distinct_map)

lemma map_of_rev: "distinct (map fst m) \<Longrightarrow> map_of (rev m) = map_of m"
  by (subst map_of_inject_set) (simp_all add: rev_map[symmetric])

lemma set_smap_of_list: "distinct (map fst kvs) \<Longrightarrow> set (smap_of_list kvs) = set kvs"
proof -
  assume d: "distinct (map fst kvs)"
  have "map_of (smap_of_list kvs) = map_of kvs" using d by (simp add: map_of_smap_of_list map_of_rev)
  then show ?thesis using map_of_inject_set[OF smap_ok_distinct[OF smap_ok_of_list] d] by blast
qed

lemma keys_of_spellings: "nm_ok lower m \<Longrightarrow> map (NameKey lower) (map fst (nm_Sorted m)) = map fst m"
  by (induction m) (auto simp: nm_ok_def nm_Sorted_def smap_ok_Cons)

lemma in_sorted: "nm_ok lower m \<Longrightarrow> (a, b) \<in> set (nm_Sorted m) \<Longrightarrow> NameKey lower a \<in> fst ` set m"
  using keys_of_spellings[of lower m] by (metis fst_conv image_eqI list.set_map)

lemma distinct_spellings: "nm_ok lower m \<Longrightarrow> distinct (map (NameKey lower) (map fst (nm_Sorted m)))"
  by (simp only: keys_of_spellings) (simp add: nm_ok_def smap_ok_distinct)

lemma nm_Map_set: "nm_ok lower m \<Longrightarrow> set (nm_Map m) = set (nm_Sorted m)"
  unfolding nm_Map_def by (rule set_smap_of_list, drule distinct_spellings, rule distinct_mapI[of "NameKey lower"])

lemma nm_Map_reads_back:
  assumes ok: "nm_ok lower m"
  shows "nm_Get lower n (CollectNames lower (nm_Map m)) = nm_Get lower n m"
proof (cases "NameKey lower n = []")
  case True
  then show ?thesis using nm_Get_blank[OF ok] nm_Get_blank[OF CollectNames_ok] by metis
next
  case False
  have inj: "inj_on (NameKey lower) (set (map fst (nm_Sorted m)))"
    using distinct_spellings[OF ok] unfolding distinct_map by blast
  have fsts: "set (map fst (nm_Map m)) = set (map fst (nm_Sorted m))" using nm_Map_set[OF ok] by simp
  have d: "distinct (map (NameKey lower) (map fst (nm_Map m)))"
    unfolding distinct_map using inj fsts smap_ok_distinct[of "nm_Map m"] by (simp add: nm_Map_def distinct_map)
  have "nm_Get lower n (CollectNames lower (nm_Map m)) = nm_Get lower n (set_names lower (nm_Sorted m) [])"
    unfolding CollectNames_def nm_SetMap_def set_names_def
    by (rule names.get_puts_mset[OF nm_ok_Nil False d _ distinct_spellings[OF ok]]) (simp add: nm_Map_set[OF ok])
  also have "\<dots> = nm_Get lower n m"
  proof (cases "map_of m (NameKey lower n)")
    case None
    then have "find (\<lambda>(n', v). NameKey lower n' = NameKey lower n) (rev (nm_Sorted m)) = None"
      using in_sorted[OF ok] by (force simp: find_None_iff map_of_eq_None_iff)
    with None False show ?thesis using get_set_names[OF nm_ok_Nil, of lower n "nm_Sorted m"] by (simp add: nm_Get_def)
  next
    case (Some e)
    then have "(NameKey lower n, e) \<in> set m" by (rule map_of_SomeD)
    then have e: "(nv_name e, nv_value e) \<in> set (nm_Sorted m)" "NameKey lower (nv_name e) = NameKey lower n"
      using ok by (force simp: nm_Sorted_def, auto simp: nm_ok_def)
    have "find (\<lambda>(n', v). NameKey lower n' = NameKey lower n) (rev (nm_Sorted m)) = Some (nv_name e, nv_value e)"
      by (rule names.find_distinct) (use e distinct_spellings[OF ok] in \<open>simp_all add: rev_map[symmetric]\<close>)
    with Some False show ?thesis using get_set_names[OF nm_ok_Nil, of lower n "nm_Sorted m"] by (simp add: nm_Get_def)
  qed
  finally show ?thesis .
qed

end
