(* ===== verification/VarsResolver.thy ===== *)
theory VarsResolver
  imports VarsTemplate VarsNames
begin

text \<open>
  The resolver of variables (\<open>internal/vars/resolver.go\<close>) with its memo table and trace (\<open>trace.go\<close>). Providers are pure
  functions; \<open>strings.ToLower\<close>, \<open>strings.EqualFold\<close>, the evaluation of expressions and the dynamic helpers
  (\<open>internal/vars/dynamic\<close>) are parameters, the last two with the number of the call, since they may answer anything.
\<close>

section \<open>Names and traces\<close>

record ResolveTrace =
  rt_Name :: string
  rt_Source :: string
  rt_Value :: string
  rt_Shadowed :: "string list"
  rt_Uses :: int
  rt_Missing :: bool
  rt_Dynamic :: bool

record Trace =
  tr_ord :: "string list"
  tr_items :: "string \<Rightarrow> ResolveTrace option"

record VarValue =
  vv_Text :: string
  vv_Missing :: bool
  vv_Final :: bool

record provider =
  pv_lookup :: "string \<Rightarrow> VarValue option"
  pv_Label :: string
  pv_template :: bool

record ExprPos =
  xp_Path :: string
  xp_Line :: int
  xp_Col :: int

text \<open>Errors; \<open>External\<close> is an error of an expression or a helper, with whether it wraps \<open>ErrUndefinedVariable\<close>.\<close>

datatype rerr =
  Undefined string
| ExpandErr string rerr
| CycleErr string
| DepthErr string
| ExprNotAllowed
| EmptyExpr
| ExprNotEnabled
| External bool string

fun is_undef :: "rerr \<Rightarrow> bool" where
  "is_undef (Undefined n) = True"
| "is_undef (ExpandErr n e) = is_undef e"
| "is_undef (External u m) = u"
| "is_undef _ = False"

text \<open>A helper that does not know the name is \<open>None\<close> (\<open>dynamic.ErrUnknown\<close>).\<close>

record Resolver =
  rv_providers :: "provider list"
  rv_expr :: "(nat \<Rightarrow> string \<Rightarrow> ExprPos \<Rightarrow> rerr + string) option"
  rv_exprPos :: ExprPos
  rv_lenient :: bool
  rv_lower :: "string \<Rightarrow> string"
  rv_fold :: "string \<Rightarrow> string \<Rightarrow> bool"
  rv_dynamic :: "nat \<Rightarrow> string \<Rightarrow> (rerr + string) option"

type_synonym variableKey = "nat \<times> string"

type_synonym memoKey = "variableKey \<times> bool \<times> bool"

record rstate =
  rs_memo :: "memoKey \<Rightarrow> string option"
  rs_trace :: "Trace option"
  rs_calls :: nat
  rs_panic :: bool

definition add_shadowed :: "Resolver \<Rightarrow> string list \<Rightarrow> string list \<Rightarrow> string list" where
  "add_shadowed r new old = fold (\<lambda>s0 xs. let s = trim_white s0 in
     if s = [] \<or> list_ex (\<lambda>x. rv_fold r (trim_white x) s) xs then xs else xs @ [s]) new old"

definition merge_trace :: "Resolver \<Rightarrow> ResolveTrace \<Rightarrow> ResolveTrace \<Rightarrow> ResolveTrace" where
  "merge_trace r it cur0 =
     (let cur1 = cur0\<lparr>rt_Uses := rt_Uses cur0 + (if rt_Uses it \<le> 0 then 1 else rt_Uses it)\<rparr>;
          cur2 = (if rt_Missing cur1 \<and> \<not> rt_Missing it then
              cur1\<lparr>rt_Source := rt_Source it, rt_Value := rt_Value it, rt_Missing := False, rt_Dynamic := rt_Dynamic it\<rparr>
            else if \<not> rt_Missing it then
              cur1\<lparr>rt_Source := (if rt_Source cur1 = [] then rt_Source it else rt_Source cur1),
                rt_Value := (if rt_Value cur1 = [] then rt_Value it else rt_Value cur1),
                rt_Dynamic := rt_Dynamic cur1 \<or> rt_Dynamic it\<rparr>
            else cur1) in
      cur2\<lparr>rt_Shadowed := add_shadowed r (rt_Shadowed it) (rt_Shadowed cur2)\<rparr>)"

definition Trace_Add :: "Resolver \<Rightarrow> ResolveTrace \<Rightarrow> Trace \<Rightarrow> Trace" where
  "Trace_Add r it t =
     (let name = trim_white (rt_Name it); key = NameKey (rv_lower r) name in
      if name = [] then t
      else case tr_items t key of
        None \<Rightarrow> \<lparr>tr_ord = tr_ord t @ [key], tr_items = (tr_items t)(key \<mapsto>
          it\<lparr>rt_Name := name, rt_Uses := (if rt_Uses it \<le> 0 then 1 else rt_Uses it)\<rparr>)\<rparr>
      | Some cur \<Rightarrow> t\<lparr>tr_items := (tr_items t)(key \<mapsto> merge_trace r it cur)\<rparr>)"

definition Trace_Items :: "Trace \<Rightarrow> ResolveTrace list" where
  "Trace_Items t = List.map_filter (tr_items t) (tr_ord t)"

definition traceVar :: "Resolver \<Rightarrow> ResolveTrace \<Rightarrow> rstate \<Rightarrow> rstate" where
  "traceVar r it s = s\<lparr>rs_trace := map_option (Trace_Add r it) (rs_trace s)\<rparr>"

section \<open>Lookup\<close>

record lookupHit =
  lh_val :: VarValue
  lh_template :: bool
  lh_idx :: nat
  lh_subject :: string
  lh_sources :: "string list"

definition hit_key :: "Resolver \<Rightarrow> lookupHit \<Rightarrow> variableKey" where
  "hit_key r h = (lh_idx h, NameKey (rv_lower r) (lh_subject h))"

definition providerLabel :: "provider \<Rightarrow> string" where
  "providerLabel p = (let label = trim_white (pv_Label p) in if label = [] then ''provider'' else label)"

text \<open>What a provider finds: \<open>Panic\<close> where the code slices the name out of its range.\<close>

datatype found = NotFound | FoundAs VarValue string | SlicePanic

definition direct :: "string \<Rightarrow> provider \<Rightarrow> found" where
  "direct name p = (case pv_lookup p name of None \<Rightarrow> NotFound | Some v \<Rightarrow> FoundAs v name)"

definition before_colon :: "string \<Rightarrow> string" where
  "before_colon label = (if CHR '':'' \<in> set label then trim_white (takeWhile (\<lambda>c. c \<noteq> CHR '':'') label) else label)"

definition lookupPrefixed :: "Resolver \<Rightarrow> string \<Rightarrow> provider \<Rightarrow> found" where
  "lookupPrefixed r name p =
     (let label = before_colon (trim_white (rv_lower r (pv_Label p))) in
      if label = [] \<or> \<not> has_prefix (rv_lower r name) (label @ ''.'') then NotFound
      else if length name < length label + 1 then SlicePanic
      else let subject = trim_white (drop (length label + 1) name) in
        if subject = [] then NotFound
        else case pv_lookup p subject of None \<Rightarrow> NotFound | Some v \<Rightarrow> FoundAs v subject)"

text \<open>The first provider that finds the name; with a trace also the labels of all that do.\<close>

fun lookup_loop :: "(provider \<Rightarrow> found) \<Rightarrow> bool \<Rightarrow> nat \<Rightarrow> provider list \<Rightarrow> lookupHit option \<Rightarrow> lookupHit option option" where
  "lookup_loop look traced i [] hit = Some hit"
| "lookup_loop look traced i (p # ps) hit =
     (case look p of
        SlicePanic \<Rightarrow> None
      | NotFound \<Rightarrow> lookup_loop look traced (i + 1) ps hit
      | FoundAs v subject \<Rightarrow>
         (case hit of
            None \<Rightarrow>
              (let h = \<lparr>lh_val = v, lh_template = pv_template p, lh_idx = i, lh_subject = subject, lh_sources = []\<rparr> in
               if \<not> traced then Some (Some h)
               else lookup_loop look traced (i + 1) ps (Some (h\<lparr>lh_sources := [providerLabel p]\<rparr>)))
          | Some h \<Rightarrow> lookup_loop look traced (i + 1) ps (Some (h\<lparr>lh_sources := lh_sources h @ [providerLabel p]\<rparr>))))"

definition lookupValue :: "Resolver \<Rightarrow> bool \<Rightarrow> string \<Rightarrow> lookupHit option option" where
  "lookupValue r traced name =
     (case lookup_loop (direct name) traced 0 (rv_providers r) None of
        None \<Rightarrow> None
      | Some (Some h) \<Rightarrow> Some (Some h)
      | Some None \<Rightarrow>
          if CHR ''.'' \<in> set name then lookup_loop (lookupPrefixed r name) traced 0 (rv_providers r) None else Some None)"

definition traceHit :: "Resolver \<Rightarrow> string \<Rightarrow> lookupHit \<Rightarrow> string \<Rightarrow> bool \<Rightarrow> rstate \<Rightarrow> rstate" where
  "traceHit r name hit value missing s =
     (case lh_sources hit of
        [] \<Rightarrow> s
      | src # shadowed \<Rightarrow> traceVar r \<lparr>rt_Name = name, rt_Source = src, rt_Value = value, rt_Shadowed = shadowed, rt_Uses = 1,
          rt_Missing = missing, rt_Dynamic = False\<rparr> s)"

section \<open>Expansion\<close>

record expandState =
  ex_names :: "variableKey list"
  ex_stack :: "string list"

definition maxExpandDepth :: nat where
  "maxExpandDepth = 16"

definition checkExpandState :: "string \<Rightarrow> variableKey \<Rightarrow> expandState option \<Rightarrow> rerr option" where
  "checkExpandState name key st0 =
     (case st0 of
        None \<Rightarrow> None
      | Some st \<Rightarrow>
         (let chain = str_join '' -> '' (ex_stack st @ [name]) in
          if key \<in> set (ex_names st) then Some (CycleErr chain)
          else if length (ex_stack st) \<ge> maxExpandDepth then Some (DepthErr chain)
          else None))"

definition push_expand :: "string \<Rightarrow> variableKey \<Rightarrow> expandState option \<Rightarrow> expandState" where
  "push_expand name key st0 =
     (case st0 of
        None \<Rightarrow> \<lparr>ex_names = [key], ex_stack = [name]\<rparr>
      | Some st \<Rightarrow> \<lparr>ex_names = key # ex_names st, ex_stack = ex_stack st @ [name]\<rparr>)"

definition memoize :: "memoKey \<Rightarrow> string \<Rightarrow> rstate \<Rightarrow> string \<times> rstate" where
  "memoize key candidate s =
     (case rs_memo s key of
        Some v \<Rightarrow> (v, s)
      | None \<Rightarrow> (candidate, s\<lparr>rs_memo := (rs_memo s)(key \<mapsto> candidate)\<rparr>))"

definition PreferStructural :: "rerr option \<Rightarrow> rerr \<Rightarrow> rerr option" where
  "PreferStructural firstErr err =
     (case firstErr of None \<Rightarrow> Some err | Some e \<Rightarrow> if \<not> is_undef err \<and> is_undef e then Some err else Some e)"

definition eval_expr :: "Resolver \<Rightarrow> string \<Rightarrow> ExprPos \<Rightarrow> bool \<Rightarrow> rstate \<Rightarrow> (rerr + string) \<times> rstate" where
  "eval_expr r name pos allowExpr s =
     (if \<not> allowExpr then (Inl ExprNotAllowed, s)
      else let expr = trim_white (drop 1 name) in
        if expr = [] then (Inl EmptyExpr, s)
        else case rv_expr r of
          None \<Rightarrow> (Inl ExprNotEnabled, s)
        | Some fn \<Rightarrow> (fn (rs_calls s) expr pos, s\<lparr>rs_calls := rs_calls s + 1\<rparr>))"

definition undefined_name :: "Resolver \<Rightarrow> string \<Rightarrow> rstate \<Rightarrow> (rerr + string) \<times> rstate" where
  "undefined_name r name s = (Inl (Undefined name), traceVar r \<lparr>rt_Name = name, rt_Source = [], rt_Value = [],
     rt_Shadowed = [], rt_Uses = 1, rt_Missing = True, rt_Dynamic = False\<rparr> s)"

text \<open>The expansions still possible below a chain of references, which is the measure of the recursion.\<close>

definition depth_left :: "expandState option \<Rightarrow> nat" where
  "depth_left st0 = (case st0 of None \<Rightarrow> maxExpandDepth + 2 | Some st \<Rightarrow> maxExpandDepth + 1 - length (ex_stack st))"

lemma depth_push: "checkExpandState name key st = None \<Longrightarrow> depth_left (Some (push_expand name key st)) < depth_left st"
  by (auto simp: checkExpandState_def push_expand_def depth_left_def Let_def split: option.splits if_split_asm)

text \<open>
  \<open>resolve\<close>, \<open>resolveName\<close> and the loop of \<open>renderResult\<close>, whose accumulator is the text so far, the error to report and
  whether a variable was undefined. A result \<open>Inr None\<close> of \<open>resolve\<close> is a name that is not found.
\<close>

function (sequential)
  resolve :: "Resolver \<Rightarrow> string \<Rightarrow> ExprPos \<Rightarrow> bool \<Rightarrow> bool \<Rightarrow> expandState option \<Rightarrow> rstate \<Rightarrow> (rerr + string option) \<times> rstate"
and resolveName :: "Resolver \<Rightarrow> string \<Rightarrow> ExprPos \<Rightarrow> bool \<Rightarrow> bool \<Rightarrow> expandState option \<Rightarrow> rstate \<Rightarrow> (rerr + string) \<times> rstate"
and render_loop :: "Resolver \<Rightarrow> tplSeg list \<Rightarrow> ExprPos \<Rightarrow> bool \<Rightarrow> bool \<Rightarrow> expandState option \<Rightarrow>
    string \<times> rerr option \<times> bool \<Rightarrow> rstate \<Rightarrow> (string \<times> rerr option \<times> bool) \<times> rstate" where
  "resolve r name0 pos allowDynamic allowExpr st s =
     (let name = trim_white name0 in
      if name = [] then (Inr None, s)
      else case lookupValue r (rs_trace s \<noteq> None) name of
        None \<Rightarrow> (Inr None, s\<lparr>rs_panic := True\<rparr>)
      | Some None \<Rightarrow> (Inr None, s)
      | Some (Some hit) \<Rightarrow>
         (if vv_Missing (lh_val hit) then (Inr None, traceHit r name hit [] True s)
          else if \<not> vv_Final (lh_val hit) \<and> lh_template hit \<and> HasPlaceholder (vv_Text (lh_val hit)) then
            (let variable = hit_key r hit; key = (variable, allowDynamic, allowExpr) in
             case checkExpandState name variable st of
               Some e \<Rightarrow> (Inl e, s)
             | None \<Rightarrow>
                (case rs_memo s key of
                   Some v \<Rightarrow> (Inr (Some v), traceHit r name hit v False s)
                 | None \<Rightarrow>
                    (case render_loop r (CompileTemplate (vv_Text (lh_val hit))) pos allowDynamic allowExpr
                        (Some (push_expand name variable st)) ([], None, False) s of
                       ((out, Some e, _), s1) \<Rightarrow> (Inl (ExpandErr name e), s1)
                     | ((out, None, _), s1) \<Rightarrow>
                        (case memoize key out s1 of (v, s2) \<Rightarrow> (Inr (Some v), traceHit r name hit v False s2)))))
          else (Inr (Some (vv_Text (lh_val hit))), traceHit r name hit (vv_Text (lh_val hit)) False s)))"
| "resolveName r name pos allowDynamic allowExpr st s =
     (if has_prefix name ''='' then eval_expr r name pos allowExpr s
      else if allowDynamic \<and> has_prefix name ''$'' then
        (case resolve r name pos allowDynamic allowExpr st s of
           (Inl e, s1) \<Rightarrow> (Inl e, s1)
         | (Inr (Some v), s1) \<Rightarrow> (Inr v, s1)
         | (Inr None, s1) \<Rightarrow>
            (case rv_dynamic r (rs_calls s1) name of
               Some (Inr built) \<Rightarrow> (Inr built, traceVar r \<lparr>rt_Name = name, rt_Source = ''dynamic'', rt_Value = built,
                  rt_Shadowed = [], rt_Uses = 1, rt_Missing = False, rt_Dynamic = True\<rparr> (s1\<lparr>rs_calls := rs_calls s1 + 1\<rparr>))
             | Some (Inl e) \<Rightarrow> (Inl e, s1\<lparr>rs_calls := rs_calls s1 + 1\<rparr>)
             | None \<Rightarrow>
                (case resolve r name pos allowDynamic allowExpr st (s1\<lparr>rs_calls := rs_calls s1 + 1\<rparr>) of
                   (Inl e, s2) \<Rightarrow> (Inl e, s2)
                 | (Inr (Some v), s2) \<Rightarrow> (Inr v, s2)
                 | (Inr None, s2) \<Rightarrow> undefined_name r name s2)))
      else
        (case resolve r name pos allowDynamic allowExpr st s of
           (Inl e, s1) \<Rightarrow> (Inl e, s1)
         | (Inr (Some v), s1) \<Rightarrow> (Inr v, s1)
         | (Inr None, s1) \<Rightarrow> undefined_name r name s1))"
| "render_loop r [] pos allowDynamic allowExpr st acc s = (acc, s)"
| "render_loop r (g # gs) pos allowDynamic allowExpr st (out, firstErr, undef) s =
     (if \<not> sg_ph g \<or> sg_name g = [] then render_loop r gs pos allowDynamic allowExpr st (out @ sg_text g, firstErr, undef) s
      else case resolveName r (sg_name g) pos allowDynamic allowExpr st s of
        (Inr v, s1) \<Rightarrow> render_loop r gs pos allowDynamic allowExpr st (out @ v, firstErr, undef) s1
      | (Inl e, s1) \<Rightarrow>
          render_loop r gs pos allowDynamic allowExpr st
            (out @ sg_text g,
             if st = None \<and> rv_lenient r \<and> is_undef e then firstErr else PreferStructural firstErr e,
             undef \<or> is_undef e) s1)"
  by pat_completeness auto
termination
proof (relation "measures [\<lambda>x. case x of Inl (r, n, p, d, e, st, s) \<Rightarrow> depth_left st
    | Inr (Inl (r, n, p, d, e, st, s)) \<Rightarrow> depth_left st | Inr (Inr (r, gs, p, d, e, st, a, s)) \<Rightarrow> depth_left st,
    \<lambda>x. case x of Inl _ \<Rightarrow> 0 | Inr (Inl _) \<Rightarrow> 1 | Inr (Inr (r, gs, p, d, e, st, a, s)) \<Rightarrow> 2 + length gs]", goal_cases)
qed (auto simp: depth_push)

declare resolve.simps [simp del] resolveName.simps [simp del]

section \<open>Rendering\<close>

record Expansion =
  xn_Value :: string
  xn_HasUndefined :: bool

definition renderResult :: "Resolver \<Rightarrow> tplSeg list \<Rightarrow> ExprPos \<Rightarrow> bool \<Rightarrow> bool \<Rightarrow> rstate \<Rightarrow> (Expansion \<times> rerr option) \<times> rstate" where
  "renderResult r t pos allowDynamic allowExpr s =
     (case render_loop r t pos allowDynamic allowExpr None ([], None, False) s of
        ((out, err, undef), s1) \<Rightarrow> ((\<lparr>xn_Value = out, xn_HasUndefined = undef\<rparr>, err), s1))"

definition ExpandTemplatesResult :: "Resolver \<Rightarrow> string \<Rightarrow> rstate \<Rightarrow> (Expansion \<times> rerr option) \<times> rstate" where
  "ExpandTemplatesResult r input s = renderResult r (CompileTemplate input) (rv_exprPos r) True True s"

definition ExpandTemplates :: "Resolver \<Rightarrow> string \<Rightarrow> rstate \<Rightarrow> (string \<times> rerr option) \<times> rstate" where
  "ExpandTemplates r input s = (case ExpandTemplatesResult r input s of ((x, err), s1) \<Rightarrow> ((xn_Value x, err), s1))"

definition ExpandTemplatesAt :: "Resolver \<Rightarrow> string \<Rightarrow> ExprPos \<Rightarrow> rstate \<Rightarrow> (string \<times> rerr option) \<times> rstate" where
  "ExpandTemplatesAt r input pos s =
     (case renderResult r (CompileTemplate input) pos True True s of ((x, err), s1) \<Rightarrow> ((xn_Value x, err), s1))"

definition ExpandTemplatesStatic :: "Resolver \<Rightarrow> string \<Rightarrow> rstate \<Rightarrow> (string \<times> rerr option) \<times> rstate" where
  "ExpandTemplatesStatic r input s =
     (case renderResult r (CompileTemplate input) (rv_exprPos r) False False s of ((x, err), s1) \<Rightarrow> ((xn_Value x, err), s1))"

definition Resolve :: "Resolver \<Rightarrow> string \<Rightarrow> rstate \<Rightarrow> string option \<times> rstate" where
  "Resolve r name s = (case resolve r name (rv_exprPos r) True True None s of (Inl e, s1) \<Rightarrow> (None, s1) | (Inr v, s1) \<Rightarrow> (v, s1))"

definition Lenient :: "Resolver \<Rightarrow> Resolver" where
  "Lenient r = r\<lparr>rv_lenient := True\<rparr>"

definition WithExprEval :: "Resolver \<Rightarrow> (nat \<Rightarrow> string \<Rightarrow> ExprPos \<Rightarrow> rerr + string) option \<Rightarrow> Resolver" where
  "WithExprEval r fn = r\<lparr>rv_expr := fn\<rparr>"

definition WithProviders :: "Resolver \<Rightarrow> provider list \<Rightarrow> Resolver" where
  "WithProviders r ps = r\<lparr>rv_providers := ps\<rparr>"

definition new_state :: "bool \<Rightarrow> rstate" where
  "new_state traced = \<lparr>rs_memo = (\<lambda>_. None), rs_trace = (if traced then Some \<lparr>tr_ord = [], tr_items = (\<lambda>_. None)\<rparr> else None),
     rs_calls = 0, rs_panic = False\<rparr>"

section \<open>Providers over maps of names\<close>

definition map_provider :: "(string \<Rightarrow> string) \<Rightarrow> string \<Rightarrow> string NameMap \<Rightarrow> bool \<Rightarrow> provider" where
  "map_provider lower label values template = \<lparr>pv_lookup = (\<lambda>n. map_option (\<lambda>t. \<lparr>vv_Text = t, vv_Missing = False, vv_Final = False\<rparr>)
     (nm_Get lower n values)), pv_Label = label, pv_template = template\<rparr>"

definition value_map_provider :: "(string \<Rightarrow> string) \<Rightarrow> string \<Rightarrow> VarValue NameMap \<Rightarrow> bool \<Rightarrow> provider" where
  "value_map_provider lower label values template =
     \<lparr>pv_lookup = (\<lambda>n. nm_Get lower n values), pv_Label = label, pv_template = template\<rparr>"

definition NewMapProvider :: "(string \<Rightarrow> string) \<Rightarrow> string \<Rightarrow> string smap \<Rightarrow> provider" where
  "NewMapProvider lower label values = map_provider lower label (CollectNames lower values) False"

definition NewTemplateProvider :: "(string \<Rightarrow> string) \<Rightarrow> string \<Rightarrow> string smap \<Rightarrow> provider" where
  "NewTemplateProvider lower label values = map_provider lower label (CollectNames lower values) True"

definition NewValueMapProvider :: "(string \<Rightarrow> string) \<Rightarrow> string \<Rightarrow> VarValue NameMap \<Rightarrow> provider" where
  "NewValueMapProvider lower label values = value_map_provider lower label values False"

definition NewValueMapTemplateProvider :: "(string \<Rightarrow> string) \<Rightarrow> string \<Rightarrow> VarValue NameMap \<Rightarrow> provider" where
  "NewValueMapTemplateProvider lower label values = value_map_provider lower label values True"

end
