(* ===== verification/VarsResolverProps.thy ===== *)
theory VarsResolverProps
  imports VarsResolver
begin

text \<open>
  What the resolver promises: lenient rendering differs from strict rendering in nothing but the errors of undefined
  names; expanded values stay; and the memo table, the traces and the order of the work do not show in the texts, which
  are those of plain recursive substitution.
\<close>

section \<open>Lenient rendering\<close>

abbreviation with_lenient :: "bool \<Rightarrow> Resolver \<Rightarrow> Resolver" where
  "with_lenient b r \<equiv> r\<lparr>rv_lenient := b\<rparr>"

named_theorems lenient_free

lemma lenient_names [lenient_free]: "hit_key (with_lenient b r) = hit_key r"
  by (intro ext) (simp add: hit_key_def)

lemma lenient_trace [lenient_free]: "traceVar (with_lenient b r) = traceVar r" "traceHit (with_lenient b r) = traceHit r"
proof -
  have a: "add_shadowed (with_lenient b r) = add_shadowed r" by (intro ext) (simp add: add_shadowed_def)
  have m: "merge_trace (with_lenient b r) = merge_trace r" by (intro ext) (simp only: merge_trace_def a)
  have t: "Trace_Add (with_lenient b r) = Trace_Add r" 
  proof (intro ext)
    fix it t
    have f: "rv_lower (with_lenient b r) = rv_lower r" by simp
    show "Trace_Add (with_lenient b r) it t = Trace_Add r it t" by (simp only: Trace_Add_def m f)
  qed
  show v: "traceVar (with_lenient b r) = traceVar r" by (intro ext) (simp only: traceVar_def t)
  show "traceHit (with_lenient b r) = traceHit r" by (intro ext) (simp only: traceHit_def v)
qed

lemma lenient_lookup [lenient_free]: "lookupValue (with_lenient b r) = lookupValue r"
proof -
  have f: "rv_lower (with_lenient b r) = rv_lower r" "rv_providers (with_lenient b r) = rv_providers r" by simp_all
  have p: "lookupPrefixed (with_lenient b r) = lookupPrefixed r" by (intro ext) (simp only: lookupPrefixed_def f)
  show ?thesis by (intro ext) (simp only: lookupValue_def p f)
qed

lemma lenient_other [lenient_free]:
  "eval_expr (with_lenient b r) = eval_expr r" "undefined_name (with_lenient b r) = undefined_name r"
  "rv_dynamic (with_lenient b r) = rv_dynamic r"
proof -
  have f: "rv_expr (with_lenient b r) = rv_expr r" by simp
  show "eval_expr (with_lenient b r) = eval_expr r" by (intro ext) (simp only: eval_expr_def f)
  show "undefined_name (with_lenient b r) = undefined_name r" by (intro ext) (simp only: undefined_name_def lenient_trace)
qed simp

lemma lenient_below_root:
  "resolve (with_lenient b r) n p d e st s = resolve r n p d e st s"
  "resolveName (with_lenient b r) n p d e st s = resolveName r n p d e st s"
  "st \<noteq> None \<longrightarrow> render_loop (with_lenient b r) gs p d e st acc s = render_loop r gs p d e st acc s"
proof (induction r n p d e st s and r n p d e st s and r gs p d e st acc s rule: resolve_resolveName_render_loop.induct)
  case (1 r name0 pos d e st s)
  show ?case
    unfolding resolve.simps[of "with_lenient b r"] resolve.simps[of r] lenient_free Let_def
    by (auto simp: 1 split: option.split)
next
  case (2 r name pos d e st s)
  then show ?case
    unfolding resolveName.simps[of "with_lenient b r"] resolveName.simps[of r] lenient_free Let_def
    by (auto simp: 2 split: option.split sum.split prod.split)
next
  case (3 r pos d e st acc s)
  then show ?case by simp
next
  case (4 r g gs pos d e st out err u s)
  then show ?case by (auto split: sum.split prod.split)
qed

definition without_undefined :: "rerr option \<Rightarrow> rerr option" where
  "without_undefined err = (case err of None \<Rightarrow> None | Some e \<Rightarrow> if is_undef e then None else Some e)"

lemma lenient_loop:
  "render_loop (with_lenient False r) gs p d e None (out, err, u) s = ((out1, err1, u1), s1) \<Longrightarrow>
   render_loop (with_lenient True r) gs p d e None (out, without_undefined err, u) s = ((out1, without_undefined err1, u1), s1)"
proof (induction gs arbitrary: out err u s)
  case Nil
  then show ?case by simp
next
  case (Cons g gs)
  show ?case
  proof (cases "\<not> sg_ph g \<or> sg_name g = []")
    case True
    then show ?thesis using Cons by simp
  next
    case False
    obtain res s2 where res: "resolveName r (sg_name g) p d e None s = (res, s2)" by (meson surj_pair)
    show ?thesis
    proof (cases res)
      case (Inr v)
      then show ?thesis using Cons False res by (simp add: lenient_below_root)
    next
      case (Inl x)
      have "without_undefined (PreferStructural err x) =
          (if is_undef x then without_undefined err else PreferStructural (without_undefined err) x)"
        by (auto simp: without_undefined_def PreferStructural_def split: option.split)
      from Cons.prems False res Inl have
        "render_loop (with_lenient False r) gs p d e None (out @ sg_text g, PreferStructural err x, u \<or> is_undef x) s2 = ((out1, err1, u1), s1)"
        by (simp add: lenient_below_root)
      from Cons.IH[OF this] show ?thesis using False res Inl \<open>without_undefined (PreferStructural err x) = _\<close>
        by (simp add: lenient_below_root)
    qed
  qed
qed

lemma strict_errors:
  "render_loop r gs p d e st (out, err, u) s = ((out1, err1, u1), s1) \<Longrightarrow> \<not> rv_lenient r \<or> st \<noteq> None \<Longrightarrow>
   (err1 = None \<longrightarrow> err = None \<and> u1 = u) \<and> ((\<forall>x. err = Some x \<and> is_undef x \<longrightarrow> u) \<longrightarrow> (\<forall>x. err1 = Some x \<and> is_undef x \<longrightarrow> u1))"
proof (induction gs arbitrary: out err u s)
  case Nil
  then show ?case by auto
next
  case (Cons g gs)
  obtain res s2 where res: "resolveName r (sg_name g) p d e st s = (res, s2)" by (meson surj_pair)
  show ?case
  proof (cases "(\<not> sg_ph g \<or> sg_name g = []) \<or> (\<exists>v. res = Inr v)")
    case True
    then obtain out' s' where "render_loop r gs p d e st (out', err, u) s' = ((out1, err1, u1), s1)"
      using Cons.prems(1) res by (cases "\<not> sg_ph g \<or> sg_name g = []") auto
    from Cons.IH[OF this Cons.prems(2)] show ?thesis .
  next
    case False
    then obtain x where x: "res = Inl x" by (cases res) auto
    from Cons.prems False res x have r:
      "render_loop r gs p d e st (out @ sg_text g, PreferStructural err x, u \<or> is_undef x) s2 = ((out1, err1, u1), s1)"
      by auto
    have n: "PreferStructural err x \<noteq> None" by (simp add: PreferStructural_def split: option.split)
    have "(\<forall>x. err = Some x \<and> is_undef x \<longrightarrow> u) \<Longrightarrow> PreferStructural err x = Some y \<Longrightarrow> is_undef y \<Longrightarrow> u \<or> is_undef x" for y
      by (auto simp: PreferStructural_def split: option.split_asm if_split_asm)
    with Cons.IH[OF r Cons.prems(2)] n show ?thesis by blast
  qed
qed

text \<open>
  A lenient resolver gives the same text and the same state as a strict one, whatever the template, and the same error
  unless that is of an undefined name, which it does not report; the strict one succeeds exactly when the lenient one
  reports no error and no undefined name.
\<close>

theorem lenient_is_strict_without_undefined:
  "(case ExpandTemplatesResult (with_lenient False r) input s of ((x, err), s1) \<Rightarrow>
     ExpandTemplatesResult (Lenient r) input s = ((x, without_undefined err), s1) \<and>
     (err = None \<longleftrightarrow> without_undefined err = None \<and> \<not> xn_HasUndefined x))"
proof -
  obtain out err u s1 where run: "render_loop (with_lenient False r) (CompileTemplate input) (rv_exprPos r) True True None
      ([], None, False) s = ((out, err, u), s1)" by (metis surj_pair)
  have l: "render_loop (with_lenient True r) (CompileTemplate input) (rv_exprPos r) True True None
      ([], None, False) s = ((out, without_undefined err, u), s1)"
    using lenient_loop[OF run] by (simp add: without_undefined_def)
  have "err = None \<longleftrightarrow> without_undefined err = None \<and> \<not> u"
    using strict_errors[OF run] by (cases err) (auto simp: without_undefined_def split: if_split_asm)
  with run l show ?thesis by (simp add: ExpandTemplatesResult_def renderResult_def Lenient_def)
qed

section \<open>Expanded values stay\<close>

text \<open>What every step keeps: the entries of the memo table, whether there is a trace, and a panic.\<close>

definition later :: "rstate \<Rightarrow> rstate \<Rightarrow> bool" where
  "later s s' \<longleftrightarrow> rs_memo s \<subseteq>\<^sub>m rs_memo s' \<and> (rs_trace s' = None \<longleftrightarrow> rs_trace s = None) \<and> (rs_panic s \<longrightarrow> rs_panic s')"

lemma later_refl [simp, intro]: "later s s"
  by (simp add: later_def)

lemma later_trans: "later a b \<Longrightarrow> later b c \<Longrightarrow> later a c"
  by (auto simp: later_def intro: map_le_trans)

lemma later_trace [simp]: "later s (traceVar r it s') \<longleftrightarrow> later s s'" "later s (traceHit r n h v m s') \<longleftrightarrow> later s s'"
  by (auto simp: later_def traceVar_def traceHit_def split: list.split)

lemma later_upd [simp]: "later s s' \<Longrightarrow> later s (s'\<lparr>rs_calls := k\<rparr>)" "later s s' \<Longrightarrow> later s (s'\<lparr>rs_panic := True\<rparr>)"
  by (auto simp: later_def)

lemma later_memoize: "memoize key c s = (v, s') \<Longrightarrow> later s s' \<and> rs_memo s' key = Some v"
  by (auto simp: later_def memoize_def map_le_def split: option.split_asm)

lemma later_undefined: "undefined_name r n s = (x, s') \<Longrightarrow> later s s'"
  by (auto simp: undefined_name_def)

lemma later_eval: "eval_expr r n p e s = (x, s') \<Longrightarrow> later s s'"
  by (auto simp: eval_expr_def Let_def split: if_split_asm option.split_asm)

text \<open>The ways of a lookup and of a name, each with the run below it.\<close>

abbreviation expandable :: "lookupHit \<Rightarrow> bool" where
  "expandable hit \<equiv> \<not> vv_Missing (lh_val hit) \<and> \<not> vv_Final (lh_val hit) \<and> lh_template hit \<and> HasPlaceholder (vv_Text (lh_val hit))"

lemma resolve_ways:
  assumes "resolve r n p d e st s = (res, s')"
  obtains
    (blank) "trim_white n = []" "res = Inr None" "s' = s"
  | (panic) "lookupValue r (rs_trace s \<noteq> None) (trim_white n) = None" "res = Inr None" "s' = s\<lparr>rs_panic := True\<rparr>"
  | (nowhere) "lookupValue r (rs_trace s \<noteq> None) (trim_white n) = Some None" "res = Inr None" "s' = s"
  | (missing) hit where "lookupValue r (rs_trace s \<noteq> None) (trim_white n) = Some (Some hit)" "vv_Missing (lh_val hit)"
      "res = Inr None" "s' = traceHit r (trim_white n) hit [] True s"
  | (plain) hit where "lookupValue r (rs_trace s \<noteq> None) (trim_white n) = Some (Some hit)" "\<not> vv_Missing (lh_val hit)"
      "\<not> expandable hit" "res = Inr (Some (vv_Text (lh_val hit)))" "s' = traceHit r (trim_white n) hit (vv_Text (lh_val hit)) False s"
  | (refused) x where "res = Inl x" "s' = s"
  | (pinned) hit v where "lookupValue r (rs_trace s \<noteq> None) (trim_white n) = Some (Some hit)" "expandable hit"
      "rs_memo s (hit_key r hit, d, e) = Some v" "res = Inr (Some v)" "s' = traceHit r (trim_white n) hit v False s"
  | (expanded) hit out er u s1 where "trim_white n \<noteq> []" "lookupValue r (rs_trace s \<noteq> None) (trim_white n) = Some (Some hit)" "expandable hit"
      "checkExpandState (trim_white n) (hit_key r hit) st = None" "rs_memo s (hit_key r hit, d, e) = None"
      "render_loop r (CompileTemplate (vv_Text (lh_val hit))) p d e
         (Some (push_expand (trim_white n) (hit_key r hit) st)) ([], None, False) s = ((out, er, u), s1)"
      "case er of Some x \<Rightarrow> res = Inl (ExpandErr (trim_white n) x) \<and> s' = s1
       | None \<Rightarrow> \<exists>v s2. memoize (hit_key r hit, d, e) out s1 = (v, s2) \<and> res = Inr (Some v) \<and> s' = traceHit r (trim_white n) hit v False s2"
proof -
  note eq = assms[unfolded resolve.simps[of r] Let_def]
  consider "trim_white n = []" | "trim_white n \<noteq> []" "lookupValue r (rs_trace s \<noteq> None) (trim_white n) = None"
    | "trim_white n \<noteq> []" "lookupValue r (rs_trace s \<noteq> None) (trim_white n) = Some None"
    | hit where "trim_white n \<noteq> []" "lookupValue r (rs_trace s \<noteq> None) (trim_white n) = Some (Some hit)"
    by (metis option.exhaust)
  then show thesis
  proof cases
    case 1
    show ?thesis by (rule blank[OF 1]) (use 1 eq in simp_all)
  next
    case 2
    show ?thesis by (rule panic[OF 2(2)]) (use 2 eq in simp_all)
  next
    case 3
    show ?thesis by (rule nowhere[OF 3(2)]) (use 3 eq in simp_all)
  next
    case 4
    note l = this
    show ?thesis
    proof (cases "vv_Missing (lh_val hit)")
      case True
      show ?thesis by (rule missing[OF l(2) True]) (use l eq True in simp_all)
    next
      case m: False
      show ?thesis
      proof (cases "expandable hit")
        case False
        show ?thesis by (rule plain[OF l(2) m False]) (use l eq m False in auto)
      next
        case x: True
        show ?thesis
        proof (cases "checkExpandState (trim_white n) (hit_key r hit) st")
          case (Some err)
          show ?thesis by (rule refused[of err]) (use l eq x Some in simp_all)
        next
          case c: None
          show ?thesis
          proof (cases "rs_memo s (hit_key r hit, d, e)")
            case (Some v)
            show ?thesis by (rule pinned[OF l(2) x Some]) (use l eq x c Some in simp_all)
          next
            case None
            obtain out er u s1 where run: "render_loop r (CompileTemplate (vv_Text (lh_val hit))) p d e
                (Some (push_expand (trim_white n) (hit_key r hit) st)) ([], None, False) s = ((out, er, u), s1)" by (metis surj_pair)
            obtain v s2 where mem: "memoize (hit_key r hit, d, e) out s1 = (v, s2)" by (meson surj_pair)
            show ?thesis by (rule expanded[OF l x c None run]) (use l eq x c None run mem in \<open>cases er; simp\<close>)
          qed
        qed
      qed
    qed
  qed
qed

definition settle :: "Resolver \<Rightarrow> string \<Rightarrow> (rerr + string option) \<times> rstate \<Rightarrow> (rerr + string) \<times> rstate" where
  "settle r name x = (case x of (Inl e, s) \<Rightarrow> (Inl e, s) | (Inr (Some v), s) \<Rightarrow> (Inr v, s) | (Inr None, s) \<Rightarrow> undefined_name r name s)"

lemma resolveName_ways:
  assumes "resolveName r n p d e st s = (res, s')"
  obtains
    (expression) "has_prefix n ''=''" "eval_expr r n p e s = (res, s')"
  | (helper) s1 v where "\<not> has_prefix n ''=''" "d" "has_prefix n ''$''" "resolve r n p d e st s = (Inr None, s1)"
      "rv_dynamic r (rs_calls s1) n = Some (Inr v)" "res = Inr v"
      "s' = traceVar r \<lparr>rt_Name = n, rt_Source = ''dynamic'', rt_Value = v, rt_Shadowed = [], rt_Uses = 1, rt_Missing = False,
          rt_Dynamic = True\<rparr> (s1\<lparr>rs_calls := rs_calls s1 + 1\<rparr>)"
  | (misused) s1 x where "\<not> has_prefix n ''=''" "d" "has_prefix n ''$''" "resolve r n p d e st s = (Inr None, s1)"
      "rv_dynamic r (rs_calls s1) n = Some (Inl x)" "res = Inl x" "s' = s1\<lparr>rs_calls := rs_calls s1 + 1\<rparr>"
  | (again) s1 where "\<not> has_prefix n ''=''" "d" "has_prefix n ''$''" "resolve r n p d e st s = (Inr None, s1)"
      "rv_dynamic r (rs_calls s1) n = None" "(res, s') = settle r n (resolve r n p d e st (s1\<lparr>rs_calls := rs_calls s1 + 1\<rparr>))"
  | (found) "\<not> has_prefix n ''=''" "d" "has_prefix n ''$''" "\<forall>s1. resolve r n p d e st s \<noteq> (Inr None, s1)"
      "(res, s') = settle r n (resolve r n p d e st s)"
  | (once) "\<not> has_prefix n ''=''" "\<not> (d \<and> has_prefix n ''$'')" "(res, s') = settle r n (resolve r n p d e st s)"
proof -
  note eq = assms[unfolded resolveName.simps[of r]]
  consider "has_prefix n ''=''" | "\<not> has_prefix n ''=''" "\<not> (d \<and> has_prefix n ''$'')" | "\<not> has_prefix n ''=''" "d \<and> has_prefix n ''$''"
    by blast
  then show thesis
  proof cases
    case 1
    then show ?thesis using eq expression by simp
  next
    case 2
    then show ?thesis using eq once by (auto simp: settle_def split: prod.splits sum.splits option.splits)
  next
    case 3
    obtain rx s1 where rx: "resolve r n p d e st s = (rx, s1)" by (meson surj_pair)
    show ?thesis
    proof (cases "rx = Inr None")
      case True
      show ?thesis
      proof (cases "rv_dynamic r (rs_calls s1) n")
        case None
        then show ?thesis using again[of s1] 3 eq rx True by (auto simp: settle_def)
      next
        case (Some y)
        then show ?thesis using helper[of s1] misused[of s1] 3 eq rx True by (cases y) auto
      qed
    next
      case False
      then show ?thesis using found 3 eq rx by (auto simp: settle_def split: sum.splits option.splits)
    qed
  qed
qed

text \<open>Induction along the expansions: below a chain the calls have longer chains.\<close>

lemma expansion_induct:
  assumes look: "\<And>n p d e st s. (\<And>hit. checkExpandState (trim_white n) (hit_key r hit) st = None \<Longrightarrow>
       P3 (CompileTemplate (vv_Text (lh_val hit))) p d e (Some (push_expand (trim_white n) (hit_key r hit) st)) ([], None, False) s) \<Longrightarrow>
       P1 n p d e st s"
    and name: "\<And>n p d e st s. (\<And>s'. P1 n p d e st s') \<Longrightarrow> P2 n p d e st s"
    and nil: "\<And>p d e st acc s. P3 [] p d e st acc s"
    and cons: "\<And>g gs p d e st acc s. (\<And>s'. P2 (sg_name g) p d e st s') \<Longrightarrow> (\<And>acc s'. P3 gs p d e st acc s') \<Longrightarrow> P3 (g # gs) p d e st acc s"
  shows "P1 n p d e st s" and "P2 n p d e st s" and "P3 gs p d e st acc s"
proof -
  have "(\<forall>n p d e s. P1 n p d e st s \<and> P2 n p d e st s) \<and> (\<forall>gs p d e acc s. P3 gs p d e st acc s)"
  proof (induction "depth_left st" arbitrary: st rule: less_induct)
    case less
    have p1: "P1 n p d e st s" for n p d e s using look less depth_push by blast
    then have p2: "P2 n p d e st s" for n p d e s using name by blast
    have "P3 gs p d e st acc s" for gs p d e acc s
      by (induction gs arbitrary: acc s) (auto intro: nil cons p2)
    with p1 p2 show ?case by blast
  qed
  then show "P1 n p d e st s" and "P2 n p d e st s" and "P3 gs p d e st acc s" by blast+
qed

lemma later_settle: "(res, s') = settle r n x \<Longrightarrow> later s (snd x) \<Longrightarrow> later s s'"
  by (cases x) (auto simp: settle_def undefined_name_def split: sum.split_asm option.split_asm)

lemma resolve_later:
  "later s (snd (resolve r n p d e st s))"
  "later s (snd (resolveName r n p d e st s))"
  "later s (snd (render_loop r gs p d e st acc s))"
proof (induction n p d e st s and n p d e st s and gs p d e st acc s rule: expansion_induct[where r = r])
  case (1 n p d e st s)
  obtain x s' where run: "resolve r n p d e st s = (x, s')" by (meson surj_pair)
  then show ?case
  proof (cases rule: resolve_ways)
    case (expanded hit out er u s1)
    from 1[OF expanded(4)] expanded(6) have s1: "later s s1" by simp
    with expanded(7) run show ?thesis by (auto split: option.split_asm dest!: later_memoize intro: later_trans)
  qed (use run in auto)
next
  case (2 n p d e st s)
  obtain x s' where run: "resolveName r n p d e st s = (x, s')" by (meson surj_pair)
  then show ?case
  proof (cases rule: resolveName_ways)
    case expression
    then show ?thesis using run by (simp add: later_eval)
  next
    case (helper s1 v)
    with 2[of s] run show ?thesis by simp
  next
    case (misused s1 x)
    with 2[of s] run show ?thesis by simp
  next
    case (again s1)
    have "later s s1" using again 2[of s] by simp
    then have "later s (snd (resolve r n p d e st (s1\<lparr>rs_calls := rs_calls s1 + 1\<rparr>)))"
      by (rule later_trans[OF later_upd(1) 2])
    then show ?thesis using later_settle[OF again(6)] run by simp
  next
    case found
    then show ?thesis using later_settle 2 run by (metis snd_conv)
  next
    case once
    then show ?thesis using later_settle 2 run by (metis snd_conv)
  qed
next
  case (3 p d e st acc s)
  then show ?case by simp
next
  case (4 g gs p d e st acc s)
  obtain out err u where acc: "acc = (out, err, u)" by (cases acc)
  obtain x s1 where r: "resolveName r (sg_name g) p d e st s = (x, s1)" by (meson surj_pair)
  with 4(1)[of s] have "later s s1" by simp
  then have "later s (snd (render_loop r gs p d e st acc s1))" for acc using 4(2) later_trans by blast
  then show ?case using 4(2) unfolding acc by (cases x) (simp_all add: r)
qed

text \<open>Work on a table: any calls by any resolvers that share it.\<close>

datatype table_call =
  Resolving Resolver string
| Expanding Resolver string
| ExpandingAt Resolver string ExprPos
| ExpandingStatic Resolver string

fun run_call :: "table_call \<Rightarrow> rstate \<Rightarrow> rstate" where
  "run_call (Resolving r n) s = snd (Resolve r n s)"
| "run_call (Expanding r input) s = snd (ExpandTemplates r input s)"
| "run_call (ExpandingAt r input pos) s = snd (ExpandTemplatesAt r input pos s)"
| "run_call (ExpandingStatic r input) s = snd (ExpandTemplatesStatic r input s)"

lemma renderResult_later: "later s (snd (renderResult r segs pos d e s))"
proof -
  have "snd (renderResult r segs pos d e s) = snd (render_loop r segs pos d e None ([], None, False) s)"
    by (auto simp: renderResult_def split: prod.split)
  then show ?thesis by (simp only: resolve_later)
qed

lemma Resolve_state: "snd (Resolve r n s) = snd (resolve r n (rv_exprPos r) True True None s)"
  by (simp add: Resolve_def split: prod.split sum.split)

lemma run_call_later: "later s (run_call w s)"
  by (cases w) (simp_all add: Resolve_state resolve_later ExpandTemplates_def ExpandTemplatesResult_def ExpandTemplatesAt_def
      ExpandTemplatesStatic_def case_prod_beta renderResult_later)

lemma run_calls_later: "later s (fold run_call work s)"
  by (induction work arbitrary: s) (auto intro: later_trans run_call_later)

text \<open>
  Two resolvers that read one declaration of a name: copies with the same providers (made by \<open>Lenient\<close> or \<open>WithExprEval\<close>),
  or resolvers (made by \<open>WithProviders\<close>) whose providers find the name under one key, both as a template or both with
  the same plain text.
\<close>

definition same_declaration :: "bool \<Rightarrow> Resolver \<Rightarrow> Resolver \<Rightarrow> string \<Rightarrow> bool" where
  "same_declaration t r r' n \<longleftrightarrow> rv_providers r' = rv_providers r \<and> rv_lower r' = rv_lower r \<or>
     (case (lookupValue r t (trim_white n), lookupValue r' t (trim_white n)) of
        (Some (Some h), Some (Some h')) \<Rightarrow> hit_key r' h' = hit_key r h \<and>
          (if expandable h then expandable h' else \<not> vv_Missing (lh_val h') \<and> \<not> expandable h' \<and> vv_Text (lh_val h') = vv_Text (lh_val h))
      | _ \<Rightarrow> False)"

lemma same_providers:
  assumes "rv_providers r' = rv_providers r" "rv_lower r' = rv_lower r"
  shows "lookupValue r' = lookupValue r" "hit_key r' = hit_key r"
proof -
  have "lookupPrefixed r' = lookupPrefixed r" by (intro ext) (simp only: lookupPrefixed_def assms)
  then show "lookupValue r' = lookupValue r" by (intro ext) (simp only: lookupValue_def assms)
  show "hit_key r' = hit_key r" by (intro ext) (simp only: hit_key_def assms)
qed

lemma derived_same_declaration:
  "same_declaration t r (Lenient r) n" "same_declaration t r (WithExprEval r fn) n"
  by (simp_all add: same_declaration_def Lenient_def WithExprEval_def)

lemma same_hit:
  assumes "same_declaration t r r' n" "lookupValue r t (trim_white n) = Some (Some h)" "\<not> vv_Missing (lh_val h)"
  obtains h' where "lookupValue r' t (trim_white n) = Some (Some h')" "hit_key r' h' = hit_key r h" "\<not> vv_Missing (lh_val h')"
    "expandable h' = expandable h" "\<not> expandable h \<Longrightarrow> vv_Text (lh_val h') = vv_Text (lh_val h)"
  using assms same_providers[of r' r] by (fastforce simp: same_declaration_def split: option.split_asm if_split_asm)

lemma resolve_pinned:
  assumes run: "resolve r n p True True None s = (Inr (Some v), s1)" and l: "later s1 s2"
    and same: "same_declaration (rs_trace s \<noteq> None) r r' n"
  shows "fst (resolve r' n p' True True None s2) = Inr (Some v)"
proof -
  have "later s s1" using resolve_later(1)[of s r n p True True None] run by simp
  then have t: "(rs_trace s2 \<noteq> None) = (rs_trace s \<noteq> None)" using l by (simp add: later_def)
  have c: "checkExpandState m k None = None" for m k by (simp add: checkExpandState_def)
  have memo: "rs_memo s1 k = Some w \<Longrightarrow> rs_memo s2 k = Some w" for k w using l unfolding later_def map_le_def by (metis domI)
  have tm: "rs_memo (traceHit r n h w m s) = rs_memo s" for n h w m s by (simp add: traceHit_def traceVar_def split: list.split)
  have ne: "trim_white n \<noteq> []" using run by (auto simp: resolve.simps[of r])
  have kept: ?thesis if hit: "lookupValue r (rs_trace s \<noteq> None) (trim_white n) = Some (Some hit)" "expandable hit"
      and m: "rs_memo s1 (hit_key r hit, True, True) = Some v" for hit
  proof -
    have "\<not> vv_Missing (lh_val hit)" using hit(2) by simp
    from same_hit[OF same hit(1) this] hit(2) obtain h' where "lookupValue r' (rs_trace s \<noteq> None) (trim_white n) = Some (Some h')"
      "hit_key r' h' = hit_key r hit" "expandable h'" by metis
    with memo[OF m] ne t show ?thesis by (simp add: resolve.simps[of r'] Let_def c)
  qed
  from run show ?thesis
  proof (cases rule: resolve_ways)
    case (plain hit)
    from same_hit[OF same plain(1,2)] plain(3,4) obtain h' where h': "lookupValue r' (rs_trace s \<noteq> None) (trim_white n) = Some (Some h')"
      "\<not> vv_Missing (lh_val h')" "\<not> expandable h'" "vv_Text (lh_val h') = v" by (metis option.inject sum.inject(2))
    with ne t show ?thesis by (auto simp: resolve.simps[of r'] Let_def)
  next
    case (pinned hit w)
    show ?thesis by (rule kept[OF pinned(1,2)]) (use pinned in \<open>simp add: tm\<close>)
  next
    case (expanded hit out er u s3)
    then obtain s4 where m: "memoize (hit_key r hit, True, True) out s3 = (v, s4)" "s1 = traceHit r (trim_white n) hit v False s4"
      by (auto split: option.split_asm)
    show ?thesis by (rule kept[OF expanded(2,3)]) (use later_memoize[OF m(1)] m(2) in \<open>simp add: tm\<close>)
  qed simp_all
qed

text \<open>
  C16: a variable keeps its value: once a name is resolved, it resolves to the same text after any calls of any resolvers that
  share the table (with other providers, evaluators or leniency, by \<open>Resolve\<close>, \<open>ExpandTemplates\<close>, \<open>ExpandTemplatesAt\<close> or
  \<open>ExpandTemplatesStatic\<close>), even where expressions and helpers inside its value would answer differently by then. The resolver
  that asks again is a copy with the same providers, as \<open>Lenient\<close> and \<open>WithExprEval\<close> make it, or one of \<open>WithProviders\<close> whose
  providers still give the name the same declaration (\<open>same_declaration\<close>).
\<close>

theorem expanded_values_are_pinned:
  assumes "fst (Resolve r n s) = Some v" and "same_declaration (rs_trace s \<noteq> None) r r' n"
  shows "fst (Resolve r' n (fold run_call work (snd (Resolve r n s)))) = Some v"
proof -
  obtain x s1 where run: "resolve r n (rv_exprPos r) True True None s = (x, s1)" by (meson surj_pair)
  have x: "x = Inr (Some v)" using assms(1) run by (cases x) (auto simp: Resolve_def)
  have s: "snd (Resolve r n s) = s1" using run by (simp add: Resolve_state)
  have "fst (resolve r' n (rv_exprPos r') True True None (fold run_call work s1)) = Inr (Some v)"
    by (rule resolve_pinned[OF run[unfolded x] run_calls_later assms(2)])
  then obtain s2 where "resolve r' n (rv_exprPos r') True True None (fold run_call work s1) = (Inr (Some v), s2)"
    by (metis prod.collapse)
  then show ?thesis unfolding s Resolve_def[of r'] by simp
qed

definition demo_resolver :: Resolver where
  "demo_resolver = \<lparr>rv_providers = [NewTemplateProvider id ''file'' [(''host'', ''h{{= n}}''), (''url'', ''//{{host}}'')]],
     rv_expr = Some (\<lambda>k e p. Inr (replicate k CHR ''1'')), rv_exprPos = \<lparr>xp_Path = [], xp_Line = 1, xp_Col = 1\<rparr>, rv_lenient = False,
     rv_lower = id, rv_fold = (=), rv_dynamic = (\<lambda>k n. None)\<rparr>"

lemma demo_url: "fst (Resolve demo_resolver ''url'' (new_state True)) = Some ''//h''"
  by code_simp

text \<open>The value is kept where another set of providers, with one more behind, is asked after another evaluator has worked.\<close>

definition demo_later :: Resolver where
  "demo_later = Lenient (WithProviders demo_resolver (rv_providers demo_resolver @ [NewMapProvider id ''env'' [(''host'', ''x'')]]))"

lemma demo_same: "same_declaration True demo_resolver demo_later ''url''"
  unfolding same_declaration_def by (rule disjI2) code_simp

theorem expanded_values_are_pinned_witness:
  "fst (Resolve demo_later ''url'' (fold run_call [Expanding (WithExprEval demo_resolver None) ''{{host}}'',
     ExpandingStatic (Lenient demo_resolver) ''{{url}}''] (snd (Resolve demo_resolver ''url'' (new_state True))))) = Some ''//h''"
  by (rule expanded_values_are_pinned[OF demo_url]) (simp add: new_state_def demo_same)

section \<open>Expansion is substitution\<close>

text \<open>Expansions of one table by copies of a resolver that differ in the evaluator of expressions.\<close>

definition expand_all :: "Resolver \<Rightarrow> ((nat \<Rightarrow> string \<Rightarrow> ExprPos \<Rightarrow> rerr + string) option \<times> string) list \<Rightarrow> rstate \<Rightarrow> rstate" where
  "expand_all r work s = fold (\<lambda>(fn, input) s. snd (ExpandTemplates (WithExprEval r fn) input s)) work s"

lemma ExpandTemplates_state: "snd (ExpandTemplates r input s) =
    snd (render_loop r (CompileTemplate input) (rv_exprPos r) True True None ([], None, False) s)"
  by (auto simp: ExpandTemplates_def ExpandTemplatesResult_def renderResult_def split: prod.split)

lemma expand_all_later: "later s (expand_all r work s)"
proof (induction work arbitrary: s)
  case Nil
  then show ?case by (simp add: expand_all_def)
next
  case (Cons w work)
  have "later s (snd (ExpandTemplates (WithExprEval r (fst w)) (snd w) s))"
    unfolding ExpandTemplates_state by (rule resolve_later)
  with Cons show ?case by (auto simp: expand_all_def case_prod_beta intro: later_trans)
qed

text \<open>
  What a template means, with neither table, chain nor trace: a placeholder is the value of the expression, of the
  variable that the providers give first, expanded in turn if its provider holds templates, or of the helper.
\<close>

definition unclaimed :: "Resolver \<Rightarrow> string \<Rightarrow> bool" where
  "unclaimed r n \<longleftrightarrow> trim_white n = [] \<or> lookupValue r False (trim_white n) = Some None \<or>
     (case lookupValue r False (trim_white n) of Some (Some hit) \<Rightarrow> vv_Missing (lh_val hit) | _ \<Rightarrow> False)"

inductive variable_is :: "Resolver \<Rightarrow> bool \<Rightarrow> bool \<Rightarrow> string \<Rightarrow> string \<Rightarrow> bool"
  and placeholder_is :: "Resolver \<Rightarrow> bool \<Rightarrow> bool \<Rightarrow> string \<Rightarrow> string \<Rightarrow> bool"
  and expands :: "Resolver \<Rightarrow> bool \<Rightarrow> bool \<Rightarrow> tplSeg list \<Rightarrow> string \<Rightarrow> bool" for r d e where
  as_given: "lookupValue r False (trim_white n) = Some (Some hit) \<Longrightarrow> \<not> vv_Missing (lh_val hit) \<Longrightarrow> \<not> expandable hit \<Longrightarrow>
    variable_is r d e n (vv_Text (lh_val hit))"
| from_template: "lookupValue r False (trim_white n) = Some (Some hit) \<Longrightarrow> expandable hit \<Longrightarrow>
    expands r d e (CompileTemplate (vv_Text (lh_val hit))) v \<Longrightarrow> variable_is r d e n v"
| of_expression: "has_prefix n ''='' \<Longrightarrow> e \<Longrightarrow> rv_expr r = Some fn \<Longrightarrow> fn k (trim_white (drop 1 n)) p = Inr v \<Longrightarrow> placeholder_is r d e n v"
| of_variable: "\<not> has_prefix n ''='' \<Longrightarrow> variable_is r d e n v \<Longrightarrow> placeholder_is r d e n v"
| of_helper: "\<not> has_prefix n ''='' \<Longrightarrow> d \<Longrightarrow> has_prefix n ''$'' \<Longrightarrow> unclaimed r n \<Longrightarrow> rv_dynamic r k n = Some (Inr v) \<Longrightarrow> placeholder_is r d e n v"
| expands_nil: "expands r d e [] []"
| expands_lit: "\<not> sg_ph g \<or> sg_name g = [] \<Longrightarrow> expands r d e gs v \<Longrightarrow> expands r d e (g # gs) (sg_text g @ v)"
| expands_ph: "sg_ph g \<Longrightarrow> sg_name g \<noteq> [] \<Longrightarrow> placeholder_is r d e (sg_name g) w \<Longrightarrow> expands r d e gs v \<Longrightarrow> expands r d e (g # gs) (w @ v)"

text \<open>Tracing reads more providers but finds the same.\<close>

lemma traced_same_from: "lookup_loop look True i ps (Some h) = Some x \<Longrightarrow> \<exists>l. x = Some (h\<lparr>lh_sources := l\<rparr>)"
proof (induction ps arbitrary: i h)
  case Nil
  then show ?case by (auto intro: exI[of _ "lh_sources h"])
next
  case (Cons p ps)
  then show ?case by (fastforce split: found.split_asm)
qed

lemma traced_same: "lookup_loop look True i ps None = Some x \<Longrightarrow> lookup_loop look False i ps None = Some (map_option (\<lambda>h. h\<lparr>lh_sources := []\<rparr>) x)"
proof (induction ps arbitrary: i)
  case Nil
  then show ?case by simp
next
  case (Cons p ps)
  then show ?case by (auto dest!: traced_same_from split: found.split_asm)
qed

lemma lookupValue_same: "lookupValue r t n = Some x \<Longrightarrow> \<exists>y. lookupValue r False n = Some y \<and> (case x of None \<Rightarrow> y = None
    | Some h \<Rightarrow> \<exists>h'. y = Some h' \<and> lh_val h' = lh_val h \<and> lh_template h' = lh_template h \<and> hit_key r h' = hit_key r h)"
proof (cases t)
  case True
  assume a: "lookupValue r t n = Some x"
  have "lookupValue r False n = Some (map_option (\<lambda>h. h\<lparr>lh_sources := []\<rparr>) x)"
  proof (cases "lookup_loop (direct n) True 0 (rv_providers r) None")
    case None
    with a True show ?thesis by (simp add: lookupValue_def)
  next
    case (Some x1)
    show ?thesis using a True Some traced_same[OF Some] traced_same[of "lookupPrefixed r n" 0 "rv_providers r" x]
      by (cases x1) (auto simp: lookupValue_def split: if_split_asm)
  qed
  then show ?thesis by (cases x) (auto simp: hit_key_def)
qed (auto split: option.split)

text \<open>The provider behind a hit.\<close>

lemma lookup_loop_hit:
  assumes "\<And>p v m. look p = FoundAs v m \<Longrightarrow> pv_lookup p m = Some v"
  shows "lookup_loop look False i ps None = Some (Some h) \<Longrightarrow> i \<le> lh_idx h \<and> lh_idx h < i + length ps \<and>
    lh_template h = pv_template (ps ! (lh_idx h - i)) \<and> pv_lookup (ps ! (lh_idx h - i)) (lh_subject h) = Some (lh_val h)"
proof (induction ps arbitrary: i)
  case Nil
  then show ?case by simp
next
  case (Cons p ps)
  show ?case
  proof (cases "look p")
    case NotFound
    with Cons.prems have "lookup_loop look False (i + 1) ps None = Some (Some h)" by simp
    from Cons.IH[OF this] show ?thesis by (auto simp: nth_Cons' Suc_diff_Suc[symmetric] le_less_Suc_eq)
  next
    case (FoundAs v m)
    with Cons.prems have "h = \<lparr>lh_val = v, lh_template = pv_template p, lh_idx = i, lh_subject = m, lh_sources = []\<rparr>"
      by (simp add: Let_def)
    with assms[OF FoundAs] show ?thesis by simp
  next
    case SlicePanic
    with Cons.prems show ?thesis by simp
  qed
qed

lemma lookup_hit:
  assumes "lookupValue r False n = Some (Some h)"
  shows "lh_idx h < length (rv_providers r)" "lh_template h = pv_template (rv_providers r ! lh_idx h)"
    "pv_lookup (rv_providers r ! lh_idx h) (lh_subject h) = Some (lh_val h)"
proof -
  have d: "direct n p = FoundAs v m \<Longrightarrow> pv_lookup p m = Some v" for p v m by (auto simp: direct_def split: option.split_asm)
  have q: "lookupPrefixed r n p = FoundAs v m \<Longrightarrow> pv_lookup p m = Some v" for p v m
    by (auto simp: lookupPrefixed_def Let_def split: option.split_asm if_split_asm)
  have "lookup_loop (direct n) False 0 (rv_providers r) None = Some (Some h) \<or>
    lookup_loop (lookupPrefixed r n) False 0 (rv_providers r) None = Some (Some h)"
    using assms by (auto simp: lookupValue_def split: option.split_asm if_split_asm)
  then show "lh_idx h < length (rv_providers r)" "lh_template h = pv_template (rv_providers r ! lh_idx h)"
    "pv_lookup (rv_providers r ! lh_idx h) (lh_subject h) = Some (lh_val h)"
    using lookup_loop_hit[of "direct n", OF d, of 0 "rv_providers r" h] lookup_loop_hit[of "lookupPrefixed r n", OF q, of 0 "rv_providers r" h]
    by auto
qed

text \<open>Template providers must not tell apart the spellings of a name: the table does not.\<close>

definition names_by_key :: "Resolver \<Rightarrow> bool" where
  "names_by_key r \<longleftrightarrow> (\<forall>p\<in>set (rv_providers r). pv_template p \<longrightarrow>
     (\<forall>n m. NameKey (rv_lower r) n = NameKey (rv_lower r) m \<longrightarrow> pv_lookup p n = pv_lookup p m))"

lemma key_decides:
  assumes "names_by_key r" "lookupValue r False n = Some (Some h)" "lookupValue r False m = Some (Some h')"
    and "hit_key r h' = hit_key r h" "lh_template h"
  shows "lh_val h' = lh_val h"
proof -
  let ?p = "rv_providers r ! lh_idx h"
  have i: "lh_idx h' = lh_idx h" and k: "NameKey (rv_lower r) (lh_subject h') = NameKey (rv_lower r) (lh_subject h)" using assms(4) by (auto simp: hit_key_def)
  have p: "?p \<in> set (rv_providers r)" "pv_template ?p" using lookup_hit[OF assms(2)] assms(5) by auto
  then have "pv_lookup ?p (lh_subject h') = pv_lookup ?p (lh_subject h)" using assms(1) k unfolding names_by_key_def by blast
  then show ?thesis using lookup_hit(3)[OF assms(2)] lookup_hit(3)[OF assms(3)] i by simp
qed

definition memo_ok :: "Resolver \<Rightarrow> rstate \<Rightarrow> bool" where
  "memo_ok r s \<longleftrightarrow> (\<forall>k d e v n hit. rs_memo s (k, d, e) = Some v \<longrightarrow> lookupValue r False n = Some (Some hit) \<longrightarrow>
     hit_key r hit = k \<longrightarrow> expandable hit \<longrightarrow> expands r d e (CompileTemplate (vv_Text (lh_val hit))) v)"

lemma memo_ok_same: "memo_ok r s \<Longrightarrow> rs_memo s' = rs_memo s \<Longrightarrow> memo_ok r s'"
  by (simp add: memo_ok_def)

lemma memo_okD: "memo_ok r s \<Longrightarrow> rs_memo s (hit_key r hit, d, e) = Some v \<Longrightarrow> lookupValue r False n = Some (Some hit) \<Longrightarrow>
    expandable hit \<Longrightarrow> expands r d e (CompileTemplate (vv_Text (lh_val hit))) v"
  unfolding memo_ok_def by blast

lemma memo_kept [simp]:
  "rs_memo (traceVar r it s) = rs_memo s" "rs_memo (traceHit r n h v m s) = rs_memo s" "rs_memo (snd (undefined_name r n s)) = rs_memo s"
  "rs_panic (traceVar r it s) = rs_panic s" "rs_panic (traceHit r n h v m s) = rs_panic s" "rs_panic (snd (undefined_name r n s)) = rs_panic s"
  by (simp_all add: traceVar_def traceHit_def undefined_name_def split: list.split)

lemma memo_ok_memoize:
  assumes "names_by_key r" "memo_ok r s" "lookupValue r False n = Some (Some hit)" "expandable hit"
    and "expands r d e (CompileTemplate (vv_Text (lh_val hit))) c" "memoize (hit_key r hit, d, e) c s = (v, s')"
  shows "memo_ok r s' \<and> expands r d e (CompileTemplate (vv_Text (lh_val hit))) v \<and> rs_panic s' = rs_panic s"
proof (cases "rs_memo s (hit_key r hit, d, e)")
  case (Some w)
  with assms(6) have "w = v" "s' = s" by (auto simp: memoize_def)
  moreover have "expands r d e (CompileTemplate (vv_Text (lh_val hit))) w"
    by (rule memo_okD[OF assms(2) Some assms(3,4)])
  ultimately show ?thesis using assms(2) by simp
next
  case None
  have same: "vv_Text (lh_val hit') = vv_Text (lh_val hit)"
    if "lookupValue r False m = Some (Some hit')" "hit_key r hit' = hit_key r hit" for m hit'
    using key_decides[OF assms(1) assms(3) that] assms(4) by simp
  have "v = c" and s': "s' = s\<lparr>rs_memo := (rs_memo s)((hit_key r hit, d, e) \<mapsto> c)\<rparr>"
    using None assms(6) by (auto simp: memoize_def)
  then have "expands r d' e' (CompileTemplate (vv_Text (lh_val hit'))) w"
    if "rs_memo s' (hit_key r hit', d', e') = Some w" "lookupValue r False m = Some (Some hit')" "expandable hit'" for d' e' w m hit'
  proof (cases "(hit_key r hit', d', e') = (hit_key r hit, d, e)")
    case True
    then show ?thesis using that assms(5) same[OF that(2)] by (simp add: s')
  next
    case False
    have "rs_memo s (hit_key r hit', d', e') = Some w"
      using that(1) fun_upd_other[OF False, of "rs_memo s"] by (simp add: s')
    then show ?thesis by (rule memo_okD[OF assms(2) _ that(2,3)])
  qed
  then show ?thesis using assms(5) \<open>v = c\<close> s' unfolding memo_ok_def by auto
qed

lemma settle_keeps: "(res, s') = settle r n x \<Longrightarrow> rs_memo s' = rs_memo (snd x) \<and> rs_panic s' = rs_panic (snd x) \<and>
    (\<forall>v. res = Inr v \<longrightarrow> fst x = Inr (Some v))"
  by (cases x) (auto simp: settle_def undefined_name_def split: sum.split_asm option.split_asm)

lemma resolveName_panic: "rs_panic s \<Longrightarrow> rs_panic (snd (resolveName r n p d e st s))"
    "rs_panic s \<Longrightarrow> rs_panic (snd (resolve r n p d e st s))" "rs_panic s \<Longrightarrow> rs_panic (snd (render_loop r gs p d e st acc s))"
  using resolve_later[of s r] by (simp_all add: later_def)

lemma errors_stay: "render_loop r gs p d e st (out, err, u) s = ((out', err', u'), s') \<Longrightarrow> err \<noteq> None \<or> st = None \<and> u \<Longrightarrow>
    err' \<noteq> None \<or> st = None \<and> u'"
proof (induction gs arbitrary: out err u s)
  case Nil
  then show ?case by simp
next
  case (Cons g gs)
  obtain x s1 where r: "resolveName r (sg_name g) p d e st s = (x, s1)" by (meson surj_pair)
  have "PreferStructural err y \<noteq> None" for y by (simp add: PreferStructural_def split: option.split)
  with Cons r show ?case by (cases x) (fastforce split: if_split_asm)+
qed

lemma resolve_substitutes:
  assumes key: "names_by_key r"
  shows "memo_ok r s \<and> \<not> rs_panic (snd (resolve r n p d e st s)) \<longrightarrow> memo_ok r (snd (resolve r n p d e st s)) \<and>
      (case fst (resolve r n p d e st s) of Inl x \<Rightarrow> True | Inr None \<Rightarrow> unclaimed r n | Inr (Some v) \<Rightarrow> variable_is r d e n v)"
    and "memo_ok r s \<and> \<not> rs_panic (snd (resolveName r n p d e st s)) \<longrightarrow> memo_ok r (snd (resolveName r n p d e st s)) \<and>
      (case fst (resolveName r n p d e st s) of Inl x \<Rightarrow> True | Inr v \<Rightarrow> placeholder_is r d e n v)"
    and "memo_ok r s \<and> \<not> rs_panic (snd (render_loop r gs p d e st acc s)) \<longrightarrow> memo_ok r (snd (render_loop r gs p d e st acc s)) \<and>
      (case (acc, fst (render_loop r gs p d e st acc s)) of ((out, err, u), (out', err', u')) \<Rightarrow>
         err' = None \<and> (st = None \<longrightarrow> \<not> u') \<longrightarrow> (\<exists>v. out' = out @ v \<and> expands r d e gs v))"
proof (induction n p d e st s and n p d e st s and gs p d e st acc s rule: expansion_induct[where r = r])
  case (1 n p d e st s)
  obtain x s' where run: "resolve r n p d e st s = (x, s')" by (meson surj_pair)
  note l = lookupValue_same[of r "rs_trace s \<noteq> None" "trim_white n"]
  have "memo_ok r s' \<and> (case x of Inl x \<Rightarrow> True | Inr None \<Rightarrow> unclaimed r n | Inr (Some v) \<Rightarrow> variable_is r d e n v)"
    if m: "memo_ok r s" and np: "\<not> rs_panic s'"
    using run
  proof (cases rule: resolve_ways)
    case blank
    then show ?thesis using m by (simp add: unclaimed_def)
  next
    case panic
    then show ?thesis using np by simp
  next
    case nowhere
    then show ?thesis using m l by (auto simp: unclaimed_def)
  next
    case (missing hit)
    then show ?thesis using memo_ok_same[OF m, of s'] l by (auto simp: unclaimed_def)
  next
    case (plain hit)
    then obtain h where "lookupValue r False (trim_white n) = Some (Some h)" "lh_val h = lh_val hit" "lh_template h = lh_template hit"
      using l by auto
    with plain as_given[of r n h d e] show ?thesis using memo_ok_same[OF m, of s'] by simp
  next
    case (refused x)
    then show ?thesis using m by simp
  next
    case (pinned hit v)
    then obtain h where h: "lookupValue r False (trim_white n) = Some (Some h)" "lh_val h = lh_val hit" "lh_template h = lh_template hit"
      "hit_key r h = hit_key r hit" using l by auto
    with pinned m have "expands r d e (CompileTemplate (vv_Text (lh_val h))) v" unfolding memo_ok_def by metis
    with h pinned from_template[of r n h d e v] show ?thesis using memo_ok_same[OF m, of s'] by simp
  next
    case (expanded hit out er u s1)
    then obtain h where h: "lookupValue r False (trim_white n) = Some (Some h)" "lh_val h = lh_val hit" "lh_template h = lh_template hit"
      "hit_key r h = hit_key r hit" using l by auto
    have x: "expandable h" using h expanded(3) by simp
    show ?thesis
    proof (cases er)
      case (Some y)
      then show ?thesis using 1[OF expanded(4)] expanded(6,7) m np by simp
    next
      case None
      with expanded(7) obtain v s2 where me: "memoize (hit_key r h, d, e) out s1 = (v, s2)" "x = Inr (Some v)"
        "s' = traceHit r (trim_white n) hit v False s2" using h by auto
      have np1: "\<not> rs_panic s1" using me np later_memoize[OF me(1)] by (auto simp: later_def)
      have "memo_ok r s1 \<and> expands r d e (CompileTemplate (vv_Text (lh_val h))) out"
        using 1[OF expanded(4)] expanded(6) None m np1 h(2) by simp
      with memo_ok_memoize[OF key _ h(1) x _ me(1)] have "memo_ok r s2" "expands r d e (CompileTemplate (vv_Text (lh_val h))) v" by auto
      with from_template[OF h(1) x] me memo_ok_same[of r s2 s'] show ?thesis by simp
    qed
  qed
  with run show ?case by simp
next
  case (2 n p d e st s)
  obtain x s' where run: "resolveName r n p d e st s = (x, s')" by (meson surj_pair)
  have "memo_ok r s' \<and> (case x of Inl x \<Rightarrow> True | Inr v \<Rightarrow> placeholder_is r d e n v)"
    if m: "memo_ok r s" and np: "\<not> rs_panic s'"
    using run
  proof (cases rule: resolveName_ways)
    case expression
    then have "memo_ok r s'" by (intro memo_ok_same[OF m]) (auto simp: eval_expr_def Let_def split: if_split_asm option.split_asm)
    moreover have "placeholder_is r d e n v" if "x = Inr v" for v
      using expression that of_expression[of n e r _ _ _ v d]
      by (auto simp: eval_expr_def Let_def split: if_split_asm option.split_asm)
    ultimately show ?thesis by (cases x) auto
  next
    case (helper s1 v)
    then have "memo_ok r s1 \<and> unclaimed r n" using 2[of s] m np by simp
    with helper of_helper[of n d r "rs_calls s1" v e] show ?thesis using memo_ok_same[of r s1 s'] by simp
  next
    case (misused s1 y)
    then have "memo_ok r s1" using 2[of s] m np by simp
    with misused show ?thesis using memo_ok_same[of r s1 s'] by simp
  next
    case (again s1)
    let ?s = "s1\<lparr>rs_calls := rs_calls s1 + 1\<rparr>"
    note k = settle_keeps[OF again(6)]
    then have "\<not> rs_panic ?s" using np resolveName_panic(2) by blast
    then have "memo_ok r s1" using 2[of s] m again by simp
    then have "memo_ok r ?s" by (rule memo_ok_same) simp
    with 2[of ?s] k np have "memo_ok r (snd (resolve r n p d e st ?s))" "\<And>v. x = Inr v \<Longrightarrow> variable_is r d e n v" by auto
    then show ?thesis using k memo_ok_same of_variable[OF again(1)] by (cases x) auto
  next
    case found
    note k = settle_keeps[OF found(5)]
    with 2[of s] m np have "memo_ok r (snd (resolve r n p d e st s))" "\<And>v. x = Inr v \<Longrightarrow> variable_is r d e n v" by auto
    then show ?thesis using k memo_ok_same of_variable[OF found(1)] by (cases x) auto
  next
    case once
    note k = settle_keeps[OF once(3)]
    with 2[of s] m np have "memo_ok r (snd (resolve r n p d e st s))" "\<And>v. x = Inr v \<Longrightarrow> variable_is r d e n v" by auto
    then show ?thesis using k memo_ok_same of_variable[OF once(1)] by (cases x) auto
  qed
  with run show ?case by simp
next
  case (3 p d e st acc s)
  then show ?case by (cases acc) (auto intro: expands_nil)
next
  case (4 g gs p d e st acc s)
  obtain out err u where acc: "acc = (out, err, u)" by (cases acc)
  obtain x s1 where r: "resolveName r (sg_name g) p d e st s = (x, s1)" by (meson surj_pair)
  consider "\<not> sg_ph g \<or> sg_name g = []" | "sg_ph g" "sg_name g \<noteq> []" by blast
  then show ?case
  proof cases
    case 1
    then show ?thesis using 4(2)[of s "(out @ sg_text g, err, u)"] unfolding acc
      by (auto simp: split: prod.split intro: expands_lit)
  next
    case ph: 2
    note np = resolveName_panic(3)[of s1 r gs p d e st]
    show ?thesis
    proof (cases x)
      case (Inr v)
      have m1: "memo_ok r s1 \<and> placeholder_is r d e (sg_name g) v"
        if "memo_ok r s" "\<not> rs_panic (snd (render_loop r gs p d e st (out @ v, err, u) s1))"
        using 4(1)[of s] r Inr that np by auto
      then show ?thesis using 4(2)[of s1 "(out @ v, err, u)"] ph r Inr unfolding acc
        by (auto split: prod.split intro!: expands_ph)
    next
      case (Inl y)
      let ?acc = "(out @ sg_text g, if st = None \<and> rv_lenient r \<and> is_undef y then err else PreferStructural err y, u \<or> is_undef y)"
      obtain out' err' u' s2 where fin: "render_loop r gs p d e st ?acc s1 = ((out', err', u'), s2)" by (metis surj_pair)
      have "memo_ok r s1" if "memo_ok r s" "\<not> rs_panic s2" using 4(1)[of s] r Inl that np[of ?acc] fin by auto
      moreover have "\<not> (err' = None \<and> (st = None \<longrightarrow> \<not> u'))"
      proof -
        have "PreferStructural err y \<noteq> None" by (simp add: PreferStructural_def split: option.split)
        then show ?thesis using errors_stay[OF fin] by (auto split: if_split_asm)
      qed
      ultimately show ?thesis using 4(2)[of s1 ?acc] ph r Inl fin unfolding acc by auto
    qed
  qed
qed

text \<open>A provider that reads names through their key; the providers over maps of names do.\<close>

locale name_provider =
  fixes lower :: "string \<Rightarrow> string" and look :: "string \<Rightarrow> VarValue option"
  assumes same_key: "lower (trim_white n) = lower (trim_white m) \<Longrightarrow> look n = look m"
begin

lemma keyed: "rv_lower r = lower \<Longrightarrow> pv_lookup p = look \<Longrightarrow> NameKey (rv_lower r) n = NameKey (rv_lower r) m \<Longrightarrow> pv_lookup p n = pv_lookup p m"
  unfolding NameKey_def using same_key[of n m] by simp

end

interpretation map_names: name_provider lower "pv_lookup (map_provider lower label ns t)"
  for lower label ns t
  by unfold_locales (simp add: map_provider_def nm_Get_def NameKey_def)

interpretation value_names: name_provider lower "pv_lookup (value_map_provider lower label ns t)"
  for lower label ns t
  by unfold_locales (simp add: value_map_provider_def nm_Get_def NameKey_def)

lemma named_providers_by_key:
  assumes "\<And>p. p \<in> set (rv_providers r) \<Longrightarrow> pv_template p \<Longrightarrow>
    (\<exists>l vs. p = map_provider (rv_lower r) l vs True) \<or> (\<exists>l vs. p = value_map_provider (rv_lower r) l vs True)"
  shows "names_by_key r"
  unfolding names_by_key_def
proof (intro ballI impI allI)
  fix p n m
  assume p: "p \<in> set (rv_providers r)" "pv_template p" and k: "NameKey (rv_lower r) n = NameKey (rv_lower r) m"
  from assms[OF p] show "pv_lookup p n = pv_lookup p m"
    using map_names.keyed[OF refl _ k] value_names.keyed[OF refl _ k] by blast
qed

lemma expand_all_ok:
  assumes "names_by_key r" "list_all (\<lambda>(fn, i). fn = rv_expr r) work"
  shows "memo_ok r s \<Longrightarrow> \<not> rs_panic (expand_all r work s) \<Longrightarrow> memo_ok r (expand_all r work s)"
  using assms(2)
proof (induction work arbitrary: s)
  case Nil
  then show ?case by (simp add: expand_all_def)
next
  case (Cons w work)
  have r: "WithExprEval r (fst w) = r" using Cons.prems(3) by (auto simp: WithExprEval_def)
  let ?s = "snd (ExpandTemplates r (snd w) s)"
  have e: "expand_all r (w # work) s = expand_all r work ?s" by (simp add: expand_all_def case_prod_beta r)
  have "\<not> rs_panic ?s" using Cons.prems(2) expand_all_later[of ?s r work] unfolding e later_def by blast
  then have "memo_ok r ?s" using resolve_substitutes(3)[OF assms(1)] Cons.prems(1) unfolding ExpandTemplates_state by blast
  then show ?case using Cons.IH[of ?s] Cons.prems unfolding e by simp
qed

text \<open>
  C15: a template that expands without an error and without an undefined name, after any other expansions with the resolver,
  has the text of plain recursive substitution: neither the table of expanded values, nor the check for cycles, nor the
  trace can be seen in it.
\<close>

theorem resolver_refines_substitution:
  assumes "names_by_key r" "list_all (\<lambda>(fn, i). fn = rv_expr r) work"
    and "ExpandTemplatesResult r input (expand_all r work (new_state traced)) = ((\<lparr>xn_Value = v, xn_HasUndefined = False\<rparr>, None), s)"
    and "\<not> rs_panic s"
  shows "expands r True True (CompileTemplate input) v"
proof -
  let ?s = "expand_all r work (new_state traced)"
  have run: "render_loop r (CompileTemplate input) (rv_exprPos r) True True None ([], None, False) ?s = ((v, None, False), s)"
    using assms(3) by (auto simp: ExpandTemplatesResult_def renderResult_def split: prod.split_asm)
  have np: "\<not> rs_panic ?s" using resolveName_panic(3)[of ?s r "CompileTemplate input" "rv_exprPos r" True True None "([], None, False)"]
      assms(4) run by auto
  have "memo_ok r (new_state traced)" by (simp add: memo_ok_def new_state_def)
  then have "memo_ok r ?s" using expand_all_ok[OF assms(1,2)] np by blast
  with resolve_substitutes(3)[OF assms(1), of ?s "CompileTemplate input" "rv_exprPos r" True True None "([], None, False)"] run assms(4)
  show ?thesis by simp
qed

lemma demo_by_key: "names_by_key demo_resolver"
proof (rule named_providers_by_key, rule disjI1)
  fix p
  assume "p \<in> set (rv_providers demo_resolver)" "pv_template p"
  then show "\<exists>l vs. p = map_provider (rv_lower demo_resolver) l vs True"
    by (auto simp: demo_resolver_def NewTemplateProvider_def)
qed

lemma demo_expands:
  "fst (ExpandTemplatesResult demo_resolver ''{{url}}/{{host}}'' (expand_all demo_resolver [(rv_expr demo_resolver, ''{{url}}'')] (new_state True)))
     = (\<lparr>xn_Value = ''//h/h'', xn_HasUndefined = False\<rparr>, None) \<and>
   \<not> rs_panic (snd (ExpandTemplatesResult demo_resolver ''{{url}}/{{host}}''
     (expand_all demo_resolver [(rv_expr demo_resolver, ''{{url}}'')] (new_state True))))"
  by code_simp

theorem resolver_refines_substitution_witness:
  "expands demo_resolver True True (CompileTemplate ''{{url}}/{{host}}'') ''//h/h''"
  by (rule resolver_refines_substitution[OF demo_by_key, of "[(rv_expr demo_resolver, ''{{url}}'')]" _ True _
      "snd (ExpandTemplatesResult demo_resolver ''{{url}}/{{host}}''
     (expand_all demo_resolver [(rv_expr demo_resolver, ''{{url}}'')] (new_state True)))"])
    (use demo_expands in \<open>simp_all add: prod_eq_iff\<close>)

text \<open>
  \<open>lookupPrefixed\<close> cuts the name at the length of the lower-cased label, which need not be that of the label: U+023A has two
  bytes and its lower case U+2C65 three, so that a placeholder of the label and a dot is sliced out of its range.
\<close>

lemma prefixed_label_panics:
  assumes "rv_lower r [CHR 0xC8, CHR 0xBA] = [CHR 0xE2, CHR 0xB1, CHR 0xA5]"
    and "rv_lower r [CHR 0xC8, CHR 0xBA, CHR ''.''] = [CHR 0xE2, CHR 0xB1, CHR 0xA5, CHR ''.'']"
    and "pv_Label p = [CHR 0xC8, CHR 0xBA]"
  shows "lookupPrefixed r [CHR 0xC8, CHR 0xBA, CHR ''.''] p = SlicePanic"
proof -
  have t: "trim_white [CHR 0xE2, CHR 0xB1, CHR 0xA5] = [CHR 0xE2, CHR 0xB1, CHR 0xA5]" by code_simp
  have c: "before_colon [CHR 0xE2, CHR 0xB1, CHR 0xA5] = [CHR 0xE2, CHR 0xB1, CHR 0xA5]" by code_simp
  have h: "has_prefix [CHR 0xE2, CHR 0xB1, CHR 0xA5, CHR ''.''] [CHR 0xE2, CHR 0xB1, CHR 0xA5, CHR ''.'']" by (simp add: has_prefix_def)
  show ?thesis unfolding lookupPrefixed_def assms t c Let_def using h by simp
qed

end
