(* ===== verification/VarsCatalog.thy ===== *)
theory VarsCatalog
  imports VarsNames
begin

text \<open>
  Catalogs of environments (\<open>internal/vars/catalog.go\<close>), the choice of one (\<open>selection.go\<close>, \<open>intent.go\<close>, \<open>targets.go\<close>) and the
  scope it owns (\<open>scope.go\<close>). A Go map that the code reads in the order of its iteration is the list of its entries in that
  order, of any kind. \<open>strings.ToLower\<close>, \<open>strings.EqualFold\<close>, SHA-256 (as its hexadecimal text) and the spelling of JSON
  numbers are parameters.
\<close>

text \<open>
  \<open>cs_visit\<close> is the order in which \<open>mapName\<close> meets the keys of a map when it looks for a name, any order Go may take; the
  operations carry it beside the two functions on case, and what they promise is shown for every such order.
\<close>

record casing =
  cs_lower :: "string \<Rightarrow> string"
  cs_fold :: "string \<Rightarrow> string \<Rightarrow> bool"
  cs_visit :: "string \<Rightarrow> string list \<Rightarrow> string list"

abbreviation norm :: "casing \<Rightarrow> string \<Rightarrow> string" where
  "norm cs \<equiv> NameKey (cs_lower cs)"

datatype cat_error =
  BlankName string
| DuplicateNames string string string
| NameReserved string string
| OnlyShared
| EmptyEnvRef string string
| GroupRequired
| GroupNameEquals string
| ProfileRequired string
| InGroup string cat_error
| DefaultRequired string
| DefaultUnknown string string
| Collides string string string string string
| GroupsOfFlat
| UnknownEnv string
| NameOfGrouped
| UnknownGroup string
| UnknownProfile string string
| MustBeObject string
| MixedDefinitions string
| DefaultNotString string
| CompareNeedsGroup
| CompareGroupOfFlat
| BaselineUnmatched string

record Group =
  gr_Name :: string
  gr_Default :: string
  gr_Profiles :: "(string \<times> string smap) list"

record entry =
  en_name :: string
  en_values :: "string smap"

record Catalog =
  ct_envs :: "entry list"
  ct_groups :: "Group list"
  ct_shared :: "string smap"
  ct_source :: string

definition empty_catalog :: Catalog where
  "empty_catalog = \<lparr>ct_envs = [], ct_groups = [], ct_shared = [], ct_source = []\<rparr>"

record Selection =
  sl_name :: string
  sl_profiles :: "string smap"

record Environment =
  ev_values :: "string smap"
  ev_label :: string
  ev_scope :: string
  ev_sel :: Selection

section \<open>Names\<close>

definition SharedEnvKey :: string where "SharedEnvKey = ''$shared''"
definition GroupsEnvKey :: string where "GroupsEnvKey = ''$groups''"
definition DefaultEnvKey :: string where "DefaultEnvKey = ''$default''"

definition IsReservedEnvironment :: "casing \<Rightarrow> string \<Rightarrow> bool" where
  "IsReservedEnvironment cs name \<longleftrightarrow> norm cs name \<in> {SharedEnvKey, GroupsEnvKey, DefaultEnvKey}"

definition names_add :: "casing \<Rightarrow> string \<Rightarrow> string \<Rightarrow> string smap \<Rightarrow> cat_error + string \<times> string smap" where
  "names_add cs kind raw seen =
     (let name = trim_white raw; key = norm cs name in
      if key = [] then Inl (BlankName kind)
      else case map_of seen key of Some prev \<Rightarrow> Inl (DuplicateNames kind prev name) | None \<Rightarrow> Inr (name, smap_put key name seen))"

text \<open>The first key, in the order in which the map is visited, that equals the name under case folding.\<close>

definition mapName :: "casing \<Rightarrow> (string \<times> 'v) list \<Rightarrow> string \<Rightarrow> string option" where
  "mapName cs m name = find (\<lambda>n. cs_fold cs n (trim_white name)) (cs_visit cs (trim_white name) (map fst m))"

definition EnvRefKey :: "string \<Rightarrow> string option" where
  "EnvRefKey raw =
     (let trimmed = trim_white raw in
      if length trimmed < 4 \<or> \<not> equal_fold (take 4 trimmed) ''env:'' then None else Some (trim_white (drop 4 trimmed)))"

definition checkEnvRefs :: "string \<Rightarrow> string smap \<Rightarrow> cat_error option" where
  "checkEnvRefs scope values =
     (case find (\<lambda>(name, v). EnvRefKey v = Some []) values of None \<Rightarrow> None | Some (name, v) \<Rightarrow> Some (EmptyEnvRef scope name))"

definition mergeValues :: "casing \<Rightarrow> string smap list \<Rightarrow> string smap" where
  "mergeValues cs layers = nm_Map (fold (nm_SetMap (cs_lower cs)) layers [])"

definition collapseNames :: "casing \<Rightarrow> string smap \<Rightarrow> string smap" where
  "collapseNames cs values = (if values = [] then [] else nm_Map (CollectNames (cs_lower cs) values))"

section \<open>Flat catalogs\<close>

fun NewCatalog_loop :: "casing \<Rightarrow> (string \<times> string smap) list \<Rightarrow> string smap \<Rightarrow> string smap option \<Rightarrow> entry list \<Rightarrow>
    cat_error + string smap option \<times> entry list" where
  "NewCatalog_loop cs [] seen shared envs = Inr (shared, envs)"
| "NewCatalog_loop cs ((raw, vs) # rest) seen shared envs =
     (case names_add cs ''environment'' raw seen of
        Inl e \<Rightarrow> Inl e
      | Inr (name, seen') \<Rightarrow>
          if norm cs name = SharedEnvKey then NewCatalog_loop cs rest seen' (Some vs) envs
          else if IsReservedEnvironment cs name then Inl (NameReserved ''environment'' name)
          else NewCatalog_loop cs rest seen' shared (envs @ [\<lparr>en_name = name, en_values = vs\<rparr>]))"

fun check_all :: "('a \<Rightarrow> cat_error option) \<Rightarrow> 'a list \<Rightarrow> cat_error option" where
  "check_all chk [] = None"
| "check_all chk (x # xs) = (case chk x of Some e \<Rightarrow> Some e | None \<Rightarrow> check_all chk xs)"

definition NewCatalog :: "casing \<Rightarrow> (string \<times> string smap) list \<Rightarrow> cat_error + Catalog" where
  "NewCatalog cs visit =
     (case NewCatalog_loop cs visit [] None [] of
        Inl e \<Rightarrow> Inl e
      | Inr (shared, envs0) \<Rightarrow>
          if shared \<noteq> None \<and> envs0 = [] then Inl OnlyShared
          else let envs = sort_key (\<lambda>e. cs_lower cs (en_name e)) envs0; sh = (case shared of None \<Rightarrow> [] | Some m \<Rightarrow> m) in
            (case checkEnvRefs SharedEnvKey sh of
               Some e \<Rightarrow> Inl e
             | None \<Rightarrow>
                (case check_all (\<lambda>e. checkEnvRefs (en_name e) (en_values e)) envs of
                   Some e \<Rightarrow> Inl e
                 | None \<Rightarrow> Inr (empty_catalog\<lparr>ct_envs := map (\<lambda>e. e\<lparr>en_values := mergeValues cs [sh, en_values e]\<rparr>) envs\<rparr>))))"

section \<open>Grouped catalogs\<close>

fun build_profiles :: "casing \<Rightarrow> string \<Rightarrow> (string \<times> string smap) list \<Rightarrow> string smap \<Rightarrow> string smap smap \<Rightarrow> cat_error + string smap smap" where
  "build_profiles cs grp [] seen ps = Inr ps"
| "build_profiles cs grp ((raw, vs) # rest) seen ps =
     (case names_add cs ''profile'' raw seen of
        Inl e \<Rightarrow> Inl (InGroup grp e)
      | Inr (p, seen') \<Rightarrow>
          if IsReservedEnvironment cs p then Inl (NameReserved ''profile'' p)
          else build_profiles cs grp rest seen' (smap_put p vs ps))"

definition buildGroup :: "casing \<Rightarrow> Group \<Rightarrow> string smap \<Rightarrow> cat_error + Group \<times> string smap" where
  "buildGroup cs g groups =
     (case names_add cs ''group'' (gr_Name g) groups of
        Inl e \<Rightarrow> Inl e
      | Inr (name, groups') \<Rightarrow>
          if IsReservedEnvironment cs name then Inl (NameReserved ''group'' name)
          else if CHR ''='' \<in> set name then Inl (GroupNameEquals name)
          else if gr_Profiles g = [] then Inl (ProfileRequired name)
          else case build_profiles cs name (gr_Profiles g) [] [] of
            Inl e \<Rightarrow> Inl e
          | Inr ps \<Rightarrow>
             (let def = trim_white (gr_Default g) in
              if def = [] then
                (if length ps \<noteq> 1 then Inl (DefaultRequired name)
                 else Inr (\<lparr>gr_Name = name, gr_Default = fst (hd ps), gr_Profiles = ps\<rparr>, groups'))
              else case mapName cs ps def of
                None \<Rightarrow> Inl (DefaultUnknown def name)
              | Some p \<Rightarrow> Inr (\<lparr>gr_Name = name, gr_Default = p, gr_Profiles = ps\<rparr>, groups')))"

fun build_groups :: "casing \<Rightarrow> Group list \<Rightarrow> string smap \<Rightarrow> cat_error + Group list" where
  "build_groups cs [] seen = Inr []"
| "build_groups cs (g # gs) seen =
     (case buildGroup cs g seen of
        Inl e \<Rightarrow> Inl e
      | Inr (b, seen') \<Rightarrow> (case build_groups cs gs seen' of Inl e \<Rightarrow> Inl e | Inr bs \<Rightarrow> Inr (b # bs)))"

text \<open>\<open>keys\<close> of the code maps a key to one of its spellings in \<open>a\<close>, and the first name of \<open>b\<close> with a known key collides.\<close>

definition collision :: "casing \<Rightarrow> string smap \<Rightarrow> string smap \<Rightarrow> string option" where
  "collision cs a b =
     (let keys = smap_of_list (map (\<lambda>(n, v). (cs_lower cs n, n)) a) in
      case find (\<lambda>(n, v). map_of keys (cs_lower cs n) \<noteq> None) b of None \<Rightarrow> None | Some (n, v) \<Rightarrow> map_of keys (cs_lower cs n))"

definition group_collision :: "casing \<Rightarrow> Group \<Rightarrow> Group \<Rightarrow> cat_error option" where
  "group_collision cs a b =
     check_all (\<lambda>(ap, av). check_all (\<lambda>(bp, bv). case collision cs av bv of None \<Rightarrow> None
       | Some n \<Rightarrow> Some (Collides n (gr_Name a) ap (gr_Name b) bp)) (gr_Profiles b)) (gr_Profiles a)"

fun checkCollisions :: "casing \<Rightarrow> Group list \<Rightarrow> cat_error option" where
  "checkCollisions cs [] = None"
| "checkCollisions cs (a # gs) = (case check_all (group_collision cs a) gs of Some e \<Rightarrow> Some e | None \<Rightarrow> checkCollisions cs gs)"

definition NewGroupedCatalog :: "casing \<Rightarrow> string smap \<Rightarrow> Group list \<Rightarrow> cat_error + Catalog" where
  "NewGroupedCatalog cs shared groups =
     (if groups = [] then Inl GroupRequired
      else case build_groups cs groups [] of
        Inl e \<Rightarrow> Inl e
      | Inr out0 \<Rightarrow>
         (let out = sort_key (\<lambda>g. cs_lower cs (gr_Name g)) out0 in
          case checkCollisions cs out of
            Some e \<Rightarrow> Inl e
          | None \<Rightarrow>
             (case checkEnvRefs SharedEnvKey shared of
                Some e \<Rightarrow> Inl e
              | None \<Rightarrow>
                 (case check_all (\<lambda>g. check_all (\<lambda>(p, vs). checkEnvRefs (gr_Name g @ ''.'' @ p) vs) (gr_Profiles g)) out of
                    Some e \<Rightarrow> Inl e
                  | None \<Rightarrow> Inr (empty_catalog\<lparr>ct_groups := out, ct_shared := shared\<rparr>)))))"

definition Grouped :: "Catalog \<Rightarrow> bool" where
  "Grouped c \<longleftrightarrow> ct_groups c \<noteq> []"

definition findEnv :: "casing \<Rightarrow> Catalog \<Rightarrow> string \<Rightarrow> entry option" where
  "findEnv cs c name = find (\<lambda>e. cs_fold cs (en_name e) (trim_white name)) (ct_envs c)"

definition findGroup :: "casing \<Rightarrow> Catalog \<Rightarrow> string \<Rightarrow> Group option" where
  "findGroup cs c name = find (\<lambda>g. cs_fold cs (gr_Name g) (trim_white name)) (ct_groups c)"

section \<open>Files\<close>

text \<open>A JSON document with the fields of its objects in their order, and of duplicate fields all.\<close>

datatype 'n jdoc = JNull | JBool bool | JNum 'n | JStr string | JArr "'n jdoc list" | JObj "(string \<times> 'n jdoc) list"

definition joinPath :: "string \<Rightarrow> string \<Rightarrow> string" where
  "joinPath path name = (if path = [] then name else path @ ''.'' @ name)"

definition indexPath :: "string \<Rightarrow> nat \<Rightarrow> string" where
  "indexPath path i = (let index = int_str (int i) in if path = [] then index else path @ ''['' @ index @ '']'')"

text \<open>
  The writes of \<open>flattenInto\<close> in one order; a Go map of a decoded object holds the last of duplicate fields, and may visit
  the fields in any order.
\<close>

function flatten_writes :: "('n \<Rightarrow> string) \<Rightarrow> string \<Rightarrow> 'n jdoc \<Rightarrow> (string \<times> string) list" where
  "flatten_writes num path (JObj fs) =
     concat (map (\<lambda>(name, child). if name = [] then [] else flatten_writes num (joinPath path name) child) (smap_of_list fs))"
| "flatten_writes num path (JArr vs) =
     concat (map (\<lambda>(i, child). flatten_writes num (indexPath path i) child) (enumerate 0 vs))"
| "flatten_writes num path (JStr s) = (if path = [] then [] else [(path, s)])"
| "flatten_writes num path (JNum n) = (if path = [] then [] else [(path, num n)])"
| "flatten_writes num path (JBool b) = (if path = [] then [] else [(path, if b then ''true'' else ''false'')])"
| "flatten_writes num path JNull = (if path = [] then [] else [(path, [])])"
  by pat_completeness auto

lemma set_smap_of_list_sub: "set (smap_of_list kvs) \<subseteq> set kvs"
proof -
  have "set (foldl (\<lambda>m (k, v). smap_put k v m) m kvs) \<subseteq> set kvs \<union> set m" for m :: "'a smap"
  proof (induction kvs arbitrary: m)
    case (Cons e kvs)
    obtain k v where e: "e = (k, v)" by (cases e)
    have "set (foldl (\<lambda>m (k, v). smap_put k v m) (smap_put k v m) kvs) \<subseteq> set kvs \<union> set (smap_put k v m)" by (rule Cons)
    then show ?case using set_smap_put[of k v m] unfolding e by auto
  qed simp
  from this[of "[]"] show ?thesis by (simp add: smap_of_list_def)
qed

lemma jdoc_field_size: "(n, d) \<in> set fs \<Longrightarrow> size d < size (JObj fs)"
  by (induction fs) (auto simp: less_Suc_eq_le)

lemma jdoc_elem_size: "d \<in> set vs \<Longrightarrow> size d < size (JArr vs)"
  by (induction vs) auto

termination flatten_writes
proof (relation "measure (\<lambda>(num, path, d). size d)", goal_cases)
  case (2 num path fs x n d)
  then have "(n, d) \<in> set fs" using set_smap_of_list_sub by auto
  then show ?case using jdoc_field_size by fastforce
next
  case (3 num path vs x i d)
  then have "d \<in> set vs" by (auto simp: in_set_enumerate_eq)
  then show ?case using jdoc_elem_size by fastforce
qed simp

definition flattenObject :: "('n \<Rightarrow> string) \<Rightarrow> 'n jdoc \<Rightarrow> string \<Rightarrow> cat_error + string smap" where
  "flattenObject num raw name =
     (case raw of JObj fs \<Rightarrow> Inr (smap_of_list (flatten_writes num [] raw)) | _ \<Rightarrow> Inl (MustBeObject name))"

fun parse_flat_loop :: "casing \<Rightarrow> ('n \<Rightarrow> string) \<Rightarrow> (string \<times> 'n jdoc) list \<Rightarrow> string smap \<Rightarrow> string smap smap \<Rightarrow> cat_error + string smap smap" where
  "parse_flat_loop cs num [] seen out = Inr out"
| "parse_flat_loop cs num ((raw, doc) # fs) seen out =
     (case names_add cs ''environment'' raw seen of
        Inl e \<Rightarrow> Inl e
      | Inr (name, seen') \<Rightarrow>
         (case flattenObject num doc name of Inl e \<Rightarrow> Inl e | Inr vs \<Rightarrow> parse_flat_loop cs num fs seen' (smap_put name vs out)))"

definition parseFlat :: "casing \<Rightarrow> ('n \<Rightarrow> string) \<Rightarrow> (string \<times> 'n jdoc) list \<Rightarrow> cat_error + Catalog" where
  "parseFlat cs num root = (case parse_flat_loop cs num root [] [] of Inl e \<Rightarrow> Inl e | Inr envs \<Rightarrow> NewCatalog cs envs)"

fun parse_group_loop :: "casing \<Rightarrow> ('n \<Rightarrow> string) \<Rightarrow> string \<Rightarrow> (string \<times> 'n jdoc) list \<Rightarrow> string smap \<Rightarrow> Group \<Rightarrow> cat_error + Group" where
  "parse_group_loop cs num name [] seen g = Inr g"
| "parse_group_loop cs num name ((raw, doc) # fs) seen g =
     (case names_add cs ''profile'' raw seen of
        Inl e \<Rightarrow> Inl (InGroup name e)
      | Inr (p, seen') \<Rightarrow>
          if norm cs p = DefaultEnvKey then
            (case doc of
               JStr s \<Rightarrow> parse_group_loop cs num name fs seen' (g\<lparr>gr_Default := s\<rparr>)
             | JNull \<Rightarrow> parse_group_loop cs num name fs seen' g
             | _ \<Rightarrow> Inl (DefaultNotString name))
          else case flattenObject num doc p of
            Inl e \<Rightarrow> Inl e
          | Inr vs \<Rightarrow> parse_group_loop cs num name fs seen' (g\<lparr>gr_Profiles := smap_put p vs (gr_Profiles g)\<rparr>))"

definition parseGroup :: "casing \<Rightarrow> ('n \<Rightarrow> string) \<Rightarrow> string \<Rightarrow> (string \<times> 'n jdoc) list \<Rightarrow> cat_error + Group" where
  "parseGroup cs num name obj = parse_group_loop cs num name obj [] \<lparr>gr_Name = name, gr_Default = [], gr_Profiles = []\<rparr>"

fun parse_groups_root :: "casing \<Rightarrow> ('n \<Rightarrow> string) \<Rightarrow> (string \<times> 'n jdoc) list \<Rightarrow> string smap \<Rightarrow> string smap \<Rightarrow> (string \<times> 'n jdoc) list \<Rightarrow>
    cat_error + string smap \<times> (string \<times> 'n jdoc) list" where
  "parse_groups_root cs num [] seen shared raw = Inr (shared, raw)"
| "parse_groups_root cs num ((n, doc) # fs) seen shared raw =
     (case names_add cs ''schema'' n seen of
        Inl e \<Rightarrow> Inl e
      | Inr (name, seen') \<Rightarrow>
          if norm cs name = SharedEnvKey then
            (case flattenObject num doc SharedEnvKey of
               Inl e \<Rightarrow> Inl e
             | Inr vs \<Rightarrow> parse_groups_root cs num fs seen' vs raw)
          else if norm cs name = GroupsEnvKey then
            (case doc of
               JObj gs \<Rightarrow> parse_groups_root cs num fs seen' shared gs
             | _ \<Rightarrow> Inl (MustBeObject GroupsEnvKey))
          else Inl (MixedDefinitions name))"

fun parse_each_group :: "casing \<Rightarrow> ('n \<Rightarrow> string) \<Rightarrow> (string \<times> 'n jdoc) list \<Rightarrow> cat_error + Group list" where
  "parse_each_group cs num [] = Inr []"
| "parse_each_group cs num ((n, doc) # fs) =
     (case doc of
        JObj obj \<Rightarrow>
         (case parseGroup cs num (trim_white n) obj of
            Inl e \<Rightarrow> Inl e
          | Inr g \<Rightarrow> (case parse_each_group cs num fs of Inl e \<Rightarrow> Inl e | Inr gs \<Rightarrow> Inr (g # gs)))
      | _ \<Rightarrow> Inl (MustBeObject (trim_white n)))"

definition parseGroups :: "casing \<Rightarrow> ('n \<Rightarrow> string) \<Rightarrow> (string \<times> 'n jdoc) list \<Rightarrow> cat_error + Catalog" where
  "parseGroups cs num root =
     (case parse_groups_root cs num root [] [] [] of
        Inl e \<Rightarrow> Inl e
      | Inr (shared, raw) \<Rightarrow>
         (case parse_each_group cs num raw of Inl e \<Rightarrow> Inl e | Inr groups \<Rightarrow> NewGroupedCatalog cs shared groups))"

definition parseCatalog :: "casing \<Rightarrow> ('n \<Rightarrow> string) \<Rightarrow> (string \<times> 'n jdoc) list \<Rightarrow> cat_error + Catalog" where
  "parseCatalog cs num root =
     (if list_ex (\<lambda>(n, d). norm cs n = GroupsEnvKey) root then parseGroups cs num root else parseFlat cs num root)"

end
