(* ===== verification/VarsSelection.thy ===== *)
theory VarsSelection
  imports VarsCatalog
begin

text \<open>
  The choice of an environment (\<open>internal/vars/selection.go\<close>, \<open>intent.go\<close>, \<open>targets.go\<close>) and the scope that owns its runtime
  state (\<open>scope.go\<close>); \<open>sha\<close> is SHA-256 as hexadecimal text, \<open>absolute\<close> the cleaned absolute form of a path.
\<close>

section \<open>Scopes\<close>

definition scopeVersion :: string where "scopeVersion = ''g1:''"
definition scopeSourceVersion :: string where "scopeSourceVersion = ''g2:''"
definition scopeFlatVersion :: string where "scopeFlatVersion = ''f1:''"
definition scopeFlatSourceVersion :: string where "scopeFlatSourceVersion = ''f2:''"

definition scopeDigestLen :: nat where "scopeDigestLen = 16"

definition withSource :: "(string \<Rightarrow> string) \<Rightarrow> string \<Rightarrow> Catalog \<Rightarrow> Catalog" where
  "withSource absolute path c = (if trim_white path = [] then c else c\<lparr>ct_source := absolute (trim_white path)\<rparr>)"

definition sourceDigest :: "(string \<Rightarrow> string) \<Rightarrow> string \<Rightarrow> string" where
  "sourceDigest sha source = take scopeDigestLen (sha source)"

definition flatScope :: "(string \<Rightarrow> string) \<Rightarrow> string \<Rightarrow> string \<Rightarrow> string" where
  "flatScope sha name source =
     (if source = [] then scopeFlatVersion @ name else scopeFlatSourceVersion @ name @ ''@'' @ sourceDigest sha source)"

definition writePart :: "string \<Rightarrow> string" where
  "writePart s = int_str (int (length s)) @ '':'' @ s"

definition profile_of :: "Selection \<Rightarrow> string \<Rightarrow> string" where
  "profile_of sel g = (case map_of (sl_profiles sel) g of None \<Rightarrow> [] | Some p \<Rightarrow> p)"

text \<open>What is hashed for a selection of groups.\<close>

definition group_message :: "casing \<Rightarrow> Group list \<Rightarrow> Selection \<Rightarrow> string \<Rightarrow> string" where
  "group_message cs groups sel source =
     concat (map (\<lambda>g. writePart (cs_lower cs (gr_Name g)) @ writePart (cs_lower cs (profile_of sel (gr_Name g)))) groups) @
     (if source = [] then [] else writePart source)"

definition groupScope :: "casing \<Rightarrow> (string \<Rightarrow> string) \<Rightarrow> Group list \<Rightarrow> Selection \<Rightarrow> string \<Rightarrow> string" where
  "groupScope cs sha groups sel source =
     (if source = [] then scopeVersion else scopeSourceVersion) @ sha (group_message cs groups sel source)"

definition SourcedScope :: "string \<Rightarrow> bool" where
  "SourcedScope scope \<longleftrightarrow> has_prefix scope scopeSourceVersion \<or> has_prefix scope scopeFlatSourceVersion"

section \<open>Selections\<close>

definition no_selection :: Selection where
  "no_selection = \<lparr>sl_name = [], sl_profiles = []\<rparr>"

definition GroupSelection :: "string smap \<Rightarrow> Selection" where
  "GroupSelection ps = no_selection\<lparr>sl_profiles := ps\<rparr>"

definition defaultEnvNames :: "string list" where
  "defaultEnvNames = [''dev'', ''default'', ''local'']"

definition DefaultSelection :: "casing \<Rightarrow> Catalog \<Rightarrow> Selection" where
  "DefaultSelection cs c =
     (if \<not> Grouped c then
        (case List.map_filter (findEnv cs c) defaultEnvNames of
           e # _ \<Rightarrow> no_selection\<lparr>sl_name := en_name e\<rparr>
         | [] \<Rightarrow> (case ct_envs c of [] \<Rightarrow> no_selection | e # _ \<Rightarrow> no_selection\<lparr>sl_name := en_name e\<rparr>))
      else GroupSelection (fold (\<lambda>g m. smap_put (gr_Name g) (gr_Default g) m) (ct_groups c) []))"

fun Select_loop :: "casing \<Rightarrow> Catalog \<Rightarrow> (string \<times> string) list \<Rightarrow> string smap \<Rightarrow> string smap \<Rightarrow> cat_error + string smap" where
  "Select_loop cs c [] seen ps = Inr ps"
| "Select_loop cs c ((rawGroup, rawProfile) # rest) seen ps =
     (case names_add cs ''selected group'' rawGroup seen of
        Inl e \<Rightarrow> Inl e
      | Inr (gname, seen') \<Rightarrow>
         (case findGroup cs c gname of
            None \<Rightarrow> Inl (UnknownGroup gname)
          | Some g \<Rightarrow>
             (case mapName cs (gr_Profiles g) rawProfile of
                None \<Rightarrow> Inl (UnknownProfile (trim_white rawProfile) (gr_Name g))
              | Some p \<Rightarrow> Select_loop cs c rest seen' (smap_put (gr_Name g) p ps))))"

definition Select :: "casing \<Rightarrow> Catalog \<Rightarrow> string \<Rightarrow> (string \<times> string) list \<Rightarrow> cat_error + Selection" where
  "Select cs c name0 profiles =
     (if \<not> Grouped c then
        (if profiles \<noteq> [] then Inl GroupsOfFlat
         else let name = trim_white name0 in
           if name = [] then Inr (DefaultSelection cs c)
           else case findEnv cs c name of
             None \<Rightarrow> (if ct_envs c = [] then Inr (no_selection\<lparr>sl_name := name\<rparr>) else Inl (UnknownEnv name))
           | Some e \<Rightarrow> Inr (no_selection\<lparr>sl_name := en_name e\<rparr>))
      else if trim_white name0 \<noteq> [] then Inl NameOfGrouped
      else let sel = DefaultSelection cs c in
        (case Select_loop cs c profiles [] (sl_profiles sel) of Inl e \<Rightarrow> Inl e | Inr ps \<Rightarrow> Inr (sel\<lparr>sl_profiles := ps\<rparr>)))"

definition WithGroup :: "casing \<Rightarrow> string \<Rightarrow> string \<Rightarrow> Selection \<Rightarrow> Selection" where
  "WithGroup cs grp profile s =
     (let name0 = trim_white grp; name = (case mapName cs (sl_profiles s) name0 of Some g \<Rightarrow> g | None \<Rightarrow> name0) in
      GroupSelection (smap_put name (trim_white profile) (sl_profiles s)))"

definition Profile :: "casing \<Rightarrow> string \<Rightarrow> Selection \<Rightarrow> string option" where
  "Profile cs grp s = (case mapName cs (sl_profiles s) grp of Some g \<Rightarrow> map_of (sl_profiles s) g | None \<Rightarrow> None)"

definition selection_empty :: "Selection \<Rightarrow> bool" where
  "selection_empty s \<longleftrightarrow> sl_name s = [] \<and> sl_profiles s = []"

text \<open>The values of the profile chosen in a group; a profile that is not there has none.\<close>

definition chosen :: "Selection \<Rightarrow> Group \<Rightarrow> string smap" where
  "chosen sel g = (case map_of (gr_Profiles g) (profile_of sel (gr_Name g)) of None \<Rightarrow> [] | Some vs \<Rightarrow> vs)"

definition ResolveEnv :: "casing \<Rightarrow> (string \<Rightarrow> string) \<Rightarrow> Catalog \<Rightarrow> Selection \<Rightarrow> cat_error + Environment" where
  "ResolveEnv cs sha c sel =
     (case Select cs c (sl_name sel) (sl_profiles sel) of
        Inl e \<Rightarrow> Inl e
      | Inr nxt \<Rightarrow>
          if \<not> Grouped c then
            Inr \<lparr>ev_values = (case findEnv cs c (sl_name nxt) of None \<Rightarrow> [] | Some e \<Rightarrow> collapseNames cs (en_values e)),
              ev_label = sl_name nxt, ev_scope = flatScope sha (sl_name nxt) (ct_source c), ev_sel = nxt\<rparr>
          else
            Inr \<lparr>ev_values = mergeValues cs (ct_shared c # map (chosen nxt) (ct_groups c)),
              ev_label = str_join '', '' (map (\<lambda>g. gr_Name g @ ''='' @ profile_of nxt (gr_Name g)) (ct_groups c)),
              ev_scope = groupScope cs sha (ct_groups c) nxt (ct_source c), ev_sel = nxt\<rparr>)"

section \<open>Intents and comparisons\<close>

record Intent =
  in_Name :: string
  in_Groups :: "string smap"

definition Describe :: "Intent \<Rightarrow> string" where
  "Describe i =
     (if in_Name i \<noteq> [] then in_Name i
      else if in_Groups i = [] then ''the previous selection''
      else str_join '', '' (map (\<lambda>(g, p). g @ ''='' @ p) (in_Groups i)))"

definition Intent_Resolve :: "casing \<Rightarrow> Catalog \<Rightarrow> Intent \<Rightarrow> Selection option" where
  "Intent_Resolve cs c i = (case Select cs c (in_Name i) (in_Groups i) of Inl e \<Rightarrow> None | Inr sel \<Rightarrow> Some sel)"

definition IntentFor :: "Catalog \<Rightarrow> Environment \<Rightarrow> Intent" where
  "IntentFor c env = (if Grouped c then \<lparr>in_Name = [], in_Groups = sl_profiles (ev_sel env)\<rparr>
     else \<lparr>in_Name = sl_name (ev_sel env), in_Groups = []\<rparr>)"

record Target =
  tg_Profile :: string
  tg_Env :: Environment

definition Target_Name :: "Target \<Rightarrow> string" where
  "Target_Name t = (if tg_Profile t \<noteq> [] then tg_Profile t else ev_label (tg_Env t))"

fun compare_loop :: "casing \<Rightarrow> (string \<Rightarrow> string) \<Rightarrow> Catalog \<Rightarrow> Selection \<Rightarrow> string \<Rightarrow> string \<Rightarrow> string list \<Rightarrow> bool \<Rightarrow> Target list \<Rightarrow>
    cat_error + bool \<times> Target list" where
  "compare_loop cs sha c base grp baseline [] found out = Inr (found, out)"
| "compare_loop cs sha c base grp baseline (name # ns) found out =
     (case (if grp \<noteq> [] then Select cs c [] (sl_profiles (WithGroup cs grp name base)) else Select cs c name []) of
        Inl e \<Rightarrow> Inl e
      | Inr sel \<Rightarrow>
         (case ResolveEnv cs sha c sel of
            Inl e \<Rightarrow> Inl e
          | Inr env \<Rightarrow>
             (let t = \<lparr>tg_Profile = (if grp \<noteq> [] then (case Profile cs grp (ev_sel env) of None \<Rightarrow> [] | Some p \<Rightarrow> p) else []), tg_Env = env\<rparr> in
              compare_loop cs sha c base grp baseline ns (found \<or> cs_fold cs (Target_Name t) baseline) (out @ [t]))))"

definition CompareTargets :: "casing \<Rightarrow> (string \<Rightarrow> string) \<Rightarrow> Catalog \<Rightarrow> Selection \<Rightarrow> string \<Rightarrow> string \<Rightarrow> string list \<Rightarrow> cat_error + Target list" where
  "CompareTargets cs sha c base group0 baseline0 ns =
     (let grp0 = trim_white group0; baseline = trim_white baseline0 in
      if Grouped c \<and> grp0 = [] then Inl CompareNeedsGroup
      else if \<not> Grouped c \<and> grp0 \<noteq> [] then Inl CompareGroupOfFlat
      else case (if Grouped c then findGroup cs c grp0 else None) of
        None \<Rightarrow>
          if Grouped c then Inl (UnknownGroup grp0)
          else (case compare_loop cs sha c base grp0 baseline ns (baseline = []) [] of
            Inl e \<Rightarrow> Inl e | Inr (found, out) \<Rightarrow> if found then Inr out else Inl (BaselineUnmatched baseline))
      | Some g \<Rightarrow>
         (case compare_loop cs sha c base (gr_Name g) baseline ns (baseline = []) [] of
            Inl e \<Rightarrow> Inl e | Inr (found, out) \<Rightarrow> if found then Inr out else Inl (BaselineUnmatched baseline)))"

end
