(* ===== verification/VarsCatalogProps.thy ===== *)
theory VarsCatalogProps
  imports VarsSelection GoParse "HOL-Library.Multiset"
begin

text \<open>
  What catalogs promise: the file's order and the order of map iteration do not show in a flat catalog; a selection that was
  made can be made again and resolves; the values of an environment are those of its layers; scopes tell selections apart.
\<close>

text \<open>
  The facts about Go that are used: \<open>EqualFold\<close> is an equivalence, \<open>ToLower("")\<close> is empty, and a map is visited key by
  key in some order.
\<close>

definition casing_ok :: "casing \<Rightarrow> bool" where
  "casing_ok cs \<longleftrightarrow> equivp (cs_fold cs) \<and> cs_lower cs [] = [] \<and> (\<forall>n ks. set (cs_visit cs n ks) = set ks)"

lemma casing_okD: "casing_ok cs \<Longrightarrow> cs_fold cs a a" "casing_ok cs \<Longrightarrow> cs_fold cs a b \<Longrightarrow> cs_fold cs x a = cs_fold cs x b"
  "casing_ok cs \<Longrightarrow> norm cs [] = []"
proof -
  assume ok: "casing_ok cs"
  then show "cs_fold cs a a" by (simp add: casing_ok_def equivp_reflp)
  show "cs_fold cs a b \<Longrightarrow> cs_fold cs x a = cs_fold cs x b" using ok by (meson casing_ok_def equivp_symp equivp_transp)
  have "trim_white [] = []" by code_simp
  then show "norm cs [] = []" using ok by (simp add: casing_ok_def NameKey_def)
qed

lemma names_add_Inr: "names_add cs kind raw seen = Inr (name, seen') \<longleftrightarrow>
    name = trim_white raw \<and> norm cs raw \<noteq> [] \<and> map_of seen (norm cs raw) = None \<and> seen' = smap_put (norm cs raw) name seen"
  by (auto simp: names_add_def Let_def split: option.split)

lemma check_all_None: "check_all chk xs = None \<longleftrightarrow> (\<forall>x\<in>set xs. chk x = None)"
  by (induction xs) (auto split: option.split)

text \<open>Names that the check for duplicates accepts one after the other.\<close>

definition fresh_names :: "casing \<Rightarrow> string smap \<Rightarrow> string list \<Rightarrow> bool" where
  "fresh_names cs seen ns \<longleftrightarrow> distinct (map (norm cs) ns) \<and> (\<forall>n\<in>set ns. norm cs n \<noteq> [] \<and> map_of seen (norm cs n) = None)"

lemma fresh_names_Nil [simp]: "fresh_names cs seen []"
  by (simp add: fresh_names_def)

lemma fresh_names_Cons: "fresh_names cs seen (n # ns) \<longleftrightarrow>
    norm cs n \<noteq> [] \<and> map_of seen (norm cs n) = None \<and> fresh_names cs (smap_put (norm cs n) v seen) ns"
proof -
  have "(\<forall>m\<in>set ns. map_of (smap_put (norm cs n) v seen) (norm cs m) = None) \<longleftrightarrow>
      (\<forall>m\<in>set ns. map_of seen (norm cs m) = None) \<and> norm cs n \<notin> norm cs ` set ns"
    by (auto simp: map_of_smap_put) (metis image_eqI)
  then show ?thesis by (auto simp: fresh_names_def)
qed

lemma names_add_cases: "norm cs n \<noteq> [] \<and> map_of seen (norm cs n) = None \<and>
      names_add cs kind n seen = Inr (trim_white n, smap_put (norm cs n) (trim_white n) seen) \<or>
    \<not> (norm cs n \<noteq> [] \<and> map_of seen (norm cs n) = None) \<and> (\<exists>e. names_add cs kind n seen = Inl e)"
  by (auto simp: names_add_def Let_def split: option.split)

section \<open>Loading does not depend on the order of iteration\<close>

lemma NewCatalog_loop_Inr:
  "NewCatalog_loop cs visit seen sh envs = Inr (sh', envs') \<longleftrightarrow>
   fresh_names cs seen (map fst visit) \<and> (\<forall>n\<in>set (map fst visit). IsReservedEnvironment cs n \<longrightarrow> norm cs n = SharedEnvKey) \<and>
   sh' = fold (\<lambda>(n, vs) sh. if norm cs n = SharedEnvKey then Some vs else sh) visit sh \<and>
   envs' = envs @ map (\<lambda>(n, vs). \<lparr>en_name = trim_white n, en_values = vs\<rparr>) (filter (\<lambda>(n, vs). norm cs n \<noteq> SharedEnvKey) visit)"
proof (induction visit arbitrary: seen sh envs)
  case Nil
  then show ?case by auto
next
  case (Cons x visit)
  obtain n vs where x: "x = (n, vs)" by (cases x)
  have r: "IsReservedEnvironment cs (trim_white n) = IsReservedEnvironment cs n" by (simp add: IsReservedEnvironment_def)
  have f: "fresh_names cs seen (map fst (x # visit)) \<longleftrightarrow> norm cs n \<noteq> [] \<and> map_of seen (norm cs n) = None \<and>
      fresh_names cs (smap_put (norm cs n) (trim_white n) seen) (map fst visit)"
    using fresh_names_Cons[of cs seen n "map fst visit" "trim_white n"] by (simp add: x)
  from names_add_cases[of cs n seen "''environment''"] show ?case
  proof (elim disjE conjE exE)
    assume a: "norm cs n \<noteq> []" "map_of seen (norm cs n) = None"
      "names_add cs ''environment'' n seen = Inr (trim_white n, smap_put (norm cs n) (trim_white n) seen)"
    then show ?thesis unfolding f by (auto simp: x r Cons)
  next
    fix e
    assume "\<not> (norm cs n \<noteq> [] \<and> map_of seen (norm cs n) = None)" "names_add cs ''environment'' n seen = Inl e"
    then show ?thesis unfolding f by (auto simp: x)
  qed
qed

lemma shared_miss: "k \<notin> norm cs ` fst ` set visit \<Longrightarrow> fold (\<lambda>(n, vs) sh. if norm cs n = k then Some vs else sh) visit sh = sh"
  by (induction visit arbitrary: sh) auto

lemma shared_hit:
  "distinct (map (norm cs) (map fst visit)) \<Longrightarrow> (n, vs) \<in> set visit \<Longrightarrow> norm cs n = k \<Longrightarrow>
   fold (\<lambda>(n, vs) sh. if norm cs n = k then Some vs else sh) visit sh = Some vs"
proof (induction visit arbitrary: sh)
  case (Cons x visit)
  show ?case
  proof (cases "x = (n, vs)")
    case True
    with Cons.prems have "k \<notin> norm cs ` fst ` set visit" by auto
    with True Cons.prems(3) show ?thesis by (simp add: shared_miss)
  next
    case False
    with Cons show ?thesis by (cases x) auto
  qed
qed simp

lemma shared_any_order:
  assumes "distinct (map (norm cs) (map fst xs))" "distinct (map (norm cs) (map fst ys))" "set xs = set ys"
  shows "fold (\<lambda>(n, vs) sh. if norm cs n = k then Some vs else sh) xs sh = fold (\<lambda>(n, vs) sh. if norm cs n = k then Some vs else sh) ys sh"
proof (cases "\<exists>n vs. (n, vs) \<in> set xs \<and> norm cs n = k")
  case True
  then show ?thesis using shared_hit assms by metis
next
  case False
  then have "k \<notin> norm cs ` fst ` set xs" "k \<notin> norm cs ` fst ` set ys" using assms(3) by auto
  from this[THEN shared_miss, of sh] show ?thesis by (rule trans[OF _ sym])
qed

text \<open>
  C20: a catalog of environments loads to the same catalog whatever the order in which the map of the environments is read.
\<close>

theorem catalog_independent_of_order:
  assumes "mset visit' = mset visit" and "NewCatalog cs visit = Inr c"
  shows "NewCatalog cs visit' = Inr c"
proof -
  let ?k = "\<lambda>e. cs_lower cs (en_name e)" and ?e = "\<lambda>(n, vs). \<lparr>en_name = trim_white n, en_values = vs\<rparr>"
  let ?own = "filter (\<lambda>(n, vs). norm cs n \<noteq> SharedEnvKey)"
  obtain sh envs where run: "NewCatalog_loop cs visit [] None [] = Inr (sh, envs)"
    using assms(2) by (auto simp: NewCatalog_def split: sum.split_asm)
  note l = run[unfolded NewCatalog_loop_Inr]
  have d: "distinct (map (norm cs) (map fst visit))" using l by (simp add: fresh_names_def)
  have s: "set visit' = set visit" by (rule mset_eq_setD[OF assms(1)])
  have m: "mset (map (norm cs) (map fst visit')) = mset (map (norm cs) (map fst visit))" by (simp add: assms(1))
  have d': "distinct (map (norm cs) (map fst visit'))" using d mset_eq_imp_distinct_iff[OF m] by blast
  let ?envs = "map ?e (?own visit')"
  have run': "NewCatalog_loop cs visit' [] None [] = Inr (sh, ?envs)"
    unfolding NewCatalog_loop_Inr using l d' s shared_any_order[OF d' d s] by (auto simp: fresh_names_def)
  have envs: "envs = map ?e (?own visit)" using l by simp
  have me: "mset ?envs = mset envs" unfolding envs using assms(1) by simp
  have ks: "map ?k (map ?e xs) = map (norm cs) (map fst xs)" for xs by (induction xs) (auto simp: NameKey_def)
  have "distinct (map ?k envs)" unfolding envs ks using d by (simp add: distinct_map_filter)
  then have i: "inj_on ?k (set envs)" by (simp add: distinct_map)
  have srt: "sort_key ?k ?envs = sort_key ?k envs"
    by (rule sort_key_inj_key_eq) (use me i in \<open>simp_all only: mset_eq_setD[OF me] mset_sort sorted_sort_key\<close>)
  have "?envs = [] \<longleftrightarrow> envs = []" using me by (metis mset_zero_iff)
  then show ?thesis using assms(2) unfolding NewCatalog_def run run' srt[symmetric] by (simp only: sum.case prod.case srt)
qed

section \<open>What a catalog looks like\<close>

definition plain_name :: "casing \<Rightarrow> string \<Rightarrow> bool" where
  "plain_name cs n \<longleftrightarrow> trim_white n = n \<and> norm cs n \<noteq> []"

lemma plain_trim: "norm cs n \<noteq> [] \<Longrightarrow> plain_name cs (trim_white n)"
  by (simp add: plain_name_def trim_white_idem)

definition profiles_ok :: "casing \<Rightarrow> string smap smap \<Rightarrow> bool" where
  "profiles_ok cs ps \<longleftrightarrow> smap_ok ps \<and> (\<forall>p\<in>fst ` set ps. plain_name cs p)"

definition group_ok :: "casing \<Rightarrow> Group \<Rightarrow> bool" where
  "group_ok cs g \<longleftrightarrow> plain_name cs (gr_Name g) \<and> CHR ''='' \<notin> set (gr_Name g) \<and> profiles_ok cs (gr_Profiles g) \<and>
     gr_Default g \<in> fst ` set (gr_Profiles g)"

definition catalog_ok :: "casing \<Rightarrow> Catalog \<Rightarrow> bool" where
  "catalog_ok cs c \<longleftrightarrow> (\<forall>e\<in>set (ct_envs c). plain_name cs (en_name e)) \<and> distinct (map (norm cs \<circ> en_name) (ct_envs c)) \<and>
     (\<forall>g\<in>set (ct_groups c). group_ok cs g) \<and> distinct (map (norm cs \<circ> gr_Name) (ct_groups c)) \<and>
     (ct_envs c = [] \<or> ct_groups c = [])"

lemma find_some: "find P xs = Some x \<Longrightarrow> P x \<and> x \<in> set xs"
  by (auto simp: find_Some_iff)

lemma mapName_in: "casing_ok cs \<Longrightarrow> mapName cs ps d = Some p \<Longrightarrow> p \<in> fst ` set ps"
  using find_some[of _ "cs_visit cs (trim_white d) (map fst ps)" p] by (simp add: mapName_def casing_ok_def)

text \<open>A key is found in every order when no other key equals it under case folding.\<close>

lemma mapName_self:
  assumes "casing_ok cs" "p \<in> fst ` set ps" "trim_white p = p" and "\<forall>q \<in> fst ` set ps. cs_fold cs q p \<longrightarrow> q = p"
  shows "mapName cs ps p = Some p"
proof -
  have v: "set (cs_visit cs p (map fst ps)) = fst ` set ps" using assms(1) by (simp add: casing_ok_def)
  obtain q where q: "find (\<lambda>n. cs_fold cs n p) (cs_visit cs p (map fst ps)) = Some q"
    using assms(2) casing_okD(1)[OF assms(1), of p] unfolding v[symmetric] by (metis find_None_iff not_None_eq)
  with find_some[OF q] assms(4) v have "q = p" by auto
  with q show ?thesis by (simp add: mapName_def assms(3))
qed

lemma build_profiles_ok:
  "build_profiles cs g visit seen ps = Inr ps' \<Longrightarrow> profiles_ok cs ps \<Longrightarrow> profiles_ok cs ps'"
proof (induction visit arbitrary: seen ps)
  case (Cons x visit)
  obtain n vs where x: "x = (n, vs)" by (cases x)
  from Cons.prems(1) obtain seen' where a: "names_add cs ''profile'' n seen = Inr (trim_white n, seen')" "norm cs n \<noteq> []"
    and r: "build_profiles cs g visit seen' (smap_put (trim_white n) vs ps) = Inr ps'"
    by (auto simp: x names_add_Inr split: sum.split_asm if_split_asm)
  have "profiles_ok cs (smap_put (trim_white n) vs ps)"
    using Cons.prems(2) plain_trim[OF a(2)] set_smap_put[of "trim_white n" vs ps] by (fastforce simp: profiles_ok_def smap_ok_put)
  then show ?case by (rule Cons.IH[OF r])
qed simp

lemma buildGroup_ok:
  assumes ok: "casing_ok cs" and run: "buildGroup cs g seen = Inr (b, seen')"
  shows "group_ok cs b \<and> gr_Name b = trim_white (gr_Name g) \<and> norm cs (gr_Name g) \<noteq> [] \<and> map_of seen (norm cs (gr_Name g)) = None \<and>
    seen' = smap_put (norm cs (gr_Name g)) (gr_Name b) seen"
proof -
  obtain nm ps def where n: "names_add cs ''group'' (gr_Name g) seen = Inr (nm, seen')" and e: "CHR ''='' \<notin> set nm"
    and ps: "build_profiles cs nm (gr_Profiles g) [] [] = Inr ps"
    and b: "gr_Name b = nm" "gr_Profiles b = ps" "gr_Default b = def"
    and def: "length ps = 1 \<and> def = fst (hd ps) \<or> mapName cs ps (trim_white (gr_Default g)) = Some def"
    using run by (auto simp: buildGroup_def Let_def split: sum.split_asm if_split_asm option.split_asm)
  have pok: "profiles_ok cs ps" by (rule build_profiles_ok[OF ps]) (simp add: profiles_ok_def)
  have "def \<in> fst ` set ps"
    using def
  proof
    assume "length ps = 1 \<and> def = fst (hd ps)"
    then show ?thesis by (cases ps) auto
  qed (rule mapName_in[OF ok])
  with n e pok b show ?thesis by (auto simp: names_add_Inr group_ok_def plain_trim)
qed

lemma build_groups_ok:
  "casing_ok cs \<Longrightarrow> build_groups cs gs seen = Inr bs \<Longrightarrow>
   (\<forall>b\<in>set bs. group_ok cs b \<and> map_of seen (norm cs (gr_Name b)) = None) \<and> distinct (map (norm cs \<circ> gr_Name) bs)"
proof (induction gs arbitrary: seen bs)
  case (Cons g gs)
  from Cons.prems(2) obtain b seen' bs' where b: "buildGroup cs g seen = Inr (b, seen')" and r: "build_groups cs gs seen' = Inr bs'"
    and bs: "bs = b # bs'" by (auto split: sum.split_asm)
  note k = buildGroup_ok[OF Cons.prems(1) b] and ih = Cons.IH[OF Cons.prems(1) r]
  have fr: "map_of seen (norm cs (gr_Name x)) = None \<and> norm cs (gr_Name x) \<noteq> norm cs (gr_Name b)" if "x \<in> set bs'" for x
    using ih k that by (auto simp: map_of_smap_put split: if_split_asm)
  have "norm cs (gr_Name b) \<notin> (norm cs \<circ> gr_Name) ` set bs'"
  proof
    assume "norm cs (gr_Name b) \<in> (norm cs \<circ> gr_Name) ` set bs'"
    then obtain x where "x \<in> set bs'" "norm cs (gr_Name b) = norm cs (gr_Name x)" by auto
    with fr[of x] show False by simp
  qed
  with ih k bs fr show ?case by auto
qed simp

lemma NewGroupedCatalog_ok:
  assumes "casing_ok cs" "NewGroupedCatalog cs shared groups = Inr c"
  shows "catalog_ok cs c"
proof -
  obtain out where out: "build_groups cs groups [] = Inr out" "c = empty_catalog\<lparr>ct_groups := sort_key (\<lambda>g. cs_lower cs (gr_Name g)) out, ct_shared := shared\<rparr>"
    using assms(2) by (auto simp: NewGroupedCatalog_def Let_def split: if_split_asm sum.split_asm option.split_asm)
  note k = build_groups_ok[OF assms(1) out(1)]
  have "mset (map (norm cs \<circ> gr_Name) (ct_groups c)) = mset (map (norm cs \<circ> gr_Name) out)" by (simp add: out(2))
  then have "distinct (map (norm cs \<circ> gr_Name) (ct_groups c))" using k mset_eq_imp_distinct_iff by blast
  with k show ?thesis by (auto simp: catalog_ok_def out(2) empty_catalog_def)
qed

lemma NewCatalog_ok:
  assumes "NewCatalog cs visit = Inr c"
  shows "catalog_ok cs c"
proof -
  let ?e = "\<lambda>(n, vs). \<lparr>en_name = trim_white n, en_values = vs\<rparr>" and ?own = "filter (\<lambda>(n, vs). norm cs n \<noteq> SharedEnvKey)"
  obtain sh envs where run: "NewCatalog_loop cs visit [] None [] = Inr (sh, envs)"
    and c: "c = empty_catalog\<lparr>ct_envs := map (\<lambda>e. e\<lparr>en_values := mergeValues cs [case sh of None \<Rightarrow> [] | Some m \<Rightarrow> m, en_values e]\<rparr>)
        (sort_key (\<lambda>e. cs_lower cs (en_name e)) envs)\<rparr>"
    using assms by (auto simp: NewCatalog_def Let_def split: if_split_asm sum.split_asm option.split_asm)
  note l = run[unfolded NewCatalog_loop_Inr]
  have envs: "envs = map ?e (?own visit)" using l by simp
  have ks: "map (norm cs \<circ> en_name) (map ?e xs) = map (norm cs \<circ> fst) xs" for xs by (induction xs) auto
  have "distinct (map (norm cs \<circ> fst) visit)" using l by (simp add: fresh_names_def)
  then have "distinct (map (norm cs \<circ> en_name) envs)" unfolding envs ks by (rule distinct_map_filter)
  moreover have m: "mset (map en_name (ct_envs c)) = mset (map en_name envs)" by (simp add: c comp_def)
  then have "mset (map (norm cs \<circ> en_name) (ct_envs c)) = mset (map (norm cs \<circ> en_name) envs)"
    by (metis map_map mset_map)
  ultimately have "distinct (map (norm cs \<circ> en_name) (ct_envs c))" using mset_eq_imp_distinct_iff by blast
  moreover have "plain_name cs (en_name e)" if "e \<in> set (ct_envs c)" for e
  proof -
    have "en_name e \<in> set (map en_name envs)" using that mset_eq_setD[OF m] by auto
    then show ?thesis using l by (auto simp: envs fresh_names_def intro!: plain_trim)
  qed
  ultimately show ?thesis by (simp add: catalog_ok_def c empty_catalog_def)
qed

section \<open>Selections\<close>

text \<open>
  The names of the groups, and those of the profiles of a group, must differ by more than their case: \<open>ToLower\<close>, by which
  duplicates are rejected, tells some apart that \<open>EqualFold\<close>, by which they are found, does not (the letters s and U+017F).
\<close>

definition folds_apart :: "casing \<Rightarrow> Catalog \<Rightarrow> bool" where
  "folds_apart cs c \<longleftrightarrow> (\<forall>a\<in>set (ct_groups c). \<forall>b\<in>set (ct_groups c). cs_fold cs (gr_Name a) (gr_Name b) \<longrightarrow> a = b) \<and>
     (\<forall>g\<in>set (ct_groups c). \<forall>p\<in>fst ` set (gr_Profiles g). \<forall>q\<in>fst ` set (gr_Profiles g). cs_fold cs p q \<longrightarrow> p = q)"

lemma profile_self:
  assumes "casing_ok cs" "catalog_ok cs c" "folds_apart cs c" "g \<in> set (ct_groups c)" "p \<in> fst ` set (gr_Profiles g)"
  shows "mapName cs (gr_Profiles g) p = Some p"
proof (rule mapName_self[OF assms(1,5)])
  show "trim_white p = p" using assms(2,4,5) by (auto simp: catalog_ok_def group_ok_def profiles_ok_def plain_name_def)
  show "\<forall>q\<in>fst ` set (gr_Profiles g). cs_fold cs q p \<longrightarrow> q = p" using assms(3,4,5) unfolding folds_apart_def by blast
qed

lemma findGroup_self:
  assumes "casing_ok cs" "catalog_ok cs c" "folds_apart cs c" "g \<in> set (ct_groups c)"
  shows "findGroup cs c (gr_Name g) = Some g"
proof -
  have t: "trim_white (gr_Name g) = gr_Name g" using assms(2,4) by (simp add: catalog_ok_def group_ok_def plain_name_def)
  have "\<exists>x. find (\<lambda>x. cs_fold cs (gr_Name x) (gr_Name g)) (ct_groups c) = Some x"
    using assms(4) casing_okD(1)[OF assms(1)] by (metis find_None_iff not_Some_eq)
  then obtain x where x: "find (\<lambda>x. cs_fold cs (gr_Name x) (gr_Name g)) (ct_groups c) = Some x" by blast
  with find_some[OF x] assms(3,4) have "x = g" by (simp add: folds_apart_def)
  with x t show ?thesis by (simp add: findGroup_def)
qed

text \<open>A choice in every group, each a profile of the group under its own name.\<close>

definition choice_ok :: "Catalog \<Rightarrow> string smap \<Rightarrow> bool" where
  "choice_ok c ps \<longleftrightarrow> smap_ok ps \<and> fst ` set ps = gr_Name ` set (ct_groups c) \<and>
     (\<forall>g\<in>set (ct_groups c). \<forall>p. (gr_Name g, p) \<in> set ps \<longrightarrow> p \<in> fst ` set (gr_Profiles g))"

lemma names_distinct: "catalog_ok cs c \<Longrightarrow> distinct (map gr_Name (ct_groups c))"
  unfolding catalog_ok_def map_map[symmetric] by (blast intro: distinct_mapI)

lemma group_by_name: "catalog_ok cs c \<Longrightarrow> h \<in> set (ct_groups c) \<Longrightarrow> g \<in> set (ct_groups c) \<Longrightarrow> gr_Name h = gr_Name g \<Longrightarrow> h = g"
  using names_distinct[of cs c] inj_onD[of gr_Name "set (ct_groups c)" h g] by (simp add: distinct_map)

lemma choice_put:
  assumes "catalog_ok cs c" "choice_ok c ps" "g \<in> set (ct_groups c)" "p \<in> fst ` set (gr_Profiles g)"
  shows "choice_ok c (smap_put (gr_Name g) p ps)"
proof -
  have inj: "h = g" if "h \<in> set (ct_groups c)" "gr_Name h = gr_Name g" for h
    by (rule group_by_name[OF assms(1) that(1) assms(3) that(2)])
  have "fst ` set (smap_put (gr_Name g) p ps) = dom (map_of (smap_put (gr_Name g) p ps))" by (simp add: dom_map_of_conv_image_fst)
  also have "\<dots> = insert (gr_Name g) (fst ` set ps)" by (simp add: map_of_smap_put dom_map_of_conv_image_fst)
  also have "\<dots> = gr_Name ` set (ct_groups c)" using assms(2,3) by (auto simp: choice_ok_def)
  finally have d: "fst ` set (smap_put (gr_Name g) p ps) = gr_Name ` set (ct_groups c)" .
  have ok: "smap_ok (smap_put (gr_Name g) p ps)" using assms(2) by (simp add: choice_ok_def smap_ok_put)
  have "q \<in> fst ` set (gr_Profiles h)" if "h \<in> set (ct_groups c)" "(gr_Name h, q) \<in> set (smap_put (gr_Name g) p ps)" for h q
  proof (cases "h = g")
    case True
    have "map_of (smap_put (gr_Name g) p ps) (gr_Name h) = Some q"
      using that(2) smap_ok_distinct[OF ok] by (simp add: map_of_is_SomeI)
    then show ?thesis using True assms(4) by (simp add: map_of_smap_put)
  next
    case False
    then have "(gr_Name h, q) \<in> set ps" using that inj set_smap_put[of "gr_Name g" p ps] by auto
    then show ?thesis using assms(2) that(1) by (simp add: choice_ok_def)
  qed
  with d ok show ?thesis by (simp add: choice_ok_def)
qed

lemma Select_loop_ok:
  assumes "casing_ok cs" "catalog_ok cs c"
  shows "Select_loop cs c profiles seen ps = Inr ps' \<Longrightarrow> choice_ok c ps \<Longrightarrow> choice_ok c ps'"
proof (induction profiles arbitrary: seen ps)
  case (Cons x profiles)
  obtain rg rp where x: "x = (rg, rp)" by (cases x)
  from Cons.prems(1) obtain gn seen' g p where g: "findGroup cs c gn = Some g" and p: "mapName cs (gr_Profiles g) rp = Some p"
    and r: "Select_loop cs c profiles seen' (smap_put (gr_Name g) p ps) = Inr ps'"
    by (auto simp: x split: sum.split_asm option.split_asm)
  have gin: "g \<in> set (ct_groups c)" using find_some[OF g[unfolded findGroup_def]] by simp
  from Cons.IH[OF r choice_put[OF assms(2) Cons.prems(2) gin mapName_in[OF assms(1) p]]] show ?case .
qed simp

lemma default_choice:
  assumes "catalog_ok cs c" "Grouped c"
  shows "choice_ok c (sl_profiles (DefaultSelection cs c))"
proof -
  let ?put = "\<lambda>g m. smap_put (gr_Name g) (gr_Default g) m"
  have m: "map_of (fold ?put gs m) = map_of m ++ map_of (map (\<lambda>g. (gr_Name g, gr_Default g)) gs)"
    if "distinct (map gr_Name gs)" for gs and m :: "string smap" using that
  proof (induction gs arbitrary: m)
    case (Cons g gs)
    then have n: "map_of (map (\<lambda>g. (gr_Name g, gr_Default g)) gs) (gr_Name g) = None" by (auto simp: map_of_eq_None_iff)
    from Cons n show ?case by (auto simp: map_of_smap_put map_add_def fun_eq_iff split: option.split)
  qed simp
  have ok: "smap_ok (fold ?put gs m)" if "smap_ok m" for gs and m :: "string smap"
    using that by (induction gs arbitrary: m) (auto intro: smap_ok_put)
  let ?ps = "fold ?put (ct_groups c) []" and ?l = "map (\<lambda>g. (gr_Name g, gr_Default g)) (ct_groups c)"
  have mm: "map_of ?ps = map_of ?l" using m[OF names_distinct[OF assms(1)], of "[]"] by simp
  have d: "distinct (map fst ?l)" using names_distinct[OF assms(1)] by (simp add: comp_def)
  have s: "set ?ps = set ?l" using map_of_inject_set[OF smap_ok_distinct[OF ok[OF smap_ok_Nil]] d] mm by blast
  have "p \<in> fst ` set (gr_Profiles g)" if gi: "g \<in> set (ct_groups c)" and gp: "(gr_Name g, p) \<in> set ?ps" for g p
  proof -
    obtain h where "h \<in> set (ct_groups c)" "gr_Name h = gr_Name g" "p = gr_Default h" using gp unfolding s by auto
    then have "p = gr_Default g" using group_by_name[OF assms(1) _ gi] by metis
    then show ?thesis using assms(1) gi by (simp add: catalog_ok_def group_ok_def)
  qed
  then show ?thesis using assms(2) ok[OF smap_ok_Nil] s
    by (simp add: choice_ok_def DefaultSelection_def GroupSelection_def no_selection_def image_image)
qed

lemma Select_loop_self:
  assumes "casing_ok cs" "catalog_ok cs c" "folds_apart cs c" "choice_ok c ps"
  shows "set kvs \<subseteq> set ps \<Longrightarrow> fresh_names cs seen (map fst kvs) \<Longrightarrow>
    Select_loop cs c kvs seen acc = Inr (fold (\<lambda>(n, p) m. smap_put n p m) kvs acc)"
proof (induction kvs arbitrary: seen acc)
  case (Cons x kvs)
  obtain n p where x: "x = (n, p)" by (cases x)
  have "n \<in> fst ` set ps" using Cons.prems(1) by (force simp: x)
  then obtain g where g: "g \<in> set (ct_groups c)" "n = gr_Name g" using assms(4) by (auto simp: choice_ok_def)
  have t: "trim_white n = n" using assms(2) g by (simp add: catalog_ok_def group_ok_def plain_name_def)
  have f: "findGroup cs c n = Some g" using findGroup_self[OF assms(1-3) g(1)] g(2) by simp
  have "p \<in> fst ` set (gr_Profiles g)" using assms(4) g Cons.prems(1) by (auto simp: x choice_ok_def)
  then have p: "mapName cs (gr_Profiles g) p = Some p" by (rule profile_self[OF assms(1-3) g(1)])
  from Cons.prems(2) have a: "norm cs n \<noteq> []" "map_of seen (norm cs n) = None" "fresh_names cs (smap_put (norm cs n) n seen) (map fst kvs)"
    using fresh_names_Cons[of cs seen n "map fst kvs" n] by (simp_all add: x)
  then have "names_add cs ''selected group'' n seen = Inr (n, smap_put (norm cs n) n seen)" by (simp add: names_add_Inr t)
  with f p g(2) Cons.IH[OF _ a(3)] Cons.prems(1) show ?case by (simp add: x)
qed simp

lemma map_of_puts: "map_of (fold (\<lambda>(n, p) m. smap_put n p m) kvs acc) = map_of acc ++ map_of (rev kvs)"
  by (induction kvs arbitrary: acc) (auto simp: map_of_smap_put)

lemma smap_ok_puts: "smap_ok acc \<Longrightarrow> smap_ok (fold (\<lambda>(n, p) m. smap_put n p m) kvs acc)"
  by (induction kvs arbitrary: acc) (auto intro: smap_ok_put)

lemma choice_again:
  assumes "casing_ok cs" "catalog_ok cs c" "folds_apart cs c" "choice_ok c ps" "choice_ok c acc" "mset kvs = mset ps"
  shows "Select_loop cs c kvs [] acc = Inr ps"
proof -
  have ok: "smap_ok ps" "smap_ok acc" and d: "dom (map_of ps) = dom (map_of acc)"
    using assms(4,5) by (simp_all add: choice_ok_def dom_map_of_conv_image_fst)
  have s: "set kvs = set ps" by (rule mset_eq_setD[OF assms(6)])
  have "mset (map fst kvs) = mset (map fst ps)" using assms(6) by simp
  then have dd: "distinct (map fst kvs)" using smap_ok_distinct[OF ok(1)] mset_eq_imp_distinct_iff by blast
  have kv: "map_of kvs = map_of ps" using map_of_inject_set[OF dd smap_ok_distinct[OF ok(1)]] s by blast
  have "inj_on (norm cs) (gr_Name ` set (ct_groups c))" using assms(2) by (auto simp: catalog_ok_def distinct_map inj_on_def)
  moreover have "set (map fst kvs) = gr_Name ` set (ct_groups c)" using assms(4) by (simp add: choice_ok_def s)
  ultimately have "distinct (map (norm cs) (map fst kvs))" using dd by (metis distinct_map)
  moreover have "norm cs n \<noteq> []" if "n \<in> set (map fst kvs)" for n
    using that assms(2) \<open>set (map fst kvs) = _\<close> by (auto simp: catalog_ok_def group_ok_def plain_name_def)
  ultimately have "fresh_names cs [] (map fst kvs)" by (simp add: fresh_names_def)
  then have "Select_loop cs c kvs [] acc = Inr (fold (\<lambda>(n, p) m. smap_put n p m) kvs acc)"
    by (rule Select_loop_self[OF assms(1-4) equalityD1[OF s]])
  moreover have "map_of (fold (\<lambda>(n, p) m. smap_put n p m) kvs acc) = map_of ps"
  proof
    fix x
    show "map_of (fold (\<lambda>(n, p) m. smap_put n p m) kvs acc) x = map_of ps x"
      using d unfolding map_of_puts map_of_rev[OF dd] kv by (cases "map_of ps x") (auto simp: map_add_def)
  qed
  ultimately show ?thesis using smap_ext[OF smap_ok_puts[OF ok(2)] ok(1)] by metis
qed

lemma find_env_again:
  assumes "casing_ok cs" "catalog_ok cs c" "findEnv cs c n = Some e"
  shows "findEnv cs c (en_name e) = Some e" "trim_white (en_name e) = en_name e" "en_name e \<noteq> []"
proof -
  note f = find_some[OF assms(3)[unfolded findEnv_def]]
  have p: "plain_name cs (en_name e)" using f assms(2) by (simp add: catalog_ok_def)
  then show t: "trim_white (en_name e) = en_name e" by (simp add: plain_name_def)
  show "en_name e \<noteq> []" using p casing_okD(3)[OF assms(1)] by (auto simp: plain_name_def)
  have "cs_fold cs (en_name x) (en_name e) = cs_fold cs (en_name x) (trim_white n)" for x :: entry
    using casing_okD(2)[OF assms(1)] f by simp
  then show "findEnv cs c (en_name e) = Some e" using assms(3) t by (simp add: findEnv_def)
qed

lemma default_env_again:
  assumes "casing_ok cs" "catalog_ok cs c" "\<not> Grouped c"
  shows "Select cs c (sl_name (DefaultSelection cs c)) [] = Inr (DefaultSelection cs c)"
proof -
  have hit: "Select cs c (en_name e) [] = Inr (no_selection\<lparr>sl_name := en_name e\<rparr>)" if "findEnv cs c n = Some e" for e n
    using find_env_again[OF assms(1,2) that] assms(3) by (simp add: Select_def)
  have first: "findEnv cs c (en_name e) = Some e" if "ct_envs c = e # es" for e es
    using assms(2) that casing_okD(1)[OF assms(1)] by (simp add: findEnv_def catalog_ok_def plain_name_def)
  show ?thesis
  proof (cases "List.map_filter (findEnv cs c) defaultEnvNames")
    case Nil
    show ?thesis
    proof (cases "ct_envs c")
      case Nil
      have "trim_white [] = []" by code_simp
      then have "Select cs c [] [] = Inr (DefaultSelection cs c)" using assms(3) by (simp add: Select_def)
      then show ?thesis using Nil \<open>List.map_filter _ _ = []\<close> assms(3) by (simp add: DefaultSelection_def no_selection_def)
    next
      case (Cons e es)
      then show ?thesis using Nil hit[OF first[OF Cons]] assms(3) by (simp add: DefaultSelection_def)
    qed
  next
    case (Cons e es)
    then have "e \<in> set (List.map_filter (findEnv cs c) defaultEnvNames)" by simp
    then obtain n where "findEnv cs c n = Some e" by (auto simp: List.map_filter_def)
    from hit[OF this] show ?thesis using Cons assms(3) by (simp add: DefaultSelection_def)
  qed
qed

text \<open>Another order in which maps are visited changes nothing for a flat catalog.\<close>

lemma revisit_simps [simp]:
  "findEnv (cs\<lparr>cs_visit := v\<rparr>) c = findEnv cs c" "norm (cs\<lparr>cs_visit := v\<rparr>) = norm cs"
  "catalog_ok (cs\<lparr>cs_visit := v\<rparr>) c = catalog_ok cs c" "folds_apart (cs\<lparr>cs_visit := v\<rparr>) c = folds_apart cs c"
  by (simp_all add: fun_eq_iff findEnv_def catalog_ok_def group_ok_def profiles_ok_def plain_name_def folds_apart_def)

lemma revisit_flat:
  assumes "\<not> Grouped c"
  shows "Select (cs\<lparr>cs_visit := v\<rparr>) c = Select cs c"
proof -
  have f: "findEnv (cs\<lparr>cs_visit := v\<rparr>) c = findEnv cs c" by simp
  have "DefaultSelection (cs\<lparr>cs_visit := v\<rparr>) c = DefaultSelection cs c" using assms by (simp add: DefaultSelection_def)
  then show ?thesis using assms by (simp add: fun_eq_iff Select_def f Let_def)
qed

lemma select_flat_again:
  assumes ok: "casing_ok cs" "catalog_ok cs c" and sel: "Select cs c n profiles = Inr sel" and flat: "\<not> Grouped c"
  shows "Select cs c (sl_name sel) (sl_profiles sel) = Inr sel" "sl_profiles sel = []"
proof -
  have np: "profiles = []" using sel flat by (simp add: Select_def split: if_split_asm)
  have dp: "sl_profiles (DefaultSelection cs c) = []" using flat
    by (auto simp: DefaultSelection_def no_selection_def split: list.split)
  have "Select cs c (sl_name sel) (sl_profiles sel) = Inr sel \<and> sl_profiles sel = []"
  proof (cases "trim_white n = []")
    case True
    then have "sel = DefaultSelection cs c" using sel flat np by (simp add: Select_def)
    with default_env_again[OF ok flat] dp show ?thesis by simp
  next
    case n: False
    show ?thesis
    proof (cases "findEnv cs c (trim_white n)")
      case None
      then have "ct_envs c = []" "sel = no_selection\<lparr>sl_name := trim_white n\<rparr>"
        using sel flat np n by (auto simp: Select_def Let_def split: if_split_asm)
      then show ?thesis using flat n by (simp add: Select_def findEnv_def no_selection_def trim_white_idem)
    next
      case (Some e)
      then have "sel = no_selection\<lparr>sl_name := en_name e\<rparr>" using sel flat np n by (simp add: Select_def)
      then show ?thesis using flat find_env_again[OF ok Some] by (simp add: Select_def no_selection_def)
    qed
  qed
  then show "Select cs c (sl_name sel) (sl_profiles sel) = Inr sel" "sl_profiles sel = []" by auto
qed

lemma select_again:
  assumes ok: "casing_ok cs" "catalog_ok cs c" "folds_apart cs c" and sel: "Select cs c n profiles = Inr sel"
    and v: "casing_ok (cs\<lparr>cs_visit := v\<rparr>)" and kvs: "mset kvs = mset (sl_profiles sel)"
  shows "Select (cs\<lparr>cs_visit := v\<rparr>) c (sl_name sel) kvs = Inr sel"
proof (cases "Grouped c")
  case True
  let ?cs = "cs\<lparr>cs_visit := v\<rparr>"
  obtain ps where ps: "Select_loop cs c profiles [] (sl_profiles (DefaultSelection cs c)) = Inr ps"
    "sel = (DefaultSelection cs c)\<lparr>sl_profiles := ps\<rparr>"
    using sel True by (auto simp: Select_def Let_def split: if_split_asm sum.split_asm)
  note d = default_choice[OF ok(2) True]
  have def: "DefaultSelection ?cs c = DefaultSelection cs c" using True by (simp add: DefaultSelection_def)
  have "Select_loop ?cs c kvs [] (sl_profiles (DefaultSelection cs c)) = Inr ps"
    by (rule choice_again[OF v _ _ Select_loop_ok[OF ok(1,2) ps(1) d] d]) (use ok kvs ps(2) in auto)
  moreover have "trim_white [] = []" by code_simp
  moreover have "sl_name sel = []" using True by (simp add: ps(2) DefaultSelection_def GroupSelection_def no_selection_def)
  ultimately show ?thesis using True by (simp add: Select_def ps(2) def)
next
  case False
  from select_flat_again[OF ok(1,2) sel False] kvs show ?thesis unfolding revisit_flat[OF False] by simp
qed

text \<open>
  C19: a selection that a catalog made, by a name, by profiles or by default, is one it makes again: it resolves to an
  environment whose selection it is, and the intent made from that environment finds it again, in whatever orders the three
  calls visit the maps of profiles, and the map of the selection. The names of the groups, and the profiles of each group,
  must be told apart by \<open>EqualFold\<close> (\<open>folds_apart\<close>); lemma \<open>fold_equal_profiles\<close> shows what happens to others.
\<close>

theorem selection_resolves_to_itself:
  assumes "NewGroupedCatalog cs shared groups = Inr c \<or> NewCatalog cs visit = Inr c"
    and "folds_apart cs c" and "Select cs c n profiles = Inr sel"
    and "casing_ok cs" "casing_ok (cs\<lparr>cs_visit := v\<rparr>)" "casing_ok (cs\<lparr>cs_visit := w\<rparr>)"
    and "mset kvs = mset (sl_profiles sel)"
  shows "(case ResolveEnv (cs\<lparr>cs_visit := v\<rparr>) sha c sel of Inl e \<Rightarrow> False
    | Inr env \<Rightarrow> ev_sel env = sel \<and> Intent_Resolve (cs\<lparr>cs_visit := w\<rparr>) c (IntentFor c env) = Some sel)
    \<and> Select (cs\<lparr>cs_visit := v\<rparr>) c (sl_name sel) kvs = Inr sel"
proof -
  have ok: "catalog_ok cs c" using assms(1) NewGroupedCatalog_ok[OF assms(4)] NewCatalog_ok by blast
  note again = select_again[OF assms(4) ok assms(2,3)]
  have "sl_name sel = [] \<or> \<not> Grouped c" "sl_profiles sel = [] \<or> Grouped c"
    using assms(3) by (auto simp: Select_def DefaultSelection_def GroupSelection_def no_selection_def Let_def
      split: if_split_asm sum.split_asm option.split_asm list.split_asm)
  with again[OF assms(5) refl] again[OF assms(6) refl] again[OF assms(5,7)] show ?thesis
    by (cases "Grouped c") (auto simp: ResolveEnv_def Intent_Resolve_def IntentFor_def)
qed

section \<open>Scopes\<close>

lemma digits_no_colon: "0 \<le> n \<Longrightarrow> CHR '':'' \<notin> set (int_digits n)"
proof -
  assume n: "0 \<le> n"
  have "\<not> is_digit CHR '':''" by code_simp
  with int_digits_read[OF n] show ?thesis by (auto simp: list_all_iff)
qed

lemma upto_colon: "CHR '':'' \<notin> set a \<Longrightarrow> CHR '':'' \<notin> set b \<Longrightarrow> a @ CHR '':'' # s = b @ CHR '':'' # t \<Longrightarrow> a = b \<and> s = t"
proof (induction a arbitrary: b)
  case Nil
  then show ?case by (cases b) auto
next
  case (Cons x a)
  then show ?case by (cases b) auto
qed

lemma writePart_inj: "writePart a @ s = writePart b @ t \<Longrightarrow> a = b \<and> s = t"
proof -
  assume e: "writePart a @ s = writePart b @ t"
  let ?d = "\<lambda>x :: string. int_digits (int (length x))"
  have "?d a @ CHR '':'' # a @ s = ?d b @ CHR '':'' # b @ t" using e by (simp add: writePart_def int_str_def)
  from upto_colon[OF digits_no_colon digits_no_colon this] have d: "?d a = ?d b \<and> a @ s = b @ t" by simp
  have "digits_val (?d x) = int (length x)" for x using int_digits_read[of "int (length x)"] by simp
  with d have "int (length a) = int (length b)" by metis
  with d show ?thesis by simp
qed

lemma parts_inj: "concat (map writePart xs) = concat (map writePart ys) \<Longrightarrow> xs = ys"
proof (induction xs arbitrary: ys)
  case Nil
  then show ?case by (cases ys) (auto simp: writePart_def)
next
  case (Cons x xs)
  from Cons.prems obtain y ys' where ys: "ys = y # ys'" by (cases ys) (auto simp: writePart_def)
  with Cons.prems have "writePart x @ concat (map writePart xs) = writePart y @ concat (map writePart ys')" by simp
  from writePart_inj[OF this] Cons.IH ys show ?case by auto
qed

text \<open>The names that a message tells, one after the other.\<close>

definition message_names :: "casing \<Rightarrow> Group list \<Rightarrow> Selection \<Rightarrow> string \<Rightarrow> string list" where
  "message_names cs groups sel source =
     concat (map (\<lambda>g. [cs_lower cs (gr_Name g), cs_lower cs (profile_of sel (gr_Name g))]) groups) @ (if source = [] then [] else [source])"

lemma group_message_parts: "group_message cs groups sel source = concat (map writePart (message_names cs groups sel source))"
  by (induction groups) (auto simp: group_message_def message_names_def)

lemma pairs_inj:
  "concat (map (\<lambda>g. [f g, h g]) xs) @ u = concat (map (\<lambda>g. [f' g, h' g]) ys) @ v \<Longrightarrow> length u \<le> 1 \<Longrightarrow> length v \<le> 1 \<Longrightarrow>
   map (\<lambda>g. (f g, h g)) xs = map (\<lambda>g. (f' g, h' g)) ys \<and> u = v"
proof (induction xs arbitrary: ys)
  case Nil
  then show ?case by (cases ys) auto
next
  case (Cons x xs)
  then obtain y ys' where ys: "ys = y # ys'" by (cases ys) auto
  with Cons.prems Cons.IH[of ys'] show ?case by simp
qed

lemma digest_end: "length d = length d' \<Longrightarrow> a @ CHR ''@'' # d = b @ CHR ''@'' # d' \<Longrightarrow> a = b \<and> d = d'"
  by simp

lemma group_message_inj:
  "group_message cs gs sel s = group_message cs gs' sel' s' \<longleftrightarrow>
     map (\<lambda>g. (cs_lower cs (gr_Name g), cs_lower cs (profile_of sel (gr_Name g)))) gs =
       map (\<lambda>g. (cs_lower cs (gr_Name g), cs_lower cs (profile_of sel' (gr_Name g)))) gs' \<and> s = s'"
proof -
  let ?f = "\<lambda>g. cs_lower cs (gr_Name g)" and ?h = "\<lambda>sel g. cs_lower cs (profile_of sel (gr_Name g))"
  have "group_message cs gs sel s = group_message cs gs' sel' s' \<longleftrightarrow> message_names cs gs sel s = message_names cs gs' sel' s'"
    unfolding group_message_parts using parts_inj by metis
  also have "\<dots> \<longleftrightarrow> map (\<lambda>g. (?f g, ?h sel g)) gs = map (\<lambda>g. (?f g, ?h sel' g)) gs' \<and> s = s'"
  proof
    assume "message_names cs gs sel s = message_names cs gs' sel' s'"
    have l: "length (if x = [] then [] else [x]) \<le> 1" for x :: string by simp
    from pairs_inj[OF \<open>message_names cs gs sel s = _\<close>[unfolded message_names_def] l l] show "map (\<lambda>g. (?f g, ?h sel g)) gs = map (\<lambda>g. (?f g, ?h sel' g)) gs' \<and> s = s'"
      by (auto split: if_split_asm)
  next
    assume a: "map (\<lambda>g. (?f g, ?h sel g)) gs = map (\<lambda>g. (?f g, ?h sel' g)) gs' \<and> s = s'"
    have x: "concat (map (\<lambda>g. [?f g, ?h sel g]) gs) = concat (map (\<lambda>(a, b). [a, b]) (map (\<lambda>g. (?f g, ?h sel g)) gs))" for gs sel
      by (simp add: comp_def)
    show "message_names cs gs sel s = message_names cs gs' sel' s'"
      by (simp only: message_names_def x conjunct1[OF a] conjunct2[OF a])
  qed
  finally show ?thesis .
qed

text \<open>
  C21: scopes tell selections apart. Where SHA-256 does not collide (on the two texts that are hashed for the groups, and in
  the digits kept of the digests of the two files), two single environments have one scope exactly if they have one name and
  come from one file, two selections of groups exactly if they choose the same profiles in the same groups, up to their case,
  and come from one file; and no environment shares the scope of a selection of groups.
\<close>

theorem scopes_tell_selections_apart:
  assumes "\<And>x. length (sha x) = 64"
    and "sourceDigest sha s = sourceDigest sha s' \<Longrightarrow> s = s'"
    and "sha (group_message cs gs sel s) = sha (group_message cs gs' sel' s') \<Longrightarrow>
      group_message cs gs sel s = group_message cs gs' sel' s'"
  shows "(flatScope sha n s = flatScope sha n' s' \<longleftrightarrow> n = n' \<and> s = s') \<and>
    (groupScope cs sha gs sel s = groupScope cs sha gs' sel' s' \<longleftrightarrow>
      map (\<lambda>g. (cs_lower cs (gr_Name g), cs_lower cs (profile_of sel (gr_Name g)))) gs =
        map (\<lambda>g. (cs_lower cs (gr_Name g), cs_lower cs (profile_of sel' (gr_Name g)))) gs' \<and> s = s') \<and>
    flatScope sha n s \<noteq> groupScope cs sha gs' sel' s'"
proof (intro conjI)
  have "length (sourceDigest sha s) = length (sourceDigest sha s')" by (simp add: sourceDigest_def assms(1))
  then show "flatScope sha n s = flatScope sha n' s' \<longleftrightarrow> n = n' \<and> s = s'"
    using assms(2) by (auto simp: flatScope_def scopeFlatVersion_def scopeFlatSourceVersion_def)
  have "groupScope cs sha gs sel s = groupScope cs sha gs' sel' s' \<longleftrightarrow>
      group_message cs gs sel s = group_message cs gs' sel' s' \<and> (s = [] \<longleftrightarrow> s' = [])"
    using assms(3) by (auto simp: groupScope_def scopeVersion_def scopeSourceVersion_def)
  then show "groupScope cs sha gs sel s = groupScope cs sha gs' sel' s' \<longleftrightarrow>
      map (\<lambda>g. (cs_lower cs (gr_Name g), cs_lower cs (profile_of sel (gr_Name g)))) gs =
        map (\<lambda>g. (cs_lower cs (gr_Name g), cs_lower cs (profile_of sel' (gr_Name g)))) gs' \<and> s = s'"
    unfolding group_message_inj by auto
  show "flatScope sha n s \<noteq> groupScope cs sha gs' sel' s'"
    by (simp add: flatScope_def groupScope_def scopeFlatVersion_def scopeFlatSourceVersion_def scopeVersion_def scopeSourceVersion_def)
qed

section \<open>The values of an environment\<close>

text \<open>The value a map of values gives a name, read through its key as the resolver reads it.\<close>

definition value_in :: "casing \<Rightarrow> string \<Rightarrow> string smap \<Rightarrow> string option" where
  "value_in cs n vs = nm_Get (cs_lower cs) n (CollectNames (cs_lower cs) vs)"

lemma get_layer:
  assumes "nm_ok lower m"
  shows "nm_Get lower n (nm_SetMap lower l m) = (case nm_Get lower n (CollectNames lower l) of Some v \<Rightarrow> Some v | None \<Rightarrow> nm_Get lower n m)"
  using get_set_names[OF assms, of n l] get_set_names[OF nm_ok_Nil, of lower n l] nm_Get_blank[OF assms, of n]
  by (auto simp: nm_SetMap_def CollectNames_def nm_Get_def split: option.split)

lemma get_layers_none:
  "nm_ok lower m \<Longrightarrow> (\<forall>l\<in>set layers. nm_Get lower n (CollectNames lower l) = None) \<Longrightarrow>
   nm_Get lower n (fold (nm_SetMap lower) layers m) = nm_Get lower n m"
proof (induction layers arbitrary: m)
  case (Cons l layers)
  have "nm_ok lower (nm_SetMap lower l m)" using Cons.prems(1) by (simp add: nm_SetMap_def set_names_ok)
  with Cons show ?case by (simp add: get_layer)
qed simp

lemma get_layers_some:
  "nm_ok lower m \<Longrightarrow> l \<in> set layers \<Longrightarrow> nm_Get lower n (CollectNames lower l) = Some v \<Longrightarrow>
   (\<forall>k\<in>set layers. nm_Get lower n (CollectNames lower k) \<noteq> None \<longrightarrow> nm_Get lower n (CollectNames lower k) = Some v) \<Longrightarrow>
   nm_Get lower n (fold (nm_SetMap lower) layers m) = Some v"
proof (induction layers arbitrary: m l)
  case (Cons k layers)
  have ok: "nm_ok lower (nm_SetMap lower k m)" using Cons.prems(1) by (simp add: nm_SetMap_def set_names_ok)
  show ?case
  proof (cases "\<exists>k\<in>set layers. nm_Get lower n (CollectNames lower k) \<noteq> None")
    case True
    then obtain k' where "k' \<in> set layers" "nm_Get lower n (CollectNames lower k') = Some v" using Cons.prems(4) by auto
    from Cons.IH[OF ok this] Cons.prems(4) show ?thesis by simp
  next
    case False
    then have "k = l" using Cons.prems(2,3) by auto
    then show ?thesis using get_layers_none[OF ok, of layers n] False Cons.prems(1,3) by (simp add: get_layer)
  qed
qed simp

lemma value_merged: "value_in cs n (mergeValues cs layers) = nm_Get (cs_lower cs) n (fold (nm_SetMap (cs_lower cs)) layers [])"
proof -
  have "nm_ok lower (fold (nm_SetMap lower) ls m)" if "nm_ok lower m" for ls and m :: "string NameMap" and lower
    using that by (induction ls arbitrary: m) (auto simp: nm_SetMap_def set_names_ok)
  then show ?thesis unfolding value_in_def mergeValues_def by (rule nm_Map_reads_back) simp
qed

lemma value_in_set: "value_in cs n vs \<noteq> None \<Longrightarrow> \<exists>m\<in>fst ` set vs. norm cs m = norm cs n"
proof (rule ccontr)
  assume a: "value_in cs n vs \<noteq> None" and "\<not> (\<exists>m\<in>fst ` set vs. norm cs m = norm cs n)"
  then have f: "find (\<lambda>(n', v). norm cs n' = norm cs n) (rev vs) = None" by (force simp: find_None_iff)
  have "nm_Get (cs_lower cs) n ([] :: string NameMap) = None" by (simp add: nm_Get_def)
  then have "value_in cs n vs = None"
    unfolding value_in_def CollectNames_def nm_SetMap_def get_set_names[OF nm_ok_Nil] f by simp
  with a show False by simp
qed

text \<open>Duplicates across groups are looked for among the names as they are written, lookups trim them.\<close>

definition names_trimmed :: "Catalog \<Rightarrow> bool" where
  "names_trimmed c \<longleftrightarrow> (\<forall>g\<in>set (ct_groups c). \<forall>(p, vs)\<in>set (gr_Profiles g). \<forall>n\<in>fst ` set vs. trim_white n = n)"

lemma disjoint_image: "(\<forall>n\<in>B. f n \<notin> A) \<longleftrightarrow> A \<inter> f ` B = {}"
  by auto

lemma collision_None: "collision cs a b = None \<longleftrightarrow> cs_lower cs ` fst ` set a \<inter> cs_lower cs ` fst ` set b = {}"
proof -
  let ?keys = "smap_of_list (map (\<lambda>(n, v). (cs_lower cs n, n)) a)"
  have k: "map_of ?keys x = None \<longleftrightarrow> x \<notin> cs_lower cs ` fst ` set a" for x
    unfolding map_of_smap_of_list by (force simp: map_of_eq_None_iff)
  have "(case find (\<lambda>(n, v). map_of ?keys (cs_lower cs n) \<noteq> None) b of None \<Rightarrow> None | Some (n, v) \<Rightarrow> map_of ?keys (cs_lower cs n)) = None
      \<longleftrightarrow> (\<forall>n\<in>fst ` set b. map_of ?keys (cs_lower cs n) = None)"
    by (induction b) (auto simp del: not_None_eq)
  also have "\<dots> \<longleftrightarrow> (\<forall>n\<in>fst ` set b. cs_lower cs n \<notin> cs_lower cs ` fst ` set a)" by (simp only: k)
  also have "\<dots> \<longleftrightarrow> cs_lower cs ` fst ` set a \<inter> cs_lower cs ` fst ` set b = {}" 
    by (rule disjoint_image)
  finally show ?thesis by (simp only: collision_def Let_def)
qed

lemma groups_disjoint:
  assumes "checkCollisions cs gs = None" "a \<in> set gs" "b \<in> set gs" "a \<noteq> b"
    and "(p, av) \<in> set (gr_Profiles a)" "(q, bv) \<in> set (gr_Profiles b)"
  shows "cs_lower cs ` fst ` set av \<inter> cs_lower cs ` fst ` set bv = {}"
proof -
  have pair: "cs_lower cs ` fst ` set av \<inter> cs_lower cs ` fst ` set bv = {}"
    if "group_collision cs a b = None" "(p, av) \<in> set (gr_Profiles a)" "(q, bv) \<in> set (gr_Profiles b)" for a b p q av bv
    using that unfolding collision_None[symmetric] by (fastforce simp: group_collision_def check_all_None split: option.split_asm)
  have "group_collision cs a b = None \<or> group_collision cs b a = None"
    using assms(1-4) by (induction gs) (auto simp: check_all_None split: option.split_asm)
  then show ?thesis using pair[of a b p av q bv] pair[of b a q bv p av] assms(5,6) by blast
qed

text \<open>
  C18: the profiles chosen in different groups never shadow each other: a name has in the environment the value of the chosen
  profile that sets it, in whatever order one asks the groups, or else the value of the shared variables. The names that the
  profiles set must carry no white space around them (\<open>names_trimmed\<close>): lemma \<open>spaced_names_collide_unseen\<close> shows two that
  do, load without an error and shadow each other.
\<close>

theorem groups_never_shadow:
  assumes "NewGroupedCatalog cs shared groups = Inr c" "names_trimmed c" "ResolveEnv cs sha c sel = Inr env"
    and "set gs = set (ct_groups c)"
  shows "value_in cs n (ev_values env) =
    (case find (\<lambda>g. value_in cs n (chosen (ev_sel env) g) \<noteq> None) gs of
       Some g \<Rightarrow> value_in cs n (chosen (ev_sel env) g) | None \<Rightarrow> value_in cs n shared)"
proof -
  let ?s = "ev_sel env" and ?lower = "cs_lower cs"
  have c: "ct_shared c = shared" "checkCollisions cs (ct_groups c) = None"
    using assms(1) by (auto simp: NewGroupedCatalog_def Let_def empty_catalog_def split: if_split_asm sum.split_asm option.split_asm)
  have "ct_groups c \<noteq> []"
  proof -
    obtain out where "build_groups cs groups [] = Inr out" "ct_groups c = sort_key (\<lambda>g. cs_lower cs (gr_Name g)) out" "groups \<noteq> []"
      using assms(1) by (auto simp: NewGroupedCatalog_def Let_def empty_catalog_def split: if_split_asm sum.split_asm option.split_asm)
    moreover from this have "out \<noteq> []" by (cases groups) (auto split: sum.split_asm)
    ultimately show ?thesis by (metis length_0_conv length_sort)
  qed
  then have env: "ev_values env = mergeValues cs (shared # map (chosen ?s) (ct_groups c))"
    using assms(3) c(1) by (auto simp: ResolveEnv_def Grouped_def split: sum.split_asm)
  have v: "value_in cs n (ev_values env) = nm_Get ?lower n (fold (nm_SetMap ?lower) (map (chosen ?s) (ct_groups c)) (CollectNames ?lower shared))"
    unfolding env value_merged by (simp add: CollectNames_def)
  have own: "a = b" if ga: "a \<in> set (ct_groups c)" and gb: "b \<in> set (ct_groups c)"
      and va: "value_in cs n (chosen ?s a) \<noteq> None" and vb: "value_in cs n (chosen ?s b) \<noteq> None" for a b
  proof (rule ccontr)
    assume ab: "a \<noteq> b"
    have prof: "\<exists>p vs m. (p, vs) \<in> set (gr_Profiles g) \<and> m \<in> fst ` set vs \<and> ?lower m = norm cs n"
      if "g \<in> set (ct_groups c)" "value_in cs n (chosen ?s g) \<noteq> None" for g
    proof -
      from value_in_set[OF that(2)] obtain m where m: "m \<in> fst ` set (chosen ?s g)" "norm cs m = norm cs n" by blast
      obtain vs where vs: "map_of (gr_Profiles g) (profile_of ?s (gr_Name g)) = Some vs" "m \<in> fst ` set vs"
        using m(1) by (cases "map_of (gr_Profiles g) (profile_of ?s (gr_Name g))") (simp_all add: chosen_def)
      have "trim_white m = m" using assms(2) that(1) vs map_of_SomeD[OF vs(1)] unfolding names_trimmed_def by fastforce
      then show ?thesis using m vs map_of_SomeD[OF vs(1)] by (metis NameKey_def)
    qed
    obtain p vs m where a: "(p, vs) \<in> set (gr_Profiles a)" "m \<in> fst ` set vs" "?lower m = norm cs n" using prof[OF ga va] by blast
    obtain q ws l where b: "(q, ws) \<in> set (gr_Profiles b)" "l \<in> fst ` set ws" "?lower l = norm cs n" using prof[OF gb vb] by blast
    have "norm cs n \<in> ?lower ` fst ` set vs \<inter> ?lower ` fst ` set ws" using a(2,3) b(2,3) by (metis IntI image_eqI)
    then show False using groups_disjoint[OF c(2) ga gb ab a(1) b(1)] by simp
  qed
  show ?thesis
  proof (cases "find (\<lambda>g. value_in cs n (chosen ?s g) \<noteq> None) gs")
    case None
    then have "\<forall>l\<in>set (map (chosen ?s) (ct_groups c)). nm_Get ?lower n (CollectNames ?lower l) = None"
      using assms(4) by (auto simp: find_None_iff value_in_def)
    from get_layers_none[OF CollectNames_ok this] show ?thesis unfolding v None by (simp add: value_in_def)
  next
    case (Some g)
    from find_some[OF Some] assms(4) have g: "g \<in> set (ct_groups c)" "value_in cs n (chosen ?s g) \<noteq> None" by auto
    then obtain x where x: "nm_Get ?lower n (CollectNames ?lower (chosen ?s g)) = Some x" by (auto simp: value_in_def)
    have "nm_Get ?lower n (fold (nm_SetMap ?lower) (map (chosen ?s) (ct_groups c)) (CollectNames ?lower shared)) = Some x"
      by (rule get_layers_some[OF CollectNames_ok _ x]) (use g own x in \<open>auto simp: value_in_def\<close>)
    then show ?thesis unfolding v Some by (simp add: value_in_def x)
  qed
qed

section \<open>Witnesses\<close>

definition ascii_casing :: casing where
  "ascii_casing = \<lparr>cs_lower = map lower_byte, cs_fold = (\<lambda>a b. map lower_byte a = map lower_byte b),
     cs_visit = (\<lambda>name ks. ks)\<rparr>"

lemma ascii_casing_ok: "casing_ok ascii_casing"
  by (auto simp: casing_ok_def ascii_casing_def intro!: equivpI reflpI sympI transpI)

definition demo_groups :: "Group list" where
  "demo_groups = [\<lparr>gr_Name = ''Zone'', gr_Default = ''b'', gr_Profiles = [(''a'', [(''h'', ''1'')]), (''b'', [(''H'', ''2'')])]\<rparr>,
     \<lparr>gr_Name = ''Auth'', gr_Default = [], gr_Profiles = [(''x'', [(''t'', ''3'')])]\<rparr>]"

definition demo_catalog :: Catalog where
  "demo_catalog = empty_catalog\<lparr>ct_groups := [\<lparr>gr_Name = ''Auth'', gr_Default = ''x'', gr_Profiles = [(''x'', [(''t'', ''3'')])]\<rparr>,
     \<lparr>gr_Name = ''Zone'', gr_Default = ''b'', gr_Profiles = [(''a'', [(''h'', ''1'')]), (''b'', [(''H'', ''2'')])]\<rparr>],
     ct_shared := [(''h'', ''0''), (''s'', ''4'')]\<rparr>"

lemma demo_loads: "NewGroupedCatalog ascii_casing [(''h'', ''0''), (''s'', ''4'')] demo_groups = Inr demo_catalog"
  by code_simp

lemma demo_apart: "folds_apart ascii_casing demo_catalog"
  by (simp add: folds_apart_def demo_catalog_def ascii_casing_def empty_catalog_def) code_simp

definition demo_selection :: Selection where
  "demo_selection = GroupSelection [(''Auth'', ''x''), (''Zone'', ''a'')]"

lemma demo_selects: "Select ascii_casing demo_catalog [] [(''zone'', '' A'')] = Inr demo_selection"
  by code_simp

lemma ascii_visits: "(\<And>n ks. set (v n ks) = set ks) \<Longrightarrow> casing_ok (ascii_casing\<lparr>cs_visit := v\<rparr>)"
  using ascii_casing_ok by (simp add: casing_ok_def)

theorem selection_resolves_to_itself_witness:
  "(case ResolveEnv (ascii_casing\<lparr>cs_visit := \<lambda>n. rev\<rparr>) id demo_catalog demo_selection of Inl e \<Rightarrow> False
    | Inr env \<Rightarrow> ev_sel env = demo_selection \<and>
        Intent_Resolve (ascii_casing\<lparr>cs_visit := \<lambda>n. rotate1\<rparr>) demo_catalog (IntentFor demo_catalog env) = Some demo_selection)
    \<and> Select (ascii_casing\<lparr>cs_visit := \<lambda>n. rev\<rparr>) demo_catalog (sl_name demo_selection) (rev (sl_profiles demo_selection)) = Inr demo_selection"
  by (rule selection_resolves_to_itself[OF disjI1[OF demo_loads] demo_apart demo_selects ascii_casing_ok ascii_visits ascii_visits])
    simp_all

text \<open>
  The profiles s and U+017F (two bytes in UTF-8), which \<open>ToLower\<close> tells apart and \<open>EqualFold\<close> does not, load without an
  error, and which of them a selection finds depends on the order in which the map is visited.
\<close>

definition long_s :: string where
  "long_s = [CHR 0xC5, CHR 0xBF]"

definition long_s_casing :: "(string \<Rightarrow> string list \<Rightarrow> string list) \<Rightarrow> casing" where
  "long_s_casing v = (let base = (\<lambda>n. if n = long_s then ''s'' else map lower_byte n)
     in \<lparr>cs_lower = map lower_byte, cs_fold = (\<lambda>a b. base a = base b), cs_visit = v\<rparr>)"

lemma fold_equal_profiles:
  "case NewGroupedCatalog (long_s_casing (\<lambda>n ks. ks)) []
      [\<lparr>gr_Name = ''g'', gr_Default = ''d'', gr_Profiles = [(''d'', []), (''s'', []), (long_s, [])]\<rparr>] of
      Inl e \<Rightarrow> False
    | Inr c \<Rightarrow> Select (long_s_casing (\<lambda>n ks. ks)) c [] [(''g'', long_s)] = Inr (GroupSelection [(''g'', ''s'')])
        \<and> Select (long_s_casing (\<lambda>n. rev)) c [] [(''g'', long_s)] = Inr (GroupSelection [(''g'', long_s)])"
  by code_simp

lemma demo_trimmed: "names_trimmed demo_catalog"
  by code_simp

definition demo_env :: Environment where
  "demo_env = \<lparr>ev_values = [(''h'', ''1''), (''s'', ''4''), (''t'', ''3'')], ev_label = ''Auth=x, Zone=a'',
     ev_scope = ''g1:4:auth1:x4:zone1:a'', ev_sel = demo_selection\<rparr>"

lemma demo_resolves: "ResolveEnv ascii_casing id demo_catalog demo_selection = Inr demo_env"
  by code_simp

theorem groups_never_shadow_witness:
  "value_in ascii_casing ''H'' (ev_values demo_env) =
    (case find (\<lambda>g. value_in ascii_casing ''H'' (chosen (ev_sel demo_env) g) \<noteq> None) (ct_groups demo_catalog) of
       Some g \<Rightarrow> value_in ascii_casing ''H'' (chosen (ev_sel demo_env) g)
     | None \<Rightarrow> value_in ascii_casing ''H'' [(''h'', ''0''), (''s'', ''4'')])"
  by (rule groups_never_shadow[OF demo_loads demo_trimmed demo_resolves refl])

definition demo_set :: "(string \<times> string smap) list" where
  "demo_set = [(''prod'', [(''h'', ''1'')]), ('' $Shared'', [(''h'', ''0''), (''k'', ''2'')]), (''Dev'', [])]"

definition demo_flat :: Catalog where
  "demo_flat = empty_catalog\<lparr>ct_envs := [\<lparr>en_name = ''Dev'', en_values = [(''h'', ''0''), (''k'', ''2'')]\<rparr>,
     \<lparr>en_name = ''prod'', en_values = [(''h'', ''1''), (''k'', ''2'')]\<rparr>]\<rparr>"

lemma demo_flat_loads: "NewCatalog ascii_casing demo_set = Inr demo_flat"
  by code_simp

theorem catalog_independent_of_order_witness: "NewCatalog ascii_casing (rev demo_set) = Inr demo_flat"
  by (rule catalog_independent_of_order[OF _ demo_flat_loads]) simp

text \<open>A digest of the right length that tells short texts apart.\<close>

definition demo_sha :: "string \<Rightarrow> string" where
  "demo_sha s = take 64 (s @ replicate 64 CHR ''.'')"

theorem scopes_tell_selections_apart_witness:
  "flatScope demo_sha ''dev'' ''/a'' \<noteq> flatScope demo_sha ''dev'' ''/b'' \<and>
   groupScope ascii_casing demo_sha (ct_groups demo_catalog) demo_selection ''/a'' \<noteq>
     groupScope ascii_casing demo_sha (ct_groups demo_catalog) (DefaultSelection ascii_casing demo_catalog) ''/b'' \<and>
   flatScope demo_sha ''dev'' ''/a'' \<noteq>
     groupScope ascii_casing demo_sha (ct_groups demo_catalog) (DefaultSelection ascii_casing demo_catalog) ''/b''"
proof -
  have l: "length (demo_sha x) = 64" for x by (simp add: demo_sha_def)
  have d: "sourceDigest demo_sha ''/a'' \<noteq> sourceDigest demo_sha ''/b''" by code_simp
  have g: "demo_sha (group_message ascii_casing (ct_groups demo_catalog) demo_selection ''/a'') \<noteq>
      demo_sha (group_message ascii_casing (ct_groups demo_catalog) (DefaultSelection ascii_casing demo_catalog) ''/b'')" by code_simp
  from scopes_tell_selections_apart[of demo_sha "''/a''" "''/b''" ascii_casing "ct_groups demo_catalog" demo_selection
      "ct_groups demo_catalog" "DefaultSelection ascii_casing demo_catalog" "''dev''" "''dev''", OF l] d g
  show ?thesis by simp
qed

section \<open>Names the checks do not see as equal\<close>

text \<open>
  Two profiles of different groups set a name that differs by a space only: loading does not reject them, lookups cannot
  tell them apart, and the group that comes later in the order of names shadows the other.
\<close>

lemma spaced_names_collide_unseen:
  "collision ascii_casing [(''t'', ''1'')] [(''t '', ''2'')] = None \<and>
   mergeValues ascii_casing [[(''t'', ''1'')], [(''t '', ''2'')]] = [(''t'', ''2'')]"
  by code_simp

text \<open>Flattening visits a map: two paths that are the same text leave the value of the visit that comes last.\<close>

lemma flatten_depends_on_order:
  "flatten_writes id [] (JObj [(''a'', JObj [(''b'', JStr ''1'')]), (''a.b'', JStr ''2'')]) = [(''a.b'', ''1''), (''a.b'', ''2'')] \<and>
   smap_of_list [(''a.b'', ''1''), (''a.b'', ''2'')] \<noteq> smap_of_list [(''a.b'', ''2''), (''a.b'', ''1'' :: string)]"
  by code_simp

end
