(* ===== verification/VarsDotenv.thy ===== *)
theory VarsDotenv
  imports VarsNames
begin

text \<open>
  Dotenv files (\<open>internal/vars/dotenv.go\<close>): the lines in order, an assignment each, with quotes, comments and references to
  names defined above or in the environment of the process. \<open>os\<close> is \<open>os.LookupEnv\<close> and \<open>upper\<close> is \<open>strings.ToUpper\<close>; the
  text of a file and the last element of its path come from the operating system.
\<close>

datatype quoteMode = quoteModeNone | quoteModeSingle | quoteModeDouble

datatype denv_error =
  ExpectedAssignment nat
| MissingKey nat
| UnfinishedEscape nat
| AfterQuotes nat
| UnterminatedQuotes nat
| MissingBrace nat
| EmptyReference nat
| NotDefined nat string
| WorkspaceTwice nat
| LineTooLong

definition isWorkspaceKey :: "string \<Rightarrow> bool" where
  "isWorkspaceKey key \<longleftrightarrow> equal_fold (trim_white key) ''workspace''"

definition is_name_char :: "char \<Rightarrow> bool" where
  "is_name_char ch \<longleftrightarrow> in_range CHR ''a'' CHR ''z'' ch \<or> in_range CHR ''A'' CHR ''Z'' ch \<or> in_range CHR ''0'' CHR ''9'' ch \<or> ch = CHR ''_''"

definition resolveDoubleQuoteEscape :: "char \<Rightarrow> char" where
  "resolveDoubleQuoteEscape ch =
     (if ch = CHR ''n'' then CHR 0x0A else if ch = CHR ''r'' then CHR 0x0D else if ch = CHR ''t'' then CHR 0x09
      else if ch = CHR ''0'' then CHR 0x00 else if ch = CHR ''b'' then CHR 0x08 else if ch = CHR ''f'' then CHR 0x0C else ch)"

section \<open>Lines\<close>

text \<open>\<open>bufio.ScanLines\<close>: up to a newline, less one carriage return; \<open>None\<close> where a line does not fit the buffer of a megabyte.\<close>

definition drop_cr :: "string \<Rightarrow> string" where
  "drop_cr line = (if line \<noteq> [] \<and> last line = CHR 0x0D then butlast line else line)"

definition maxLine :: nat where
  "maxLine = 1048576"

function scan_lines :: "string \<Rightarrow> string option list" where
  "scan_lines s =
     (if s = [] then []
      else let line = takeWhile (\<lambda>c. c \<noteq> CHR 0x0A) s; rest = dropWhile (\<lambda>c. c \<noteq> CHR 0x0A) s in
        if length line \<ge> maxLine then [None]
        else Some (drop_cr line) # scan_lines (drop 1 rest))"
  by pat_completeness auto
termination
proof (relation "measure length", goal_cases)
  case (2 s x y)
  have "length (dropWhile (\<lambda>c. c \<noteq> CHR 0x0A) s) \<le> length s" by (rule length_dropWhile_le)
  then show ?case using 2 by (cases s) auto
qed simp

declare scan_lines.simps [simp del]

section \<open>Values\<close>

definition parseDotEnvAssignment :: "string \<Rightarrow> nat \<Rightarrow> denv_error + string \<times> string" where
  "parseDotEnvAssignment line0 n =
     (let p = map lower_byte (take 7 line0);
          line = (if p = ''export '' \<or> p = ''export'' @ [CHR 0x09] then trim_white (drop 6 line0) else line0) in
      if CHR ''='' \<notin> set line then Inl (ExpectedAssignment n)
      else let key = trim_white (takeWhile (\<lambda>c. c \<noteq> CHR ''='') line); v = drop 1 (dropWhile (\<lambda>c. c \<noteq> CHR ''='') line) in
        if key = [] then Inl (MissingKey n) else Inr (key, v))"

fun quoted_loop :: "quoteMode \<Rightarrow> nat \<Rightarrow> string \<Rightarrow> string \<Rightarrow> denv_error + string" where
  "quoted_loop mode n [] out = Inl (UnterminatedQuotes n)"
| "quoted_loop mode n (ch # cs) out =
     (if ch = CHR 0x5C then
        (case cs of
           [] \<Rightarrow> Inl (UnfinishedEscape n)
         | c2 # cs2 \<Rightarrow> quoted_loop mode n cs2 (out @ [if mode = quoteModeDouble then resolveDoubleQuoteEscape c2 else c2]))
      else if ch = (if mode = quoteModeSingle then CHR 0x27 else CHR 0x22) then
        (let rest = trim_white cs in
         if rest \<noteq> [] \<and> hd rest \<noteq> CHR ''#'' \<and> hd rest \<noteq> CHR '';'' then Inl (AfterQuotes n) else Inr out)
      else quoted_loop mode n cs (out @ [ch]))"

definition parseQuotedValue :: "string \<Rightarrow> quoteMode \<Rightarrow> nat \<Rightarrow> denv_error + string" where
  "parseQuotedValue input mode n = quoted_loop mode n (drop 1 input) []"

fun strip_loop :: "string \<Rightarrow> nat \<Rightarrow> bool \<Rightarrow> string \<Rightarrow> string" where
  "strip_loop v i white [] = trim_white v"
| "strip_loop v i white (ch # cs) =
     (if ch = CHR '' '' \<or> ch = CHR 0x09 then strip_loop v (i + 1) True cs
      else if ch = CHR ''#'' \<or> ch = CHR '';'' then
        (if i = 0 \<or> white then trim_white (take i v) else strip_loop v (i + 1) False cs)
      else strip_loop v (i + 1) False cs)"

definition stripInlineComment :: "string \<Rightarrow> string" where
  "stripInlineComment v = strip_loop v 0 False v"

definition parseDotEnvValue :: "string \<Rightarrow> nat \<Rightarrow> denv_error + string \<times> quoteMode" where
  "parseDotEnvValue raw n =
     (let t = dropWhile (\<lambda>c. c = CHR '' '' \<or> c = CHR 0x09) raw in
      case t of
        [] \<Rightarrow> Inr ([], quoteModeNone)
      | c # _ \<Rightarrow>
         (if c = CHR 0x22 then map_sum id (\<lambda>v. (v, quoteModeDouble)) (parseQuotedValue t quoteModeDouble n)
          else if c = CHR 0x27 then map_sum id (\<lambda>v. (v, quoteModeSingle)) (parseQuotedValue t quoteModeSingle n)
          else Inr (stripInlineComment t, quoteModeNone)))"

section \<open>References\<close>

definition lookupEnv :: "(string \<Rightarrow> string) \<Rightarrow> (string \<Rightarrow> string option) \<Rightarrow> string \<Rightarrow> string option" where
  "lookupEnv upper os key = (case os key of Some v \<Rightarrow> Some v | None \<Rightarrow> os (upper key))"

definition resolveDotEnvRef :: "(string \<Rightarrow> string) \<Rightarrow> (string \<Rightarrow> string option) \<Rightarrow> string \<Rightarrow> string smap \<Rightarrow> nat \<Rightarrow> denv_error + string" where
  "resolveDotEnvRef upper os name resolved n =
     (case map_of resolved name of
        Some v \<Rightarrow> Inr v
      | None \<Rightarrow> (case lookupEnv upper os name of Some v \<Rightarrow> Inr v | None \<Rightarrow> Inl (NotDefined n name)))"

function expand_loop :: "(string \<Rightarrow> denv_error + string) \<Rightarrow> nat \<Rightarrow> string \<Rightarrow> string \<Rightarrow> denv_error + string" where
  "expand_loop ref n [] out = Inr out"
| "expand_loop ref n (ch # cs) out =
     (if ch = CHR 0x5C \<and> cs \<noteq> [] \<and> hd cs = CHR ''$'' then expand_loop ref n (drop 1 cs) (out @ ''$'')
      else if ch \<noteq> CHR ''$'' then expand_loop ref n cs (out @ [ch])
      else if cs = [] then expand_loop ref n cs (out @ [ch])
      else if hd cs = CHR ''{'' then
        (if CHR ''}'' \<notin> set (drop 1 cs) then Inl (MissingBrace n)
         else let name = trim_white (takeWhile (\<lambda>c. c \<noteq> CHR ''}'') (drop 1 cs)); rest = drop 1 (dropWhile (\<lambda>c. c \<noteq> CHR ''}'') (drop 1 cs)) in
           if name = [] then Inl (EmptyReference n)
           else case ref name of Inl e \<Rightarrow> Inl e | Inr v \<Rightarrow> expand_loop ref n rest (out @ v))
      else if is_name_char (hd cs) then
        (case ref (takeWhile is_name_char cs) of Inl e \<Rightarrow> Inl e | Inr v \<Rightarrow> expand_loop ref n (dropWhile is_name_char cs) (out @ v))
      else expand_loop ref n cs (out @ [ch]))"
  by pat_completeness auto
termination
proof (relation "measure (\<lambda>(ref, n, s, out). length s)", goal_cases)
  case (5 ref n ch cs out nm rest v)
  have "length (dropWhile (\<lambda>c. c \<noteq> CHR ''}'') (drop 1 cs)) \<le> length cs" using length_dropWhile_le[of _ "drop 1 cs"] by (metis diff_le_self le_trans length_drop)
  then show ?case using 5 by simp
next
  case (6 ref n ch cs out v)
  have "length (dropWhile is_name_char cs) \<le> length cs" by (rule length_dropWhile_le)
  then show ?case by simp
qed auto

declare expand_loop.simps [simp del]

definition expandDotEnvValue :: "(string \<Rightarrow> string) \<Rightarrow> (string \<Rightarrow> string option) \<Rightarrow> string \<Rightarrow> string smap \<Rightarrow> nat \<Rightarrow> denv_error + string" where
  "expandDotEnvValue upper os v resolved n = expand_loop (\<lambda>name. resolveDotEnvRef upper os name resolved n) n v []"

section \<open>Files\<close>

definition dotenv_line :: "(string \<Rightarrow> string) \<Rightarrow> (string \<Rightarrow> string option) \<Rightarrow> nat \<Rightarrow> string \<Rightarrow> string smap \<times> bool \<Rightarrow> denv_error + string smap \<times> bool" where
  "dotenv_line upper os n line acc =
     (let trimmed = trim_white line; (vals, seen) = acc in
      if trimmed = [] \<or> has_prefix trimmed ''#'' \<or> has_prefix trimmed '';'' then Inr acc
      else case parseDotEnvAssignment trimmed n of
        Inl e \<Rightarrow> Inl e
      | Inr (key, raw) \<Rightarrow>
         (case parseDotEnvValue raw n of
            Inl e \<Rightarrow> Inl e
          | Inr (v, mode) \<Rightarrow>
             (case (if mode \<noteq> quoteModeSingle then expandDotEnvValue upper os v vals n else Inr v) of
                Inl e \<Rightarrow> Inl e
              | Inr v2 \<Rightarrow>
                  if isWorkspaceKey key \<and> seen then Inl (WorkspaceTwice n)
                  else Inr (smap_put key v2 vals, seen \<or> isWorkspaceKey key))))"

fun dotenv_loop :: "(string \<Rightarrow> string) \<Rightarrow> (string \<Rightarrow> string option) \<Rightarrow> nat \<Rightarrow> string option list \<Rightarrow> string smap \<times> bool \<Rightarrow> denv_error + string smap" where
  "dotenv_loop upper os n [] acc = Inr (fst acc)"
| "dotenv_loop upper os n (None # ls) acc = Inl LineTooLong"
| "dotenv_loop upper os n (Some line # ls) acc =
     (case dotenv_line upper os (n + 1) line acc of Inl e \<Rightarrow> Inl e | Inr acc1 \<Rightarrow> dotenv_loop upper os (n + 1) ls acc1)"

definition parseDotEnv :: "(string \<Rightarrow> string) \<Rightarrow> (string \<Rightarrow> string option) \<Rightarrow> string \<Rightarrow> denv_error + string smap" where
  "parseDotEnv upper os content = dotenv_loop upper os 0 (scan_lines content) ([], False)"

section \<open>The name of the environment\<close>

definition lower_ascii :: "string \<Rightarrow> string" where
  "lower_ascii = map lower_byte"

text \<open>The test for \<open>.env\<close> and \<open>.json\<close> is of ASCII letters that only ASCII letters have as their lower case.\<close>

definition IsDotEnvPath :: "string \<Rightarrow> bool" where
  "IsDotEnvPath base0 =
     (let base = lower_ascii base0 in
      \<not> has_suffix base ''.json'' \<and> (base = ''.env'' \<or> has_prefix base ''.env.'' \<or> has_suffix base ''.env''))"

definition workspaceName :: "string smap \<Rightarrow> string" where
  "workspaceName vals = (case find (\<lambda>(k, v). isWorkspaceKey k \<and> trim_white v \<noteq> []) vals of None \<Rightarrow> [] | Some (k, v) \<Rightarrow> trim_white v)"

text \<open>\<open>filepath.Ext\<close> of a path without separators.\<close>

definition file_ext :: "string \<Rightarrow> string" where
  "file_ext base = (if CHR ''.'' \<in> set base then CHR ''.'' # rev (takeWhile (\<lambda>c. c \<noteq> CHR ''.'') (rev base)) else [])"

definition deriveDotEnvName :: "string smap \<Rightarrow> string \<Rightarrow> string" where
  "deriveDotEnvName vals base =
     (let name = workspaceName vals; lower = lower_ascii base in
      if name \<noteq> [] then name
      else if lower = ''.env'' then ''default''
      else if has_prefix lower ''.env.'' \<and> length base > 5 then trim_white (drop 5 base)
      else if has_suffix lower ''.env'' \<and> length base > 4 then trim_white (take (length base - 4) base)
      else let stem = trim_white (take (length base - length (file_ext base)) base) in
        if stem = [] \<or> equal_fold stem ''.env'' then ''default'' else stem)"

definition loadDotEnvEnvironment :: "(string \<Rightarrow> string) \<Rightarrow> (string \<Rightarrow> string option) \<Rightarrow> string \<Rightarrow> string \<Rightarrow> denv_error + (string \<times> string smap) list" where
  "loadDotEnvEnvironment upper os base content =
     (case parseDotEnv upper os content of
        Inl e \<Rightarrow> Inl e
      | Inr vals \<Rightarrow> (let name = deriveDotEnvName vals base in Inr [(if name = [] then ''default'' else name, vals)]))"

end
