(* ===== verification/VarsDotenvProps.thy ===== *)
theory VarsDotenvProps
  imports VarsDotenv
begin

text \<open>Any values, written in double quotes with escapes, are read back from a dotenv file.\<close>

definition quote_char :: "char \<Rightarrow> string" where
  "quote_char c = (if c = CHR 0x0A then [CHR 0x5C, CHR ''n''] else if c = CHR 0x0D then [CHR 0x5C, CHR ''r'']
     else if c = CHR 0x22 \<or> c = CHR 0x5C then [CHR 0x5C, c] else [c])"

definition guard_dollars :: "string \<Rightarrow> string" where
  "guard_dollars v = concat (map (\<lambda>c. if c = CHR ''$'' then [CHR 0x5C, c] else [c]) v)"

definition quoted_body :: "string \<Rightarrow> string" where
  "quoted_body v = concat (map quote_char (guard_dollars v))"

definition env_line :: "string \<times> string \<Rightarrow> string" where
  "env_line kv = fst kv @ CHR ''='' # CHR 0x22 # quoted_body (snd kv) @ [CHR 0x22]"

definition env_file :: "(string \<times> string) list \<Rightarrow> string" where
  "env_file kvs = concat (map (\<lambda>kv. env_line kv @ [CHR 0x0A]) kvs)"

definition plain_key :: "string \<Rightarrow> bool" where
  "plain_key k \<longleftrightarrow> k \<noteq> [] \<and> list_all is_name_char k \<and> \<not> isWorkspaceKey k"

section \<open>Values\<close>

lemma quoted_reads: "quoted_loop quoteModeDouble n (concat (map quote_char v) @ [CHR 0x22]) out = Inr (out @ v)"
proof (induction v arbitrary: out)
  case Nil
  have "trim_white [] = []" by code_simp
  then show ?case by (simp add: Let_def)
next
  case (Cons c v)
  then show ?case by (simp add: quote_char_def resolveDoubleQuoteEscape_def)
qed

lemma guard_head: "guard_dollars v = [] \<or> hd (guard_dollars v) \<noteq> CHR ''$''"
  by (cases v) (auto simp: guard_dollars_def)

lemma expand_guarded: "expand_loop ref n (guard_dollars v) out = Inr (out @ v)"
proof (induction v arbitrary: out)
  case Nil
  then show ?case by (simp add: guard_dollars_def expand_loop.simps)
next
  case (Cons c v)
  show ?case
  proof (cases "c = CHR ''$''")
    case True
    then have g: "guard_dollars (c # v) = CHR 0x5C # CHR ''$'' # guard_dollars v" by (simp add: guard_dollars_def)
    show ?thesis unfolding g by (subst expand_loop.simps) (simp add: Cons True)
  next
    case False
    then have g: "guard_dollars (c # v) = c # guard_dollars v" by (simp add: guard_dollars_def)
    show ?thesis unfolding g using False guard_head[of v] by (subst expand_loop.simps) (auto simp: Cons)
  qed
qed

section \<open>Lines\<close>

lemma trim_white_kept:
  assumes "\<not> list_ex (has_prefix s) space_codes" "\<not> list_ex (has_suffix s) space_codes"
  shows "trim_white s = s"
proof -
  have "trim_front space_codes s = s" by (rule trim_front_id) (use assms(1) in \<open>auto simp: list_ex_iff\<close>)
  moreover have "trim_front (map rev space_codes) (rev s) = rev s"
    by (rule trim_front_id) (use assms(2) in \<open>auto simp: list_ex_iff has_prefix_rev\<close>)
  ultimately show ?thesis by (simp add: trim_white_def)
qed

text \<open>The bytes a white rune starts or ends with.\<close>

definition first_bytes :: string where
  "first_bytes = map hd space_codes"

definition last_bytes :: string where
  "last_bytes = map last space_codes"

lemma trim_white_edges:
  assumes "s \<noteq> []" "hd s \<notin> set first_bytes" "last s \<notin> set last_bytes"
  shows "trim_white s = s"
proof (rule trim_white_kept)
  have ne: "code \<noteq> []" if "code \<in> set space_codes" for code
  proof -
    have "list_all (\<lambda>code. code \<noteq> []) space_codes" by code_simp
    with that show ?thesis by (simp add: list_all_iff)
  qed
  show "\<not> list_ex (has_prefix s) space_codes"
    using assms(1,2) ne by (auto simp: list_ex_iff has_prefix_append first_bytes_def)
  show "\<not> list_ex (has_suffix s) space_codes"
    using assms(1,3) ne by (auto simp: list_ex_iff has_suffix_append last_bytes_def)
qed

lemma edges: "is_name_char c \<Longrightarrow> c \<notin> set first_bytes \<and> c \<notin> set last_bytes" "CHR 0x22 \<notin> set last_bytes"
proof -
  have "list_all (\<lambda>code. \<not> is_name_char (hd code) \<and> \<not> is_name_char (last code) \<and> last code \<noteq> CHR 0x22) space_codes" by code_simp
  then show "is_name_char c \<Longrightarrow> c \<notin> set first_bytes \<and> c \<notin> set last_bytes" "CHR 0x22 \<notin> set last_bytes"
    by (auto simp: list_all_iff first_bytes_def last_bytes_def)
qed

lemma name_char_not: "is_name_char c \<Longrightarrow> c \<notin> {CHR ''='', CHR ''#'', CHR '';'', CHR '' '', CHR 0x09, CHR 0x0A}"
proof -
  have "list_all (\<lambda>c. \<not> is_name_char c) [CHR ''='', CHR ''#'', CHR '';'', CHR '' '', CHR 0x09, CHR 0x0A]" by code_simp
  then show "is_name_char c \<Longrightarrow> ?thesis" by auto
qed

lemma key_trim: "plain_key k \<Longrightarrow> trim_white k = k"
  using edges(1)[of "hd k"] edges(1)[of "last k"] by (intro trim_white_edges) (auto simp: plain_key_def list_all_iff)

lemma line_trim:
  assumes "plain_key k"
  shows "trim_white (env_line (k, v)) = env_line (k, v)"
proof -
  obtain c k' where c: "k = c # k'" "is_name_char c" using assms by (cases k) (auto simp: plain_key_def)
  have ne: "env_line (k, v) \<noteq> []" by (simp add: env_line_def)
  have h: "hd (env_line (k, v)) \<notin> set first_bytes" using edges(1)[OF c(2)] by (simp add: env_line_def c(1))
  have l: "last (env_line (k, v)) \<notin> set last_bytes" using edges(2) by (simp add: env_line_def)
  show ?thesis by (fact trim_white_edges[OF ne h l])
qed

lemma not_export: "plain_key k \<Longrightarrow> w = CHR '' '' \<or> w = CHR 0x09 \<Longrightarrow> map lower_byte (take 7 (k @ CHR ''='' # t)) \<noteq> ''export'' @ [w]"
proof
  assume k: "plain_key k" and w: "w = CHR '' '' \<or> w = CHR 0x09" and e: "map lower_byte (take 7 (k @ CHR ''='' # t)) = ''export'' @ [w]"
  show False
  proof (cases "length k \<ge> 7")
    case True
    then have "map lower_byte (take 7 k) = ''export'' @ [w]" using e by simp
    then have "w \<in> set (map lower_byte (take 7 k))" by simp
    then obtain c where "c \<in> set (take 7 k)" and cw: "w = lower_byte c" by auto
    with in_set_takeD have c: "c \<in> set k" "w = lower_byte c" by fast+
    have "is_name_char c" using k c(1) by (auto simp: plain_key_def list_all_iff)
    then have cn: "c \<noteq> w" using name_char_not[of c] w by auto
    have "lower_byte c \<noteq> w"
    proof (cases "in_range CHR ''A'' CHR ''Z'' c")
      case up: True
      define m where "m = (of_char c :: nat)"
      have m: "65 \<le> m" "m \<le> 90" using up by (simp_all add: in_range_def less_eq_char_def m_def)
      have "(of_char (lower_byte c) :: nat) = m + 32" using up m by (simp add: lower_byte_def m_def[symmetric])
      moreover have "(of_char w :: nat) \<le> 32" using w by auto
      ultimately show ?thesis using m by auto
    next
      case False
      with cn show ?thesis by (simp add: lower_byte_def)
    qed
    with c(2) show False by simp
  next
    case False
    then have "CHR ''='' \<in> set (take 7 (k @ CHR ''='' # t))" by (cases "7 - length k") auto
    then have "lower_byte CHR ''='' \<in> set (''export'' @ [w])" unfolding e[symmetric] by auto
    moreover have "lower_byte CHR ''='' = CHR ''=''" by code_simp
    ultimately show False using w by auto
  qed
qed

lemma key_part: "plain_key k \<Longrightarrow> takeWhile (\<lambda>c. c \<noteq> CHR ''='') (k @ CHR ''='' # t) = k \<and> dropWhile (\<lambda>c. c \<noteq> CHR ''='') (k @ CHR ''='' # t) = CHR ''='' # t"
proof -
  assume "plain_key k"
  then have "\<forall>c\<in>set k. c \<noteq> CHR ''=''" using name_char_not by (fastforce simp: plain_key_def list_all_iff)
  then show ?thesis by (induction k) auto
qed

lemma line_reads:
  assumes k: "plain_key k"
  shows "dotenv_line upper os n (env_line (k, v)) (vals, seen) = Inr (smap_put k v vals, seen)"
proof -
  let ?t = "CHR 0x22 # quoted_body v @ [CHR 0x22]"
  have line: "env_line (k, v) = k @ CHR ''='' # ?t" by (simp add: env_line_def)
  obtain c k' where c: "k = c # k'" "is_name_char c" using k by (cases k) (auto simp: plain_key_def)
  have a: "parseDotEnvAssignment (env_line (k, v)) n = Inr (k, ?t)"
    using not_export[OF k, of _ ?t] key_part[OF k, of ?t] key_trim[OF k] k
    by (simp add: parseDotEnvAssignment_def line Let_def plain_key_def)
  have b: "parseDotEnvValue ?t n = Inr (guard_dollars v, quoteModeDouble)"
    using quoted_reads[of n "guard_dollars v" "[]"] by (simp add: parseDotEnvValue_def parseQuotedValue_def quoted_body_def)
  have d: "expandDotEnvValue upper os (guard_dollars v) vals n = Inr v" by (simp add: expandDotEnvValue_def expand_guarded)
  have h: "env_line (k, v) \<noteq> []" "\<not> has_prefix (env_line (k, v)) ''#''" "\<not> has_prefix (env_line (k, v)) '';''"
    using c name_char_not[OF c(2)] by (auto simp: env_line_def has_prefix_def)
  show ?thesis using a b d h k by (simp add: dotenv_line_def line_trim[OF k] plain_key_def)
qed

lemma line_no_newline: "plain_key k \<Longrightarrow> CHR 0x0A \<notin> set (env_line (k, v))"
proof -
  assume k: "plain_key k"
  have "CHR 0x0A \<notin> set (quote_char c)" for c by (simp add: quote_char_def)
  then have "CHR 0x0A \<notin> set (quoted_body v)" by (auto simp: quoted_body_def)
  then show ?thesis using k name_char_not by (fastforce simp: env_line_def plain_key_def list_all_iff)
qed

lemma scan_file:
  "list_all (\<lambda>(k, v). plain_key k \<and> length (env_line (k, v)) < maxLine) kvs \<Longrightarrow> scan_lines (env_file kvs) = map (Some \<circ> env_line) kvs"
proof (induction kvs)
  case Nil
  then show ?case by (simp add: env_file_def scan_lines.simps)
next
  case (Cons kv kvs)
  obtain k v where kv: "kv = (k, v)" by (cases kv)
  have ok: "plain_key k" "length (env_line (k, v)) < maxLine" using Cons.prems kv by simp_all
  have f: "env_file (kv # kvs) = env_line (k, v) @ CHR 0x0A # env_file kvs" by (simp add: env_file_def kv)
  have nl: "\<forall>c\<in>set (env_line (k, v)). c \<noteq> CHR 0x0A" using line_no_newline[OF ok(1)] by metis
  have tw: "takeWhile (\<lambda>c. c \<noteq> CHR 0x0A) (l @ CHR 0x0A # r) = l" "dropWhile (\<lambda>c. c \<noteq> CHR 0x0A) (l @ CHR 0x0A # r) = CHR 0x0A # r"
    if "\<forall>c\<in>set l. c \<noteq> CHR 0x0A" for l r using that by (induction l) auto
  have cr: "drop_cr (env_line (k, v)) = env_line (k, v)" by (simp add: drop_cr_def env_line_def)
  have ne: "env_line (k, v) @ CHR 0x0A # env_file kvs \<noteq> []" by simp
  show ?case unfolding f
    by (subst scan_lines.simps) (use ok Cons in \<open>simp add: tw[OF nl] cr kv\<close>)
qed

lemma loop_reads:
  "list_all (\<lambda>(k, v). plain_key k) kvs \<Longrightarrow>
   dotenv_loop upper os n (map (Some \<circ> env_line) kvs) (vals, seen) = Inr (foldl (\<lambda>m (k, v). smap_put k v m) vals kvs)"
proof (induction kvs arbitrary: n vals)
  case (Cons kv kvs)
  obtain k v where kv: "kv = (k, v)" by (cases kv)
  then show ?case using Cons line_reads[of k upper os "n + 1" v vals seen] by simp
qed simp

text \<open>
  C22: any values of names are read back from a dotenv file that sets them in double quotes, with backslashes before quotes,
  backslashes and dollars and with newlines as escapes, whatever the environment of the process holds; of a name that is
  set twice the last value counts.
\<close>

theorem dotenv_reads_back:
  assumes "list_all (\<lambda>(k, v). plain_key k \<and> length (env_line (k, v)) < maxLine) kvs"
  shows "parseDotEnv upper os (env_file kvs) = Inr (smap_of_list kvs)"
proof -
  have "list_all (\<lambda>(k, v). plain_key k) kvs" using assms by (auto simp: list_all_iff)
  then show ?thesis by (simp add: parseDotEnv_def scan_file[OF assms] loop_reads smap_of_list_def)
qed

lemma plain_demo: "plain_key ''A_1''" "plain_key ''export''"
  by code_simp+

theorem dotenv_reads_back_witness:
  "parseDotEnv id (\<lambda>k. None) (env_file [(''A_1'', ''a\"b${X} #'' @ [CHR 0x0A, CHR 0x5C]), (''export'', ''x'')]) =
     Inr (smap_of_list [(''A_1'', ''a\"b${X} #'' @ [CHR 0x0A, CHR 0x5C]), (''export'', ''x'')])"
  by (rule dotenv_reads_back)
    (simp add: plain_demo maxLine_def env_line_def quoted_body_def guard_dollars_def quote_char_def)

end
