(* ===== verification/VarsEnv.thy ===== *)
theory VarsEnv
  imports VarsResolver VarsSelection VarsDotenv
begin

text \<open>
  Values of the operating system in environments (\<open>internal/vars/refs.go\<close>, \<open>resolved_env.go\<close>, \<open>globals.go\<close>): an
  authored value \<open>env:NAME\<close> stands for a variable of the process, each read once in a run and kept for masking.
  \<open>os\<close> and \<open>upper\<close> are as in \<open>VarsDotenv\<close>; the pointer \<open>nil\<close> is \<open>None\<close>, and what shares a pointer hands on its state.
\<close>

section \<open>Secrets\<close>

definition Secrets_Add :: "string list \<Rightarrow> string list \<Rightarrow> string list" where
  "Secrets_Add new secrets = fold (\<lambda>v vs. if trim_white v = [] \<or> v \<in> set vs then vs else vs @ [v]) new secrets"

section \<open>References\<close>

record EnvRefs =
  er_seen :: "string \<Rightarrow> VarValue option"
  er_named :: "string \<Rightarrow> VarValue option"
  er_secrets :: "string list"
  er_names :: "(Resolver \<times> rstate) option"
  er_withheld :: bool

definition NewEnvRefs :: "(Resolver \<times> rstate) option \<Rightarrow> EnvRefs" where
  "NewEnvRefs names = \<lparr>er_seen = (\<lambda>_. None), er_named = (\<lambda>_. None), er_secrets = [], er_names = names, er_withheld = False\<rparr>"

definition withhold :: "EnvRefs option \<Rightarrow> EnvRefs" where
  "withhold refs = (case refs of
      None \<Rightarrow> (NewEnvRefs None)\<lparr>er_withheld := True\<rparr>
    | Some s \<Rightarrow> (NewEnvRefs None)\<lparr>er_secrets := er_secrets s, er_withheld := True\<rparr>)"

definition missing_value :: VarValue where
  "missing_value = \<lparr>vv_Text = [], vv_Missing = True, vv_Final = False\<rparr>"

definition refs_resolve :: "(string \<Rightarrow> string) \<Rightarrow> (string \<Rightarrow> string option) \<Rightarrow> string \<Rightarrow> EnvRefs \<Rightarrow> VarValue \<times> EnvRefs" where
  "refs_resolve upper os key s =
     (case er_seen s key of
        Some v \<Rightarrow> (v, s)
      | None \<Rightarrow>
         (case lookupEnv upper os key of
            None \<Rightarrow> (missing_value, s\<lparr>er_seen := (er_seen s)(key \<mapsto> missing_value)\<rparr>)
          | Some t \<Rightarrow> (let v = \<lparr>vv_Text = t, vv_Missing = False, vv_Final = True\<rparr> in
              (v, s\<lparr>er_seen := (er_seen s)(key \<mapsto> v), er_secrets := Secrets_Add [t] (er_secrets s)\<rparr>))))"

definition resolveNamed :: "(string \<Rightarrow> string) \<Rightarrow> (string \<Rightarrow> string option) \<Rightarrow> string \<Rightarrow> EnvRefs \<Rightarrow> VarValue \<times> EnvRefs" where
  "resolveNamed upper os ref s =
     (case er_named s ref of
        Some v \<Rightarrow> (v, s)
      | None \<Rightarrow>
         (case (case er_names s of
                  None \<Rightarrow> (missing_value, s)
                | Some (r, rs) \<Rightarrow>
                   (case ExpandTemplatesStatic r ref rs of
                      ((expanded, None), rs1) \<Rightarrow> refs_resolve upper os expanded (s\<lparr>er_names := Some (r, rs1)\<rparr>)
                    | ((_, Some e), rs1) \<Rightarrow> (missing_value, s\<lparr>er_names := Some (r, rs1)\<rparr>))) of
            (v, s1) \<Rightarrow> (v, s1\<lparr>er_named := (er_named s1)(ref \<mapsto> v)\<rparr>)))"

definition ResolveDeclared :: "(string \<Rightarrow> string) \<Rightarrow> (string \<Rightarrow> string option) \<Rightarrow> string \<Rightarrow> EnvRefs option \<Rightarrow> VarValue \<times> EnvRefs option" where
  "ResolveDeclared upper os t refs =
     (case EnvRefKey t of
        None \<Rightarrow> (\<lparr>vv_Text = t, vv_Missing = False, vv_Final = False\<rparr>, refs)
      | Some ref \<Rightarrow>
         (case refs of
            None \<Rightarrow> (missing_value, None)
          | Some s \<Rightarrow>
              if er_withheld s \<or> ref = [] then (missing_value, refs)
              else apsnd Some (if \<not> HasPlaceholder ref then refs_resolve upper os ref s else resolveNamed upper os ref s)))"

definition refs_Secrets :: "EnvRefs option \<Rightarrow> string list" where
  "refs_Secrets refs = (case refs of None \<Rightarrow> [] | Some s \<Rightarrow> er_secrets s)"

section \<open>Resolved environments\<close>

record ResolvedEnv =
  re_env :: Environment
  re_refs :: "EnvRefs option"
  re_vals :: "VarValue NameMap"
  re_plain :: "string smap"
  re_refNames :: "string list"

definition resolve_entry :: "(string \<Rightarrow> string) \<Rightarrow> (string \<Rightarrow> string) \<Rightarrow> (string \<Rightarrow> string option) \<Rightarrow> string \<times> string \<Rightarrow> ResolvedEnv \<Rightarrow> ResolvedEnv" where
  "resolve_entry lower upper os entry out =
     (case entry of (name, raw) \<Rightarrow>
        case ResolveDeclared upper os raw (re_refs out) of
          (v, refs) \<Rightarrow> out\<lparr>re_refs := refs, re_vals := snd (nm_Set lower name v (re_vals out)),
            re_plain := (if vv_Missing v then re_plain out else smap_put name (vv_Text v) (re_plain out)),
            re_refNames := re_refNames out @ (if EnvRefKey raw \<noteq> None then [name] else [])\<rparr>)"

definition ResolveWith :: "(string \<Rightarrow> string) \<Rightarrow> (string \<Rightarrow> string) \<Rightarrow> (string \<Rightarrow> string option) \<Rightarrow> Environment \<Rightarrow> EnvRefs option \<Rightarrow> ResolvedEnv" where
  "ResolveWith lower upper os e refs =
     fold (resolve_entry lower upper os) (ev_values e) \<lparr>re_env = e, re_refs = refs, re_vals = [], re_plain = [], re_refNames = []\<rparr>"

definition Environment_Resolve :: "(string \<Rightarrow> string) \<Rightarrow> (string \<Rightarrow> string) \<Rightarrow> (string \<Rightarrow> string option) \<Rightarrow> Environment \<Rightarrow> ResolvedEnv" where
  "Environment_Resolve lower upper os e = ResolveWith lower upper os e (Some (NewEnvRefs None))"

definition WithoutRefValues :: "(string \<Rightarrow> string) \<Rightarrow> ResolvedEnv \<Rightarrow> ResolvedEnv" where
  "WithoutRefValues lower r =
     (if (case re_refs r of None \<Rightarrow> False | Some s \<Rightarrow> er_withheld s) then r
      else let r1 = r\<lparr>re_refs := Some (withhold (re_refs r))\<rparr> in
        if re_refNames r = [] then r1
        else r1\<lparr>re_vals := fold (\<lambda>n m. snd (nm_Set lower n missing_value m)) (re_refNames r) (re_vals r),
          re_plain := fold smap_del (re_refNames r) (re_plain r)\<rparr>)"

section \<open>What is masked\<close>

definition masked :: "string list \<Rightarrow> VarValue \<Rightarrow> bool" where
  "masked secrets v \<longleftrightarrow> vv_Missing v \<or> vv_Final v \<and> (trim_white (vv_Text v) = [] \<or> vv_Text v \<in> set secrets)"

definition refs_ok :: "EnvRefs option \<Rightarrow> bool" where
  "refs_ok refs \<longleftrightarrow> (case refs of None \<Rightarrow> True | Some s \<Rightarrow>
     (\<forall>k v. er_seen s k = Some v \<or> er_named s k = Some v \<longrightarrow> masked (er_secrets s) v) \<and>
     (er_withheld s \<longrightarrow> er_seen s = (\<lambda>_. None) \<and> er_named s = (\<lambda>_. None)))"

lemma masked_missing [simp]: "masked vs missing_value"
  by (simp add: masked_def missing_value_def)

lemma masked_more: "masked vs v \<Longrightarrow> set vs \<subseteq> set ws \<Longrightarrow> masked ws v"
  by (auto simp: masked_def)

lemma Secrets_Add_set: "set (Secrets_Add new vs) = set vs \<union> {v \<in> set new. trim_white v \<noteq> []}"
  by (induction new arbitrary: vs) (auto simp: Secrets_Add_def)

lemma refs_resolve_ok:
  assumes "refs_ok (Some s)" "refs_resolve upper os k s = (v, s')" "\<not> er_withheld s"
  shows "refs_ok (Some s') \<and> masked (er_secrets s') v \<and> set (er_secrets s) \<subseteq> set (er_secrets s') \<and> er_withheld s' = er_withheld s"
proof (cases "er_seen s k")
  case (Some w)
  with assms show ?thesis by (auto simp: refs_resolve_def refs_ok_def)
next
  case None
  show ?thesis
  proof (cases "lookupEnv upper os k")
    case None
    with \<open>er_seen s k = None\<close> assms show ?thesis by (auto simp: refs_resolve_def refs_ok_def split: if_split_asm)
  next
    case (Some t)
    let ?v = "\<lparr>vv_Text = t, vv_Missing = False, vv_Final = True\<rparr>" and ?vs = "Secrets_Add [t] (er_secrets s)"
    have e: "v = ?v" "s' = s\<lparr>er_seen := (er_seen s)(k \<mapsto> ?v), er_secrets := ?vs\<rparr>"
      using assms(2) Some \<open>er_seen s k = None\<close> by (auto simp: refs_resolve_def Let_def)
    have m: "masked ?vs ?v" by (auto simp: masked_def Secrets_Add_set)
    have sub: "set (er_secrets s) \<subseteq> set ?vs" by (auto simp: Secrets_Add_set)
    then show ?thesis using assms(1,3) m masked_more[OF _ sub] unfolding e by (auto simp: refs_ok_def)
  qed
qed

lemma ResolveDeclared_ok:
  assumes "refs_ok refs" "ResolveDeclared upper os t refs = (v, refs')"
  shows "refs_ok refs'" "set (refs_Secrets refs) \<subseteq> set (refs_Secrets refs')"
    "if EnvRefKey t = None then v = \<lparr>vv_Text = t, vv_Missing = False, vv_Final = False\<rparr> else masked (refs_Secrets refs') v"
    "map_option er_withheld refs' = map_option er_withheld refs"
proof -
  have "refs_ok refs' \<and> set (refs_Secrets refs) \<subseteq> set (refs_Secrets refs') \<and> map_option er_withheld refs' = map_option er_withheld refs \<and>
    (if EnvRefKey t = None then v = \<lparr>vv_Text = t, vv_Missing = False, vv_Final = False\<rparr> else masked (refs_Secrets refs') v)"
  proof (cases "EnvRefKey t")
    case None
    with assms show ?thesis by (simp add: ResolveDeclared_def)
  next
    case (Some ref)
    show ?thesis
    proof (cases "\<exists>s. refs = Some s \<and> \<not> er_withheld s \<and> ref \<noteq> []")
      case False
      with assms Some show ?thesis by (cases refs) (auto simp: ResolveDeclared_def)
    next
      case True
      then obtain s where s: "refs = Some s" "\<not> er_withheld s" "ref \<noteq> []" by blast
      obtain s' where s': "refs' = Some s'"
        and run: "(if \<not> HasPlaceholder ref then refs_resolve upper os ref s else resolveNamed upper os ref s) = (v, s')"
        using assms(2) Some s by (cases "if \<not> HasPlaceholder ref then refs_resolve upper os ref s else resolveNamed upper os ref s")
          (auto simp: ResolveDeclared_def)
      have ok: "refs_ok (Some s)" using assms(1) s(1) by simp
      have "refs_ok (Some s') \<and> masked (er_secrets s') v \<and> set (er_secrets s) \<subseteq> set (er_secrets s') \<and> er_withheld s' = er_withheld s"
      proof (cases "HasPlaceholder ref")
        case False
        then show ?thesis using refs_resolve_ok[OF ok _ s(2)] run by simp
      next
        case True
        with run have run: "resolveNamed upper os ref s = (v, s')" by simp
        show ?thesis
        proof (cases "er_named s ref")
          case (Some w)
          with run ok show ?thesis by (auto simp: resolveNamed_def refs_ok_def)
        next
          case None
          obtain s1 where s1: "s' = s1\<lparr>er_named := (er_named s1)(ref \<mapsto> v)\<rparr>"
            and k: "refs_ok (Some s1) \<and> masked (er_secrets s1) v \<and> set (er_secrets s) \<subseteq> set (er_secrets s1) \<and> er_withheld s1 = er_withheld s"
          proof (cases "er_names s")
            case None
            with run \<open>er_named s ref = None\<close> ok that[of s] show ?thesis by (simp add: resolveNamed_def)
          next
            case (Some q)
            obtain r rs where q: "q = (r, rs)" by (cases q)
            obtain x err rs1 where x: "ExpandTemplatesStatic r ref rs = ((x, err), rs1)" by (metis surj_pair)
            let ?s = "s\<lparr>er_names := Some (r, rs1)\<rparr>"
            have ok1: "refs_ok (Some ?s)" using ok by (simp add: refs_ok_def)
            show ?thesis
            proof (cases err)
              case None
              obtain w s1 where w: "refs_resolve upper os x ?s = (w, s1)" by (meson surj_pair)
              have "w = v" "s' = s1\<lparr>er_named := (er_named s1)(ref \<mapsto> v)\<rparr>"
                using run \<open>er_named s ref = None\<close> Some q x None w by (auto simp: resolveNamed_def)
              with refs_resolve_ok[OF ok1 w] s(2) that[of s1] show ?thesis by simp
            next
              case (Some y)
              then have "v = missing_value" "s' = ?s\<lparr>er_named := (er_named ?s)(ref \<mapsto> v)\<rparr>"
                using run \<open>er_named s ref = None\<close> \<open>er_names s = Some q\<close> q x by (auto simp: resolveNamed_def)
              with ok1 that[of ?s] show ?thesis by simp
            qed
          qed
          then show ?thesis using s(2) by (auto simp: refs_ok_def)
        qed
      qed
      with Some s s' show ?thesis by (simp add: refs_Secrets_def)
    qed
  qed
  then show "refs_ok refs'" "set (refs_Secrets refs) \<subseteq> set (refs_Secrets refs')"
    "if EnvRefKey t = None then v = \<lparr>vv_Text = t, vv_Missing = False, vv_Final = False\<rparr> else masked (refs_Secrets refs') v"
    "map_option er_withheld refs' = map_option er_withheld refs" by auto
qed

text \<open>The references of a run: what was resolved before the environment.\<close>

definition refs_after :: "(string \<Rightarrow> string) \<Rightarrow> (string \<Rightarrow> string option) \<Rightarrow> string list \<Rightarrow> (Resolver \<times> rstate) option \<Rightarrow> EnvRefs option" where
  "refs_after upper os texts names = fold (\<lambda>t refs. snd (ResolveDeclared upper os t refs)) texts (Some (NewEnvRefs names))"

lemma refs_after_ok: "refs_ok (refs_after upper os texts names) \<and> map_option er_withheld (refs_after upper os texts names) = Some False"
proof -
  have "refs_ok (fold (\<lambda>t refs. snd (ResolveDeclared upper os t refs)) texts refs) \<and>
      map_option er_withheld (fold (\<lambda>t refs. snd (ResolveDeclared upper os t refs)) texts refs) = map_option er_withheld refs"
    if "refs_ok refs" for refs using that
  proof (induction texts arbitrary: refs)
    case (Cons t texts)
    obtain v refs' where r: "ResolveDeclared upper os t refs = (v, refs')" by (meson surj_pair)
    from Cons.IH[OF ResolveDeclared_ok(1)[OF Cons.prems r]] ResolveDeclared_ok(4)[OF Cons.prems r] r show ?case by simp
  qed simp
  from this[of "Some (NewEnvRefs names)"] show ?thesis by (simp add: refs_after_def refs_ok_def NewEnvRefs_def)
qed

text \<open>A value of an environment: from the operating system under a reference, or as it was written.\<close>

definition env_inv :: "(string \<Rightarrow> string) \<Rightarrow> (string \<times> string) set \<Rightarrow> ResolvedEnv \<Rightarrow> bool" where
  "env_inv lower written r \<longleftrightarrow> nm_ok lower (re_vals r) \<and> refs_ok (re_refs r) \<and> smap_ok (re_plain r) \<and>
     (\<forall>(k, e)\<in>set (re_vals r). masked (refs_Secrets (re_refs r)) (nv_value e) \<and> k \<in> NameKey lower ` set (re_refNames r) \<or>
        \<not> vv_Final (nv_value e) \<and> vv_Text (nv_value e) \<in> snd ` {w \<in> written. EnvRefKey (snd w) = None}) \<and>
     (\<forall>(n, t)\<in>set (re_plain r). n \<in> set (re_refNames r) \<or> (n, t) \<in> written \<and> EnvRefKey t = None)"

lemma resolve_entry_inv:
  assumes "env_inv lower written r"
  shows "env_inv lower (insert (n, raw) written) (resolve_entry lower upper os (n, raw) r) \<and>
    map_option er_withheld (re_refs (resolve_entry lower upper os (n, raw) r)) = map_option er_withheld (re_refs r)"
proof -
  obtain v refs where run: "ResolveDeclared upper os raw (re_refs r) = (v, refs)" by (meson surj_pair)
  have rok: "refs_ok (re_refs r)" using assms by (simp add: env_inv_def)
  note d = ResolveDeclared_ok[OF rok run]
  let ?r = "resolve_entry lower upper os (n, raw) r"
  have f: "re_refs ?r = refs" "re_vals ?r = snd (nm_Set lower n v (re_vals r))"
    "re_plain ?r = (if vv_Missing v then re_plain r else smap_put n (vv_Text v) (re_plain r))"
    "re_refNames ?r = re_refNames r @ (if EnvRefKey raw \<noteq> None then [n] else [])"
    by (simp_all add: resolve_entry_def run)
  have vals: "set (re_vals ?r) \<subseteq> insert (NameKey lower n, \<lparr>nv_name = trim_white n, nv_value = v\<rparr>) (set (re_vals r))"
    unfolding f nm_Set_def Let_def using set_smap_put[of "NameKey lower n" "\<lparr>nv_name = trim_white n, nv_value = v\<rparr>" "re_vals r"] by auto
  have plain: "set (re_plain ?r) \<subseteq> (if vv_Missing v then {} else {(n, vv_Text v)}) \<union> set (re_plain r)"
    unfolding f using set_smap_put[of n "vv_Text v" "re_plain r"] by auto
  have sub: "snd ` {w \<in> written. EnvRefKey (snd w) = None} \<subseteq> snd ` {w \<in> insert (n, raw) written. EnvRefKey (snd w) = None}" by blast
  have "masked (refs_Secrets refs) (nv_value e) \<and> k \<in> NameKey lower ` set (re_refNames ?r) \<or>
      \<not> vv_Final (nv_value e) \<and> vv_Text (nv_value e) \<in> snd ` {w \<in> insert (n, raw) written. EnvRefKey (snd w) = None}"
    if "(k, e) \<in> set (re_vals ?r)" for k e
  proof (cases "(k, e) \<in> set (re_vals r)")
    case True
    then have "masked (refs_Secrets (re_refs r)) (nv_value e) \<and> k \<in> NameKey lower ` set (re_refNames r) \<or>
        \<not> vv_Final (nv_value e) \<and> vv_Text (nv_value e) \<in> snd ` {w \<in> written. EnvRefKey (snd w) = None}"
      using assms by (auto simp: env_inv_def)
    then show ?thesis using masked_more[OF _ d(2), of "nv_value e"] sub unfolding f by auto
  next
    case False
    with vals that have ke: "k = NameKey lower n" "nv_value e = v" by auto
    show ?thesis
    proof (cases "EnvRefKey raw")
      case None
      with d(3) have "v = \<lparr>vv_Text = raw, vv_Missing = False, vv_Final = False\<rparr>" by simp
      then show ?thesis using ke None by force
    next
      case (Some x)
      with d(3) ke show ?thesis unfolding f by simp
    qed
  qed
  moreover have "m \<in> set (re_refNames ?r) \<or> (m, t) \<in> insert (n, raw) written \<and> EnvRefKey t = None" if "(m, t) \<in> set (re_plain ?r)" for m t
  proof (cases "(m, t) \<in> set (re_plain r)")
    case True
    then have "m \<in> set (re_refNames r) \<or> (m, t) \<in> written \<and> EnvRefKey t = None" using assms by (auto simp: env_inv_def)
    then show ?thesis unfolding f by auto
  next
    case False
    with plain that have "m = n" "t = vv_Text v" by (auto split: if_split_asm)
    then show ?thesis using d(3) unfolding f by (cases "EnvRefKey raw") auto
  qed
  moreover have "nm_ok lower (re_vals ?r)" "smap_ok (re_plain ?r)"
    using assms unfolding f by (simp_all add: env_inv_def nm_ok_Set smap_ok_put)
  ultimately show ?thesis using d(1,4) unfolding env_inv_def f(1) by blast
qed

lemma ResolveWith_inv:
  assumes "refs_ok refs"
  shows "env_inv lower (set (ev_values e)) (ResolveWith lower upper os e refs) \<and>
    map_option er_withheld (re_refs (ResolveWith lower upper os e refs)) = map_option er_withheld refs"
proof -
  have "env_inv lower (written \<union> set kvs) (fold (resolve_entry lower upper os) kvs r) \<and>
      map_option er_withheld (re_refs (fold (resolve_entry lower upper os) kvs r)) = map_option er_withheld (re_refs r)"
    if "env_inv lower written r" for kvs written r using that
  proof (induction kvs arbitrary: written r)
    case (Cons kv kvs)
    obtain n raw where kv: "kv = (n, raw)" by (cases kv)
    have u: "insert (n, raw) written \<union> set kvs = written \<union> set (kv # kvs)" by (auto simp: kv)
    from resolve_entry_inv[OF Cons.prems, of n raw upper os] Cons.IH[of "insert (n, raw) written"] show ?case
      unfolding u by (simp add: kv)
  qed simp
  from this[of "{}"] assms show ?thesis by (simp add: ResolveWith_def env_inv_def)
qed

section \<open>Without the values of references\<close>

lemma smap_put_other: "smap_ok m \<Longrightarrow> (k', e) \<in> set (smap_put k v m) \<Longrightarrow> e = v \<and> k' = k \<or> (k', e) \<in> set m \<and> k' \<noteq> k"
proof -
  assume ok: "smap_ok m" and i: "(k', e) \<in> set (smap_put k v m)"
  have "map_of (smap_put k v m) k' = Some e" by (rule map_of_is_SomeI[OF smap_ok_distinct[OF smap_ok_put[OF ok]] i])
  then show ?thesis by (auto simp: map_of_smap_put split: if_split_asm dest: map_of_SomeD)
qed

lemma set_missing:
  "nm_ok lower m \<Longrightarrow> (k, e) \<in> set (fold (\<lambda>n m. snd (nm_Set lower n missing_value m)) ns m) \<Longrightarrow>
   nv_value e = missing_value \<or> (k, e) \<in> set m \<and> k \<notin> NameKey lower ` set ns"
proof (induction ns arbitrary: m)
  case (Cons n ns)
  let ?m = "snd (nm_Set lower n missing_value m)"
  have ok: "nm_ok lower ?m" by (rule nm_ok_Set[OF Cons.prems(1)])
  from Cons.prems(2) have "(k, e) \<in> set (fold (\<lambda>n m. snd (nm_Set lower n missing_value m)) ns ?m)" by simp
  from Cons.IH[OF ok this] show ?case
  proof
    assume a: "(k, e) \<in> set ?m \<and> k \<notin> NameKey lower ` set ns"
    show ?thesis
    proof (cases "NameKey lower n = []")
      case True
      then have "(k, e) \<in> set m" using a by (simp add: nm_Set_def)
      moreover from this have "k \<noteq> []" using Cons.prems(1) by (auto simp: nm_ok_def)
      ultimately show ?thesis using a True by auto
    next
      case False
      have "smap_ok m" using Cons.prems(1) by (simp add: nm_ok_def)
      from smap_put_other[OF this, of k e "NameKey lower n" "\<lparr>nv_name = trim_white n, nv_value = missing_value\<rparr>"] a False
      show ?thesis by (auto simp: nm_Set_def)
    qed
  qed simp
qed simp

lemma del_names: "smap_ok m \<Longrightarrow> (n, t) \<in> set (fold smap_del ns m) \<Longrightarrow> (n, t) \<in> set m \<and> n \<notin> set ns"
proof (induction ns arbitrary: m)
  case (Cons x ns)
  have ok: "smap_ok (smap_del x m)" by (rule smap_ok_del[OF Cons.prems(1)])
  from Cons.IH[OF ok] Cons.prems(2) have i: "(n, t) \<in> set (smap_del x m)" "n \<notin> set ns" by auto
  have "map_of (smap_del x m) n = Some t" by (rule map_of_is_SomeI[OF smap_ok_distinct[OF ok] i(1)])
  then have "map_of m n = Some t" "n \<noteq> x" using map_of_smap_del[OF Cons.prems(1), of x] by (auto split: if_split_asm)
  with i(2) show ?case by (auto dest: map_of_SomeD)
qed simp

text \<open>
  C17: every value that an environment takes from the operating system is kept for masking, whatever was resolved before; its
  other values are as they were written. Once the values of references are withheld, no text of the operating system is left
  in the environment, and what is masked stays masked.
\<close>

theorem environment_masks_os_values:
  "(let r = ResolveWith lower upper os e (refs_after upper os texts names); w = WithoutRefValues lower r;
        written = {x \<in> set (ev_values e). EnvRefKey (snd x) = None} in
    list_all (\<lambda>(k, nv). masked (refs_Secrets (re_refs r)) (nv_value nv) \<or> vv_Text (nv_value nv) \<in> snd ` written) (re_vals r) \<and>
    list_all (\<lambda>(k, nv). nv_value nv = missing_value \<or> vv_Text (nv_value nv) \<in> snd ` written) (re_vals w) \<and>
    set (re_plain w) \<subseteq> written \<and> refs_Secrets (re_refs w) = refs_Secrets (re_refs r))"
proof -
  let ?refs = "refs_after upper os texts names"
  let ?r = "ResolveWith lower upper os e ?refs"
  let ?w = "WithoutRefValues lower ?r" and ?written = "{x \<in> set (ev_values e). EnvRefKey (snd x) = None}"
  have i: "env_inv lower (set (ev_values e)) ?r" and h: "map_option er_withheld (re_refs ?r) = Some False"
    using ResolveWith_inv[of ?refs lower e upper os] refs_after_ok[of upper os texts names] by auto
  have vals: "masked (refs_Secrets (re_refs ?r)) (nv_value nv) \<and> k \<in> NameKey lower ` set (re_refNames ?r) \<or>
      \<not> vv_Final (nv_value nv) \<and> vv_Text (nv_value nv) \<in> snd ` ?written" if "(k, nv) \<in> set (re_vals ?r)" for k nv
    using i that by (auto simp: env_inv_def)
  have nw: "\<not> (case re_refs ?r of None \<Rightarrow> False | Some s \<Rightarrow> er_withheld s)" using h by (auto split: option.split)
  have w: "re_vals ?w = fold (\<lambda>n m. snd (nm_Set lower n missing_value m)) (re_refNames ?r) (re_vals ?r)"
    "re_plain ?w = fold smap_del (re_refNames ?r) (re_plain ?r)" "re_refs ?w = Some (withhold (re_refs ?r))"
    using nw by (simp_all add: WithoutRefValues_def Let_def)
  have "nv_value nv = missing_value \<or> vv_Text (nv_value nv) \<in> snd ` ?written" if "(k, nv) \<in> set (re_vals ?w)" for k nv
  proof -
    have "nm_ok lower (re_vals ?r)" using i by (simp add: env_inv_def)
    from set_missing[OF this that[unfolded w]] vals[of k nv] show ?thesis by blast
  qed
  moreover have "x \<in> ?written" if "x \<in> set (re_plain ?w)" for x
  proof -
    obtain n t where x: "x = (n, t)" by (cases x)
    have "smap_ok (re_plain ?r)" using i by (simp add: env_inv_def)
    from del_names[OF this, of n t "re_refNames ?r"] that have "(n, t) \<in> set (re_plain ?r)" "n \<notin> set (re_refNames ?r)" by (simp_all add: w x)
    then show ?thesis using i x by (auto simp: env_inv_def)
  qed
  moreover have "refs_Secrets (re_refs ?w) = refs_Secrets (re_refs ?r)"
    by (simp add: w refs_Secrets_def withhold_def NewEnvRefs_def split: option.split)
  ultimately show ?thesis using vals unfolding Let_def list_all_iff by blast
qed

end
