(* ===== verification/Spec2Isabelle.thy ===== *)
theory Spec2Isabelle
  imports RtsRun RtsGroup RtsLexerProps RtsParserProps RtsStdListProps RtsStdlib RtsEngine
    TunnelPoolRuns MockSelectProps MockJournal StreamManagerProps DirCall VarsResolverProps VarsCatalogProps VarsDotenvProps VarsEnv
begin

text \<open>
  Resterm is a terminal client for HTTP, gRPC, WebSocket and SSE. This development models the parts of it that carry
  logic of their own: its programming language RestermScript (\<open>internal/rts\<close>), which decides conditions, loops,
  assertions, captures and mock answers in request files; the grammar of the directives of those files
  (\<open>internal/directive\<close>); variables and environments (\<open>internal/vars\<close>); the mock server's conditions, choice of answers and journal
  (\<open>internal/mock\<close>); the sessions of event streams and their table (\<open>internal/stream\<close>); and the pool of tunnel sessions
  (\<open>internal/tunnel\<close>).

  \<^bold>\<open>How the parts interact.\<close> The lexer turns bytes into tokens and inserts semicolons; the parser turns
  tokens into the syntax tree and rejects misplaced control statements; the virtual machine runs the
  tree on environments kept in a store, counts every step, and calls native functions of the standard
  library through one interface; the engine assembles the bindings of an evaluation and loads modules. The mock server
  compiles the conditions of a request file into tests, picks a variant and a response of a route by them, and records
  the requests it served. Catalogs make environments of layers of values, and resolvers expand the placeholders of a
  request from providers over them; values may name variables of the process or of a dotenv file. A stream session hands the events of a
  connection to its listeners, and a table of sessions runs hooks when one ends; the tunnel pool shares
  the connections under it between requests. The last three are used by many goroutines at once.

  \<^bold>\<open>The libraries below the components.\<close>
  \<^item> \<open>Prelude\<close>: bytes, canonical maps (\<open>smap\<close>: Go maps with string keys, sorted), results and lists.
  \<^item> \<open>GoText\<close>, \<open>GoStrings\<close>, \<open>GoFloat\<close>, \<open>GoJson\<close>, \<open>GoParse\<close>, \<open>GoEncode\<close>, \<open>GoMime\<close>: what the sources use of Go's \<open>fmt\<close>,
    \<open>strings\<close>, \<open>utf8\<close>, \<open>strconv\<close>, \<open>math\<close>, \<open>encoding\<close>, \<open>net/url\<close> and \<open>mime\<close>. \<open>GoFloatProps\<close>: float64 is ordered as
    the reals it stands for, and integers below 2^53 are exact.
  \<^item> \<open>Machines\<close>: runs of operations and interleavings of steps, with the locales \<open>refines_machine\<close> (same answers as an
    abstract machine) and \<open>keeps_invariant\<close>.

  \<^bold>\<open>RestermScript.\<close>
  \<^item> \<open>RtsToken\<close> (\<open>token.go\<close>, \<open>pos.go\<close>), \<open>RtsLexer\<close> and \<open>RtsLexerProps\<close> (\<open>lexer.go\<close>; the spans of the tokens, and what the
    text of a string says by the relation \<open>quoted\<close>), \<open>RtsAst\<close> (\<open>ast.go\<close>), \<open>RtsParser\<close> and
    \<open>RtsParserProps\<close> (\<open>parser.go\<close>), \<open>RtsGroup\<close> (\<open>group.go\<close> and the module head scan of \<open>resolve.go\<close>).
  \<^item> \<open>RtsValue\<close> (\<open>value.go\<close>, \<open>conv.go\<close>, \<open>ctx.go\<close>, \<open>limits.go\<close>, \<open>result.go\<close>, \<open>modobj.go\<close>), \<open>RtsVm\<close> (\<open>vm.go\<close>, \<open>ctx.go\<close>).
    \<open>RtsVmProps\<close>: what one level of the machine keeps, as the locale \<open>vm_level\<close>. \<open>RtsVmRuns\<close>: fuel and the step
    budget, as the judgement \<open>runs\<close> and the locale \<open>run_level\<close>. \<open>RtsRun\<close>: both locales interpreted on
    the machine, and the properties of whole runs.
  \<^item> \<open>RtsArgs\<close> (\<open>args.go\<close>, \<open>call.go\<close>): the checks of natives and the locale \<open>native_function\<close>, which the natives of
    \<open>RtsStdList\<close>, \<open>RtsStdDict\<close>, \<open>RtsStdMath\<close>, \<open>RtsStdText\<close>, \<open>RtsStdCore\<close> (\<open>core.go\<close>, \<open>types.go\<close>) and \<open>RtsStdEncode\<close>
    (\<open>base64.go\<close>, \<open>url.go\<close>, \<open>encoding.go\<close>) interpret; \<open>RtsStdListProps\<close> and the ends of the others say what the
    functions compute. \<open>RtsStdlib\<close> (\<open>stdlib.go\<close>): the names of the library.
  \<^item> \<open>RtsEngine\<close> (\<open>engine.go\<close>, \<open>resolve.go\<close>, \<open>shadow.go\<close>, \<open>module.go\<close>): prelude, module cache and evaluation. The file
    system, the working directory and extensions of the library are parameters.

  \<^bold>\<open>Directives of request files.\<close>
  \<^item> \<open>GoRunes\<close>: strings as texts of code points, which decode to them again. \<open>DirWord\<close> (\<open>word.go\<close>): words, quoted and bare.
    \<open>DirLexer\<close> (\<open>lexer.go\<close>): the scanner of fields, their spans, and that written words are read back. \<open>DirOption\<close>
    (\<open>option.go\<close>, \<open>value.go\<close>): options, aliases, conflicts and what is left over. \<open>DirCall\<close> (\<open>call.go\<close>, \<open>scope.go\<close>,
    \<open>spec.go\<close>, \<open>name.go\<close>): calls and the table of directives.

  \<^bold>\<open>Variables and environments.\<close>
  \<^item> \<open>VarsNames\<close> (\<open>names.go\<close>): tables of names known by their key, with the locale \<open>name_table\<close>. \<open>VarsTemplate\<close>
    (\<open>template.go\<close>): texts cut at their placeholders. \<open>VarsResolver\<close> (\<open>resolver.go\<close>, \<open>trace.go\<close>): lookup by provider, expansion
    along a chain of names, the table of expanded values and the trace; the recursion ends because the chain is at most
    16 names long. \<open>VarsResolverProps\<close>: lenient rendering, pinned values, and the refinement of plain substitution, which
    is the mutual relation \<open>variable_is\<close>, \<open>placeholder_is\<close>, \<open>expands\<close>; providers enter by the locale \<open>name_provider\<close>.
  \<^item> \<open>VarsCatalog\<close> (\<open>catalog.go\<close>) and \<open>VarsSelection\<close> (\<open>selection.go\<close>, \<open>scope.go\<close>, \<open>intent.go\<close>, \<open>targets.go\<close>): loading, choosing
    and naming environments; \<open>VarsCatalogProps\<close>: what a catalog looks like, that selections and values are well defined
    and that scopes tell selections apart. \<open>VarsDotenv\<close> and \<open>VarsDotenvProps\<close> (\<open>dotenv.go\<close>): dotenv files and that written
    values are read back. \<open>VarsEnv\<close> (\<open>refs.go\<close>, \<open>resolved_env.go\<close>, \<open>globals.go\<close>): values of the operating system and
    their masking. \<open>strings.ToLower\<close>, \<open>strings.EqualFold\<close>, SHA-256, the variables of the process, expressions and helpers
    are parameters. JSON files enter as their fields. The order in which Go reads a map is part of the input, and the order
    in which \<open>mapName\<close> looks through one is the field \<open>cs_visit\<close>, which differs from call to call; where only the error
    that is reported depends on the order, the model reports that of the first name.

  \<^bold>\<open>Mock server.\<close>
  \<^item> \<open>MockNumber\<close> (\<open>number.go\<close>): numbers of any precision compared exactly, up to the limit of \<open>10^18\<close> places on their size. \<open>MockJson\<close> (\<open>match.go\<close>, \<open>json.go\<close>,
    \<open>json_rules.go\<close>): decoding, comparison and rules of JSON bodies. \<open>MockRules\<close> (\<open>rules.go\<close>, \<open>query.go\<close>, \<open>header.go\<close>):
    conditions on the query and the headers.
  \<^item> \<open>MockSelect\<close> and \<open>MockSelectProps\<close> (\<open>select.go\<close>, \<open>sequence.go\<close>): the variant and response a request gets, and the
    cursors of response sequences. \<open>MockJournal\<close> (\<open>journal.go\<close>, \<open>pattern.go\<close>, \<open>verify.go\<close>): the requests served, within
    limits of number and size, and how they are counted.

  \<^bold>\<open>Goroutines.\<close>
  \<^item> \<open>TunnelPool\<close> (\<open>pool.go\<close>): one step per critical section of the pool's mutex. \<open>TunnelSlots\<close>: an abstract machine of
    reservations per key; \<open>TunnelPoolProps\<close>: the pool refines it (locale \<open>simulates\<close>); \<open>TunnelPoolRuns\<close>: runs.
  \<^item> \<open>StreamRing\<close> (\<open>ringbuffer.go\<close>), \<open>StreamSession\<close> (\<open>session.go\<close>, \<open>event.go\<close>): one step per critical section or channel
    operation. \<open>StreamSessionProps\<close>: invariants of locks, identities, events and offers. \<open>StreamRuns\<close>: closing, the
    transcript, and what sessions promise over every interleaving.
  \<^item> \<open>StreamManager\<close> (\<open>manager.go\<close>): the table of sessions over the steps of the sessions themselves.
    \<open>StreamManagerProps\<close>: what it relies on (locale \<open>stream_source\<close>), hooks, and the calls that can panic.

  \<^bold>\<open>State.\<close> \<open>Vm\<close> is the mutable part of \<open>Ctx\<close> and of the environments: the step counter, the call depth and
  stack, the store of environments, and the exports of the module. \<open>Rt\<close> is what an evaluation reads:
  limits, host objects, the clock and the cancellation. An error, an abort and the signals of
  \<open>return\<close>, \<open>break\<close> and \<open>continue\<close> are the left side of a sum. Lists and dicts are values that nothing changes in place,
  as the code keeps them by copying before it writes. \<open>Pool\<close>, \<open>sys\<close> and \<open>Manager\<close> are what goroutines share, with a
  program counter for each of them; a step that is \<open>None\<close> is one a goroutine cannot take now.

  \<^bold>\<open>Fuel.\<close> The evaluator recurses through a level number \<open>n\<close>; at level 0 it answers the marker \<open>OutOfFuel\<close>.
  With a positive \<open>MaxSteps\<close> the level \<open>2 * MaxSteps + 1\<close> is enough: every nesting of an evaluation or a call
  takes a step, and the property \<open>eval_source_terminates\<close> and the theorem \<open>module_run_terminates\<close> show that the
  marker never comes out and that a larger level changes nothing; \<open>engine_terminates\<close> shows the same of the engine. The
  JSON decoder has the fuel \<open>Suc (2 * length s)\<close>, which its lemmas show to be enough. The lexer and the parser recurse
  with measures of their own and need no fuel parameter in their interface.

  \<^bold>\<open>Not modelled.\<close> The rest of resterm: terminal interface, protocols, request file format, history and
  importers, which are listed as components with the reason. Of the standard library, the namespaces
  over the clock, random numbers, hashes, JSON, headers and queries are left out; a configuration may hold any
  natives that keep the interface. Unicode case tables (the parameter \<open>lower\<close>), regular expressions, the checks of \<open>httpguts\<close> and the router
  of \<open>net/http\<close> are parameters. Time stamps are values that may be anything.
\<close>

end
